(* ===== verification/Prelude.thy ===== *)
theory Prelude
  imports Main "HOL-Library.Word" "HOL-Library.Monad_Syntax" "HOL-Library.Signed_Division"
begin

unbundle bit_operations_syntax

text \<open>
  Shared vocabulary of the development.

  The code is C with fixed widths, so \<open>unsigned char\<close>, \<open>unsigned short\<close> and
  \<open>unsigned int\<close> are words of 8, 16 and 32 bits and their arithmetic wraps as the
  code's does. A \<open>short\<close> is a 16-bit word too, read with \<open>sint\<close> where the source
  compares or divides it as signed; a plain \<open>int\<close> is an \<open>int\<close> (its overflow is
  undefined in C) and a cast of it to \<open>unsigned\<close> is written out.

  An array is a list. A read or a write outside it is undefined behaviour in C: it is the
  value \<open>None\<close> here, so an operation that returns \<open>Some\<close> has touched only memory
  that belongs to its arrays.
\<close>

type_synonym u8 = "8 word"
type_synonym u16 = "16 word"
type_synonym u32 = "32 word"

named_theorems mem_simps "reading and writing C arrays"
named_theorems word_nat "moving word arithmetic to nat"

subsection \<open>C arrays\<close>

definition rd_at :: "'a list \<Rightarrow> nat \<Rightarrow> 'a option" where
  "rd_at xs i = (if i < length xs then Some (xs ! i) else None)"

definition wr_at :: "'a list \<Rightarrow> nat \<Rightarrow> 'a \<Rightarrow> 'a list option" where
  "wr_at xs i v = (if i < length xs then Some (xs[i := v]) else None)"

lemma rd_at_in [mem_simps]: "i < length xs \<Longrightarrow> rd_at xs i = Some (xs ! i)"
  by (simp add: rd_at_def)

lemma rd_at_out: "length xs \<le> i \<Longrightarrow> rd_at xs i = None"
  by (simp add: rd_at_def)

lemma wr_at_in [mem_simps]: "i < length xs \<Longrightarrow> wr_at xs i v = Some (xs[i := v])"
  by (simp add: wr_at_def)

lemma wr_at_out: "length xs \<le> i \<Longrightarrow> wr_at xs i v = None"
  by (simp add: wr_at_def)

lemma rd_at_Some_iff: "rd_at xs i = Some x \<longleftrightarrow> i < length xs \<and> x = xs ! i"
  by (auto simp: rd_at_def)

lemma wr_at_Some_iff: "wr_at xs i v = Some ys \<longleftrightarrow> i < length xs \<and> ys = xs[i := v]"
  by (auto simp: wr_at_def)

subsection \<open>Words as numbers\<close>

lemma unat_u16_less [simp]: "unat (x :: u16) < 65536"
  using unsigned_less [of x] by simp

lemma unat_succ_u16 [word_nat]: "unat (x :: u16) + 1 < 65536 \<Longrightarrow> unat (x + 1) = unat x + 1"
  by (simp add: unat_word_ariths)

lemma unat_pred_u16 [word_nat]: "x \<noteq> (0 :: u16) \<Longrightarrow> unat (x - 1) = unat x - 1"
  by (simp add: unat_minus_one)

lemma unat_of_nat_u16 [word_nat]: "n < 65536 \<Longrightarrow> unat (of_nat n :: u16) = n"
  by (simp add: unat_of_nat take_bit_nat_eq_self)

lemma unat_add_u16 [word_nat]:
  "unat (x :: u16) + unat y < 65536 \<Longrightarrow> unat (x + y) = unat x + unat y"
  by (simp add: unat_word_ariths)

lemma unat_sub_u16 [word_nat]: "(y :: u16) \<le> x \<Longrightarrow> unat (x - y) = unat x - unat y"
  by (rule unat_sub)

lemma of_nat_unat_u16 [simp]: "of_nat (unat x) = (x :: u16)"
  by simp

lemma unat_min_u16 [word_nat]: "unat (min (x :: u16) y) = min (unat x) (unat y)"
  by (simp add: min_def word_le_nat_alt)

text \<open>The smaller of two counts, as the code selects it.\<close>

lemma u16_select_min: "unat (if c > n then n else c) = min (unat c) (unat (n :: u16))"
  by (auto simp: word_less_nat_alt)

text \<open>Narrowing an \<open>int\<close> to \<open>short\<close>, as a C cast or a store into one does.\<close>

definition short_of :: "int \<Rightarrow> int" where
  "short_of i = (i + 32768) mod 65536 - 32768"

lemma short_of_word: "short_of i = sint (of_int i :: u16)"
  by (simp add: short_of_def int_word_sint)

lemma short_of_id [simp]: "-32768 \<le> i \<Longrightarrow> i < 32768 \<Longrightarrow> short_of i = i"
  by (simp add: short_of_def)

lemma short_of_succ:
  assumes "0 \<le> i" and "i < 65535"
  shows "short_of (i + 1) = (if i < 32767 then i + 1 else i - 65535)"
proof (cases "i < 32767")
  case False
  have "(i + 1 + 32768) mod 65536 = ((i - 32767) + 65536) mod 65536"
    by (rule arg_cong [where f = "\<lambda>x. x mod 65536"]) simp
  also have "\<dots> = (i - 32767) mod 65536" by (rule mod_add_self2)
  also have "\<dots> = i - 32767" using False assms by (intro mod_pos_pos_trivial) simp_all
  finally show ?thesis using False by (simp add: short_of_def)
qed (use assms in simp)

lemma short_of_range: "-32768 \<le> short_of i" "short_of i < 32768"
  by (simp_all add: short_of_def)

lemma abs_sdiv_le: "\<bar>(a :: int) sdiv b\<bar> \<le> \<bar>a\<bar>"
proof (cases "b = 0")
  case False
  then have "\<bar>a\<bar> div \<bar>b\<bar> \<le> \<bar>a\<bar> div 1" by (intro zdiv_mono2) auto
  moreover have "0 \<le> \<bar>a\<bar> div \<bar>b\<bar>" using False by (simp add: pos_imp_zdiv_nonneg_iff)
  ultimately show ?thesis by (simp add: signed_divide_int_def abs_mult abs_sgn_eq)
qed (simp add: signed_divide_int_def)

lemma ucast_u8_u16 [simp]: "ucast (ucast (v :: u8) :: u16) = v"
  by (simp add: ucast_up_ucast is_up)

lemma u16_eq_nat_iff: "(x :: u16) = y \<longleftrightarrow> unat x = unat y"
  by (simp add: word_unat_eq_iff)

end
