(* ===== verification/Ring.thy ===== *)
theory Ring
  imports Prelude
begin

text \<open>
  The ring walk shared by every FIFO of the library: a cursor that advances one element at
  a time and goes back to 0 when it reaches the sz, an occupancy count beside it. The
  functions are the loops of \<^verbatim>\<open>FIFO_read\<close>, \<^verbatim>\<open>FIFO_write\<close>,
  \<^verbatim>\<open>FIFO8_read\<close> and \<^verbatim>\<open>FIFO8_write\<close>, which differ only in the element type; the
  lemmas say what a walk reads and writes. The locale \<open>bounded_queue\<close> is the contract of
  a bounded FIFO as its clients see it.
\<close>

subsection \<open>The loops\<close>

definition ring_next :: "u16 \<Rightarrow> u16 \<Rightarrow> u16" where
  "ring_next sz p = (if sz \<le> p + 1 then 0 else p + 1)"

fun ring_get :: "'a list \<Rightarrow> u16 \<Rightarrow> u16 \<Rightarrow> nat \<Rightarrow> ('a list \<times> u16) option" where
  "ring_get buf sz rd 0 = Some ([], rd)"
| "ring_get buf sz rd (Suc n) = do {
     x \<leftarrow> rd_at buf (unat rd);
     (xs, rd') \<leftarrow> ring_get buf sz (ring_next sz rd) n;
     Some (x # xs, rd')
   }"

fun ring_put :: "'a list \<Rightarrow> u16 \<Rightarrow> u16 \<Rightarrow> nat \<Rightarrow> 'a list \<Rightarrow> ('a list \<times> u16) option" where
  "ring_put buf sz wr 0 src = Some (buf, wr)"
| "ring_put buf sz wr (Suc n) src = do {
     x \<leftarrow> rd_at src 0;
     buf' \<leftarrow> wr_at buf (unat wr) x;
     ring_put buf' sz (ring_next sz wr) n (tl src)
   }"

subsection \<open>What the ring holds\<close>

definition ring_seg :: "'a list \<Rightarrow> nat \<Rightarrow> nat \<Rightarrow> nat \<Rightarrow> 'a list" where
  "ring_seg buf sz rd n = map (\<lambda>i. buf ! ((rd + i) mod sz)) [0..<n]"

definition ring_wf :: "'a list \<Rightarrow> u16 \<Rightarrow> u16 \<Rightarrow> u16 \<Rightarrow> u16 \<Rightarrow> bool" where
  "ring_wf buf sz rd wr count \<longleftrightarrow>
     0 < unat sz \<and> unat sz \<le> length buf \<and> unat rd < unat sz \<and>
     unat count \<le> unat sz \<and> unat wr = (unat rd + unat count) mod unat sz"

lemma ring_seg_0 [simp]: "ring_seg buf sz rd 0 = []"
  by (simp add: ring_seg_def)

lemma length_ring_seg [simp]: "length (ring_seg buf sz rd n) = n"
  by (simp add: ring_seg_def)

lemma nth_ring_seg [simp]: "i < n \<Longrightarrow> ring_seg buf sz rd n ! i = buf ! ((rd + i) mod sz)"
  by (simp add: ring_seg_def)

lemma ring_seg_mod: "ring_seg buf sz (rd mod sz) n = ring_seg buf sz rd n"
  by (simp add: ring_seg_def mod_add_left_eq)

lemma ring_seg_add:
  "ring_seg buf sz rd (m + n) = ring_seg buf sz rd m @ ring_seg buf sz (rd + m) n"
  by (rule nth_equalityI) (auto simp: nth_append add.assoc)

lemma ring_seg_Suc:
  "ring_seg buf sz rd (Suc n) = buf ! (rd mod sz) # ring_seg buf sz (Suc rd) n"
  by (rule nth_equalityI) (auto simp: nth_Cons split: nat.split)

lemma ring_wf_wr: "ring_wf buf sz rd wr count \<Longrightarrow> unat wr < unat sz"
  by (simp add: ring_wf_def)

subsection \<open>The walks\<close>

lemma unat_ring_next:
  assumes "unat p < unat sz"
  shows "unat (ring_next sz p) = Suc (unat p) mod unat sz"
proof -
  have "unat sz < 65536" by simp
  with assms have "unat (p + 1) = unat p + 1" by (intro unat_succ_u16) linarith
  with assms show ?thesis
    by (auto simp: ring_next_def word_le_nat_alt mod_Suc)
qed

lemma ring_get_correct:
  assumes "unat rd < unat sz" and "unat sz \<le> length buf"
  shows "ring_get buf sz rd n =
    Some (ring_seg buf (unat sz) (unat rd) n, of_nat ((unat rd + n) mod unat sz))"
  using assms(1)
proof (induction n arbitrary: rd)
  case 0
  then show ?case by simp
next
  case (Suc n)
  have nxt: "unat (ring_next sz rd) = Suc (unat rd) mod unat sz"
    using Suc.prems by (rule unat_ring_next)
  moreover have "Suc (unat rd) mod unat sz < unat sz" using Suc.prems by simp
  ultimately have "ring_get buf sz (ring_next sz rd) n =
    Some (ring_seg buf (unat sz) (Suc (unat rd)) n,
          of_nat ((Suc (unat rd) + n) mod unat sz))"
    using Suc.IH [of "ring_next sz rd"] by (simp add: ring_seg_mod mod_add_left_eq)
  with Suc.prems assms(2) show ?case
    by (simp add: mem_simps ring_seg_Suc)
qed

definition ring_written :: "'a list \<Rightarrow> nat \<Rightarrow> nat \<Rightarrow> 'a list \<Rightarrow> 'a list \<Rightarrow> bool" where
  "ring_written buf sz wr xs buf' \<longleftrightarrow>
     length buf' = length buf \<and>
     (\<forall>i < length xs. buf' ! ((wr + i) mod sz) = xs ! i) \<and>
     (\<forall>j < length buf. (\<forall>i < length xs. j \<noteq> (wr + i) mod sz) \<longrightarrow> buf' ! j = buf ! j)"

lemma ring_offset_inj:
  assumes "(a + i) mod s = (a + j) mod s" and "i < s" and "j < (s :: nat)"
  shows "i = j"
proof -
  have "i mod s = j mod s"
    using assms(1) by (simp add: mod_eq_iff_dvd_symdiff_nat)
  with assms show ?thesis by simp
qed

lemma ring_put_correct:
  assumes "unat wr < unat sz" and "unat sz \<le> length buf"
    and "n \<le> length src" and "n \<le> unat sz"
  shows "\<exists>buf'. ring_put buf sz wr n src = Some (buf', of_nat ((unat wr + n) mod unat sz)) \<and>
    ring_written buf (unat sz) (unat wr) (take n src) buf'"
  using assms
proof (induction n arbitrary: wr buf src)
  case 0
  then show ?case by (simp add: ring_written_def)
next
  case (Suc n)
  let ?s = "unat sz"
  from Suc.prems obtain x xs where src: "src = x # xs" by (cases src) auto
  let ?b = "buf[unat wr := x]"
  have nxt: "unat (ring_next sz wr) = Suc (unat wr) mod ?s"
    using Suc.prems(1) by (rule unat_ring_next)
  have "0 < ?s" using Suc.prems(1) by simp
  then obtain buf' where
    put: "ring_put ?b sz (ring_next sz wr) n xs =
      Some (buf', of_nat ((unat (ring_next sz wr) + n) mod ?s))" and
    wr: "ring_written ?b ?s (unat (ring_next sz wr)) (take n xs) buf'"
    using Suc.IH [of "ring_next sz wr" ?b xs] Suc.prems by (auto simp: nxt src)
  have off: "\<And>i. (unat (ring_next sz wr) + i) mod ?s = (unat wr + Suc i) mod ?s"
    by (simp add: nxt mod_add_left_eq)
  have fresh: "unat wr \<noteq> (unat wr + Suc i) mod ?s" if "i < n" for i
    using ring_offset_inj [of "unat wr" 0 ?s "Suc i"] that Suc.prems by auto
  have "ring_written buf ?s (unat wr) (take (Suc n) src) buf'"
    unfolding ring_written_def
  proof (intro conjI allI impI)
    show "length buf' = length buf" using wr by (simp add: ring_written_def)
  next
    fix i assume i: "i < length (take (Suc n) src)"
    show "buf' ! ((unat wr + i) mod ?s) = take (Suc n) src ! i"
    proof (cases i)
      case 0
      have "buf' ! unat wr = ?b ! unat wr"
        using wr Suc.prems fresh by (auto simp: ring_written_def off)
      with 0 Suc.prems src show ?thesis by simp
    next
      case (Suc k)
      with i src wr show ?thesis by (auto simp: ring_written_def off)
    qed
  next
    fix j assume j: "j < length buf" and ne: "\<forall>i < length (take (Suc n) src). j \<noteq> (unat wr + i) mod ?s"
    have "j \<noteq> unat wr" using ne Suc.prems src by force
    moreover have "j \<noteq> (unat wr + Suc i) mod ?s" if "i < length (take n xs)" for i
      using ne [rule_format, of "Suc i"] that src by auto
    ultimately show "buf' ! j = buf ! j" using wr j by (simp add: ring_written_def off)
  qed
  moreover have "ring_put buf sz wr (Suc n) src = Some (buf', of_nat ((unat wr + Suc n) mod ?s))"
    using put Suc.prems by (simp add: src mem_simps off)
  ultimately show ?case by blast
qed

lemma ring_written_seg:
  assumes "ring_written buf sz ((rd + count) mod sz) xs buf'"
    and "0 < sz" and "sz \<le> length buf" and "count + length xs \<le> sz"
  shows "ring_seg buf' sz rd (count + length xs) = ring_seg buf sz rd count @ xs"
proof (rule nth_equalityI)
  fix i assume "i < length (ring_seg buf' sz rd (count + length xs))"
  then have i: "i < count + length xs" by simp
  show "ring_seg buf' sz rd (count + length xs) ! i = (ring_seg buf sz rd count @ xs) ! i"
  proof (cases "i < count")
    case True
    have "(rd + i) mod sz \<noteq> (rd + (count + k)) mod sz" if "k < length xs" for k
      using ring_offset_inj [of rd i sz "count + k"] True that assms(4) by auto
    moreover have "(rd + i) mod sz < length buf"
      using assms(2,3) by (meson less_le_trans mod_less_divisor)
    ultimately have "buf' ! ((rd + i) mod sz) = buf ! ((rd + i) mod sz)"
      using assms(1) by (auto simp: ring_written_def mod_add_left_eq add.assoc)
    with True i show ?thesis by (simp add: nth_append)
  next
    case False
    then obtain k where k: "i = count + k" "k < length xs"
      using i by (metis add_less_cancel_left le_add_diff_inverse linorder_not_less)
    with assms(1) i show ?thesis
      by (auto simp: ring_written_def mod_add_left_eq add.assoc nth_append)
  qed
qed simp

definition ring_held :: "'a list \<Rightarrow> u16 \<Rightarrow> u16 \<Rightarrow> u16 \<Rightarrow> 'a list" where
  "ring_held buf sz rd count = ring_seg buf (unat sz) (unat rd) (unat count)"

lemma length_ring_held [simp]: "length (ring_held buf sz rd count) = unat count"
  by (simp add: ring_held_def)

lemma unat_of_nat_mod:
  assumes "0 < unat (sz :: u16)"
  shows "unat (of_nat (k mod unat sz) :: u16) = k mod unat sz"
proof (rule unat_of_nat_u16)
  have "k mod unat sz < unat sz" using assms by simp
  also have "\<dots> < 65536" by simp
  finally show "k mod unat sz < 65536" .
qed

text \<open>Taking \<open>t\<close> of the elements held, and adding \<open>p\<close> where there is room.\<close>

lemma ring_wf_get:
  assumes wf: "ring_wf buf sz rd wr count" and t: "unat t \<le> unat count"
  shows "\<exists>rd'. ring_get buf sz rd (unat t) = Some (take (unat t) (ring_held buf sz rd count), rd') \<and>
    ring_wf buf sz rd' wr (count - t) \<and>
    ring_held buf sz rd' (count - t) = drop (unat t) (ring_held buf sz rd count)"
proof -
  let ?s = "unat sz" and ?rd = "of_nat ((unat rd + unat t) mod unat sz) :: u16"
  from wf have s: "0 < ?s" "unat rd < ?s" "?s \<le> length buf" "unat count \<le> ?s"
    and w: "unat wr = (unat rd + unat count) mod ?s" by (auto simp: ring_wf_def)
  obtain m where m: "unat count = unat t + m" using t le_Suc_ex by blast
  have c: "unat (count - t) = m" using t m by (simp add: unat_sub_u16 word_le_nat_alt)
  have rd: "unat ?rd = (unat rd + unat t) mod ?s" using s(1) by (rule unat_of_nat_mod)
  have h: "ring_held buf sz rd count = ring_seg buf ?s (unat rd) (unat t) @ ring_seg buf ?s (unat rd + unat t) m"
    by (simp add: ring_held_def m ring_seg_add)
  have "ring_wf buf sz ?rd wr (count - t)"
    using s w m by (simp add: ring_wf_def rd c mod_add_left_eq add.assoc)
  moreover have "ring_held buf sz ?rd (count - t) = drop (unat t) (ring_held buf sz rd count)"
    by (simp add: h) (simp add: ring_held_def rd c ring_seg_mod)
  moreover have "ring_get buf sz rd (unat t) = Some (take (unat t) (ring_held buf sz rd count), ?rd)"
    using ring_get_correct [OF s(2,3), of "unat t"] by (simp add: h)
  ultimately show ?thesis by blast
qed

lemma ring_wf_put:
  assumes wf: "ring_wf buf sz rd wr count" and room: "unat count + unat p \<le> unat sz"
    and src: "unat p \<le> length src"
  shows "\<exists>buf' wr'. ring_put buf sz wr (unat p) src = Some (buf', wr') \<and>
    ring_wf buf' sz rd wr' (count + p) \<and> length buf' = length buf \<and>
    ring_held buf' sz rd (count + p) = ring_held buf sz rd count @ take (unat p) src"
proof -
  let ?s = "unat sz" and ?wr = "of_nat ((unat wr + unat p) mod unat sz) :: u16"
  from wf have s: "0 < ?s" "unat rd < ?s" "?s \<le> length buf" "unat count \<le> ?s"
    and w: "unat wr = (unat rd + unat count) mod ?s" by (auto simp: ring_wf_def)
  have wlt: "unat wr < ?s" using s w by simp
  have ps: "unat p \<le> ?s" using room by simp
  obtain b where put: "ring_put buf sz wr (unat p) src = Some (b, ?wr)"
    and wrt: "ring_written buf ?s (unat wr) (take (unat p) src) b"
    using ring_put_correct [OF wlt s(3) src ps] by blast
  have wr: "unat ?wr = (unat wr + unat p) mod ?s" using s(1) by (rule unat_of_nat_mod)
  have c: "unat (count + p) = unat count + unat p"
    using room unat_u16_less [of sz] by (intro unat_add_u16) (simp del: unat_u16_less)
  have len: "length b = length buf" using wrt by (simp add: ring_written_def)
  have "ring_wf b sz rd ?wr (count + p)"
    using s room wr by (simp add: ring_wf_def c len mod_add_left_eq add.assoc w)
  moreover have "ring_held b sz rd (count + p) = ring_held buf sz rd count @ take (unat p) src"
    using ring_written_seg [OF wrt [unfolded w] s(1,3)] room src by (simp add: ring_held_def c min_absorb2)
  ultimately show ?thesis using put len by blast
qed

subsection \<open>Clearing the buffer\<close>

text \<open>
  The clearing loop of \<^verbatim>\<open>FIFO_create\<close> and \<^verbatim>\<open>FIFO8_create\<close>: the cursor is a \<open>short\<close>, incremented and
  narrowed again on every pass, and compared with the capacity read as unsigned. At 32767
  it wraps to -32768, which is still below a larger capacity and indexes before the buffer.
\<close>

function ring_clear :: "int \<Rightarrow> u16 \<Rightarrow> 'a::zero list \<Rightarrow> 'a list option" where
  "ring_clear i sz buf =
     (if i < uint sz
      then if i < 0 then None
           else do {
             buf' \<leftarrow> wr_at buf (nat i) 0;
             ring_clear (short_of (i + 1)) sz buf'
           }
      else Some buf)"
  by pat_completeness auto
termination
proof (relation "measure (\<lambda>(i, sz :: u16, buf). if i < 0 then 0 else nat (uint sz - i) + 1)", simp)
  fix i :: int and sz :: u16 and buf buf' :: "'a list"
  assume *: "i < uint sz" "\<not> i < 0"
  have "uint sz < 65536" using uint_lt2p [of sz] by simp
  with * have "short_of (i + 1) = (if i < 32767 then i + 1 else i - 65535)"
    by (intro short_of_succ) simp_all
  with * \<open>uint sz < 65536\<close> show "((short_of (i + 1), sz, buf'), i, sz, buf)
      \<in> measure (\<lambda>(i, sz :: u16, buf). if i < 0 then 0 else nat (uint sz - i) + 1)"
    by (simp split: if_splits)
qed

declare ring_clear.simps [simp del]

lemma ring_clear_correct:
  assumes "k \<le> unat sz" and "unat sz \<le> 32767" and "unat sz \<le> length buf"
  shows "ring_clear (int k) sz buf = Some (take k buf @ replicate (unat sz - k) 0 @ drop (unat sz) buf)"
  using assms
proof (induction "unat sz - k" arbitrary: k buf)
  case 0
  have "uint sz = int (unat sz)" by simp
  with 0 show ?case by (subst ring_clear.simps) simp
next
  case (Suc m)
  let ?b = "buf[k := 0]"
  have k: "k < unat sz" "k < length buf" using Suc.hyps(2) Suc.prems by auto
  have u: "int k < uint sz" using k(1) by (metis of_nat_less_iff of_nat_unat)
  have "short_of (int k + 1) = int (Suc k)" using k Suc.prems(2) by simp
  moreover have "ring_clear (int (Suc k)) sz ?b =
      Some (take (Suc k) ?b @ replicate (unat sz - Suc k) 0 @ drop (unat sz) ?b)"
    using Suc.hyps Suc.prems k by (intro Suc.hyps(1)) auto
  ultimately show ?case
    using k u by (subst ring_clear.simps)
      (simp add: mem_simps take_Suc_conv_app_nth Suc_diff_Suc [symmetric] del: of_nat_Suc)
qed

lemma ring_clear_wraps:
  assumes "k \<le> 32767" and "32767 < unat sz" and "length buf = unat sz"
  shows "ring_clear (int k) sz buf = None"
  using assms
proof (induction "32767 - k" arbitrary: k buf)
  case 0
  then have k: "k = 32767" by simp
  have "(32767 :: int) < uint sz" using 0 by (metis of_nat_less_iff of_nat_numeral of_nat_unat)
  moreover have "short_of 32768 = -32768" by (simp add: short_of_def)
  ultimately show ?case using 0 k
    by (subst ring_clear.simps) (simp add: mem_simps ring_clear.simps [of "-32768"])
next
  case (Suc m)
  have u: "int k < uint sz" using Suc by (metis leD le_less_trans not_le_imp_less of_nat_less_iff of_nat_unat)
  have "short_of (int k + 1) = int (Suc k)" using Suc.hyps(2) by simp
  moreover have "ring_clear (int (Suc k)) sz (buf[k := 0]) = None"
    using Suc.hyps Suc.prems by (intro Suc.hyps(1)) auto
  ultimately show ?case using u Suc.prems
    by (subst ring_clear.simps) (simp add: mem_simps del: of_nat_Suc)
qed

subsection \<open>The contract of a bounded FIFO\<close>

text \<open>An operation on a FIFO: put a list, or get a number of elements; counts are 16-bit.\<close>

definition op_ok :: "'a list + nat \<Rightarrow> bool" where
  "op_ok op = (case op of Inl xs \<Rightarrow> length xs < 65536 | Inr n \<Rightarrow> n < 65536)"

text \<open>
  \<open>put q xs\<close> offers \<open>xs\<close> and answers how many were accepted; \<open>get q n\<close> asks for
  \<open>n\<close> and answers what came out. The laws: no operation leaves the invariant or changes
  the capacity, \<open>put\<close> accepts the longest prefix that fits, \<open>get\<close> removes from the
  front.
\<close>

locale bounded_queue =
  fixes inv :: "'q \<Rightarrow> bool"
    and cap :: "'q \<Rightarrow> nat"
    and held :: "'q \<Rightarrow> 'a list"
    and put :: "'q \<Rightarrow> 'a list \<Rightarrow> ('q \<times> nat) option"
    and get :: "'q \<Rightarrow> nat \<Rightarrow> ('q \<times> 'a list) option"
  assumes held_cap: "inv q \<Longrightarrow> length (held q) \<le> cap q"
    and put_law: "inv q \<Longrightarrow> length xs < 65536 \<Longrightarrow> n = min (length xs) (cap q - length (held q)) \<Longrightarrow>
      \<exists>q'. put q xs = Some (q', n) \<and> inv q' \<and> cap q' = cap q \<and> held q' = held q @ take n xs"
    and get_law: "inv q \<Longrightarrow> n < 65536 \<Longrightarrow>
      \<exists>q'. get q n = Some (q', take n (held q)) \<and> inv q' \<and> cap q' = cap q \<and>
        held q' = drop n (held q)"
begin

lemma put_all:
  assumes "inv q" and "length xs < 65536" and "length (held q) + length xs \<le> cap q"
  shows "\<exists>q'. put q xs = Some (q', length xs) \<and> inv q' \<and> cap q' = cap q \<and> held q' = held q @ xs"
proof -
  have "length xs = min (length xs) (cap q - length (held q))" using assms(3) by simp
  from put_law [OF assms(1,2) this] show ?thesis by simp
qed

lemma put_full:
  assumes "inv q" and "length xs < 65536" and "length (held q) = cap q"
  shows "\<exists>q'. put q xs = Some (q', 0) \<and> inv q' \<and> held q' = held q"
  using put_law [OF assms(1,2) refl] assms(3) by auto

lemma put_get_roundtrip:
  assumes "inv q" and "held q = []" and "length xs < 65536" and "length xs \<le> cap q"
  shows "\<exists>q' q''. put q xs = Some (q', length xs) \<and> get q' (length xs) = Some (q'', xs) \<and>
    inv q'' \<and> held q'' = [] \<and> cap q'' = cap q"
proof -
  obtain q' where q': "put q xs = Some (q', length xs)" "inv q'" "cap q' = cap q" "held q' = xs"
    using put_all [OF assms(1,3)] assms(2,4) by auto
  with get_law [OF q'(2) assms(3)] show ?thesis by auto
qed

text \<open>
  Any interleaving of puts and gets: what came out, followed by what is still held, is what
  was held at the start followed by what was accepted, in order. Nothing is lost,
  duplicated or reordered.
\<close>

fun run :: "'q \<Rightarrow> ('a list + nat) list \<Rightarrow> ('q \<times> 'a list \<times> 'a list) option" where
  "run q [] = Some (q, [], [])"
| "run q (Inl xs # ops) = do {
     (q', n) \<leftarrow> put q xs;
     (q'', ins, outs) \<leftarrow> run q' ops;
     Some (q'', take n xs @ ins, outs)
   }"
| "run q (Inr n # ops) = do {
     (q', ys) \<leftarrow> get q n;
     (q'', ins, outs) \<leftarrow> run q' ops;
     Some (q'', ins, ys @ outs)
   }"

lemma run_conserves:
  assumes "inv q" and "list_all op_ok ops"
  shows "\<exists>q' ins outs. run q ops = Some (q', ins, outs) \<and> inv q' \<and> cap q' = cap q \<and>
    held q @ ins = outs @ held q'"
  using assms
proof (induction ops arbitrary: q)
  case Nil
  then show ?case by simp
next
  case (Cons op ops)
  show ?case
  proof (cases op)
    case (Inl xs)
    with Cons.prems obtain q1 n where
      "put q xs = Some (q1, n)" "inv q1" "cap q1 = cap q" "held q1 = held q @ take n xs"
      using put_law [of q xs] by (auto simp: op_ok_def)
    with Cons.IH [of q1] Cons.prems Inl show ?thesis by fastforce
  next
    case (Inr n)
    with Cons.prems obtain q1 where
      "get q n = Some (q1, take n (held q))" "inv q1" "cap q1 = cap q" "held q1 = drop n (held q)"
      using get_law [of q n] by (auto simp: op_ok_def)
    moreover from this obtain q' ins outs where
      "run q1 ops = Some (q', ins, outs)" "inv q'" "cap q' = cap q" "held q1 @ ins = outs @ held q'"
      using Cons.IH [of q1] Cons.prems by auto
    ultimately show ?thesis using Inr
      by auto (metis append.assoc append_take_drop_id)
  qed
qed

end

end
