(* ===== verification/FaxFifo.thy ===== *)
theory FaxFifo
  imports Ring
begin

text \<open>
  The Class 1 fax FIFO of 16-bit elements, \<^verbatim>\<open>src/fax/fifo.c\<close> with the structures of
  \<^verbatim>\<open>include/dsplib/faxfifo.h\<close>. The state is \<open>fax_fifo\<close>; the operations are
  \<open>FIFO_create\<close>, \<open>FIFO_read\<close>, \<open>FIFO_write\<close> and \<open>FIFO_full_test\<close>. The
  theory shows that the ring implements the bounded queue of \<^verbatim>\<open>Ring\<close>, that a created FIFO
  is well formed, and what the fullness test really computes.
\<close>

record fifo_cfg =
  fc_word0 :: u16
  fc_size :: u16
  fc_fill :: u16

record fax_fifo =
  ff_short_000 :: u16
  ff_size :: u16
  ff_fill :: u16
  ff_buf :: "u16 list"
  ff_count :: u16
  ff_rd :: u16
  ff_wr :: u16

definition FIFO_CFG :: fifo_cfg where
  "FIFO_CFG = \<lparr>fc_word0 = 0, fc_size = 100, fc_fill = 0\<rparr>"

text \<open>The threshold of the fullness test, 0x399b.\<close>

definition FIFO_FULL_Q14 :: int where
  "FIFO_FULL_Q14 = 14747"

definition FIFO_create :: "fax_fifo option \<Rightarrow> fifo_cfg option \<Rightarrow> fax_fifo option" where
  "FIFO_create f cfg =
     (let config = (case cfg of Some c \<Rightarrow> c | None \<Rightarrow> FIFO_CFG);
          buf = (case f of Some g \<Rightarrow> ff_buf g | None \<Rightarrow> replicate (unat (fc_size config)) 0)
      in do {
        buf' \<leftarrow> ring_clear 0 (fc_size config) buf;
        Some \<lparr>ff_short_000 = fc_word0 config, ff_size = fc_size config, ff_fill = fc_fill config,
              ff_buf = buf', ff_count = 0, ff_rd = 0, ff_wr = 0\<rparr>
      })"

text \<open>
  \<open>FIFO_read f count\<close> answers the new FIFO, the \<open>count\<close> elements stored through
  \<open>dst\<close> (the shortfall padded with the fill element) and the number really taken.
\<close>

definition FIFO_read :: "fax_fifo \<Rightarrow> u16 \<Rightarrow> (fax_fifo \<times> u16 list \<times> u16) option" where
  "FIFO_read f count =
     (let take = (if ff_count f > count then count else ff_count f);
          pad = count - take
      in do {
        (xs, rd) \<leftarrow> ring_get (ff_buf f) (ff_size f) (ff_rd f) (unat take);
        Some (f\<lparr>ff_rd := rd, ff_count := ff_count f - take\<rparr>,
              xs @ replicate (unat pad) (ff_fill f), take)
      })"

text \<open>\<open>count\<close> is shifted left by 14 and narrowed to \<open>short\<close> before the division.\<close>

definition FIFO_full_test :: "fax_fifo \<Rightarrow> bool option" where
  "FIFO_full_test f =
     (let num = short_of (uint (ff_count f) * 2 ^ 14)
      in if ff_size f = 0 then None
         else Some (FIFO_FULL_Q14 \<le> short_of (num sdiv sint (ff_size f))))"

definition FIFO_write :: "fax_fifo \<Rightarrow> u16 list \<Rightarrow> u16 \<Rightarrow> (fax_fifo \<times> u16) option" where
  "FIFO_write f src count =
     (let avail = ff_size f - ff_count f;
          put = (if count > avail then avail else count)
      in do {
        (buf, wr) \<leftarrow> ring_put (ff_buf f) (ff_size f) (ff_wr f) (unat put) src;
        Some (f\<lparr>ff_buf := buf, ff_wr := wr, ff_count := ff_count f + put\<rparr>, put)
      })"

subsection \<open>Invariant and contents\<close>

definition fifo_wf :: "fax_fifo \<Rightarrow> bool" where
  "fifo_wf f \<longleftrightarrow> ring_wf (ff_buf f) (ff_size f) (ff_rd f) (ff_wr f) (ff_count f)"

definition fifo_held :: "fax_fifo \<Rightarrow> u16 list" where
  "fifo_held f = ring_held (ff_buf f) (ff_size f) (ff_rd f) (ff_count f)"

lemma length_fifo_held [simp]: "length (fifo_held f) = unat (ff_count f)"
  by (simp add: fifo_held_def)

lemma FIFO_create_fresh:
  assumes "unat (fc_size c) \<le> 32767"
  shows "FIFO_create None (Some c) = Some \<lparr>ff_short_000 = fc_word0 c, ff_size = fc_size c,
    ff_fill = fc_fill c, ff_buf = replicate (unat (fc_size c)) 0, ff_count = 0, ff_rd = 0, ff_wr = 0\<rparr>"
  using ring_clear_correct [of 0 "fc_size c" "replicate (unat (fc_size c)) (0 :: u16)"] assms
  by (simp add: FIFO_create_def)

lemma FIFO_read_correct:
  assumes wf: "fifo_wf f" and n: "n = min (unat (ff_count f)) (unat count)"
  shows "\<exists>f'. FIFO_read f count =
      Some (f', take n (fifo_held f) @ replicate (unat count - n) (ff_fill f), of_nat n) \<and>
    fifo_wf f' \<and> ff_size f' = ff_size f \<and> ff_fill f' = ff_fill f \<and>
    fifo_held f' = drop n (fifo_held f)"
proof -
  define t where "t = (if ff_count f > count then count else ff_count f)"
  have ut: "unat t = n" unfolding t_def u16_select_min n by simp
  have "unat t \<le> unat (ff_count f)" "unat t \<le> unat count" by (simp_all add: ut n)
  moreover have "unat (count - t) = unat count - n"
    using calculation(2) by (simp add: unat_sub_u16 word_le_nat_alt ut)
  ultimately show ?thesis
    using ring_wf_get [OF wf [unfolded fifo_wf_def], of t]
    by (auto simp: FIFO_read_def Let_def t_def [symmetric] ut fifo_wf_def fifo_held_def simp flip: ut)
qed

lemma FIFO_write_correct:
  assumes wf: "fifo_wf f" and src: "unat count \<le> length src"
    and n: "n = min (unat count) (unat (ff_size f) - unat (ff_count f))"
  shows "\<exists>f'. FIFO_write f src count = Some (f', of_nat n) \<and>
    fifo_wf f' \<and> ff_size f' = ff_size f \<and> ff_fill f' = ff_fill f \<and>
    fifo_held f' = fifo_held f @ take n src"
proof -
  let ?a = "ff_size f - ff_count f"
  define p where "p = (if count > ?a then ?a else count)"
  have c: "unat (ff_count f) \<le> unat (ff_size f)" using wf by (simp add: fifo_wf_def ring_wf_def)
  then have a: "unat ?a = unat (ff_size f) - unat (ff_count f)"
    by (simp add: unat_sub_u16 word_le_nat_alt)
  have up: "unat p = n" unfolding p_def n using a by (auto simp: word_less_nat_alt)
  have "unat (ff_count f) + unat p \<le> unat (ff_size f)" "unat p \<le> length src"
    using c src by (auto simp: up n)
  from ring_wf_put [OF wf [unfolded fifo_wf_def] this] show ?thesis
    by (auto simp: FIFO_write_def Let_def p_def [symmetric] up fifo_wf_def fifo_held_def simp flip: up)
qed

subsection \<open>The FIFO is a bounded queue\<close>

definition fifo_put :: "fax_fifo \<Rightarrow> u16 list \<Rightarrow> (fax_fifo \<times> nat) option" where
  "fifo_put f xs = map_option (\<lambda>(f', n). (f', unat n)) (FIFO_write f xs (of_nat (length xs)))"

definition fifo_get :: "fax_fifo \<Rightarrow> nat \<Rightarrow> (fax_fifo \<times> u16 list) option" where
  "fifo_get f n = map_option (\<lambda>(f', xs, k). (f', take (unat k) xs)) (FIFO_read f (of_nat n))"

interpretation fax: bounded_queue fifo_wf "\<lambda>f. unat (ff_size f)" fifo_held fifo_put fifo_get
proof unfold_locales
  fix f assume "fifo_wf f"
  then show "length (fifo_held f) \<le> unat (ff_size f)" by (simp add: fifo_wf_def ring_wf_def)
next
  fix f xs n
  assume wf: "fifo_wf f" and len: "length (xs :: u16 list) < 65536"
    and n: "n = min (length xs) (unat (ff_size f) - length (fifo_held f))"
  have u: "unat (of_nat (length xs) :: u16) = length xs" using len by (rule unat_of_nat_u16)
  have "n < 65536" using len n by simp
  then have "unat (of_nat n :: u16) = n" by (rule unat_of_nat_u16)
  with FIFO_write_correct [OF wf, of "of_nat (length xs)" xs n] n u
  show "\<exists>f'. fifo_put f xs = Some (f', n) \<and> fifo_wf f' \<and> unat (ff_size f') = unat (ff_size f) \<and>
      fifo_held f' = fifo_held f @ take n xs"
    by (auto simp: fifo_put_def)
next
  fix f n
  assume wf: "fifo_wf f" and n: "(n :: nat) < 65536"
  define k where "k = min (unat (ff_count f)) n"
  have u: "unat (of_nat n :: u16) = n" using n by (rule unat_of_nat_u16)
  have "k < 65536" using n by (simp add: k_def)
  then have "unat (of_nat k :: u16) = k" by (rule unat_of_nat_u16)
  with FIFO_read_correct [OF wf, of k "of_nat n"] u
  have "\<exists>f'. fifo_get f n = Some (f', take k (fifo_held f)) \<and> fifo_wf f' \<and>
      ff_size f' = ff_size f \<and> fifo_held f' = drop k (fifo_held f)"
    by (auto simp: fifo_get_def k_def)
  moreover have "take k (fifo_held f) = take n (fifo_held f)" "drop k (fifo_held f) = drop n (fifo_held f)"
    by (simp_all add: k_def min_def)
  ultimately show "\<exists>f'. fifo_get f n = Some (f', take n (fifo_held f)) \<and> fifo_wf f' \<and>
      unat (ff_size f') = unat (ff_size f) \<and> fifo_held f' = drop n (fifo_held f)"
    by auto
qed

subsection \<open>The arithmetic of the fullness test\<close>

lemma sdiv_half_bound:
  fixes a b :: int
  assumes "\<bar>a\<bar> \<le> 16384 \<or> a < 0" and "2 \<le> b"
  shows "a sdiv b \<le> 8192"
proof (cases "a < 0")
  case True
  then have "a sdiv b \<le> 0" using assms(2) by (simp add: signed_divide_int_def pos_imp_zdiv_nonneg_iff)
  then show ?thesis by simp
next
  case False
  with assms have "a sdiv b = a div b" "a \<le> 16384"
    by (cases "a = 0", auto simp: signed_divide_int_def)
  moreover have "a div b \<le> a div 2" using assms(2) False by (intro zdiv_mono2) auto
  ultimately show ?thesis by linarith
qed

lemma short_of_q14: "short_of (x * 2 ^ 14) \<le> 16384"
proof -
  have "(x * 2 ^ 14 + 32768) mod 65536 = ((x + 2) * 16384) mod (4 * 16384)" by (simp add: algebra_simps)
  also have "\<dots> = ((x + 2) mod 4) * 16384" by (rule mult_mod_left [symmetric])
  also have "\<dots> \<le> 3 * 16384" by (intro mult_right_mono) simp_all
  finally show ?thesis by (simp add: short_of_def)
qed

subsection \<open>Properties\<close>

text \<open>C34: every sequence of \<^verbatim>\<open>FIFO_write\<close> and \<^verbatim>\<open>FIFO_read\<close> calls on a well-formed
  FIFO runs without leaving its buffer, keeps the FIFO well formed, and preserves order and
  content: what it held at the start followed by what the writes accepted is what the reads
  delivered followed by what it still holds.\<close>

theorem FIFO_conserves:
  assumes "fifo_wf f" and "list_all op_ok ops"
  shows "\<exists>f' ins outs. fax.run f ops = Some (f', ins, outs) \<and> fifo_wf f' \<and>
    ff_size f' = ff_size f \<and> fifo_held f @ ins = outs @ fifo_held f'"
  using fax.run_conserves [OF assms] by (simp add: u16_eq_nat_iff)

theorem FIFO_conserves_witness:
  "\<exists>f f' ins outs. FIFO_create None (Some \<lparr>fc_word0 = 0, fc_size = 3, fc_fill = 7\<rparr>) = Some f \<and>
    fax.run f [Inl [1, 2], Inr 1, Inl [3, 4, 5]] = Some (f', ins, outs) \<and> fifo_wf f' \<and>
    ff_size f' = ff_size f \<and> fifo_held f @ ins = outs @ fifo_held f'"
proof -
  let ?f = "\<lparr>ff_short_000 = 0, ff_size = 3, ff_fill = 7, ff_buf = replicate 3 0, ff_count = 0,
    ff_rd = 0, ff_wr = 0\<rparr>"
  have c: "FIFO_create None (Some \<lparr>fc_word0 = 0, fc_size = 3, fc_fill = 7\<rparr>) = Some ?f"
    by (subst FIFO_create_fresh) simp_all
  have "fifo_wf ?f" by (simp add: fifo_wf_def ring_wf_def)
  from FIFO_conserves [OF this, of "[Inl [1, 2], Inr 1, Inl [3, 4, 5]]"] c
  show ?thesis by (simp add: op_ok_def)
qed

text \<open>creating a FIFO of capacity 1 to 32767 yields a well-formed, empty FIFO of that
  capacity; a capacity above 32767 drives the clearing loop's \<open>short\<close> cursor negative and
  out of the buffer.\<close>

theorem FIFO_create_capacity:
  "(unat (fc_size c) \<in> {1..32767} \<longrightarrow>
     (\<exists>f. FIFO_create None (Some c) = Some f \<and> fifo_wf f \<and> fifo_held f = [] \<and>
        ff_size f = fc_size c \<and> ff_fill f = fc_fill c)) \<and>
   (32767 < unat (fc_size c) \<longrightarrow> FIFO_create None (Some c) = None)"
proof (intro conjI impI)
  assume "unat (fc_size c) \<in> {1..32767}"
  then show "\<exists>f. FIFO_create None (Some c) = Some f \<and> fifo_wf f \<and> fifo_held f = [] \<and>
        ff_size f = fc_size c \<and> ff_fill f = fc_fill c"
    by (subst FIFO_create_fresh) (auto simp: fifo_wf_def ring_wf_def fifo_held_def ring_held_def)
next
  assume "32767 < unat (fc_size c)"
  then have "ring_clear (int 0) (fc_size c) (replicate (unat (fc_size c)) (0 :: u16)) = None"
    by (intro ring_clear_wraps) simp_all
  then show "FIFO_create None (Some c) = None" by (simp add: FIFO_create_def)
qed

theorem FIFO_create_capacity_witness:
  "\<exists>f. FIFO_create None (Some FIFO_CFG) = Some f \<and> fifo_wf f \<and> fifo_held f = []"
  using FIFO_create_capacity [of FIFO_CFG] by (auto simp: FIFO_CFG_def)

text \<open>the fullness test cannot report a full FIFO: for every capacity of at least two
  elements it answers false whatever the occupancy, because the occupancy shifted left by 14
  keeps only its two lowest bits in a \<open>short\<close>.\<close>

theorem FIFO_full_test_never:
  assumes "2 \<le> sint (ff_size f)"
  shows "FIFO_full_test f = Some False"
proof -
  let ?n = "short_of (uint (ff_count f) * 2 ^ 14)"
  have "?n \<le> 16384" by (rule short_of_q14)
  then have "?n sdiv sint (ff_size f) \<le> 8192" using assms by (intro sdiv_half_bound) auto
  moreover have "\<bar>?n sdiv sint (ff_size f)\<bar> \<le> 32768"
    using abs_sdiv_le [of ?n "sint (ff_size f)"] short_of_range [of "uint (ff_count f) * 2 ^ 14"] by linarith
  ultimately have "short_of (?n sdiv sint (ff_size f)) \<le> 8192" by simp
  moreover have "ff_size f \<noteq> 0" using assms by auto
  ultimately show ?thesis by (simp add: FIFO_full_test_def FIFO_FULL_Q14_def)
qed

theorem FIFO_full_test_never_witness:
  "FIFO_full_test \<lparr>ff_short_000 = 0, ff_size = 2048, ff_fill = 0, ff_buf = [], ff_count = 2048,
    ff_rd = 0, ff_wr = 0\<rparr> = Some False"
  by (rule FIFO_full_test_never) simp

end
