(* ===== verification/Fifo8.thy ===== *)
theory Fifo8
  imports Ring
begin

text \<open>
  The byte FIFO of the Caller ID and voice services, \<^verbatim>\<open>src/service/Fifo8.c\<close>. It is the
  fax FIFO's algorithm on octets, with its capacity unsigned and its configuration embedded;
  the padding octet is the low byte of the configured fill. It implements the same bounded
  queue.
\<close>

record fifo8_cfg =
  f8c_short_00 :: u16
  f8c_size :: u16
  f8c_fill :: u16

record fifo8 =
  f8_cfg :: fifo8_cfg
  f8_buf :: "u8 list"
  f8_count :: u16
  f8_rd :: u16
  f8_wr :: u16

definition FIFO8_CFG :: fifo8_cfg where
  "FIFO8_CFG = \<lparr>f8c_short_00 = 0, f8c_size = 300, f8c_fill = 0\<rparr>"

definition FIFO8_create :: "fifo8 option \<Rightarrow> fifo8_cfg option \<Rightarrow> fifo8 option" where
  "FIFO8_create f cfg =
     (let c = (case cfg of Some c \<Rightarrow> c | None \<Rightarrow> FIFO8_CFG);
          buf = (case f of Some g \<Rightarrow> f8_buf g | None \<Rightarrow> replicate (unat (f8c_size c)) 0)
      in do {
        buf' \<leftarrow> ring_clear 0 (f8c_size c) buf;
        Some \<lparr>f8_cfg = c, f8_buf = buf', f8_count = 0, f8_rd = 0, f8_wr = 0\<rparr>
      })"

text \<open>The answer of a read and of a write is a \<open>short\<close>, returned here as its bits.\<close>

definition FIFO8_read :: "fifo8 \<Rightarrow> u16 \<Rightarrow> (fifo8 \<times> u8 list \<times> u16) option" where
  "FIFO8_read f n =
     (let cnt = (if f8_count f > n then n else f8_count f);
          pad = n - cnt
      in do {
        (xs, rd) \<leftarrow> ring_get (f8_buf f) (f8c_size (f8_cfg f)) (f8_rd f) (unat cnt);
        Some (f\<lparr>f8_rd := rd, f8_count := f8_count f - cnt\<rparr>,
              xs @ replicate (unat pad) (ucast (f8c_fill (f8_cfg f))), cnt)
      })"

definition FIFO8_write :: "fifo8 \<Rightarrow> u8 list \<Rightarrow> u16 \<Rightarrow> (fifo8 \<times> u16) option" where
  "FIFO8_write f src n =
     (let room = f8c_size (f8_cfg f) - f8_count f;
          cnt = (if n > room then room else n)
      in do {
        (buf, wr) \<leftarrow> ring_put (f8_buf f) (f8c_size (f8_cfg f)) (f8_wr f) (unat cnt) src;
        Some (f\<lparr>f8_buf := buf, f8_wr := wr, f8_count := f8_count f + cnt\<rparr>, cnt)
      })"

subsection \<open>Invariant, contents and the queue contract\<close>

definition fifo8_wf :: "fifo8 \<Rightarrow> bool" where
  "fifo8_wf f \<longleftrightarrow> ring_wf (f8_buf f) (f8c_size (f8_cfg f)) (f8_rd f) (f8_wr f) (f8_count f)"

definition fifo8_held :: "fifo8 \<Rightarrow> u8 list" where
  "fifo8_held f = ring_held (f8_buf f) (f8c_size (f8_cfg f)) (f8_rd f) (f8_count f)"

lemma length_fifo8_held [simp]: "length (fifo8_held f) = unat (f8_count f)"
  by (simp add: fifo8_held_def)

lemma FIFO8_read_correct:
  assumes wf: "fifo8_wf f" and k: "k = min (unat (f8_count f)) (unat n)"
  shows "\<exists>f'. FIFO8_read f n =
      Some (f', take k (fifo8_held f) @ replicate (unat n - k) (ucast (f8c_fill (f8_cfg f))), of_nat k) \<and>
    fifo8_wf f' \<and> f8_cfg f' = f8_cfg f \<and> fifo8_held f' = drop k (fifo8_held f)"
proof -
  define t where "t = (if f8_count f > n then n else f8_count f)"
  have ut: "unat t = k" unfolding t_def u16_select_min k by simp
  have le: "unat t \<le> unat (f8_count f)" "unat t \<le> unat n" by (simp_all add: ut k)
  have "unat (n - t) = unat n - k" using le(2) by (simp add: unat_sub_u16 word_le_nat_alt ut)
  with ring_wf_get [OF wf [unfolded fifo8_wf_def] le(1)] show ?thesis
    by (auto simp: FIFO8_read_def Let_def t_def [symmetric] ut fifo8_wf_def fifo8_held_def simp flip: ut)
qed

lemma FIFO8_write_correct:
  assumes wf: "fifo8_wf f" and src: "unat n \<le> length src"
    and k: "k = min (unat n) (unat (f8c_size (f8_cfg f)) - unat (f8_count f))"
  shows "\<exists>f'. FIFO8_write f src n = Some (f', of_nat k) \<and>
    fifo8_wf f' \<and> f8_cfg f' = f8_cfg f \<and> fifo8_held f' = fifo8_held f @ take k src"
proof -
  let ?a = "f8c_size (f8_cfg f) - f8_count f"
  define p where "p = (if n > ?a then ?a else n)"
  have c: "unat (f8_count f) \<le> unat (f8c_size (f8_cfg f))" using wf by (simp add: fifo8_wf_def ring_wf_def)
  then have a: "unat ?a = unat (f8c_size (f8_cfg f)) - unat (f8_count f)"
    by (simp add: unat_sub_u16 word_le_nat_alt)
  have up: "unat p = k" unfolding p_def k using a by (auto simp: word_less_nat_alt)
  have "unat (f8_count f) + unat p \<le> unat (f8c_size (f8_cfg f))" "unat p \<le> length src"
    using c src by (auto simp: up k)
  from ring_wf_put [OF wf [unfolded fifo8_wf_def] this] show ?thesis
    by (auto simp: FIFO8_write_def Let_def p_def [symmetric] up fifo8_wf_def fifo8_held_def simp flip: up)
qed

definition fifo8_put :: "fifo8 \<Rightarrow> u8 list \<Rightarrow> (fifo8 \<times> nat) option" where
  "fifo8_put f xs = map_option (\<lambda>(f', n). (f', unat n)) (FIFO8_write f xs (of_nat (length xs)))"

definition fifo8_get :: "fifo8 \<Rightarrow> nat \<Rightarrow> (fifo8 \<times> u8 list) option" where
  "fifo8_get f n = map_option (\<lambda>(f', xs, k). (f', take (unat k) xs)) (FIFO8_read f (of_nat n))"

interpretation byte: bounded_queue fifo8_wf "\<lambda>f. unat (f8c_size (f8_cfg f))" fifo8_held fifo8_put fifo8_get
proof unfold_locales
  fix f assume "fifo8_wf f"
  then show "length (fifo8_held f) \<le> unat (f8c_size (f8_cfg f))" by (simp add: fifo8_wf_def ring_wf_def)
next
  fix f xs n
  assume wf: "fifo8_wf f" and len: "length (xs :: u8 list) < 65536"
    and n: "n = min (length xs) (unat (f8c_size (f8_cfg f)) - length (fifo8_held f))"
  have u: "unat (of_nat (length xs) :: u16) = length xs" using len by (rule unat_of_nat_u16)
  have "n < 65536" using len n by simp
  then have "unat (of_nat n :: u16) = n" by (rule unat_of_nat_u16)
  with FIFO8_write_correct [OF wf, of "of_nat (length xs)" xs n] n u
  show "\<exists>f'. fifo8_put f xs = Some (f', n) \<and> fifo8_wf f' \<and>
      unat (f8c_size (f8_cfg f')) = unat (f8c_size (f8_cfg f)) \<and> fifo8_held f' = fifo8_held f @ take n xs"
    by (auto simp: fifo8_put_def)
next
  fix f n
  assume wf: "fifo8_wf f" and n: "(n :: nat) < 65536"
  define k where "k = min (unat (f8_count f)) n"
  have u: "unat (of_nat n :: u16) = n" using n by (rule unat_of_nat_u16)
  have "k < 65536" using n by (simp add: k_def)
  then have "unat (of_nat k :: u16) = k" by (rule unat_of_nat_u16)
  with FIFO8_read_correct [OF wf, of k "of_nat n"] u
  have "\<exists>f'. fifo8_get f n = Some (f', take k (fifo8_held f)) \<and> fifo8_wf f' \<and>
      f8_cfg f' = f8_cfg f \<and> fifo8_held f' = drop k (fifo8_held f)"
    by (auto simp: fifo8_get_def k_def)
  moreover have "take k (fifo8_held f) = take n (fifo8_held f)" "drop k (fifo8_held f) = drop n (fifo8_held f)"
    by (simp_all add: k_def min_def)
  ultimately show "\<exists>f'. fifo8_get f n = Some (f', take n (fifo8_held f)) \<and> fifo8_wf f' \<and>
      unat (f8c_size (f8_cfg f')) = unat (f8c_size (f8_cfg f)) \<and> fifo8_held f' = drop n (fifo8_held f)"
    by auto
qed

lemma FIFO8_create_default:
  "FIFO8_create None None = Some \<lparr>f8_cfg = FIFO8_CFG, f8_buf = replicate 300 0, f8_count = 0,
     f8_rd = 0, f8_wr = 0\<rparr>"
  using ring_clear_correct [of 0 300 "replicate 300 (0 :: u8)"]
  by (simp add: FIFO8_create_def FIFO8_CFG_def)

end
