(* ===== verification/VmiUtil.thy ===== *)
theory VmiUtil
  imports Prelude
begin

unbundle bit_operations_syntax

text \<open>
  The pure helpers of the fax framing layer: the frame check sequence and the bit reversals
  of \<^verbatim>\<open>src/fax/faxvmi_utls.c\<close> and \<^verbatim>\<open>src/fax/faxvmififo.c\<close>, the table of
  \<^verbatim>\<open>src/fax/reversedchars.c\<close> and the frame naming of \<^verbatim>\<open>src/fax/T30frames.c\<close>.

  The nibble-at-a-time check sequence is shown equal to the bit-serial CRC with polynomial
  0x1021; from the bit-serial form follow the residue of a frame that carries its own check
  sequence and the detection of every error burst of up to sixteen bits.
\<close>

subsection \<open>The frame check sequence\<close>

definition fcs16_nibble :: "u16 \<Rightarrow> u32 \<Rightarrow> u16" where
  "fcs16_nibble fcs shifted =
     (let t = (shifted XOR ucast fcs) AND 0xf000;
          n = ucast (push_bit 4 (ucast fcs XOR drop_bit 11 t) XOR t) :: u16
      in n OR ucast (drop_bit 12 t))"

definition fcs16_step :: "u16 \<Rightarrow> u16 \<Rightarrow> u16" where
  "fcs16_step fcs octet =
     (let o32 = ucast octet :: u32
      in fcs16_nibble (fcs16_nibble fcs (push_bit 8 o32)) (push_bit 12 o32))"

fun fcs16_walk :: "u16 \<Rightarrow> u16 list \<Rightarrow> nat \<Rightarrow> u16 option" where
  "fcs16_walk fcs buf 0 = Some fcs"
| "fcs16_walk fcs buf (Suc n) = do {
     octet \<leftarrow> rd_at buf 0;
     fcs16_walk (fcs16_step fcs octet) (tl buf) n
   }"

text \<open>The loop counts a \<open>short\<close> down to zero, so a negative count runs 65536 + count times.\<close>

definition faxvmi_gen_fcs16 :: "u16 list \<Rightarrow> u16 \<Rightarrow> u16 option" where
  "faxvmi_gen_fcs16 buf count = map_option (\<lambda>fcs. NOT fcs) (fcs16_walk 0xffff buf (unat count))"

subsection \<open>Bit reversal\<close>

fun reverse_loop :: "nat \<Rightarrow> u16 \<Rightarrow> u16 \<Rightarrow> u16" where
  "reverse_loop 0 inp out = out"
| "reverse_loop (Suc n) inp out = reverse_loop n (drop_bit 1 inp) (push_bit 1 out OR (inp AND 1))"

definition byte_reversed :: "u16 \<Rightarrow> u16" where
  "byte_reversed inp = reverse_loop 8 inp 0"

fun byte_reverse_walk :: "nat \<Rightarrow> u16 list \<Rightarrow> nat \<Rightarrow> u16 list option" where
  "byte_reverse_walk i buf 0 = Some buf"
| "byte_reverse_walk i buf (Suc n) = do {
     inp \<leftarrow> rd_at buf i;
     buf' \<leftarrow> wr_at buf i (byte_reversed inp);
     byte_reverse_walk (Suc i) buf' n
   }"

definition faxvmi_byte_reverse :: "u16 list \<Rightarrow> u16 \<Rightarrow> u16 list option" where
  "faxvmi_byte_reverse buf count = byte_reverse_walk 0 buf (unat count)"

text \<open>Length-prefixed records; the stride is the header word read as unsigned.\<close>

fun frame_reverse_walk :: "nat \<Rightarrow> u16 list \<Rightarrow> nat \<Rightarrow> u16 list option" where
  "frame_reverse_walk i buf 0 = Some buf"
| "frame_reverse_walk i buf (Suc n) = do {
     len \<leftarrow> rd_at buf i;
     buf' \<leftarrow> byte_reverse_walk (Suc i) buf (unat len);
     frame_reverse_walk (Suc i + unat len) buf' n
   }"

definition faxvmi_frame_reverse :: "u16 list \<Rightarrow> u16 \<Rightarrow> u16 list option" where
  "faxvmi_frame_reverse buf count = frame_reverse_walk 0 buf (unat count)"

definition aReversedCharsArray :: "u8 list" where
  "aReversedCharsArray = [
     0x00, 0x80, 0x40, 0xc0, 0x20, 0xa0, 0x60, 0xe0,
     0x10, 0x90, 0x50, 0xd0, 0x30, 0xb0, 0x70, 0xf0,
     0x08, 0x88, 0x48, 0xc8, 0x28, 0xa8, 0x68, 0xe8,
     0x18, 0x98, 0x58, 0xd8, 0x38, 0xb8, 0x78, 0xf8,
     0x04, 0x84, 0x44, 0xc4, 0x24, 0xa4, 0x64, 0xe4,
     0x14, 0x94, 0x54, 0xd4, 0x34, 0xb4, 0x74, 0xf4,
     0x0c, 0x8c, 0x4c, 0xcc, 0x2c, 0xac, 0x6c, 0xec,
     0x1c, 0x9c, 0x5c, 0xdc, 0x3c, 0xbc, 0x7c, 0xfc,
     0x02, 0x82, 0x42, 0xc2, 0x22, 0xa2, 0x62, 0xe2,
     0x12, 0x92, 0x52, 0xd2, 0x32, 0xb2, 0x72, 0xf2,
     0x0a, 0x8a, 0x4a, 0xca, 0x2a, 0xaa, 0x6a, 0xea,
     0x1a, 0x9a, 0x5a, 0xda, 0x3a, 0xba, 0x7a, 0xfa,
     0x06, 0x86, 0x46, 0xc6, 0x26, 0xa6, 0x66, 0xe6,
     0x16, 0x96, 0x56, 0xd6, 0x36, 0xb6, 0x76, 0xf6,
     0x0e, 0x8e, 0x4e, 0xce, 0x2e, 0xae, 0x6e, 0xee,
     0x1e, 0x9e, 0x5e, 0xde, 0x3e, 0xbe, 0x7e, 0xfe,
     0x01, 0x81, 0x41, 0xc1, 0x21, 0xa1, 0x61, 0xe1,
     0x11, 0x91, 0x51, 0xd1, 0x31, 0xb1, 0x71, 0xf1,
     0x09, 0x89, 0x49, 0xc9, 0x29, 0xa9, 0x69, 0xe9,
     0x19, 0x99, 0x59, 0xd9, 0x39, 0xb9, 0x79, 0xf9,
     0x05, 0x85, 0x45, 0xc5, 0x25, 0xa5, 0x65, 0xe5,
     0x15, 0x95, 0x55, 0xd5, 0x35, 0xb5, 0x75, 0xf5,
     0x0d, 0x8d, 0x4d, 0xcd, 0x2d, 0xad, 0x6d, 0xed,
     0x1d, 0x9d, 0x5d, 0xdd, 0x3d, 0xbd, 0x7d, 0xfd,
     0x03, 0x83, 0x43, 0xc3, 0x23, 0xa3, 0x63, 0xe3,
     0x13, 0x93, 0x53, 0xd3, 0x33, 0xb3, 0x73, 0xf3,
     0x0b, 0x8b, 0x4b, 0xcb, 0x2b, 0xab, 0x6b, 0xeb,
     0x1b, 0x9b, 0x5b, 0xdb, 0x3b, 0xbb, 0x7b, 0xfb,
     0x07, 0x87, 0x47, 0xc7, 0x27, 0xa7, 0x67, 0xe7,
     0x17, 0x97, 0x57, 0xd7, 0x37, 0xb7, 0x77, 0xf7,
     0x0f, 0x8f, 0x4f, 0xcf, 0x2f, 0xaf, 0x6f, 0xef,
     0x1f, 0x9f, 0x5f, 0xdf, 0x3f, 0xbf, 0x7f, 0xff]"

subsection \<open>Naming a T.30 frame\<close>

definition FrameNames :: "(int \<times> string) list" where
  "FrameNames = [
     (0xfe, ''TCF - Train''),
     (0x00, ''NONE - Data''),
     (0x01, ''DIS - Digital Identification Signal''),
     (0x02, ''CSI - Called Subscriber Identification''),
     (0x04, ''NSF - Non-Standard Facilities''),
     (0x21, ''CFR - Confirmation To Receive''),
     (0x22, ''FTT - Failure To Train''),
     (0x23, ''CTR - Response for Continue To Correct''),
     (0x31, ''MCF - Message Confirmation''),
     (0x32, ''RTN''),
     (0x33, ''RTP''),
     (0x34, ''PIN''),
     (0x35, ''PIP''),
     (0x37, ''RNR - Receive Not Ready''),
     (0x38, ''ERR - Response for End of Retransmission''),
     (0x3d, ''PPR - Partial Page Request''),
     (0x41, ''DCS - Digital Command Signal''),
     (0x42, ''TSI - Transmitting Subscriber Identification''),
     (0x44, ''NSS''),
     (0x48, ''CTC - Continue To Correct''),
     (0x58, ''CRP''),
     (0x5f, ''DCN - Disconnect''),
     (0x71, ''EOM - End Of Message''),
     (0x72, ''MPS - MultiPage Signal''),
     (0x73, ''EOR - End Of Retransmission''),
     (0x74, ''EOP - End Of Procedure''),
     (0x76, ''RR - Receive Ready''),
     (0x79, ''PRI_EOM - Procedure Interrupt-End Of Message''),
     (0x7a, ''PRI_MPS - Procedure Interrupt-MultiPage Signal''),
     (0x7c, ''PRI_EOP - Procedure Interrupt-End Of Procedure''),
     (0x7d, ''PPS - Partial Page Signal''),
     (0x81, ''DTC''),
     (0x82, ''CIG''),
     (0x83, ''PWD''),
     (0x84, ''NSC''),
     (0xff, ''INVALID'')]"

text \<open>The fallback formats the identifier with \<^verbatim>\<open>%02x\<close>: at least two lower-case digits.\<close>

fun hex_digits :: "nat \<Rightarrow> string" where
  "hex_digits n = (if n < 16 then [''0123456789abcdef'' ! n]
                   else hex_digits (n div 16) @ [''0123456789abcdef'' ! (n mod 16)])"

declare hex_digits.simps [simp del]

definition format_02x :: "u32 \<Rightarrow> string" where
  "format_02x w = (let ds = hex_digits (unat w) in replicate (2 - length ds) (CHR ''0'') @ ds)"

definition GetT30FrameNameByID :: "int \<Rightarrow> string" where
  "GetT30FrameNameByID i =
     (case map_of FrameNames i of
        Some name \<Rightarrow> name
      | None \<Rightarrow> ''Unknown frame (ID=0x'' @ format_02x (of_int i) @ '')'')"

definition GetT30FrameIDFromBuffer :: "u8 \<Rightarrow> u8 \<Rightarrow> u8 \<Rightarrow> u32" where
  "GetT30FrameIDFromBuffer address control fcf =
     (if address \<noteq> 0xff then 0xff
      else let (i, marker) =
             (if control = 0x03 \<or> control = 0x13
              then (ucast (aReversedCharsArray ! unat fcf) :: u32, 0)
              else (ucast fcf, 0x8000));
               i = (if i > 0x84 then i AND 0x7f else i)
           in i OR marker)"

subsection \<open>The bit-serial check sequence\<close>

definition crc_bit :: "u16 \<Rightarrow> bool \<Rightarrow> u16" where
  "crc_bit r b = push_bit 1 r XOR (if bit r 15 \<noteq> b then 0x1021 else 0)"

definition octet_bits :: "u16 \<Rightarrow> bool list" where
  "octet_bits v = map (bit v) [7, 6, 5, 4, 3, 2, 1, 0]"

definition octets_bits :: "u16 list \<Rightarrow> bool list" where
  "octets_bits vs = concat (map octet_bits vs)"

lemma length_octet_bits [simp]: "length (octet_bits v) = 8"
  by (simp add: octet_bits_def)

lemma octets_bits_simps [simp]:
  "octets_bits [] = []"
  "octets_bits (v # vs) = octet_bits v @ octets_bits vs"
  "octets_bits (vs @ ws) = octets_bits vs @ octets_bits ws"
  by (simp_all add: octets_bits_def)

text \<open>Equality of words bit by bit, in a form that the simplifier expands.\<close>

lemma upt16: "rev [0..<16] = [15, 14, 13, 12, 11, 10, 9, 8, 7, 6, 5, 4, 3, 2, 1, 0]"
  by (simp add: upt_rec)

lemma u16_eqI: "list_all (\<lambda>n. bit a n \<longleftrightarrow> bit b n) (rev [0..<16]) \<Longrightarrow> a = (b :: u16)"
  by (rule bit_word_eqI) (simp only: list_all_iff set_rev set_upt, simp)

lemma bit_push16: "bit (push_bit k (w::u16)) n \<longleftrightarrow> k \<le> n \<and> n < 16 \<and> bit w (n - k)"
  by (auto simp: bit_simps)

lemma bit_push32: "bit (push_bit k (w::u32)) n \<longleftrightarrow> k \<le> n \<and> n < 32 \<and> bit w (n - k)"
  by (auto simp: bit_simps)

lemma bit_up: "bit (ucast (w::u16) :: u32) n \<longleftrightarrow> bit w n"
  by (auto simp: bit_simps dest: bit_imp_le_length)

lemma bit_down: "bit (ucast (w::u32) :: u16) n \<longleftrightarrow> n < 16 \<and> bit w n"
  by (auto simp: bit_simps)

lemma bit_crc_bit: "bit (crc_bit r b) n \<longleftrightarrow>
    n < 16 \<and> ((1 \<le> n \<and> bit r (n - 1)) \<noteq> ((bit r 15 \<noteq> b) \<and> bit (0x1021 :: u16) n))"
  unfolding crc_bit_def bit_xor_iff bit_push16
  by (auto dest: bit_imp_le_length)

lemma bit_f000: "bit (0xf000 :: u32) n \<longleftrightarrow> 12 \<le> n \<and> n < 16"
proof -
  have "(0xf000 :: u32) = push_bit 12 (mask 4)" by (simp add: mask_eq_exp_minus_1)
  then have "bit (0xf000 :: u32) n = bit (push_bit 12 (mask 4) :: u32) n" by (rule arg_cong)
  also have "\<dots> \<longleftrightarrow> 12 \<le> n \<and> n < 16" unfolding bit_push32 bit_mask_iff by auto
  finally show ?thesis .
qed

lemma bit_nibble: "bit (fcs16_nibble fcs s) n \<longleftrightarrow> n < 16 \<and>
   (let f = (\<lambda>i. 12 \<le> i \<and> i < 16 \<and> (bit s i \<noteq> bit fcs i)) in
    ((4 \<le> n \<and> (bit fcs (n - 4) \<noteq> f (n - 4 + 11))) \<noteq> f n) \<or> f (n + 12))"
  unfolding fcs16_nibble_def Let_def bit_or_iff bit_xor_iff bit_and_iff bit_down bit_push32
    bit_up bit_drop_bit_eq o_def bit_f000
  by (auto simp: add.commute)

lemma fcs16_nibble_crc:
  "fcs16_nibble fcs s = foldl crc_bit fcs [bit s 15, bit s 14, bit s 13, bit s 12]"
  by (rule u16_eqI) (unfold upt16 list.pred_inject, simp add: bit_nibble bit_crc_bit Let_def, blast?)

lemma fcs16_step_crc: "fcs16_step fcs v = foldl crc_bit fcs (octet_bits v)"
  unfolding fcs16_step_def Let_def fcs16_nibble_crc octet_bits_def bit_push32 bit_up by simp

lemma fcs16_walk_crc:
  "n \<le> length buf \<Longrightarrow> fcs16_walk fcs buf n = Some (foldl crc_bit fcs (octets_bits (take n buf)))"
proof (induction n arbitrary: fcs buf)
  case (Suc n)
  then obtain v vs where "buf = v # vs" by (cases buf) auto
  with Suc show ?case by (simp add: mem_simps fcs16_step_crc)
qed simp

lemma fcs16_walk_out: "length buf < n \<Longrightarrow> fcs16_walk fcs buf n = None"
proof (induction n arbitrary: fcs buf)
  case (Suc n)
  then show ?case by (cases buf) (simp_all add: rd_at_def)
qed simp

lemma gen_fcs16_crc:
  "unat count \<le> length buf \<Longrightarrow>
   faxvmi_gen_fcs16 buf count = Some (NOT (foldl crc_bit 0xffff (octets_bits (take (unat count) buf))))"
  by (simp add: faxvmi_gen_fcs16_def fcs16_walk_crc)

subsection \<open>Algebra of the bit-serial form\<close>

definition bxor :: "bool \<Rightarrow> bool \<Rightarrow> bool" where
  "bxor a b \<longleftrightarrow> a \<noteq> b"

lemma xor_0_eq: "a XOR b = 0 \<Longrightarrow> a = (b :: u16)"
  by (drule arg_cong [where f = bit]) (auto intro: bit_word_eqI simp: fun_eq_iff bit_xor_iff)

lemma crc_bit_xor: "crc_bit (r XOR s) (bxor a b) = crc_bit r a XOR crc_bit s b"
  by (rule bit_word_eqI) (auto simp: bit_crc_bit bit_xor_iff bxor_def)

lemma crc_xor:
  "length xs = length ys \<Longrightarrow>
   foldl crc_bit (r XOR s) (map2 bxor xs ys) = foldl crc_bit r xs XOR foldl crc_bit s ys"
  by (induction xs ys arbitrary: r s rule: list_induct2) (simp_all add: crc_bit_xor)

lemma crc_zeros [simp]: "foldl crc_bit 0 (replicate n False) = 0"
  by (induction n) (simp_all add: crc_bit_def)

lemma crc_bit_inj: "crc_bit r b = crc_bit s b \<longleftrightarrow> r = s"
proof
  assume eq: "crc_bit r b = crc_bit s b"
  then have step: "bit (crc_bit r b) n = bit (crc_bit s b) n" for n by simp
  have top: "bit r 15 = bit s 15" using step [of 0] by (auto simp: bit_crc_bit)
  show "r = s"
  proof (rule bit_word_eqI)
    fix n assume "n < LENGTH(16)"
    then consider "n = 15" | "Suc n < 16" by fastforce
    then show "bit r n = bit s n"
      using step [of "Suc n"] top by cases (auto simp: bit_crc_bit)
  qed
qed simp

lemma crc_inj: "foldl crc_bit r bs = foldl crc_bit s bs \<longleftrightarrow> r = s"
  by (induction bs arbitrary: r s) (simp_all add: crc_bit_inj)

definition word_bits :: "u16 \<Rightarrow> bool list" where
  "word_bits w = map (\<lambda>i. bit w (15 - i)) [0..<16]"

lemma length_word_bits [simp]: "length (word_bits w) = 16"
  by (simp add: word_bits_def)

text \<open>A register fed its own bits is shifted out.\<close>

lemma crc_own_prefix: "n \<le> 16 \<Longrightarrow> foldl crc_bit w (map (\<lambda>i. bit w (15 - i)) [0..<n]) = push_bit n w"
proof (induction n)
  case (Suc n)
  have "crc_bit (push_bit n w) (bit w (15 - n)) = push_bit (Suc n) w"
    using Suc.prems by (intro bit_word_eqI) (auto simp: bit_crc_bit bit_push16 simp del: push_bit_Suc)
  with Suc show ?case by (simp del: push_bit_Suc)
qed simp

lemma crc_own: "foldl crc_bit w (word_bits w) = 0"
proof -
  have "push_bit 16 w = 0" by (rule bit_word_eqI) (simp only: bit_push16, simp)
  with crc_own_prefix [of 16 w] show ?thesis by (simp add: word_bits_def)
qed

lemma crc_append_zeros:
  "foldl crc_bit 0 (word_bits w) = foldl crc_bit w (replicate 16 False)"
proof -
  have "map2 bxor (replicate 16 False) (word_bits w) = word_bits w"
    by (rule nth_equalityI) (simp_all add: bxor_def)
  then have "foldl crc_bit w (word_bits w) = foldl crc_bit w (replicate 16 False) XOR foldl crc_bit 0 (word_bits w)"
    using crc_xor [of "replicate 16 False" "word_bits w" w 0] by simp
  then have "foldl crc_bit w (replicate 16 False) XOR foldl crc_bit 0 (word_bits w) = 0"
    by (simp add: crc_own)
  then show ?thesis by (rule xor_0_eq [symmetric])
qed

lemma word_bits_ex: "length e = 16 \<Longrightarrow> \<exists>w. word_bits w = e"
proof -
  assume len: "length e = 16"
  define w :: u16 where "w = horner_sum of_bool 2 (rev e)"
  have b: "bit w n \<longleftrightarrow> n < 16 \<and> rev e ! n" for n
    unfolding w_def bit_horner_sum_bit_word_iff using len by auto
  have "word_bits w ! i = e ! i" if "i < 16" for i
  proof -
    have "bit w (15 - i) \<longleftrightarrow> e ! i" using b [of "15 - i"] that len by (auto simp: rev_nth)
    with that show ?thesis by (simp add: word_bits_def)
  qed
  with len have "word_bits w = e" by (intro nth_equalityI) simp_all
  then show ?thesis ..
qed

lemma word_bits_0: "word_bits 0 = replicate 16 False"
  by (rule nth_equalityI) (simp_all add: word_bits_def)

lemma crc_short_burst:
  assumes "length e \<le> 16" and "foldl crc_bit 0 e = 0"
  shows "e = replicate (length e) False"
proof -
  let ?e = "e @ replicate (16 - length e) False"
  obtain w where w: "word_bits w = ?e" using word_bits_ex [of ?e] assms(1) by auto
  have "foldl crc_bit 0 ?e = 0" using assms(2) by simp
  then have "foldl crc_bit w (replicate 16 False) = foldl crc_bit 0 (replicate 16 False)"
    using crc_append_zeros [of w] w by simp
  then have "w = 0" by (simp only: crc_inj)
  with w have "?e = replicate 16 False" by (simp add: word_bits_0)
  then have "take (length e) ?e = take (length e) (replicate 16 False)" by simp
  with assms(1) show ?thesis by simp
qed

lemma crc_burst_differs:
  assumes "length e1 = length e2" and "length e1 \<le> 16" and "e1 \<noteq> e2"
  shows "foldl crc_bit r (p @ e1 @ q) \<noteq> foldl crc_bit r (p @ e2 @ q)"
proof
  assume "foldl crc_bit r (p @ e1 @ q) = foldl crc_bit r (p @ e2 @ q)"
  then have "foldl crc_bit (foldl crc_bit r p) e1 = foldl crc_bit (foldl crc_bit r p) e2"
    by (simp add: crc_inj)
  then have "foldl crc_bit 0 (map2 bxor e1 e2) = 0"
    using crc_xor [OF assms(1), of "foldl crc_bit r p" "foldl crc_bit r p"] by simp
  from crc_short_burst [OF _ this] have "map2 bxor e1 e2 = replicate (length e1) False"
    using assms by simp
  then have "e1 = e2"
    using assms(1) by (auto simp: list_eq_iff_nth_eq bxor_def)
  with assms(3) show False by simp
qed

subsection \<open>A frame that carries its check sequence\<close>

lemma octets_of_fcs: "octets_bits [drop_bit 8 w, w AND 0xff] = word_bits w"
proof -
  have m: "bit (w AND 0xff) n \<longleftrightarrow> n < 8 \<and> bit w n" for n
  proof -
    have "(0xff :: u16) = mask 8" by (simp add: mask_eq_exp_minus_1)
    then show ?thesis by (simp only: bit_and_iff bit_mask_iff) (auto dest: bit_imp_le_length)
  qed
  show ?thesis
    unfolding octets_bits_def octet_bits_def word_bits_def list.map m by (simp add: bit_drop_bit_eq upt_rec)
qed

lemma word_bits_not: "map2 bxor (word_bits w) (replicate 16 True) = word_bits (NOT w)"
  by (rule nth_equalityI) (auto simp: word_bits_def bit_not_iff bxor_def)

lemma crc_fcs_residue: "foldl crc_bit r (word_bits (NOT r)) = 0x1d0f"
proof -
  have "foldl crc_bit 0 (replicate 16 True) = 0x1d0f" by code_simp
  moreover have "foldl crc_bit r (word_bits (NOT r)) =
      foldl crc_bit r (word_bits r) XOR foldl crc_bit 0 (replicate 16 True)"
    using crc_xor [of "word_bits r" "replicate 16 True" r 0] by (simp add: word_bits_not)
  ultimately show ?thesis by (simp add: crc_own)
qed

lemma gen_fcs16_residue:
  assumes fcs: "faxvmi_gen_fcs16 buf (of_nat n) = Some fcs" and n: "n + 2 < 65536" "n \<le> length buf"
    and buf': "take (n + 2) buf' = take n buf @ [drop_bit 8 fcs, fcs AND 0xff]"
  shows "faxvmi_gen_fcs16 buf' (of_nat (n + 2)) = Some 0xe2f0"
proof -
  let ?r = "foldl crc_bit 0xffff (octets_bits (take n buf))"
  have u: "unat (of_nat n :: u16) = n" "unat (of_nat (n + 2) :: u16) = n + 2"
    using n by (simp_all only: unat_of_nat_u16)
  have f: "fcs = NOT ?r" using fcs n by (simp add: gen_fcs16_crc u)
  have len: "n + 2 \<le> length buf'" using arg_cong [OF buf', of length] n by auto
  have "foldl crc_bit 0xffff (octets_bits (take (n + 2) buf')) = foldl crc_bit ?r (word_bits fcs)"
    unfolding buf' octets_of_fcs [symmetric] by simp
  also have "\<dots> = 0x1d0f" unfolding f by (rule crc_fcs_residue)
  finally show ?thesis using len u by (simp add: gen_fcs16_crc del: of_nat_add)
qed

subsection \<open>What the reversals compute\<close>

lemma bit_reverse_loop:
  "n \<le> 8 \<Longrightarrow> bit (reverse_loop n inp out) k \<longleftrightarrow>
     k < 16 \<and> (if k < n then bit inp (n - 1 - k) else bit out (k - n))"
proof (induction n arbitrary: inp out)
  case 0
  then show ?case by (auto dest: bit_imp_le_length)
next
  case (Suc n)
  have "bit (push_bit 1 out OR (inp AND 1)) m \<longleftrightarrow> m < 16 \<and> (if m = 0 then bit inp 0 else bit out (m - 1))" for m
    unfolding bit_or_iff bit_push16 bit_and_iff by (auto simp: bit_1_iff dest: bit_imp_le_length)
  with Suc show ?case by (auto simp: bit_drop_bit_eq not_less Suc_diff_Suc)
qed

lemma bit_byte_reversed: "bit (byte_reversed v) k \<longleftrightarrow> k < 8 \<and> bit v (7 - k)"
  by (auto simp: byte_reversed_def bit_reverse_loop)

lemma byte_reversed_involution: "byte_reversed (byte_reversed v) = v AND 0xff"
proof (rule bit_word_eqI)
  fix n
  have "(0xff :: u16) = mask 8" by (simp add: mask_eq_exp_minus_1)
  then show "bit (byte_reversed (byte_reversed v)) n = bit (v AND 0xff) n"
    by (simp only: bit_and_iff bit_mask_iff bit_byte_reversed) auto
qed

lemma byte_reversed_octet: "byte_reversed v AND 0xff = byte_reversed v"
proof (rule bit_word_eqI)
  fix n
  have "(0xff :: u16) = mask 8" by (simp add: mask_eq_exp_minus_1)
  then show "bit (byte_reversed v AND 0xff) n = bit (byte_reversed v) n"
    by (simp only: bit_and_iff bit_mask_iff bit_byte_reversed) auto
qed

lemma octet_bits_byte_reversed: "octet_bits (byte_reversed v) = rev (octet_bits v)"
  by (simp add: octet_bits_def bit_byte_reversed)

lemma reversed_chars_table:
  "aReversedCharsArray = map (\<lambda>i. ucast (byte_reversed (of_nat i))) [0..<256]"
  by code_simp

lemma byte_reverse_walk_correct:
  "byte_reverse_walk (length p) (p @ q) n =
     (if n \<le> length q then Some (p @ map byte_reversed (take n q) @ drop n q) else None)"
proof (induction n arbitrary: p q)
  case (Suc n)
  show ?case
  proof (cases q)
    case Nil
    then show ?thesis by (simp add: rd_at_def)
  next
    case (Cons v q')
    have "byte_reverse_walk (Suc (length p)) ((p @ [byte_reversed v]) @ q') n =
        (if n \<le> length q' then Some ((p @ [byte_reversed v]) @ map byte_reversed (take n q') @ drop n q') else None)"
      using Suc.IH [of "p @ [byte_reversed v]" q'] by simp
    with Cons show ?thesis by (simp add: mem_simps)
  qed
qed simp

text \<open>A block of length-prefixed records, as the HDLC mode exchanges it.\<close>

definition records :: "u16 list list \<Rightarrow> u16 list" where
  "records fs = concat (map (\<lambda>f. of_nat (length f) # f) fs)"

lemma records_simps [simp]:
  "records [] = []" "records (f # fs) = of_nat (length f) # f @ records fs"
  by (simp_all add: records_def)

lemma frame_reverse_walk_correct:
  assumes "\<forall>f \<in> set fs. length f < 65536"
  shows "frame_reverse_walk (length p) (p @ records fs @ rest) (length fs) =
    Some (p @ records (map (map byte_reversed) fs) @ rest)"
  using assms
proof (induction fs arbitrary: p)
  case (Cons f fs)
  let ?h = "of_nat (length f) :: u16"
  have u: "unat ?h = length f" using Cons.prems by (simp add: unat_of_nat_u16)
  have "byte_reverse_walk (Suc (length p)) (p @ ?h # f @ records fs @ rest) (length f) =
      Some (p @ ?h # map byte_reversed f @ records fs @ rest)"
    using byte_reverse_walk_correct [of "p @ [?h]" "f @ records fs @ rest" "length f"] by simp
  moreover have "frame_reverse_walk (Suc (length p + length f))
       (p @ ?h # map byte_reversed f @ records fs @ rest) (length fs) =
     Some (p @ ?h # map byte_reversed f @ records (map (map byte_reversed) fs) @ rest)"
    using Cons.IH [of "p @ ?h # map byte_reversed f"] Cons.prems by simp
  ultimately show ?case by (simp add: mem_simps u)
qed simp

subsection \<open>Properties\<close>

text \<open>C36: the nibble-driven check sequence is the bit-serial CRC-16 of the octets, most
  significant bit first, with polynomial 0x1021, preset to ones and complemented; a count
  beyond the buffer reads out of it.\<close>

theorem gen_fcs16_is_crc:
  "faxvmi_gen_fcs16 buf count =
    (if unat count \<le> length buf
     then Some (NOT (foldl crc_bit 0xffff (octets_bits (take (unat count) buf)))) else None)"
  by (simp add: faxvmi_gen_fcs16_def fcs16_walk_crc fcs16_walk_out)

text \<open>C27: a frame followed by the two octets of its own check sequence has check sequence
  0xE2F0, the value the receiver compares with, whatever the frame.\<close>

theorem fcs16_good_residue:
  assumes "length xs + 2 < 65536"
  shows "\<exists>fcs. faxvmi_gen_fcs16 xs (of_nat (length xs)) = Some fcs \<and>
    faxvmi_gen_fcs16 (xs @ [drop_bit 8 fcs, fcs AND 0xff]) (of_nat (length xs + 2)) = Some 0xe2f0"
proof -
  have "unat (of_nat (length xs) :: u16) = length xs"
    using assms by (intro unat_of_nat_u16) simp
  then obtain fcs where f: "faxvmi_gen_fcs16 xs (of_nat (length xs)) = Some fcs"
    by (simp add: gen_fcs16_crc)
  from gen_fcs16_residue [OF f assms, of "xs @ [drop_bit 8 fcs, fcs AND 0xff]"]
  show ?thesis using f by simp
qed

theorem fcs16_good_residue_witness:
  "\<exists>fcs. faxvmi_gen_fcs16 [0xff, 0x03, 0x80] (of_nat (length [0xff, 0x03, 0x80 :: u16])) = Some fcs \<and>
    faxvmi_gen_fcs16 ([0xff, 0x03, 0x80] @ [drop_bit 8 fcs, fcs AND 0xff])
      (of_nat (length [0xff, 0x03, 0x80 :: u16] + 2)) = Some 0xe2f0"
  by (rule fcs16_good_residue) simp

text \<open>C35: the check sequence detects every error burst of up to sixteen bits: two frames whose
  bit strings differ only inside such a window have different check sequences.\<close>

theorem fcs16_detects_bursts:
  assumes "octets_bits xs = p @ e1 @ q" and "octets_bits ys = p @ e2 @ q"
    and "length e1 = length e2" and "length e1 \<le> 16" and "e1 \<noteq> e2"
    and "length xs < 65536" and "length ys < 65536"
  shows "faxvmi_gen_fcs16 xs (of_nat (length xs)) \<noteq> faxvmi_gen_fcs16 ys (of_nat (length ys))"
  using crc_burst_differs [OF assms(3,4,5), of "0xffff" p q] assms(6,7)
  by (simp only: gen_fcs16_crc unat_of_nat_u16 take_all order_refl assms(1,2) option.inject) auto

theorem fcs16_detects_bursts_witness:
  "faxvmi_gen_fcs16 [0xff, 0x03] (of_nat (length [0xff, 0x03 :: u16])) \<noteq>
   faxvmi_gen_fcs16 [0xff, 0x13] (of_nat (length [0xff, 0x13 :: u16]))"
  by (rule fcs16_detects_bursts [where p = "octet_bits 0xff" and q = "[]"
        and ?e1.0 = "octet_bits 0x03" and ?e2.0 = "octet_bits 0x13"])
    (simp_all add: octet_bits_def)

text \<open>reversing a block of length-prefixed frames reverses the bits of every octet of every
  frame and nothing else, and reversing twice restores the block.\<close>

theorem frame_reverse_involution:
  assumes "\<forall>f \<in> set fs. length f < 65536 \<and> (\<forall>v \<in> set f. v AND 0xff = v)"
    and "length fs < 65536"
  shows "\<exists>buf. faxvmi_frame_reverse (records fs @ rest) (of_nat (length fs)) = Some buf \<and>
    buf = records (map (map byte_reversed) fs) @ rest \<and>
    faxvmi_frame_reverse buf (of_nat (length fs)) = Some (records fs @ rest)"
proof -
  have u: "unat (of_nat (length fs) :: u16) = length fs" using assms(2) by (rule unat_of_nat_u16)
  have "map (map byte_reversed) (map (map byte_reversed) fs) = fs"
    using assms(1) by (simp add: byte_reversed_involution map_idI)
  then show ?thesis
    using frame_reverse_walk_correct [of fs "[]" rest] assms(1)
      frame_reverse_walk_correct [of "map (map byte_reversed) fs" "[]" rest]
    by (simp add: faxvmi_frame_reverse_def u)
qed

theorem frame_reverse_involution_witness:
  "\<exists>buf. faxvmi_frame_reverse (records [[0xff, 0x03], [0x80]] @ [7]) (of_nat (length [[0xff, 0x03], [0x80 :: u16]])) = Some buf \<and>
    buf = records (map (map byte_reversed) [[0xff, 0x03], [0x80]]) @ [7] \<and>
    faxvmi_frame_reverse buf (of_nat (length [[0xff, 0x03], [0x80 :: u16]])) = Some (records [[0xff, 0x03], [0x80]] @ [7])"
  by (rule frame_reverse_involution) simp_all

text \<open>the 256-entry table of the Class 1 output path holds at every index the bit reversal
  that \<^verbatim>\<open>faxvmi_byte_reverse\<close> computes, so reading it twice gives the octet back.\<close>

theorem reversed_chars_is_reversal:
  "aReversedCharsArray ! unat (v :: u8) = ucast (byte_reversed (ucast v)) \<and>
   aReversedCharsArray ! unat (aReversedCharsArray ! unat v) = v"
proof -
  have one: "aReversedCharsArray ! unat (v :: u8) = ucast (byte_reversed (ucast v))" for v
  proof -
    have "unat v < 256" using unsigned_less [of v] by simp
    moreover have "(of_nat (unat v) :: u16) = ucast v" by (simp add: word_eq_iff_unsigned unsigned_ucast_eq)
    ultimately show ?thesis by (simp add: reversed_chars_table)
  qed
  have "byte_reversed (ucast (ucast (byte_reversed (ucast v)) :: u8)) = (ucast v :: u16)"
  proof (rule bit_word_eqI)
    fix n
    have "bit v n \<Longrightarrow> n < 8" using bit_imp_le_length [of v n] by simp
    then have "bit v n \<Longrightarrow> 7 - (7 - n) = n" by simp
    with \<open>bit v n \<Longrightarrow> n < 8\<close>
    show "bit (byte_reversed (ucast (ucast (byte_reversed (ucast v)) :: u8))) n = bit (ucast v :: u16) n"
      by (auto simp: bit_byte_reversed bit_simps)
  qed
  then have "ucast (byte_reversed (ucast (ucast (byte_reversed (ucast v)) :: u8))) = v"
    by simp
  with one show ?thesis by simp
qed

end
