(* ===== verification/VmiRing.thy ===== *)
theory VmiRing
  imports Ring VmiUtil
begin

text \<open>
  The state of the Virtual Modem Interface (\<^verbatim>\<open>struct faxvmi_framer\<close>,
  \<^verbatim>\<open>struct faxvmi_link\<close> and \<^verbatim>\<open>struct faxvmi\<close> of \<^verbatim>\<open>include/dsplib/faxvmi.h\<close>) and its two
  ring writers, \<open>faxvmi_write_fifo\<close> and \<open>faxvmi_write_frame\<close> of
  \<^verbatim>\<open>src/fax/faxvmififo.c\<close>. The handle of the wrapped modulation and its configuration are
  type parameters: they belong to the modulations, which the interface only calls.

  The theory shows that the writers refine appending to a queue: the element writer appends
  the prefix that fits, the frame writer appends each frame with its length in front and its
  check sequence behind, or stops before the first that does not fit.
\<close>

record framer =
  fr_fifo :: "u16 list"
  fr_fifo_size :: u16
  fr_rd :: u16
  fr_wr :: u16
  fr_count :: u16
  fr_residue :: int
  fr_pack_mask :: u32
  fr_pack_word :: u32
  fr_pack_acc :: u32
  fr_pack_bit :: u16
  fr_pad_001e :: u16
  fr_unpack_mask :: u32
  fr_unpack_word :: u32
  fr_unpack_acc :: u32
  fr_unpack_bit :: u16
  fr_short_002e :: u16
  fr_async_hunt :: int
  fr_zero_run_bits :: u16
  fr_zero_run_send :: int
  fr_zero_run_seen :: int
  fr_frame :: "u16 list"
  fr_frame_size :: u16
  fr_pack_frame_left :: u16
  fr_frame_len :: u16
  fr_flags_wanted :: u16
  fr_pack_flagging :: int
  fr_ones :: u16
  fr_in_frame :: int

record 'm faxvmi_link =
  lk_ptr_0000 :: "u16 list"
  lk_buf :: "u16 list"
  lk_pack_count :: u16
  lk_pack_width :: u16
  lk_unpack_width :: u16
  lk_modem :: "'m option"

record ('m, 'c) faxvmi =
  vm_mode :: u16
  vm_reverse :: int
  vm_fifo_size :: u16
  vm_max_frame :: u16
  vm_frame_size :: u16
  vm_slot :: u16
  vm_modem_cfg :: 'c
  vm_underrun :: int
  vm_overflow :: int
  vm_status :: u32
  vm_framer :: framer
  vm_link :: "'m faxvmi_link"

subsection \<open>The writers\<close>

text \<open>Store one element at the write cursor and advance it; the occupancy is the caller's.\<close>

definition ring_push :: "framer \<Rightarrow> u16 \<Rightarrow> framer option" where
  "ring_push fr x = do {
     fifo \<leftarrow> wr_at (fr_fifo fr) (unat (fr_wr fr)) x;
     Some (fr\<lparr>fr_fifo := fifo, fr_wr := ring_next (fr_fifo_size fr) (fr_wr fr)\<rparr>)
   }"

text \<open>
  The element loop of both writers: \<open>taken\<close> is the value the underrun field will get, and
  \<open>None\<close> in its place is the exit on a full ring, which leaves the field alone.
\<close>

fun ring_copy :: "framer \<Rightarrow> u16 list \<Rightarrow> int \<Rightarrow> u16 \<Rightarrow> nat \<Rightarrow> (framer \<times> u16 list \<times> int option \<times> u16) option" where
  "ring_copy fr p taken n 0 = Some (fr, p, Some taken, n)"
| "ring_copy fr p taken n (Suc i) =
     (if fr_count fr \<ge> fr_fifo_size fr then Some (fr, p, None, n)
      else do {
        x \<leftarrow> rd_at p 0;
        fr' \<leftarrow> ring_push fr x;
        ring_copy (fr'\<lparr>fr_count := fr_count fr + 1\<rparr>) (tl p) 0 (n + 1) i
      })"

definition set_underrun :: "int option \<Rightarrow> ('m, 'c) faxvmi \<Rightarrow> ('m, 'c) faxvmi" where
  "set_underrun t vmi = (case t of Some u \<Rightarrow> vmi\<lparr>vm_underrun := u\<rparr> | None \<Rightarrow> vmi)"

definition faxvmi_write_fifo :: "('m, 'c) faxvmi \<Rightarrow> u16 list \<Rightarrow> u16 \<Rightarrow> (('m, 'c) faxvmi \<times> u16 list \<times> u16) option" where
  "faxvmi_write_fifo vmi src count = do {
     (fr, p, t, n) \<leftarrow> ring_copy (vm_framer vmi) src (vm_underrun vmi) 0 (unat count);
     Some (set_underrun t (vmi\<lparr>vm_framer := fr\<rparr>), p, n)
   }"

fun write_frame_loop :: "('m, 'c) faxvmi \<Rightarrow> u16 list \<Rightarrow> u16 \<Rightarrow> nat \<Rightarrow> (('m, 'c) faxvmi \<times> u16 list \<times> u16) option" where
  "write_frame_loop vmi p written 0 = Some (vmi, p, written)"
| "write_frame_loop vmi p written (Suc i) = do {
     len \<leftarrow> rd_at p 0;
     let fr = vm_framer vmi;
     if uint (fr_count fr) + sint len + 3 \<ge> uint (fr_fifo_size fr) then Some (vmi, p, written)
     else do {
       fr \<leftarrow> ring_push fr (len + 2);
       let fr = fr\<lparr>fr_count := fr_count fr + 3\<rparr>;
       let p = tl p;
       fcs \<leftarrow> faxvmi_gen_fcs16 p len;
       (fr, p, t, _) \<leftarrow> ring_copy fr p (vm_underrun vmi) 0 (unat len);
       fr \<leftarrow> ring_push fr (drop_bit 8 fcs);
       fr \<leftarrow> ring_push fr (fcs AND 0xff);
       write_frame_loop (set_underrun t (vmi\<lparr>vm_framer := fr\<rparr>)) p (written + 1) i
     }
   }"

definition faxvmi_write_frame :: "('m, 'c) faxvmi \<Rightarrow> u16 list \<Rightarrow> u16 \<Rightarrow> (('m, 'c) faxvmi \<times> u16 list \<times> u16) option" where
  "faxvmi_write_frame vmi src count = write_frame_loop vmi src 0 (unat count)"

subsection \<open>Invariant and contents of the transmit ring\<close>

definition framer_wf :: "framer \<Rightarrow> bool" where
  "framer_wf fr \<longleftrightarrow> ring_wf (fr_fifo fr) (fr_fifo_size fr) (fr_rd fr) (fr_wr fr) (fr_count fr)"

definition framer_held :: "framer \<Rightarrow> u16 list" where
  "framer_held fr = ring_held (fr_fifo fr) (fr_fifo_size fr) (fr_rd fr) (fr_count fr)"

text \<open>The framer with only its ring changed.\<close>

definition with_ring :: "framer \<Rightarrow> u16 list \<Rightarrow> u16 \<Rightarrow> u16 \<Rightarrow> framer" where
  "with_ring fr fifo wr count = fr\<lparr>fr_fifo := fifo, fr_wr := wr, fr_count := count\<rparr>"

lemma with_ring_simps [simp]:
  "fr_fifo (with_ring fr b w c) = b" "fr_wr (with_ring fr b w c) = w" "fr_count (with_ring fr b w c) = c"
  "fr_rd (with_ring fr b w c) = fr_rd fr" "fr_fifo_size (with_ring fr b w c) = fr_fifo_size fr"
  "fr_pack_frame_left (with_ring fr b w c) = fr_pack_frame_left fr"
  "with_ring (with_ring fr b w c) b' w' c' = with_ring fr b' w' c'"
  "with_ring fr (fr_fifo fr) (fr_wr fr) (fr_count fr) = fr"
  by (simp_all add: with_ring_def)

lemma length_framer_held [simp]: "length (framer_held fr) = unat (fr_count fr)"
  by (simp add: framer_held_def)

lemma ring_push_put:
  "ring_push fr x = map_option (\<lambda>(b, w). with_ring fr b w (fr_count fr))
     (ring_put (fr_fifo fr) (fr_fifo_size fr) (fr_wr fr) 1 [x])"
  by (cases "unat (fr_wr fr) < length (fr_fifo fr)")
     (simp_all add: ring_push_def with_ring_def rd_at_def wr_at_def)

lemma ring_put_append:
  assumes "ring_put buf sz wr (length xs) xs = Some (b, w)"
  shows "ring_put buf sz wr (length xs + n) (xs @ ys) = ring_put b sz w n ys"
  using assms
proof (induction xs arbitrary: buf wr)
  case (Cons x xs)
  then show ?case by (cases "unat wr < length buf") (auto simp: rd_at_def wr_at_def)
qed simp

lemma ring_put_take: "n \<le> length src \<Longrightarrow> ring_put buf sz wr n src = ring_put buf sz wr n (take n src)"
proof (induction n arbitrary: buf wr src)
  case (Suc n)
  then obtain x xs where src: "src = x # xs" by (cases src) auto
  have "ring_put (buf[unat wr := x]) sz (ring_next sz wr) n xs =
      ring_put (buf[unat wr := x]) sz (ring_next sz wr) n (take n xs)"
    using Suc.prems src by (intro Suc.IH) simp
  then show ?case by (simp add: src rd_at_def wr_at_def)
qed simp

lemma ring_copy_room:
  assumes "unat (fr_count fr) + k \<le> unat (fr_fifo_size fr)" and "k \<le> length p"
    and "ring_put (fr_fifo fr) (fr_fifo_size fr) (fr_wr fr) k p = Some (b, w)"
  shows "ring_copy fr p t n k =
    Some (with_ring fr b w (fr_count fr + of_nat k), drop k p, Some (if k = 0 then t else 0), n + of_nat k)"
  using assms
proof (induction k arbitrary: fr p t n)
  case 0
  then show ?case by auto
next
  case (Suc k)
  from Suc.prems(2) obtain x xs where p: "p = x # xs" by (cases p) auto
  from Suc.prems(3) have w: "unat (fr_wr fr) < length (fr_fifo fr)"
    by (cases "unat (fr_wr fr) < length (fr_fifo fr)") (auto simp: p rd_at_def wr_at_def)
  let ?fr = "with_ring fr ((fr_fifo fr)[unat (fr_wr fr) := x]) (ring_next (fr_fifo_size fr) (fr_wr fr)) (fr_count fr + 1)"
  have c: "unat (fr_count fr) + 1 < 65536"
    using Suc.prems(1) unat_u16_less [of "fr_fifo_size fr"] by linarith
  then have "unat (fr_count ?fr) + k \<le> unat (fr_fifo_size ?fr)"
    using Suc.prems(1) by (simp add: unat_succ_u16)
  moreover have "ring_put (fr_fifo ?fr) (fr_fifo_size ?fr) (fr_wr ?fr) k xs = Some (b, w)"
    using Suc.prems(3) w by (simp add: p rd_at_def wr_at_def)
  ultimately have IH: "ring_copy ?fr xs 0 (n + 1) k =
      Some (with_ring ?fr b w (fr_count ?fr + of_nat k), drop k xs, Some 0, n + 1 + of_nat k)"
    using Suc.IH [of ?fr xs 0 "n + 1"] Suc.prems(2) by (simp add: p)
  have push: "ring_push fr x = Some (with_ring fr ((fr_fifo fr)[unat (fr_wr fr) := x])
      (ring_next (fr_fifo_size fr) (fr_wr fr)) (fr_count fr))"
    using w by (simp add: ring_push_def with_ring_def wr_at_def)
  have "\<not> fr_fifo_size fr \<le> fr_count fr" using Suc.prems(1) by (simp add: word_le_nat_alt)
  with IH push show ?case by (simp add: p mem_simps) (simp add: with_ring_def ac_simps)
qed

lemma ring_copy_split:
  "ring_copy fr p t n k = Some (fr', p', Some t', n') \<Longrightarrow>
   ring_copy fr p t n (k + j) = ring_copy fr' p' t' n' j"
proof (induction k arbitrary: fr p t n)
  case (Suc k)
  then show ?case
    by (auto split: if_splits option.splits simp: bind_eq_Some_conv)
qed simp

text \<open>\<open>fr'\<close> is \<open>fr\<close> with \<open>xs\<close> appended to its ring and nothing else changed.\<close>

definition ring_appended :: "framer \<Rightarrow> framer \<Rightarrow> u16 list \<Rightarrow> bool" where
  "ring_appended fr fr' xs \<longleftrightarrow>
     framer_wf fr' \<and> framer_held fr' = framer_held fr @ xs \<and>
     unat (fr_count fr') = unat (fr_count fr) + length xs \<and>
     (\<exists>b w c. fr' = with_ring fr b w c)"

lemma ring_appended_refl: "framer_wf fr \<Longrightarrow> ring_appended fr fr []"
  by (auto simp: ring_appended_def intro: with_ring_simps(8) [symmetric])

lemma ring_appended_trans:
  "ring_appended fr fr' xs \<Longrightarrow> ring_appended fr' fr'' ys \<Longrightarrow> ring_appended fr fr'' (xs @ ys)"
  unfolding ring_appended_def by (auto, metis)

lemma ring_appended_size: "ring_appended fr fr' xs \<Longrightarrow> fr_fifo_size fr' = fr_fifo_size fr"
  by (auto simp: ring_appended_def)

lemma ring_appended_wf: "ring_appended fr fr' xs \<Longrightarrow> framer_wf fr'"
  by (simp add: ring_appended_def)

lemma ring_put_appended:
  assumes wf: "framer_wf fr" and room: "unat (fr_count fr) + length xs \<le> unat (fr_fifo_size fr)"
  shows "\<exists>b w. ring_put (fr_fifo fr) (fr_fifo_size fr) (fr_wr fr) (length xs) xs = Some (b, w) \<and>
    ring_appended fr (with_ring fr b w (fr_count fr + of_nat (length xs))) xs"
proof -
  let ?p = "of_nat (length xs) :: u16"
  have lt: "unat (fr_count fr) + length xs < 65536"
    using room unat_u16_less [of "fr_fifo_size fr"] by linarith
  then have u: "unat ?p = length xs" by (intro unat_of_nat_u16) simp
  with lt have c: "unat (fr_count fr + ?p) = unat (fr_count fr) + length xs"
    by (subst unat_add_u16) simp_all
  from room have room': "unat (fr_count fr) + unat ?p \<le> unat (fr_fifo_size fr)" by (simp only: u)
  have src: "unat ?p \<le> length xs" by (simp only: u)
  obtain b w where put: "ring_put (fr_fifo fr) (fr_fifo_size fr) (fr_wr fr) (length xs) xs = Some (b, w)"
    and wf': "ring_wf b (fr_fifo_size fr) (fr_rd fr) w (fr_count fr + ?p)"
    and held: "ring_held b (fr_fifo_size fr) (fr_rd fr) (fr_count fr + ?p) =
        ring_held (fr_fifo fr) (fr_fifo_size fr) (fr_rd fr) (fr_count fr) @ xs"
    using ring_wf_put [OF wf [unfolded framer_wf_def] room' src] unfolding u by auto
  have "ring_appended fr (with_ring fr b w (fr_count fr + ?p)) xs"
    unfolding ring_appended_def using wf' held c by (auto simp: framer_wf_def framer_held_def)
  with put show ?thesis by blast
qed

lemma ring_copy_appended:
  assumes wf: "framer_wf fr" and p: "k \<le> length p"
    and m: "m = min k (unat (fr_fifo_size fr) - unat (fr_count fr))"
  shows "\<exists>fr'. ring_copy fr p t n k =
      Some (fr', drop m p, if m = k then Some (if k = 0 then t else 0) else None, n + of_nat m) \<and>
    ring_appended fr fr' (take m p)"
proof -
  have le: "unat (fr_count fr) \<le> unat (fr_fifo_size fr)" using wf by (simp add: framer_wf_def ring_wf_def)
  have room: "unat (fr_count fr) + m \<le> unat (fr_fifo_size fr)" using m le by simp
  have len: "length (take m p) = m" using m p by simp
  obtain b w where put: "ring_put (fr_fifo fr) (fr_fifo_size fr) (fr_wr fr) m (take m p) = Some (b, w)"
    and app: "ring_appended fr (with_ring fr b w (fr_count fr + of_nat m)) (take m p)"
    using ring_put_appended [OF wf, of "take m p"] room unfolding len by auto
  let ?fr = "with_ring fr b w (fr_count fr + of_nat m)"
  have "ring_put (fr_fifo fr) (fr_fifo_size fr) (fr_wr fr) m p = Some (b, w)"
    using put ring_put_take [of m p] m p by simp
  from ring_copy_room [OF room _ this, of t n]
  have copy: "ring_copy fr p t n m = Some (?fr, drop m p, Some (if m = 0 then t else 0), n + of_nat m)"
    using m p by simp
  show ?thesis
  proof (cases "m = k")
    case True
    with copy app show ?thesis by auto
  next
    case False
    then obtain j where k: "k = m + Suc j"
      using m by (metis less_imp_Suc_add min_def add_Suc_right nat_less_le min.cobounded1)
    have "unat (fr_count ?fr) = unat (fr_fifo_size fr)"
      using app False m le len by (simp add: ring_appended_def min_def split: if_splits)
    then have "fr_fifo_size ?fr \<le> fr_count ?fr" by (simp add: word_le_nat_alt)
    then have "ring_copy fr p t n k = Some (?fr, drop m p, None, n + of_nat m)"
      using ring_copy_split [OF copy, of "Suc j"] by (simp add: k)
    with app False show ?thesis by auto
  qed
qed

text \<open>The element writer appends the longest prefix that fits.\<close>

lemma faxvmi_write_fifo_correct:
  assumes "framer_wf (vm_framer vmi)" and "unat count \<le> length src"
    and m: "m = min (unat count) (unat (fr_fifo_size (vm_framer vmi)) - unat (fr_count (vm_framer vmi)))"
  shows "\<exists>fr. faxvmi_write_fifo vmi src count =
      Some (vmi\<lparr>vm_framer := fr, vm_underrun := (if m = unat count \<and> 0 < m then 0 else vm_underrun vmi)\<rparr>,
            drop m src, of_nat m) \<and>
    ring_appended (vm_framer vmi) fr (take m src)"
proof -
  obtain fr where copy: "ring_copy (vm_framer vmi) src (vm_underrun vmi) 0 (unat count) =
      Some (fr, drop m src, if m = unat count then Some (if unat count = 0 then vm_underrun vmi else 0) else None,
        0 + of_nat m)"
    and app: "ring_appended (vm_framer vmi) fr (take m src)"
    using ring_copy_appended [OF assms(1,2) m] by blast
  have "faxvmi_write_fifo vmi src count =
      Some (vmi\<lparr>vm_framer := fr, vm_underrun := (if m = unat count \<and> 0 < m then 0 else vm_underrun vmi)\<rparr>,
            drop m src, of_nat m)"
    unfolding faxvmi_write_fifo_def copy by (cases vmi) (auto simp: set_underrun_def)
  with app show ?thesis by blast
qed

subsection \<open>The frame writer as appending framed records\<close>

definition fcs_of :: "u16 list \<Rightarrow> u16" where
  "fcs_of f = NOT (foldl crc_bit 0xffff (octets_bits f))"

text \<open>What the ring holds of a frame: its length with the check sequence, the octets, the check sequence.\<close>

definition wire_frame :: "u16 list \<Rightarrow> u16 list" where
  "wire_frame f = of_nat (length f + 2) # f @ [drop_bit 8 (fcs_of f), fcs_of f AND 0xff]"

lemma length_wire_frame [simp]: "length (wire_frame f) = length f + 3"
  by (simp add: wire_frame_def)

fun frames_taken :: "nat \<Rightarrow> nat \<Rightarrow> u16 list list \<Rightarrow> nat" where
  "frames_taken sz c [] = 0"
| "frames_taken sz c (f # fs) =
     (if sz \<le> c + length f + 3 then 0 else Suc (frames_taken sz (c + length f + 3) fs))"

lemma frames_taken_le: "frames_taken sz c fs \<le> length fs"
  by (induction fs arbitrary: c) simp_all

lemma write_one_frame:
  assumes wf: "framer_wf fr" and room: "unat (fr_count fr) + length f + 3 < unat (fr_fifo_size fr)"
  shows "\<exists>fr1 fr2 fr3 fr'. ring_push fr (of_nat (length f + 2)) = Some fr1 \<and>
    ring_copy (fr1\<lparr>fr_count := fr_count fr1 + 3\<rparr>) (f @ q) t 0 (length f) =
      Some (fr2, q, Some (if f = [] then t else 0), of_nat (length f)) \<and>
    ring_push fr2 (drop_bit 8 (fcs_of f)) = Some fr3 \<and>
    ring_push fr3 (fcs_of f AND 0xff) = Some fr' \<and>
    ring_appended fr fr' (wire_frame f)"
proof -
  let ?sz = "fr_fifo_size fr" and ?hd = "[of_nat (length f + 2)] :: u16 list"
  let ?hi = "[drop_bit 8 (fcs_of f)]" and ?lo = "[fcs_of f AND 0xff]"
  have room3: "unat (fr_count fr) + length (wire_frame f) \<le> unat (fr_fifo_size fr)" using room by simp
  obtain b w where put: "ring_put (fr_fifo fr) ?sz (fr_wr fr) (length (wire_frame f)) (wire_frame f) = Some (b, w)"
    and app: "ring_appended fr (with_ring fr b w (fr_count fr + of_nat (length (wire_frame f)))) (wire_frame f)"
    using ring_put_appended [OF wf room3] by blast
  obtain b1 w1 where p1: "ring_put (fr_fifo fr) ?sz (fr_wr fr) 1 ?hd = Some (b1, w1)"
    using ring_put_appended [OF wf, of ?hd] room by auto
  obtain b2 w2 where p12: "ring_put (fr_fifo fr) ?sz (fr_wr fr) (length (?hd @ f)) (?hd @ f) = Some (b2, w2)"
    using ring_put_appended [OF wf, of "?hd @ f"] room by auto
  obtain b3 w3 where p13: "ring_put (fr_fifo fr) ?sz (fr_wr fr) (length (?hd @ f @ ?hi)) (?hd @ f @ ?hi) = Some (b3, w3)"
    using ring_put_appended [OF wf, of "?hd @ f @ ?hi"] room by auto
  have p2: "ring_put b1 ?sz w1 (length f) f = Some (b2, w2)"
    using ring_put_append [of "fr_fifo fr" ?sz "fr_wr fr" ?hd b1 w1 "length f" f] p1 p12 by simp
  have p3: "ring_put b2 ?sz w2 1 ?hi = Some (b3, w3)"
    using ring_put_append [OF p12, of 1 ?hi] p13 by simp
  have p4: "ring_put b3 ?sz w3 1 ?lo = Some (b, w)"
    using ring_put_append [OF p13, of 1 ?lo] put by (simp add: wire_frame_def)
  let ?c = "fr_count fr" and ?fr1 = "with_ring fr b1 w1 (fr_count fr)"
  have push1: "ring_push fr (of_nat (length f + 2)) = Some ?fr1" using p1 by (simp add: ring_push_put)
  have e1: "?fr1\<lparr>fr_count := fr_count ?fr1 + 3\<rparr> = with_ring fr b1 w1 (?c + 3)" by (simp add: with_ring_def)
  have "unat ?c < 65533" using room unat_u16_less [of ?sz] by linarith
  then have c3: "unat (?c + 3) = unat ?c + 3" using unat_add_u16 [of ?c 3] by simp
  have p2': "ring_put b1 ?sz w1 (length f) (f @ q) = Some (b2, w2)"
    using p2 ring_put_take [of "length f" "f @ q"] by simp
  have copy: "ring_copy (with_ring fr b1 w1 (?c + 3)) (f @ q) t 0 (length f) =
      Some (with_ring fr b2 w2 (?c + 3 + of_nat (length f)), q, Some (if f = [] then t else 0), of_nat (length f))"
    using ring_copy_room [of "with_ring fr b1 w1 (?c + 3)" "length f" "f @ q" b2 w2 t 0] p2' c3 room by simp
  have cc: "?c + 3 + of_nat (length f) = ?c + of_nat (length (wire_frame f))" by simp
  have "ring_push (with_ring fr b2 w2 (?c + 3 + of_nat (length f))) (drop_bit 8 (fcs_of f)) =
      Some (with_ring fr b3 w3 (?c + of_nat (length (wire_frame f))))"
    using p3 by (simp add: ring_push_put cc)
  moreover have "ring_push (with_ring fr b3 w3 (?c + of_nat (length (wire_frame f)))) (fcs_of f AND 0xff) =
      Some (with_ring fr b w (?c + of_nat (length (wire_frame f))))"
    using p4 by (simp add: ring_push_put)
  ultimately show ?thesis using push1 copy app e1 by metis
qed

lemma gen_fcs16_prefix:
  assumes "unat len = length f"
  shows "faxvmi_gen_fcs16 (f @ q) len = Some (fcs_of f)"
  using assms by (simp add: gen_fcs16_crc fcs_of_def)

lemma sint_of_nat_u16: "n < 32768 \<Longrightarrow> sint (of_nat n :: u16) = int n"
  by (simp add: sint_uint unsigned_of_nat take_bit_nat_eq_self signed_take_bit_int_eq_self)

lemma write_frame_loop_correct:
  fixes vmi :: "('m, 'c) faxvmi"
  assumes "framer_wf (vm_framer vmi)" and "\<forall>f \<in> set fs. length f < 32766"
    and "k = frames_taken (unat (fr_fifo_size (vm_framer vmi))) (unat (fr_count (vm_framer vmi))) fs"
  shows "\<exists>fr. write_frame_loop vmi (records fs @ rest) n (length fs) =
      Some (vmi\<lparr>vm_framer := fr, vm_underrun := (if \<forall>f \<in> set (take k fs). f = [] then vm_underrun vmi else 0)\<rparr>,
            records (drop k fs) @ rest, n + of_nat k) \<and>
    ring_appended (vm_framer vmi) fr (concat (map wire_frame (take k fs)))"
  using assms
proof (induction fs arbitrary: vmi n k)
  case Nil
  then show ?case by (cases vmi) (auto intro: ring_appended_refl)
next
  case (Cons f fs)
  let ?fr = "vm_framer vmi" and ?len = "of_nat (length f) :: u16"
  have lf: "length f < 32766" using Cons.prems(2) by simp
  have ul: "unat ?len = length f" using lf by (simp add: unat_of_nat_u16)
  have guard: "uint (fr_fifo_size ?fr) \<le> uint (fr_count ?fr) + sint ?len + 3 \<longleftrightarrow>
      unat (fr_fifo_size ?fr) \<le> unat (fr_count ?fr) + length f + 3"
    using lf by (simp add: sint_of_nat_u16 uint_nat del: of_nat_unat) linarith
  show ?case
  proof (cases "unat (fr_fifo_size ?fr) \<le> unat (fr_count ?fr) + length f + 3")
    case True
    with Cons.prems guard show ?thesis
      by (cases vmi) (auto simp: mem_simps intro: ring_appended_refl)
  next
    case False
    then have room: "unat (fr_count ?fr) + length f + 3 < unat (fr_fifo_size ?fr)" by simp
    obtain fr1 fr2 fr3 fr' where
      p1: "ring_push ?fr (of_nat (length f + 2)) = Some fr1" and
      p2: "ring_copy (fr1\<lparr>fr_count := fr_count fr1 + 3\<rparr>) (f @ records fs @ rest) (vm_underrun vmi) 0 (length f) =
        Some (fr2, records fs @ rest, Some (if f = [] then vm_underrun vmi else 0), of_nat (length f))" and
      p3: "ring_push fr2 (drop_bit 8 (fcs_of f)) = Some fr3" and
      p4: "ring_push fr3 (fcs_of f AND 0xff) = Some fr'" and
      app: "ring_appended ?fr fr' (wire_frame f)"
      using write_one_frame [OF Cons.prems(1) room] by blast
    let ?vmi = "vmi\<lparr>vm_framer := fr', vm_underrun := (if f = [] then vm_underrun vmi else 0)\<rparr>"
    define j where "j = frames_taken (unat (fr_fifo_size fr')) (unat (fr_count fr')) fs"
    have k: "k = Suc j"
      using Cons.prems(3) False app by (simp add: j_def ring_appended_size) (simp add: ring_appended_def add.assoc)
    obtain fr'' where
      IH: "write_frame_loop ?vmi (records fs @ rest) (n + 1) (length fs) =
        Some (?vmi\<lparr>vm_framer := fr'', vm_underrun := (if \<forall>f \<in> set (take j fs). f = [] then vm_underrun ?vmi else 0)\<rparr>,
              records (drop j fs) @ rest, n + 1 + of_nat j)" and
      app': "ring_appended fr' fr'' (concat (map wire_frame (take j fs)))"
      using Cons.IH [of ?vmi j "n + 1"] Cons.prems(2) ring_appended_wf [OF app] by (auto simp: j_def)
    have p1': "ring_push ?fr (?len + 2) = Some fr1" using p1 by (simp add: add.commute)
    have "write_frame_loop vmi (records (f # fs) @ rest) n (length (f # fs)) =
        write_frame_loop ?vmi (records fs @ rest) (n + 1) (length fs)"
      using room guard p2 p3 p4
      by (simp add: mem_simps p1' gen_fcs16_prefix ul set_underrun_def)
    with IH have "write_frame_loop vmi (records (f # fs) @ rest) n (length (f # fs)) =
        Some (vmi\<lparr>vm_framer := fr'', vm_underrun := (if \<forall>g \<in> set (take k (f # fs)). g = [] then vm_underrun vmi else 0)\<rparr>,
              records (drop k (f # fs)) @ rest, n + of_nat k)"
      by (cases vmi) (simp add: k add.assoc)
    moreover have "ring_appended ?fr fr'' (concat (map wire_frame (take k (f # fs))))"
      using ring_appended_trans [OF app app'] by (simp add: k)
    ultimately show ?thesis by blast
  qed
qed

lemmas write_frame_correct = write_frame_loop_correct [where n = 0, folded faxvmi_write_frame_def]

subsection \<open>A fresh instance\<close>

text \<open>
  The framer and the instance as \<^verbatim>\<open>FAXVMI_create\<close> leaves them, for a ring of \<open>ring\<close>
  elements and an assembly buffer of \<open>asm\<close>; the witnesses below start from it.
\<close>

definition fresh_framer :: "u16 \<Rightarrow> u16 \<Rightarrow> framer" where
  "fresh_framer ring asm =
     \<lparr>fr_fifo = replicate (unat ring) 0, fr_fifo_size = ring, fr_rd = 0, fr_wr = 0, fr_count = 0,
      fr_residue = 0, fr_pack_mask = 0, fr_pack_word = -1, fr_pack_acc = -1, fr_pack_bit = 0,
      fr_pad_001e = 0, fr_unpack_mask = 0, fr_unpack_word = -1, fr_unpack_acc = -1,
      fr_unpack_bit = 0, fr_short_002e = 0, fr_async_hunt = 1, fr_zero_run_bits = 0,
      fr_zero_run_send = 0, fr_zero_run_seen = 0, fr_frame = replicate (unat asm) 0,
      fr_frame_size = asm, fr_pack_frame_left = 0, fr_frame_len = 0, fr_flags_wanted = 2,
      fr_pack_flagging = 1, fr_ones = 0, fr_in_frame = 0\<rparr>"

definition fresh_link :: "u16 \<Rightarrow> u16 \<Rightarrow> 'm faxvmi_link" where
  "fresh_link n width =
     \<lparr>lk_ptr_0000 = replicate 200 0, lk_buf = replicate 50 0xffff, lk_pack_count = n,
      lk_pack_width = width, lk_unpack_width = width, lk_modem = None\<rparr>"

definition fresh_vmi :: "u16 \<Rightarrow> framer \<Rightarrow> 'm faxvmi_link \<Rightarrow> (('m, unit) faxvmi)" where
  "fresh_vmi mode fr lk =
     \<lparr>vm_mode = mode, vm_reverse = 0, vm_fifo_size = fr_fifo_size fr, vm_max_frame = 100,
      vm_frame_size = fr_frame_size fr, vm_slot = 0, vm_modem_cfg = (), vm_underrun = 1,
      vm_overflow = 0, vm_status = 0, vm_framer = fr, vm_link = lk\<rparr>"

lemma fresh_framer_wf: "ring \<noteq> 0 \<Longrightarrow> framer_wf (fresh_framer ring asm)"
  by (simp add: framer_wf_def ring_wf_def fresh_framer_def unat_gt_0)

lemma fresh_framer_held [simp]: "framer_held (fresh_framer ring asm) = []"
  by (simp add: framer_held_def fresh_framer_def ring_held_def)

subsection \<open>Properties\<close>

text \<open>C2: the frame writer refines appending to a queue. Offered a block of length-prefixed
  frames it takes the longest run of leading frames that each fit with their three elements
  of overhead, appends for each the length plus two, the octets and the two octets of the
  check sequence, moves the source pointer past exactly the frames taken and returns their
  number; the underrun flag is cleared when a taken frame has an octet and kept otherwise.\<close>

theorem write_frame_refines:
  fixes vmi :: "('m, 'c) faxvmi"
  assumes "framer_wf (vm_framer vmi)" and "\<forall>f \<in> set fs. length f < 32766" and "length fs < 65536"
    and "k = frames_taken (unat (fr_fifo_size (vm_framer vmi))) (unat (fr_count (vm_framer vmi))) fs"
  shows "\<exists>fr. faxvmi_write_frame vmi (records fs @ rest) (of_nat (length fs)) =
      Some (vmi\<lparr>vm_framer := fr, vm_underrun := (if \<forall>f \<in> set (take k fs). f = [] then vm_underrun vmi else 0)\<rparr>,
            records (drop k fs) @ rest, of_nat k) \<and>
    framer_wf fr \<and> framer_held fr = framer_held (vm_framer vmi) @ concat (map wire_frame (take k fs))"
proof -
  have "unat (of_nat (length fs) :: u16) = length fs" using assms(3) by (rule unat_of_nat_u16)
  with write_frame_loop_correct [OF assms(1,2,4), of rest 0] show ?thesis
    by (auto simp: faxvmi_write_frame_def ring_appended_def)
qed

theorem write_frame_refines_witness:
  "\<exists>fr. faxvmi_write_frame (fresh_vmi 2 (fresh_framer 8 16) (fresh_link 4 8 :: unit faxvmi_link))
      (records [[0xff, 0x03], [0x80]] @ []) (of_nat (length [[0xff, 0x03 :: u16], [0x80]])) =
      Some ((fresh_vmi 2 (fresh_framer 8 16) (fresh_link 4 8))\<lparr>vm_framer := fr, vm_underrun := 0\<rparr>,
            records [[0x80]], 1) \<and>
    framer_wf fr \<and> framer_held fr = wire_frame [0xff, 0x03]"
  using write_frame_refines [of "fresh_vmi 2 (fresh_framer 8 16) (fresh_link 4 8 :: unit faxvmi_link)"
      "[[0xff, 0x03], [0x80]]" 1 "[]"]
  by (simp add: fresh_vmi_def fresh_framer_wf fresh_framer_held) (simp add: fresh_framer_def)

text \<open>the element writer appends the longest prefix of the elements offered that fits, moves
  the source pointer past it and returns its length; the underrun flag is cleared only when
  the whole of a non-empty request was accepted.\<close>

theorem write_fifo_refines:
  fixes vmi :: "('m, 'c) faxvmi"
  assumes "framer_wf (vm_framer vmi)" and "unat count \<le> length src"
    and "m = min (unat count) (unat (fr_fifo_size (vm_framer vmi)) - unat (fr_count (vm_framer vmi)))"
  shows "\<exists>fr. faxvmi_write_fifo vmi src count =
      Some (vmi\<lparr>vm_framer := fr, vm_underrun := (if m = unat count \<and> 0 < m then 0 else vm_underrun vmi)\<rparr>,
            drop m src, of_nat m) \<and>
    framer_wf fr \<and> framer_held fr = framer_held (vm_framer vmi) @ take m src"
  using faxvmi_write_fifo_correct [OF assms] by (auto simp: ring_appended_def)

theorem write_fifo_refines_witness:
  "\<exists>fr. faxvmi_write_fifo (fresh_vmi 0 (fresh_framer 2 16) (fresh_link 4 8 :: unit faxvmi_link)) [1, 2, 3] 3 =
      Some ((fresh_vmi 0 (fresh_framer 2 16) (fresh_link 4 8))\<lparr>vm_framer := fr, vm_underrun := 1\<rparr>, [3], 2) \<and>
    framer_wf fr \<and> framer_held fr = [1, 2]"
proof -
  let ?v = "fresh_vmi 0 (fresh_framer 2 16) (fresh_link 4 8 :: unit faxvmi_link)"
  have 1: "framer_wf (vm_framer ?v)" by (simp add: fresh_vmi_def fresh_framer_wf)
  have 2: "unat (3 :: u16) \<le> length [1, 2, 3 :: u16]" by simp
  have 3: "2 = min (unat (3 :: u16)) (unat (fr_fifo_size (vm_framer ?v)) - unat (fr_count (vm_framer ?v)))"
    by (simp add: fresh_vmi_def fresh_framer_def)
  have "vm_underrun ?v = 1" "framer_held (vm_framer ?v) = []" by (simp_all add: fresh_vmi_def)
  with write_fifo_refines [OF 1 2 3] show ?thesis by simp
qed

end
