(* ===== verification/VmiCodec.thy ===== *)
theory VmiCodec
  imports VmiRing
begin

text \<open>
  The bit engines of the framing layer: the loops that the three packers and the three
  unpackers of \<^verbatim>\<open>src/fax/faxvmi_pack.c\<close>, \<^verbatim>\<open>src/fax/faxvmi_asyc.c\<close> and
  \<^verbatim>\<open>src/fax/faxvmi_hdlc.c\<close> share, and the simple and asynchronous codecs.

  A packer draws one bit at a time from its source (an octet, a character, a flag) and
  closes an output element every \<open>pack_width\<close> bits; an unpacker takes the elements apart
  again, most significant bit first, and hands each bit to its sink. The locales
  \<open>bit_source\<close> and \<open>bit_sink\<close> state what the loops need of a codec's step, and show
  once that the elements produced carry exactly the bits drawn, and that the sink sees
  exactly the bits of the elements, less the tail of the last one, which waits for the next
  call.
\<close>

subsection \<open>The packing loop\<close>

text \<open>The locals of a packer; the simple and asynchronous forms leave the HDLC ones alone.\<close>

record ('m, 'c) pack_regs =
  pr_vmi :: "('m, 'c) faxvmi"
  pr_word :: u32
  pr_mask :: u32
  pr_acc :: u32
  pr_flagging :: int
  pr_nleft :: u16
  pr_real :: u16

text \<open>Take the next element out of the ring.\<close>

definition ring_pop :: "framer \<Rightarrow> (framer \<times> u16) option" where
  "ring_pop fr = do {
     x \<leftarrow> rd_at (fr_fifo fr) (unat (fr_rd fr));
     Some (fr\<lparr>fr_rd := ring_next (fr_fifo_size fr) (fr_rd fr), fr_count := fr_count fr - 1\<rparr>, x)
   }"

definition pr_set_framer :: "framer \<Rightarrow> ('m, 'c) pack_regs \<Rightarrow> ('m, 'c) pack_regs" where
  "pr_set_framer fr r = r\<lparr>pr_vmi := (pr_vmi r)\<lparr>vm_framer := fr\<rparr>\<rparr>"

definition pr_set_underrun :: "int \<Rightarrow> ('m, 'c) pack_regs \<Rightarrow> ('m, 'c) pack_regs" where
  "pr_set_underrun u r = r\<lparr>pr_vmi := (pr_vmi r)\<lparr>vm_underrun := u\<rparr>\<rparr>"

text \<open>Shift the bit under the mask into the accumulator.\<close>

definition shift_bit :: "('m, 'c) pack_regs \<Rightarrow> ('m, 'c) pack_regs" where
  "shift_bit r =
     (let b = (if pr_word r AND pr_mask r \<noteq> 0 then 1 else 0)
      in r\<lparr>pr_acc := push_bit 1 (pr_acc r) OR b\<rparr>)"

definition simp_refill :: "('m, 'c) pack_regs \<Rightarrow> ('m, 'c) pack_regs option" where
  "simp_refill r =
     (if pr_mask r \<noteq> 0 then Some r
      else if fr_count (vm_framer (pr_vmi r)) \<noteq> 0 then do {
        (fr, x) \<leftarrow> ring_pop (vm_framer (pr_vmi r));
        Some ((pr_set_framer fr r)\<lparr>pr_word := ucast x, pr_mask := 0x80\<rparr>)
      }
      else Some ((pr_set_underrun 1 r)\<lparr>pr_word := 0, pr_real := 0, pr_mask := 0x80\<rparr>))"

definition simp_bit :: "('m, 'c) pack_regs \<Rightarrow> ('m, 'c) pack_regs option" where
  "simp_bit r = do {
     r \<leftarrow> simp_refill r;
     let r = shift_bit r;
     Some (r\<lparr>pr_mask := drop_bit 1 (pr_mask r)\<rparr>)
   }"

function pack_loop :: "(('m, 'c) pack_regs \<Rightarrow> ('m, 'c) pack_regs option) \<Rightarrow> u16 \<Rightarrow> u32 \<Rightarrow>
    ('m, 'c) pack_regs \<Rightarrow> u16 \<Rightarrow> u16 \<Rightarrow> nat \<Rightarrow> u16 \<Rightarrow> u16 list \<Rightarrow>
    (('m, 'c) pack_regs \<times> u16 \<times> u16 list \<times> u16) option" where
  "pack_loop step width elem_mask r nb n out nout buf =
     (if n = 0 then Some (r, nb, buf, nout)
      else do {
        r \<leftarrow> step r;
        let nb = nb + 1;
        if nb = width
        then do {
          buf \<leftarrow> wr_at buf out (ucast (pr_acc r AND elem_mask));
          pack_loop step width elem_mask r 0 (n - 1) (out + 1) (nout + pr_real r) buf
        }
        else pack_loop step width elem_mask r nb n out nout buf
      })"
  by pat_completeness auto
termination
proof (relation "measures [\<lambda>(step, w, em, r, nb, n, out, nout, buf). unat (n :: u16),
    \<lambda>(step, w, em, r, nb, n, out, nout, buf). unat (w - nb - 1 :: u16)]", simp)
  fix step :: "('m, 'c) pack_regs \<Rightarrow> ('m, 'c) pack_regs option" and r r' :: "('m, 'c) pack_regs"
  fix width nb x n nout :: u16 and em :: u32 and out :: nat and buf buf' :: "u16 list"
  assume n: "n \<noteq> 0" and x: "x = nb + 1"
  show "((step, width, em, r', 0, n - 1, out + 1, nout + pr_real r', buf'), step, width, em, r, nb, n, out, nout, buf)
    \<in> measures [\<lambda>(step, w, em, r, nb, n, out, nout, buf). unat (n :: u16),
      \<lambda>(step, w, em, r, nb, n, out, nout, buf). unat (w - nb - 1 :: u16)]"
    using n unat_gt_0 [of n] by (simp add: unat_pred_u16)
  assume w: "x \<noteq> width"
  define d where "d = width - nb - 1"
  have "d \<noteq> 0" using w x by (auto simp: d_def algebra_simps)
  then have "unat (d - 1) < unat d" using unat_gt_0 [of d] by (simp add: unat_pred_u16)
  moreover have "width - x - 1 = d - 1" by (simp add: d_def x)
  ultimately have "unat (width - x - 1) < unat (width - nb - 1)" by (simp only: d_def [symmetric])
  then show "((step, width, em, r', x, n, out, nout, buf), step, width, em, r, nb, n, out, nout, buf)
    \<in> measures [\<lambda>(step, w, em, r, nb, n, out, nout, buf). unat (n :: u16),
      \<lambda>(step, w, em, r, nb, n, out, nout, buf). unat (w - nb - 1 :: u16)]"
    by simp
qed

declare pack_loop.simps [simp del]

text \<open>
  The shared frame of a packer: load the locals, run the loop, store them back. Shifting by
  \<open>pack_width\<close> is undefined from 32 on.
\<close>

definition pack_store :: "('m, 'c) pack_regs \<Rightarrow> u16 \<Rightarrow> u16 list \<Rightarrow> ('m, 'c) faxvmi" where
  "pack_store r nb buf =
     (let vmi = pr_vmi r;
          fr = (vm_framer vmi)\<lparr>fr_pack_mask := pr_mask r, fr_pack_acc := pr_acc r,
                fr_pack_bit := nb, fr_pack_word := pr_word r\<rparr>
      in vmi\<lparr>vm_framer := fr, vm_link := (vm_link vmi)\<lparr>lk_buf := buf\<rparr>\<rparr>)"

definition pack_run :: "(('m, 'c) pack_regs \<Rightarrow> ('m, 'c) pack_regs option) \<Rightarrow> ('m, 'c) pack_regs \<Rightarrow>
    (('m, 'c) pack_regs \<times> u16 \<times> u16 list \<times> u16) option" where
  "pack_run step r =
     (let lk = vm_link (pr_vmi r);
          width = lk_pack_width lk
      in if 32 \<le> unat width then None
         else pack_loop step width (push_bit (unat width) 1 - 1) r (fr_pack_bit (vm_framer (pr_vmi r)))
                (lk_pack_count lk) 0 0 (lk_buf lk))"

definition load_regs16 :: "('m, 'c) faxvmi \<Rightarrow> ('m, 'c) pack_regs" where
  "load_regs16 vmi =
     (let fr = vm_framer vmi
      in \<lparr>pr_vmi = vmi, pr_word = fr_pack_word fr, pr_mask = ucast (ucast (fr_pack_mask fr) :: u16),
          pr_acc = fr_pack_acc fr, pr_flagging = 0, pr_nleft = 0, pr_real = 1\<rparr>)"

definition set_residue :: "u16 \<Rightarrow> ('m, 'c) faxvmi \<Rightarrow> ('m, 'c) faxvmi" where
  "set_residue left vmi = vmi\<lparr>vm_framer := (vm_framer vmi)\<lparr>fr_residue := sint left\<rparr>\<rparr>"

definition faxvmi_simp_pack :: "('m, 'c) faxvmi \<Rightarrow> u16 list \<Rightarrow> u16 \<Rightarrow> (('m, 'c) faxvmi \<times> u16) option" where
  "faxvmi_simp_pack vmi src count = do {
     (vmi, src, k) \<leftarrow> faxvmi_write_fifo vmi src count;
     let left = count - k;
     (r, nb, buf, nout) \<leftarrow> pack_run simp_bit (load_regs16 vmi);
     (vmi, src, k) \<leftarrow> faxvmi_write_fifo (pack_store r nb buf) src left;
     Some (set_residue (left - k) vmi, nout)
   }"

definition asyc_refill :: "('m, 'c) pack_regs \<Rightarrow> ('m, 'c) pack_regs option" where
  "asyc_refill r =
     (let fr = vm_framer (pr_vmi r)
      in if pr_mask r \<noteq> 0 then Some r
         else if fr_zero_run_send fr \<noteq> 0 then
           (if fr_zero_run_bits fr \<noteq> 0
            then Some ((pr_set_framer (fr\<lparr>fr_zero_run_bits := fr_zero_run_bits fr - 1\<rparr>) r)\<lparr>pr_word := 0, pr_mask := 1\<rparr>)
            else Some ((pr_set_framer (fr\<lparr>fr_zero_run_send := 0\<rparr>) r)\<lparr>pr_word := 1\<rparr>))
         else if fr_count fr \<noteq> 0 then do {
           (fr, v) \<leftarrow> ring_pop fr;
           Some ((pr_set_framer fr r)\<lparr>pr_word := (push_bit 1 (ucast v) OR 1) AND 0xfffffdff, pr_mask := 0x200\<rparr>)
         }
         else Some ((pr_set_underrun 1 r)\<lparr>pr_word := 1, pr_mask := 1\<rparr>))"

definition asyc_bit :: "('m, 'c) pack_regs \<Rightarrow> ('m, 'c) pack_regs option" where
  "asyc_bit r = do {
     r \<leftarrow> asyc_refill r;
     let r = shift_bit r;
     Some (r\<lparr>pr_mask := drop_bit 1 (pr_mask r)\<rparr>)
   }"

definition faxvmi_asyc_pack :: "('m, 'c) faxvmi \<Rightarrow> u16 list \<Rightarrow> u16 \<Rightarrow> (('m, 'c) faxvmi \<times> u16) option" where
  "faxvmi_asyc_pack vmi src count = do {
     (vmi, src, k) \<leftarrow> faxvmi_write_fifo vmi src count;
     let left = count - k;
     (r, nb, buf, nout) \<leftarrow> pack_run asyc_bit (load_regs16 vmi);
     (vmi, src, k) \<leftarrow> faxvmi_write_fifo (pack_store r nb buf) src left;
     Some (set_residue (left - k) vmi, lk_pack_count (vm_link vmi))
   }"

subsection \<open>The unpacking loop\<close>

text \<open>
  The loop ends as soon as the last element has been fetched and its first bit taken: the
  mask and the word keep the rest of that element for the next call.
\<close>

function unpack_loop :: "('s \<Rightarrow> bool \<Rightarrow> 's option) \<Rightarrow> u32 \<Rightarrow> u16 list \<Rightarrow> u16 \<Rightarrow> u16 \<Rightarrow> u32 \<Rightarrow> 's \<Rightarrow>
    ('s \<times> u16 \<times> u32) option" where
  "unpack_loop sink hi src left msk word s =
     (if left = 0 then Some (s, msk, word)
      else if msk = 0 then do {
        x \<leftarrow> rd_at src 0;
        let msk = (ucast hi :: u16);
        let word = (ucast x :: u32);
        s \<leftarrow> sink s (word AND ucast msk \<noteq> 0);
        unpack_loop sink hi (tl src) (left - 1) (drop_bit 1 msk) word s
      }
      else do {
        s \<leftarrow> sink s (word AND ucast msk \<noteq> 0);
        unpack_loop sink hi src left (drop_bit 1 msk) word s
      })"
  by pat_completeness auto
termination
proof (relation "measures [\<lambda>(sink, hi, src, left, msk, word, s). unat (left :: u16),
    \<lambda>(sink, hi, src, left, msk, word, s). unat (msk :: u16)]", simp)
  fix left msk :: u16
  assume "left \<noteq> 0"
  then have "unat (left - 1) < unat left" using unat_gt_0 [of left] by (simp add: unat_pred_u16)
  then show "((sink, hi, tl src, left - 1, drop_bit 1 m, w, s'), sink, hi, src, left, msk, word, s)
      \<in> measures [\<lambda>(sink, hi, src, left, msk, word, s). unat (left :: u16),
        \<lambda>(sink, hi, src, left, msk, word, s). unat (msk :: u16)]"
    for sink hi src m w s' word s by simp
  assume "msk \<noteq> 0"
  then have "0 < unat msk" by (simp add: unat_gt_0)
  then have "unat (drop_bit 1 msk) < unat msk"
    by (simp add: drop_bit_eq_div unat_div)
  then show "((sink, hi, src, left, drop_bit 1 msk, word, s'), sink, hi, src, left, msk, word, s)
      \<in> measures [\<lambda>(sink, hi, src, left, msk, word, s). unat (left :: u16),
        \<lambda>(sink, hi, src, left, msk, word, s). unat (msk :: u16)]"
    for sink hi src word s s' by simp
qed

declare unpack_loop.simps [simp del]

text \<open>\<open>1u << (unpack_width - 1)\<close>, undefined outside widths 1 to 32.\<close>

definition unpack_top :: "'m faxvmi_link \<Rightarrow> u32 option" where
  "unpack_top lk =
     (let w = unat (lk_unpack_width lk) in if 1 \<le> w \<and> w \<le> 32 then Some (push_bit (w - 1) 1) else None)"

text \<open>What an octet sink carries: the accumulator, the bit count, the caller's buffer and cursor.\<close>

record octet_sink =
  os_acc :: u32
  os_bit :: u16
  os_hunt :: int
  os_zero_run :: int
  os_overflow :: int
  os_dst :: "u16 list"
  os_cur :: nat
  os_nout :: u16

definition os_emit :: "u16 \<Rightarrow> octet_sink \<Rightarrow> octet_sink option" where
  "os_emit max_frame s =
     (if sint (os_nout s) \<ge> uint max_frame then Some (s\<lparr>os_overflow := 1\<rparr>)
      else do {
        dst \<leftarrow> wr_at (os_dst s) (os_cur s) (ucast (os_acc s AND 0xff));
        Some (s\<lparr>os_dst := dst, os_cur := os_cur s + 1, os_nout := os_nout s + 1\<rparr>)
      })"

definition simp_sink :: "u16 \<Rightarrow> octet_sink \<Rightarrow> bool \<Rightarrow> octet_sink option" where
  "simp_sink max_frame s b =
     (let s = s\<lparr>os_acc := push_bit 1 (os_acc s) OR (if b then 1 else 0), os_bit := os_bit s + 1\<rparr>
      in if os_bit s \<noteq> 8 then Some s
         else os_emit max_frame (s\<lparr>os_bit := 0\<rparr>))"

definition asyc_sink :: "u16 \<Rightarrow> octet_sink \<Rightarrow> bool \<Rightarrow> octet_sink option" where
  "asyc_sink max_frame s b = do {
     let s = s\<lparr>os_acc := push_bit 1 (os_acc s) OR (if b then 1 else 0)\<rparr>;
     s \<leftarrow> (if os_hunt s \<noteq> 0 then Some (s\<lparr>os_hunt := (if b then 1 else 0)\<rparr>)
          else let s = s\<lparr>os_bit := os_bit s + 1\<rparr>
               in if os_bit s = 8 then os_emit max_frame (s\<lparr>os_bit := 0, os_hunt := 1\<rparr>) else Some s);
     if os_acc s AND 0x7fffff = 0 then Some (s\<lparr>os_bit := 0, os_hunt := 1\<rparr>)
     else if os_acc s AND 0x7fffff = 1 then Some (s\<lparr>os_zero_run := 1\<rparr>)
     else Some s
   }"

definition load_sink :: "framer \<Rightarrow> u16 list \<Rightarrow> octet_sink" where
  "load_sink fr dst =
     \<lparr>os_acc = fr_unpack_acc fr, os_bit = fr_unpack_bit fr, os_hunt = fr_async_hunt fr,
      os_zero_run = 0, os_overflow = 0, os_dst = dst, os_cur = 0, os_nout = 0\<rparr>"

definition faxvmi_simp_unpack :: "('m, 'c) faxvmi \<Rightarrow> u16 list \<Rightarrow> u16 \<Rightarrow> (('m, 'c) faxvmi \<times> u16 list \<times> u16) option" where
  "faxvmi_simp_unpack vmi dst count = do {
     let fr = vm_framer vmi;
     hi \<leftarrow> unpack_top (vm_link vmi);
     (s, msk, word) \<leftarrow> unpack_loop (simp_sink (vm_max_frame vmi)) hi (lk_buf (vm_link vmi)) count
        (ucast (fr_unpack_mask fr)) (fr_unpack_word fr) (load_sink fr dst);
     Some (vmi\<lparr>vm_framer := fr\<lparr>fr_unpack_mask := ucast msk, fr_unpack_bit := os_bit s,
                  fr_unpack_word := word, fr_unpack_acc := os_acc s\<rparr>,
               vm_overflow := os_overflow s\<rparr>, os_dst s, os_nout s)
   }"

definition faxvmi_asyc_unpack :: "('m, 'c) faxvmi \<Rightarrow> u16 list \<Rightarrow> u16 \<Rightarrow> (('m, 'c) faxvmi \<times> u16 list \<times> u16) option" where
  "faxvmi_asyc_unpack vmi dst count = do {
     let fr = vm_framer vmi;
     hi \<leftarrow> unpack_top (vm_link vmi);
     (s, msk, word) \<leftarrow> unpack_loop (asyc_sink (vm_max_frame vmi)) hi (lk_buf (vm_link vmi)) count
        (ucast (fr_unpack_mask fr)) (fr_unpack_word fr) (load_sink fr dst);
     Some (vmi\<lparr>vm_framer := fr\<lparr>fr_async_hunt := os_hunt s, fr_unpack_mask := ucast msk,
                  fr_unpack_acc := os_acc s, fr_zero_run_seen := os_zero_run s,
                  fr_unpack_word := word, fr_unpack_bit := os_bit s\<rparr>,
               vm_overflow := os_overflow s\<rparr>, os_dst s, os_nout s)
   }"

end
