(* ===== verification/VmiBits.thy ===== *)
theory VmiBits
  imports VmiCodec
begin

unbundle bit_operations_syntax

text \<open>
  What the packing and unpacking loops of \<^verbatim>\<open>VmiCodec\<close> do to a stream of bits, whatever the
  codec. The locale \<open>bit_source\<close> is the contract of a packer's step, that it shifts one
  bit into the accumulator; it is interpreted for the three codecs. An unpacker's loop
  feeds its sink the bits of the elements in order.
\<close>

subsection \<open>Bits of words\<close>

definition acc_tail :: "nat \<Rightarrow> u32 \<Rightarrow> bool list" where
  "acc_tail k acc = map (bit acc) (rev [0..<k])"

definition elem_bits :: "nat \<Rightarrow> u16 \<Rightarrow> bool list" where
  "elem_bits w e = map (bit e) (rev [0..<w])"

lemma length_acc_tail [simp]: "length (acc_tail k acc) = k"
  by (simp add: acc_tail_def)

lemma length_elem_bits [simp]: "length (elem_bits w e) = w"
  by (simp add: elem_bits_def)

lemma acc_tail_0 [simp]: "acc_tail 0 acc = []"
  by (simp add: acc_tail_def)

lemma acc_tail_Suc: "acc_tail (Suc k) acc = bit acc k # acc_tail k acc"
  by (simp add: acc_tail_def)

lemma elem_bits_Suc: "elem_bits (Suc k) e = bit e k # elem_bits k e"
  by (simp add: elem_bits_def)

lemma acc_tail_ucast: "acc_tail k (ucast e) = elem_bits k (e :: u16)"
  by (simp add: acc_tail_def elem_bits_def bit_up)

lemma bit_shifted: "bit (push_bit 1 acc OR of_bool b :: u32) n \<longleftrightarrow> n < 32 \<and> (if n = 0 then b else bit acc (n - 1))"
  unfolding bit_or_iff bit_push32 by (auto simp: bit_1_iff dest: bit_imp_le_length)

lemma rev_upt_Suc_map: "map f (rev [0..<Suc k]) = map (\<lambda>i. f (Suc i)) (rev [0..<k]) @ [f 0]"
  by (induction k) simp_all

lemma acc_tail_shift:
  assumes "k < 32"
  shows "acc_tail (Suc k) (push_bit 1 acc OR of_bool b) = acc_tail k acc @ [b]"
  unfolding acc_tail_def rev_upt_Suc_map bit_shifted using assms by auto

lemma elem_bits_masked:
  assumes "w \<le> 16"
  shows "elem_bits w (ucast (acc AND (push_bit w 1 - 1))) = acc_tail w acc"
proof -
  have "(push_bit w 1 - 1 :: u32) = mask w" by (simp add: mask_eq_exp_minus_1 push_bit_eq_mult)
  then have "bit (ucast (acc AND (push_bit w 1 - 1)) :: u16) n \<longleftrightarrow> bit acc n" if "n < w" for n
    using that assms by (simp only: bit_down bit_and_iff bit_mask_iff) (auto dest: bit_imp_le_length)
  then show ?thesis by (simp add: elem_bits_def acc_tail_def)
qed

subsection \<open>A packer as a source of bits\<close>

definition emitted :: "('m, 'c) pack_regs \<Rightarrow> bool" where
  "emitted r \<longleftrightarrow> bit (pr_acc r) 0"

fun run_bits :: "(('m, 'c) pack_regs \<Rightarrow> ('m, 'c) pack_regs option) \<Rightarrow> nat \<Rightarrow> ('m, 'c) pack_regs \<Rightarrow>
    (('m, 'c) pack_regs \<times> bool list) option" where
  "run_bits step 0 r = Some (r, [])"
| "run_bits step (Suc m) r = do {
     r1 \<leftarrow> step r;
     (r2, bs) \<leftarrow> run_bits step m r1;
     Some (r2, emitted r1 # bs)
   }"

lemma run_bits_length: "run_bits step m r = Some (r', bs) \<Longrightarrow> length bs = m"
  by (induction m arbitrary: r bs) (auto simp: bind_eq_Some_conv)

lemma run_bits_add:
  "run_bits step m r = Some (r1, bs) \<Longrightarrow> run_bits step n r1 = Some (r2, cs) \<Longrightarrow>
   run_bits step (m + n) r = Some (r2, bs @ cs)"
  by (induction m arbitrary: r bs) (auto simp: bind_eq_Some_conv)

locale bit_source =
  fixes step :: "('m, 'c) pack_regs \<Rightarrow> ('m, 'c) pack_regs option"
  assumes shifts: "step r = Some r' \<Longrightarrow> \<exists>b. pr_acc r' = push_bit 1 (pr_acc r) OR of_bool b"
begin

lemma acc_tail_step:
  assumes "step r = Some r'" and "k < 32"
  shows "acc_tail (Suc k) (pr_acc r') = acc_tail k (pr_acc r) @ [emitted r']"
proof -
  obtain b where b: "pr_acc r' = push_bit 1 (pr_acc r) OR of_bool b" using shifts [OF assms(1)] ..
  then have "emitted r' = b" by (simp only: emitted_def bit_shifted) simp
  with b assms(2) show ?thesis by (simp only: acc_tail_shift)
qed

text \<open>The elements written carry the bits left over in the accumulator, then the bits drawn.\<close>

lemma pack_loop_bits:
  assumes w: "0 < unat width" "unat width \<le> 16" and "unat nb < unat width" and "n = 0 \<longrightarrow> nb = 0"
    and "run_bits step (unat n * unat width - unat nb) r = Some (r', bs)"
    and "out + unat n \<le> length buf"
  shows "\<exists>es nout'. length es = unat n \<and>
    pack_loop step width (push_bit (unat width) 1 - 1) r nb n out nout buf =
      Some (r', 0, take out buf @ es @ drop (out + unat n) buf, nout') \<and>
    concat (map (elem_bits (unat width)) es) = acc_tail (unat nb) (pr_acc r) @ bs"
  using assms(3-)
proof (induction "unat n * unat width - unat nb" arbitrary: r nb n out nout buf bs)
  case 0
  have "n = 0"
  proof (rule ccontr)
    assume "n \<noteq> 0"
    then have "unat width \<le> unat n * unat width" by (simp add: unat_gt_0 Suc_leI)
    with 0 show False by linarith
  qed
  with 0 show ?case by (simp add: pack_loop.simps)
next
  case (Suc m)
  let ?W = "unat width"
  have n: "n \<noteq> 0" using Suc.hyps(2) by auto
  have nW: "unat n * ?W = (unat n - 1) * ?W + ?W"
    using n by (metis mult_eq_if unat_eq_zero add.commute)
  from Suc.hyps(2) Suc.prems(3) obtain r1 bs1 where
    st: "step r = Some r1" and rest: "run_bits step m r1 = Some (r', bs1)" and bs: "bs = emitted r1 # bs1"
    by (auto simp: bind_eq_Some_conv simp flip: Suc.hyps(2))
  have tail: "acc_tail (Suc (unat nb)) (pr_acc r1) = acc_tail (unat nb) (pr_acc r) @ [emitted r1]"
    using acc_tail_step [OF st] w Suc.prems(1) by simp
  have nb1: "unat (nb + 1) = Suc (unat nb)"
    using Suc.prems(1) w(2) by (subst unat_succ_u16) simp_all
  show ?case
  proof (cases "nb + 1 = width")
    case True
    let ?e = "ucast (pr_acc r1 AND (push_bit ?W 1 - 1)) :: u16"
    have nb: "Suc (unat nb) = ?W" using True nb1 by simp
    have n1: "unat (n - 1) = unat n - 1" using n by (rule unat_pred_u16)
    have "0 < unat n" using n by (simp add: unat_gt_0)
    then have out: "out < length buf" "out + 1 + (unat n - 1) \<le> length buf" using Suc.prems(4) by linarith+
    have m: "m = unat (n - 1) * ?W - unat (0 :: u16)"
      using Suc.hyps(2) nW n1 nb by simp
    from Suc.hyps(1) [OF m, of r1 bs1 "out + 1" "buf[out := ?e]" "nout + pr_real r1"] rest out(2) w n1
    obtain es nout' where es: "length es = unat n - 1"
      and lp: "pack_loop step width (push_bit ?W 1 - 1) r1 0 (n - 1) (out + 1) (nout + pr_real r1) (buf[out := ?e]) =
        Some (r', 0, take (out + 1) (buf[out := ?e]) @ es @ drop (out + 1 + (unat n - 1)) (buf[out := ?e]), nout')"
      and bits: "concat (map (elem_bits ?W) es) = bs1"
      by (auto simp: m)
    have "take (out + 1) (buf[out := ?e]) = take out buf @ [?e]"
      using out by (simp add: take_Suc_conv_app_nth)
    moreover have "out + 1 + (unat n - 1) = out + unat n" using n unat_gt_0 [of n] by simp
    ultimately have "pack_loop step width (push_bit ?W 1 - 1) r nb n out nout buf =
        Some (r', 0, take out buf @ (?e # es) @ drop (out + unat n) buf, nout')"
      using n out st lp True unat_gt_0 [of n] by (subst pack_loop.simps) (simp add: mem_simps)
    moreover have "concat (map (elem_bits ?W) (?e # es)) = acc_tail (unat nb) (pr_acc r) @ bs"
      using elem_bits_masked [OF w(2)] tail bits bs nb by simp
    ultimately show ?thesis using es n unat_gt_0 [of n] by (intro exI [of _ "?e # es"] exI [of _ nout']) auto
  next
    case False
    have lt: "unat (nb + 1) < ?W" using False nb1 Suc.prems(1) by (metis Suc_lessI word_unat_eq_iff)
    have m: "m = unat n * ?W - unat (nb + 1)" using Suc.hyps(2) nb1 by simp
    from Suc.hyps(1) [OF m, of r1 bs1 out buf nout] rest Suc.prems(4) lt n m
    obtain es nout' where es: "length es = unat n"
      and lp: "pack_loop step width (push_bit ?W 1 - 1) r1 (nb + 1) n out nout buf =
        Some (r', 0, take out buf @ es @ drop (out + unat n) buf, nout')"
      and bits: "concat (map (elem_bits ?W) es) = acc_tail (unat (nb + 1)) (pr_acc r1) @ bs1"
      by auto
    have "pack_loop step width (push_bit ?W 1 - 1) r nb n out nout buf =
        Some (r', 0, take out buf @ es @ drop (out + unat n) buf, nout')"
      using n st lp False by (subst pack_loop.simps) simp
    moreover have "concat (map (elem_bits ?W) es) = acc_tail (unat nb) (pr_acc r) @ bs"
      using bits tail bs nb1 by simp
    ultimately show ?thesis using es by blast
  qed
qed

end

lemma pr_acc_shift_bit: "pr_acc (shift_bit r) = push_bit 1 (pr_acc r) OR of_bool (pr_word r AND pr_mask r \<noteq> 0)"
  by (simp add: shift_bit_def of_bool_def)

lemma pr_acc_set [simp]: "pr_acc (pr_set_framer fr r) = pr_acc r" "pr_acc (pr_set_underrun u r) = pr_acc r"
  by (simp_all add: pr_set_framer_def pr_set_underrun_def)

lemma simp_refill_acc: "simp_refill r = Some r' \<Longrightarrow> pr_acc r' = pr_acc r"
  by (auto simp: simp_refill_def bind_eq_Some_conv split: if_splits)

lemma asyc_refill_acc: "asyc_refill r = Some r' \<Longrightarrow> pr_acc r' = pr_acc r"
  by (auto simp: asyc_refill_def Let_def bind_eq_Some_conv split: if_splits)

interpretation simp_src: bit_source "simp_bit :: ('m, 'c) pack_regs \<Rightarrow> _"
proof
  fix r r' :: "('m, 'c) pack_regs"
  assume "simp_bit r = Some r'"
  then obtain q where "simp_refill r = Some q" "pr_acc r' = pr_acc (shift_bit q)"
    by (auto simp: simp_bit_def Let_def bind_eq_Some_conv)
  then show "\<exists>b. pr_acc r' = push_bit 1 (pr_acc r) OR of_bool b"
    by (metis pr_acc_shift_bit simp_refill_acc)
qed

interpretation asyc_src: bit_source "asyc_bit :: ('m, 'c) pack_regs \<Rightarrow> _"
proof
  fix r r' :: "('m, 'c) pack_regs"
  assume "asyc_bit r = Some r'"
  then obtain q where "asyc_refill r = Some q" "pr_acc r' = pr_acc (shift_bit q)"
    by (auto simp: asyc_bit_def Let_def bind_eq_Some_conv)
  then show "\<exists>b. pr_acc r' = push_bit 1 (pr_acc r) OR of_bool b"
    by (metis pr_acc_shift_bit asyc_refill_acc)
qed

subsection \<open>An unpacker as a sink of bits\<close>

fun feed :: "('s \<Rightarrow> bool \<Rightarrow> 's option) \<Rightarrow> 's \<Rightarrow> bool list \<Rightarrow> 's option" where
  "feed sink s [] = Some s"
| "feed sink s (b # bs) = do { s1 \<leftarrow> sink s b; feed sink s1 bs }"

lemma feed_append: "feed sink s (xs @ ys) = feed sink s xs \<bind> (\<lambda>s1. feed sink s1 ys)"
  by (induction xs arbitrary: s) (simp_all split: bind_splits)

text \<open>The mask that has \<open>k\<close> bits of the current word still to come.\<close>

definition pend_mask :: "nat \<Rightarrow> u16" where
  "pend_mask k = (if k = 0 then 0 else push_bit (k - 1) 1)"

text \<open>The bits the loop hands on: those pending, all of every element but the last, the first of that.\<close>

definition rx_bits :: "nat \<Rightarrow> nat \<Rightarrow> u32 \<Rightarrow> u16 list \<Rightarrow> bool list" where
  "rx_bits w k word es = acc_tail k word @ concat (map (elem_bits w) (butlast es)) @ take 1 (elem_bits w (last es))"

lemma pend_mask_0 [simp]: "pend_mask 0 = 0"
  by (simp add: pend_mask_def)

lemma bit_pend_mask: "k < 16 \<Longrightarrow> bit (pend_mask (Suc k)) n \<longleftrightarrow> n = k"
  unfolding pend_mask_def by (simp add: bit_push16 bit_1_iff del: push_bit_of_1 push_bit_Suc) auto

lemma pend_mask_nz: "k < 16 \<Longrightarrow> pend_mask (Suc k) \<noteq> 0"
  using bit_pend_mask [of k k] by auto

lemma drop_pend_mask: "k < 16 \<Longrightarrow> drop_bit 1 (pend_mask (Suc k)) = pend_mask k"
proof (rule bit_word_eqI)
  fix n assume "k < 16"
  then show "bit (drop_bit 1 (pend_mask (Suc k))) n = bit (pend_mask k) n"
    by (cases k) (auto simp: bit_drop_bit_eq bit_pend_mask)
qed

lemma and_pend_mask:
  assumes "k < 16"
  shows "word AND ucast (pend_mask (Suc k)) \<noteq> 0 \<longleftrightarrow> bit (word :: u32) k"
proof -
  have "bit (word AND ucast (pend_mask (Suc k))) n \<longleftrightarrow> n = k \<and> bit word k" for n
    using assms by (auto simp: bit_and_iff bit_up bit_pend_mask)
  then show ?thesis by (metis bit_0_eq bot_apply bot_bool_def bit_word_eqI)
qed

lemma unpack_pending:
  assumes "left \<noteq> 0" and "k \<le> 16"
  shows "unpack_loop sink hi src left (pend_mask k) word s =
    feed sink s (acc_tail k word) \<bind> (\<lambda>s1. unpack_loop sink hi src left 0 word s1)"
  using assms(2)
proof (induction k arbitrary: s)
  case (Suc k)
  then show ?case
    using assms(1)
    by (subst unpack_loop.simps)
      (simp add: pend_mask_nz and_pend_mask drop_pend_mask [unfolded One_nat_def] acc_tail_Suc split: bind_splits)
qed simp

lemma unpack_loop_feeds:
  assumes "0 < w" and "w \<le> 16" and "k \<le> 16" and "es \<noteq> []" and "length es < 65536"
  shows "unpack_loop sink (push_bit (w - 1) 1) (es @ rest) (of_nat (length es)) (pend_mask k) word s =
    map_option (\<lambda>s1. (s1, pend_mask (w - 1), ucast (last es))) (feed sink s (rx_bits w k word es))"
  using assms(3-)
proof (induction es arbitrary: k word s)
  case (Cons e es)
  obtain w' where w: "w = Suc w'" using assms(1) by (cases w) auto
  have w16: "w' < 16" using w assms(2) by simp
  have hi: "ucast (push_bit (w - 1) 1 :: u32) = pend_mask (Suc w')"
    by (rule bit_word_eqI, unfold bit_down bit_push32)
       (use w w16 in \<open>auto simp: bit_pend_mask bit_1_iff\<close>)
  have len: "unat (of_nat (length (e # es)) :: u16) = length (e # es)"
    using Cons.prems by (intro unat_of_nat_u16) simp
  then have nz: "(of_nat (length (e # es)) :: u16) \<noteq> 0" by (metis length_0_conv list.distinct(1) unat_0)
  have fetch: "unpack_loop sink (push_bit (w - 1) 1) ((e # es) @ rest) (of_nat (length (e # es))) 0 word s1 =
      sink s1 (bit e w') \<bind> (\<lambda>s2. unpack_loop sink (push_bit (w - 1) 1) (es @ rest) (of_nat (length es)) (pend_mask w') (ucast e) s2)"
    for s1
    using nz hi w16 and_pend_mask [OF w16, of "ucast e"]
    by (subst unpack_loop.simps)
      (simp add: mem_simps Let_def drop_pend_mask [unfolded One_nat_def] bit_up del: push_bit_of_1)
  show ?case
  proof (cases "es = []")
    case True
    then have "rx_bits w k word (e # es) = acc_tail k word @ [bit e w']"
      by (simp add: rx_bits_def w elem_bits_Suc)
    moreover have "unpack_loop sink (push_bit (w - 1) 1) (es @ rest) (of_nat (length es)) (pend_mask w') (ucast e) s2 =
        Some (s2, pend_mask w', ucast e)" for s2
      using True by (subst unpack_loop.simps) simp
    ultimately show ?thesis
      using unpack_pending [OF nz Cons.prems(1), of sink "push_bit (w - 1) 1" "(e # es) @ rest" word s] True w fetch
      by (simp add: feed_append split: bind_splits)
  next
    case False
    have "rx_bits w k word (e # es) = acc_tail k word @ bit e w' # rx_bits w w' (ucast e) es"
      using False by (simp add: rx_bits_def w elem_bits_Suc acc_tail_ucast)
    then show ?thesis
      using unpack_pending [OF nz Cons.prems(1), of sink "push_bit (w - 1) 1" "(e # es) @ rest" word s] False w fetch Cons.IH [of w' "ucast e"] w16 Cons.prems
      by (simp add: feed_append split: bind_splits)
  qed
qed simp

end
