(* ===== verification/VmiOctets.thy ===== *)
theory VmiOctets
  imports VmiBits
begin

unbundle bit_operations_syntax

text \<open>
  The simple and asynchronous codecs end to end: what their packers emit for the elements
  queued in the ring, what their unpackers make of such a stream, and the round trips. The
  locale \<open>word_source\<close> extends \<open>bit_source\<close> with the contract of the refill.
\<close>

subsection \<open>Draining a source word\<close>

definition pend32 :: "nat \<Rightarrow> u32" where
  "pend32 k = (if k = 0 then 0 else push_bit (k - 1) 1)"

lemma pend32_0 [simp]: "pend32 0 = 0"
  by (simp add: pend32_def)

lemma bit_pend32: "k < 32 \<Longrightarrow> bit (pend32 (Suc k)) n \<longleftrightarrow> n = k"
  unfolding pend32_def by (simp add: bit_push32 bit_1_iff del: push_bit_of_1 push_bit_Suc) auto

lemma pend32_nz: "k < 32 \<Longrightarrow> pend32 (Suc k) \<noteq> 0"
  using bit_pend32 [of k k] by auto

lemma drop_pend32: "k < 32 \<Longrightarrow> drop_bit 1 (pend32 (Suc k)) = pend32 k"
proof (rule bit_word_eqI)
  fix n assume "k < 32"
  then show "bit (drop_bit 1 (pend32 (Suc k))) n = bit (pend32 k) n"
    by (cases k) (auto simp: bit_drop_bit_eq bit_pend32)
qed

lemma and_pend32:
  assumes "k < 32"
  shows "word AND pend32 (Suc k) \<noteq> 0 \<longleftrightarrow> bit word k"
proof -
  have "bit (word AND pend32 (Suc k)) n \<longleftrightarrow> n = k \<and> bit word k" for n
    using assms by (auto simp: bit_and_iff bit_pend32)
  then show ?thesis by (metis bit_0_eq bot_apply bot_bool_def bit_word_eqI)
qed

text \<open>
  A source that draws words: \<open>refill\<close> loads a word and a mask when the mask is empty, and
  while the mask is not, and the word is \<open>plain\<close>, a step shifts out the bit under it.
\<close>

locale word_source = bit_source step
  for step :: "('m, 'c) pack_regs \<Rightarrow> ('m, 'c) pack_regs option" +
  fixes refill :: "('m, 'c) pack_regs \<Rightarrow> ('m, 'c) pack_regs option"
    and plain :: "int \<Rightarrow> bool"
  assumes drains: "pr_mask r \<noteq> 0 \<Longrightarrow> plain (pr_flagging r) \<Longrightarrow>
      step r = Some ((shift_bit r)\<lparr>pr_mask := drop_bit 1 (pr_mask r)\<rparr>)"
    and refills: "pr_mask r = 0 \<Longrightarrow> refill r = Some r1 \<Longrightarrow> pr_mask r1 \<noteq> 0 \<Longrightarrow> step r = step r1"
begin

lemma drain:
  assumes "pr_mask r = pend32 k" and "k \<le> 32" and "plain (pr_flagging r)"
  shows "\<exists>a. run_bits step k r = Some (r\<lparr>pr_mask := 0, pr_acc := a\<rparr>, acc_tail k (pr_word r))"
  using assms
proof (induction k arbitrary: r)
  case 0
  then show ?case by (intro exI [of _ "pr_acc r"]) simp
next
  case (Suc k)
  let ?r = "(shift_bit r)\<lparr>pr_mask := drop_bit 1 (pr_mask r)\<rparr>"
  have k: "k < 32" using Suc.prems(2) by simp
  have st: "step r = Some ?r" using drains [of r] Suc.prems pend32_nz [OF k] by simp
  have em: "emitted ?r = bit (pr_word r) k"
    using and_pend32 [OF k] Suc.prems(1)
    by (simp add: emitted_def pr_acc_shift_bit bit_shifted [unfolded One_nat_def] del: push_bit_Suc)
  have "pr_mask ?r = pend32 k" "plain (pr_flagging ?r)" "pr_word ?r = pr_word r"
    using Suc.prems drop_pend32 [OF k] by (simp_all add: shift_bit_def)
  with Suc.IH [of ?r] k obtain a where
    "run_bits step k ?r = Some (?r\<lparr>pr_mask := 0, pr_acc := a\<rparr>, acc_tail k (pr_word r))" by auto
  then have "run_bits step (Suc k) r = Some (r\<lparr>pr_mask := 0, pr_acc := a\<rparr>, acc_tail (Suc k) (pr_word r))"
    using st em by (simp add: acc_tail_Suc) (simp add: shift_bit_def)
  then show ?case by blast
qed

lemma draw_word:
  assumes "pr_mask r = 0" and "refill r = Some r1" and "pr_mask r1 = pend32 k" and "0 < k" "k \<le> 32"
    and "plain (pr_flagging r1)"
  shows "\<exists>a. run_bits step k r = Some (r1\<lparr>pr_mask := 0, pr_acc := a\<rparr>, acc_tail k (pr_word r1))"
proof -
  obtain j where k: "k = Suc j" using assms(4) by (cases k) auto
  have "step r = step r1" using refills assms(1-3) k assms(5) pend32_nz [of j] by auto
  then have "run_bits step k r = run_bits step k r1" by (simp add: k)
  with drain [OF assms(3,5,6)] show ?thesis by simp
qed

end

subsection \<open>Taking an element out of the ring\<close>

definition with_rd :: "framer \<Rightarrow> u16 \<Rightarrow> u16 \<Rightarrow> framer" where
  "with_rd fr rd c = fr\<lparr>fr_rd := rd, fr_count := c\<rparr>"

lemma ring_pop_correct:
  assumes wf: "framer_wf fr" and held: "framer_held fr = v # vs"
  shows "\<exists>rd c. ring_pop fr = Some (with_rd fr rd c, v) \<and> framer_wf (with_rd fr rd c) \<and>
    framer_held (with_rd fr rd c) = vs"
proof -
  have c: "0 < unat (fr_count fr)" using arg_cong [OF held, of length] by simp
  then have t: "unat (1 :: u16) \<le> unat (fr_count fr)" by simp
  obtain rd where g: "ring_get (fr_fifo fr) (fr_fifo_size fr) (fr_rd fr) 1 = Some ([v], rd)"
    and wf': "ring_wf (fr_fifo fr) (fr_fifo_size fr) rd (fr_wr fr) (fr_count fr - 1)"
    and h': "ring_held (fr_fifo fr) (fr_fifo_size fr) rd (fr_count fr - 1) = vs"
    using ring_wf_get [OF wf [unfolded framer_wf_def] t] held [unfolded framer_held_def] by auto
  from g have "ring_pop fr = Some (with_rd fr rd (fr_count fr - 1), v)"
    by (auto simp: ring_pop_def with_rd_def bind_eq_Some_conv)
  with wf' h' show ?thesis by (auto simp: framer_wf_def framer_held_def with_rd_def)
qed

lemma framer_held_count: "framer_held fr = [] \<longleftrightarrow> fr_count fr = 0"
  by (metis length_framer_held length_0_conv unat_eq_zero)

subsection \<open>The simple packer\<close>

interpretation simp_word: word_source "simp_bit :: ('m, 'c) pack_regs \<Rightarrow> _" simp_refill "\<lambda>_. True"
  by unfold_locales (auto simp: simp_bit_def simp_refill_def shift_bit_def Let_def)

interpretation asyc_word: word_source "asyc_bit :: ('m, 'c) pack_regs \<Rightarrow> _" asyc_refill "\<lambda>_. True"
  by unfold_locales (auto simp: asyc_bit_def asyc_refill_def shift_bit_def Let_def)

text \<open>\<open>r'\<close> is \<open>r\<close> after a word boundary, with what is left in the ring.\<close>

definition drew :: "('m, 'c) pack_regs \<Rightarrow> ('m, 'c) pack_regs \<Rightarrow> u16 list \<Rightarrow> bool" where
  "drew r r' xs \<longleftrightarrow>
     pr_mask r' = 0 \<and> vm_link (pr_vmi r') = vm_link (pr_vmi r) \<and>
     vm_max_frame (pr_vmi r') = vm_max_frame (pr_vmi r) \<and>
     (\<exists>rd c. vm_framer (pr_vmi r') = with_rd (vm_framer (pr_vmi r)) rd c) \<and>
     framer_wf (vm_framer (pr_vmi r')) \<and> framer_held (vm_framer (pr_vmi r')) = xs"

lemma with_rd_with_rd [simp]: "with_rd (with_rd fr a b) c d = with_rd fr c d"
  by (simp add: with_rd_def)

lemma with_rd_same: "with_rd fr (fr_rd fr) (fr_count fr) = fr"
  by (simp add: with_rd_def)

lemma drew_trans: "drew r r1 xs \<Longrightarrow> drew r1 r2 ys \<Longrightarrow> drew r r2 ys"
  by (auto simp: drew_def) blast

lemma acc_tail_zero [simp]: "acc_tail k 0 = replicate k False"
  by (rule nth_equalityI) (simp_all add: acc_tail_def)

lemma pend32_8: "pend32 8 = 0x80"
  by (simp add: pend32_def)

lemma octet_bits_elem: "octet_bits v = elem_bits 8 v"
  by (simp add: octet_bits_def elem_bits_def upt_rec numeral_eq_Suc)

lemma simp_octet:
  assumes "pr_mask r = 0" and wf: "framer_wf (vm_framer (pr_vmi r))"
    and held: "framer_held (vm_framer (pr_vmi r)) = v # vs"
  shows "\<exists>r'. run_bits simp_bit 8 r = Some (r', octet_bits v) \<and> drew r r' vs \<and> pr_real r' = pr_real r"
proof -
  obtain rd c where pop: "ring_pop (vm_framer (pr_vmi r)) = Some (with_rd (vm_framer (pr_vmi r)) rd c, v)"
    and wf': "framer_wf (with_rd (vm_framer (pr_vmi r)) rd c)"
    and h': "framer_held (with_rd (vm_framer (pr_vmi r)) rd c) = vs"
    using ring_pop_correct [OF wf held] by blast
  let ?r = "(pr_set_framer (with_rd (vm_framer (pr_vmi r)) rd c) r)\<lparr>pr_word := ucast v, pr_mask := 0x80\<rparr>"
  have "fr_count (vm_framer (pr_vmi r)) \<noteq> 0" using held framer_held_count [of "vm_framer (pr_vmi r)"] by auto
  then have rf: "simp_refill r = Some ?r" using assms(1) pop by (simp add: simp_refill_def)
  obtain a where "run_bits simp_bit 8 r = Some (?r\<lparr>pr_mask := 0, pr_acc := a\<rparr>, acc_tail 8 (pr_word ?r))"
    using simp_word.draw_word [OF assms(1) rf, of 8] by (auto simp: pend32_8)
  moreover have "acc_tail 8 (pr_word ?r) = octet_bits v" by (simp add: acc_tail_ucast octet_bits_elem)
  ultimately show ?thesis
    using wf' h' by (auto simp: drew_def pr_set_framer_def)
qed

lemma simp_octets:
  assumes "pr_mask r = 0" and "framer_wf (vm_framer (pr_vmi r))"
    and "framer_held (vm_framer (pr_vmi r)) = vs @ ws"
  shows "\<exists>r'. run_bits simp_bit (8 * length vs) r = Some (r', octets_bits vs) \<and> drew r r' ws"
  using assms
proof (induction vs arbitrary: r)
  case Nil
  then show ?case by (auto simp: drew_def intro: exI [of _ "fr_rd (vm_framer (pr_vmi r))"] with_rd_same [symmetric])
next
  case (Cons v vs)
  then obtain r1 where r1: "run_bits simp_bit 8 r = Some (r1, octet_bits v)" "drew r r1 (vs @ ws)"
    using simp_octet [of r v "vs @ ws"] by auto
  with Cons.IH [of r1] obtain r2 where "run_bits simp_bit (8 * length vs) r1 = Some (r2, octets_bits vs)" "drew r1 r2 ws"
    by (auto simp: drew_def)
  with r1 run_bits_add [of simp_bit 8 r r1 "octet_bits v"] show ?case
    by (auto intro: drew_trans)
qed

text \<open>An empty ring sends zeros and raises the underrun flag.\<close>

lemma simp_idle:
  assumes "pr_mask r = 0" and "framer_wf (vm_framer (pr_vmi r))" and "framer_held (vm_framer (pr_vmi r)) = []"
  shows "\<exists>r'. run_bits simp_bit (8 * n) r = Some (r', replicate (8 * n) False) \<and> drew r r' []"
  using assms
proof (induction n arbitrary: r)
  case 0
  then show ?case by (auto simp: drew_def intro: exI [of _ "fr_rd (vm_framer (pr_vmi r))"] with_rd_same [symmetric])
next
  case (Suc n)
  let ?r = "(pr_set_underrun 1 r)\<lparr>pr_word := 0, pr_real := 0, pr_mask := 0x80\<rparr>"
  have rf: "simp_refill r = Some ?r" using Suc.prems framer_held_count by (auto simp: simp_refill_def)
  obtain a where a: "run_bits simp_bit 8 r = Some (?r\<lparr>pr_mask := 0, pr_acc := a\<rparr>, replicate 8 False)"
    using simp_word.draw_word [OF Suc.prems(1) rf, of 8] by (auto simp: pend32_8)
  let ?r1 = "?r\<lparr>pr_mask := 0, pr_acc := a\<rparr>"
  have d: "drew r ?r1 []" using Suc.prems
    by (auto simp: drew_def pr_set_underrun_def intro: exI [of _ "fr_rd (vm_framer (pr_vmi r))"] with_rd_same [symmetric])
  then obtain r2 where "run_bits simp_bit (8 * n) ?r1 = Some (r2, replicate (8 * n) False)" "drew ?r1 r2 []"
    using Suc.IH [of ?r1] by (auto simp: drew_def)
  with a d run_bits_add [of simp_bit 8 r ?r1 "replicate 8 False" "8 * n"] show ?case
    by (auto intro: drew_trans simp: replicate_add)
qed

subsection \<open>The simple unpacker\<close>

definition octet_val :: "bool list \<Rightarrow> u16" where
  "octet_val bs = horner_sum of_bool 2 (rev bs)"

lemma bit_octet_val: "bit (octet_val bs) n \<longleftrightarrow> n < length bs \<and> n < 16 \<and> rev bs ! n"
  unfolding octet_val_def bit_horner_sum_bit_word_iff by auto

lemma bit_acc_tail: "n < k \<Longrightarrow> rev (acc_tail k acc) ! n = bit acc n"
  by (simp add: acc_tail_def rev_map)

lemma octet_val_acc: "ucast (acc AND 0xff :: u32) = octet_val (acc_tail 8 acc)"
proof (rule bit_word_eqI)
  fix n
  have "(0xff :: u32) = mask 8" by (simp add: mask_eq_exp_minus_1)
  then have "bit (ucast (acc AND 0xff :: u32) :: u16) n \<longleftrightarrow> n < 8 \<and> bit acc n"
    by (simp only: bit_down bit_and_iff bit_mask_iff) (auto dest: bit_imp_le_length)
  then show "bit (ucast (acc AND 0xff :: u32) :: u16) n = bit (octet_val (acc_tail 8 acc)) n"
    by (auto simp: bit_octet_val bit_acc_tail)
qed

lemma octet_val_octet_bits: "octet_val (octet_bits v) = v AND 0xff"
proof (rule bit_word_eqI)
  fix n
  have m: "(0xff :: u16) = mask 8" by (simp add: mask_eq_exp_minus_1)
  have "n < 8 \<Longrightarrow> rev (octet_bits v) ! n = bit v n"
    by (simp add: octet_bits_elem elem_bits_def rev_map)
  then show "bit (octet_val (octet_bits v)) n = bit (v AND 0xff) n"
    by (simp only: bit_octet_val m bit_and_iff bit_mask_iff) (auto dest: bit_imp_le_length)
qed

text \<open>The whole octets of a bit string.\<close>

function octets_of :: "bool list \<Rightarrow> u16 list" where
  "octets_of bs = (if length bs < 8 then [] else octet_val (take 8 bs) # octets_of (drop 8 bs))"
  by pat_completeness auto
termination by (relation "measure length") simp_all

declare octets_of.simps [simp del]

lemma octets_of_short: "length bs < 8 \<Longrightarrow> octets_of bs = []"
  by (subst octets_of.simps) simp

lemma octets_of_octet: "length xs = 8 \<Longrightarrow> octets_of (xs @ bs) = octet_val xs # octets_of bs"
  by (subst octets_of.simps) simp

lemma octets_of_octets: "octets_of (octets_bits vs @ bs) = map (\<lambda>v. v AND 0xff) vs @ octets_of bs"
  by (induction vs) (simp_all add: octets_of_octet octet_val_octet_bits)

lemma octet_val_zeros [simp]: "octet_val (replicate n False) = 0"
  by (rule bit_word_eqI) (simp add: bit_octet_val)

lemma octets_of_zeros: "octets_of (replicate n False) = replicate (n div 8) 0"
proof (induction n rule: less_induct)
  case (less n)
  show ?case
  proof (cases "n < 8")
    case True
    then show ?thesis by (simp add: octets_of_short)
  next
    case False
    then obtain m where n: "n = 8 + m" using le_Suc_ex not_less by blast
    have "replicate n False = replicate 8 False @ replicate m False" by (simp add: n replicate_add)
    moreover have "n div 8 = Suc (m div 8)" by (simp add: n)
    ultimately show ?thesis
      using less [of m] n octets_of_octet [of "replicate 8 False" "replicate m False"] by simp
  qed
qed

lemma length_octets_of: "length (octets_of bs) = length bs div 8"
proof (induction bs rule: octets_of.induct)
  case (1 bs)
  then show ?case by (subst octets_of.simps) (simp add: div_if [of "length bs"] Suc_diff_Suc)
qed

lemma simp_sink_feeds:
  assumes "unat (os_bit s) < 8" and "out = octets_of (acc_tail (unat (os_bit s)) (os_acc s) @ bs)"
    and "os_cur s = unat (os_nout s)" and "os_cur s + length out \<le> length (os_dst s)"
    and "os_cur s + length out \<le> unat mf" and "os_cur s + length out < 32768"
  shows "\<exists>s'. feed (simp_sink mf) s bs = Some s' \<and>
    os_dst s' = take (os_cur s) (os_dst s) @ out @ drop (os_cur s + length out) (os_dst s) \<and>
    os_nout s' = of_nat (os_cur s + length out) \<and> os_overflow s' = os_overflow s"
  using assms
proof (induction bs arbitrary: s out)
  case Nil
  then show ?case by (simp add: octets_of_short)
next
  case (Cons b bs)
  let ?acc = "push_bit 1 (os_acc s) OR of_bool b" and ?k = "unat (os_bit s)"
  let ?s = "s\<lparr>os_acc := ?acc, os_bit := os_bit s + 1\<rparr>"
  have tail: "acc_tail (Suc ?k) ?acc = acc_tail ?k (os_acc s) @ [b]"
    using Cons.prems(1) by (intro acc_tail_shift) simp
  have k1: "unat (os_bit s + 1) = Suc ?k" using Cons.prems(1) by (simp add: unat_succ_u16)
  show ?case
  proof (cases "os_bit s + 1 = 8")
    case False
    have "Suc ?k \<noteq> 8"
    proof
      assume "Suc ?k = 8"
      then have "unat (os_bit s + 1) = unat (8 :: u16)" using k1 by simp
      with False show False by (simp only: word_unat_eq_iff)
    qed
    then have lt: "Suc ?k < 8" using Cons.prems(1) by simp
    have st: "simp_sink mf s b = Some ?s" using False by (simp add: simp_sink_def of_bool_def)
    have "out = octets_of (acc_tail (unat (os_bit ?s)) (os_acc ?s) @ bs)"
      using Cons.prems(2) tail k1 by simp
    from Cons.IH [of ?s, OF _ this] lt k1 st Cons.prems show ?thesis by simp
  next
    case True
    have k8: "Suc ?k = 8" using True k1 by simp
    define e where "e = octet_val (acc_tail ?k (os_acc s) @ [b])"
    define out1 where "out1 = octets_of bs"
    have len8: "length (acc_tail ?k (os_acc s) @ [b]) = 8" using k8 by simp
    have out: "out = e # out1"
      using octets_of_octet [OF len8, of bs] Cons.prems(2) by (simp add: e_def out1_def)
    have ev: "ucast (?acc AND 0xff) = e"
      unfolding octet_val_acc e_def tail [symmetric] k8 ..
    let ?s1 = "s\<lparr>os_acc := ?acc, os_bit := 0, os_dst := (os_dst s)[os_cur s := e],
      os_cur := os_cur s + 1, os_nout := os_nout s + 1\<rparr>"
    have cur: "os_cur s < length (os_dst s)" "os_cur s < unat mf" "os_cur s + 1 < 32768"
      using Cons.prems(4-6) by (simp_all add: out)
    have "sint (os_nout s) = int (unat (os_nout s))"
      using cur Cons.prems(3) sint_of_nat_u16 [of "unat (os_nout s)"] by simp
    moreover have "int (unat (os_nout s)) < uint mf" using cur(2) Cons.prems(3) by (simp add: uint_nat del: of_nat_unat)
    ultimately have st: "simp_sink mf s b = Some ?s1"
      using True ev cur Cons.prems(3) by (simp add: simp_sink_def os_emit_def of_bool_def mem_simps del: push_bit_Suc)
    have n1: "unat (os_nout s + 1) = os_cur s + 1"
      using cur Cons.prems(3) by (simp add: unat_succ_u16)
    have IH: "\<exists>s'. feed (simp_sink mf) ?s1 bs = Some s' \<and>
      os_dst s' = take (os_cur ?s1) (os_dst ?s1) @ out1 @ drop (os_cur ?s1 + length out1) (os_dst ?s1) \<and>
      os_nout s' = of_nat (os_cur ?s1 + length out1) \<and> os_overflow s' = os_overflow ?s1"
    proof (rule Cons.IH)
      show "out1 = octets_of (acc_tail (unat (os_bit ?s1)) (os_acc ?s1) @ bs)" by (simp add: out1_def)
    qed (use n1 Cons.prems(4-6) out in simp_all)
    have "take (os_cur ?s1) (os_dst ?s1) = take (os_cur s) (os_dst s) @ [e]"
      using cur by (simp add: take_Suc_conv_app_nth)
    with IH st out show ?thesis by auto
  qed
qed

subsection \<open>One call of a packer and of an unpacker\<close>

lemma run_bits_prefix:
  "run_bits step (m + n) r = Some (r2, bs) \<Longrightarrow> \<exists>r1. run_bits step m r = Some (r1, take m bs)"
proof (induction m arbitrary: r bs)
  case (Suc m)
  then show ?case by (fastforce simp: bind_eq_Some_conv)
qed simp

lemma write_nothing: "faxvmi_write_fifo vmi src 0 = Some (vmi, src, 0)"
  by (cases vmi) (simp add: faxvmi_write_fifo_def set_underrun_def)

text \<open>A framer at a word boundary, with an empty ring.\<close>

definition tx_clear :: "('m, 'c) faxvmi \<Rightarrow> bool" where
  "tx_clear vmi \<longleftrightarrow> framer_wf (vm_framer vmi) \<and> framer_held (vm_framer vmi) = [] \<and>
     fr_pack_mask (vm_framer vmi) = 0 \<and> fr_pack_bit (vm_framer vmi) = 0"

definition width_ok :: "u16 \<Rightarrow> bool" where
  "width_ok w \<longleftrightarrow> 0 < unat w \<and> unat w \<le> 16"

lemma write_all:
  assumes "tx_clear vmi" and "length xs \<le> unat (fr_fifo_size (vm_framer vmi))" and "unat count = length xs"
  shows "\<exists>vmi'. faxvmi_write_fifo vmi (xs @ rest) count = Some (vmi', rest, count) \<and>
    vm_link vmi' = vm_link vmi \<and> framer_wf (vm_framer vmi') \<and> framer_held (vm_framer vmi') = xs \<and>
    fr_pack_mask (vm_framer vmi') = 0 \<and> fr_pack_bit (vm_framer vmi') = 0 \<and>
    fr_zero_run_send (vm_framer vmi') = fr_zero_run_send (vm_framer vmi)"
proof -
  have c0: "unat (fr_count (vm_framer vmi)) = 0"
    using assms(1) by (metis tx_clear_def length_framer_held list.size(3))
  have m: "length xs = min (unat count) (unat (fr_fifo_size (vm_framer vmi)) - unat (fr_count (vm_framer vmi)))"
    using assms(2,3) by (simp add: c0)
  have wf: "framer_wf (vm_framer vmi)" using assms(1) by (simp add: tx_clear_def)
  have src: "unat count \<le> length (xs @ rest)" using assms(3) by simp
  obtain fr where w: "faxvmi_write_fifo vmi (xs @ rest) count =
      Some (vmi\<lparr>vm_framer := fr, vm_underrun := (if length xs = unat count \<and> 0 < length xs then 0 else vm_underrun vmi)\<rparr>,
        drop (length xs) (xs @ rest), of_nat (length xs))"
    and app: "ring_appended (vm_framer vmi) fr (take (length xs) (xs @ rest))"
    using faxvmi_write_fifo_correct [OF wf src m] by blast
  have "of_nat (length xs) = count" using assms(3) by (metis of_nat_unat_u16)
  moreover from app obtain b w c where "fr = with_ring (vm_framer vmi) b w c" by (auto simp: ring_appended_def)
  ultimately show ?thesis
    using w app assms(1) by (auto simp: ring_appended_def tx_clear_def with_ring_def)
qed

context bit_source
begin

lemma pack_run_bits:
  assumes "width_ok (lk_pack_width (vm_link (pr_vmi r)))" and "fr_pack_bit (vm_framer (pr_vmi r)) = 0"
    and "n = unat (lk_pack_count (vm_link (pr_vmi r)))" and "n \<le> length (lk_buf (vm_link (pr_vmi r)))"
    and "run_bits step (n * unat (lk_pack_width (vm_link (pr_vmi r)))) r = Some (r', bs)"
  shows "\<exists>es nout. length es = n \<and>
    pack_run step r = Some (r', 0, es @ drop n (lk_buf (vm_link (pr_vmi r))), nout) \<and>
    concat (map (elem_bits (unat (lk_pack_width (vm_link (pr_vmi r))))) es) = bs"
proof -
  let ?lk = "vm_link (pr_vmi r)"
  have w: "0 < unat (lk_pack_width ?lk)" "unat (lk_pack_width ?lk) \<le> 16"
    using assms(1) by (auto simp: width_ok_def)
  have "run_bits step (unat (lk_pack_count ?lk) * unat (lk_pack_width ?lk) - unat (0 :: u16)) r = Some (r', bs)"
    using assms(3,5) by simp
  from pack_loop_bits [OF w _ _ this, where out = 0 and nout = 0 and buf = "lk_buf ?lk"] w assms(2-4)
  show ?thesis by (auto simp: pack_run_def Let_def simp del: push_bit_of_1)
qed

end

lemma concat_elem_length: "length (concat (map (elem_bits w) es)) = w * length es"
  by (induction es) simp_all

lemma rx_bits_take:
  assumes "es \<noteq> []" and "0 < w"
  shows "rx_bits w 0 word es = take ((length es - 1) * w + 1) (concat (map (elem_bits w) es))"
proof -
  obtain xs x where es: "es = xs @ [x]" using assms(1) by (metis rev_exhaust)
  show ?thesis by (simp add: rx_bits_def es concat_elem_length mult.commute)
qed

text \<open>What the simple packer puts on the line, padded with zeros to any length.\<close>

lemma simp_stream:
  assumes "pr_mask r = 0" and "framer_wf (vm_framer (pr_vmi r))"
    and "framer_held (vm_framer (pr_vmi r)) = xs" and "8 * length xs \<le> m"
  shows "\<exists>r'. run_bits simp_bit m r = Some (r', octets_bits xs @ replicate (m - 8 * length xs) False)"
proof -
  obtain r1 where r1: "run_bits simp_bit (8 * length xs) r = Some (r1, octets_bits xs)" "drew r r1 []"
    using simp_octets [OF assms(1,2), of xs "[]"] assms(3) by auto
  define k where "k = m - 8 * length xs"
  have "pr_mask r1 = 0" "framer_wf (vm_framer (pr_vmi r1))" "framer_held (vm_framer (pr_vmi r1)) = []"
    using r1(2) by (auto simp: drew_def)
  then obtain r2 where "run_bits simp_bit (8 * k) r1 = Some (r2, replicate (8 * k) False)"
    using simp_idle [of r1 k] by blast
  then have "run_bits simp_bit (8 * length xs + 8 * k) r = Some (r2, octets_bits xs @ replicate (8 * k) False)"
    by (rule run_bits_add [OF r1(1)])
  moreover have "8 * length xs + 8 * k = m + 7 * k" using assms(4) by (simp add: k_def)
  ultimately obtain r3 where "run_bits simp_bit m r = Some (r3, take m (octets_bits xs @ replicate (8 * k) False))"
    using run_bits_prefix [of simp_bit m "7 * k" r] by auto
  moreover have "length (octets_bits xs) = 8 * length xs" by (induction xs) simp_all
  ultimately show ?thesis using assms(4) by (auto simp: k_def)
qed

lemma simp_pack_elems:
  assumes "tx_clear vmi" and "width_ok (lk_pack_width (vm_link vmi))"
    and "n = unat (lk_pack_count (vm_link vmi))" and "n \<le> length (lk_buf (vm_link vmi))"
    and "length xs \<le> unat (fr_fifo_size (vm_framer vmi))" and "unat count = length xs"
    and "8 * length xs \<le> n * unat (lk_pack_width (vm_link vmi))"
  shows "\<exists>vmi' nout es. faxvmi_simp_pack vmi (xs @ rest) count = Some (vmi', nout) \<and>
    lk_buf (vm_link vmi') = es @ drop n (lk_buf (vm_link vmi)) \<and> length es = n \<and>
    concat (map (elem_bits (unat (lk_pack_width (vm_link vmi)))) es) =
      octets_bits xs @ replicate (n * unat (lk_pack_width (vm_link vmi)) - 8 * length xs) False"
proof -
  obtain v1 where w: "faxvmi_write_fifo vmi (xs @ rest) count = Some (v1, rest, count)" "vm_link v1 = vm_link vmi"
    "framer_wf (vm_framer v1)" "framer_held (vm_framer v1) = xs"
    "fr_pack_mask (vm_framer v1) = 0" "fr_pack_bit (vm_framer v1) = 0"
    using write_all [OF assms(1,5,6), of rest] by blast
  let ?r = "load_regs16 v1"
  have r: "pr_mask ?r = 0" "pr_vmi ?r = v1" by (simp_all add: load_regs16_def w Let_def)
  obtain r' where "run_bits simp_bit (n * unat (lk_pack_width (vm_link vmi))) ?r =
      Some (r', octets_bits xs @ replicate (n * unat (lk_pack_width (vm_link vmi)) - 8 * length xs) False)"
    using simp_stream [of ?r xs] r w assms(7) by auto
  then obtain es nout where "length es = n"
    "pack_run simp_bit ?r = Some (r', 0, es @ drop n (lk_buf (vm_link vmi)), nout)"
    "concat (map (elem_bits (unat (lk_pack_width (vm_link vmi)))) es) =
      octets_bits xs @ replicate (n * unat (lk_pack_width (vm_link vmi)) - 8 * length xs) False"
    using simp_src.pack_run_bits [of ?r n] r w assms(2-4) by auto
  then show ?thesis
    by (auto simp: faxvmi_simp_pack_def w write_nothing set_residue_def pack_store_def Let_def)
qed

text \<open>A receiver at an element boundary.\<close>

definition rx_clear :: "('m, 'c) faxvmi \<Rightarrow> bool" where
  "rx_clear vmi \<longleftrightarrow> fr_unpack_mask (vm_framer vmi) = 0 \<and> fr_unpack_bit (vm_framer vmi) = 0"

lemma unpack_call:
  assumes "rx_clear vmi" and "width_ok (lk_unpack_width (vm_link vmi))"
    and "lk_buf (vm_link vmi) = es @ rest" and "es \<noteq> []" and "unat count = length es"
    and w: "w = unat (lk_unpack_width (vm_link vmi))"
    and fd: "feed sink s (take ((length es - 1) * w + 1) (concat (map (elem_bits w) es))) = Some s'"
  shows "\<exists>hi m word. unpack_top (vm_link vmi) = Some hi \<and>
    unpack_loop sink hi (lk_buf (vm_link vmi)) count (ucast (fr_unpack_mask (vm_framer vmi)))
      (fr_unpack_word (vm_framer vmi)) s = Some (s', m, word)"
proof -
  have w16: "0 < w" "w \<le> 16" using assms(2) w by (auto simp: width_ok_def)
  have c: "count = of_nat (length es)" "length es < 65536"
    using assms(5) unat_u16_less [of count] by (metis of_nat_unat_u16) (simp add: assms(5) [symmetric])
  have "unpack_loop sink (push_bit (w - 1) 1) (es @ rest) (of_nat (length es)) (pend_mask 0)
      (fr_unpack_word (vm_framer vmi)) s = Some (s', pend_mask (w - 1), ucast (last es))"
    using unpack_loop_feeds [OF w16, of 0 es sink rest] assms(4) c(2) fd rx_bits_take [OF assms(4) w16(1)]
    by (simp del: push_bit_of_1)
  with assms(1,3) c(1) w w16 show ?thesis
    by (auto simp: unpack_top_def Let_def rx_clear_def)
qed

subsection \<open>Properties of the simple codec\<close>

text \<open>C13: the simple codec round trip. A transmitter with an empty ring packs the octets it is
  given into elements of 1 to 16 bits; a receiver that unpacks those elements delivers the
  same octets in the same order, followed only by zero octets, and reports no overflow. The
  last element's tail is withheld, so the elements must reach at least one bit past the
  octets' last element.\<close>

theorem simp_roundtrip:
  fixes tx rx :: "('m, 'c) faxvmi"
  assumes "tx_clear tx" and "width_ok (lk_pack_width (vm_link tx))"
    and "n = unat (lk_pack_count (vm_link tx))" and "0 < n" and "n \<le> length (lk_buf (vm_link tx))"
    and "length xs \<le> unat (fr_fifo_size (vm_framer tx))" and "unat count = length xs"
    and "\<forall>v \<in> set xs. v AND 0xff = v"
    and "w = unat (lk_pack_width (vm_link tx))" and "8 * length xs \<le> (n - 1) * w + 1"
    and "rx_clear rx" and "lk_unpack_width (vm_link rx) = lk_pack_width (vm_link tx)"
    and "m = ((n - 1) * w + 1) div 8" and "m \<le> unat (vm_max_frame rx)" and "m \<le> length dst" and "m < 32768"
  shows "\<exists>tx' k rx' dst'. faxvmi_simp_pack tx xs count = Some (tx', k) \<and>
    faxvmi_simp_unpack (rx\<lparr>vm_link := (vm_link rx)\<lparr>lk_buf := lk_buf (vm_link tx')\<rparr>\<rparr>) dst (lk_pack_count (vm_link tx)) =
      Some (rx', dst', of_nat m) \<and>
    take m dst' = xs @ replicate (m - length xs) 0 \<and> vm_overflow rx' = 0"
proof -
  have w: "0 < w" "w \<le> 16" using assms(2,9) by (auto simp: width_ok_def)
  have "(n - 1) * w + 1 \<le> n * w" using assms(4) w by (cases n) simp_all
  then have room: "8 * length xs \<le> n * w" using assms(10) by linarith
  obtain tx' k es where pk: "faxvmi_simp_pack tx xs count = Some (tx', k)"
    and buf: "lk_buf (vm_link tx') = es @ drop n (lk_buf (vm_link tx))" and len: "length es = n"
    and bits: "concat (map (elem_bits w) es) = octets_bits xs @ replicate (n * w - 8 * length xs) False"
    using simp_pack_elems [OF assms(1,2,3,5,6,7), of "[]"] room assms(9) by auto
  let ?rx = "rx\<lparr>vm_link := (vm_link rx)\<lparr>lk_buf := lk_buf (vm_link tx')\<rparr>\<rparr>"
  let ?in = "take ((length es - 1) * w + 1) (concat (map (elem_bits w) es))"
  have ol: "length (octets_bits xs) = 8 * length xs" by (induction xs) simp_all
  have inb: "?in = octets_bits xs @ replicate ((n - 1) * w + 1 - 8 * length xs) False"
    unfolding bits len using assms(10) \<open>(n - 1) * w + 1 \<le> n * w\<close> by (simp add: ol min_def)
  have out: "octets_of ?in = xs @ replicate (m - length xs) 0"
  proof -
    have "map (\<lambda>v. v AND 0xff) xs = xs" using assms(8) by (simp add: map_idI)
    moreover have "((n - 1) * w + 1 - 8 * length xs) div 8 = m - length xs"
    proof -
      obtain d where "(n - 1) * w + 1 = 8 * length xs + d" using assms(10) le_Suc_ex by blast
      then show ?thesis by (simp add: assms(13))
    qed
    ultimately show ?thesis unfolding inb octets_of_octets octets_of_zeros by simp
  qed
  then have lo: "length (octets_of ?in) = m"
    using assms(10,13) by (simp add: div_le_mono [of "8 * length xs" _ 8, simplified])
  let ?s = "load_sink (vm_framer ?rx) dst"
  obtain s' where fd: "feed (simp_sink (vm_max_frame rx)) ?s ?in = Some s'"
    and d: "os_dst s' = octets_of ?in @ drop m dst" and no: "os_nout s' = of_nat m" and ov: "os_overflow s' = 0"
    using simp_sink_feeds [of ?s "octets_of ?in" ?in "vm_max_frame rx"] assms(11,14-16) lo
    by (auto simp: load_sink_def rx_clear_def)
  have "\<exists>hi msk word. unpack_top (vm_link ?rx) = Some hi \<and>
    unpack_loop (simp_sink (vm_max_frame rx)) hi (lk_buf (vm_link ?rx)) (lk_pack_count (vm_link tx))
      (ucast (fr_unpack_mask (vm_framer ?rx))) (fr_unpack_word (vm_framer ?rx)) ?s = Some (s', msk, word)"
    by (rule unpack_call [OF _ _ _ _ _ _ fd, where rest = "drop n (lk_buf (vm_link tx))"])
      (use assms(2-4,9,11,12) buf len in \<open>auto simp: rx_clear_def\<close>)
  with d no ov lo pk out show ?thesis by (auto simp: faxvmi_simp_unpack_def)
qed

lemma fresh_vmi_clear:
  "ring \<noteq> 0 \<Longrightarrow> tx_clear (fresh_vmi mode (fresh_framer ring asm) lk)"
  "rx_clear (fresh_vmi mode (fresh_framer ring asm) lk)"
  by (simp_all add: tx_clear_def rx_clear_def fresh_vmi_def fresh_framer_wf) (simp_all add: fresh_framer_def)

lemma fresh_vmi_sel [simp]:
  "vm_link (fresh_vmi mode fr lk) = lk" "vm_framer (fresh_vmi mode fr lk) = fr" "vm_max_frame (fresh_vmi mode fr lk) = 100"
  "fr_fifo_size (fresh_framer ring asm) = ring" "fr_zero_run_send (fresh_framer ring asm) = 0"
  "lk_pack_width (fresh_link n w) = w" "lk_unpack_width (fresh_link n w) = w" "lk_pack_count (fresh_link n w) = n"
  "length (lk_buf (fresh_link n w)) = 50"
  by (simp_all add: fresh_vmi_def fresh_link_def fresh_framer_def)

text \<open>An instance for the witnesses: a ring of 64 elements, twenty elements of eight bits a call.\<close>

definition demo_vmi :: "u16 \<Rightarrow> (unit, unit) faxvmi" where
  "demo_vmi mode = fresh_vmi mode (fresh_framer 64 64) (fresh_link 20 8)"

theorem simp_roundtrip_witness:
  "\<exists>tx' k rx' dst'. faxvmi_simp_pack (demo_vmi 0) [0x41, 0x42] 2 = Some (tx', k) \<and>
    faxvmi_simp_unpack ((demo_vmi 0)\<lparr>vm_link := (vm_link (demo_vmi 0))\<lparr>lk_buf := lk_buf (vm_link tx')\<rparr>\<rparr>) (replicate 20 0)
        (lk_pack_count (vm_link (demo_vmi 0))) = Some (rx', dst', of_nat 19) \<and>
    take 19 dst' = [0x41, 0x42] @ replicate (19 - length [0x41, 0x42 :: u16]) 0 \<and> vm_overflow rx' = 0"
  by (rule simp_roundtrip [where n = 20 and w = 8])
    (simp_all add: demo_vmi_def fresh_vmi_clear width_ok_def)

subsection \<open>The asynchronous codec\<close>

text \<open>A character on the line: a zero, the octet, a one.\<close>

definition char_bits :: "u16 \<Rightarrow> bool list" where
  "char_bits v = False # octet_bits v @ [True]"

lemma pend32_10: "pend32 10 = 0x200"
  by (simp add: pend32_def)

lemma acc_tail_char: "acc_tail 10 ((push_bit 1 (ucast v) OR 1) AND 0xfffffdff :: u32) = char_bits v"
proof -
  have m: "(0xfffffdff :: u32) = NOT (push_bit 9 1)" by simp
  have b: "bit ((push_bit 1 (ucast v) OR 1) AND 0xfffffdff :: u32) n \<longleftrightarrow>
      n \<noteq> 9 \<and> n < 32 \<and> (if n = 0 then True else bit v (n - 1))" for n
    unfolding m bit_and_iff bit_or_iff bit_not_iff bit_push32 bit_up
    by (auto simp: bit_1_iff dest: bit_imp_le_length)
  show ?thesis
    unfolding acc_tail_def char_bits_def octet_bits_def b by (simp add: upt_rec numeral_eq_Suc)
qed

lemma asyc_char:
  assumes "pr_mask r = 0" and wf: "framer_wf (vm_framer (pr_vmi r))"
    and held: "framer_held (vm_framer (pr_vmi r)) = v # vs" and z: "fr_zero_run_send (vm_framer (pr_vmi r)) = 0"
  shows "\<exists>r'. run_bits asyc_bit 10 r = Some (r', char_bits v) \<and> drew r r' vs"
proof -
  obtain rd c where pop: "ring_pop (vm_framer (pr_vmi r)) = Some (with_rd (vm_framer (pr_vmi r)) rd c, v)"
    and wf': "framer_wf (with_rd (vm_framer (pr_vmi r)) rd c)"
    and h': "framer_held (with_rd (vm_framer (pr_vmi r)) rd c) = vs"
    using ring_pop_correct [OF wf held] by blast
  let ?w = "(push_bit 1 (ucast v) OR 1) AND 0xfffffdff :: u32"
  let ?r = "(pr_set_framer (with_rd (vm_framer (pr_vmi r)) rd c) r)\<lparr>pr_word := ?w, pr_mask := 0x200\<rparr>"
  have "fr_count (vm_framer (pr_vmi r)) \<noteq> 0" using held framer_held_count [of "vm_framer (pr_vmi r)"] by auto
  then have rf: "asyc_refill r = Some ?r" using assms(1) pop z by (simp add: asyc_refill_def Let_def)
  obtain a where "run_bits asyc_bit 10 r = Some (?r\<lparr>pr_mask := 0, pr_acc := a\<rparr>, acc_tail 10 (pr_word ?r))"
    using asyc_word.draw_word [OF assms(1) rf, of 10] by (auto simp: pend32_10)
  moreover have "acc_tail 10 (pr_word ?r) = char_bits v" using acc_tail_char [of v] by simp
  ultimately show ?thesis
    using wf' h' by (auto simp: drew_def pr_set_framer_def)
qed

lemma asyc_chars:
  assumes "pr_mask r = 0" and "framer_wf (vm_framer (pr_vmi r))"
    and "framer_held (vm_framer (pr_vmi r)) = vs @ ws" and "fr_zero_run_send (vm_framer (pr_vmi r)) = 0"
  shows "\<exists>r'. run_bits asyc_bit (10 * length vs) r = Some (r', concat (map char_bits vs)) \<and> drew r r' ws"
  using assms
proof (induction vs arbitrary: r)
  case Nil
  then show ?case by (auto simp: drew_def intro: exI [of _ "fr_rd (vm_framer (pr_vmi r))"] with_rd_same [symmetric])
next
  case (Cons v vs)
  then obtain r1 where r1: "run_bits asyc_bit 10 r = Some (r1, char_bits v)" "drew r r1 (vs @ ws)"
    using asyc_char [of r v "vs @ ws"] by auto
  moreover have "fr_zero_run_send (vm_framer (pr_vmi r1)) = 0"
    using r1(2) Cons.prems(4) by (auto simp: drew_def with_rd_def)
  ultimately obtain r2 where "run_bits asyc_bit (10 * length vs) r1 = Some (r2, concat (map char_bits vs))" "drew r1 r2 ws"
    using Cons.IH [of r1] by (auto simp: drew_def)
  with r1 run_bits_add [of asyc_bit 10 r r1 "char_bits v"] show ?case
    by (auto intro: drew_trans)
qed

lemma asyc_idle:
  assumes "pr_mask r = 0" and "framer_wf (vm_framer (pr_vmi r))"
    and "framer_held (vm_framer (pr_vmi r)) = []" and "fr_zero_run_send (vm_framer (pr_vmi r)) = 0"
  shows "\<exists>r'. run_bits asyc_bit n r = Some (r', replicate n True) \<and> drew r r' []"
  using assms
proof (induction n arbitrary: r)
  case 0
  then show ?case by (auto simp: drew_def intro: exI [of _ "fr_rd (vm_framer (pr_vmi r))"] with_rd_same [symmetric])
next
  case (Suc n)
  let ?r = "(pr_set_underrun 1 r)\<lparr>pr_word := 1, pr_mask := 1\<rparr>"
  have rf: "asyc_refill r = Some ?r" using Suc.prems framer_held_count by (auto simp: asyc_refill_def Let_def)
  have p1: "(1 :: u32) = pend32 1" by (simp add: pend32_def)
  obtain a where a: "run_bits asyc_bit 1 r = Some (?r\<lparr>pr_mask := 0, pr_acc := a\<rparr>, [True])"
    using asyc_word.draw_word [OF Suc.prems(1) rf, of 1] p1 by (auto simp: acc_tail_def)
  let ?r1 = "?r\<lparr>pr_mask := 0, pr_acc := a\<rparr>"
  have d: "drew r ?r1 []" using Suc.prems
    by (auto simp: drew_def pr_set_underrun_def intro: exI [of _ "fr_rd (vm_framer (pr_vmi r))"] with_rd_same [symmetric])
  moreover have "fr_zero_run_send (vm_framer (pr_vmi ?r1)) = 0" using Suc.prems by (simp add: pr_set_underrun_def)
  ultimately obtain r2 where "run_bits asyc_bit n ?r1 = Some (r2, replicate n True)" "drew ?r1 r2 []"
    using Suc.IH [of ?r1] by (auto simp: drew_def)
  with a d run_bits_add [of asyc_bit 1 r ?r1 "[True]" n] show ?case
    by (auto intro: drew_trans)
qed

lemma no_zero_run:
  assumes "bit acc j" and "0 < j" and "j < 23"
  shows "acc AND 0x7fffff \<noteq> (0 :: u32)" and "acc AND 0x7fffff \<noteq> (1 :: u32)"
proof -
  have "(0x7fffff :: u32) = mask 23" by (simp add: mask_eq_exp_minus_1)
  then have "bit (acc AND 0x7fffff) j" using assms by (simp only: bit_and_iff bit_mask_iff) simp
  then show "acc AND 0x7fffff \<noteq> (0 :: u32)" "acc AND 0x7fffff \<noteq> (1 :: u32)"
    using assms(2) by (auto simp: bit_1_iff)
qed

text \<open>Eight data bits after a start bit: the mark before it is still in the accumulator.\<close>

lemma asyc_data:
  assumes "os_hunt s = 0" and "unat (os_bit s) + length bs = 8" and "bs \<noteq> []"
    and "bit (os_acc s) (Suc (unat (os_bit s)))"
    and "e = octet_val (acc_tail (unat (os_bit s)) (os_acc s) @ bs)"
    and "os_cur s = unat (os_nout s)" and "os_cur s < length (os_dst s)" and "os_cur s < unat mf" and "os_cur s + 1 < 32768"
  shows "\<exists>a. feed (asyc_sink mf) s bs =
      Some (s\<lparr>os_acc := a, os_hunt := 1, os_bit := 0, os_dst := (os_dst s)[os_cur s := e],
              os_cur := os_cur s + 1, os_nout := os_nout s + 1\<rparr>) \<and> bit a 9"
  using assms
proof (induction bs arbitrary: s)
  case (Cons b bs)
  let ?k = "unat (os_bit s)"
  define a where "a = push_bit 1 (os_acc s) OR of_bool b"
  have k: "?k < 8" using Cons.prems(2) by simp
  have tail: "acc_tail (Suc ?k) a = acc_tail ?k (os_acc s) @ [b]"
    unfolding a_def using k by (intro acc_tail_shift) simp
  have ba: "bit a (Suc (Suc ?k))"
    unfolding a_def bit_shifted using Cons.prems(4) k by simp
  have z: "a AND 0x7fffff \<noteq> 0" "a AND 0x7fffff \<noteq> 1" using no_zero_run [OF ba] k by simp_all
  have k1: "unat (os_bit s + 1) = Suc ?k" using k by (simp add: unat_succ_u16)
  have ac: "push_bit 1 (os_acc s) OR (if b then 1 else 0) = a" by (simp add: a_def)
  show ?case
  proof (cases "bs = []")
    case False
    let ?s = "s\<lparr>os_acc := a, os_bit := os_bit s + 1\<rparr>"
    have "os_bit s + 1 \<noteq> 8"
    proof
      assume "os_bit s + 1 = 8"
      then have "Suc ?k = 8" using k1 by simp
      with False Cons.prems(2) show False by simp
    qed
    then have st: "asyc_sink mf s b = Some ?s"
      unfolding asyc_sink_def ac using Cons.prems(1) z by (simp add: Let_def)
    have "\<exists>a'. feed (asyc_sink mf) ?s bs =
      Some (?s\<lparr>os_acc := a', os_hunt := 1, os_bit := 0, os_dst := (os_dst ?s)[os_cur ?s := e],
              os_cur := os_cur ?s + 1, os_nout := os_nout ?s + 1\<rparr>) \<and> bit a' 9"
      by (rule Cons.IH) (use Cons.prems False k1 ba tail in simp_all)
    with st show ?thesis by auto
  next
    case True
    then have k7: "Suc ?k = 8" using Cons.prems(2) by simp
    then have e8: "os_bit s + 1 = 8" using k1 by (simp add: u16_eq_nat_iff)
    have ev: "ucast (a AND 0xff) = e"
      unfolding octet_val_acc using tail k7 Cons.prems(5) True by simp
    have "sint (os_nout s) = int (unat (os_nout s))"
      using Cons.prems(6,9) sint_of_nat_u16 [of "unat (os_nout s)"] by simp
    moreover have "int (unat (os_nout s)) < uint mf" using Cons.prems(6,8) by (simp add: uint_nat del: of_nat_unat)
    ultimately have "asyc_sink mf s b = Some (s\<lparr>os_acc := a, os_hunt := 1, os_bit := 0,
        os_dst := (os_dst s)[os_cur s := e], os_cur := os_cur s + 1, os_nout := os_nout s + 1\<rparr>)"
      unfolding asyc_sink_def ac using Cons.prems(1,6-8) z e8 ev by (simp add: Let_def os_emit_def mem_simps)
    then show ?thesis using ba k7 True by auto
  qed
qed simp

definition hunting :: "octet_sink \<Rightarrow> bool" where
  "hunting s \<longleftrightarrow> os_hunt s \<noteq> 0 \<and> os_bit s = 0 \<and> bit (os_acc s) 0 \<and> os_cur s = unat (os_nout s)"

lemma asyc_mark:
  assumes "hunting s"
  shows "\<exists>a z. asyc_sink mf s True = Some (s\<lparr>os_acc := a, os_hunt := 1, os_zero_run := z\<rparr>) \<and> bit a 0"
proof -
  define a where "a = push_bit 1 (os_acc s) OR of_bool True"
  have b0: "bit a 0" unfolding a_def bit_shifted by simp
  have "(0x7fffff :: u32) = mask 23" by (simp add: mask_eq_exp_minus_1)
  then have "bit (a AND 0x7fffff) 0" using b0 by (simp only: bit_and_iff bit_mask_iff) simp
  then have "a AND 0x7fffff \<noteq> 0" by auto
  moreover have "push_bit 1 (os_acc s) OR (if True then 1 else 0) = a" by (simp add: a_def)
  ultimately have "asyc_sink mf s True = Some (s\<lparr>os_acc := a, os_hunt := 1,
      os_zero_run := (if a AND 0x7fffff = 1 then 1 else os_zero_run s)\<rparr>)"
    unfolding asyc_sink_def using assms by (cases s) (simp add: hunting_def Let_def)
  with b0 show ?thesis by blast
qed

lemma asyc_one_char:
  assumes h: "hunting s" and "os_cur s < length (os_dst s)" and "os_cur s < unat mf" and "os_cur s + 1 < 32768"
  shows "\<exists>s'. feed (asyc_sink mf) s (char_bits v) = Some s' \<and> hunting s' \<and>
    os_dst s' = (os_dst s)[os_cur s := v AND 0xff] \<and> os_cur s' = os_cur s + 1 \<and> os_overflow s' = os_overflow s"
proof -
  define a where "a = push_bit 1 (os_acc s) OR of_bool False"
  let ?s = "s\<lparr>os_acc := a, os_hunt := 0\<rparr>"
  have ba: "bit a (Suc 0)" unfolding a_def bit_shifted using h by (simp add: hunting_def)
  have z: "a AND 0x7fffff \<noteq> 0" "a AND 0x7fffff \<noteq> 1" using no_zero_run [OF ba] by simp_all
  have "push_bit 1 (os_acc s) OR (if False then 1 else 0) = a" by (simp add: a_def)
  then have st: "asyc_sink mf s False = Some ?s"
    unfolding asyc_sink_def using h z by (simp add: hunting_def Let_def)
  let ?s1 = "\<lambda>a. ?s\<lparr>os_acc := a, os_hunt := 1, os_bit := 0, os_dst := (os_dst s)[os_cur s := v AND 0xff],
    os_cur := os_cur s + 1, os_nout := os_nout s + 1\<rparr>"
  obtain a1 where data: "feed (asyc_sink mf) ?s (octet_bits v) = Some (?s1 a1)" and a1: "bit a1 9"
    using asyc_data [of ?s "octet_bits v" "v AND 0xff" mf] h assms(2-4) ba
    by (auto simp: hunting_def octet_val_octet_bits) (auto simp: octet_bits_def)
  define a2 where "a2 = push_bit 1 a1 OR of_bool True"
  have b2: "bit a2 10" "bit a2 0" unfolding a2_def bit_shifted using a1 by simp_all
  have z2: "a2 AND 0x7fffff \<noteq> 0" "a2 AND 0x7fffff \<noteq> 1" using no_zero_run [OF b2(1)] by simp_all
  have "push_bit 1 a1 OR (if True then 1 else 0) = a2" by (simp add: a2_def)
  then have "asyc_sink mf (?s1 a1) True = Some ((?s1 a1)\<lparr>os_acc := a2, os_hunt := 1\<rparr>)"
    unfolding asyc_sink_def using z2 by (simp add: Let_def)
  then have "feed (asyc_sink mf) s (char_bits v) = Some ((?s1 a1)\<lparr>os_acc := a2, os_hunt := 1\<rparr>)"
    using st data by (simp add: char_bits_def feed_append)
  moreover have "unat (os_nout s + 1) = os_cur s + 1"
    using h assms(4) by (simp add: hunting_def unat_succ_u16)
  ultimately show ?thesis using b2 h by (auto simp: hunting_def)
qed

lemma asyc_marks:
  "hunting s \<Longrightarrow> \<exists>s'. feed (asyc_sink mf) s (replicate k True) = Some s' \<and> hunting s' \<and>
    os_dst s' = os_dst s \<and> os_cur s' = os_cur s \<and> os_overflow s' = os_overflow s"
proof (induction k arbitrary: s)
  case (Suc k)
  obtain a z where st: "asyc_sink mf s True = Some (s\<lparr>os_acc := a, os_hunt := 1, os_zero_run := z\<rparr>)" and a: "bit a 0"
    using asyc_mark [OF Suc.prems] by blast
  have "hunting (s\<lparr>os_acc := a, os_hunt := 1, os_zero_run := z\<rparr>)" using Suc.prems a by (simp add: hunting_def)
  from Suc.IH [OF this] st show ?case by auto
qed auto

lemma asyc_sink_feeds:
  assumes "hunting s" and "os_cur s + length xs \<le> length (os_dst s)"
    and "os_cur s + length xs \<le> unat mf" and "os_cur s + length xs < 32768"
  shows "\<exists>s'. feed (asyc_sink mf) s (concat (map char_bits xs) @ replicate k True) = Some s' \<and> hunting s' \<and>
    os_dst s' = take (os_cur s) (os_dst s) @ map (\<lambda>v. v AND 0xff) xs @ drop (os_cur s + length xs) (os_dst s) \<and>
    os_cur s' = os_cur s + length xs \<and> os_overflow s' = os_overflow s"
  using assms
proof (induction xs arbitrary: s)
  case Nil
  then show ?case using asyc_marks [of s mf k] by auto
next
  case (Cons v xs)
  obtain s1 where st: "feed (asyc_sink mf) s (char_bits v) = Some s1" "hunting s1"
    "os_dst s1 = (os_dst s)[os_cur s := v AND 0xff]" "os_cur s1 = os_cur s + 1" "os_overflow s1 = os_overflow s"
    using asyc_one_char [OF Cons.prems(1), of mf v] Cons.prems(2-4) by auto
  moreover have "take (os_cur s + 1) ((os_dst s)[os_cur s := v AND 0xff]) = take (os_cur s) (os_dst s) @ [v AND 0xff]"
    using Cons.prems(2) by (simp add: take_Suc_conv_app_nth)
  ultimately show ?case
    using Cons.IH [of s1] Cons.prems(2-4) by (auto simp: feed_append)
qed

lemma asyc_stream:
  assumes "pr_mask r = 0" and "framer_wf (vm_framer (pr_vmi r))" and "framer_held (vm_framer (pr_vmi r)) = xs"
    and "fr_zero_run_send (vm_framer (pr_vmi r)) = 0" and "10 * length xs \<le> m"
  shows "\<exists>r'. run_bits asyc_bit m r = Some (r', concat (map char_bits xs) @ replicate (m - 10 * length xs) True)"
proof -
  obtain r1 where r1: "run_bits asyc_bit (10 * length xs) r = Some (r1, concat (map char_bits xs))" "drew r r1 []"
    using asyc_chars [OF assms(1,2), of xs "[]"] assms(3,4) by auto
  then have "fr_zero_run_send (vm_framer (pr_vmi r1)) = 0" using assms(4) by (auto simp: drew_def with_rd_def)
  then obtain r2 where "run_bits asyc_bit (m - 10 * length xs) r1 = Some (r2, replicate (m - 10 * length xs) True)"
    using asyc_idle [of r1] r1(2) by (fastforce simp: drew_def)
  from run_bits_add [OF r1(1) this] assms(5) show ?thesis by simp
qed

lemma asyc_pack_elems:
  assumes "tx_clear vmi" and "width_ok (lk_pack_width (vm_link vmi))"
    and "n = unat (lk_pack_count (vm_link vmi))" and "n \<le> length (lk_buf (vm_link vmi))"
    and "length xs \<le> unat (fr_fifo_size (vm_framer vmi))" and "unat count = length xs"
    and "10 * length xs \<le> n * unat (lk_pack_width (vm_link vmi))" and "fr_zero_run_send (vm_framer vmi) = 0"
  shows "\<exists>vmi' k es. faxvmi_asyc_pack vmi (xs @ rest) count = Some (vmi', k) \<and>
    lk_buf (vm_link vmi') = es @ drop n (lk_buf (vm_link vmi)) \<and> length es = n \<and>
    concat (map (elem_bits (unat (lk_pack_width (vm_link vmi)))) es) =
      concat (map char_bits xs) @ replicate (n * unat (lk_pack_width (vm_link vmi)) - 10 * length xs) True"
proof -
  obtain v1 where w: "faxvmi_write_fifo vmi (xs @ rest) count = Some (v1, rest, count)" "vm_link v1 = vm_link vmi"
    "framer_wf (vm_framer v1)" "framer_held (vm_framer v1) = xs"
    "fr_pack_mask (vm_framer v1) = 0" "fr_pack_bit (vm_framer v1) = 0" "fr_zero_run_send (vm_framer v1) = 0"
    using write_all [OF assms(1,5,6), of rest] assms(8) by auto
  let ?r = "load_regs16 v1"
  have r: "pr_mask ?r = 0" "pr_vmi ?r = v1" by (simp_all add: load_regs16_def w Let_def)
  obtain r' where "run_bits asyc_bit (n * unat (lk_pack_width (vm_link vmi))) ?r =
      Some (r', concat (map char_bits xs) @ replicate (n * unat (lk_pack_width (vm_link vmi)) - 10 * length xs) True)"
    using asyc_stream [of ?r xs] r w assms(7) by auto
  then obtain es nout where "length es = n"
    "pack_run asyc_bit ?r = Some (r', 0, es @ drop n (lk_buf (vm_link vmi)), nout)"
    "concat (map (elem_bits (unat (lk_pack_width (vm_link vmi)))) es) =
      concat (map char_bits xs) @ replicate (n * unat (lk_pack_width (vm_link vmi)) - 10 * length xs) True"
    using asyc_src.pack_run_bits [of ?r n] r w assms(2-4) by auto
  then show ?thesis
    by (auto simp: faxvmi_asyc_pack_def w write_nothing set_residue_def pack_store_def Let_def)
qed

text \<open>A receiver waiting for a start bit on a line at mark.\<close>

definition rx_hunting :: "('m, 'c) faxvmi \<Rightarrow> bool" where
  "rx_hunting vmi \<longleftrightarrow> rx_clear vmi \<and> fr_async_hunt (vm_framer vmi) \<noteq> 0 \<and> bit (fr_unpack_acc (vm_framer vmi)) 0"

lemma asyc_unpack_elems:
  assumes "rx_hunting rx" and "width_ok (lk_unpack_width (vm_link rx))"
    and "w = unat (lk_unpack_width (vm_link rx))" and "lk_buf (vm_link rx) = es @ rest"
    and bits: "concat (map (elem_bits w) es) = concat (map char_bits xs) @ replicate (length es * w - 10 * length xs) True"
    and "length es = n" and "0 < n" and "n < 65536" and "\<forall>v \<in> set xs. v AND 0xff = v"
    and "10 * length xs \<le> (n - 1) * w + 1"
    and "length xs \<le> unat (vm_max_frame rx)" and "length xs \<le> length dst" and "length xs < 32768"
  shows "\<exists>rx'. faxvmi_asyc_unpack rx dst (of_nat n) =
      Some (rx', xs @ drop (length xs) dst, of_nat (length xs)) \<and> vm_overflow rx' = 0 \<and>
    fr_async_hunt (vm_framer rx') \<noteq> 0 \<and> bit (fr_unpack_acc (vm_framer rx')) 0"
proof -
  have w: "0 < w" "w \<le> 16" using assms(2,3) by (auto simp: width_ok_def)
  have le: "(n - 1) * w + 1 \<le> n * w" using assms(7) w by (cases n) simp_all
  let ?in = "take ((length es - 1) * w + 1) (concat (map (elem_bits w) es))"
  have ol: "length (concat (map char_bits xs)) = 10 * length xs" by (induction xs) (simp_all add: char_bits_def)
  have inb: "?in = concat (map char_bits xs) @ replicate ((n - 1) * w + 1 - 10 * length xs) True"
    unfolding bits assms(6) using assms(10) le by (simp add: ol min_def del: length_concat)
  have xs: "map (\<lambda>v. v AND 0xff) xs = xs" using assms(9) by (simp add: map_idI)
  let ?s = "load_sink (vm_framer rx) dst"
  have "hunting ?s" using assms(1) by (simp add: load_sink_def rx_hunting_def rx_clear_def hunting_def)
  then obtain s' where fd: "feed (asyc_sink (vm_max_frame rx)) ?s ?in = Some s'" and h: "hunting s'"
    and d: "os_dst s' = xs @ drop (length xs) dst" and cur: "os_cur s' = length xs" and ov: "os_overflow s' = 0"
    unfolding inb using asyc_sink_feeds [of ?s xs "vm_max_frame rx" "(n - 1) * w + 1 - 10 * length xs"] assms(11-13) xs
    by (auto simp: load_sink_def)
  have "\<exists>hi msk word. unpack_top (vm_link rx) = Some hi \<and>
    unpack_loop (asyc_sink (vm_max_frame rx)) hi (lk_buf (vm_link rx)) (of_nat n)
      (ucast (fr_unpack_mask (vm_framer rx))) (fr_unpack_word (vm_framer rx)) ?s = Some (s', msk, word)"
    by (rule unpack_call [OF _ assms(2,4) _ _ assms(3) fd])
      (use assms(1,6-8) in \<open>auto simp: rx_hunting_def unat_of_nat_u16\<close>)
  moreover have "os_nout s' = of_nat (length xs)"
    using h cur assms(13) by (simp add: hunting_def u16_eq_nat_iff unat_of_nat_u16)
  ultimately show ?thesis
    using d ov h by (auto simp: faxvmi_asyc_unpack_def hunting_def)
qed

text \<open>C19: the asynchronous codec round trip. The packer sends each octet as a start bit, eight
  bits and a stop bit, then marks; a hunting receiver that unpacks the elements, of any width
  from 1 to 16 bits, delivers exactly the octets sent, no more and no fewer, and is hunting
  again.\<close>

theorem asyc_roundtrip:
  fixes tx rx :: "('m, 'c) faxvmi"
  assumes "tx_clear tx" and "width_ok (lk_pack_width (vm_link tx))" and "fr_zero_run_send (vm_framer tx) = 0"
    and "n = unat (lk_pack_count (vm_link tx))" and "0 < n" and "n \<le> length (lk_buf (vm_link tx))"
    and "length xs \<le> unat (fr_fifo_size (vm_framer tx))" and "unat count = length xs"
    and "\<forall>v \<in> set xs. v AND 0xff = v"
    and "w = unat (lk_pack_width (vm_link tx))" and "10 * length xs \<le> (n - 1) * w + 1"
    and "rx_hunting rx" and "lk_unpack_width (vm_link rx) = lk_pack_width (vm_link tx)"
    and "length xs \<le> unat (vm_max_frame rx)" and "length xs \<le> length dst" and "length xs < 32768"
  shows "\<exists>tx' k rx' dst'. faxvmi_asyc_pack tx xs count = Some (tx', k) \<and>
    faxvmi_asyc_unpack (rx\<lparr>vm_link := (vm_link rx)\<lparr>lk_buf := lk_buf (vm_link tx')\<rparr>\<rparr>) dst (lk_pack_count (vm_link tx)) =
      Some (rx', dst', count) \<and>
    take (length xs) dst' = xs \<and> vm_overflow rx' = 0 \<and>
    fr_async_hunt (vm_framer rx') \<noteq> 0 \<and> bit (fr_unpack_acc (vm_framer rx')) 0"
proof -
  have w: "0 < w" using assms(2,10) by (simp add: width_ok_def)
  then have "(n - 1) * w + 1 \<le> n * w" using assms(5) by (cases n) simp_all
  then have room: "10 * length xs \<le> n * w" using assms(11) by linarith
  obtain tx' k es where pk: "faxvmi_asyc_pack tx xs count = Some (tx', k)"
    and buf: "lk_buf (vm_link tx') = es @ drop n (lk_buf (vm_link tx))" and len: "length es = n"
    and bits: "concat (map (elem_bits w) es) = concat (map char_bits xs) @ replicate (n * w - 10 * length xs) True"
    using asyc_pack_elems [OF assms(1,2,4,6,7,8), of "[]"] room assms(3,10) by auto
  let ?rx = "rx\<lparr>vm_link := (vm_link rx)\<lparr>lk_buf := lk_buf (vm_link tx')\<rparr>\<rparr>"
  have "\<exists>rx'. faxvmi_asyc_unpack ?rx dst (of_nat n) =
      Some (rx', xs @ drop (length xs) dst, of_nat (length xs)) \<and> vm_overflow rx' = 0 \<and>
    fr_async_hunt (vm_framer rx') \<noteq> 0 \<and> bit (fr_unpack_acc (vm_framer rx')) 0"
    by (rule asyc_unpack_elems [OF _ _ _ _ bits [folded len]])
      (use assms(2-5,9-16) buf len in \<open>auto simp: rx_clear_def rx_hunting_def\<close>)
  moreover have "of_nat (length xs) = count" "of_nat n = lk_pack_count (vm_link tx)"
    using assms(4,8) by (metis of_nat_unat_u16)+
  ultimately show ?thesis using pk by auto
qed

theorem asyc_roundtrip_witness:
  "\<exists>tx' k rx' dst'. faxvmi_asyc_pack (demo_vmi 1) [0x41, 0] 2 = Some (tx', k) \<and>
    faxvmi_asyc_unpack ((demo_vmi 1)\<lparr>vm_link := (vm_link (demo_vmi 1))\<lparr>lk_buf := lk_buf (vm_link tx')\<rparr>\<rparr>) (replicate 20 0)
        (lk_pack_count (vm_link (demo_vmi 1))) = Some (rx', dst', 2) \<and>
    take (length [0x41, 0 :: u16]) dst' = [0x41, 0] \<and> vm_overflow rx' = 0 \<and>
    fr_async_hunt (vm_framer rx') \<noteq> 0 \<and> bit (fr_unpack_acc (vm_framer rx')) 0"
proof (rule asyc_roundtrip [where n = 20 and w = 8])
  show "rx_hunting (demo_vmi 1)"
    by (simp add: demo_vmi_def fresh_vmi_clear rx_hunting_def) (simp add: fresh_framer_def)
qed (simp_all add: demo_vmi_def fresh_vmi_clear width_ok_def)

end
