(* ===== verification/VmiHdlc.thy ===== *)
theory VmiHdlc
  imports VmiOctets
begin

unbundle bit_operations_syntax

text \<open>
  The HDLC codec of \<^verbatim>\<open>src/fax/faxvmi_hdlc.c\<close>: flags, zero insertion and removal, frame
  assembly, and the repair pass over a frame whose check sequence is wrong.

  The receiver is split the way the function is: \<open>hdlc_rx_bit\<close> is one pass of the loop over
  the state that outlives the call, answering whether the pass completed a frame, and
  \<open>hdlc_sink\<close> copies the frame out to the caller's buffer. The theory shows what a
  transmitter puts on the line for the frames queued in its ring, that a receiver recovers
  exactly those frames from it whatever way the stream is cut into calls, and which frames
  the repair pass lets through.
\<close>

subsection \<open>The framer\<close>

definition hdlc_refill :: "('m, 'c) pack_regs \<Rightarrow> ('m, 'c) pack_regs option" where
  "hdlc_refill r =
     (if pr_mask r \<noteq> 0 then Some r
      else if fr_count (vm_framer (pr_vmi r)) \<noteq> 0 then do {
        (fr, x) \<leftarrow> ring_pop (vm_framer (pr_vmi r));
        if pr_nleft r \<noteq> 0
        then Some ((pr_set_framer fr r)\<lparr>pr_word := ucast x, pr_mask := 0x80, pr_flagging := 0, pr_nleft := pr_nleft r - 1\<rparr>)
        else Some ((pr_set_framer fr r)\<lparr>pr_word := 0x7e7e7e, pr_mask := 0x800000, pr_flagging := 1, pr_nleft := x\<rparr>)
      }
      else Some ((pr_set_underrun 1 r)\<lparr>pr_word := 0x7e, pr_mask := 0x80, pr_flagging := 1\<rparr>))"

text \<open>Five ones in a row inside data: the bit under the mask is cleared and sent again.\<close>

definition hdlc_bit :: "('m, 'c) pack_regs \<Rightarrow> ('m, 'c) pack_regs option" where
  "hdlc_bit r = do {
     r \<leftarrow> hdlc_refill r;
     let r = shift_bit r;
     if pr_flagging r = 0 \<and> pr_acc r AND 0x1f = 0x1f
     then Some (r\<lparr>pr_word := pr_word r AND NOT (pr_mask r)\<rparr>)
     else Some (r\<lparr>pr_mask := drop_bit 1 (pr_mask r)\<rparr>)
   }"

text \<open>
  The walk from the element after the read cursor to the write cursor, whose first index is
  not wrapped. It visits every index within \<open>fifo_size + 2\<close> steps, so \<open>None\<close> for that
  much fuel is a walk that never ends.
\<close>

definition walk_next :: "framer \<Rightarrow> nat \<Rightarrow> nat" where
  "walk_next fr i = (if i + 1 < unat (fr_fifo_size fr) then i + 1 else 0)"

fun hdlc_walk :: "framer \<Rightarrow> nat \<Rightarrow> nat \<Rightarrow> unit option" where
  "hdlc_walk fr i 0 = None"
| "hdlc_walk fr i (Suc fuel) = (if i = unat (fr_wr fr) then Some () else hdlc_walk fr (walk_next fr i) fuel)"

text \<open>The three header octets, read whatever the debug level.\<close>

definition hdlc_peek :: "framer \<Rightarrow> u16 \<Rightarrow> unit option" where
  "hdlc_peek fr count =
     (if count = 0 then Some ()
      else do {
        len \<leftarrow> rd_at (fr_fifo fr) (unat (fr_rd fr));
        hdlc_walk fr (unat (fr_rd fr) + 1) (unat (fr_fifo_size fr) + 2);
        if len > 2 then do {
          let i = unat (fr_rd fr) + 1;
          rd_at (fr_fifo fr) i;
          rd_at (fr_fifo fr) (walk_next fr i);
          rd_at (fr_fifo fr) (walk_next fr (walk_next fr i));
          Some ()
        } else Some ()
      })"

definition load_regs32 :: "('m, 'c) faxvmi \<Rightarrow> ('m, 'c) pack_regs" where
  "load_regs32 vmi =
     (let fr = vm_framer vmi
      in \<lparr>pr_vmi = vmi, pr_word = fr_pack_word fr, pr_mask = fr_pack_mask fr, pr_acc = fr_pack_acc fr,
          pr_flagging = fr_pack_flagging fr, pr_nleft = fr_pack_frame_left fr, pr_real = 1\<rparr>)"

definition hdlc_store :: "('m, 'c) pack_regs \<Rightarrow> u16 \<Rightarrow> u16 list \<Rightarrow> ('m, 'c) faxvmi" where
  "hdlc_store r nb buf =
     (let vmi = pack_store r nb buf
      in vmi\<lparr>vm_framer := (vm_framer vmi)\<lparr>fr_pack_frame_left := pr_nleft r, fr_pack_flagging := pr_flagging r\<rparr>\<rparr>)"

definition faxvmi_hdlc_frame :: "('m, 'c) faxvmi \<Rightarrow> u16 list \<Rightarrow> u16 \<Rightarrow> (('m, 'c) faxvmi \<times> u16) option" where
  "faxvmi_hdlc_frame vmi src count = do {
     (vmi, src, k) \<leftarrow> faxvmi_write_frame vmi src count;
     let left = count - k;
     hdlc_peek (vm_framer vmi) count;
     (r, nb, buf, _) \<leftarrow> pack_run hdlc_bit (load_regs32 vmi);
     (vmi, src, k) \<leftarrow> faxvmi_write_frame (hdlc_store r nb buf) src left;
     Some (set_residue (left - k) vmi, lk_pack_count (vm_link vmi))
   }"

subsection \<open>The repair pass\<close>

definition FAXVMI_FCS16_GOOD :: u16 where
  "FAXVMI_FCS16_GOOD = 0xe2f0"

definition FAXVMI_T30_ADDRESS :: u16 where
  "FAXVMI_T30_ADDRESS = 0xff"

definition FAXVMI_T30_CONTROL :: u16 where
  "FAXVMI_T30_CONTROL = 0xc8"

definition FAXVMI_MAX_BIT_SHIFT :: nat where
  "FAXVMI_MAX_BIT_SHIFT = 7"

text \<open>The whole buffer one bit to the left; the last pass reads the element after it.\<close>

fun hdlc_shift :: "u16 list \<Rightarrow> nat \<Rightarrow> nat \<Rightarrow> u16 list option" where
  "hdlc_shift frame i 0 = Some frame"
| "hdlc_shift frame i (Suc n) = do {
     nxt \<leftarrow> rd_at frame (i + 1);
     f \<leftarrow> rd_at frame i;
     frame \<leftarrow> wr_at frame i ((push_bit 1 f AND 0xfe) OR (if bit nxt 7 then 1 else 0));
     hdlc_shift frame (i + 1) n
   }"

text \<open>Up to \<open>n\<close> shifts, each with the three readings; the flag says that one was good.\<close>

fun hdlc_shifts :: "nat \<Rightarrow> u16 list \<Rightarrow> u16 \<Rightarrow> u16 \<Rightarrow> (u16 list \<times> bool) option" where
  "hdlc_shifts 0 frame len flen = Some (frame, False)"
| "hdlc_shifts (Suc n) frame len flen = do {
     frame \<leftarrow> hdlc_shift frame 0 (nat (sint len));
     fcs \<leftarrow> faxvmi_gen_fcs16 frame flen;
     if fcs = FAXVMI_FCS16_GOOD then Some (frame, True)
     else do {
       save0 \<leftarrow> rd_at frame 0;
       frame \<leftarrow> wr_at frame 0 FAXVMI_T30_ADDRESS;
       fcs \<leftarrow> faxvmi_gen_fcs16 frame flen;
       if fcs = FAXVMI_FCS16_GOOD then Some (frame, True)
       else do {
         save1 \<leftarrow> rd_at frame 1;
         frame \<leftarrow> wr_at frame 1 FAXVMI_T30_CONTROL;
         fcs \<leftarrow> faxvmi_gen_fcs16 frame flen;
         if fcs = FAXVMI_FCS16_GOOD then Some (frame, True)
         else do {
           frame \<leftarrow> wr_at frame 0 save0;
           frame \<leftarrow> wr_at frame 1 save1;
           hdlc_shifts n frame len flen
         }
       }
     }
   }"

definition hdlc_check :: "u16 list \<Rightarrow> u16 \<Rightarrow> (u16 list \<times> u16) option" where
  "hdlc_check frame flen = do {
     fcs \<leftarrow> faxvmi_gen_fcs16 frame flen;
     if fcs = FAXVMI_FCS16_GOOD then Some (frame, flen)
     else do {
       save0 \<leftarrow> rd_at frame 0;
       frame \<leftarrow> wr_at frame 0 FAXVMI_T30_ADDRESS;
       fcs \<leftarrow> faxvmi_gen_fcs16 frame flen;
       if fcs = FAXVMI_FCS16_GOOD then Some (frame, flen)
       else do {
         save1 \<leftarrow> rd_at frame 1;
         frame \<leftarrow> wr_at frame 1 FAXVMI_T30_CONTROL;
         fcs \<leftarrow> faxvmi_gen_fcs16 frame flen;
         if fcs = FAXVMI_FCS16_GOOD then Some (frame, flen)
         else do {
           frame \<leftarrow> wr_at frame 0 save0;
           frame \<leftarrow> wr_at frame 1 save1;
           (frame, good) \<leftarrow> hdlc_shifts FAXVMI_MAX_BIT_SHIFT frame flen (flen - 1);
           Some (frame, if good then flen - 1 else 0)
         }
       }
     }
   }"

subsection \<open>The deframer\<close>

record hdlc_rx =
  hr_acc :: u32
  hr_bit :: u16
  hr_frame :: "u16 list"
  hr_frame_size :: u16
  hr_flen :: u16
  hr_flags_wanted :: u16
  hr_in_frame :: int
  hr_ones :: u16

text \<open>What a pass of the loop did: nothing to report, a frame refused for want of room, or a
  frame for the caller, its length in front.\<close>

datatype rx_event = Quiet | Overflow | Frame "u16 list"

fun rd_n :: "u16 list \<Rightarrow> nat \<Rightarrow> nat \<Rightarrow> u16 list option" where
  "rd_n xs i 0 = Some []"
| "rd_n xs i (Suc n) = do {
     x \<leftarrow> rd_at xs i;
     ys \<leftarrow> rd_n xs (i + 1) n;
     Some (x # ys)
   }"

definition hdlc_emit :: "u16 \<Rightarrow> hdlc_rx \<Rightarrow> (hdlc_rx \<times> rx_event) option" where
  "hdlc_emit max_frame p = do {
     (frame, flen) \<leftarrow> hdlc_check (hr_frame p) (hr_flen p);
     let p = p\<lparr>hr_frame := frame, hr_flen := flen\<rparr>;
     if sint flen \<ge> uint max_frame then Some (p, Overflow)
     else do {
       xs \<leftarrow> rd_n frame 0 (nat (sint flen));
       Some (p\<lparr>hr_flen := 0\<rparr>, Frame (flen # xs))
     }
   }"

text \<open>A negative index, which a \<open>short\<close> length that wrapped would give, is outside the buffer.\<close>

definition hdlc_octet :: "hdlc_rx \<Rightarrow> hdlc_rx option" where
  "hdlc_octet p =
     (if hr_flags_wanted p = 0 \<and> sint (hr_flen p) < uint (hr_frame_size p)
      then if sint (hr_flen p) < 0 then None
           else do {
             frame \<leftarrow> wr_at (hr_frame p) (unat (hr_flen p)) (ucast (hr_acc p AND 0xff));
             Some (p\<lparr>hr_in_frame := 1, hr_frame := frame, hr_flen := hr_flen p + 1, hr_bit := 0\<rparr>)
           }
      else Some (p\<lparr>hr_bit := 0\<rparr>))"

definition hdlc_rx_bit :: "u16 \<Rightarrow> hdlc_rx \<Rightarrow> bool \<Rightarrow> (hdlc_rx \<times> rx_event) option" where
  "hdlc_rx_bit max_frame p b = do {
     (p, e) \<leftarrow>
       (if hr_ones p = 5 \<and> \<not> b then Some (p, Quiet)
        else if hr_ones p \<noteq> 6 then do {
          let p = p\<lparr>hr_acc := push_bit 1 (hr_acc p) OR (if b then 1 else 0), hr_bit := hr_bit p + 1\<rparr>;
          p \<leftarrow> (if hr_bit p = 8 then hdlc_octet p else Some p);
          Some (p, Quiet)
        }
        else do {
          (p, e) \<leftarrow>
            (if \<not> b \<and> hr_flags_wanted p \<noteq> 0 then Some (p\<lparr>hr_flags_wanted := hr_flags_wanted p - 1\<rparr>, Quiet)
             else if b \<or> hr_in_frame p = 0 then Some (p, Quiet)
             else hdlc_emit max_frame p);
          Some (p\<lparr>hr_in_frame := 0, hr_bit := 0\<rparr>, e)
        });
     Some (p\<lparr>hr_ones := (if b then hr_ones p + 1 else 0)\<rparr>, e)
   }"

record hdlc_sink_state =
  hs_rx :: hdlc_rx
  hs_dst :: "u16 list"
  hs_cur :: nat
  hs_nframes :: u16
  hs_overflow :: int

fun wr_list :: "u16 list \<Rightarrow> nat \<Rightarrow> u16 list \<Rightarrow> u16 list option" where
  "wr_list dst i [] = Some dst"
| "wr_list dst i (x # xs) = do { dst \<leftarrow> wr_at dst i x; wr_list dst (i + 1) xs }"

definition hdlc_sink :: "u16 \<Rightarrow> hdlc_sink_state \<Rightarrow> bool \<Rightarrow> hdlc_sink_state option" where
  "hdlc_sink max_frame s b = do {
     (p, e) \<leftarrow> hdlc_rx_bit max_frame (hs_rx s) b;
     let s = s\<lparr>hs_rx := p\<rparr>;
     case e of
       Quiet \<Rightarrow> Some s
     | Overflow \<Rightarrow> Some (s\<lparr>hs_overflow := 1\<rparr>)
     | Frame xs \<Rightarrow> do {
         dst \<leftarrow> wr_list (hs_dst s) (hs_cur s) xs;
         Some (s\<lparr>hs_dst := dst, hs_cur := hs_cur s + length xs, hs_nframes := hs_nframes s + 1\<rparr>)
       }
   }"

definition load_rx :: "framer \<Rightarrow> hdlc_rx" where
  "load_rx fr =
     \<lparr>hr_acc = fr_unpack_acc fr, hr_bit = fr_unpack_bit fr, hr_frame = fr_frame fr,
      hr_frame_size = fr_frame_size fr, hr_flen = fr_frame_len fr, hr_flags_wanted = fr_flags_wanted fr,
      hr_in_frame = fr_in_frame fr, hr_ones = fr_ones fr\<rparr>"

definition store_rx :: "hdlc_rx \<Rightarrow> u16 \<Rightarrow> u32 \<Rightarrow> framer \<Rightarrow> framer" where
  "store_rx p msk word fr =
     fr\<lparr>fr_unpack_mask := ucast msk, fr_unpack_bit := hr_bit p, fr_unpack_word := word,
        fr_frame_len := hr_flen p, fr_unpack_acc := hr_acc p, fr_ones := hr_ones p,
        fr_frame := hr_frame p, fr_flags_wanted := hr_flags_wanted p, fr_in_frame := hr_in_frame p\<rparr>"

definition faxvmi_hdlc_unframe :: "('m, 'c) faxvmi \<Rightarrow> u16 list \<Rightarrow> u16 \<Rightarrow> (('m, 'c) faxvmi \<times> u16 list \<times> u16) option" where
  "faxvmi_hdlc_unframe vmi dst count = do {
     let fr = vm_framer vmi;
     hi \<leftarrow> unpack_top (vm_link vmi);
     (s, msk, word) \<leftarrow> unpack_loop (hdlc_sink (vm_max_frame vmi)) hi (lk_buf (vm_link vmi)) count
        (ucast (fr_unpack_mask fr)) (fr_unpack_word fr)
        \<lparr>hs_rx = load_rx fr, hs_dst = dst, hs_cur = 0, hs_nframes = 0, hs_overflow = 0\<rparr>;
     Some (vmi\<lparr>vm_framer := store_rx (hs_rx s) msk word fr, vm_overflow := hs_overflow s\<rparr>, hs_dst s, hs_nframes s)
   }"

subsection \<open>What the framer puts on the line\<close>

definition flag_bits :: "bool list" where
  "flag_bits = [False, True, True, True, True, True, True, False]"

lemma length_flag_bits [simp]: "length flag_bits = 8"
  by (simp add: flag_bits_def)

text \<open>Zero insertion after every fifth one; \<open>k\<close> ones precede, fewer than five.\<close>

fun stuff :: "nat \<Rightarrow> bool list \<Rightarrow> bool list" where
  "stuff k [] = []"
| "stuff k (b # bs) =
     (if \<not> b then False # stuff 0 bs
      else if k = 4 then True # False # stuff 0 bs
      else True # stuff (Suc k) bs)"

fun ones_run :: "nat \<Rightarrow> bool list \<Rightarrow> nat" where
  "ones_run k [] = k"
| "ones_run k (b # bs) = ones_run (if b \<and> k \<noteq> 4 then Suc k else 0) bs"

lemma stuff_append: "stuff k (xs @ ys) = stuff k xs @ stuff (ones_run k xs) ys"
  by (induction xs arbitrary: k) auto

lemma ones_run_append: "ones_run k (xs @ ys) = ones_run (ones_run k xs) ys"
  by (induction xs arbitrary: k) auto

lemma ones_run_le: "k \<le> 4 \<Longrightarrow> ones_run k xs \<le> 4"
  by (induction xs arbitrary: k) auto

definition fcs_octets :: "u16 list \<Rightarrow> u16 list" where
  "fcs_octets f = [drop_bit 8 (fcs_of f), fcs_of f AND 0xff]"

definition hdlc_line :: "u16 list \<Rightarrow> bool list" where
  "hdlc_line f = flag_bits @ flag_bits @ flag_bits @ stuff 0 (octets_bits (f @ fcs_octets f))"

text \<open>The accumulator ends in exactly \<open>k\<close> ones.\<close>

definition acc_run :: "nat \<Rightarrow> u32 \<Rightarrow> bool" where
  "acc_run k acc \<longleftrightarrow> (\<forall>i < k. bit acc i) \<and> \<not> bit acc k"

lemma acc_run_shift:
  assumes "acc_run k acc" and "k \<le> 4"
  shows "acc_run (if b then Suc k else 0) (push_bit 1 acc OR of_bool b)"
  unfolding acc_run_def bit_shifted using assms by (auto simp: acc_run_def less_Suc_eq_0_disj)

lemma five_ones:
  assumes "acc_run k acc" and "k \<le> 5"
  shows "acc AND 0x1f = (0x1f :: u32) \<longleftrightarrow> k = 5"
proof -
  have m: "(0x1f :: u32) = mask 5" by (simp add: mask_eq_exp_minus_1)
  have "acc AND mask 5 = mask 5 \<longleftrightarrow> (\<forall>i < 5. bit acc i)"
  proof
    assume "acc AND mask 5 = mask 5"
    then have eq: "bit (acc AND mask 5) i = bit (mask 5 :: u32) i" for i by simp
    have "bit acc i" if "i < 5" for i using eq [of i] that by (simp add: bit_and_iff bit_mask_iff)
    then show "\<forall>i < 5. bit acc i" by blast
  next
    assume "\<forall>i < 5. bit acc i"
    then show "acc AND mask 5 = mask 5"
      by (intro bit_word_eqI) (auto simp: bit_and_iff bit_mask_iff)
  qed
  with assms show ?thesis unfolding m by (auto simp: acc_run_def dest: le_neq_implies_less)
qed

lemma hdlc_refill_acc: "hdlc_refill r = Some r' \<Longrightarrow> pr_acc r' = pr_acc r"
  by (auto simp: hdlc_refill_def bind_eq_Some_conv split: if_splits)

interpretation hdlc_src: bit_source "hdlc_bit :: ('m, 'c) pack_regs \<Rightarrow> _"
proof
  fix r r' :: "('m, 'c) pack_regs"
  assume "hdlc_bit r = Some r'"
  then obtain q where "hdlc_refill r = Some q" "pr_acc r' = pr_acc (shift_bit q)"
    by (auto simp: hdlc_bit_def Let_def bind_eq_Some_conv split: if_splits)
  then show "\<exists>b. pr_acc r' = push_bit 1 (pr_acc r) OR of_bool b"
    by (metis pr_acc_shift_bit hdlc_refill_acc)
qed

interpretation hdlc_word: word_source "hdlc_bit :: ('m, 'c) pack_regs \<Rightarrow> _" hdlc_refill "\<lambda>f. f \<noteq> 0"
  by unfold_locales (auto simp: hdlc_bit_def hdlc_refill_def shift_bit_def Let_def)

lemma stuff_length_pos: "bs \<noteq> [] \<Longrightarrow> 0 < length (stuff k bs)"
  by (cases bs) simp_all

text \<open>An octet inside a frame, zeros inserted.\<close>

lemma hdlc_drain:
  assumes "pr_mask r = pend32 j" and "j \<le> 32" and "pr_flagging r = 0" and "acc_run k (pr_acc r)" and "k \<le> 4"
    and "bs = acc_tail j (pr_word r)"
  shows "\<exists>a w. run_bits hdlc_bit (length (stuff k bs)) r =
      Some (r\<lparr>pr_mask := 0, pr_acc := a, pr_word := w\<rparr>, stuff k bs) \<and> acc_run (ones_run k bs) a"
  using assms
proof (induction j arbitrary: r k bs)
  case 0
  then show ?case by (intro exI [of _ "pr_acc r"] exI [of _ "pr_word r"]) simp
next
  case (Suc j)
  have j: "j < 32" using Suc.prems(2) by simp
  have nz: "pr_mask r \<noteq> 0" using Suc.prems(1) pend32_nz [OF j] by simp
  define b where "b = bit (pr_word r) j"
  define a where "a = push_bit 1 (pr_acc r) OR of_bool b"
  have sh: "shift_bit r = r\<lparr>pr_acc := a\<rparr>"
    using and_pend32 [OF j, of "pr_word r"] Suc.prems(1) by (simp add: shift_bit_def a_def b_def of_bool_def)
  have em: "bit a 0 = b" unfolding a_def bit_shifted by simp
  have run: "acc_run (if b then Suc k else 0) a" unfolding a_def using Suc.prems(4,5) by (rule acc_run_shift)
  have five: "a AND 0x1f = 0x1f \<longleftrightarrow> b \<and> k = 4"
    using five_ones [OF run] Suc.prems(5) by (auto split: if_splits)
  have bs: "bs = b # acc_tail j (pr_word r)" using Suc.prems(6) by (simp add: acc_tail_Suc b_def)
  have rf: "hdlc_refill r = Some r" using nz by (simp add: hdlc_refill_def)
  have dm: "drop_bit (Suc 0) (pend32 (Suc j)) = pend32 j" using drop_pend32 [OF j] by simp
  show ?case
  proof (cases "b \<and> k = 4")
    case False
    let ?r = "r\<lparr>pr_acc := a, pr_mask := pend32 j\<rparr>" and ?k = "if b then Suc k else 0"
    have st: "hdlc_bit r = Some ?r"
      using rf sh five False Suc.prems(1,3) dm by (simp add: hdlc_bit_def)
    have "?k \<le> 4" using False Suc.prems(5) by auto
    with Suc.IH [of ?r ?k] j run Suc.prems(3) obtain a' w where
      IH: "run_bits hdlc_bit (length (stuff ?k (acc_tail j (pr_word r)))) ?r =
        Some (?r\<lparr>pr_mask := 0, pr_acc := a', pr_word := w\<rparr>, stuff ?k (acc_tail j (pr_word r)))"
      "acc_run (ones_run ?k (acc_tail j (pr_word r))) a'" by auto
    then show ?thesis
      using st em False by (intro exI [of _ a'] exI [of _ w]) (cases b; simp add: bs emitted_def)
  next
    case True
    let ?w = "pr_word r AND NOT (pend32 (Suc j))"
    let ?r1 = "r\<lparr>pr_acc := a, pr_word := ?w\<rparr>"
    have st1: "hdlc_bit r = Some ?r1"
      using rf sh five True Suc.prems(1,3) by (simp add: hdlc_bit_def)
    have bw: "bit ?w i \<longleftrightarrow> i \<noteq> j \<and> bit (pr_word r) i" for i
      using j by (auto simp: bit_and_iff bit_not_iff bit_pend32 dest: bit_imp_le_length)
    define a2 where "a2 = push_bit 1 a OR of_bool False"
    have sh2: "shift_bit ?r1 = ?r1\<lparr>pr_acc := a2\<rparr>"
      using and_pend32 [OF j, of ?w] bw Suc.prems(1) by (simp add: shift_bit_def a2_def)
    have b2: "\<not> bit a2 0" unfolding a2_def bit_shifted by simp
    then have run2: "acc_run 0 a2" by (simp add: acc_run_def)
    let ?r2 = "r\<lparr>pr_acc := a2, pr_word := ?w, pr_mask := pend32 j\<rparr>"
    have st2: "hdlc_bit ?r1 = Some ?r2"
      using nz sh2 five_ones [OF run2] Suc.prems(1,3) dm by (simp add: hdlc_bit_def hdlc_refill_def)
    have tl: "acc_tail j ?w = acc_tail j (pr_word r)" by (simp add: acc_tail_def bw)
    with Suc.IH [of ?r2 0] j run2 Suc.prems(3) obtain a' w where
      IH: "run_bits hdlc_bit (length (stuff 0 (acc_tail j (pr_word r)))) ?r2 =
        Some (?r2\<lparr>pr_mask := 0, pr_acc := a', pr_word := w\<rparr>, stuff 0 (acc_tail j (pr_word r)))"
      "acc_run (ones_run 0 (acc_tail j (pr_word r))) a'" by auto
    then show ?thesis
      using st1 st2 em b2 True by (intro exI [of _ a'] exI [of _ w]) (simp add: bs emitted_def)
  qed
qed

lemma flag_tail: "acc_tail 8 0x7e = flag_bits" "acc_tail 24 0x7e7e7e = flag_bits @ flag_bits @ flag_bits"
  by (simp_all add: acc_tail_def flag_bits_def upt_rec)

lemma run_bits_acc_tail:
  assumes "run_bits hdlc_bit m r = Some (r', bs)" and "j + m \<le> 32"
  shows "acc_tail (j + m) (pr_acc r') = acc_tail j (pr_acc r) @ bs"
  using assms
proof (induction m arbitrary: j r bs)
  case (Suc m)
  from Suc.prems obtain r1 bs1 where st: "hdlc_bit r = Some r1" and rest: "run_bits hdlc_bit m r1 = Some (r', bs1)"
    and bs: "bs = emitted r1 # bs1" by (auto simp: bind_eq_Some_conv)
  have "acc_tail (Suc j + m) (pr_acc r') = acc_tail (Suc j) (pr_acc r1) @ bs1"
    using Suc.prems(2) by (intro Suc.IH [OF rest]) simp
  then show ?case using hdlc_src.acc_tail_step [OF st, of j] Suc.prems(2) bs by simp
qed simp

lemma pend32_24: "pend32 24 = 0x800000"
  by (simp add: pend32_def)

text \<open>A flag drawn leaves the accumulator ending in a zero.\<close>

lemma hdlc_flags:
  assumes "pr_mask r = 0" and "hdlc_refill r = Some r1" and "pr_mask r1 = pend32 k" and "k = 8 \<or> k = 24"
    and "pr_flagging r1 \<noteq> 0" and "acc_tail k (pr_word r1) = fs @ flag_bits"
  shows "\<exists>a. run_bits hdlc_bit k r = Some (r1\<lparr>pr_mask := 0, pr_acc := a\<rparr>, fs @ flag_bits) \<and> acc_run 0 a"
proof -
  obtain a where a: "run_bits hdlc_bit k r = Some (r1\<lparr>pr_mask := 0, pr_acc := a\<rparr>, fs @ flag_bits)"
    using hdlc_word.draw_word [OF assms(1-3) _ _ assms(5)] assms(4,6) by fastforce
  have "acc_tail (0 + k) a = acc_tail 0 (pr_acc r) @ fs @ flag_bits"
    using run_bits_acc_tail [OF a, of 0] assms(4) by auto
  then have "last (acc_tail k a) = False" by (simp add: flag_bits_def)
  moreover have "acc_tail k a = butlast (acc_tail k a) @ [bit a 0]"
    using assms(4) by (auto simp: acc_tail_def rev_upt_Suc_map numeral_eq_Suc butlast_append)
  ultimately have "\<not> bit a 0" by (metis last_snoc)
  with a show ?thesis by (auto simp: acc_run_def)
qed

text \<open>\<open>nleft\<close> octets of the frame under way are next in the ring.\<close>

lemma hdlc_body:
  assumes "pr_mask r = 0" and "framer_wf (vm_framer (pr_vmi r))"
    and "framer_held (vm_framer (pr_vmi r)) = vs @ ws" and "unat (pr_nleft r) = length vs"
    and "acc_run k (pr_acc r)" and "k \<le> 4"
  shows "\<exists>r'. run_bits hdlc_bit (length (stuff k (octets_bits vs))) r = Some (r', stuff k (octets_bits vs)) \<and>
    drew r r' ws \<and> pr_nleft r' = 0"
  using assms
proof (induction vs arbitrary: r k)
  case Nil
  then show ?case
    by (auto simp: drew_def unat_eq_zero intro: exI [of _ "fr_rd (vm_framer (pr_vmi r))"] with_rd_same [symmetric])
next
  case (Cons v vs)
  let ?fr = "vm_framer (pr_vmi r)"
  obtain rd c where pop: "ring_pop ?fr = Some (with_rd ?fr rd c, v)"
    and wf': "framer_wf (with_rd ?fr rd c)" and h': "framer_held (with_rd ?fr rd c) = vs @ ws"
    using ring_pop_correct [of ?fr v "vs @ ws"] Cons.prems(2,3) by auto
  have nl: "pr_nleft r \<noteq> 0" using Cons.prems(4) by auto
  let ?r = "(pr_set_framer (with_rd ?fr rd c) r)\<lparr>pr_word := ucast v, pr_mask := 0x80, pr_flagging := 0, pr_nleft := pr_nleft r - 1\<rparr>"
  have "fr_count ?fr \<noteq> 0" using Cons.prems(3) framer_held_count [of ?fr] by auto
  then have rf: "hdlc_refill r = Some ?r" using Cons.prems(1) pop nl by (simp add: hdlc_refill_def)
  let ?bs = "stuff k (octet_bits v)"
  have e: "acc_tail 8 (pr_word ?r) = octet_bits v" by (simp add: acc_tail_ucast octet_bits_elem)
  obtain a w where dr: "run_bits hdlc_bit (length ?bs) ?r = Some (?r\<lparr>pr_mask := 0, pr_acc := a, pr_word := w\<rparr>, ?bs)"
    and ar: "acc_run (ones_run k (octet_bits v)) a"
    using hdlc_drain [of ?r 8 k "octet_bits v"] Cons.prems(5,6) e
    by (auto simp: pend32_8 pr_set_framer_def)
  have "hdlc_bit r = hdlc_bit ?r" by (rule hdlc_word.refills [OF Cons.prems(1) rf]) simp
  moreover obtain m where m: "length ?bs = Suc m"
    using stuff_length_pos [of "octet_bits v" k] by (cases "length ?bs") (auto simp: octet_bits_def)
  ultimately have "run_bits hdlc_bit (length ?bs) r = run_bits hdlc_bit (length ?bs) ?r"
    by (simp only: run_bits.simps)
  with dr have st: "run_bits hdlc_bit (length ?bs) r = Some (?r\<lparr>pr_mask := 0, pr_acc := a, pr_word := w\<rparr>, ?bs)" by simp
  let ?r1 = "?r\<lparr>pr_mask := 0, pr_acc := a, pr_word := w\<rparr>"
  have "drew r ?r1 (vs @ ws)" using wf' h' by (auto simp: drew_def pr_set_framer_def)
  moreover have "unat (pr_nleft ?r1) = length vs" using nl Cons.prems(4) by (simp add: unat_pred_u16)
  ultimately obtain r2 where
    "run_bits hdlc_bit (length (stuff (ones_run k (octet_bits v)) (octets_bits vs))) ?r1 =
       Some (r2, stuff (ones_run k (octet_bits v)) (octets_bits vs))" "drew ?r1 r2 ws" "pr_nleft r2 = 0"
    using Cons.IH [of ?r1 "ones_run k (octet_bits v)"] ar ones_run_le [OF Cons.prems(6)]
    by (auto simp: drew_def pr_set_framer_def)
  with run_bits_add [OF st] \<open>drew r ?r1 (vs @ ws)\<close> show ?case
    by (fastforce simp: stuff_append intro: drew_trans)
qed

lemma hdlc_one_frame:
  assumes "pr_mask r = 0" and "framer_wf (vm_framer (pr_vmi r))"
    and "framer_held (vm_framer (pr_vmi r)) = wire_frame f @ ws" and "pr_nleft r = 0" and "length f < 32766"
  shows "\<exists>r'. run_bits hdlc_bit (length (hdlc_line f)) r = Some (r', hdlc_line f) \<and> drew r r' ws \<and> pr_nleft r' = 0"
proof -
  let ?fr = "vm_framer (pr_vmi r)" and ?l = "of_nat (length f + 2) :: u16" and ?vs = "f @ fcs_octets f"
  have held: "framer_held ?fr = ?l # ?vs @ ws" using assms(3) by (simp add: wire_frame_def fcs_octets_def)
  obtain rd c where pop: "ring_pop ?fr = Some (with_rd ?fr rd c, ?l)"
    and wf': "framer_wf (with_rd ?fr rd c)" and h': "framer_held (with_rd ?fr rd c) = ?vs @ ws"
    using ring_pop_correct [OF assms(2) held] by blast
  let ?r = "(pr_set_framer (with_rd ?fr rd c) r)\<lparr>pr_word := 0x7e7e7e, pr_mask := 0x800000, pr_flagging := 1, pr_nleft := ?l\<rparr>"
  have "fr_count ?fr \<noteq> 0" using held framer_held_count [of ?fr] by auto
  then have rf: "hdlc_refill r = Some ?r" using assms(1,4) pop by (simp add: hdlc_refill_def)
  obtain a where st: "run_bits hdlc_bit 24 r = Some (?r\<lparr>pr_mask := 0, pr_acc := a\<rparr>, (flag_bits @ flag_bits) @ flag_bits)"
    and ar: "acc_run 0 a"
    using hdlc_flags [OF assms(1) rf, of 24 "flag_bits @ flag_bits"] flag_tail(2) by (auto simp: pend32_24)
  let ?r1 = "?r\<lparr>pr_mask := 0, pr_acc := a\<rparr>"
  have d: "drew r ?r1 (?vs @ ws)" using wf' h' by (auto simp: drew_def pr_set_framer_def)
  have "unat ?l = length f + 2" using assms(5) by (intro unat_of_nat_u16) simp
  then have "unat (pr_nleft ?r1) = length ?vs" by (simp add: fcs_octets_def)
  then obtain r2 where
    "run_bits hdlc_bit (length (stuff 0 (octets_bits ?vs))) ?r1 = Some (r2, stuff 0 (octets_bits ?vs))"
    "drew ?r1 r2 ws" "pr_nleft r2 = 0"
    using hdlc_body [of ?r1 ?vs ws 0] d ar by (auto simp: drew_def)
  moreover from this(1) have "run_bits hdlc_bit (24 + length (stuff 0 (octets_bits ?vs))) r =
      Some (r2, ((flag_bits @ flag_bits) @ flag_bits) @ stuff 0 (octets_bits ?vs))" by (rule run_bits_add [OF st])
  moreover have "length (hdlc_line f) = 24 + length (stuff 0 (octets_bits ?vs))"
    by (simp add: hdlc_line_def)
  ultimately show ?thesis using drew_trans [OF d] by (auto simp: hdlc_line_def)
qed

lemma drew_refl:
  "pr_mask r = 0 \<Longrightarrow> framer_wf (vm_framer (pr_vmi r)) \<Longrightarrow> drew r r (framer_held (vm_framer (pr_vmi r)))"
  by (auto simp: drew_def intro: exI [of _ "fr_rd (vm_framer (pr_vmi r))"] with_rd_same [symmetric])

lemma hdlc_frames:
  assumes "pr_mask r = 0" and "framer_wf (vm_framer (pr_vmi r))" and "pr_nleft r = 0"
    and "framer_held (vm_framer (pr_vmi r)) = concat (map wire_frame fs)" and "\<forall>f \<in> set fs. length f < 32766"
  shows "\<exists>r'. run_bits hdlc_bit (length (concat (map hdlc_line fs))) r = Some (r', concat (map hdlc_line fs)) \<and>
    drew r r' [] \<and> pr_nleft r' = 0"
  using assms
proof (induction fs arbitrary: r)
  case Nil
  then show ?case using drew_refl [of r] by simp
next
  case (Cons f fs)
  obtain r1 where st: "run_bits hdlc_bit (length (hdlc_line f)) r = Some (r1, hdlc_line f)"
    and d: "drew r r1 (concat (map wire_frame fs))" and "pr_nleft r1 = 0"
    using hdlc_one_frame [OF Cons.prems(1,2), of f "concat (map wire_frame fs)"] Cons.prems(3-5) by auto
  with Cons.IH [of r1] Cons.prems(5) obtain r2 where
    "run_bits hdlc_bit (length (concat (map hdlc_line fs))) r1 = Some (r2, concat (map hdlc_line fs))"
    "drew r1 r2 []" "pr_nleft r2 = 0" by (auto simp: drew_def)
  moreover from this(1) have "run_bits hdlc_bit (length (hdlc_line f) + length (concat (map hdlc_line fs))) r =
      Some (r2, hdlc_line f @ concat (map hdlc_line fs))" by (rule run_bits_add [OF st])
  ultimately show ?case using drew_trans [OF d] by auto
qed

lemma hdlc_idle:
  assumes "pr_mask r = 0" and "framer_wf (vm_framer (pr_vmi r))" and "framer_held (vm_framer (pr_vmi r)) = []"
  shows "\<exists>r'. run_bits hdlc_bit (8 * n) r = Some (r', concat (replicate n flag_bits)) \<and> drew r r' []"
  using assms
proof (induction n arbitrary: r)
  case 0
  then show ?case using drew_refl [of r] by simp
next
  case (Suc n)
  let ?r = "(pr_set_underrun 1 r)\<lparr>pr_word := 0x7e, pr_mask := 0x80, pr_flagging := 1\<rparr>"
  have rf: "hdlc_refill r = Some ?r" using Suc.prems framer_held_count by (auto simp: hdlc_refill_def)
  obtain a where a: "run_bits hdlc_bit 8 r = Some (?r\<lparr>pr_mask := 0, pr_acc := a\<rparr>, flag_bits)"
    using hdlc_flags [OF Suc.prems(1) rf, of 8 "[]"] flag_tail(1) by (auto simp: pend32_8)
  let ?r1 = "?r\<lparr>pr_mask := 0, pr_acc := a\<rparr>"
  have d: "drew r ?r1 []" using Suc.prems
    by (auto simp: drew_def pr_set_underrun_def intro: exI [of _ "fr_rd (vm_framer (pr_vmi r))"] with_rd_same [symmetric])
  then obtain r2 where "run_bits hdlc_bit (8 * n) ?r1 = Some (r2, concat (replicate n flag_bits))" "drew ?r1 r2 []"
    using Suc.IH [of ?r1] by (auto simp: drew_def)
  with a d run_bits_add [of hdlc_bit 8 r ?r1 flag_bits "8 * n"] show ?case
    by (auto intro: drew_trans)
qed

lemma hdlc_stream:
  assumes "pr_mask r = 0" and "framer_wf (vm_framer (pr_vmi r))" and "pr_nleft r = 0"
    and "framer_held (vm_framer (pr_vmi r)) = concat (map wire_frame fs)" and "\<forall>f \<in> set fs. length f < 32766"
    and "m \<le> length (concat (map hdlc_line fs)) + 8 * k"
  shows "\<exists>r'. run_bits hdlc_bit m r = Some (r', take m (concat (map hdlc_line fs) @ concat (replicate k flag_bits)))"
proof -
  let ?l = "length (concat (map hdlc_line fs))"
  obtain r1 where st: "run_bits hdlc_bit ?l r = Some (r1, concat (map hdlc_line fs))" and "drew r r1 []"
    using hdlc_frames [OF assms(1-5)] by blast
  then obtain r2 where "run_bits hdlc_bit (8 * k) r1 = Some (r2, concat (replicate k flag_bits))"
    using hdlc_idle [of r1 k] by (auto simp: drew_def)
  from run_bits_add [OF st this] obtain d where
    "run_bits hdlc_bit (m + d) r = Some (r2, concat (map hdlc_line fs) @ concat (replicate k flag_bits))"
    using assms(6) le_Suc_ex by metis
  then show ?thesis by (rule run_bits_prefix)
qed

subsection \<open>Several calls of the framer\<close>

text \<open>Two sets of locals that differ only in what the framer does not read.\<close>

definition same_tx :: "('m, 'c) pack_regs \<Rightarrow> ('m, 'c) pack_regs \<Rightarrow> bool" where
  "same_tx r q \<longleftrightarrow>
     pr_word r = pr_word q \<and> pr_mask r = pr_mask q \<and> pr_acc r = pr_acc q \<and>
     pr_flagging r = pr_flagging q \<and> pr_nleft r = pr_nleft q \<and>
     fr_fifo (vm_framer (pr_vmi r)) = fr_fifo (vm_framer (pr_vmi q)) \<and>
     fr_fifo_size (vm_framer (pr_vmi r)) = fr_fifo_size (vm_framer (pr_vmi q)) \<and>
     fr_rd (vm_framer (pr_vmi r)) = fr_rd (vm_framer (pr_vmi q)) \<and>
     fr_count (vm_framer (pr_vmi r)) = fr_count (vm_framer (pr_vmi q))"

lemma hdlc_refill_same:
  assumes "hdlc_refill r = Some r1" and "same_tx r q"
  shows "\<exists>q1. hdlc_refill q = Some q1 \<and> same_tx r1 q1"
proof (cases "pr_mask r \<noteq> 0 \<or> fr_count (vm_framer (pr_vmi r)) = 0")
  case True
  then show ?thesis using assms
    by (cases "pr_mask r = 0") (simp_all add: hdlc_refill_def same_tx_def pr_set_underrun_def, auto)
next
  case False
  let ?fr = "vm_framer (pr_vmi r)" and ?fq = "vm_framer (pr_vmi q)"
  from False assms(1) obtain fr x where pop: "ring_pop ?fr = Some (fr, x)"
    by (auto simp: hdlc_refill_def bind_eq_Some_conv split: if_splits)
  then have x: "rd_at (fr_fifo ?fr) (unat (fr_rd ?fr)) = Some x"
    and fr: "fr = ?fr\<lparr>fr_rd := ring_next (fr_fifo_size ?fr) (fr_rd ?fr), fr_count := fr_count ?fr - 1\<rparr>"
    by (auto simp: ring_pop_def bind_eq_Some_conv)
  let ?gq = "?fq\<lparr>fr_rd := ring_next (fr_fifo_size ?fr) (fr_rd ?fr), fr_count := fr_count ?fr - 1\<rparr>"
  have popq: "ring_pop ?fq = Some (?gq, x)" using x assms(2) by (simp add: ring_pop_def same_tx_def)
  show ?thesis
    using False assms pop popq fr
    by (cases "pr_nleft r = 0") (simp_all add: hdlc_refill_def same_tx_def pr_set_framer_def, auto)
qed

lemma hdlc_bit_same:
  assumes "hdlc_bit r = Some r1" and "same_tx r q"
  shows "\<exists>q1. hdlc_bit q = Some q1 \<and> same_tx r1 q1"
proof -
  from assms(1) obtain r0 where r0: "hdlc_refill r = Some r0" by (auto simp: hdlc_bit_def bind_eq_Some_conv)
  then obtain q0 where q0: "hdlc_refill q = Some q0" "same_tx r0 q0" using hdlc_refill_same assms(2) by blast
  have "same_tx (shift_bit r0) (shift_bit q0)" using q0(2) by (simp add: same_tx_def shift_bit_def)
  with r0 q0 assms(1) show ?thesis
    by (auto simp: hdlc_bit_def Let_def same_tx_def split: if_splits)
qed

lemma run_bits_same:
  assumes "run_bits hdlc_bit m r = Some (r1, bs)" and "same_tx r q"
  shows "\<exists>q1. run_bits hdlc_bit m q = Some (q1, bs) \<and> same_tx r1 q1"
  using assms
proof (induction m arbitrary: r q bs)
  case (Suc m)
  then obtain r0 bs0 where "hdlc_bit r = Some r0" and rest: "run_bits hdlc_bit m r0 = Some (r1, bs0)"
    and bs: "bs = emitted r0 # bs0" by (auto simp: bind_eq_Some_conv)
  with Suc.prems(2) obtain q0 where q0: "hdlc_bit q = Some q0" "same_tx r0 q0" using hdlc_bit_same by blast
  with Suc.IH [OF rest] obtain q1 where "run_bits hdlc_bit m q0 = Some (q1, bs0)" "same_tx r1 q1" by blast
  with q0 bs show ?case by (auto simp: emitted_def same_tx_def)
qed auto

lemma hdlc_bit_link: "hdlc_bit r = Some r1 \<Longrightarrow> vm_link (pr_vmi r1) = vm_link (pr_vmi r)"
  by (auto simp: hdlc_bit_def hdlc_refill_def shift_bit_def pr_set_framer_def pr_set_underrun_def Let_def
      bind_eq_Some_conv split: if_splits)

lemma run_bits_link: "run_bits hdlc_bit m r = Some (r1, bs) \<Longrightarrow> vm_link (pr_vmi r1) = vm_link (pr_vmi r)"
proof (induction m arbitrary: r bs)
  case (Suc m)
  then show ?case by (auto simp: bind_eq_Some_conv dest!: hdlc_bit_link)
qed simp

lemma write_no_frame: "faxvmi_write_frame vmi src 0 = Some (vmi, src, 0)"
  by (simp add: faxvmi_write_frame_def)

text \<open>Calls that bring no new frame; each yields its block of elements.\<close>

fun hdlc_tx_calls :: "('m, 'c) faxvmi \<Rightarrow> nat \<Rightarrow> (('m, 'c) faxvmi \<times> u16 list list) option" where
  "hdlc_tx_calls vmi 0 = Some (vmi, [])"
| "hdlc_tx_calls vmi (Suc k) = do {
     (v1, n) \<leftarrow> faxvmi_hdlc_frame vmi [] 0;
     (v2, blocks) \<leftarrow> hdlc_tx_calls v1 k;
     Some (v2, take (unat n) (lk_buf (vm_link v1)) # blocks)
   }"

lemma run_bits_rest:
  "run_bits step (m + n) r = Some (r2, bs) \<Longrightarrow> run_bits step m r = Some (r1, cs) \<Longrightarrow>
   run_bits step n r1 = Some (r2, drop m bs)"
  by (induction m arbitrary: r bs cs) (auto simp: bind_eq_Some_conv)

lemma hdlc_tx_call:
  assumes "width_ok (lk_pack_width (vm_link vmi))" and "fr_pack_bit (vm_framer vmi) = 0"
    and "n = unat (lk_pack_count (vm_link vmi))" and "n \<le> length (lk_buf (vm_link vmi))"
    and "run_bits hdlc_bit (n * unat (lk_pack_width (vm_link vmi))) (load_regs32 vmi) = Some (r, bs)"
  shows "\<exists>v1 es. faxvmi_hdlc_frame vmi [] 0 = Some (v1, lk_pack_count (vm_link vmi)) \<and> length es = n \<and>
    lk_buf (vm_link v1) = es @ drop n (lk_buf (vm_link vmi)) \<and>
    vm_link v1 = (vm_link vmi)\<lparr>lk_buf := lk_buf (vm_link v1)\<rparr> \<and> fr_pack_bit (vm_framer v1) = 0 \<and>
    same_tx r (load_regs32 v1) \<and> concat (map (elem_bits (unat (lk_pack_width (vm_link vmi)))) es) = bs"
proof -
  let ?r = "load_regs32 vmi"
  have v: "pr_vmi ?r = vmi" by (simp add: load_regs32_def Let_def)
  obtain es nout where es: "length es = n" "pack_run hdlc_bit ?r = Some (r, 0, es @ drop n (lk_buf (vm_link vmi)), nout)"
    "concat (map (elem_bits (unat (lk_pack_width (vm_link vmi)))) es) = bs"
    using hdlc_src.pack_run_bits [of ?r n r bs] v assms by auto
  have lk: "vm_link (pr_vmi r) = vm_link vmi" using run_bits_link [OF assms(5)] v by simp
  let ?v1 = "set_residue 0 (hdlc_store r 0 (es @ drop n (lk_buf (vm_link vmi))))"
  have "faxvmi_hdlc_frame vmi [] 0 = Some (?v1, lk_pack_count (vm_link vmi))"
    using es(2) lk by (simp add: faxvmi_hdlc_frame_def write_no_frame hdlc_peek_def)
      (simp add: hdlc_store_def pack_store_def set_residue_def Let_def)
  moreover have "same_tx r (load_regs32 ?v1)"
    by (simp add: same_tx_def load_regs32_def hdlc_store_def pack_store_def set_residue_def Let_def)
  moreover have "vm_link ?v1 = (vm_link vmi)\<lparr>lk_buf := es @ drop n (lk_buf (vm_link vmi))\<rparr>"
    using lk by (simp add: hdlc_store_def pack_store_def set_residue_def Let_def)
  moreover have "fr_pack_bit (vm_framer ?v1) = 0"
    by (simp add: hdlc_store_def pack_store_def set_residue_def Let_def)
  ultimately show ?thesis using es(1,3) by (intro exI [of _ ?v1] exI [of _ es]) simp
qed

lemma hdlc_tx_calls_bits:
  assumes "width_ok (lk_pack_width (vm_link vmi))" and "fr_pack_bit (vm_framer vmi) = 0"
    and "n = unat (lk_pack_count (vm_link vmi))" and "n \<le> length (lk_buf (vm_link vmi))"
    and "w = unat (lk_pack_width (vm_link vmi))"
    and "run_bits hdlc_bit (k * (n * w)) (load_regs32 vmi) = Some (r, bs)"
  shows "\<exists>v' blocks. hdlc_tx_calls vmi k = Some (v', blocks) \<and> length blocks = k \<and>
    (\<forall>b \<in> set blocks. length b = n) \<and> concat (map (elem_bits w) (concat blocks)) = bs"
  using assms
proof (induction k arbitrary: vmi r bs)
  case (Suc k)
  from Suc.prems(6) obtain r1 where r1: "run_bits hdlc_bit (n * w) (load_regs32 vmi) = Some (r1, take (n * w) bs)"
    using run_bits_prefix [of hdlc_bit "n * w" "k * (n * w)" "load_regs32 vmi" r bs] by auto
  obtain v1 es where c: "faxvmi_hdlc_frame vmi [] 0 = Some (v1, lk_pack_count (vm_link vmi))" "length es = n"
    "lk_buf (vm_link v1) = es @ drop n (lk_buf (vm_link vmi))"
    "vm_link v1 = (vm_link vmi)\<lparr>lk_buf := lk_buf (vm_link v1)\<rparr>" "fr_pack_bit (vm_framer v1) = 0"
    "same_tx r1 (load_regs32 v1)" "concat (map (elem_bits w) es) = take (n * w) bs"
    using hdlc_tx_call [OF Suc.prems(1-4)] r1 Suc.prems(5) by blast
  have "run_bits hdlc_bit (n * w + k * (n * w)) (load_regs32 vmi) = Some (r, bs)" using Suc.prems(6) by simp
  from run_bits_rest [OF this r1] have rest: "run_bits hdlc_bit (k * (n * w)) r1 = Some (r, drop (n * w) bs)" .
  obtain q where "run_bits hdlc_bit (k * (n * w)) (load_regs32 v1) = Some (q, drop (n * w) bs)"
    using run_bits_same [OF rest c(6)] by blast
  moreover have "lk_pack_width (vm_link v1) = lk_pack_width (vm_link vmi)"
    "lk_pack_count (vm_link v1) = lk_pack_count (vm_link vmi)" by (subst c(4), simp)+
  moreover have "n \<le> length (lk_buf (vm_link v1))" using c(2,3) by simp
  ultimately obtain v' blocks where "hdlc_tx_calls v1 k = Some (v', blocks)" "length blocks = k"
    "\<forall>b \<in> set blocks. length b = n" "concat (map (elem_bits w) (concat blocks)) = drop (n * w) bs"
    using Suc.IH [of v1] Suc.prems(1,3,5) c(5) by auto
  with c Suc.prems(3) show ?case by auto
qed simp

end
