(* ===== verification/VmiHdlcRx.thy ===== *)
theory VmiHdlcRx
  imports VmiHdlc
begin

unbundle bit_operations_syntax

text \<open>
  The receiving side of the HDLC codec and the two sides together. \<open>rx_run\<close> drives the
  receiver over a bit string and collects the frames it reports; the lemmas follow it
  through data, flags and the end of a frame. The properties at the end say that the frames
  queued at a transmitter come out of a receiver unchanged, however the line is cut into
  elements and calls, and what the repair pass may accept.
\<close>

fun rx_run :: "u16 \<Rightarrow> hdlc_rx \<Rightarrow> bool list \<Rightarrow> (hdlc_rx \<times> rx_event list) option" where
  "rx_run mf p [] = Some (p, [])"
| "rx_run mf p (b # bs) = do {
     (p1, e) \<leftarrow> hdlc_rx_bit mf p b;
     (p2, es) \<leftarrow> rx_run mf p1 bs;
     Some (p2, (if e = Quiet then es else e # es))
   }"

lemma rx_run_append:
  "rx_run mf p (xs @ ys) = do {
     (p1, es) \<leftarrow> rx_run mf p xs;
     (p2, fs) \<leftarrow> rx_run mf p1 ys;
     Some (p2, es @ fs)
   }"
proof (induction xs arbitrary: p)
  case Nil
  then show ?case by (simp split: bind_splits)
next
  case (Cons b xs)
  then show ?case by (auto split: bind_splits)
qed

lemma rx_run_append_Some:
  "rx_run mf p xs = Some (p1, es) \<Longrightarrow> rx_run mf p1 ys = Some (p2, fs) \<Longrightarrow>
   rx_run mf p (xs @ ys) = Some (p2, es @ fs)"
  by (simp add: rx_run_append)

lemma rx_run_prefix:
  "rx_run mf p (xs @ ys) = Some (p2, gs) \<Longrightarrow>
   \<exists>p1 es fs. rx_run mf p xs = Some (p1, es) \<and> rx_run mf p1 ys = Some (p2, fs) \<and> gs = es @ fs"
  by (auto simp: rx_run_append bind_eq_Some_conv)

subsection \<open>Data\<close>

text \<open>Shift a bit into the octet under assembly and keep the octet when it is whole.\<close>

definition rx_push :: "hdlc_rx \<Rightarrow> bool \<Rightarrow> hdlc_rx option" where
  "rx_push p b =
     (let p = p\<lparr>hr_acc := push_bit 1 (hr_acc p) OR of_bool b, hr_bit := hr_bit p + 1\<rparr>
      in if hr_bit p = 8 then hdlc_octet p else Some p)"

lemma hdlc_rx_bit_push:
  assumes "hr_ones p \<noteq> 6" and "hr_ones p = 5 \<longrightarrow> b" and "rx_push p b = Some q"
  shows "hdlc_rx_bit mf p b = Some (q\<lparr>hr_ones := (if b then hr_ones q + 1 else 0)\<rparr>, Quiet)"
  using assms by (auto simp: hdlc_rx_bit_def rx_push_def Let_def of_bool_def)

lemma rx_push_part:
  assumes "unat (hr_bit p) < 7"
  shows "\<exists>a. rx_push p b = Some (p\<lparr>hr_acc := a, hr_bit := hr_bit p + 1\<rparr>) \<and>
    unat (hr_bit p + 1) = Suc (unat (hr_bit p)) \<and>
    acc_tail (Suc (unat (hr_bit p))) a = acc_tail (unat (hr_bit p)) (hr_acc p) @ [b]"
proof -
  have u: "unat (hr_bit p + 1) = Suc (unat (hr_bit p))" using assms by (simp add: unat_succ_u16)
  have "hr_bit p + 1 \<noteq> 8"
  proof
    assume "hr_bit p + 1 = 8"
    then have "Suc (unat (hr_bit p)) = 8" using u by simp
    with assms show False by simp
  qed
  then have "rx_push p b = Some (p\<lparr>hr_acc := push_bit 1 (hr_acc p) OR of_bool b, hr_bit := hr_bit p + 1\<rparr>)"
    by (simp add: rx_push_def)
  moreover have "acc_tail (Suc (unat (hr_bit p))) (push_bit 1 (hr_acc p) OR of_bool b) =
      acc_tail (unat (hr_bit p)) (hr_acc p) @ [b]"
    using assms by (intro acc_tail_shift) simp
  ultimately show ?thesis using u by blast
qed

lemma rx_push_octet:
  assumes "unat (hr_bit p) = 7" and "hr_flags_wanted p = 0" and "unat (hr_flen p) < length (hr_frame p)"
    and "unat (hr_flen p) < unat (hr_frame_size p)" and "unat (hr_flen p) + 1 < 32768"
  shows "\<exists>a. rx_push p b = Some (p\<lparr>hr_acc := a, hr_bit := 0, hr_in_frame := 1,
      hr_frame := (hr_frame p)[unat (hr_flen p) := octet_val (acc_tail 7 (hr_acc p) @ [b])], hr_flen := hr_flen p + 1\<rparr>)"
proof -
  define a where "a = push_bit 1 (hr_acc p) OR of_bool b"
  have e8: "hr_bit p + 1 = 8"
    using assms(1) by (simp add: u16_eq_nat_iff unat_succ_u16)
  have "acc_tail (Suc 7) a = acc_tail 7 (hr_acc p) @ [b]" unfolding a_def by (rule acc_tail_shift) simp
  then have v: "ucast (a AND 0xff) = octet_val (acc_tail 7 (hr_acc p) @ [b])"
    unfolding octet_val_acc by (simp add: numeral_eq_Suc)
  have s: "sint (hr_flen p) = int (unat (hr_flen p))"
    using assms(5) sint_of_nat_u16 [of "unat (hr_flen p)"] by simp
  have "int (unat (hr_flen p)) < uint (hr_frame_size p)"
    using assms(4) by (simp add: uint_nat del: of_nat_unat)
  then have "rx_push p b = Some (p\<lparr>hr_acc := a, hr_bit := 0, hr_in_frame := 1,
      hr_frame := (hr_frame p)[unat (hr_flen p) := ucast (a AND 0xff)], hr_flen := hr_flen p + 1\<rparr>)"
    unfolding rx_push_def a_def [symmetric] using e8 s assms(2,3) by (simp add: hdlc_octet_def mem_simps Let_def)
  then show ?thesis using v by auto
qed

text \<open>What the receiver has made of data bits, the inserted zeros already gone.\<close>

definition rx_after :: "hdlc_rx \<Rightarrow> bool list \<Rightarrow> nat \<Rightarrow> hdlc_rx \<Rightarrow> bool" where
  "rx_after p bs k p' \<longleftrightarrow>
     (let content = acc_tail (unat (hr_bit p)) (hr_acc p) @ bs; out = octets_of content; n = unat (hr_flen p)
      in hr_ones p' = of_nat k \<and> unat (hr_bit p') = length content mod 8 \<and>
         hr_frame p' = take n (hr_frame p) @ out @ drop (n + length out) (hr_frame p) \<and>
         unat (hr_flen p') = n + length out \<and> hr_in_frame p' = (if out = [] then hr_in_frame p else 1) \<and>
         hr_flags_wanted p' = 0 \<and> hr_frame_size p' = hr_frame_size p)"

lemma rx_after_push_part:
  assumes "unat (hr_bit p) < 7" and "hr_flags_wanted p = 0" and "rx_push p b = Some q"
    and "rx_after (q\<lparr>hr_ones := x\<rparr>) bs k p'"
  shows "rx_after p (b # bs) k p'"
proof -
  obtain a where "q = p\<lparr>hr_acc := a, hr_bit := hr_bit p + 1\<rparr>" "unat (hr_bit p + 1) = Suc (unat (hr_bit p))"
    "acc_tail (Suc (unat (hr_bit p))) a = acc_tail (unat (hr_bit p)) (hr_acc p) @ [b]"
    using rx_push_part [OF assms(1), of b] assms(3) by auto
  with assms(4) show ?thesis by (simp add: rx_after_def Let_def)
qed

lemma rx_after_push_octet:
  assumes "unat (hr_bit p) = 7" and "rx_push p b = Some q"
    and "q = p\<lparr>hr_acc := a, hr_bit := 0, hr_in_frame := 1,
      hr_frame := (hr_frame p)[unat (hr_flen p) := octet_val (acc_tail 7 (hr_acc p) @ [b])], hr_flen := hr_flen p + 1\<rparr>"
    and "unat (hr_flen p) < length (hr_frame p)" and "unat (hr_flen p) + 1 < 32768"
    and "rx_after (q\<lparr>hr_ones := x\<rparr>) bs k p'"
  shows "rx_after p (b # bs) k p'"
proof -
  let ?n = "unat (hr_flen p)" and ?v = "octet_val (acc_tail 7 (hr_acc p) @ [b])"
  have n1: "unat (hr_flen p + 1) = Suc ?n" using assms(5) by (simp add: unat_succ_u16)
  have oc: "octets_of (acc_tail 7 (hr_acc p) @ b # bs) = ?v # octets_of bs"
    using octets_of_octet [of "acc_tail 7 (hr_acc p) @ [b]" bs] by simp
  have tk: "take (Suc ?n) ((hr_frame p)[?n := ?v]) = take ?n (hr_frame p) @ [?v]"
    using assms(4) by (simp add: take_Suc_conv_app_nth)
  show ?thesis
    using assms(1,6) n1 oc tk unfolding assms(3)
    by (simp add: rx_after_def Let_def split: if_splits)
qed

lemma hdlc_rx_skip: "hr_ones p = 5 \<Longrightarrow> hdlc_rx_bit mf p False = Some (p\<lparr>hr_ones := 0\<rparr>, Quiet)"
  by (simp add: hdlc_rx_bit_def)

lemma small_of_nat_u16: "k \<le> 4 \<Longrightarrow> (of_nat k :: u16) \<noteq> 5 \<and> (of_nat k :: u16) \<noteq> 6 \<and> (of_nat k + 1 = (5 :: u16) \<longleftrightarrow> k = 4)"
proof -
  assume k: "k \<le> 4"
  then have u: "unat (of_nat k :: u16) = k" "unat (of_nat k + 1 :: u16) = Suc k"
    by (simp_all add: unat_of_nat_u16 unat_succ_u16)
  then show ?thesis using k by (auto simp: u16_eq_nat_iff)
qed

text \<open>One data bit and, after the fifth one, the zero that follows it.\<close>

lemma rx_data_bit:
  assumes "hr_ones p = of_nat k" and "k \<le> 4" and "rx_push p b = Some q" and "hr_ones q = hr_ones p"
  shows "rx_run mf p (stuff k [b]) = Some (q\<lparr>hr_ones := of_nat (if b \<and> k \<noteq> 4 then Suc k else 0)\<rparr>, [])"
proof -
  have st: "hdlc_rx_bit mf p b = Some (q\<lparr>hr_ones := (if b then of_nat k + 1 else 0)\<rparr>, Quiet)"
    using hdlc_rx_bit_push [of p b q mf] small_of_nat_u16 [OF assms(2)] assms by auto
  show ?thesis
  proof (cases "b \<and> k = 4")
    case True
    let ?q = "q\<lparr>hr_ones := of_nat k + 1\<rparr>"
    have "hr_ones ?q = 5" using True by simp
    from hdlc_rx_skip [OF this] True st show ?thesis by simp
  qed (use st in \<open>auto simp: add.commute\<close>)
qed

lemma rx_push_keeps: "rx_push p b = Some q \<Longrightarrow> hr_flags_wanted p = 0 \<Longrightarrow>
    hr_ones q = hr_ones p \<and> hr_flags_wanted q = 0 \<and> hr_frame_size q = hr_frame_size p \<and> length (hr_frame q) = length (hr_frame p)"
  by (auto simp: rx_push_def hdlc_octet_def Let_def bind_eq_Some_conv wr_at_Some_iff split: if_splits)

lemma stuff_Cons: "stuff k (b # bs) = stuff k [b] @ stuff (if b \<and> k \<noteq> 4 then Suc k else 0) bs"
  by simp

definition rx_room :: "hdlc_rx \<Rightarrow> bool list \<Rightarrow> bool" where
  "rx_room p bs \<longleftrightarrow>
     (let n = unat (hr_flen p) + (unat (hr_bit p) + length bs) div 8
      in n \<le> length (hr_frame p) \<and> n \<le> unat (hr_frame_size p) \<and> n < 32768)"

lemma rx_data:
  assumes "hr_flags_wanted p = 0" and "hr_ones p = of_nat k" and "k \<le> 4" and "unat (hr_bit p) < 8" and "rx_room p bs"
  shows "\<exists>p'. rx_run mf p (stuff k bs) = Some (p', []) \<and> rx_after p bs (ones_run k bs) p'"
  using assms
proof (induction bs arbitrary: p k)
  case Nil
  then show ?case by (simp add: rx_after_def Let_def octets_of_short)
next
  case (Cons b bs)
  let ?j = "unat (hr_bit p)" and ?k = "if b \<and> k \<noteq> 4 then Suc k else 0"
  have k: "?k \<le> 4" using Cons.prems(3) by auto
  show ?case
  proof (cases "?j < 7")
    case True
    obtain a where q: "rx_push p b = Some (p\<lparr>hr_acc := a, hr_bit := hr_bit p + 1\<rparr>)"
      and u: "unat (hr_bit p + 1) = Suc ?j" using rx_push_part [OF True, of b] by blast
    let ?q = "p\<lparr>hr_acc := a, hr_bit := hr_bit p + 1\<rparr>"
    let ?q1 = "?q\<lparr>hr_ones := of_nat ?k\<rparr>"
    have st: "rx_run mf p (stuff k [b]) = Some (?q1, [])" using rx_data_bit [OF Cons.prems(2,3) q] by simp
    have "\<exists>p'. rx_run mf ?q1 (stuff ?k bs) = Some (p', []) \<and> rx_after ?q1 bs (ones_run ?k bs) p'"
      using True k u Cons.prems(1,5) by (intro Cons.IH) (simp_all add: rx_room_def Let_def)
    then show ?thesis
      using rx_run_append_Some [OF st] rx_after_push_part [OF True Cons.prems(1) q]
      by (subst stuff_Cons) fastforce
  next
    case False
    then have j7: "?j = 7" using Cons.prems(4) by simp
    then have "(?j + length (b # bs)) div 8 = Suc (length bs div 8)" by simp
    then have room: "unat (hr_flen p) < length (hr_frame p)" "unat (hr_flen p) < unat (hr_frame_size p)"
      "unat (hr_flen p) + 1 < 32768"
      using Cons.prems(5) by (auto simp: rx_room_def Let_def)
    let ?f = "\<lambda>a. p\<lparr>hr_acc := a, hr_bit := 0, hr_in_frame := 1,
      hr_frame := (hr_frame p)[unat (hr_flen p) := octet_val (acc_tail 7 (hr_acc p) @ [b])], hr_flen := hr_flen p + 1\<rparr>"
    obtain a where q: "rx_push p b = Some (?f a)"
      using rx_push_octet [OF j7 Cons.prems(1) room] by blast
    let ?q1 = "(?f a)\<lparr>hr_ones := of_nat ?k\<rparr>"
    have st: "rx_run mf p (stuff k [b]) = Some (?q1, [])" using rx_data_bit [OF Cons.prems(2,3) q] by simp
    have "unat (hr_flen p + 1) = Suc (unat (hr_flen p))" using room(3) by (simp add: unat_succ_u16)
    then have "\<exists>p'. rx_run mf ?q1 (stuff ?k bs) = Some (p', []) \<and> rx_after ?q1 bs (ones_run ?k bs) p'"
      using j7 k Cons.prems(1,5) div_add_self1 [of 8 "length bs"]
      by (intro Cons.IH) (simp_all add: rx_room_def Let_def)
    then show ?thesis
      using rx_run_append_Some [OF st] rx_after_push_octet [OF j7 q refl room(1,3)]
      by (subst stuff_Cons) fastforce
  qed
qed

subsection \<open>Flags\<close>

text \<open>Seven bits of a flag go into the assembly, then its closing zero is seen with six ones before it.\<close>

definition rx_close :: "u16 \<Rightarrow> hdlc_rx \<Rightarrow> (hdlc_rx \<times> rx_event) option" where
  "rx_close mf p = do {
     (p, e) \<leftarrow> (if hr_flags_wanted p \<noteq> 0 then Some (p\<lparr>hr_flags_wanted := hr_flags_wanted p - 1\<rparr>, Quiet)
               else if hr_in_frame p = 0 then Some (p, Quiet) else hdlc_emit mf p);
     Some (p\<lparr>hr_in_frame := 0, hr_bit := 0, hr_ones := 0\<rparr>, e)
   }"

lemma hdlc_rx_close: "hr_ones p = 6 \<Longrightarrow> hdlc_rx_bit mf p False = rx_close mf p"
  by (auto simp: hdlc_rx_bit_def rx_close_def split: bind_splits)

text \<open>While flags are wanted no octet is kept, so the bits before a flag leave no trace but in
  the assembly counters.\<close>

lemma rx_push_unsynced:
  assumes "hr_flags_wanted p \<noteq> 0"
  shows "\<exists>a c. rx_push p b = Some (p\<lparr>hr_acc := a, hr_bit := c\<rparr>)"
  using assms by (auto simp: rx_push_def hdlc_octet_def Let_def)

lemma rx_push_any:
  assumes "hr_flags_wanted p \<noteq> 0 \<or> unat (hr_bit p) < 7"
  shows "\<exists>a c. rx_push p b = Some (p\<lparr>hr_acc := a, hr_bit := c\<rparr>) \<and>
    (unat (hr_bit p) < 7 \<longrightarrow> unat c = Suc (unat (hr_bit p)))"
proof (cases "unat (hr_bit p) < 7")
  case True
  then show ?thesis using rx_push_part [of p b] by auto
next
  case False
  then show ?thesis using rx_push_unsynced [of p b] assms by auto
qed

lemma rx_ones:
  assumes "hr_flags_wanted p \<noteq> 0 \<or> unat (hr_bit p) + n \<le> 7" and "hr_ones p = of_nat k" and "k + n \<le> 6"
  shows "\<exists>a c. rx_run mf p (replicate n True) = Some (p\<lparr>hr_acc := a, hr_bit := c, hr_ones := of_nat (k + n)\<rparr>, [])"
  using assms
proof (induction n arbitrary: p k)
  case 0
  then show ?case by (intro exI [of _ "hr_acc p"] exI [of _ "hr_bit p"]) simp
next
  case (Suc n)
  obtain a c where q: "rx_push p True = Some (p\<lparr>hr_acc := a, hr_bit := c\<rparr>)"
    and c: "unat (hr_bit p) < 7 \<longrightarrow> unat c = Suc (unat (hr_bit p))"
    using rx_push_any [of p True] Suc.prems(1) by auto
  have "unat (of_nat k :: u16) = k" using Suc.prems(3) by (intro unat_of_nat_u16) simp
  then have "hr_ones p \<noteq> 6" using Suc.prems(2,3) by (auto simp: u16_eq_nat_iff)
  then have st: "hdlc_rx_bit mf p True = Some (p\<lparr>hr_acc := a, hr_bit := c, hr_ones := of_nat (Suc k)\<rparr>, Quiet)"
    using hdlc_rx_bit_push [OF _ _ q] Suc.prems(2) by (simp add: add.commute)
  let ?p = "p\<lparr>hr_acc := a, hr_bit := c, hr_ones := of_nat (Suc k)\<rparr>"
  have "\<exists>a c. rx_run mf ?p (replicate n True) = Some (?p\<lparr>hr_acc := a, hr_bit := c, hr_ones := of_nat (Suc k + n)\<rparr>, [])"
    using Suc.prems(1,3) c by (intro Suc.IH) auto
  then show ?case using st by auto
qed

lemma rx_flag:
  assumes "hr_flags_wanted p \<noteq> 0 \<or> hr_bit p = 0" and "hr_ones p = of_nat k" and "k \<le> 4"
  shows "\<exists>a c. rx_run mf p flag_bits = map_option (\<lambda>(p', e). (p', if e = Quiet then [] else [e]))
    (rx_close mf (p\<lparr>hr_acc := a, hr_bit := c, hr_ones := 6\<rparr>))"
proof -
  obtain a c where q: "rx_push p False = Some (p\<lparr>hr_acc := a, hr_bit := c\<rparr>)"
    and c: "unat (hr_bit p) < 7 \<longrightarrow> unat c = Suc (unat (hr_bit p))"
    using rx_push_any [of p False] assms(1) by auto
  let ?p = "p\<lparr>hr_acc := a, hr_bit := c, hr_ones := 0\<rparr>"
  have st: "hdlc_rx_bit mf p False = Some (?p, Quiet)"
    using hdlc_rx_bit_push [OF _ _ q] small_of_nat_u16 [OF assms(3)] assms(2) by simp
  obtain a2 c2 where ones: "rx_run mf ?p (replicate 6 True) =
      Some (?p\<lparr>hr_acc := a2, hr_bit := c2, hr_ones := of_nat (0 + 6)\<rparr>, [])"
    using rx_ones [of ?p 6 0 mf] assms(1) c by auto
  let ?p2 = "p\<lparr>hr_acc := a2, hr_bit := c2, hr_ones := 6\<rparr>"
  have six: "rx_run mf p (False # replicate 6 True) = Some (?p2, [])" using st ones by simp
  have fb: "flag_bits = (False # replicate 6 True) @ [False]" by (simp add: flag_bits_def numeral_eq_Suc)
  have "rx_run mf p flag_bits = rx_run mf ?p2 [False]"
    unfolding fb rx_run_append six by (simp split: bind_splits)
  then have "rx_run mf p flag_bits = map_option (\<lambda>(p', e). (p', if e = Quiet then [] else [e])) (rx_close mf ?p2)"
    using hdlc_rx_close [of ?p2 mf] by (cases "rx_close mf ?p2") auto
  then show ?thesis by blast
qed

text \<open>A synchronised receiver between frames, its assembly buffer empty.\<close>

definition rx_idle :: "hdlc_rx \<Rightarrow> bool" where
  "rx_idle p \<longleftrightarrow> hr_flags_wanted p = 0 \<and> hr_bit p = 0 \<and> hr_in_frame p = 0 \<and> hr_flen p = 0 \<and> hr_ones p = 0"

lemma rx_flag_sync:
  assumes "hr_flags_wanted p \<noteq> 0" and "hr_ones p = of_nat k" and "k \<le> 4"
  shows "\<exists>a. rx_run mf p flag_bits =
    Some (p\<lparr>hr_acc := a, hr_flags_wanted := hr_flags_wanted p - 1, hr_in_frame := 0, hr_bit := 0, hr_ones := 0\<rparr>, [])"
  using rx_flag [of p k mf] assms by (auto simp: rx_close_def)

lemma rx_flag_idle:
  assumes "rx_idle p"
  shows "\<exists>a. rx_run mf p flag_bits = Some (p\<lparr>hr_acc := a\<rparr>, [])"
  using rx_flag [of p 0 mf] assms by (cases p) (auto simp: rx_close_def rx_idle_def)

lemma rx_flags_idle:
  "rx_idle p \<Longrightarrow> \<exists>a. rx_run mf p (concat (replicate n flag_bits)) = Some (p\<lparr>hr_acc := a\<rparr>, [])"
proof (induction n arbitrary: p)
  case 0
  then show ?case by (intro exI [of _ "hr_acc p"]) simp
next
  case (Suc n)
  then obtain a where a: "rx_run mf p flag_bits = Some (p\<lparr>hr_acc := a\<rparr>, [])" using rx_flag_idle by blast
  with Suc.IH [of "p\<lparr>hr_acc := a\<rparr>"] Suc.prems rx_run_append_Some [OF a] show ?case
    by (fastforce simp: rx_idle_def)
qed

subsection \<open>A frame\<close>

lemma rd_n_take: "i + n \<le> length xs \<Longrightarrow> rd_n xs i n = Some (take n (drop i xs))"
proof (induction n arbitrary: i)
  case (Suc n)
  then have "drop i xs = xs ! i # drop (Suc i) xs" by (simp add: Cons_nth_drop_Suc)
  with Suc show ?case by (simp add: mem_simps)
qed simp

lemma hdlc_check_good:
  "faxvmi_gen_fcs16 frame flen = Some FAXVMI_FCS16_GOOD \<Longrightarrow> hdlc_check frame flen = Some (frame, flen)"
  by (simp add: hdlc_check_def)

lemma hdlc_emit_good:
  assumes "faxvmi_gen_fcs16 (hr_frame p) (hr_flen p) = Some FAXVMI_FCS16_GOOD"
    and "unat (hr_flen p) \<le> length (hr_frame p)" and "unat (hr_flen p) < unat mf" and "unat (hr_flen p) < 32768"
  shows "hdlc_emit mf p = Some (p\<lparr>hr_flen := 0\<rparr>, Frame (hr_flen p # take (unat (hr_flen p)) (hr_frame p)))"
proof -
  have s: "sint (hr_flen p) = int (unat (hr_flen p))"
    using assms(4) sint_of_nat_u16 [of "unat (hr_flen p)"] by simp
  moreover have "int (unat (hr_flen p)) < uint mf" using assms(3) by (simp add: uint_nat del: of_nat_unat)
  moreover have "rd_n (hr_frame p) 0 (unat (hr_flen p)) = Some (take (unat (hr_flen p)) (hr_frame p))"
    using rd_n_take [of 0 "unat (hr_flen p)" "hr_frame p"] assms(2) by simp
  ultimately show ?thesis
    using hdlc_check_good [OF assms(1)] by (cases p) (simp add: hdlc_emit_def)
qed

text \<open>The frame as the receiver hands it on: the octets with the check sequence behind them.\<close>

definition rx_frame :: "u16 list \<Rightarrow> u16 list" where
  "rx_frame f = f @ fcs_octets f"

definition frame_fits :: "u16 \<Rightarrow> u16 list \<Rightarrow> hdlc_rx \<Rightarrow> bool" where
  "frame_fits mf f p \<longleftrightarrow>
     length f + 2 \<le> length (hr_frame p) \<and> length f + 2 \<le> unat (hr_frame_size p) \<and>
     length f + 2 < unat mf \<and> length f + 2 < 32768 \<and> (\<forall>v \<in> set f. v AND 0xff = v)"

lemma length_rx_frame [simp]: "length (rx_frame f) = length f + 2"
  by (simp add: rx_frame_def fcs_octets_def)

lemma fcs_octets_octets: "\<forall>v \<in> set (fcs_octets f). v AND 0xff = v"
proof -
  have m: "(0xff :: u16) = mask 8" by (simp add: mask_eq_exp_minus_1)
  have "drop_bit 8 w AND 0xff = drop_bit 8 w" "(w AND 0xff) AND 0xff = w AND 0xff" for w :: u16
    by (rule bit_word_eqI; unfold m bit_and_iff bit_mask_iff bit_drop_bit_eq; auto dest: bit_imp_le_length)+
  then show ?thesis by (simp add: fcs_octets_def)
qed

lemma octets_of_exact:
  assumes "\<forall>v \<in> set vs. v AND 0xff = v"
  shows "octets_of (octets_bits vs) = vs"
proof -
  have "octets_of (octets_bits vs @ []) = map (\<lambda>v. v AND 0xff) vs @ octets_of []"
    by (rule octets_of_octets)
  with assms show ?thesis by (simp add: octets_of_short map_idI)
qed

lemma length_octets_bits [simp]: "length (octets_bits vs) = 8 * length vs"
  by (induction vs) simp_all

lemma rx_frame_body:
  assumes "rx_idle p" and "frame_fits mf f p"
  shows "\<exists>p' k. rx_run mf p (stuff 0 (octets_bits (f @ fcs_octets f))) = Some (p', []) \<and>
    hr_ones p' = of_nat k \<and> k \<le> 4 \<and> hr_bit p' = 0 \<and> hr_flags_wanted p' = 0 \<and> hr_in_frame p' = 1 \<and>
    hr_flen p' = of_nat (length f + 2) \<and> take (length f + 2) (hr_frame p') = rx_frame f \<and>
    length (hr_frame p') = length (hr_frame p) \<and> hr_frame_size p' = hr_frame_size p"
proof -
  let ?vs = "f @ fcs_octets f" and ?bs = "octets_bits (f @ fcs_octets f)"
  have l: "length ?vs = length f + 2" by (simp add: fcs_octets_def)
  have oct: "octets_of ?bs = ?vs"
    using assms(2) fcs_octets_octets [of f] by (intro octets_of_exact) (auto simp: frame_fits_def)
  have len: "length ?bs = 8 * length ?vs" by (rule length_octets_bits)
  have "rx_room p ?bs"
    using assms unfolding rx_room_def Let_def len l by (simp add: rx_idle_def frame_fits_def)
  then obtain p' where run: "rx_run mf p (stuff 0 ?bs) = Some (p', [])"
    and af: "rx_after p ?bs (ones_run 0 ?bs) p'"
    using rx_data [of p 0 ?bs mf] assms(1) by (auto simp: rx_idle_def)
  have p0: "unat (hr_bit p) = 0" "unat (hr_flen p) = 0" using assms(1) by (simp_all add: rx_idle_def)
  have af': "hr_ones p' = of_nat (ones_run 0 ?bs)" "unat (hr_bit p') = 0"
    "hr_frame p' = ?vs @ drop (length ?vs) (hr_frame p)" "unat (hr_flen p') = length ?vs"
    "hr_in_frame p' = 1" "hr_flags_wanted p' = 0" "hr_frame_size p' = hr_frame_size p"
    using af l unfolding rx_after_def Let_def p0 acc_tail_0 append_Nil oct len by (auto split: if_splits)
  have "hr_flen p' = of_nat (length f + 2)" using af'(4) l by (metis of_nat_unat_u16)
  moreover have "hr_bit p' = 0" using af'(2) by (simp add: unat_eq_zero)
  moreover have "take (length f + 2) (hr_frame p') = rx_frame f" unfolding af'(3) rx_frame_def using l by simp
  moreover have "length (hr_frame p') = length (hr_frame p)"
    unfolding af'(3) using l assms(2) unfolding frame_fits_def by simp linarith
  ultimately show ?thesis
    using run af'(1,5-7) ones_run_le [of 0 ?bs] by blast
qed

lemma rx_frame_residue:
  assumes "take (length f + 2) frame = rx_frame f" and "length f + 2 < 65536"
  shows "faxvmi_gen_fcs16 frame (of_nat (length f + 2)) = Some FAXVMI_FCS16_GOOD"
proof -
  have u: "unat (of_nat (length f) :: u16) = length f" using assms(2) by (intro unat_of_nat_u16) simp
  have "faxvmi_gen_fcs16 f (of_nat (length f)) = Some (fcs_of f)"
    using gen_fcs16_prefix [OF u, of "[]"] by simp
  moreover have "take (length f + 2) frame = take (length f) f @ [drop_bit 8 (fcs_of f), fcs_of f AND 0xff]"
    using assms(1) by (simp add: rx_frame_def fcs_octets_def)
  ultimately show ?thesis
    using gen_fcs16_residue [of f "length f" "fcs_of f" frame] assms(2) by (simp add: FAXVMI_FCS16_GOOD_def)
qed

text \<open>The body of a frame and the flag that closes it.\<close>

lemma rx_one_frame:
  assumes "rx_idle p" and "frame_fits mf f p"
  shows "\<exists>p'. rx_run mf p (stuff 0 (octets_bits (f @ fcs_octets f)) @ flag_bits) =
      Some (p', [Frame (of_nat (length f + 2) # rx_frame f)]) \<and> rx_idle p' \<and>
    length (hr_frame p') = length (hr_frame p) \<and> hr_frame_size p' = hr_frame_size p"
proof -
  obtain p1 k where run: "rx_run mf p (stuff 0 (octets_bits (f @ fcs_octets f))) = Some (p1, [])"
    and p1: "hr_ones p1 = of_nat k" "k \<le> 4" "hr_bit p1 = 0" "hr_flags_wanted p1 = 0" "hr_in_frame p1 = 1"
      "hr_flen p1 = of_nat (length f + 2)" "take (length f + 2) (hr_frame p1) = rx_frame f"
      "length (hr_frame p1) = length (hr_frame p)" "hr_frame_size p1 = hr_frame_size p"
    using rx_frame_body [OF assms] by blast
  obtain a c where fl: "rx_run mf p1 flag_bits = map_option (\<lambda>(p', e). (p', if e = Quiet then [] else [e]))
      (rx_close mf (p1\<lparr>hr_acc := a, hr_bit := c, hr_ones := 6\<rparr>))"
    using rx_flag [of p1 k mf] p1 by auto
  let ?p = "p1\<lparr>hr_acc := a, hr_bit := c, hr_ones := 6\<rparr>"
  have u: "unat (of_nat (length f + 2) :: u16) = length f + 2"
    using assms(2) by (intro unat_of_nat_u16) (simp add: frame_fits_def)
  have "faxvmi_gen_fcs16 (hr_frame ?p) (hr_flen ?p) = Some FAXVMI_FCS16_GOOD"
    using rx_frame_residue [OF p1(7)] p1(6) assms(2) by (simp add: frame_fits_def)
  then have "hdlc_emit mf ?p = Some (?p\<lparr>hr_flen := 0\<rparr>, Frame (hr_flen ?p # take (unat (hr_flen ?p)) (hr_frame ?p)))"
    by (rule hdlc_emit_good) (use u p1(6,8) assms(2) in \<open>simp_all add: frame_fits_def\<close>)
  then have "rx_close mf ?p = Some (?p\<lparr>hr_flen := 0, hr_in_frame := 0, hr_bit := 0, hr_ones := 0\<rparr>,
      Frame (of_nat (length f + 2) # rx_frame f))"
    using p1 u by (simp add: rx_close_def)
  with fl rx_run_append_Some [OF run] p1 show ?thesis by (auto simp: rx_idle_def)
qed

subsection \<open>A line of frames\<close>

definition line_tail :: "u16 list list \<Rightarrow> bool list" where
  "line_tail fs = concat (map (\<lambda>f. flag_bits @ flag_bits @ stuff 0 (octets_bits (f @ fcs_octets f)) @ flag_bits) fs)"

lemma line_tail_eq: "concat (map hdlc_line fs) @ flag_bits = flag_bits @ line_tail fs"
  by (induction fs) (simp_all add: line_tail_def hdlc_line_def)

definition frame_events :: "u16 list list \<Rightarrow> rx_event list" where
  "frame_events fs = map (\<lambda>f. Frame (of_nat (length f + 2) # rx_frame f)) fs"

lemma frame_fits_same: "frame_fits mf f p \<Longrightarrow> length (hr_frame q) = length (hr_frame p) \<Longrightarrow>
    hr_frame_size q = hr_frame_size p \<Longrightarrow> frame_fits mf f q"
  by (simp add: frame_fits_def)

lemma rx_line_tail:
  assumes "rx_idle p" and "\<forall>f \<in> set fs. frame_fits mf f p"
  shows "\<exists>p'. rx_run mf p (line_tail fs) = Some (p', frame_events fs) \<and> rx_idle p'"
  using assms
proof (induction fs arbitrary: p)
  case Nil
  then show ?case by (simp add: line_tail_def frame_events_def)
next
  case (Cons f fs)
  obtain a where a: "rx_run mf p (concat (replicate 2 flag_bits)) = Some (p\<lparr>hr_acc := a\<rparr>, [])"
    using rx_flags_idle [OF Cons.prems(1)] by blast
  let ?p = "p\<lparr>hr_acc := a\<rparr>"
  have "rx_idle ?p" "frame_fits mf f ?p" using Cons.prems by (simp_all add: rx_idle_def frame_fits_def)
  then obtain p1 where b: "rx_run mf ?p (stuff 0 (octets_bits (f @ fcs_octets f)) @ flag_bits) =
      Some (p1, [Frame (of_nat (length f + 2) # rx_frame f)])" and p1: "rx_idle p1"
      "length (hr_frame p1) = length (hr_frame p)" "hr_frame_size p1 = hr_frame_size p"
    using rx_one_frame [of ?p mf f] by auto
  have "\<forall>g \<in> set fs. frame_fits mf g p1" using Cons.prems(2) p1(2,3) by (auto intro: frame_fits_same)
  with Cons.IH [OF p1(1)] obtain p2 where c: "rx_run mf p1 (line_tail fs) = Some (p2, frame_events fs)" "rx_idle p2"
    by blast
  have "line_tail (f # fs) = concat (replicate 2 flag_bits) @
      (stuff 0 (octets_bits (f @ fcs_octets f)) @ flag_bits) @ line_tail fs"
    by (simp add: line_tail_def numeral_eq_Suc)
  with rx_run_append_Some [OF a rx_run_append_Some [OF b c(1)]] c(2) show ?case
    by (simp add: frame_events_def)
qed

text \<open>A receiver as \<^verbatim>\<open>FAXVMI_create\<close> and \<^verbatim>\<open>FAXVMI_control\<close> leave it: two flags to see first.\<close>

definition rx_fresh :: "hdlc_rx \<Rightarrow> bool" where
  "rx_fresh p \<longleftrightarrow> hr_flags_wanted p = 2 \<and> hr_flen p = 0 \<and> hr_ones p = 0"

lemma rx_two_flags:
  assumes "rx_fresh p"
  shows "\<exists>p'. rx_run mf p (flag_bits @ flag_bits) = Some (p', []) \<and> rx_idle p' \<and>
    hr_frame p' = hr_frame p \<and> hr_frame_size p' = hr_frame_size p"
proof -
  obtain a where a: "rx_run mf p flag_bits =
      Some (p\<lparr>hr_acc := a, hr_flags_wanted := hr_flags_wanted p - 1, hr_in_frame := 0, hr_bit := 0, hr_ones := 0\<rparr>, [])"
    using rx_flag_sync [of p 0 mf] assms by (auto simp: rx_fresh_def)
  let ?p = "p\<lparr>hr_acc := a, hr_flags_wanted := hr_flags_wanted p - 1, hr_in_frame := 0, hr_bit := 0, hr_ones := 0\<rparr>"
  obtain a2 where b: "rx_run mf ?p flag_bits =
      Some (?p\<lparr>hr_acc := a2, hr_flags_wanted := hr_flags_wanted ?p - 1, hr_in_frame := 0, hr_bit := 0, hr_ones := 0\<rparr>, [])"
    using rx_flag_sync [of ?p 0 mf] assms by (auto simp: rx_fresh_def)
  from rx_run_append_Some [OF a b] assms show ?thesis by (auto simp: rx_idle_def rx_fresh_def)
qed

lemma rx_line:
  assumes "rx_fresh p" and "fs \<noteq> []" and "\<forall>f \<in> set fs. frame_fits mf f p"
  shows "\<exists>p'. rx_run mf p (concat (map hdlc_line fs) @ flag_bits) = Some (p', frame_events fs) \<and> rx_idle p'"
proof -
  obtain f gs where fs: "fs = f # gs" using assms(2) by (cases fs) auto
  obtain p1 where a: "rx_run mf p (flag_bits @ flag_bits) = Some (p1, [])" and p1: "rx_idle p1"
    "hr_frame p1 = hr_frame p" "hr_frame_size p1 = hr_frame_size p" using rx_two_flags [OF assms(1)] by blast
  let ?body = "stuff 0 (octets_bits (f @ fcs_octets f)) @ flag_bits"
  obtain a1 where b: "rx_run mf p1 flag_bits = Some (p1\<lparr>hr_acc := a1\<rparr>, [])" using rx_flag_idle [OF p1(1)] by blast
  let ?p = "p1\<lparr>hr_acc := a1\<rparr>"
  have "rx_idle ?p" "frame_fits mf f ?p" using p1 assms(3) by (simp_all add: rx_idle_def frame_fits_def fs)
  then obtain p2 where c: "rx_run mf ?p ?body = Some (p2, [Frame (of_nat (length f + 2) # rx_frame f)])"
    and p2: "rx_idle p2" "length (hr_frame p2) = length (hr_frame p)" "hr_frame_size p2 = hr_frame_size p"
    using rx_one_frame [of ?p mf f] p1 by auto
  have "\<forall>g \<in> set gs. frame_fits mf g p2" using assms(3) p2 fs by (auto intro: frame_fits_same)
  then obtain p3 where d: "rx_run mf p2 (line_tail gs) = Some (p3, frame_events gs)" "rx_idle p3"
    using rx_line_tail [OF p2(1)] by blast
  have "concat (map hdlc_line fs) @ flag_bits = (flag_bits @ flag_bits) @ flag_bits @ ?body @ line_tail gs"
    unfolding line_tail_eq by (simp add: fs line_tail_def)
  with rx_run_append_Some [OF a rx_run_append_Some [OF b rx_run_append_Some [OF c d(1)]]] d(2)
  show ?thesis by (simp add: fs frame_events_def)
qed

text \<open>Whatever follows the closing flag of the last frame is flags, whole or not.\<close>

lemma rx_line_prefix:
  assumes "rx_fresh p" and "fs \<noteq> []" and "\<forall>f \<in> set fs. frame_fits mf f p"
    and "length (concat (map hdlc_line fs)) + 8 \<le> m"
  shows "\<exists>p'. rx_run mf p (take m (concat (map hdlc_line fs) @ concat (replicate (Suc n) flag_bits))) =
    Some (p', frame_events fs)"
proof -
  let ?X = "concat (map hdlc_line fs) @ flag_bits" and ?Y = "concat (replicate n flag_bits)"
  obtain p1 where x: "rx_run mf p ?X = Some (p1, frame_events fs)" and "rx_idle p1"
    using rx_line [OF assms(1-3)] by blast
  then obtain a where "rx_run mf p1 ?Y = Some (p1\<lparr>hr_acc := a\<rparr>, [])" using rx_flags_idle by blast
  then have "rx_run mf p1 (take (m - length ?X) ?Y @ drop (m - length ?X) ?Y) = Some (p1\<lparr>hr_acc := a\<rparr>, [])" by simp
  then obtain p2 where "rx_run mf p1 (take (m - length ?X) ?Y) = Some (p2, [])" using rx_run_prefix by blast
  from rx_run_append_Some [OF x this] have
    "rx_run mf p (?X @ take (m - length ?X) ?Y) = Some (p2, frame_events fs)" by simp
  moreover have "take m (concat (map hdlc_line fs) @ concat (replicate (Suc n) flag_bits)) = ?X @ take (m - length ?X) ?Y"
    using assms(4) by simp
  ultimately show ?thesis by metis
qed

subsection \<open>Several calls of the deframer\<close>

lemma wr_list_in:
  "i + length xs \<le> length dst \<Longrightarrow> wr_list dst i xs = Some (take i dst @ xs @ drop (i + length xs) dst)"
proof (induction xs arbitrary: dst i)
  case (Cons x xs)
  have "take (Suc i) (dst[i := x]) = take i dst @ [x]" using Cons.prems by (simp add: take_Suc_conv_app_nth)
  with Cons show ?case by (simp add: mem_simps)
qed simp

lemma feed_rx:
  assumes "rx_run mf (hs_rx s) bs = Some (p', map Frame recs)" and "hs_cur s + length (concat recs) \<le> length (hs_dst s)"
  shows "feed (hdlc_sink mf) s bs = Some (s\<lparr>hs_rx := p',
      hs_dst := take (hs_cur s) (hs_dst s) @ concat recs @ drop (hs_cur s + length (concat recs)) (hs_dst s),
      hs_cur := hs_cur s + length (concat recs), hs_nframes := hs_nframes s + of_nat (length recs)\<rparr>)"
  using assms
proof (induction bs arbitrary: s recs)
  case Nil
  then show ?case by (cases s) simp
next
  case (Cons b bs)
  from Cons.prems(1) obtain p1 e es where st: "hdlc_rx_bit mf (hs_rx s) b = Some (p1, e)"
    and rest: "rx_run mf p1 bs = Some (p', es)" and ev: "map Frame recs = (if e = Quiet then es else e # es)"
    by (auto simp: bind_eq_Some_conv)
  show ?case
  proof (cases e)
    case Quiet
    then show ?thesis
      using st Cons.IH [of "s\<lparr>hs_rx := p1\<rparr>" recs] rest ev Cons.prems(2) by (simp add: hdlc_sink_def)
  next
    case Overflow
    with ev show ?thesis by (cases recs) auto
  next
    case (Frame xs)
    with ev obtain rs where recs: "recs = xs # rs" and es: "es = map Frame rs" by (cases recs) auto
    let ?d = "take (hs_cur s) (hs_dst s) @ xs @ drop (hs_cur s + length xs) (hs_dst s)"
    let ?s = "s\<lparr>hs_rx := p1, hs_dst := ?d, hs_cur := hs_cur s + length xs, hs_nframes := hs_nframes s + 1\<rparr>"
    have "hs_cur s + length xs \<le> length (hs_dst s)" using Cons.prems(2) by (simp add: recs)
    then have "hdlc_sink mf s b = Some ?s"
      using st Frame wr_list_in [of "hs_cur s" xs "hs_dst s"] by (simp add: hdlc_sink_def)
    moreover have "feed (hdlc_sink mf) ?s bs = Some (?s\<lparr>hs_rx := p',
      hs_dst := take (hs_cur ?s) (hs_dst ?s) @ concat rs @ drop (hs_cur ?s + length (concat rs)) (hs_dst ?s),
      hs_cur := hs_cur ?s + length (concat rs), hs_nframes := hs_nframes ?s + of_nat (length rs)\<rparr>)"
      using rest es Cons.prems(2) by (intro Cons.IH) (simp_all add: recs)
    ultimately show ?thesis
      using Cons.prems(2) by (simp add: recs ac_simps)
  qed
qed

text \<open>The consumer's reading of a block of \<open>k\<close> length-prefixed records.\<close>

fun parse_records :: "nat \<Rightarrow> u16 list \<Rightarrow> u16 list list" where
  "parse_records 0 xs = []"
| "parse_records (Suc k) [] = []"
| "parse_records (Suc k) (l # xs) = take (unat l) xs # parse_records k (drop (unat l) xs)"

lemma parse_records_records:
  "\<forall>f \<in> set fs. length f < 65536 \<Longrightarrow> parse_records (length fs) (records fs @ rest) = fs"
  by (induction fs) (simp_all add: unat_of_nat_u16)

fun hdlc_rx_calls :: "nat \<Rightarrow> ('m, 'c) faxvmi \<Rightarrow> u16 list list \<Rightarrow> (('m, 'c) faxvmi \<times> u16 list list) option" where
  "hdlc_rx_calls cap vmi [] = Some (vmi, [])"
| "hdlc_rx_calls cap vmi (b # blocks) = do {
     (v1, dst, k) \<leftarrow> faxvmi_hdlc_unframe (vmi\<lparr>vm_link := (vm_link vmi)\<lparr>lk_buf := b\<rparr>\<rparr>) (replicate cap 0) (of_nat (length b));
     (v2, fs) \<leftarrow> hdlc_rx_calls cap v1 blocks;
     Some (v2, parse_records (unat k) dst @ fs)
   }"

text \<open>The bits a sequence of calls hands to the receiver.\<close>

fun rx_fed :: "nat \<Rightarrow> nat \<Rightarrow> u32 \<Rightarrow> u16 list list \<Rightarrow> bool list" where
  "rx_fed w k word [] = []"
| "rx_fed w k word (es # blocks) = rx_bits w k word es @ rx_fed w (w - 1) (ucast (last es)) blocks"

lemma rx_bits_rest:
  assumes "es \<noteq> []" and "0 < w"
  shows "rx_bits w k word es @ acc_tail (w - 1) (ucast (last es)) = acc_tail k word @ concat (map (elem_bits w) es)"
proof -
  obtain w' where w: "w = Suc w'" using assms(2) by (cases w) auto
  have "take 1 (elem_bits w (last es)) @ acc_tail (w - 1) (ucast (last es)) = elem_bits w (last es)"
    by (simp add: w elem_bits_Suc acc_tail_ucast)
  moreover have "concat (map (elem_bits w) es) = concat (map (elem_bits w) (butlast es)) @ elem_bits w (last es)"
    using assms(1) by (cases es rule: rev_cases) simp_all
  ultimately show ?thesis by (simp add: rx_bits_def)
qed

lemma rx_fed_rest:
  assumes "\<forall>b \<in> set blocks. b \<noteq> []" and "0 < w" and "blocks \<noteq> []"
  shows "rx_fed w k word blocks @ acc_tail (w - 1) (ucast (last (last blocks))) =
    acc_tail k word @ concat (map (elem_bits w) (concat blocks))"
  using assms
proof (induction blocks arbitrary: k word)
  case (Cons es blocks)
  then show ?case
    using rx_bits_rest [of es w k word] by (cases "blocks = []") simp_all
qed simp

lemma rx_fed_take:
  assumes "\<forall>b \<in> set blocks. b \<noteq> []" and "0 < w" and "blocks \<noteq> []"
  shows "rx_fed w 0 word blocks = take (w * length (concat blocks) - (w - 1)) (concat (map (elem_bits w) (concat blocks)))"
proof -
  let ?all = "concat (map (elem_bits w) (concat blocks))"
  have e: "rx_fed w 0 word blocks @ acc_tail (w - 1) (ucast (last (last blocks))) = ?all"
    using rx_fed_rest [OF assms, of 0 word] by simp
  have "length ?all = w * length (concat blocks)" by (rule concat_elem_length)
  moreover from e have "length (rx_fed w 0 word blocks) + (w - 1) = length ?all"
    by (metis length_append length_acc_tail)
  ultimately have "length (rx_fed w 0 word blocks) = w * length (concat blocks) - (w - 1)" by simp
  then show ?thesis using e by (metis append_eq_conv_conj)
qed

definition rx_pending :: "nat \<Rightarrow> nat \<Rightarrow> ('m, 'c) faxvmi \<Rightarrow> bool" where
  "rx_pending w k vmi \<longleftrightarrow> fr_unpack_mask (vm_framer vmi) = ucast (pend_mask k) \<and> k \<le> 16 \<and>
     w = unat (lk_unpack_width (vm_link vmi)) \<and> width_ok (lk_unpack_width (vm_link vmi))"

lemma ucast_u16_u32 [simp]: "ucast (ucast (v :: u16) :: u32) = v"
  by (simp add: ucast_up_ucast is_up)

lemma hdlc_rx_bit_size: "hdlc_rx_bit mf p b = Some (p', e) \<Longrightarrow> hr_frame_size p' = hr_frame_size p"
  by (auto simp: hdlc_rx_bit_def hdlc_octet_def hdlc_emit_def Let_def bind_eq_Some_conv split: if_splits)

lemma rx_run_size: "rx_run mf p bs = Some (p', es) \<Longrightarrow> hr_frame_size p' = hr_frame_size p"
proof (induction bs arbitrary: p es)
  case (Cons b bs)
  then show ?case by (auto simp: bind_eq_Some_conv dest!: hdlc_rx_bit_size)
qed simp

lemma load_store_rx: "hr_frame_size p = fr_frame_size fr \<Longrightarrow> load_rx (store_rx p msk word fr) = p"
  by (simp add: load_rx_def store_rx_def)

lemma hdlc_rx_call:
  assumes "rx_pending w k vmi" and "es \<noteq> []" and "length es < 65536" and "lk_buf (vm_link vmi) = es"
    and "rx_run (vm_max_frame vmi) (load_rx (vm_framer vmi)) (rx_bits w k (fr_unpack_word (vm_framer vmi)) es) =
      Some (p', map Frame recs)"
    and "length (concat recs) \<le> cap"
  shows "\<exists>v1. faxvmi_hdlc_unframe vmi (replicate cap 0) (of_nat (length es)) =
      Some (v1, concat recs @ replicate (cap - length (concat recs)) 0, of_nat (length recs)) \<and>
    rx_pending w (w - 1) v1 \<and> vm_max_frame v1 = vm_max_frame vmi \<and> load_rx (vm_framer v1) = p' \<and>
    fr_unpack_word (vm_framer v1) = ucast (last es) \<and> vm_link v1 = vm_link vmi \<and> vm_overflow v1 = 0"
proof -
  let ?fr = "vm_framer vmi" and ?mf = "vm_max_frame vmi"
  let ?s = "\<lparr>hs_rx = load_rx ?fr, hs_dst = replicate cap 0, hs_cur = 0, hs_nframes = 0, hs_overflow = 0\<rparr>"
  let ?s1 = "\<lparr>hs_rx = p', hs_dst = concat recs @ replicate (cap - length (concat recs)) 0,
    hs_cur = length (concat recs), hs_nframes = of_nat (length recs), hs_overflow = 0\<rparr>"
  have w: "0 < w" "w \<le> 16" "k \<le> 16" "w = unat (lk_unpack_width (vm_link vmi))"
    using assms(1) by (auto simp: rx_pending_def width_ok_def)
  have "feed (hdlc_sink ?mf) ?s (rx_bits w k (fr_unpack_word ?fr) es) = Some ?s1"
    using feed_rx [of ?mf ?s] assms(5,6) by simp
  then have lp: "unpack_loop (hdlc_sink ?mf) (push_bit (w - 1) 1) es (of_nat (length es)) (pend_mask k)
      (fr_unpack_word ?fr) ?s = Some (?s1, pend_mask (w - 1), ucast (last es))"
    using unpack_loop_feeds [OF w(1-3) assms(2,3), of "hdlc_sink ?mf" "[]" "fr_unpack_word ?fr" ?s] by simp
  have top: "unpack_top (vm_link vmi) = Some (push_bit (w - 1) 1)"
    using w by (simp add: unpack_top_def Let_def)
  have msk: "ucast (fr_unpack_mask ?fr) = pend_mask k"
    using assms(1) by (simp add: rx_pending_def)
  let ?v1 = "vmi\<lparr>vm_framer := store_rx p' (pend_mask (w - 1)) (ucast (last es)) ?fr, vm_overflow := 0\<rparr>"
  have call: "faxvmi_hdlc_unframe vmi (replicate cap 0) (of_nat (length es)) =
      Some (?v1, concat recs @ replicate (cap - length (concat recs)) 0, of_nat (length recs))"
    unfolding faxvmi_hdlc_unframe_def Let_def top bind.bind_lunit msk assms(4) lp by simp
  have "hr_frame_size p' = fr_frame_size ?fr" using rx_run_size [OF assms(5)] by (simp add: load_rx_def)
  then have "load_rx (vm_framer ?v1) = p'" by (simp add: load_store_rx)
  with call w assms(1) show ?thesis by (auto simp: rx_pending_def store_rx_def)
qed

lemma hdlc_rx_calls_run:
  assumes "rx_pending w k vmi" and "\<forall>b \<in> set blocks. b \<noteq> [] \<and> length b < 65536"
    and "rx_run (vm_max_frame vmi) (load_rx (vm_framer vmi)) (rx_fed w k (fr_unpack_word (vm_framer vmi)) blocks) =
      Some (p', map (\<lambda>g. Frame (of_nat (length g) # g)) gs)"
    and "length (records gs) \<le> cap" and "\<forall>g \<in> set gs. length g < 65536" and "length gs < 65536"
  shows "\<exists>v'. hdlc_rx_calls cap vmi blocks = Some (v', gs)"
  using assms
proof (induction blocks arbitrary: vmi k gs)
  case Nil
  then show ?case by simp
next
  case (Cons es blocks)
  let ?v = "vmi\<lparr>vm_link := (vm_link vmi)\<lparr>lk_buf := es\<rparr>\<rparr>"
  let ?rec = "\<lambda>g. of_nat (length g) # g :: u16 list"
  from Cons.prems(3) obtain p1 ev1 ev2 where
    r1: "rx_run (vm_max_frame vmi) (load_rx (vm_framer vmi)) (rx_bits w k (fr_unpack_word (vm_framer vmi)) es) = Some (p1, ev1)"
    and r2: "rx_run (vm_max_frame vmi) p1 (rx_fed w (w - 1) (ucast (last es)) blocks) = Some (p', ev2)"
    and ev: "map (\<lambda>g. Frame (?rec g)) gs = ev1 @ ev2"
    using rx_run_prefix by fastforce
  from ev obtain g1 g2 where gs: "gs = g1 @ g2" and ev1: "ev1 = map Frame (map ?rec g1)"
    and ev2: "ev2 = map (\<lambda>g. Frame (?rec g)) g2" by (auto simp: map_eq_append_conv)
  have rc: "concat (map ?rec g1) = records g1" by (simp add: records_def)
  have cap: "length (records g1) \<le> cap" "length (records g2) \<le> cap" using Cons.prems(4) by (simp_all add: gs records_def)
  have "rx_pending w k ?v" using Cons.prems(1) by (simp add: rx_pending_def)
  then obtain v1 where c: "faxvmi_hdlc_unframe ?v (replicate cap 0) (of_nat (length es)) =
      Some (v1, records g1 @ replicate (cap - length (records g1)) 0, of_nat (length g1))"
    and v1: "rx_pending w (w - 1) v1" "vm_max_frame v1 = vm_max_frame vmi" "load_rx (vm_framer v1) = p1"
      "fr_unpack_word (vm_framer v1) = ucast (last es)"
    using hdlc_rx_call [of w k ?v es p1 "map ?rec g1" cap] Cons.prems(2) r1 cap(1) rc ev1 by auto
  have "\<exists>v'. hdlc_rx_calls cap v1 blocks = Some (v', g2)"
    using Cons.prems(2,5,6) r2 v1 ev2 cap(2) gs by (intro Cons.IH [OF v1(1)]) auto
  moreover have "unat (of_nat (length g1) :: u16) = length g1" using Cons.prems(6) by (simp add: gs unat_of_nat_u16)
  moreover have "parse_records (length g1) (records g1 @ replicate (cap - length (records g1)) 0) = g1"
    using Cons.prems(5) by (intro parse_records_records) (auto simp: gs)
  ultimately show ?case using c by (auto simp: gs)
qed

subsection \<open>From one end to the other\<close>

definition hdlc_tx_ready :: "('m, 'c) faxvmi \<Rightarrow> bool" where
  "hdlc_tx_ready vmi \<longleftrightarrow> tx_clear vmi \<and> fr_pack_frame_left (vm_framer vmi) = 0"

definition hdlc_rx_ready :: "('m, 'c) faxvmi \<Rightarrow> bool" where
  "hdlc_rx_ready vmi \<longleftrightarrow> fr_unpack_mask (vm_framer vmi) = 0 \<and> rx_fresh (load_rx (vm_framer vmi)) \<and>
     unat (fr_frame_size (vm_framer vmi)) \<le> length (fr_frame (vm_framer vmi))"

definition frames_ok :: "u16 list list \<Rightarrow> bool" where
  "frames_ok fs \<longleftrightarrow> fs \<noteq> [] \<and> length fs < 65536 \<and> (\<forall>f \<in> set fs. length f < 32766 \<and> (\<forall>v \<in> set f. v AND 0xff = v))"

lemma frames_taken_all:
  "c + sum_list (map (\<lambda>f. length f + 3) fs) < sz \<Longrightarrow> frames_taken sz c fs = length fs"
  by (induction fs arbitrary: c) auto

lemma write_all_frames:
  fixes tx :: "('m, 'c) faxvmi"
  assumes "hdlc_tx_ready tx" and "frames_ok fs"
    and "sum_list (map (\<lambda>f. length f + 3) fs) < unat (fr_fifo_size (vm_framer tx))"
  shows "\<exists>tx1. faxvmi_write_frame tx (records fs) (of_nat (length fs)) = Some (tx1, [], of_nat (length fs)) \<and>
    vm_link tx1 = vm_link tx \<and> framer_wf (vm_framer tx1) \<and>
    framer_held (vm_framer tx1) = concat (map wire_frame fs) \<and> fr_pack_mask (vm_framer tx1) = 0 \<and>
    fr_pack_bit (vm_framer tx1) = 0 \<and> fr_pack_frame_left (vm_framer tx1) = 0"
proof -
  let ?fr = "vm_framer tx"
  have wf: "framer_wf ?fr" "framer_held ?fr = []" "fr_pack_mask ?fr = 0" "fr_pack_bit ?fr = 0" "fr_pack_frame_left ?fr = 0"
    using assms(1) by (auto simp: hdlc_tx_ready_def tx_clear_def)
  have c: "unat (fr_count ?fr) = 0" using wf(2) framer_held_count [of ?fr] by simp
  have k: "length fs = frames_taken (unat (fr_fifo_size ?fr)) (unat (fr_count ?fr)) fs"
    using frames_taken_all [of 0 fs] assms(3) by (simp add: c)
  have fs: "\<forall>f \<in> set fs. length f < 32766" using assms(2) by (simp add: frames_ok_def)
  obtain fr where w: "write_frame_loop tx (records fs @ []) 0 (length fs) =
      Some (tx\<lparr>vm_framer := fr, vm_underrun := (if \<forall>f \<in> set (take (length fs) fs). f = [] then vm_underrun tx else 0)\<rparr>,
        records (drop (length fs) fs) @ [], 0 + of_nat (length fs))"
    and app: "ring_appended ?fr fr (concat (map wire_frame (take (length fs) fs)))"
    using write_frame_loop_correct [OF wf(1) fs k, of "[]" 0] by blast
  from app obtain b w c where "fr = with_ring ?fr b w c" by (auto simp: ring_appended_def)
  moreover have "unat (of_nat (length fs) :: u16) = length fs"
    using assms(2) by (simp add: frames_ok_def unat_of_nat_u16)
  ultimately show ?thesis
    using w app wf by (auto simp: faxvmi_write_frame_def ring_appended_def with_ring_def)
qed

text \<open>C1: HDLC from one end to the other. Frames written to an idle transmitter and drained by any
  number of packer calls, enough for the line to carry the last frame and its closing flag,
  come out of a receiver that starts fresh, one deframer call per block, exactly once each,
  in order and unchanged, each followed by its check sequence; any element width from 1 to
  16 bits, any block size, any octets (flags and runs of ones inside the frames included).\<close>

theorem hdlc_end_to_end:
  fixes tx rx :: "('m, 'c) faxvmi"
  assumes "hdlc_tx_ready tx" and "frames_ok fs"
    and "sum_list (map (\<lambda>f. length f + 3) fs) < unat (fr_fifo_size (vm_framer tx))"
    and "width_ok (lk_pack_width (vm_link tx))" and "w = unat (lk_pack_width (vm_link tx))"
    and "n = unat (lk_pack_count (vm_link tx))" and "0 < n" and "n \<le> length (lk_buf (vm_link tx))"
    and "length (concat (map hdlc_line fs)) + 8 + (w - 1) \<le> k * (n * w)"
    and "hdlc_rx_ready rx" and "lk_unpack_width (vm_link rx) = lk_pack_width (vm_link tx)"
    and "\<forall>f \<in> set fs. length f + 2 \<le> unat (fr_frame_size (vm_framer rx)) \<and> length f + 2 < unat (vm_max_frame rx)"
    and "sum_list (map (\<lambda>f. length f + 3) fs) \<le> cap"
  shows "\<exists>tx1 tx2 blocks rx'.
    faxvmi_write_frame tx (records fs) (of_nat (length fs)) = Some (tx1, [], of_nat (length fs)) \<and>
    hdlc_tx_calls tx1 k = Some (tx2, blocks) \<and>
    hdlc_rx_calls cap rx blocks = Some (rx', map (\<lambda>f. f @ fcs_octets f) fs)"
proof -
  obtain tx1 where w1: "faxvmi_write_frame tx (records fs) (of_nat (length fs)) = Some (tx1, [], of_nat (length fs))"
    and tx1: "vm_link tx1 = vm_link tx" "framer_wf (vm_framer tx1)" "framer_held (vm_framer tx1) = concat (map wire_frame fs)"
      "fr_pack_mask (vm_framer tx1) = 0" "fr_pack_bit (vm_framer tx1) = 0" "fr_pack_frame_left (vm_framer tx1) = 0"
    using write_all_frames [OF assms(1-3)] by blast
  have w: "0 < w" "w \<le> 16" using assms(4,5) by (auto simp: width_ok_def)
  let ?m = "k * (n * w)" and ?lines = "concat (map hdlc_line fs)"
  let ?stream = "?lines @ concat (replicate (Suc ?m) flag_bits)"
  have "\<forall>f \<in> set fs. length f < 32766" using assms(2) by (simp add: frames_ok_def)
  then obtain r where run: "run_bits hdlc_bit ?m (load_regs32 tx1) = Some (r, take ?m ?stream)"
    using hdlc_stream [of "load_regs32 tx1" fs ?m "Suc ?m"] tx1 by (auto simp: load_regs32_def Let_def)
  obtain tx2 blocks where bl: "hdlc_tx_calls tx1 k = Some (tx2, blocks)" "length blocks = k"
    "\<forall>b \<in> set blocks. length b = n" and bits: "concat (map (elem_bits w) (concat blocks)) = take ?m ?stream"
    using hdlc_tx_calls_bits [OF _ tx1(5) _ _ _ run] tx1(1) assms(4-6,8) by auto
  have "0 < ?m" using assms(9) by linarith
  then have k: "0 < k" using zero_less_mult_pos2 [of k "n * w"] by (cases k) auto
  have blk: "\<forall>b \<in> set blocks. b \<noteq> [] \<and> length b < 65536" "blocks \<noteq> []"
    using bl(2,3) k assms(6,7) by auto
  have "length (concat blocks) = k * n" using bl(2,3) by (simp add: length_concat sum_list_triv cong: map_cong)
  then have wm: "w * length (concat blocks) = ?m" by simp
  have fed: "rx_fed w 0 (fr_unpack_word (vm_framer rx)) blocks = take (?m - (w - 1)) ?stream"
    using rx_fed_take [OF _ w(1) blk(2)] blk(1) unfolding bits wm take_take by (auto simp: min_def)
  have "\<forall>f \<in> set fs. frame_fits (vm_max_frame rx) f (load_rx (vm_framer rx))"
    using assms(2,10,12) by (auto simp: frames_ok_def frame_fits_def hdlc_rx_ready_def load_rx_def dest: bspec)
  moreover have "length ?lines + 8 \<le> ?m - (w - 1)" using assms(9) by linarith
  moreover have "rx_fresh (load_rx (vm_framer rx))" "fs \<noteq> []"
    using assms(2,10) by (simp_all add: frames_ok_def hdlc_rx_ready_def)
  ultimately obtain p' where
    "rx_run (vm_max_frame rx) (load_rx (vm_framer rx)) (take (?m - (w - 1)) ?stream) = Some (p', frame_events fs)"
    using rx_line_prefix by metis
  moreover have "frame_events fs = map (\<lambda>g. Frame (of_nat (length g) # g)) (map rx_frame fs)"
    by (simp add: frame_events_def o_def)
  moreover have "rx_pending w 0 rx"
    using assms(4,5,10,11) by (simp add: rx_pending_def hdlc_rx_ready_def)
  moreover have "length (records (map rx_frame fs)) = sum_list (map (\<lambda>f. length f + 3) fs)"
    by (induction fs) simp_all
  ultimately obtain rx' where "hdlc_rx_calls cap rx blocks = Some (rx', map rx_frame fs)"
    using hdlc_rx_calls_run [of w 0 rx blocks p' "map rx_frame fs" cap] fed blk assms(2,13)
    by (fastforce simp: frames_ok_def)
  with w1 bl(1) show ?thesis by (auto simp: rx_frame_def [abs_def])
qed

theorem hdlc_end_to_end_witness:
  "\<exists>tx1 tx2 blocks rx'.
    faxvmi_write_frame (demo_vmi 2) (records [[0xff, 0x03, 0x7e], [0xff]]) (of_nat (length [[0xff, 0x03, 0x7e], [0xff :: u16]])) =
      Some (tx1, [], of_nat (length [[0xff, 0x03, 0x7e], [0xff :: u16]])) \<and>
    hdlc_tx_calls tx1 2 = Some (tx2, blocks) \<and>
    hdlc_rx_calls 20 (demo_vmi 2) blocks = Some (rx', map (\<lambda>f. f @ fcs_octets f) [[0xff, 0x03, 0x7e], [0xff]])"
proof (rule hdlc_end_to_end [where n = 20 and w = 8])
  show "hdlc_tx_ready (demo_vmi 2)" "hdlc_rx_ready (demo_vmi 2)"
    by (simp_all add: hdlc_tx_ready_def hdlc_rx_ready_def demo_vmi_def fresh_vmi_clear)
      (simp_all add: fresh_framer_def load_rx_def rx_fresh_def)
  show "length (concat (map hdlc_line [[0xff, 0x03, 0x7e], [0xff]])) + 8 + (8 - 1) \<le> 2 * (20 * (8 :: nat))"
    by code_simp
qed (simp_all add: frames_ok_def demo_vmi_def width_ok_def, simp_all add: fresh_framer_def)

subsection \<open>What the repair pass lets through\<close>

lemma hdlc_shifts_good:
  "hdlc_shifts n frame len flen = Some (frame', True) \<Longrightarrow> faxvmi_gen_fcs16 frame' flen = Some FAXVMI_FCS16_GOOD"
proof (induction n arbitrary: frame)
  case (Suc n)
  then show ?case by (auto simp: bind_eq_Some_conv split: if_splits)
qed simp

lemma hdlc_check_sound:
  "hdlc_check frame flen = Some (frame', flen') \<Longrightarrow>
   flen' = 0 \<or> faxvmi_gen_fcs16 frame' flen' = Some FAXVMI_FCS16_GOOD"
  by (auto simp: hdlc_check_def bind_eq_Some_conv dest: hdlc_shifts_good split: if_splits)

lemma gen_fcs16_take:
  "faxvmi_gen_fcs16 frame l = Some fcs \<Longrightarrow> faxvmi_gen_fcs16 (take (unat l) frame) l = Some fcs"
  by (cases "unat l \<le> length frame") (auto simp: faxvmi_gen_fcs16_def fcs16_walk_crc fcs16_walk_out)

lemma sint_nonneg_u16:
  assumes "0 \<le> sint (l :: u16)"
  shows "sint l = uint l"
proof -
  have s: "sint l = short_of (uint l)" by (simp add: short_of_word)
  have "uint l < 65536" using uint_lt2p [of l] by simp
  moreover have "uint l < 32768"
  proof (rule ccontr)
    assume "\<not> uint l < 32768"
    then have "short_of (uint l) = uint l - 65536"
      using \<open>uint l < 65536\<close> short_of_succ [of "uint l - 1"] by (cases "uint l = 32768") (auto simp: short_of_def)
    with assms s \<open>uint l < 65536\<close> show False by simp
  qed
  ultimately show ?thesis using s uint_ge_0 [of l] by (simp add: order_trans [of _ 0])
qed

lemma hdlc_emit_sound:
  assumes "hdlc_emit mf p = Some (p', Frame rec)"
  shows "\<exists>l xs. rec = l # xs \<and> sint l < uint mf \<and>
    (0 \<le> sint l \<longrightarrow> length xs = unat l \<and> (l = 0 \<or> faxvmi_gen_fcs16 xs l = Some FAXVMI_FCS16_GOOD))"
proof -
  from assms obtain frame l xs where chk: "hdlc_check (hr_frame p) (hr_flen p) = Some (frame, l)"
    and lt: "sint l < uint mf" and rd: "rd_n frame 0 (nat (sint l)) = Some xs" and r: "rec = l # xs"
    by (auto simp: hdlc_emit_def Let_def bind_eq_Some_conv split: if_splits)
  have len: "rd_n zs i n = Some ys \<Longrightarrow> length ys = n" for zs i n ys
    by (induction n arbitrary: i ys) (auto simp: bind_eq_Some_conv)
  have "length xs = unat l \<and> (l = 0 \<or> faxvmi_gen_fcs16 xs l = Some FAXVMI_FCS16_GOOD)" if pos: "0 \<le> sint l"
  proof -
    have n: "nat (sint l) = unat l" using sint_nonneg_u16 [OF pos] by simp
    then have "length xs = unat l" using len [OF rd] by simp
    moreover have "xs = take (unat l) frame" if "unat l \<le> length frame"
      using rd_n_take [of 0 "unat l" frame] that rd n by simp
    moreover have "faxvmi_gen_fcs16 frame l = None" if "\<not> unat l \<le> length frame"
      using that by (simp add: faxvmi_gen_fcs16_def fcs16_walk_out)
    ultimately show ?thesis using hdlc_check_sound [OF chk] gen_fcs16_take by fastforce
  qed
  with r lt show ?thesis by blast
qed

text \<open>C3: no frame with octets is handed to the caller unless its check sequence is right. Each
  record the deframer reports is a length below the frame limit and that many octets, and the
  length is zero (a frame given up on) or the octets, as delivered and after any repair, have
  the good residue.\<close>

theorem hdlc_delivers_checked:
  assumes "hdlc_rx_bit mf p b = Some (p', Frame rec)"
  shows "\<exists>l xs. rec = l # xs \<and> sint l < uint mf \<and>
    (0 \<le> sint l \<longrightarrow> length xs = unat l \<and> (l = 0 \<or> faxvmi_gen_fcs16 xs l = Some FAXVMI_FCS16_GOOD))"
  using assms hdlc_emit_sound [of mf p]
  by (auto simp: hdlc_rx_bit_def Let_def bind_eq_Some_conv split: if_splits)

text \<open>A receiver about to see the closing zero of a flag over a one-octet frame that no repair
  mends: the frame is reported with length zero.\<close>

definition demo_rx :: hdlc_rx where
  "demo_rx = \<lparr>hr_acc = 0, hr_bit = 7, hr_frame = [0x12, 0, 0], hr_frame_size = 3, hr_flen = 1,
     hr_flags_wanted = 0, hr_in_frame = 1, hr_ones = 6\<rparr>"

theorem hdlc_delivers_checked_witness:
  "\<exists>p' rec l xs. hdlc_rx_bit 100 demo_rx False = Some (p', Frame rec) \<and> rec = l # xs \<and> sint l < uint (100 :: u16) \<and>
    (0 \<le> sint l \<longrightarrow> length xs = unat l \<and> (l = 0 \<or> faxvmi_gen_fcs16 xs l = Some FAXVMI_FCS16_GOOD))"
proof -
  have "map_option snd (hdlc_rx_bit 100 demo_rx False) = Some (Frame [0])" by code_simp
  then obtain p' where "hdlc_rx_bit 100 demo_rx False = Some (p', Frame [0])" by auto
  with hdlc_delivers_checked [OF this] show ?thesis by blast
qed

subsection \<open>Bounds of the repair pass\<close>

lemma hdlc_shift_in: "i + n < length frame \<Longrightarrow> \<exists>frame'. hdlc_shift frame i n = Some frame' \<and> length frame' = length frame"
proof (induction n arbitrary: i frame)
  case (Suc n)
  let ?f = "frame[i := (push_bit 1 (frame ! i) AND 0xfe) OR (if bit (frame ! (i + 1)) 7 then 1 else 0)]"
  have "hdlc_shift frame i (Suc n) = hdlc_shift ?f (i + 1) n" using Suc.prems by (simp add: mem_simps)
  moreover have "\<exists>frame'. hdlc_shift ?f (i + 1) n = Some frame' \<and> length frame' = length ?f"
    using Suc.prems by (intro Suc.IH) simp
  ultimately show ?case by simp
qed simp

lemma hdlc_shift_out: "i + n = length frame \<Longrightarrow> 0 < n \<Longrightarrow> hdlc_shift frame i n = None"
proof (induction n arbitrary: i frame)
  case (Suc n)
  show ?case
  proof (cases n)
    case 0
    then show ?thesis using Suc.prems by (simp add: rd_at_def)
  next
    case (Suc m)
    let ?f = "frame[i := (push_bit 1 (frame ! i) AND 0xfe) OR (if bit (frame ! (i + 1)) 7 then 1 else 0)]"
    have "hdlc_shift ?f (i + 1) n = None" using Suc Suc.prems by (intro Suc.IH) simp_all
    then show ?thesis using Suc Suc.prems by (simp add: mem_simps)
  qed
qed simp

lemma gen_fcs16_in: "unat l \<le> length frame \<Longrightarrow> \<exists>fcs. faxvmi_gen_fcs16 frame l = Some fcs"
  by (simp add: gen_fcs16_crc)

lemma hdlc_shifts_in:
  assumes "2 \<le> length frame" and "nat (sint len) < length frame" and "unat flen \<le> length frame"
  shows "\<exists>frame' good. hdlc_shifts n frame len flen = Some (frame', good) \<and> length frame' = length frame"
  using assms
proof (induction n arbitrary: frame)
  case (Suc n)
  obtain f where f: "hdlc_shift frame 0 (nat (sint len)) = Some f" "length f = length frame"
    using hdlc_shift_in [of 0 "nat (sint len)" frame] Suc.prems(2) by auto
  let ?f1 = "f[0 := FAXVMI_T30_ADDRESS]" and ?f3 = "(f[0 := FAXVMI_T30_ADDRESS, 1 := FAXVMI_T30_CONTROL])[0 := f ! 0, 1 := f[0 := FAXVMI_T30_ADDRESS] ! 1]"
  obtain c0 c1 c2 where c: "faxvmi_gen_fcs16 f flen = Some c0" "faxvmi_gen_fcs16 ?f1 flen = Some c1"
    "faxvmi_gen_fcs16 (?f1[1 := FAXVMI_T30_CONTROL]) flen = Some c2"
    using gen_fcs16_in [of flen f] gen_fcs16_in [of flen ?f1] gen_fcs16_in [of flen "?f1[1 := FAXVMI_T30_CONTROL]"]
      Suc.prems(3) f(2) by auto
  have "\<exists>frame' good. hdlc_shifts n ?f3 len flen = Some (frame', good) \<and> length frame' = length ?f3"
    using Suc.prems f(2) by (intro Suc.IH) simp_all
  moreover have "0 < length f" "1 < length f" using Suc.prems(1) f(2) by linarith+
  ultimately show ?case using f c by (auto simp: mem_simps)
qed auto

text \<open>C37: the repair pass is safe when the assembly buffer has one element to spare: for every
  frame of fewer octets than the buffer it runs to an answer, keeps the buffer's size and
  never lengthens the frame.\<close>

theorem hdlc_check_safe:
  assumes "2 \<le> length frame" and "unat flen < length frame" and "0 < unat flen" and "unat flen < 32768"
  shows "\<exists>frame' flen'. hdlc_check frame flen = Some (frame', flen') \<and> length frame' = length frame \<and> unat flen' \<le> unat flen"
proof -
  have s: "nat (sint flen) = unat flen" using assms(4) sint_of_nat_u16 [of "unat flen"] by simp
  have p: "unat (flen - 1) = unat flen - 1" using assms(3) by (intro unat_pred_u16) auto
  let ?f1 = "frame[0 := FAXVMI_T30_ADDRESS]" and ?f3 = "(frame[0 := FAXVMI_T30_ADDRESS, 1 := FAXVMI_T30_CONTROL])[0 := frame ! 0, 1 := frame[0 := FAXVMI_T30_ADDRESS] ! 1]"
  obtain c0 c1 c2 where c: "faxvmi_gen_fcs16 frame flen = Some c0" "faxvmi_gen_fcs16 ?f1 flen = Some c1"
    "faxvmi_gen_fcs16 (?f1[1 := FAXVMI_T30_CONTROL]) flen = Some c2"
    using gen_fcs16_in [of flen frame] gen_fcs16_in [of flen ?f1] gen_fcs16_in [of flen "?f1[1 := FAXVMI_T30_CONTROL]"]
      assms(2) by auto
  obtain f good where "hdlc_shifts FAXVMI_MAX_BIT_SHIFT ?f3 flen (flen - 1) = Some (f, good)" "length f = length frame"
    using hdlc_shifts_in [of ?f3 flen "flen - 1" FAXVMI_MAX_BIT_SHIFT] assms(1,2) s p less_imp_le_nat [OF assms(2)]
    by (auto simp: le_diff_conv)
  moreover have "0 < length frame" "1 < length frame" using assms(1) by linarith+
  ultimately show ?thesis using c p by (auto simp: hdlc_check_def mem_simps)
qed

theorem hdlc_check_safe_witness:
  "\<exists>frame' flen'. hdlc_check [0x12, 0x34, 0] 2 = Some (frame', flen') \<and> length frame' = length [0x12, 0x34, 0 :: u16] \<and>
    unat flen' \<le> unat (2 :: u16)"
  by (rule hdlc_check_safe) simp_all

text \<open>the repair pass leaves the assembly buffer when the frame fills it. A frame that occupies
  the whole buffer and fails the check as received, with the address octet forced and with
  the control octet forced too, makes the first shift read the element past the buffer.\<close>

theorem hdlc_check_overruns:
  assumes "length frame = unat flen" and "2 \<le> unat flen" and "unat flen < 32768"
    and "faxvmi_gen_fcs16 frame flen \<noteq> Some FAXVMI_FCS16_GOOD"
    and "faxvmi_gen_fcs16 (frame[0 := FAXVMI_T30_ADDRESS]) flen \<noteq> Some FAXVMI_FCS16_GOOD"
    and "faxvmi_gen_fcs16 (frame[0 := FAXVMI_T30_ADDRESS, 1 := FAXVMI_T30_CONTROL]) flen \<noteq> Some FAXVMI_FCS16_GOOD"
  shows "hdlc_check frame flen = None"
proof -
  have s: "nat (sint flen) = unat flen" using assms(3) sint_of_nat_u16 [of "unat flen"] by simp
  have "hdlc_shift f 0 (unat flen) = None" if "length f = length frame" for f
    using hdlc_shift_out [of 0 "unat flen" f] that assms(1,2) by simp
  then have "hdlc_shifts FAXVMI_MAX_BIT_SHIFT f flen (flen - 1) = None" if "length f = length frame" for f
    using that s by (simp add: FAXVMI_MAX_BIT_SHIFT_def numeral_eq_Suc)
  moreover have "0 < length frame" "1 < length frame" using assms(1,2) by linarith+
  ultimately show ?thesis using assms(4-6) by (auto simp: hdlc_check_def mem_simps split: bind_splits)
qed

theorem hdlc_check_overruns_witness: "hdlc_check [0x12, 0x34] 2 = None"
  by (rule hdlc_check_overruns) (simp, simp, simp, (code_simp)+)

end
