(* ===== verification/Vmi.thy ===== *)
theory Vmi
  imports VmiHdlcRx
begin

unbundle bit_operations_syntax

text \<open>
  The virtual modem interface of \<^verbatim>\<open>src/fax/faxvmi.c\<close> and the null datapump of
  \<^verbatim>\<open>src/fax/faxvmi_null.c\<close>: construction, the per-block call that packs, runs the
  modulation and unpacks, status, control and destruction.

  The thirteen-slot tables name a modulation for each slot. Slots 0 to 4 are the null
  datapump, modelled here; the eight transmitters and receivers of V.21, V.27, V.29 and V.17
  are arguments of the definitions, a list of \<open>datapump\<close> records. A slot past the table is
  an out-of-bounds read and gives \<open>None\<close>. Memory fresh from \<open>sysdep_malloc\<close> holds
  arbitrary values, the argument \<open>raw_memory\<close>; allocation is assumed to succeed, as the
  code never checks it.
\<close>

subsection \<open>Configuration and the slot tables\<close>

record 'c faxvmi_cfg =
  fc_mode :: u16
  fc_reverse :: int
  fc_fifo_size :: u16
  fc_max_frame :: u16
  fc_frame_size :: u16
  fc_slot :: u16
  fc_modem_cfg :: 'c

definition FAXVMI_CFG :: "'c \<Rightarrow> 'c faxvmi_cfg" where
  "FAXVMI_CFG null = \<lparr>fc_mode = 0, fc_reverse = 0, fc_fifo_size = 128, fc_max_frame = 50,
     fc_frame_size = 128, fc_slot = 0, fc_modem_cfg = null\<rparr>"

record ('m, 'c, 's, 'q) datapump =
  dp_create :: "'m faxvmi_link \<Rightarrow> 'c \<Rightarrow> 'm faxvmi_link"
  dp_delete :: "'m faxvmi_link \<Rightarrow> 'm faxvmi_link"
  dp_process :: "'m faxvmi_link \<Rightarrow> u16 list \<Rightarrow> u16 \<Rightarrow> u16 \<Rightarrow> ('m faxvmi_link \<times> u16 list \<times> u16 \<times> u16 \<times> u32) option"
  dp_status :: "'m faxvmi_link \<Rightarrow> 's \<Rightarrow> 'm faxvmi_link \<times> 's \<times> u32"
  dp_control :: "'m faxvmi_link \<Rightarrow> 'q \<Rightarrow> 'm faxvmi_link \<times> u32"
  dp_message :: "'m faxvmi_link \<Rightarrow> u8 \<Rightarrow> string option"

definition null_create :: "'m faxvmi_link \<Rightarrow> 'c \<Rightarrow> 'm faxvmi_link" where
  "null_create dp cfg = dp\<lparr>lk_modem := None, lk_pack_count := 0x32, lk_pack_width := 8, lk_unpack_width := 8\<rparr>"

definition null_delete :: "'m faxvmi_link \<Rightarrow> 'm faxvmi_link" where
  "null_delete dp = dp"

fun null_copy :: "u16 list \<Rightarrow> u16 list \<Rightarrow> nat \<Rightarrow> nat \<Rightarrow> u16 list option" where
  "null_copy dst src i 0 = Some dst"
| "null_copy dst src i (Suc n) = do {
     v \<leftarrow> rd_at src i;
     dst \<leftarrow> wr_at dst i v;
     null_copy dst src (i + 1) n
   }"

text \<open>
  The tables hand the element count in the third place and the caller's result in the
  fourth; the null datapump ignores the third and takes the fourth for its sample count.
\<close>

definition null_process :: "'m faxvmi_link \<Rightarrow> u16 list \<Rightarrow> u16 \<Rightarrow> u16 \<Rightarrow> ('m faxvmi_link \<times> u16 list \<times> u16 \<times> u16 \<times> u32) option" where
  "null_process dp inp n count = do {
     samples \<leftarrow> null_copy (lk_ptr_0000 dp) inp 0 (nat (sint count));
     Some (dp\<lparr>lk_ptr_0000 := samples\<rparr>, inp, n, count, -1)
   }"

definition null_status :: "'m faxvmi_link \<Rightarrow> 's \<Rightarrow> 'm faxvmi_link \<times> 's \<times> u32" where
  "null_status dp st = (dp, st, -1)"

definition null_control :: "'m faxvmi_link \<Rightarrow> 'q \<Rightarrow> 'm faxvmi_link \<times> u32" where
  "null_control dp arg = (dp, -1)"

definition null_message :: "'m faxvmi_link \<Rightarrow> u8 \<Rightarrow> string option" where
  "null_message dp code = None"

definition null_pump :: "('m, 'c, 's, 'q) datapump" where
  "null_pump = \<lparr>dp_create = null_create, dp_delete = null_delete, dp_process = null_process,
     dp_status = null_status, dp_control = null_control, dp_message = null_message\<rparr>"

definition vxx_slot :: "('m, 'c, 's, 'q) datapump list \<Rightarrow> u16 \<Rightarrow> ('m, 'c, 's, 'q) datapump option" where
  "vxx_slot pumps slot = rd_at (replicate 5 null_pump @ pumps) (unat slot)"

subsection \<open>Construction and destruction\<close>

datatype vmi_block = Vmi_Block | Framer_Block | Link_Block | Fifo_Block | Frame_Block | Buf_Block | Samples_Block

record ('m, 'c) raw_memory =
  raw_elem :: "nat \<Rightarrow> u16"
  raw_vmi :: "('m, 'c) faxvmi"
  raw_null :: 'c

definition malloc_u16 :: "('m, 'c) raw_memory \<Rightarrow> nat \<Rightarrow> u16 list" where
  "malloc_u16 hp n = map (raw_elem hp) [0..<n]"

fun fill_loop :: "u16 \<Rightarrow> u16 list \<Rightarrow> nat \<Rightarrow> nat \<Rightarrow> u16 list option" where
  "fill_loop v buf i 0 = Some buf"
| "fill_loop v buf i (Suc n) = do { buf \<leftarrow> wr_at buf i v; fill_loop v buf (i + 1) n }"

definition vmi_set_cfg :: "'c faxvmi_cfg \<Rightarrow> ('m, 'c) faxvmi \<Rightarrow> ('m, 'c) faxvmi" where
  "vmi_set_cfg c vmi =
     vmi\<lparr>vm_mode := fc_mode c, vm_reverse := fc_reverse c, vm_fifo_size := fc_fifo_size c,
         vm_max_frame := fc_max_frame c, vm_frame_size := fc_frame_size c, vm_slot := fc_slot c,
         vm_modem_cfg := fc_modem_cfg c\<rparr>"

text \<open>The ring must hold a whole frame with its overhead; the cast truncates to 16 bits.\<close>

definition ring_size :: "('m, 'c) faxvmi \<Rightarrow> u16" where
  "ring_size vmi =
     (let need = uint (vm_max_frame vmi) + 3
      in if uint (vm_fifo_size vmi) \<ge> need then vm_fifo_size vmi else of_int need)"

text \<open>The resets that construction and control share, in the order of the source.\<close>

definition reset_bits :: "framer \<Rightarrow> framer" where
  "reset_bits fr =
     fr\<lparr>fr_pack_bit := 0, fr_unpack_bit := 0, fr_short_002e := fr_pad_001e fr,
        fr_pack_mask := 0, fr_pack_word := -1, fr_pack_acc := -1,
        fr_unpack_mask := 0, fr_unpack_word := -1, fr_unpack_acc := -1, fr_async_hunt := 1,
        fr_zero_run_bits := 0, fr_zero_run_send := 0, fr_zero_run_seen := 0\<rparr>"

definition reset_frame :: "framer \<Rightarrow> framer option" where
  "reset_frame fr = do {
     frame \<leftarrow> fill_loop 0 (fr_frame fr) 0 (unat (fr_frame_size fr));
     Some (fr\<lparr>fr_frame := frame, fr_pack_frame_left := 0, fr_frame_len := 0, fr_flags_wanted := 2,
        fr_pack_flagging := 1, fr_ones := 0, fr_in_frame := 0\<rparr>)
   }"

definition empty_ring :: "framer \<Rightarrow> framer option" where
  "empty_ring fr = do {
     fifo \<leftarrow> fill_loop 0 (fr_fifo fr) 0 (unat (fr_fifo_size fr));
     Some (fr\<lparr>fr_fifo := fifo, fr_rd := 0, fr_wr := 0, fr_count := 0, fr_residue := 0\<rparr>)
   }"

definition FAXVMI_create :: "('m, 'c, 's, 'q) datapump list \<Rightarrow> ('m, 'c) raw_memory \<Rightarrow> ('m, 'c) faxvmi option \<Rightarrow>
    'c faxvmi_cfg option \<Rightarrow> (('m, 'c) faxvmi \<times> vmi_block list) option" where
  "FAXVMI_create pumps hp given cfg = do {
     let created = (given = None);
     let vmi = (case given of None \<Rightarrow> raw_vmi hp | Some v \<Rightarrow> v);
     let vmi = vmi_set_cfg (case cfg of None \<Rightarrow> FAXVMI_CFG (raw_null hp) | Some c \<Rightarrow> c) vmi;
     let ring = ring_size vmi;
     let fr = vm_framer vmi;
     let fr = (if created then fr\<lparr>fr_fifo := malloc_u16 hp (unat ring), fr_fifo_size := ring\<rparr> else fr);
     fr \<leftarrow> empty_ring fr;
     let fr = reset_bits fr;
     let fr = (if created then fr\<lparr>fr_frame := malloc_u16 hp (unat (vm_frame_size vmi)), fr_frame_size := vm_frame_size vmi\<rparr> else fr);
     fr \<leftarrow> reset_frame fr;
     let lk = vm_link vmi;
     let lk = (if created then lk\<lparr>lk_modem := None, lk_buf := malloc_u16 hp 50, lk_ptr_0000 := malloc_u16 hp 200\<rparr> else lk);
     buf \<leftarrow> fill_loop 0xffff (lk_buf lk) 0 50;
     samples \<leftarrow> fill_loop 0 (lk_ptr_0000 lk) 0 200;
     dp \<leftarrow> vxx_slot pumps (vm_slot vmi);
     let lk = dp_create dp (lk\<lparr>lk_buf := buf, lk_ptr_0000 := samples\<rparr>) (vm_modem_cfg vmi);
     Some (vmi\<lparr>vm_framer := fr, vm_link := lk, vm_underrun := 1, vm_overflow := 0, vm_status := 0\<rparr>,
       if created
       then [Vmi_Block, Framer_Block, Link_Block, Fifo_Block, Frame_Block, Buf_Block, Samples_Block]
       else [])
   }"

text \<open>The modulation's own release, then the blocks in the order they are freed.\<close>

definition FAXVMI_delete :: "('m, 'c, 's, 'q) datapump list \<Rightarrow> ('m, 'c) faxvmi \<Rightarrow> ('m faxvmi_link \<times> vmi_block list) option" where
  "FAXVMI_delete pumps vmi = do {
     dp \<leftarrow> vxx_slot pumps (vm_slot vmi);
     Some (dp_delete dp (vm_link vmi),
       [Samples_Block, Buf_Block, Frame_Block, Fifo_Block, Link_Block, Framer_Block, Vmi_Block])
   }"

subsection \<open>The block call\<close>

definition vmi_reverse :: "u16 \<Rightarrow> (u16 list \<Rightarrow> u16 \<Rightarrow> u16 list option) option" where
  "vmi_reverse mode = rd_at [faxvmi_byte_reverse, faxvmi_byte_reverse, faxvmi_frame_reverse] (unat mode)"

definition vmi_pack :: "u16 \<Rightarrow> (('m, 'c) faxvmi \<Rightarrow> u16 list \<Rightarrow> u16 \<Rightarrow> (('m, 'c) faxvmi \<times> u16) option) option" where
  "vmi_pack mode = rd_at [faxvmi_simp_pack, faxvmi_asyc_pack, faxvmi_hdlc_frame] (unat mode)"

definition vmi_unpack :: "u16 \<Rightarrow> (('m, 'c) faxvmi \<Rightarrow> u16 list \<Rightarrow> u16 \<Rightarrow> (('m, 'c) faxvmi \<times> u16 list \<times> u16) option) option" where
  "vmi_unpack mode = rd_at [faxvmi_simp_unpack, faxvmi_asyc_unpack, faxvmi_hdlc_unframe] (unat mode)"

definition FAXVMI_STATUS_UNDERRUN :: u32 where
  "FAXVMI_STATUS_UNDERRUN = 0x01000000"

definition FAXVMI_STATUS_FULL :: u32 where
  "FAXVMI_STATUS_FULL = 0x02000000"

definition FAXVMI_STATUS_RESIDUE :: u32 where
  "FAXVMI_STATUS_RESIDUE = 0x04000000"

definition FAXVMI_STATUS_OVERFLOW :: u32 where
  "FAXVMI_STATUS_OVERFLOW = 0x08000000"

definition FAXVMI_STATUS_ZERORUN :: u32 where
  "FAXVMI_STATUS_ZERORUN = 0x10000000"

definition maybe_reverse :: "('m, 'c) faxvmi \<Rightarrow> u16 list \<Rightarrow> u16 \<Rightarrow> u16 list option" where
  "maybe_reverse vmi buf n =
     (if vm_reverse vmi \<noteq> 0 then do { f \<leftarrow> vmi_reverse (vm_mode vmi); f buf n } else Some buf)"

definition status_word :: "('m, 'c) faxvmi \<Rightarrow> u32 \<Rightarrow> u32" where
  "status_word vmi ret =
     (let fr = vm_framer vmi;
          st = ret AND NOT (FAXVMI_STATUS_UNDERRUN OR FAXVMI_STATUS_FULL OR FAXVMI_STATUS_RESIDUE OR
                 FAXVMI_STATUS_OVERFLOW OR FAXVMI_STATUS_ZERORUN);
          st = (if vm_underrun vmi \<noteq> 0 then st OR FAXVMI_STATUS_UNDERRUN else st);
          st = (if uint (fr_fifo_size fr) - uint (fr_count fr) < uint (vm_max_frame vmi) then st OR FAXVMI_STATUS_FULL else st);
          st = (if fr_residue fr \<noteq> 0 then st OR FAXVMI_STATUS_RESIDUE else st);
          st = (if vm_overflow vmi \<noteq> 0 then st OR FAXVMI_STATUS_OVERFLOW else st);
          st = (if fr_zero_run_seen fr \<noteq> 0 then st AND NOT FAXVMI_STATUS_ZERORUN else st)
      in st)"

definition FAXVMI_process :: "('m, 'c, 's, 'q) datapump list \<Rightarrow> ('m, 'c) faxvmi \<Rightarrow> u16 list \<Rightarrow> u16 list \<Rightarrow> u16 \<Rightarrow> u16 \<Rightarrow>
    (('m, 'c) faxvmi \<times> u16 list \<times> u16 list \<times> u16 \<times> u16 \<times> u32) option" where
  "FAXVMI_process pumps vmi data pcm count result = do {
     data \<leftarrow> maybe_reverse vmi data count;
     pack \<leftarrow> vmi_pack (vm_mode vmi);
     (vmi, n) \<leftarrow> pack vmi data count;
     dp \<leftarrow> vxx_slot pumps (vm_slot vmi);
     (lk, pcm, n, result, ret) \<leftarrow> dp_process dp (vm_link vmi) pcm n result;
     unpack \<leftarrow> vmi_unpack (vm_mode vmi);
     (vmi, data, m) \<leftarrow> unpack (vmi\<lparr>vm_link := lk\<rparr>) data n;
     data \<leftarrow> maybe_reverse vmi data m;
     let st = status_word vmi ret;
     Some (vmi\<lparr>vm_status := st\<rparr>, data, pcm, m, result, st)
   }"

subsection \<open>Status, control and message\<close>

record 's faxvmi_status =
  st_room :: u16
  st_residue :: int
  st_underrun :: int
  st_overflow :: int
  st_zero_run_seen :: int
  st_flag_0014 :: int
  st_modem_status :: "'s option"

definition FAXVMI_status :: "('m, 'c, 's, 'q) datapump list \<Rightarrow> ('m, 'c) faxvmi \<Rightarrow> 's faxvmi_status option \<Rightarrow>
    (('m, 'c) faxvmi \<times> 's faxvmi_status option \<times> u32) option" where
  "FAXVMI_status pumps vmi status =
     (case status of
        None \<Rightarrow> Some (vmi, None, -1)
      | Some st \<Rightarrow> do {
          (vmi, ms, ret) \<leftarrow>
            (case st_modem_status st of
               None \<Rightarrow> Some (vmi, None, 0)
             | Some ms \<Rightarrow> do {
                 dp \<leftarrow> vxx_slot pumps (vm_slot vmi);
                 let (lk, ms, ret) = dp_status dp (vm_link vmi) ms;
                 Some (vmi\<lparr>vm_link := lk\<rparr>, Some ms, ret)
               });
          let fr = vm_framer vmi;
          Some (vmi, Some (st\<lparr>st_room := fr_fifo_size fr - fr_count fr, st_residue := fr_residue fr,
            st_underrun := vm_underrun vmi, st_overflow := vm_overflow vmi,
            st_zero_run_seen := fr_zero_run_seen fr,
            st_flag_0014 := (if fr_flags_wanted fr \<le> 1 then 1 else 0), st_modem_status := ms\<rparr>), ret)
        })"

record 'q faxvmi_ctl =
  ct_empty :: bool
  ct_int_0004 :: int
  ct_short_0008 :: u16
  ct_int_000c :: int
  ct_short_0010 :: u16
  ct_control_req :: "'q option"

definition FAXVMI_CTL :: "'q faxvmi_ctl" where
  "FAXVMI_CTL = \<lparr>ct_empty = False, ct_int_0004 = 0, ct_short_0008 = 0, ct_int_000c = 0,
     ct_short_0010 = 0, ct_control_req = None\<rparr>"

definition FAXVMI_control :: "('m, 'c, 's, 'q) datapump list \<Rightarrow> ('m, 'c) faxvmi \<Rightarrow> 'q faxvmi_ctl option \<Rightarrow>
    (('m, 'c) faxvmi \<times> u32) option" where
  "FAXVMI_control pumps vmi ctl =
     (case ctl of
        None \<Rightarrow> Some (vmi, -1)
      | Some c \<Rightarrow> do {
          (vmi, ret) \<leftarrow>
            (case ct_control_req c of
               None \<Rightarrow> Some (vmi, 0)
             | Some req \<Rightarrow> do {
                 dp \<leftarrow> vxx_slot pumps (vm_slot vmi);
                 let (lk, ret) = dp_control dp (vm_link vmi) req;
                 Some (vmi\<lparr>vm_link := lk\<rparr>, ret)
               });
          vmi \<leftarrow>
            (if ct_int_000c c \<noteq> 0 \<and> ct_short_0010 c \<le> 2 then do {
               fr \<leftarrow> reset_frame (vm_framer vmi);
               Some (vmi\<lparr>vm_framer := reset_bits fr, vm_mode := ct_short_0010 c\<rparr>)
             } else Some vmi);
          fr \<leftarrow> (if ct_empty c then empty_ring (vm_framer vmi) else Some (vm_framer vmi));
          Some (vmi\<lparr>vm_framer := fr\<lparr>fr_zero_run_bits := ct_short_0008 c, fr_zero_run_send := ct_int_0004 c\<rparr>\<rparr>, ret)
        })"

definition FAXVMI_message :: "('m, 'c, 's, 'q) datapump list \<Rightarrow> ('m, 'c) faxvmi \<Rightarrow> u8 \<Rightarrow> string option option" where
  "FAXVMI_message pumps vmi code = do {
     dp \<leftarrow> vxx_slot pumps (vm_slot vmi);
     Some (dp_message dp (vm_link vmi) code)
   }"


subsection \<open>The two directions do not touch each other\<close>

text \<open>An instance with everything the packers may change erased, and the same for the unpackers.\<close>

definition framer_rx :: "framer \<Rightarrow> framer" where
  "framer_rx fr =
     fr\<lparr>fr_fifo := [], fr_rd := 0, fr_wr := 0, fr_count := 0, fr_residue := 0, fr_pack_mask := 0,
        fr_pack_word := 0, fr_pack_acc := 0, fr_pack_bit := 0, fr_zero_run_bits := 0,
        fr_zero_run_send := 0, fr_pack_frame_left := 0, fr_pack_flagging := 0\<rparr>"

definition rx_side :: "('m, 'c) faxvmi \<Rightarrow> ('m, 'c) faxvmi" where
  "rx_side vmi = vmi\<lparr>vm_underrun := 0, vm_framer := framer_rx (vm_framer vmi), vm_link := (vm_link vmi)\<lparr>lk_buf := []\<rparr>\<rparr>"

definition tx_side :: "('m, 'c) faxvmi \<Rightarrow> ('m, 'c) faxvmi" where
  "tx_side vmi = vmi\<lparr>vm_overflow := 0, vm_framer := (vm_framer vmi)\<lparr>fr_unpack_mask := 0, fr_unpack_word := 0,
     fr_unpack_acc := 0, fr_unpack_bit := 0, fr_async_hunt := 0, fr_zero_run_seen := 0, fr_frame := [],
     fr_frame_len := 0, fr_flags_wanted := 0, fr_ones := 0, fr_in_frame := 0\<rparr>\<rparr>"

lemma ring_push_rx: "ring_push fr v = Some fr' \<Longrightarrow> framer_rx fr' = framer_rx fr"
  by (auto simp: ring_push_def framer_rx_def bind_eq_Some_conv split: if_splits)

lemma ring_pop_rx: "ring_pop fr = Some (fr', x) \<Longrightarrow> framer_rx fr' = framer_rx fr"
  by (auto simp: ring_pop_def framer_rx_def bind_eq_Some_conv)

lemma framer_rx_count [simp]: "framer_rx (fr\<lparr>fr_count := c\<rparr>) = framer_rx fr"
  by (simp add: framer_rx_def)

lemma ring_copy_rx: "ring_copy fr p t n i = Some (fr', q) \<Longrightarrow> framer_rx fr' = framer_rx fr"
  by (induction fr p t n i arbitrary: fr' q rule: ring_copy.induct)
    (auto simp: bind_eq_Some_conv split: if_splits dest: ring_push_rx)

lemma rx_side_framer [simp]: "framer_rx fr = framer_rx (vm_framer vmi) \<Longrightarrow> rx_side (vmi\<lparr>vm_framer := fr\<rparr>) = rx_side vmi"
  by (simp add: rx_side_def)

lemma rx_side_set_underrun [simp]: "rx_side (set_underrun t vmi) = rx_side vmi" "rx_side (vmi\<lparr>vm_underrun := u\<rparr>) = rx_side vmi"
  by (simp_all add: rx_side_def set_underrun_def split: option.split)

lemma write_fifo_rx: "faxvmi_write_fifo vmi src c = Some (vmi', q) \<Longrightarrow> rx_side vmi' = rx_side vmi"
  by (auto simp: faxvmi_write_fifo_def bind_eq_Some_conv dest: ring_copy_rx)

lemma write_frame_loop_rx: "write_frame_loop vmi p n i = Some (vmi', q) \<Longrightarrow> rx_side vmi' = rx_side vmi"
proof (induction i arbitrary: vmi p n)
  case (Suc i)
  show ?case
  proof (cases "rd_at p 0")
    case (Some len)
    show ?thesis
    proof (cases "uint (fr_count (vm_framer vmi)) + sint len + 3 \<ge> uint (fr_fifo_size (vm_framer vmi))")
      case False
      from Suc.prems Some False obtain fr1 fcs fr2 p2 t k fr3 fr4 where
        "ring_push (vm_framer vmi) (len + 2) = Some fr1"
        "ring_copy (fr1\<lparr>fr_count := fr_count fr1 + 3\<rparr>) (tl p) (vm_underrun vmi) 0 (unat len) = Some (fr2, p2, t, k)"
        "ring_push fr2 (drop_bit 8 fcs) = Some fr3" "ring_push fr3 (fcs AND 0xff) = Some fr4"
        "write_frame_loop (set_underrun t (vmi\<lparr>vm_framer := fr4\<rparr>)) p2 (n + 1) i = Some (vmi', q)"
        by (auto simp: bind_eq_Some_conv Let_def)
      then show ?thesis using Suc.IH [of "set_underrun t (vmi\<lparr>vm_framer := fr4\<rparr>)"]
        by (auto dest!: ring_push_rx ring_copy_rx)
    qed (use Suc.prems Some in simp)
  qed (use Suc.prems in simp)
qed simp

lemma write_frame_rx: "faxvmi_write_frame vmi src c = Some (vmi', q) \<Longrightarrow> rx_side vmi' = rx_side vmi"
  by (auto simp: faxvmi_write_frame_def dest: write_frame_loop_rx)

text \<open>A step of a packer that leaves the receive side alone gives a packer that does.\<close>

definition keeps_rx :: "(('m, 'c) pack_regs \<Rightarrow> ('m, 'c) pack_regs option) \<Rightarrow> bool" where
  "keeps_rx step \<longleftrightarrow> (\<forall>r r'. step r = Some r' \<longrightarrow> rx_side (pr_vmi r') = rx_side (pr_vmi r))"

lemma pr_vmi_rx [simp]:
  "framer_rx fr = framer_rx (vm_framer (pr_vmi r)) \<Longrightarrow> rx_side (pr_vmi (pr_set_framer fr r)) = rx_side (pr_vmi r)"
  "rx_side (pr_vmi (pr_set_underrun u r)) = rx_side (pr_vmi r)"
  "pr_vmi (shift_bit r) = pr_vmi r"
  by (simp_all add: pr_set_framer_def pr_set_underrun_def shift_bit_def Let_def)

lemma refill_rx:
  "simp_refill r = Some r' \<Longrightarrow> rx_side (pr_vmi r') = rx_side (pr_vmi r)"
  "asyc_refill r = Some r' \<Longrightarrow> rx_side (pr_vmi r') = rx_side (pr_vmi r)"
  "hdlc_refill r = Some r' \<Longrightarrow> rx_side (pr_vmi r') = rx_side (pr_vmi r)"
proof -
  have z: "framer_rx (fr\<lparr>fr_zero_run_bits := b\<rparr>) = framer_rx fr" "framer_rx (fr\<lparr>fr_zero_run_send := k\<rparr>) = framer_rx fr" for fr b k
    by (simp_all add: framer_rx_def)
  show "simp_refill r = Some r' \<Longrightarrow> rx_side (pr_vmi r') = rx_side (pr_vmi r)"
    by (auto simp: simp_refill_def bind_eq_Some_conv split: if_splits dest: ring_pop_rx)
  show "asyc_refill r = Some r' \<Longrightarrow> rx_side (pr_vmi r') = rx_side (pr_vmi r)"
    by (auto simp: asyc_refill_def bind_eq_Some_conv Let_def z split: if_splits dest: ring_pop_rx)
  show "hdlc_refill r = Some r' \<Longrightarrow> rx_side (pr_vmi r') = rx_side (pr_vmi r)"
    by (auto simp: hdlc_refill_def bind_eq_Some_conv split: if_splits dest: ring_pop_rx)
qed

lemma bit_keeps_rx: "keeps_rx simp_bit" "keeps_rx asyc_bit" "keeps_rx hdlc_bit"
  by (auto simp: keeps_rx_def simp_bit_def asyc_bit_def hdlc_bit_def bind_eq_Some_conv Let_def split: if_splits dest: refill_rx)

lemma pack_loop_rx:
  "pack_loop step w em r nb n out nout buf = Some (r', q) \<Longrightarrow> keeps_rx step \<Longrightarrow> rx_side (pr_vmi r') = rx_side (pr_vmi r)"
proof (induction step w em r nb n out nout buf arbitrary: r' q rule: pack_loop.induct)
  case (1 step w em r nb n out nout buf)
  show ?case
  proof (cases "n = 0")
    case True
    with "1.prems" show ?thesis by (simp add: pack_loop.simps [of step w em r nb])
  next
    case n: False
    from "1.prems" n obtain r1 where r1: "step r = Some r1"
      by (subst (asm) pack_loop.simps) (auto simp: bind_eq_Some_conv)
    have s: "rx_side (pr_vmi r1) = rx_side (pr_vmi r)" using r1 "1.prems"(2) by (simp add: keeps_rx_def)
    show ?thesis
    proof (cases "nb + 1 = w")
      case True
      from "1.prems"(1) n r1 True obtain buf1 where b: "wr_at buf out (ucast (pr_acc r1 AND em)) = Some buf1"
        "pack_loop step w em r1 0 (n - 1) (out + 1) (nout + pr_real r1) buf1 = Some (r', q)"
        by (subst (asm) pack_loop.simps) (auto simp: bind_eq_Some_conv Let_def)
      from "1.IH"(1) [OF n r1 refl True b "1.prems"(2)] s show ?thesis by simp
    next
      case False
      from "1.prems"(1) n r1 False have "pack_loop step w em r1 (nb + 1) n out nout buf = Some (r', q)"
        by (subst (asm) pack_loop.simps) (simp add: Let_def)
      from "1.IH"(2) [OF n r1 refl False this "1.prems"(2)] s show ?thesis by simp
    qed
  qed
qed

lemma pack_run_rx: "pack_run step r = Some (r', q) \<Longrightarrow> keeps_rx step \<Longrightarrow> rx_side (pr_vmi r') = rx_side (pr_vmi r)"
  by (auto simp: pack_run_def Let_def dest: pack_loop_rx split: if_splits)

lemma pack_store_rx [simp]:
  "rx_side (pack_store r nb buf) = rx_side (pr_vmi r)" "rx_side (hdlc_store r nb buf) = rx_side (pr_vmi r)"
  "rx_side (set_residue k vmi) = rx_side vmi" "pr_vmi (load_regs16 vmi) = vmi" "pr_vmi (load_regs32 vmi) = vmi"
  by (simp_all add: pack_store_def hdlc_store_def set_residue_def load_regs16_def load_regs32_def rx_side_def framer_rx_def Let_def)

lemma pack_keeps_rx:
  "faxvmi_simp_pack vmi src c = Some (vmi', k) \<Longrightarrow> rx_side vmi' = rx_side vmi"
  "faxvmi_asyc_pack vmi src c = Some (vmi', k) \<Longrightarrow> rx_side vmi' = rx_side vmi"
  "faxvmi_hdlc_frame vmi src c = Some (vmi', k) \<Longrightarrow> rx_side vmi' = rx_side vmi"
  using bit_keeps_rx
  by (auto simp: faxvmi_simp_pack_def faxvmi_asyc_pack_def faxvmi_hdlc_frame_def bind_eq_Some_conv Let_def
      dest!: write_fifo_rx write_frame_rx pack_run_rx)

lemma unpack_keeps_tx:
  "faxvmi_simp_unpack vmi dst c = Some (vmi', q) \<Longrightarrow> tx_side vmi' = tx_side vmi"
  "faxvmi_asyc_unpack vmi dst c = Some (vmi', q) \<Longrightarrow> tx_side vmi' = tx_side vmi"
  "faxvmi_hdlc_unframe vmi dst c = Some (vmi', q) \<Longrightarrow> tx_side vmi' = tx_side vmi"
  by (auto simp: faxvmi_simp_unpack_def faxvmi_asyc_unpack_def faxvmi_hdlc_unframe_def store_rx_def tx_side_def bind_eq_Some_conv Let_def)

subsection \<open>What construction and control leave behind\<close>

lemma fill_loop_correct:
  "i + n \<le> length buf \<Longrightarrow> fill_loop v buf i n = Some (take i buf @ replicate n v @ drop (i + n) buf)"
proof (induction n arbitrary: buf i)
  case (Suc n)
  then have "take (Suc i) (buf[i := v]) = take i buf @ [v]" by (simp add: take_Suc_conv_app_nth)
  with Suc show ?case by (simp add: mem_simps)
qed simp

lemma fill_all: "n \<le> length buf \<Longrightarrow> fill_loop v buf 0 n = Some (replicate n v @ drop n buf)"
  by (simp add: fill_loop_correct)

lemma length_malloc [simp]: "length (malloc_u16 hp n) = n"
  by (simp add: malloc_u16_def)

text \<open>Ready for every mode: an empty ring, no bit in flight in either direction, no frame begun.\<close>

definition vmi_ready :: "('m, 'c) faxvmi \<Rightarrow> bool" where
  "vmi_ready vmi \<longleftrightarrow> hdlc_tx_ready vmi \<and> hdlc_rx_ready vmi \<and> rx_hunting vmi \<and> fr_residue (vm_framer vmi) = 0"

text \<open>The arrays are as long as the framer takes them to be, and the ring is not empty of cells.\<close>

definition framer_arrays :: "framer \<Rightarrow> bool" where
  "framer_arrays fr \<longleftrightarrow> 0 < unat (fr_fifo_size fr) \<and> length (fr_fifo fr) = unat (fr_fifo_size fr) \<and>
     unat (fr_frame_size fr) \<le> length (fr_frame fr)"

definition cleared :: "framer \<Rightarrow> framer" where
  "cleared fr = fr\<lparr>fr_fifo := replicate (unat (fr_fifo_size fr)) 0, fr_rd := 0, fr_wr := 0, fr_count := 0, fr_residue := 0\<rparr>"

lemma empty_ring_arrays: "length (fr_fifo fr) = unat (fr_fifo_size fr) \<Longrightarrow> empty_ring fr = Some (cleared fr)"
  by (simp add: empty_ring_def cleared_def fill_all)

lemma cleared_wf:
  assumes "0 < unat (fr_fifo_size fr)"
  shows "framer_wf (cleared fr)" "framer_held (cleared fr) = []"
  using assms by (simp_all add: cleared_def framer_wf_def ring_wf_def framer_held_def ring_held_def)

lemma reset_frame_arrays:
  "unat (fr_frame_size fr) \<le> length (fr_frame fr) \<Longrightarrow> \<exists>frame. length frame = length (fr_frame fr) \<and>
     reset_frame fr = Some (fr\<lparr>fr_frame := frame, fr_pack_frame_left := 0, fr_frame_len := 0, fr_flags_wanted := 2,
        fr_pack_flagging := 1, fr_ones := 0, fr_in_frame := 0\<rparr>)"
  by (rule exI [of _ "replicate (unat (fr_frame_size fr)) 0 @ drop (unat (fr_frame_size fr)) (fr_frame fr)"])
    (simp add: reset_frame_def fill_all)

lemma vxx_slot_in: "unat slot < 5 + length pumps \<Longrightarrow> \<exists>dp. vxx_slot pumps slot = Some dp"
  by (simp add: vxx_slot_def rd_at_in)

lemma ring_size_max:
  assumes "unat (vm_max_frame vmi) < 65533"
  shows "unat (ring_size vmi) = max (unat (vm_fifo_size vmi)) (unat (vm_max_frame vmi) + 3)"
proof -
  define k where "k = unat (vm_max_frame vmi) + 3"
  have k: "uint (vm_max_frame vmi) + 3 = int k" "k < 65536" using assms by (simp_all add: k_def)
  have f: "uint (vm_fifo_size vmi) \<ge> int k \<longleftrightarrow> k \<le> unat (vm_fifo_size vmi)"
    using of_nat_le_iff [of k "unat (vm_fifo_size vmi)", where 'a = int] by simp
  have "unat (ring_size vmi) = (if k \<le> unat (vm_fifo_size vmi) then unat (vm_fifo_size vmi) else k)"
    unfolding ring_size_def Let_def k(1) f using k(2) by (simp add: unat_of_nat_u16)
  then show ?thesis by (simp add: k_def max_def)
qed

lemma reset_ready:
  assumes "framer_wf (vm_framer vmi)" and "framer_held (vm_framer vmi) = []" and "fr_residue (vm_framer vmi) = 0"
    and "unat (fr_frame_size (vm_framer vmi)) \<le> length (fr_frame (vm_framer vmi))"
    and "fr_pack_mask (vm_framer vmi) = 0" "fr_pack_bit (vm_framer vmi) = 0" "fr_unpack_mask (vm_framer vmi) = 0"
    "fr_unpack_bit (vm_framer vmi) = 0" "fr_unpack_acc (vm_framer vmi) = -1" "fr_async_hunt (vm_framer vmi) = 1"
    "fr_pack_frame_left (vm_framer vmi) = 0" "fr_frame_len (vm_framer vmi) = 0" "fr_flags_wanted (vm_framer vmi) = 2"
    "fr_ones (vm_framer vmi) = 0"
  shows "vmi_ready vmi"
  using assms by (simp add: vmi_ready_def hdlc_tx_ready_def hdlc_rx_ready_def rx_hunting_def tx_clear_def rx_clear_def
      rx_fresh_def load_rx_def)

lemma create_ready:
  assumes "unat (fc_slot c) < 5 + length pumps" and "unat (fc_max_frame c) < 65533"
  shows "\<exists>vmi dp lk. FAXVMI_create pumps hp None (Some c) =
      Some (vmi, [Vmi_Block, Framer_Block, Link_Block, Fifo_Block, Frame_Block, Buf_Block, Samples_Block]) \<and>
    vmi_ready vmi \<and>
    unat (fr_fifo_size (vm_framer vmi)) = max (unat (fc_fifo_size c)) (unat (fc_max_frame c) + 3) \<and>
    fr_frame_size (vm_framer vmi) = fc_frame_size c \<and> fr_zero_run_send (vm_framer vmi) = 0 \<and>
    vm_mode vmi = fc_mode c \<and> vm_reverse vmi = fc_reverse c \<and> vm_max_frame vmi = fc_max_frame c \<and> vm_slot vmi = fc_slot c \<and>
    vm_underrun vmi = 1 \<and> vm_overflow vmi = 0 \<and> vm_status vmi = 0 \<and>
    vxx_slot pumps (fc_slot c) = Some dp \<and> vm_link vmi = dp_create dp lk (fc_modem_cfg c) \<and>
    lk_modem lk = None \<and> lk_buf lk = replicate 50 0xffff \<and> lk_ptr_0000 lk = replicate 200 0"
proof -
  obtain dp where dp: "vxx_slot pumps (fc_slot c) = Some dp" using vxx_slot_in [OF assms(1)] by blast
  let ?v = "vmi_set_cfg c (raw_vmi hp)"
  have v: "vm_max_frame ?v = fc_max_frame c" "vm_fifo_size ?v = fc_fifo_size c" "vm_frame_size ?v = fc_frame_size c"
    "vm_slot ?v = fc_slot c" "vm_modem_cfg ?v = fc_modem_cfg c" "vm_mode ?v = fc_mode c" "vm_reverse ?v = fc_reverse c"
    by (simp_all add: vmi_set_cfg_def)
  let ?ring = "ring_size ?v"
  have ring: "unat ?ring = max (unat (fc_fifo_size c)) (unat (fc_max_frame c) + 3)"
    using ring_size_max [of ?v] assms(2) by (simp add: v)
  let ?f1 = "(vm_framer ?v)\<lparr>fr_fifo := malloc_u16 hp (unat ?ring), fr_fifo_size := ?ring\<rparr>"
  let ?f2 = "(reset_bits (cleared ?f1))\<lparr>fr_frame := malloc_u16 hp (unat (fc_frame_size c)), fr_frame_size := fc_frame_size c\<rparr>"
  obtain frame where frame: "length frame = unat (fc_frame_size c)"
    "reset_frame ?f2 = Some (?f2\<lparr>fr_frame := frame, fr_pack_frame_left := 0, fr_frame_len := 0, fr_flags_wanted := 2,
        fr_pack_flagging := 1, fr_ones := 0, fr_in_frame := 0\<rparr>)" (is "_ = Some ?f3")
    using reset_frame_arrays [of ?f2] by auto
  have c1: "empty_ring ?f1 = Some (cleared ?f1)" by (rule empty_ring_arrays) simp
  have "0 < unat (fr_fifo_size ?f1)" using ring by simp
  note wf = cleared_wf [OF this]
  let ?lk = "(vm_link ?v)\<lparr>lk_modem := None, lk_buf := replicate 50 0xffff, lk_ptr_0000 := replicate 200 0\<rparr>"
  let ?vmi = "?v\<lparr>vm_framer := ?f3, vm_link := dp_create dp ?lk (fc_modem_cfg c), vm_underrun := 1, vm_overflow := 0, vm_status := 0\<rparr>"
  have "FAXVMI_create pumps hp None (Some c) =
      Some (?vmi, [Vmi_Block, Framer_Block, Link_Block, Fifo_Block, Frame_Block, Buf_Block, Samples_Block])"
    using frame(2) dp c1 by (simp add: FAXVMI_create_def Let_def v fill_all)
  moreover have "vmi_ready ?vmi"
    by (rule reset_ready)
      (use wf frame(1) in \<open>simp_all add: reset_bits_def framer_wf_def framer_held_def\<close>, simp add: cleared_def)
  moreover have "fr_fifo_size ?f3 = ?ring" "fr_zero_run_send ?f3 = 0" by (simp_all add: reset_bits_def cleared_def)
  ultimately show ?thesis using ring dp
    by (intro exI [of _ ?vmi] exI [of _ dp] exI [of _ ?lk]) (simp add: v)
qed

subsection \<open>Properties of the interface\<close>

text \<open>Construction leaves an instance ready for any mode, whatever the allocated memory held.
  For a slot of the table the constructor succeeds; the ring holds the larger of the
  configured size and the longest frame plus its three elements of overhead; the instance
  has an empty ring, no bits in flight and no frame begun in either direction, reports an
  underrun, and the modulation was created on a link whose buffers are in their idle state.\<close>

theorem FAXVMI_create_ready:
  assumes "unat (fc_slot c) < 5 + length pumps" and "unat (fc_max_frame c) < 65533"
  shows "\<exists>vmi dp lk. FAXVMI_create pumps hp None (Some c) =
      Some (vmi, [Vmi_Block, Framer_Block, Link_Block, Fifo_Block, Frame_Block, Buf_Block, Samples_Block]) \<and>
    vmi_ready vmi \<and>
    unat (fr_fifo_size (vm_framer vmi)) = max (unat (fc_fifo_size c)) (unat (fc_max_frame c) + 3) \<and>
    fr_frame_size (vm_framer vmi) = fc_frame_size c \<and> fr_zero_run_send (vm_framer vmi) = 0 \<and>
    vm_mode vmi = fc_mode c \<and> vm_reverse vmi = fc_reverse c \<and> vm_max_frame vmi = fc_max_frame c \<and> vm_slot vmi = fc_slot c \<and>
    vm_underrun vmi = 1 \<and> vm_overflow vmi = 0 \<and> vm_status vmi = 0 \<and>
    vxx_slot pumps (fc_slot c) = Some dp \<and> vm_link vmi = dp_create dp lk (fc_modem_cfg c) \<and>
    lk_modem lk = None \<and> lk_buf lk = replicate 50 0xffff \<and> lk_ptr_0000 lk = replicate 200 0"
  by (rule create_ready [OF assms])

theorem FAXVMI_create_ready_witness:
  "\<exists>vmi dp lk. FAXVMI_create ([] :: (unit, unit, unit, unit) datapump list) \<lparr>raw_elem = \<lambda>i. 0xdead, raw_vmi = demo_vmi 7, raw_null = ()\<rparr> None
        (Some (FAXVMI_CFG ())) =
      Some (vmi, [Vmi_Block, Framer_Block, Link_Block, Fifo_Block, Frame_Block, Buf_Block, Samples_Block]) \<and>
    vmi_ready vmi \<and>
    unat (fr_fifo_size (vm_framer vmi)) = max (unat (fc_fifo_size (FAXVMI_CFG ()))) (unat (fc_max_frame (FAXVMI_CFG ())) + 3) \<and>
    fr_frame_size (vm_framer vmi) = fc_frame_size (FAXVMI_CFG ()) \<and> fr_zero_run_send (vm_framer vmi) = 0 \<and>
    vm_mode vmi = fc_mode (FAXVMI_CFG ()) \<and> vm_reverse vmi = fc_reverse (FAXVMI_CFG ()) \<and>
    vm_max_frame vmi = fc_max_frame (FAXVMI_CFG ()) \<and> vm_slot vmi = fc_slot (FAXVMI_CFG ()) \<and>
    vm_underrun vmi = 1 \<and> vm_overflow vmi = 0 \<and> vm_status vmi = 0 \<and>
    vxx_slot ([] :: (unit, unit, unit, unit) datapump list) (fc_slot (FAXVMI_CFG ())) = Some dp \<and>
    vm_link vmi = dp_create dp lk (fc_modem_cfg (FAXVMI_CFG ())) \<and>
    lk_modem lk = None \<and> lk_buf lk = replicate 50 0xffff \<and> lk_ptr_0000 lk = replicate 200 0"
  by (rule FAXVMI_create_ready) (simp_all add: FAXVMI_CFG_def)

text \<open>Control with the reset and the empty requests brings an instance in any state back to
  readiness: whatever was queued, in flight or half assembled is gone, the mode is the one
  asked for, and the asynchronous zero run is armed as the request says. It needs only that
  the arrays are as long as recorded.\<close>

theorem FAXVMI_control_resets:
  assumes "framer_arrays (vm_framer vmi)" and "ct_int_000c c \<noteq> 0" and "ct_short_0010 c \<le> 2"
    and "ct_empty c" and "ct_control_req c = None"
  shows "\<exists>vmi'. FAXVMI_control pumps vmi (Some c) = Some (vmi', 0) \<and> vmi_ready vmi' \<and> vm_mode vmi' = ct_short_0010 c \<and>
    framer_arrays (vm_framer vmi') \<and> fr_zero_run_bits (vm_framer vmi') = ct_short_0008 c \<and>
    fr_zero_run_send (vm_framer vmi') = ct_int_0004 c \<and> vm_link vmi' = vm_link vmi"
proof -
  let ?f = "vm_framer vmi"
  obtain frame where frame: "length frame = length (fr_frame ?f)"
    "reset_frame ?f = Some (?f\<lparr>fr_frame := frame, fr_pack_frame_left := 0, fr_frame_len := 0, fr_flags_wanted := 2,
        fr_pack_flagging := 1, fr_ones := 0, fr_in_frame := 0\<rparr>)" (is "_ = Some ?f1")
    using reset_frame_arrays [of ?f] assms(1) by (auto simp: framer_arrays_def)
  have sz: "fr_fifo (reset_bits ?f1) = fr_fifo ?f" "fr_fifo_size (reset_bits ?f1) = fr_fifo_size ?f"
    by (simp_all add: reset_bits_def)
  have e: "empty_ring (reset_bits ?f1) = Some (cleared (reset_bits ?f1))"
    by (rule empty_ring_arrays) (use sz assms(1) in \<open>simp add: framer_arrays_def\<close>)
  have "0 < unat (fr_fifo_size (reset_bits ?f1))" using sz assms(1) by (simp add: framer_arrays_def)
  note wf = cleared_wf [OF this]
  let ?f3 = "(cleared (reset_bits ?f1))\<lparr>fr_zero_run_bits := ct_short_0008 c, fr_zero_run_send := ct_int_0004 c\<rparr>"
  let ?vmi = "vmi\<lparr>vm_mode := ct_short_0010 c, vm_framer := ?f3\<rparr>"
  have "FAXVMI_control pumps vmi (Some c) = Some (?vmi, 0)"
    using assms(2-5) frame(2) e by (simp add: FAXVMI_control_def)
  moreover have "vmi_ready ?vmi"
    by (rule reset_ready)
      (use wf frame(1) assms(1) in \<open>simp_all add: framer_wf_def framer_held_def\<close>,
        simp_all add: cleared_def reset_bits_def framer_arrays_def)
  moreover have "framer_arrays ?f3"
    using assms(1) frame(1) by (simp add: framer_arrays_def cleared_def reset_bits_def)
  ultimately show ?thesis by (intro exI [of _ ?vmi]) simp
qed

theorem FAXVMI_control_resets_witness:
  "\<exists>vmi'. FAXVMI_control ([] :: (unit, unit, unit, unit) datapump list) (demo_vmi 0)
      (Some (FAXVMI_CTL\<lparr>ct_empty := True, ct_int_000c := 1, ct_short_0010 := 2\<rparr>)) = Some (vmi', 0) \<and> vmi_ready vmi' \<and>
    vm_mode vmi' = ct_short_0010 (FAXVMI_CTL\<lparr>ct_empty := True, ct_int_000c := 1, ct_short_0010 := 2\<rparr> :: unit faxvmi_ctl) \<and>
    framer_arrays (vm_framer vmi') \<and>
    fr_zero_run_bits (vm_framer vmi') = ct_short_0008 (FAXVMI_CTL\<lparr>ct_empty := True, ct_int_000c := 1, ct_short_0010 := 2\<rparr> :: unit faxvmi_ctl) \<and>
    fr_zero_run_send (vm_framer vmi') = ct_int_0004 (FAXVMI_CTL\<lparr>ct_empty := True, ct_int_000c := 1, ct_short_0010 := 2\<rparr> :: unit faxvmi_ctl) \<and>
    vm_link vmi' = vm_link (demo_vmi 0)"
  by (rule FAXVMI_control_resets)
    (simp_all add: FAXVMI_CTL_def demo_vmi_def framer_arrays_def, simp_all add: fresh_framer_def)

text \<open>Destruction frees exactly the blocks construction allocated, each once, and no block
  after the one that holds the pointer to it.\<close>

theorem FAXVMI_delete_frees:
  assumes "FAXVMI_create pumps hp None cfg = Some (vmi, blocks)"
  shows "\<exists>lk freed. FAXVMI_delete pumps vmi = Some (lk, freed) \<and> distinct freed \<and> set freed = set blocks \<and>
    sorted_wrt (\<lambda>a b. (a, b) \<notin> {(Vmi_Block, Framer_Block), (Vmi_Block, Link_Block), (Framer_Block, Fifo_Block),
      (Framer_Block, Frame_Block), (Link_Block, Buf_Block), (Link_Block, Samples_Block)}) freed"
  using assms by (auto simp: FAXVMI_create_def FAXVMI_delete_def bind_eq_Some_conv Let_def)

theorem FAXVMI_delete_frees_witness:
  "\<exists>lk freed vmi blocks.
    FAXVMI_create ([] :: (unit, unit, unit, unit) datapump list) \<lparr>raw_elem = \<lambda>i. 0, raw_vmi = demo_vmi 0, raw_null = ()\<rparr> None None = Some (vmi, blocks) \<and>
    FAXVMI_delete ([] :: (unit, unit, unit, unit) datapump list) vmi = Some (lk, freed) \<and> distinct freed \<and> set freed = set blocks \<and>
    sorted_wrt (\<lambda>a b. (a, b) \<notin> {(Vmi_Block, Framer_Block), (Vmi_Block, Link_Block), (Framer_Block, Fifo_Block),
      (Framer_Block, Frame_Block), (Link_Block, Buf_Block), (Link_Block, Samples_Block)}) freed"
proof -
  let ?hp = "\<lparr>raw_elem = \<lambda>i. 0, raw_vmi = demo_vmi 0, raw_null = ()\<rparr>"
  let ?pumps = "[] :: (unit, unit, unit, unit) datapump list"
  have "map_option (\<lambda>_. ()) (FAXVMI_create ?pumps ?hp None None) = Some ()"
    by code_simp
  then obtain vmi blocks where "FAXVMI_create ?pumps ?hp None None = Some (vmi, blocks)" by auto
  with FAXVMI_delete_frees [OF this] show ?thesis by blast
qed

subsection \<open>The block call\<close>

lemmas status_bits = FAXVMI_STATUS_UNDERRUN_def FAXVMI_STATUS_FULL_def FAXVMI_STATUS_RESIDUE_def
  FAXVMI_STATUS_OVERFLOW_def FAXVMI_STATUS_ZERORUN_def

lemma status_word_bits:
  "bit (status_word vmi ret) n \<longleftrightarrow>
     (if n = 24 then vm_underrun vmi \<noteq> 0
      else if n = 25 then uint (fr_fifo_size (vm_framer vmi)) - uint (fr_count (vm_framer vmi)) < uint (vm_max_frame vmi)
      else if n = 26 then fr_residue (vm_framer vmi) \<noteq> 0
      else if n = 27 then vm_overflow vmi \<noteq> 0
      else n \<noteq> 28 \<and> bit ret n)"
proof -
  have f: "FAXVMI_STATUS_UNDERRUN = push_bit 24 1" "FAXVMI_STATUS_FULL = push_bit 25 1" "FAXVMI_STATUS_RESIDUE = push_bit 26 1"
    "FAXVMI_STATUS_OVERFLOW = push_bit 27 1" "FAXVMI_STATUS_ZERORUN = push_bit 28 1"
    by (simp_all add: status_bits)
  have b: "bit (push_bit k 1 :: u32) n \<longleftrightarrow> n = k" if "k < 32" for k
    using that by (auto simp: bit_push_bit_iff bit_1_iff simp del: push_bit_of_1)
  have l: "bit ret n \<Longrightarrow> n < 32" using bit_imp_le_length [of ret n] by simp
  show ?thesis
    unfolding status_word_def f Let_def
    by (simp add: bit_or_iff bit_and_iff bit_not_iff b del: push_bit_of_1) (auto dest: l)
qed

text \<open>the status word a block call returns and stores. Bits 24 to 27 report an underrun, a
  ring without room for a whole frame, elements left over and a receive overflow, as they
  stand after the call; bit 28, the zero run, is never set; every other bit is the
  modulation's.\<close>

theorem FAXVMI_process_status:
  assumes "FAXVMI_process pumps vmi data pcm count result = Some (vmi', data', pcm', count', result', st)"
  shows "vm_status vmi' = st \<and>
    (bit st 24 \<longleftrightarrow> vm_underrun vmi' \<noteq> 0) \<and>
    (bit st 25 \<longleftrightarrow> uint (fr_fifo_size (vm_framer vmi')) - uint (fr_count (vm_framer vmi')) < uint (vm_max_frame vmi')) \<and>
    (bit st 26 \<longleftrightarrow> fr_residue (vm_framer vmi') \<noteq> 0) \<and>
    (bit st 27 \<longleftrightarrow> vm_overflow vmi' \<noteq> 0) \<and> \<not> bit st 28"
proof -
  from assms obtain v ret where "vmi' = v\<lparr>vm_status := st\<rparr>" "st = status_word v ret"
    by (auto simp: FAXVMI_process_def bind_eq_Some_conv Let_def)
  then show ?thesis by (simp add: status_word_bits)
qed

text \<open>The null datapump carries the packed elements back: it neither changes them nor their number.\<close>

lemma null_copy_in:
  "i + n \<le> length src \<Longrightarrow> i + n \<le> length dst \<Longrightarrow> \<exists>dst'. null_copy dst src i n = Some dst' \<and> length dst' = length dst"
proof (induction n arbitrary: i dst)
  case (Suc n)
  then show ?case using Suc.IH [of "i + 1" "dst[i := src ! i]"] by (simp add: mem_simps)
qed simp

lemma null_process_loops:
  assumes "sint count \<le> int (length pcm)" and "sint count \<le> int (length (lk_ptr_0000 lk))"
  shows "\<exists>s. null_process lk pcm n count = Some (lk\<lparr>lk_ptr_0000 := s\<rparr>, pcm, n, count, -1) \<and> length s = length (lk_ptr_0000 lk)"
proof -
  have "nat (sint count) \<le> length pcm" "nat (sint count) \<le> length (lk_ptr_0000 lk)" using assms by linarith+
  then show ?thesis using null_copy_in [of 0 "nat (sint count)" pcm "lk_ptr_0000 lk"] by (auto simp: null_process_def)
qed

lemma vxx_slot_null: "slot \<le> 4 \<Longrightarrow> vxx_slot pumps slot = Some null_pump"
proof -
  assume "slot \<le> 4"
  then have "unat slot < 5" by (simp add: word_le_nat_alt)
  then show ?thesis by (simp add: vxx_slot_def rd_at_def nth_append)
qed

lemma maybe_reverse_octets:
  assumes "vm_mode vmi = 0 \<or> vm_mode vmi = 1" and "unat n = length xs"
  shows "maybe_reverse vmi (xs @ rest) n = Some ((if vm_reverse vmi \<noteq> 0 then map byte_reversed xs else xs) @ rest)"
  using byte_reverse_walk_correct [of "[]" "xs @ rest" "length xs"] assms
  by (auto simp: maybe_reverse_def vmi_reverse_def rd_at_def faxvmi_byte_reverse_def)

lemma rx_side_eqs:
  assumes "rx_side v = rx_side v'"
  shows "vm_mode v = vm_mode v'" "vm_reverse v = vm_reverse v'" "vm_slot v = vm_slot v'" "vm_max_frame v = vm_max_frame v'"
    "lk_ptr_0000 (vm_link v) = lk_ptr_0000 (vm_link v')" "lk_pack_count (vm_link v) = lk_pack_count (vm_link v')"
    "lk_unpack_width (vm_link v) = lk_unpack_width (vm_link v')" "rx_hunting v = rx_hunting v'"
    "rx_clear v = rx_clear v'"
proof -
  have "f (rx_side v) = f (rx_side v')" for f :: "('a, 'b) faxvmi \<Rightarrow> 'z" by (simp add: assms)
  note e = this
  show "vm_mode v = vm_mode v'" "vm_reverse v = vm_reverse v'" "vm_slot v = vm_slot v'" "vm_max_frame v = vm_max_frame v'"
    "lk_ptr_0000 (vm_link v) = lk_ptr_0000 (vm_link v')" "lk_pack_count (vm_link v) = lk_pack_count (vm_link v')"
    "lk_unpack_width (vm_link v) = lk_unpack_width (vm_link v')"
    using e [of vm_mode] e [of vm_reverse] e [of vm_slot] e [of vm_max_frame] e [of "\<lambda>v. lk_ptr_0000 (vm_link v)"]
      e [of "\<lambda>v. lk_pack_count (vm_link v)"] e [of "\<lambda>v. lk_unpack_width (vm_link v)"]
    by (simp_all add: rx_side_def)
  have "fr_unpack_mask (vm_framer v) = fr_unpack_mask (vm_framer v')" "fr_unpack_bit (vm_framer v) = fr_unpack_bit (vm_framer v')"
    "fr_unpack_acc (vm_framer v) = fr_unpack_acc (vm_framer v')" "fr_async_hunt (vm_framer v) = fr_async_hunt (vm_framer v')"
    using e [of "\<lambda>v. fr_unpack_mask (vm_framer v)"] e [of "\<lambda>v. fr_unpack_bit (vm_framer v)"]
      e [of "\<lambda>v. fr_unpack_acc (vm_framer v)"] e [of "\<lambda>v. fr_async_hunt (vm_framer v)"]
    by (simp_all add: rx_side_def framer_rx_def)
  then show "rx_hunting v = rx_hunting v'" "rx_clear v = rx_clear v'" by (simp_all add: rx_hunting_def rx_clear_def)
qed

lemma asyc_call:
  assumes "vmi_ready vmi" and "vm_mode vmi = 1" and "vm_slot vmi \<le> 4" and "fr_zero_run_send (vm_framer vmi) = 0"
    and "lk_pack_count (vm_link vmi) = 50" and "lk_pack_width (vm_link vmi) = 8" and "lk_unpack_width (vm_link vmi) = 8"
    and "length (lk_buf (vm_link vmi)) = 50" and "sint result \<le> int (length pcm)" and "sint result \<le> int (length (lk_ptr_0000 (vm_link vmi)))"
    and "\<forall>v \<in> set xs. v AND 0xff = v" and "length xs \<le> 39" and "unat count = length xs"
    and "length xs \<le> unat (vm_max_frame vmi)" and "length xs \<le> unat (fr_fifo_size (vm_framer vmi))"
  shows "\<exists>vmi' st. FAXVMI_process pumps vmi (xs @ rest) pcm count result = Some (vmi', xs @ rest, pcm, count, result, st) \<and>
    \<not> bit st 27"
proof -
  define ys where "ys = (if vm_reverse vmi \<noteq> 0 then map byte_reversed xs else xs)"
  have ys: "length ys = length xs" "\<forall>v \<in> set ys. v AND 0xff = v"
    using assms(11) by (auto simp: ys_def byte_reversed_octet)
  have rev2: "(if vm_reverse vmi \<noteq> 0 then map byte_reversed ys else ys) = xs"
    using assms(11) by (auto simp: ys_def byte_reversed_involution map_idI)
  have clear: "tx_clear vmi" "rx_hunting vmi" using assms(1) by (simp_all add: vmi_ready_def hdlc_tx_ready_def)
  obtain v1 k es where pk: "faxvmi_asyc_pack vmi (ys @ rest) count = Some (v1, k)"
    and buf: "lk_buf (vm_link v1) = es @ drop 50 (lk_buf (vm_link vmi))" and len: "length es = 50"
    and bits: "concat (map (elem_bits 8) es) = concat (map char_bits ys) @ replicate (50 * 8 - 10 * length ys) True"
    using asyc_pack_elems [of vmi 50 ys count rest] clear(1) assms(4-8,12,13,15) ys(1) by (auto simp: width_ok_def)
  note eqs = rx_side_eqs [OF pack_keeps_rx(2) [OF pk]]
  have k: "k = 50" using pk eqs(6) assms(5)
    by (auto simp: faxvmi_asyc_pack_def bind_eq_Some_conv Let_def set_residue_def)
  obtain sm where np: "null_process (vm_link v1) pcm k result = Some ((vm_link v1)\<lparr>lk_ptr_0000 := sm\<rparr>, pcm, k, result, -1)"
    using null_process_loops [of result pcm "vm_link v1" k] assms(9,10) eqs(5) by auto
  let ?v2 = "v1\<lparr>vm_link := (vm_link v1)\<lparr>lk_ptr_0000 := sm\<rparr>\<rparr>"
  have h: "rx_hunting ?v2" using clear(2) eqs(8) by (simp add: rx_hunting_def rx_clear_def)
  have dl: "length ys \<le> length (ys @ rest)" by simp
  have "\<exists>v3. faxvmi_asyc_unpack ?v2 (ys @ rest) (of_nat 50) =
      Some (v3, ys @ drop (length ys) (ys @ rest), of_nat (length ys)) \<and> vm_overflow v3 = 0 \<and>
    fr_async_hunt (vm_framer v3) \<noteq> 0 \<and> bit (fr_unpack_acc (vm_framer v3)) 0"
    by (rule asyc_unpack_elems [OF h, where w = 8 and es = es and rest = "drop 50 (lk_buf (vm_link vmi))"])
      (use eqs(4,7) assms(7,12,14) buf len bits ys in \<open>simp_all add: width_ok_def\<close>)
  then obtain v3 where un: "faxvmi_asyc_unpack ?v2 (ys @ rest) 50 = Some (v3, ys @ rest, of_nat (length ys))"
    and ov: "vm_overflow v3 = 0" by auto
  have c: "of_nat (length ys) = count" using assms(13) ys(1) by (metis of_nat_unat_u16)
  have tx: "tx_side v3 = tx_side ?v2" by (rule unpack_keeps_tx(2) [OF un])
  have keep: "vm_mode v3 = vm_mode vmi" "vm_reverse v3 = vm_reverse vmi"
    using arg_cong [OF tx, of vm_mode] arg_cong [OF tx, of vm_reverse] eqs(1,2) by (simp_all add: tx_side_def)
  have r1: "maybe_reverse vmi (xs @ rest) count = Some (ys @ rest)"
    using maybe_reverse_octets [of vmi count xs rest] assms(2,13) by (simp add: ys_def)
  have r2: "maybe_reverse v3 (ys @ rest) count = Some (xs @ rest)"
    using maybe_reverse_octets [of v3 count ys rest] assms(2,13) keep ys(1) rev2 by simp
  have "FAXVMI_process pumps vmi (xs @ rest) pcm count result =
      Some (v3\<lparr>vm_status := status_word v3 (-1)\<rparr>, xs @ rest, pcm, count, result, status_word v3 (-1))"
    using r1 r2 pk np un k c eqs(1,3) assms(2,3)
    by (simp add: FAXVMI_process_def vmi_pack_def vmi_unpack_def rd_at_def vxx_slot_null null_pump_def Let_def)
  then show ?thesis using ov by (simp add: status_word_bits)
qed

text \<open>C30: a block through the null datapump comes back unchanged. An instance constructed in
  asynchronous mode on one of the null slots, given up to 39 octets in a block call, packs
  them into characters, carries the elements through the datapump, unpacks them and leaves
  in the caller's buffer the same octets and the same count, with no overflow reported; bit
  reversal on the way in and out, when configured, cancels.\<close>

theorem FAXVMI_loopback:
  assumes "FAXVMI_create pumps hp None (Some c) = Some (vmi, blocks)"
    and "fc_mode c = 1" and "fc_slot c \<le> 4" and "unat (fc_max_frame c) < 65533"
    and "\<forall>v \<in> set xs. v AND 0xff = v" and "length xs \<le> 39" and "length xs \<le> unat (fc_max_frame c)"
    and "unat count = length xs" and "sint result \<le> 200" and "sint result \<le> int (length pcm)"
  shows "\<exists>vmi' st. FAXVMI_process pumps vmi (xs @ rest) pcm count result = Some (vmi', xs @ rest, pcm, count, result, st) \<and>
    \<not> bit st 27"
proof -
  have "unat (fc_slot c) < 5 + length pumps" using assms(3) by (simp add: word_le_nat_alt)
  from create_ready [OF this assms(4), of hp] assms(1) vxx_slot_null [OF assms(3), of pumps]
  obtain lk where v: "vmi_ready vmi"
    "unat (fr_fifo_size (vm_framer vmi)) = max (unat (fc_fifo_size c)) (unat (fc_max_frame c) + 3)"
    "fr_zero_run_send (vm_framer vmi) = 0" "vm_mode vmi = fc_mode c" "vm_max_frame vmi = fc_max_frame c" "vm_slot vmi = fc_slot c"
    "vm_link vmi = null_create lk (fc_modem_cfg c)" "lk_buf lk = replicate 50 0xffff" "lk_ptr_0000 lk = replicate 200 0"
    by (auto simp: null_pump_def)
  show ?thesis
    by (rule asyc_call) (use v assms in \<open>simp_all add: null_create_def\<close>)
qed

theorem FAXVMI_loopback_witness:
  "\<exists>vmi blocks vmi' st.
    FAXVMI_create ([] :: (unit, unit, unit, unit) datapump list) \<lparr>raw_elem = \<lambda>i. 0, raw_vmi = demo_vmi 0, raw_null = ()\<rparr> None
      (Some ((FAXVMI_CFG ())\<lparr>fc_mode := 1, fc_reverse := 1\<rparr>)) = Some (vmi, blocks) \<and>
    FAXVMI_process ([] :: (unit, unit, unit, unit) datapump list) vmi ([0x41, 0x7e] @ [9]) [] 2 0 =
      Some (vmi', [0x41, 0x7e] @ [9], [], 2, 0, st) \<and> \<not> bit st 27"
proof -
  let ?hp = "\<lparr>raw_elem = \<lambda>i. 0, raw_vmi = demo_vmi 0, raw_null = ()\<rparr>"
  let ?c = "(FAXVMI_CFG ())\<lparr>fc_mode := 1, fc_reverse := 1\<rparr>"
  let ?pumps = "[] :: (unit, unit, unit, unit) datapump list"
  have "map_option (\<lambda>_. ()) (FAXVMI_create ?pumps ?hp None (Some ?c)) = Some ()"
    by code_simp
  then obtain vmi blocks where c: "FAXVMI_create ?pumps ?hp None (Some ?c) = Some (vmi, blocks)" by auto
  have "\<exists>vmi' st. FAXVMI_process ?pumps vmi ([0x41, 0x7e] @ [9]) [] 2 0 =
      Some (vmi', [0x41, 0x7e] @ [9], [], 2, 0, st) \<and> \<not> bit st 27"
    by (rule FAXVMI_loopback [OF c]) (simp_all add: FAXVMI_CFG_def)
  with c show ?thesis by blast
qed

theorem FAXVMI_process_status_witness:
  "\<exists>vmi' data' pcm' count' result' st.
    FAXVMI_process ([] :: (unit, unit, unit, unit) datapump list) (demo_vmi 1) [0x41] [] 1 0 = Some (vmi', data', pcm', count', result', st) \<and>
    vm_status vmi' = st \<and> (bit st 24 \<longleftrightarrow> vm_underrun vmi' \<noteq> 0) \<and>
    (bit st 25 \<longleftrightarrow> uint (fr_fifo_size (vm_framer vmi')) - uint (fr_count (vm_framer vmi')) < uint (vm_max_frame vmi')) \<and>
    (bit st 26 \<longleftrightarrow> fr_residue (vm_framer vmi') \<noteq> 0) \<and>
    (bit st 27 \<longleftrightarrow> vm_overflow vmi' \<noteq> 0) \<and> \<not> bit st 28"
proof -
  let ?pumps = "[] :: (unit, unit, unit, unit) datapump list"
  have "map_option (\<lambda>_. ()) (FAXVMI_process ?pumps (demo_vmi 1) [0x41] [] 1 0) = Some ()"
    by code_simp
  then obtain vmi' data' pcm' count' result' st where
    c: "FAXVMI_process ?pumps (demo_vmi 1) [0x41] [] 1 0 = Some (vmi', data', pcm', count', result', st)" by auto
  with FAXVMI_process_status [OF c] show ?thesis by blast
qed

text \<open>The two directions of an instance do not disturb each other. A packer changes nothing
  the unpackers read or write except the element buffer it fills, and an unpacker changes
  nothing the packers do, in all three modes, whatever the state and the data.\<close>

theorem codec_duplex:
  "(\<forall>pack. vmi_pack mode = Some pack \<longrightarrow> pack vmi src count = Some (vmi1, k) \<longrightarrow> rx_side vmi1 = rx_side vmi) \<and>
   (\<forall>unpack. vmi_unpack mode = Some unpack \<longrightarrow> unpack vmi dst count = Some (vmi2, dst', m) \<longrightarrow> tx_side vmi2 = tx_side vmi)"
  by (auto simp: vmi_pack_def vmi_unpack_def rd_at_Some_iff less_Suc_eq numeral_3_eq_3 numeral_eq_Suc pack_keeps_rx unpack_keeps_tx)

theorem codec_duplex_witness:
  "\<exists>vmi1 k. faxvmi_asyc_pack (demo_vmi 1) [0x41] 1 = Some (vmi1, k) \<and> rx_side vmi1 = rx_side (demo_vmi 1)"
proof -
  have "map_option (\<lambda>_. ()) (faxvmi_asyc_pack (demo_vmi 1) [0x41] 1) = Some ()"
    by code_simp
  then obtain vmi1 k where c: "faxvmi_asyc_pack (demo_vmi 1) [0x41] 1 = Some (vmi1, k)" by auto
  have p: "vmi_pack 1 = Some faxvmi_asyc_pack" by (simp add: vmi_pack_def rd_at_def)
  from codec_duplex [of 1 "demo_vmi 1" "[0x41]" 1 vmi1 k] p c show ?thesis by blast
qed

end
