(* ===== verification/Scrambler.thy ===== *)
theory Scrambler
  imports Prelude
begin

unbundle bit_operations_syntax

text \<open>
  The self-synchronising scramblers that work on groups of bits: \<^verbatim>\<open>src/fax/SDM.c\<close>
  (fax), \<^verbatim>\<open>src/dsp/fpm_sdm.c\<close> (V.22) and \<^verbatim>\<open>src/pump/v32/V32Sdm_tx.c\<close>,
  \<^verbatim>\<open>V32Sdm_rx.c\<close> (V.32).

  The contract a scrambler and its descrambler promise each other is the locale
  \<open>scrambler_pair\<close>, an instance of the weaker \<open>scrambler_lock\<close>: both keep a register of what was on the line, so after \<open>k\<close> common
  groups the two registers agree in a growing part, and once that part covers the taps the
  descrambler returns what the scrambler was given. From it follow the block round trip,
  synchronisation from any starting state and the bound on how far a line error spreads.
\<close>

subsection \<open>The loop over a buffer\<close>

fun scr_walk :: "('r \<Rightarrow> u16 \<Rightarrow> 'r \<times> u16) \<Rightarrow> 'r \<Rightarrow> u16 list \<Rightarrow> nat \<Rightarrow> nat \<Rightarrow> ('r \<times> u16 list) option" where
  "scr_walk step reg buf i 0 = Some (reg, buf)"
| "scr_walk step reg buf i (Suc n) = do {
     x \<leftarrow> rd_at buf i;
     let (reg, y) = step reg x;
     buf \<leftarrow> wr_at buf i y;
     scr_walk step reg buf (i + 1) n
   }"

text \<open>The same on the elements alone.\<close>

fun scr_run :: "('r \<Rightarrow> u16 \<Rightarrow> 'r \<times> u16) \<Rightarrow> 'r \<Rightarrow> u16 list \<Rightarrow> 'r \<times> u16 list" where
  "scr_run step reg [] = (reg, [])"
| "scr_run step reg (x # xs) =
     (let (reg, y) = step reg x; (reg, ys) = scr_run step reg xs in (reg, y # ys))"

lemma length_scr_run [simp]: "length (snd (scr_run step reg xs)) = length xs"
  by (induction xs arbitrary: reg) (simp_all add: split_beta Let_def)

lemma scr_run_append:
  "scr_run step reg (xs @ ys) =
     (let (r1, us) = scr_run step reg xs; (r2, vs) = scr_run step r1 ys in (r2, us @ vs))"
  by (induction xs arbitrary: reg) (simp_all add: split_beta Let_def)

lemma scr_walk_run:
  "scr_walk step reg (p @ xs @ q) (length p) (length xs) =
     Some (fst (scr_run step reg xs), p @ snd (scr_run step reg xs) @ q)"
proof (induction xs arbitrary: reg p)
  case (Cons x xs)
  obtain r y where s: "step reg x = (r, y)" by fastforce
  have "scr_walk step r ((p @ [y]) @ xs @ q) (length (p @ [y])) (length xs) =
      Some (fst (scr_run step r xs), (p @ [y]) @ snd (scr_run step r xs) @ q)" by (rule Cons.IH)
  then show ?case by (simp add: rd_at_def wr_at_def s split_beta nth_append list_update_append)
qed simp

lemma scr_walk_out:
  "length buf < i + n \<Longrightarrow> i \<le> length buf \<Longrightarrow> scr_walk step reg buf i n = None"
proof (induction n arbitrary: reg buf i)
  case (Suc n)
  show ?case
  proof (cases "i < length buf")
    case True
    then show ?thesis using Suc.IH Suc.prems by (simp add: mem_simps split_beta)
  qed (simp add: rd_at_def)
qed simp

lemma scr_walk_block:
  "scr_walk step reg (xs @ rest) 0 (length xs) = Some (fst (scr_run step reg xs), snd (scr_run step reg xs) @ rest)"
  using scr_walk_run [of step reg "[]" xs rest] by simp

subsection \<open>The contracts\<close>

text \<open>Two ends in lock step: what one scrambles the other returns, and they stay in step.\<close>

locale scrambler_lock =
  fixes scr dsc :: "'r \<Rightarrow> u16 \<Rightarrow> 'r \<times> u16"
    and lock :: "'r \<Rightarrow> 'r \<Rightarrow> bool" and group :: "'r \<Rightarrow> u16 \<Rightarrow> bool"
  assumes lock_step: "lock r s \<Longrightarrow> group r x \<Longrightarrow> scr r x = (r', y) \<Longrightarrow> dsc s y = (s', x') \<Longrightarrow>
      lock r' s' \<and> group r' = group r \<and> x' = x"
begin

lemma lock_run:
  assumes "lock r s" and "\<forall>x \<in> set xs. group r x"
  shows "snd (scr_run dsc s (snd (scr_run scr r xs))) = xs \<and>
    lock (fst (scr_run scr r xs)) (fst (scr_run dsc s (snd (scr_run scr r xs))))"
  using assms
proof (induction xs arbitrary: r s)
  case (Cons x xs)
  obtain r1 y where s1: "scr r x = (r1, y)" by fastforce
  obtain s2 x' where s2: "dsc s y = (s2, x')" by fastforce
  have st: "lock r1 s2 \<and> group r1 = group r \<and> x' = x"
    by (rule lock_step [OF Cons.prems(1) _ s1 s2]) (use Cons.prems(2) in simp)
  then show ?case using Cons.IH [of r1 s2] Cons.prems(2) s1 s2 by (simp add: split_beta Let_def)
qed simp

end

text \<open>Two ends that fall into step by themselves.\<close>

locale scrambler_pair =
  fixes scr dsc :: "'r \<Rightarrow> u16 \<Rightarrow> 'r \<times> u16"
    and agree :: "nat \<Rightarrow> 'r \<Rightarrow> 'r \<Rightarrow> bool" and depth :: "'r \<Rightarrow> nat"
    and group :: "'r \<Rightarrow> u16 \<Rightarrow> bool"
  assumes pair_step: "agree k r s \<Longrightarrow> group r x \<Longrightarrow> scr r x = (r', y) \<Longrightarrow> dsc s y = (s', x') \<Longrightarrow>
      agree (Suc k) r' s' \<and> group r y \<and> (depth r \<le> k \<longrightarrow> x' = x)"
    and line_step: "agree k r s \<Longrightarrow> group r y \<Longrightarrow> dsc r y = (r', a) \<Longrightarrow> dsc s y = (s', b) \<Longrightarrow>
      agree (Suc k) r' s' \<and> (depth r \<le> k \<longrightarrow> a = b)"
    and step_keeps: "agree k r r \<Longrightarrow> group r x \<Longrightarrow> group (fst (scr r x)) = group r \<and> depth (fst (scr r x)) = depth r"
      "agree k r r \<Longrightarrow> group r x \<Longrightarrow> group (fst (dsc r x)) = group r \<and> depth (fst (dsc r x)) = depth r"
    and agree_weaken: "agree k r s \<Longrightarrow> agree 0 r s" "agree k r s \<Longrightarrow> agree k r r"
    and agree_full: "agree 0 r r \<Longrightarrow> agree k r r"
    and line_any: "agree 0 r r \<Longrightarrow> group r y \<Longrightarrow> group r e \<Longrightarrow> agree 0 (fst (dsc r y)) (fst (dsc r e))"
begin

lemma run_sync:
  assumes "agree k r s" and "\<forall>x \<in> set xs. group r x"
  shows "agree (k + length xs) (fst (scr_run scr r xs)) (fst (scr_run dsc s (snd (scr_run scr r xs)))) \<and>
    drop (depth r - k) (snd (scr_run dsc s (snd (scr_run scr r xs)))) = drop (depth r - k) xs \<and>
    (\<forall>y \<in> set (snd (scr_run scr r xs)). group r y)"
  using assms
proof (induction xs arbitrary: k r s)
  case (Cons x xs)
  obtain r1 y where s1: "scr r x = (r1, y)" by fastforce
  obtain s2 x' where s2: "dsc s y = (s2, x')" by fastforce
  have g: "group r x" using Cons.prems by simp
  note st = pair_step [OF Cons.prems(1) g s1 s2]
  have k: "group r1 = group r" "depth r1 = depth r"
    using step_keeps(1) [OF agree_weaken(2) [OF Cons.prems(1)] g] s1 by simp_all
  have ih: "agree (Suc k + length xs) (fst (scr_run scr r1 xs)) (fst (scr_run dsc s2 (snd (scr_run scr r1 xs)))) \<and>
    drop (depth r1 - Suc k) (snd (scr_run dsc s2 (snd (scr_run scr r1 xs)))) = drop (depth r1 - Suc k) xs \<and>
    (\<forall>y \<in> set (snd (scr_run scr r1 xs)). group r1 y)"
    by (rule Cons.IH) (use st Cons.prems(2) k in auto)
  have "drop (depth r - k) (x' # snd (scr_run dsc s2 (snd (scr_run scr r1 xs)))) = drop (depth r - k) (x # xs)"
  proof (cases "depth r \<le> k")
    case True
    then show ?thesis using st ih k by simp
  next
    case False
    then have "depth r - k = Suc (depth r - Suc k)" by simp
    then show ?thesis using ih k by simp
  qed
  then show ?case using s1 s2 ih st k by (simp add: split_beta Let_def)
qed simp

lemma synchronises:
  assumes "agree 0 r s" and "\<forall>x \<in> set xs. group r x"
  shows "drop (depth r) (snd (scr_run dsc s (snd (scr_run scr r xs)))) = drop (depth r) xs"
  using run_sync [OF assms] by simp

lemma line_sync:
  assumes "agree k r s" and "\<forall>y \<in> set ys. group r y"
  shows "drop (depth r - k) (snd (scr_run dsc s ys)) = drop (depth r - k) (snd (scr_run dsc r ys))"
  using assms
proof (induction ys arbitrary: k r s)
  case (Cons y ys)
  obtain r1 a where s1: "dsc r y = (r1, a)" by fastforce
  obtain s2 b where s2: "dsc s y = (s2, b)" by fastforce
  have g: "group r y" using Cons.prems by simp
  note st = line_step [OF Cons.prems(1) g s1 s2]
  have k: "group r1 = group r" "depth r1 = depth r"
    using step_keeps(2) [OF agree_weaken(2) [OF Cons.prems(1)] g] s1 by simp_all
  have ih: "drop (depth r1 - Suc k) (snd (scr_run dsc s2 ys)) = drop (depth r1 - Suc k) (snd (scr_run dsc r1 ys))"
    by (rule Cons.IH) (use st Cons.prems(2) k in auto)
  have "drop (depth r - k) (b # snd (scr_run dsc s2 ys)) = drop (depth r - k) (a # snd (scr_run dsc r1 ys))"
  proof (cases "depth r \<le> k")
    case True
    then show ?thesis using st ih k by simp
  next
    case False
    then have "depth r - k = Suc (depth r - Suc k)" by simp
    then show ?thesis using ih k by simp
  qed
  then show ?case using s1 s2 by (simp add: split_beta Let_def)
qed simp

lemma dsc_run_keeps:
  "agree 0 r r \<Longrightarrow> \<forall>y \<in> set ys. group r y \<Longrightarrow>
     agree 0 (fst (scr_run dsc r ys)) (fst (scr_run dsc r ys)) \<and> group (fst (scr_run dsc r ys)) = group r \<and>
     depth (fst (scr_run dsc r ys)) = depth r"
proof (induction ys arbitrary: r)
  case (Cons y ys)
  let ?r = "fst (dsc r y)"
  have g: "group r y" using Cons.prems(2) by simp
  have k: "agree 0 ?r ?r" "group ?r = group r" "depth ?r = depth r"
    using line_any [OF Cons.prems(1) g g] step_keeps(2) [OF Cons.prems(1) g] by simp_all
  then show ?case using Cons.IH [OF k(1)] Cons.prems(2) by (simp add: split_beta Let_def)
qed simp

text \<open>A group altered on the line spoils its own place and at most \<open>depth\<close> groups after it.\<close>

lemma error_bounded:
  assumes "agree 0 r r" and "\<forall>y \<in> set (us @ y # vs). group r y" and "group r e"
    and "good = snd (scr_run dsc r (us @ y # vs))" and "bad = snd (scr_run dsc r (us @ e # vs))"
  shows "take (length us) bad = take (length us) good" (is ?A)
    "drop (length us + 1 + depth r) bad = drop (length us + 1 + depth r) good" (is ?B)
proof -
  let ?r = "fst (scr_run dsc r us)"
  have u: "agree 0 ?r ?r" "group ?r = group r" "depth ?r = depth r"
    using dsc_run_keeps [OF assms(1), of us] assms(2) by simp_all
  show ?A using assms(4,5) by (simp add: scr_run_append split_beta Let_def)
  have a: "agree 0 (fst (dsc ?r y)) (fst (dsc ?r e))"
    by (rule line_any [OF u(1)]) (use u(2) assms(2,3) in simp_all)
  have d: "group (fst (dsc ?r y)) = group r" "depth (fst (dsc ?r y)) = depth r"
    using step_keeps(2) [OF u(1), of y] u(2,3) assms(2) by simp_all
  have "drop (depth r) (snd (scr_run dsc (fst (dsc ?r e)) vs)) = drop (depth r) (snd (scr_run dsc (fst (dsc ?r y)) vs))"
    using line_sync [OF a, of vs] d assms(2) by simp
  then show ?B using assms(4,5)
    by (simp add: scr_run_append split_beta Let_def)
qed

end

sublocale scrambler_pair \<subseteq> scrambler_lock scr dsc "\<lambda>r s. \<forall>k. agree k r s" group
proof
  fix r s x r' y s' x'
  assume a: "\<forall>k. agree k r s" and g: "group r x" and st: "scr r x = (r', y)" "dsc s y = (s', x')"
  have p: "agree (Suc k) r' s' \<and> group r y \<and> (depth r \<le> k \<longrightarrow> x' = x)" for k
    by (rule pair_step [OF _ g st]) (use a in simp)
  have "agree k r' s'" for k
    using p agree_weaken(1) [of 1 r' s'] by (cases k) auto
  moreover have "group r' = group r" using step_keeps(1) [of 0 r x] agree_weaken(2) [of 0 r s] a g st(1) by auto
  ultimately show "(\<forall>k. agree k r' s') \<and> group r' = group r \<and> x' = x" using p [of "depth r"] by simp
qed

subsection \<open>Bits of a shifted register\<close>

text \<open>Both ends shift the group that was on the line into the bottom of the register.\<close>

definition taps :: "nat \<Rightarrow> nat \<Rightarrow> nat \<Rightarrow> u32 \<Rightarrow> u16 \<Rightarrow> u16" where
  "taps nb t1 t2 reg x = ucast ((drop_bit t1 reg XOR ucast x XOR drop_bit t2 reg) AND mask nb)"

definition line_in :: "nat \<Rightarrow> u32 \<Rightarrow> u16 \<Rightarrow> u32" where
  "line_in nb reg y = (push_bit nb reg AND NOT (mask nb)) OR ucast y"

definition low_agree :: "nat \<Rightarrow> u32 \<Rightarrow> u32 \<Rightarrow> bool" where
  "low_agree k r s \<longleftrightarrow> (\<forall>i < k. bit r i = bit s i)"

definition in_group :: "nat \<Rightarrow> u16 \<Rightarrow> bool" where
  "in_group nb x \<longleftrightarrow> (\<forall>i. bit x i \<longrightarrow> i < nb)"

lemma bit_taps:
  assumes "nb \<le> 16"
  shows "bit (taps nb t1 t2 reg x) i \<longleftrightarrow> i < nb \<and> (bit reg (t1 + i) \<noteq> (bit x i \<noteq> bit reg (t2 + i)))"
proof -
  have "i < 16 \<or> \<not> i < nb" using assms by linarith
  then show ?thesis
    unfolding taps_def by (auto simp: bit_simps)
qed

lemma bit_line_in:
  "bit (line_in nb reg y) i \<longleftrightarrow> i < 32 \<and> (if nb \<le> i then bit reg (i - nb) \<or> bit y i else bit y i)"
  unfolding line_in_def by (auto simp: bit_simps dest: bit_imp_le_length)

lemma line_in_agree:
  assumes "low_agree k r s" and "in_group nb y"
  shows "low_agree (k + nb) (line_in nb r y) (line_in nb s y)"
  using assms unfolding low_agree_def by (auto simp: bit_line_in)

lemma taps_group: "nb \<le> 16 \<Longrightarrow> in_group nb (taps nb t1 t2 reg x)"
  by (simp add: in_group_def bit_taps)

lemma taps_back:
  assumes "nb \<le> 16" and "in_group nb x" and "low_agree k r s" and "t1 + nb \<le> k" and "t2 + nb \<le> k"
  shows "taps nb t1 t2 s (taps nb t1 t2 r x) = x"
proof (rule bit_word_eqI)
  fix i
  show "bit (taps nb t1 t2 s (taps nb t1 t2 r x)) i = bit x i"
    using assms(2-5) by (auto simp: bit_taps [OF assms(1)] low_agree_def in_group_def)
qed

lemma taps_same:
  assumes "nb \<le> 16" and "low_agree k r s" and "t1 + nb \<le> k" and "t2 + nb \<le> k"
  shows "taps nb t1 t2 r y = taps nb t1 t2 s y"
proof (rule bit_word_eqI)
  fix i
  show "bit (taps nb t1 t2 r y) i = bit (taps nb t1 t2 s y) i"
    using assms(2-4) by (auto simp: bit_taps [OF assms(1)] low_agree_def)
qed

subsection \<open>The fax and V.22 scramblers\<close>

record fpm_sdm_cfg =
  sc_nbits :: int
  sc_tap1 :: int
  sc_tap2 :: int

record fpm_sdm =
  sd_cfg :: fpm_sdm_cfg
  sd_mask :: u32
  sd_notmask :: u32
  sd_reg :: u32
  sd_shift1 :: int
  sd_shift2 :: int

definition SDM_CFG :: fpm_sdm_cfg where
  "SDM_CFG = \<lparr>sc_nbits = 4, sc_tap1 = 5, sc_tap2 = 23\<rparr>"

text \<open>\<open>1 << nbits\<close> is undefined for a negative count and overflows \<open>int\<close> from 31 on.\<close>

definition SDM_init :: "fpm_sdm \<Rightarrow> fpm_sdm_cfg \<Rightarrow> fpm_sdm option" where
  "SDM_init sdm cfg =
     (if sc_nbits cfg < 0 \<or> 31 \<le> sc_nbits cfg then None
      else let m = push_bit (nat (sc_nbits cfg)) 1 - 1
           in Some (sdm\<lparr>sd_reg := 0, sd_cfg := cfg, sd_mask := m, sd_notmask := NOT m,
                sd_shift1 := short_of (sc_tap1 cfg - sc_nbits cfg), sd_shift2 := short_of (sc_tap2 cfg - sc_nbits cfg)\<rparr>))"

definition shifts_defined :: "fpm_sdm \<Rightarrow> bool" where
  "shifts_defined sdm \<longleftrightarrow> 0 \<le> sc_nbits (sd_cfg sdm) \<and> sc_nbits (sd_cfg sdm) < 32 \<and>
     0 \<le> sd_shift1 sdm \<and> sd_shift1 sdm < 32 \<and> 0 \<le> sd_shift2 sdm \<and> sd_shift2 sdm < 32"

definition sdm_scr :: "fpm_sdm \<Rightarrow> u16 \<Rightarrow> fpm_sdm \<times> u16" where
  "sdm_scr sdm x =
     (let reg = sd_reg sdm;
          tap1 = drop_bit (nat (sd_shift1 sdm)) reg;
          tap2 = drop_bit (nat (sd_shift2 sdm)) reg;
          y = (ucast ((tap1 XOR ucast x XOR tap2) AND sd_mask sdm) :: u16);
          reg = (push_bit (nat (sc_nbits (sd_cfg sdm))) reg AND sd_notmask sdm) OR ucast y
      in (sdm\<lparr>sd_reg := reg\<rparr>, y))"

definition sdm_dsc :: "fpm_sdm \<Rightarrow> u16 \<Rightarrow> fpm_sdm \<times> u16" where
  "sdm_dsc sdm inp =
     (let reg = sd_reg sdm;
          x = (ucast (drop_bit (nat (sd_shift1 sdm)) reg XOR ucast inp XOR drop_bit (nat (sd_shift2 sdm)) reg) :: u16);
          reg = (push_bit (nat (sc_nbits (sd_cfg sdm))) reg AND sd_notmask sdm) OR ucast inp;
          x = ucast (ucast x AND sd_mask sdm)
      in (sdm\<lparr>sd_reg := reg\<rparr>, x))"

definition SDM_scrambler :: "fpm_sdm \<Rightarrow> u16 list \<Rightarrow> u16 \<Rightarrow> (fpm_sdm \<times> u16 list) option" where
  "SDM_scrambler sdm buf count =
     (if count \<noteq> 0 \<and> \<not> shifts_defined sdm then None else scr_walk sdm_scr sdm buf 0 (unat count))"

definition SDM_descrambler :: "fpm_sdm \<Rightarrow> u16 list \<Rightarrow> u16 \<Rightarrow> (fpm_sdm \<times> u16 list) option" where
  "SDM_descrambler sdm buf count =
     (if count \<noteq> 0 \<and> \<not> shifts_defined sdm then None else scr_walk sdm_dsc sdm buf 0 (unat count))"

text \<open>The V.22 copy of the same three functions.\<close>

definition FPM_SDM_init :: "fpm_sdm \<Rightarrow> fpm_sdm_cfg \<Rightarrow> fpm_sdm option" where
  "FPM_SDM_init sdm cfg = SDM_init sdm cfg"

definition FPM_SDM_scrambler :: "fpm_sdm \<Rightarrow> u16 list \<Rightarrow> u16 \<Rightarrow> (fpm_sdm \<times> u16 list) option" where
  "FPM_SDM_scrambler sdm buf count = SDM_scrambler sdm buf count"

definition FPM_SDM_descrambler :: "fpm_sdm \<Rightarrow> u16 list \<Rightarrow> u16 \<Rightarrow> (fpm_sdm \<times> u16 list) option" where
  "FPM_SDM_descrambler sdm buf count = SDM_descrambler sdm buf count"

text \<open>What a usable configuration gives: a group of 1 to 16 bits and two taps above it.\<close>

definition sdm_cfg_ok :: "fpm_sdm_cfg \<Rightarrow> bool" where
  "sdm_cfg_ok c \<longleftrightarrow> 1 \<le> sc_nbits c \<and> sc_nbits c \<le> 16 \<and> sc_nbits c \<le> sc_tap1 c \<and> sc_tap1 c \<le> 32 \<and>
     sc_nbits c \<le> sc_tap2 c \<and> sc_tap2 c \<le> 32"

definition sdm_valid :: "fpm_sdm \<Rightarrow> bool" where
  "sdm_valid sdm \<longleftrightarrow> sdm_cfg_ok (sd_cfg sdm) \<and> sd_mask sdm = mask (nat (sc_nbits (sd_cfg sdm))) \<and>
     sd_notmask sdm = NOT (sd_mask sdm) \<and> sd_shift1 sdm = sc_tap1 (sd_cfg sdm) - sc_nbits (sd_cfg sdm) \<and>
     sd_shift2 sdm = sc_tap2 (sd_cfg sdm) - sc_nbits (sd_cfg sdm)"

definition sdm_agree :: "nat \<Rightarrow> fpm_sdm \<Rightarrow> fpm_sdm \<Rightarrow> bool" where
  "sdm_agree k r s \<longleftrightarrow> sdm_valid r \<and> s = r\<lparr>sd_reg := sd_reg s\<rparr> \<and>
     low_agree (k * nat (sc_nbits (sd_cfg r))) (sd_reg r) (sd_reg s)"

text \<open>The number of groups that fill the register up to the higher tap.\<close>

definition sdm_depth :: "fpm_sdm \<Rightarrow> nat" where
  "sdm_depth r = (nat (max (sc_tap1 (sd_cfg r)) (sc_tap2 (sd_cfg r))) + nat (sc_nbits (sd_cfg r)) - 1) div nat (sc_nbits (sd_cfg r))"

abbreviation sdm_nb :: "fpm_sdm \<Rightarrow> nat" where
  "sdm_nb r \<equiv> nat (sc_nbits (sd_cfg r))"

abbreviation sdm_taps :: "fpm_sdm \<Rightarrow> u16 \<Rightarrow> u16" where
  "sdm_taps r x \<equiv> taps (sdm_nb r) (nat (sd_shift1 r)) (nat (sd_shift2 r)) (sd_reg r) x"

lemma sdm_valid_nb: "sdm_valid r \<Longrightarrow> 0 < sdm_nb r \<and> sdm_nb r \<le> 16"
  by (auto simp: sdm_valid_def sdm_cfg_ok_def)

lemma sdm_steps:
  assumes "sdm_valid r"
  shows "sdm_scr r x = (r\<lparr>sd_reg := line_in (sdm_nb r) (sd_reg r) (sdm_taps r x)\<rparr>, sdm_taps r x)"
    and "sdm_dsc r x = (r\<lparr>sd_reg := line_in (sdm_nb r) (sd_reg r) x\<rparr>, sdm_taps r x)"
proof -
  have m: "sd_mask r = mask (sdm_nb r)" "sd_notmask r = NOT (mask (sdm_nb r))" using assms by (simp_all add: sdm_valid_def)
  have nb: "sdm_nb r \<le> 16" using sdm_valid_nb [OF assms] by simp
  have u: "ucast (ucast (ucast (a :: u32) :: u16) AND (mask n :: u32)) = (ucast (a AND mask n) :: u16)" if "n \<le> 16" for a n
    using that by (intro bit_word_eqI) (auto simp: bit_simps)
  show "sdm_scr r x = (r\<lparr>sd_reg := line_in (sdm_nb r) (sd_reg r) (sdm_taps r x)\<rparr>, sdm_taps r x)"
    by (simp add: sdm_scr_def Let_def taps_def line_in_def m)
  show "sdm_dsc r x = (r\<lparr>sd_reg := line_in (sdm_nb r) (sd_reg r) x\<rparr>, sdm_taps r x)"
    unfolding sdm_dsc_def Let_def m taps_def line_in_def u [OF nb] ..
qed

lemma sdm_depth_covers:
  assumes "sdm_valid r" and "sdm_depth r \<le> k"
  shows "nat (sd_shift1 r) + sdm_nb r \<le> k * sdm_nb r" "nat (sd_shift2 r) + sdm_nb r \<le> k * sdm_nb r"
proof -
  let ?n = "sdm_nb r" and ?t = "nat (max (sc_tap1 (sd_cfg r)) (sc_tap2 (sd_cfg r)))"
  have n: "0 < ?n" using sdm_valid_nb [OF assms(1)] by simp
  have "?t + ?n - 1 < Suc (sdm_depth r) * ?n"
    using dividend_less_div_times [OF n, of "?t + ?n - 1"] by (simp add: sdm_depth_def)
  then have "?t < sdm_depth r * ?n + 1" using n by simp
  then have t: "?t \<le> k * ?n" using mult_le_mono1 [OF assms(2), of ?n] by linarith
  have "nat (sd_shift1 r) + ?n = nat (sc_tap1 (sd_cfg r))" "nat (sd_shift2 r) + ?n = nat (sc_tap2 (sd_cfg r))"
    using assms(1) by (auto simp: sdm_valid_def sdm_cfg_ok_def)
  moreover have "nat (sc_tap1 (sd_cfg r)) \<le> ?t" "nat (sc_tap2 (sd_cfg r)) \<le> ?t" by (simp_all add: nat_mono)
  ultimately show "nat (sd_shift1 r) + ?n \<le> k * ?n" "nat (sd_shift2 r) + ?n \<le> k * ?n" using t by linarith+
qed

lemma sdm_agree_same:
  assumes "sdm_agree k r s"
  shows "sdm_valid r" "sdm_valid s" "sd_cfg s = sd_cfg r" "sd_shift1 s = sd_shift1 r" "sd_shift2 s = sd_shift2 r"
    "s = r\<lparr>sd_reg := sd_reg s\<rparr>"
proof -
  show v: "sdm_valid r" and e: "s = r\<lparr>sd_reg := sd_reg s\<rparr>" using assms by (simp_all add: sdm_agree_def)
  show "sdm_valid s" using v by (subst e) (simp add: sdm_valid_def)
  show "sd_cfg s = sd_cfg r" "sd_shift1 s = sd_shift1 r" "sd_shift2 s = sd_shift2 r" by (subst e; simp)+
qed

lemma sdm_agree_line:
  assumes "sdm_agree k r s" and "in_group (sdm_nb r) y"
  shows "sdm_agree (Suc k) (r\<lparr>sd_reg := line_in (sdm_nb r) (sd_reg r) y\<rparr>) (s\<lparr>sd_reg := line_in (sdm_nb s) (sd_reg s) y\<rparr>)"
proof -
  note a = sdm_agree_same [OF assms(1)]
  have "low_agree (k * sdm_nb r + sdm_nb r) (line_in (sdm_nb r) (sd_reg r) y) (line_in (sdm_nb r) (sd_reg s) y)"
    by (rule line_in_agree [OF _ assms(2)]) (use assms(1) in \<open>simp add: sdm_agree_def\<close>)
  moreover have "sdm_valid (r\<lparr>sd_reg := c\<rparr>)" for c using a(1) by (simp add: sdm_valid_def)
  moreover have "s\<lparr>sd_reg := c\<rparr> = r\<lparr>sd_reg := c\<rparr>" for c by (subst a(6)) simp
  ultimately show ?thesis using a(3) by (simp add: sdm_agree_def add.commute)
qed

interpretation sdm: scrambler_pair sdm_scr sdm_dsc sdm_agree sdm_depth "\<lambda>r. in_group (sdm_nb r)"
proof
  fix k r s x r' y s' x'
  assume a: "sdm_agree k r s" and g: "in_group (sdm_nb r) x" and st: "sdm_scr r x = (r', y)" "sdm_dsc s y = (s', x')"
  note e = sdm_agree_same [OF a]
  note v = sdm_valid_nb [OF e(1)]
  have y: "y = sdm_taps r x" "r' = r\<lparr>sd_reg := line_in (sdm_nb r) (sd_reg r) y\<rparr>" using st(1) sdm_steps(1) [OF e(1)] by auto
  have x': "x' = sdm_taps s y" "s' = s\<lparr>sd_reg := line_in (sdm_nb s) (sd_reg s) y\<rparr>" using st(2) sdm_steps(2) [OF e(2)] by auto
  have gy: "in_group (sdm_nb r) y" unfolding y(1) using v by (intro taps_group) simp
  have "x' = x" if "sdm_depth r \<le> k"
    unfolding x'(1) y(1) e(3-5)
    by (rule taps_back [OF _ g, of "k * sdm_nb r"]) (use v a sdm_depth_covers [OF e(1) that] in \<open>simp_all add: sdm_agree_def\<close>)
  with gy show "sdm_agree (Suc k) r' s' \<and> in_group (sdm_nb r) y \<and> (sdm_depth r \<le> k \<longrightarrow> x' = x)"
    using sdm_agree_line [OF a gy] y(2) x'(2) by simp
next
  fix k r s y r' p s' q
  assume a: "sdm_agree k r s" and g: "in_group (sdm_nb r) y" and st: "sdm_dsc r y = (r', p)" "sdm_dsc s y = (s', q)"
  note e = sdm_agree_same [OF a]
  have "p = q" if "sdm_depth r \<le> k"
    using st sdm_steps(2) [OF e(1)] sdm_steps(2) [OF e(2)] e(3-5) a sdm_valid_nb [OF e(1)] sdm_depth_covers [OF e(1) that]
      taps_same [of "sdm_nb r" "k * sdm_nb r" "sd_reg r" "sd_reg s" "nat (sd_shift1 r)" "nat (sd_shift2 r)" y]
    by (auto simp: sdm_agree_def)
  then show "sdm_agree (Suc k) r' s' \<and> (sdm_depth r \<le> k \<longrightarrow> p = q)"
    using sdm_agree_line [OF a g] st sdm_steps(2) [OF e(1)] sdm_steps(2) [OF e(2)] by auto
next
  fix k r x
  assume a: "sdm_agree k r r"
  show "in_group (sdm_nb (fst (sdm_scr r x))) = in_group (sdm_nb r) \<and> sdm_depth (fst (sdm_scr r x)) = sdm_depth r"
    "in_group (sdm_nb (fst (sdm_dsc r x))) = in_group (sdm_nb r) \<and> sdm_depth (fst (sdm_dsc r x)) = sdm_depth r"
    using sdm_steps [OF sdm_agree_same(1) [OF a], of x] by (simp_all add: sdm_depth_def)
next
  fix r y e
  assume a: "sdm_agree 0 r r"
  show "sdm_agree 0 (fst (sdm_dsc r y)) (fst (sdm_dsc r e))"
    using sdm_steps(2) [OF sdm_agree_same(1) [OF a]] sdm_agree_same(1) [OF a]
    by (simp add: sdm_agree_def low_agree_def sdm_valid_def)
qed (simp_all add: sdm_agree_def low_agree_def)

text \<open>The buffer functions are the loop over the steps.\<close>

lemma SDM_init_valid:
  "sdm_cfg_ok cfg \<Longrightarrow> \<exists>sdm'. SDM_init sdm cfg = Some sdm' \<and> sdm_valid sdm' \<and> sd_cfg sdm' = cfg \<and> sd_reg sdm' = 0"
  by (auto simp: SDM_init_def sdm_cfg_ok_def sdm_valid_def Let_def mask_eq_exp_minus_1 push_bit_of_1)

lemma sdm_shifts_defined: "sdm_valid r \<Longrightarrow> shifts_defined r"
  by (auto simp: sdm_valid_def sdm_cfg_ok_def shifts_defined_def)

lemma sdm_blocks:
  assumes "sdm_valid r" and "unat count = length xs"
  shows "SDM_scrambler r (xs @ rest) count = Some (fst (scr_run sdm_scr r xs), snd (scr_run sdm_scr r xs) @ rest)"
    "SDM_descrambler r (xs @ rest) count = Some (fst (scr_run sdm_dsc r xs), snd (scr_run sdm_dsc r xs) @ rest)"
  using assms by (simp_all add: SDM_scrambler_def SDM_descrambler_def sdm_shifts_defined scr_walk_block)

lemma sdm_same_cfg: "sdm_valid r \<Longrightarrow> sdm_agree 0 r (r\<lparr>sd_reg := c\<rparr>)"
  by (simp add: sdm_agree_def low_agree_def)

text \<open>The group scrambler is undone by its descrambler. For every usable configuration and
  any state of the register, descrambling a scrambled block from the same state gives the
  block back and leaves the rest of the buffer alone; and from any other state of the
  register it gives everything back but the first groups, as many as it takes to fill the
  register up to the higher tap (six for the tap at 23 with four bits a group).\<close>

theorem sdm_self_synchronises:
  assumes "sdm_valid r" and "\<forall>x \<in> set xs. in_group (sdm_nb r) x" and "unat count = length xs"
  shows "\<exists>r' ys. SDM_scrambler r (xs @ rest) count = Some (r', ys @ rest) \<and> length ys = length xs \<and>
    (\<exists>s'. SDM_descrambler r (ys @ rest) count = Some (s', xs @ rest)) \<and>
    (\<forall>c. \<exists>s' zs. SDM_descrambler (r\<lparr>sd_reg := c\<rparr>) (ys @ rest) count = Some (s', zs @ rest) \<and>
       length zs = length xs \<and> drop (sdm_depth r) zs = drop (sdm_depth r) xs)"
proof -
  let ?ys = "snd (scr_run sdm_scr r xs)"
  have l: "unat count = length ?ys" using assms(3) by simp
  have v: "sdm_valid (r\<lparr>sd_reg := c\<rparr>)" for c using assms(1) by (simp add: sdm_valid_def)
  have rt: "snd (scr_run sdm_dsc r ?ys) = xs"
    using sdm.lock_run [OF _ assms(2), of r] assms(1) by (simp add: sdm_agree_def low_agree_def)
  have sy: "drop (sdm_depth r) (snd (scr_run sdm_dsc (r\<lparr>sd_reg := c\<rparr>) ?ys)) = drop (sdm_depth r) xs" for c
    by (rule sdm.synchronises [OF sdm_same_cfg [OF assms(1)] assms(2)])
  show ?thesis
    using sdm_blocks(1) [OF assms(1,3), of rest] sdm_blocks(2) [OF assms(1) l, of rest] sdm_blocks(2) [OF v l, of _ rest] rt sy
    by auto
qed

definition demo_sdm :: fpm_sdm where
  "demo_sdm = \<lparr>sd_cfg = SDM_CFG, sd_mask = 0xf, sd_notmask = 0xfffffff0, sd_reg = 0x12345, sd_shift1 = 1, sd_shift2 = 19\<rparr>"

lemma demo_sdm_valid: "sdm_valid demo_sdm" "sdm_nb demo_sdm = 4" "sdm_depth demo_sdm = 6"
  by (simp_all add: demo_sdm_def sdm_valid_def sdm_cfg_ok_def SDM_CFG_def mask_eq_exp_minus_1 sdm_depth_def)

lemma small_group: "unat x < 2 ^ n \<Longrightarrow> in_group n x"
proof -
  assume "unat x < 2 ^ n"
  then have "unat x = take_bit n (unat x)" by (simp add: take_bit_nat_eq_self)
  then show ?thesis unfolding in_group_def
    by (metis (no_types, lifting) bit_take_bit_iff bit_unsigned_iff possible_bit_nat)
qed

theorem sdm_self_synchronises_witness:
  "\<exists>r' ys. SDM_scrambler demo_sdm ([3, 9, 0, 15] @ [77]) 4 = Some (r', ys @ [77]) \<and> length ys = length [3, 9, 0, 15 :: u16] \<and>
    (\<exists>s'. SDM_descrambler demo_sdm (ys @ [77]) 4 = Some (s', [3, 9, 0, 15] @ [77])) \<and>
    (\<forall>c. \<exists>s' zs. SDM_descrambler (demo_sdm\<lparr>sd_reg := c\<rparr>) (ys @ [77]) 4 = Some (s', zs @ [77]) \<and>
       length zs = length [3, 9, 0, 15 :: u16] \<and> drop (sdm_depth demo_sdm) zs = drop (sdm_depth demo_sdm) [3, 9, 0, 15])"
  by (rule sdm_self_synchronises) (simp_all add: demo_sdm_valid small_group)

text \<open>C38: an error on the line spreads over a bounded stretch. Altering one group of a scrambled
  block leaves the descrambled groups before it as they were, and all from the depth of the
  register after it.\<close>

theorem sdm_error_bounded:
  assumes "sdm_valid r" and "\<forall>y \<in> set (us @ y # vs). in_group (sdm_nb r) y" and "in_group (sdm_nb r) e"
    and "unat count = length us + 1 + length vs"
  shows "\<exists>s1 s2 good bad. SDM_descrambler r (us @ y # vs) count = Some (s1, good) \<and>
    SDM_descrambler r (us @ e # vs) count = Some (s2, bad) \<and>
    take (length us) bad = take (length us) good \<and>
    drop (length us + 1 + sdm_depth r) bad = drop (length us + 1 + sdm_depth r) good"
proof -
  have a: "sdm_agree 0 r r" using assms(1) by (simp add: sdm_agree_def low_agree_def)
  have l: "unat count = length (us @ y # vs)" "unat count = length (us @ e # vs)" using assms(4) by simp_all
  obtain s1 good s2 bad where "scr_run sdm_dsc r (us @ y # vs) = (s1, good)" "scr_run sdm_dsc r (us @ e # vs) = (s2, bad)"
    by fastforce
  then show ?thesis
    using sdm_blocks(2) [OF assms(1) l(1), of "[]"] sdm_blocks(2) [OF assms(1) l(2), of "[]"]
      sdm.error_bounded [OF a assms(2,3) refl refl] by simp
qed

theorem sdm_error_bounded_witness:
  "\<exists>s1 s2 good bad. SDM_descrambler demo_sdm ([3] @ 9 # [1, 2]) 4 = Some (s1, good) \<and>
    SDM_descrambler demo_sdm ([3] @ 8 # [1, 2]) 4 = Some (s2, bad) \<and>
    take (length [3 :: u16]) bad = take (length [3 :: u16]) good \<and>
    drop (length [3 :: u16] + 1 + sdm_depth demo_sdm) bad = drop (length [3 :: u16] + 1 + sdm_depth demo_sdm) good"
  by (rule sdm_error_bounded) (simp_all add: demo_sdm_valid small_group)

subsection \<open>The V.32 scrambler\<close>

text \<open>A group of six bits goes through as two of three, the upper first.\<close>

record v32_sdm =
  vs_group :: int
  vs_tap1_pos :: int
  vs_tap2_pos :: int
  vs_outmask :: u32
  vs_regmask :: u32
  vs_reg :: u32
  vs_tap1 :: int
  vs_tap2 :: int

definition SDM_SPLIT_GROUP :: int where
  "SDM_SPLIT_GROUP = 6"

definition SDM_SPLIT_SHIFT :: int where
  "SDM_SPLIT_SHIFT = 3"

definition SDMv32_GPA :: "int list" where
  "SDMv32_GPA = [5, 18, 18, 18]"

definition SDMv32_GPC :: "int list" where
  "SDMv32_GPC = [18, 5, 18, 18]"

text \<open>The masks and taps for a shift, as the mode setters end.\<close>

definition v32_sdm_masks :: "v32_sdm \<Rightarrow> int \<Rightarrow> v32_sdm" where
  "v32_sdm_masks sdm shift =
     (let m = push_bit (nat shift) 1 - 1
      in sdm\<lparr>vs_outmask := m, vs_regmask := NOT m, vs_tap1 := short_of (vs_tap1_pos sdm - shift),
             vs_tap2 := short_of (vs_tap2_pos sdm - shift)\<rparr>)"

definition v32_shift :: "v32_sdm \<Rightarrow> int" where
  "v32_shift sdm = (if vs_group sdm = SDM_SPLIT_GROUP then SDM_SPLIT_SHIFT else vs_group sdm)"

definition v32_out :: "v32_sdm \<Rightarrow> u32 \<Rightarrow> u32 \<Rightarrow> u32" where
  "v32_out sdm reg inp =
     ((inp XOR drop_bit (nat (vs_tap1 sdm)) reg XOR drop_bit (nat (vs_tap2 sdm)) reg) AND 0xffff) AND vs_outmask sdm"

definition v32_push :: "v32_sdm \<Rightarrow> u32 \<Rightarrow> u32 \<Rightarrow> u32" where
  "v32_push sdm reg v = (push_bit (nat (v32_shift sdm)) reg AND vs_regmask sdm) OR v"

definition v32_scr :: "v32_sdm \<Rightarrow> u16 \<Rightarrow> v32_sdm \<times> u16" where
  "v32_scr sdm x =
     (let reg = vs_reg sdm;
          inp = (ucast x :: u32);
          low = inp AND 7;
          inp = (if vs_group sdm = SDM_SPLIT_GROUP then drop_bit 3 (inp AND 0x38) else inp);
          out = v32_out sdm reg inp;
          reg = v32_push sdm reg out
      in if vs_group sdm = SDM_SPLIT_GROUP
         then let out2 = v32_out sdm reg low
              in (sdm\<lparr>vs_reg := v32_push sdm reg out2\<rparr>, ucast (push_bit 3 out OR out2))
         else (sdm\<lparr>vs_reg := reg\<rparr>, ucast out))"

definition v32_dsc :: "v32_sdm \<Rightarrow> u16 \<Rightarrow> v32_sdm \<times> u16" where
  "v32_dsc sdm x =
     (let reg = vs_reg sdm;
          inp = (ucast x :: u32);
          low = inp AND 7;
          inp = (if vs_group sdm = SDM_SPLIT_GROUP then drop_bit 3 (inp AND 0x38) else inp);
          out = v32_out sdm reg inp;
          reg = v32_push sdm reg inp
      in if vs_group sdm = SDM_SPLIT_GROUP
         then let out2 = v32_out sdm reg low
              in (sdm\<lparr>vs_reg := v32_push sdm reg low\<rparr>, ucast (push_bit 3 out OR out2))
         else (sdm\<lparr>vs_reg := reg\<rparr>, ucast out))"

definition v32_shifts_defined :: "v32_sdm \<Rightarrow> bool" where
  "v32_shifts_defined sdm \<longleftrightarrow> 0 \<le> v32_shift sdm \<and> v32_shift sdm < 32 \<and> 0 \<le> vs_tap1 sdm \<and> vs_tap1 sdm < 32 \<and>
     0 \<le> vs_tap2 sdm \<and> vs_tap2 sdm < 32"

definition SDMv32_scrambler :: "v32_sdm \<Rightarrow> u16 list \<Rightarrow> u16 \<Rightarrow> (v32_sdm \<times> u16 list) option" where
  "SDMv32_scrambler sdm buf count =
     (if count \<noteq> 0 \<and> \<not> v32_shifts_defined sdm then None else scr_walk v32_scr sdm buf 0 (unat count))"

definition SDMv32_descrambler :: "v32_sdm \<Rightarrow> u16 list \<Rightarrow> u16 \<Rightarrow> (v32_sdm \<times> u16 list) option" where
  "SDMv32_descrambler sdm buf count =
     (if count \<noteq> 0 \<and> \<not> v32_shifts_defined sdm then None else scr_walk v32_dsc sdm buf 0 (unat count))"

definition v32_valid :: "v32_sdm \<Rightarrow> bool" where
  "v32_valid sdm \<longleftrightarrow> 1 \<le> vs_group sdm \<and> vs_group sdm \<le> 16 \<and> vs_outmask sdm = mask (nat (v32_shift sdm)) \<and>
     vs_regmask sdm = NOT (vs_outmask sdm) \<and> 0 \<le> vs_tap1 sdm \<and> vs_tap1 sdm < 32 \<and> 0 \<le> vs_tap2 sdm \<and> vs_tap2 sdm < 32"

abbreviation v32_nb :: "v32_sdm \<Rightarrow> nat" where
  "v32_nb r \<equiv> nat (v32_shift r)"

abbreviation v32_gb :: "v32_sdm \<Rightarrow> nat" where
  "v32_gb r \<equiv> nat (vs_group r)"

definition v32_agree :: "nat \<Rightarrow> v32_sdm \<Rightarrow> v32_sdm \<Rightarrow> bool" where
  "v32_agree k r s \<longleftrightarrow> v32_valid r \<and> s = r\<lparr>vs_reg := vs_reg s\<rparr> \<and> low_agree (k * v32_gb r) (vs_reg r) (vs_reg s)"

definition v32_depth :: "v32_sdm \<Rightarrow> nat" where
  "v32_depth r = (nat (max (vs_tap1 r) (vs_tap2 r)) + v32_nb r + v32_gb r - 1) div v32_gb r"

text \<open>The upper and lower halves of a six-bit group.\<close>

definition hi3 :: "u16 \<Rightarrow> u16" where
  "hi3 x = drop_bit 3 (x AND 0x38)"

definition lo3 :: "u16 \<Rightarrow> u16" where
  "lo3 x = x AND 7"

definition join3 :: "u16 \<Rightarrow> u16 \<Rightarrow> u16" where
  "join3 a b = push_bit 3 a OR b"

lemma bit_0x38: "bit (0x38 :: u16) i \<longleftrightarrow> 3 \<le> i \<and> i < 6" "bit (7 :: u16) i \<longleftrightarrow> i < 3"
proof -
  have m: "(0x38 :: u16) = push_bit 3 (mask 3)" "(7 :: u16) = mask 3" by (simp_all add: mask_eq_exp_minus_1 push_bit_eq_mult)
  show "bit (0x38 :: u16) i \<longleftrightarrow> 3 \<le> i \<and> i < 6" unfolding m(1)
    by (simp only: bit_push_bit_iff bit_mask_iff possible_bit_word) auto
  show "bit (7 :: u16) i \<longleftrightarrow> i < 3" unfolding m(2) by (simp only: bit_mask_iff possible_bit_word) auto
qed

lemma bit_hi3: "bit (hi3 x) i \<longleftrightarrow> i < 3 \<and> bit x (i + 3)"
  unfolding hi3_def by (simp only: bit_drop_bit_eq o_apply bit_and_iff bit_0x38) (auto simp: add.commute)

lemma bit_lo3: "bit (lo3 x) i \<longleftrightarrow> i < 3 \<and> bit x i"
  unfolding lo3_def by (simp only: bit_and_iff bit_0x38) auto

lemma bit_join3: "bit (join3 a b) i \<longleftrightarrow> i < 16 \<and> (3 \<le> i \<and> bit a (i - 3) \<or> bit b i)"
  unfolding join3_def by (auto simp: bit_or_iff bit_push_bit_iff dest: bit_imp_le_length)

lemma halves_group: "in_group 3 (hi3 x)" "in_group 3 (lo3 x)"
  by (simp_all add: in_group_def bit_hi3 bit_lo3)

lemma join3_halves:
  assumes "in_group 3 a" and "in_group 3 b"
  shows "hi3 (join3 a b) = a" "lo3 (join3 a b) = b" "in_group 6 (join3 a b)"
proof -
  have a: "bit a i \<Longrightarrow> i < 3" and b: "bit b i \<Longrightarrow> i < 3" for i using assms by (auto simp: in_group_def)
  show "hi3 (join3 a b) = a" by (rule bit_word_eqI) (auto simp: bit_hi3 bit_join3 dest: a b)
  show "lo3 (join3 a b) = b" by (rule bit_word_eqI) (auto simp: bit_lo3 bit_join3 dest: b)
  show "in_group 6 (join3 a b)" by (auto simp: in_group_def bit_join3 dest!: a b)
qed

lemma halves_join3: "in_group 6 x \<Longrightarrow> join3 (hi3 x) (lo3 x) = x"
  by (rule bit_word_eqI) (auto simp: bit_join3 bit_hi3 bit_lo3 in_group_def dest: bit_imp_le_length)

abbreviation v32_taps :: "v32_sdm \<Rightarrow> u32 \<Rightarrow> u16 \<Rightarrow> u16" where
  "v32_taps r reg x \<equiv> taps (v32_nb r) (nat (vs_tap1 r)) (nat (vs_tap2 r)) reg x"

lemma v32_nb_bounds:
  assumes "v32_valid r"
  shows "0 < v32_nb r" "v32_nb r \<le> 16" "0 < v32_gb r" "v32_nb r \<le> v32_gb r"
    "vs_group r = SDM_SPLIT_GROUP \<Longrightarrow> v32_nb r = 3 \<and> v32_gb r = 6" "vs_group r \<noteq> SDM_SPLIT_GROUP \<Longrightarrow> v32_gb r = v32_nb r"
  using assms by (auto simp: v32_valid_def v32_shift_def SDM_SPLIT_GROUP_def SDM_SPLIT_SHIFT_def)

lemma v32_out_taps:
  assumes "v32_valid r"
  shows "v32_out r reg (ucast x) = ucast (v32_taps r reg x)"
proof -
  have n: "v32_nb r \<le> 16" using v32_nb_bounds(2) [OF assms] .
  have f: "(0xffff :: u32) = mask 16" by (simp add: mask_eq_exp_minus_1)
  have o: "vs_outmask r = mask (v32_nb r)" using assms by (simp add: v32_valid_def)
  show ?thesis unfolding v32_out_def f o taps_def
    by (rule bit_word_eqI) (use n in \<open>auto simp: bit_simps\<close>)
qed

lemma v32_push_line: "v32_valid r \<Longrightarrow> v32_push r reg (ucast y) = line_in (v32_nb r) reg y"
  by (simp add: v32_push_def line_in_def v32_valid_def)

lemma v32_out_ucast:
  "ucast (push_bit 3 (ucast a :: u32) OR ucast b) = join3 a b" "drop_bit 3 (ucast x AND 0x38 :: u32) = ucast (hi3 x)"
  "(ucast x AND 7 :: u32) = ucast (lo3 x)"
proof -
  have m: "(0x38 :: u32) = push_bit 3 (mask 3)" "(7 :: u32) = mask 3" by (simp_all add: mask_eq_exp_minus_1 push_bit_eq_mult)
  show "ucast (push_bit 3 (ucast a :: u32) OR ucast b) = join3 a b"
    by (rule bit_word_eqI) (auto simp: bit_simps bit_join3 dest: bit_imp_le_length)
  show "drop_bit 3 (ucast x AND 0x38 :: u32) = ucast (hi3 x)" unfolding m
    by (rule bit_word_eqI) (auto simp: bit_simps bit_hi3 add.commute dest: bit_imp_le_length simp del: push_bit_mask_eq)
  show "(ucast x AND 7 :: u32) = ucast (lo3 x)" unfolding m
    by (rule bit_word_eqI) (auto simp: bit_simps bit_lo3 dest: bit_imp_le_length)
qed

lemma u16_widen: "ucast (ucast (v :: u16) :: u32) = v"
  by (simp add: ucast_up_ucast is_up)

lemma v32_whole_steps:
  assumes "v32_valid r" and "vs_group r \<noteq> SDM_SPLIT_GROUP"
  shows "v32_scr r x = (r\<lparr>vs_reg := line_in (v32_nb r) (vs_reg r) (v32_taps r (vs_reg r) x)\<rparr>, v32_taps r (vs_reg r) x)"
    "v32_dsc r x = (r\<lparr>vs_reg := line_in (v32_nb r) (vs_reg r) x\<rparr>, v32_taps r (vs_reg r) x)"
  using assms by (simp_all add: v32_scr_def v32_dsc_def Let_def v32_out_taps v32_push_line u16_widen)

lemma v32_split_steps:
  assumes "v32_valid r" and "vs_group r = SDM_SPLIT_GROUP"
    and "a = v32_taps r (vs_reg r) (hi3 x)"
    and "b = v32_taps r (line_in 3 (vs_reg r) a) (lo3 x)" and "c = v32_taps r (line_in 3 (vs_reg r) (hi3 x)) (lo3 x)"
  shows "v32_scr r x = (r\<lparr>vs_reg := line_in 3 (line_in 3 (vs_reg r) a) b\<rparr>, join3 a b)"
    "v32_dsc r x = (r\<lparr>vs_reg := line_in 3 (line_in 3 (vs_reg r) (hi3 x)) (lo3 x)\<rparr>, join3 a c)"
  unfolding v32_scr_def v32_dsc_def Let_def v32_out_ucast(2,3)
  using assms v32_nb_bounds(5) [OF assms(1,2)] by (simp_all add: v32_out_taps v32_push_line v32_out_ucast(1))

lemma v32_agree_same:
  assumes "v32_agree k r s"
  shows "v32_valid r" "v32_valid s" "vs_group s = vs_group r" "v32_shift s = v32_shift r" "vs_tap1 s = vs_tap1 r" "vs_tap2 s = vs_tap2 r"
    "s = r\<lparr>vs_reg := vs_reg s\<rparr>" "low_agree (k * v32_gb r) (vs_reg r) (vs_reg s)"
proof -
  show v: "v32_valid r" and e: "s = r\<lparr>vs_reg := vs_reg s\<rparr>" and "low_agree (k * v32_gb r) (vs_reg r) (vs_reg s)"
    using assms by (simp_all add: v32_agree_def)
  show g: "vs_group s = vs_group r" and "vs_tap1 s = vs_tap1 r" "vs_tap2 s = vs_tap2 r" by (subst e; simp)+
  then show "v32_shift s = v32_shift r" by (simp add: v32_shift_def)
  have "v32_valid (r\<lparr>vs_reg := c\<rparr>)" for c using v by (simp add: v32_valid_def v32_shift_def)
  then show "v32_valid s" by (subst e)
qed

lemma v32_agree_intro:
  assumes "v32_agree k r s" and "low_agree (Suc k * v32_gb r) p q"
  shows "v32_agree (Suc k) (r\<lparr>vs_reg := p\<rparr>) (s\<lparr>vs_reg := q\<rparr>)"
proof -
  have "v32_valid (r\<lparr>vs_reg := c\<rparr>)" for c using v32_agree_same(1) [OF assms(1)] by (simp add: v32_valid_def v32_shift_def)
  moreover have "s\<lparr>vs_reg := c\<rparr> = r\<lparr>vs_reg := c\<rparr>" for c by (subst v32_agree_same(7) [OF assms(1)]) simp
  ultimately show ?thesis using assms(2) by (simp add: v32_agree_def)
qed

lemma v32_depth_covers:
  assumes "v32_valid r" and "v32_depth r \<le> k"
  shows "nat (vs_tap1 r) + v32_nb r \<le> k * v32_gb r" "nat (vs_tap2 r) + v32_nb r \<le> k * v32_gb r"
proof -
  let ?g = "v32_gb r" and ?t = "nat (max (vs_tap1 r) (vs_tap2 r)) + v32_nb r"
  have g: "0 < ?g" using v32_nb_bounds(3) [OF assms(1)] .
  have "?t + ?g - 1 < Suc (v32_depth r) * ?g"
    using dividend_less_div_times [OF g, of "?t + ?g - 1"] by (simp add: v32_depth_def)
  then have "?t < v32_depth r * ?g + 1" using g unfolding mult_Suc by linarith
  then have "?t \<le> k * ?g" using mult_le_mono1 [OF assms(2), of ?g] by linarith
  moreover have "nat (vs_tap1 r) \<le> nat (max (vs_tap1 r) (vs_tap2 r))" "nat (vs_tap2 r) \<le> nat (max (vs_tap1 r) (vs_tap2 r))"
    by (simp_all add: nat_mono)
  ultimately show "nat (vs_tap1 r) + v32_nb r \<le> k * ?g" "nat (vs_tap2 r) + v32_nb r \<le> k * ?g" by linarith+
qed

lemma low_agree_mono: "low_agree k r s \<Longrightarrow> j \<le> k \<Longrightarrow> low_agree j r s"
  by (auto simp: low_agree_def)

lemma v32_pair:
  assumes a: "v32_agree k r s" and g: "in_group (v32_gb r) x" and st: "v32_scr r x = (r', y)" "v32_dsc s y = (s', x')"
  shows "v32_agree (Suc k) r' s' \<and> in_group (v32_gb r) y \<and> (v32_depth r \<le> k \<longrightarrow> x' = x)"
proof -
  note e = v32_agree_same [OF a]
  note n = v32_nb_bounds [OF e(1)]
  show ?thesis
  proof (cases "vs_group r = SDM_SPLIT_GROUP")
    case False
    have y: "y = v32_taps r (vs_reg r) x" "r' = r\<lparr>vs_reg := line_in (v32_nb r) (vs_reg r) y\<rparr>"
      and x': "x' = v32_taps r (vs_reg s) y" "s' = s\<lparr>vs_reg := line_in (v32_nb r) (vs_reg s) y\<rparr>"
      using st v32_whole_steps [OF e(1) False] v32_whole_steps [OF e(2)] False e(3-6) by auto
    have gb: "v32_gb r = v32_nb r" using n(6) False by simp
    have gy: "in_group (v32_nb r) y" unfolding y(1) using n(2) by (rule taps_group)
    have "x' = x" if "v32_depth r \<le> k"
      unfolding x'(1) y(1)
      by (rule taps_back [OF n(2) _ e(8)]) (use g gb v32_depth_covers [OF e(1) that] in simp_all)
    moreover have "low_agree (k * v32_gb r + v32_nb r) (line_in (v32_nb r) (vs_reg r) y) (line_in (v32_nb r) (vs_reg s) y)"
      by (rule line_in_agree [OF e(8) gy])
    ultimately show ?thesis using v32_agree_intro [OF a] y(2) x'(2) gy gb by (simp add: add.commute)
  next
    case True
    note n3 = n(5) [OF True]
    define p where "p = v32_taps r (vs_reg r) (hi3 x)"
    define q where "q = v32_taps r (line_in 3 (vs_reg r) p) (lo3 x)"
    have pq: "in_group 3 p" "in_group 3 q" using taps_group [of 3] n3 by (auto simp: p_def q_def)
    note j = join3_halves [OF pq]
    have y: "y = join3 p q" "r' = r\<lparr>vs_reg := line_in 3 (line_in 3 (vs_reg r) p) q\<rparr>"
      using st(1) v32_split_steps(1) [OF e(1) True p_def q_def refl] by auto
    have x': "x' = join3 (v32_taps r (vs_reg s) p) (v32_taps r (line_in 3 (vs_reg s) p) q)"
      "s' = s\<lparr>vs_reg := line_in 3 (line_in 3 (vs_reg s) p) q\<rparr>"
      using st(2) v32_split_steps(2) [OF e(2) _ refl refl refl] True e(3-6) j(1,2) y(1) by auto
    have l1: "low_agree (k * v32_gb r + 3) (line_in 3 (vs_reg r) p) (line_in 3 (vs_reg s) p)"
      by (rule line_in_agree [OF e(8) pq(1)])
    have l2: "low_agree (k * v32_gb r + 3 + 3) (line_in 3 (line_in 3 (vs_reg r) p) q) (line_in 3 (line_in 3 (vs_reg s) p) q)"
      by (rule line_in_agree [OF l1 pq(2)])
    have "x' = x" if "v32_depth r \<le> k"
    proof -
      note c = v32_depth_covers [OF e(1) that]
      have "v32_taps r (vs_reg s) p = hi3 x" unfolding p_def
        by (rule taps_back [OF n(2) _ e(8)]) (use n3 halves_group c in simp_all)
      moreover have "v32_taps r (line_in 3 (vs_reg s) p) q = lo3 x" unfolding q_def
        by (rule taps_back [OF n(2) _ l1]) (use n3 halves_group c in simp_all)
      ultimately show ?thesis using x'(1) halves_join3 [of x] g n3 by simp
    qed
    then show ?thesis using v32_agree_intro [OF a, of "line_in 3 (line_in 3 (vs_reg r) p) q"] l2 y x'(2) j(3) n3
      by (simp add: add.commute)
  qed
qed

lemma v32_line:
  assumes a: "v32_agree k r s" and g: "in_group (v32_gb r) y" and st: "v32_dsc r y = (r', p)" "v32_dsc s y = (s', q)"
  shows "v32_agree (Suc k) r' s' \<and> (v32_depth r \<le> k \<longrightarrow> p = q)"
proof -
  note e = v32_agree_same [OF a]
  note n = v32_nb_bounds [OF e(1)]
  show ?thesis
  proof (cases "vs_group r = SDM_SPLIT_GROUP")
    case False
    have p: "p = v32_taps r (vs_reg r) y" "r' = r\<lparr>vs_reg := line_in (v32_nb r) (vs_reg r) y\<rparr>"
      and q: "q = v32_taps r (vs_reg s) y" "s' = s\<lparr>vs_reg := line_in (v32_nb r) (vs_reg s) y\<rparr>"
      using st v32_whole_steps(2) [OF e(1) False] v32_whole_steps(2) [OF e(2)] False e(3-6) by auto
    have gb: "v32_gb r = v32_nb r" using n(6) False by simp
    have "p = q" if "v32_depth r \<le> k" unfolding p(1) q(1)
      by (rule taps_same [OF n(2) e(8)]) (use v32_depth_covers [OF e(1) that] in simp_all)
    moreover have "low_agree (k * v32_gb r + v32_nb r) (line_in (v32_nb r) (vs_reg r) y) (line_in (v32_nb r) (vs_reg s) y)"
      by (rule line_in_agree [OF e(8)]) (use g gb in simp)
    ultimately show ?thesis using v32_agree_intro [OF a] p(2) q(2) gb by (simp add: add.commute)
  next
    case True
    note n3 = n(5) [OF True]
    have p: "p = join3 (v32_taps r (vs_reg r) (hi3 y)) (v32_taps r (line_in 3 (vs_reg r) (hi3 y)) (lo3 y))"
      "r' = r\<lparr>vs_reg := line_in 3 (line_in 3 (vs_reg r) (hi3 y)) (lo3 y)\<rparr>"
      using st(1) v32_split_steps(2) [OF e(1) True refl refl refl] by auto
    have q: "q = join3 (v32_taps r (vs_reg s) (hi3 y)) (v32_taps r (line_in 3 (vs_reg s) (hi3 y)) (lo3 y))"
      "s' = s\<lparr>vs_reg := line_in 3 (line_in 3 (vs_reg s) (hi3 y)) (lo3 y)\<rparr>"
      using st(2) v32_split_steps(2) [OF e(2) _ refl refl refl] True e(3-6) by auto
    have l1: "low_agree (k * v32_gb r + 3) (line_in 3 (vs_reg r) (hi3 y)) (line_in 3 (vs_reg s) (hi3 y))"
      by (rule line_in_agree [OF e(8) halves_group(1)])
    have l2: "low_agree (k * v32_gb r + 3 + 3) (line_in 3 (line_in 3 (vs_reg r) (hi3 y)) (lo3 y)) (line_in 3 (line_in 3 (vs_reg s) (hi3 y)) (lo3 y))"
      by (rule line_in_agree [OF l1 halves_group(2)])
    have "p = q" if "v32_depth r \<le> k"
    proof -
      note c = v32_depth_covers [OF e(1) that]
      have "v32_taps r (vs_reg r) (hi3 y) = v32_taps r (vs_reg s) (hi3 y)"
        by (rule taps_same [OF n(2) e(8)]) (use c in simp_all)
      moreover have "v32_taps r (line_in 3 (vs_reg r) (hi3 y)) (lo3 y) = v32_taps r (line_in 3 (vs_reg s) (hi3 y)) (lo3 y)"
        by (rule taps_same [OF n(2) l1]) (use c in simp_all)
      ultimately show ?thesis using p(1) q(1) by simp
    qed
    then show ?thesis using v32_agree_intro [OF a, of "line_in 3 (line_in 3 (vs_reg r) (hi3 y)) (lo3 y)"] l2 p(2) q(2) n3
      by (simp add: add.commute)
  qed
qed

lemma v32_step_cfg: "\<exists>c. fst (v32_scr r x) = r\<lparr>vs_reg := c\<rparr>" "\<exists>c. fst (v32_dsc r x) = r\<lparr>vs_reg := c\<rparr>"
  by (auto simp: v32_scr_def v32_dsc_def Let_def)

interpretation v32: scrambler_pair v32_scr v32_dsc v32_agree v32_depth "\<lambda>r. in_group (v32_gb r)"
proof
  fix k r s x r' y s' x'
  show "v32_agree k r s \<Longrightarrow> in_group (v32_gb r) x \<Longrightarrow> v32_scr r x = (r', y) \<Longrightarrow> v32_dsc s y = (s', x') \<Longrightarrow>
    v32_agree (Suc k) r' s' \<and> in_group (v32_gb r) y \<and> (v32_depth r \<le> k \<longrightarrow> x' = x)"
    by (rule v32_pair)
next
  fix k r s y r' p s' q
  show "v32_agree k r s \<Longrightarrow> in_group (v32_gb r) y \<Longrightarrow> v32_dsc r y = (r', p) \<Longrightarrow> v32_dsc s y = (s', q) \<Longrightarrow>
    v32_agree (Suc k) r' s' \<and> (v32_depth r \<le> k \<longrightarrow> p = q)"
    by (rule v32_line)
next
  fix k r x
  show "in_group (v32_gb (fst (v32_scr r x))) = in_group (v32_gb r) \<and> v32_depth (fst (v32_scr r x)) = v32_depth r"
    "in_group (v32_gb (fst (v32_dsc r x))) = in_group (v32_gb r) \<and> v32_depth (fst (v32_dsc r x)) = v32_depth r"
    using v32_step_cfg [of r x] by (auto simp: v32_depth_def v32_shift_def)
next
  fix r y e
  assume a: "v32_agree 0 r r"
  obtain c d where "fst (v32_dsc r y) = r\<lparr>vs_reg := c\<rparr>" "fst (v32_dsc r e) = r\<lparr>vs_reg := d\<rparr>"
    using v32_step_cfg(2) by blast
  then show "v32_agree 0 (fst (v32_dsc r y)) (fst (v32_dsc r e))"
    using a by (simp add: v32_agree_def low_agree_def v32_valid_def v32_shift_def)
qed (simp_all add: v32_agree_def low_agree_def)

text \<open>The V.32 scrambler is undone by its descrambler, whole groups and the split six-bit
  groups alike: from the same state exactly, and from any state of the register after the
  groups that fill it up to the higher tap.\<close>

theorem v32_self_synchronises:
  assumes "v32_valid r" and "\<forall>x \<in> set xs. in_group (v32_gb r) x" and "unat count = length xs"
  shows "\<exists>r' ys. SDMv32_scrambler r (xs @ rest) count = Some (r', ys @ rest) \<and> length ys = length xs \<and>
    (\<exists>s'. SDMv32_descrambler r (ys @ rest) count = Some (s', xs @ rest)) \<and>
    (\<forall>c. \<exists>s' zs. SDMv32_descrambler (r\<lparr>vs_reg := c\<rparr>) (ys @ rest) count = Some (s', zs @ rest) \<and>
       length zs = length xs \<and> drop (v32_depth r) zs = drop (v32_depth r) xs)"
proof -
  let ?ys = "snd (scr_run v32_scr r xs)"
  have v: "v32_valid (r\<lparr>vs_reg := c\<rparr>)" for c using assms(1) by (simp add: v32_valid_def v32_shift_def)
  have d: "v32_shifts_defined r" "v32_shifts_defined (r\<lparr>vs_reg := c\<rparr>)" for c
    using assms(1) v32_nb_bounds(2) [OF assms(1)]
    by (auto simp: v32_shifts_defined_def v32_valid_def v32_shift_def SDM_SPLIT_SHIFT_def)
  have rt: "snd (scr_run v32_dsc r ?ys) = xs"
    using v32.lock_run [OF _ assms(2), of r] assms(1) by (simp add: v32_agree_def low_agree_def)
  have sy: "drop (v32_depth r) (snd (scr_run v32_dsc (r\<lparr>vs_reg := c\<rparr>) ?ys)) = drop (v32_depth r) xs" for c
    by (rule v32.synchronises [OF _ assms(2)]) (use assms(1) in \<open>simp add: v32_agree_def low_agree_def\<close>)
  show ?thesis
    using d rt sy assms(3) scr_walk_block [of v32_scr r xs rest] scr_walk_block [of v32_dsc r ?ys rest]
      scr_walk_block [of v32_dsc "r\<lparr>vs_reg := c\<rparr>" ?ys rest for c]
    by (auto simp: SDMv32_scrambler_def SDMv32_descrambler_def)
qed

definition demo_v32 :: v32_sdm where
  "demo_v32 = v32_sdm_masks \<lparr>vs_group = 6, vs_tap1_pos = SDMv32_GPC ! 0, vs_tap2_pos = 23, vs_outmask = 0, vs_regmask = 0,
     vs_reg = 0x5a5a5, vs_tap1 = 0, vs_tap2 = 0\<rparr> 3"

theorem v32_self_synchronises_witness:
  "\<exists>r' ys. SDMv32_scrambler demo_v32 ([33, 9, 63] @ []) 3 = Some (r', ys @ []) \<and> length ys = length [33, 9, 63 :: u16] \<and>
    (\<exists>s'. SDMv32_descrambler demo_v32 (ys @ []) 3 = Some (s', [33, 9, 63] @ [])) \<and>
    (\<forall>c. \<exists>s' zs. SDMv32_descrambler (demo_v32\<lparr>vs_reg := c\<rparr>) (ys @ []) 3 = Some (s', zs @ []) \<and>
       length zs = length [33, 9, 63 :: u16] \<and> drop (v32_depth demo_v32) zs = drop (v32_depth demo_v32) [33, 9, 63])"
proof (rule v32_self_synchronises)
  show "v32_valid demo_v32"
    by (simp add: demo_v32_def v32_valid_def v32_sdm_masks_def v32_shift_def SDM_SPLIT_GROUP_def SDM_SPLIT_SHIFT_def
        SDMv32_GPC_def mask_eq_exp_minus_1 Let_def)
qed (simp_all add: demo_v32_def v32_sdm_masks_def Let_def small_group)

end
