(* ===== verification/Sdm27.thy ===== *)
theory Sdm27
  imports Scrambler
begin

unbundle bit_operations_syntax

text \<open>
  The V.27 scrambler of \<^verbatim>\<open>src/fax/V27_SDM.c\<close>: taps at 6 and 7 and a guard that inverts
  the next bit once 33 bits in a row have each repeated an earlier one 8, 9 or 12 places
  back. Each symbol goes through one of two paths, a bulk path that handles its two or three
  bits at once while the guard cannot fire within it, and a bit path that is always right.

  The theory shows that the bulk path computes what the bit path does, so the choice between
  them is an optimisation only, that the guard's counter stays in range, and that the
  descrambler undoes the scrambler.
\<close>

subsection \<open>The state and its set-up\<close>

record sdmv27 =
  s27_nbits :: u16
  s27_mask :: u16
  s27_notmask :: u16
  s27_reg :: u16
  s27_run :: u16
  s27_pending :: u16
  s27_inverting :: u16

definition SDMV27_GUARD_TAPS :: u32 where
  "SDMV27_GUARD_TAPS = 0x1300"

definition SDMV27_GUARD_RUN :: u16 where
  "SDMV27_GUARD_RUN = 33"

definition SDMV27_REG_SEED :: u16 where
  "SDMV27_REG_SEED = 60"

text \<open>The group width is read through the configuration even where it was found to be null.\<close>

definition SDMv27_init :: "sdmv27 \<Rightarrow> u16 option \<Rightarrow> sdmv27 option" where
  "SDMv27_init sdm cfg =
     (case cfg of
        None \<Rightarrow> None
      | Some nbits \<Rightarrow>
          let sdm = sdm\<lparr>s27_nbits := nbits, s27_reg := SDMV27_REG_SEED, s27_run := 0, s27_pending := 0, s27_inverting := 0\<rparr>
          in Some (if nbits = 2 then sdm\<lparr>s27_mask := 3, s27_notmask := NOT 3\<rparr> else sdm\<lparr>s27_mask := 7, s27_notmask := NOT 7\<rparr>))"

subsection \<open>The two paths\<close>

text \<open>One pass of the guard loop of the bulk path, for bit \<open>j\<close> downwards.\<close>

fun guard_run :: "u16 \<Rightarrow> u16 \<Rightarrow> nat \<Rightarrow> u16" where
  "guard_run guard run 0 = run"
| "guard_run guard run (Suc j) =
     (let b = drop_bit j guard AND 1 in guard_run guard ((run + b) * b) j)"

definition bulk_guard :: "u16 \<Rightarrow> u32 \<Rightarrow> u16" where
  "bulk_guard reg v = ucast (NOT ((drop_bit 8 (ucast reg) XOR v) AND (drop_bit 9 (ucast reg) XOR v) AND (drop_bit 12 (ucast reg) XOR v)))"

definition bulk_ok :: "sdmv27 \<Rightarrow> bool" where
  "bulk_ok s \<longleftrightarrow> s27_run s < SDMV27_GUARD_RUN - s27_nbits s \<and> uint (s27_pending s) + uint (s27_inverting s) = 0"

definition scr27_bulk :: "sdmv27 \<Rightarrow> u16 \<Rightarrow> sdmv27 \<times> u16" where
  "scr27_bulk s x =
     (let nb = unat (s27_nbits s);
          shifted = push_bit nb (ucast (s27_reg s) :: u32) AND ucast (s27_notmask s);
          out = (ucast x XOR drop_bit 6 shifted XOR drop_bit 7 shifted) AND ucast (s27_mask s);
          reg = (ucast (shifted OR out) :: u16)
      in (s\<lparr>s27_reg := reg, s27_run := guard_run (bulk_guard reg out) (s27_run s) nb\<rparr>, ucast out))"

text \<open>The run counter, the pending inversion and the guard itself, common to both directions.\<close>

definition guard_bit :: "u32 \<Rightarrow> u16 \<Rightarrow> u16 \<Rightarrow> sdmv27 \<Rightarrow> sdmv27" where
  "guard_bit line iv pend s =
     (let alldiff = (if ((line * 0xffff) XOR ucast (s27_reg s)) AND SDMV27_GUARD_TAPS = SDMV27_GUARD_TAPS then 1 else 0);
          ok = (ucast (NOT (alldiff OR ucast iv :: u32) AND 1) :: u16);
          run = (s27_run s + ok) * ok;
          pending = ok * pend
      in if run = SDMV27_GUARD_RUN then s\<lparr>s27_run := 0, s27_pending := 1\<rparr> else s\<lparr>s27_run := run, s27_pending := pending\<rparr>)"

definition scr27_bit :: "sdmv27 \<times> u16 \<Rightarrow> sdmv27 \<times> u16" where
  "scr27_bit = (\<lambda>(s, inp).
     let iv = s27_pending s;
         reg = push_bit 1 (s27_reg s);
         out = (drop_bit 6 (ucast reg) XOR drop_bit 7 (ucast reg) XOR ucast iv XOR drop_bit (unat (s27_nbits s) - 1) (ucast inp) :: u32) AND 1;
         s = s\<lparr>s27_inverting := iv, s27_reg := reg OR ucast out\<rparr>
     in (guard_bit out iv iv s, ucast (push_bit 1 (ucast inp) OR out)))"

definition scr27 :: "sdmv27 \<Rightarrow> u16 \<Rightarrow> sdmv27 \<times> u16" where
  "scr27 s x =
     (if bulk_ok s then scr27_bulk s x
      else let (s', y) = (scr27_bit ^^ unat (s27_nbits s)) (s, x) in (s', y AND s27_mask s))"

definition dsc27_bulk :: "sdmv27 \<Rightarrow> u16 \<Rightarrow> sdmv27 \<times> u16" where
  "dsc27_bulk s x =
     (let nb = unat (s27_nbits s);
          reg = push_bit nb (s27_reg s);
          taps = (drop_bit 6 (ucast reg) XOR drop_bit 7 (ucast reg) :: u32);
          inp = (ucast (x AND s27_mask s) :: u32);
          reg = (reg AND s27_notmask s) OR ucast inp
      in (s\<lparr>s27_reg := reg, s27_run := guard_run (bulk_guard reg inp) (s27_run s) nb\<rparr>,
          ucast ((taps XOR inp) AND ucast (s27_mask s))))"

definition dsc27_bit :: "sdmv27 \<times> u16 \<Rightarrow> sdmv27 \<times> u16" where
  "dsc27_bit = (\<lambda>(s, d).
     let iv = s27_inverting s;
         reg = push_bit 1 (s27_reg s);
         taps = (drop_bit 6 (ucast reg) XOR drop_bit 7 (ucast reg) :: u32);
         w = (push_bit 1 (ucast d) :: u32);
         inp = (ucast (drop_bit (unat (s27_nbits s)) (ucast w :: u16)) :: u32) AND 1;
         out = ((taps XOR ucast iv) AND 1) XOR inp;
         s = guard_bit inp iv (s27_pending s) (s\<lparr>s27_reg := reg OR ucast inp\<rparr>)
     in (s\<lparr>s27_inverting := s27_pending s\<rparr>, ucast (w OR out)))"

definition dsc27 :: "sdmv27 \<Rightarrow> u16 \<Rightarrow> sdmv27 \<times> u16" where
  "dsc27 s x =
     (if bulk_ok s then dsc27_bulk s x
      else let (s', y) = (dsc27_bit ^^ unat (s27_nbits s)) (s, x) in (s', y AND s27_mask s))"

text \<open>The shifts of the bit path are defined for widths of 1 to 31; a count is a \<open>short\<close> that
  runs down to zero, so a negative one runs through the whole range.\<close>

definition v27_shifts_defined :: "sdmv27 \<Rightarrow> bool" where
  "v27_shifts_defined s \<longleftrightarrow> 1 \<le> unat (s27_nbits s) \<and> unat (s27_nbits s) < 16"

definition SDMv27_scrambler :: "sdmv27 \<Rightarrow> u16 list \<Rightarrow> u16 \<Rightarrow> (sdmv27 \<times> u16 list) option" where
  "SDMv27_scrambler s buf count =
     (if count \<noteq> 0 \<and> \<not> v27_shifts_defined s then None else scr_walk scr27 s buf 0 (unat count))"

definition SDMv27_descrambler :: "sdmv27 \<Rightarrow> u16 list \<Rightarrow> u16 \<Rightarrow> (sdmv27 \<times> u16 list) option" where
  "SDMv27_descrambler s buf count =
     (if count \<noteq> 0 \<and> \<not> v27_shifts_defined s then None else scr_walk dsc27 s buf 0 (unat count))"

subsection \<open>The paths bit by bit\<close>

lemma bit_double16: "bit (r * 2 :: u16) n \<longleftrightarrow> 0 < n \<and> n < 16 \<and> bit r (n - 1)"
proof -
  have "r * 2 = push_bit 1 r" by simp
  then show ?thesis by (simp only: bit_push_bit_iff possible_bit_word) (cases n; auto dest: bit_imp_le_length)
qed

lemma bit_double32: "bit (r * 2 :: u32) n \<longleftrightarrow> 0 < n \<and> n < 32 \<and> bit r (n - 1)"
proof -
  have "r * 2 = push_bit 1 r" by simp
  then show ?thesis by (simp only: bit_push_bit_iff possible_bit_word) (cases n; auto dest: bit_imp_le_length)
qed

lemmas bit_double = bit_double16 bit_double32

definition sh1 :: "u16 \<Rightarrow> bool \<Rightarrow> u16" where
  "sh1 r b = push_bit 1 r OR of_bool b"

lemma bit_sh1: "bit (sh1 r b) n \<longleftrightarrow> n < 16 \<and> (if n = 0 then b else bit r (n - 1))"
  unfolding sh1_def by (simp only: bit_or_iff bit_push_bit_iff bit_of_bool_iff possible_bit_word) (auto dest: bit_imp_le_length)

text \<open>A bit repeats an earlier one unless it differs from all three guard taps.\<close>

definition repeats :: "u16 \<Rightarrow> bool" where
  "repeats reg \<longleftrightarrow> bit reg 8 = bit reg 0 \<or> bit reg 9 = bit reg 0 \<or> bit reg 12 = bit reg 0"

definition flag27 :: "u16 \<Rightarrow> bool" where
  "flag27 v \<longleftrightarrow> v = 1"

definition run_next :: "bool \<Rightarrow> u16 \<Rightarrow> u16" where
  "run_next ok run = (if ok then run + 1 else 0)"

lemma and_1_bit: "(x AND 1 :: 'a::len word) = of_bool (bit x 0)"
  by (simp add: and_one_eq mod_2_eq_odd bit_0)

lemma and_eq_iff_bits: "(x AND t = t) \<longleftrightarrow> (\<forall>n. bit t n \<longrightarrow> bit x n)" for x t :: "'a::len word"
proof
  assume "x AND t = t"
  then have "bit (x AND t) n = bit t n" for n by simp
  then show "\<forall>n. bit t n \<longrightarrow> bit x n" unfolding bit_and_iff by blast
next
  assume "\<forall>n. bit t n \<longrightarrow> bit x n"
  then show "x AND t = t" by (intro bit_word_eqI) (auto simp: bit_and_iff)
qed

lemma taps_1300:
  assumes "bit line 0 \<longleftrightarrow> b" and "line = of_bool b"
  shows "((line * 0xffff) XOR ucast (reg :: u16)) AND SDMV27_GUARD_TAPS = SDMV27_GUARD_TAPS \<longleftrightarrow>
    bit reg 8 \<noteq> b \<and> bit reg 9 \<noteq> b \<and> bit reg 12 \<noteq> b"
proof -
  have t: "SDMV27_GUARD_TAPS = set_bit 8 (set_bit 9 (set_bit 12 0))"
    by (simp add: SDMV27_GUARD_TAPS_def set_bit_eq_or push_bit_of_1)
  have bt: "bit SDMV27_GUARD_TAPS n \<longleftrightarrow> n = 8 \<or> n = 9 \<or> n = 12" for n
    unfolding t by (simp only: bit_set_bit_iff possible_bit_word) auto
  have m: "line * 0xffff = (if b then mask 16 else 0)" using assms(2) by (simp add: mask_eq_exp_minus_1)
  have bl: "bit (line * 0xffff :: u32) n \<longleftrightarrow> b \<and> n < 16" for n
    unfolding m by (auto simp: bit_mask_iff simp del: mask_numeral)
  have "((line * 0xffff) XOR ucast reg) AND SDMV27_GUARD_TAPS = SDMV27_GUARD_TAPS \<longleftrightarrow>
      (\<forall>n. bit SDMV27_GUARD_TAPS n \<longrightarrow> bit ((line * 0xffff) XOR ucast reg) n)"
    by (rule and_eq_iff_bits)
  also have "\<dots> \<longleftrightarrow> bit reg 8 \<noteq> b \<and> bit reg 9 \<noteq> b \<and> bit reg 12 \<noteq> b"
    unfolding bt bit_xor_iff bl by (auto simp: bit_unsigned_iff)
  finally show ?thesis .
qed

definition after_guard :: "bool \<Rightarrow> u16 \<Rightarrow> sdmv27 \<Rightarrow> sdmv27" where
  "after_guard i p s =
    (let ok = repeats (s27_reg s) \<and> \<not> i; run = run_next ok (s27_run s)
     in if run = SDMV27_GUARD_RUN then s\<lparr>s27_run := 0, s27_pending := 1\<rparr>
        else s\<lparr>s27_run := run, s27_pending := (if ok then p else 0)\<rparr>)"

lemma guard_bit_eq:
  assumes "bit (s27_reg s) 0 = b"
  shows "guard_bit (of_bool b) (of_bool i) p s = after_guard i p s"
proof -
  have t: "((of_bool b * 0xffff :: u32) XOR ucast (s27_reg s)) AND SDMV27_GUARD_TAPS = SDMV27_GUARD_TAPS \<longleftrightarrow> \<not> repeats (s27_reg s)"
    using taps_1300 [of "of_bool b" b "s27_reg s"] assms by (auto simp: repeats_def)
  have ok: "(ucast (NOT ((if \<not> repeats (s27_reg s) then 1 else 0) OR ucast (of_bool i :: u16) :: u32) AND 1) :: u16) = of_bool (repeats (s27_reg s) \<and> \<not> i)"
    by (cases i) (auto simp: and_1_bit bit_not_iff)
  show ?thesis unfolding guard_bit_def Let_def t ok by (simp add: after_guard_def Let_def run_next_def)
qed

text \<open>One bit through the scrambler and the descrambler.\<close>

definition tap27 :: "u16 \<Rightarrow> bool" where
  "tap27 reg \<longleftrightarrow> bit reg 5 \<noteq> bit reg 6"

lemma bit_pick:
  "(drop_bit 6 (ucast (push_bit 1 r :: u16)) XOR drop_bit 7 (ucast (push_bit 1 r :: u16)) XOR a :: u32) AND 1 =
     of_bool (tap27 r \<noteq> bit a 0)"
  unfolding and_1_bit tap27_def
  by (auto simp: bit_xor_iff bit_drop_bit_eq bit_unsigned_iff bit_double)

lemma sh1_ucast:
  "ucast (push_bit 1 (ucast d :: u32) OR of_bool b) = sh1 d b" "push_bit 1 r OR ucast (of_bool b :: u32) = sh1 r b"
proof -
  show "ucast (push_bit 1 (ucast d :: u32) OR of_bool b) = sh1 d b" unfolding sh1_def
    by (rule bit_word_eqI) (auto simp: bit_or_iff bit_unsigned_iff bit_double bit_1_iff dest: bit_imp_le_length)
  show "push_bit 1 r OR ucast (of_bool b :: u32) = sh1 r b" unfolding sh1_def by (cases b) simp_all
qed

lemma scr27_bit_eq:
  assumes "s27_pending s = of_bool i" and "b = (tap27 (s27_reg s) \<noteq> (i \<noteq> bit d (unat (s27_nbits s) - 1)))"
  shows "scr27_bit (s, d) =
    (after_guard i (of_bool i) (s\<lparr>s27_inverting := of_bool i, s27_reg := sh1 (s27_reg s) b\<rparr>), sh1 d b)"
proof -
  let ?nb = "unat (s27_nbits s)"
  have pick: "(drop_bit 6 (ucast (push_bit 1 (s27_reg s))) XOR drop_bit 7 (ucast (push_bit 1 (s27_reg s))) XOR
      ucast (of_bool i :: u16) XOR drop_bit (?nb - 1) (ucast d) :: u32) AND 1 = of_bool b"
    using bit_pick [of "s27_reg s" "ucast (of_bool i :: u16) XOR drop_bit (?nb - 1) (ucast d)"] assms
    by (simp add: ac_simps bit_xor_iff bit_drop_bit_eq bit_unsigned_iff) (cases i; auto dest: bit_imp_le_length)
  have b0: "bit (s27_reg (s\<lparr>s27_inverting := of_bool i, s27_reg := sh1 (s27_reg s) b\<rparr>)) 0 = b" by (simp add: bit_sh1)
  show ?thesis
    unfolding scr27_bit_def Let_def split_conv assms(1) pick sh1_ucast by (simp only: guard_bit_eq [OF b0])
qed

lemma dsc27_bit_eq:
  assumes "s27_inverting s = of_bool i" and "b = bit d (unat (s27_nbits s) - 1)" and "1 \<le> unat (s27_nbits s)" "unat (s27_nbits s) < 16"
    and "s' = after_guard i (s27_pending s) (s\<lparr>s27_reg := sh1 (s27_reg s) b\<rparr>)"
  shows "dsc27_bit (s, d) = (s'\<lparr>s27_inverting := s27_pending s'\<rparr>, sh1 d (tap27 (s27_reg s) \<noteq> (i \<noteq> b)))"
proof -
  let ?nb = "unat (s27_nbits s)"
  have inp: "(ucast (drop_bit ?nb (ucast (push_bit 1 (ucast d) :: u32) :: u16)) :: u32) AND 1 = of_bool b"
    unfolding and_1_bit assms(2) using assms(3,4)
    by (auto simp: bit_unsigned_iff bit_drop_bit_eq bit_double dest: bit_imp_le_length)
  have out: "(((drop_bit 6 (ucast (push_bit 1 (s27_reg s))) XOR drop_bit 7 (ucast (push_bit 1 (s27_reg s)))) XOR ucast (of_bool i :: u16) :: u32) AND 1)
      XOR of_bool b = of_bool (tap27 (s27_reg s) \<noteq> (i \<noteq> b))"
    using bit_pick [of "s27_reg s" "ucast (of_bool i :: u16)"] by (cases i; cases b) (auto simp: xor.assoc)
  have b0: "bit (s27_reg (s\<lparr>s27_reg := sh1 (s27_reg s) b\<rparr>)) 0 = b" by (simp add: bit_sh1)
  show ?thesis
    unfolding dsc27_bit_def Let_def split_conv inp assms(1) out sh1_ucast guard_bit_eq [OF b0] assms(5) ..
qed

subsection \<open>The bulk path computes the bit path\<close>

definition v27_ok :: "sdmv27 \<Rightarrow> bool" where
  "v27_ok s \<longleftrightarrow> (s27_nbits s = 2 \<or> s27_nbits s = 3) \<and> s27_mask s = mask (unat (s27_nbits s)) \<and>
     s27_notmask s = NOT (s27_mask s) \<and> s27_run s < SDMV27_GUARD_RUN \<and> s27_pending s \<le> 1 \<and> s27_inverting s \<le> 1"

lemma le_1_of_bool: "(v :: u16) \<le> 1 \<Longrightarrow> v = of_bool (v = 1)"
proof -
  assume "v \<le> 1"
  then have "unat v \<le> 1" by (simp add: word_le_nat_alt)
  then have "unat v = 0 \<or> unat v = 1" by linarith
  then show ?thesis by (auto simp: u16_eq_nat_iff)
qed

lemma after_guard_quiet:
  assumes "unat (s27_run s) < 32"
  shows "after_guard False 0 s = s\<lparr>s27_run := run_next (repeats (s27_reg s)) (s27_run s), s27_pending := 0\<rparr>"
    "unat (run_next ok (s27_run s)) \<le> unat (s27_run s) + 1"
proof -
  have u: "unat (run_next ok (s27_run s)) \<le> unat (s27_run s) + 1" for ok
    using assms by (auto simp: run_next_def unat_succ_u16)
  have "unat (run_next ok (s27_run s)) \<noteq> unat SDMV27_GUARD_RUN" for ok
    using assms u [of ok] by (simp add: SDMV27_GUARD_RUN_def)
  then have "run_next ok (s27_run s) \<noteq> SDMV27_GUARD_RUN" for ok by metis
  then show "after_guard False 0 s = s\<lparr>s27_run := run_next (repeats (s27_reg s)) (s27_run s), s27_pending := 0\<rparr>"
    by (simp add: after_guard_def Let_def)
  show "unat (run_next ok (s27_run s)) \<le> unat (s27_run s) + 1" by (rule u)
qed

text \<open>The bits of what the bulk paths compute.\<close>

definition bulk_shifted :: "nat \<Rightarrow> u16 \<Rightarrow> u32" where
  "bulk_shifted nb r = push_bit nb (ucast r) AND ucast (NOT (mask nb) :: u16)"

lemma bit_bulk_shifted: "bit (bulk_shifted nb r) n \<longleftrightarrow> nb \<le> n \<and> n < 16 \<and> bit r (n - nb)"
  unfolding bulk_shifted_def
  by (simp only: bit_and_iff bit_push_bit_iff bit_unsigned_iff bit_not_iff bit_mask_iff possible_bit_word)
    (auto dest: bit_imp_le_length)

lemma bit_bulk_guard:
  "n < 3 \<Longrightarrow> bit (bulk_guard reg v) n \<longleftrightarrow> bit reg (8 + n) = bit v n \<or> bit reg (9 + n) = bit v n \<or> bit reg (12 + n) = bit v n"
  unfolding bulk_guard_def
  by (simp only: bit_unsigned_iff bit_not_iff bit_and_iff bit_xor_iff bit_drop_bit_eq o_apply possible_bit_word) auto

lemma guard_run_step: "guard_run guard run (Suc j) = guard_run guard (run_next (bit guard j) run) j"
  by (simp add: and_1_bit bit_drop_bit_eq run_next_def Let_def)

lemma guard_run_3:
  assumes "\<And>n. n < 3 \<Longrightarrow> bit v n = bit reg n"
  shows "guard_run (bulk_guard reg v) run 3 =
      run_next (repeats reg) (run_next (repeats (drop_bit 1 reg)) (run_next (repeats (drop_bit 2 reg)) run))"
    "guard_run (bulk_guard reg v) run 2 = run_next (repeats reg) (run_next (repeats (drop_bit 1 reg)) run)"
proof -
  have g: "bit (bulk_guard reg v) n = repeats (drop_bit n reg)" if "n < 3" for n
    using bit_bulk_guard [OF that, of reg v] assms [OF that] by (simp add: repeats_def bit_drop_bit_eq add.commute)
  have g0: "bit (bulk_guard reg v) 0 = repeats reg" using g [of 0] by simp
  have "(3 :: nat) = Suc (Suc (Suc 0))" "(2 :: nat) = Suc (Suc 0)" by simp_all
  then show "guard_run (bulk_guard reg v) run 3 =
      run_next (repeats reg) (run_next (repeats (drop_bit 1 reg)) (run_next (repeats (drop_bit 2 reg)) run))"
    "guard_run (bulk_guard reg v) run 2 = run_next (repeats reg) (run_next (repeats (drop_bit 1 reg)) run)"
    using g [of 1] g [of 2] g0 by (simp_all only: guard_run_step guard_run.simps(1)) simp_all
qed

lemma repeats_drop: "repeats (drop_bit 1 (sh1 q b)) = repeats q" "repeats (drop_bit 2 (sh1 (sh1 q a) b)) = repeats q"
  by (simp_all add: repeats_def bit_drop_bit_eq bit_sh1 del: drop_bit_Suc)

text \<open>The common shape of both directions while the guard is quiet: \<open>line\<close> gives the bits that
  go into the register, highest first.\<close>

definition quiet :: "sdmv27 \<Rightarrow> bool list \<Rightarrow> sdmv27" where
  "quiet s bs = foldl (\<lambda>s b. let r = sh1 (s27_reg s) b
     in s\<lparr>s27_reg := r, s27_run := run_next (repeats r) (s27_run s), s27_pending := 0, s27_inverting := 0\<rparr>) s bs"

lemma scr27_bit_quiet:
  assumes "s27_pending s = 0" and "unat (s27_run s) < 32" and "b = (tap27 (s27_reg s) \<noteq> bit d (unat (s27_nbits s) - 1))"
  shows "scr27_bit (s, d) = (quiet s [b], sh1 d b)"
  using scr27_bit_eq [of s False b d] assms
  by (simp add: after_guard_quiet quiet_def Let_def)

lemma dsc27_bit_quiet:
  assumes "s27_pending s = 0" and "s27_inverting s = 0" and "unat (s27_run s) < 32" and "b = bit d (unat (s27_nbits s) - 1)"
    and "1 \<le> unat (s27_nbits s)" and "unat (s27_nbits s) < 16"
  shows "dsc27_bit (s, d) = (quiet s [b], sh1 d (tap27 (s27_reg s) \<noteq> b))"
  using dsc27_bit_eq [of s False b d] assms
  by (simp add: after_guard_quiet quiet_def Let_def)

lemma quiet_sel [simp]:
  "s27_nbits (quiet s [b]) = s27_nbits s" "s27_mask (quiet s [b]) = s27_mask s" "s27_notmask (quiet s [b]) = s27_notmask s"
  "s27_pending (quiet s [b]) = 0" "s27_inverting (quiet s [b]) = 0"
  "s27_reg (quiet s [b]) = sh1 (s27_reg s) b"
  "s27_run (quiet s [b]) = run_next (repeats (sh1 (s27_reg s) b)) (s27_run s)"
  by (simp_all add: quiet_def Let_def)

lemma quiet_run: "unat (s27_run s) < 32 \<Longrightarrow> unat (s27_run (quiet s [b])) \<le> unat (s27_run s) + 1"
  using after_guard_quiet(2) by simp

lemma tap27_sh1: "tap27 (sh1 r b) \<longleftrightarrow> bit r 4 \<noteq> bit r 5" "tap27 (sh1 (sh1 r a) b) \<longleftrightarrow> bit r 3 \<noteq> bit r 4"
  by (simp_all add: tap27_def bit_sh1)

text \<open>What a bulk path does to the register and the counter, against the quiet bit steps.\<close>

lemma bulk_3:
  assumes "\<And>n. bit reg n \<longleftrightarrow> n < 16 \<and> (if n < 3 then bit v n else bit (s27_reg s) (n - 3))"
    and "s27_pending s = 0" "s27_inverting s = 0"
  shows "s\<lparr>s27_reg := reg, s27_run := guard_run (bulk_guard reg v) (s27_run s) 3\<rparr> =
    quiet (quiet (quiet s [bit v 2]) [bit v 1]) [bit v 0]"
proof -
  let ?r1 = "sh1 (s27_reg s) (bit v 2)"
  let ?r3 = "sh1 (sh1 ?r1 (bit v 1)) (bit v 0)"
  have r: "reg = ?r3"
  proof (rule bit_word_eqI)
    fix n assume "n < LENGTH(16)"
    consider "n = 0" | "n = 1" | "n = 2" | m where "n = Suc (Suc (Suc m))"
      by (metis One_nat_def Suc_1 nat.exhaust)
    then show "bit reg n = bit ?r3 n" by cases (auto simp: assms(1) bit_sh1)
  qed
  have g: "guard_run (bulk_guard reg v) (s27_run s) 3 =
      run_next (repeats reg) (run_next (repeats (drop_bit 1 reg)) (run_next (repeats (drop_bit 2 reg)) (s27_run s)))"
    by (rule guard_run_3(1)) (simp add: assms(1))
  show ?thesis unfolding g unfolding r repeats_drop using assms(2,3) by (cases s) (simp add: quiet_def Let_def)
qed

lemma bulk_2:
  assumes "\<And>n. bit reg n \<longleftrightarrow> n < 16 \<and> (if n < 2 then bit v n else bit (s27_reg s) (n - 2))"
    and "s27_pending s = 0" "s27_inverting s = 0"
  shows "s\<lparr>s27_reg := reg, s27_run := guard_run (bulk_guard reg v) (s27_run s) 2\<rparr> = quiet (quiet s [bit v 1]) [bit v 0]"
proof -
  let ?r2 = "sh1 (sh1 (s27_reg s) (bit v 1)) (bit v 0)"
  have r: "reg = ?r2"
  proof (rule bit_word_eqI)
    fix n assume "n < LENGTH(16)"
    consider "n = 0" | "n = 1" | m where "n = Suc (Suc m)"
      by (metis One_nat_def nat.exhaust)
    then show "bit reg n = bit ?r2 n" by cases (auto simp: assms(1) bit_sh1)
  qed
  have g: "bit (bulk_guard reg v) n = repeats (drop_bit n reg)" if "n < 2" for n
    using bit_bulk_guard [of n reg v] that by (simp add: repeats_def bit_drop_bit_eq add.commute assms(1))
  have "guard_run (bulk_guard reg v) (s27_run s) 2 = run_next (repeats reg) (run_next (repeats (drop_bit 1 reg)) (s27_run s))"
    using g [of 0] g [of 1] unfolding numeral_2_eq_2 by (simp only: guard_run_step guard_run.simps(1)) simp
  then show ?thesis unfolding r repeats_drop using assms(2,3) by (cases s) (simp add: quiet_def Let_def)
qed

definition scr27_serial :: "sdmv27 \<Rightarrow> u16 \<Rightarrow> sdmv27 \<times> u16" where
  "scr27_serial s x = (let (s', y) = (scr27_bit ^^ unat (s27_nbits s)) (s, x) in (s', y AND s27_mask s))"

definition dsc27_serial :: "sdmv27 \<Rightarrow> u16 \<Rightarrow> sdmv27 \<times> u16" where
  "dsc27_serial s x = (let (s', y) = (dsc27_bit ^^ unat (s27_nbits s)) (s, x) in (s', y AND s27_mask s))"

lemma bulk_ok_quiet:
  assumes "v27_ok s" and "bulk_ok s"
  shows "s27_pending s = 0" "s27_inverting s = 0" "unat (s27_run s) + unat (s27_nbits s) < 33"
proof -
  have "uint (s27_pending s) = 0" "uint (s27_inverting s) = 0"
    using assms(2) uint_ge_0 [of "s27_pending s"] uint_ge_0 [of "s27_inverting s"] unfolding bulk_ok_def by linarith+
  then show "s27_pending s = 0" "s27_inverting s = 0" by (simp_all only: uint_0_iff)
  have "unat (s27_run s) < unat (33 - s27_nbits s)" using assms(2) by (simp add: bulk_ok_def SDMV27_GUARD_RUN_def word_less_nat_alt)
  moreover have "s27_nbits s = 2 \<or> s27_nbits s = 3" using assms(1) by (simp add: v27_ok_def)
  ultimately show "unat (s27_run s) + unat (s27_nbits s) < 33" by auto
qed

lemma sh1_masked:
  "sh1 (sh1 (sh1 d a) b) c AND mask 3 = sh1 (sh1 (sh1 0 a) b) c" "sh1 (sh1 d a) b AND mask 2 = sh1 (sh1 0 a) b"
proof -
  show "sh1 (sh1 (sh1 d a) b) c AND mask 3 = sh1 (sh1 (sh1 0 a) b) c"
    by (rule bit_word_eqI) (simp only: bit_and_iff bit_mask_iff possible_bit_word bit_sh1, auto)
  show "sh1 (sh1 d a) b AND mask 2 = sh1 (sh1 0 a) b"
    by (rule bit_word_eqI) (simp only: bit_and_iff bit_mask_iff possible_bit_word bit_sh1, auto)
qed

lemma word_of_bits:
  assumes "\<And>n. bit v n \<Longrightarrow> n < k" and "k = 2 \<or> k = 3"
  shows "ucast (v :: u32) = (if k = 3 then sh1 (sh1 (sh1 0 (bit v 2)) (bit v 1)) (bit v 0) else sh1 (sh1 0 (bit v 1)) (bit v 0))"
proof (rule bit_word_eqI)
  fix n assume "n < LENGTH(16)"
  consider "n = 0" | "n = 1" | "n = 2" | "3 \<le> n" by linarith
  then show "bit (ucast v :: u16) n = bit (if k = 3 then sh1 (sh1 (sh1 0 (bit v 2)) (bit v 1)) (bit v 0) else sh1 (sh1 0 (bit v 1)) (bit v 0)) n"
    using assms(1) [of n] assms(2) by cases (auto simp: bit_unsigned_iff bit_sh1)
qed

lemma scr27_bulk_serial:
  assumes "v27_ok s" and "bulk_ok s"
  shows "scr27_bulk s x = scr27_serial s x"
proof -
  note q = bulk_ok_quiet [OF assms]
  define nb where "nb = unat (s27_nbits s)"
  define v where "v = (ucast x XOR drop_bit 6 (bulk_shifted nb (s27_reg s)) XOR drop_bit 7 (bulk_shifted nb (s27_reg s))) AND (ucast (mask nb :: u16) :: u32)"
  have m: "s27_mask s = mask nb" "s27_notmask s = NOT (mask nb)" and nb: "nb = 2 \<or> nb = 3"
    using assms(1) by (auto simp: v27_ok_def nb_def)
  define reg where "reg = (ucast (bulk_shifted nb (s27_reg s) OR v) :: u16)"
  have bulk: "scr27_bulk s x = (s\<lparr>s27_reg := reg, s27_run := guard_run (bulk_guard reg v) (s27_run s) nb\<rparr>, ucast v)"
    unfolding scr27_bulk_def Let_def m reg_def v_def bulk_shifted_def nb_def [symmetric] ..
  have bv: "bit v n \<longleftrightarrow> n < nb \<and> (bit x n \<noteq> (bit (s27_reg s) (6 + n - nb) \<noteq> bit (s27_reg s) (7 + n - nb)))" for n
    unfolding v_def using nb
    by (simp only: bit_and_iff bit_xor_iff bit_drop_bit_eq o_apply bit_bulk_shifted bit_unsigned_iff bit_mask_iff possible_bit_word) auto
  have br: "bit reg n \<longleftrightarrow> n < 16 \<and> (if n < nb then bit v n else bit (s27_reg s) (n - nb))" for n
    unfolding reg_def by (auto simp: bit_unsigned_iff bit_or_iff bit_bulk_shifted) (auto simp: bv)
  have w: "ucast v = (if nb = 3 then sh1 (sh1 (sh1 0 (bit v 2)) (bit v 1)) (bit v 0) else sh1 (sh1 0 (bit v 1)) (bit v 0))"
    by (rule word_of_bits) (use nb bv in auto)
  have lt: "unat (s27_run s) < 32" using q(3) nb by (auto simp: nb_def)
  show ?thesis
  proof (cases "nb = 3")
    case True
    let ?s1 = "quiet s [bit v 2]"
    let ?s2 = "quiet ?s1 [bit v 1]"
    have l: "unat (s27_run ?s1) < 32" "unat (s27_run ?s2) < 32"
      using quiet_run [OF lt, of "bit v 2"] quiet_run [of ?s1 "bit v 1"] q(3) True by (auto simp: nb_def)
    have 1: "scr27_bit (s, x) = (?s1, sh1 x (bit v 2))"
      by (rule scr27_bit_quiet [OF q(1) lt]) (use True bv in \<open>auto simp: nb_def tap27_def\<close>)
    have 2: "scr27_bit (?s1, sh1 x (bit v 2)) = (?s2, sh1 (sh1 x (bit v 2)) (bit v 1))"
      by (rule scr27_bit_quiet [OF _ l(1)]) (use True bv in \<open>auto simp: nb_def tap27_sh1 bit_sh1\<close>)
    have 3: "scr27_bit (?s2, sh1 (sh1 x (bit v 2)) (bit v 1)) = (quiet ?s2 [bit v 0], sh1 (sh1 (sh1 x (bit v 2)) (bit v 1)) (bit v 0))"
      by (rule scr27_bit_quiet [OF _ l(2)]) (use True bv in \<open>auto simp: nb_def tap27_sh1 bit_sh1\<close>)
    have "scr27_serial s x = (quiet ?s2 [bit v 0], sh1 (sh1 (sh1 0 (bit v 2)) (bit v 1)) (bit v 0))"
      using 1 2 3 unfolding scr27_serial_def m True nb_def [symmetric] by (simp add: numeral_3_eq_3 sh1_masked [unfolded numeral_3_eq_3])
    then show ?thesis unfolding bulk w using True bulk_3 [of reg v s, OF _ q(1,2)] br by simp
  next
    case False
    then have nb2: "nb = 2" using nb by simp
    let ?s1 = "quiet s [bit v 1]"
    have l: "unat (s27_run ?s1) < 32" using quiet_run [OF lt, of "bit v 1"] q(3) nb2 by (auto simp: nb_def)
    have 1: "scr27_bit (s, x) = (?s1, sh1 x (bit v 1))"
      by (rule scr27_bit_quiet [OF q(1) lt]) (use nb2 bv in \<open>auto simp: nb_def tap27_def\<close>)
    have 2: "scr27_bit (?s1, sh1 x (bit v 1)) = (quiet ?s1 [bit v 0], sh1 (sh1 x (bit v 1)) (bit v 0))"
      by (rule scr27_bit_quiet [OF _ l]) (use nb2 bv in \<open>auto simp: nb_def tap27_sh1 bit_sh1\<close>)
    have "scr27_serial s x = (quiet ?s1 [bit v 0], sh1 (sh1 0 (bit v 1)) (bit v 0))"
      using 1 2 unfolding scr27_serial_def m nb2 nb_def [symmetric] by (simp add: numeral_2_eq_2 sh1_masked [unfolded numeral_2_eq_2])
    then show ?thesis unfolding bulk w using nb2 bulk_2 [of reg v s, OF _ q(1,2)] br by simp
  qed
qed

lemma dsc27_bulk_serial:
  assumes "v27_ok s" and "bulk_ok s"
  shows "dsc27_bulk s x = dsc27_serial s x"
proof -
  note q = bulk_ok_quiet [OF assms]
  define nb where "nb = unat (s27_nbits s)"
  have m: "s27_mask s = mask nb" "s27_notmask s = NOT (mask nb)" and nb: "nb = 2 \<or> nb = 3"
    using assms(1) by (auto simp: v27_ok_def nb_def)
  define v where "v = (ucast (x AND mask nb) :: u32)"
  define reg where "reg = (push_bit nb (s27_reg s) AND NOT (mask nb)) OR (ucast v :: u16)"
  define w where "w = (((drop_bit 6 (ucast (push_bit nb (s27_reg s))) XOR drop_bit 7 (ucast (push_bit nb (s27_reg s)))) XOR v) AND (ucast (mask nb :: u16)) :: u32)"
  have bulk: "dsc27_bulk s x = (s\<lparr>s27_reg := reg, s27_run := guard_run (bulk_guard reg v) (s27_run s) nb\<rparr>, ucast w)"
    unfolding dsc27_bulk_def Let_def m reg_def v_def w_def nb_def [symmetric] ..
  have bv: "bit v n \<longleftrightarrow> n < nb \<and> bit x n" for n
    unfolding v_def by (simp only: bit_unsigned_iff bit_and_iff bit_mask_iff possible_bit_word) (auto dest: bit_imp_le_length)
  have bw: "bit w n \<longleftrightarrow> n < nb \<and> ((bit (s27_reg s) (6 + n - nb) \<noteq> bit (s27_reg s) (7 + n - nb)) \<noteq> bit x n)" for n
    unfolding w_def using nb
    by (simp only: bit_and_iff bit_xor_iff bit_drop_bit_eq o_apply bit_unsigned_iff bit_push_bit_iff bit_mask_iff possible_bit_word bv) auto
  have br: "bit reg n \<longleftrightarrow> n < 16 \<and> (if n < nb then bit v n else bit (s27_reg s) (n - nb))" for n
    unfolding reg_def
    by (simp only: bit_or_iff bit_and_iff bit_not_iff bit_push_bit_iff bit_unsigned_iff bit_mask_iff possible_bit_word)
      (auto simp: bv dest: bit_imp_le_length)
  have ww: "ucast w = (if nb = 3 then sh1 (sh1 (sh1 0 (bit w 2)) (bit w 1)) (bit w 0) else sh1 (sh1 0 (bit w 1)) (bit w 0))"
    by (rule word_of_bits) (use nb bw in auto)
  have lt: "unat (s27_run s) < 32" using q(3) nb by (auto simp: nb_def)
  have n: "1 \<le> unat (s27_nbits s)" "unat (s27_nbits s) < 16" using nb by (auto simp: nb_def)
  show ?thesis
  proof (cases "nb = 3")
    case True
    let ?s1 = "quiet s [bit v 2]"
    let ?s2 = "quiet ?s1 [bit v 1]"
    have l: "unat (s27_run ?s1) < 32" "unat (s27_run ?s2) < 32"
      using quiet_run [OF lt, of "bit v 2"] quiet_run [of ?s1 "bit v 1"] q(3) True by (auto simp: nb_def)
    have 1: "dsc27_bit (s, x) = (?s1, sh1 x (bit w 2))"
      using dsc27_bit_quiet [OF q(1,2) lt, of "bit v 2" x] n True bv bw by (auto simp: nb_def tap27_def)
    have 2: "dsc27_bit (?s1, sh1 x (bit w 2)) = (?s2, sh1 (sh1 x (bit w 2)) (bit w 1))"
      using dsc27_bit_quiet [of ?s1 "bit v 1" "sh1 x (bit w 2)"] l(1) n True bv bw by (auto simp: nb_def tap27_sh1 bit_sh1)
    have 3: "dsc27_bit (?s2, sh1 (sh1 x (bit w 2)) (bit w 1)) = (quiet ?s2 [bit v 0], sh1 (sh1 (sh1 x (bit w 2)) (bit w 1)) (bit w 0))"
      using dsc27_bit_quiet [of ?s2 "bit v 0" "sh1 (sh1 x (bit w 2)) (bit w 1)"] l(2) n True bv bw by (auto simp: nb_def tap27_sh1 bit_sh1)
    have "dsc27_serial s x = (quiet ?s2 [bit v 0], sh1 (sh1 (sh1 0 (bit w 2)) (bit w 1)) (bit w 0))"
      using 1 2 3 unfolding dsc27_serial_def m True nb_def [symmetric] by (simp add: numeral_3_eq_3 sh1_masked [unfolded numeral_3_eq_3])
    then show ?thesis unfolding bulk ww using True bulk_3 [of reg v s, OF _ q(1,2)] br by simp
  next
    case False
    then have nb2: "nb = 2" using nb by simp
    let ?s1 = "quiet s [bit v 1]"
    have l: "unat (s27_run ?s1) < 32" using quiet_run [OF lt, of "bit v 1"] q(3) nb2 by (auto simp: nb_def)
    have 1: "dsc27_bit (s, x) = (?s1, sh1 x (bit w 1))"
      using dsc27_bit_quiet [OF q(1,2) lt, of "bit v 1" x] n nb2 bv bw by (auto simp: nb_def tap27_def)
    have 2: "dsc27_bit (?s1, sh1 x (bit w 1)) = (quiet ?s1 [bit v 0], sh1 (sh1 x (bit w 1)) (bit w 0))"
      using dsc27_bit_quiet [of ?s1 "bit v 0" "sh1 x (bit w 1)"] l n nb2 bv bw by (auto simp: nb_def tap27_sh1 bit_sh1)
    have "dsc27_serial s x = (quiet ?s1 [bit v 0], sh1 (sh1 0 (bit w 1)) (bit w 0))"
      using 1 2 unfolding dsc27_serial_def m nb2 nb_def [symmetric] by (simp add: numeral_2_eq_2 sh1_masked [unfolded numeral_2_eq_2])
    then show ?thesis unfolding bulk ww using nb2 bulk_2 [of reg v s, OF _ q(1,2)] br by simp
  qed
qed

text \<open>The bulk path of the V.27 scrambler and descrambler is an optimisation of the bit path:
  whichever of the two a symbol takes, the output and the state after it are those of the
  bit-serial reference.\<close>

theorem v27_bulk_is_serial:
  assumes "v27_ok s"
  shows "scr27 s x = scr27_serial s x \<and> dsc27 s x = dsc27_serial s x"
  using scr27_bulk_serial [OF assms] dsc27_bulk_serial [OF assms]
  by (simp add: scr27_def dsc27_def scr27_serial_def dsc27_serial_def)

subsection \<open>Lock step\<close>

text \<open>The descrambler's inversion flag is the scrambler's pending one.\<close>

definition lock27 :: "sdmv27 \<Rightarrow> sdmv27 \<Rightarrow> bool" where
  "lock27 s t \<longleftrightarrow> v27_ok s \<and> v27_ok t \<and> s27_nbits t = s27_nbits s \<and> s27_reg t = s27_reg s \<and> s27_run t = s27_run s \<and>
     s27_pending t = s27_pending s \<and> s27_inverting t = s27_pending s"

lemma after_guard_sel [simp]:
  "s27_nbits (after_guard i p s) = s27_nbits s" "s27_mask (after_guard i p s) = s27_mask s"
  "s27_notmask (after_guard i p s) = s27_notmask s" "s27_reg (after_guard i p s) = s27_reg s"
  "s27_inverting (after_guard i p s) = s27_inverting s"
  by (simp_all add: after_guard_def Let_def)

lemma after_guard_bounds:
  assumes "s27_run s < SDMV27_GUARD_RUN" and "p \<le> 1"
  shows "s27_run (after_guard i p s) < SDMV27_GUARD_RUN" "s27_pending (after_guard i p s) \<le> 1"
proof -
  have r: "unat (s27_run s) < 33" using assms(1) by (simp add: SDMV27_GUARD_RUN_def word_less_nat_alt)
  have "run_next ok (s27_run s) < SDMV27_GUARD_RUN" if "run_next ok (s27_run s) \<noteq> SDMV27_GUARD_RUN" for ok
  proof -
    have "unat (run_next ok (s27_run s)) \<noteq> 33"
      using that unfolding u16_eq_nat_iff by (simp add: SDMV27_GUARD_RUN_def)
    moreover have "unat (run_next ok (s27_run s)) \<le> 33" using r by (auto simp: run_next_def unat_succ_u16)
    ultimately show ?thesis by (simp add: SDMV27_GUARD_RUN_def word_less_nat_alt)
  qed
  then show "s27_run (after_guard i p s) < SDMV27_GUARD_RUN" "s27_pending (after_guard i p s) \<le> 1"
    using assms(2) by (auto simp: after_guard_def Let_def SDMV27_GUARD_RUN_def)
qed

lemma after_guard_depends:
  "s27_reg s = s27_reg t \<Longrightarrow> s27_run s = s27_run t \<Longrightarrow>
     s27_run (after_guard i p s) = s27_run (after_guard i p t) \<and> s27_pending (after_guard i p s) = s27_pending (after_guard i p t)"
  by (simp add: after_guard_def Let_def)

lemma lock27_step:
  assumes "lock27 s t" and "scr27_bit (s, d) = (s', d')" and "dsc27_bit (t, e) = (t', e')"
    and "bit e (unat (s27_nbits s) - 1) = bit d' 0"
  shows "lock27 s' t'" "s27_nbits s' = s27_nbits s"
    "bit e' n \<longleftrightarrow> n < 16 \<and> (if n = 0 then bit d (unat (s27_nbits s) - 1) else bit e (n - 1))"
    "bit d' (Suc n) \<longleftrightarrow> Suc n < 16 \<and> bit d n"
proof -
  define i where "i = (s27_pending s = 1)"
  have k: "v27_ok s" "v27_ok t" "s27_nbits t = s27_nbits s" "s27_reg t = s27_reg s" "s27_run t = s27_run s"
    "s27_pending t = s27_pending s" "s27_inverting t = s27_pending s" using assms(1) by (simp_all add: lock27_def)
  have p: "s27_pending s = of_bool i" unfolding i_def using k(1) by (intro le_1_of_bool) (simp add: v27_ok_def)
  have n: "1 \<le> unat (s27_nbits t)" "unat (s27_nbits t) < 16" using k(2) by (auto simp: v27_ok_def)
  define b where "b = (tap27 (s27_reg s) \<noteq> (i \<noteq> bit d (unat (s27_nbits s) - 1)))"
  have s': "s' = after_guard i (of_bool i) (s\<lparr>s27_inverting := of_bool i, s27_reg := sh1 (s27_reg s) b\<rparr>)" "d' = sh1 d b"
    using scr27_bit_eq [OF p b_def] assms(2) by simp_all
  have b: "b = bit e (unat (s27_nbits t) - 1)" using assms(4) s'(2) k(3) by (simp add: bit_sh1)
  let ?u = "after_guard i (s27_pending t) (t\<lparr>s27_reg := sh1 (s27_reg t) b\<rparr>)"
  have t': "t' = ?u\<lparr>s27_inverting := s27_pending ?u\<rparr>" "e' = sh1 e (tap27 (s27_reg s) \<noteq> (i \<noteq> b))"
    using dsc27_bit_eq [OF _ b n refl, of i] p k assms(3) by simp_all
  have same: "s27_run ?u = s27_run s'" "s27_pending ?u = s27_pending s'"
    unfolding s'(1) using after_guard_depends [of "t\<lparr>s27_reg := sh1 (s27_reg t) b\<rparr>" "s\<lparr>s27_inverting := of_bool i, s27_reg := sh1 (s27_reg s) b\<rparr>" i] k p by simp_all
  have bnd: "s27_run s' < SDMV27_GUARD_RUN" "s27_pending s' \<le> 1"
    unfolding s'(1) using k(1) by (auto intro!: after_guard_bounds simp: v27_ok_def)
  have "v27_ok s'" unfolding v27_ok_def using bnd k(1) s'(1) by (simp add: v27_ok_def)
  moreover have "v27_ok t'" unfolding v27_ok_def using bnd same k(2) t'(1) by (simp add: v27_ok_def)
  ultimately show "lock27 s' t'" using same s'(1) t'(1) k by (simp add: lock27_def)
  show "s27_nbits s' = s27_nbits s" by (simp add: s'(1))
  have "(tap27 (s27_reg s) \<noteq> (i \<noteq> b)) = bit d (unat (s27_nbits s) - 1)" by (auto simp: b_def)
  then show "bit e' n \<longleftrightarrow> n < 16 \<and> (if n = 0 then bit d (unat (s27_nbits s) - 1) else bit e (n - 1))"
    by (simp add: t'(2) bit_sh1)
  show "bit d' (Suc n) \<longleftrightarrow> Suc n < 16 \<and> bit d n" by (simp add: s'(2) bit_sh1)
qed

lemma scr27_bit_ok:
  assumes "v27_ok s" and "scr27_bit (s, d) = (s', d')"
  shows "v27_ok s'" "s27_nbits s' = s27_nbits s" "bit d' (Suc n) \<longleftrightarrow> Suc n < 16 \<and> bit d n"
proof -
  define t where "t = s\<lparr>s27_inverting := s27_pending s\<rparr>"
  obtain b where "d' = sh1 d b"
    using scr27_bit_eq [OF le_1_of_bool refl, of s d] assms by (auto simp: v27_ok_def)
  then show "bit d' (Suc n) \<longleftrightarrow> Suc n < 16 \<and> bit d n" by (simp add: bit_sh1)
  obtain i where p: "s27_pending s = of_bool i" using assms(1) le_1_of_bool by (auto simp: v27_ok_def)
  obtain u where u: "s' = after_guard i (of_bool i) (s\<lparr>s27_inverting := of_bool i, s27_reg := u\<rparr>)"
    using scr27_bit_eq [OF p refl, of d] assms(2) by auto
  have "s27_run s' < SDMV27_GUARD_RUN" "s27_pending s' \<le> 1"
    unfolding u using assms(1) by (auto intro!: after_guard_bounds simp: v27_ok_def)
  then show "v27_ok s'" "s27_nbits s' = s27_nbits s" using assms(1) u by (auto simp: v27_ok_def)
qed

lemma funpow_23: "(f ^^ 3) p = f (f (f p))" "(f ^^ 2) p = f (f p)"
  by (simp_all add: numeral_3_eq_3 numeral_2_eq_2)

lemma below_3: "n < 3 \<Longrightarrow> n = 0 \<or> n = 1 \<or> n = (2 :: nat)"
  by arith

lemma lock27_serial:
  assumes l: "lock27 s t" and g: "in_group (unat (s27_nbits s)) x"
    and st: "scr27_serial s x = (s', y)" "dsc27_serial t y = (t', x')"
  shows "lock27 s' t' \<and> s27_nbits s' = s27_nbits s \<and> x' = x"
proof -
  have nb: "s27_nbits s = 2 \<or> s27_nbits s = 3" and nt: "s27_nbits t = s27_nbits s" "s27_mask s = mask (unat (s27_nbits s))"
    "s27_mask t = mask (unat (s27_nbits s))" and ok: "v27_ok s" using l by (auto simp: lock27_def v27_ok_def)
  obtain s1 d1 where 1: "scr27_bit (s, x) = (s1, d1)" by fastforce
  obtain s2 d2 where 2: "scr27_bit (s1, d1) = (s2, d2)" by fastforce
  obtain s3 d3 where 3: "scr27_bit (s2, d2) = (s3, d3)" by fastforce
  obtain t1 e1 where 4: "dsc27_bit (t, y) = (t1, e1)" by fastforce
  obtain t2 e2 where 5: "dsc27_bit (t1, e1) = (t2, e2)" by fastforce
  obtain t3 e3 where 6: "dsc27_bit (t2, e2) = (t3, e3)" by fastforce
  note o1 = scr27_bit_ok [OF ok 1]
  note o2 = scr27_bit_ok [OF o1(1) 2]
  note o3 = scr27_bit_ok [OF o2(1) 3]
  have eq: "x' = x" if "\<And>n. n < k \<Longrightarrow> bit x' n = bit x n" "k = unat (s27_nbits s)" "\<And>n. bit x' n \<Longrightarrow> n < k" for k
    by (rule bit_word_eqI) (use that g in \<open>auto simp: in_group_def\<close>)
  show ?thesis
  proof (cases "s27_nbits s = 3")
    case True
    have y: "s' = s3" "y = d3 AND mask 3" and x': "t' = t3" "x' = e3 AND mask 3"
      using st 1 2 3 4 5 6 True nt by (auto simp: scr27_serial_def dsc27_serial_def funpow_23 simp del: mask_numeral)
    have yb: "bit y n \<longleftrightarrow> n < 3 \<and> bit d3 n" and xb: "bit x' n \<longleftrightarrow> n < 3 \<and> bit e3 n" for n
      unfolding y x' by (simp_all only: bit_and_iff bit_mask_iff possible_bit_word) auto
    have d: "bit d3 2 = bit d1 0" "bit d3 1 = bit d2 0"
      using o2(3) [of 0] o3(3) [of 1] o3(3) [of 0] by (simp_all add: numeral_2_eq_2)
    note l1 = lock27_step [OF l 1 4]
    have b1: "bit y (unat (s27_nbits s) - 1) = bit d1 0" using True yb d by simp
    note l2 = lock27_step [OF l1(1) [OF b1] 2 5]
    have b2: "bit e1 (unat (s27_nbits s1) - 1) = bit d2 0" using True yb d l1(3) [OF b1] o1(2) by simp
    note l3 = lock27_step [OF l2(1) [OF b2] 3 6]
    have b3: "bit e2 (unat (s27_nbits s2) - 1) = bit d3 0"
      using True yb d l1(3) [OF b1] l2(3) [OF b2] o1(2) o2(2) by simp
    have dd: "bit d1 2 = bit x 1" "bit d1 1 = bit x 0" "bit d2 2 = bit d1 1"
      using o1(3) [of 1] o1(3) [of 0] o2(3) [of 1] by (simp_all add: numeral_2_eq_2 [symmetric])
    have "bit e3 0 = bit x 0" "bit e3 1 = bit x 1" "bit e3 2 = bit x 2"
      using l1(3) [OF b1] l2(3) [OF b2] l3(3) [OF b3] o1(2) o2(2) dd True by simp_all
    then have "bit x' n = bit x n" if "n < 3" for n using below_3 [OF that] by (auto simp: xb)
    then have "x' = x" by (rule eq) (use xb True in auto)
    then show ?thesis using l3(1) [OF b3] y(1) x'(1) o1(2) o2(2) o3(2) by simp
  next
    case False
    then have nb2: "s27_nbits s = 2" using nb by simp
    have y: "s' = s2" "y = d2 AND mask 2" and x': "t' = t2" "x' = e2 AND mask 2"
      using st 1 2 4 5 nb2 nt by (auto simp: scr27_serial_def dsc27_serial_def funpow_23 simp del: mask_numeral)
    have yb: "bit y n \<longleftrightarrow> n < 2 \<and> bit d2 n" and xb: "bit x' n \<longleftrightarrow> n < 2 \<and> bit e2 n" for n
      unfolding y x' by (simp_all only: bit_and_iff bit_mask_iff possible_bit_word) auto
    have d: "bit d2 1 = bit d1 0" using o2(3) [of 0] by simp
    note l1 = lock27_step [OF l 1 4]
    have b1: "bit y (unat (s27_nbits s) - 1) = bit d1 0" using nb2 yb d by simp
    note l2 = lock27_step [OF l1(1) [OF b1] 2 5]
    have b2: "bit e1 (unat (s27_nbits s1) - 1) = bit d2 0" using nb2 yb d l1(3) [OF b1] o1(2) by simp
    have "bit e2 0 = bit x 0" "bit e2 1 = bit x 1"
      using l1(3) [OF b1] l2(3) [OF b2] o1(2) o1(3) [of 0] nb2 by simp_all
    then have "bit x' n = bit x n" if "n < 2" for n using below_3 [of n] that by (auto simp: xb)
    then have "x' = x" by (rule eq) (use xb nb2 in auto)
    then show ?thesis using l2(1) [OF b2] y(1) x'(1) o1(2) o2(2) by simp
  qed
qed

interpretation v27: scrambler_lock scr27 dsc27 lock27 "\<lambda>s. in_group (unat (s27_nbits s))"
proof
  fix r s x r' y s' x'
  assume l: "lock27 r s" and g: "in_group (unat (s27_nbits r)) x" and st: "scr27 r x = (r', y)" "dsc27 s y = (s', x')"
  have "v27_ok r" "v27_ok s" using l by (simp_all add: lock27_def)
  then have "scr27_serial r x = (r', y)" "dsc27_serial s y = (s', x')"
    using st scr27_bulk_serial dsc27_bulk_serial by (auto simp: scr27_def dsc27_def scr27_serial_def dsc27_serial_def split: if_splits)
  from lock27_serial [OF l g this]
  show "lock27 r' s' \<and> in_group (unat (s27_nbits r')) = in_group (unat (s27_nbits r)) \<and> x' = x" by simp
qed

text \<open>The V.27 descrambler undoes the scrambler. From states set up alike, any number of
  blocks of two-bit or three-bit symbols comes back unchanged through whichever paths the
  symbols take, guard inversions included, and both ends stay in step: the register, the
  guard's run (which never reaches 33) and the pending inversion agree after the block.\<close>

theorem v27_round_trip:
  assumes "SDMv27_init s0 (Some nb) = Some s" and "SDMv27_init t0 (Some nb) = Some t" and "nb = 2 \<or> nb = 3"
    and "\<forall>x \<in> set xs. in_group (unat nb) x" and "unat count = length xs"
  shows "\<exists>s' t' ys. SDMv27_scrambler s (xs @ rest) count = Some (s', ys @ rest) \<and>
    SDMv27_descrambler t (ys @ rest) count = Some (t', xs @ rest) \<and> lock27 s' t' \<and> unat (s27_run s') < 33"
proof -
  have ok: "v27_ok s" "v27_ok t" "s27_nbits s = nb" "lock27 s t"
    using assms(1-3) by (auto simp: SDMv27_init_def Let_def v27_ok_def lock27_def mask_eq_exp_minus_1 SDMV27_GUARD_RUN_def)
  have sd: "v27_shifts_defined s" "v27_shifts_defined t" using ok by (auto simp: v27_shifts_defined_def v27_ok_def)
  let ?ys = "snd (scr_run scr27 s xs)"
  have r: "snd (scr_run dsc27 t ?ys) = xs" "lock27 (fst (scr_run scr27 s xs)) (fst (scr_run dsc27 t ?ys))"
    using v27.lock_run [OF ok(4), of xs] ok(3) assms(4) by simp_all
  have "s27_run (fst (scr_run scr27 s xs)) < SDMV27_GUARD_RUN" using r(2) by (simp add: lock27_def v27_ok_def)
  then have u: "unat (s27_run (fst (scr_run scr27 s xs))) < 33" by (simp add: SDMV27_GUARD_RUN_def word_less_nat_alt)
  show ?thesis
    using r u sd assms(5) scr_walk_block [of scr27 s xs rest] scr_walk_block [of dsc27 t ?ys rest]
    by (auto simp: SDMv27_scrambler_def SDMv27_descrambler_def)
qed

definition demo_27 :: sdmv27 where
  "demo_27 = \<lparr>s27_nbits = 3, s27_mask = 7, s27_notmask = NOT 7, s27_reg = SDMV27_REG_SEED, s27_run = 0, s27_pending = 0, s27_inverting = 0\<rparr>"

theorem v27_bulk_is_serial_witness:
  "scr27 demo_27 5 = scr27_serial demo_27 5 \<and> dsc27 demo_27 5 = dsc27_serial demo_27 5"
  by (rule v27_bulk_is_serial) (simp add: v27_ok_def demo_27_def mask_eq_exp_minus_1 SDMV27_GUARD_RUN_def)

theorem v27_round_trip_witness:
  "\<exists>s' t' ys. SDMv27_scrambler demo_27 ([5, 0, 7] @ [9]) 3 = Some (s', ys @ [9]) \<and>
    SDMv27_descrambler demo_27 (ys @ [9]) 3 = Some (t', [5, 0, 7] @ [9]) \<and> lock27 s' t' \<and> unat (s27_run s') < 33"
  by (rule v27_round_trip [where nb = 3 and s0 = demo_27 and t0 = demo_27])
    (simp_all add: SDMv27_init_def demo_27_def Let_def small_group)

end
