(* ===== verification/CTools.thy ===== *)
theory CTools
  imports Prelude
begin

unbundle bit_operations_syntax

text \<open>
  The data-mode byte handling of \<^verbatim>\<open>src/fax/cTOOLS.c\<close>: what the terminal sends is
  unescaped (\<open>DLE DLE\<close> is a \<open>DLE\<close>, \<open>DLE ETX\<close> ends the data, anything else after a
  \<open>DLE\<close> is dropped), what the modem received is escaped the same way on its way to the
  terminal.

  The functions work on the part of \<^verbatim>\<open>struct fax_class1\<close> kept here as
  \<open>class1_line\<close>. Its first 0x1000 octets are the scratch area every caller passes as the
  element buffer, 2048 elements of 16 bits: element 0 is the field
  \<^verbatim>\<open>scratch_frame_len\<close> and the low octet of element 2 is \<^verbatim>\<open>flags004\<close>, so a frame
  collected from element 1 on puts its second octet where the flag is read. A write past the
  scratch area runs into the rest of the object and is \<open>None\<close>.
\<close>

record class1_line =
  cx_scratch :: "u16 list"
  cx_frame_end_latch :: int
  cx_last_in_byte :: int
  cx_dle_seen :: int
  cx_hdlc_write_cursor :: int
  cx_async_locked :: int
  cx_async_window :: u32
  cx_async_shift :: nat
  cx_async_mask :: u32
  cx_data_input_closed :: int

definition CLASS1_DLE :: u8 where
  "CLASS1_DLE = 0x10"

definition CLASS1_ETX :: u8 where
  "CLASS1_ETX = 0x03"

definition CLASS1_FLAG_FRAME_END_LATCH :: u16 where
  "CLASS1_FLAG_FRAME_END_LATCH = 0x10"

definition CLASS1_ETX_PAD_ELEMENTS :: nat where
  "CLASS1_ETX_PAD_ELEMENTS = 20"

definition CLASS1_ETX_PAD_LIMIT :: nat where
  "CLASS1_ETX_PAD_LIMIT = 0x7ff"

definition SCRATCH_ELEMENTS :: nat where
  "SCRATCH_ELEMENTS = 0x800"

text \<open>Store an element of the scratch area; an index before or past it is outside.\<close>

definition put_scratch :: "int \<Rightarrow> u16 \<Rightarrow> 'a class1_line_scheme \<Rightarrow> 'a class1_line_scheme option" where
  "put_scratch i v ctx =
     (if i < 0 then None else do { buf \<leftarrow> wr_at (cx_scratch ctx) (nat i) v; Some (ctx\<lparr>cx_scratch := buf\<rparr>) })"

subsection \<open>Data from the terminal\<close>

fun etx_pad :: "'a class1_line_scheme \<Rightarrow> nat \<Rightarrow> nat \<Rightarrow> ('a class1_line_scheme \<times> nat) option" where
  "etx_pad ctx out 0 = Some (ctx, out)"
| "etx_pad ctx out (Suc k) =
     (if out > CLASS1_ETX_PAD_LIMIT then etx_pad ctx out k
      else do { ctx \<leftarrow> put_scratch (int out) 0 ctx; etx_pad ctx (out + 1) k })"

fun data_input_loop :: "'a class1_line_scheme \<Rightarrow> u8 list \<Rightarrow> nat \<Rightarrow> ('a class1_line_scheme \<times> nat) option" where
  "data_input_loop ctx [] out = Some (ctx, out)"
| "data_input_loop ctx (b # src) out =
     (if cx_dle_seen ctx \<noteq> 0 then
        (let ctx = ctx\<lparr>cx_dle_seen := 0\<rparr>
         in if b = CLASS1_DLE then do {
              ctx \<leftarrow> put_scratch (int out) (ucast CLASS1_DLE) ctx;
              data_input_loop ctx src (out + 1)
            }
            else if b = CLASS1_ETX then etx_pad (ctx\<lparr>cx_data_input_closed := 1\<rparr>) out CLASS1_ETX_PAD_ELEMENTS
            else data_input_loop ctx src out)
      else if b = CLASS1_DLE then data_input_loop (ctx\<lparr>cx_dle_seen := 1\<rparr>) src out
      else do {
        ctx \<leftarrow> put_scratch (int out) (ucast b) ctx;
        data_input_loop ctx src (out + 1)
      })"

text \<open>The source is the first \<open>count\<close> octets of the terminal's buffer.\<close>

definition handle_data_input :: "'a class1_line_scheme \<Rightarrow> u8 list \<Rightarrow> int \<Rightarrow> ('a class1_line_scheme \<times> int) option" where
  "handle_data_input ctx src count =
     (if cx_data_input_closed ctx \<noteq> 0 then Some (ctx, 0)
      else if count \<le> 0 then Some (ctx, 0)
      else if length src < nat count then None
      else do {
        b \<leftarrow> rd_at src (nat count - 1);
        (ctx, out) \<leftarrow> data_input_loop (ctx\<lparr>cx_last_in_byte := uint b\<rparr>) (take (nat count) src) 0;
        Some (ctx, int out)
      })"

subsection \<open>An HDLC frame from the terminal\<close>

definition handle_hdlc_input_open :: "'a class1_line_scheme \<Rightarrow> 'a class1_line_scheme" where
  "handle_hdlc_input_open ctx = ctx\<lparr>cx_hdlc_write_cursor := 1\<rparr>"

definition latch_frame_end :: "'a class1_line_scheme \<Rightarrow> 'a class1_line_scheme option" where
  "latch_frame_end ctx = do {
     f \<leftarrow> rd_at (cx_scratch ctx) 2;
     Some (if f AND CLASS1_FLAG_FRAME_END_LATCH \<noteq> 0 then ctx\<lparr>cx_frame_end_latch := 1\<rparr> else ctx)
   }"

definition handle_hdlc_input_close :: "'a class1_line_scheme \<Rightarrow> 'a class1_line_scheme option" where
  "handle_hdlc_input_close ctx = do {
     ctx \<leftarrow> put_scratch 0 (of_int (cx_hdlc_write_cursor ctx - 1)) ctx;
     latch_frame_end ctx
   }"

fun hdlc_input_loop :: "'a class1_line_scheme \<Rightarrow> u8 list \<Rightarrow> int \<Rightarrow> ('a class1_line_scheme \<times> int \<times> bool) option" where
  "hdlc_input_loop ctx [] out = Some (ctx, out, False)"
| "hdlc_input_loop ctx (b # src) out =
     (if cx_dle_seen ctx \<noteq> 0 then
        (let ctx = ctx\<lparr>cx_dle_seen := 0\<rparr>
         in if b = CLASS1_DLE then do {
              ctx \<leftarrow> put_scratch out (ucast CLASS1_DLE) ctx;
              hdlc_input_loop ctx src (out + 1)
            }
            else if b = CLASS1_ETX then do {
              ctx \<leftarrow> put_scratch 0 (of_int (out - 1)) (ctx\<lparr>cx_hdlc_write_cursor := out\<rparr>);
              ctx \<leftarrow> latch_frame_end ctx;
              Some (ctx, out, True)
            }
            else hdlc_input_loop ctx src out)
      else if b = CLASS1_DLE then hdlc_input_loop (ctx\<lparr>cx_dle_seen := 1\<rparr>) src out
      else do {
        ctx \<leftarrow> put_scratch out (ucast b) ctx;
        hdlc_input_loop ctx src (out + 1)
      })"

text \<open>The new count and the flag that a whole frame is in the scratch area.\<close>

definition handle_hdlc_input :: "'a class1_line_scheme \<Rightarrow> u8 list \<Rightarrow> int \<Rightarrow> ('a class1_line_scheme \<times> int \<times> int) option" where
  "handle_hdlc_input ctx src count =
     (if int (length src) < count then None
      else do {
        (ctx, out, done) \<leftarrow> hdlc_input_loop ctx (take (nat count) src) (cx_hdlc_write_cursor ctx);
        let ctx = ctx\<lparr>cx_hdlc_write_cursor := out\<rparr>;
        Some (ctx, if done then out else 0, if done then 1 else 0)
      })"

subsection \<open>Data to the terminal\<close>

definition cTOOLS_handle_data_output_reset :: "'a class1_line_scheme \<Rightarrow> 'a class1_line_scheme" where
  "cTOOLS_handle_data_output_reset ctx = ctx\<lparr>cx_async_locked := 0, cx_async_window := 0xffffffff\<rparr>"

text \<open>The search for the first zero bit, at most eight tries; the flag says it was found.\<close>

fun hunt_lock :: "u32 \<Rightarrow> u32 \<Rightarrow> u32 \<Rightarrow> nat \<Rightarrow> nat \<Rightarrow> u32 \<times> nat \<times> bool" where
  "hunt_lock window probe msk shift 0 = (msk, shift, False)"
| "hunt_lock window probe msk shift (Suc n) =
     (if window AND probe = 0 then (msk, shift, True)
      else hunt_lock window (probe + probe) (push_bit 1 msk) (shift + 1) n)"

definition output_octet :: "'a class1_line_scheme \<Rightarrow> u16 \<Rightarrow> 'a class1_line_scheme \<times> u8" where
  "output_octet ctx e =
     (let window = push_bit 24 (ucast (ucast e :: u8)) OR cx_async_window ctx;
          ctx = ctx\<lparr>cx_async_window := drop_bit 8 window\<rparr>
      in if cx_async_locked ctx = 0
         then let (msk, shift, found) = hunt_lock window 0x10000 0xff0000 16 8;
                  ctx = ctx\<lparr>cx_async_mask := msk, cx_async_shift := shift\<rparr>
              in if found then (ctx\<lparr>cx_async_locked := 1\<rparr>, ucast (drop_bit shift (window AND msk)))
                 else (ctx, 0xff)
         else (ctx, ucast (drop_bit (cx_async_shift ctx) (window AND cx_async_mask ctx))))"

definition put_escaped :: "u8 list \<Rightarrow> nat \<Rightarrow> u8 \<Rightarrow> bool \<Rightarrow> (u8 list \<times> nat) option" where
  "put_escaped dst out v twice = do {
     dst \<leftarrow> wr_at dst out v;
     if twice then do { dst \<leftarrow> wr_at dst (out + 1) CLASS1_DLE; Some (dst, out + 2) } else Some (dst, out + 1)
   }"

definition put_end :: "u8 list \<Rightarrow> nat \<Rightarrow> int \<Rightarrow> (u8 list \<times> nat) option" where
  "put_end dst out terminate =
     (if terminate \<noteq> 0 then do {
        dst \<leftarrow> wr_at dst out CLASS1_DLE;
        dst \<leftarrow> wr_at dst (out + 1) CLASS1_ETX;
        Some (dst, out + 2)
      } else Some (dst, out))"

fun data_output_loop :: "'a class1_line_scheme \<Rightarrow> u16 list \<Rightarrow> u8 list \<Rightarrow> nat \<Rightarrow> ('a class1_line_scheme \<times> u8 list \<times> nat) option" where
  "data_output_loop ctx [] dst out = Some (ctx, dst, out)"
| "data_output_loop ctx (e # src) dst out = do {
     let (ctx, octet) = output_octet ctx e;
     (dst, out) \<leftarrow> put_escaped dst out octet (octet = CLASS1_DLE);
     data_output_loop ctx src dst out
   }"

definition handle_data_output :: "'a class1_line_scheme \<Rightarrow> u16 list \<Rightarrow> u8 list \<Rightarrow> int \<Rightarrow> int \<Rightarrow> ('a class1_line_scheme \<times> u8 list \<times> nat) option" where
  "handle_data_output ctx src dst count terminate =
     (if int (length src) < count then None
      else do {
        (ctx, dst, out) \<leftarrow> data_output_loop ctx (take (nat count) src) dst 0;
        (dst, out) \<leftarrow> put_end dst out terminate;
        Some (ctx, dst, out)
      })"

fun hdlc_output_loop :: "u16 list \<Rightarrow> u8 list \<Rightarrow> nat \<Rightarrow> (u8 list \<times> nat) option" where
  "hdlc_output_loop [] dst out = Some (dst, out)"
| "hdlc_output_loop (e # src) dst out = do {
     (dst, out) \<leftarrow> put_escaped dst out (ucast e) (e = ucast CLASS1_DLE);
     hdlc_output_loop src dst out
   }"

definition cTOOLS_handle_hdlc_output :: "u16 list \<Rightarrow> u8 list \<Rightarrow> int \<Rightarrow> int \<Rightarrow> (u8 list \<times> nat) option" where
  "cTOOLS_handle_hdlc_output src dst count terminate =
     (if int (length src) < count then None
      else do {
        (dst, out) \<leftarrow> hdlc_output_loop (take (nat count) src) dst 0;
        put_end dst out terminate
      })"


subsection \<open>The escaping as a specification on octet streams\<close>

text \<open>
  \<open>dle_stuff\<close> escapes a stream; \<open>undle p\<close> reads one, \<open>p\<close> saying that a
  \<open>DLE\<close> is pending. It gives the octets, the new pending flag and whether \<open>DLE ETX\<close>
  was met, after which the rest is ignored.
\<close>

fun dle_stuff :: "u8 list \<Rightarrow> u8 list" where
  "dle_stuff [] = []"
| "dle_stuff (b # bs) = (if b = CLASS1_DLE then [CLASS1_DLE, CLASS1_DLE] else [b]) @ dle_stuff bs"

fun undle :: "bool \<Rightarrow> u8 list \<Rightarrow> u8 list \<times> bool \<times> bool" where
  "undle p [] = ([], p, False)"
| "undle p (b # bs) =
     (if p then
        if b = CLASS1_DLE then map_prod (Cons CLASS1_DLE) id (undle False bs)
        else if b = CLASS1_ETX then ([], False, True)
        else undle False bs
      else if b = CLASS1_DLE then undle True bs
      else map_prod (Cons b) id (undle False bs))"

definition overlay :: "'a list \<Rightarrow> nat \<Rightarrow> 'a list \<Rightarrow> 'a list" where
  "overlay xs i ys = take i xs @ ys @ drop (i + length ys) xs"

lemma length_overlay [simp]: "i + length ys \<le> length xs \<Longrightarrow> length (overlay xs i ys) = length xs"
  by (simp add: overlay_def)

lemma overlay_Nil [simp]: "overlay xs i [] = xs"
  by (simp add: overlay_def)

lemma overlay_overlay:
  "i + length ys \<le> length xs \<Longrightarrow> overlay (overlay xs i ys) (i + length ys) zs = overlay xs i (ys @ zs)"
  by (simp add: overlay_def ac_simps)

lemma overlay_Cons:
  "i < length xs \<Longrightarrow> overlay (xs[i := y]) (Suc i) ys = overlay xs i (y # ys)"
  by (simp add: overlay_def take_Suc_conv_app_nth)

lemma take_overlay [simp]:
  "i + length ys \<le> length xs \<Longrightarrow> take (i + length ys) (overlay xs i ys) = take i xs @ ys"
  by (simp add: overlay_def)

lemma take_overlay_twice:
  assumes "length ys + length zs \<le> length xs"
  shows "take (length ys + length zs) (overlay (overlay xs 0 ys) (length ys) zs) = ys @ zs"
  using overlay_overlay [of 0 ys xs zs] take_overlay [of 0 "ys @ zs" xs] assms by simp

lemma nth_overlay_in: "i \<le> length xs \<Longrightarrow> k < length ys \<Longrightarrow> overlay xs i ys ! (i + k) = ys ! k"
  by (simp add: overlay_def nth_append)

lemma nth_overlay_below: "j < i \<Longrightarrow> i \<le> length xs \<Longrightarrow> overlay xs i ys ! j = xs ! j"
  by (simp add: overlay_def nth_append)

lemma DLE_neq_ETX [simp]: "CLASS1_DLE \<noteq> CLASS1_ETX" "CLASS1_ETX \<noteq> CLASS1_DLE"
  by (simp_all add: CLASS1_DLE_def CLASS1_ETX_def)

lemma undle_append:
  "undle p (xs @ ys) =
     (case undle p xs of (os, q, c) \<Rightarrow>
        if c then (os, q, c) else map_prod ((@) os) id (undle q ys))"
  by (induction p xs rule: undle.induct)
     (auto split: prod.splits simp: map_prod_def)

lemma undle_stuff: "undle False (dle_stuff bs @ ys) = map_prod ((@) bs) id (undle False ys)"
  by (induction bs) (auto simp: map_prod_def split: prod.splits)

lemma undle_end: "undle False (dle_stuff bs @ [CLASS1_DLE, CLASS1_ETX] @ junk) = (bs, False, True)"
  by (simp add: undle_stuff)

lemma length_undle: "length (fst (undle p xs)) \<le> length xs"
  by (induction p xs rule: undle.induct) (auto simp: map_prod_def split: prod.splits)

lemma undle_closed: "undle p xs = (os, q, True) \<Longrightarrow> \<not> q"
  by (induction p xs arbitrary: os rule: undle.induct) (auto simp: map_prod_def split: if_splits prod.splits)

lemma length_dle_stuff: "length bs \<le> length (dle_stuff bs)" "length (dle_stuff bs) \<le> 2 * length bs"
  by (induction bs) auto

subsection \<open>Input refines the specification\<close>

lemma put_scratch_in:
  assumes "i < length (cx_scratch ctx)"
  shows "put_scratch (int i) v ctx = Some (ctx\<lparr>cx_scratch := (cx_scratch ctx)[i := v]\<rparr>)"
  using assms by (simp add: put_scratch_def mem_simps)

lemma put_scratch_0:
  "length (cx_scratch ctx) = SCRATCH_ELEMENTS \<Longrightarrow>
   put_scratch 0 v ctx = Some (ctx\<lparr>cx_scratch := (cx_scratch ctx)[0 := v]\<rparr>)"
  using put_scratch_in [of 0 ctx v] by (simp add: SCRATCH_ELEMENTS_def)

lemma put_scratch_out: "length (cx_scratch ctx) \<le> i \<Longrightarrow> put_scratch (int i) v ctx = None"
  by (simp add: put_scratch_def wr_at_out)

lemma etx_pad_eq:
  assumes "out \<le> SCRATCH_ELEMENTS" and "length (cx_scratch ctx) = SCRATCH_ELEMENTS"
  shows "etx_pad ctx out k =
           Some (ctx\<lparr>cx_scratch := overlay (cx_scratch ctx) out (replicate (min k (SCRATCH_ELEMENTS - out)) 0)\<rparr>,
                 out + min k (SCRATCH_ELEMENTS - out))"
  using assms
proof (induction ctx out k rule: etx_pad.induct)
  case (2 ctx out k)
  show ?case
  proof (cases "out < SCRATCH_ELEMENTS")
    case True
    moreover from True have "\<not> out > CLASS1_ETX_PAD_LIMIT"
      by (simp add: SCRATCH_ELEMENTS_def CLASS1_ETX_PAD_LIMIT_def)
    moreover have "min (Suc k) (SCRATCH_ELEMENTS - out) = Suc (min k (SCRATCH_ELEMENTS - Suc out))"
      using True by simp
    ultimately show ?thesis
      using 2 by (simp add: put_scratch_in overlay_Cons del: min_Suc_Suc)
  next
    case False
    then have "out > CLASS1_ETX_PAD_LIMIT"
      by (simp add: SCRATCH_ELEMENTS_def CLASS1_ETX_PAD_LIMIT_def)
    then show ?thesis using 2 False by simp
  qed
qed simp

lemma data_input_loop_undle:
  assumes "undle p src = (os, q, c)" and "out + length os \<le> SCRATCH_ELEMENTS"
    and "length (cx_scratch ctx) = SCRATCH_ELEMENTS" and "cx_dle_seen ctx = of_bool p"
  shows "data_input_loop ctx src out =
           (let ctx' = ctx\<lparr>cx_scratch := overlay (cx_scratch ctx) out (map ucast os), cx_dle_seen := of_bool q\<rparr>
            in if c then etx_pad (ctx'\<lparr>cx_data_input_closed := 1\<rparr>) (out + length os) CLASS1_ETX_PAD_ELEMENTS
               else Some (ctx', out + length os))"
  using assms
proof (induction src arbitrary: p os out ctx)
  case (Cons b src)
  then show ?case
    by (auto simp: put_scratch_in overlay_Cons Let_def map_prod_def split: if_splits prod.splits)
qed (auto simp: Let_def)


lemma data_input_loop_overrun:
  assumes "SCRATCH_ELEMENTS < out + length (fst (undle p src))" and "out \<le> SCRATCH_ELEMENTS"
    and "length (cx_scratch ctx) = SCRATCH_ELEMENTS" and "cx_dle_seen ctx = of_bool p"
  shows "data_input_loop ctx src out = None"
  using assms
proof (induction src arbitrary: p out ctx)
  case (Cons b src)
  then show ?case
    by (cases "out < SCRATCH_ELEMENTS")
       (auto simp: put_scratch_in put_scratch_out Let_def split: if_splits)
qed simp

definition data_pad :: "u8 list \<Rightarrow> bool \<Rightarrow> u16 list" where
  "data_pad os c = (if c then replicate (min CLASS1_ETX_PAD_ELEMENTS (SCRATCH_ELEMENTS - length os)) 0 else [])"

lemma handle_data_input_undle:
  assumes "undle p src = (os, q, c)" and "length os \<le> SCRATCH_ELEMENTS"
    and "length (cx_scratch ctx) = SCRATCH_ELEMENTS" and "cx_dle_seen ctx = of_bool p"
    and "cx_data_input_closed ctx = 0"
  shows "\<exists>ctx'. handle_data_input ctx src (int (length src)) = Some (ctx', int (length os + length (data_pad os c))) \<and>
           take (length os + length (data_pad os c)) (cx_scratch ctx') = map ucast os @ data_pad os c \<and>
           length (cx_scratch ctx') = SCRATCH_ELEMENTS \<and>
           cx_dle_seen ctx' = of_bool q \<and> cx_data_input_closed ctx' = of_bool c"
proof (cases "src = []")
  case True
  then show ?thesis using assms by (auto simp: handle_data_input_def data_pad_def)
next
  case False
  let ?ctx = "ctx\<lparr>cx_last_in_byte := uint (src ! (length src - 1))\<rparr>"
  note run = data_input_loop_undle [of p src os q c 0 ?ctx, unfolded Let_def]
  show ?thesis
  proof (cases c)
    case True
    then show ?thesis
      using assms False run
        take_overlay_twice [of "map ucast os" "data_pad os True" "cx_scratch ctx"]
      by (simp add: handle_data_input_def mem_simps etx_pad_eq data_pad_def)
  next
    case False
    then show ?thesis
      using assms \<open>src \<noteq> []\<close> run take_overlay [of 0 "map ucast os" "cx_scratch ctx"]
      by (simp add: handle_data_input_def mem_simps data_pad_def)
  qed
qed

text \<open>The terminal's data in any number of calls, each call's elements taken in turn.\<close>

fun feed_data :: "'a class1_line_scheme \<Rightarrow> u8 list list \<Rightarrow> ('a class1_line_scheme \<times> u16 list) option" where
  "feed_data ctx [] = Some (ctx, [])"
| "feed_data ctx (c # cs) = do {
     (ctx, n) \<leftarrow> handle_data_input ctx c (int (length c));
     (ctx', rest) \<leftarrow> feed_data ctx cs;
     Some (ctx', take (nat n) (cx_scratch ctx) @ rest)
   }"

lemma feed_data_closed: "cx_data_input_closed ctx \<noteq> 0 \<Longrightarrow> feed_data ctx cs = Some (ctx, [])"
  by (induction cs) (simp_all add: handle_data_input_def)

lemma feed_data_undle:
  assumes "undle p (concat cs) = (os, q, c)"
    and "\<And>xs. xs \<in> set cs \<Longrightarrow> length xs + CLASS1_ETX_PAD_ELEMENTS \<le> SCRATCH_ELEMENTS"
    and "length (cx_scratch ctx) = SCRATCH_ELEMENTS" and "cx_dle_seen ctx = of_bool p"
    and "cx_data_input_closed ctx = 0"
  shows "\<exists>ctx'. feed_data ctx cs =
           Some (ctx', map ucast os @ (if c then replicate CLASS1_ETX_PAD_ELEMENTS 0 else [])) \<and>
           cx_dle_seen ctx' = of_bool q \<and> cx_data_input_closed ctx' = of_bool c"
  using assms
proof (induction cs arbitrary: p os q c ctx)
  case (Cons x cs)
  obtain os1 q1 c1 where u1: "undle p x = (os1, q1, c1)" by (cases "undle p x")
  have len: "length os1 + CLASS1_ETX_PAD_ELEMENTS \<le> SCRATCH_ELEMENTS"
    using length_undle [of p x] u1 Cons.prems(2) [of x] by simp
  obtain ctx1 where h: "handle_data_input ctx x (int (length x)) =
      Some (ctx1, int (length os1 + length (data_pad os1 c1)))"
    and t: "take (length os1 + length (data_pad os1 c1)) (cx_scratch ctx1) = map ucast os1 @ data_pad os1 c1"
    and k: "length (cx_scratch ctx1) = SCRATCH_ELEMENTS" "cx_dle_seen ctx1 = of_bool q1"
      "cx_data_input_closed ctx1 = of_bool c1"
    using handle_data_input_undle [OF u1 _ Cons.prems(3-5)] len by auto
  show ?case
  proof (cases c1)
    case True
    then show ?thesis
      using h t k u1 len Cons.prems(1)
      by (simp add: feed_data_closed undle_append data_pad_def nat_add_distrib)
  next
    case False
    obtain os2 q2 c2 where u2: "undle q1 (concat cs) = (os2, q2, c2)" by (cases "undle q1 (concat cs)")
    have "\<exists>ctx'. feed_data ctx1 cs =
           Some (ctx', map ucast os2 @ (if c2 then replicate CLASS1_ETX_PAD_ELEMENTS 0 else [])) \<and>
           cx_dle_seen ctx' = of_bool q2 \<and> cx_data_input_closed ctx' = of_bool c2"
      by (rule Cons.IH [OF u2]) (use Cons.prems(2) k False in auto)
    then show ?thesis
      using h t u1 u2 False Cons.prems(1) by (auto simp: undle_append data_pad_def)
  qed
qed simp

subsection \<open>A frame in any number of calls\<close>

lemma hdlc_input_loop_undle:
  assumes "undle p src = (os, q, c)" and "out + length os \<le> SCRATCH_ELEMENTS"
    and "length (cx_scratch ctx) = SCRATCH_ELEMENTS" and "cx_dle_seen ctx = of_bool p"
  shows "hdlc_input_loop ctx src (int out) =
           (let ctx' = ctx\<lparr>cx_scratch := overlay (cx_scratch ctx) out (map ucast os), cx_dle_seen := of_bool q\<rparr>;
                out' = int (out + length os)
            in if c then do {
                 ctx' \<leftarrow> put_scratch 0 (of_int (out' - 1)) (ctx'\<lparr>cx_hdlc_write_cursor := out'\<rparr>);
                 ctx' \<leftarrow> latch_frame_end ctx';
                 Some (ctx', out', True)
               } else Some (ctx', out', False))"
  using assms
proof (induction src arbitrary: p os out ctx)
  case (Cons b src)
  show ?case
    using Cons.prems Cons.IH [of _ _ "Suc out"] Cons.IH
    by (auto simp: put_scratch_in overlay_Cons Let_def map_prod_def ac_simps split: if_splits prod.splits)
qed (auto simp: Let_def)

text \<open>Calls until one reports a whole frame, as the transmit handlers make them.\<close>

fun feed_hdlc :: "'a class1_line_scheme \<Rightarrow> u8 list list \<Rightarrow> ('a class1_line_scheme \<times> int \<times> int) option" where
  "feed_hdlc ctx [] = Some (ctx, 0, 0)"
| "feed_hdlc ctx (c # cs) = do {
     (ctx, n, ret) \<leftarrow> handle_hdlc_input ctx c (int (length c));
     if ret \<noteq> 0 then Some (ctx, n, ret) else feed_hdlc ctx cs
   }"

text \<open>What the object holds once the frame \<open>os\<close> has been collected from element \<open>out\<close> on.\<close>

definition frame_held :: "'a class1_line_scheme \<Rightarrow> nat \<Rightarrow> u8 list \<Rightarrow> 'a class1_line_scheme \<Rightarrow> bool" where
  "frame_held ctx out os ctx' \<longleftrightarrow>
     (let buf = overlay (cx_scratch ctx) out (map ucast os)
      in cx_scratch ctx' = buf[0 := of_nat (out + length os - 1)] \<and> cx_dle_seen ctx' = 0 \<and>
         cx_frame_end_latch ctx' =
           (if buf ! 2 AND CLASS1_FLAG_FRAME_END_LATCH \<noteq> 0 then 1 else cx_frame_end_latch ctx))"

lemma handle_hdlc_input_part:
  assumes "undle p src = (os, q, False)" and "out + length os \<le> SCRATCH_ELEMENTS"
    and "length (cx_scratch ctx) = SCRATCH_ELEMENTS" and "cx_dle_seen ctx = of_bool p"
    and "cx_hdlc_write_cursor ctx = int out"
  shows "handle_hdlc_input ctx src (int (length src)) =
           Some (ctx\<lparr>cx_scratch := overlay (cx_scratch ctx) out (map ucast os), cx_dle_seen := of_bool q,
                     cx_hdlc_write_cursor := int (out + length os)\<rparr>, 0, 0)"
  using hdlc_input_loop_undle [OF assms(1-4)] assms(5) by (simp add: handle_hdlc_input_def)

lemma handle_hdlc_input_last:
  assumes "undle p src = (os, q, True)" and "out + length os \<le> SCRATCH_ELEMENTS" and "1 \<le> out"
    and "length (cx_scratch ctx) = SCRATCH_ELEMENTS" and "cx_dle_seen ctx = of_bool p"
    and "cx_hdlc_write_cursor ctx = int out"
  shows "\<exists>ctx'. handle_hdlc_input ctx src (int (length src)) = Some (ctx', int (out + length os), 1) \<and>
           frame_held ctx out os ctx'"
proof -
  have two: "2 < SCRATCH_ELEMENTS" by (simp add: SCRATCH_ELEMENTS_def)
  have w: "(of_int (int out + int (length os) - 1) :: u16) = of_nat (out + length os - 1)"
    using assms(3) by (simp add: of_nat_diff)
  show ?thesis
    using hdlc_input_loop_undle [OF assms(1,2,4,5)] assms two w undle_closed [OF assms(1)]
    by (simp add: handle_hdlc_input_def put_scratch_0 latch_frame_end_def frame_held_def Let_def mem_simps)
qed

lemma feed_hdlc_undle:
  assumes "undle p (concat cs) = (os, q, True)" and "out + length os \<le> SCRATCH_ELEMENTS" and "1 \<le> out"
    and "length (cx_scratch ctx) = SCRATCH_ELEMENTS" and "cx_dle_seen ctx = of_bool p"
    and "cx_hdlc_write_cursor ctx = int out"
  shows "\<exists>ctx'. feed_hdlc ctx cs = Some (ctx', int (out + length os), 1) \<and> frame_held ctx out os ctx'"
  using assms
proof (induction cs arbitrary: p os out ctx)
  case (Cons x cs)
  obtain os1 q1 c1 where u1: "undle p x = (os1, q1, c1)" by (cases "undle p x")
  show ?case
  proof (cases c1)
    case True
    then have "undle p x = (os, q, True)" using u1 Cons.prems(1) by (simp add: undle_append)
    then show ?thesis using handle_hdlc_input_last [of p x os q out ctx] Cons.prems by auto
  next
    case False
    then obtain os2 where u2: "undle q1 (concat cs) = (os2, q, True)" and os: "os = os1 @ os2"
      using u1 Cons.prems(1) by (auto simp: undle_append map_prod_def split: prod.splits)
    let ?ctx = "ctx\<lparr>cx_scratch := overlay (cx_scratch ctx) out (map ucast os1), cx_dle_seen := of_bool q1,
                     cx_hdlc_write_cursor := int (out + length os1)\<rparr>"
    have "\<exists>ctx'. feed_hdlc ?ctx cs = Some (ctx', int (out + length os1 + length os2), 1) \<and>
            frame_held ?ctx (out + length os1) os2 ctx'"
      by (rule Cons.IH [OF u2]) (use Cons.prems os in auto)
    moreover have "handle_hdlc_input ctx x (int (length x)) = Some (?ctx, 0, 0)"
      using handle_hdlc_input_part [of p x os1 q1 out ctx] u1 False Cons.prems os by auto
    ultimately show ?thesis
      using Cons.prems os overlay_overlay [of out "map ucast os1" "cx_scratch ctx" "map ucast os2"]
      by (auto simp: frame_held_def Let_def add.assoc)
  qed
qed simp


subsection \<open>Output\<close>

lemma put_escaped_eq:
  assumes "out + (if twice then 2 else 1) \<le> length dst"
  shows "put_escaped dst out v twice =
           (let os = v # (if twice then [CLASS1_DLE] else []) in Some (overlay dst out os, out + length os))"
  using assms by (auto simp: put_escaped_def mem_simps Let_def overlay_Cons [where ys = "[]", simplified]
      overlay_Cons [where ys = "[CLASS1_DLE]", symmetric])

lemma put_end_eq:
  assumes "out + (if t \<noteq> 0 then 2 else 0) \<le> length dst"
  shows "put_end dst out t =
           (let os = (if t \<noteq> 0 then [CLASS1_DLE, CLASS1_ETX] else []) in Some (overlay dst out os, out + length os))"
  using assms by (auto simp: put_end_def mem_simps Let_def overlay_Cons [where ys = "[]", simplified]
      overlay_Cons [where ys = "[CLASS1_ETX]", symmetric])

lemma ucast_DLE: "(e :: u16) = ucast CLASS1_DLE \<Longrightarrow> (ucast e :: u8) = CLASS1_DLE"
  by simp

text \<open>Elements that hold an octet each.\<close>

lemma hdlc_output_loop_eq:
  assumes "out + length (dle_stuff bs) \<le> length dst"
  shows "hdlc_output_loop (map ucast bs) dst out =
           Some (overlay dst out (dle_stuff bs), out + length (dle_stuff bs))"
  using assms
proof (induction bs arbitrary: dst out)
  case (Cons b bs)
  have e: "(ucast b :: u16) = ucast CLASS1_DLE \<longleftrightarrow> b = CLASS1_DLE"
    by (metis ucast_u8_u16)
  let ?os = "b # (if b = CLASS1_DLE then [CLASS1_DLE] else [])"
  have "put_escaped dst out b (b = CLASS1_DLE) = Some (overlay dst out ?os, out + length ?os)"
    using Cons.prems put_escaped_eq [of out "b = CLASS1_DLE" dst b] by (auto simp: Let_def split: if_splits)
  moreover have "dle_stuff (b # bs) = ?os @ dle_stuff bs" by simp
  ultimately show ?case
    using Cons.prems Cons.IH [of "out + length ?os" "overlay dst out ?os"] overlay_overlay [of out ?os dst]
    by (auto simp: e split: if_splits)
qed simp

lemma cTOOLS_handle_hdlc_output_eq:
  assumes "length (dle_stuff bs) + 2 \<le> length dst"
  shows "cTOOLS_handle_hdlc_output (map ucast bs) dst (int (length bs)) 1 =
           Some (overlay dst 0 (dle_stuff bs @ [CLASS1_DLE, CLASS1_ETX]), length (dle_stuff bs) + 2)"
  using assms hdlc_output_loop_eq [of 0 bs dst] put_end_eq [of "length (dle_stuff bs)" 1 "overlay dst 0 (dle_stuff bs)"]
    overlay_overlay [of 0 "dle_stuff bs" dst "[CLASS1_DLE, CLASS1_ETX]"]
  by (simp add: cTOOLS_handle_hdlc_output_def Let_def)


subsection \<open>Octet alignment of received data\<close>

definition char_bits :: "u8 \<Rightarrow> bool list" where
  "char_bits b = map (bit b) [0..<8]"

lemma length_char_bits [simp]: "length (char_bits b) = 8"
  by (simp add: char_bits_def)

lemma nth_char_bits [simp]: "i < 8 \<Longrightarrow> char_bits b ! i = bit b i"
  by (simp add: char_bits_def)

lemma char_bits_inject: "char_bits a = char_bits b \<longleftrightarrow> a = b"
proof
  assume "char_bits a = char_bits b"
  then have "\<forall>i < 8. bit a i = bit b i" by (simp add: char_bits_def)
  then show "a = b" by (intro bit_word_eqI) simp
qed simp

lemma char_bits_ones: "char_bits 0xff = replicate 8 True"
  by (simp add: char_bits_def upt_rec numeral_eq_Suc)

lemma bit_ones: "i < 8 \<Longrightarrow> bit (0xff :: u8) i"
  using arg_cong [OF char_bits_ones, of "\<lambda>bs. bs ! i"] by simp

lemma char_bits_all: "(b :: u8) \<noteq> 0xff \<Longrightarrow> \<exists>i < 8. \<not> bit b i"
proof (rule ccontr)
  assume "(b :: u8) \<noteq> 0xff" and "\<not> (\<exists>i < 8. \<not> bit b i)"
  then have "char_bits b = replicate 8 True" by (intro nth_equalityI) simp_all
  then show False using \<open>b \<noteq> 0xff\<close> char_bits_inject [of b "0xff"] by (simp add: char_bits_ones)
qed

definition bit_stream :: "u8 list \<Rightarrow> bool list" where
  "bit_stream bs = concat (map char_bits bs)"

lemma bit_stream_simps [simp]:
  "bit_stream [] = []" "bit_stream (b # bs) = char_bits b @ bit_stream bs"
  by (simp_all add: bit_stream_def)

lemma length_bit_stream [simp]: "length (bit_stream bs) = 8 * length bs"
  by (induction bs) simp_all

fun octets_run :: "'a class1_line_scheme \<Rightarrow> u16 list \<Rightarrow> 'a class1_line_scheme \<times> u8 list" where
  "octets_run ctx [] = (ctx, [])"
| "octets_run ctx (e # es) =
     (let (ctx, b) = output_octet ctx e; (ctx, bs) = octets_run ctx es in (ctx, b # bs))"

lemma length_octets_run [simp]: "length (snd (octets_run ctx es)) = length es"
  by (induction es arbitrary: ctx) (simp_all add: case_prod_beta)

lemma data_output_loop_eq:
  assumes "octets_run ctx es = (ctx', bs)" and "out + length (dle_stuff bs) \<le> length dst"
  shows "data_output_loop ctx es dst out =
           Some (ctx', overlay dst out (dle_stuff bs), out + length (dle_stuff bs))"
  using assms
proof (induction es arbitrary: ctx dst out bs)
  case (Cons e es)
  obtain ctx1 b where o: "output_octet ctx e = (ctx1, b)" by (cases "output_octet ctx e")
  obtain bs' where r: "octets_run ctx1 es = (ctx', bs')" and bs: "bs = b # bs'"
    using Cons.prems o by (auto split: prod.splits)
  let ?os = "b # (if b = CLASS1_DLE then [CLASS1_DLE] else [])"
  have "put_escaped dst out b (b = CLASS1_DLE) = Some (overlay dst out ?os, out + length ?os)"
    using Cons.prems bs put_escaped_eq [of out "b = CLASS1_DLE" dst b] by (auto simp: Let_def split: if_splits)
  moreover have "dle_stuff bs = ?os @ dle_stuff bs'" by (simp add: bs)
  ultimately show ?case
    using Cons.prems o bs Cons.IH [OF r, of "out + length ?os" "overlay dst out ?os"] overlay_overlay [of out ?os dst]
    by (auto split: if_splits)
qed simp

text \<open>
  The window register: bits 16 to 23 hold the octet before the current one, and once the
  current octet is shifted in at bit 24 an aligned octet starts \<open>k\<close> bits into the former.
\<close>

definition window_octet :: "u32 \<Rightarrow> u8" where
  "window_octet w = ucast (drop_bit 16 w)"

definition window_next :: "u32 \<Rightarrow> u8 \<Rightarrow> u32" where
  "window_next w c = drop_bit 8 (push_bit 24 (ucast c) OR w)"

lemma bit_window_octet: "i < 8 \<Longrightarrow> bit (window_octet w) i = bit w (16 + i)"
  by (simp add: window_octet_def bit_ucast_iff bit_drop_bit_eq)

definition window_ok :: "u32 \<Rightarrow> bool" where
  "window_ok w \<longleftrightarrow> (\<forall>i \<ge> 24. \<not> bit w i)"

lemma window_next_ok: "window_ok (window_next w c)"
  unfolding window_ok_def window_next_def bit_drop_bit_eq by (auto dest: bit_imp_le_length)

lemma bit_window:
  assumes "window_ok w" and "i < 16"
  shows "bit (push_bit 24 (ucast (c :: u8)) OR w :: u32) (16 + i) =
           (if i < 8 then bit (window_octet w) i else bit c (i - 8))"
  using assms by (auto simp: window_ok_def bit_or_iff bit_push_bit_iff bit_ucast_iff bit_window_octet)

lemma window_octet_next: "window_ok w \<Longrightarrow> window_octet (window_next w c) = c"
proof (rule bit_word_eqI)
  fix i assume w: "window_ok w" and i: "i < LENGTH(8)"
  have "bit (window_octet (window_next w c)) i = bit (push_bit 24 (ucast c) OR w) (16 + (i + 8))"
    using i by (simp add: bit_window_octet window_next_def bit_drop_bit_eq ac_simps del: drop_bit_or)
  also have "\<dots> = bit c i" using i w by (subst bit_window) simp_all
  finally show "bit (window_octet (window_next w c)) i = bit c i" .
qed

lemma bit_lock_mask: "bit (push_bit k 0xff0000 :: u32) i \<longleftrightarrow> 16 + k \<le> i \<and> i < 24 + k \<and> i < 32"
proof -
  have "(0xff0000 :: u32) = push_bit 16 (mask 8)" by (simp add: push_bit_eq_mult mask_eq_exp_minus_1)
  then show ?thesis by (simp only: bit_push_bit_iff bit_mask_iff) auto
qed

lemma aligned_octet:
  assumes "window_ok w" and "k < 8"
  shows "char_bits (ucast (drop_bit (16 + k) ((push_bit 24 (ucast (c :: u8)) OR w) AND push_bit k 0xff0000 :: u32))) =
           drop k (char_bits (window_octet w)) @ take k (char_bits c)"
proof (rule nth_equalityI)
  fix i assume "i < length (char_bits (ucast (drop_bit (16 + k) ((push_bit 24 (ucast (c :: u8)) OR w) AND push_bit k 0xff0000 :: u32))))"
  then have i: "i < 8" by simp
  then show "char_bits (ucast (drop_bit (16 + k) ((push_bit 24 (ucast (c :: u8)) OR w) AND push_bit k 0xff0000 :: u32))) ! i =
      (drop k (char_bits (window_octet w)) @ take k (char_bits c)) ! i"
    using assms bit_window [OF assms(1), of "k + i" c]
    by (auto simp: bit_ucast_iff bit_drop_bit_eq bit_and_iff bit_lock_mask nth_append add.assoc add.commute [of i k] simp del: drop_bit_or drop_bit_and)
qed (use assms in simp)

lemma hunt_lock_eq:
  assumes "j + n \<le> 8"
  shows "hunt_lock w (push_bit (16 + j) 1) (push_bit j 0xff0000) (16 + j) n =
           (let k = j + length (takeWhile (\<lambda>i. bit w (16 + i)) [j..<j + n])
            in (push_bit k 0xff0000, 16 + k, k < j + n))"
  using assms
proof (induction n arbitrary: j)
  case (Suc n)
  have "w AND push_bit (16 + j) 1 = 0 \<longleftrightarrow> \<not> bit w (16 + j)"
    using Suc.prems by (simp add: bit_iff_and_push_bit_not_eq_0)
  moreover have "push_bit (16 + j) 1 + push_bit (16 + j) 1 = (push_bit (16 + Suc j) 1 :: u32)"
    by (simp add: push_bit_eq_mult power_add)
  moreover have "push_bit 1 (push_bit j 0xff0000) = (push_bit (Suc j) 0xff0000 :: u32)"
    by (simp only: push_bit_push_bit plus_1_eq_Suc)
  moreover have "[j..<j + Suc n] = j # [Suc j..<Suc j + n]" by (simp add: upt_rec)
  ultimately show ?case
    using Suc.IH [of "Suc j"] Suc.prems by (simp add: Let_def del: push_bit_Suc push_bit_of_1 push_bit_numeral)
qed (simp add: Let_def)


lemma output_octet_locked:
  assumes "window_ok (cx_async_window ctx)" and "cx_async_locked ctx \<noteq> 0"
    and "cx_async_shift ctx = 16 + k" and "cx_async_mask ctx = push_bit k 0xff0000" and "k < 8"
  shows "\<exists>b. output_octet ctx e = (ctx\<lparr>cx_async_window := window_next (cx_async_window ctx) (ucast e)\<rparr>, b) \<and>
             char_bits b = drop k (char_bits (window_octet (cx_async_window ctx))) @ take k (char_bits (ucast e))"
  using assms aligned_octet [OF assms(1,5), of "ucast e"]
  by (simp add: output_octet_def window_next_def Let_def)

lemma octets_run_locked:
  assumes "window_ok (cx_async_window ctx)" and "cx_async_locked ctx \<noteq> 0"
    and "cx_async_shift ctx = 16 + k" and "cx_async_mask ctx = push_bit k 0xff0000" and "k < 8"
  shows "bit_stream (snd (octets_run ctx es)) =
           take (8 * length es) (drop k (bit_stream (window_octet (cx_async_window ctx) # map ucast es)))"
  using assms
proof (induction es arbitrary: ctx)
  case (Cons e es)
  obtain b where o: "output_octet ctx e = (ctx\<lparr>cx_async_window := window_next (cx_async_window ctx) (ucast e)\<rparr>, b)"
    and b: "char_bits b = drop k (char_bits (window_octet (cx_async_window ctx))) @ take k (char_bits (ucast e))"
    using output_octet_locked [OF Cons.prems] by blast
  have "take (8 * length es + k) (char_bits (ucast e)) =
      take k (char_bits (ucast e)) @ take (8 * length es) (drop k (char_bits (ucast e)))"
    by (subst add.commute) (rule take_add)
  then show ?case
    using Cons.prems Cons.IH [of "ctx\<lparr>cx_async_window := window_next (cx_async_window ctx) (ucast e)\<rparr>"]
    by (simp add: o b case_prod_beta window_next_ok window_octet_next)
qed (simp add: char_bits_def)

lemma output_octet_hunting:
  assumes "window_ok (cx_async_window ctx)" and "cx_async_locked ctx = 0"
    and "window_octet (cx_async_window ctx) = p"
  shows "p = 0xff \<Longrightarrow> \<exists>ctx'. output_octet ctx e = (ctx', 0xff) \<and> cx_async_locked ctx' = 0 \<and>
                 cx_async_window ctx' = window_next (cx_async_window ctx) (ucast e)"
    and "p \<noteq> 0xff \<Longrightarrow> \<exists>ctx' b. output_octet ctx e = (ctx', b) \<and>
                 (\<exists>k < 8. takeWhile (\<lambda>b. b) (char_bits p) = replicate k True \<and> cx_async_locked ctx' \<noteq> 0 \<and>
                    cx_async_shift ctx' = 16 + k \<and> cx_async_mask ctx' = push_bit k 0xff0000 \<and>
                    cx_async_window ctx' = window_next (cx_async_window ctx) (ucast e) \<and>
                    char_bits b = drop k (char_bits p) @ take k (char_bits (ucast e)))"
proof -
  let ?w = "push_bit 24 (ucast (ucast e :: u8)) OR cx_async_window ctx :: u32"
  let ?k = "length (takeWhile (\<lambda>i. bit ?w (16 + i)) [0..<8])"
  have tw: "takeWhile (\<lambda>i. bit ?w (16 + i)) [0..<8] = takeWhile (bit p) [0..<8]"
    using assms bit_window [OF assms(1), of _ "ucast e"] by (intro takeWhile_cong) auto
  have h: "hunt_lock ?w 0x10000 0xff0000 16 8 = (push_bit ?k 0xff0000, 16 + ?k, ?k < 8)"
    using hunt_lock_eq [of 0 8 ?w] by (simp add: Let_def)
  show "\<exists>ctx'. output_octet ctx e = (ctx', 0xff) \<and> cx_async_locked ctx' = 0 \<and>
                 cx_async_window ctx' = window_next (cx_async_window ctx) (ucast e)" if "p = 0xff"
  proof -
    have "takeWhile (bit p) [0..<8] = [0..<8]"
      unfolding takeWhile_eq_all_conv that using bit_ones by auto
    then have "?k = 8" using tw by (simp del: takeWhile_eq_all_conv)
    then show ?thesis using h assms(2) by (simp add: output_octet_def window_next_def Let_def)
  qed
  show "\<exists>ctx' b. output_octet ctx e = (ctx', b) \<and>
                 (\<exists>k < 8. takeWhile (\<lambda>b. b) (char_bits p) = replicate k True \<and> cx_async_locked ctx' \<noteq> 0 \<and>
                    cx_async_shift ctx' = 16 + k \<and> cx_async_mask ctx' = push_bit k 0xff0000 \<and>
                    cx_async_window ctx' = window_next (cx_async_window ctx) (ucast e) \<and>
                    char_bits b = drop k (char_bits p) @ take k (char_bits (ucast e)))" if "p \<noteq> 0xff"
  proof -
    have lt: "?k < 8"
    proof (rule ccontr)
      assume "\<not> ?k < 8"
      then have "takeWhile (bit p) [0..<8] = [0..<8]"
        using takeWhile_eq_take [of "bit p" "[0..<8]"] tw by simp
      then show False using char_bits_all [OF that] by auto
    qed
    have "takeWhile (\<lambda>b. b) (char_bits p) = map (bit p) (takeWhile (bit p) [0..<8])"
      by (simp add: char_bits_def takeWhile_map o_def)
    also have "\<dots> = replicate ?k True"
      unfolding tw map_replicate_const [symmetric] by (rule map_cong [OF refl]) (auto dest: set_takeWhileD)
    finally have "takeWhile (\<lambda>b. b) (char_bits p) = replicate ?k True" .
    then show ?thesis
      using lt h tw assms(2) aligned_octet [OF assms(1) lt, of "ucast e"] assms(3)
      by (auto simp: output_octet_def window_next_def Let_def)
  qed
qed


text \<open>The stream with the ones before its first zero removed, whole octets of ones kept.\<close>

definition realigned :: "u8 list \<Rightarrow> bool list" where
  "realigned ps = replicate (8 * length (takeWhile ((=) 0xff) ps)) True @ dropWhile (\<lambda>b. b) (bit_stream ps)"

lemma realigned_ones: "realigned (0xff # ps) = replicate 8 True @ realigned ps"
proof -
  have "dropWhile (\<lambda>b. b) (replicate 8 True @ xs) = dropWhile (\<lambda>b. b) xs" for xs
    by (subst dropWhile_append2) simp_all
  moreover have "replicate (8 * Suc m) True = replicate 8 True @ replicate (8 * m) True" for m
    by (simp add: replicate_add [symmetric])
  ultimately show ?thesis
    by (simp only: realigned_def takeWhile.simps refl if_True bit_stream_simps char_bits_ones list.size(4)
        add_0_right add_Suc_right append_assoc)
qed

lemma realigned_zero: "p \<noteq> 0xff \<Longrightarrow> realigned (p # ps) = dropWhile (\<lambda>b. b) (bit_stream (p # ps))"
  by (simp add: realigned_def)

lemma octets_run_hunting:
  assumes "window_ok (cx_async_window ctx)" and "cx_async_locked ctx = 0"
  shows "bit_stream (snd (octets_run ctx es)) =
           take (8 * length es) (realigned (window_octet (cx_async_window ctx) # map ucast es))"
  using assms
proof (induction es arbitrary: ctx)
  case (Cons e es)
  let ?p = "window_octet (cx_async_window ctx)"
  note w = Cons.prems(1)
  show ?case
  proof (cases "?p = 0xff")
    case True
    then obtain ctx' where out: "output_octet ctx e = (ctx', 0xff)" "cx_async_locked ctx' = 0"
      "cx_async_window ctx' = window_next (cx_async_window ctx) (ucast e)"
      using output_octet_hunting(1) [OF w Cons.prems(2) refl] by blast
    have "bit_stream (snd (octets_run ctx' es)) = take (8 * length es) (realigned (map ucast (e # es)))"
      using Cons.IH [of ctx'] out w by (simp add: window_next_ok window_octet_next)
    then show ?thesis
      by (simp add: True out case_prod_beta realigned_ones char_bits_ones)
  next
    case False
    then obtain ctx' b k where "output_octet ctx e = (ctx', b)" and k: "k < 8"
      and t: "takeWhile (\<lambda>b. b) (char_bits ?p) = replicate k True"
      and "cx_async_locked ctx' \<noteq> 0" "cx_async_shift ctx' = 16 + k" "cx_async_mask ctx' = push_bit k 0xff0000"
        "cx_async_window ctx' = window_next (cx_async_window ctx) (ucast e)"
        "char_bits b = drop k (char_bits ?p) @ take k (char_bits (ucast e))"
      using output_octet_hunting(2) [OF w Cons.prems(2) refl] by blast
    moreover have "dropWhile (\<lambda>b. b) (char_bits ?p @ xs) = drop k (char_bits ?p) @ xs" for xs
    proof -
      obtain i where "i < 8" "\<not> bit ?p i" using char_bits_all [OF False] by blast
      then have "dropWhile (\<lambda>b. b) (char_bits ?p @ xs) = dropWhile (\<lambda>b. b) (char_bits ?p) @ xs"
        by (intro dropWhile_append1 [of False]) (auto simp: char_bits_def)
      then show ?thesis by (simp only: dropWhile_eq_drop t length_replicate)
    qed
    moreover have "take (8 * length es + k) (char_bits (ucast e)) =
        take k (char_bits (ucast e)) @ take (8 * length es) (drop k (char_bits (ucast e)))"
      by (subst add.commute) (rule take_add)
    ultimately show ?thesis
      using Cons.prems False octets_run_locked [of ctx' k es]
      by (simp add: case_prod_beta window_next_ok window_octet_next realigned_zero)
  qed
qed simp


lemma octets_run_reset:
  assumes "cx_async_locked ctx = 0" and "cx_async_window ctx = 0xffffffff"
  shows "bit_stream (snd (octets_run ctx (e # es))) =
           take (8 * Suc (length es)) (realigned (0xff # 0xff # map ucast es))"
proof -
  have "(0xffffffff :: u32) = - 1" by simp
  then have "push_bit 24 (ucast (ucast e :: u8)) OR 0xffffffff = (0xffffffff :: u32)"
    by (simp only: word_or_max)
  moreover have "hunt_lock 0xffffffff 0x10000 0xff0000 16 8 = (0xff000000, 24, False)"
    by code_simp
  ultimately obtain ctx' where "output_octet ctx e = (ctx', 0xff)" "cx_async_locked ctx' = 0"
    "cx_async_window ctx' = 0xffffff"
    using assms by (simp add: output_octet_def Let_def)
  moreover have "window_ok 0xffffff"
    using bit_mask_iff [of 24, where 'a = "32 word"] by (auto simp: window_ok_def mask_eq_exp_minus_1)
  ultimately show ?thesis
    using octets_run_hunting [of ctx' es]
    by (simp add: case_prod_beta window_octet_def char_bits_ones realigned_ones)
qed

subsection \<open>Properties\<close>

text \<open>The object as created, as far as it is modelled here.\<close>

definition class1_line_start :: class1_line where
  "class1_line_start = \<lparr>cx_scratch = replicate SCRATCH_ELEMENTS 0, cx_frame_end_latch = 0, cx_last_in_byte = 0,
     cx_dle_seen = 0, cx_hdlc_write_cursor = 0, cx_async_locked = 0, cx_async_window = 0, cx_async_shift = 0,
     cx_async_mask = 0, cx_data_input_closed = 0\<rparr>"

lemma final_frame_bit: "ucast (b :: u8) AND CLASS1_FLAG_FRAME_END_LATCH \<noteq> 0 \<longleftrightarrow> bit b 4"
proof -
  have "(ucast b :: u16) AND push_bit 4 1 \<noteq> 0 \<longleftrightarrow> bit (ucast b :: u16) 4"
    by (simp only: bit_iff_and_push_bit_not_eq_0)
  then show ?thesis by (simp add: CLASS1_FLAG_FRAME_END_LATCH_def bit_ucast_iff push_bit_eq_mult)
qed

lemma hdlc_output_fits:
  "hdlc_output_loop (map ucast bs) dst out = Some (dst', out') \<Longrightarrow>
   length dst' = length dst \<and> out' = out + length (dle_stuff bs) \<and> (bs \<noteq> [] \<longrightarrow> out' \<le> length dst)"
proof (induction bs arbitrary: dst out)
  case (Cons b bs)
  have e: "(ucast b :: u16) = ucast CLASS1_DLE \<longleftrightarrow> b = CLASS1_DLE" by (metis ucast_u8_u16)
  show ?case
    using Cons by (auto simp: put_escaped_def wr_at_Some_iff e bind_eq_Some_conv split: if_splits; force)
qed simp

lemma hdlc_output_room:
  assumes "cTOOLS_handle_hdlc_output (map ucast bs) dst (int (length bs)) 1 = Some (dst', n)"
  shows "n = length (dle_stuff bs) + 2 \<and> n \<le> length dst \<and>
         dst' = overlay dst 0 (dle_stuff bs @ [CLASS1_DLE, CLASS1_ETX])"
proof -
  obtain d k where "hdlc_output_loop (map ucast bs) dst 0 = Some (d, k)" and "put_end d k 1 = Some (dst', n)"
    using assms by (auto simp: cTOOLS_handle_hdlc_output_def bind_eq_Some_conv)
  then have "length (dle_stuff bs) + 2 \<le> length dst"
    using hdlc_output_fits [of bs dst 0 d k] by (auto simp: put_end_def wr_at_Some_iff bind_eq_Some_conv)
  then show ?thesis using cTOOLS_handle_hdlc_output_eq [of bs dst] assms by simp
qed

text \<open>C17: A frame the modem hands to the terminal survives the way back: the octets
  \<open>cTOOLS_handle_hdlc_output\<close> writes for a frame of 2 to 2047 octets, sent back to
  \<open>_handle_hdlc_input\<close> after \<open>_handle_hdlc_input_open\<close> in calls of any size, give
  the frame from element 1 on and its length in element 0; the call that meets the end returns 1,
  and the final-frame bit of the frame's second octet is latched. What that call leaves in \<open>*count\<close> is
  the number of elements used, one more than the length of the frame: its comments say it is the
  length.\<close>

theorem class1_frame_round_trip:
  fixes frame :: "u8 list"
  assumes "cTOOLS_handle_hdlc_output (map ucast frame) dst (int (length frame)) 1 = Some (dst', n)"
    and "concat chunks = take n dst'" and "2 \<le> length frame" and "length frame < SCRATCH_ELEMENTS"
    and "length (cx_scratch ctx) = SCRATCH_ELEMENTS" and "cx_dle_seen ctx = 0"
  shows "\<exists>ctx'. feed_hdlc (handle_hdlc_input_open ctx) chunks = Some (ctx', int (length frame) + 1, 1) \<and>
           take (length frame + 1) (cx_scratch ctx') = of_nat (length frame) # map ucast frame \<and>
           (cx_frame_end_latch ctx' = (if bit (frame ! 1) 4 then 1 else cx_frame_end_latch ctx))"
proof -
  have n: "n = length (dle_stuff frame) + 2" and dst': "dst' = overlay dst 0 (dle_stuff frame @ [CLASS1_DLE, CLASS1_ETX])"
    and room: "n \<le> length dst"
    using hdlc_output_room [OF assms(1)] by auto
  then have "concat chunks = dle_stuff frame @ [CLASS1_DLE, CLASS1_ETX]"
    using assms(2) take_overlay [of 0 "dle_stuff frame @ [CLASS1_DLE, CLASS1_ETX]" dst] by simp
  then have u: "undle False (concat chunks) = (frame, False, True)" using undle_end [of frame "[]"] by simp
  obtain ctx' where f: "feed_hdlc (handle_hdlc_input_open ctx) chunks = Some (ctx', int (1 + length frame), 1)"
    and h: "frame_held (handle_hdlc_input_open ctx) 1 frame ctx'"
    using feed_hdlc_undle [OF u, of 1 "handle_hdlc_input_open ctx"] assms(4-6)
    by (auto simp: handle_hdlc_input_open_def)
  have "take (Suc 0) (cx_scratch ctx) = [cx_scratch ctx ! 0]"
    using assms(5) by (simp add: take_Suc_conv_app_nth SCRATCH_ELEMENTS_def)
  then show ?thesis
    using f h assms(3-5) nth_overlay_in [of 1 "cx_scratch ctx" 1 "map ucast frame"] take_overlay [of 1 "map ucast frame" "cx_scratch ctx"]
    by (auto simp: frame_held_def handle_hdlc_input_open_def Let_def final_frame_bit SCRATCH_ELEMENTS_def
        take_update_swap numeral_2_eq_2)
qed

theorem class1_frame_round_trip_witness:
  "\<exists>ctx'. feed_hdlc (handle_hdlc_input_open class1_line_start) [[0xff, 0x13], [0x10], [], [0x10, 0x42, 0x10, 0x03]] =
             Some (ctx', int (length [0xff, 0x13, 0x10, 0x42 :: u8]) + 1, 1) \<and>
     take (length [0xff, 0x13, 0x10, 0x42 :: u8] + 1) (cx_scratch ctx') =
       of_nat (length [0xff, 0x13, 0x10, 0x42 :: u8]) # map ucast [0xff, 0x13, 0x10, 0x42 :: u8] \<and>
     (cx_frame_end_latch ctx' =
        (if bit ([0xff, 0x13, 0x10, 0x42 :: u8] ! 1) 4 then 1 else cx_frame_end_latch class1_line_start))"
proof (rule class1_frame_round_trip)
  show "cTOOLS_handle_hdlc_output (map ucast [0xff, 0x13, 0x10, 0x42 :: u8]) (replicate 8 0)
      (int (length [0xff, 0x13, 0x10, 0x42 :: u8])) 1 = Some ([0xff, 0x13, 0x10, 0x10, 0x42, 0x10, 0x03, 0], 7)"
    by code_simp
qed (simp_all add: class1_line_start_def SCRATCH_ELEMENTS_def)

text \<open>What the terminal sends in data mode reaches the datapump unescaped however it is cut
  into calls: escaped data followed by \<open>DLE ETX\<close> and anything else gives the data and 20 zero
  elements, and the input is closed.\<close>

theorem class1_data_round_trip:
  assumes "concat chunks = dle_stuff data @ [CLASS1_DLE, CLASS1_ETX] @ junk"
    and "\<forall>c \<in> set chunks. length c + CLASS1_ETX_PAD_ELEMENTS \<le> SCRATCH_ELEMENTS"
    and "length (cx_scratch ctx) = SCRATCH_ELEMENTS" and "cx_dle_seen ctx = 0" and "cx_data_input_closed ctx = 0"
  shows "\<exists>ctx'. feed_data ctx chunks = Some (ctx', map ucast data @ replicate CLASS1_ETX_PAD_ELEMENTS 0) \<and>
           cx_data_input_closed ctx' = 1 \<and> (\<forall>more. feed_data ctx' more = Some (ctx', []))"
proof -
  have "undle False (concat chunks) = (data, False, True)" by (simp only: assms(1) undle_end)
  from feed_data_undle [OF this, of ctx] assms show ?thesis by (auto simp: feed_data_closed)
qed

theorem class1_data_round_trip_witness:
  "\<exists>ctx'. feed_data class1_line_start [[0x41, 0x10], [0x10, 0x42, 0x10], [0x03, 0x99]] =
             Some (ctx', map ucast [0x41, 0x10, 0x42 :: u8] @ replicate CLASS1_ETX_PAD_ELEMENTS 0) \<and>
     cx_data_input_closed ctx' = 1 \<and> (\<forall>more. feed_data ctx' more = Some (ctx', []))"
  by (rule class1_data_round_trip [where junk = "[0x99]"])
     (simp_all add: CLASS1_DLE_def CLASS1_ETX_def class1_line_start_def SCRATCH_ELEMENTS_def CLASS1_ETX_PAD_ELEMENTS_def)

text \<open>A call of \<open>_handle_data_input\<close> stores outside its 2048 elements exactly when the
  octets left after unescaping are more than fit; in particular a call with at most 2048 octets
  never does.\<close>

theorem handle_data_input_overrun:
  assumes "length (cx_scratch ctx) = SCRATCH_ELEMENTS" and "cx_dle_seen ctx = of_bool p" and "cx_data_input_closed ctx = 0"
  shows "handle_data_input ctx src (int (length src)) = None \<longleftrightarrow> SCRATCH_ELEMENTS < length (fst (undle p src))"
proof (cases "SCRATCH_ELEMENTS < length (fst (undle p src))")
  case True
  then have "src \<noteq> []" by auto
  then show ?thesis
    using True assms data_input_loop_overrun [of 0 p src "ctx\<lparr>cx_last_in_byte := uint (src ! (length src - 1))\<rparr>"]
    by (simp add: handle_data_input_def mem_simps)
next
  case False
  then obtain os q c where "undle p src = (os, q, c)" "length os \<le> SCRATCH_ELEMENTS"
    by (cases "undle p src") auto
  from handle_data_input_undle [OF this assms] False show ?thesis by auto
qed

theorem handle_data_input_overrun_witness:
  "handle_data_input class1_line_start (replicate 2049 0x41) 2049 = None \<and>
   handle_data_input class1_line_start [0x41, 0x10, 0x10] 3 \<noteq> None"
proof
  have "fst (undle False (replicate n 0x41)) = replicate n 0x41" for n
    by (induction n) (simp_all add: CLASS1_DLE_def)
  then show "handle_data_input class1_line_start (replicate 2049 0x41) 2049 = None"
    using handle_data_input_overrun [of class1_line_start False "replicate 2049 0x41"]
    by (simp add: class1_line_start_def SCRATCH_ELEMENTS_def)
  show "handle_data_input class1_line_start [0x41, 0x10, 0x10] 3 \<noteq> None"
    using handle_data_input_overrun [of class1_line_start False "[0x41, 0x10, 0x10]"]
    by (simp add: class1_line_start_def SCRATCH_ELEMENTS_def CLASS1_DLE_def)
qed

text \<open>Received data is realigned to the first zero bit. After a reset the elements are read as
  a bit stream, low bit first, in which the first element counts as ones; what is delivered is that
  stream with whole octets of ones kept and the ones just before the first zero removed, one octet
  behind. The octets are escaped on their way out, so at most twice the count and two are written.\<close>

theorem handle_data_output_realigns:
  assumes "2 * length es + 4 \<le> length dst"
  shows "\<exists>ctx' dst' octets.
           handle_data_output (cTOOLS_handle_data_output_reset ctx) (e # es) dst (int (length es) + 1) t =
             Some (ctx', dst', length (dle_stuff octets) + (if t \<noteq> 0 then 2 else 0)) \<and>
           take (length (dle_stuff octets)) dst' = dle_stuff octets \<and> length octets = length es + 1 \<and>
           bit_stream octets = take (8 * Suc (length es)) (realigned (0xff # 0xff # map ucast es))"
proof -
  let ?ctx = "cTOOLS_handle_data_output_reset ctx"
  obtain ctx' os where r: "octets_run ?ctx (e # es) = (ctx', os)" by (cases "octets_run ?ctx (e # es)")
  have n: "length os = length es + 1" using length_octets_run [of ?ctx "e # es"] r by simp
  have room: "length (dle_stuff os) + 2 \<le> length dst" using length_dle_stuff(2) [of os] n assms by simp
  let ?dst = "overlay dst 0 (dle_stuff os)"
  have "bit_stream os = take (8 * Suc (length es)) (realigned (0xff # 0xff # map ucast es))"
    using octets_run_reset [of ?ctx e es] r by (simp add: cTOOLS_handle_data_output_reset_def)
  moreover have "data_output_loop ?ctx (e # es) dst 0 = Some (ctx', ?dst, length (dle_stuff os))"
    using data_output_loop_eq [OF r, of 0 dst] room by simp
  moreover have "put_end ?dst (length (dle_stuff os)) t =
      (let end = (if t \<noteq> 0 then [CLASS1_DLE, CLASS1_ETX] else [])
       in Some (overlay ?dst (length (dle_stuff os)) end, length (dle_stuff os) + length end))"
    using room by (intro put_end_eq) simp
  moreover have "take (length (dle_stuff os)) (overlay ?dst (length (dle_stuff os)) ys) = dle_stuff os" for ys
    using room by (simp add: overlay_def)
  moreover have "take (length (dle_stuff os)) ?dst = dle_stuff os"
    using room by (simp add: overlay_def)
  ultimately show ?thesis
    using n by (auto simp: handle_data_output_def Let_def nat_add_distrib simp del: data_output_loop.simps intro!: exI [of _ os])
qed

theorem handle_data_output_realigns_witness:
  "\<exists>ctx' dst' octets.
     handle_data_output (cTOOLS_handle_data_output_reset class1_line_start)
       [0xff, 0x07, 0x01, 0x55] (replicate 12 0) (int (length [0x07, 0x01, 0x55 :: u16]) + 1) 1 =
       Some (ctx', dst', length (dle_stuff octets) + (if (1 :: int) \<noteq> 0 then 2 else 0)) \<and>
     take (length (dle_stuff octets)) dst' = dle_stuff octets \<and> length octets = length [0x07, 0x01, 0x55 :: u16] + 1 \<and>
     bit_stream octets = take (8 * Suc (length [0x07, 0x01, 0x55 :: u16]))
       (realigned (0xff # 0xff # map ucast [0x07, 0x01, 0x55 :: u16]))"
  by (rule handle_data_output_realigns) simp

end
