(* ===== verification/Class1State.thy ===== *)
theory Class1State
  imports CTools Vmi FaxFifo
begin

unbundle bit_operations_syntax

text \<open>
  The Class 1 session object of \<^verbatim>\<open>include/dsplib/class1.h\<close> and the small operations of
  \<^verbatim>\<open>src/fax/class1.c\<close> that the state handlers share.

  \<open>fax_class1\<close> extends \<open>class1_line\<close>, the part the data-mode tools work on. A pointer
  that may be null is an option; the modem that a virtual modem interface wraps is a value of
  type \<open>'m\<close>. What the session asks of the signal-processing code it drives is collected in
  \<open>class1_env\<close>: the datapump table, the tone generator, the level meter, the high-pass filter
  and the few fields of a modem object the session reads or sets. The counter
  \<^verbatim>\<open>cDATAtx_counter\<close>, a static of \<^verbatim>\<open>cDATAtx.c\<close>, is kept with the session.

  A handler takes the session and the nine arguments of the dispatcher, here the record
  \<open>class1_io\<close>, and gives both back; \<open>None\<close> is a read or write outside an array or a use of a
  null pointer.
\<close>

subsection \<open>States, status codes and commands\<close>

definition CLASS1_T30_SILENCE_BEFORE_PREAMBLE_STATE :: int where "CLASS1_T30_SILENCE_BEFORE_PREAMBLE_STATE = 0"
definition CLASS1_T30_PREAMBLE_STATE :: int where "CLASS1_T30_PREAMBLE_STATE = 1"
definition CLASS1_SEND_HDLC_BUFFER_STATE :: int where "CLASS1_SEND_HDLC_BUFFER_STATE = 2"
definition CLASS1_SEND_HDLC_BETWEEN_BUFFER_STATE :: int where "CLASS1_SEND_HDLC_BETWEEN_BUFFER_STATE = 3"
definition CLASS1_HDLC_RECEIVE_LOOK_CARRIER_STATE :: int where "CLASS1_HDLC_RECEIVE_LOOK_CARRIER_STATE = 4"
definition CLASS1_HDLC_RECEIVE_STATE :: int where "CLASS1_HDLC_RECEIVE_STATE = 5"
definition CLASS1_HDLC_RECEIVE_BETWEEN_BUFFERS_STATE :: int where "CLASS1_HDLC_RECEIVE_BETWEEN_BUFFERS_STATE = 6"
definition CLASS1_HDLC_EMULATE_RECEIVE_STATE :: int where "CLASS1_HDLC_EMULATE_RECEIVE_STATE = 7"
definition CLASS1_IDLE_STATE :: int where "CLASS1_IDLE_STATE = 8"
definition CLASS1_TX_SCRAMBLED_ONES_STATE :: int where "CLASS1_TX_SCRAMBLED_ONES_STATE = 9"
definition CLASS1_TX_DATA_STATE :: int where "CLASS1_TX_DATA_STATE = 10"
definition CLASS1_TX_NULLS_STATE :: int where "CLASS1_TX_NULLS_STATE = 11"
definition CLASS1_RX_LOOK_CARRIER :: int where "CLASS1_RX_LOOK_CARRIER = 12"
definition CLASS1_RX_DATA_STATE :: int where "CLASS1_RX_DATA_STATE = 13"
definition CLASS1_ANSWER_TONE_STATE :: int where "CLASS1_ANSWER_TONE_STATE = 14"
definition CLASS1_SEND_SILENCE_STATE :: int where "CLASS1_SEND_SILENCE_STATE = 15"
definition CLASS1_RECIEVE_SILENCE_STATE :: int where "CLASS1_RECIEVE_SILENCE_STATE = 16"
definition CLASS1_CHDLCTX_OFF_STATE :: int where "CLASS1_CHDLCTX_OFF_STATE = 17"
definition CLASS1_TX_SILENCE_BEFORE_SCRM_ONES :: int where "CLASS1_TX_SILENCE_BEFORE_SCRM_ONES = 18"
definition CLASS1_MAX_STATES :: int where "CLASS1_MAX_STATES = 19"

lemmas class1_states =
  CLASS1_T30_SILENCE_BEFORE_PREAMBLE_STATE_def CLASS1_T30_PREAMBLE_STATE_def CLASS1_SEND_HDLC_BUFFER_STATE_def
  CLASS1_SEND_HDLC_BETWEEN_BUFFER_STATE_def CLASS1_HDLC_RECEIVE_LOOK_CARRIER_STATE_def CLASS1_HDLC_RECEIVE_STATE_def
  CLASS1_HDLC_RECEIVE_BETWEEN_BUFFERS_STATE_def CLASS1_HDLC_EMULATE_RECEIVE_STATE_def CLASS1_IDLE_STATE_def
  CLASS1_TX_SCRAMBLED_ONES_STATE_def CLASS1_TX_DATA_STATE_def CLASS1_TX_NULLS_STATE_def CLASS1_RX_LOOK_CARRIER_def
  CLASS1_RX_DATA_STATE_def CLASS1_ANSWER_TONE_STATE_def CLASS1_SEND_SILENCE_STATE_def CLASS1_RECIEVE_SILENCE_STATE_def
  CLASS1_CHDLCTX_OFF_STATE_def CLASS1_TX_SILENCE_BEFORE_SCRM_ONES_def CLASS1_MAX_STATES_def

definition FAX_CLASS1_NO_MESSAGE :: int where "FAX_CLASS1_NO_MESSAGE = 0"
definition FAX_CLASS1_OK :: int where "FAX_CLASS1_OK = 1"
definition FAX_CLASS1_ERROR :: int where "FAX_CLASS1_ERROR = 2"
definition FAX_CLASS1_OK_NO_CARRIER :: int where "FAX_CLASS1_OK_NO_CARRIER = 3"
definition FAX_CLASS1_ERROR_NO_CARRIER :: int where "FAX_CLASS1_ERROR_NO_CARRIER = 4"
definition FAX_CLASS1_ERROR_ON_HOOK :: int where "FAX_CLASS1_ERROR_ON_HOOK = 5"
definition FAX_CLASS1_CONNECT :: int where "FAX_CLASS1_CONNECT = 6"
definition FAX_CLASS1_NO_CARRIER :: int where "FAX_CLASS1_NO_CARRIER = 7"
definition FAX_CLASS1_NO_CARRIER_NO_MESSAGE :: int where "FAX_CLASS1_NO_CARRIER_NO_MESSAGE = 8"
definition FAX_CLASS1_OTHER_CARRIER :: int where "FAX_CLASS1_OTHER_CARRIER = 9"
definition FAX_CLASS1_ACCEPT_RATE :: int where "FAX_CLASS1_ACCEPT_RATE = 10"

lemmas class1_statuses =
  FAX_CLASS1_NO_MESSAGE_def FAX_CLASS1_OK_def FAX_CLASS1_ERROR_def FAX_CLASS1_OK_NO_CARRIER_def
  FAX_CLASS1_ERROR_NO_CARRIER_def FAX_CLASS1_ERROR_ON_HOOK_def FAX_CLASS1_CONNECT_def FAX_CLASS1_NO_CARRIER_def
  FAX_CLASS1_NO_CARRIER_NO_MESSAGE_def FAX_CLASS1_OTHER_CARRIER_def FAX_CLASS1_ACCEPT_RATE_def

definition FAX_CLASS1_TH_COMMAND :: int where "FAX_CLASS1_TH_COMMAND = 0"
definition FAX_CLASS1_TM_COMMAND :: int where "FAX_CLASS1_TM_COMMAND = 1"
definition FAX_CLASS1_RM_COMMAND :: int where "FAX_CLASS1_RM_COMMAND = 2"
definition FAX_CLASS1_RH_COMMAND :: int where "FAX_CLASS1_RH_COMMAND = 3"
definition FAX_CLASS1_TS_COMMAND :: int where "FAX_CLASS1_TS_COMMAND = 4"
definition FAX_CLASS1_RS_COMMAND :: int where "FAX_CLASS1_RS_COMMAND = 5"

lemmas class1_commands =
  FAX_CLASS1_TH_COMMAND_def FAX_CLASS1_TM_COMMAND_def FAX_CLASS1_RM_COMMAND_def FAX_CLASS1_RH_COMMAND_def
  FAX_CLASS1_TS_COMMAND_def FAX_CLASS1_RS_COMMAND_def

definition CLASS1_ANS_ORG_NORMAL :: int where "CLASS1_ANS_ORG_NORMAL = 1"
definition CLASS1_ANS_ORG_ANSWER :: int where "CLASS1_ANS_ORG_ANSWER = 2"
definition CLASS1_MODEM_DIR_RX :: int where "CLASS1_MODEM_DIR_RX = 1"
definition CLASS1_MODEM_DIR_TX :: int where "CLASS1_MODEM_DIR_TX = 2"
definition CLASS1_SILENCE_THRESHOLD :: int where "CLASS1_SILENCE_THRESHOLD = 0x64"
definition CLASS1_BLOCK_SAMPLES :: int where "CLASS1_BLOCK_SAMPLES = 0xa0"
definition CLASS1_EMU_MAX_FRAMES :: nat where "CLASS1_EMU_MAX_FRAMES = 12"

definition VMI_SLOT_V21TX :: u16 where "VMI_SLOT_V21TX = 5"
definition VMI_SLOT_V21RX :: u16 where "VMI_SLOT_V21RX = 6"
definition VMI_SLOT_V27TX :: u16 where "VMI_SLOT_V27TX = 7"
definition VMI_SLOT_V27RX :: u16 where "VMI_SLOT_V27RX = 8"
definition VMI_SLOT_V29TX :: u16 where "VMI_SLOT_V29TX = 9"
definition VMI_SLOT_V29RX :: u16 where "VMI_SLOT_V29RX = 10"
definition VMI_SLOT_V17TX :: u16 where "VMI_SLOT_V17TX = 11"
definition VMI_SLOT_V17RX :: u16 where "VMI_SLOT_V17RX = 12"

subsection \<open>The session object\<close>

record ('m, 'c, 't) fax_class1 = class1_line +
  c1_superframe :: "u16 list"
  c1_vmi_c :: "('m, 'c) faxvmi option"
  c1_vmi_a :: "('m, 'c) faxvmi option"
  c1_vmi_b :: "('m, 'c) faxvmi option"
  c1_vmi_c_cfg :: "'c faxvmi_cfg option"
  c1_vmi_a_cfg :: "'c faxvmi_cfg option"
  c1_modem_vmi :: "'c faxvmi_cfg option"
  c1_ans_org :: int
  c1_state :: int
  c1_prev_state :: int
  c1_countdown :: int
  c1_status :: int
  c1_f1230 :: int
  c1_f1234 :: int
  c1_delayed_status :: int
  c1_delayed_status_countdown :: int
  c1_modem_direction :: int
  c1_current_mod :: int
  c1_modem_rate_code :: int
  c1_tone :: "'t option"
  c1_tone_cadence_phase :: int
  c1_tone_cadence_timer :: int
  c1_cng_enabled :: int
  c1_answer_tone_blocks :: int
  c1_tx_rate :: int
  c1_tx_connect_countdown :: int
  c1_clock_sec :: int
  c1_clock_frac :: int
  c1_f127c :: int
  c1_hdlc_frame_done :: int
  c1_buffers_sent :: int
  c1_tx_fifo :: "fax_fifo option"
  c1_transmit_enabled :: int
  c1_tx_bytes_per_block :: int
  c1_tx_connect_latch :: int
  c1_tx_fifo_ready :: int
  c1_s7_timeout :: int
  c1_silence_blocks :: u32
  c1_energy :: int
  c1_rx_agc_mult :: int
  c1_rx_agc_shift :: int
  c1_superframe_countdown :: int
  c1_superframe_read_idx :: int
  c1_superframe_len :: int
  c1_f12d4 :: int
  c1_gain_attenuation_db :: int
  c1_iir_state :: "u16 list"
  c1_iir_enabled :: int
  c1_cDATAtx_counter :: int

record fax_class1_cfg =
  cc_mode :: int
  cc_s7_timeout :: int
  cc_f08 :: int
  cc_iir_enable :: int
  cc_answer_tone_ms :: int
  cc_disable_cng :: int

record class1_io =
  io_rx :: "u16 list"
  io_tx :: "u16 list"
  io_word3 :: "u8 list"
  io_word4 :: "u8 list"
  io_rx_count :: int
  io_tx_count :: int
  io_word7 :: int
  io_word8 :: int

text \<open>
  The signal-processing code the session drives. \<open>en_modem_cfg slot rate\<close> is the slot's
  configuration template with that bit rate, \<open>en_modem_req slot rate\<close> its control request with
  the restart flag, \<open>en_v21tx_req\<close> and \<open>en_v21rx_req\<close> the ones of the V.21 channel;
  \<open>en_quality mod\<close> reads and clears a receiver's rate-quality flag, \<open>en_set_agc\<close> and
  \<open>en_set_watch\<close> store the gain and the word \<^verbatim>\<open>f12d4\<close> into a receiver, \<open>en_agc\<close> and
  \<open>en_avg_rms\<close> read the gain and the level of the V.21 receiver, \<open>en_set_rate\<close> stores the
  bit rate of a wrapped receiver.
\<close>

record ('m, 'c, 's, 'q, 't) class1_env =
  en_pumps :: "('m, 'c, 's, 'q) datapump list"
  en_memory :: "('m, 'c) raw_memory"
  en_modem_cfg :: "u16 \<Rightarrow> u16 \<Rightarrow> 'c"
  en_modem_req :: "u16 \<Rightarrow> u16 \<Rightarrow> 'q"
  en_v21tx_req :: 'q
  en_v21rx_req :: 'q
  en_tone_create :: "int \<Rightarrow> 't"
  en_tone_generate :: "'t \<Rightarrow> nat \<Rightarrow> 't \<times> u16 list"
  en_rms :: "u16 list \<Rightarrow> u16 \<Rightarrow> int"
  en_iir :: "u16 list \<Rightarrow> u16 list \<Rightarrow> u16 \<Rightarrow> u16 list \<times> u16 list"
  en_avg_rms :: "'m \<Rightarrow> u16"
  en_agc :: "'m \<Rightarrow> u16 \<times> u16"
  en_set_agc :: "int \<Rightarrow> 'm \<Rightarrow> u16 \<Rightarrow> u16 \<Rightarrow> 'm"
  en_set_watch :: "int \<Rightarrow> 'm \<Rightarrow> u16 \<Rightarrow> 'm"
  en_set_rate :: "'m \<Rightarrow> u16 \<Rightarrow> 'm"
  en_quality :: "int \<Rightarrow> 'm \<Rightarrow> bool \<times> 'm"

text \<open>An \<open>int\<close> read as \<open>unsigned\<close>.\<close>

definition as_unsigned :: "int \<Rightarrow> int" where
  "as_unsigned i = i mod 2 ^ 32"

lemma as_unsigned_id [simp]: "0 \<le> i \<Longrightarrow> i < 2 ^ 32 \<Longrightarrow> as_unsigned i = i"
  by (simp add: as_unsigned_def)

subsection \<open>Shared operations\<close>

definition put_silence :: "u16 list \<Rightarrow> int \<Rightarrow> u16 list option" where
  "put_silence buf count = fill_loop 0 buf 0 (nat count)"

text \<open>A block of silence in the transmit buffer, the way most handlers end.\<close>

definition silent_block :: "class1_io \<Rightarrow> class1_io option" where
  "silent_block io = do {
     tx \<leftarrow> put_silence (io_tx io) CLASS1_BLOCK_SAMPLES;
     Some (io\<lparr>io_tx := tx, io_tx_count := CLASS1_BLOCK_SAMPLES\<rparr>)
   }"

definition half_count :: "int \<Rightarrow> int" where
  "half_count samples = (let half = samples sdiv 2 in if half = 0 then 1 else half)"

definition send_silence_state_init :: "int \<Rightarrow> ('m, 'c, 't) fax_class1 \<Rightarrow> ('m, 'c, 't) fax_class1" where
  "send_silence_state_init samples ctx =
     ctx\<lparr>c1_state := CLASS1_SEND_SILENCE_STATE, c1_countdown := half_count samples\<rparr>"

definition recieve_silence_state_init :: "int \<Rightarrow> ('m, 'c, 't) fax_class1 \<Rightarrow> ('m, 'c, 't) fax_class1" where
  "recieve_silence_state_init samples ctx =
     ctx\<lparr>c1_state := CLASS1_RECIEVE_SILENCE_STATE, c1_silence_blocks := 0, c1_energy := 0,
         c1_countdown := half_count samples\<rparr>"

text \<open>The answer for a selector, \<open>None\<close> when the output word is left alone.\<close>

definition fax_class1_info :: "('m, 'c, 't) fax_class1 \<Rightarrow> int \<Rightarrow> int option" where
  "fax_class1_info ctx sel =
     (if sel = 0 then Some (c1_gain_attenuation_db ctx)
      else if sel = 1 then Some (case c1_tx_fifo ctx of None \<Rightarrow> 0 | Some f \<Rightarrow> uint (ff_count f))
      else None)"

definition sym_size :: "int \<Rightarrow> int" where
  "sym_size rate =
     (if rate = 0x960 then 2 else if rate = 0x12c0 then 3 else if rate = 0x1c20 then 3
      else if rate = 0x2580 then 4 else if rate = 0x2ee0 then 5 else if rate = 0x3840 then 6 else 0)"

text \<open>Modulation and bit rate of a rate code, given what they were before.\<close>

definition set_modem_rate :: "int \<Rightarrow> int \<times> int \<Rightarrow> int \<times> int" where
  "set_modem_rate code p0 =
     (let p1 = (if as_unsigned (code - 0x91) \<le> 1 then (2, 0x3840) else p0);
          p2 = (if as_unsigned (code - 0x79) \<le> 1 then (2, 0x2ee0) else p1);
          p3 = (if as_unsigned (code - 0x61) \<le> 1 then (2, 0x2580) else p2);
          p4 = (if as_unsigned (code - 0x49) \<le> 1 then (2, 0x1c20) else p3)
      in if code = 0x60 then (1, 0x2580)
         else if code = 0x48 then (1, 0x1c20)
         else if code = 0x30 then (0, 0x12c0)
         else if code = 0x18 then (0, 0x960)
         else p4)"

end
