(* ===== verification/Class1Modem.thy ===== *)
theory Class1Modem
  imports Class1State
begin

unbundle bit_operations_syntax

text \<open>
  Choosing and installing the data modem of a session: \<^verbatim>\<open>src/fax/class1rx.c\<close> and
  \<^verbatim>\<open>src/fax/class1tx.c\<close>, with the entry actions of the states that need a modem
  (\<^verbatim>\<open>cHDLCtx.c\<close>, \<^verbatim>\<open>cHDLCrx.c\<close>, \<^verbatim>\<open>cDATAtx.c\<close>, \<^verbatim>\<open>cDATArx.c\<close>). The heap
  blocks of the configurations are not tracked; which of the two pointers is null is.
\<close>

subsection \<open>Receivers\<close>

definition init_vmi_v17rx :: "('m, 'c, 's, 'q, 't) class1_env \<Rightarrow> u16 \<Rightarrow> 'c faxvmi_cfg" where
  "init_vmi_v17rx env bit_rate =
     (FAXVMI_CFG (en_modem_cfg env VMI_SLOT_V17RX bit_rate))\<lparr>fc_mode := 0, fc_reverse := 1, fc_fifo_size := 320,
        fc_max_frame := 165, fc_frame_size := 0, fc_slot := VMI_SLOT_V17RX\<rparr>"

definition init_vmi_v29rx :: "('m, 'c, 's, 'q, 't) class1_env \<Rightarrow> u16 \<Rightarrow> 'c faxvmi_cfg" where
  "init_vmi_v29rx env bit_rate =
     (FAXVMI_CFG (en_modem_cfg env VMI_SLOT_V29RX bit_rate))\<lparr>fc_mode := 0, fc_reverse := 1, fc_fifo_size := 320,
        fc_max_frame := 165, fc_frame_size := 0, fc_slot := VMI_SLOT_V29RX\<rparr>"

definition init_vmi_v27rx :: "('m, 'c, 's, 'q, 't) class1_env \<Rightarrow> u16 \<Rightarrow> 'c faxvmi_cfg" where
  "init_vmi_v27rx env bit_rate =
     (FAXVMI_CFG (en_modem_cfg env VMI_SLOT_V27RX bit_rate))\<lparr>fc_mode := 0, fc_reverse := 1, fc_fifo_size := 320,
        fc_max_frame := 165, fc_frame_size := 0, fc_slot := VMI_SLOT_V27RX\<rparr>"

definition init_vmi_data_rx_modem :: "(('m, 'c, 's, 'q, 't) class1_env \<Rightarrow> u16 \<Rightarrow> 'c faxvmi_cfg) list" where
  "init_vmi_data_rx_modem = [init_vmi_v27rx, init_vmi_v29rx, init_vmi_v17rx]"

definition delete_data_rx_modem :: "('m, 'c, 's, 'q, 't) class1_env \<Rightarrow> ('m, 'c, 't) fax_class1 \<Rightarrow> ('m, 'c, 't) fax_class1 option" where
  "delete_data_rx_modem env ctx = do {
     cfg \<leftarrow> c1_modem_vmi ctx;
     handle \<leftarrow> c1_vmi_b ctx;
     gone \<leftarrow> FAXVMI_delete (en_pumps env) handle;
     Some (ctx\<lparr>c1_modem_vmi := None, c1_vmi_b := None\<rparr>)
   }"

text \<open>The three finishers differ in the modem fields they reach and in the modulation they record.\<close>

definition finish_rx :: "('m, 'c, 's, 'q, 't) class1_env \<Rightarrow> int \<Rightarrow> bool \<Rightarrow> ('m, 'c, 't) fax_class1 \<Rightarrow> ('m, 'c, 't) fax_class1 option" where
  "finish_rx env modu fresh ctx = do {
     vmi \<leftarrow> c1_vmi_b ctx;
     wrapped \<leftarrow> lk_modem (vm_link vmi);
     let wrapped = (if fresh
                    then en_set_agc env modu wrapped (of_int (c1_rx_agc_mult ctx)) (of_int (c1_rx_agc_shift ctx))
                    else wrapped);
     let wrapped = en_set_watch env modu wrapped (of_int (c1_f12d4 ctx));
     Some (ctx\<lparr>c1_vmi_b := Some (vmi\<lparr>vm_link := (vm_link vmi)\<lparr>lk_modem := Some wrapped\<rparr>\<rparr>),
       c1_state := CLASS1_RX_LOOK_CARRIER, c1_current_mod := modu\<rparr>)
   }"

text \<open>The decoding of the rate code and the symbol size are inlined copies of
  \<^verbatim>\<open>_set_modem_rate\<close> and \<^verbatim>\<open>_sym_size\<close>; the restart request is chosen by slot.\<close>

definition rx_ctl_slot :: "u16 \<Rightarrow> u16" where
  "rx_ctl_slot slot =
     (if slot = VMI_SLOT_V17RX then VMI_SLOT_V17RX
      else if slot = VMI_SLOT_V29RX then VMI_SLOT_V29RX else VMI_SLOT_V27RX)"

definition init_receiver :: "('m, 'c, 's, 'q, 't) class1_env \<Rightarrow> int \<Rightarrow> ('m, 'c, 't) fax_class1 \<Rightarrow> ('m, 'c, 't) fax_class1 option" where
  "init_receiver env rate_code ctx = do {
     let (modu, rate) = set_modem_rate rate_code (0, 0);
     ctx \<leftarrow> (if c1_current_mod ctx \<noteq> modu \<and> c1_modem_vmi ctx \<noteq> None \<and> c1_vmi_b ctx \<noteq> None
             then delete_data_rx_modem env ctx else Some ctx);
     case c1_modem_vmi ctx of
       None \<Rightarrow> do {
         init \<leftarrow> rd_at init_vmi_data_rx_modem (nat modu);
         let cfg = init env (of_int rate);
         (vmi, blocks) \<leftarrow> FAXVMI_create (en_pumps env) (en_memory env) None (Some cfg);
         finish_rx env modu True (ctx\<lparr>c1_modem_vmi := Some cfg, c1_vmi_b := Some vmi\<rparr>)
       }
     | Some cfg \<Rightarrow> do {
         let ctl = FAXVMI_CTL\<lparr>ct_control_req := Some (en_modem_req env (rx_ctl_slot (fc_slot cfg)) (of_int rate))\<rparr>;
         vmi \<leftarrow> c1_vmi_b ctx;
         wrapped \<leftarrow> lk_modem (vm_link vmi);
         let link = (vm_link vmi)\<lparr>lk_modem := Some (en_set_rate env wrapped (of_int rate)),
                                  lk_unpack_width := of_int (sym_size rate)\<rparr>;
         (vmi, ret) \<leftarrow> FAXVMI_control (en_pumps env) (vmi\<lparr>vm_link := link\<rparr>) (Some ctl);
         finish_rx env modu False (ctx\<lparr>c1_vmi_b := Some vmi\<rparr>)
       }
   }"

subsection \<open>Transmitters\<close>

definition init_vmi_v17tx :: "('m, 'c, 's, 'q, 't) class1_env \<Rightarrow> u16 \<Rightarrow> 'c faxvmi_cfg" where
  "init_vmi_v17tx env bit_rate =
     (FAXVMI_CFG (en_modem_cfg env VMI_SLOT_V17TX bit_rate))\<lparr>fc_mode := 0, fc_reverse := 1, fc_fifo_size := 0x60,
        fc_max_frame := 0x30, fc_frame_size := 0, fc_slot := VMI_SLOT_V17TX\<rparr>"

definition init_vmi_v29tx :: "('m, 'c, 's, 'q, 't) class1_env \<Rightarrow> u16 \<Rightarrow> 'c faxvmi_cfg" where
  "init_vmi_v29tx env bit_rate =
     (FAXVMI_CFG (en_modem_cfg env VMI_SLOT_V29TX bit_rate))\<lparr>fc_mode := 0, fc_reverse := 1, fc_fifo_size := 0x60,
        fc_max_frame := 0x35, fc_frame_size := 0, fc_slot := VMI_SLOT_V29TX\<rparr>"

definition init_vmi_v27tx :: "('m, 'c, 's, 'q, 't) class1_env \<Rightarrow> u16 \<Rightarrow> 'c faxvmi_cfg" where
  "init_vmi_v27tx env bit_rate =
     (FAXVMI_CFG (en_modem_cfg env VMI_SLOT_V27TX bit_rate))\<lparr>fc_mode := 0, fc_reverse := 1, fc_fifo_size := 0x40,
        fc_max_frame := 0x25, fc_frame_size := 0, fc_slot := VMI_SLOT_V27TX\<rparr>"

definition init_vmi_data_tx_modem :: "(('m, 'c, 's, 'q, 't) class1_env \<Rightarrow> u16 \<Rightarrow> 'c faxvmi_cfg) list" where
  "init_vmi_data_tx_modem = [init_vmi_v27tx, init_vmi_v29tx, init_vmi_v17tx]"

definition delete_data_tx_modem :: "('m, 'c, 's, 'q, 't) class1_env \<Rightarrow> ('m, 'c, 't) fax_class1 \<Rightarrow> ('m, 'c, 't) fax_class1 option" where
  "delete_data_tx_modem env ctx = do {
     cfg \<leftarrow> c1_modem_vmi ctx;
     handle \<leftarrow> c1_vmi_b ctx;
     gone \<leftarrow> FAXVMI_delete (en_pumps env) handle;
     Some (ctx\<lparr>c1_modem_vmi := None, c1_vmi_b := None, c1_tx_fifo := None\<rparr>)
   }"

text \<open>The transmitter's own decoding: the two words it keeps, the modulation and the rate.\<close>

definition tx_code :: "int \<Rightarrow> int \<times> int \<times> int \<times> int \<Rightarrow> int \<times> int \<times> int \<times> int" where
  "tx_code code p0 =
     (let p1 = (if as_unsigned (code - 0x91) \<le> 1 then (0x30, 0x8000, 2, 0x3840) else p0);
          p2 = (if as_unsigned (code - 0x79) \<le> 1 then (0x30, 0x8000, 2, 0x2ee0) else p1);
          p3 = (if as_unsigned (code - 0x61) \<le> 1 then (0x18, 0x8000, 2, 0x2580) else p2);
          p4 = (if as_unsigned (code - 0x49) \<le> 1 then (0x18, 0x8000, 2, 0x1c20) else p3)
      in if code = 0x60 then (0x18, 0x8000, 1, 0x2580)
         else if code = 0x48 then (0x18, 0x75a2, 1, 0x1c20)
         else if code = 0x30 then (0x0c, 0x4000, 0, 0x12c0)
         else if code = 0x18 then (0x06, 0x4000, 0, 0x960)
         else p4)"

definition is_v17_short :: "int \<Rightarrow> bool" where
  "is_v17_short code \<longleftrightarrow> code = 0x4a \<or> code = 0x62 \<or> code = 0x7a \<or> code = 0x92"

definition tx_ctl_slot :: "u16 \<Rightarrow> u16" where
  "tx_ctl_slot slot =
     (if slot = VMI_SLOT_V17TX then VMI_SLOT_V17TX
      else if slot = VMI_SLOT_V29TX then VMI_SLOT_V29TX else VMI_SLOT_V27TX)"

definition init_transmitter :: "('m, 'c, 's, 'q, 't) class1_env \<Rightarrow> int \<Rightarrow> ('m, 'c, 't) fax_class1 \<Rightarrow> ('m, 'c, 't) fax_class1 option" where
  "init_transmitter env rate_code ctx = do {
     let (f1230, f1234, modu, rate) = tx_code rate_code (c1_f1230 ctx, c1_f1234 ctx, 0, 0);
     let ctx = ctx\<lparr>c1_f1230 := f1230, c1_f1234 := f1234\<rparr>;
     ctx \<leftarrow> (if c1_modem_vmi ctx \<noteq> None \<and> c1_vmi_b ctx \<noteq> None then delete_data_tx_modem env ctx else Some ctx);
     ctx \<leftarrow> (if c1_vmi_b ctx = None then do {
               init \<leftarrow> rd_at init_vmi_data_tx_modem (nat modu);
               let cfg = init env (of_int rate);
               (vmi, blocks) \<leftarrow> FAXVMI_create (en_pumps env) (en_memory env) None (Some cfg);
               Some (ctx\<lparr>c1_modem_vmi := Some cfg, c1_vmi_b := Some vmi\<rparr>)
             } else Some ctx);
     ctx \<leftarrow> (if is_v17_short rate_code then do {
               cfg \<leftarrow> c1_modem_vmi ctx;
               vmi \<leftarrow> c1_vmi_b ctx;
               (vmi, ret) \<leftarrow> FAXVMI_control (en_pumps env) vmi
                 (Some (FAXVMI_CTL\<lparr>ct_control_req := Some (en_modem_req env (tx_ctl_slot (fc_slot cfg)) (of_int rate))\<rparr>));
               Some (ctx\<lparr>c1_vmi_b := Some vmi\<rparr>)
             } else Some ctx);
     Some (ctx\<lparr>c1_tx_rate := rate,
       c1_state := (if c1_silence_blocks ctx = 0 then CLASS1_TX_SCRAMBLED_ONES_STATE else CLASS1_TX_SILENCE_BEFORE_SCRM_ONES),
       c1_current_mod := modu, c1_countdown := 0\<rparr>)
   }"

subsection \<open>Entry actions\<close>

text \<open>The request that restarts the V.21 receiver in HDLC mode with an empty ring.\<close>

definition v21rx_restart :: "('m, 'c, 's, 'q, 't) class1_env \<Rightarrow> 'q faxvmi_ctl" where
  "v21rx_restart env =
     FAXVMI_CTL\<lparr>ct_control_req := Some (en_v21rx_req env), ct_empty := True, ct_int_000c := 1, ct_short_0010 := 2\<rparr>"

definition cHDLCtx_preamble_state_init :: "('m, 'c, 's, 'q, 't) class1_env \<Rightarrow> ('m, 'c, 't) fax_class1 \<Rightarrow> ('m, 'c, 't) fax_class1 option" where
  "cHDLCtx_preamble_state_init env ctx = do {
     vmi \<leftarrow> c1_vmi_c ctx;
     (vmi, ret) \<leftarrow> FAXVMI_control (en_pumps env) vmi (Some (FAXVMI_CTL\<lparr>ct_control_req := Some (en_v21tx_req env)\<rparr>));
     Some ((handle_hdlc_input_open (ctx\<lparr>c1_vmi_c := Some vmi\<rparr>))\<lparr>c1_countdown := 0,
       c1_state := CLASS1_T30_SILENCE_BEFORE_PREAMBLE_STATE, c1_hdlc_frame_done := 0, c1_buffers_sent := 0,
       cx_frame_end_latch := 0\<rparr>)
   }"

definition send_hdlc_between_buffer_state_init :: "('m, 'c, 't) fax_class1 \<Rightarrow> ('m, 'c, 't) fax_class1" where
  "send_hdlc_between_buffer_state_init ctx = handle_hdlc_input_open (ctx\<lparr>c1_countdown := 0\<rparr>)"

definition cHDLCtx_off_init :: "('m, 'c, 's, 'q, 't) class1_env \<Rightarrow> ('m, 'c, 't) fax_class1 \<Rightarrow> (('m, 'c, 't) fax_class1 \<times> u32) option" where
  "cHDLCtx_off_init env ctx = do {
     vmi \<leftarrow> c1_vmi_a ctx;
     (vmi, ret) \<leftarrow> FAXVMI_control (en_pumps env) vmi (Some (v21rx_restart env));
     Some (ctx\<lparr>c1_vmi_a := Some vmi, c1_countdown := 0\<rparr>, ret)
   }"

definition cHDLCrx_init_from_idle :: "('m, 'c, 's, 'q, 't) class1_env \<Rightarrow> int \<Rightarrow> ('m, 'c, 't) fax_class1 \<Rightarrow> ('m, 'c, 't) fax_class1 option" where
  "cHDLCrx_init_from_idle env arg2 ctx = do {
     vmi \<leftarrow> c1_vmi_a ctx;
     (vmi, ret) \<leftarrow> FAXVMI_control (en_pumps env) vmi (Some (v21rx_restart env));
     let ctx = ctx\<lparr>c1_vmi_a := Some vmi\<rparr>;
     let ctx = (if arg2 = 3 then ctx\<lparr>c1_state := CLASS1_HDLC_RECEIVE_LOOK_CARRIER_STATE\<rparr> else ctx);
     Some (ctx\<lparr>c1_countdown := 0, c1_delayed_status_countdown := 0\<rparr>)
   }"

definition hdlc_receive_state_init :: "('m, 'c, 't) fax_class1 \<Rightarrow> ('m, 'c, 't) fax_class1" where
  "hdlc_receive_state_init ctx = ctx\<lparr>c1_countdown := 0\<rparr>"

definition init_tx_nulls_state :: "('m, 'c, 't) fax_class1 \<Rightarrow> ('m, 'c, 't) fax_class1" where
  "init_tx_nulls_state ctx = ctx\<lparr>c1_countdown := 0\<rparr>"

definition tx_scrambled_ones_init :: "('m, 'c, 's, 'q, 't) class1_env \<Rightarrow> int \<Rightarrow> ('m, 'c, 't) fax_class1 \<Rightarrow> ('m, 'c, 't) fax_class1 option" where
  "tx_scrambled_ones_init env rate_code ctx = do {
     ctx \<leftarrow> init_transmitter env rate_code ctx;
     fifo \<leftarrow> FIFO_create (c1_tx_fifo ctx) (Some (FIFO_CFG\<lparr>fc_size := 0x800, fc_fill := 0\<rparr>));
     Some (ctx\<lparr>c1_tx_connect_countdown := 0, c1_tx_fifo := Some fifo, c1_tx_connect_latch := 0,
       c1_transmit_enabled := 0, c1_tx_fifo_ready := 0, c1_tx_bytes_per_block := c1_tx_rate ctx sdiv 400,
       cx_data_input_closed := 0, c1_cDATAtx_counter := 0\<rparr>)
   }"

definition rx_look_carrier_init :: "('m, 'c, 's, 'q, 't) class1_env \<Rightarrow> int \<Rightarrow> ('m, 'c, 't) fax_class1 \<Rightarrow> ('m, 'c, 't) fax_class1 option" where
  "rx_look_carrier_init env rate_code ctx = do {
     ctx \<leftarrow> init_receiver env rate_code ctx;
     Some ((cTOOLS_handle_data_output_reset ctx)\<lparr>c1_countdown := 0\<rparr>)
   }"

end
