(* ===== verification/Class1Handlers.thy ===== *)
theory Class1Handlers
  imports Class1Modem
begin

unbundle bit_operations_syntax

text \<open>
  The nineteen state handlers of a Class 1 session: \<^verbatim>\<open>class1.c\<close>, \<^verbatim>\<open>cHDLCtx.c\<close>,
  \<^verbatim>\<open>cHDLCrx.c\<close>, \<^verbatim>\<open>cDATAtx.c\<close> and \<^verbatim>\<open>cDATArx.c\<close>. Each is a whole handler: the
  calls in the order of the source, every early return a branch. Diagnostic output is left out.
\<close>

definition FAXVMI_RESULT_BIT_2000 :: u32 where
  "FAXVMI_RESULT_BIT_2000 = 0x2000"

definition FAXVMI_PROCESS_BIT_0100 :: u32 where
  "FAXVMI_PROCESS_BIT_0100 = 0x100"

definition FAXVMI_STS :: "'s faxvmi_status" where
  "FAXVMI_STS = \<lparr>st_room = 0, st_residue = 0, st_underrun = 0, st_overflow = 0, st_zero_run_seen = 0,
     st_flag_0014 = 0, st_modem_status = None\<rparr>"

type_synonym ('m, 'c, 's, 'q, 't) class1_handler =
  "('m, 'c, 's, 'q, 't) class1_env \<Rightarrow> ('m, 'c, 't) fax_class1 \<Rightarrow> class1_io \<Rightarrow> (('m, 'c, 't) fax_class1 \<times> class1_io) option"

subsection \<open>Calls into the modems\<close>

text \<open>
  The session's first 2048 elements are the data buffer of every call. The control channel's
  transmitter and the data transmitter write the transmit block, the receivers read the received
  one. The answer is the session, the samples, the new count and the status word.
\<close>

definition run_vmi :: "('m, 'c, 's, 'q, 't) class1_env \<Rightarrow> ('m, 'c) faxvmi option \<Rightarrow> ('m, 'c, 't) fax_class1 \<Rightarrow> u16 list \<Rightarrow> u16 \<Rightarrow> u16 \<Rightarrow>
    (('m, 'c) faxvmi \<times> ('m, 'c, 't) fax_class1 \<times> u16 list \<times> u16 \<times> u32) option" where
  "run_vmi env handle ctx pcm cnt result = do {
     vmi \<leftarrow> handle;
     (vmi, data, pcm, cnt, result, st) \<leftarrow> FAXVMI_process (en_pumps env) vmi (cx_scratch ctx) pcm cnt result;
     Some (vmi, ctx\<lparr>cx_scratch := data\<rparr>, pcm, cnt, st)
   }"

definition run_c :: "('m, 'c, 's, 'q, 't) class1_env \<Rightarrow> ('m, 'c, 't) fax_class1 \<Rightarrow> class1_io \<Rightarrow> u16 \<Rightarrow> u16 \<Rightarrow>
    (('m, 'c, 't) fax_class1 \<times> class1_io \<times> u32) option" where
  "run_c env ctx io cnt result = do {
     (vmi, ctx, tx, cnt, st) \<leftarrow> run_vmi env (c1_vmi_c ctx) ctx (io_tx io) cnt result;
     Some (ctx\<lparr>c1_vmi_c := Some vmi\<rparr>, io\<lparr>io_tx := tx\<rparr>, st)
   }"

definition run_a :: "('m, 'c, 's, 'q, 't) class1_env \<Rightarrow> ('m, 'c, 't) fax_class1 \<Rightarrow> class1_io \<Rightarrow>
    (('m, 'c, 't) fax_class1 \<times> class1_io \<times> u16 \<times> u32) option" where
  "run_a env ctx io = do {
     (vmi, ctx, rx, cnt, st) \<leftarrow> run_vmi env (c1_vmi_a ctx) ctx (io_rx io) 0 (of_int (io_rx_count io));
     Some (ctx\<lparr>c1_vmi_a := Some vmi\<rparr>, io\<lparr>io_rx := rx\<rparr>, cnt, st)
   }"

definition run_b_rx :: "('m, 'c, 's, 'q, 't) class1_env \<Rightarrow> ('m, 'c, 't) fax_class1 \<Rightarrow> class1_io \<Rightarrow> u16 \<Rightarrow>
    (('m, 'c, 't) fax_class1 \<times> class1_io \<times> u16 \<times> u32) option" where
  "run_b_rx env ctx io cnt = do {
     (vmi, ctx, rx, cnt, st) \<leftarrow> run_vmi env (c1_vmi_b ctx) ctx (io_rx io) cnt (of_int (io_rx_count io));
     Some (ctx\<lparr>c1_vmi_b := Some vmi\<rparr>, io\<lparr>io_rx := rx\<rparr>, cnt, st)
   }"

definition run_b_tx :: "('m, 'c, 's, 'q, 't) class1_env \<Rightarrow> ('m, 'c, 't) fax_class1 \<Rightarrow> class1_io \<Rightarrow> u16 \<Rightarrow> u16 \<Rightarrow>
    (('m, 'c, 't) fax_class1 \<times> class1_io \<times> u32) option" where
  "run_b_tx env ctx io cnt result = do {
     (vmi, ctx, tx, cnt, st) \<leftarrow> run_vmi env (c1_vmi_b ctx) ctx (io_tx io) cnt result;
     Some (ctx\<lparr>c1_vmi_b := Some vmi\<rparr>, io\<lparr>io_tx := tx\<rparr>, st)
   }"

text \<open>Samples or elements stored one after another.\<close>

fun store_all :: "'a list \<Rightarrow> nat \<Rightarrow> 'a list \<Rightarrow> 'a list option" where
  "store_all dst i [] = Some dst"
| "store_all dst i (x # xs) = do { dst \<leftarrow> wr_at dst i x; store_all dst (i + 1) xs }"

definition generate_tone :: "('m, 'c, 's, 'q, 't) class1_env \<Rightarrow> ('m, 'c, 't) fax_class1 \<Rightarrow> class1_io \<Rightarrow>
    (('m, 'c, 't) fax_class1 \<times> class1_io) option" where
  "generate_tone env ctx io = do {
     tone \<leftarrow> c1_tone ctx;
     let (tone, samples) = en_tone_generate env tone (nat CLASS1_BLOCK_SAMPLES);
     tx \<leftarrow> store_all (io_tx io) 0 samples;
     Some (ctx\<lparr>c1_tone := Some tone\<rparr>, io\<lparr>io_tx := tx\<rparr>)
   }"

text \<open>
  Data from the terminal aborts a command: the session goes idle and hands the terminal an empty,
  terminated buffer.
\<close>

definition abort_command :: "('m, 'c, 't) fax_class1 \<Rightarrow> class1_io \<Rightarrow> (('m, 'c, 't) fax_class1 \<times> class1_io) option" where
  "abort_command ctx io =
     (if io_word8 io \<noteq> 0 then do {
        (w3, n) \<leftarrow> cTOOLS_handle_hdlc_output (tl (cx_scratch ctx)) (io_word3 io) 0 1;
        Some (ctx\<lparr>c1_state := CLASS1_IDLE_STATE, c1_status := FAX_CLASS1_OK\<rparr>, io\<lparr>io_word3 := w3, io_word7 := int n\<rparr>)
      } else Some (ctx, io))"

subsection \<open>Idle, answer tone and silence\<close>

definition idle_state :: "('m, 'c, 's, 'q, 't) class1_handler" where
  "idle_state env ctx io =
     (let n = (if io_rx_count io > 0 then io_rx_count io else CLASS1_BLOCK_SAMPLES)
      in do {
        tx \<leftarrow> put_silence (io_tx io) n;
        Some (ctx, io\<lparr>io_tx := tx, io_tx_count := n\<rparr>)
      })"

definition answer_tone_state :: "('m, 'c, 's, 'q, 't) class1_handler" where
  "answer_tone_state env ctx io =
     (let ctx = ctx\<lparr>c1_countdown := c1_countdown ctx + 1\<rparr>;
          io = io\<lparr>io_tx_count := CLASS1_BLOCK_SAMPLES\<rparr>
      in if c1_countdown ctx \<le> c1_answer_tone_blocks ctx then generate_tone env ctx io
         else do {
           ctx \<leftarrow> cHDLCtx_preamble_state_init env ctx;
           Some (ctx, io)
         })"

definition send_silence_state :: "('m, 'c, 's, 'q, 't) class1_handler" where
  "send_silence_state env ctx io = do {
     let ctx = ctx\<lparr>c1_countdown := c1_countdown ctx - 1\<rparr>;
     io \<leftarrow> silent_block io;
     Some (if c1_countdown ctx = 0 then ctx\<lparr>c1_status := FAX_CLASS1_OK_NO_CARRIER\<rparr> else ctx, io)
   }"

definition recieve_silence_state :: "('m, 'c, 's, 'q, 't) class1_handler" where
  "recieve_silence_state env ctx io = do {
     io \<leftarrow> silent_block io;
     let ctx = ctx\<lparr>c1_energy := en_rms env (io_rx io) (of_int (io_rx_count io))\<rparr>;
     if io_word8 io \<noteq> 0
     then Some (ctx\<lparr>c1_status := FAX_CLASS1_OK_NO_CARRIER, c1_state := CLASS1_IDLE_STATE\<rparr>, io)
     else if c1_energy ctx > CLASS1_SILENCE_THRESHOLD
     then Some (ctx\<lparr>c1_silence_blocks := 0, c1_status := FAX_CLASS1_NO_MESSAGE\<rparr>, io\<lparr>io_word8 := 5\<rparr>)
     else do {
       let ctx = ctx\<lparr>c1_silence_blocks := c1_silence_blocks ctx + 1\<rparr>;
       Some (if c1_silence_blocks ctx \<ge> of_int (c1_countdown ctx)
             then ctx\<lparr>c1_status := FAX_CLASS1_OK_NO_CARRIER, c1_state := CLASS1_IDLE_STATE\<rparr> else ctx, io)
     }
   }"

subsection \<open>Sending control frames\<close>

definition send_hdlc_buffer_state :: "('m, 'c, 's, 'q, 't) class1_handler" where
  "send_hdlc_buffer_state env ctx io = do {
     (ctx, io, st) \<leftarrow> run_c env ctx io 0 (of_int (io_tx_count io));
     vmi \<leftarrow> c1_vmi_c ctx;
     (vmi, sts, ret) \<leftarrow> FAXVMI_status (en_pumps env) vmi (Some FAXVMI_STS);
     sts \<leftarrow> sts;
     let ctx = ctx\<lparr>c1_vmi_c := Some vmi\<rparr>;
     let ctx = (if st_underrun sts = 1
                then handle_hdlc_input_open (ctx\<lparr>c1_state := CLASS1_SEND_HDLC_BETWEEN_BUFFER_STATE, c1_countdown := 0\<rparr>)
                else ctx);
     Some (ctx, io\<lparr>io_word8 := 0x200\<rparr>)
   }"

definition t30_silence_before_tx_state :: "('m, 'c, 's, 'q, 't) class1_handler" where
  "t30_silence_before_tx_state env ctx io = do {
     io \<leftarrow> silent_block io;
     let ctx = (if as_unsigned (c1_countdown ctx) > 400
                then ctx\<lparr>c1_state := CLASS1_T30_PREAMBLE_STATE, c1_countdown := 0, c1_status := FAX_CLASS1_CONNECT\<rparr>
                else ctx);
     Some (ctx\<lparr>c1_countdown := c1_countdown ctx + io_tx_count io\<rparr>, io)
   }"

definition t30_preabmle_state :: "('m, 'c, 's, 'q, 't) class1_handler" where
  "t30_preabmle_state env ctx io = do {
     let io = io\<lparr>io_tx_count := CLASS1_BLOCK_SAMPLES\<rparr>;
     ctx \<leftarrow> (if io_word8 io > 0 then do {
               (ctx, n, ret) \<leftarrow> handle_hdlc_input ctx (io_word4 io) (io_word8 io);
               let ctx = ctx\<lparr>c1_hdlc_frame_done := ret\<rparr>;
               Some (if ret \<noteq> 0 then ctx\<lparr>c1_buffers_sent := c1_buffers_sent ctx + 1\<rparr> else ctx)
             } else Some ctx);
     let send = as_unsigned (c1_countdown ctx) > 0x1f40 \<and> c1_hdlc_frame_done ctx \<noteq> 0;
     let cnt = (if send then of_int (c1_buffers_sent ctx) else 0 :: u16);
     let ctx = (if send then ctx\<lparr>c1_state := CLASS1_SEND_HDLC_BUFFER_STATE\<rparr> else ctx);
     let ctx = (if as_unsigned (c1_countdown ctx) > 0x9c40
                then ctx\<lparr>c1_status := FAX_CLASS1_ERROR_NO_CARRIER, c1_state := CLASS1_IDLE_STATE\<rparr> else ctx);
     (ctx, io, st) \<leftarrow> run_c env ctx io cnt 0;
     Some (ctx\<lparr>c1_countdown := c1_countdown ctx + io_tx_count io\<rparr>, io\<lparr>io_word8 := 0x200\<rparr>)
   }"

definition send_hdlc_between_buffer_state :: "('m, 'c, 's, 'q, 't) class1_handler" where
  "send_hdlc_between_buffer_state env ctx io = do {
     let io = io\<lparr>io_tx_count := CLASS1_BLOCK_SAMPLES\<rparr>;
     let ctx = (if c1_countdown ctx = 2
                then if cx_frame_end_latch ctx = 1
                     then ctx\<lparr>c1_status := FAX_CLASS1_OK_NO_CARRIER, c1_state := CLASS1_IDLE_STATE\<rparr>
                     else ctx\<lparr>c1_status := FAX_CLASS1_CONNECT\<rparr>
                else ctx);
     (ctx, cnt) \<leftarrow>
       (if io_word8 io > 0 \<and> as_unsigned (c1_countdown ctx) > 1 then do {
          (ctx, n, ret) \<leftarrow> handle_hdlc_input ctx (io_word4 io) (io_word8 io);
          Some (if ret \<noteq> 0 then (ctx\<lparr>c1_state := CLASS1_SEND_HDLC_BUFFER_STATE\<rparr>, 1) else (ctx, 0))
        } else Some (ctx, 0));
     (ctx, io, st) \<leftarrow> run_c env ctx io cnt 0;
     let ctx = ctx\<lparr>c1_countdown := c1_countdown ctx + 1\<rparr>;
     let ctx = (if as_unsigned (c1_countdown ctx) > 250
                then ctx\<lparr>c1_status := FAX_CLASS1_ERROR_ON_HOOK, c1_state := CLASS1_IDLE_STATE\<rparr> else ctx);
     Some (ctx, io\<lparr>io_word8 := 0x200\<rparr>)
   }"

definition cHDLCtx_off :: "('m, 'c, 's, 'q, 't) class1_handler" where
  "cHDLCtx_off env ctx io = do {
     let ctx = ctx\<lparr>c1_countdown := c1_countdown ctx + 1\<rparr>;
     (ctx, io, cnt, st) \<leftarrow> run_a env ctx io;
     let ctx = (if (st AND FAXVMI_RESULT_BIT_2000 = 0 \<and> as_unsigned (c1_countdown ctx) > 2) \<or>
                   as_unsigned (c1_countdown ctx) > 15
                then ctx\<lparr>c1_status := FAX_CLASS1_OK_NO_CARRIER, c1_state := CLASS1_IDLE_STATE\<rparr> else ctx);
     io \<leftarrow> silent_block io;
     Some (ctx, io)
   }"


subsection \<open>Receiving control frames\<close>

definition GAIN_THRESHOLD_TABLE :: "int list" where
  "GAIN_THRESHOLD_TABLE = [514, 727, 1026, 1450]"

text \<open>Take the V.21 receiver's gain when a frame has been received.\<close>

definition snapshot_agc :: "('m, 'c, 's, 'q, 't) class1_env \<Rightarrow> ('m, 'c, 't) fax_class1 \<Rightarrow> ('m, 'c, 't) fax_class1 option" where
  "snapshot_agc env ctx = do {
     vmi \<leftarrow> c1_vmi_a ctx;
     modem \<leftarrow> lk_modem (vm_link vmi);
     let (mult, shift) = en_agc env modem;
     Some (ctx\<lparr>c1_rx_agc_mult := sint mult, c1_rx_agc_shift := sint shift\<rparr>)
   }"

definition hdlc_receive_block :: "('m, 'c, 's, 'q, 't) class1_handler" where
  "hdlc_receive_block env ctx io = do {
     ctx \<leftarrow> put_scratch 0 0 ctx;
     (ctx, io, cnt, st) \<leftarrow> run_a env ctx io;
     (ctx, io) \<leftarrow>
       (if st AND FAXVMI_RESULT_BIT_2000 = 0 then do {
          (w3, n) \<leftarrow> cTOOLS_handle_hdlc_output (tl (cx_scratch ctx)) (io_word3 io) 0 1;
          Some (ctx\<lparr>c1_state := CLASS1_IDLE_STATE, c1_delayed_status_countdown := 2, c1_delayed_status := FAX_CLASS1_NO_CARRIER\<rparr>,
                io\<lparr>io_word3 := w3, io_word7 := int n\<rparr>)
        } else Some (ctx, io));
     if cnt \<noteq> 0 then do {
       len \<leftarrow> rd_at (cx_scratch ctx) 0;
       (ctx, io) \<leftarrow>
         (if len = 0
          then Some (ctx\<lparr>c1_delayed_status_countdown := 2, c1_delayed_status := FAX_CLASS1_ERROR\<rparr>, io)
          else do {
            (w3, n) \<leftarrow> cTOOLS_handle_hdlc_output (tl (cx_scratch ctx)) (io_word3 io) (uint len) 1;
            ctx \<leftarrow> snapshot_agc env (ctx\<lparr>c1_delayed_status_countdown := 2, c1_delayed_status := FAX_CLASS1_OK\<rparr>);
            Some (ctx, io\<lparr>io_word3 := w3, io_word7 := int n\<rparr>)
          });
       Some (ctx\<lparr>c1_state := CLASS1_HDLC_RECEIVE_BETWEEN_BUFFERS_STATE\<rparr>, io)
     } else Some (ctx, io)
   }"

definition hdlc_receive_state :: "('m, 'c, 's, 'q, 't) class1_handler" where
  "hdlc_receive_state env ctx io = do {
     let ctx = (if c1_prev_state ctx = CLASS1_HDLC_RECEIVE_BETWEEN_BUFFERS_STATE
                then ctx\<lparr>c1_status := FAX_CLASS1_CONNECT\<rparr> else ctx);
     let ctx = ctx\<lparr>c1_countdown := c1_countdown ctx + 1\<rparr>;
     (ctx, io) \<leftarrow> (if c1_countdown ctx \<noteq> 0 then hdlc_receive_block env ctx io else Some (ctx, io));
     (ctx, io) \<leftarrow> abort_command ctx io;
     io \<leftarrow> silent_block (io\<lparr>io_word8 := 5\<rparr>);
     Some (ctx, io)
   }"

text \<open>A frame that arrives while the terminal is in command mode is kept as one more record.\<close>

fun copy_elements :: "u16 list \<Rightarrow> nat \<Rightarrow> u16 list \<Rightarrow> nat \<Rightarrow> nat \<Rightarrow> u16 list option" where
  "copy_elements dst d src i 0 = Some dst"
| "copy_elements dst d src i (Suc n) = do {
     v \<leftarrow> rd_at src i;
     dst \<leftarrow> wr_at dst d v;
     copy_elements dst (d + 1) src (i + 1) n
   }"

definition superframe_put :: "('m, 'c, 't) fax_class1 \<Rightarrow> ('m, 'c, 't) fax_class1 option" where
  "superframe_put ctx = do {
     len \<leftarrow> rd_at (cx_scratch ctx) 0;
     let d = c1_superframe_len ctx;
     let new_len = d + uint len + 1;
     if new_len > 0xff then Some ctx
     else if d < 0 then None
     else do {
       sf \<leftarrow> wr_at (c1_superframe ctx) (nat d) len;
       sf \<leftarrow> copy_elements sf (nat d + 1) (cx_scratch ctx) 1 (unat len);
       Some (ctx\<lparr>c1_superframe := sf, c1_superframe_len := new_len\<rparr>)
     }
   }"

definition hdlc_receive_between_buffers_state :: "('m, 'c, 's, 'q, 't) class1_handler" where
  "hdlc_receive_between_buffers_state env ctx io = do {
     ctx \<leftarrow> put_scratch 0 0 ctx;
     (ctx, io, cnt, st) \<leftarrow> run_a env ctx io;
     ctx \<leftarrow> (if cnt \<noteq> 0 then superframe_put ctx else Some ctx);
     let ctx = (if st AND FAXVMI_RESULT_BIT_2000 = 0
                then ctx\<lparr>c1_status := FAX_CLASS1_NO_CARRIER_NO_MESSAGE, c1_state := CLASS1_IDLE_STATE\<rparr> else ctx);
     (ctx, io) \<leftarrow> abort_command ctx io;
     io \<leftarrow> silent_block (io\<lparr>io_word8 := 5\<rparr>);
     Some (ctx, io)
   }"

definition s7_limit :: "('m, 'c, 't) fax_class1 \<Rightarrow> int \<Rightarrow> int" where
  "s7_limit ctx rx_count =
     (if rx_count = 0 then c1_s7_timeout ctx * 50 else (c1_s7_timeout ctx * 8000) sdiv rx_count)"

text \<open>The first threshold the received level is below asks for 12, 9, 6 or 3 dB.\<close>

fun gain_request :: "int \<Rightarrow> int \<Rightarrow> int list \<Rightarrow> int \<Rightarrow> int" where
  "gain_request v i [] g = g"
| "gain_request v i (t # ts) g = (if v < t then 12 - 3 * i else gain_request v (i + 1) ts g)"

definition carrier_found :: "('m, 'c, 's, 'q, 't) class1_env \<Rightarrow> ('m, 'c, 't) fax_class1 \<Rightarrow> ('m, 'c, 't) fax_class1 option" where
  "carrier_found env ctx = do {
     vmi \<leftarrow> c1_vmi_a ctx;
     modem \<leftarrow> lk_modem (vm_link vmi);
     Some (ctx\<lparr>c1_status := FAX_CLASS1_CONNECT, c1_countdown := 0, c1_state := CLASS1_HDLC_RECEIVE_STATE,
       c1_cng_enabled := 0,
       c1_gain_attenuation_db := gain_request (sint (en_avg_rms env modem)) 0 GAIN_THRESHOLD_TABLE (c1_gain_attenuation_db ctx)\<rparr>)
   }"

definition cng_cadence :: "('m, 'c, 's, 'q, 't) class1_handler" where
  "cng_cadence env ctx io =
     (if c1_cng_enabled ctx = 0 then do {
        tx \<leftarrow> put_silence (io_tx io) CLASS1_BLOCK_SAMPLES;
        Some (ctx, io\<lparr>io_tx := tx\<rparr>)
      }
      else if c1_tone_cadence_phase ctx = 0 then do {
        tx \<leftarrow> put_silence (io_tx io) CLASS1_BLOCK_SAMPLES;
        let t = c1_tone_cadence_timer ctx + CLASS1_BLOCK_SAMPLES;
        Some (if t > 0x5dc0 then ctx\<lparr>c1_tone_cadence_timer := 0, c1_tone_cadence_phase := 1\<rparr>
              else ctx\<lparr>c1_tone_cadence_timer := t\<rparr>, io\<lparr>io_tx := tx\<rparr>)
      }
      else do {
        (ctx, io) \<leftarrow> generate_tone env ctx io;
        let t = c1_tone_cadence_timer ctx + CLASS1_BLOCK_SAMPLES;
        Some (if t > 0xfa0 then ctx\<lparr>c1_tone_cadence_timer := 0, c1_tone_cadence_phase := 0\<rparr>
              else ctx\<lparr>c1_tone_cadence_timer := t\<rparr>, io)
      })"

definition hdlc_receive_look_carrier_state :: "('m, 'c, 's, 'q, 't) class1_handler" where
  "hdlc_receive_look_carrier_state env ctx io = do {
     let limit = s7_limit ctx (io_rx_count io);
     let ctx = ctx\<lparr>c1_countdown := c1_countdown ctx + 1\<rparr>;
     (ctx, io, cnt, st) \<leftarrow> run_a env ctx io;
     ctx \<leftarrow>
       (if st AND FAXVMI_RESULT_BIT_2000 \<noteq> 0 then carrier_found env ctx
        else if limit \<noteq> 0 \<and> as_unsigned (c1_countdown ctx) > as_unsigned limit \<and> c1_cng_enabled ctx = 0
        then Some (ctx\<lparr>c1_status := FAX_CLASS1_NO_CARRIER, c1_state := CLASS1_IDLE_STATE, c1_cng_enabled := 0\<rparr>)
        else Some ctx);
     (ctx, io) \<leftarrow> cng_cadence env ctx io;
     (ctx, io) \<leftarrow> abort_command ctx (io\<lparr>io_tx_count := CLASS1_BLOCK_SAMPLES\<rparr>);
     Some (ctx, io\<lparr>io_word8 := 5\<rparr>)
   }"

text \<open>The lengths of the kept records; the table on the stack has twelve places.\<close>

function emu_parse :: "u16 list \<Rightarrow> int \<Rightarrow> nat \<Rightarrow> nat list \<Rightarrow> nat list option" where
  "emu_parse sf tot idx lens =
     (if int idx < tot
      then if idx < length sf \<and> length lens < CLASS1_EMU_MAX_FRAMES
           then emu_parse sf tot (idx + unat (sf ! idx) + 1) (lens @ [unat (sf ! idx)])
           else None
      else Some lens)"
  by pat_completeness auto
termination
  by (relation "measure (\<lambda>(sf, tot, idx, lens). nat (tot - int idx))") (auto intro: order.strict_trans2 [OF _ uint_ge_0])

declare emu_parse.simps [simp del]

definition emu_send :: "('m, 'c, 't) fax_class1 \<Rightarrow> class1_io \<Rightarrow> nat list \<Rightarrow> int \<Rightarrow> (('m, 'c, 't) fax_class1 \<times> class1_io \<times> int) option" where
  "emu_send ctx io lens next_idx =
     (if next_idx \<ge> int (length lens)
      then Some (ctx\<lparr>c1_status := FAX_CLASS1_NO_CARRIER_NO_MESSAGE, c1_state := CLASS1_IDLE_STATE\<rparr>, io, next_idx)
      else do {
        let start = sum_list (map Suc (take (nat next_idx) lens));
        len \<leftarrow> rd_at (c1_superframe ctx) start;
        (w3, n) \<leftarrow> cTOOLS_handle_hdlc_output (drop (start + 1) (c1_superframe ctx)) (io_word3 io) (uint len) 1;
        Some (ctx\<lparr>c1_delayed_status := 1, c1_delayed_status_countdown := 2, c1_superframe_read_idx := c1_superframe_read_idx ctx + 1,
          c1_state := CLASS1_IDLE_STATE\<rparr>, io\<lparr>io_word3 := w3, io_word7 := int n\<rparr>, c1_superframe_read_idx ctx + 1)
      })"

definition hdlc_emulate_receive_state :: "('m, 'c, 's, 'q, 't) class1_handler" where
  "hdlc_emulate_receive_state env ctx io = do {
     lens \<leftarrow> emu_parse (c1_superframe ctx) (c1_superframe_len ctx) 0 [];
     let next_idx = c1_superframe_read_idx ctx;
     let ctx = (if c1_prev_state ctx \<noteq> CLASS1_HDLC_EMULATE_RECEIVE_STATE \<and> next_idx < int (length lens)
                then ctx\<lparr>c1_status := FAX_CLASS1_CONNECT\<rparr> else ctx);
     let old = c1_superframe_countdown ctx;
     let ctx = ctx\<lparr>c1_superframe_countdown := old - 1\<rparr>;
     (ctx, io, next_idx) \<leftarrow> (if old \<le> 0 then emu_send ctx io lens next_idx else Some (ctx, io, next_idx));
     let ctx = (if next_idx = int (length lens)
                then ctx\<lparr>c1_superframe_len := 0, c1_superframe_countdown := 2, c1_superframe_read_idx := 0\<rparr> else ctx);
     io \<leftarrow> silent_block io;
     Some (ctx, io)
   }"


subsection \<open>Receiving data\<close>

definition rx_look_carrier_state :: "('m, 'c, 's, 'q, 't) class1_handler" where
  "rx_look_carrier_state env ctx io = do {
     let limit = s7_limit ctx (io_rx_count io);
     let ctx = ctx\<lparr>c1_countdown := c1_countdown ctx + 1\<rparr>;
     (ctx, io, cnt1, st1) \<leftarrow> run_b_rx env ctx io 0;
     (ctx, io) \<leftarrow>
       (if st1 AND FAXVMI_RESULT_BIT_2000 = 0 then do {
          (ctx, io, cnt2, st2) \<leftarrow> run_a env ctx io;
          Some (if st2 AND FAXVMI_RESULT_BIT_2000 \<noteq> 0
                then (hdlc_receive_state_init ctx)\<lparr>c1_state := CLASS1_HDLC_RECEIVE_STATE, c1_status := FAX_CLASS1_OTHER_CARRIER\<rparr>
                else ctx, io)
        } else Some (ctx, io));
     let ctx = (if drop_bit 8 st1 AND 3 = 1
                then ctx\<lparr>c1_status := FAX_CLASS1_CONNECT, c1_state := CLASS1_RX_DATA_STATE\<rparr> else ctx);
     let ctx = (if limit \<noteq> 0 \<and> as_unsigned (c1_countdown ctx) > as_unsigned limit \<and> st1 AND FAXVMI_RESULT_BIT_2000 = 0
                then ctx\<lparr>c1_status := FAX_CLASS1_NO_CARRIER, c1_state := CLASS1_IDLE_STATE\<rparr> else ctx);
     (ctx, io) \<leftarrow> abort_command ctx io;
     tx \<leftarrow> put_silence (io_tx io) (io_rx_count io);
     Some (ctx, io\<lparr>io_word8 := 5, io_tx := tx, io_tx_count := io_rx_count io\<rparr>)
   }"

definition rx_data_state :: "('m, 'c, 's, 'q, 't) class1_handler" where
  "rx_data_state env ctx io = do {
     let ctx = ctx\<lparr>c1_countdown := c1_countdown ctx + 1\<rparr>;
     (ctx, io, cnt, st) \<leftarrow> run_b_rx env ctx io (of_int (io_word7 io));
     (ctx, io, n) \<leftarrow>
       (if st AND FAXVMI_RESULT_BIT_2000 \<noteq> 0 then do {
          (ctx, w3, n) \<leftarrow> handle_data_output ctx (cx_scratch ctx) (io_word3 io) (sint cnt) 0;
          Some (ctx, io\<lparr>io_word3 := w3\<rparr>, n)
        }
        else do {
          (ctx, w3, n) \<leftarrow> handle_data_output (ctx\<lparr>c1_state := CLASS1_IDLE_STATE\<rparr>) (cx_scratch ctx) (io_word3 io) (sint cnt) 1;
          let ctx = ctx\<lparr>c1_delayed_status_countdown := 2, c1_delayed_status := FAX_CLASS1_NO_CARRIER\<rparr>;
          if io_word8 io \<noteq> 0 then do {
            (w3, n) \<leftarrow> cTOOLS_handle_hdlc_output (tl (cx_scratch ctx)) w3 0 1;
            Some (ctx\<lparr>c1_state := CLASS1_IDLE_STATE, c1_status := FAX_CLASS1_OK\<rparr>, io\<lparr>io_word3 := w3\<rparr>, n)
          } else Some (ctx, io\<lparr>io_word3 := w3\<rparr>, n)
        });
     tx \<leftarrow> put_silence (io_tx io) (io_rx_count io);
     Some (ctx, io\<lparr>io_word7 := short_of (int n), io_word8 := 5, io_tx := tx, io_tx_count := io_rx_count io\<rparr>)
   }"

subsection \<open>Sending data\<close>

text \<open>The terminal's data into the transmit FIFO; the answer is the number of elements offered.\<close>

definition terminal_to_fifo :: "('m, 'c, 't) fax_class1 \<Rightarrow> class1_io \<Rightarrow> (('m, 'c, 't) fax_class1 \<times> int) option" where
  "terminal_to_fifo ctx io = do {
     (ctx, n) \<leftarrow> handle_data_input ctx (io_word4 io) (io_word8 io);
     fifo \<leftarrow> c1_tx_fifo ctx;
     (fifo, put) \<leftarrow> FIFO_write fifo (cx_scratch ctx) (of_int n);
     Some (ctx\<lparr>c1_tx_fifo := Some fifo\<rparr>, n)
   }"

text \<open>A block's worth of elements out of the FIFO into the data buffer, padded; how many were real.\<close>

definition fifo_to_block :: "('m, 'c, 't) fax_class1 \<Rightarrow> (('m, 'c, 't) fax_class1 \<times> u16) option" where
  "fifo_to_block ctx = do {
     fifo \<leftarrow> c1_tx_fifo ctx;
     (fifo, xs, n) \<leftarrow> FIFO_read fifo (of_int (c1_tx_bytes_per_block ctx));
     scratch \<leftarrow> store_all (cx_scratch ctx) 0 xs;
     Some (ctx\<lparr>c1_tx_fifo := Some fifo, cx_scratch := scratch\<rparr>, n)
   }"

definition fifo_room :: "('m, 'c, 't) fax_class1 \<Rightarrow> int option" where
  "fifo_room ctx = do { fifo \<leftarrow> c1_tx_fifo ctx; Some (uint (ff_size fifo) - uint (ff_count fifo) - 1) }"

definition tx_nulls_state :: "('m, 'c, 's, 'q, 't) class1_handler" where
  "tx_nulls_state env ctx io = do {
     let ctx = ctx\<lparr>c1_countdown := c1_countdown ctx + 1\<rparr>;
     let ctx = (if as_unsigned (c1_countdown ctx) > 250
                then ctx\<lparr>c1_state := CLASS1_IDLE_STATE, c1_status := FAX_CLASS1_ERROR_ON_HOOK\<rparr> else ctx);
     (ctx, cnt) \<leftarrow>
       (if io_word8 io > 0 then do {
          (ctx, n) \<leftarrow> terminal_to_fifo (ctx\<lparr>c1_state := CLASS1_TX_DATA_STATE\<rparr>) io;
          fifo_to_block ctx
        } else Some (ctx, of_int (io_word8 io)));
     (ctx, io, st) \<leftarrow> run_b_tx env ctx io cnt (of_int (io_tx_count io));
     room \<leftarrow> fifo_room ctx;
     Some (ctx, io\<lparr>io_word8 := room\<rparr>)
   }"

definition tx_scrambled_ones_state :: "('m, 'c, 's, 'q, 't) class1_handler" where
  "tx_scrambled_ones_state env ctx io = do {
     let ctx = ctx\<lparr>c1_cDATAtx_counter := c1_cDATAtx_counter ctx + 1\<rparr>;
     let ctx = (if c1_cDATAtx_counter ctx = 1 then ctx\<lparr>c1_status := FAX_CLASS1_CONNECT\<rparr> else ctx);
     let ctx = (if c1_tx_connect_countdown ctx > 0
                then let ctx = ctx\<lparr>c1_tx_connect_countdown := c1_tx_connect_countdown ctx - 1\<rparr>
                     in if c1_tx_connect_countdown ctx = 0 then ctx\<lparr>c1_transmit_enabled := 1\<rparr> else ctx
                else ctx);
     ctx \<leftarrow>
       (if io_word8 io > 0 then do {
          (ctx, n) \<leftarrow> terminal_to_fifo ctx io;
          fifo \<leftarrow> c1_tx_fifo ctx;
          Some (ctx\<lparr>c1_tx_fifo_ready := (if uint (ff_count fifo) \<ge> c1_tx_bytes_per_block ctx then 1 else 0)\<rparr>)
        } else Some ctx);
     scratch \<leftarrow> fill_loop 0xff (cx_scratch ctx) 0 (nat (c1_tx_bytes_per_block ctx));
     let ctx = ctx\<lparr>cx_scratch := scratch\<rparr>;
     (ctx, cnt) \<leftarrow>
       (if c1_transmit_enabled ctx \<noteq> 0 \<and> c1_tx_fifo_ready ctx \<noteq> 0
        then fifo_to_block (ctx\<lparr>c1_state := CLASS1_TX_DATA_STATE\<rparr>)
        else Some (ctx, of_int (c1_tx_bytes_per_block ctx)));
     (ctx, io, st) \<leftarrow> run_b_tx env ctx io cnt (of_int (io_tx_count io));
     let ctx = (if c1_tx_connect_latch ctx = 0 \<and> st AND FAXVMI_PROCESS_BIT_0100 \<noteq> 0
                then ctx\<lparr>c1_tx_connect_countdown := 2, c1_tx_connect_latch := 1\<rparr> else ctx);
     room \<leftarrow> fifo_room ctx;
     Some (ctx, io\<lparr>io_word8 := room\<rparr>)
   }"

definition tx_data_state :: "('m, 'c, 's, 'q, 't) class1_handler" where
  "tx_data_state env ctx io = do {
     let ctx = ctx\<lparr>c1_cDATAtx_counter := c1_cDATAtx_counter ctx + 1\<rparr>;
     ctx \<leftarrow> (if io_word8 io > 0 then do { (ctx, n) \<leftarrow> terminal_to_fifo ctx io; Some ctx } else Some ctx);
     (ctx, cnt) \<leftarrow> fifo_to_block ctx;
     (ctx, io, st) \<leftarrow> run_b_tx env ctx io cnt (of_int (io_tx_count io));
     let ctx = (if st AND FAXVMI_STATUS_UNDERRUN \<noteq> 0
                then if cx_last_in_byte ctx \<noteq> 0
                     then ctx\<lparr>c1_state := CLASS1_IDLE_STATE, c1_status := FAX_CLASS1_OK_NO_CARRIER\<rparr>
                     else ctx\<lparr>c1_state := CLASS1_TX_NULLS_STATE, c1_countdown := 0, c1_status := FAX_CLASS1_CONNECT\<rparr>
                else ctx);
     room \<leftarrow> fifo_room ctx;
     Some (ctx, io\<lparr>io_word8 := room\<rparr>)
   }"

definition tx_silence_before_scrm_ones :: "('m, 'c, 's, 'q, 't) class1_handler" where
  "tx_silence_before_scrm_ones env ctx io = do {
     let ctx = ctx\<lparr>c1_countdown := c1_countdown ctx + 20\<rparr>;
     io \<leftarrow> silent_block io;
     let ctx = (if as_unsigned (c1_countdown ctx) \<ge> uint (c1_silence_blocks ctx)
                then ctx\<lparr>c1_state := CLASS1_TX_SCRAMBLED_ONES_STATE\<rparr> else ctx);
     Some (ctx, io\<lparr>io_word8 := 0\<rparr>)
   }"

end
