(* ===== verification/Class1.thy ===== *)
theory Class1
  imports Class1Handlers
begin

unbundle bit_operations_syntax

text \<open>
  The entry points of \<^verbatim>\<open>src/fax/class1.c\<close>: construction, the AT commands, the call per
  block of 160 samples that runs the handler of the current state, the status of the active
  receiver and destruction.
\<close>

subsection \<open>Construction\<close>

definition vmi_c_config :: "('m, 'c, 's, 'q, 't) class1_env \<Rightarrow> 'c faxvmi_cfg" where
  "vmi_c_config env =
     (FAXVMI_CFG (en_modem_cfg env VMI_SLOT_V21TX 300))\<lparr>fc_mode := 2, fc_reverse := 1, fc_fifo_size := 0x60,
        fc_max_frame := 0x34, fc_frame_size := 0, fc_slot := VMI_SLOT_V21TX\<rparr>"

definition vmi_a_config :: "('m, 'c, 's, 'q, 't) class1_env \<Rightarrow> 'c faxvmi_cfg" where
  "vmi_a_config env =
     (FAXVMI_CFG (en_modem_cfg env VMI_SLOT_V21RX 300))\<lparr>fc_mode := 2, fc_reverse := 1, fc_fifo_size := 0,
        fc_max_frame := 0x60, fc_frame_size := 0x60, fc_slot := VMI_SLOT_V21RX\<rparr>"

text \<open>A fresh object is arbitrary memory, \<open>raw\<close>, with its pointers cleared and the control channel built.\<close>

definition class1_fresh :: "('m, 'c, 's, 'q, 't) class1_env \<Rightarrow> ('m, 'c, 't) fax_class1 \<Rightarrow> ('m, 'c, 't) fax_class1 option" where
  "class1_fresh env raw = do {
     (vmi_c, blocks_c) \<leftarrow> FAXVMI_create (en_pumps env) (en_memory env) None (Some (vmi_c_config env));
     (vmi_a, blocks_a) \<leftarrow> FAXVMI_create (en_pumps env) (en_memory env) None (Some (vmi_a_config env));
     Some (raw\<lparr>c1_vmi_c_cfg := Some (vmi_c_config env), c1_vmi_c := Some vmi_c,
       c1_vmi_a_cfg := Some (vmi_a_config env), c1_vmi_a := Some vmi_a, c1_modem_vmi := None, c1_vmi_b := None,
       c1_tone := None, c1_tx_fifo := None, c1_superframe_read_idx := 0, c1_superframe_len := 0\<rparr>)
   }"

definition fax_class1_create :: "('m, 'c, 's, 'q, 't) class1_env \<Rightarrow> ('m, 'c, 't) fax_class1 \<Rightarrow> ('m, 'c, 't) fax_class1 option \<Rightarrow>
    fax_class1_cfg \<Rightarrow> ('m, 'c, 't) fax_class1 option" where
  "fax_class1_create env raw existing cfg = do {
     ctx \<leftarrow> (case existing of None \<Rightarrow> class1_fresh env raw | Some ctx \<Rightarrow> Some ctx);
     let ctx = ctx\<lparr>c1_s7_timeout := cc_s7_timeout cfg, c1_f12d4 := cc_f08 cfg, c1_gain_attenuation_db := 0,
       c1_iir_state := replicate 8 0, c1_iir_enabled := (if cc_iir_enable cfg \<noteq> 0 then 1 else 0),
       c1_answer_tone_blocks := (if cc_answer_tone_ms cfg \<noteq> 0 then cc_answer_tone_ms cfg sdiv 20 else 150),
       c1_clock_frac := 0, c1_clock_sec := 0, c1_f127c := 1, cx_dle_seen := 0, c1_cng_enabled := 0,
       c1_modem_rate_code := 3, c1_delayed_status_countdown := 0\<rparr>;
     if cc_mode cfg = CLASS1_ANS_ORG_ANSWER
     then Some (ctx\<lparr>c1_state := CLASS1_ANSWER_TONE_STATE, c1_prev_state := CLASS1_ANSWER_TONE_STATE,
       c1_tone := Some (en_tone_create env 2100), c1_countdown := 0, c1_ans_org := CLASS1_ANS_ORG_ANSWER\<rparr>)
     else do {
       ctx \<leftarrow> cHDLCrx_init_from_idle env 3
         (ctx\<lparr>c1_state := CLASS1_HDLC_RECEIVE_LOOK_CARRIER_STATE, c1_prev_state := CLASS1_HDLC_RECEIVE_LOOK_CARRIER_STATE,
           c1_cng_enabled := (if cc_disable_cng cfg = 0 then 1 else 0), c1_tone := Some (en_tone_create env 1100),
           c1_countdown := 0, c1_tone_cadence_phase := 1, c1_tone_cadence_timer := 0\<rparr>);
       Some (ctx\<lparr>c1_ans_org := CLASS1_ANS_ORG_NORMAL\<rparr>)
     }
   }"

subsection \<open>Commands\<close>

definition fax_class1_command :: "('m, 'c, 's, 'q, 't) class1_env \<Rightarrow> ('m, 'c, 't) fax_class1 \<Rightarrow> int \<Rightarrow> int \<Rightarrow> int \<Rightarrow> ('m, 'c, 't) fax_class1 option" where
  "fax_class1_command env ctx cmd arg3 arg4 =
     (let ctx = (if cmd \<noteq> FAX_CLASS1_RH_COMMAND then ctx\<lparr>c1_superframe_len := 0\<rparr> else ctx)
      in if as_unsigned cmd > 5 then Some ctx
         else if cmd = FAX_CLASS1_TH_COMMAND then cHDLCtx_preamble_state_init env (ctx\<lparr>c1_modem_rate_code := arg3\<rparr>)
         else if cmd = FAX_CLASS1_TM_COMMAND then do {
           ctx \<leftarrow> (if c1_modem_vmi ctx \<noteq> None \<and> c1_vmi_b ctx \<noteq> None \<and> c1_modem_direction ctx = CLASS1_MODEM_DIR_RX
                   then delete_data_rx_modem env ctx else Some ctx);
           ctx \<leftarrow> tx_scrambled_ones_init env arg3 (ctx\<lparr>c1_modem_rate_code := arg3, c1_silence_blocks := of_int arg4\<rparr>);
           Some (ctx\<lparr>c1_modem_direction := CLASS1_MODEM_DIR_TX\<rparr>)
         }
         else if cmd = FAX_CLASS1_RM_COMMAND then do {
           ctx \<leftarrow> (if c1_modem_vmi ctx \<noteq> None \<and> c1_vmi_b ctx \<noteq> None \<and> c1_modem_direction ctx = CLASS1_MODEM_DIR_TX
                   then delete_data_tx_modem env ctx else Some ctx);
           ctx \<leftarrow> rx_look_carrier_init env arg3 (ctx\<lparr>c1_modem_rate_code := arg3\<rparr>);
           ctx \<leftarrow> cHDLCrx_init_from_idle env arg3 ctx;
           Some (ctx\<lparr>c1_modem_direction := CLASS1_MODEM_DIR_RX\<rparr>)
         }
         else if cmd = FAX_CLASS1_RH_COMMAND then do {
           ctx \<leftarrow>
             (if c1_state ctx = CLASS1_HDLC_RECEIVE_BETWEEN_BUFFERS_STATE \<and> c1_modem_rate_code ctx = arg3
              then Some ((hdlc_receive_state_init ctx)\<lparr>c1_state := CLASS1_HDLC_RECEIVE_STATE\<rparr>)
              else if c1_superframe_len ctx = 0 then cHDLCrx_init_from_idle env arg3 ctx
              else Some (ctx\<lparr>c1_state := CLASS1_HDLC_EMULATE_RECEIVE_STATE, c1_superframe_countdown := 2\<rparr>));
           Some (ctx\<lparr>c1_modem_rate_code := arg3\<rparr>)
         }
         else if cmd = FAX_CLASS1_TS_COMMAND then Some (send_silence_state_init arg3 ctx)
         else Some (recieve_silence_state_init arg3 ctx))"

subsection \<open>The block call\<close>

definition class1_state_functions :: "('m, 'c, 's, 'q, 't) class1_handler list" where
  "class1_state_functions =
     [t30_silence_before_tx_state, t30_preabmle_state, send_hdlc_buffer_state, send_hdlc_between_buffer_state,
      hdlc_receive_look_carrier_state, hdlc_receive_state, hdlc_receive_between_buffers_state,
      hdlc_emulate_receive_state, idle_state, tx_scrambled_ones_state, tx_data_state, tx_nulls_state,
      rx_look_carrier_state, rx_data_state, answer_tone_state, send_silence_state, recieve_silence_state,
      cHDLCtx_off, tx_silence_before_scrm_ones]"

definition class1_dispatch :: "('m, 'c, 's, 'q, 't) class1_handler" where
  "class1_dispatch env ctx io =
     (if c1_state ctx < 0 then None
      else do { handler \<leftarrow> rd_at class1_state_functions (nat (c1_state ctx)); handler env ctx io })"

text \<open>The count of nonzero samples among the first eighth of a block, kept until it passes a sixteenth.\<close>

definition count_input :: "int \<Rightarrow> u16 list \<Rightarrow> ('m, 'c, 't) fax_class1 \<Rightarrow> ('m, 'c, 't) fax_class1 option" where
  "count_input n rx ctx =
     (if c1_f127c ctx = 0 then Some ctx
      else if length rx < nat (n sdiv 8) then None
      else let c = c1_f127c ctx + int (length (filter (\<lambda>v. v \<noteq> 0) (take (nat (n sdiv 8)) rx)))
           in Some (ctx\<lparr>c1_f127c := (if c > n sdiv 16 then 0 else c)\<rparr>))"

definition tick_clock :: "('m, 'c, 't) fax_class1 \<Rightarrow> ('m, 'c, 't) fax_class1" where
  "tick_clock ctx =
     (let frac = c1_clock_frac ctx + 2
      in if frac > 99 then ctx\<lparr>c1_clock_sec := c1_clock_sec ctx + 1, c1_clock_frac := 0\<rparr>
         else ctx\<lparr>c1_clock_frac := frac\<rparr>)"

definition deliver_delayed :: "('m, 'c, 't) fax_class1 \<Rightarrow> ('m, 'c, 't) fax_class1" where
  "deliver_delayed ctx =
     (if c1_delayed_status_countdown ctx \<noteq> 0
      then let ctx = ctx\<lparr>c1_delayed_status_countdown := c1_delayed_status_countdown ctx - 1\<rparr>
           in if c1_delayed_status_countdown ctx = 0 then ctx\<lparr>c1_status := c1_delayed_status ctx\<rparr> else ctx
      else ctx)"

text \<open>The modulation whose quality flag a rate code points at: only the long-train V.17 codes.\<close>

definition quality_mod :: "int \<Rightarrow> int option" where
  "quality_mod code =
     (if code = 0x91 \<or> code = 0x79 \<or> code = 0x61 \<or> code = 0x49 then Some 2
      else if code = 0x60 \<or> code = 0x48 then Some 1
      else if code = 0x30 \<or> code = 0x18 then Some 0
      else None)"

definition check_quality :: "('m, 'c, 's, 'q, 't) class1_env \<Rightarrow> ('m, 'c, 't) fax_class1 \<Rightarrow> ('m, 'c, 't) fax_class1 option" where
  "check_quality env ctx =
     (if c1_status ctx \<noteq> FAX_CLASS1_NO_MESSAGE then Some ctx
      else case quality_mod (c1_modem_rate_code ctx) of
        None \<Rightarrow> Some ctx
      | Some modu \<Rightarrow>
          if c1_modem_direction ctx = CLASS1_MODEM_DIR_RX then do {
            vmi \<leftarrow> c1_vmi_b ctx;
            modem \<leftarrow> lk_modem (vm_link vmi);
            let (flag, modem) = en_quality env modu modem;
            let ctx = ctx\<lparr>c1_vmi_b := Some (vmi\<lparr>vm_link := (vm_link vmi)\<lparr>lk_modem := Some modem\<rparr>\<rparr>)\<rparr>;
            Some (if flag then ctx\<lparr>c1_status := FAX_CLASS1_ACCEPT_RATE\<rparr> else ctx)
          } else Some ctx)"

definition fax_class1_progress :: "('m, 'c, 's, 'q, 't) class1_env \<Rightarrow> ('m, 'c, 't) fax_class1 \<Rightarrow> class1_io \<Rightarrow>
    (('m, 'c, 't) fax_class1 \<times> class1_io \<times> int) option" where
  "fax_class1_progress env ctx io = do {
     let n = io_rx_count io;
     ctx \<leftarrow> count_input n (io_rx io) ctx;
     let ctx = (tick_clock ctx)\<lparr>c1_status := FAX_CLASS1_NO_MESSAGE\<rparr>;
     let (rx, iir) = (if c1_iir_enabled ctx \<noteq> 0 then en_iir env (io_rx io) (c1_iir_state ctx) (of_int n)
                      else (io_rx io, c1_iir_state ctx));
     (ctx, io) \<leftarrow> class1_dispatch env (ctx\<lparr>c1_iir_state := iir\<rparr>) (io\<lparr>io_word7 := 0, io_rx := rx\<rparr>);
     let ctx = deliver_delayed (ctx\<lparr>c1_prev_state := c1_state ctx\<rparr>);
     ctx \<leftarrow> check_quality env ctx;
     Some (ctx, io\<lparr>io_rx_count := n\<rparr>, c1_status ctx)
   }"

definition fax_class1_status :: "('m, 'c, 's, 'q, 't) class1_env \<Rightarrow> ('m, 'c, 't) fax_class1 \<Rightarrow> 's option \<Rightarrow>
    (('m, 'c, 't) fax_class1 \<times> 's option \<times> int) option" where
  "fax_class1_status env ctx modem_status =
     (let st = FAXVMI_STS\<lparr>st_modem_status := modem_status\<rparr>
      in if c1_state ctx \<in> {CLASS1_HDLC_RECEIVE_LOOK_CARRIER_STATE, CLASS1_HDLC_RECEIVE_STATE,
              CLASS1_HDLC_RECEIVE_BETWEEN_BUFFERS_STATE}
         then do {
           vmi \<leftarrow> c1_vmi_a ctx;
           (vmi, st, ret) \<leftarrow> FAXVMI_status (en_pumps env) vmi (Some st);
           st \<leftarrow> st;
           Some (ctx\<lparr>c1_vmi_a := Some vmi\<rparr>, st_modem_status st, 1)
         }
         else if c1_state ctx \<in> {CLASS1_RX_LOOK_CARRIER, CLASS1_RX_DATA_STATE}
         then do {
           vmi \<leftarrow> c1_vmi_b ctx;
           (vmi, st, ret) \<leftarrow> FAXVMI_status (en_pumps env) vmi (Some st);
           st \<leftarrow> st;
           Some (ctx\<lparr>c1_vmi_b := Some vmi\<rparr>, st_modem_status st, 1)
         }
         else Some (ctx, modem_status, 0))"


subsection \<open>Destruction\<close>

text \<open>The heap blocks of a session, the parts of each modem interface under the pointer that owns it.\<close>

datatype class1_block =
  V21tx_Cfg | Vmi_C_Cfg | Vmi_C_Part vmi_block | V21rx_Cfg | Vmi_A_Cfg | Vmi_A_Part vmi_block
  | Ratesave | Coefsave1 | Coefsave0 | Modem_Cfg | Modem_Vmi | Vmi_B_Part vmi_block
  | Tx_Fifo | Tone_Block | Session

definition rx_modem_frees :: "'c faxvmi_cfg \<Rightarrow> class1_block list" where
  "rx_modem_frees cfg =
     (if fc_slot cfg = VMI_SLOT_V17RX then [Ratesave, Coefsave1, Coefsave0] else []) @ [Modem_Cfg, Modem_Vmi]"

definition vmi_frees :: "('m, 'c, 's, 'q, 't) class1_env \<Rightarrow> (vmi_block \<Rightarrow> class1_block) \<Rightarrow> ('m, 'c) faxvmi option \<Rightarrow> class1_block list option" where
  "vmi_frees env part handle =
     (case handle of None \<Rightarrow> Some []
      | Some vmi \<Rightarrow> do { (lk, bs) \<leftarrow> FAXVMI_delete (en_pumps env) vmi; Some (map part bs) })"

definition modem_frees :: "('m, 'c, 's, 'q, 't) class1_env \<Rightarrow> ('m, 'c, 't) fax_class1 \<Rightarrow>
    (('m, 'c, 't) fax_class1 \<times> class1_block list) option" where
  "modem_frees env ctx =
     (case c1_modem_vmi ctx of None \<Rightarrow> Some (ctx, [])
      | Some cfg \<Rightarrow>
          if c1_vmi_b ctx = None then Some (ctx, [])
          else do {
            parts \<leftarrow> vmi_frees env Vmi_B_Part (c1_vmi_b ctx);
            if c1_modem_direction ctx = CLASS1_MODEM_DIR_RX then do {
              ctx' \<leftarrow> delete_data_rx_modem env ctx;
              Some (ctx', rx_modem_frees cfg @ parts)
            } else do {
              ctx' \<leftarrow> delete_data_tx_modem env ctx;
              Some (ctx', [Modem_Cfg, Modem_Vmi] @ parts @ (if c1_tx_fifo ctx \<noteq> None then [Tx_Fifo] else []))
            }
          })"

text \<open>What \<^verbatim>\<open>fax_class1_delete\<close> frees, in order.\<close>

definition fax_class1_delete :: "('m, 'c, 's, 'q, 't) class1_env \<Rightarrow> ('m, 'c, 't) fax_class1 \<Rightarrow> class1_block list option" where
  "fax_class1_delete env ctx = do {
     let c_cfg = (if c1_vmi_c_cfg ctx \<noteq> None then [V21tx_Cfg, Vmi_C_Cfg] else []);
     c_parts \<leftarrow> vmi_frees env Vmi_C_Part (c1_vmi_c ctx);
     let a_cfg = (if c1_vmi_a_cfg ctx \<noteq> None then [V21rx_Cfg, Vmi_A_Cfg] else []);
     a_parts \<leftarrow> vmi_frees env Vmi_A_Part (c1_vmi_a ctx);
     (ctx, modem) \<leftarrow> modem_frees env ctx;
     let fifo = (if c1_tx_fifo ctx \<noteq> None then [Tx_Fifo] else []);
     let tone = (if c1_tone ctx \<noteq> None then [Tone_Block] else []);
     Some (c_cfg @ c_parts @ a_cfg @ a_parts @ modem @ fifo @ tone @ [Session])
   }"

end
