(* ===== verification/Class1Inv.thy ===== *)
theory Class1Inv
  imports Class1
begin

unbundle bit_operations_syntax

text \<open>
  What every session keeps to: its state indexes the handler table, a pending status is a known
  one, the frames kept for replay form a sequence of records, and the pointers the handlers use
  without a check are set. Each handler keeps it, and with them the commands and the block call.
\<close>

subsection \<open>Kept frames\<close>

definition superframe_records :: "u16 list list \<Rightarrow> u16 list" where
  "superframe_records frames = concat (map (\<lambda>f. of_nat (length f) # f) frames)"

definition superframe_holds :: "('m, 'c, 't) fax_class1 \<Rightarrow> u16 list list \<Rightarrow> bool" where
  "superframe_holds ctx frames \<longleftrightarrow>
     length (c1_superframe ctx) = 256 \<and> length (superframe_records frames) \<le> 255 \<and>
     c1_superframe_len ctx = int (length (superframe_records frames)) \<and>
     take (length (superframe_records frames)) (c1_superframe ctx) = superframe_records frames"

lemma superframe_records_simps [simp]:
  "superframe_records [] = []"
  "superframe_records (f # fs) = of_nat (length f) # f @ superframe_records fs"
  "superframe_records (fs @ gs) = superframe_records fs @ superframe_records gs"
  by (simp_all add: superframe_records_def)

lemma superframe_holds_Nil: "superframe_holds ctx [] \<longleftrightarrow> length (c1_superframe ctx) = 256 \<and> c1_superframe_len ctx = 0"
  by (simp add: superframe_holds_def)

lemma copy_elements_eq:
  assumes "copy_elements dst d src i n = Some dst'"
  shows "dst' = overlay dst d (take n (drop i src)) \<and> (n = 0 \<or> i + n \<le> length src \<and> d + n \<le> length dst)"
  using assms
proof (induction n arbitrary: dst d i)
  case (Suc n)
  then have i: "i < length src" and d: "d < length dst"
    and r: "copy_elements (dst[d := src ! i]) (d + 1) src (i + 1) n = Some dst'"
    by (auto simp: bind_eq_Some_conv rd_at_Some_iff wr_at_Some_iff)
  from Suc.IH [OF r] i d show ?case
    using overlay_Cons [of d dst "src ! i" "take n (drop (Suc i) src)"]
    by (auto simp: Cons_nth_drop_Suc [symmetric])
qed simp

text \<open>A frame received in command mode is appended if it fits and dropped otherwise.\<close>

lemma superframe_put_holds:
  assumes "superframe_put ctx = Some ctx'" and "superframe_holds ctx frames"
  shows "\<exists>len sf. ctx' = ctx\<lparr>c1_superframe := sf, c1_superframe_len := len\<rparr> \<and>
           (superframe_holds ctx' (frames @ [take (unat (cx_scratch ctx ! 0)) (tl (cx_scratch ctx))]) \<or>
            ctx' = ctx)"
proof -
  let ?len = "cx_scratch ctx ! 0" and ?d = "length (superframe_records frames)"
  have h: "length (c1_superframe ctx) = 256" "c1_superframe_len ctx = int ?d"
    "take ?d (c1_superframe ctx) = superframe_records frames" "?d \<le> 255"
    using assms(2) by (simp_all add: superframe_holds_def)
  have s0: "0 < length (cx_scratch ctx)" using assms(1)
    by (auto simp: superframe_put_def bind_eq_Some_conv rd_at_Some_iff)
  show ?thesis
  proof (cases "int ?d + uint ?len + 1 > 0xff")
    case True
    then have "ctx' = ctx" using assms(1) s0 h(2) by (simp add: superframe_put_def mem_simps)
    then show ?thesis by (intro exI [of _ "c1_superframe_len ctx"] exI [of _ "c1_superframe ctx"]) simp
  next
    case False
    then have fit: "?d + unat ?len + 1 \<le> 255"
      by (metis int_plus nat_int_comparison(3) not_less of_nat_1 of_nat_numeral uint_nat)
    obtain sf where sf: "copy_elements ((c1_superframe ctx)[?d := ?len]) (?d + 1) (cx_scratch ctx) 1 (unat ?len) = Some sf"
      and ctx': "ctx' = ctx\<lparr>c1_superframe := sf, c1_superframe_len := int ?d + uint ?len + 1\<rparr>"
      using assms(1) s0 h False by (auto simp: superframe_put_def mem_simps bind_eq_Some_conv Let_def)
    let ?f = "take (unat ?len) (tl (cx_scratch ctx))"
    have f: "length ?f = unat ?len" and cp: "sf = overlay ((c1_superframe ctx)[?d := ?len]) (?d + 1) ?f"
      using copy_elements_eq [OF sf] by (auto simp: drop_Suc)
    have "sf = overlay (c1_superframe ctx) ?d (?len # ?f)"
      using cp overlay_Cons [of ?d "c1_superframe ctx" ?len ?f] h(1) fit by simp
    then have "take (?d + length (?len # ?f)) sf = superframe_records frames @ ?len # ?f" "length sf = 256"
      using h fit f take_overlay [of ?d "?len # ?f" "c1_superframe ctx"] by simp_all
    moreover have "of_nat (length ?f) = ?len" unfolding f by simp
    ultimately have "superframe_holds ctx' (frames @ [?f])"
      using fit f h(2) ctx' by (auto simp: superframe_holds_def)
    then show ?thesis using ctx' by blast
  qed
qed


subsection \<open>The invariant\<close>

definition class1_ok :: "('m, 'c, 't) fax_class1 \<Rightarrow> bool" where
  "class1_ok ctx \<longleftrightarrow>
     0 \<le> c1_state ctx \<and> c1_state ctx < CLASS1_MAX_STATES \<and>
     0 \<le> c1_delayed_status_countdown ctx \<and> c1_delayed_status_countdown ctx \<le> 2 \<and>
     (c1_delayed_status_countdown ctx \<noteq> 0 \<longrightarrow>
        c1_delayed_status ctx \<in> {FAX_CLASS1_OK, FAX_CLASS1_ERROR, FAX_CLASS1_NO_CARRIER}) \<and>
     (\<exists>frames. superframe_holds ctx frames) \<and>
     c1_vmi_a ctx \<noteq> None \<and> c1_vmi_c ctx \<noteq> None \<and> c1_tone ctx \<noteq> None \<and>
     (c1_modem_vmi ctx = None \<longleftrightarrow> c1_vmi_b ctx = None)"

definition status_known :: "('m, 'c, 't) fax_class1 \<Rightarrow> bool" where
  "status_known ctx \<longleftrightarrow> c1_status ctx \<in> {FAX_CLASS1_NO_MESSAGE..FAX_CLASS1_ACCEPT_RATE}"

text \<open>What holds of an operation's result if it gives one.\<close>

definition opt_all :: "('a \<Rightarrow> bool) \<Rightarrow> 'a option \<Rightarrow> bool" where
  "opt_all P x \<longleftrightarrow> (\<forall>y. x = Some y \<longrightarrow> P y)"

definition good :: "('m, 'c, 't) fax_class1 \<Rightarrow> bool" where
  "good ctx \<longleftrightarrow> class1_ok ctx \<and> status_known ctx"

definition handler_keeps :: "('m, 'c, 's, 'q, 't) class1_handler \<Rightarrow> bool" where
  "handler_keeps h \<longleftrightarrow> (\<forall>env ctx io. good ctx \<longrightarrow> opt_all (\<lambda>(ctx', io'). good ctx') (h env ctx io))"

text \<open>What the invariant does not look at.\<close>

lemma ok_update [simp]:
  "class1_ok (ctx\<lparr>cx_scratch := v0\<rparr>) \<longleftrightarrow> class1_ok ctx"
  "class1_ok (ctx\<lparr>cx_frame_end_latch := v1\<rparr>) \<longleftrightarrow> class1_ok ctx"
  "class1_ok (ctx\<lparr>cx_last_in_byte := v2\<rparr>) \<longleftrightarrow> class1_ok ctx"
  "class1_ok (ctx\<lparr>cx_dle_seen := v3\<rparr>) \<longleftrightarrow> class1_ok ctx"
  "class1_ok (ctx\<lparr>cx_hdlc_write_cursor := v4\<rparr>) \<longleftrightarrow> class1_ok ctx"
  "class1_ok (ctx\<lparr>cx_async_locked := v5\<rparr>) \<longleftrightarrow> class1_ok ctx"
  "class1_ok (ctx\<lparr>cx_async_window := v6\<rparr>) \<longleftrightarrow> class1_ok ctx"
  "class1_ok (ctx\<lparr>cx_async_shift := v7\<rparr>) \<longleftrightarrow> class1_ok ctx"
  "class1_ok (ctx\<lparr>cx_async_mask := v8\<rparr>) \<longleftrightarrow> class1_ok ctx"
  "class1_ok (ctx\<lparr>cx_data_input_closed := v9\<rparr>) \<longleftrightarrow> class1_ok ctx"
  "class1_ok (ctx\<lparr>c1_vmi_c_cfg := v10\<rparr>) \<longleftrightarrow> class1_ok ctx"
  "class1_ok (ctx\<lparr>c1_vmi_a_cfg := v11\<rparr>) \<longleftrightarrow> class1_ok ctx"
  "class1_ok (ctx\<lparr>c1_ans_org := v12\<rparr>) \<longleftrightarrow> class1_ok ctx"
  "class1_ok (ctx\<lparr>c1_prev_state := v13\<rparr>) \<longleftrightarrow> class1_ok ctx"
  "class1_ok (ctx\<lparr>c1_countdown := v14\<rparr>) \<longleftrightarrow> class1_ok ctx"
  "class1_ok (ctx\<lparr>c1_status := v15\<rparr>) \<longleftrightarrow> class1_ok ctx"
  "class1_ok (ctx\<lparr>c1_f1230 := v16\<rparr>) \<longleftrightarrow> class1_ok ctx"
  "class1_ok (ctx\<lparr>c1_f1234 := v17\<rparr>) \<longleftrightarrow> class1_ok ctx"
  "class1_ok (ctx\<lparr>c1_modem_direction := v18\<rparr>) \<longleftrightarrow> class1_ok ctx"
  "class1_ok (ctx\<lparr>c1_current_mod := v19\<rparr>) \<longleftrightarrow> class1_ok ctx"
  "class1_ok (ctx\<lparr>c1_modem_rate_code := v20\<rparr>) \<longleftrightarrow> class1_ok ctx"
  "class1_ok (ctx\<lparr>c1_tone_cadence_phase := v21\<rparr>) \<longleftrightarrow> class1_ok ctx"
  "class1_ok (ctx\<lparr>c1_tone_cadence_timer := v22\<rparr>) \<longleftrightarrow> class1_ok ctx"
  "class1_ok (ctx\<lparr>c1_cng_enabled := v23\<rparr>) \<longleftrightarrow> class1_ok ctx"
  "class1_ok (ctx\<lparr>c1_answer_tone_blocks := v24\<rparr>) \<longleftrightarrow> class1_ok ctx"
  "class1_ok (ctx\<lparr>c1_tx_rate := v25\<rparr>) \<longleftrightarrow> class1_ok ctx"
  "class1_ok (ctx\<lparr>c1_tx_connect_countdown := v26\<rparr>) \<longleftrightarrow> class1_ok ctx"
  "class1_ok (ctx\<lparr>c1_clock_sec := v27\<rparr>) \<longleftrightarrow> class1_ok ctx"
  "class1_ok (ctx\<lparr>c1_clock_frac := v28\<rparr>) \<longleftrightarrow> class1_ok ctx"
  "class1_ok (ctx\<lparr>c1_f127c := v29\<rparr>) \<longleftrightarrow> class1_ok ctx"
  "class1_ok (ctx\<lparr>c1_hdlc_frame_done := v30\<rparr>) \<longleftrightarrow> class1_ok ctx"
  "class1_ok (ctx\<lparr>c1_buffers_sent := v31\<rparr>) \<longleftrightarrow> class1_ok ctx"
  "class1_ok (ctx\<lparr>c1_tx_fifo := v32\<rparr>) \<longleftrightarrow> class1_ok ctx"
  "class1_ok (ctx\<lparr>c1_transmit_enabled := v33\<rparr>) \<longleftrightarrow> class1_ok ctx"
  "class1_ok (ctx\<lparr>c1_tx_bytes_per_block := v34\<rparr>) \<longleftrightarrow> class1_ok ctx"
  "class1_ok (ctx\<lparr>c1_tx_connect_latch := v35\<rparr>) \<longleftrightarrow> class1_ok ctx"
  "class1_ok (ctx\<lparr>c1_tx_fifo_ready := v36\<rparr>) \<longleftrightarrow> class1_ok ctx"
  "class1_ok (ctx\<lparr>c1_s7_timeout := v37\<rparr>) \<longleftrightarrow> class1_ok ctx"
  "class1_ok (ctx\<lparr>c1_silence_blocks := v38\<rparr>) \<longleftrightarrow> class1_ok ctx"
  "class1_ok (ctx\<lparr>c1_energy := v39\<rparr>) \<longleftrightarrow> class1_ok ctx"
  "class1_ok (ctx\<lparr>c1_rx_agc_mult := v40\<rparr>) \<longleftrightarrow> class1_ok ctx"
  "class1_ok (ctx\<lparr>c1_rx_agc_shift := v41\<rparr>) \<longleftrightarrow> class1_ok ctx"
  "class1_ok (ctx\<lparr>c1_superframe_countdown := v42\<rparr>) \<longleftrightarrow> class1_ok ctx"
  "class1_ok (ctx\<lparr>c1_superframe_read_idx := v43\<rparr>) \<longleftrightarrow> class1_ok ctx"
  "class1_ok (ctx\<lparr>c1_f12d4 := v44\<rparr>) \<longleftrightarrow> class1_ok ctx"
  "class1_ok (ctx\<lparr>c1_gain_attenuation_db := v45\<rparr>) \<longleftrightarrow> class1_ok ctx"
  "class1_ok (ctx\<lparr>c1_iir_state := v46\<rparr>) \<longleftrightarrow> class1_ok ctx"
  "class1_ok (ctx\<lparr>c1_iir_enabled := v47\<rparr>) \<longleftrightarrow> class1_ok ctx"
  "class1_ok (ctx\<lparr>c1_cDATAtx_counter := v48\<rparr>) \<longleftrightarrow> class1_ok ctx"
  by (simp_all add: class1_ok_def superframe_holds_def)

lemma known_update [simp]:
  "status_known (ctx\<lparr>cx_scratch := v0\<rparr>) \<longleftrightarrow> status_known ctx"
  "status_known (ctx\<lparr>cx_frame_end_latch := v1\<rparr>) \<longleftrightarrow> status_known ctx"
  "status_known (ctx\<lparr>cx_last_in_byte := v2\<rparr>) \<longleftrightarrow> status_known ctx"
  "status_known (ctx\<lparr>cx_dle_seen := v3\<rparr>) \<longleftrightarrow> status_known ctx"
  "status_known (ctx\<lparr>cx_hdlc_write_cursor := v4\<rparr>) \<longleftrightarrow> status_known ctx"
  "status_known (ctx\<lparr>cx_async_locked := v5\<rparr>) \<longleftrightarrow> status_known ctx"
  "status_known (ctx\<lparr>cx_async_window := v6\<rparr>) \<longleftrightarrow> status_known ctx"
  "status_known (ctx\<lparr>cx_async_shift := v7\<rparr>) \<longleftrightarrow> status_known ctx"
  "status_known (ctx\<lparr>cx_async_mask := v8\<rparr>) \<longleftrightarrow> status_known ctx"
  "status_known (ctx\<lparr>cx_data_input_closed := v9\<rparr>) \<longleftrightarrow> status_known ctx"
  "status_known (ctx\<lparr>c1_superframe := v10\<rparr>) \<longleftrightarrow> status_known ctx"
  "status_known (ctx\<lparr>c1_vmi_c := v11\<rparr>) \<longleftrightarrow> status_known ctx"
  "status_known (ctx\<lparr>c1_vmi_a := v12\<rparr>) \<longleftrightarrow> status_known ctx"
  "status_known (ctx\<lparr>c1_vmi_b := v13\<rparr>) \<longleftrightarrow> status_known ctx"
  "status_known (ctx\<lparr>c1_vmi_c_cfg := v14\<rparr>) \<longleftrightarrow> status_known ctx"
  "status_known (ctx\<lparr>c1_vmi_a_cfg := v15\<rparr>) \<longleftrightarrow> status_known ctx"
  "status_known (ctx\<lparr>c1_modem_vmi := v16\<rparr>) \<longleftrightarrow> status_known ctx"
  "status_known (ctx\<lparr>c1_ans_org := v17\<rparr>) \<longleftrightarrow> status_known ctx"
  "status_known (ctx\<lparr>c1_state := v18\<rparr>) \<longleftrightarrow> status_known ctx"
  "status_known (ctx\<lparr>c1_prev_state := v19\<rparr>) \<longleftrightarrow> status_known ctx"
  "status_known (ctx\<lparr>c1_countdown := v20\<rparr>) \<longleftrightarrow> status_known ctx"
  "status_known (ctx\<lparr>c1_f1230 := v21\<rparr>) \<longleftrightarrow> status_known ctx"
  "status_known (ctx\<lparr>c1_f1234 := v22\<rparr>) \<longleftrightarrow> status_known ctx"
  "status_known (ctx\<lparr>c1_delayed_status := v23\<rparr>) \<longleftrightarrow> status_known ctx"
  "status_known (ctx\<lparr>c1_delayed_status_countdown := v24\<rparr>) \<longleftrightarrow> status_known ctx"
  "status_known (ctx\<lparr>c1_modem_direction := v25\<rparr>) \<longleftrightarrow> status_known ctx"
  "status_known (ctx\<lparr>c1_current_mod := v26\<rparr>) \<longleftrightarrow> status_known ctx"
  "status_known (ctx\<lparr>c1_modem_rate_code := v27\<rparr>) \<longleftrightarrow> status_known ctx"
  "status_known (ctx\<lparr>c1_tone := v28\<rparr>) \<longleftrightarrow> status_known ctx"
  "status_known (ctx\<lparr>c1_tone_cadence_phase := v29\<rparr>) \<longleftrightarrow> status_known ctx"
  "status_known (ctx\<lparr>c1_tone_cadence_timer := v30\<rparr>) \<longleftrightarrow> status_known ctx"
  "status_known (ctx\<lparr>c1_cng_enabled := v31\<rparr>) \<longleftrightarrow> status_known ctx"
  "status_known (ctx\<lparr>c1_answer_tone_blocks := v32\<rparr>) \<longleftrightarrow> status_known ctx"
  "status_known (ctx\<lparr>c1_tx_rate := v33\<rparr>) \<longleftrightarrow> status_known ctx"
  "status_known (ctx\<lparr>c1_tx_connect_countdown := v34\<rparr>) \<longleftrightarrow> status_known ctx"
  "status_known (ctx\<lparr>c1_clock_sec := v35\<rparr>) \<longleftrightarrow> status_known ctx"
  "status_known (ctx\<lparr>c1_clock_frac := v36\<rparr>) \<longleftrightarrow> status_known ctx"
  "status_known (ctx\<lparr>c1_f127c := v37\<rparr>) \<longleftrightarrow> status_known ctx"
  "status_known (ctx\<lparr>c1_hdlc_frame_done := v38\<rparr>) \<longleftrightarrow> status_known ctx"
  "status_known (ctx\<lparr>c1_buffers_sent := v39\<rparr>) \<longleftrightarrow> status_known ctx"
  "status_known (ctx\<lparr>c1_tx_fifo := v40\<rparr>) \<longleftrightarrow> status_known ctx"
  "status_known (ctx\<lparr>c1_transmit_enabled := v41\<rparr>) \<longleftrightarrow> status_known ctx"
  "status_known (ctx\<lparr>c1_tx_bytes_per_block := v42\<rparr>) \<longleftrightarrow> status_known ctx"
  "status_known (ctx\<lparr>c1_tx_connect_latch := v43\<rparr>) \<longleftrightarrow> status_known ctx"
  "status_known (ctx\<lparr>c1_tx_fifo_ready := v44\<rparr>) \<longleftrightarrow> status_known ctx"
  "status_known (ctx\<lparr>c1_s7_timeout := v45\<rparr>) \<longleftrightarrow> status_known ctx"
  "status_known (ctx\<lparr>c1_silence_blocks := v46\<rparr>) \<longleftrightarrow> status_known ctx"
  "status_known (ctx\<lparr>c1_energy := v47\<rparr>) \<longleftrightarrow> status_known ctx"
  "status_known (ctx\<lparr>c1_rx_agc_mult := v48\<rparr>) \<longleftrightarrow> status_known ctx"
  "status_known (ctx\<lparr>c1_rx_agc_shift := v49\<rparr>) \<longleftrightarrow> status_known ctx"
  "status_known (ctx\<lparr>c1_superframe_countdown := v50\<rparr>) \<longleftrightarrow> status_known ctx"
  "status_known (ctx\<lparr>c1_superframe_read_idx := v51\<rparr>) \<longleftrightarrow> status_known ctx"
  "status_known (ctx\<lparr>c1_superframe_len := v52\<rparr>) \<longleftrightarrow> status_known ctx"
  "status_known (ctx\<lparr>c1_f12d4 := v53\<rparr>) \<longleftrightarrow> status_known ctx"
  "status_known (ctx\<lparr>c1_gain_attenuation_db := v54\<rparr>) \<longleftrightarrow> status_known ctx"
  "status_known (ctx\<lparr>c1_iir_state := v55\<rparr>) \<longleftrightarrow> status_known ctx"
  "status_known (ctx\<lparr>c1_iir_enabled := v56\<rparr>) \<longleftrightarrow> status_known ctx"
  "status_known (ctx\<lparr>c1_cDATAtx_counter := v57\<rparr>) \<longleftrightarrow> status_known ctx"
  by (simp_all add: status_known_def)

lemma known_set [simp]: "status_known (ctx\<lparr>c1_status := s\<rparr>) \<longleftrightarrow> s \<in> {FAX_CLASS1_NO_MESSAGE..FAX_CLASS1_ACCEPT_RATE}"
  by (simp add: status_known_def)

lemma ok_set:
  "class1_ok ctx \<Longrightarrow> class1_ok (ctx\<lparr>c1_state := s\<rparr>) \<longleftrightarrow> 0 \<le> s \<and> s < CLASS1_MAX_STATES"
  "class1_ok ctx \<Longrightarrow> class1_ok (ctx\<lparr>c1_vmi_a := Some v\<rparr>)"
  "class1_ok ctx \<Longrightarrow> class1_ok (ctx\<lparr>c1_vmi_c := Some v\<rparr>)"
  "class1_ok ctx \<Longrightarrow> class1_ok (ctx\<lparr>c1_tone := Some t\<rparr>)"
  "class1_ok ctx \<Longrightarrow> c1_vmi_b ctx \<noteq> None \<Longrightarrow> class1_ok (ctx\<lparr>c1_vmi_b := Some v\<rparr>)"
  "class1_ok ctx \<Longrightarrow> class1_ok (ctx\<lparr>c1_superframe_len := 0\<rparr>)"
  "class1_ok ctx \<Longrightarrow> class1_ok (ctx\<lparr>c1_delayed_status_countdown := 0\<rparr>)"
  "class1_ok ctx \<Longrightarrow> class1_ok (ctx\<lparr>c1_modem_vmi := Some cfg, c1_vmi_b := Some v\<rparr>)"
  "class1_ok ctx \<Longrightarrow> class1_ok (ctx\<lparr>c1_modem_vmi := None, c1_vmi_b := None\<rparr>)"
  "class1_ok ctx \<Longrightarrow> d \<in> {FAX_CLASS1_OK, FAX_CLASS1_ERROR, FAX_CLASS1_NO_CARRIER} \<Longrightarrow>
     class1_ok (ctx\<lparr>c1_delayed_status_countdown := 2, c1_delayed_status := d\<rparr>)"
  "class1_ok ctx \<Longrightarrow> d \<in> {FAX_CLASS1_OK, FAX_CLASS1_ERROR, FAX_CLASS1_NO_CARRIER} \<Longrightarrow>
     class1_ok (ctx\<lparr>c1_delayed_status := d, c1_delayed_status_countdown := 2\<rparr>)"
  by (auto simp: class1_ok_def superframe_holds_def intro!: exI [of _ "[]"])

text \<open>The invariant does not look at the part of the object the data-mode tools change.\<close>

lemma more_ok:
  assumes "class1_line.more (ctx' :: ('m, 'c, 't) fax_class1) = class1_line.more ctx"
  shows "class1_ok ctx' \<longleftrightarrow> class1_ok ctx" "status_known ctx' \<longleftrightarrow> status_known ctx" "c1_vmi_b ctx' = c1_vmi_b ctx"
    "c1_tx_fifo ctx' = c1_tx_fifo ctx" "c1_tx_bytes_per_block ctx' = c1_tx_bytes_per_block ctx"
proof -
  have eq: "ctx' = ctx\<lparr>cx_scratch := cx_scratch ctx', cx_frame_end_latch := cx_frame_end_latch ctx',
      cx_last_in_byte := cx_last_in_byte ctx', cx_dle_seen := cx_dle_seen ctx',
      cx_hdlc_write_cursor := cx_hdlc_write_cursor ctx', cx_async_locked := cx_async_locked ctx',
      cx_async_window := cx_async_window ctx', cx_async_shift := cx_async_shift ctx',
      cx_async_mask := cx_async_mask ctx', cx_data_input_closed := cx_data_input_closed ctx'\<rparr>" (is "_ = ?u")
    using assms by (intro class1_line.equality) simp_all
  have u: "class1_ok ?u \<longleftrightarrow> class1_ok ctx" "status_known ?u \<longleftrightarrow> status_known ctx" "c1_vmi_b ?u = c1_vmi_b ctx"
    "c1_tx_fifo ?u = c1_tx_fifo ctx" "c1_tx_bytes_per_block ?u = c1_tx_bytes_per_block ctx"
    by simp_all
  show "class1_ok ctx' \<longleftrightarrow> class1_ok ctx" by (rule trans [OF arg_cong [OF eq, of class1_ok] u(1)])
  show "status_known ctx' \<longleftrightarrow> status_known ctx" by (rule trans [OF arg_cong [OF eq, of status_known] u(2)])
  show "c1_vmi_b ctx' = c1_vmi_b ctx" by (rule trans [OF arg_cong [OF eq, of c1_vmi_b] u(3)])
  show "c1_tx_fifo ctx' = c1_tx_fifo ctx" by (rule trans [OF arg_cong [OF eq, of c1_tx_fifo] u(4)])
  show "c1_tx_bytes_per_block ctx' = c1_tx_bytes_per_block ctx"
    by (rule trans [OF arg_cong [OF eq, of c1_tx_bytes_per_block] u(5)])
qed

lemma put_scratch_more: "put_scratch i v ctx = Some ctx' \<Longrightarrow> class1_line.more ctx' = class1_line.more ctx"
  by (auto simp: put_scratch_def bind_eq_Some_conv split: if_splits)

lemma latch_more: "latch_frame_end ctx = Some ctx' \<Longrightarrow> class1_line.more ctx' = class1_line.more ctx"
  by (auto simp: latch_frame_end_def bind_eq_Some_conv)

lemma etx_pad_more: "etx_pad ctx out k = Some (ctx', n) \<Longrightarrow> class1_line.more ctx' = class1_line.more ctx"
proof (induction k arbitrary: ctx out)
  case (Suc k)
  show ?case
  proof (cases "out > CLASS1_ETX_PAD_LIMIT")
    case False
    with Suc.prems obtain ctx1 where "put_scratch (int out) 0 ctx = Some ctx1" "etx_pad ctx1 (out + 1) k = Some (ctx', n)"
      by (auto simp: bind_eq_Some_conv)
    then show ?thesis using Suc.IH put_scratch_more by metis
  qed (use Suc in simp)
qed simp

lemma data_input_loop_more:
  "data_input_loop ctx src out = Some (ctx', n) \<Longrightarrow> class1_line.more ctx' = class1_line.more ctx"
proof (induction src arbitrary: ctx out)
  case (Cons b src)
  let ?c = "if cx_dle_seen ctx \<noteq> 0 then ctx\<lparr>cx_dle_seen := 0\<rparr> else ctx"
  from Cons.prems consider ctx1 v where "put_scratch (int out) v ?c = Some ctx1" "data_input_loop ctx1 src (out + 1) = Some (ctx', n)"
    | "etx_pad (?c\<lparr>cx_data_input_closed := 1\<rparr>) out CLASS1_ETX_PAD_ELEMENTS = Some (ctx', n)"
    | "data_input_loop ?c src out = Some (ctx', n)" | "data_input_loop (?c\<lparr>cx_dle_seen := 1\<rparr>) src out = Some (ctx', n)"
    by (auto simp: bind_eq_Some_conv Let_def split: if_splits)
  then show ?case
  proof cases
    case 1
    then show ?thesis using Cons.IH put_scratch_more by fastforce
  next
    case 2
    then show ?thesis using etx_pad_more by fastforce
  qed (use Cons.IH in fastforce)+
qed simp

lemma handle_data_input_more:
  "handle_data_input ctx src count = Some (ctx', n) \<Longrightarrow> class1_line.more ctx' = class1_line.more ctx"
  by (auto simp: handle_data_input_def bind_eq_Some_conv split: if_splits dest: data_input_loop_more)

lemma hdlc_input_loop_more:
  "hdlc_input_loop ctx src out = Some (ctx', n, d) \<Longrightarrow> class1_line.more ctx' = class1_line.more ctx"
proof (induction src arbitrary: ctx out)
  case (Cons b src)
  let ?c = "if cx_dle_seen ctx \<noteq> 0 then ctx\<lparr>cx_dle_seen := 0\<rparr> else ctx"
  from Cons.prems consider ctx1 v where "put_scratch out v ?c = Some ctx1" "hdlc_input_loop ctx1 src (out + 1) = Some (ctx', n, d)"
    | ctx1 where "put_scratch 0 (of_int (out - 1)) (?c\<lparr>cx_hdlc_write_cursor := out\<rparr>) = Some ctx1" "latch_frame_end ctx1 = Some ctx'"
    | "hdlc_input_loop ?c src out = Some (ctx', n, d)" | "hdlc_input_loop (?c\<lparr>cx_dle_seen := 1\<rparr>) src out = Some (ctx', n, d)"
    by (auto simp: bind_eq_Some_conv Let_def split: if_splits)
  then show ?case
  proof cases
    case 1
    then show ?thesis using Cons.IH put_scratch_more by fastforce
  next
    case 2
    then show ?thesis using put_scratch_more [OF 2(1)] latch_more [OF 2(2)] by simp
  qed (use Cons.IH in fastforce)+
qed simp

lemma handle_hdlc_input_more:
  "handle_hdlc_input ctx src count = Some (ctx', n, d) \<Longrightarrow> class1_line.more ctx' = class1_line.more ctx"
  by (auto simp: handle_hdlc_input_def bind_eq_Some_conv split: if_splits dest: hdlc_input_loop_more)

lemma output_octet_more: "output_octet ctx e = (ctx', b) \<Longrightarrow> class1_line.more ctx' = class1_line.more ctx"
  by (auto simp: output_octet_def Let_def split: if_splits prod.splits)

lemma data_output_loop_more:
  "data_output_loop ctx src dst out = Some (ctx', q) \<Longrightarrow> class1_line.more ctx' = class1_line.more ctx"
proof (induction src arbitrary: ctx dst out)
  case (Cons e src)
  obtain ctx1 b where o: "output_octet ctx e = (ctx1, b)" by (cases "output_octet ctx e")
  with Cons.prems obtain dst1 out1 where "data_output_loop ctx1 src dst1 out1 = Some (ctx', q)"
    by (auto simp: bind_eq_Some_conv)
  then show ?case using Cons.IH output_octet_more [OF o] by metis
qed simp

lemma handle_data_output_more:
  "handle_data_output ctx src dst count t = Some (ctx', q) \<Longrightarrow> class1_line.more ctx' = class1_line.more ctx"
  by (auto simp: handle_data_output_def bind_eq_Some_conv split: if_splits dest: data_output_loop_more)

lemma hdlc_input_open_more: "class1_line.more (handle_hdlc_input_open ctx) = class1_line.more ctx"
  by (simp add: handle_hdlc_input_open_def)

lemmas tools_more = put_scratch_more handle_data_input_more handle_hdlc_input_more handle_data_output_more


subsection \<open>Reasoning about results\<close>

lemma opt_all_simps [simp]: "opt_all P None" "opt_all P (Some y) \<longleftrightarrow> P y"
  by (simp_all add: opt_all_def)

lemma opt_all_any: "(\<And>y. P y) \<Longrightarrow> opt_all P x"
  by (simp add: opt_all_def)

lemma opt_all_mono: "opt_all Q x \<Longrightarrow> (\<And>y. Q y \<Longrightarrow> P y) \<Longrightarrow> opt_all P x"
  by (simp add: opt_all_def)

lemma bind_wp: "opt_all (\<lambda>x. opt_all P (f x)) m \<Longrightarrow> opt_all P (m \<bind> f)"
  by (auto simp: opt_all_def bind_eq_Some_conv)

lemma if_wp: "(c \<Longrightarrow> opt_all P a) \<Longrightarrow> (\<not> c \<Longrightarrow> opt_all P b) \<Longrightarrow> opt_all P (if c then a else b)"
  by simp

text \<open>A session bound by \<open>let\<close> is known only to be good; other values bound so are arbitrary.\<close>

lemma let_ctx_wp:
  fixes e :: "('m, 'c, 't) fax_class1"
  shows "good e \<Longrightarrow> (\<And>c. good c \<Longrightarrow> opt_all P (f c)) \<Longrightarrow> opt_all P (let c = e in f c)"
  by simp

lemma let_wp:
  fixes i :: class1_io and w :: "'a :: len word" and k :: int and b :: bool
  shows "(\<And>i. opt_all P (f1 i)) \<Longrightarrow> opt_all P (let x = i in f1 x)"
    "(\<And>w. opt_all P (f2 w)) \<Longrightarrow> opt_all P (let x = w in f2 x)"
    "(\<And>k. opt_all P (f3 k)) \<Longrightarrow> opt_all P (let x = k in f3 x)"
    "(\<And>b. opt_all P (f4 b)) \<Longrightarrow> opt_all P (let x = b in f4 x)"
  by simp_all

lemma good_if: "(c \<Longrightarrow> good a) \<Longrightarrow> (\<not> c \<Longrightarrow> good b) \<Longrightarrow> good (if c then a else b)"
  by simp

lemma good_let:
  fixes e :: "('m, 'c, 't) fax_class1"
  shows "good e \<Longrightarrow> (\<And>c. good c \<Longrightarrow> good (f c)) \<Longrightarrow> good (let c = e in f c)"
  by simp

lemma good_set:
  "good ctx \<Longrightarrow> 0 \<le> s \<Longrightarrow> s < CLASS1_MAX_STATES \<Longrightarrow> good (ctx\<lparr>c1_state := s\<rparr>)"
  "good ctx \<Longrightarrow> s \<in> {FAX_CLASS1_NO_MESSAGE..FAX_CLASS1_ACCEPT_RATE} \<Longrightarrow> good (ctx\<lparr>c1_status := s\<rparr>)"
  "good ctx \<Longrightarrow> good (ctx\<lparr>c1_vmi_a := Some v\<rparr>)"
  "good ctx \<Longrightarrow> good (ctx\<lparr>c1_vmi_c := Some v\<rparr>)"
  "good ctx \<Longrightarrow> good (ctx\<lparr>c1_tone := Some t\<rparr>)"
  "good ctx \<Longrightarrow> c1_vmi_b ctx \<noteq> None \<Longrightarrow> good (ctx\<lparr>c1_vmi_b := Some v\<rparr>)"
  "good ctx \<Longrightarrow> good (ctx\<lparr>c1_superframe_len := 0\<rparr>)"
  "good ctx \<Longrightarrow> good (ctx\<lparr>c1_delayed_status_countdown := 0\<rparr>)"
  "good ctx \<Longrightarrow> good (ctx\<lparr>c1_modem_vmi := Some cfg, c1_vmi_b := Some v\<rparr>)"
  "good ctx \<Longrightarrow> good (ctx\<lparr>c1_modem_vmi := None, c1_vmi_b := None\<rparr>)"
  "good ctx \<Longrightarrow> d \<in> {FAX_CLASS1_OK, FAX_CLASS1_ERROR, FAX_CLASS1_NO_CARRIER} \<Longrightarrow>
     good (ctx\<lparr>c1_delayed_status_countdown := 2, c1_delayed_status := d\<rparr>)"
  "good ctx \<Longrightarrow> d \<in> {FAX_CLASS1_OK, FAX_CLASS1_ERROR, FAX_CLASS1_NO_CARRIER} \<Longrightarrow>
     good (ctx\<lparr>c1_delayed_status := d, c1_delayed_status_countdown := 2\<rparr>)"
  by (simp_all add: good_def ok_set)

lemma good_update [simp]:
  "good (ctx\<lparr>cx_scratch := v0\<rparr>) \<longleftrightarrow> good ctx"
  "good (ctx\<lparr>cx_frame_end_latch := v1\<rparr>) \<longleftrightarrow> good ctx"
  "good (ctx\<lparr>cx_last_in_byte := v2\<rparr>) \<longleftrightarrow> good ctx"
  "good (ctx\<lparr>cx_dle_seen := v3\<rparr>) \<longleftrightarrow> good ctx"
  "good (ctx\<lparr>cx_hdlc_write_cursor := v4\<rparr>) \<longleftrightarrow> good ctx"
  "good (ctx\<lparr>cx_async_locked := v5\<rparr>) \<longleftrightarrow> good ctx"
  "good (ctx\<lparr>cx_async_window := v6\<rparr>) \<longleftrightarrow> good ctx"
  "good (ctx\<lparr>cx_async_shift := v7\<rparr>) \<longleftrightarrow> good ctx"
  "good (ctx\<lparr>cx_async_mask := v8\<rparr>) \<longleftrightarrow> good ctx"
  "good (ctx\<lparr>cx_data_input_closed := v9\<rparr>) \<longleftrightarrow> good ctx"
  "good (ctx\<lparr>c1_vmi_c_cfg := v10\<rparr>) \<longleftrightarrow> good ctx"
  "good (ctx\<lparr>c1_vmi_a_cfg := v11\<rparr>) \<longleftrightarrow> good ctx"
  "good (ctx\<lparr>c1_ans_org := v12\<rparr>) \<longleftrightarrow> good ctx"
  "good (ctx\<lparr>c1_prev_state := v13\<rparr>) \<longleftrightarrow> good ctx"
  "good (ctx\<lparr>c1_countdown := v14\<rparr>) \<longleftrightarrow> good ctx"
  "good (ctx\<lparr>c1_f1230 := v15\<rparr>) \<longleftrightarrow> good ctx"
  "good (ctx\<lparr>c1_f1234 := v16\<rparr>) \<longleftrightarrow> good ctx"
  "good (ctx\<lparr>c1_modem_direction := v17\<rparr>) \<longleftrightarrow> good ctx"
  "good (ctx\<lparr>c1_current_mod := v18\<rparr>) \<longleftrightarrow> good ctx"
  "good (ctx\<lparr>c1_modem_rate_code := v19\<rparr>) \<longleftrightarrow> good ctx"
  "good (ctx\<lparr>c1_tone_cadence_phase := v20\<rparr>) \<longleftrightarrow> good ctx"
  "good (ctx\<lparr>c1_tone_cadence_timer := v21\<rparr>) \<longleftrightarrow> good ctx"
  "good (ctx\<lparr>c1_cng_enabled := v22\<rparr>) \<longleftrightarrow> good ctx"
  "good (ctx\<lparr>c1_answer_tone_blocks := v23\<rparr>) \<longleftrightarrow> good ctx"
  "good (ctx\<lparr>c1_tx_rate := v24\<rparr>) \<longleftrightarrow> good ctx"
  "good (ctx\<lparr>c1_tx_connect_countdown := v25\<rparr>) \<longleftrightarrow> good ctx"
  "good (ctx\<lparr>c1_clock_sec := v26\<rparr>) \<longleftrightarrow> good ctx"
  "good (ctx\<lparr>c1_clock_frac := v27\<rparr>) \<longleftrightarrow> good ctx"
  "good (ctx\<lparr>c1_f127c := v28\<rparr>) \<longleftrightarrow> good ctx"
  "good (ctx\<lparr>c1_hdlc_frame_done := v29\<rparr>) \<longleftrightarrow> good ctx"
  "good (ctx\<lparr>c1_buffers_sent := v30\<rparr>) \<longleftrightarrow> good ctx"
  "good (ctx\<lparr>c1_tx_fifo := v31\<rparr>) \<longleftrightarrow> good ctx"
  "good (ctx\<lparr>c1_transmit_enabled := v32\<rparr>) \<longleftrightarrow> good ctx"
  "good (ctx\<lparr>c1_tx_bytes_per_block := v33\<rparr>) \<longleftrightarrow> good ctx"
  "good (ctx\<lparr>c1_tx_connect_latch := v34\<rparr>) \<longleftrightarrow> good ctx"
  "good (ctx\<lparr>c1_tx_fifo_ready := v35\<rparr>) \<longleftrightarrow> good ctx"
  "good (ctx\<lparr>c1_s7_timeout := v36\<rparr>) \<longleftrightarrow> good ctx"
  "good (ctx\<lparr>c1_silence_blocks := v37\<rparr>) \<longleftrightarrow> good ctx"
  "good (ctx\<lparr>c1_energy := v38\<rparr>) \<longleftrightarrow> good ctx"
  "good (ctx\<lparr>c1_rx_agc_mult := v39\<rparr>) \<longleftrightarrow> good ctx"
  "good (ctx\<lparr>c1_rx_agc_shift := v40\<rparr>) \<longleftrightarrow> good ctx"
  "good (ctx\<lparr>c1_superframe_countdown := v41\<rparr>) \<longleftrightarrow> good ctx"
  "good (ctx\<lparr>c1_superframe_read_idx := v42\<rparr>) \<longleftrightarrow> good ctx"
  "good (ctx\<lparr>c1_f12d4 := v43\<rparr>) \<longleftrightarrow> good ctx"
  "good (ctx\<lparr>c1_gain_attenuation_db := v44\<rparr>) \<longleftrightarrow> good ctx"
  "good (ctx\<lparr>c1_iir_state := v45\<rparr>) \<longleftrightarrow> good ctx"
  "good (ctx\<lparr>c1_iir_enabled := v46\<rparr>) \<longleftrightarrow> good ctx"
  "good (ctx\<lparr>c1_cDATAtx_counter := v47\<rparr>) \<longleftrightarrow> good ctx"
  by (simp_all add: good_def)

lemma good_more:
  assumes "class1_line.more (ctx' :: ('m, 'c, 't) fax_class1) = class1_line.more ctx"
  shows "good ctx' \<longleftrightarrow> good ctx"
  using more_ok [OF assms] by (simp add: good_def)

subsection \<open>Every handler keeps it\<close>

lemma run_vmi_wp:
  "(\<And>v d pcm cnt st. handle \<noteq> None \<Longrightarrow> P (v, ctx\<lparr>cx_scratch := d\<rparr>, pcm, cnt, st)) \<Longrightarrow>
   opt_all P (run_vmi env handle ctx pcm0 cnt0 result)"
  by (auto simp: run_vmi_def opt_all_def bind_eq_Some_conv)

lemma run_wp:
  assumes "good ctx"
  shows "(\<And>c i st. good c \<Longrightarrow> P1 (c, i, st)) \<Longrightarrow> opt_all P1 (run_c env ctx io cnt result)"
    "(\<And>c i n st. good c \<Longrightarrow> P2 (c, i, n, st)) \<Longrightarrow> opt_all P2 (run_a env ctx io)"
    "(\<And>c i n st. good c \<Longrightarrow> P3 (c, i, n, st)) \<Longrightarrow> opt_all P3 (run_b_rx env ctx io cnt)"
    "(\<And>c i st. good c \<Longrightarrow> P4 (c, i, st)) \<Longrightarrow> opt_all P4 (run_b_tx env ctx io cnt result)"
  using assms unfolding run_c_def run_a_def run_b_rx_def run_b_tx_def
  by (auto intro!: bind_wp run_vmi_wp simp: good_set)

lemma tone_wp:
  assumes "good ctx" shows "(\<And>c i. good c \<Longrightarrow> P (c, i)) \<Longrightarrow> opt_all P (generate_tone env ctx io)"
  using assms unfolding generate_tone_def by (auto simp: opt_all_def bind_eq_Some_conv good_set case_prod_beta)

lemma more_wp:
  assumes "good ctx" and "\<And>c r. m = Some (c, r) \<Longrightarrow> class1_line.more c = class1_line.more ctx"
    and "\<And>c r. good c \<Longrightarrow> P (c, r)"
  shows "opt_all P m"
  unfolding opt_all_def
proof (intro allI impI)
  fix y assume m: "m = Some y"
  obtain c r where y: "y = (c, r)" by (cases y)
  have "good c" using good_more [OF assms(2)] m y assms(1) by blast
  then show "P y" using assms(3) y by blast
qed

lemma tools_wp:
  assumes "good ctx"
  shows "(\<And>c n d. good c \<Longrightarrow> P1 (c, n, d)) \<Longrightarrow> opt_all P1 (handle_hdlc_input ctx src count)"
    "(\<And>c n. good c \<Longrightarrow> P3 (c, n)) \<Longrightarrow> opt_all P3 (handle_data_input ctx src count)"
    "(\<And>c w n. good c \<Longrightarrow> P4 (c, w, n)) \<Longrightarrow> opt_all P4 (handle_data_output ctx esrc dst count t)"
  using assms by (auto intro: more_wp [OF assms] dest: tools_more)

lemma put_scratch_wp: "good ctx \<Longrightarrow> (\<And>c. good c \<Longrightarrow> P c) \<Longrightarrow> opt_all P (put_scratch i v ctx)"
  unfolding opt_all_def using put_scratch_more good_more by blast

lemma abort_wp:
  assumes "good ctx" shows "(\<And>c i. good c \<Longrightarrow> P (c, i)) \<Longrightarrow> opt_all P (abort_command ctx io)"
  using assms unfolding abort_command_def
  by (auto simp: opt_all_def bind_eq_Some_conv good_set class1_states class1_statuses)

lemmas known_codes = class1_states class1_statuses

lemma keepsI: "(\<And>env ctx io. good ctx \<Longrightarrow> opt_all (\<lambda>(ctx', io'). good ctx') (h env ctx io)) \<Longrightarrow> handler_keeps h"
  by (simp add: handler_keeps_def)

lemmas any_wp =
  opt_all_any [where x = "silent_block io" for io] opt_all_any [where x = "put_silence buf n" for buf n]
  opt_all_any [where x = "rd_at xs i" for xs i] opt_all_any [where x = "FIFO_write f xs n" for f xs n]
  opt_all_any [where x = "FIFO_read f n" for f n] opt_all_any [where x = "store_all d i xs" for d i xs]
  opt_all_any [where x = "cTOOLS_handle_hdlc_output src dst n t" for src dst n t]
  opt_all_any [where x = "fill_loop v buf i n" for v buf i n] opt_all_any [where x = "c1_tx_fifo ctx" for ctx]
  opt_all_any [where x = "c1_vmi_a ctx" for ctx] opt_all_any [where x = "c1_vmi_b ctx" for ctx]
  opt_all_any [where x = "c1_vmi_c ctx" for ctx] opt_all_any [where x = "lk_modem lk" for lk]
  opt_all_any [where x = "FAXVMI_status p v st" for p v st] opt_all_any [where x = "FAXVMI_control p v ct" for p v ct]
  opt_all_any [where x = "FAXVMI_create p hp v cfg" for p hp v cfg] opt_all_any [where x = "FAXVMI_delete p v" for p v]
  opt_all_any [where x = "c1_modem_vmi ctx" for ctx] opt_all_any [where x = "FIFO_create f cfg" for f cfg]

lemmas wps = bind_wp if_wp let_ctx_wp let_wp good_if good_let run_wp tone_wp tools_wp put_scratch_wp abort_wp any_wp good_set

lemma idle_keeps: "handler_keeps idle_state"
  unfolding idle_state_def by (rule keepsI) (auto intro!: wps simp: known_codes)

lemma send_silence_keeps: "handler_keeps send_silence_state"
  unfolding send_silence_state_def by (rule keepsI) (auto intro!: wps simp: known_codes)

lemma recieve_silence_keeps: "handler_keeps recieve_silence_state"
  unfolding recieve_silence_state_def by (rule keepsI) (auto intro!: wps simp: known_codes)

lemma tx_silence_keeps: "handler_keeps tx_silence_before_scrm_ones"
  unfolding tx_silence_before_scrm_ones_def by (rule keepsI) (auto intro!: wps simp: known_codes)

lemma t30_silence_keeps: "handler_keeps t30_silence_before_tx_state"
  unfolding t30_silence_before_tx_state_def by (rule keepsI) (auto intro!: wps simp: known_codes)


lemma preamble_init_good: "good ctx \<Longrightarrow> opt_all good (cHDLCtx_preamble_state_init env ctx)"
  unfolding cHDLCtx_preamble_state_init_def handle_hdlc_input_open_def
  by (auto intro!: wps simp: known_codes)

lemma preamble_init_wp:
  "good ctx \<Longrightarrow> (\<And>c. good c \<Longrightarrow> P c) \<Longrightarrow> opt_all P (cHDLCtx_preamble_state_init env ctx)"
  by (rule opt_all_mono [OF preamble_init_good])

lemma answer_tone_keeps: "handler_keeps answer_tone_state"
  unfolding answer_tone_state_def by (rule keepsI) (auto intro!: wps preamble_init_wp simp: known_codes)

lemma send_hdlc_buffer_keeps: "handler_keeps send_hdlc_buffer_state"
  unfolding send_hdlc_buffer_state_def handle_hdlc_input_open_def
  by (rule keepsI) (auto intro!: wps simp: known_codes; rule opt_all_any; auto intro!: wps simp: known_codes)

lemma t30_preabmle_keeps: "handler_keeps t30_preabmle_state"
  unfolding t30_preabmle_state_def by (rule keepsI) (auto intro!: wps simp: known_codes)

lemma send_hdlc_between_keeps: "handler_keeps send_hdlc_between_buffer_state"
  unfolding send_hdlc_between_buffer_state_def by (rule keepsI) (auto intro!: wps simp: known_codes)

lemma cHDLCtx_off_keeps: "handler_keeps cHDLCtx_off"
  unfolding cHDLCtx_off_def by (rule keepsI) (auto intro!: wps simp: known_codes)

lemma snapshot_wp: "good ctx \<Longrightarrow> (\<And>c. good c \<Longrightarrow> P c) \<Longrightarrow> opt_all P (snapshot_agc env ctx)"
  unfolding snapshot_agc_def by (auto intro!: wps simp: case_prod_beta)

lemma hdlc_receive_keeps: "handler_keeps hdlc_receive_state"
  unfolding hdlc_receive_state_def hdlc_receive_block_def
  by (rule keepsI) (auto intro!: wps snapshot_wp simp: known_codes)

lemma superframe_put_wp: "good ctx \<Longrightarrow> (\<And>c. good c \<Longrightarrow> P c) \<Longrightarrow> opt_all P (superframe_put ctx)"
  unfolding opt_all_def
proof (intro allI impI)
  fix c assume g: "good ctx" and P: "\<And>c. good c \<Longrightarrow> P c" and put: "superframe_put ctx = Some c"
  obtain frames where "superframe_holds ctx frames" using g by (auto simp: good_def class1_ok_def)
  from superframe_put_holds [OF put this] obtain len sf frames' where
    c: "c = ctx\<lparr>c1_superframe := sf, c1_superframe_len := len\<rparr>" and "superframe_holds c frames'"
    using \<open>superframe_holds ctx frames\<close> by metis
  with g have "good c" by (auto simp: good_def class1_ok_def)
  then show "P c" by (rule P)
qed

lemma hdlc_between_keeps: "handler_keeps hdlc_receive_between_buffers_state"
  unfolding hdlc_receive_between_buffers_state_def
  by (rule keepsI) (auto intro!: wps superframe_put_wp simp: known_codes)

lemma carrier_found_good: "good ctx \<Longrightarrow> opt_all good (carrier_found env ctx)"
  unfolding carrier_found_def by (auto intro!: wps simp: known_codes)

lemma carrier_found_wp: "good ctx \<Longrightarrow> (\<And>c. good c \<Longrightarrow> P c) \<Longrightarrow> opt_all P (carrier_found env ctx)"
  by (rule opt_all_mono [OF carrier_found_good])

lemma cng_cadence_wp: "good ctx \<Longrightarrow> (\<And>c i. good c \<Longrightarrow> P (c, i)) \<Longrightarrow> opt_all P (cng_cadence env ctx io)"
  unfolding cng_cadence_def by (auto intro!: wps)

lemma look_carrier_keeps: "handler_keeps hdlc_receive_look_carrier_state"
  unfolding hdlc_receive_look_carrier_state_def
  by (rule keepsI) (auto intro!: wps carrier_found_wp cng_cadence_wp simp: known_codes)

lemma emu_send_good: "good ctx \<Longrightarrow> opt_all (\<lambda>(c, i, n). good c) (emu_send ctx io lens k)"
  unfolding emu_send_def by (auto intro!: wps simp: known_codes Let_def)

lemma emu_send_wp: "good ctx \<Longrightarrow> (\<And>c i n. good c \<Longrightarrow> P (c, i, n)) \<Longrightarrow> opt_all P (emu_send ctx io lens k)"
  by (rule opt_all_mono [OF emu_send_good]) auto

lemma emulate_keeps: "handler_keeps hdlc_emulate_receive_state"
  unfolding hdlc_emulate_receive_state_def
  by (rule keepsI) (auto intro!: wps emu_send_wp opt_all_any [where x = "emu_parse sf tot i l" for sf tot i l] simp: known_codes)

lemma rx_look_carrier_keeps: "handler_keeps rx_look_carrier_state"
  unfolding rx_look_carrier_state_def hdlc_receive_state_init_def
  by (rule keepsI) (auto intro!: wps simp: known_codes)

lemma rx_data_keeps: "handler_keeps rx_data_state"
  unfolding rx_data_state_def by (rule keepsI) (auto intro!: wps simp: known_codes)

lemma fifo_wp:
  assumes "good ctx"
  shows "(\<And>c n. good c \<Longrightarrow> P1 (c, n)) \<Longrightarrow> opt_all P1 (terminal_to_fifo ctx io)"
    "(\<And>c n. good c \<Longrightarrow> P2 (c, n)) \<Longrightarrow> opt_all P2 (fifo_to_block ctx)"
    "(\<And>n. P3 n) \<Longrightarrow> opt_all P3 (fifo_room ctx)"
  using assms unfolding terminal_to_fifo_def fifo_to_block_def fifo_room_def by (auto intro!: wps)

lemma tx_nulls_keeps: "handler_keeps tx_nulls_state"
  unfolding tx_nulls_state_def by (rule keepsI) (auto intro!: wps fifo_wp simp: known_codes)

lemma tx_ones_keeps: "handler_keeps tx_scrambled_ones_state"
  unfolding tx_scrambled_ones_state_def by (rule keepsI) (auto intro!: wps fifo_wp simp: known_codes)

lemma tx_data_keeps: "handler_keeps tx_data_state"
  unfolding tx_data_state_def by (rule keepsI) (auto intro!: wps fifo_wp simp: known_codes)


subsection \<open>The handler table\<close>

text \<open>
  A table of handlers is sound when every entry keeps the invariant and it has an entry for each
  state; the block call then neither leaves the table nor breaks the invariant.
\<close>

locale handler_table =
  fixes table :: "('m, 'c, 's, 'q, 't) class1_handler list"
  assumes entries_keep: "h \<in> set table \<Longrightarrow> handler_keeps h"
    and entry_per_state: "int (length table) = CLASS1_MAX_STATES"
begin

lemma entry_exists: "good ctx \<Longrightarrow> \<exists>h. rd_at table (nat (c1_state ctx)) = Some h"
  using entry_per_state by (simp add: rd_at_def good_def class1_ok_def nat_less_iff)

lemma entry_keeps:
  assumes "good ctx" and "rd_at table (nat (c1_state ctx)) = Some h"
  shows "opt_all (\<lambda>(ctx', io'). good ctx') (h env ctx io)"
proof -
  have "h \<in> set table" using assms(2) by (auto simp: rd_at_Some_iff)
  then show ?thesis using entries_keep assms(1) by (simp add: handler_keeps_def)
qed

end

interpretation class1: handler_table class1_state_functions
proof
  fix h
  assume "h \<in> set class1_state_functions"
  then show "handler_keeps h"
    unfolding class1_state_functions_def
    by (auto intro: idle_keeps send_silence_keeps recieve_silence_keeps tx_silence_keeps t30_silence_keeps
        answer_tone_keeps send_hdlc_buffer_keeps t30_preabmle_keeps send_hdlc_between_keeps cHDLCtx_off_keeps
        hdlc_receive_keeps hdlc_between_keeps look_carrier_keeps emulate_keeps rx_look_carrier_keeps rx_data_keeps
        tx_nulls_keeps tx_ones_keeps tx_data_keeps)
qed (simp add: class1_state_functions_def CLASS1_MAX_STATES_def)

lemma dispatch_good:
  fixes env :: "('m, 'c, 's, 'q, 't) class1_env"
  assumes g: "good ctx"
  shows "opt_all (\<lambda>(ctx', io'). good ctx') (class1_dispatch env ctx io)"
  unfolding class1_dispatch_def
proof (intro if_wp bind_wp)
  obtain h :: "('m, 'c, 's, 'q, 't) class1_handler" where h: "rd_at class1_state_functions (nat (c1_state ctx)) = Some h"
    using class1.entry_exists [OF g] by blast
  show "opt_all (\<lambda>h. opt_all (\<lambda>(ctx', io'). good ctx') (h env ctx io)) (rd_at class1_state_functions (nat (c1_state ctx)))"
    unfolding h using class1.entry_keeps [OF g h] by simp
qed simp

lemma ok_delayed:
  "class1_ok ctx \<Longrightarrow> status_known ctx \<Longrightarrow> good (deliver_delayed ctx)"
  by (auto simp: deliver_delayed_def good_def class1_ok_def status_known_def superframe_holds_def Let_def class1_statuses)

lemma deliver_states [simp]:
  "c1_state (deliver_delayed c) = c1_state c" "c1_prev_state (deliver_delayed c) = c1_prev_state c"
  by (simp_all add: deliver_delayed_def Let_def)

lemma check_quality_good:
  "good ctx \<Longrightarrow> opt_all (\<lambda>c. good c \<and> c1_state c = c1_state ctx \<and> c1_prev_state c = c1_prev_state ctx) (check_quality env ctx)"
  unfolding check_quality_def Let_def
  by (cases "c1_vmi_b ctx") (auto intro!: wps simp: case_prod_beta known_codes split: option.splits)

lemma count_input_good: "class1_ok ctx \<Longrightarrow> opt_all class1_ok (count_input n rx ctx)"
  unfolding count_input_def by (simp add: Let_def)

lemma tick_ok: "class1_ok (tick_clock ctx) \<longleftrightarrow> class1_ok ctx"
  by (simp add: tick_clock_def Let_def)

lemma progress_good:
  assumes "class1_ok ctx"
  shows "opt_all (\<lambda>(ctx', io', st). good ctx' \<and> st = c1_status ctx' \<and> c1_prev_state ctx' = c1_state ctx') (fax_class1_progress env ctx io)"
proof -
  have g1: "good ((tick_clock c)\<lparr>c1_status := FAX_CLASS1_NO_MESSAGE, c1_iir_state := x\<rparr>)" if "class1_ok c" for c x
    using that by (simp add: good_def tick_ok class1_statuses)
  have g2: "good (deliver_delayed (c\<lparr>c1_prev_state := p\<rparr>))" if "good c" for c p
    using that by (intro ok_delayed) (simp_all add: good_def)
  show ?thesis
    unfolding fax_class1_progress_def Let_def case_prod_beta
    by (rule bind_wp, rule opt_all_mono [OF count_input_good [OF assms]], rule bind_wp,
        rule opt_all_mono [OF dispatch_good [OF g1]], assumption, rule bind_wp,
        rule opt_all_mono [OF check_quality_good [OF g2]]) (auto simp: case_prod_beta)
qed


subsection \<open>Commands and construction keep it\<close>

lemma let_ok_wp:
  fixes e :: "('m, 'c, 't) fax_class1"
  shows "class1_ok e \<Longrightarrow> (\<And>c. class1_ok c \<Longrightarrow> opt_all P (f c)) \<Longrightarrow> opt_all P (let c = e in f c)"
  by simp

lemma ok_if: "(c \<Longrightarrow> class1_ok a) \<Longrightarrow> (\<not> c \<Longrightarrow> class1_ok b) \<Longrightarrow> class1_ok (if c then a else b)"
  by simp

lemma bind_ok: "opt_all class1_ok m \<Longrightarrow> (\<And>c. class1_ok c \<Longrightarrow> opt_all P (f c)) \<Longrightarrow> opt_all P (m \<bind> f)"
  by (auto simp: opt_all_def bind_eq_Some_conv)

lemmas ok_wps = bind_wp if_wp let_ok_wp ok_if any_wp

lemma delete_rx_ok: "class1_ok ctx \<Longrightarrow> opt_all class1_ok (delete_data_rx_modem env ctx)"
  unfolding delete_data_rx_modem_def by (auto intro!: ok_wps simp: ok_set)

lemma delete_tx_ok: "class1_ok ctx \<Longrightarrow> opt_all class1_ok (delete_data_tx_modem env ctx)"
  unfolding delete_data_tx_modem_def by (auto intro!: ok_wps simp: ok_set)

lemma finish_rx_ok: "class1_ok ctx \<Longrightarrow> opt_all class1_ok (finish_rx env modu fresh ctx)"
  unfolding finish_rx_def
  by (cases "c1_vmi_b ctx") (auto intro!: ok_wps simp: ok_set Let_def class1_states)

lemmas modem_ok = opt_all_mono [OF delete_rx_ok] opt_all_mono [OF delete_tx_ok]

lemma init_receiver_ok:
  assumes "class1_ok ctx" shows "opt_all class1_ok (init_receiver env code ctx)"
proof -
  have "opt_all class1_ok
      (case c1_modem_vmi c of
         None \<Rightarrow> do {
           init \<leftarrow> rd_at init_vmi_data_rx_modem (nat modu);
           let cfg = init env (of_int rate);
           (vmi, blocks) \<leftarrow> FAXVMI_create (en_pumps env) (en_memory env) None (Some cfg);
           finish_rx env modu True (c\<lparr>c1_modem_vmi := Some cfg, c1_vmi_b := Some vmi\<rparr>)
         }
       | Some cfg \<Rightarrow> do {
           let ctl = FAXVMI_CTL\<lparr>ct_control_req := Some (en_modem_req env (rx_ctl_slot (fc_slot cfg)) (of_int rate))\<rparr>;
           vmi \<leftarrow> c1_vmi_b c;
           wrapped \<leftarrow> lk_modem (vm_link vmi);
           let link = (vm_link vmi)\<lparr>lk_modem := Some (en_set_rate env wrapped (of_int rate)),
                                    lk_unpack_width := of_int (sym_size rate)\<rparr>;
           (vmi, ret) \<leftarrow> FAXVMI_control (en_pumps env) (vmi\<lparr>vm_link := link\<rparr>) (Some ctl);
           finish_rx env modu False (c\<lparr>c1_vmi_b := Some vmi\<rparr>)
         })" if "class1_ok c" for c modu rate
    using that
    by (cases "c1_modem_vmi c"; cases "c1_vmi_b c") (auto intro!: bind_wp any_wp finish_rx_ok simp: ok_set Let_def)
  then show ?thesis
    unfolding init_receiver_def Let_def case_prod_beta
    using assms by (intro bind_wp) (auto intro: modem_ok)
qed

lemma init_transmitter_ok:
  assumes "class1_ok ctx" shows "opt_all class1_ok (init_transmitter env code ctx)"
proof -
  have create: "opt_all class1_ok (if c1_vmi_b c = None then do {
               init \<leftarrow> rd_at init_vmi_data_tx_modem (nat modu);
               let cfg = init env (of_int rate);
               (vmi, blocks) \<leftarrow> FAXVMI_create (en_pumps env) (en_memory env) None (Some cfg);
               Some (c\<lparr>c1_modem_vmi := Some cfg, c1_vmi_b := Some vmi\<rparr>)
             } else Some c)" if "class1_ok c" for c modu rate
    using that by (auto intro!: ok_wps simp: ok_set Let_def)
  have short: "opt_all class1_ok (if is_v17_short code then do {
               cfg \<leftarrow> c1_modem_vmi c;
               vmi \<leftarrow> c1_vmi_b c;
               (vmi, ret) \<leftarrow> FAXVMI_control (en_pumps env) vmi
                 (Some (FAXVMI_CTL\<lparr>ct_control_req := Some (en_modem_req env (tx_ctl_slot (fc_slot cfg)) (of_int rate))\<rparr>));
               Some (c\<lparr>c1_vmi_b := Some vmi\<rparr>)
             } else Some c)" if "class1_ok c" for c rate
    using that by (cases "c1_vmi_b c") (auto intro!: ok_wps simp: ok_set)
  obtain f1 f2 modu rate where t: "tx_code code (c1_f1230 ctx, c1_f1234 ctx, 0, 0) = (f1, f2, modu, rate)"
    by (cases "tx_code code (c1_f1230 ctx, c1_f1234 ctx, 0, 0)")
  show ?thesis
    unfolding init_transmitter_def Let_def t prod.case
    apply (rule bind_wp, rule opt_all_mono [where Q = class1_ok])
     apply (use assms in \<open>auto intro: delete_tx_ok\<close>)[1]
    apply (rule bind_wp, rule opt_all_mono [OF create [unfolded Let_def]], assumption)
    apply (rule bind_wp, rule opt_all_mono [OF short], assumption)
    apply (simp add: ok_set class1_states)
    done
qed

lemma from_idle_ok: "class1_ok ctx \<Longrightarrow> opt_all class1_ok (cHDLCrx_init_from_idle env k ctx)"
  unfolding cHDLCrx_init_from_idle_def
  by (auto intro!: ok_wps simp: ok_set class1_states)

lemma preamble_ok: "class1_ok ctx \<Longrightarrow> opt_all class1_ok (cHDLCtx_preamble_state_init env ctx)"
  unfolding cHDLCtx_preamble_state_init_def handle_hdlc_input_open_def
  by (auto intro!: ok_wps simp: ok_set class1_states)

lemma tx_ones_init_ok: "class1_ok ctx \<Longrightarrow> opt_all class1_ok (tx_scrambled_ones_init env code ctx)"
  unfolding tx_scrambled_ones_init_def
  by (rule bind_wp, rule opt_all_mono [OF init_transmitter_ok]) (auto intro!: ok_wps)

lemma rx_init_ok: "class1_ok ctx \<Longrightarrow> opt_all class1_ok (rx_look_carrier_init env code ctx)"
  unfolding rx_look_carrier_init_def cTOOLS_handle_data_output_reset_def
  by (rule bind_wp, rule opt_all_mono [OF init_receiver_ok]) auto


lemma command_ok: "class1_ok ctx \<Longrightarrow> opt_all class1_ok (fax_class1_command env ctx cmd a3 a4)"
proof -
  assume "class1_ok ctx"
  then have c: "class1_ok (if cmd \<noteq> FAX_CLASS1_RH_COMMAND then ctx\<lparr>c1_superframe_len := 0\<rparr> else ctx)" (is "class1_ok ?c")
    by (simp add: ok_set)
  have tm: "opt_all class1_ok (do {
      ctx \<leftarrow> (if c1_modem_vmi ?c \<noteq> None \<and> c1_vmi_b ?c \<noteq> None \<and> c1_modem_direction ?c = CLASS1_MODEM_DIR_RX
              then delete_data_rx_modem env ?c else Some ?c);
      ctx \<leftarrow> tx_scrambled_ones_init env a3 (ctx\<lparr>c1_modem_rate_code := a3, c1_silence_blocks := of_int a4\<rparr>);
      Some (ctx\<lparr>c1_modem_direction := CLASS1_MODEM_DIR_TX\<rparr>)
    })"
    using c by (intro bind_ok if_wp delete_rx_ok tx_ones_init_ok) auto
  have rm: "opt_all class1_ok (do {
      ctx \<leftarrow> (if c1_modem_vmi ?c \<noteq> None \<and> c1_vmi_b ?c \<noteq> None \<and> c1_modem_direction ?c = CLASS1_MODEM_DIR_TX
              then delete_data_tx_modem env ?c else Some ?c);
      ctx \<leftarrow> rx_look_carrier_init env a3 (ctx\<lparr>c1_modem_rate_code := a3\<rparr>);
      ctx \<leftarrow> cHDLCrx_init_from_idle env a3 ctx;
      Some (ctx\<lparr>c1_modem_direction := CLASS1_MODEM_DIR_RX\<rparr>)
    })"
    using c by (intro bind_ok if_wp delete_tx_ok rx_init_ok from_idle_ok) auto
  have rh: "opt_all class1_ok (do {
      ctx \<leftarrow> (if c1_state ?c = CLASS1_HDLC_RECEIVE_BETWEEN_BUFFERS_STATE \<and> c1_modem_rate_code ?c = a3
              then Some ((hdlc_receive_state_init ?c)\<lparr>c1_state := CLASS1_HDLC_RECEIVE_STATE\<rparr>)
              else if c1_superframe_len ?c = 0 then cHDLCrx_init_from_idle env a3 ?c
              else Some (?c\<lparr>c1_state := CLASS1_HDLC_EMULATE_RECEIVE_STATE, c1_superframe_countdown := 2\<rparr>));
      Some (ctx\<lparr>c1_modem_rate_code := a3\<rparr>)
    })"
    using c by (intro bind_ok if_wp from_idle_ok)
      (auto simp: hdlc_receive_state_init_def ok_set class1_states)
  show ?thesis
    unfolding fax_class1_command_def Let_def
    by (intro if_wp tm rm rh preamble_ok)
       (use c in \<open>simp_all add: send_silence_state_init_def recieve_silence_state_init_def ok_set class1_states\<close>)
qed

lemma create_ok:
  assumes "case existing of None \<Rightarrow> length (c1_superframe raw) = 256 | Some ctx \<Rightarrow> class1_ok ctx"
  shows "opt_all class1_ok (fax_class1_create env raw existing cfg)"
proof -
  let ?m = "case existing of None \<Rightarrow> class1_fresh env raw | Some ctx \<Rightarrow> Some ctx"
  have built: "opt_all (\<lambda>c. (\<exists>frames. superframe_holds c frames) \<and> c1_vmi_a c \<noteq> None \<and> c1_vmi_c c \<noteq> None \<and>
      (c1_modem_vmi c = None \<longleftrightarrow> c1_vmi_b c = None)) ?m"
    using assms
    by (cases existing) (auto simp: class1_fresh_def class1_ok_def superframe_holds_def opt_all_def bind_eq_Some_conv
        intro!: exI [of _ "[]"])
  show ?thesis
    unfolding fax_class1_create_def
    by (rule bind_wp, rule opt_all_mono [OF built], unfold Let_def, intro if_wp bind_ok from_idle_ok)
       (auto simp: class1_ok_def superframe_holds_def class1_states)
qed

subsection \<open>Reachable sessions\<close>

text \<open>
  What a caller can do: create a session, create it again in place, give a command, run a block.
  The number of blocks and the order are the caller's.
\<close>

inductive class1_reach :: "('m, 'c, 's, 'q, 't) class1_env \<Rightarrow> ('m, 'c, 't) fax_class1 \<Rightarrow> ('m, 'c, 't) fax_class1 \<Rightarrow> bool"
  for env and raw where
  create: "fax_class1_create env raw None cfg = Some ctx \<Longrightarrow> class1_reach env raw ctx"
| recreate: "class1_reach env raw ctx \<Longrightarrow> fax_class1_create env raw (Some ctx) cfg = Some ctx' \<Longrightarrow> class1_reach env raw ctx'"
| command: "class1_reach env raw ctx \<Longrightarrow> fax_class1_command env ctx cmd a3 a4 = Some ctx' \<Longrightarrow> class1_reach env raw ctx'"
| progress: "class1_reach env raw ctx \<Longrightarrow> fax_class1_progress env ctx io = Some (ctx', io', st) \<Longrightarrow> class1_reach env raw ctx'"
| status: "class1_reach env raw ctx \<Longrightarrow> fax_class1_status env ctx ms = Some (ctx', ms', r) \<Longrightarrow> class1_reach env raw ctx'"

lemma status_ok: "class1_ok ctx \<Longrightarrow> fax_class1_status env ctx ms = Some (ctx', q) \<Longrightarrow> class1_ok ctx'"
  by (auto simp: fax_class1_status_def Let_def bind_eq_Some_conv ok_set split: if_splits)

lemma reach_ok:
  assumes "class1_reach env raw ctx" and "length (c1_superframe raw) = 256"
  shows "class1_ok ctx"
  using assms
proof (induction rule: class1_reach.induct)
  case (create cfg ctx)
  then show ?case using create_ok [where existing = None and raw = raw and env = env and cfg = cfg] by (simp add: opt_all_def)
next
  case (recreate ctx cfg ctx')
  then show ?case using create_ok [where existing = "Some ctx" and raw = raw and env = env and cfg = cfg] by (simp add: opt_all_def)
next
  case (command ctx cmd a3 a4 ctx')
  then show ?case using command_ok [of ctx env cmd a3 a4] by (simp add: opt_all_def)
next
  case (progress ctx io ctx' io' st)
  then show ?case using progress_good [of ctx env io] by (auto simp: opt_all_def good_def)
next
  case (status ctx ms ctx' ms' r)
  then show ?case using status_ok by blast
qed

end
