(* ===== verification/Class1Props.thy ===== *)
theory Class1Props
  imports Class1Inv
begin

unbundle bit_operations_syntax

text \<open>
  What a Class 1 session does for its caller: the properties of the handlers, the commands and
  the block call taken together.
\<close>

subsection \<open>A session to evaluate\<close>

text \<open>All slots hold the null datapump, the level meter hears silence, the tone is a constant.\<close>

definition demo_env :: "(unit, unit, unit, unit, unit) class1_env" where
  "demo_env = \<lparr>en_pumps = replicate 8 null_pump,
     en_memory = \<lparr>raw_elem = (\<lambda>i. 0), raw_vmi = demo_vmi 7, raw_null = ()\<rparr>,
     en_modem_cfg = (\<lambda>s r. ()), en_modem_req = (\<lambda>s r. ()), en_v21tx_req = (), en_v21rx_req = (),
     en_tone_create = (\<lambda>f. ()), en_tone_generate = (\<lambda>t n. (t, replicate n 1)), en_rms = (\<lambda>xs n. 0),
     en_iir = (\<lambda>xs st n. (xs, st)), en_avg_rms = (\<lambda>m. 0), en_agc = (\<lambda>m. (0, 0)),
     en_set_agc = (\<lambda>k m a b. m), en_set_watch = (\<lambda>k m v. m), en_set_rate = (\<lambda>m r. m),
     en_quality = (\<lambda>k m. (False, m))\<rparr>"

definition demo_raw :: "(unit, unit, unit) fax_class1" where
  "demo_raw = \<lparr>cx_scratch = replicate SCRATCH_ELEMENTS 0, cx_frame_end_latch = 0, cx_last_in_byte = 0,
     cx_dle_seen = 0, cx_hdlc_write_cursor = 0, cx_async_locked = 0, cx_async_window = 0, cx_async_shift = 0,
     cx_async_mask = 0, cx_data_input_closed = 0,
     c1_superframe = replicate 256 0, c1_vmi_c = None, c1_vmi_a = None, c1_vmi_b = None, c1_vmi_c_cfg = None,
     c1_vmi_a_cfg = None, c1_modem_vmi = None, c1_ans_org = 0, c1_state = -7, c1_prev_state = 0, c1_countdown = 0,
     c1_status = 99, c1_f1230 = 0, c1_f1234 = 0, c1_delayed_status = 0, c1_delayed_status_countdown = 9,
     c1_modem_direction = 0, c1_current_mod = 0, c1_modem_rate_code = 0, c1_tone = None, c1_tone_cadence_phase = 0,
     c1_tone_cadence_timer = 0, c1_cng_enabled = 0, c1_answer_tone_blocks = 0, c1_tx_rate = 0,
     c1_tx_connect_countdown = 0, c1_clock_sec = 0, c1_clock_frac = 0, c1_f127c = 0, c1_hdlc_frame_done = 0,
     c1_buffers_sent = 0, c1_tx_fifo = None, c1_transmit_enabled = 0, c1_tx_bytes_per_block = 0,
     c1_tx_connect_latch = 0, c1_tx_fifo_ready = 0, c1_s7_timeout = 0, c1_silence_blocks = 0, c1_energy = 0,
     c1_rx_agc_mult = 0, c1_rx_agc_shift = 0, c1_superframe_countdown = 0, c1_superframe_read_idx = 0,
     c1_superframe_len = 0, c1_f12d4 = 0, c1_gain_attenuation_db = 0, c1_iir_state = [], c1_iir_enabled = 0,
     c1_cDATAtx_counter = 0\<rparr>"

definition demo_answer :: fax_class1_cfg where
  "demo_answer = \<lparr>cc_mode = 2, cc_s7_timeout = 30, cc_f08 = 0, cc_iir_enable = 1, cc_answer_tone_ms = 0, cc_disable_cng = 0\<rparr>"

definition demo_io :: class1_io where
  "demo_io = \<lparr>io_rx = replicate 160 0, io_tx = replicate 160 9, io_word3 = replicate 512 0, io_word4 = [],
     io_rx_count = 160, io_tx_count = 160, io_word7 = 0, io_word8 = 0\<rparr>"

text \<open>Two frames kept, the replay standing at \<open>i\<close>.\<close>

definition demo_kept :: "int \<Rightarrow> (unit, unit, unit) fax_class1" where
  "demo_kept i = demo_raw\<lparr>c1_superframe := [2, 0xff, 0x10, 1, 0x13] @ replicate 251 0, c1_superframe_len := 5,
     c1_superframe_read_idx := i, c1_delayed_status_countdown := 0, c1_state := CLASS1_IDLE_STATE, c1_prev_state := CLASS1_IDLE_STATE\<rparr>"

definition demo_fifo :: fax_fifo where
  "demo_fifo = \<lparr>ff_short_000 = 0, ff_size = 40, ff_fill = 0, ff_buf = replicate 40 0, ff_count = 0, ff_rd = 0, ff_wr = 0\<rparr>"

definition demo_tx :: "(unit, unit, unit) fax_class1" where
  "demo_tx = demo_raw\<lparr>c1_tx_fifo := Some demo_fifo, c1_tx_bytes_per_block := 3\<rparr>"

definition demo_data :: class1_io where
  "demo_data = demo_io\<lparr>io_word4 := [0x41, 0x10, 0x10, 0x10, 0x03], io_word8 := 5\<rparr>"

lemma demo_kept_holds: "superframe_holds (demo_kept i) (map (map ucast) [[0xff, 0x10 :: u8], [0x13]])"
  by (simp add: superframe_holds_def demo_kept_def)

lemma demo_created: "map_option (\<lambda>_. ()) (fax_class1_create demo_env demo_raw None demo_answer) = Some ()"
  by code_simp

lemma demo_slot: "fax_class1_create demo_env demo_raw None demo_answer = Some ctx \<Longrightarrow>
    \<exists>vmi. c1_vmi_c ctx = Some vmi \<and> vm_slot vmi = VMI_SLOT_V21TX"
proof -
  assume c: "fax_class1_create demo_env demo_raw None demo_answer = Some ctx"
  have "map_option (\<lambda>c. map_option vm_slot (c1_vmi_c c)) (fax_class1_create demo_env demo_raw None demo_answer) = Some (Some VMI_SLOT_V21TX)"
    by code_simp
  then show ?thesis unfolding c by simp
qed

lemma demo_progress:
  "map_option (\<lambda>_. ()) (do { ctx \<leftarrow> fax_class1_create demo_env demo_raw None demo_answer;
     fax_class1_progress demo_env ctx demo_io }) = Some ()"
  by code_simp

subsection \<open>The block call, seen from outside\<close>

text \<open>The buffers of a block call are as long as the counts say.\<close>

definition block_io :: "class1_io \<Rightarrow> bool" where
  "block_io io \<longleftrightarrow> nat (io_rx_count io sdiv 8) \<le> length (io_rx io) \<and> nat CLASS1_BLOCK_SAMPLES \<le> length (io_tx io) \<and>
     io_rx_count io \<le> int (length (io_tx io))"

lemma demo_block: "block_io demo_io" "length (io_word3 demo_io) = 512"
  by (simp_all add: demo_io_def block_io_def CLASS1_BLOCK_SAMPLES_def signed_divide_int_def)

lemma count_input_ok: "block_io io \<Longrightarrow> \<exists>v. count_input (io_rx_count io) (io_rx io) ctx = Some (ctx\<lparr>c1_f127c := v\<rparr>)"
proof (cases "c1_f127c ctx = 0")
  case True
  then have "count_input (io_rx_count io) (io_rx io) ctx = Some (ctx\<lparr>c1_f127c := c1_f127c ctx\<rparr>)"
    by (simp add: count_input_def)
  then show ?thesis ..
qed (auto simp: block_io_def count_input_def Let_def)

text \<open>The session as the handler sees it: counters and clock moved on, the status cleared.\<close>

definition before_handler :: "('m, 'c, 't) fax_class1 \<Rightarrow> ('m, 'c, 't) fax_class1 \<Rightarrow> bool" where
  "before_handler ctx c \<longleftrightarrow> (\<exists>v s f iir. c = ctx\<lparr>c1_f127c := v, c1_clock_sec := s, c1_clock_frac := f,
     c1_status := FAX_CLASS1_NO_MESSAGE, c1_iir_state := iir\<rparr>)"

lemma progress_eq:
  assumes "block_io io"
  shows "\<exists>c rx. before_handler ctx c \<and>
    fax_class1_progress env ctx io = do {
      (c, io') \<leftarrow> class1_dispatch env c (io\<lparr>io_word7 := 0, io_rx := rx\<rparr>);
      c \<leftarrow> check_quality env (deliver_delayed (c\<lparr>c1_prev_state := c1_state c\<rparr>));
      Some (c, io'\<lparr>io_rx_count := io_rx_count io\<rparr>, c1_status c)
    }"
proof -
  obtain v where v: "count_input (io_rx_count io) (io_rx io) ctx = Some (ctx\<lparr>c1_f127c := v\<rparr>)"
    using count_input_ok [OF assms] by blast
  let ?t = "tick_clock (ctx\<lparr>c1_f127c := v\<rparr>)"
  let ?p = "if c1_iir_enabled ?t \<noteq> 0 then en_iir env (io_rx io) (c1_iir_state ?t) (of_int (io_rx_count io))
            else (io_rx io, c1_iir_state ?t)"
  let ?c = "?t\<lparr>c1_status := FAX_CLASS1_NO_MESSAGE, c1_iir_state := snd ?p\<rparr>"
  have "before_handler ctx ?c"
  proof (cases "c1_clock_frac ctx + 2 > 99")
    case True
    then have "?c = ctx\<lparr>c1_f127c := v, c1_clock_sec := c1_clock_sec ctx + 1, c1_clock_frac := 0,
        c1_status := FAX_CLASS1_NO_MESSAGE, c1_iir_state := snd ?p\<rparr>" by (simp add: tick_clock_def)
    then show ?thesis unfolding before_handler_def by blast
  next
    case False
    then have "?c = ctx\<lparr>c1_f127c := v, c1_clock_sec := c1_clock_sec ctx, c1_clock_frac := c1_clock_frac ctx + 2,
        c1_status := FAX_CLASS1_NO_MESSAGE, c1_iir_state := snd ?p\<rparr>" by (simp add: tick_clock_def)
    then show ?thesis unfolding before_handler_def by blast
  qed
  moreover have "fax_class1_progress env ctx io = do {
      (c, io') \<leftarrow> class1_dispatch env ?c (io\<lparr>io_word7 := 0, io_rx := fst ?p\<rparr>);
      c \<leftarrow> check_quality env (deliver_delayed (c\<lparr>c1_prev_state := c1_state c\<rparr>));
      Some (c, io'\<lparr>io_rx_count := io_rx_count io\<rparr>, c1_status c)
    }"
    using v by (simp add: fax_class1_progress_def Let_def case_prod_beta)
  ultimately show ?thesis by blast
qed


text \<open>Nothing is pending that would put a status of its own in the answer.\<close>

definition inert :: "('m, 'c, 't) fax_class1 \<Rightarrow> bool" where
  "inert ctx \<longleftrightarrow> c1_delayed_status_countdown ctx = 0 \<and>
     (quality_mod (c1_modem_rate_code ctx) = None \<or> c1_modem_direction ctx \<noteq> CLASS1_MODEM_DIR_RX)"

lemma inert_answer:
  "inert c \<Longrightarrow> check_quality env (deliver_delayed (c\<lparr>c1_prev_state := p\<rparr>)) = Some (c\<lparr>c1_prev_state := p\<rparr>)"
  by (auto simp: inert_def deliver_delayed_def check_quality_def split: option.splits)

lemma inert_update [simp]:
  "inert (c\<lparr>c1_f127c := v\<rparr>) = inert c" "inert (c\<lparr>c1_clock_sec := v\<rparr>) = inert c" "inert (c\<lparr>c1_clock_frac := v\<rparr>) = inert c"
  "inert (c\<lparr>c1_status := v\<rparr>) = inert c" "inert (c\<lparr>c1_iir_state := w\<rparr>) = inert c" "inert (c\<lparr>c1_prev_state := v\<rparr>) = inert c"
  "inert (c\<lparr>c1_state := v\<rparr>) = inert c" "inert (c\<lparr>c1_countdown := v\<rparr>) = inert c" "inert (c\<lparr>cx_scratch := w\<rparr>) = inert c"
  by (simp_all add: inert_def)

definition silent_tx :: "class1_io \<Rightarrow> bool" where
  "silent_tx io \<longleftrightarrow> take (nat CLASS1_BLOCK_SAMPLES) (io_tx io) = replicate (nat CLASS1_BLOCK_SAMPLES) 0"

lemma silent_block_eq:
  assumes "nat CLASS1_BLOCK_SAMPLES \<le> length (io_tx io)"
  shows "\<exists>tx. silent_block io = Some (io\<lparr>io_tx := tx, io_tx_count := CLASS1_BLOCK_SAMPLES\<rparr>) \<and>
    silent_tx (io\<lparr>io_tx := tx\<rparr>) \<and> length tx = length (io_tx io)"
  using assms
  by (intro exI [of _ "replicate (nat CLASS1_BLOCK_SAMPLES) 0 @ drop (nat CLASS1_BLOCK_SAMPLES) (io_tx io)"])
     (simp add: silent_block_def put_silence_def fill_all silent_tx_def)

fun class1_run :: "('m, 'c, 's, 'q, 't) class1_env \<Rightarrow> ('m, 'c, 't) fax_class1 \<Rightarrow> class1_io list \<Rightarrow>
    (('m, 'c, 't) fax_class1 \<times> (int \<times> class1_io) list) option" where
  "class1_run env ctx [] = Some (ctx, [])"
| "class1_run env ctx (io # ios) = do {
     (ctx, io', st) \<leftarrow> fax_class1_progress env ctx io;
     (ctx, outs) \<leftarrow> class1_run env ctx ios;
     Some (ctx, (st, io') # outs)
   }"

lemma dispatch_silence:
  "c1_state c = CLASS1_SEND_SILENCE_STATE \<Longrightarrow> class1_dispatch env c io = send_silence_state env c io"
  "c1_state c = CLASS1_T30_SILENCE_BEFORE_PREAMBLE_STATE \<Longrightarrow> class1_dispatch env c io = t30_silence_before_tx_state env c io"
  "c1_state c = CLASS1_HDLC_EMULATE_RECEIVE_STATE \<Longrightarrow> class1_dispatch env c io = hdlc_emulate_receive_state env c io"
  "c1_state c = CLASS1_IDLE_STATE \<Longrightarrow> class1_dispatch env c io = idle_state env c io"
  by (simp_all add: class1_dispatch_def class1_state_functions_def rd_at_def class1_states)

lemma ts_step:
  assumes "block_io io" and "inert ctx" and "c1_state ctx = CLASS1_SEND_SILENCE_STATE"
  shows "\<exists>ctx' io'. fax_class1_progress env ctx io =
      Some (ctx', io', if c1_countdown ctx = 1 then FAX_CLASS1_OK_NO_CARRIER else FAX_CLASS1_NO_MESSAGE) \<and>
    c1_state ctx' = CLASS1_SEND_SILENCE_STATE \<and> c1_countdown ctx' = c1_countdown ctx - 1 \<and> inert ctx' \<and> silent_tx io'"
proof -
  obtain c rx where c: "before_handler ctx c" and p: "fax_class1_progress env ctx io = do {
      (c, io') \<leftarrow> class1_dispatch env c (io\<lparr>io_word7 := 0, io_rx := rx\<rparr>);
      c \<leftarrow> check_quality env (deliver_delayed (c\<lparr>c1_prev_state := c1_state c\<rparr>));
      Some (c, io'\<lparr>io_rx_count := io_rx_count io\<rparr>, c1_status c)
    }" using progress_eq [OF assms(1)] by blast
  from c have f: "c1_state c = c1_state ctx" "c1_countdown c = c1_countdown ctx" "inert c" "c1_status c = FAX_CLASS1_NO_MESSAGE"
    using assms(2) by (auto simp: before_handler_def)
  obtain tx where "silent_block (io\<lparr>io_word7 := 0, io_rx := rx\<rparr>) =
      Some (io\<lparr>io_word7 := 0, io_rx := rx, io_tx := tx, io_tx_count := CLASS1_BLOCK_SAMPLES\<rparr>)" "silent_tx (io\<lparr>io_tx := tx\<rparr>)"
    using silent_block_eq [of "io\<lparr>io_word7 := 0, io_rx := rx\<rparr>"] assms(1) by (auto simp: block_io_def silent_tx_def)
  then show ?thesis
    using f assms(3) p by (auto simp: dispatch_silence send_silence_state_def Let_def inert_answer silent_tx_def)
qed

lemma ts_run:
  assumes "list_all block_io ios" and "inert ctx" and "c1_state ctx = CLASS1_SEND_SILENCE_STATE"
  shows "\<exists>ctx' outs. class1_run env ctx ios = Some (ctx', outs) \<and> list_all silent_tx (map snd outs) \<and>
    map fst outs = map (\<lambda>i. if int i = c1_countdown ctx then FAX_CLASS1_OK_NO_CARRIER else FAX_CLASS1_NO_MESSAGE) [1..<Suc (length ios)]"
  using assms
proof (induction ios arbitrary: ctx)
  case (Cons io ios)
  then have b: "block_io io" "list_all block_io ios" by simp_all
  obtain ctx1 io1 where p: "fax_class1_progress env ctx io =
      Some (ctx1, io1, if c1_countdown ctx = 1 then FAX_CLASS1_OK_NO_CARRIER else FAX_CLASS1_NO_MESSAGE)"
    and k: "c1_state ctx1 = CLASS1_SEND_SILENCE_STATE" "c1_countdown ctx1 = c1_countdown ctx - 1" "inert ctx1" "silent_tx io1"
    using ts_step [OF b(1) Cons.prems(2,3)] by blast
  obtain ctx' outs where r: "class1_run env ctx1 ios = Some (ctx', outs)" "list_all silent_tx (map snd outs)"
    "map fst outs = map (\<lambda>i. if int i = c1_countdown ctx1 then FAX_CLASS1_OK_NO_CARRIER else FAX_CLASS1_NO_MESSAGE) [1..<Suc (length ios)]"
    using Cons.IH [OF b(2) k(3,1)] by blast
  have "[1..<Suc (length (io # ios))] = 1 # map Suc [1..<Suc (length ios)]"
    by (simp add: map_Suc_upt upt_conv_Cons del: upt_Suc)
  then show ?case using p k(2,4) r by (auto simp: o_def simp del: upt_Suc)
qed simp


lemma th_step:
  assumes "block_io io" and "inert ctx" and "c1_state ctx = CLASS1_T30_SILENCE_BEFORE_PREAMBLE_STATE"
    and "0 \<le> c1_countdown ctx" and "c1_countdown ctx < 2 ^ 32"
  shows "\<exists>ctx' io'. fax_class1_progress env ctx io =
      Some (ctx', io', if c1_countdown ctx > 400 then FAX_CLASS1_CONNECT else FAX_CLASS1_NO_MESSAGE) \<and>
    c1_state ctx' = (if c1_countdown ctx > 400 then CLASS1_T30_PREAMBLE_STATE else CLASS1_T30_SILENCE_BEFORE_PREAMBLE_STATE) \<and>
    c1_countdown ctx' = (if c1_countdown ctx > 400 then 0 else c1_countdown ctx) + 160 \<and> inert ctx' \<and> silent_tx io'"
proof -
  obtain c rx where c: "before_handler ctx c" and p: "fax_class1_progress env ctx io = do {
      (c, io') \<leftarrow> class1_dispatch env c (io\<lparr>io_word7 := 0, io_rx := rx\<rparr>);
      c \<leftarrow> check_quality env (deliver_delayed (c\<lparr>c1_prev_state := c1_state c\<rparr>));
      Some (c, io'\<lparr>io_rx_count := io_rx_count io\<rparr>, c1_status c)
    }" using progress_eq [OF assms(1)] by blast
  from c have f: "c1_state c = c1_state ctx" "c1_countdown c = c1_countdown ctx" "inert c" "c1_status c = FAX_CLASS1_NO_MESSAGE"
    using assms(2) by (auto simp: before_handler_def)
  obtain tx where "silent_block (io\<lparr>io_word7 := 0, io_rx := rx\<rparr>) =
      Some (io\<lparr>io_word7 := 0, io_rx := rx, io_tx := tx, io_tx_count := CLASS1_BLOCK_SAMPLES\<rparr>)" "silent_tx (io\<lparr>io_tx := tx\<rparr>)"
    using silent_block_eq [of "io\<lparr>io_word7 := 0, io_rx := rx\<rparr>"] assms(1) by (auto simp: block_io_def silent_tx_def)
  then show ?thesis
    using f assms(3-5) p
    by (auto simp: dispatch_silence t30_silence_before_tx_state_def Let_def inert_answer silent_tx_def CLASS1_BLOCK_SAMPLES_def)
qed

lemma th_run:
  assumes "block_io i1" "block_io i2" "block_io i3" "block_io i4" and "inert ctx"
    and "c1_state ctx = CLASS1_T30_SILENCE_BEFORE_PREAMBLE_STATE" and "c1_countdown ctx = 0"
  shows "\<exists>ctx' outs. class1_run env ctx [i1, i2, i3, i4] = Some (ctx', outs) \<and> list_all silent_tx (map snd outs) \<and>
    map fst outs = [FAX_CLASS1_NO_MESSAGE, FAX_CLASS1_NO_MESSAGE, FAX_CLASS1_NO_MESSAGE, FAX_CLASS1_CONNECT] \<and>
    c1_state ctx' = CLASS1_T30_PREAMBLE_STATE"
proof -
  obtain c1 o1 where 1: "fax_class1_progress env ctx i1 = Some (c1, o1, FAX_CLASS1_NO_MESSAGE)" "silent_tx o1"
    "c1_state c1 = CLASS1_T30_SILENCE_BEFORE_PREAMBLE_STATE" "c1_countdown c1 = 160" "inert c1"
    using th_step [OF assms(1,5,6), of env] assms(7) by auto
  obtain c2 o2 where 2: "fax_class1_progress env c1 i2 = Some (c2, o2, FAX_CLASS1_NO_MESSAGE)" "silent_tx o2"
    "c1_state c2 = CLASS1_T30_SILENCE_BEFORE_PREAMBLE_STATE" "c1_countdown c2 = 320" "inert c2"
    using th_step [OF assms(2) 1(5,3), of env] 1(4) by auto
  obtain c3 o3 where 3: "fax_class1_progress env c2 i3 = Some (c3, o3, FAX_CLASS1_NO_MESSAGE)" "silent_tx o3"
    "c1_state c3 = CLASS1_T30_SILENCE_BEFORE_PREAMBLE_STATE" "c1_countdown c3 = 480" "inert c3"
    using th_step [OF assms(3) 2(5,3), of env] 2(4) by auto
  obtain c4 o4 where 4: "fax_class1_progress env c3 i4 = Some (c4, o4, FAX_CLASS1_CONNECT)" "silent_tx o4"
    "c1_state c4 = CLASS1_T30_PREAMBLE_STATE"
    using th_step [OF assms(4) 3(5,3), of env] 3(4) by auto
  show ?thesis using 1 2 3 4 by auto
qed

subsection \<open>Replaying kept frames\<close>

lemma emu_parse_records:
  assumes "tot = int (idx + length (superframe_records frames))" and "idx + length (superframe_records frames) \<le> length sf"
    and "length sf \<le> 65535"
    and "take (length (superframe_records frames)) (drop idx sf) = superframe_records frames"
    and "length lens \<le> CLASS1_EMU_MAX_FRAMES"
  shows "emu_parse sf tot idx lens =
    (if length lens + length frames \<le> CLASS1_EMU_MAX_FRAMES then Some (lens @ map length frames) else None)"
  using assms
proof (induction frames arbitrary: idx lens)
  case (Cons f frames)
  let ?r = "superframe_records frames"
  have i: "idx < length sf" and lf: "length f < 65536" using Cons.prems(2,3) by auto
  have "take (Suc (length f + length ?r)) (drop idx sf) = of_nat (length f) # f @ ?r" using Cons.prems(4) by simp
  then have h: "sf ! idx = of_nat (length f)" and t: "take (length f + length ?r) (drop (Suc idx) sf) = f @ ?r"
    using i by (simp_all add: Cons_nth_drop_Suc [symmetric])
  then have u: "unat (sf ! idx) = length f" using lf by (simp add: unat_of_nat_u16)
  have "drop (length f) (take (length f + length ?r) (drop (Suc idx) sf)) = ?r" unfolding t by simp
  then have r: "take (length ?r) (drop (idx + length f + 1) sf) = ?r" by (simp add: drop_take ac_simps)
  show ?case
  proof (cases "length lens < CLASS1_EMU_MAX_FRAMES")
    case True
    have "emu_parse sf tot idx lens = emu_parse sf tot (idx + length f + 1) (lens @ [length f])"
      using True i Cons.prems(1) u by (subst emu_parse.simps) simp
    also have "\<dots> = (if length (lens @ [length f]) + length frames \<le> CLASS1_EMU_MAX_FRAMES
        then Some ((lens @ [length f]) @ map length frames) else None)"
      by (rule Cons.IH) (use Cons.prems r True in \<open>auto simp: ac_simps\<close>)
    finally show ?thesis by simp
  next
    case False
    then show ?thesis using i Cons.prems(1,5) by (subst emu_parse.simps) simp
  qed
qed (simp add: emu_parse.simps)

lemma emu_parse_holds:
  assumes "superframe_holds ctx frames"
  shows "emu_parse (c1_superframe ctx) (c1_superframe_len ctx) 0 [] =
    (if length frames \<le> CLASS1_EMU_MAX_FRAMES then Some (map length frames) else None)"
  using assms emu_parse_records [of "c1_superframe_len ctx" 0 frames "c1_superframe ctx" "[]"]
  by (simp add: superframe_holds_def)

text \<open>The record a replay starts at.\<close>

lemma record_at:
  assumes "superframe_holds ctx frames" and "i < length frames"
  defines "start \<equiv> sum_list (map Suc (take i (map length frames)))"
  shows "rd_at (c1_superframe ctx) start = Some (of_nat (length (frames ! i)))"
    "take (length (frames ! i)) (drop (start + 1) (c1_superframe ctx)) = frames ! i"
    "length (frames ! i) \<le> length (c1_superframe ctx) - (start + 1)" "length (frames ! i) \<le> 255"
proof -
  let ?sf = "c1_superframe ctx" and ?pre = "superframe_records (take i frames)" and ?f = "frames ! i"
  have rec: "superframe_records frames = ?pre @ (of_nat (length ?f) # ?f) @ superframe_records (drop (Suc i) frames)"
  proof -
    have "frames = take i frames @ ?f # drop (Suc i) frames" using id_take_nth_drop [OF assms(2)] .
    then have "superframe_records frames = superframe_records (take i frames @ ?f # drop (Suc i) frames)" by simp
    then show ?thesis by simp
  qed
  have start: "start = length ?pre"
    by (simp add: start_def superframe_records_def length_concat take_map o_def)
  have h: "length ?sf = 256" "length (superframe_records frames) \<le> 255" "take (length (superframe_records frames)) ?sf = superframe_records frames"
    using assms(1) by (simp_all add: superframe_holds_def)
  define rest where "rest = drop (length (superframe_records frames)) ?sf"
  have "?sf = superframe_records frames @ rest"
    using append_take_drop_id [of "length (superframe_records frames)" ?sf] unfolding h(3) rest_def by simp
  then have sf: "?sf = ?pre @ (of_nat (length ?f) # ?f) @ superframe_records (drop (Suc i) frames) @ rest"
    unfolding rec by simp
  have len: "start + 1 + length ?f \<le> 255" using h(2) start arg_cong [OF rec, of length] by simp
  have "?sf ! start = of_nat (length ?f)" by (subst sf) (simp add: start)
  then show "rd_at ?sf start = Some (of_nat (length ?f))" using len h(1) by (simp add: rd_at_def)
  show "take (length ?f) (drop (start + 1) ?sf) = ?f" by (subst sf) (simp add: start)
  show "length ?f \<le> length ?sf - (start + 1)" "length ?f \<le> 255" using len h(1) by simp_all
qed


definition quality_off :: "('m, 'c, 't) fax_class1 \<Rightarrow> bool" where
  "quality_off ctx \<longleftrightarrow> quality_mod (c1_modem_rate_code ctx) = None \<or> c1_modem_direction ctx \<noteq> CLASS1_MODEM_DIR_RX"

lemma quality_off_check: "quality_off c \<Longrightarrow> check_quality env c = Some c"
  by (auto simp: quality_off_def check_quality_def split: option.splits)

lemma delayed_answer:
  "quality_off d \<Longrightarrow> c1_delayed_status_countdown d = 2 \<Longrightarrow>
     check_quality env (deliver_delayed (d\<lparr>c1_prev_state := p\<rparr>)) = Some (d\<lparr>c1_prev_state := p, c1_delayed_status_countdown := 1\<rparr>)"
  "quality_off d \<Longrightarrow> c1_delayed_status_countdown d = 1 \<Longrightarrow>
     check_quality env (deliver_delayed (d\<lparr>c1_prev_state := p\<rparr>)) =
       Some (d\<lparr>c1_prev_state := p, c1_delayed_status_countdown := 0, c1_status := c1_delayed_status d\<rparr>)"
  by (auto intro!: quality_off_check simp: deliver_delayed_def quality_off_def)

lemma inert_quality: "inert ctx \<longleftrightarrow> c1_delayed_status_countdown ctx = 0 \<and> quality_off ctx"
  by (simp add: inert_def quality_off_def)

definition replaying :: "('m, 'c, 't) fax_class1 \<Rightarrow> u16 list list \<Rightarrow> nat \<Rightarrow> int \<Rightarrow> bool" where
  "replaying ctx frames i k \<longleftrightarrow> superframe_holds ctx frames \<and> length frames \<le> CLASS1_EMU_MAX_FRAMES \<and>
     c1_state ctx = CLASS1_HDLC_EMULATE_RECEIVE_STATE \<and> c1_superframe_read_idx ctx = int i \<and>
     c1_superframe_countdown ctx = k \<and> inert ctx"

lemma before_handler_frame:
  assumes "before_handler ctx c"
  shows "c1_state c = c1_state ctx" "c1_prev_state c = c1_prev_state ctx" "inert c = inert ctx" "quality_off c = quality_off ctx"
    "superframe_holds c frames = superframe_holds ctx frames" "c1_superframe_read_idx c = c1_superframe_read_idx ctx"
    "c1_superframe_countdown c = c1_superframe_countdown ctx" "c1_status c = FAX_CLASS1_NO_MESSAGE"
    "c1_delayed_status c = c1_delayed_status ctx" "c1_delayed_status_countdown c = c1_delayed_status_countdown ctx"
  using assms by (auto simp: before_handler_def superframe_holds_def quality_off_def)

lemma holds_update [simp]:
  "superframe_holds (c\<lparr>c1_prev_state := v\<rparr>) frames = superframe_holds c frames"
  "superframe_holds (c\<lparr>c1_delayed_status_countdown := v\<rparr>) frames = superframe_holds c frames"
  "superframe_holds (c\<lparr>c1_status := v\<rparr>) frames = superframe_holds c frames"
  by (simp_all add: superframe_holds_def)

lemma before_handler_rate: "before_handler ctx c \<Longrightarrow> c1_modem_rate_code c = c1_modem_rate_code ctx"
  by (auto simp: before_handler_def)

lemma emu_wait:
  assumes "block_io io" and "replaying ctx frames i k" and "i < length frames" and "0 < k"
  shows "\<exists>ctx' io'. fax_class1_progress env ctx io =
      Some (ctx', io', if c1_prev_state ctx \<noteq> CLASS1_HDLC_EMULATE_RECEIVE_STATE then FAX_CLASS1_CONNECT else FAX_CLASS1_NO_MESSAGE) \<and>
    replaying ctx' frames i (k - 1) \<and> c1_prev_state ctx' = CLASS1_HDLC_EMULATE_RECEIVE_STATE \<and> io_word7 io' = 0"
proof -
  obtain c rx where c: "before_handler ctx c" and p: "fax_class1_progress env ctx io = do {
      (c, io') \<leftarrow> class1_dispatch env c (io\<lparr>io_word7 := 0, io_rx := rx\<rparr>);
      c \<leftarrow> check_quality env (deliver_delayed (c\<lparr>c1_prev_state := c1_state c\<rparr>));
      Some (c, io'\<lparr>io_rx_count := io_rx_count io\<rparr>, c1_status c)
    }" using progress_eq [OF assms(1)] by blast
  note f = before_handler_frame [OF c]
  have r: "superframe_holds c frames" "length frames \<le> CLASS1_EMU_MAX_FRAMES" "inert c"
    "c1_state c = CLASS1_HDLC_EMULATE_RECEIVE_STATE" "c1_superframe_read_idx c = int i" "c1_superframe_countdown c = k"
    using assms(2) f by (simp_all add: replaying_def)
  obtain tx where t: "silent_block (io\<lparr>io_word7 := 0, io_rx := rx\<rparr>) =
      Some (io\<lparr>io_word7 := 0, io_rx := rx, io_tx := tx, io_tx_count := CLASS1_BLOCK_SAMPLES\<rparr>)"
    using silent_block_eq [of "io\<lparr>io_word7 := 0, io_rx := rx\<rparr>"] assms(1) by (auto simp: block_io_def)
  let ?s = "if c1_prev_state ctx \<noteq> CLASS1_HDLC_EMULATE_RECEIVE_STATE then FAX_CLASS1_CONNECT else FAX_CLASS1_NO_MESSAGE"
  let ?c = "c\<lparr>c1_status := ?s, c1_superframe_countdown := k - 1\<rparr>"
  have d: "class1_dispatch env c (io\<lparr>io_word7 := 0, io_rx := rx\<rparr>) =
      Some (?c, io\<lparr>io_word7 := 0, io_rx := rx, io_tx := tx, io_tx_count := CLASS1_BLOCK_SAMPLES\<rparr>)"
    using r assms(3,4) t f(2,8)
    by (auto simp: dispatch_silence hdlc_emulate_receive_state_def emu_parse_holds [OF r(1)] Let_def)
  have "inert ?c" using r(3) by (simp add: inert_def)
  then show ?thesis
    using p d r by (auto simp: inert_answer replaying_def superframe_holds_def inert_def)
qed

lemma hdlc_output_take:
  "n \<le> length src \<Longrightarrow> cTOOLS_handle_hdlc_output src dst (int n) t = cTOOLS_handle_hdlc_output (take n src) dst (int n) t"
  by (simp add: cTOOLS_handle_hdlc_output_def)

text \<open>What is left after the record \<open>i\<close> went out: the next one is up, or nothing is kept.\<close>

definition replay_left :: "('m, 'c, 't) fax_class1 \<Rightarrow> u16 list list \<Rightarrow> nat \<Rightarrow> bool" where
  "replay_left ctx frames i \<longleftrightarrow>
     (if i < length frames then superframe_holds ctx frames \<and> c1_superframe_read_idx ctx = int i
      else superframe_holds ctx [] \<and> c1_superframe_read_idx ctx = 0)"

lemma emu_fire:
  fixes octets :: "u8 list"
  assumes "block_io io" and "replaying ctx frames i k" and "i < length frames" and "k \<le> 0"
    and "frames ! i = map ucast octets" and "length (dle_stuff octets) + 2 \<le> length (io_word3 io)"
    and "c1_prev_state ctx = CLASS1_HDLC_EMULATE_RECEIVE_STATE"
  shows "\<exists>ctx' io'. fax_class1_progress env ctx io = Some (ctx', io', FAX_CLASS1_NO_MESSAGE) \<and>
    io_word7 io' = int (length (dle_stuff octets) + 2) \<and>
    take (length (dle_stuff octets) + 2) (io_word3 io') = dle_stuff octets @ [CLASS1_DLE, CLASS1_ETX] \<and>
    replay_left ctx' frames (i + 1) \<and> quality_off ctx' \<and> c1_state ctx' = CLASS1_IDLE_STATE \<and>
    c1_delayed_status_countdown ctx' = 1 \<and> c1_delayed_status ctx' = FAX_CLASS1_OK"
proof -
  obtain c rx where c: "before_handler ctx c" and p: "fax_class1_progress env ctx io = do {
      (c, io') \<leftarrow> class1_dispatch env c (io\<lparr>io_word7 := 0, io_rx := rx\<rparr>);
      c \<leftarrow> check_quality env (deliver_delayed (c\<lparr>c1_prev_state := c1_state c\<rparr>));
      Some (c, io'\<lparr>io_rx_count := io_rx_count io\<rparr>, c1_status c)
    }" using progress_eq [OF assms(1)] by blast
  note f = before_handler_frame [OF c]
  have r: "superframe_holds c frames" "length frames \<le> CLASS1_EMU_MAX_FRAMES" "quality_off c" "c1_delayed_status_countdown c = 0"
    "c1_state c = CLASS1_HDLC_EMULATE_RECEIVE_STATE" "c1_superframe_read_idx c = int i" "c1_superframe_countdown c = k"
    using assms(2) f by (simp_all add: replaying_def inert_quality)
  let ?io = "io\<lparr>io_word7 := 0, io_rx := rx\<rparr>" and ?start = "sum_list (map Suc (take i (map length frames)))"
  let ?os = "dle_stuff octets @ [CLASS1_DLE, CLASS1_ETX]"
  let ?w3 = "overlay (io_word3 io) 0 ?os" and ?n = "length (dle_stuff octets) + 2"
  note rec = record_at [OF r(1) assms(3)]
  have n: "uint (of_nat (length (frames ! i)) :: u16) = int (length octets)"
    using rec(4) by (simp add: assms(5) uint_nat unat_of_nat_u16)
  have out: "cTOOLS_handle_hdlc_output (drop (?start + 1) (c1_superframe c)) (io_word3 io) (int (length octets)) 1 =
      Some (?w3, ?n)"
    using rec(2,3) assms(5,6) cTOOLS_handle_hdlc_output_eq [of octets "io_word3 io"]
    by (subst hdlc_output_take) (simp_all add: length_map)
  let ?c = "c\<lparr>c1_superframe_countdown := k - 1, c1_delayed_status := 1, c1_delayed_status_countdown := 2,
      c1_superframe_read_idx := int i + 1, c1_state := CLASS1_IDLE_STATE\<rparr>"
  let ?d = "if int i + 1 = int (length frames)
      then ?c\<lparr>c1_superframe_len := 0, c1_superframe_countdown := 2, c1_superframe_read_idx := 0\<rparr> else ?c"
  have send: "emu_send (c\<lparr>c1_superframe_countdown := k - 1\<rparr>) ?io (map length frames) (int i) =
      Some (?c, ?io\<lparr>io_word3 := ?w3, io_word7 := int ?n\<rparr>, int i + 1)"
    using rec(1) out n assms(3) r(6) by (simp add: emu_send_def Let_def)
  obtain tx where t: "silent_block (?io\<lparr>io_word3 := ?w3, io_word7 := int ?n\<rparr>) =
      Some (?io\<lparr>io_word3 := ?w3, io_word7 := int ?n, io_tx := tx, io_tx_count := CLASS1_BLOCK_SAMPLES\<rparr>)"
    using silent_block_eq [of "?io\<lparr>io_word3 := ?w3, io_word7 := int ?n\<rparr>"] assms(1) by (auto simp: block_io_def)
  have d: "class1_dispatch env c ?io =
      Some (?d, ?io\<lparr>io_word3 := ?w3, io_word7 := int ?n, io_tx := tx, io_tx_count := CLASS1_BLOCK_SAMPLES\<rparr>)"
    using r assms(3,4,7) t f(2) send
    by (simp add: dispatch_silence hdlc_emulate_receive_state_def emu_parse_holds [OF r(1)] Let_def)
  have "quality_off ?d" using r(3) by (simp add: quality_off_def)
  then have q: "check_quality env (deliver_delayed (?d\<lparr>c1_prev_state := c1_state ?d\<rparr>)) =
      Some (?d\<lparr>c1_prev_state := c1_state ?d, c1_delayed_status_countdown := 1\<rparr>)"
    by (rule delayed_answer(1)) simp
  have "take ?n ?w3 = ?os" using take_overlay [of 0 ?os "io_word3 io"] assms(6) by simp
  then show ?thesis
    using p d q f(8) r(1,3) assms(3)
    by (auto simp: replay_left_def superframe_holds_def quality_off_def FAX_CLASS1_OK_def)
qed

lemma idle_answer:
  assumes "block_io io" and "c1_state ctx = CLASS1_IDLE_STATE" and "c1_delayed_status_countdown ctx = 1"
    and "quality_off ctx"
  shows "\<exists>ctx' io'. fax_class1_progress env ctx io = Some (ctx', io', c1_delayed_status ctx) \<and>
    inert ctx' \<and> c1_state ctx' = CLASS1_IDLE_STATE \<and> c1_prev_state ctx' = CLASS1_IDLE_STATE \<and> io_word7 io' = 0 \<and>
    c1_modem_rate_code ctx' = c1_modem_rate_code ctx \<and> (replay_left ctx frames i \<longrightarrow> replay_left ctx' frames i)"
proof -
  obtain c rx where c: "before_handler ctx c" and p: "fax_class1_progress env ctx io = do {
      (c, io') \<leftarrow> class1_dispatch env c (io\<lparr>io_word7 := 0, io_rx := rx\<rparr>);
      c \<leftarrow> check_quality env (deliver_delayed (c\<lparr>c1_prev_state := c1_state c\<rparr>));
      Some (c, io'\<lparr>io_rx_count := io_rx_count io\<rparr>, c1_status c)
    }" using progress_eq [OF assms(1)] by blast
  note f = before_handler_frame [OF c]
  let ?n = "if io_rx_count io > 0 then io_rx_count io else CLASS1_BLOCK_SAMPLES"
  have "nat ?n \<le> length (io_tx io)" using assms(1) by (auto simp: block_io_def)
  then obtain tx where "put_silence (io_tx io) ?n = Some tx" by (simp add: put_silence_def fill_all)
  then have "class1_dispatch env c (io\<lparr>io_word7 := 0, io_rx := rx\<rparr>) =
      Some (c, io\<lparr>io_word7 := 0, io_rx := rx, io_tx := tx, io_tx_count := ?n\<rparr>)"
    using f(1) assms(2) by (auto simp: dispatch_silence idle_state_def Let_def split: if_splits)
  moreover have "check_quality env (deliver_delayed (c\<lparr>c1_prev_state := c1_state c\<rparr>)) =
      Some (c\<lparr>c1_prev_state := c1_state c, c1_delayed_status_countdown := 0, c1_status := c1_delayed_status c\<rparr>)"
    using f assms by (intro delayed_answer(2)) simp_all
  ultimately show ?thesis
    using p f assms(2,4) before_handler_rate [OF c]
    by (auto simp: inert_quality quality_off_def replay_left_def)
qed


text \<open>The terminal asks for a frame and runs four blocks: for each block its status and the octets handed over in
  it. What a request for a frame comes to.\<close>

definition replayed :: "u8 list \<Rightarrow> (int \<times> u8 list) list" where
  "replayed octets = [(FAX_CLASS1_CONNECT, []), (FAX_CLASS1_NO_MESSAGE, []),
     (FAX_CLASS1_NO_MESSAGE, dle_stuff octets @ [CLASS1_DLE, CLASS1_ETX]), (FAX_CLASS1_OK, [])]"

definition poll_frame :: "('m, 'c, 's, 'q, 't) class1_env \<Rightarrow> ('m, 'c, 't) fax_class1 \<Rightarrow> class1_io \<times> class1_io \<times> class1_io \<times> class1_io \<Rightarrow>
    (('m, 'c, 't) fax_class1 \<times> (int \<times> u8 list) list) option" where
  "poll_frame env ctx = (\<lambda>(i1, i2, i3, i4). do {
     ctx \<leftarrow> fax_class1_command env ctx FAX_CLASS1_RH_COMMAND 3 0;
     (ctx, outs) \<leftarrow> class1_run env ctx [i1, i2, i3, i4];
     Some (ctx, map (\<lambda>(st, io). (st, take (nat (io_word7 io)) (io_word3 io))) outs)
   })"

fun poll_frames :: "('m, 'c, 's, 'q, 't) class1_env \<Rightarrow> ('m, 'c, 't) fax_class1 \<Rightarrow> (class1_io \<times> class1_io \<times> class1_io \<times> class1_io) list \<Rightarrow>
    (('m, 'c, 't) fax_class1 \<times> (int \<times> u8 list) list list) option" where
  "poll_frames env ctx [] = Some (ctx, [])"
| "poll_frames env ctx (q # qs) = do {
     (ctx, r) \<leftarrow> poll_frame env ctx q;
     (ctx, rs) \<leftarrow> poll_frames env ctx qs;
     Some (ctx, r # rs)
   }"

definition poll_io :: "class1_io \<times> class1_io \<times> class1_io \<times> class1_io \<Rightarrow> bool" where
  "poll_io = (\<lambda>(i1, i2, i3, i4). block_io i1 \<and> block_io i2 \<and> block_io i3 \<and> block_io i4 \<and> 512 \<le> length (io_word3 i3))"

text \<open>Between replays: the next record is \<open>i\<close>, the session rests, nothing is pending.\<close>

definition replay_ready :: "('m, 'c, 't) fax_class1 \<Rightarrow> u16 list list \<Rightarrow> nat \<Rightarrow> bool" where
  "replay_ready ctx frames i \<longleftrightarrow> replay_left ctx frames i \<and> c1_delayed_status_countdown ctx = 0 \<and>
     c1_state ctx \<noteq> CLASS1_HDLC_RECEIVE_BETWEEN_BUFFERS_STATE \<and> c1_prev_state ctx \<noteq> CLASS1_HDLC_EMULATE_RECEIVE_STATE"

lemma poll_frame_replays:
  assumes "replay_ready ctx frames i" and "i < length frames" and "length frames \<le> CLASS1_EMU_MAX_FRAMES"
    and "frames ! i = map ucast (octets :: u8 list)" and "poll_io q"
  shows "\<exists>ctx'. poll_frame env ctx q =
      Some (ctx', replayed octets) \<and> replay_ready ctx' frames (i + 1)"
proof -
  obtain i1 i2 i3 i4 where q: "q = (i1, i2, i3, i4)" by (cases q)
  have b: "block_io i1" "block_io i2" "block_io i3" "block_io i4" "512 \<le> length (io_word3 i3)"
    using assms(5) by (simp_all add: q poll_io_def)
  let ?c0 = "ctx\<lparr>c1_state := CLASS1_HDLC_EMULATE_RECEIVE_STATE, c1_superframe_countdown := 2, c1_modem_rate_code := 3\<rparr>"
  have holds: "superframe_holds ctx frames" using assms(1,2) by (simp add: replay_ready_def replay_left_def)
  moreover obtain f where "f \<in> set frames" using assms(2) nth_mem by blast
  ultimately have "c1_superframe_len ctx \<noteq> 0"
    by (auto simp: superframe_holds_def superframe_records_def)
  then have cmd: "fax_class1_command env ctx FAX_CLASS1_RH_COMMAND 3 0 = Some ?c0"
    using assms(1) by (simp add: fax_class1_command_def class1_commands replay_ready_def Let_def)
  have "replaying ?c0 frames i 2" and prev: "c1_prev_state ?c0 \<noteq> CLASS1_HDLC_EMULATE_RECEIVE_STATE"
    using assms(1-3) by (simp_all add: replaying_def replay_ready_def replay_left_def superframe_holds_def inert_def quality_mod_def)
  then obtain c1 o1 where 1: "fax_class1_progress env ?c0 i1 = Some (c1, o1, FAX_CLASS1_CONNECT)"
    "replaying c1 frames i 1" "c1_prev_state c1 = CLASS1_HDLC_EMULATE_RECEIVE_STATE" "io_word7 o1 = 0"
    using emu_wait [OF b(1) _ assms(2), of ?c0 2 env] by auto
  then obtain c2 o2 where 2: "fax_class1_progress env c1 i2 = Some (c2, o2, FAX_CLASS1_NO_MESSAGE)"
    "replaying c2 frames i 0" "c1_prev_state c2 = CLASS1_HDLC_EMULATE_RECEIVE_STATE" "io_word7 o2 = 0"
    using emu_wait [OF b(2) 1(2) assms(2), of env] by auto
  have "length octets \<le> 255" using record_at(4) [OF holds assms(2)] assms(4) by simp
  then have "length (dle_stuff octets) + 2 \<le> length (io_word3 i3)" using length_dle_stuff(2) [of octets] b(5) by simp
  then obtain c3 o3 where 3: "fax_class1_progress env c2 i3 = Some (c3, o3, FAX_CLASS1_NO_MESSAGE)"
    "io_word7 o3 = int (length (dle_stuff octets) + 2)"
    "take (length (dle_stuff octets) + 2) (io_word3 o3) = dle_stuff octets @ [CLASS1_DLE, CLASS1_ETX]"
    "replay_left c3 frames (i + 1)" "quality_off c3" "c1_state c3 = CLASS1_IDLE_STATE"
    "c1_delayed_status_countdown c3 = 1" "c1_delayed_status c3 = FAX_CLASS1_OK"
    using emu_fire [OF b(3) 2(2) assms(2) _ assms(4) _ 2(3), of env] by auto
  obtain c4 o4 where 4: "fax_class1_progress env c3 i4 = Some (c4, o4, FAX_CLASS1_OK)" "inert c4"
    "c1_state c4 = CLASS1_IDLE_STATE" "c1_prev_state c4 = CLASS1_IDLE_STATE" "io_word7 o4 = 0" "replay_left c4 frames (i + 1)"
    using idle_answer [OF b(4) 3(6,7,5), of env frames "i + 1"] 3(4,8) by auto
  have "replay_ready c4 frames (i + 1)"
    using 4 by (simp add: replay_ready_def inert_quality class1_states)
  moreover have "nat (io_word7 o3) = length (dle_stuff octets) + 2" unfolding 3(2) by (simp only: nat_int)
  ultimately show ?thesis
    using cmd 1(1,4) 2(1,4) 3(1,3) 4(1,5) by (auto simp: poll_frame_def q replayed_def)
qed


lemma poll_frames_replay:
  assumes "replay_ready ctx frames i" and "i \<le> length frames" and "length frames \<le> CLASS1_EMU_MAX_FRAMES"
    and "frames = map (map ucast) octets" and "list_all poll_io qs" and "length qs = length frames - i"
  shows "\<exists>ctx'. poll_frames env ctx qs =
      Some (ctx', map replayed (drop i octets)) \<and>
    replay_ready ctx' frames (length frames)"
  using assms
proof (induction qs arbitrary: ctx i)
  case (Cons q qs)
  then have i: "i < length frames" by simp
  then have f: "frames ! i = map ucast (octets ! i)" using Cons.prems(4) by simp
  obtain ctx1 where 1: "poll_frame env ctx q =
      Some (ctx1, replayed (octets ! i))" "replay_ready ctx1 frames (i + 1)"
    using poll_frame_replays [OF Cons.prems(1) i Cons.prems(3) f, of q env] Cons.prems(5) by auto
  have "i < length octets" using i Cons.prems(4) by simp
  then have "drop i octets = octets ! i # drop (i + 1) octets" by (simp add: Cons_nth_drop_Suc)
  moreover have "length qs = length frames - (i + 1)" "i + 1 \<le> length frames" "list_all poll_io qs"
    using Cons.prems(5,6) i by simp_all
  note Cons.IH [OF 1(2) this(2) Cons.prems(3,4) this(3,1)]
  ultimately show ?case using 1(1) by auto
qed simp

subsection \<open>The way of the transmitted data\<close>

lemma store_all_overlay:
  "i + length xs \<le> length dst \<Longrightarrow> store_all dst i xs = Some (overlay dst i xs)"
proof (induction xs arbitrary: dst i)
  case (Cons x xs)
  then show ?case using overlay_Cons [of i dst x xs] by (simp add: mem_simps)
qed simp

lemma terminal_to_fifo_spec:
  assumes "c1_tx_fifo ctx = Some f" and "fifo_wf f" and "unat (ff_size f) \<le> SCRATCH_ELEMENTS"
    and "length (cx_scratch ctx) = SCRATCH_ELEMENTS" and "cx_dle_seen ctx = of_bool p" and "cx_data_input_closed ctx = 0"
    and "undle p (io_word4 io) = (os, q, c)" and "io_word8 io = int (length (io_word4 io))"
    and "io_word8 io \<le> uint (ff_size f) - uint (ff_count f) - 1"
  shows "\<exists>ctx' f' k n. terminal_to_fifo ctx io = Some (ctx', n) \<and> c1_tx_fifo ctx' = Some f' \<and> fifo_wf f' \<and>
    ff_size f' = ff_size f \<and> ff_fill f' = ff_fill f \<and> fifo_held f' = fifo_held f @ map ucast os @ replicate k 0 \<and> k \<le> 20 \<and> (\<not> c \<longrightarrow> k = 0) \<and>
    cx_dle_seen ctx' = of_bool q \<and> cx_data_input_closed ctx' = of_bool c \<and> length (cx_scratch ctx') = SCRATCH_ELEMENTS \<and>
    c1_tx_bytes_per_block ctx' = c1_tx_bytes_per_block ctx"
proof -
  have small: "length os + 1 \<le> unat (ff_size f) - unat (ff_count f)"
  proof -
    have "int (length (io_word4 io)) \<le> int (unat (ff_size f)) - int (unat (ff_count f)) - 1"
      using assms(8,9) by (simp only: uint_nat)
    moreover have "length os \<le> length (io_word4 io)" using length_undle [of p "io_word4 io"] assms(7) by simp
    ultimately show ?thesis by linarith
  qed
  then have len: "length os \<le> SCRATCH_ELEMENTS" using assms(3) by simp
  let ?pad = "data_pad os c"
  let ?n = "length os + length ?pad"
  obtain ctx1 where h: "handle_data_input ctx (io_word4 io) (int (length (io_word4 io))) = Some (ctx1, int ?n)"
    and t: "take ?n (cx_scratch ctx1) = map ucast os @ ?pad"
    and r: "length (cx_scratch ctx1) = SCRATCH_ELEMENTS" "cx_dle_seen ctx1 = of_bool q" "cx_data_input_closed ctx1 = of_bool c"
    using handle_data_input_undle [OF assms(7) len assms(4-6)] by blast
  have m: "class1_line.more ctx1 = class1_line.more ctx" using handle_data_input_more [OF h] .
  have same: "c1_tx_fifo ctx1 = c1_tx_fifo ctx" "c1_tx_bytes_per_block ctx1 = c1_tx_bytes_per_block ctx"
    using more_ok(4,5) [OF m] .
  have n: "?n \<le> SCRATCH_ELEMENTS" using len by (auto simp: data_pad_def)
  then have u: "unat (of_nat ?n :: u16) = ?n" by (intro unat_of_nat_u16) (simp add: SCRATCH_ELEMENTS_def)
  define w where "w = min ?n (unat (ff_size f) - unat (ff_count f))"
  obtain f' where f': "FIFO_write f (cx_scratch ctx1) (of_nat ?n) = Some (f', of_nat w)" "fifo_wf f'" "ff_size f' = ff_size f"
    "ff_fill f' = ff_fill f" "fifo_held f' = fifo_held f @ take w (cx_scratch ctx1)"
    using FIFO_write_correct [OF assms(2), of "of_nat ?n" "cx_scratch ctx1" w] u r(1) n by (auto simp: w_def)
  have "length os \<le> w" using small by (simp add: w_def)
  moreover have "take w (cx_scratch ctx1) = take w (map ucast os @ ?pad)"
    unfolding t [symmetric] by (simp add: w_def)
  ultimately have "take w (cx_scratch ctx1) = map ucast os @ take (w - length os) ?pad" by simp
  also have "?pad = replicate (length ?pad) 0" by (simp add: data_pad_def)
  finally have "take w (cx_scratch ctx1) = map ucast os @ replicate (min (w - length os) (length ?pad)) 0"
    by (simp only: take_replicate)
  moreover have "length ?pad \<le> 20" "\<not> c \<Longrightarrow> length ?pad = 0" by (simp_all add: data_pad_def CLASS1_ETX_PAD_ELEMENTS_def)
  moreover have "terminal_to_fifo ctx io = Some (ctx1\<lparr>c1_tx_fifo := Some f'\<rparr>, int ?n)"
    using h same(1) assms(1,8) f'(1) by (simp add: terminal_to_fifo_def)
  ultimately show ?thesis using f' r same(2) by (intro exI [of _ "ctx1\<lparr>c1_tx_fifo := Some f'\<rparr>"] exI [of _ f']) auto
qed

lemma fifo_to_block_spec:
  assumes "c1_tx_fifo ctx = Some f" and "fifo_wf f" and "length (cx_scratch ctx) = SCRATCH_ELEMENTS"
    and "c1_tx_bytes_per_block ctx = int b" and "b \<le> SCRATCH_ELEMENTS"
  shows "\<exists>ctx' f'. fifo_to_block ctx = Some (ctx', of_nat (min (length (fifo_held f)) b)) \<and> c1_tx_fifo ctx' = Some f' \<and> fifo_wf f' \<and>
    take b (cx_scratch ctx') = take b (fifo_held f @ replicate b (ff_fill f)) \<and> fifo_held f' = drop b (fifo_held f)"
proof -
  define n where "n = min (length (fifo_held f)) b"
  have u: "unat (of_nat b :: u16) = b" using assms(5) by (intro unat_of_nat_u16) (simp add: SCRATCH_ELEMENTS_def)
  let ?xs = "take n (fifo_held f) @ replicate (b - n) (ff_fill f)"
  obtain f' where f': "FIFO_read f (of_nat b) = Some (f', ?xs, of_nat n)" "fifo_wf f'" "fifo_held f' = drop n (fifo_held f)"
    using FIFO_read_correct [OF assms(2), of n "of_nat b"] u by (auto simp: n_def)
  have x: "length ?xs = b" by (simp add: n_def)
  then have "store_all (cx_scratch ctx) 0 ?xs = Some (overlay (cx_scratch ctx) 0 ?xs)"
    using assms(3,5) by (intro store_all_overlay) simp
  moreover have "take b (overlay (cx_scratch ctx) 0 ?xs) = ?xs"
    using x assms(3,5) take_overlay [of 0 ?xs "cx_scratch ctx"] by simp
  moreover have "?xs = take b (fifo_held f @ replicate b (ff_fill f))" "drop n (fifo_held f) = drop b (fifo_held f)"
    by (auto simp: n_def min_def)
  ultimately show ?thesis using f' assms(1,4) by (auto simp: fifo_to_block_def n_def)
qed


subsection \<open>What destruction frees\<close>

lemma vmi_frees_distinct:
  "vmi_frees env part v = Some xs \<Longrightarrow> inj part \<Longrightarrow> distinct xs \<and> set xs \<subseteq> range part"
  by (auto simp: vmi_frees_def FAXVMI_delete_def bind_eq_Some_conv inj_eq split: option.splits)

lemma modem_frees_cases:
  assumes "modem_frees env ctx = Some (ctx', m)"
  shows "(m = [] \<and> ctx' = ctx \<and> (c1_modem_vmi ctx = None \<or> c1_vmi_b ctx = None)) \<or>
    (\<exists>cfg parts. c1_modem_vmi ctx = Some cfg \<and> c1_vmi_b ctx \<noteq> None \<and> distinct parts \<and> set parts \<subseteq> range Vmi_B_Part \<and>
      (m = rx_modem_frees cfg @ parts \<and> c1_tx_fifo ctx' = c1_tx_fifo ctx \<or>
       m = [Modem_Cfg, Modem_Vmi] @ parts @ (if c1_tx_fifo ctx \<noteq> None then [Tx_Fifo] else []) \<and> c1_tx_fifo ctx' = None))"
proof (cases "c1_modem_vmi ctx = None \<or> c1_vmi_b ctx = None")
  case True
  then show ?thesis using assms by (auto simp: modem_frees_def split: option.splits)
next
  case False
  then obtain cfg v where cv: "c1_modem_vmi ctx = Some cfg" "c1_vmi_b ctx = Some v" by auto
  then obtain parts where parts: "vmi_frees env Vmi_B_Part (c1_vmi_b ctx) = Some parts"
    using assms by (auto simp: modem_frees_def bind_eq_Some_conv)
  have "distinct parts \<and> set parts \<subseteq> range Vmi_B_Part" using vmi_frees_distinct [OF parts] by (simp add: inj_def)
  moreover have "m = rx_modem_frees cfg @ parts \<and> c1_tx_fifo ctx' = c1_tx_fifo ctx \<or>
       m = [Modem_Cfg, Modem_Vmi] @ parts @ (if c1_tx_fifo ctx \<noteq> None then [Tx_Fifo] else []) \<and> c1_tx_fifo ctx' = None"
    using assms cv parts
    by (cases "c1_modem_direction ctx = CLASS1_MODEM_DIR_RX")
       (auto simp: modem_frees_def bind_eq_Some_conv delete_data_rx_modem_def delete_data_tx_modem_def)
  ultimately show ?thesis using cv by blast
qed

lemma modem_frees_distinct:
  assumes "modem_frees env ctx = Some (ctx', m)"
  defines "f \<equiv> if c1_tx_fifo ctx' \<noteq> None then [Tx_Fifo] else []"
  shows "distinct (m @ f)" "set (m @ f) \<subseteq> {Ratesave, Coefsave1, Coefsave0, Modem_Cfg, Modem_Vmi, Tx_Fifo} \<union> range Vmi_B_Part"
    "Tx_Fifo \<in> set (m @ f) \<longleftrightarrow> c1_tx_fifo ctx \<noteq> None"
    "Modem_Vmi \<in> set m \<longleftrightarrow> c1_modem_vmi ctx \<noteq> None \<and> c1_vmi_b ctx \<noteq> None"
  using modem_frees_cases [OF assms(1)] unfolding f_def by (auto simp: rx_modem_frees_def split: if_splits)

subsection \<open>Properties\<close>

text \<open>C14: Whatever a caller does with a session --- creating it, creating it again, commands with any
  arguments, blocks with any samples, status requests, in any order and with any modems --- its state
  is always one of the nineteen the handler table has an entry for, a pending status is a known one
  due within two blocks, the frames kept for replay are a well-formed sequence of records of at most
  255 elements, and the two control-channel modems and the tone generator exist.\<close>

theorem class1_reachable_ok:
  assumes "class1_reach env raw ctx" and "length (c1_superframe raw) = 256"
  shows "0 \<le> c1_state ctx \<and> nat (c1_state ctx) < length (class1_state_functions :: ('m, 'c, 's, 'q, 't) class1_handler list) \<and>
    c1_delayed_status_countdown ctx \<in> {0..2} \<and>
    (c1_delayed_status_countdown ctx \<noteq> 0 \<longrightarrow>
       c1_delayed_status ctx \<in> {FAX_CLASS1_OK, FAX_CLASS1_ERROR, FAX_CLASS1_NO_CARRIER}) \<and>
    (\<exists>frames. superframe_holds ctx frames) \<and> c1_vmi_a ctx \<noteq> None \<and> c1_vmi_c ctx \<noteq> None \<and> c1_tone ctx \<noteq> None \<and>
    (c1_modem_vmi ctx = None \<longleftrightarrow> c1_vmi_b ctx = None)"
  using reach_ok [OF assms] by (auto simp: class1_ok_def class1_state_functions_def CLASS1_MAX_STATES_def)

theorem class1_reachable_ok_witness:
  "\<exists>ctx. fax_class1_create demo_env demo_raw None demo_answer = Some ctx \<and>
    0 \<le> c1_state ctx \<and> nat (c1_state ctx) < length (class1_state_functions :: (unit, unit, unit, unit, unit) class1_handler list) \<and>
    c1_delayed_status_countdown ctx \<in> {0..2} \<and>
    (c1_delayed_status_countdown ctx \<noteq> 0 \<longrightarrow>
       c1_delayed_status ctx \<in> {FAX_CLASS1_OK, FAX_CLASS1_ERROR, FAX_CLASS1_NO_CARRIER}) \<and>
    (\<exists>frames. superframe_holds ctx frames) \<and> c1_vmi_a ctx \<noteq> None \<and> c1_vmi_c ctx \<noteq> None \<and> c1_tone ctx \<noteq> None \<and>
    (c1_modem_vmi ctx = None \<longleftrightarrow> c1_vmi_b ctx = None)"
proof -
  obtain ctx where c: "fax_class1_create demo_env demo_raw None demo_answer = Some ctx"
    using demo_created by (cases "fax_class1_create demo_env demo_raw None demo_answer") auto
  from class1_reachable_ok [OF class1_reach.create [OF c]] c show ?thesis by (simp add: demo_raw_def)
qed

text \<open>C39: The block call of any reachable session answers one of the eleven status codes, the one it
  stored, and it leaves the session in a state of the table.\<close>

theorem progress_status_known:
  assumes "class1_reach env raw ctx" and "length (c1_superframe raw) = 256"
    and "fax_class1_progress env ctx io = Some (ctx', io', st)"
  shows "st \<in> {FAX_CLASS1_NO_MESSAGE..FAX_CLASS1_ACCEPT_RATE} \<and> c1_status ctx' = st \<and>
    c1_state ctx' \<in> {0..<CLASS1_MAX_STATES} \<and> c1_prev_state ctx' = c1_state ctx'"
  using progress_good [OF reach_ok [OF assms(1,2)], of env io] assms(3)
  by (auto simp: opt_all_def good_def status_known_def class1_ok_def)

theorem progress_status_known_witness:
  "\<exists>ctx ctx' io' st. fax_class1_create demo_env demo_raw None demo_answer = Some ctx \<and>
    fax_class1_progress demo_env ctx demo_io = Some (ctx', io', st) \<and>
    st \<in> {FAX_CLASS1_NO_MESSAGE..FAX_CLASS1_ACCEPT_RATE} \<and> c1_status ctx' = st \<and>
    c1_state ctx' \<in> {0..<CLASS1_MAX_STATES} \<and> c1_prev_state ctx' = c1_state ctx'"
proof -
  obtain ctx r where c: "fax_class1_create demo_env demo_raw None demo_answer = Some ctx"
    and p: "fax_class1_progress demo_env ctx demo_io = Some r"
    using demo_progress by (auto simp: bind_eq_Some_conv)
  obtain ctx' io' st where r: "r = (ctx', io', st)" by (cases r)
  from progress_status_known [OF class1_reach.create [OF c], of demo_io ctx' io' st] c p show ?thesis
    by (auto simp: r demo_raw_def)
qed

text \<open>C15: Frames that arrived in command mode reach the terminal in order and whole: with at most
  twelve frames kept, each request and the four blocks after it answer CONNECT, nothing, nothing and OK and hand
  over exactly one frame, escaped and terminated, in the third block; in the other three there are no octets,
  so the OK comes in the block after the data. After the last frame nothing is kept.\<close>

theorem superframe_replay:
  assumes "superframe_holds ctx (map (map ucast) octets)" and "length octets \<le> CLASS1_EMU_MAX_FRAMES"
    and "c1_superframe_read_idx ctx = 0" and "c1_delayed_status_countdown ctx = 0" and "c1_state ctx = CLASS1_IDLE_STATE"
    and "c1_prev_state ctx = CLASS1_IDLE_STATE" and "list_all poll_io qs" and "length qs = length octets"
  shows "\<exists>ctx'. poll_frames env ctx qs =
      Some (ctx', map (\<lambda>os. [(FAX_CLASS1_CONNECT, []), (FAX_CLASS1_NO_MESSAGE, []),
                             (FAX_CLASS1_NO_MESSAGE, dle_stuff os @ [CLASS1_DLE, CLASS1_ETX]), (FAX_CLASS1_OK, [])]) octets) \<and>
    c1_superframe_len ctx' = 0 \<and> c1_superframe_read_idx ctx' = 0"
proof -
  have "replay_ready ctx (map (map ucast) octets) 0"
    using assms(1,3-6) by (auto simp: replay_ready_def replay_left_def superframe_holds_def class1_states)
  from poll_frames_replay [OF this, of octets qs env] assms(2,7,8) show ?thesis
    unfolding replayed_def [abs_def] by (auto simp: replay_ready_def replay_left_def superframe_holds_Nil)
qed

theorem superframe_replay_witness:
  "\<exists>ctx'. poll_frames demo_env (demo_kept 0) (replicate 2 (demo_io, demo_io, demo_io, demo_io)) =
      Some (ctx', map (\<lambda>os. [(FAX_CLASS1_CONNECT, []), (FAX_CLASS1_NO_MESSAGE, []),
                             (FAX_CLASS1_NO_MESSAGE, dle_stuff os @ [CLASS1_DLE, CLASS1_ETX]), (FAX_CLASS1_OK, [])]) [[0xff, 0x10], [0x13]]) \<and>
    c1_superframe_len ctx' = 0 \<and> c1_superframe_read_idx ctx' = 0"
proof -
  have f: "c1_superframe_read_idx (demo_kept 0) = 0" "c1_delayed_status_countdown (demo_kept 0) = 0"
    "c1_state (demo_kept 0) = CLASS1_IDLE_STATE" "c1_prev_state (demo_kept 0) = CLASS1_IDLE_STATE"
    by (simp_all add: demo_kept_def)
  have q: "list_all poll_io (replicate 2 (demo_io, demo_io, demo_io, demo_io))"
    using demo_block by (simp add: list_all_iff poll_io_def)
  show ?thesis
    by (rule superframe_replay [OF demo_kept_holds _ f q]) (simp_all add: CLASS1_EMU_MAX_FRAMES_def)
qed

text \<open>C40: The scan over the kept records ends and finds their lengths when there are at most twelve;
  a thirteenth is written past the end of the table.\<close>

theorem emu_parse_total:
  assumes "superframe_holds ctx frames"
  shows "emu_parse (c1_superframe ctx) (c1_superframe_len ctx) 0 [] =
      (if length frames \<le> 12 then Some (map length frames) else None)"
  using emu_parse_holds [OF assms] by (simp add: CLASS1_EMU_MAX_FRAMES_def)

theorem emu_parse_total_witness:
  "emu_parse (c1_superframe (demo_kept 0)) (c1_superframe_len (demo_kept 0)) 0 [] = Some [2, 1]"
  using emu_parse_total [OF demo_kept_holds [of 0]] by simp

text \<open>A replay that was cut short by another command leaves its position behind. The command
  drops the kept frames and keeps the index, and when fewer frames than that are kept later, a
  request for one answers NO CARRIER and keeps them all where they are, as often as it is repeated.\<close>

theorem stale_replay_index:
  assumes "superframe_holds ctx' frames" and "length frames \<le> CLASS1_EMU_MAX_FRAMES" and "int (length frames) < c1_superframe_read_idx ctx'"
    and "c1_superframe_countdown ctx' \<le> 0" and "nat CLASS1_BLOCK_SAMPLES \<le> length (io_tx io)"
  shows "(\<exists>ctx1. fax_class1_command env ctx FAX_CLASS1_TS_COMMAND a3 a4 = Some ctx1 \<and> c1_superframe_len ctx1 = 0 \<and>
      c1_superframe_read_idx ctx1 = c1_superframe_read_idx ctx) \<and>
    (\<exists>ctx2 io2. hdlc_emulate_receive_state env ctx' io = Some (ctx2, io2) \<and>
      c1_status ctx2 = FAX_CLASS1_NO_CARRIER_NO_MESSAGE \<and> c1_state ctx2 = CLASS1_IDLE_STATE \<and>
      superframe_holds ctx2 frames \<and> c1_superframe_read_idx ctx2 = c1_superframe_read_idx ctx' \<and> io_word7 io2 = io_word7 io)"
proof
  show "\<exists>ctx1. fax_class1_command env ctx FAX_CLASS1_TS_COMMAND a3 a4 = Some ctx1 \<and> c1_superframe_len ctx1 = 0 \<and>
      c1_superframe_read_idx ctx1 = c1_superframe_read_idx ctx"
    by (simp add: fax_class1_command_def class1_commands send_silence_state_init_def)
  obtain tx where t: "silent_block io = Some (io\<lparr>io_tx := tx, io_tx_count := CLASS1_BLOCK_SAMPLES\<rparr>)"
    using silent_block_eq [OF assms(5)] by blast
  have parse: "emu_parse (c1_superframe ctx') (c1_superframe_len ctx') 0 [] = Some (map length frames)"
    using emu_parse_holds [OF assms(1)] assms(2) by simp
  let ?ctx2 = "ctx'\<lparr>c1_superframe_countdown := c1_superframe_countdown ctx' - 1,
      c1_status := FAX_CLASS1_NO_CARRIER_NO_MESSAGE, c1_state := CLASS1_IDLE_STATE\<rparr>"
  have "hdlc_emulate_receive_state env ctx' io = Some (?ctx2, io\<lparr>io_tx := tx, io_tx_count := CLASS1_BLOCK_SAMPLES\<rparr>)"
    using parse t assms(3,4) by (simp add: hdlc_emulate_receive_state_def emu_send_def Let_def)
  moreover have "superframe_holds ?ctx2 frames" using assms(1) by (simp add: superframe_holds_def)
  ultimately show "\<exists>ctx2 io2. hdlc_emulate_receive_state env ctx' io = Some (ctx2, io2) \<and>
      c1_status ctx2 = FAX_CLASS1_NO_CARRIER_NO_MESSAGE \<and> c1_state ctx2 = CLASS1_IDLE_STATE \<and>
      superframe_holds ctx2 frames \<and> c1_superframe_read_idx ctx2 = c1_superframe_read_idx ctx' \<and> io_word7 io2 = io_word7 io"
    by simp
qed


theorem stale_replay_index_witness:
  "(\<exists>ctx1. fax_class1_command demo_env (demo_kept 5) FAX_CLASS1_TS_COMMAND 7 0 = Some ctx1 \<and> c1_superframe_len ctx1 = 0 \<and>
      c1_superframe_read_idx ctx1 = c1_superframe_read_idx (demo_kept 5)) \<and>
    (\<exists>ctx2 io2. hdlc_emulate_receive_state demo_env (demo_kept 5) demo_io = Some (ctx2, io2) \<and>
      c1_status ctx2 = FAX_CLASS1_NO_CARRIER_NO_MESSAGE \<and> c1_state ctx2 = CLASS1_IDLE_STATE \<and>
      superframe_holds ctx2 (map (map ucast) [[0xff, 0x10 :: u8], [0x13]]) \<and>
      c1_superframe_read_idx ctx2 = c1_superframe_read_idx (demo_kept 5) \<and> io_word7 io2 = io_word7 demo_io)"
  by (rule stale_replay_index [OF demo_kept_holds])
     (simp_all add: demo_kept_def demo_raw_def demo_io_def CLASS1_EMU_MAX_FRAMES_def CLASS1_BLOCK_SAMPLES_def)

text \<open>C18: The silence commands and the start of a transmission keep their times. Asked for \<open>n\<close>
  silent units, the session is silent and answers OK in block \<open>max 1 (n div 2)\<close> and in no other;
  asked to send control frames, it is silent for four blocks and answers CONNECT in the fourth.\<close>

theorem silence_times:
  assumes "list_all block_io ios" and "0 \<le> n" and "inert ctx"
    and "c1_vmi_c ctx = Some vmi" and "unat (vm_slot vmi) < 5 + length (en_pumps env)"
  shows "(\<exists>ctx1 ctx' outs. fax_class1_command env ctx FAX_CLASS1_TS_COMMAND n a4 = Some ctx1 \<and>
      class1_run env ctx1 ios = Some (ctx', outs) \<and> list_all silent_tx (map snd outs) \<and>
      map fst outs = map (\<lambda>i. if int i = max 1 (n div 2) then FAX_CLASS1_OK_NO_CARRIER else FAX_CLASS1_NO_MESSAGE) [1..<Suc (length ios)]) \<and>
    (length ios = 4 \<longrightarrow>
      (\<exists>ctx1 ctx' outs. fax_class1_command env ctx FAX_CLASS1_TH_COMMAND 3 a4 = Some ctx1 \<and>
        class1_run env ctx1 ios = Some (ctx', outs) \<and> list_all silent_tx (map snd outs) \<and>
        map fst outs = [FAX_CLASS1_NO_MESSAGE, FAX_CLASS1_NO_MESSAGE, FAX_CLASS1_NO_MESSAGE, FAX_CLASS1_CONNECT] \<and>
        c1_state ctx' = CLASS1_T30_PREAMBLE_STATE))"
proof (intro conjI impI)
  have half: "half_count n = max 1 (n div 2)"
    using assms(2) by (cases "n = 0") (auto simp: half_count_def Let_def signed_divide_int_def max_def)
  let ?c = "send_silence_state_init n (ctx\<lparr>c1_superframe_len := 0\<rparr>)"
  have "inert ?c" "c1_state ?c = CLASS1_SEND_SILENCE_STATE" "c1_countdown ?c = max 1 (n div 2)"
    using assms(3) by (simp_all add: send_silence_state_init_def inert_def half)
  moreover have "fax_class1_command env ctx FAX_CLASS1_TS_COMMAND n a4 = Some ?c"
    by (simp add: fax_class1_command_def class1_commands)
  ultimately show "\<exists>ctx1 ctx' outs. fax_class1_command env ctx FAX_CLASS1_TS_COMMAND n a4 = Some ctx1 \<and>
      class1_run env ctx1 ios = Some (ctx', outs) \<and> list_all silent_tx (map snd outs) \<and>
      map fst outs = map (\<lambda>i. if int i = max 1 (n div 2) then FAX_CLASS1_OK_NO_CARRIER else FAX_CLASS1_NO_MESSAGE) [1..<Suc (length ios)]"
    using ts_run [OF assms(1), of ?c env] by auto
next
  assume "length ios = 4"
  then obtain i1 i2 i3 i4 where ios: "ios = [i1, i2, i3, i4]"
    by (auto simp: numeral_eq_Suc length_Suc_conv)
  obtain dp where dp: "vxx_slot (en_pumps env) (vm_slot vmi) = Some dp" using vxx_slot_in [OF assms(5)] by blast
  obtain ctx1 where c: "fax_class1_command env ctx FAX_CLASS1_TH_COMMAND 3 a4 = Some ctx1"
    and f: "inert ctx1" "c1_state ctx1 = CLASS1_T30_SILENCE_BEFORE_PREAMBLE_STATE" "c1_countdown ctx1 = 0"
    using assms(3,4) dp
    by (auto simp: fax_class1_command_def class1_commands cHDLCtx_preamble_state_init_def FAXVMI_control_def FAXVMI_CTL_def
        handle_hdlc_input_open_def inert_def quality_mod_def case_prod_beta)
  show "\<exists>ctx1 ctx' outs. fax_class1_command env ctx FAX_CLASS1_TH_COMMAND 3 a4 = Some ctx1 \<and>
        class1_run env ctx1 ios = Some (ctx', outs) \<and> list_all silent_tx (map snd outs) \<and>
        map fst outs = [FAX_CLASS1_NO_MESSAGE, FAX_CLASS1_NO_MESSAGE, FAX_CLASS1_NO_MESSAGE, FAX_CLASS1_CONNECT] \<and>
        c1_state ctx' = CLASS1_T30_PREAMBLE_STATE"
    using th_run [OF _ _ _ _ f, of i1 i2 i3 i4 env] assms(1) c unfolding ios by auto
qed

theorem silence_times_witness:
  "\<exists>ctx ctx1 ctx' outs. fax_class1_create demo_env demo_raw None demo_answer = Some ctx \<and>
    fax_class1_command demo_env ctx FAX_CLASS1_TS_COMMAND 5 0 = Some ctx1 \<and>
    class1_run demo_env ctx1 (replicate 4 demo_io) = Some (ctx', outs) \<and> map fst outs = [0, 3, 0, 0]"
proof -
  obtain ctx where c: "fax_class1_create demo_env demo_raw None demo_answer = Some ctx"
    using demo_created by (cases "fax_class1_create demo_env demo_raw None demo_answer") auto
  obtain vmi where v: "c1_vmi_c ctx = Some vmi" "vm_slot vmi = VMI_SLOT_V21TX" using demo_slot c by auto
  have "inert ctx" using c by (auto simp: fax_class1_create_def bind_eq_Some_conv demo_answer_def CLASS1_ANS_ORG_ANSWER_def
      inert_def quality_mod_def)
  moreover have "list_all block_io (replicate 4 demo_io)"
    using demo_block by (simp add: list_all_iff)
  ultimately have "\<exists>ctx1 ctx' outs. fax_class1_command demo_env ctx FAX_CLASS1_TS_COMMAND 5 0 = Some ctx1 \<and>
      class1_run demo_env ctx1 (replicate 4 demo_io) = Some (ctx', outs) \<and> list_all silent_tx (map snd outs) \<and>
      map fst outs = map (\<lambda>i. if int i = max 1 (5 div 2) then FAX_CLASS1_OK_NO_CARRIER else FAX_CLASS1_NO_MESSAGE)
        [1..<Suc (length (replicate 4 demo_io))]"
    using silence_times [of "replicate 4 demo_io" 5 ctx vmi demo_env 0] v by (simp add: demo_env_def VMI_SLOT_V21TX_def)
  then show ?thesis using c by (auto simp: upt_rec class1_statuses)
qed

text \<open>The transmitter's own decoding of a rate code agrees with \<^verbatim>\<open>_set_modem_rate\<close> on every
  code, and a block of data at the decoded rate is a whole number of octets that fits the longest
  frame of the interface configured for the modulation.\<close>

theorem rate_codes_agree:
  "snd (snd (tx_code code (a, b, 0, 0))) = set_modem_rate code (0, 0) \<and>
   (case set_modem_rate code (0, 0) of (modu, rate) \<Rightarrow>
      400 * (rate sdiv 400) = rate \<and>
      (\<exists>init. rd_at init_vmi_data_tx_modem (nat modu) = Some init \<and>
         rate sdiv 400 \<le> uint (fc_max_frame (init env (of_int rate)))) \<and>
      (rate = 0 \<or> 2 \<le> sym_size rate \<and> sym_size rate \<le> 6))"
proof -
  have "snd (snd (tx_code code (a, b, 0, 0))) = set_modem_rate code (0, 0)"
    by (simp add: tx_code_def set_modem_rate_def Let_def)
  moreover have "set_modem_rate code (0, 0) \<in> {(0, 0), (2, 0x3840), (2, 0x2ee0), (2, 0x2580), (2, 0x1c20), (1, 0x2580),
      (1, 0x1c20), (0, 0x12c0), (0, 0x960)}"
    by (simp add: set_modem_rate_def Let_def)
  ultimately show ?thesis
    by (auto simp: init_vmi_data_tx_modem_def rd_at_def init_vmi_v27tx_def init_vmi_v29tx_def init_vmi_v17tx_def
        sym_size_def signed_divide_int_def)
qed

text \<open>Destruction frees every block at most once, the transmit FIFO exactly when there is one,
  the configurations of the control channel when they exist, and the session last.\<close>

theorem class1_delete_frees:
  assumes "fax_class1_delete env ctx = Some bs"
  shows "distinct bs \<and> (Tx_Fifo \<in> set bs \<longleftrightarrow> c1_tx_fifo ctx \<noteq> None) \<and> last bs = Session \<and>
    (Vmi_C_Cfg \<in> set bs \<longleftrightarrow> c1_vmi_c_cfg ctx \<noteq> None) \<and> (Vmi_A_Cfg \<in> set bs \<longleftrightarrow> c1_vmi_a_cfg ctx \<noteq> None) \<and>
    (Modem_Vmi \<in> set bs \<longleftrightarrow> c1_modem_vmi ctx \<noteq> None \<and> c1_vmi_b ctx \<noteq> None)"
proof -
  obtain cp ap ctx' m where cp: "vmi_frees env Vmi_C_Part (c1_vmi_c ctx) = Some cp"
    and ap: "vmi_frees env Vmi_A_Part (c1_vmi_a ctx) = Some ap" and m: "modem_frees env ctx = Some (ctx', m)"
    and bs: "bs = (if c1_vmi_c_cfg ctx \<noteq> None then [V21tx_Cfg, Vmi_C_Cfg] else []) @ cp @
      (if c1_vmi_a_cfg ctx \<noteq> None then [V21rx_Cfg, Vmi_A_Cfg] else []) @ ap @ m @
      (if c1_tx_fifo ctx' \<noteq> None then [Tx_Fifo] else []) @ (if c1_tone ctx' \<noteq> None then [Tone_Block] else []) @ [Session]"
    using assms by (auto simp: fax_class1_delete_def bind_eq_Some_conv Let_def)
  let ?f = "if c1_tx_fifo ctx' \<noteq> None then [Tx_Fifo] else []"
  have c: "distinct cp" "set cp \<subseteq> range Vmi_C_Part" and a: "distinct ap" "set ap \<subseteq> range Vmi_A_Part"
    using vmi_frees_distinct [OF cp] vmi_frees_distinct [OF ap] by (auto simp: inj_def)
  have "distinct bs"
    using c a modem_frees_distinct(1,2) [OF m] unfolding bs by fastforce
  moreover have "Tx_Fifo \<in> set bs \<longleftrightarrow> Tx_Fifo \<in> set (m @ ?f)" "Modem_Vmi \<in> set bs \<longleftrightarrow> Modem_Vmi \<in> set m"
    using c(2) a(2) unfolding bs by auto
  moreover have "Vmi_C_Cfg \<in> set bs \<longleftrightarrow> c1_vmi_c_cfg ctx \<noteq> None" "Vmi_A_Cfg \<in> set bs \<longleftrightarrow> c1_vmi_a_cfg ctx \<noteq> None"
    using c(2) a(2) modem_frees_distinct(2) [OF m] unfolding bs by auto
  ultimately show ?thesis using modem_frees_distinct(3,4) [OF m] by (simp add: bs)
qed

theorem class1_delete_frees_witness:
  "\<exists>bs. fax_class1_delete demo_env (demo_raw\<lparr>c1_tx_fifo := Some demo_fifo\<rparr>) = Some bs \<and> distinct bs \<and> Tx_Fifo \<in> set bs"
proof -
  have "fax_class1_delete demo_env (demo_raw\<lparr>c1_tx_fifo := Some demo_fifo\<rparr>) = Some [Tx_Fifo, Session]"
    by (simp add: fax_class1_delete_def vmi_frees_def modem_frees_def demo_raw_def)
  with class1_delete_frees [OF this] show ?thesis by simp
qed

text \<open>C16: A terminal that honours the room it was told loses nothing: the octets of a call, unescaped,
  join the transmit FIFO behind what it holds, followed by at most 20 zeros when the data ends, and
  the next block of the transmitter takes the oldest elements in order, padded when there are too few.\<close>

theorem tx_path_lossless:
  assumes "c1_tx_fifo ctx = Some f" and "fifo_wf f" and "unat (ff_size f) \<le> SCRATCH_ELEMENTS"
    and "length (cx_scratch ctx) = SCRATCH_ELEMENTS" and "cx_dle_seen ctx = of_bool p" and "cx_data_input_closed ctx = 0"
    and "undle p (io_word4 io) = (os, q, c)" and "io_word8 io = int (length (io_word4 io))"
    and "fifo_room ctx = Some room" and "io_word8 io \<le> room"
    and "c1_tx_bytes_per_block ctx = int b" and "b \<le> SCRATCH_ELEMENTS"
  shows "\<exists>ctx1 n ctx2 f2 k. terminal_to_fifo ctx io = Some (ctx1, n) \<and> k \<le> 20 \<and> (\<not> c \<longrightarrow> k = 0) \<and>
    fifo_to_block ctx1 = Some (ctx2, of_nat (min (length (fifo_held f) + length os + k) b)) \<and>
    take b (cx_scratch ctx2) = take b (fifo_held f @ map ucast os @ replicate k 0 @ replicate b (ff_fill f)) \<and>
    c1_tx_fifo ctx2 = Some f2 \<and> fifo_wf f2 \<and> fifo_held f2 = drop b (fifo_held f @ map ucast os @ replicate k 0)"
proof -
  have "io_word8 io \<le> uint (ff_size f) - uint (ff_count f) - 1" using assms(1,9,10) by (simp add: fifo_room_def)
  from terminal_to_fifo_spec [OF assms(1-8) this] obtain ctx1 f1 k n where
    1: "terminal_to_fifo ctx io = Some (ctx1, n)" "c1_tx_fifo ctx1 = Some f1" "fifo_wf f1" "ff_fill f1 = ff_fill f"
      "fifo_held f1 = fifo_held f @ map ucast os @ replicate k 0" "k \<le> 20" "\<not> c \<longrightarrow> k = 0"
      "length (cx_scratch ctx1) = SCRATCH_ELEMENTS" "c1_tx_bytes_per_block ctx1 = int b"
    using assms(11) by auto
  from fifo_to_block_spec [OF 1(2,3,8,9) assms(12)] obtain ctx2 f2 where
    2: "fifo_to_block ctx1 = Some (ctx2, of_nat (min (length (fifo_held f1)) b))" "c1_tx_fifo ctx2 = Some f2" "fifo_wf f2"
      "take b (cx_scratch ctx2) = take b (fifo_held f1 @ replicate b (ff_fill f1))" "fifo_held f2 = drop b (fifo_held f1)"
    by blast
  have "length (fifo_held f1) = length (fifo_held f) + length os + k" unfolding 1(5) by simp
  then show ?thesis using 1(1,4-7) 2 by (metis append_assoc)
qed


theorem tx_path_lossless_witness:
  "\<exists>ctx1 n ctx2 f2 k. terminal_to_fifo demo_tx demo_data = Some (ctx1, n) \<and> k \<le> 20 \<and> (\<not> True \<longrightarrow> k = 0) \<and>
    fifo_to_block ctx1 = Some (ctx2, of_nat (min (length (fifo_held demo_fifo) + length [0x41, 0x10 :: u8] + k) 3)) \<and>
    take 3 (cx_scratch ctx2) = take 3 (fifo_held demo_fifo @ map ucast [0x41, 0x10 :: u8] @ replicate k 0 @ replicate 3 (ff_fill demo_fifo)) \<and>
    c1_tx_fifo ctx2 = Some f2 \<and> fifo_wf f2 \<and> fifo_held f2 = drop 3 (fifo_held demo_fifo @ map ucast [0x41, 0x10 :: u8] @ replicate k 0)"
  by (rule tx_path_lossless [where p = False and q = False and room = 39])
     (simp_all add: demo_tx_def demo_data_def demo_io_def demo_raw_def demo_fifo_def fifo_wf_def ring_wf_def SCRATCH_ELEMENTS_def
        CLASS1_DLE_def CLASS1_ETX_def fifo_room_def)

end
