(* ===== verification/V34Scram.thy ===== *)
theory V34Scram
  imports Prelude
begin

unbundle bit_operations_syntax

text \<open>
  The V.34 scramblers of \<^verbatim>\<open>src/pump/v34/v34scram.c\<close>. A register of four words advances by
  sixteen bits at a time; its last word is the window the framer reads its fields from. The
  descrambler collects bits in its first word and gives sixteen of them back whenever it holds
  more than 31. The part of \<^verbatim>\<open>struct v34_object\<close> these functions use is
  \<open>v34_object\<close> here, with the frames of both directions added in a later theory.
\<close>

record v34_scrambler =
  sc_w0 :: u32
  sc_w1 :: u32
  sc_w2 :: u32
  sc_w3 :: u32
  sc_nbits :: u16

record v34_descrambler =
  ds_w0 :: u32
  ds_w1 :: u32
  ds_w2 :: u32
  ds_count :: u16

record v34_object =
  vo_rx_data :: "u32 list"
  vo_rx_n :: u32
  vo_tx_data :: "u32 list"
  vo_tx_n :: u32
  vo_tx_rd :: u32
  vo_data_enable :: u16
  vo_scrambler :: v34_scrambler
  vo_descrambler :: v34_descrambler

subsection \<open>The words in and out\<close>

definition scram_input :: "'a v34_object_scheme \<Rightarrow> ('a v34_object_scheme \<times> u32) option" where
  "scram_input obj =
     (if vo_data_enable obj \<noteq> 0 \<and> vo_tx_rd obj < vo_tx_n obj then do {
        v \<leftarrow> rd_at (vo_tx_data obj) (unat (vo_tx_rd obj));
        Some (obj\<lparr>vo_tx_rd := vo_tx_rd obj + 1\<rparr>, ucast (ucast v :: u16))
      } else Some (obj, 0xffff))"

definition scram_output :: "'a v34_object_scheme \<Rightarrow> u32 \<Rightarrow> 'a v34_object_scheme option" where
  "scram_output obj word =
     (if vo_data_enable obj \<noteq> 0 \<and> vo_rx_n obj \<le> 0x3f then do {
        rx \<leftarrow> wr_at (vo_rx_data obj) (unat (vo_rx_n obj)) word;
        Some (obj\<lparr>vo_rx_data := rx, vo_rx_n := vo_rx_n obj + 1\<rparr>)
      } else Some obj)"

subsection \<open>Scrambling\<close>

definition gpc_step :: "u32 \<Rightarrow> v34_scrambler \<Rightarrow> v34_scrambler" where
  "gpc_step inp s =
     (let w0 = push_bit 16 inp OR drop_bit 16 (sc_w0 s);
          w1 = push_bit 2 (sc_w3 s) OR drop_bit 16 (sc_w1 s);
          w2 = push_bit 7 (sc_w3 s) OR drop_bit 16 (sc_w2 s)
      in s\<lparr>sc_w0 := w0, sc_w1 := w1, sc_w2 := w2, sc_w3 := w0 XOR w1 XOR w2\<rparr>)"

definition scrambleGPC :: "'a v34_object_scheme \<Rightarrow> u16 \<Rightarrow> ('a v34_object_scheme \<times> u16) option" where
  "scrambleGPC obj nbits = do {
     (obj, inp) \<leftarrow> scram_input obj;
     Some (obj\<lparr>vo_scrambler := gpc_step inp (vo_scrambler obj)\<rparr>, nbits - 16)
   }"

definition gpa_step :: "u32 \<Rightarrow> v34_scrambler \<Rightarrow> v34_scrambler" where
  "gpa_step inp s =
     (let w3 = sc_w3 s;
          h1 = drop_bit 16 (sc_w1 s);
          w0 = push_bit 16 inp OR drop_bit 16 (sc_w0 s);
          w2 = push_bit 7 w3 OR drop_bit 16 (sc_w2 s);
          t = w0 XOR w2;
          a = (drop_bit 11 w3 OR h1) XOR t;
          a = (push_bit 5 a OR h1) XOR t;
          a = (push_bit 5 a OR h1) XOR t;
          a = (push_bit 5 a OR h1) XOR t
      in s\<lparr>sc_w0 := w0, sc_w2 := w2, sc_w3 := a, sc_w1 := h1 OR push_bit 5 a\<rparr>)"

definition scrambleGPA :: "'a v34_object_scheme \<Rightarrow> u16 \<Rightarrow> ('a v34_object_scheme \<times> u16) option" where
  "scrambleGPA obj nbits = do {
     (obj, inp) \<leftarrow> scram_input obj;
     Some (obj\<lparr>vo_scrambler := gpa_step inp (vo_scrambler obj)\<rparr>, nbits - 16)
   }"

subsection \<open>Descrambling\<close>

text \<open>The shift in the tail is by the count before the call's bits were added, less sixteen.\<close>

definition descram_tail :: "v34_descrambler \<Rightarrow> u32 \<Rightarrow> u32 \<Rightarrow> u32 \<Rightarrow> u16 \<Rightarrow> v34_descrambler" where
  "descram_tail d w1 w2 bits nbits =
     (let count = ds_count d - 16
      in d\<lparr>ds_w1 := w1, ds_w2 := w2, ds_count := count,
           ds_w0 := drop_bit 16 (ds_w0 d) OR push_bit (nat ((sint count - sint nbits) mod 32)) bits\<rparr>)"

text \<open>The bits enter above the ones held; a shift by 32 or more is outside C.\<close>

definition descram_take :: "v34_descrambler \<Rightarrow> u16 \<Rightarrow> u16 \<Rightarrow> v34_descrambler option" where
  "descram_take d bits nbits =
     (if unat (ds_count d) \<ge> 32 then None
      else Some (d\<lparr>ds_w0 := ds_w0 d OR push_bit (unat (ds_count d)) (ucast bits), ds_count := ds_count d + nbits\<rparr>))"

definition descrambleGPC :: "'a v34_object_scheme \<Rightarrow> u16 \<Rightarrow> u16 \<Rightarrow> 'a v34_object_scheme option" where
  "descrambleGPC obj bits nbits = do {
     d \<leftarrow> descram_take (vo_descrambler obj) bits nbits;
     let obj = obj\<lparr>vo_descrambler := d\<rparr>;
     if sint (ds_count d) \<le> 0x1f then Some obj
     else do {
       let w0 = ds_w0 d;
       let w1 = ds_w1 d;
       let w2 = ds_w2 d;
       obj \<leftarrow> scram_output obj (ucast (ucast (w0 XOR w1 XOR w2) :: u16));
       Some (obj\<lparr>vo_descrambler := descram_tail d (push_bit 2 w0 OR drop_bit 16 w1) (push_bit 7 w0 OR drop_bit 16 w2)
         (ucast bits) nbits\<rparr>)
     }
   }"

definition descrambleGPA :: "'a v34_object_scheme \<Rightarrow> u16 \<Rightarrow> u16 \<Rightarrow> 'a v34_object_scheme option" where
  "descrambleGPA obj bits nbits = do {
     d \<leftarrow> descram_take (vo_descrambler obj) bits nbits;
     let obj = obj\<lparr>vo_descrambler := d\<rparr>;
     if sint (ds_count d) \<le> 0x1f then Some obj
     else do {
       let w0 = ds_w0 d;
       let w1 = ds_w1 d;
       let w2 = ds_w2 d;
       let t = push_bit 5 w0 OR w1;
       obj \<leftarrow> scram_output obj (ucast (ucast (w0 XOR t XOR w2) :: u16));
       Some (obj\<lparr>vo_descrambler := descram_tail d (drop_bit 16 t) (push_bit 7 w0 OR drop_bit 16 w2) (ucast bits) nbits\<rparr>)
     }
   }"

text \<open>Which of the two polynomials a callback is for.\<close>

datatype v34_poly = GPC | GPA

fun scramble :: "v34_poly \<Rightarrow> 'a v34_object_scheme \<Rightarrow> u16 \<Rightarrow> ('a v34_object_scheme \<times> u16) option" where
  "scramble GPC obj nbits = scrambleGPC obj nbits"
| "scramble GPA obj nbits = scrambleGPA obj nbits"

fun descramble :: "v34_poly \<Rightarrow> 'a v34_object_scheme \<Rightarrow> u16 \<Rightarrow> u16 \<Rightarrow> 'a v34_object_scheme option" where
  "descramble GPC obj bits nbits = descrambleGPC obj bits nbits"
| "descramble GPA obj bits nbits = descrambleGPA obj bits nbits"

subsection \<open>The bit streams\<close>

text \<open>
  The recommendation's serial definition: the line bit is the data bit plus the line bits
  \<open>near\<close> and 23 places back. Data are words of sixteen bits, the low bit first; before time 0
  everything is zero.
\<close>

fun near :: "v34_poly \<Rightarrow> nat" where
  "near GPC = 18"
| "near GPA = 5"

lemma near_pos [simp]: "Suc 0 \<le> near p" "near p < 23"
  by (cases p; simp)+

definition data_bit :: "(nat \<Rightarrow> u16) \<Rightarrow> int \<Rightarrow> bool" where
  "data_bit ws t \<longleftrightarrow> 0 \<le> t \<and> bit (ws (nat t div 16)) (nat t mod 16)"

function line_bit :: "v34_poly \<Rightarrow> (nat \<Rightarrow> u16) \<Rightarrow> int \<Rightarrow> bool" where
  "line_bit p ws t =
     (if 0 \<le> t then data_bit ws t \<noteq> (line_bit p ws (t - int (near p)) \<noteq> line_bit p ws (t - 23)) else False)"
  by pat_completeness auto
termination
  by (relation "measure (\<lambda>(p, ws, t). nat (t + 1))") auto

declare line_bit.simps [simp del]

lemma line_bit_neg: "t < 0 \<Longrightarrow> \<not> line_bit p ws t"
  using line_bit.simps [of p ws t] by simp

lemma line_bit_eq:
  "line_bit p ws t = (data_bit ws t \<noteq> (line_bit p ws (t - int (near p)) \<noteq> line_bit p ws (t - 23)))"
proof (cases "0 \<le> t")
  case False
  then show ?thesis using near_pos(1) [of p] by (simp add: data_bit_def line_bit_neg)
qed (simp add: line_bit.simps [of p ws t])

text \<open>The register after the bits before \<open>T\<close>: the last 32 of each stream.\<close>

definition reg_at :: "v34_poly \<Rightarrow> (nat \<Rightarrow> u16) \<Rightarrow> nat \<Rightarrow> v34_scrambler \<Rightarrow> bool" where
  "reg_at p ws T s \<longleftrightarrow> (\<forall>k < 32.
     bit (sc_w0 s) k = data_bit ws (int T - 32 + int k) \<and>
     bit (sc_w1 s) k = line_bit p ws (int T - 32 + int k - int (near p)) \<and>
     bit (sc_w2 s) k = line_bit p ws (int T - 32 + int k - 23) \<and>
     bit (sc_w3 s) k = line_bit p ws (int T - 32 + int k))"

fun scr_step :: "v34_poly \<Rightarrow> u32 \<Rightarrow> v34_scrambler \<Rightarrow> v34_scrambler" where
  "scr_step GPC = gpc_step"
| "scr_step GPA = gpa_step"

lemma reg_at_cleared: "reg_at p ws 0 \<lparr>sc_w0 = 0, sc_w1 = 0, sc_w2 = 0, sc_w3 = 0, sc_nbits = nb\<rparr>"
  by (simp add: reg_at_def data_bit_def line_bit_neg)

lemma new_data_bit:
  assumes "k < 16"
  shows "bit (ws n) k = data_bit ws (int (16 * n) + int k)"
proof -
  have "nat (int (16 * n) + int k) = 16 * n + k" by linarith
  then show ?thesis using assms by (simp add: data_bit_def)
qed

lemma bit_u32_high [simp]: "32 \<le> k \<Longrightarrow> \<not> bit (w :: u32) k"
  by (auto dest: bit_imp_le_length)

lemma reg_w0:
  assumes "\<forall>k < 32. bit w0 k = data_bit ws (int (16 * n) - 32 + int k)" and "k < 32"
  shows "bit (push_bit 16 (ucast (ws n)) OR drop_bit 16 w0 :: u32) k = data_bit ws (int (16 * n) - 16 + int k)"
proof (cases "k < 16")
  case True
  then show ?thesis using assms(1) [rule_format, of "16 + k"] by (simp add: bit_simps algebra_simps)
next
  case False
  then have "int (16 * n) + int (k - 16) = int (16 * n) - 16 + int k" by simp
  with False show ?thesis using assms(2) new_data_bit [of "k - 16" ws n]
    by (simp add: bit_simps possible_bit_def algebra_simps)
qed

text \<open>A delayed copy: the window shifted up, the old copy's upper half below it.\<close>

lemma reg_delay:
  assumes "\<forall>k < 32. bit w3 k = line_bit p ws (T - 32 + int k)"
    and "\<forall>k < 32. bit w k = line_bit p ws (T - 32 + int k - int (16 + d))" and "d < 16" and "k < 32"
  shows "bit (push_bit d w3 OR drop_bit 16 w :: u32) k = line_bit p ws (T - 16 + int k - int (16 + d))"
proof (cases "d \<le> k")
  case True
  then have "bit w3 (k - d) = line_bit p ws (T - 16 + int k - int (16 + d))"
    using assms(1) [rule_format, of "k - d"] assms(4) by (simp add: of_nat_diff algebra_simps)
  moreover have "bit w (16 + k) = line_bit p ws (T - 16 + int k - int (16 + d))" if "k < 16"
    using assms(2) [rule_format, of "16 + k"] that by (simp add: algebra_simps)
  ultimately show ?thesis using True assms(4)
    by (cases "k < 16") (auto simp: bit_simps possible_bit_def)
next
  case False
  then have "bit w (16 + k) = line_bit p ws (T - 16 + int k - int (16 + d))"
    using assms(2) [rule_format, of "16 + k"] assms(3) by (simp add: algebra_simps)
  then show ?thesis using False assms(3) by (simp add: bit_simps)
qed

lemma gpc_step_at:
  assumes "reg_at GPC ws (16 * n) s"
  shows "reg_at GPC ws (16 * Suc n) (gpc_step (ucast (ws n)) s)"
proof -
  have r: "\<forall>k < 32. bit (sc_w0 s) k = data_bit ws (int (16 * n) - 32 + int k)"
    "\<forall>k < 32. bit (sc_w1 s) k = line_bit GPC ws (int (16 * n) - 32 + int k - int (16 + 2))"
    "\<forall>k < 32. bit (sc_w2 s) k = line_bit GPC ws (int (16 * n) - 32 + int k - int (16 + 7))"
    "\<forall>k < 32. bit (sc_w3 s) k = line_bit GPC ws (int (16 * n) - 32 + int k)"
    using assms by (simp_all add: reg_at_def)
  note b = reg_w0 [OF r(1)] reg_delay [OF r(4,2)] reg_delay [OF r(4,3)]
  show ?thesis unfolding reg_at_def
  proof (intro allI impI conjI)
    fix k :: nat assume k: "k < 32"
    let ?t = "int (16 * Suc n) - 32 + int k"
    have t: "int (16 * n) - 16 + int k = ?t" by simp
    show 0: "bit (sc_w0 (gpc_step (ucast (ws n)) s)) k = data_bit ws ?t"
      using b(1) [OF k] unfolding gpc_step_def Let_def t by simp
    show 1: "bit (sc_w1 (gpc_step (ucast (ws n)) s)) k = line_bit GPC ws (?t - int (near GPC))"
      using b(2) [OF _ k] unfolding gpc_step_def Let_def t by simp
    show 2: "bit (sc_w2 (gpc_step (ucast (ws n)) s)) k = line_bit GPC ws (?t - 23)"
      using b(3) [OF _ k] unfolding gpc_step_def Let_def t by simp
    show "bit (sc_w3 (gpc_step (ucast (ws n)) s)) k = line_bit GPC ws ?t"
      unfolding line_bit_eq [of GPC ws ?t] 0 [symmetric] 1 [symmetric] 2 [symmetric]
      by (simp add: gpc_step_def Let_def bit_simps)
  qed
qed

text \<open>The near tap of GPA lies inside a step, so each fold makes five more bits final.\<close>

definition settled :: "(nat \<Rightarrow> u16) \<Rightarrow> int \<Rightarrow> nat \<Rightarrow> u32 \<Rightarrow> bool" where
  "settled ws T m a \<longleftrightarrow> (\<forall>k < 32. k < m \<longrightarrow> bit a k = line_bit GPA ws (T + int k))"

lemma fold_bit:
  assumes "bit b k \<or> bit h k \<longleftrightarrow> line_bit GPA ws (T + int k - 5)"
    and "bit t k = (data_bit ws (T + int k) \<noteq> line_bit GPA ws (T + int k - 23))"
  shows "bit ((b OR h) XOR t :: u32) k = line_bit GPA ws (T + int k)"
  using assms line_bit_eq [of GPA ws "T + int k"] by (auto simp: bit_simps)

lemma gpa_fold:
  assumes "settled ws T m a" and h: "\<forall>k < 16. bit h k = line_bit GPA ws (T + int k - 5)" and h16: "\<forall>k \<ge> 16. \<not> bit h k"
    and t: "\<forall>k < 32. bit t k = (data_bit ws (T + int k) \<noteq> line_bit GPA ws (T + int k - 23))"
  shows "settled ws T (m + 5) ((push_bit 5 a OR h) XOR t)"
  unfolding settled_def
proof (intro allI impI)
  fix k :: nat assume k: "k < 32" "k < m + 5"
  have "bit (push_bit 5 a) k = line_bit GPA ws (T + int k - 5)" if "5 \<le> k"
    using assms(1) k that by (auto simp: settled_def bit_simps possible_bit_def of_nat_diff algebra_simps)
  moreover have "\<not> bit (push_bit 5 a) k" if "k < 5" using that by (simp add: bit_simps)
  ultimately have "bit (push_bit 5 a) k \<or> bit h k \<longleftrightarrow> line_bit GPA ws (T + int k - 5)"
    using h h16 by (cases "5 \<le> k"; cases "k < 16") auto
  then show "bit ((push_bit 5 a OR h) XOR t) k = line_bit GPA ws (T + int k)" using t k by (intro fold_bit) auto
qed

lemma gpa_step_at:
  assumes "reg_at GPA ws (16 * n) s"
  shows "reg_at GPA ws (16 * Suc n) (gpa_step (ucast (ws n)) s)"
proof -
  let ?T = "int (16 * n) - 16"
  have r: "\<forall>k < 32. bit (sc_w0 s) k = data_bit ws (int (16 * n) - 32 + int k)"
    "\<forall>k < 32. bit (sc_w1 s) k = line_bit GPA ws (int (16 * n) - 32 + int k - 5)"
    "\<forall>k < 32. bit (sc_w2 s) k = line_bit GPA ws (int (16 * n) - 32 + int k - int (16 + 7))"
    "\<forall>k < 32. bit (sc_w3 s) k = line_bit GPA ws (int (16 * n) - 32 + int k)"
    using assms by (simp_all add: reg_at_def)
  let ?h = "drop_bit 16 (sc_w1 s)" and ?w0 = "push_bit 16 (ucast (ws n)) OR drop_bit 16 (sc_w0 s) :: u32"
    and ?w2 = "push_bit 7 (sc_w3 s) OR drop_bit 16 (sc_w2 s)"
  let ?t = "?w0 XOR ?w2"
  have w0: "\<forall>k < 32. bit ?w0 k = data_bit ws (?T + int k)"
    using reg_w0 [OF r(1)] by simp
  have w2: "\<forall>k < 32. bit ?w2 k = line_bit GPA ws (?T + int k - 23)" using reg_delay [OF r(4,3)] by simp
  have t: "\<forall>k < 32. bit ?t k = (data_bit ws (?T + int k) \<noteq> line_bit GPA ws (?T + int k - 23))"
    using w0 w2 by (simp add: bit_xor_iff)
  have h: "\<forall>k < 16. bit ?h k = line_bit GPA ws (?T + int k - 5)" and h16: "\<forall>k \<ge> 16. \<not> bit ?h k"
    using r(2) by (auto simp: bit_simps algebra_simps)
  have "settled ws ?T 21 ((drop_bit 11 (sc_w3 s) OR ?h) XOR ?t)"
    unfolding settled_def
  proof (intro allI impI)
    fix k :: nat assume k: "k < 32" "k < 21"
    then have "bit (drop_bit 11 (sc_w3 s)) k = line_bit GPA ws (?T + int k - 5)"
      using r(4) [rule_format, of "11 + k"] by (simp add: bit_simps algebra_simps)
    then have "bit (drop_bit 11 (sc_w3 s)) k \<or> bit ?h k \<longleftrightarrow> line_bit GPA ws (?T + int k - 5)"
      using h h16 by (cases "k < 16") auto
    then show "bit ((drop_bit 11 (sc_w3 s) OR ?h) XOR ?t) k = line_bit GPA ws (?T + int k)"
      using t k by (intro fold_bit) auto
  qed
  from gpa_fold [OF gpa_fold [OF gpa_fold [OF this h h16 t] h h16 t] h h16 t]
  have w3: "\<forall>k < 32. bit (sc_w3 (gpa_step (ucast (ws n)) s)) k = line_bit GPA ws (?T + int k)"
    by (simp add: settled_def gpa_step_def Let_def)
  have "bit (?h OR push_bit 5 (sc_w3 (gpa_step (ucast (ws n)) s))) k = line_bit GPA ws (?T + int k - 5)" if k: "k < 32" for k
  proof -
    have "bit (push_bit 5 (sc_w3 (gpa_step (ucast (ws n)) s))) k = line_bit GPA ws (?T + int k - 5)" if "5 \<le> k"
      using w3 [rule_format, of "k - 5"] k that by (auto simp: bit_push_bit_iff possible_bit_def of_nat_diff algebra_simps)
    moreover have "\<not> bit (push_bit 5 (sc_w3 (gpa_step (ucast (ws n)) s))) k" if "k < 5" using that by (simp add: bit_push_bit_iff)
    ultimately show ?thesis using h h16 unfolding bit_or_iff by (cases "5 \<le> k"; cases "k < 16") auto
  qed
  then have w1: "\<forall>k < 32. bit (sc_w1 (gpa_step (ucast (ws n)) s)) k = line_bit GPA ws (?T + int k - 5)"
    by (simp add: gpa_step_def Let_def)
  have "sc_w0 (gpa_step (ucast (ws n)) s) = ?w0" "sc_w2 (gpa_step (ucast (ws n)) s) = ?w2"
    by (simp_all add: gpa_step_def Let_def)
  moreover have "int (16 * Suc n) - 32 = ?T" by simp
  ultimately show ?thesis unfolding reg_at_def using w0 w1 w2 w3 by simp
qed

lemma scr_step_at: "reg_at p ws (16 * n) s \<Longrightarrow> reg_at p ws (16 * Suc n) (scr_step p (ucast (ws n)) s)"
  using gpc_step_at gpa_step_at by (cases p) auto

lemma scr_step_nbits [simp]: "sc_nbits (scr_step p inp s) = sc_nbits s"
  by (cases p) (simp_all add: gpc_step_def gpa_step_def Let_def)

text \<open>The word the \<open>n\<close>-th step takes in, and the transmitter after \<open>n\<close> steps.\<close>

definition tx_word :: "'a v34_object_scheme \<Rightarrow> nat \<Rightarrow> u16" where
  "tx_word obj n =
     (if vo_data_enable obj \<noteq> 0 \<and> n < unat (vo_tx_n obj) then ucast (vo_tx_data obj ! n) else 0xffff)"

definition sent :: "v34_poly \<Rightarrow> 'a v34_object_scheme \<Rightarrow> nat \<Rightarrow> bool" where
  "sent p obj n \<longleftrightarrow> reg_at p (tx_word obj) (16 * n) (vo_scrambler obj) \<and> unat (vo_tx_n obj) \<le> length (vo_tx_data obj) \<and>
     (vo_data_enable obj \<noteq> 0 \<longrightarrow> unat (vo_tx_rd obj) = min n (unat (vo_tx_n obj)))"

lemma tx_word_update [simp]: "tx_word (obj\<lparr>vo_tx_rd := r\<rparr>) = tx_word obj" "tx_word (obj\<lparr>vo_scrambler := s\<rparr>) = tx_word obj"
  by (simp_all add: tx_word_def fun_eq_iff)

lemma scramble_eq:
  "scramble p obj nb = do {
     (obj, inp) \<leftarrow> scram_input obj;
     Some (obj\<lparr>vo_scrambler := scr_step p inp (vo_scrambler obj)\<rparr>, nb - 16)
   }"
  by (cases p) (simp_all add: scrambleGPC_def scrambleGPA_def)

lemma scram_input_word:
  assumes "sent p obj n"
  shows "\<exists>r. scram_input obj = Some (obj\<lparr>vo_tx_rd := r\<rparr>, ucast (tx_word obj n)) \<and>
           (vo_data_enable obj \<noteq> 0 \<longrightarrow> unat r = min (Suc n) (unat (vo_tx_n obj)))"
proof (cases "vo_data_enable obj \<noteq> 0 \<and> n < unat (vo_tx_n obj)")
  case True
  then have r: "unat (vo_tx_rd obj) = n" using assms by (simp add: sent_def)
  have "unat (vo_tx_n obj) < 4294967296" using unsigned_less [of "vo_tx_n obj"] by simp
  then have "Suc n < 4294967296" using True by simp
  then have "unat (vo_tx_rd obj + 1) = Suc n" using r by (simp add: unat_word_ariths)
  then show ?thesis using True r assms
    by (auto simp: scram_input_def tx_word_def sent_def word_less_nat_alt mem_simps)
next
  case False
  then have "scram_input obj = Some (obj\<lparr>vo_tx_rd := vo_tx_rd obj\<rparr>, ucast (tx_word obj n))"
    using assms by (auto simp: scram_input_def tx_word_def sent_def word_less_nat_alt)
  with False assms show ?thesis by (intro exI [of _ "vo_tx_rd obj"]) (auto simp: sent_def)
qed

lemma scramble_sent:
  assumes "sent p obj n"
  shows "\<exists>r s. scramble p obj nb = Some (obj\<lparr>vo_tx_rd := r, vo_scrambler := s\<rparr>, nb - 16) \<and>
           sent p (obj\<lparr>vo_tx_rd := r, vo_scrambler := s\<rparr>) (Suc n) \<and> sc_nbits s = sc_nbits (vo_scrambler obj)"
proof -
  obtain r where r: "scram_input obj = Some (obj\<lparr>vo_tx_rd := r\<rparr>, ucast (tx_word obj n))"
    and "vo_data_enable obj \<noteq> 0 \<longrightarrow> unat r = min (Suc n) (unat (vo_tx_n obj))"
    using scram_input_word [OF assms] by auto
  moreover have "reg_at p (tx_word obj) (16 * Suc n) (scr_step p (ucast (tx_word obj n)) (vo_scrambler obj))"
    using assms by (intro scr_step_at) (simp add: sent_def)
  ultimately show ?thesis using assms
    by (intro exI [of _ r] exI [of _ "scr_step p (ucast (tx_word obj n)) (vo_scrambler obj)"]) (simp add: scramble_eq sent_def)
qed

subsection \<open>The descrambled stream\<close>

definition zbit :: "bool list \<Rightarrow> int \<Rightarrow> bool" where
  "zbit bs t \<longleftrightarrow> 0 \<le> t \<and> t < int (length bs) \<and> bs ! nat t"

definition descr_bit :: "v34_poly \<Rightarrow> bool list \<Rightarrow> int \<Rightarrow> bool" where
  "descr_bit p bs t = (zbit bs t \<noteq> (zbit bs (t - int (near p)) \<noteq> zbit bs (t - 23)))"

definition out_word :: "v34_poly \<Rightarrow> bool list \<Rightarrow> nat \<Rightarrow> u16" where
  "out_word p bs j = horner_sum of_bool 2 (map (\<lambda>k. descr_bit p bs (int (16 * j) + int k)) [0..<16])"

text \<open>
  The descrambler that was given \<open>bs\<close> and gave back \<open>m\<close> words: the bits pending, and the two
  delayed copies, of which only the places below the delay are sure to be filled.
\<close>

definition ds_at :: "v34_poly \<Rightarrow> bool list \<Rightarrow> nat \<Rightarrow> v34_descrambler \<Rightarrow> bool" where
  "ds_at p bs m d \<longleftrightarrow> 16 * m \<le> length bs \<and> unat (ds_count d) = length bs - 16 * m \<and> unat (ds_count d) < 32 \<and>
     (\<forall>k < 32. bit (ds_w0 d) k = zbit bs (int (16 * m) + int k)) \<and>
     (\<forall>k < 32. bit (ds_w1 d) k \<longrightarrow> zbit bs (int (16 * m) + int k - int (near p))) \<and>
     (\<forall>k < near p. bit (ds_w1 d) k = zbit bs (int (16 * m) + int k - int (near p))) \<and>
     (\<forall>k < 32. bit (ds_w2 d) k \<longrightarrow> zbit bs (int (16 * m) + int k - 23)) \<and>
     (\<forall>k < 23. bit (ds_w2 d) k = zbit bs (int (16 * m) + int k - 23))"

lemma zbit_append [simp]: "t < int (length bs) \<Longrightarrow> zbit (bs @ cs) t = zbit bs t"
  by (auto simp: zbit_def nth_append)

lemma zbit_mono: "zbit bs t \<Longrightarrow> zbit (bs @ cs) t"
  by (auto simp: zbit_def nth_append)

lemma bit_out_word: "bit (out_word p bs j) k \<longleftrightarrow> k < 16 \<and> descr_bit p bs (int (16 * j) + int k)"
  by (auto simp: out_word_def bit_horner_sum_bit_word_iff possible_bit_def)

lemma out_word_append: "16 * Suc j \<le> length bs \<Longrightarrow> out_word p (bs @ cs) j = out_word p bs j"
  by (auto simp: out_word_def descr_bit_def intro!: arg_cong [where f = "horner_sum of_bool 2"])

lemma ds_cleared: "ds_at p [] 0 \<lparr>ds_w0 = 0, ds_w1 = 0, ds_w2 = 0, ds_count = 0\<rparr>"
  by (simp add: ds_at_def zbit_def)

text \<open>The bits of a field, the low one first.\<close>

definition field_bits :: "nat \<Rightarrow> u16 \<Rightarrow> bool list" where
  "field_bits n v = map (bit v) [0..<n]"

lemma length_field_bits [simp]: "length (field_bits n v) = n"
  by (simp add: field_bits_def)

lemma zbit_field:
  "int (length bs) \<le> t \<Longrightarrow> zbit (bs @ field_bits n v) t = (t < int (length bs + n) \<and> bit v (nat t - length bs))"
  by (auto simp: zbit_def nth_append field_bits_def)

text \<open>Between the new bits and the tail: all pending bits that fit are in the first word.\<close>

definition ds_taken :: "v34_poly \<Rightarrow> bool list \<Rightarrow> nat \<Rightarrow> nat \<Rightarrow> u16 \<Rightarrow> v34_descrambler \<Rightarrow> bool" where
  "ds_taken p bs m n v d \<longleftrightarrow>
     (let zs = bs @ field_bits n v
      in 16 * m \<le> length bs \<and> length bs - 16 * m < 32 \<and> unat (ds_count d) = length zs - 16 * m \<and>
       (\<forall>k < 32. bit (ds_w0 d) k = zbit zs (int (16 * m) + int k)) \<and>
       (\<forall>k < 32. bit (ds_w1 d) k \<longrightarrow> zbit zs (int (16 * m) + int k - int (near p))) \<and>
       (\<forall>k < near p. bit (ds_w1 d) k = zbit zs (int (16 * m) + int k - int (near p))) \<and>
       (\<forall>k < 32. bit (ds_w2 d) k \<longrightarrow> zbit zs (int (16 * m) + int k - 23)) \<and>
       (\<forall>k < 23. bit (ds_w2 d) k = zbit zs (int (16 * m) + int k - 23)))"

lemma descram_take_taken:
  assumes "ds_at p bs m d" and "n \<le> 16" and "\<forall>k \<ge> n. \<not> bit v k"
  shows "\<exists>d'. descram_take d v (of_nat n) = Some d' \<and> ds_taken p bs m n v d'"
proof -
  let ?c = "unat (ds_count d)" and ?zs = "bs @ field_bits n v"
  have c: "16 * m \<le> length bs" "?c = length bs - 16 * m" "?c < 32"
    and w0: "\<forall>k < 32. bit (ds_w0 d) k = zbit bs (int (16 * m) + int k)" using assms(1) by (auto simp: ds_at_def)
  have "bit (ds_w0 d OR push_bit ?c (ucast v)) k = zbit ?zs (int (16 * m) + int k)" if k: "k < 32" for k
  proof (cases "k < ?c")
    case True
    then have "int (16 * m) + int k < int (length bs)" using c by linarith
    with True w0 k show ?thesis by (simp add: bit_simps)
  next
    case False
    then have t: "int (length bs) \<le> int (16 * m) + int k" using c by linarith
    have "nat (int (16 * m) + int k) - length bs = k - ?c" using c False by linarith
    moreover have "int (16 * m) + int k < int (length bs + n) \<longleftrightarrow> k - ?c < n" using c False by linarith
    moreover have "\<not> zbit bs (int (16 * m) + int k)" using t by (simp add: zbit_def)
    ultimately show ?thesis using w0 k False assms(3) zbit_field [OF t, of n v]
      by (auto simp: bit_simps possible_bit_def)
  qed
  moreover have "unat (ds_count d + of_nat n) = length ?zs - 16 * m"
    using c assms(2) by (simp add: unat_word_ariths unat_of_nat take_bit_nat_eq_self)
  moreover have "zbit ?zs (int (16 * m) + int k - int (near p)) = zbit bs (int (16 * m) + int k - int (near p))" if "k < near p" for k
    using c that by simp
  moreover have "zbit ?zs (int (16 * m) + int k - 23) = zbit bs (int (16 * m) + int k - 23)" if "k < 23" for k
    using c that by simp
  moreover have "\<forall>k < 32. bit (ds_w1 d) k \<longrightarrow> zbit ?zs (int (16 * m) + int k - int (near p))"
    "\<forall>k < 32. bit (ds_w2 d) k \<longrightarrow> zbit ?zs (int (16 * m) + int k - 23)"
    using assms(1) zbit_mono unfolding ds_at_def by blast+
  moreover have "\<forall>k < near p. bit (ds_w1 d) k = zbit bs (int (16 * m) + int k - int (near p))"
    "\<forall>k < 23. bit (ds_w2 d) k = zbit bs (int (16 * m) + int k - 23)"
    using assms(1) unfolding ds_at_def by blast+
  ultimately have "ds_taken p bs m n v (d\<lparr>ds_w0 := ds_w0 d OR push_bit ?c (ucast v), ds_count := ds_count d + of_nat n\<rparr>)"
    using c unfolding ds_taken_def Let_def by simp
  then show ?thesis using c by (simp add: descram_take_def)
qed

lemma ds_taken_short: "ds_taken p bs m n v d \<Longrightarrow> unat (ds_count d) < 32 \<Longrightarrow> ds_at p (bs @ field_bits n v) m d"
  by (auto simp: ds_taken_def ds_at_def Let_def)

lemma ds_tail_at:
  assumes "ds_taken p bs m n v d" and "32 \<le> unat (ds_count d)" and "n \<le> 16" and "\<forall>k \<ge> n. \<not> bit v k"
    and "\<forall>k < 32. bit w1 k \<longrightarrow> zbit (bs @ field_bits n v) (int (16 * Suc m) + int k - int (near p))"
    and "\<forall>k < near p. bit w1 k = zbit (bs @ field_bits n v) (int (16 * Suc m) + int k - int (near p))"
  shows "ds_at p (bs @ field_bits n v) (Suc m)
      (descram_tail d w1 (push_bit 7 (ds_w0 d) OR drop_bit 16 (ds_w2 d)) (ucast v) (of_nat n))"
proof -
  let ?zs = "bs @ field_bits n v"
  obtain c where bs: "length bs = 16 * m + c" using assms(1) by (auto simp: ds_taken_def Let_def le_iff_add)
  have t: "16 * m \<le> length bs" "c < 32" "unat (ds_count d) = c + n"
    "\<forall>k < 32. bit (ds_w0 d) k = zbit ?zs (int (16 * m) + int k)"
    "\<forall>k < 32. bit (ds_w2 d) k \<longrightarrow> zbit ?zs (int (16 * m) + int k - 23)"
    "\<forall>k < 23. bit (ds_w2 d) k = zbit ?zs (int (16 * m) + int k - 23)"
    using assms(1) bs by (auto simp: ds_taken_def Let_def)
  have c16: "16 \<le> c" using t assms(2,3) by linarith
  have cnt: "unat (ds_count d - 16) = c + n - 16" using t(3) assms(2) by (simp add: unat_sub_if_size)
  have "ds_count d - 16 = of_nat (unat (ds_count d - 16))" by simp
  then have "ds_count d - 16 = of_nat (c + n - 16)" unfolding cnt .
  then have "sint (ds_count d - 16) = int (c + n - 16)" "sint (of_nat n :: u16) = int n"
    using t(2) assms(3) by (simp_all add: signed_of_nat signed_take_bit_int_eq_self)
  then have sh: "nat ((sint (ds_count d - 16) - sint (of_nat n :: u16)) mod 32) = c - 16"
    using c16 t(2) by (simp add: of_nat_diff nat_diff_distrib')
  have w0: "bit (drop_bit 16 (ds_w0 d) OR push_bit (c - 16) (ucast v)) k = zbit ?zs (int (16 * Suc m) + int k)" if k: "k < 32" for k
  proof -
    have ix: "int (16 * Suc m) + int k = int (16 * m) + int (16 + k)" by simp
    have v: "zbit ?zs (int (16 * Suc m) + int k) = bit v (k - (c - 16))" if ge: "c - 16 \<le> k"
    proof -
      obtain e where e: "c = 16 + e" using c16 le_Suc_ex by blast
      obtain j where j: "k = e + j" using ge e le_Suc_ex [of e k] by auto
      have "nat (int (16 * Suc m) + int k) = length bs + j" by (simp add: bs e j nat_add_distrib nat_mult_distrib)
      then show ?thesis using zbit_field [of bs "int (16 * Suc m) + int k" n v] assms(4) by (auto simp: bs e j)
    qed
    have "bit (ds_w0 d) (16 + k) = zbit ?zs (int (16 * Suc m) + int k)" if "k < 16"
      using t(4) [rule_format, of "16 + k"] that unfolding ix by simp
    then show ?thesis using k v c16 t(2)
      by (cases "k < 16"; cases "c - 16 \<le> k") (auto simp: bit_simps possible_bit_def)
  qed
  have w2i: "bit (push_bit 7 (ds_w0 d) OR drop_bit 16 (ds_w2 d)) k \<longrightarrow> zbit ?zs (int (16 * Suc m) + int k - 23)" if k: "k < 32" for k
    using t(4) [rule_format, of "k - 7"] t(5) [rule_format, of "16 + k"] k
    by (cases "k < 16") (auto simp: bit_simps possible_bit_def of_nat_diff algebra_simps)
  have w2: "bit (push_bit 7 (ds_w0 d) OR drop_bit 16 (ds_w2 d)) k = zbit ?zs (int (16 * Suc m) + int k - 23)" if k: "k < 23" for k
  proof (cases "7 \<le> k")
    case True
    then have "bit (ds_w0 d) (k - 7) = zbit ?zs (int (16 * Suc m) + int k - 23)"
      using t(4) [rule_format, of "k - 7"] k by (simp add: of_nat_diff algebra_simps)
    then show ?thesis using w2i [of k] k True by (auto simp: bit_simps possible_bit_def)
  next
    case False
    then show ?thesis using t(6) [rule_format, of "16 + k"] k by (simp add: bit_simps algebra_simps)
  qed
  show ?thesis unfolding ds_at_def
    using assms(5,6) w0 w2 w2i cnt sh t(1,2) bs c16 assms(3) by (simp add: descram_tail_def Let_def)
qed

lemma out_wordI:
  assumes "\<forall>k < 16. bit w k = descr_bit p bs (int (16 * m) + int k)"
  shows "ucast (w :: u32) = out_word p bs m"
  by (rule bit_word_eqI) (use assms in \<open>simp add: bit_out_word bit_simps\<close>)

lemma ds_taken_sel:
  assumes "ds_taken p bs m n v d"
  shows "k < 32 \<Longrightarrow> bit (ds_w0 d) k = zbit (bs @ field_bits n v) (int (16 * m) + int k)"
    and "k < 32 \<Longrightarrow> bit (ds_w1 d) k \<Longrightarrow> zbit (bs @ field_bits n v) (int (16 * m) + int k - int (near p))"
    and "k < near p \<Longrightarrow> bit (ds_w1 d) k = zbit (bs @ field_bits n v) (int (16 * m) + int k - int (near p))"
    and "k < 23 \<Longrightarrow> bit (ds_w2 d) k = zbit (bs @ field_bits n v) (int (16 * m) + int k - 23)"
  using assms unfolding ds_taken_def Let_def by blast+

lemma gpc_word:
  assumes "ds_taken GPC bs m n v d"
  shows "ucast (ds_w0 d XOR ds_w1 d XOR ds_w2 d) = out_word GPC (bs @ field_bits n v) m"
  using ds_taken_sel [OF assms] by (intro out_wordI) (auto simp: bit_simps descr_bit_def)

lemma gpa_tap:
  assumes "ds_taken GPA bs m n v d" and "k < 32"
  shows "bit (push_bit 5 (ds_w0 d) OR ds_w1 d) k = zbit (bs @ field_bits n v) (int (16 * m) + int k - 5)"
proof (cases "5 \<le> k")
  case True
  then have "bit (ds_w0 d) (k - 5) = zbit (bs @ field_bits n v) (int (16 * m) + int k - 5)"
    using ds_taken_sel(1) [OF assms(1), of "k - 5"] assms(2) by (simp add: of_nat_diff algebra_simps)
  then show ?thesis using True assms(2) ds_taken_sel(2) [OF assms] by (auto simp: bit_simps possible_bit_def)
next
  case False
  then show ?thesis using ds_taken_sel(3) [OF assms(1), of k] by (simp add: bit_simps)
qed

lemma gpa_word:
  assumes "ds_taken GPA bs m n v d"
  shows "ucast (ds_w0 d XOR (push_bit 5 (ds_w0 d) OR ds_w1 d) XOR ds_w2 d) = out_word GPA (bs @ field_bits n v) m"
  using ds_taken_sel [OF assms] gpa_tap [OF assms] by (intro out_wordI) (simp add: bit_xor_iff descr_bit_def)

lemma gpc_tap_new:
  assumes "ds_taken GPC bs m n v d"
  shows "\<forall>k < 32. bit (push_bit 2 (ds_w0 d) OR drop_bit 16 (ds_w1 d)) k \<longrightarrow>
      zbit (bs @ field_bits n v) (int (16 * Suc m) + int k - int (near GPC))"
    and "\<forall>k < near GPC. bit (push_bit 2 (ds_w0 d) OR drop_bit 16 (ds_w1 d)) k =
      zbit (bs @ field_bits n v) (int (16 * Suc m) + int k - int (near GPC))"
proof -
  let ?z = "zbit (bs @ field_bits n v)" and ?w = "push_bit 2 (ds_w0 d) OR drop_bit 16 (ds_w1 d)"
  have a: "bit ?w k \<longrightarrow> ?z (int (16 * Suc m) + int k - 18)" if "k < 32" for k
    using ds_taken_sel(1) [OF assms, of "k - 2"] ds_taken_sel(2) [OF assms, of "16 + k"] that
    by (cases "k < 16") (auto simp: bit_simps possible_bit_def of_nat_diff algebra_simps)
  moreover have "bit ?w k = ?z (int (16 * Suc m) + int k - 18)" if k: "k < 18" for k
  proof (cases "2 \<le> k")
    case True
    then have "bit (ds_w0 d) (k - 2) = ?z (int (16 * Suc m) + int k - 18)"
      using ds_taken_sel(1) [OF assms, of "k - 2"] k by (simp add: of_nat_diff algebra_simps)
    then show ?thesis using a [of k] k True by (auto simp: bit_simps possible_bit_def)
  next
    case False
    then show ?thesis using ds_taken_sel(3) [OF assms, of "16 + k"] by (simp add: bit_simps algebra_simps)
  qed
  ultimately show "\<forall>k < 32. bit ?w k \<longrightarrow> ?z (int (16 * Suc m) + int k - int (near GPC))"
    "\<forall>k < near GPC. bit ?w k = ?z (int (16 * Suc m) + int k - int (near GPC))" by simp_all
qed

lemma gpa_tap_new:
  assumes "ds_taken GPA bs m n v d"
  shows "\<forall>k < 32. bit (drop_bit 16 (push_bit 5 (ds_w0 d) OR ds_w1 d)) k \<longrightarrow>
      zbit (bs @ field_bits n v) (int (16 * Suc m) + int k - int (near GPA))"
    and "\<forall>k < near GPA. bit (drop_bit 16 (push_bit 5 (ds_w0 d) OR ds_w1 d)) k =
      zbit (bs @ field_bits n v) (int (16 * Suc m) + int k - int (near GPA))"
proof -
  have "bit (drop_bit 16 (push_bit 5 (ds_w0 d) OR ds_w1 d)) k = zbit (bs @ field_bits n v) (int (16 * Suc m) + int k - 5)"
    if "k < 16" for k
    using gpa_tap [OF assms, of "16 + k"] that unfolding bit_drop_bit_eq by (simp add: algebra_simps)
  moreover have "\<not> bit (drop_bit 16 (push_bit 5 (ds_w0 d) OR ds_w1 d)) k" if "16 \<le> k" for k
    using that by (simp add: bit_simps)
  ultimately show "\<forall>k < 32. bit (drop_bit 16 (push_bit 5 (ds_w0 d) OR ds_w1 d)) k \<longrightarrow>
      zbit (bs @ field_bits n v) (int (16 * Suc m) + int k - int (near GPA))"
    "\<forall>k < near GPA. bit (drop_bit 16 (push_bit 5 (ds_w0 d) OR ds_w1 d)) k =
      zbit (bs @ field_bits n v) (int (16 * Suc m) + int k - int (near GPA))"
    by (simp, metis linorder_not_less, simp)
qed

subsection \<open>The receiver\<close>

text \<open>The words given back for the bits \<open>bs\<close>, and the receiver that was given them.\<close>

definition received :: "v34_poly \<Rightarrow> bool list \<Rightarrow> u16 list" where
  "received p bs = map (out_word p bs) [0..<length bs div 16 - 1]"

definition fed :: "v34_poly \<Rightarrow> 'a v34_object_scheme \<Rightarrow> bool list \<Rightarrow> bool" where
  "fed p obj bs \<longleftrightarrow> ds_at p bs (length bs div 16 - 1) (vo_descrambler obj) \<and> length (vo_rx_data obj) = 64 \<and>
     (vo_data_enable obj \<noteq> 0 \<longrightarrow> unat (vo_rx_n obj) = min 64 (length (received p bs)) \<and>
       take (unat (vo_rx_n obj)) (vo_rx_data obj) = map ucast (take 64 (received p bs)))"

lemma whole_word:
  assumes "j < l div 16 - 1"
  shows "16 * Suc j \<le> (l :: nat)"
proof -
  have "16 * Suc j \<le> 16 * (l div 16)" using assms by simp
  also have "\<dots> \<le> l" by simp
  finally show ?thesis .
qed

lemma received_same:
  assumes "(length bs + length cs) div 16 - 1 = length bs div 16 - 1"
  shows "received p (bs @ cs) = received p bs"
proof -
  have "out_word p (bs @ cs) j = out_word p bs j" if "j < length bs div 16 - 1" for j
    using that by (intro out_word_append whole_word)
  then show ?thesis unfolding received_def length_append assms by simp
qed

lemma received_more:
  assumes "(length bs + length cs) div 16 - 1 = Suc (length bs div 16 - 1)"
  shows "received p (bs @ cs) = received p bs @ [out_word p (bs @ cs) (length bs div 16 - 1)]"
proof -
  have "out_word p (bs @ cs) j = out_word p bs j" if "j < length bs div 16 - 1" for j
    using that by (intro out_word_append whole_word)
  then show ?thesis unfolding received_def length_append assms by simp
qed

lemma scram_output_fed:
  assumes "length (vo_rx_data obj) = 64"
    and "vo_data_enable obj \<noteq> 0 \<longrightarrow> unat (vo_rx_n obj) = min 64 (length outs) \<and> take (unat (vo_rx_n obj)) (vo_rx_data obj) = map ucast (take 64 outs)"
  shows "\<exists>rx n. scram_output obj (ucast (w :: u16)) = Some (obj\<lparr>vo_rx_data := rx, vo_rx_n := n\<rparr>) \<and> length rx = 64 \<and>
    (vo_data_enable obj \<noteq> 0 \<longrightarrow> unat n = min 64 (length (outs @ [w])) \<and> take (unat n) rx = map ucast (take 64 (outs @ [w])))"
proof (cases "vo_data_enable obj \<noteq> 0 \<and> vo_rx_n obj \<le> 0x3f")
  case True
  then have n: "unat (vo_rx_n obj) \<le> 63" by (simp add: word_le_nat_alt)
  then have l: "unat (vo_rx_n obj) = length outs" "length outs < 64" using assms(2) True by auto
  have "unat (vo_rx_n obj + 1) = Suc (length outs)" using l by (simp add: unat_word_ariths)
  moreover have "take (length outs) (vo_rx_data obj) = map ucast outs" using assms(2) True l by simp
  then have "take (Suc (length outs)) ((vo_rx_data obj)[length outs := ucast w]) = map ucast (outs @ [w])"
    using l assms(1) by (simp add: take_Suc_conv_app_nth)
  ultimately show ?thesis using True l assms(1)
    by (intro exI [of _ "(vo_rx_data obj)[length outs := ucast w]"] exI [of _ "vo_rx_n obj + 1"])
       (simp add: scram_output_def mem_simps)
next
  case False
  then have "scram_output obj (ucast w) = Some (obj\<lparr>vo_rx_data := vo_rx_data obj, vo_rx_n := vo_rx_n obj\<rparr>)"
    by (auto simp: scram_output_def)
  moreover have "64 \<le> length outs" if "vo_data_enable obj \<noteq> 0"
    using False that assms(2) by (auto simp: word_le_nat_alt)
  ultimately show ?thesis using assms by (intro exI [of _ "vo_rx_data obj"] exI [of _ "vo_rx_n obj"]) auto
qed

lemma sint_small:
  assumes "unat (x :: u16) < 32768"
  shows "sint x = uint x"
proof -
  have "uint x < 32768" using assms by (simp only: uint_nat)
  moreover have "- (2 ^ 15) \<le> uint x" by (rule order_trans [of _ 0]) simp_all
  ultimately have "signed_take_bit 15 (uint x) = uint x" by (intro signed_take_bit_int_eq_self) simp_all
  then show ?thesis by (simp add: sint_uint)
qed

text \<open>One call of the descrambler: the state is the one for the longer stream.\<close>

lemma descramble_out:
  assumes "descram_take (vo_descrambler obj) v (of_nat n) = Some d" and "ds_taken p bs m n v d" and "32 \<le> unat (ds_count d)"
    and "n \<le> 16" and "\<forall>k \<ge> n. \<not> bit v k"
  shows "\<exists>d'. descramble p obj v (of_nat n) = do {
      obj \<leftarrow> scram_output (obj\<lparr>vo_descrambler := d\<rparr>) (ucast (out_word p (bs @ field_bits n v) m));
      Some (obj\<lparr>vo_descrambler := d'\<rparr>) } \<and> ds_at p (bs @ field_bits n v) (Suc m) d'"
proof -
  have "unat (ds_count d) < 64" using assms(2,4) by (auto simp: ds_taken_def Let_def)
  then have "sint (ds_count d) = uint (ds_count d)" by (intro sint_small) simp
  with assms(3) have c: "\<not> sint (ds_count d) \<le> 31" by (simp only: uint_nat)
  show ?thesis
  proof (cases p)
    case GPC
    with assms ds_tail_at [OF assms(2-5) gpc_tap_new [of bs m n v d, folded GPC]] c show ?thesis
      by (auto simp: descrambleGPC_def Let_def gpc_word)
  next
    case GPA
    with assms ds_tail_at [OF assms(2-5) gpa_tap_new [of bs m n v d, folded GPA]] c show ?thesis
      by (auto simp: descrambleGPA_def Let_def gpa_word)
  qed
qed

lemma words_same:
  assumes "l + n - 16 * (l div 16 - 1) < (32 :: nat)"
  shows "(l + n) div 16 - 1 = l div 16 - 1"
proof -
  define q r where q: "q = l div 16" and r: "r = l mod 16"
  have l: "l = 16 * q + r" by (simp add: q r)
  have "(16 * q + (r + n)) div 16 = q + (r + n) div 16" by simp
  moreover have "q = 0 \<and> r + n < 32 \<or> r + n < 16"
    using assms unfolding q [symmetric] unfolding l by (cases q) auto
  then have "q = 0 \<and> (r + n) div 16 \<le> 1 \<or> (r + n) div 16 = 0" by (auto simp: less_Suc_eq_le [symmetric] less_mult_imp_div_less)
  ultimately show ?thesis unfolding q [symmetric] unfolding l by (auto simp: add.assoc)
qed

lemma words_more:
  assumes "32 \<le> l + n - 16 * (l div 16 - 1)" and "l - 16 * (l div 16 - 1) < 32" and "n \<le> (16 :: nat)"
  shows "(l + n) div 16 - 1 = Suc (l div 16 - 1)"
proof -
  define q r where q: "q = l div 16" and r: "r = l mod 16"
  have l: "l = 16 * q + r" and r16: "r < 16" by (simp_all add: q r)
  have q1: "0 < q" and rn: "16 \<le> r + n" "r + n < 32"
    using assms r16 unfolding q [symmetric] unfolding l by (cases q; simp)+
  then have "(r + n) div 16 = 1" by (intro div_nat_eqI) simp_all
  moreover have "(16 * q + (r + n)) div 16 = q + (r + n) div 16" by simp
  ultimately show ?thesis using q1 unfolding q [symmetric] unfolding l by (simp add: add.assoc)
qed

lemma descramble_fed:
  assumes "fed p obj bs" and "n \<le> 16" and "\<forall>k \<ge> n. \<not> bit v k"
  shows "\<exists>d rx rn. descramble p obj v (of_nat n) = Some (obj\<lparr>vo_descrambler := d, vo_rx_data := rx, vo_rx_n := rn\<rparr>) \<and>
           fed p (obj\<lparr>vo_descrambler := d, vo_rx_data := rx, vo_rx_n := rn\<rparr>) (bs @ field_bits n v)"
proof -
  let ?m = "length bs div 16 - 1" and ?l = "length bs + n"
  have ds: "ds_at p bs ?m (vo_descrambler obj)" and rx: "length (vo_rx_data obj) = 64" and
    got: "vo_data_enable obj \<noteq> 0 \<longrightarrow> unat (vo_rx_n obj) = min 64 (length (received p bs)) \<and>
      take (unat (vo_rx_n obj)) (vo_rx_data obj) = map ucast (take 64 (received p bs))"
    using assms(1) unfolding fed_def by blast+
  obtain d where d: "descram_take (vo_descrambler obj) v (of_nat n) = Some d" and t: "ds_taken p bs ?m n v d"
    using descram_take_taken [OF ds assms(2,3)] by blast
  have c: "unat (ds_count d) = ?l - 16 * ?m" using t by (simp add: ds_taken_def Let_def)
  show ?thesis
  proof (cases "unat (ds_count d) < 32")
    case True
    have m: "?l div 16 - 1 = ?m" using True c words_same [of "length bs" n] by simp
    have "sint (ds_count d) \<le> 31" using True sint_small [of "ds_count d"] by (simp only: uint_nat)
    then have "descramble p obj v (of_nat n) = Some (obj\<lparr>vo_descrambler := d\<rparr>)"
      using d by (cases p) (simp_all add: descrambleGPC_def descrambleGPA_def)
    moreover have "fed p (obj\<lparr>vo_descrambler := d\<rparr>) (bs @ field_bits n v)"
      using ds_taken_short [OF t True] rx got m by (auto simp: fed_def received_same)
    ultimately show ?thesis by (intro exI [of _ d] exI [of _ "vo_rx_data obj"] exI [of _ "vo_rx_n obj"]) simp
  next
    case False
    have "length bs - 16 * ?m < 32" using ds unfolding ds_at_def by metis
    then have m: "?l div 16 - 1 = Suc ?m" using False c by (intro words_more [OF _ _ assms(2)]) simp_all
    let ?w = "out_word p (bs @ field_bits n v) ?m"
    obtain d' where d': "descramble p obj v (of_nat n) = do {
        obj \<leftarrow> scram_output (obj\<lparr>vo_descrambler := d\<rparr>) (ucast ?w);
        Some (obj\<lparr>vo_descrambler := d'\<rparr>) }" and at: "ds_at p (bs @ field_bits n v) (Suc ?m) d'"
      using descramble_out [OF d t _ assms(2,3)] False by auto
    have sel: "vo_data_enable (obj\<lparr>vo_descrambler := d\<rparr>) = vo_data_enable obj" "vo_rx_n (obj\<lparr>vo_descrambler := d\<rparr>) = vo_rx_n obj"
      "vo_rx_data (obj\<lparr>vo_descrambler := d\<rparr>) = vo_rx_data obj" by simp_all
    obtain rx' n' where o: "scram_output (obj\<lparr>vo_descrambler := d\<rparr>) (ucast ?w) = Some (obj\<lparr>vo_descrambler := d, vo_rx_data := rx', vo_rx_n := n'\<rparr>)"
      and "length rx' = 64" "vo_data_enable obj \<noteq> 0 \<longrightarrow> unat n' = min 64 (length (received p bs @ [?w])) \<and>
        take (unat n') rx' = map ucast (take 64 (received p bs @ [?w]))"
      using scram_output_fed [of "obj\<lparr>vo_descrambler := d\<rparr>" "received p bs" ?w] rx got
      unfolding sel by blast
    then have "fed p (obj\<lparr>vo_descrambler := d', vo_rx_data := rx', vo_rx_n := n'\<rparr>) (bs @ field_bits n v)"
      using at m by (auto simp: fed_def received_more)
    then show ?thesis using d' o by (intro exI [of _ d'] exI [of _ rx'] exI [of _ n']) simp
  qed
qed

text \<open>What the scrambler made of words, the descrambler gives back.\<close>

definition line_bits :: "v34_poly \<Rightarrow> (nat \<Rightarrow> u16) \<Rightarrow> nat \<Rightarrow> bool list" where
  "line_bits p ws n = map (\<lambda>t. line_bit p ws (int t)) [0..<n]"

lemma zbit_line: "t < int n \<Longrightarrow> zbit (line_bits p ws n) t = line_bit p ws t"
  by (cases "0 \<le> t") (simp_all add: zbit_def line_bits_def line_bit_neg nat_less_iff)

lemma out_word_line:
  assumes "16 * Suc j \<le> n"
  shows "out_word p (line_bits p ws n) j = ws j"
proof (rule bit_word_eqI)
  fix k assume k: "k < LENGTH(16)"
  then have t: "int (16 * j) + int k < int n" using assms by simp
  then have "descr_bit p (line_bits p ws n) (int (16 * j) + int k) = data_bit ws (int (16 * j) + int k)"
    using line_bit_eq [of p ws "int (16 * j) + int k"] by (auto simp: descr_bit_def zbit_line)
  then show "bit (out_word p (line_bits p ws n) j) k = bit (ws j) k"
    using k new_data_bit [of k ws j] by (simp add: bit_out_word)
qed

lemma received_line: "received p (line_bits p ws n) = map ws [0..<n div 16 - 1]"
  using whole_word out_word_line by (auto simp: received_def line_bits_def)

subsection \<open>Synchronisation\<close>

text \<open>Fields handed to the descrambler one after another; a field's value fits its width.\<close>

fun feed :: "v34_poly \<Rightarrow> 'a v34_object_scheme \<Rightarrow> (u16 \<times> nat) list \<Rightarrow> 'a v34_object_scheme option" where
  "feed p obj [] = Some obj"
| "feed p obj ((v, n) # fs) = do { obj \<leftarrow> descramble p obj v (of_nat n); feed p obj fs }"

definition field_ok :: "u16 \<times> nat \<Rightarrow> bool" where
  "field_ok f \<longleftrightarrow> snd f \<le> 16 \<and> unat (fst f) < 2 ^ snd f"

definition fields_bits :: "(u16 \<times> nat) list \<Rightarrow> bool list" where
  "fields_bits fs = concat (map (\<lambda>(v, n). field_bits n v) fs)"

lemma field_ok_bits:
  assumes "field_ok (v, n)"
  shows "n \<le> 16" "\<forall>k \<ge> n. \<not> bit v k"
proof -
  show "n \<le> 16" using assms by (simp add: field_ok_def)
  have "take_bit n (unat v) = unat v" using assms by (simp add: field_ok_def take_bit_nat_eq_self)
  then have "bit (unat v) k \<longrightarrow> k < n" for k by (metis bit_take_bit_iff)
  then have "bit v k \<longrightarrow> k < n" for k by (simp add: bit_unsigned_iff possible_bit_def)
  then show "\<forall>k \<ge> n. \<not> bit v k" by (meson leD)
qed

lemma feed_fed:
  assumes "fed p obj bs" and "list_all field_ok fs"
  shows "\<exists>d rx rn. feed p obj fs = Some (obj\<lparr>vo_descrambler := d, vo_rx_data := rx, vo_rx_n := rn\<rparr>) \<and>
           fed p (obj\<lparr>vo_descrambler := d, vo_rx_data := rx, vo_rx_n := rn\<rparr>) (bs @ fields_bits fs)"
  using assms
proof (induction fs arbitrary: obj bs)
  case Nil
  then show ?case
    by (intro exI [of _ "vo_descrambler obj"] exI [of _ "vo_rx_data obj"] exI [of _ "vo_rx_n obj"]) (simp add: fields_bits_def)
next
  case (Cons f fs)
  obtain v n where f: "f = (v, n)" by (cases f)
  then have ok: "field_ok (v, n)" "list_all field_ok fs" using Cons.prems(2) by simp_all
  obtain d rx rn where 1: "descramble p obj v (of_nat n) = Some (obj\<lparr>vo_descrambler := d, vo_rx_data := rx, vo_rx_n := rn\<rparr>)"
    and "fed p (obj\<lparr>vo_descrambler := d, vo_rx_data := rx, vo_rx_n := rn\<rparr>) (bs @ field_bits n v)"
    using descramble_fed [OF Cons.prems(1) field_ok_bits [OF ok(1)]] by blast
  from Cons.IH [OF this(2) ok(2)] obtain d' rx' rn' where
    "feed p (obj\<lparr>vo_descrambler := d, vo_rx_data := rx, vo_rx_n := rn\<rparr>) fs =
       Some (obj\<lparr>vo_descrambler := d', vo_rx_data := rx', vo_rx_n := rn'\<rparr>)"
    "fed p (obj\<lparr>vo_descrambler := d', vo_rx_data := rx', vo_rx_n := rn'\<rparr>) ((bs @ field_bits n v) @ fields_bits fs)"
    by auto
  then show ?case using 1
    by (intro exI [of _ d'] exI [of _ rx'] exI [of _ rn']) (simp add: f fields_bits_def)
qed

definition v34_receiver :: v34_object where
  "v34_receiver = \<lparr>vo_rx_data = replicate 64 0, vo_rx_n = 0, vo_tx_data = replicate 64 0, vo_tx_n = 0, vo_tx_rd = 0,
     vo_data_enable = 1, vo_scrambler = \<lparr>sc_w0 = 0, sc_w1 = 0, sc_w2 = 0, sc_w3 = 0, sc_nbits = 32\<rparr>,
     vo_descrambler = \<lparr>ds_w0 = 0, ds_w1 = 0, ds_w2 = 0, ds_count = 0\<rparr>\<rparr>"

lemma fed_cleared:
  assumes "vo_descrambler obj = \<lparr>ds_w0 = 0, ds_w1 = 0, ds_w2 = 0, ds_count = 0\<rparr>" and "length (vo_rx_data obj) = 64" and "vo_rx_n obj = 0"
  shows "fed p obj []"
  using assms ds_cleared by (simp add: fed_def received_def)

lemma received_nth:
  assumes "j < length bs div 16 - 1"
  shows "received p bs ! j = out_word p bs j"
  using assms by (simp add: received_def)

lemma length_received [simp]: "length (received p bs) = length bs div 16 - 1"
  by (simp add: received_def)

lemma zbit_nat: "t < length bs \<Longrightarrow> n \<le> t \<Longrightarrow> zbit bs (int t - int n) = bs ! (t - n)"
  by (auto simp: zbit_def nat_diff_distrib)

text \<open>The scrambler called \<open>n\<close> times: each call makes sixteen more bits of the line, which stand in the upper
  half of the word the framer's window reads.\<close>

primrec scram_words :: "v34_poly \<Rightarrow> 'a v34_object_scheme \<Rightarrow> nat \<Rightarrow> ('a v34_object_scheme \<times> u16 list) option" where
  "scram_words p obj 0 = Some (obj, [])"
| "scram_words p obj (Suc n) = do {
     (obj, line) \<leftarrow> scram_words p obj n;
     (obj, _) \<leftarrow> scramble p obj 16;
     Some (obj, line @ [ucast (drop_bit 16 (sc_w3 (vo_scrambler obj)))])
   }"

definition whole_fields :: "u16 list \<Rightarrow> (u16 \<times> nat) list" where
  "whole_fields line = map (\<lambda>v. (v, 16)) line"

lemma new_line_word:
  assumes "reg_at p ws (16 * Suc n) s"
  shows "field_bits 16 (ucast (drop_bit 16 (sc_w3 s))) = map (\<lambda>t. line_bit p ws (int t)) [16 * n..<16 * n + 16]"
proof (rule nth_equalityI)
  fix k assume "k < length (field_bits 16 (ucast (drop_bit 16 (sc_w3 s)) :: u16))"
  then have k: "k < 16" by simp
  then have "bit (sc_w3 s) (16 + k) = line_bit p ws (int (16 * Suc n) - 32 + int (16 + k))"
    using assms by (simp add: reg_at_def)
  also have "int (16 * Suc n) - 32 + int (16 + k) = int (16 * n + k)" by simp
  finally show "field_bits 16 (ucast (drop_bit 16 (sc_w3 s))) ! k = map (\<lambda>t. line_bit p ws (int t)) [16 * n..<16 * n + 16] ! k"
    using k by (simp add: field_bits_def bit_simps)
qed simp

lemma scram_words_run:
  assumes "sent p obj 0"
  shows "\<exists>obj' line. scram_words p obj n = Some (obj', line) \<and> sent p obj' n \<and> tx_word obj' = tx_word obj \<and>
     length line = n \<and> fields_bits (whole_fields line) = line_bits p (tx_word obj) (16 * n)"
proof (induction n)
  case 0
  then show ?case using assms by (simp add: fields_bits_def whole_fields_def line_bits_def)
next
  case (Suc n)
  then obtain o1 line where 1: "scram_words p obj n = Some (o1, line)" "sent p o1 n" "tx_word o1 = tx_word obj" "length line = n"
    "fields_bits (whole_fields line) = line_bits p (tx_word obj) (16 * n)" by blast
  obtain r s where 2: "scramble p o1 16 = Some (o1\<lparr>vo_tx_rd := r, vo_scrambler := s\<rparr>, 16 - 16)"
    "sent p (o1\<lparr>vo_tx_rd := r, vo_scrambler := s\<rparr>) (Suc n)" using scramble_sent [OF 1(2), of 16] by blast
  have "reg_at p (tx_word obj) (16 * Suc n) s" using 2(2) 1(3) by (simp add: sent_def)
  moreover have "[0..<16 * Suc n] = [0..<16 * n] @ [16 * n..<16 * n + 16]"
    using upt_add_eq_append [of 0 "16 * n" 16] by (simp add: add.commute)
  moreover note new_line_word [OF calculation(1)]
  ultimately have "fields_bits (whole_fields (line @ [ucast (drop_bit 16 (sc_w3 s))])) = line_bits p (tx_word obj) (16 * Suc n)"
    using 1(5) unfolding line_bits_def by (simp only: fields_bits_def whole_fields_def map_append concat_append split list.map concat.simps append_Nil2)
  then show ?case using 1 2
    by (intro exI [of _ "o1\<lparr>vo_tx_rd := r, vo_scrambler := s\<rparr>"] exI [of _ "line @ [ucast (drop_bit 16 (sc_w3 s))]"]) simp
qed

text \<open>On a part of the line that begins with its bit \<open>s\<close> the descrambler makes the data bits, from the 23rd
  bit on, and all of them on the line from its beginning.\<close>

lemma descr_bit_part:
  assumes bs: "\<And>i. i < length bs \<Longrightarrow> bs ! i = line_bit p ws (int (s + i))" and t: "t < length bs" "s = 0 \<or> 23 \<le> t"
  shows "descr_bit p bs (int t) = data_bit ws (int (s + t))"
proof -
  have z: "zbit bs (int t - int d) = line_bit p ws (int (s + t) - int d)" if "s = 0 \<or> d \<le> t" for d
  proof (cases "d \<le> t")
    case True
    have "bs ! (t - d) = line_bit p ws (int (s + (t - d)))" using t(1) by (intro bs) simp
    then show ?thesis using zbit_nat [OF t(1) True] True by (simp add: of_nat_diff algebra_simps)
  next
    case False
    then have "s = 0" and "int (s + t) - int d < 0" using that by linarith+
    then show ?thesis using line_bit_neg [of "int (s + t) - int d" p ws] by (simp add: zbit_def)
  qed
  have "s = 0 \<or> near p \<le> t" using t(2) near_pos(2) [of p] by linarith
  then show ?thesis
    using z [of 0] z [of "near p"] z [of 23] t(2) line_bit_eq [of p ws "int (s + t)"] by (auto simp: descr_bit_def)
qed

text \<open>C31: the V.34 scramblers synchronise by themselves. A transmitter just started calls its scrambler \<open>n\<close>
  times, which always succeeds; a receiver just started is given the line only from its bit \<open>s\<close> on, cut into
  fields of any widths up to sixteen bits. The descrambler of the same polynomial delivers one word for sixteen
  bits, one word late, until 64 words are in its buffer; from its third word on these are the data bits the
  scrambler took in, from bit \<open>s\<close> on, and so are the first two where the receiver has the line from its
  beginning. The data are the words of the transmitter's queue, and ones when it has run out.\<close>

theorem v34_self_synchronises:
  assumes tx: "vo_scrambler tx = \<lparr>sc_w0 = 0, sc_w1 = 0, sc_w2 = 0, sc_w3 = 0, sc_nbits = nb\<rparr>"
    "vo_tx_rd tx = 0" "unat (vo_tx_n tx) \<le> length (vo_tx_data tx)"
    and rx: "vo_descrambler rx = \<lparr>ds_w0 = 0, ds_w1 = 0, ds_w2 = 0, ds_count = 0\<rparr>" "length (vo_rx_data rx) = 64"
    "vo_rx_n rx = 0" "vo_data_enable rx \<noteq> 0"
  shows "\<exists>tx' line. scram_words p tx n = Some (tx', line) \<and> length line = n \<and>
    (\<forall>fs. list_all field_ok fs \<and> fields_bits fs = take (length (fields_bits fs)) (drop s (fields_bits (whole_fields line))) \<longrightarrow>
      (\<exists>rx'. feed p rx fs = Some rx' \<and> unat (vo_rx_n rx') = min 64 (length (fields_bits fs) div 16 - 1) \<and>
        (\<forall>j k. (s = 0 \<or> 2 \<le> j) \<and> j < unat (vo_rx_n rx') \<longrightarrow>
           bit (vo_rx_data rx' ! j) k = (k < 16 \<and> bit (tx_word tx ((s + 16 * j + k) div 16)) ((s + 16 * j + k) mod 16)))))"
proof -
  have "sent p tx 0" using tx reg_at_cleared [of p "tx_word tx" nb] by (simp add: sent_def)
  then obtain tx' line where sw: "scram_words p tx n = Some (tx', line)" "length line = n"
    "fields_bits (whole_fields line) = line_bits p (tx_word tx) (16 * n)" using scram_words_run by blast
  have "\<exists>rx'. feed p rx fs = Some rx' \<and> unat (vo_rx_n rx') = min 64 (length (fields_bits fs) div 16 - 1) \<and>
        (\<forall>j k. (s = 0 \<or> 2 \<le> j) \<and> j < unat (vo_rx_n rx') \<longrightarrow>
           bit (vo_rx_data rx' ! j) k = (k < 16 \<and> bit (tx_word tx ((s + 16 * j + k) div 16)) ((s + 16 * j + k) mod 16)))"
    if fs: "list_all field_ok fs" "fields_bits fs = take (length (fields_bits fs)) (drop s (fields_bits (whole_fields line)))" for fs
  proof -
    let ?bs = "fields_bits fs"
    obtain rx' where f: "feed p rx fs = Some rx'" and en: "vo_data_enable rx' \<noteq> 0" and fed: "fed p rx' ?bs"
      using feed_fed [OF fed_cleared [OF rx(1-3)] fs(1), of p] rx(4) by auto
    have n: "unat (vo_rx_n rx') = min 64 (length ?bs div 16 - 1)"
      and got: "take (unat (vo_rx_n rx')) (vo_rx_data rx') = map ucast (take 64 (received p ?bs))"
      using fed en unfolding fed_def length_received by blast+
    have bs: "?bs ! i = line_bit p (tx_word tx) (int (s + i))" if "i < length ?bs" for i
    proof -
      have "length ?bs \<le> length (drop s (line_bits p (tx_word tx) (16 * n)))"
        using arg_cong [OF fs(2), of length] unfolding sw(3) by simp
      then have "?bs ! i = drop s (line_bits p (tx_word tx) (16 * n)) ! i" and "s + i < 16 * n"
        using fs(2) that unfolding sw(3) by (metis nth_take, simp add: line_bits_def)
      then show ?thesis by (simp add: line_bits_def)
    qed
    have "bit (vo_rx_data rx' ! j) k = (k < 16 \<and> bit (tx_word tx ((s + 16 * j + k) div 16)) ((s + 16 * j + k) mod 16))"
      if j: "s = 0 \<or> 2 \<le> j" "j < unat (vo_rx_n rx')" for j k
    proof -
      have lt: "j < length ?bs div 16 - 1" using j n by simp
      have "vo_rx_data rx' ! j = map ucast (take 64 (received p ?bs)) ! j" unfolding got [symmetric] using j by simp
      also have "\<dots> = ucast (out_word p ?bs j)" using lt j n by (simp add: received_nth)
      finally have "bit (vo_rx_data rx' ! j) k = (k < 16 \<and> descr_bit p ?bs (int (16 * j + k)))"
        by (auto simp: bit_simps bit_out_word)
      moreover have "descr_bit p ?bs (int (16 * j + k)) = data_bit (tx_word tx) (int (s + (16 * j + k)))" if "k < 16"
        by (rule descr_bit_part [OF bs]) (use whole_word [OF lt] j that in auto)
      ultimately show ?thesis by (auto simp: data_bit_def nat_int add.assoc [symmetric] simp del: of_nat_add of_nat_mult)
    qed
    then show ?thesis using f n by blast
  qed
  then show ?thesis using sw by blast
qed

text \<open>A transmitter with six words to send, and its line from the fourth bit on, cut into fields.\<close>

definition v34_sender :: v34_object where
  "v34_sender = v34_receiver\<lparr>vo_tx_data := [0xbeef, 0x1234, 0x5678, 0x9abc, 0xdef0, 0x1357], vo_tx_n := 6\<rparr>"

definition joined_fields :: "(u16 \<times> nat) list" where
  "joined_fields = [(6109, 13), (40456, 16), (5, 5), (336, 11), (12389, 16), (11761, 16), (11, 7)]"

lemma joined_line: "map_option (\<lambda>r. take 84 (drop 3 (fields_bits (whole_fields (snd r))))) (scram_words GPC v34_sender 6) =
    Some (fields_bits joined_fields)"
  by code_simp

theorem v34_self_synchronises_witness:
  "\<exists>tx' line rx'. scram_words GPC v34_sender 6 = Some (tx', line) \<and>
     fields_bits joined_fields = take 84 (drop 3 (fields_bits (whole_fields line))) \<and>
     feed GPC v34_receiver joined_fields = Some rx' \<and> unat (vo_rx_n rx') = 4 \<and>
     (\<forall>k. bit (vo_rx_data rx' ! 2) k = (k < 16 \<and> bit (tx_word v34_sender ((35 + k) div 16)) ((35 + k) mod 16)))"
proof -
  have len: "length (fields_bits joined_fields) = 84" and ok: "list_all field_ok joined_fields"
    by (simp_all add: joined_fields_def fields_bits_def field_ok_def)
  have clean: "vo_scrambler v34_sender = \<lparr>sc_w0 = 0, sc_w1 = 0, sc_w2 = 0, sc_w3 = 0, sc_nbits = 32\<rparr>" "vo_tx_rd v34_sender = 0"
    "unat (vo_tx_n v34_sender) \<le> length (vo_tx_data v34_sender)"
    "vo_descrambler v34_receiver = \<lparr>ds_w0 = 0, ds_w1 = 0, ds_w2 = 0, ds_count = 0\<rparr>" "length (vo_rx_data v34_receiver) = 64"
    "vo_rx_n v34_receiver = 0" "vo_data_enable v34_receiver \<noteq> 0"
    by (simp_all add: v34_sender_def v34_receiver_def)
  obtain tx' line where line: "scram_words GPC v34_sender 6 = Some (tx', line)"
    "fields_bits joined_fields = take 84 (drop 3 (fields_bits (whole_fields line)))" using joined_line by auto
  obtain rx' where "feed GPC v34_receiver joined_fields = Some rx'" "unat (vo_rx_n rx') = 4"
    "\<forall>j k. 2 \<le> j \<and> j < 4 \<longrightarrow>
       bit (vo_rx_data rx' ! j) k = (k < 16 \<and> bit (tx_word v34_sender ((3 + 16 * j + k) div 16)) ((3 + 16 * j + k) mod 16))"
    using v34_self_synchronises [OF clean, of GPC 6 3] line ok len by auto
  then show ?thesis using line by fastforce
qed

end
