(* ===== verification/V34Shell.thy ===== *)
theory V34Shell
  imports V34Scram
begin

unbundle bit_operations_syntax

text \<open>
  The V.34 shell mapper of \<^verbatim>\<open>src/pump/v34/v34shell.c\<close>: the tables of a context, the way from a
  number to eight ring indices in \<^verbatim>\<open>modulatevector\<close>, and the way back in
  \<^verbatim>\<open>shellDemapper\<close>. Of \<^verbatim>\<open>struct v34_shell\<close> the fields of the trellis decoder are left
  out; the bit window and its position are the scrambler's last word and count. A callback is named
  by its polynomial. Shorts and ints are words.
\<close>

subsection \<open>Tables\<close>

definition gInvertPat :: "u16 list" where
  "gInvertPat =
    [0, 1, 1, 1, 0, 1, 1, 1, 1, 1, 1, 1, 1, 0, 1, 0]"

definition lsbMask :: "u16 list" where
  "lsbMask =
    [0, 1, 3, 7, 15, 31, 63, 127, 255, 511, 1023, 2047, 4095, 8191, 16383, 32767, 65535]"

definition MMinTable :: "nat list" where
  "MMinTable =
    [1, 2, 2, 2, 2, 2, 2, 2, 2, 3, 3, 3, 3, 4, 4, 4, 4, 5, 5, 6, 6, 7, 7, 8, 8, 9, 10, 11, 12, 13, 14, 15]"

definition MMaxTable :: "nat list" where
  "MMaxTable =
    [1, 2, 2, 2, 2, 2, 2, 2, 3, 3, 3, 3, 4, 4, 4, 5, 5, 5, 6, 6, 7, 8, 8, 9, 10, 11, 12, 13, 14, 15, 17,
     18]"

definition Convolve16 :: "u16 list" where
  "Convolve16 =
    [0, 0, 2, 2, 0, 0, 2, 2, 14, 12, 12, 14, 14, 12, 12, 14, 2, 2, 0, 0, 2, 2, 0, 0, 12, 14, 14, 12, 12,
     14, 14, 12, 0, 0, 2, 2, 0, 0, 2, 2, 14, 12, 12, 14, 14, 12, 12, 14, 2, 2, 0, 0, 2, 2, 0, 0, 12, 14,
     14, 12, 12, 14, 14, 12]"

definition Convolve32 :: "u16 list" where
  "Convolve32 =
    [0, 0, 8, 8, 4, 4, 12, 12, 26, 18, 18, 26, 30, 22, 22, 30, 8, 8, 0, 0, 12, 12, 4, 4, 18, 26, 26, 18,
     22, 30, 30, 22, 4, 4, 12, 12, 0, 0, 8, 8, 30, 22, 22, 30, 26, 18, 18, 26, 12, 12, 4, 4, 8, 8, 0, 0,
     22, 30, 30, 22, 18, 26, 26, 18]"

definition Convolve64 :: "u16 list" where
  "Convolve64 =
    [0, 0, 1, 1, 8, 8, 9, 9, 3, 2, 2, 3, 11, 10, 10, 11, 5, 5, 4, 4, 13, 13, 12, 12, 6, 7, 7, 6, 14, 15,
     15, 14, 8, 8, 9, 9, 0, 0, 1, 1, 11, 10, 10, 11, 3, 2, 2, 3, 13, 13, 12, 12, 5, 5, 4, 4, 14, 15, 15,
     14, 6, 7, 7, 6]"

definition xyz :: "int list" where
  "xyz =
    [0, 20, 21, 30, 47, 72, 105, 146, 195, 252, 317, 390, 471, 560, 657, 762, 831, 831, 889, 945, 0, 0,
     1, 9, 37, 93, 163, 219, 247, 255, 0, 1, 9, 45, 157, 423, 927, 1711, 2727, 3834, 4850, 5634, 6138,
     6404, 6516, 6552, 6560, 0, 1, 9, 45, 165, 487, 1215, 2643, 5115, 8938, 14266, 20994, 28722, 36814,
     44542, 51270, 56598, 60421, 62893, 64321, 65049, 65371, 65491, 65527, 65535, 0, 1, 9, 45, 165, 495,
     1279, 2931, 6075, 11550, 20350, 33490, 51810, 75750, 105150, 139150, 176230, 214395, 251475,
     285475, 314875, 338815, 357135, 370275, 379075, 384550, 387694, 389346, 390130, 390460, 390580,
     390616, 390624, 0, 1, 9, 45, 165, 495, 1287, 2995, 6363, 12510, 22990, 39798, 65286, 101974,
     152262, 218070, 300454, 399267, 512955, 638543, 771831, 907785, 1041073, 1166661, 1280349, 1379162,
     1461546, 1527354, 1577642, 1614330, 1639818, 1656626, 1667106, 1673253, 1676621, 1678329, 1679121,
     1679451, 1679571, 1679607, 1679615, 0, 1, 9, 45, 165, 495, 1287, 3003, 6427, 12798, 23950, 42438,
     71622, 115674, 179466, 268318, 387606, 542251, 736131, 971479, 1248351, 1564269, 1914109, 2290269,
     2683117, 3081684, 3474532, 3850692, 4200532, 4516450, 4793322, 5028670, 5222550, 5377195, 5496483,
     5585335, 5649127, 5693179, 5722363, 5740851, 5752003, 5758374, 5761798, 5763514, 5764306, 5764636,
     5764756, 5764792, 5764800, 0, 1, 9, 45, 165, 495, 1287, 3003, 6435, 12862, 24238, 43398, 74262,
     122010, 193194, 295746, 438834, 632539, 887347, 1213471, 1620039, 2114205, 2700261, 3378849,
     4146393, 4994836, 5911732, 6880708, 7882276, 8894940, 9896508, 10865484, 11782380, 12630823,
     13398367, 14076955, 14663011, 15157177, 15563745, 15889869, 16144677, 16338382, 16481470, 16584022,
     16655206, 16702954, 16733818, 16752978, 16764354, 16770781, 16774213, 16775929, 16776721, 16777051,
     16777171, 16777207, 16777215, 0, 1, 9, 45, 165, 495, 1287, 3003, 6435, 12870, 24302, 43686, 75222,
     124650, 199530, 309474, 466290, 683991, 978615, 1367823, 1870263, 2504709, 3289005, 4238865,
     5366601, 6679872, 8180568, 9863964, 11718244, 13724460, 15856956, 18084252, 20370348, 22676373,
     24962469, 27189765, 29322261, 31328477, 33182757, 34866153, 36366849, 37680120, 38807856, 39757716,
     40542012, 41176458, 41678898, 42068106, 42362730, 42580431, 42737247, 42847191, 42922071, 42971499,
     43003035, 43022419, 43033851, 43040286, 43043718, 43045434, 43046226, 43046556, 43046676, 43046712,
     43046720, 0, 1, 9, 45, 165, 495, 1287, 3003, 6435, 12870, 24310, 43750, 75510, 125610, 202170,
     315810, 480018, 711447, 1030095, 1459315, 2025595, 2758069, 3687741, 4846425, 6265425, 7974000,
     9997680, 12356520, 15063400, 18122500, 21528100, 25263820, 29302380, 33605925, 38126925, 42809625,
     47591985, 52408015, 57190375, 61873075, 66394075, 70697620, 74736180, 78471900, 81877500, 84936600,
     87643480, 90002320, 92026000, 93734575, 95153575, 96312259, 97241931, 97974405, 98540685, 98969905,
     99288553, 99519982, 99684190, 99797830, 99874390, 99924490, 99956250, 99975690, 99987130, 99993565,
     99996997, 99998713, 99999505, 99999835, 99999955, 99999991, 99999999, 0, 1, 9, 45, 165, 495, 1287,
     3003, 6435, 12870, 24310, 43758, 75574, 125898, 203130, 318450, 486354, 725175, 1057551, 1510795,
     2117115, 2913625, 3942081, 5248297, 6881217, 8891640, 11330616, 14247552, 17688088, 21691824,
     26290000, 31503252, 37339588, 43792749, 50841085, 58447041, 66557313, 75103699, 84004635, 93167371,
     102490707, 111868174, 121191510, 130354246, 139255182, 147801568, 155911840, 163517796, 170566132,
     177019293, 182855629, 188068881, 192667057, 196670793, 200111329, 203028265, 205467241, 207477664,
     209110584, 210416800, 211445256, 212241766, 212848086, 213301330, 213633706, 213872527, 214040431,
     214155751, 214232983, 214283307, 214315123, 214334571, 214346011, 214352446, 214355878, 214357594,
     214358386, 214358716, 214358836, 214358872, 214358880, 0, 1, 9, 45, 165, 495, 1287, 3003, 6435,
     12870, 24310, 43758, 75582, 125962, 203418, 319410, 488994, 731511, 1071279, 1538251, 2168595,
     3005145, 4097665, 5502861, 7284069, 9510568, 12256488, 15599304, 19617928, 24390432, 29991456,
     36489376, 43943328, 52400205, 61891765, 72432009, 84015009, 96613331, 110177163, 124634223,
     139890487, 155831742, 172325934, 189226246, 206374806, 223606890, 240755450, 257655762, 274149954,
     290091209, 305347473, 319804533, 333368365, 345966687, 357549687, 368089931, 377581491, 386038368,
     393492320, 399990240, 405591264, 410363768, 414382392, 417725208, 420471128, 422697627, 424478835,
     425884031, 426976551, 427813101, 428443445, 428910417, 429250185, 429492702, 429662286, 429778278,
     429855734, 429906114, 429937938, 429957386, 429968826, 429975261, 429978693, 429980409, 429981201,
     429981531, 429981651, 429981687, 429981695, 0, 1, 9, 45, 165, 495, 1287, 3003, 6435, 12870, 24310,
     43758, 75582, 125970, 203482, 319698, 489954, 734151, 1077615, 1551979, 2196051, 3056625, 4189185,
     5658445, 7538661, 9913644, 12876396, 16528312, 20977912, 26339088, 32728872, 40264752, 49061584,
     59228169, 70863585, 84053385, 98865793, 115348051, 133523091, 153386727, 174905527, 198015490,
     222621618, 248598438, 275791494, 304019794, 333079162, 362746410, 392784210, 422946511, 452984311,
     482651559, 511710927, 539939227, 567132283, 593109103, 617715231, 640825194, 662343994, 682207630,
     700382670, 716864928, 731677336, 744867136, 756502552, 766669137, 775465969, 783001849, 789391633,
     794752809, 799202409, 802854325, 805817077, 808192060, 810072276, 811541536, 812674096, 813534670,
     814178742, 814653106, 814996570, 815240767, 815411023, 815527239, 815604751, 815655139, 815686963,
     815706411, 815717851, 815724286, 815727718, 815729434, 815730226, 815730556, 815730676, 815730712,
     815730720, 0, 1, 9, 45, 165, 495, 1287, 3003, 6435, 12870, 24310, 43758, 75582, 125970, 203490,
     319762, 490242, 735111, 1080255, 1558315, 2209779, 3084081, 4240665, 5749965, 7694245, 10168236,
     13279500, 17148444, 21907900, 27702208, 34685760, 43020984, 52875768, 64420345, 77823681, 93249429,
     110851533, 130769587, 153124075, 178011639, 205500543, 235626522, 268389226, 303749434, 341627178,
     381900882, 424407586, 468944290, 515270418, 563111367, 612163071, 662097475, 712568779, 763220277,
     813691581, 863625985, 912677689, 960518638, 1006844766, 1051381470, 1093888174, 1134161878,
     1172039622, 1207399830, 1240162534, 1270288513, 1297777417, 1322664981, 1345019469, 1364937523,
     1382539627, 1397965375, 1411368711, 1422913288, 1432768072, 1441103296, 1448086848, 1453881156,
     1458640612, 1462509556, 1465620820, 1468094811, 1470039091, 1471548391, 1472704975, 1473579277,
     1474230741, 1474708801, 1475053945, 1475298814, 1475469294, 1475585566, 1475663086, 1475713474,
     1475745298, 1475764746, 1475776186, 1475782621, 1475786053, 1475787769, 1475788561, 1475788891,
     1475789011, 1475789047, 1475789055, 0, 1, 9, 45, 165, 495, 1287, 3003, 6435, 12870, 24310, 43758,
     75582, 125970, 203490, 319770, 490306, 735399, 1081215, 1560955, 2216115, 3097809, 4268121,
     5801445, 7785765, 10323820, 13534092, 17551548, 22528060, 28632420, 36049860, 44981008, 55640232,
     68253345, 83054665, 100283445, 120179709, 142979551, 168909975, 198183375, 230991775, 267500970,
     307844730, 352119250, 400378050, 452627550, 508823510, 568868490, 632610450, 699842575, 770304375,
     843684075, 919622275, 997716825, 1077528825, 1158589625, 1240408665, 1322481960, 1404301000,
     1485361800, 1565173800, 1643268350, 1719206550, 1792586250, 1863048050, 1930280175, 1994022135,
     2054067115, 2110263075, 0, 1, 9, 45, 165, 495, 1287, 3003, 6435, 12870, 24310, 43758, 75582,
     125970, 203490, 319770, 490314, 735471, 1081567, 1562203, 2219715, 3106785, 4288185, 5842629,
     7864701, 10466820, 13781196, 17961724, 23185756, 29655684, 37600260, 47275572, 58965588, 72982173,
     89664477, 109377613, 132510565, 159473287, 190692975, 226609515, 267670131, 314323278, 367011846,
     426165762, 492194098, 565476814, 646356286, 735128790, 832036134, 937257651, 1050902787,
     1173004539, 1303513963, 1442295937, 1589126329, 1743690685, 1905584517, 2074315236, 0, 1, 9, 45,
     165, 495, 1287, 3003, 6435, 12870, 24310, 43758, 75582, 125970, 203490, 319770, 490314, 735471,
     1081575, 1562267, 2220003, 3107745, 4290825, 5848965, 7878429, 10494276, 13832676, 18053244,
     23341340, 29910276, 38003364, 47895732, 59895828, 74346525, 91625733, 112146417, 136355913,
     164734455, 197792847, 236069235, 280124955, 330539454, 387904302, 452816334, 525869982, 607648878,
     698716830, 799608294, 910818486, 1032793299, 1165919211, 1310513391, 1466814231, 1634972553,
     1815043761, 2006981173]"

subsection \<open>The context\<close>

record v34_shell =
  sh_span :: u16
  sh_subframe_limit :: u16
  sh_group_count :: u16
  sh_remainder :: u16
  sh_wide_accum :: u16
  sh_short_a0a :: u16
  sh_wide_bits :: u16
  sh_wide_bits_alt :: u16
  sh_count :: u16
  sh_idx_width :: u16
  sh_feedback_mask :: u16
  sh_hist :: "u16 list"
  sh_coeff :: "u16 list"
  sh_conv :: "u16 list"
  sh_conv_sr :: "u16 list"
  sh_prev_k :: u16
  sh_invert :: u16
  sh_subframe_count :: u16
  sh_frame_count :: u16
  sh_frame_limit :: u16
  sh_divisor :: u16
  sh_cost_shift :: u16
  sh_wrap :: u16
  sh_t1 :: "u16 list"
  sh_t2 :: "u16 list"
  sh_t3 :: "u32 list"
  sh_scramble :: v34_poly
  sh_latched :: u16
  sh_frame :: "u16 list"
  sh_sub :: "u16 list"

definition preinitV34 :: "v34_shell \<Rightarrow> v34_shell" where
  "preinitV34 s = s\<lparr>sh_t1 := replicate 128 0, sh_t2 := replicate 128 0, sh_t3 := replicate 128 (- 1),
     sh_conv_sr := replicate 6 0, sh_hist := replicate 6 0, sh_feedback_mask := 0x18, sh_conv := Convolve16,
     sh_subframe_count := 0, sh_prev_k := 0, sh_latched := 0, sh_wide_accum := 0, sh_scramble := GPC\<rparr>"

text \<open>The first table, written from both ends.\<close>

fun tent_loop :: "nat \<Rightarrow> nat \<Rightarrow> nat \<Rightarrow> u16 list \<Rightarrow> u16 list option" where
  "tent_loop hi i 0 t1 = Some t1"
| "tent_loop hi i (Suc k) t1 = do {
     t1 \<leftarrow> wr_at t1 (hi - i) (of_nat (i + 1));
     t1 \<leftarrow> wr_at t1 i (of_nat (i + 1));
     tent_loop hi (i + 1) k t1
   }"

text \<open>One entry of the second: the first table against itself reversed.\<close>

fun conv_loop :: "u16 list \<Rightarrow> nat \<Rightarrow> nat \<Rightarrow> nat \<Rightarrow> u32 \<Rightarrow> u32 option" where
  "conv_loop t a b 0 acc = Some acc"
| "conv_loop t a b (Suc cnt) acc = do {
     x \<leftarrow> rd_at t b;
     y \<leftarrow> rd_at t a;
     conv_loop t (a + 1) (b - 1) cnt (acc + ucast x * ucast y)
   }"

fun square_loop :: "u16 list \<Rightarrow> nat \<Rightarrow> nat \<Rightarrow> nat \<Rightarrow> u16 list \<Rightarrow> u16 list option" where
  "square_loop t1 hi j 0 t2 = Some t2"
| "square_loop t1 hi j (Suc k) t2 = do {
     acc \<leftarrow> conv_loop t1 0 j (j + 1) 0;
     t2 \<leftarrow> wr_at t2 (2 * hi - j) (ucast acc);
     t2 \<leftarrow> wr_at t2 j (ucast acc);
     square_loop t1 hi (j + 1) k t2
   }"

fun copy_loop :: "nat \<Rightarrow> nat \<Rightarrow> nat \<Rightarrow> u32 list \<Rightarrow> u32 list option" where
  "copy_loop cursor k 0 t3 = Some t3"
| "copy_loop cursor k (Suc len) t3 = do {
     v \<leftarrow> rd_at xyz cursor;
     t3 \<leftarrow> wr_at t3 k (of_int v);
     copy_loop (cursor + 1) (k + 1) len t3
   }"

text \<open>The three tables for the ring size in the context; a size of 0 runs past them,
  and so does one whose block of the last table does not exist.\<close>

definition initG248 :: "v34_shell \<Rightarrow> v34_shell option" where
  "initG248 s =
     (let n = unat (sh_count s); hi = 2 * (n - 1)
      in if n = 0 then None
         else do {
           t1 \<leftarrow> tent_loop hi 0 n (sh_t1 s);
           t2 \<leftarrow> square_loop t1 hi 0 (hi + 1) (sh_t2 s);
           cursor \<leftarrow> rd_at xyz n;
           limit \<leftarrow> rd_at xyz (n + 1);
           t3 \<leftarrow> (if limit < cursor then None else copy_loop (nat cursor) 0 (nat (limit - cursor)) (sh_t3 s));
           Some (s\<lparr>sh_t1 := t1, sh_t2 := t2, sh_t3 := t3\<rparr>)
         })"

text \<open>Steps of eight down to at most 31, and how many it took.\<close>

function fold_width :: "nat \<Rightarrow> nat \<Rightarrow> nat \<times> nat" where
  "fold_width idx j = (if idx > 31 then fold_width (idx - 8) (j + 1) else (idx, j))"
  by pat_completeness auto
termination
  by (relation "measure fst") auto

declare fold_width.simps [simp del]

text \<open>The width a divisor above 128 needs.\<close>

function width_from :: "nat \<Rightarrow> nat \<Rightarrow> nat" where
  "width_from w d = (if 2 ^ w < d then width_from (w + 1) d else w)"
  by pat_completeness auto
termination
proof (relation "measure (\<lambda>(w, d). d - w)")
  fix w d :: nat
  assume "2 ^ w < d"
  then have "w < d" using less_exp [of w] by linarith
  then show "((w + 1, d), w, d) \<in> measure (\<lambda>(w, d). d - w)" by simp
qed simp

declare width_from.simps [simp del]

definition v34_group :: "u16 \<Rightarrow> nat" where
  "v34_group baud = (if baud = 0xab7 \<or> baud = 0xd65 then 8 else 7)"

definition v34_span :: "u16 \<Rightarrow> nat" where
  "v34_span baud = (if baud \<le> 0xaf0 then if baud = 0xaf0 then 14 else 12 else if baud = 0xc80 then 16 else 15)"

definition initV34 :: "v34_shell \<Rightarrow> u16 \<Rightarrow> u16 \<Rightarrow> bool \<Rightarrow> u16 \<Rightarrow> u16 list \<Rightarrow> u16 \<Rightarrow> v34_shell option" where
  "initV34 s baud bitrate use_max depth coeff divisor =
     (let grp = v34_group baud;
          span = v34_span baud;
          s = s\<lparr>sh_span := of_nat span, sh_subframe_limit := of_nat (2 * span), sh_coeff := coeff\<rparr>;
          s = (if depth \<noteq> 0
               then s\<lparr>sh_feedback_mask := push_bit 5 depth, sh_conv := (if depth = 1 then Convolve32 else Convolve64)\<rparr> else s);
          m = unat bitrate div 25 * 7 div grp;
          u = (m + span - 1) div span;
          (idx, width) = (if u > 12 then if u - 12 \<le> 0x1f then (u - 12, 0) else fold_width (u - 20) 1 else (0, 0))
      in do {
        inv \<leftarrow> rd_at gInvertPat (2 * grp - 2);
        count \<leftarrow> rd_at (if use_max then MMaxTable else MMinTable) idx;
        s \<leftarrow> initG248 (s\<lparr>sh_frame_limit := of_nat (2 * grp), sh_frame_count := of_nat (2 * grp - 2), sh_invert := inv,
          sh_group_count := of_nat u, sh_wrap := (if u \<le> 0x37 then 1 else 2), sh_short_a0a := of_nat (15 - grp),
          sh_remainder := of_nat m - (of_nat u - 1) * of_nat span, sh_idx_width := of_nat width,
          sh_wide_bits := of_nat idx, sh_wide_bits_alt := of_nat idx - 1, sh_count := of_nat count\<rparr>);
        Some (s\<lparr>sh_divisor := divisor,
          sh_cost_shift := of_nat ((if divisor > 0x80 then width_from 8 (unat divisor) else 7) + 1)\<rparr>)
      })"

subsection \<open>From a number to ring indices\<close>

fun bisect :: "u32 list \<Rightarrow> u32 \<Rightarrow> nat \<Rightarrow> nat \<Rightarrow> nat \<Rightarrow> nat \<Rightarrow> nat option" where
  "bisect t3 target 0 lo mid hi = Some lo"
| "bisect t3 target (Suc i) lo mid hi = do {
     v \<leftarrow> rd_at t3 mid;
     if v > target then bisect t3 target i lo ((lo + mid) div 2) mid
     else bisect t3 target i mid ((hi + mid) div 2) hi
   }"

text \<open>
  Two pointers walk towards each other and their products are taken off while the remainder stays
  positive; the answer is what is left and where the walk stopped.
\<close>

fun peel :: "u16 list \<Rightarrow> nat \<Rightarrow> nat \<Rightarrow> u32 \<Rightarrow> (u32 \<times> nat) option" where
  "peel t up down rem = do {
     x \<leftarrow> rd_at t up;
     y \<leftarrow> rd_at t down;
     let trial = rem - ucast x * ucast y;
     if bit trial 31 then Some (rem, up)
     else case down of 0 \<Rightarrow> None | Suc down \<Rightarrow> peel t (up + 1) down trial
   }"

declare peel.simps [simp del]

text \<open>Quotient and remainder by a table entry, as signed ints.\<close>

definition share :: "u16 list \<Rightarrow> nat \<Rightarrow> u32 \<Rightarrow> (u32 \<times> u32) option" where
  "share t n rem = do {
     d \<leftarrow> rd_at t n;
     if d = 0 then None else Some (of_int (sint rem sdiv uint d), of_int (sint rem smod uint d))
   }"

text \<open>A pair with the given total: the number is the first entry, or counts down from the largest.\<close>

definition split_pair :: "u16 \<Rightarrow> u16 \<Rightarrow> u16 \<Rightarrow> u16 list" where
  "split_pair count tot x =
     (if tot \<ge> count then [tot - (count - x - 1), count - x - 1] else [x, tot - x])"

definition map_half :: "u16 list \<Rightarrow> u16 \<Rightarrow> nat \<Rightarrow> u32 \<Rightarrow> u16 list option" where
  "map_half t1 count tot rem = do {
     (rem, n2) \<leftarrow> peel t1 0 tot rem;
     (q, r) \<leftarrow> share t1 n2 rem;
     Some (split_pair count (of_nat n2) (ucast r) @ split_pair count (of_nat tot - of_nat n2) (ucast q))
   }"

definition shell_map :: "v34_shell \<Rightarrow> u32 \<Rightarrow> u16 list option" where
  "shell_map tx target = do {
     lo \<leftarrow> bisect (sh_t3 tx) target 7 0 0x40 0x80;
     base \<leftarrow> rd_at (sh_t3 tx) lo;
     (rem, n1) \<leftarrow> peel (sh_t2 tx) 0 lo (target - base);
     (q2, rem) \<leftarrow> share (sh_t2 tx) n1 rem;
     sub1 \<leftarrow> map_half (sh_t1 tx) (sh_count tx) n1 rem;
     sub2 \<leftarrow> map_half (sh_t1 tx) (sh_count tx) (lo - n1) q2;
     Some (sub1 @ sub2)
   }"

subsection \<open>And back\<close>

fun correlate_loop :: "u16 list \<Rightarrow> int \<Rightarrow> nat \<Rightarrow> nat \<Rightarrow> u32 \<Rightarrow> u32 option" where
  "correlate_loop t d lo 0 acc = Some acc"
| "correlate_loop t d lo (Suc i) acc = do {
     x \<leftarrow> rd_at t lo;
     y \<leftarrow> (if d < 0 then None else rd_at t (nat d));
     correlate_loop t (d - 1) (lo + 1) i (acc + ucast x * ucast y)
   }"

definition shell_correlate :: "u16 list \<Rightarrow> int \<Rightarrow> int \<Rightarrow> u32 option" where
  "shell_correlate t d n = correlate_loop t d 0 (nat (short_of n)) 0"

definition shell_group :: "u16 list \<Rightarrow> u16 list \<Rightarrow> int \<Rightarrow> (u32 \<times> u16 \<times> u16) option" where
  "shell_group t1 sub n = do {
     e0 \<leftarrow> rd_at sub 0;
     e1 \<leftarrow> rd_at sub 1;
     e2 \<leftarrow> rd_at sub 2;
     e3 \<leftarrow> rd_at sub 3;
     let c = e0 + e1;
     let d = e0 + e1 + e2 + e3;
     let scale = (if uint d - uint c \<ge> n then n - sint e3 else sint e2);
     let base = (if uint c \<ge> n then n - sint e1 else sint e0);
     x \<leftarrow> rd_at t1 (unat c);
     k \<leftarrow> shell_correlate t1 (uint d) (sint c);
     Some (ucast x * of_int scale + of_int base + k, c, d)
   }"

definition shellDemapper :: "v34_shell \<Rightarrow> u32 option" where
  "shellDemapper s =
     (let n = sh_count s - 1
      in if n = 0 then Some 0
         else do {
           (a, c1, d1) \<leftarrow> shell_group (sh_t1 s) (sh_sub s) (uint n);
           (b, c2, d2) \<leftarrow> shell_group (sh_t1 s) (drop 4 (sh_sub s)) (uint n);
           let dd = d1 + d2;
           x \<leftarrow> rd_at (sh_t2 s) (unat d1);
           k \<leftarrow> shell_correlate (sh_t2 s) (uint dd) (sint d1);
           z \<leftarrow> rd_at (sh_t3 s) (unat dd);
           Some (ucast x * b + a + k + z)
         })"

end
