(* ===== verification/V34Count.thy ===== *)
theory V34Count
  imports Main
begin

text \<open>
  Counting the tuples of ring indices by their sum, the arithmetic behind the tables of the shell
  mapper. \<open>ways n m s\<close> is the number of \<open>m\<close>-tuples below \<open>n\<close> with the sum \<open>s\<close>.
\<close>

definition conv :: "(nat \<Rightarrow> nat) \<Rightarrow> (nat \<Rightarrow> nat) \<Rightarrow> nat \<Rightarrow> nat" where
  "conv f g s = (\<Sum>i\<le>s. f i * g (s - i))"

lemma conv_assoc: "conv f (conv g h) s = conv (conv f g) h s"
proof -
  let ?t = "\<lambda>i j. f i * g j * h (s - (i + j))"
  have "conv f (conv g h) s = (\<Sum>i\<le>s. \<Sum>j\<le>s - i. ?t i j)"
    by (simp add: conv_def sum_distrib_left mult.assoc)
  also have "\<dots> = (\<Sum>(i, j)\<in>{(i, j). i + j \<le> s}. ?t i j)"
    by (subst sum.Sigma) (auto intro!: sum.cong)
  also have "\<dots> = (\<Sum>k\<le>s. \<Sum>i\<le>k. ?t i (k - i))" by (rule sum.triangle_reindex_eq)
  also have "\<dots> = conv (conv f g) h s"
    by (auto simp: conv_def sum_distrib_right intro!: sum.cong)
  finally show ?thesis .
qed

definition ring :: "nat \<Rightarrow> nat \<Rightarrow> nat" where
  "ring n s = (if s < n then 1 else 0)"

fun ways :: "nat \<Rightarrow> nat \<Rightarrow> nat \<Rightarrow> nat" where
  "ways n 0 = (\<lambda>s. if s = 0 then 1 else 0)"
| "ways n (Suc m) = conv (ring n) (ways n m)"

lemma ways_add: "ways n (a + b) s = conv (ways n a) (ways n b) s"
proof (induction a arbitrary: s)
  case 0
  have "(\<Sum>i\<le>s. (if i = 0 then 1 else 0) * ways n b (s - i)) = (\<Sum>i\<le>s. if i = 0 then ways n b (s - i) else 0)"
    by (intro sum.cong) auto
  then show ?case by (simp add: conv_def)
next
  case (Suc a)
  have "ways n (a + b) = conv (ways n a) (ways n b)" using Suc.IH by (intro ext)
  then show ?case by (simp add: conv_assoc)
qed

subsection \<open>Tuples\<close>

definition tuples :: "nat \<Rightarrow> nat \<Rightarrow> nat \<Rightarrow> nat list set" where
  "tuples n m s = {xs. length xs = m \<and> set xs \<subseteq> {..<n} \<and> sum_list xs = s}"

lemma tuples_Suc: "tuples n (Suc m) s = (\<Union>i\<in>{i. i \<le> s \<and> i < n}. (#) i ` tuples n m (s - i))"
  by (auto simp: tuples_def length_Suc_conv image_iff)

lemma finite_tuples [simp]: "finite (tuples n m s)"
  by (rule finite_subset [of _ "{xs. set xs \<subseteq> {..<n} \<and> length xs = m}"]) (auto simp: tuples_def finite_lists_length_eq)

lemma card_tuples: "card (tuples n m s) = ways n m s"
proof (induction m arbitrary: s)
  case 0
  have "tuples n 0 s = (if s = 0 then {[]} else {})" by (auto simp: tuples_def)
  then show ?case by simp
next
  case (Suc m)
  let ?I = "{i. i \<le> s \<and> i < n}"
  have "card (tuples n (Suc m) s) = (\<Sum>i\<in>?I. card ((#) i ` tuples n m (s - i)))"
    unfolding tuples_Suc by (rule card_UN_disjoint) auto
  also have "\<dots> = (\<Sum>i\<in>?I. ways n m (s - i))" by (simp add: card_image Suc.IH)
  also have "\<dots> = (\<Sum>i\<le>s. ring n i * ways n m (s - i))"
    by (rule sum.mono_neutral_cong_left) (auto simp: ring_def)
  finally show ?case by (simp add: conv_def)
qed

lemma sum_list_le: "set xs \<subseteq> {..<n} \<Longrightarrow> sum_list xs \<le> length xs * (n - 1)"
  by (induction xs) auto

lemma sum_list_flip:
  "set xs \<subseteq> {..<n} \<Longrightarrow> sum_list (map (\<lambda>x. n - 1 - x) xs) = length xs * (n - 1) - sum_list xs"
proof (induction xs)
  case (Cons x xs)
  then have "x \<le> n - 1" "sum_list xs \<le> length xs * (n - 1)" using sum_list_le [of xs n] by auto
  with Cons show ?case by simp
qed simp

lemma ways_out: "m * (n - 1) < s \<Longrightarrow> ways n m s = 0"
proof -
  assume out: "m * (n - 1) < s"
  have "tuples n m s = {}"
  proof (rule equals0I)
    fix xs
    assume "xs \<in> tuples n m s"
    then show False using sum_list_le [of xs n] out by (auto simp: tuples_def)
  qed
  then show ?thesis using card_tuples [of n m s] by simp
qed

lemma ways_flip:
  assumes "s \<le> m * (n - 1)"
  shows "ways n m (m * (n - 1) - s) = ways n m s"
proof -
  let ?f = "map (\<lambda>x. n - 1 - x)"
  have inv: "?f (?f xs) = xs" if "set xs \<subseteq> {..<n}" for xs
    using that by (induction xs) auto
  have into: "?f ` tuples n m s' \<subseteq> tuples n m (m * (n - 1) - s')" for s'
  proof
    fix ys
    assume "ys \<in> ?f ` tuples n m s'"
    then obtain xs where xs: "ys = ?f xs" "length xs = m" "set xs \<subseteq> {..<n}" "sum_list xs = s'"
      by (auto simp: tuples_def)
    moreover have "n - 1 - x < n" if "x \<in> set xs" for x using that xs(3) by fastforce
    ultimately show "ys \<in> tuples n m (m * (n - 1) - s')"
      using sum_list_flip [of xs n] by (auto simp: tuples_def)
  qed
  have "bij_betw ?f (tuples n m s) (tuples n m (m * (n - 1) - s))"
  proof (rule bij_betw_byWitness [where f' = ?f])
    show "\<forall>xs \<in> tuples n m s. ?f (?f xs) = xs" "\<forall>xs \<in> tuples n m (m * (n - 1) - s). ?f (?f xs) = xs"
      using inv by (auto simp: tuples_def)
    show "?f ` tuples n m s \<subseteq> tuples n m (m * (n - 1) - s)" by (rule into)
    show "?f ` tuples n m (m * (n - 1) - s) \<subseteq> tuples n m s"
      using into [of "m * (n - 1) - s"] assms by simp
  qed
  then show ?thesis by (simp add: bij_betw_same_card flip: card_tuples)
qed

lemma ways_1: "ways n 1 s = ring n s"
proof -
  have "(\<Sum>i\<le>s. ring n i * (if s - i = 0 then 1 else 0)) = (\<Sum>i\<le>s. if i = s then ring n i else 0)"
    by (intro sum.cong) auto
  then show ?thesis by (simp add: conv_def)
qed

text \<open>Pairs: the counts rise to \<open>n\<close> and fall again.\<close>

lemma ways_2:
  assumes "0 < n"
  shows "ways n 2 s = (if s < n then s + 1 else if s \<le> 2 * (n - 1) then 2 * n - 1 - s else 0)"
proof -
  have low: "ways n 2 s = s + 1" if "s < n" for s
  proof -
    have "ways n 2 s = (\<Sum>i\<le>s. ring n i * ring n (s - i))"
      using ways_add [of n 1 1 s] by (simp only: conv_def ways_1 one_add_one)
    also have "\<dots> = (\<Sum>i\<le>s. 1)" using that by (intro sum.cong) (auto simp: ring_def)
    finally show ?thesis by simp
  qed
  show ?thesis
  proof (cases "s \<le> 2 * (n - 1)")
    case True
    then have "ways n 2 s = ways n 2 (2 * (n - 1) - s)" using ways_flip [of s 2 n] by simp
    then show ?thesis using low [of s] low [of "2 * (n - 1) - s"] True assms by auto
  qed (use ways_out [of 2 n s] assms in auto)
qed

text \<open>Tuples with a smaller sum; all of them.\<close>

definition below :: "nat \<Rightarrow> nat \<Rightarrow> nat \<Rightarrow> nat" where
  "below n m k = (\<Sum>s<k. ways n m s)"

lemma below_Suc: "below n m (Suc k) = below n m k + ways n m k"
  by (simp add: below_def)

lemma below_mono: "k \<le> l \<Longrightarrow> below n m k \<le> below n m l"
  by (auto simp: below_def intro!: sum_mono2)

lemma card_below: "card {xs. length xs = m \<and> set xs \<subseteq> {..<n} \<and> sum_list xs < k} = below n m k"
proof -
  have "{xs. length xs = m \<and> set xs \<subseteq> {..<n} \<and> sum_list xs < k} = (\<Union>s<k. tuples n m s)" by (auto simp: tuples_def)
  moreover have "card (\<Union>s<k. tuples n m s) = (\<Sum>s<k. card (tuples n m s))"
  proof (rule card_UN_disjoint)
    show "\<forall>s\<in>{..<k}. finite (tuples n m s)" by simp
  qed (auto simp: tuples_def)
  ultimately show ?thesis by (simp add: below_def card_tuples)
qed

lemma below_all:
  assumes "m * (n - 1) < k"
  shows "below n m k = n ^ m"
proof -
  have "{xs. length xs = m \<and> set xs \<subseteq> {..<n} \<and> sum_list xs < k} = {xs. set xs \<subseteq> {..<n} \<and> length xs = m}"
    using sum_list_le [of _ n] assms by fastforce
  then show ?thesis using card_below [of m n k] by (simp add: card_lists_length_eq)
qed

end
