(* ===== verification/V34Table.thy ===== *)
theory V34Table
  imports V34Shell V34Count
begin

text \<open>
  The count tables of the shell mapper hold what they are meant to: after \<^verbatim>\<open>preinitV34\<close> and
  \<^verbatim>\<open>initG248\<close> the first two tables of a context are the numbers of pairs and of quadruples of ring
  indices with a given sum, and the third, copied out of the table \<^verbatim>\<open>xyz\<close>, is the number of
  octuples with a smaller one.
\<close>

subsection \<open>The counts of octuples, evaluated\<close>

fun slide :: "int \<Rightarrow> int list \<Rightarrow> int list \<Rightarrow> int list" where
  "slide acc (x # xs) (y # ys) = (let acc = acc + x - y in acc # slide acc xs ys)"
| "slide acc xs ys = []"

fun ways_list :: "nat \<Rightarrow> nat \<Rightarrow> nat \<Rightarrow> int list" where
  "ways_list n len 0 = 1 # replicate (len - 1) 0"
| "ways_list n len (Suc m) = (let ws = ways_list n len m in slide 0 ws (replicate n 0 @ ws))"

fun sums :: "int \<Rightarrow> int list \<Rightarrow> int list" where
  "sums acc [] = [acc]"
| "sums acc (x # xs) = acc # sums (acc + x) xs"

definition block :: "nat \<Rightarrow> nat \<Rightarrow> int list" where
  "block n len = butlast (sums 0 (ways_list n len 8))"

definition xyz_blocks :: "(nat \<times> nat) list" where
  "xyz_blocks = [(1, 1), (2, 9), (3, 17), (4, 25), (5, 33), (6, 41), (7, 49), (8, 57), (9, 65), (10, 73), (11, 81),
     (12, 89), (13, 97), (14, 105), (15, 69), (17, 58), (18, 56)]"

lemma conv_ring_Suc:
  assumes "0 < n"
  shows "conv (ring n) g (Suc k) + (if Suc k < n then 0 else g (Suc k - n)) = conv (ring n) g k + g (Suc k)"
proof -
  have first: "conv (ring n) g (Suc k) = g (Suc k) + (\<Sum>i\<le>k. ring n (Suc i) * g (k - i))"
    using assms by (simp add: conv_def sum.atMost_Suc_shift ring_def del: sum.atMost_Suc)
  have "conv (ring n) g k = (\<Sum>i\<le>k. ring n (Suc i) * g (k - i) + (if i = n - 1 then g (k - i) else 0))"
    unfolding conv_def using assms by (intro sum.cong) (auto simp: ring_def)
  also have "\<dots> = (\<Sum>i\<le>k. ring n (Suc i) * g (k - i)) + (if n - 1 \<le> k then g (k - (n - 1)) else 0)"
    by (simp add: sum.distrib)
  finally show ?thesis using first assms by (auto simp: Suc_diff_le)
qed

lemma slide_conv:
  assumes "0 < n"
  shows "slide (case a of 0 \<Rightarrow> 0 | Suc k \<Rightarrow> int (conv (ring n) g k)) (map (\<lambda>k. int (g k)) [a..<a + len])
       (map (\<lambda>k. if k < n then 0 else int (g (k - n))) [a..<a + len] @ rest)
     = map (\<lambda>k. int (conv (ring n) g k)) [a..<a + len]"
proof (induction len arbitrary: a)
  case (Suc len)
  have split: "[a..<a + Suc len] = a # [Suc a..<Suc a + len]" by (simp add: upt_rec)
  have "(case a of 0 \<Rightarrow> 0 | Suc k \<Rightarrow> int (conv (ring n) g k)) + int (g a) - (if a < n then 0 else int (g (a - n)))
      = int (conv (ring n) g a)"
  proof (cases a)
    case 0
    then show ?thesis using assms by (simp add: conv_def ring_def)
  next
    case (Suc k)
    then show ?thesis using conv_ring_Suc [OF assms, of g k] by (auto split: if_splits)
  qed
  then show ?case using Suc.IH [of "Suc a"] unfolding split by (simp add: Let_def del: upt_Suc)
qed simp

lemma ways_list_eq:
  assumes "0 < n" "0 < len"
  shows "ways_list n len m = map (\<lambda>s. int (ways n m s)) [0..<len]"
proof (induction m)
  case 0
  show ?case using assms by (auto simp: list_eq_iff_nth_eq nth_Cons split: nat.splits)
next
  case (Suc m)
  let ?g = "ways n m"
  let ?d = "\<lambda>k. if k < n then 0 else int (?g (k - n))"
  have "replicate n 0 @ map (\<lambda>s. int (?g s)) [0..<len] = map ?d [0..<n + len]"
    by (auto simp: list_eq_iff_nth_eq nth_append)
  also have "\<dots> = map ?d [0..<0 + len] @ map ?d [len..<len + n]"
    using upt_add_eq_append [of 0 len n] by (simp add: add.commute [of n])
  finally show ?case using slide_conv [OF assms(1), where a = 0 and g = ?g and len = len] Suc.IH by (simp add: Let_def)
qed

lemma sums_map: "sums (\<Sum>s<a. g s) (map g [a..<a + len]) = map (\<lambda>k. \<Sum>s<k. g s) [a..<a + Suc len]"
proof (induction len arbitrary: a)
  case (Suc len)
  have split: "[a..<a + Suc l] = a # [Suc a..<Suc a + l]" for l by (simp add: upt_rec)
  show ?case using Suc.IH [of "Suc a"] unfolding split by simp
qed simp

lemma sums_ways:
  assumes "0 < n" "0 < len"
  shows "sums 0 (ways_list n len 8) = map (\<lambda>k. int (below n 8 k)) [0..<Suc len]"
  using sums_map [of "\<lambda>s. int (ways n 8 s)" 0 len] assms
  by (simp add: ways_list_eq below_def del: upt_Suc)

lemma block_eq: "0 < n \<Longrightarrow> 0 < len \<Longrightarrow> block n len = map (\<lambda>k. int (below n 8 k)) [0..<len]"
  by (simp add: block_def sums_ways)

lemma xyz_data: "drop 20 xyz = concat (map (\<lambda>(n, len). block n len) xyz_blocks)"
  by code_simp

lemma xyz_head: "take 20 xyz =
    [0, 20, 21, 30, 47, 72, 105, 146, 195, 252, 317, 390, 471, 560, 657, 762, 831, 831, 889, 945]"
  by code_simp

lemma length_block: "0 < n \<Longrightarrow> 0 < len \<Longrightarrow> length (block n len) = len"
  by (simp add: block_eq)

lemma xyz_nth: "i < 20 \<Longrightarrow> xyz ! i =
    [0, 20, 21, 30, 47, 72, 105, 146, 195, 252, 317, 390, 471, 560, 657, 762, 831, 831, 889, 945] ! i"
  by (simp flip: xyz_head)

lemma xyz_drop: "drop (k + 20) xyz = drop k (concat (map (\<lambda>(n, len). block n len) xyz_blocks))"
  by (simp flip: xyz_data)

lemma xyz_length: "length xyz = 945"
  by code_simp

lemma xyz_block:
  assumes "(n, len) \<in> set xyz_blocks"
  shows "xyz ! (n + 1) = xyz ! n + int len" "0 \<le> xyz ! n" "n + 1 < 20"
    "take len (drop (nat (xyz ! n)) xyz) = block n len"
proof -
  show "xyz ! (n + 1) = xyz ! n + int len" "0 \<le> xyz ! n" "n + 1 < 20"
    using assms by (auto simp: xyz_blocks_def xyz_nth)
  show "take len (drop (nat (xyz ! n)) xyz) = block n len"
    using assms xyz_drop [of "nat (xyz ! n) - 20"] by (auto simp: xyz_blocks_def xyz_nth length_block)
qed

text \<open>The blocks reach as far as a target can: all the octuples, or past the largest target.\<close>

lemma last_below: "0 < n \<Longrightarrow> 0 < len \<Longrightarrow> last (sums 0 (ways_list n len 8)) = int (below n 8 len)"
  by (simp add: sums_ways)

lemma big_blocks:
  "last (sums 0 (ways_list 15 69 8)) = 2162512575"
  "last (sums 0 (ways_list 17 58 8)) = 2249305740"
  "last (sums 0 (ways_list 18 56 8)) = 2210630733"
  by code_simp+

lemma blocks_reach:
  assumes "(n, len) \<in> set xyz_blocks"
  shows "min (n ^ 8) (2 ^ 31) \<le> below n 8 len"
proof -
  consider "n \<in> {15, 17, 18}" | "8 * (n - 1) < len"
    using assms by (auto simp: xyz_blocks_def)
  then show ?thesis
  proof cases
    case 1
    then show ?thesis using assms last_below [of 15 69] last_below [of 17 58] last_below [of 18 56]
      by (auto simp: xyz_blocks_def big_blocks)
  next
    case 2
    then show ?thesis by (simp add: below_all)
  qed
qed

end
