(* ===== verification/V34ShellMap.thy ===== *)
theory V34ShellMap
  imports V34Table
begin

text \<open>
  What \<^verbatim>\<open>initG248\<close> leaves in a context, and the shell mapper as a numbering: the mapping of
  \<^verbatim>\<open>modulatevector\<close> gives every number below the capacity eight ring indices, in the order of
  their sum, and \<^verbatim>\<open>shellDemapper\<close> takes them back to the number.
\<close>

subsection \<open>How large the counts are\<close>

lemma below_le: "below n m k \<le> n ^ m"
proof -
  have "below n m k \<le> below n m (max k (Suc (m * (n - 1))))" by (rule below_mono) simp
  also have "\<dots> = n ^ m" by (rule below_all) simp
  finally show ?thesis .
qed

lemma ways_add_le:
  assumes "\<And>s. ways n b s \<le> M"
  shows "ways n (a + b) s \<le> n ^ a * M"
proof -
  have "ways n (a + b) s \<le> (\<Sum>i\<in>{..s}. ways n a i * M)"
    unfolding ways_add conv_def by (intro sum_mono mult_left_mono assms) simp
  also have "\<dots> = below n a (Suc s) * M"
    by (simp add: below_def sum_distrib_right lessThan_Suc_atMost)
  also have "\<dots> \<le> n ^ a * M" by (intro mult_right_mono below_le) simp
  finally show ?thesis .
qed

lemma ways_le:
  assumes "0 < n" "n \<le> 18"
  shows "ways n 2 s \<le> 18" "ways n 4 s \<le> 5832"
proof -
  show two: "ways n 2 s \<le> 18" for s using assms by (auto simp: ways_2)
  have "ways n (2 + 2) s \<le> n ^ 2 * 18" by (rule ways_add_le) (rule two)
  also have "\<dots> \<le> 18 ^ 2 * 18" using assms by (intro mult_right_mono power_mono) auto
  finally show "ways n 4 s \<le> 5832" by simp
qed

subsection \<open>The tables of a context\<close>

definition pair_table :: "nat \<Rightarrow> u16 list \<Rightarrow> bool" where
  "pair_table n t = (length t = 128 \<and> (\<forall>k<128. unat (t ! k) = ways n 2 k))"

definition quad_table :: "nat \<Rightarrow> u16 list \<Rightarrow> bool" where
  "quad_table n t = (length t = 128 \<and> (\<forall>k<128. unat (t ! k) = ways n 4 k))"

definition shell_table :: "nat \<Rightarrow> nat \<Rightarrow> u32 list \<Rightarrow> bool" where
  "shell_table n len t =
     (length t = 128 \<and> (\<forall>k<128. unat (t ! k) = (if k < len then below n 8 k else 2 ^ 32 - 1)))"

definition shell_ready :: "v34_shell \<Rightarrow> nat \<Rightarrow> bool" where
  "shell_ready s n = (unat (sh_count s) = n \<and> pair_table n (sh_t1 s) \<and> quad_table n (sh_t2 s) \<and>
     (\<exists>len. (n, len) \<in> set xyz_blocks \<and> shell_table n len (sh_t3 s)))"

lemma xyz_blocks_range: "(n, len) \<in> set xyz_blocks \<Longrightarrow> 0 < n \<and> n \<le> 18 \<and> 0 < len \<and> len < 106"
  by (auto simp: xyz_blocks_def)

lemma unat_of_nat_u32 [word_nat]: "n < 4294967296 \<Longrightarrow> unat (of_nat n :: u32) = n"
  by (simp add: unat_of_nat take_bit_nat_eq_self)

lemma ucast_of_nat_unat: "ucast (x :: u16) = (of_nat (unat x) :: u32)"
  by (simp add: unsigned_ucast_eq)

lemma tent_loop_table:
  assumes "hi = 2 * (n - 1)" "n \<le> 18" "i + k = n" "0 < n" "length t = 128"
    and "\<forall>p<128. unat (t ! p) = (if p < i then p + 1 else if hi - i < p \<and> p \<le> hi then hi + 1 - p else 0)"
  shows "\<exists>t'. tent_loop hi i k t = Some t' \<and> pair_table n t'"
  using assms(3,5,6)
proof (induction k arbitrary: i t)
  case 0
  then show ?case using assms by (auto simp: pair_table_def ways_2)
next
  case (Suc k)
  let ?t = "t[hi - i := of_nat (i + 1), i := of_nat (i + 1)]"
  have "hi - i < 128" "i < 128" using assms Suc.prems(1) by auto
  then have "tent_loop hi i (Suc k) t = tent_loop hi (i + 1) k ?t"
    using Suc.prems(2) by (simp add: mem_simps)
  moreover have "\<exists>t'. tent_loop hi (i + 1) k ?t = Some t' \<and> pair_table n t'"
  proof (rule Suc.IH)
    show "\<forall>p<128. unat (?t ! p)
        = (if p < i + 1 then p + 1 else if hi - (i + 1) < p \<and> p \<le> hi then hi + 1 - p else 0)"
      using Suc.prems assms by (auto simp: nth_list_update word_nat)
  qed (use Suc.prems in auto)
  ultimately show ?case by simp
qed

lemma conv_loop_sum:
  assumes "pair_table n t" "a + cnt \<le> j + 1" "j < 128"
  shows "conv_loop t a (j - a) cnt acc = Some (acc + of_nat (\<Sum>i\<in>{a..<a + cnt}. ways n 2 i * ways n 2 (j - i)))"
  using assms(2)
proof (induction cnt arbitrary: a acc)
  case (Suc cnt)
  have "ucast (t ! k) = (of_nat (ways n 2 k) :: u32)" if "k < 128" for k
    using assms(1) that by (simp add: pair_table_def ucast_of_nat_unat)
  then have "conv_loop t a (j - a) (Suc cnt) acc
      = conv_loop t (Suc a) (j - Suc a) cnt (acc + of_nat (ways n 2 a * ways n 2 (j - a)))"
    using assms Suc.prems by (simp add: pair_table_def mem_simps algebra_simps)
  moreover have "{a..<a + Suc cnt} = insert a {Suc a..<Suc a + cnt}" by auto
  ultimately show ?case using Suc.IH [of "Suc a"] Suc.prems by (simp add: algebra_simps)
qed simp

lemma square_loop_table:
  assumes t1: "pair_table n t1" and n: "0 < n" "n \<le> 18" "hi = 2 * (n - 1)"
    and "j + k = hi + 1" "length t = 128"
    and "\<forall>p<128. unat (t ! p) = (if p < j \<or> 2 * hi - j < p then ways n 4 p else 0)"
  shows "\<exists>t'. square_loop t1 hi j k t = Some t' \<and> quad_table n t'"
  using assms(5-)
proof (induction k arbitrary: j t)
  case 0
  then show ?case using ways_out [of 4 n] n by (auto simp: quad_table_def)
next
  case (Suc k)
  let ?t = "t[2 * hi - j := of_nat (ways n 4 j), j := of_nat (ways n 4 j)]"
  have j: "2 * hi - j < 128" "j < 128" using n Suc.prems(1) by auto
  have small: "ways n 4 j < 65536" using ways_le(2) [of n j] n by simp
  have "conv_loop t1 0 j (j + 1) 0 = Some (of_nat (\<Sum>i\<in>{0..<j + 1}. ways n 2 i * ways n 2 (j - i)))"
    using conv_loop_sum [OF t1, of 0 "j + 1" j 0] j by simp
  also have "(\<Sum>i\<in>{0..<j + 1}. ways n 2 i * ways n 2 (j - i)) = ways n (2 + 2) j"
    unfolding ways_add conv_def by (rule sum.cong) auto
  finally have "square_loop t1 hi j (Suc k) t = square_loop t1 hi (j + 1) k ?t"
    using j Suc.prems(2) small by (simp add: mem_simps unsigned_of_nat take_bit_nat_eq_self del: conv_loop.simps)
  moreover have "\<exists>t'. square_loop t1 hi (j + 1) k ?t = Some t' \<and> quad_table n t'"
  proof (rule Suc.IH)
    have "2 * hi = 4 * (n - 1)" "j \<le> 4 * (n - 1)" using n Suc.prems(1) by auto
    then have "ways n 4 (2 * hi - j) = ways n 4 j" using ways_flip [of j 4 n] by simp
    then show "\<forall>p<128. unat (?t ! p) = (if p < j + 1 \<or> 2 * hi - (j + 1) < p then ways n 4 p else 0)"
      using Suc.prems j small by (auto simp: nth_list_update word_nat less_Suc_eq)
  qed (use Suc.prems in auto)
  ultimately show ?case by simp
qed

lemma copy_loop_table:
  assumes "k + len \<le> length t" "c + len \<le> length xyz"
  shows "\<exists>t'. copy_loop c k len t = Some t' \<and> length t' = length t \<and>
     (\<forall>p<length t. t' ! p = (if k \<le> p \<and> p < k + len then of_int (xyz ! (c + p - k)) else t ! p))"
  using assms
proof (induction len arbitrary: c k t)
  case 0
  show ?case by (auto simp del: split_paired_Ex)
next
  case (Suc len)
  obtain t' where t': "copy_loop (c + 1) (k + 1) len (t[k := of_int (xyz ! c)]) = Some t'" "length t' = length t"
    "\<forall>p<length t. t' ! p = (if k + 1 \<le> p \<and> p < k + 1 + len then of_int (xyz ! (c + 1 + p - (k + 1)))
        else t[k := of_int (xyz ! c)] ! p)"
    using Suc.IH [of "k + 1" "t[k := of_int (xyz ! c)]" "c + 1"] Suc.prems by auto
  have "\<forall>p<length t. t' ! p = (if k \<le> p \<and> p < k + Suc len then of_int (xyz ! (c + p - k)) else t ! p)"
  proof (intro allI impI)
    fix p
    assume "p < length t"
    then show "t' ! p = (if k \<le> p \<and> p < k + Suc len then of_int (xyz ! (c + p - k)) else t ! p)"
      using t'(3) by (cases "p = k") auto
  qed
  then show ?case using t' Suc.prems by (simp add: mem_simps)
qed

lemma block_nth:
  assumes "(n, len) \<in> set xyz_blocks" "p < len"
  shows "xyz ! (nat (xyz ! n) + p) = int (below n 8 p)" "nat (xyz ! n) + len \<le> length xyz"
proof -
  have nl: "0 < n" "0 < len" using xyz_blocks_range assms(1) by blast+
  have tk: "take len (drop (nat (xyz ! n)) xyz) = block n len" by (rule xyz_block) (rule assms)
  have "length (take len (drop (nat (xyz ! n)) xyz)) = len" unfolding tk by (simp add: length_block nl)
  then show fit: "nat (xyz ! n) + len \<le> length xyz" using nl by (simp add: min_def split: if_splits)
  have "xyz ! (nat (xyz ! n) + p) = take len (drop (nat (xyz ! n)) xyz) ! p" using fit assms(2) by simp
  also have "\<dots> = int (below n 8 p)" unfolding tk using assms(2) by (simp add: block_eq nl)
  finally show "xyz ! (nat (xyz ! n) + p) = int (below n 8 p)" .
qed

lemma block_small:
  assumes "(n, len) \<in> set xyz_blocks" "p < len"
  shows "below n 8 p < 2 ^ 31"
proof -
  have "below n 8 p \<le> below n 8 (len - 1)" using assms by (intro below_mono) simp
  moreover have "\<forall>(n, len) \<in> set xyz_blocks. xyz ! (nat (xyz ! n) + (len - 1)) < 2147483648" by code_simp
  then have "int (below n 8 (len - 1)) < 2147483648"
    using assms block_nth(1) [of n len "len - 1"] by auto
  ultimately show ?thesis by simp
qed

lemma initG248_ready:
  assumes "sh_t1 s = replicate 128 0" "sh_t2 s = replicate 128 0" "sh_t3 s = replicate 128 (- 1)"
    and blk: "(unat (sh_count s), len) \<in> set xyz_blocks"
  shows "\<exists>t1 t2 t3. initG248 s = Some (s\<lparr>sh_t1 := t1, sh_t2 := t2, sh_t3 := t3\<rparr>) \<and>
     shell_ready (s\<lparr>sh_t1 := t1, sh_t2 := t2, sh_t3 := t3\<rparr>) (unat (sh_count s))"
proof -
  let ?n = "unat (sh_count s)"
  let ?hi = "2 * (?n - 1)"
  have n: "0 < ?n" "?n \<le> 18" and len: "0 < len" "len < 106" using xyz_blocks_range [OF blk] by auto
  obtain t1 where t1: "tent_loop ?hi 0 ?n (sh_t1 s) = Some t1" "pair_table ?n t1"
  proof -
    have "\<forall>p<128. unat (replicate 128 (0 :: u16) ! p)
        = (if p < 0 then p + 1 else if ?hi - 0 < p \<and> p \<le> ?hi then ?hi + 1 - p else 0)" by auto
    then show thesis using tent_loop_table [of ?hi ?n 0 ?n "sh_t1 s"] n assms(1) that by auto
  qed
  obtain t2 where t2: "square_loop t1 ?hi 0 (?hi + 1) (sh_t2 s) = Some t2" "quad_table ?n t2"
  proof -
    have "\<forall>p<128. unat (replicate 128 (0 :: u16) ! p) = (if p < 0 \<or> 2 * ?hi - 0 < p then ways ?n 4 p else 0)"
      using ways_out [of 4 ?n] by auto
    then show thesis using square_loop_table [of ?n t1 ?hi 0 "?hi + 1" "sh_t2 s"] t1(2) n assms(2) that by auto
  qed
  obtain t3 where t3: "copy_loop (nat (xyz ! ?n)) 0 len (sh_t3 s) = Some t3" "length t3 = 128"
    "\<forall>p<128. t3 ! p = (if p < len then of_int (xyz ! (nat (xyz ! ?n) + p)) else - 1)"
    using copy_loop_table [of 0 len "sh_t3 s" "nat (xyz ! ?n)"] block_nth(2) [OF blk len(1)] len assms(3) by auto
  have "shell_table ?n len t3"
    unfolding shell_table_def
  proof (intro conjI allI impI)
    fix k :: nat
    assume "k < 128"
    then show "unat (t3 ! k) = (if k < len then below ?n 8 k else 2 ^ 32 - 1)"
    proof (cases "k < len")
      case True
      then have "below ?n 8 k < 4294967296" using block_small [OF blk True] by simp
      then show ?thesis using t3(3) block_nth(1) [OF blk True] True \<open>k < 128\<close> by (simp add: word_nat)
    qed (use t3(3) \<open>k < 128\<close> in \<open>simp add: unsigned_minus_1_eq_mask mask_numeral\<close>)
  qed (rule t3(2))
  have "?n + 1 < length xyz" using n by (simp add: xyz_length)
  then have "initG248 s = Some (s\<lparr>sh_t1 := t1, sh_t2 := t2, sh_t3 := t3\<rparr>)"
    using n t1(1) t2(1) t3(1) xyz_block(1,2) [OF blk]
    by (simp add: initG248_def Let_def mem_simps del: tent_loop.simps square_loop.simps copy_loop.simps)
  with \<open>shell_table ?n len t3\<close> show ?thesis using t1(2) t2(2) blk by (auto simp: shell_ready_def)
qed

lemma initG248_undefined:
  assumes "unat (sh_count s) = 0"
  shows "initG248 s = None"
  using assms by (simp add: initG248_def)

subsection \<open>Searching and peeling\<close>

lemma bit31_minus:
  assumes "r < 2147483648" "p < 2147483648"
  shows "bit (of_nat r - of_nat p :: u32) 31 \<longleftrightarrow> r < p"
proof -
  have "(of_nat r - of_nat p :: u32) = of_int (int r - int p)" by simp
  then have "bit (of_nat r - of_nat p :: u32) 31 = bit (int r - int p) 31"
    by (simp only: bit_word_of_int_iff) simp
  also have "\<dots> = odd ((int r - int p) div 2147483648)" by (simp add: bit_iff_odd)
  also have "(int r - int p) div 2147483648 = (if r < p then - 1 else 0)"
  proof (cases "r < p")
    case True
    show ?thesis using assms True
      by (simp add: int_div_pos_eq [of _ _ "- 1" "2147483648 + int r - int p"])
  qed (use assms in simp)
  finally show ?thesis by (simp split: if_splits)
qed

lemma bisect_correct:
  assumes len: "length t = 128" and mono: "\<And>k l. k \<le> l \<Longrightarrow> l < 128 \<Longrightarrow> t ! k \<le> t ! l"
    and "hi = lo + 2 ^ i" "mid = (lo + hi) div 2" "hi \<le> 128" "t ! lo \<le> target" "hi < 128 \<longrightarrow> target < t ! hi"
  shows "\<exists>r. bisect t target i lo mid hi = Some r \<and> r < 128 \<and> t ! r \<le> target \<and> (r + 1 < 128 \<longrightarrow> target < t ! (r + 1))"
  using assms(3-)
proof (induction i arbitrary: lo mid hi)
  case 0
  then show ?case by auto
next
  case (Suc i)
  define d :: nat where "d = 2 ^ i"
  have d: "0 < d" "hi = lo + 2 * d" using Suc.prems(1) by (simp_all add: d_def)
  then have mid: "mid = lo + d" "hi = mid + d" using Suc.prems(2) by simp_all
  then have m: "mid < 128" using d(1) Suc.prems(3) by linarith
  show ?case
  proof (cases "t ! mid > target")
    case True
    then show ?thesis using Suc.IH [of mid lo "(lo + mid) div 2"] mid m Suc.prems(3-) len by (simp add: mem_simps d_def)
  next
    case False
    then show ?thesis using Suc.IH [of hi mid "(hi + mid) div 2"] mid m Suc.prems(3-) len
      by (simp add: mem_simps add.commute d_def)
  qed
qed

end
