(* ===== verification/V34ShellTrip.thy ===== *)
theory V34ShellTrip
  imports V34ShellMap
begin

text \<open>
  The shell mapper is a numbering. The mapping half of \<^verbatim>\<open>modulatevector\<close> gives every number
  below the capacity eight ring indices, in the order of their sum, and \<^verbatim>\<open>shellDemapper\<close>
  takes them back to the number.
\<close>

subsection \<open>Peeling products off a number\<close>

lemma peel_correct:
  assumes t: "length t = 128" "\<forall>k<128. unat (t ! k) = f k" "\<forall>k. f k \<le> 5832"
    and "up + down = s" "s < 128" "r < 2147483648" "r < (\<Sum>k\<in>{up..s}. f k * f (s - k))"
  shows "\<exists>i r'. up \<le> i \<and> i \<le> s \<and> peel t up down (of_nat r) = Some (of_nat r', i) \<and>
      r = (\<Sum>k\<in>{up..<i}. f k * f (s - k)) + r' \<and> r' < f i * f (s - i)"
  using assms(4-)
proof (induction down arbitrary: up r)
  case (0 up r)
  have "f up * f 0 \<le> 5832 * 5832" using t(3) by (intro mult_mono) auto
  moreover have "ucast (t ! up) * ucast (t ! 0) = (of_nat (f up * f 0) :: u32)"
    using t 0 by (simp add: ucast_of_nat_unat)
  ultimately have "peel t up 0 (of_nat r) = Some (of_nat r, up)"
    using t 0 bit31_minus [of r "f up * f 0"] by (subst peel.simps) (auto simp: mem_simps Let_def)
  then show ?case using 0 by - (rule exI [of _ up], rule exI [of _ r], auto)
next
  case (Suc down)
  let ?p = "f up * f (Suc down)"
  have p: "?p < 2147483648"
  proof -
    have "?p \<le> 5832 * 5832" using t(3) by (intro mult_mono) auto
    then show ?thesis by simp
  qed
  have c: "ucast (t ! up) * ucast (t ! Suc down) = (of_nat ?p :: u32)"
    using t Suc.prems by (simp add: ucast_of_nat_unat)
  have step: "peel t up (Suc down) (of_nat r)
      = (if r < ?p then Some (of_nat r, up) else peel t (up + 1) down (of_nat r - of_nat ?p))"
    using t Suc.prems bit31_minus [OF Suc.prems(3) p] c
    by (subst peel.simps) (simp add: mem_simps Let_def)
  have ends: "s - up = Suc down" using Suc.prems(1) by simp
  show ?case
  proof (cases "r < ?p")
    case True
    then show ?thesis using step Suc.prems(1) ends by - (rule exI [of _ up], rule exI [of _ r], auto)
  next
    case False
    have sums: "(\<Sum>k\<in>{up..s}. f k * f (s - k)) = ?p + (\<Sum>k\<in>{up + 1..s}. f k * f (s - k))"
      using Suc.prems(1) ends by (simp add: sum.atLeast_Suc_atMost)
    have "\<exists>i r'. up + 1 \<le> i \<and> i \<le> s \<and> peel t (up + 1) down (of_nat (r - ?p)) = Some (of_nat r', i) \<and>
        r - ?p = (\<Sum>k\<in>{up + 1..<i}. f k * f (s - k)) + r' \<and> r' < f i * f (s - i)"
      by (rule Suc.IH) (use Suc.prems False sums in auto)
    then obtain i r' where i: "up + 1 \<le> i" "i \<le> s"
      "peel t (up + 1) down (of_nat (r - ?p)) = Some (of_nat r', i)"
      "r - ?p = (\<Sum>k\<in>{up + 1..<i}. f k * f (s - k)) + r'" "r' < f i * f (s - i)" by blast
    have "(\<Sum>k\<in>{up..<i}. f k * f (s - k)) = ?p + (\<Sum>k\<in>{up + 1..<i}. f k * f (s - k))"
      using i(1) ends by (simp add: sum.atLeast_Suc_lessThan)
    moreover have "(of_nat r - of_nat ?p :: u32) = of_nat (r - ?p)" using False by (simp only: of_nat_diff not_less)
    ultimately have "peel t up (Suc down) (of_nat r) = Some (of_nat r', i)"
      "r = (\<Sum>k\<in>{up..<i}. f k * f (s - k)) + r'"
      using i(3,4) step False by simp_all
    moreover have "up \<le> i" using i(1) by simp
    ultimately show ?thesis using i(2,5) by blast
  qed
qed

lemma share_correct:
  assumes "n < length t" "unat (t ! n) = d" "0 < d" "r < 2147483648"
  shows "share t n (of_nat r) = Some (of_nat (r div d), of_nat (r mod d))"
proof -
  have "t ! n \<noteq> 0" using assms by (metis less_irrefl unsigned_0)
  moreover have "sint (of_nat r :: u32) = int r"
    using assms(4) by (simp add: signed_of_nat signed_take_bit_int_eq_self)
  moreover have "uint (t ! n) = int d" unfolding uint_nat using assms(2) by simp
  moreover have "int r sdiv int d = int (r div d)" "int r smod int d = int (r mod d)"
    using assms(3) by (auto simp: signed_divide_int_def signed_modulo_int_def zdiv_int zmod_int sgn_if algebra_simps)
  ultimately show ?thesis using assms(1) by (simp add: share_def mem_simps)
qed

subsection \<open>The number of a tuple\<close>

fun pair_code :: "nat \<Rightarrow> nat \<times> nat \<Rightarrow> nat" where
  "pair_code n (a, b) = (if n - 1 \<le> a + b then n - 1 - b else a)"

fun quad_code :: "nat \<Rightarrow> nat \<times> nat \<Rightarrow> nat \<times> nat \<Rightarrow> nat" where
  "quad_code n (a, b) (c, d) = ways n 2 (a + b) * pair_code n (c, d) + pair_code n (a, b)
     + (\<Sum>k<a + b. ways n 2 k * ways n 2 (a + b + c + d - k))"

lemma split_pair_code:
  assumes "0 < n" "n \<le> 18" "x < ways n 2 tot"
  shows "\<exists>a b. split_pair (of_nat n) (of_nat tot) (of_nat x) = [of_nat a, of_nat b] \<and>
     a < n \<and> b < n \<and> a + b = tot \<and> pair_code n (a, b) = x"
proof (cases "tot < n")
  case True
  then have x: "x \<le> tot" using assms ways_2 [of n tot] by simp
  have "\<not> (of_nat n :: u16) \<le> of_nat tot" using True assms by (simp add: word_le_nat_alt word_nat)
  then show ?thesis using True x assms
    by - (rule exI [of _ x], rule exI [of _ "tot - x"], auto simp: split_pair_def of_nat_diff)
next
  case False
  then have x: "x < 2 * n - 1 - tot" "tot \<le> 2 * (n - 1)" using assms ways_2 [of n tot] by (auto split: if_splits)
  let ?b = "n - x - 1"
  have bx: "x + 1 \<le> n" "?b \<le> tot" using x False by auto
  have "(of_nat n :: u16) \<le> of_nat tot" using False x assms by (simp add: word_le_nat_alt word_nat)
  moreover have "of_nat ?b = (of_nat n - of_nat x - 1 :: u16)" using bx by (simp add: of_nat_diff)
  moreover have "of_nat (tot - ?b) = (of_nat tot - of_nat ?b :: u16)" using bx by (simp add: of_nat_diff)
  ultimately show ?thesis using x False bx
    by - (rule exI [of _ "tot - ?b"], rule exI [of _ ?b], auto simp: split_pair_def)
qed

lemma ucast_of_nat_u32_u16 [simp]: "ucast (of_nat r :: u32) = (of_nat r :: u16)"
  by (rule bit_word_eqI) (auto simp: bit_ucast_iff bit_of_nat_iff)

lemma div_mod_less:
  assumes "r < a * (b :: nat)"
  shows "0 < a" "r mod a < a" "r div a < b"
proof -
  show "0 < a" using assms by (cases a) auto
  then show "r mod a < a" by simp
  show "r div a < b" using assms by (simp add: less_mult_imp_div_less mult.commute)
qed

lemma map_half_code:
  assumes t: "pair_table n t" and n: "0 < n" "n \<le> 18" and "tot < 128" "r < ways n 4 tot"
  shows "\<exists>a b c d. map_half t (of_nat n) tot (of_nat r) = Some (map of_nat [a, b, c, d]) \<and>
     {a, b, c, d} \<subseteq> {..<n} \<and> a + b + c + d = tot \<and> quad_code n (a, b) (c, d) = r"
proof -
  let ?w = "ways n 2"
  have w: "length t = 128" "\<forall>k<128. unat (t ! k) = ?w k" using t by (auto simp: pair_table_def)
  have "\<forall>k. ?w k \<le> 5832" using ways_le(1) [OF n] by (meson le_trans numeral_le_iff semiring_norm)
  moreover have "r < (\<Sum>k\<in>{0..tot}. ?w k * ?w (tot - k))"
    using assms(5) ways_add [of n 2 2 tot] by (simp add: conv_def atLeast0AtMost)
  moreover have "r < 2147483648" using assms(5) ways_le(2) [OF n, of tot] by simp
  ultimately obtain i r' where i: "i \<le> tot" "peel t 0 tot (of_nat r) = Some (of_nat r', i)"
    "r = (\<Sum>k\<in>{0..<i}. ?w k * ?w (tot - k)) + r'" "r' < ?w i * ?w (tot - i)"
    using peel_correct [OF w, of 0 tot tot r] assms(4) by auto
  note qr = div_mod_less [OF i(4)]
  have "r' < 2147483648" using i(3) \<open>r < 2147483648\<close> by simp
  then have sh: "share t i (of_nat r') = Some (of_nat (r' div ?w i), of_nat (r' mod ?w i))"
    using share_correct [of i t "?w i" r'] w i(1) assms(4) qr(1) by simp
  obtain a b where ab: "split_pair (of_nat n) (of_nat i) (of_nat (r' mod ?w i)) = [of_nat a, of_nat b]"
    "a < n" "b < n" "a + b = i" "pair_code n (a, b) = r' mod ?w i"
    using split_pair_code [OF n qr(2)] by blast
  obtain c d where cd: "split_pair (of_nat n) (of_nat (tot - i)) (of_nat (r' div ?w i)) = [of_nat c, of_nat d]"
    "c < n" "d < n" "c + d = tot - i" "pair_code n (c, d) = r' div ?w i"
    using split_pair_code [OF n qr(3)] by blast
  have "(of_nat (tot - i) :: u16) = of_nat tot - of_nat i" using i(1) by (rule of_nat_diff)
  then have "map_half t (of_nat n) tot (of_nat r) = Some (map of_nat [a, b, c, d])"
    using i(2) sh ab(1) cd(1) by (simp add: map_half_def)
  moreover have "a + b + c + d = tot" using ab(4) cd(4) i(1) by simp
  moreover have "quad_code n (a, b) (c, d) = r"
    using ab(4,5) cd(5) i(3) \<open>a + b + c + d = tot\<close> by (simp add: atLeast0LessThan del: pair_code.simps)
  moreover have "{a, b, c, d} \<subseteq> {..<n}" using ab(2,3) cd(2,3) by simp
  ultimately show ?thesis by blast
qed

definition oct_code :: "nat \<Rightarrow> nat list \<Rightarrow> nat" where
  "oct_code n es =
     (let p = (es ! 0, es ! 1); q = (es ! 2, es ! 3); u = (es ! 4, es ! 5); v = (es ! 6, es ! 7);
          d1 = es ! 0 + es ! 1 + es ! 2 + es ! 3; dd = d1 + es ! 4 + es ! 5 + es ! 6 + es ! 7
      in ways n 4 d1 * quad_code n u v + quad_code n p q + (\<Sum>k<d1. ways n 4 k * ways n 4 (dd - k)) + below n 8 dd)"

lemma shell_search:
  assumes s: "shell_ready s n" and "target < min (n ^ 8) (2 ^ 31)"
  shows "\<exists>lo. bisect (sh_t3 s) (of_nat target) 7 0 0x40 0x80 = Some lo \<and> lo < 128 \<and>
     unat (sh_t3 s ! lo) = below n 8 lo \<and> below n 8 lo \<le> target \<and> target < below n 8 (Suc lo)"
proof -
  obtain len where len: "(n, len) \<in> set xyz_blocks" "shell_table n len (sh_t3 s)"
    using s by (auto simp: shell_ready_def)
  have t3: "length (sh_t3 s) = 128" "\<And>k. k < 128 \<Longrightarrow> unat (sh_t3 s ! k) = (if k < len then below n 8 k else 4294967295)"
    using len(2) by (auto simp: shell_table_def)
  have mono: "sh_t3 s ! k \<le> sh_t3 s ! l" if "k \<le> l" "l < 128" for k l
    using t3(2) [of k] t3(2) [of l] that below_mono [OF that(1), of n 8] block_small [OF len(1), of k]
    by (auto simp: word_le_nat_alt)
  have tgt: "target < 2147483648" "unat (of_nat target :: u32) = target" using assms(2) by (auto simp: word_nat)
  obtain lo where lo: "bisect (sh_t3 s) (of_nat target) 7 0 0x40 0x80 = Some lo" "lo < 128"
    "sh_t3 s ! lo \<le> of_nat target" "lo + 1 < 128 \<longrightarrow> of_nat target < sh_t3 s ! (lo + 1)"
  proof -
    have "sh_t3 s ! 0 \<le> of_nat target"
      using t3(2) [of 0] xyz_blocks_range [OF len(1)] by (simp add: word_le_nat_alt below_def)
    moreover have "\<exists>r. bisect (sh_t3 s) (of_nat target) 7 0 64 128 = Some r \<and> r < 128 \<and>
        sh_t3 s ! r \<le> of_nat target \<and> (r + 1 < 128 \<longrightarrow> of_nat target < sh_t3 s ! (r + 1))"
      by (rule bisect_correct) (use t3(1) mono calculation in auto)
    ultimately show thesis using that by blast
  qed
  have in_len: "lo < len" using lo(2,3) t3(2) [of lo] tgt by (auto simp: word_le_nat_alt split: if_splits)
  have "target < below n 8 (Suc lo)"
  proof (cases "Suc lo < len")
    case True
    then show ?thesis using lo(2,4) t3(2) [of "lo + 1"] tgt(2) xyz_blocks_range [OF len(1)]
      by (auto simp: word_less_nat_alt)
  next
    case False
    then have "Suc lo = len" using in_len by simp
    then show ?thesis using less_le_trans [OF assms(2) blocks_reach [OF len(1)]] by simp
  qed
  then show ?thesis using lo in_len t3(2) [of lo] tgt(2) by (auto simp: word_le_nat_alt)
qed

lemma shell_map_code:
  assumes s: "shell_ready s n" and "target < min (n ^ 8) (2 ^ 31)"
  shows "\<exists>es. shell_map s (of_nat target) = Some (map of_nat es) \<and> length es = 8 \<and> set es \<subseteq> {..<n} \<and>
     oct_code n es = target \<and> sum_list es < 128 \<and> unat (sh_t3 s ! sum_list es) = below n 8 (sum_list es) \<and>
     below n 8 (sum_list es) \<le> target \<and> target < below n 8 (Suc (sum_list es))"
proof -
  let ?w = "ways n 4"
  have n: "0 < n" "n \<le> 18" using s xyz_blocks_range by (auto simp: shell_ready_def)
  have t: "pair_table n (sh_t1 s)" "length (sh_t2 s) = 128" "\<forall>k<128. unat (sh_t2 s ! k) = ?w k"
    "length (sh_t3 s) = 128" "sh_count s = of_nat n"
    using s by (auto simp: shell_ready_def quad_table_def shell_table_def)
  obtain lo where lo: "bisect (sh_t3 s) (of_nat target) 7 0 0x40 0x80 = Some lo" "lo < 128"
    "unat (sh_t3 s ! lo) = below n 8 lo" "below n 8 lo \<le> target" "target < below n 8 (Suc lo)"
    using shell_search [OF assms] by blast
  let ?r = "target - below n 8 lo"
  have "sh_t3 s ! lo = of_nat (below n 8 lo)" unfolding lo(3) [symmetric] by simp
  then have base: "of_nat target - sh_t3 s ! lo = (of_nat ?r :: u32)" using lo(4) by (simp add: of_nat_diff)
  have small: "?r < 2147483648" using assms(2) by (simp add: less_imp_diff_less)
  have "?r < (\<Sum>k\<in>{0..lo}. ?w k * ?w (lo - k))"
    using lo(4,5) ways_add [of n 4 4 lo] by (simp add: below_Suc conv_def atLeast0AtMost)
  then obtain i r' where i: "i \<le> lo" "peel (sh_t2 s) 0 lo (of_nat ?r) = Some (of_nat r', i)"
    "?r = (\<Sum>k\<in>{0..<i}. ?w k * ?w (lo - k)) + r'" "r' < ?w i * ?w (lo - i)"
    using peel_correct [OF t(2,3), of 0 lo lo ?r] ways_le(2) [OF n] small lo(2) by auto
  note qr = div_mod_less [OF i(4)]
  have sh: "share (sh_t2 s) i (of_nat r') = Some (of_nat (r' div ?w i), of_nat (r' mod ?w i))"
    using share_correct [of i "sh_t2 s" "?w i" r'] t(2,3) i(1,3) small lo(2) qr(1) by simp
  obtain a b c d where first: "map_half (sh_t1 s) (of_nat n) i (of_nat (r' mod ?w i)) = Some (map of_nat [a, b, c, d])"
    "{a, b, c, d} \<subseteq> {..<n}" "a + b + c + d = i" "quad_code n (a, b) (c, d) = r' mod ?w i"
    using map_half_code [OF t(1) n _ qr(2)] i(1) lo(2) by (meson le_less_trans)
  obtain e f g h where second:
    "map_half (sh_t1 s) (of_nat n) (lo - i) (of_nat (r' div ?w i)) = Some (map of_nat [e, f, g, h])"
    "{e, f, g, h} \<subseteq> {..<n}" "e + f + g + h = lo - i" "quad_code n (e, f) (g, h) = r' div ?w i"
    using map_half_code [OF t(1) n _ qr(3)] lo(2) by (metis less_imp_diff_less)
  let ?es = "[a, b, c, d, e, f, g, h]"
  have "shell_map s (of_nat target) = Some (map of_nat ?es)"
    using lo(1,2) t base i(2) sh first(1) second(1) by (simp add: shell_map_def mem_simps)
  moreover have sum: "sum_list ?es = lo" using first(3) second(3) i(1) by simp
  moreover have "oct_code n ?es = target"
  proof -
    have "a + b + c + d + e + f + g + h = lo" using sum by simp
    then show ?thesis using first(3,4) second(4) i(3) lo(4)
      by (simp add: oct_code_def atLeast0LessThan del: quad_code.simps)
  qed
  moreover have "set ?es \<subseteq> {..<n}" using first(2) second(2) by simp
  moreover have "length ?es = 8" by simp
  ultimately show ?thesis using lo(2-5) by (metis (lifting))
qed

subsection \<open>And back\<close>

lemma correlate_sum:
  assumes "length t = 128" "\<forall>k<128. unat (t ! k) = f k" "d < 128" "lo + cnt \<le> d + 1"
  shows "correlate_loop t (int d - int lo) lo cnt acc = Some (acc + of_nat (\<Sum>k\<in>{lo..<lo + cnt}. f k * f (d - k)))"
  using assms(4)
proof (induction cnt arbitrary: lo acc)
  case (Suc cnt)
  have "nat (int d - int lo) = d - lo" by simp
  moreover have "ucast (t ! lo) * ucast (t ! (d - lo)) = (of_nat (f lo * f (d - lo)) :: u32)"
    using assms(1-3) Suc.prems by (simp add: ucast_of_nat_unat)
  moreover have "int d - int lo - 1 = int d - int (Suc lo)" by simp
  ultimately have "correlate_loop t (int d - int lo) lo (Suc cnt) acc
      = correlate_loop t (int d - int (Suc lo)) (Suc lo) cnt (acc + of_nat (f lo * f (d - lo)))"
    using assms(1,3) Suc.prems by (simp add: mem_simps algebra_simps del: of_nat_mult)
  moreover have "{lo..<lo + Suc cnt} = insert lo {Suc lo..<Suc lo + cnt}" by auto
  ultimately show ?case using Suc.IH [of "Suc lo"] Suc.prems by (simp add: add.assoc)
qed simp

lemma shell_correlate_sum:
  assumes "length t = 128" "\<forall>k<128. unat (t ! k) = f k" "d < 128" "c \<le> d + 1"
  shows "shell_correlate t (int d) (int c) = Some (of_nat (\<Sum>k<c. f k * f (d - k)))"
  using correlate_sum [OF assms(1-3), of 0 c 0] assms(3,4)
  by (simp add: shell_correlate_def atLeast0LessThan)

lemma uint_small: "n < 65536 \<Longrightarrow> uint (of_nat n :: u16) = int n"
  by (simp add: unsigned_of_nat take_bit_nat_eq_self uint_nat)

lemma sint_small_u16: "n < 32768 \<Longrightarrow> sint (of_nat n :: u16) = int n"
  by (simp add: signed_of_nat signed_take_bit_int_eq_self)

lemma shell_group_code:
  assumes t: "pair_table n t" and n: "0 < n" "n \<le> 18" and e: "{a, b, c, d} \<subseteq> {..<n}"
    and sub: "take 4 sub = map of_nat [a, b, c, d]"
  shows "shell_group t sub (int (n - 1)) = Some (of_nat (quad_code n (a, b) (c, d)), of_nat (a + b), of_nat (a + b + c + d))"
proof -
  have len: "length sub \<ge> 4" using arg_cong [OF sub, of length] by simp
  have nth: "sub ! i = map of_nat [a, b, c, d] ! i" if "i < 4" for i unfolding sub [symmetric] using that by simp
  have es: "sub ! 0 = of_nat a" "sub ! 1 = of_nat b" "sub ! 2 = of_nat c" "sub ! 3 = of_nat d"
    by (simp_all add: nth)
  have lt: "a < n" "b < n" "c < n" "d < n" using e by auto
  have sums: "of_nat a + of_nat b = (of_nat (a + b) :: u16)"
    "of_nat (a + b) + of_nat c + of_nat d = (of_nat (a + b + c + d) :: u16)" by simp_all
  have u: "uint (of_nat (a + b) :: u16) = int (a + b)" "sint (of_nat (a + b) :: u16) = int (a + b)"
    "uint (of_nat (a + b + c + d) :: u16) = int (a + b + c + d)" "unat (of_nat (a + b) :: u16) = a + b"
    "sint (of_nat a :: u16) = int a" "sint (of_nat b :: u16) = int b"
    "sint (of_nat c :: u16) = int c" "sint (of_nat d :: u16) = int d"
    using lt n by (simp_all only: uint_small sint_small_u16 word_nat)
  have w: "length t = 128" "\<forall>k<128. unat (t ! k) = ways n 2 k" using t by (auto simp: pair_table_def)
  have cor: "shell_correlate t (int (a + b + c + d)) (int (a + b))
      = Some (of_nat (\<Sum>k<a + b. ways n 2 k * ways n 2 (a + b + c + d - k)))"
    by (rule shell_correlate_sum [OF w]) (use lt n in auto)
  have x: "ucast (t ! (a + b)) = (of_nat (ways n 2 (a + b)) :: u32)" using w lt n by (simp add: ucast_of_nat_unat)
  have pc: "(if int (a + b + c + d) - int (a + b) \<ge> int (n - 1) then int (n - 1) - int d else int c) = int (pair_code n (c, d))"
    "(if int (a + b) \<ge> int (n - 1) then int (n - 1) - int b else int a) = int (pair_code n (a, b))"
    using lt by auto
  have rd: "rd_at sub 0 = Some (of_nat a)" "rd_at sub 1 = Some (of_nat b)" "rd_at sub 2 = Some (of_nat c)"
    "rd_at sub 3 = Some (of_nat d)" "rd_at t (a + b) = Some (t ! (a + b))"
    using len es w(1) lt n by (auto simp: rd_at_def)
  have "shell_group t sub (int (n - 1)) = Some (of_nat (ways n 2 (a + b)) * of_int (int (pair_code n (c, d)))
      + of_int (int (pair_code n (a, b))) + of_nat (\<Sum>k<a + b. ways n 2 k * ways n 2 (a + b + c + d - k)),
      of_nat (a + b), of_nat (a + b + c + d))"
    unfolding shell_group_def by (simp only: rd bind.bind_lunit Let_def sums u pc cor x)
  then show ?thesis by (simp only: quad_code.simps of_int_of_nat_eq of_nat_add of_nat_mult)
qed

lemma shellDemapper_code:
  assumes s: "shell_ready s n" and es: "length es = 8" "set es \<subseteq> {..<n}" and sub: "take 8 (sh_sub s) = map of_nat es"
    and small: "sum_list es < 128" "unat (sh_t3 s ! sum_list es) = below n 8 (sum_list es)"
  shows "shellDemapper s = Some (of_nat (oct_code n es))"
proof (cases "n = 1")
  case True
  then have "es ! i = 0" if "i < 8" for i using es that by (metis less_one lessThan_iff nth_mem subsetD)
  then have "oct_code n es = 0" using True by (simp add: oct_code_def below_def)
  moreover have "sh_count s = 1" using s True by (simp add: shell_ready_def unsigned_1 word_unat_eq_iff)
  ultimately show ?thesis by (simp add: shellDemapper_def)
next
  case False
  have n: "0 < n" "n \<le> 18" using s xyz_blocks_range by (auto simp: shell_ready_def)
  have w: "pair_table n (sh_t1 s)" "length (sh_t2 s) = 128" "\<forall>k<128. unat (sh_t2 s ! k) = ways n 4 k"
    "length (sh_t3 s) = 128" "unat (sh_count s) = n"
    using s by (auto simp: shell_ready_def quad_table_def shell_table_def)
  obtain a b c d e f g h where oct: "es = [a, b, c, d, e, f, g, h]"
    using es(1) by (auto simp: length_Suc_conv numeral_eq_Suc)
  have count: "sh_count s - 1 \<noteq> 0" "uint (sh_count s - 1) = int (n - 1)"
  proof -
    have "sh_count s \<noteq> 0" using w(5) n(1) by auto
    then have m: "unat (sh_count s - 1) = n - 1" using w(5) unat_pred_u16 by blast
    then show "uint (sh_count s - 1) = int (n - 1)" by (simp add: uint_nat)
    show "sh_count s - 1 \<noteq> 0" using m False n(1) by auto
  qed
  have subs: "take 4 (sh_sub s) = map of_nat [a, b, c, d]" "take 4 (drop 4 (sh_sub s)) = map of_nat [e, f, g, h]"
    using arg_cong [OF sub, of "take 4"] arg_cong [OF sub, of "drop 4"] by (simp_all add: oct drop_take)
  note g1 = shell_group_code [OF w(1) n _ subs(1)] and g2 = shell_group_code [OF w(1) n _ subs(2)]
  have ds: "{a, b, c, d} \<subseteq> {..<n}" "{e, f, g, h} \<subseteq> {..<n}" using es(2) by (auto simp: oct)
  let ?d1 = "a + b + c + d" and ?d2 = "e + f + g + h"
  have dd: "?d1 + ?d2 < 128" "sum_list es = ?d1 + ?d2" using small(1) by (auto simp: oct)
  have u: "unat (of_nat ?d1 :: u16) = ?d1" "sint (of_nat ?d1 :: u16) = int ?d1"
    "uint (of_nat (?d1 + ?d2) :: u16) = int (?d1 + ?d2)" "unat (of_nat (?d1 + ?d2) :: u16) = ?d1 + ?d2"
    using dd(1) by (simp_all only: word_nat uint_small sint_small_u16)
  have pl: "of_nat ?d1 + of_nat ?d2 = (of_nat (?d1 + ?d2) :: u16)" by simp
  have cor: "shell_correlate (sh_t2 s) (int (?d1 + ?d2)) (int ?d1)
      = Some (of_nat (\<Sum>k<?d1. ways n 4 k * ways n 4 (?d1 + ?d2 - k)))"
    by (rule shell_correlate_sum [OF w(2,3)]) (use dd in auto)
  have rd: "rd_at (sh_t2 s) ?d1 = Some (sh_t2 s ! ?d1)" "rd_at (sh_t3 s) (?d1 + ?d2) = Some (sh_t3 s ! (?d1 + ?d2))"
    using w(2,4) dd(1) by (simp_all add: mem_simps)
  have x: "ucast (sh_t2 s ! ?d1) = (of_nat (ways n 4 ?d1) :: u32)" using w(3) dd by (simp add: ucast_of_nat_unat)
  have z: "sh_t3 s ! (?d1 + ?d2) = of_nat (below n 8 (?d1 + ?d2))" 
  proof -
    have "sh_t3 s ! sum_list es = of_nat (below n 8 (sum_list es))" unfolding small(2) [symmetric] by simp
    then show ?thesis by (simp only: dd(2))
  qed
  have "shellDemapper s = Some (of_nat (ways n 4 ?d1) * of_nat (quad_code n (e, f) (g, h)) + of_nat (quad_code n (a, b) (c, d))
     + of_nat (\<Sum>k<?d1. ways n 4 k * ways n 4 (?d1 + ?d2 - k)) + of_nat (below n 8 (?d1 + ?d2)))"
    unfolding shellDemapper_def Let_def
    by (simp only: count if_False g1 [OF ds(1)] g2 [OF ds(2)] bind.bind_lunit split_conv pl u cor z rd x)
  also have "\<dots> = Some (of_nat (oct_code n es))"
    by (simp add: oct_code_def oct Let_def add.assoc del: quad_code.simps)
  finally show ?thesis .
qed

end
