(* ===== verification/V34ShellProps.thy ===== *)
theory V34ShellProps
  imports V34ShellTrip
begin

text \<open>
  What the shell mapper promises, over the operations of \<^verbatim>\<open>v34shell.c\<close>: a context set up with
  \<^verbatim>\<open>preinitV34\<close> and \<^verbatim>\<open>initV34\<close> maps every number of its width to eight ring indices and
  back.
\<close>

subsection \<open>Any context\<close>

definition ring_sizes :: "nat set" where
  "ring_sizes = {1..15} \<union> {17, 18}"

lemma ring_sizes_blocks: "n \<in> ring_sizes \<longleftrightarrow> (\<exists>len. (n, len) \<in> set xyz_blocks)"
proof -
  have "ring_sizes = fst ` set xyz_blocks"
    by (rule set_eqI) (simp add: ring_sizes_def xyz_blocks_def, presburger)
  then show ?thesis by force
qed

lemma preinit_tables [simp]:
  "sh_t1 (preinitV34 s) = replicate 128 0" "sh_t2 (preinitV34 s) = replicate 128 0"
  "sh_t3 (preinitV34 s) = replicate 128 (- 1)" "sh_count (preinitV34 s) = sh_count s"
  by (simp_all add: preinitV34_def)

lemma initG248_some:
  assumes "unat (sh_count s) \<in> ring_sizes"
  shows "\<exists>tx. initG248 (preinitV34 s) = Some tx \<and> shell_ready tx (unat (sh_count s))"
  using assms initG248_ready [of "preinitV34 s"] by (fastforce simp: ring_sizes_blocks)

lemma shell_trip:
  assumes "shell_ready tx n" "target < min (n ^ 8) (2 ^ 31)"
  shows "\<exists>es. shell_map tx (of_nat target) = Some es \<and> length es = 8 \<and> (\<forall>e\<in>set es. unat e < n) \<and>
     (\<forall>rest. shellDemapper (tx\<lparr>sh_sub := es @ rest\<rparr>) = Some (of_nat target))"
proof -
  obtain es where es: "shell_map tx (of_nat target) = Some (map of_nat es)" "length es = 8" "set es \<subseteq> {..<n}"
    "oct_code n es = target" "sum_list es < 128" "unat (sh_t3 tx ! sum_list es) = below n 8 (sum_list es)"
    using shell_map_code [OF assms] by blast
  have n: "n \<le> 18" using assms(1) xyz_blocks_range by (auto simp: shell_ready_def)
  have "\<forall>e\<in>set (map of_nat es). unat (e :: u16) < n" using es(3) n by (auto simp: word_nat)
  moreover have "shell_ready (tx\<lparr>sh_sub := ys\<rparr>) n" for ys using assms(1) by (simp add: shell_ready_def)
  then have "shellDemapper (tx\<lparr>sh_sub := map of_nat es @ rest\<rparr>) = Some (of_nat target)" for rest
    using shellDemapper_code [of "tx\<lparr>sh_sub := map of_nat es @ rest\<rparr>" n es] es by simp
  ultimately show ?thesis using es(1,2) by auto
qed

subsection \<open>The contexts of the modem\<close>

lemma fold_width_le: "fst (fold_width idx j) \<le> 31"
  by (induction idx j rule: fold_width.induct) (subst fold_width.simps, auto)

definition ring_of :: "bool \<Rightarrow> nat \<Rightarrow> nat" where
  "ring_of use_max idx = (if use_max then MMaxTable else MMinTable) ! idx"

lemma upto_32: "[0..<32] = ([0, 1, 2, 3, 4, 5, 6, 7, 8, 9, 10, 11, 12, 13, 14, 15, 16, 17, 18, 19, 20, 21, 22, 23, 24, 25, 26, 27, 28, 29, 30, 31] :: nat list)"
  by code_simp

lemma ring_of_fits:
  assumes "idx \<le> 31"
  shows "ring_of use_max idx \<in> ring_sizes" "2 ^ idx \<le> min (ring_of use_max idx ^ 8) (2 ^ 31)"
proof -
  let ?ok = "\<lambda>(i, n). 2 ^ i \<le> n ^ 8 \<and> (1 \<le> n \<and> n \<le> 15 \<or> n = 17 \<or> n = (18 :: nat))"
  have "list_all ?ok (zip [0..<32] MMaxTable)" "list_all ?ok (zip [0..<32] MMinTable)"
    unfolding upto_32 by (simp_all add: MMaxTable_def MMinTable_def)
  moreover have "length MMaxTable = 32" "length MMinTable = 32" by (simp_all add: MMaxTable_def MMinTable_def)
  ultimately have "?ok (idx, MMaxTable ! idx)" "?ok (idx, MMinTable ! idx)"
    using assms by (auto simp: list_all_length)
  moreover have "(2 :: nat) ^ idx \<le> 2 ^ 31" using assms by (intro power_increasing) simp_all
  ultimately show "ring_of use_max idx \<in> ring_sizes" "2 ^ idx \<le> min (ring_of use_max idx ^ 8) (2 ^ 31)"
    by (auto simp: ring_of_def ring_sizes_def)
qed

text \<open>The bits an 8D frame has for the shell mapper.\<close>

definition v34_width :: "u16 \<Rightarrow> u16 \<Rightarrow> nat" where
  "v34_width baud bitrate =
     (let u = (unat bitrate div 25 * 7 div v34_group baud + v34_span baud - 1) div v34_span baud
      in if 12 < u then if u \<le> 43 then u - 12 else fst (fold_width (u - 20) 1) else 0)"

definition v34_idx_width :: "u16 \<Rightarrow> u16 \<Rightarrow> nat" where
  "v34_idx_width baud bitrate =
     (let u = (unat bitrate div 25 * 7 div v34_group baud + v34_span baud - 1) div v34_span baud
      in if 43 < u then snd (fold_width (u - 20) 1) else 0)"

lemma initG248_same: "initG248 s = Some tx \<Longrightarrow> \<exists>t1 t2 t3. tx = s\<lparr>sh_t1 := t1, sh_t2 := t2, sh_t3 := t3\<rparr>"
  by (auto simp: initG248_def Let_def split: if_splits bind_splits)

lemma initV34_ready:
  assumes "sh_t1 s = replicate 128 0" "sh_t2 s = replicate 128 0" "sh_t3 s = replicate 128 (- 1)"
  shows "\<exists>tx. initV34 s baud bitrate use_max depth coeff divisor = Some tx \<and> v34_width baud bitrate \<le> 31 \<and>
     sh_wide_bits tx = of_nat (v34_width baud bitrate) \<and> sh_idx_width tx = of_nat (v34_idx_width baud bitrate) \<and>
     shell_ready tx (ring_of use_max (v34_width baud bitrate))"
proof -
  let ?u = "(unat bitrate div 25 * 7 div v34_group baud + v34_span baud - 1) div v34_span baud"
  obtain idx width where iw:
    "(if ?u > 12 then if ?u - 12 \<le> 0x1f then (?u - 12, 0) else fold_width (?u - 20) 1 else (0, 0)) = (idx, width)"
    by (metis surj_pair)
  then have vw: "v34_width baud bitrate = idx" "v34_idx_width baud bitrate = width"
    by (auto simp: v34_width_def v34_idx_width_def Let_def split: if_splits)
  have idx: "idx \<le> 31" using iw fold_width_le [of "?u - 20" 1] by (auto split: if_splits)
  have "v34_group baud = 8 \<or> v34_group baud = 7" by (auto simp: v34_group_def)
  then obtain inv where inv: "rd_at gInvertPat (2 * v34_group baud - 2) = Some inv"
    by (auto simp: gInvertPat_def rd_at_def)
  have count: "rd_at (if use_max then MMaxTable else MMinTable) idx = Some (ring_of use_max idx)"
    using idx by (simp add: rd_at_def ring_of_def MMaxTable_def MMinTable_def)
  obtain len where blk: "(ring_of use_max idx, len) \<in> set xyz_blocks"
    using ring_of_fits(1) [OF idx] by (auto simp: ring_sizes_blocks)
  then have n: "unat (of_nat (ring_of use_max idx) :: u16) = ring_of use_max idx"
    using xyz_blocks_range by (fastforce simp: word_nat)
  have rest: "\<exists>tx. do { s \<leftarrow> initG248 c; Some (s\<lparr>sh_divisor := d, sh_cost_shift := e\<rparr>) } = Some tx \<and> idx \<le> 31 \<and>
      sh_wide_bits tx = of_nat idx \<and> sh_idx_width tx = of_nat width \<and> shell_ready tx (ring_of use_max idx)"
    if c: "sh_t1 c = replicate 128 0" "sh_t2 c = replicate 128 0" "sh_t3 c = replicate 128 (- 1)"
      "sh_count c = of_nat (ring_of use_max idx)" "sh_wide_bits c = of_nat idx" "sh_idx_width c = of_nat width" for c d e
  proof -
    obtain t1 t2 t3 where t: "initG248 c = Some (c\<lparr>sh_t1 := t1, sh_t2 := t2, sh_t3 := t3\<rparr>)"
      "shell_ready (c\<lparr>sh_t1 := t1, sh_t2 := t2, sh_t3 := t3\<rparr>) (ring_of use_max idx)"
      using initG248_ready [of c len] c(1-4) blk n by auto
    show ?thesis using t c(5,6) idx by (auto simp: shell_ready_def)
  qed
  show ?thesis
    unfolding vw initV34_def Let_def iw inv count split_conv bind.bind_lunit
    by (rule rest) (simp_all add: assms)
qed

lemma ring_sizes_small: "n \<in> ring_sizes \<Longrightarrow> n \<le> 18"
  by (auto simp: ring_sizes_def)

lemma unat_of_nat_list: "set es \<subseteq> {..<n} \<Longrightarrow> n \<le> 18 \<Longrightarrow> map unat (map of_nat es :: u16 list) = es"
  by (induction es) (auto simp: word_nat)

subsection \<open>Properties\<close>

text \<open>C33: Setting up the shell mapper never reads outside a table or divides by zero, at any symbol
  rate, bit rate and trellis, and the width it chooses fits the ring: \<open>sh_wide_bits\<close> bits number
  no more than the octuples of ring indices.\<close>

theorem initV34_total:
  "\<exists>tx. initV34 (preinitV34 s) baud bitrate use_max depth coeff divisor = Some tx \<and>
     unat (sh_count tx) \<in> ring_sizes \<and> unat (sh_wide_bits tx) = v34_width baud bitrate \<and>
     2 ^ unat (sh_wide_bits tx) \<le> card {xs. length xs = 8 \<and> set xs \<subseteq> {..<unat (sh_count tx)}}"
proof -
  let ?idx = "v34_width baud bitrate"
  obtain tx where tx: "initV34 (preinitV34 s) baud bitrate use_max depth coeff divisor = Some tx" "?idx \<le> 31"
    "sh_wide_bits tx = of_nat ?idx" "shell_ready tx (ring_of use_max ?idx)"
    using initV34_ready [OF preinit_tables(1-3)] by blast
  have n: "unat (sh_count tx) = ring_of use_max ?idx" using tx(4) by (simp add: shell_ready_def)
  have "card {xs. length xs = 8 \<and> set xs \<subseteq> {..<ring_of use_max ?idx}} = ring_of use_max ?idx ^ 8"
    using card_lists_length_eq [of "{..<ring_of use_max ?idx}" 8] by (simp add: conj_commute)
  then show ?thesis using tx n ring_of_fits [OF tx(2), of use_max] by (auto simp: word_nat)
qed

text \<open>C7: In every context the modem sets up, a number of \<open>sh_wide_bits\<close> bits goes through the
  shell mapper as eight ring indices, each of them a ring of the constellation, and the demapper
  takes them back to the number.\<close>

theorem shell_mapper_roundtrip:
  assumes "initV34 (preinitV34 s) baud bitrate use_max depth coeff divisor = Some tx"
    and "unat target < 2 ^ unat (sh_wide_bits tx)"
  shows "\<exists>es. shell_map tx target = Some es \<and> length es = 8 \<and> set es \<subseteq> {..<sh_count tx} \<and>
     (\<forall>rest. shellDemapper (tx\<lparr>sh_sub := es @ rest\<rparr>) = Some target)"
proof -
  let ?idx = "v34_width baud bitrate"
  have idx: "?idx \<le> 31" "sh_wide_bits tx = of_nat ?idx" "shell_ready tx (ring_of use_max ?idx)"
    using initV34_ready [OF preinit_tables(1-3), of s baud bitrate use_max depth coeff divisor] assms(1) by auto
  have n: "unat (sh_count tx) = ring_of use_max ?idx" using idx(3) by (simp add: shell_ready_def)
  have "unat target < min (ring_of use_max ?idx ^ 8) (2 ^ 31)"
    using assms(2) idx(1,2) less_le_trans [OF _ ring_of_fits(2) [OF idx(1), of use_max]] by (simp add: word_nat)
  then show ?thesis using shell_trip [OF idx(3)] n by (fastforce simp: word_less_nat_alt)
qed

definition blank_shell :: v34_shell where
  "blank_shell = \<lparr>sh_span = 0, sh_subframe_limit = 0, sh_group_count = 0, sh_remainder = 0, sh_wide_accum = 0,
     sh_short_a0a = 0, sh_wide_bits = 0, sh_wide_bits_alt = 0, sh_count = 2, sh_idx_width = 0, sh_feedback_mask = 0,
     sh_hist = [], sh_coeff = [], sh_conv = [], sh_conv_sr = [], sh_prev_k = 0, sh_invert = 0, sh_subframe_count = 0,
     sh_frame_count = 0, sh_frame_limit = 0, sh_divisor = 0, sh_cost_shift = 0, sh_wrap = 0, sh_t1 = [], sh_t2 = [],
     sh_t3 = [], sh_scramble = GPC, sh_latched = 0, sh_frame = [], sh_sub = []\<rparr>"

theorem shell_mapper_roundtrip_witness:
  "\<exists>tx es. initV34 (preinitV34 blank_shell) 0x960 4800 False 0 [] 0 = Some tx \<and> shell_map tx 9 = Some es \<and>
     length es = 8 \<and> shellDemapper (tx\<lparr>sh_sub := es\<rparr>) = Some 9"
proof -
  obtain tx where tx: "initV34 (preinitV34 blank_shell) 0x960 4800 False 0 [] 0 = Some tx"
    "sh_wide_bits tx = of_nat (v34_width 0x960 4800)"
    using initV34_ready [OF preinit_tables(1-3), of blank_shell "0x960" 4800 False 0 "[]" 0] by auto
  have "v34_width 0x960 4800 = 4" by (simp add: v34_width_def v34_group_def v34_span_def)
  then obtain es where es: "shell_map tx 9 = Some es" "length es = 8"
    "\<forall>rest. shellDemapper (tx\<lparr>sh_sub := es @ rest\<rparr>) = Some 9"
    using shell_mapper_roundtrip [OF tx(1), of 9] tx(2) by auto
  then show ?thesis using tx(1) es(3) [rule_format, of "[]"] by auto
qed

text \<open>C10: The mapper spends signal power in the order of the numbers: a smaller number never gets
  rings with a larger total index.\<close>

theorem shell_map_ordered:
  assumes "initG248 (preinitV34 s) = Some tx" and "unat (sh_count s) \<in> ring_sizes"
    and "x \<le> y" "unat y < min (unat (sh_count s) ^ 8) (2 ^ 31)"
  shows "\<exists>es fs. shell_map tx x = Some es \<and> shell_map tx y = Some fs \<and>
     sum_list (map unat es) \<le> sum_list (map unat fs)"
proof -
  let ?n = "unat (sh_count s)"
  have ready: "shell_ready tx ?n" using initG248_some [OF assms(2)] assms(1) by auto
  have le: "unat x \<le> unat y" using assms(3) by (simp add: word_le_nat_alt)
  then have tx: "unat x < min (?n ^ 8) (2 ^ 31)" using assms(4) by simp
  obtain es where es: "shell_map tx x = Some (map of_nat es)" "set es \<subseteq> {..<?n}" "below ?n 8 (sum_list es) \<le> unat x"
    using shell_map_code [OF ready tx] by auto
  obtain fs where fs: "shell_map tx y = Some (map of_nat fs)" "set fs \<subseteq> {..<?n}" "unat y < below ?n 8 (Suc (sum_list fs))"
    using shell_map_code [OF ready assms(4)] by auto
  have "sum_list es \<le> sum_list fs"
  proof (rule ccontr)
    assume "\<not> sum_list es \<le> sum_list fs"
    then have "below ?n 8 (Suc (sum_list fs)) \<le> below ?n 8 (sum_list es)" by (intro below_mono) simp
    then show False using es(3) fs(3) le by simp
  qed
  then show ?thesis using es(1,2) fs(1,2) unat_of_nat_list by (metis assms(2) ring_sizes_small)
qed

theorem shell_map_ordered_witness:
  "\<exists>tx es fs. initG248 (preinitV34 blank_shell) = Some tx \<and> shell_map tx 8 = Some es \<and> shell_map tx 200 = Some fs \<and>
     sum_list (map unat es) \<le> sum_list (map unat fs)"
proof -
  have n: "unat (sh_count blank_shell) = 2" by (simp add: blank_shell_def)
  then obtain tx where tx: "initG248 (preinitV34 blank_shell) = Some tx"
    using initG248_some [of blank_shell] by (auto simp: ring_sizes_def)
  show ?thesis using shell_map_ordered [OF tx, of 8 200] n tx by (auto simp: ring_sizes_def)
qed

text \<open>C8: While the rings are few enough for all octuples to be numbered in 31 bits, the mapper
  numbers them all: it is a bijection between the numbers below \<open>n ^ 8\<close> and the octuples.\<close>

theorem shell_map_bijection:
  assumes "initG248 (preinitV34 s) = Some tx" and "unat (sh_count s) \<in> {1..14}"
  shows "bij_betw (\<lambda>x. map_option (map unat) (shell_map tx (of_nat x))) {..<unat (sh_count s) ^ 8}
     (Some ` {es. length es = 8 \<and> set es \<subseteq> {..<unat (sh_count s)}})"
proof -
  let ?n = "unat (sh_count s)"
  let ?f = "\<lambda>x. map_option (map unat) (shell_map tx (of_nat x))"
  let ?O = "{es. length es = 8 \<and> set es \<subseteq> {..<?n}}"
  have size: "?n \<in> ring_sizes" using assms(2) by (auto simp: ring_sizes_def)
  have ready: "shell_ready tx ?n" using initG248_some [OF size] assms(1) by auto
  have "?n ^ 8 \<le> 14 ^ 8" using assms(2) by (intro power_mono) auto
  then have code: "\<exists>es. ?f x = Some es \<and> es \<in> ?O \<and> oct_code ?n es = x" if "x < ?n ^ 8" for x
    using shell_map_code [OF ready, of x] that unat_of_nat_list [of _ ?n] ring_sizes_small [OF size] by fastforce
  have inj: "inj_on ?f {..<?n ^ 8}"
    by (rule inj_onI) (use code in \<open>metis lessThan_iff option.inject\<close>)
  moreover have "?f ` {..<?n ^ 8} \<subseteq> Some ` ?O" using code by fastforce
  moreover have fin: "finite ?O" using finite_lists_length_eq [of "{..<?n}" 8] by (simp add: conj_commute)
  moreover have "card (Some ` ?O) = ?n ^ 8"
    using card_lists_length_eq [of "{..<?n}" 8] by (simp add: card_image conj_commute)
  ultimately have "?f ` {..<?n ^ 8} = Some ` ?O"
    by (intro card_subset_eq) (simp_all add: card_image)
  with inj show ?thesis by (simp add: bij_betw_def)
qed

theorem shell_map_bijection_witness:
  "\<exists>tx. initG248 (preinitV34 blank_shell) = Some tx \<and>
     bij_betw (\<lambda>x. map_option (map unat) (shell_map tx (of_nat x))) {..<256} (Some ` {es. length es = 8 \<and> set es \<subseteq> {..<2}})"
proof -
  have n: "unat (sh_count blank_shell) = 2" by (simp add: blank_shell_def)
  then obtain tx where tx: "initG248 (preinitV34 blank_shell) = Some tx"
    using initG248_some [of blank_shell] by (auto simp: ring_sizes_def)
  show ?thesis using shell_map_bijection [OF tx] n tx by simp
qed

text \<open>C9: The tables of a context are counts: of the pairs and the quadruples of ring indices with a
  given sum, and of the octuples with a smaller one, as far as 31 bits reach.\<close>

theorem shell_tables_count:
  assumes "initG248 (preinitV34 s) = Some tx" and "unat (sh_count s) \<in> ring_sizes" and "k < 128"
  shows "map_option unat (rd_at (sh_t1 tx) k) = Some (card {es. length es = 2 \<and> set es \<subseteq> {..<unat (sh_count s)} \<and> sum_list es = k}) \<and>
     map_option unat (rd_at (sh_t2 tx) k) = Some (card {es. length es = 4 \<and> set es \<subseteq> {..<unat (sh_count s)} \<and> sum_list es = k}) \<and>
     (\<exists>v. rd_at (sh_t3 tx) k = Some v \<and>
       (unat v = card {es. length es = 8 \<and> set es \<subseteq> {..<unat (sh_count s)} \<and> sum_list es < k} \<or>
        v = - 1 \<and> min (unat (sh_count s) ^ 8) (2 ^ 31) \<le> card {es. length es = 8 \<and> set es \<subseteq> {..<unat (sh_count s)} \<and> sum_list es < k}))"
proof (intro conjI)
  let ?n = "unat (sh_count s)"
  have ready: "shell_ready tx ?n" using initG248_some [OF assms(2)] assms(1) by auto
  then obtain len where len: "(?n, len) \<in> set xyz_blocks" "shell_table ?n len (sh_t3 tx)"
    by (auto simp: shell_ready_def)
  show "map_option unat (rd_at (sh_t1 tx) k) = Some (card {es. length es = 2 \<and> set es \<subseteq> {..<?n} \<and> sum_list es = k})"
    "map_option unat (rd_at (sh_t2 tx) k) = Some (card {es. length es = 4 \<and> set es \<subseteq> {..<?n} \<and> sum_list es = k})"
    using ready assms(3) by (simp_all add: shell_ready_def pair_table_def quad_table_def mem_simps flip: tuples_def card_tuples)
  show "\<exists>v. rd_at (sh_t3 tx) k = Some v \<and>
       (unat v = card {es. length es = 8 \<and> set es \<subseteq> {..<?n} \<and> sum_list es < k} \<or>
        v = - 1 \<and> min (?n ^ 8) (2 ^ 31) \<le> card {es. length es = 8 \<and> set es \<subseteq> {..<?n} \<and> sum_list es < k})"
  proof (cases "k < len")
    case False
    then have "v = - 1" if "v = sh_t3 tx ! k" for v
      using len(2) assms(3) that by (simp add: shell_table_def word_unat_eq_iff unsigned_minus_1_eq_mask mask_numeral)
    moreover have "min (?n ^ 8) (2 ^ 31) \<le> below ?n 8 k"
      using blocks_reach [OF len(1)] below_mono [of len k ?n 8] False by simp
    ultimately show ?thesis using len(2) assms(3) by (simp add: card_below shell_table_def mem_simps)
  qed (use len(2) assms(3) in \<open>simp add: card_below shell_table_def mem_simps\<close>)
qed

theorem shell_tables_count_witness:
  "\<exists>tx. initG248 (preinitV34 blank_shell) = Some tx \<and>
     map_option unat (rd_at (sh_t2 tx) 3) = Some (card {es. length es = 4 \<and> set es \<subseteq> {..<(2 :: nat)} \<and> sum_list es = 3})"
proof -
  have n: "unat (sh_count blank_shell) = 2" by (simp add: blank_shell_def)
  then obtain tx where tx: "initG248 (preinitV34 blank_shell) = Some tx"
    using initG248_some [of blank_shell] by (auto simp: ring_sizes_def)
  show ?thesis using shell_tables_count [OF tx, of 3] n tx by (simp add: ring_sizes_def)
qed

end
