(* ===== verification/V34Frame.thy ===== *)
theory V34Frame
  imports V34ShellProps
begin

unbundle bit_operations_syntax

text \<open>
  The framers of \<^verbatim>\<open>src/pump/v34/v34shell.c\<close>: \<^verbatim>\<open>getFrame\<close> cuts the scrambled stream into the
  fields of an 8D frame and \<^verbatim>\<open>putFrame\<close> gives the fields of a received one to the descrambler.
  A \<open>v34_line\<close> is \<^verbatim>\<open>struct v34_object\<close> with its two shell contexts; the bit window of the
  transmit context is the scrambler's last word and its position the scrambler's count, as the
  object's layout has them.
\<close>

record v34_line = v34_object +
  vo_tx :: v34_shell
  vo_rx :: v34_shell
  vo_role :: u16
  vo_train_symcount :: u16

subsection \<open>Power on\<close>

definition preinitdigital :: "v34_line \<Rightarrow> v34_line" where
  "preinitdigital obj =
     (let obj = obj\<lparr>vo_tx := preinitV34 (vo_tx obj), vo_rx := preinitV34 (vo_rx obj),
        vo_scrambler := \<lparr>sc_w0 = 0, sc_w1 = 0, sc_w2 = 0, sc_w3 = 0, sc_nbits = 0x20\<rparr>,
        vo_descrambler := \<lparr>ds_w0 = 0, ds_w1 = 0, ds_w2 = 0, ds_count = 0\<rparr>, vo_data_enable := 0, vo_train_symcount := 0\<rparr>
      in if vo_role obj = 0x65
         then obj\<lparr>vo_tx := (vo_tx obj)\<lparr>sh_scramble := GPC\<rparr>, vo_rx := (vo_rx obj)\<lparr>sh_scramble := GPA\<rparr>\<rparr>
         else obj\<lparr>vo_tx := (vo_tx obj)\<lparr>sh_scramble := GPA\<rparr>, vo_rx := (vo_rx obj)\<lparr>sh_scramble := GPC\<rparr>\<rparr>)"

subsection \<open>The widths of a frame\<close>

text \<open>The accumulator decides between two widths of the shell index, so the average is a fraction.\<close>

definition frame_bits :: "v34_shell \<Rightarrow> v34_shell \<times> int" where
  "frame_bits s =
     (let acc = sh_wide_accum s + sh_remainder s
      in if sh_span s > acc then (s\<lparr>sh_wide_accum := acc\<rparr>, sint (sh_wide_bits_alt s))
         else (s\<lparr>sh_wide_accum := acc - sh_span s\<rparr>, sint (sh_wide_bits s)))"

definition frame_small :: "v34_shell \<Rightarrow> int \<Rightarrow> int" where
  "frame_small s nb = (if nb > 0 then 2 else 2 - (if sh_group_count s < 9 then 1 else 0))"

definition frame_small_last :: "v34_shell \<Rightarrow> int \<Rightarrow> int" where
  "frame_small_last s nb = (if nb > 0 then 2 else short_of (nb + frame_small s nb))"

subsection \<open>Out of the scrambler\<close>

definition tx_bitpos :: "v34_line \<Rightarrow> u16" where
  "tx_bitpos obj = sc_nbits (vo_scrambler obj)"

definition set_bitpos :: "v34_line \<Rightarrow> int \<Rightarrow> v34_line" where
  "set_bitpos obj pos = obj\<lparr>vo_scrambler := (vo_scrambler obj)\<lparr>sc_nbits := of_int pos\<rparr>\<rparr>"

definition set_frame :: "v34_line \<Rightarrow> u16 list \<Rightarrow> v34_line" where
  "set_frame obj f = obj\<lparr>vo_tx := (vo_tx obj)\<lparr>sh_frame := f\<rparr>\<rparr>"

definition window :: "u32 \<Rightarrow> int \<Rightarrow> u32 option" where
  "window bitbuf pos = (if 0 \<le> pos \<and> pos < 32 then Some (drop_bit (nat pos) bitbuf) else None)"

definition mask_of :: "int \<Rightarrow> u16 option" where
  "mask_of n = (if n < 0 then None else rd_at lsbMask (nat n))"

partial_function (option) frame_refill :: "v34_line \<Rightarrow> int \<Rightarrow> (v34_line \<times> int) option" where
  "frame_refill obj pos =
     (if pos > 15 then do {
        r \<leftarrow> scramble (sh_scramble (vo_tx obj)) obj (of_int pos);
        frame_refill (set_bitpos (fst r) (sint (snd r))) (sint (snd r))
      } else Some (obj, pos))"

definition frame_fields :: "u32 \<Rightarrow> int \<Rightarrow> int \<Rightarrow> int \<Rightarrow> u16 list option" where
  "frame_fields bitbuf pos sw w = do {
     v \<leftarrow> window bitbuf pos;
     ms \<leftarrow> mask_of sw;
     mw \<leftarrow> mask_of w;
     let v1 = drop_bit 1 v;
     let v2 = drop_bit (nat sw) v1;
     let v3 = drop_bit (nat w) v2;
     Some [ucast (v AND 1), ucast (v1 AND ucast ms), ucast (v2 AND ucast mw), ucast (v3 AND ucast mw)]
   }"

text \<open>Four fields into the frame, from a window read at \<open>pos\<close>.\<close>

definition frame_group :: "v34_line \<Rightarrow> u32 \<Rightarrow> int \<Rightarrow> nat \<Rightarrow> int \<Rightarrow> int \<Rightarrow> v34_line option" where
  "frame_group obj bitbuf pos i sw w = do {
     ys \<leftarrow> frame_fields bitbuf pos sw w;
     f \<leftarrow> wr_at (sh_frame (vo_tx obj)) i (ys ! 0);
     f \<leftarrow> wr_at f (i + 1) (ys ! 1);
     f \<leftarrow> wr_at f (i + 2) (ys ! 2);
     f \<leftarrow> wr_at f (i + 3) (ys ! 3);
     Some (set_bitpos (set_frame obj f) (pos + short_of (1 + sw + 2 * w)))
   }"

text \<open>The groups after the first read their position back and refill at most once.\<close>

definition frame_next :: "v34_line \<Rightarrow> u32 \<Rightarrow> nat \<Rightarrow> int \<Rightarrow> int \<Rightarrow> (v34_line \<times> u32) option" where
  "frame_next obj bitbuf i sw w = do {
     let pos = uint (tx_bitpos obj);
     (obj, bitbuf, pos) \<leftarrow>
       (if pos > 15 then do {
          (obj, r) \<leftarrow> scramble (sh_scramble (vo_tx obj)) obj (of_int pos);
          Some (obj, sc_w3 (vo_scrambler obj), sint r)
        } else Some (obj, bitbuf, pos));
     obj \<leftarrow> frame_group (set_bitpos obj pos) bitbuf pos i sw w;
     Some (obj, bitbuf)
   }"

text \<open>The field of the shell index. The refill's position is dropped when the field is split.\<close>

definition frame_index :: "v34_line \<Rightarrow> int \<Rightarrow> int \<Rightarrow> (v34_line \<times> int) option" where
  "frame_index obj nb pos =
     (if nb > 16 then do {
        v \<leftarrow> window (sc_w3 (vo_scrambler obj)) pos;
        f \<leftarrow> wr_at (sh_frame (vo_tx obj)) 0 (ucast v);
        (obj, _) \<leftarrow> scramble (sh_scramble (vo_tx obj)) (set_frame obj f) 0;
        let pos = uint (tx_bitpos obj);
        v \<leftarrow> window (sc_w3 (vo_scrambler obj)) pos;
        m \<leftarrow> mask_of (nb mod 16);
        f \<leftarrow> wr_at (sh_frame (vo_tx obj)) 1 (ucast (v AND ucast m));
        let pos = pos + nb mod 16;
        Some (set_bitpos (set_frame obj f) pos, pos)
      } else if nb > 0 then do {
        v \<leftarrow> window (sc_w3 (vo_scrambler obj)) pos;
        m \<leftarrow> mask_of nb;
        f \<leftarrow> wr_at (sh_frame (vo_tx obj)) 0 (ucast (v AND ucast m));
        f \<leftarrow> wr_at f 1 0;
        let pos = pos + nb;
        Some (set_bitpos (set_frame obj f) pos, pos)
      } else do {
        f \<leftarrow> wr_at (sh_frame (vo_tx obj)) 0 0;
        f \<leftarrow> wr_at f 1 0;
        Some (set_frame obj f, pos)
      })"

definition getFrame :: "v34_line \<Rightarrow> v34_line option" where
  "getFrame obj = do {
     let w = sint (sh_idx_width (vo_tx obj));
     let (s, nb) = frame_bits (vo_tx obj);
     let obj = obj\<lparr>vo_tx := s\<rparr>;
     (obj, pos) \<leftarrow> frame_refill obj (uint (tx_bitpos obj));
     (obj, pos) \<leftarrow> frame_index obj nb pos;
     (obj, pos) \<leftarrow>
       (if pos > 15 then do {
          (obj, r) \<leftarrow> scramble (sh_scramble (vo_tx obj)) obj (of_int pos);
          Some (obj, sint r)
        } else Some (obj, pos));
     let bitbuf = sc_w3 (vo_scrambler obj);
     obj \<leftarrow> frame_group (set_bitpos obj pos) bitbuf pos 2 (frame_small s nb) w;
     (obj, bitbuf) \<leftarrow> frame_next obj bitbuf 6 (frame_small s nb) w;
     (obj, bitbuf) \<leftarrow> frame_next obj bitbuf 10 (frame_small s nb) w;
     (obj, bitbuf) \<leftarrow> frame_next obj bitbuf 14 (frame_small_last s nb) w;
     Some obj
   }"

subsection \<open>Into the descrambler\<close>

definition frame_layout :: "v34_shell \<Rightarrow> int \<Rightarrow> (nat \<times> int) list" where
  "frame_layout s nb =
     (let w = sint (sh_idx_width s); group = (\<lambda>(i, sw). [(i, 1), (i + 1, sw), (i + 2, w), (i + 3, w)])
      in (if nb > 16 then [(0, 16), (1, nb mod 16)] else if nb > 0 then [(0, nb)] else [])
         @ concat (map group [(2, frame_small s nb), (6, frame_small s nb), (10, frame_small s nb), (14, frame_small_last s nb)]))"

fun put_fields :: "v34_line \<Rightarrow> (nat \<times> int) list \<Rightarrow> v34_line option" where
  "put_fields obj [] = Some obj"
| "put_fields obj ((i, n) # fs) = do {
     v \<leftarrow> rd_at (sh_frame (vo_rx obj)) i;
     obj \<leftarrow> descramble (sh_scramble (vo_rx obj)) obj v (of_int n);
     put_fields obj fs
   }"

definition putFrame :: "v34_line \<Rightarrow> v34_line option" where
  "putFrame obj = (let (s, nb) = frame_bits (vo_rx obj) in put_fields (obj\<lparr>vo_rx := s\<rparr>) (frame_layout s nb))"

end
