(* ===== verification/V34FrameTx.thy ===== *)
theory V34FrameTx
  imports V34Frame
begin

unbundle bit_operations_syntax

text \<open>
  The frames a transmitter cuts are the scrambled stream: the fields of a frame, in the order
  \<^verbatim>\<open>putFrame\<close> sends them on, are the next bits of the line.
\<close>

subsection \<open>Segments of the line\<close>

definition line_seg :: "v34_poly \<Rightarrow> (nat \<Rightarrow> u16) \<Rightarrow> nat \<Rightarrow> nat \<Rightarrow> bool list" where
  "line_seg p ws r k = map (\<lambda>i. line_bit p ws (int r + int i)) [0..<k]"

lemma line_seg_add: "line_seg p ws r (j + k) = line_seg p ws r j @ line_seg p ws (r + j) k"
  by (auto simp: line_seg_def list_eq_iff_nth_eq nth_append algebra_simps of_nat_diff)

lemma line_bits_seg: "line_bits p ws (r + k) = line_bits p ws r @ line_seg p ws r k"
  using line_seg_add [of p ws 0 r k] by (simp add: line_bits_def line_seg_def)

lemma line_seg_0 [simp]: "line_seg p ws r 0 = []"
  by (simp add: line_seg_def)

subsection \<open>Fields out of a window\<close>

lemma lsbMask_eq:
  assumes "k \<le> 16"
  shows "mask_of (int k) = Some (mask k)"
proof -
  have "\<forall>k\<in>set [0..<17]. rd_at lsbMask k = Some (mask k)" by code_simp
  then show ?thesis using assms by (simp add: mask_of_def)
qed

definition field_of :: "nat \<Rightarrow> u32 \<Rightarrow> u16" where
  "field_of k v = ucast (v AND ucast (mask k :: u16))"

lemma bit_field_of: "k \<le> 16 \<Longrightarrow> bit (field_of k v) i \<longleftrightarrow> i < k \<and> bit v i"
  by (auto simp: field_of_def bit_ucast_iff bit_and_iff bit_mask_iff possible_bit_def)

lemma field_of_bits: "k \<le> 16 \<Longrightarrow> field_bits k (field_of k v) = map (bit v) [0..<k]"
  by (simp add: field_bits_def bit_field_of)

lemma field_of_ok: "k \<le> 16 \<Longrightarrow> field_ok (field_of k v, k)"
proof -
  assume k: "k \<le> 16"
  have "take_bit k (field_of k v) = field_of k v"
    by (rule bit_word_eqI) (simp add: bit_take_bit_iff bit_field_of k)
  then have "take_bit k (unat (field_of k v)) = unat (field_of k v)"
    by (metis unsigned_take_bit_eq)
  moreover have "take_bit k (unat (field_of k v)) < 2 ^ k" by (rule take_bit_nat_less_exp)
  ultimately show ?thesis using k by (simp add: field_ok_def)
qed

lemma map_bit_drop: "map (bit (drop_bit j (v :: u32))) [0..<k] = map (\<lambda>i. bit v (j + i)) [0..<k]"
  by (simp add: bit_drop_bit_eq)

subsection \<open>The read position\<close>

text \<open>\<open>r\<close> is the next bit of the line; the window holds the 32 bits before \<open>16 * n\<close>.\<close>

definition at_pos :: "v34_poly \<Rightarrow> (nat \<Rightarrow> u16) \<Rightarrow> nat \<Rightarrow> v34_line \<Rightarrow> nat \<Rightarrow> bool" where
  "at_pos p ws r obj pos \<longleftrightarrow>
     (\<exists>n. sent p obj n \<and> tx_word obj = ws \<and> 16 * n + pos = r + 32 \<and> sh_scramble (vo_tx obj) = p)"

text \<open>The object after some scrambling and with a new frame.\<close>

definition framed :: "v34_line \<Rightarrow> u16 list \<Rightarrow> v34_line \<Rightarrow> bool" where
  "framed obj f obj' \<longleftrightarrow>
     obj' = obj\<lparr>vo_tx_rd := vo_tx_rd obj', vo_scrambler := vo_scrambler obj', vo_tx := (vo_tx obj)\<lparr>sh_frame := f\<rparr>\<rparr>"

lemma framed_trans: "framed a f b \<Longrightarrow> framed b g c \<Longrightarrow> framed a g c"
  by (cases a; cases b; cases c) (auto simp: framed_def)

lemma framed_frame: "framed obj f b \<Longrightarrow> sh_frame (vo_tx b) = f"
  by (cases obj; cases b) (auto simp: framed_def)

lemma framed_set: "framed a (sh_frame (vo_tx a)) (set_bitpos a pos)" "framed a f (set_frame a f)"
  by (simp_all add: framed_def set_bitpos_def set_frame_def)

lemma same_words [simp]: "tx_word (set_bitpos obj q) = tx_word obj" "tx_word (set_frame obj f) = tx_word obj"
  by (simp_all add: fun_eq_iff tx_word_def set_bitpos_def set_frame_def)

lemma same_sent [simp]: "sent p (set_bitpos obj q) n = sent p obj n" "sent p (set_frame obj f) n = sent p obj n"
  unfolding sent_def same_words by (simp_all add: set_bitpos_def set_frame_def reg_at_def)

lemma same_tx [simp]: "tx_word (obj\<lparr>vo_tx := s\<rparr> :: v34_line) = tx_word obj" "sent p (obj\<lparr>vo_tx := s\<rparr> :: v34_line) n = sent p obj n"
proof -
  show w: "tx_word (obj\<lparr>vo_tx := s\<rparr> :: v34_line) = tx_word obj" by (simp add: fun_eq_iff tx_word_def)
  show "sent p (obj\<lparr>vo_tx := s\<rparr> :: v34_line) n = sent p obj n" by (simp add: sent_def w)
qed

lemma at_pos_set [simp]: "at_pos p ws r (set_bitpos obj q) pos = at_pos p ws r obj pos"
    "at_pos p ws r (set_frame obj f) pos = at_pos p ws r obj pos"
  unfolding at_pos_def same_words same_sent by (simp_all add: set_bitpos_def set_frame_def)

lemma tx_bitpos_set [simp]: "tx_bitpos (set_bitpos obj pos) = of_int pos" "tx_bitpos (set_frame obj f) = tx_bitpos obj"
  by (simp_all add: tx_bitpos_def set_bitpos_def set_frame_def)

lemma w3_set [simp]: "sc_w3 (vo_scrambler (set_bitpos obj pos)) = sc_w3 (vo_scrambler obj)"
    "sc_w3 (vo_scrambler (set_frame obj f)) = sc_w3 (vo_scrambler obj)"
  by (simp_all add: set_bitpos_def set_frame_def)

lemma frame_set [simp]: "sh_frame (vo_tx (set_bitpos obj pos)) = sh_frame (vo_tx obj)" "sh_frame (vo_tx (set_frame obj f)) = f"
    "sh_scramble (vo_tx (set_bitpos obj pos)) = sh_scramble (vo_tx obj)"
    "sh_scramble (vo_tx (set_frame obj f)) = sh_scramble (vo_tx obj)"
  by (simp_all add: set_bitpos_def set_frame_def)

lemma scramble_at:
  assumes "at_pos p ws r obj pos"
  shows "\<exists>obj'. scramble p obj nb = Some (obj', nb - 16) \<and> framed obj (sh_frame (vo_tx obj)) obj' \<and>
     tx_bitpos obj' = tx_bitpos obj \<and> (16 \<le> pos \<longrightarrow> at_pos p ws r obj' (pos - 16)) \<and> at_pos p ws (r + 16) obj' pos"
proof -
  obtain n where n: "sent p obj n" "tx_word obj = ws" "16 * n + pos = r + 32" "sh_scramble (vo_tx obj) = p"
    using assms by (auto simp: at_pos_def)
  obtain q s where qs: "scramble p obj nb = Some (obj\<lparr>vo_tx_rd := q, vo_scrambler := s\<rparr>, nb - 16)"
    "sent p (obj\<lparr>vo_tx_rd := q, vo_scrambler := s\<rparr>) (Suc n)" "sc_nbits s = sc_nbits (vo_scrambler obj)"
    using scramble_sent [OF n(1), of nb] by blast
  have "at_pos p ws (r + 16) (obj\<lparr>vo_tx_rd := q, vo_scrambler := s\<rparr>) pos"
    unfolding at_pos_def using qs(2) n by (intro exI [of _ "Suc n"]) simp
  moreover have "at_pos p ws r (obj\<lparr>vo_tx_rd := q, vo_scrambler := s\<rparr>) (pos - 16)" if "16 \<le> pos"
    unfolding at_pos_def using qs(2) n that by (intro exI [of _ "Suc n"]) simp
  moreover have "framed obj (sh_frame (vo_tx obj)) (obj\<lparr>vo_tx_rd := q, vo_scrambler := s\<rparr>)"
    by (simp add: framed_def)
  ultimately show ?thesis using qs(1,3) by (auto simp: tx_bitpos_def)
qed

lemma window_at:
  assumes "at_pos p ws r obj pos" "pos < 32"
  shows "window (sc_w3 (vo_scrambler obj)) (int pos) = Some (drop_bit pos (sc_w3 (vo_scrambler obj)))"
    "pos + k \<le> 32 \<Longrightarrow> map (bit (drop_bit pos (sc_w3 (vo_scrambler obj)))) [0..<k] = line_seg p ws r k"
proof -
  show "window (sc_w3 (vo_scrambler obj)) (int pos) = Some (drop_bit pos (sc_w3 (vo_scrambler obj)))"
    using assms by (simp add: window_def)
  obtain n where n: "sent p obj n" "tx_word obj = ws" "16 * n + pos = r + 32"
    using assms by (auto simp: at_pos_def)
  assume k: "pos + k \<le> 32"
  have "bit (drop_bit pos (sc_w3 (vo_scrambler obj))) i = line_bit p ws (int r + int i)" if "i < k" for i
  proof -
    have "bit (sc_w3 (vo_scrambler obj)) (pos + i) = line_bit p ws (int (16 * n) - 32 + int (pos + i))"
      using n(1,2) k that by (simp add: sent_def reg_at_def)
    also have "int (16 * n) - 32 + int (pos + i) = int r + int i" using n(3) by linarith
    finally show ?thesis by (simp add: bit_drop_bit_eq)
  qed
  then show "map (bit (drop_bit pos (sc_w3 (vo_scrambler obj)))) [0..<k] = line_seg p ws r k"
    by (simp add: line_seg_def)
qed

subsection \<open>Refilling\<close>

lemma framed_refl: "framed obj (sh_frame (vo_tx obj)) obj"
  by (simp add: framed_def)

lemma pos_less: "pos < 32768 \<Longrightarrow> 16 \<le> pos \<Longrightarrow> sint (of_nat pos - 16 :: u16) = int (pos - 16)"
  using sint_small_u16 [of "pos - 16"] by (simp add: of_nat_diff)

lemma frame_refill_at:
  assumes "at_pos p ws r obj pos" "pos < 32768" "tx_bitpos obj = of_nat pos"
  shows "\<exists>obj' q. frame_refill obj (int pos) = Some (obj', int q) \<and> q < 16 \<and> at_pos p ws r obj' q \<and>
     tx_bitpos obj' = of_nat q \<and> framed obj (sh_frame (vo_tx obj)) obj'"
  using assms
proof (induction pos arbitrary: obj rule: less_induct)
  case (less pos)
  show ?case
  proof (cases "pos < 16")
    case True
    then have "frame_refill obj (int pos) = Some (obj, int pos)" by (subst frame_refill.simps) simp
    then show ?thesis using less.prems True framed_refl by blast
  next
    case False
    have poly: "sh_scramble (vo_tx obj) = p" using less.prems(1) by (auto simp: at_pos_def)
    obtain o1 where o1: "scramble p obj (of_nat pos) = Some (o1, of_nat pos - 16)" "framed obj (sh_frame (vo_tx obj)) o1"
      "16 \<le> pos \<longrightarrow> at_pos p ws r o1 (pos - 16)"
      using scramble_at [OF less.prems(1), of "of_nat pos"] by blast
    let ?o2 = "set_bitpos o1 (int (pos - 16))"
    have o2: "at_pos p ws r ?o2 (pos - 16)" "tx_bitpos ?o2 = of_nat (pos - 16)"
      using o1(3) False by (simp_all add: of_nat_diff)
    obtain o3 q where o3: "frame_refill ?o2 (int (pos - 16)) = Some (o3, int q)" "q < 16"
      "at_pos p ws r o3 q" "tx_bitpos o3 = of_nat q" "framed ?o2 (sh_frame (vo_tx ?o2)) o3"
    proof -
      assume ok: "\<And>o3 q. frame_refill ?o2 (int (pos - 16)) = Some (o3, int q) \<Longrightarrow> q < 16 \<Longrightarrow> at_pos p ws r o3 q \<Longrightarrow>
        tx_bitpos o3 = of_nat q \<Longrightarrow> framed ?o2 (sh_frame (vo_tx ?o2)) o3 \<Longrightarrow> thesis"
      have "pos - 16 < pos" "pos - 16 < 32768" using less.prems(2) False by simp_all
      from less.IH [OF this(1) o2(1) this(2) o2(2)] show thesis using ok by blast
    qed
    have "frame_refill obj (int pos) = frame_refill ?o2 (int (pos - 16))"
      using o1(1) False poly pos_less [OF less.prems(2)] by (subst frame_refill.simps) simp
    moreover have "framed obj (sh_frame (vo_tx obj)) o3"
      using framed_trans [OF framed_trans [OF o1(2) framed_set(1)] o3(5)] framed_frame [OF o1(2)] by simp
    ultimately show ?thesis using o3 by auto
  qed
qed

lemma refill_once:
  assumes "at_pos p ws r obj pos" "pos < 32"
  shows "\<exists>obj' q. (if int pos > 15 then do { (obj, s) \<leftarrow> scramble (sh_scramble (vo_tx obj)) obj (of_int (int pos)); Some (obj, sint s) }
       else Some (obj, int pos)) = Some (obj', int q) \<and>
     q < 16 \<and> at_pos p ws r obj' q \<and> framed obj (sh_frame (vo_tx obj)) obj' \<and> (pos < 16 \<longrightarrow> obj' = obj)"
proof (cases "pos < 16")
  case True
  then show ?thesis using assms framed_refl by auto
next
  case False
  have poly: "sh_scramble (vo_tx obj) = p" using assms(1) by (auto simp: at_pos_def)
  obtain o1 where "scramble p obj (of_nat pos) = Some (o1, of_nat pos - 16)" "framed obj (sh_frame (vo_tx obj)) o1"
    "16 \<le> pos \<longrightarrow> at_pos p ws r o1 (pos - 16)"
    using scramble_at [OF assms(1), of "of_nat pos"] by blast
  then show ?thesis using False poly assms(2) pos_less [of pos]
    by (intro exI [of _ o1] exI [of _ "pos - 16"]) auto
qed

subsection \<open>The groups\<close>

lemma bits_split: "map (bit v) [0..<j + k] = map (bit (v :: u32)) [0..<j] @ map (bit (drop_bit j v)) [0..<k]"
  by (auto simp: list_eq_iff_nth_eq nth_append bit_drop_bit_eq)

definition group_size :: "nat \<Rightarrow> nat \<Rightarrow> nat" where
  "group_size sw w = 1 + sw + 2 * w"

lemma frame_fields_at:
  assumes "at_pos p ws r obj pos" "pos + group_size sw w \<le> 32" "sw \<le> 16" "w \<le> 15"
  shows "\<exists>y0 y1 y2 y3. frame_fields (sc_w3 (vo_scrambler obj)) (int pos) (int sw) (int w) = Some [y0, y1, y2, y3] \<and>
     fields_bits [(y0, 1), (y1, sw), (y2, w), (y3, w)] = line_seg p ws r (group_size sw w) \<and>
     list_all field_ok [(y0, 1), (y1, sw), (y2, w), (y3, w)]"
proof -
  have pos: "pos < 32" using assms(2) by (simp add: group_size_def)
  let ?v = "drop_bit pos (sc_w3 (vo_scrambler obj))"
  let ?v1 = "drop_bit 1 ?v"
  let ?v2 = "drop_bit sw ?v1"
  let ?v3 = "drop_bit w ?v2"
  have one: "ucast (?v AND 1) = field_of 1 ?v" by (simp add: field_of_def del: drop_bit_drop_bit)
  have "frame_fields (sc_w3 (vo_scrambler obj)) (int pos) (int sw) (int w)
      = Some [field_of 1 ?v, field_of sw ?v1, field_of w ?v2, field_of w ?v3]"
    using assms(3,4) by (simp add: frame_fields_def window_at(1) [OF assms(1) pos] lsbMask_eq one Let_def flip: field_of_def del: drop_bit_drop_bit)
  moreover have b1: "fields_bits [(field_of 1 ?v, 1), (field_of sw ?v1, sw), (field_of w ?v2, w), (field_of w ?v3, w)]
      = map (bit ?v) [0..<1 + (sw + (w + w))]"
    unfolding bits_split using assms(3,4) by (simp add: fields_bits_def field_of_bits del: upt_Suc)
  have b2: "map (bit ?v) [0..<group_size sw w] = line_seg p ws r (group_size sw w)"
    by (rule window_at(2) [OF assms(1) pos assms(2)])
  have b3: "1 + (sw + (w + w)) = group_size sw w" by (simp add: group_size_def)
  have "fields_bits [(field_of 1 ?v, 1), (field_of sw ?v1, sw), (field_of w ?v2, w), (field_of w ?v3, w)]
      = line_seg p ws r (group_size sw w)" by (simp only: b1 b2 b3)
  moreover have "list_all field_ok [(field_of 1 ?v, 1), (field_of sw ?v1, sw), (field_of w ?v2, w), (field_of w ?v3, w)]"
    using field_of_ok assms(3,4) by simp
  ultimately show ?thesis by blast
qed

text \<open>The frame with four values from \<open>i\<close> on.\<close>

definition put4 :: "u16 list \<Rightarrow> nat \<Rightarrow> u16 \<Rightarrow> u16 \<Rightarrow> u16 \<Rightarrow> u16 \<Rightarrow> u16 list" where
  "put4 f i y0 y1 y2 y3 = f[i := y0, i + 1 := y1, i + 2 := y2, i + 3 := y3]"

lemma length_put4 [simp]: "length (put4 f i y0 y1 y2 y3) = length f"
  by (simp add: put4_def)

lemma frame_group_at:
  assumes "at_pos p ws r obj pos" "pos + group_size sw w \<le> 32" "sw \<le> 16" "w \<le> 15" "i + 3 < length (sh_frame (vo_tx obj))"
  shows "\<exists>obj' y0 y1 y2 y3. frame_group obj (sc_w3 (vo_scrambler obj)) (int pos) i (int sw) (int w) = Some obj' \<and>
     framed obj (put4 (sh_frame (vo_tx obj)) i y0 y1 y2 y3) obj' \<and>
     at_pos p ws (r + group_size sw w) obj' (pos + group_size sw w) \<and> tx_bitpos obj' = of_nat (pos + group_size sw w) \<and>
     sc_w3 (vo_scrambler obj') = sc_w3 (vo_scrambler obj) \<and>
     fields_bits [(y0, 1), (y1, sw), (y2, w), (y3, w)] = line_seg p ws r (group_size sw w) \<and>
     list_all field_ok [(y0, 1), (y1, sw), (y2, w), (y3, w)]"
proof -
  obtain y0 y1 y2 y3 where y: "frame_fields (sc_w3 (vo_scrambler obj)) (int pos) (int sw) (int w) = Some [y0, y1, y2, y3]"
    "fields_bits [(y0, 1), (y1, sw), (y2, w), (y3, w)] = line_seg p ws r (group_size sw w)"
    "list_all field_ok [(y0, 1), (y1, sw), (y2, w), (y3, w)]"
    using frame_fields_at [OF assms(1-4)] by blast
  let ?f = "put4 (sh_frame (vo_tx obj)) i y0 y1 y2 y3"
  let ?q = "int (pos + group_size sw w)"
  have "short_of (1 + int sw + 2 * int w) = int (group_size sw w)" using assms(3,4) by (simp add: group_size_def)
  then have "frame_group obj (sc_w3 (vo_scrambler obj)) (int pos) i (int sw) (int w) = Some (set_bitpos (set_frame obj ?f) ?q)"
    using y(1) assms(5) by (simp add: frame_group_def mem_simps put4_def)
  moreover have "framed obj ?f (set_bitpos (set_frame obj ?f) ?q)"
    using framed_trans [OF framed_set(2) framed_set(1)] by simp
  moreover have "at_pos p ws (r + group_size sw w) obj (pos + group_size sw w)"
    using assms(1) by (auto simp: at_pos_def)
  ultimately show ?thesis using y(2,3) by auto
qed

lemma frame_next_at:
  assumes "at_pos p ws r obj pos" "tx_bitpos obj = of_nat pos" "pos < 32" "group_size sw w \<le> 16" "i + 3 < length (sh_frame (vo_tx obj))"
  shows "\<exists>obj' pos' y0 y1 y2 y3. frame_next obj (sc_w3 (vo_scrambler obj)) i (int sw) (int w) = Some (obj', sc_w3 (vo_scrambler obj')) \<and>
     framed obj (put4 (sh_frame (vo_tx obj)) i y0 y1 y2 y3) obj' \<and>
     at_pos p ws (r + group_size sw w) obj' pos' \<and> tx_bitpos obj' = of_nat pos' \<and> pos' < 32 \<and>
     fields_bits [(y0, 1), (y1, sw), (y2, w), (y3, w)] = line_seg p ws r (group_size sw w) \<and>
     list_all field_ok [(y0, 1), (y1, sw), (y2, w), (y3, w)]"
proof -
  have u: "uint (tx_bitpos obj) = int pos" using assms(2,3) by (simp add: uint_small)
  have sw: "sw \<le> 16" "w \<le> 15" using assms(4) by (simp_all add: group_size_def)
  obtain o1 q where o1: "(if int pos > 15 then do { (obj, s) \<leftarrow> scramble (sh_scramble (vo_tx obj)) obj (of_int (int pos)); Some (obj, sint s) }
       else Some (obj, int pos)) = Some (o1, int q)" "q < 16" "at_pos p ws r o1 q" "framed obj (sh_frame (vo_tx obj)) o1"
    "pos < 16 \<longrightarrow> o1 = obj"
    using refill_once [OF assms(1,3)] by blast
  let ?o2 = "set_bitpos o1 (int q)"
  have fr: "sh_frame (vo_tx ?o2) = sh_frame (vo_tx obj)" using framed_frame [OF o1(4)] by simp
  obtain o3 y0 y1 y2 y3 where o3: "frame_group ?o2 (sc_w3 (vo_scrambler ?o2)) (int q) i (int sw) (int w) = Some o3"
    "framed ?o2 (put4 (sh_frame (vo_tx obj)) i y0 y1 y2 y3) o3"
    "at_pos p ws (r + group_size sw w) o3 (q + group_size sw w)" "tx_bitpos o3 = of_nat (q + group_size sw w)"
    "sc_w3 (vo_scrambler o3) = sc_w3 (vo_scrambler ?o2)"
    "fields_bits [(y0, 1), (y1, sw), (y2, w), (y3, w)] = line_seg p ws r (group_size sw w)"
    "list_all field_ok [(y0, 1), (y1, sw), (y2, w), (y3, w)]"
    using frame_group_at [of p ws r ?o2 q sw w i] o1(2,3) assms(4,5) sw unfolding fr by auto
  have "(if int pos > 15 then do { (obj, s) \<leftarrow> scramble (sh_scramble (vo_tx obj)) obj (of_int (int pos));
        Some (obj, sc_w3 (vo_scrambler obj), sint s) } else Some (obj, sc_w3 (vo_scrambler obj), int pos))
      = Some (o1, sc_w3 (vo_scrambler o1), int q)"
    using o1(1,5) by (auto split: if_splits bind_splits)
  then have "frame_next obj (sc_w3 (vo_scrambler obj)) i (int sw) (int w) = Some (o3, sc_w3 (vo_scrambler o3))"
    unfolding frame_next_def Let_def u using o3(1,5) by simp
  moreover have "framed obj (put4 (sh_frame (vo_tx obj)) i y0 y1 y2 y3) o3"
    using framed_trans [OF framed_trans [OF o1(4) framed_set(1)] o3(2)] .
  ultimately show ?thesis using o3(3,4,6,7) o1(2) assms(4)
    by (intro exI [of _ o3] exI [of _ "q + group_size sw w"] exI) auto
qed

subsection \<open>The field of the shell index\<close>

definition index_fields :: "int \<Rightarrow> u16 \<Rightarrow> u16 \<Rightarrow> (u16 \<times> nat) list" where
  "index_fields nb y0 y1 =
     (if nb > 16 then [(y0, 16), (y1, nat (nb mod 16))] else if nb > 0 then [(y0, nat nb)] else [])"

lemma at_pos_add: "at_pos p ws r obj pos \<Longrightarrow> at_pos p ws (r + k) obj (pos + k)"
  by (auto simp: at_pos_def)

lemma field_of_16: "ucast v = field_of 16 v"
  by (rule bit_word_eqI) (simp add: bit_ucast_iff bit_field_of)

lemma frame_index_split:
  assumes "at_pos p ws r obj pos" "pos < 16" "tx_bitpos obj = of_nat pos" "16 < nb" "nb \<le> 31"
    and "length (sh_frame (vo_tx obj)) = 18"
  shows "\<exists>obj' q y0 y1. frame_index obj nb (int pos) = Some (obj', int q) \<and> q < 32 \<and>
     framed obj ((sh_frame (vo_tx obj))[0 := y0, 1 := y1]) obj' \<and> at_pos p ws (r + nat nb) obj' q \<and>
     fields_bits (index_fields nb y0 y1) = line_seg p ws r (nat nb) \<and> list_all field_ok (index_fields nb y0 y1)"
proof -
  define k where "k = nat nb - 16"
  have k: "nb mod 16 = int k" "nat nb = 16 + k" "k \<le> 15"
  proof -
    have "nb mod 16 = (nb - 16) mod 16" by simp
    also have "\<dots> = nb - 16" using assms(4,5) by (intro mod_pos_pos_trivial) simp_all
    finally show "nb mod 16 = int k" using assms(4) by (simp add: k_def)
  qed (use assms(4,5) in \<open>auto simp: k_def\<close>)
  have poly: "sh_scramble (vo_tx obj) = p" using assms(1) by (auto simp: at_pos_def)
  have pos: "pos < 32" using assms(2) by simp
  let ?v = "drop_bit pos (sc_w3 (vo_scrambler obj))"
  let ?f = "(sh_frame (vo_tx obj))[0 := field_of 16 ?v]"
  let ?o1 = "set_frame obj ?f"
  have "at_pos p ws r ?o1 pos" using assms(1) by simp
  then obtain o2 where o2: "scramble p ?o1 0 = Some (o2, 0 - 16)" "framed ?o1 ?f o2" "tx_bitpos o2 = of_nat pos"
    "at_pos p ws (r + 16) o2 pos"
    using scramble_at [of p ws r ?o1 pos 0] assms(3) by auto
  let ?u = "drop_bit pos (sc_w3 (vo_scrambler o2))"
  let ?g = "?f[1 := field_of k ?u]"
  let ?o3 = "set_bitpos (set_frame o2 ?g) (int pos + int k)"
  have u: "uint (tx_bitpos o2) = int pos" using o2(3) assms(2) by (simp add: uint_small)
  have "frame_index obj nb (int pos) = Some (?o3, int pos + int k)"
    using assms(4,6) poly o2(1) u k(3)
    by (simp add: frame_index_def window_at(1) [OF assms(1) pos] window_at(1) [OF o2(4) pos] mem_simps k(1) lsbMask_eq
        framed_frame [OF o2(2)] field_of_16 [of ?v] Let_def flip: field_of_def)
  moreover have "framed obj ?g ?o3" using framed_trans [OF framed_trans [OF framed_trans [OF framed_set(2) o2(2)] framed_set(2)] framed_set(1)] by simp
  moreover have "at_pos p ws (r + nat nb) ?o3 (pos + k)" using at_pos_add [OF o2(4), of k] by (simp add: k(2) add.assoc)
  moreover have "fields_bits (index_fields nb (field_of 16 ?v) (field_of k ?u)) = line_seg p ws r (nat nb)"
    using window_at(2) [OF assms(1) pos, of 16] window_at(2) [OF o2(4) pos, of k] assms(2,4) k
    by (simp add: index_fields_def fields_bits_def field_of_bits line_seg_add del: upt_Suc)
  moreover have "list_all field_ok (index_fields nb (field_of 16 ?v) (field_of k ?u))"
    using field_of_ok [of 16] field_of_ok [of k] assms(4) k by (simp add: index_fields_def)
  ultimately show ?thesis using assms(2) k(3)
    by (intro exI [of _ ?o3] exI [of _ "pos + k"] exI [of _ "field_of 16 ?v"] exI [of _ "field_of k ?u"]) simp
qed

lemma frame_index_at:
  assumes "at_pos p ws r obj pos" "pos < 16" "tx_bitpos obj = of_nat pos" "nb \<le> 31"
    and "length (sh_frame (vo_tx obj)) = 18"
  shows "\<exists>obj' q y0 y1. frame_index obj nb (int pos) = Some (obj', int q) \<and> q < 32 \<and>
     framed obj ((sh_frame (vo_tx obj))[0 := y0, 1 := y1]) obj' \<and> at_pos p ws (r + nat nb) obj' q \<and>
     fields_bits (index_fields nb y0 y1) = line_seg p ws r (nat nb) \<and> list_all field_ok (index_fields nb y0 y1) \<and>
     (nb \<le> 16 \<longrightarrow> y1 = 0) \<and> (nb \<le> 0 \<longrightarrow> y0 = 0)"
proof -
  consider "16 < nb" | "0 < nb" "nb \<le> 16" | "nb \<le> 0" by linarith
  then show ?thesis
  proof cases
    case 1
    then have "\<not> nb \<le> 16" "\<not> nb \<le> 0" by simp_all
    then show ?thesis using frame_index_split [OF assms(1-3) 1 assms(4,5)] by blast
  next
    case 2
    have pos: "pos < 32" using assms(2) by simp
    let ?k = "nat nb"
    let ?v = "drop_bit pos (sc_w3 (vo_scrambler obj))"
    let ?f = "(sh_frame (vo_tx obj))[0 := field_of ?k ?v, 1 := 0]"
    let ?o = "set_bitpos (set_frame obj ?f) (int pos + nb)"
    have m: "mask_of nb = Some (mask ?k)" using lsbMask_eq [of ?k] 2 by simp
    have "frame_index obj nb (int pos) = Some (?o, int pos + nb)"
      using 2 assms(5) by (simp add: frame_index_def window_at(1) [OF assms(1) pos] mem_simps m Let_def flip: field_of_def)
    moreover have "framed obj ?f ?o" using framed_trans [OF framed_set(2) framed_set(1)] by simp
    moreover have "at_pos p ws (r + ?k) ?o (pos + ?k)" using at_pos_add [OF assms(1)] by simp
    moreover have "fields_bits (index_fields nb (field_of ?k ?v) 0) = line_seg p ws r ?k"
      using window_at(2) [OF assms(1) pos, of ?k] assms(2) 2
      by (simp add: index_fields_def fields_bits_def field_of_bits del: upt_Suc)
    moreover have "list_all field_ok (index_fields nb (field_of ?k ?v) 0)"
      using field_of_ok [of ?k] 2 by (simp add: index_fields_def)
    ultimately show ?thesis using assms(2) 2
      by (intro exI [of _ ?o] exI [of _ "pos + ?k"] exI [of _ "field_of ?k ?v"] exI [of _ 0]) simp
  next
    case 3
    let ?f = "(sh_frame (vo_tx obj))[0 := 0, 1 := 0]"
    have "frame_index obj nb (int pos) = Some (set_frame obj ?f, int pos)"
      using 3 assms(5) by (simp add: frame_index_def mem_simps)
    then show ?thesis using assms(1,2) 3 framed_set(2)
      by (intro exI [of _ "set_frame obj ?f"] exI [of _ pos] exI [of _ 0]) (simp add: index_fields_def fields_bits_def)
  qed
qed

subsection \<open>A frame\<close>

text \<open>The widths \<^verbatim>\<open>initV34\<close> chooses, with an index width a refill can keep up with.\<close>

definition frame_conf :: "v34_shell \<Rightarrow> bool" where
  "frame_conf s \<longleftrightarrow> unat (sh_wide_bits s) \<le> 31 \<and> sh_wide_bits_alt s = sh_wide_bits s - 1 \<and> unat (sh_idx_width s) \<le> 6"

lemma frame_conf_cases:
  assumes "frame_conf s" "frame_bits s = (s', nb)"
  shows "nb = sint (sh_wide_bits s) \<or> nb = sint (sh_wide_bits s) - 1" "- 1 \<le> nb" "nb \<le> int (unat (sh_wide_bits s))"
    "sint (sh_idx_width s) = int (unat (sh_idx_width s))" "sint (sh_wide_bits s) = int (unat (sh_wide_bits s))"
proof -
  have w: "sint (sh_wide_bits s) = int (unat (sh_wide_bits s))" "sint (sh_idx_width s) = int (unat (sh_idx_width s))"
    using assms(1) sint_small_u16 [of "unat (sh_wide_bits s)"] sint_small_u16 [of "unat (sh_idx_width s)"]
    by (simp_all add: frame_conf_def)
  have alt: "sint (sh_wide_bits_alt s) = sint (sh_wide_bits s) - 1"
  proof (cases "sh_wide_bits s = 0")
    case False
    then have 1: "sh_wide_bits s - 1 = of_nat (unat (sh_wide_bits s) - 1)" by (simp add: of_nat_diff Suc_le_eq unat_gt_0)
    have 2: "unat (sh_wide_bits s) - 1 < 32768" using assms(1) unfolding frame_conf_def by linarith
    have "1 \<le> unat (sh_wide_bits s)" using False by (simp add: Suc_le_eq unat_gt_0)
    then have "int (unat (sh_wide_bits s) - 1) = sint (sh_wide_bits s) - 1" unfolding w(1) by linarith
    moreover have "sh_wide_bits_alt s = of_nat (unat (sh_wide_bits s) - 1)" using assms(1) 1 unfolding frame_conf_def by metis
    ultimately show ?thesis using sint_small_u16 [OF 2] by simp
  qed (use assms(1) in \<open>simp add: frame_conf_def\<close>)
  show one: "nb = sint (sh_wide_bits s) \<or> nb = sint (sh_wide_bits s) - 1"
    using assms(2) alt by (auto simp: frame_bits_def Let_def split: if_splits)
  show "- 1 \<le> nb" "nb \<le> int (unat (sh_wide_bits s))" using one unfolding w(1) by linarith+
  show "sint (sh_idx_width s) = int (unat (sh_idx_width s))" "sint (sh_wide_bits s) = int (unat (sh_wide_bits s))" by (rule w)+
qed

lemma frame_bits_same:
  assumes "frame_bits s = (s', nb)"
  shows "s' = s\<lparr>sh_wide_accum := sh_wide_accum s'\<rparr>"
  using assms by (auto simp: frame_bits_def Let_def split: if_splits)

definition frame_values :: "u16 list \<Rightarrow> (nat \<times> int) list \<Rightarrow> (u16 \<times> nat) list" where
  "frame_values f = map (\<lambda>(i, n). (f ! i, nat n))"

definition frame_size :: "v34_shell \<Rightarrow> int \<Rightarrow> nat" where
  "frame_size s nb = (let w = unat (sh_idx_width s) in
     nat nb + 3 * group_size (nat (frame_small s nb)) w + group_size (nat (frame_small_last s nb)) w)"

lemma fields_bits_append: "fields_bits (xs @ ys) = fields_bits xs @ fields_bits ys"
  by (simp add: fields_bits_def)

text \<open>The fields of a frame, group by group.\<close>

definition group_fields :: "u16 list \<Rightarrow> nat \<Rightarrow> nat \<Rightarrow> nat \<Rightarrow> (u16 \<times> nat) list" where
  "group_fields f i sw w = [(f ! i, 1), (f ! (i + 1), sw), (f ! (i + 2), w), (f ! (i + 3), w)]"

lemma frame_values_groups:
  assumes "sint (sh_idx_width s) = int w" "frame_small s nb = int sw" "frame_small_last s nb = int sl"
  shows "frame_values f (frame_layout s nb) = index_fields nb (f ! 0) (f ! 1) @ group_fields f 2 sw w @
     group_fields f 6 sw w @ group_fields f 10 sw w @ group_fields f 14 sl w"
  using assms by (simp add: frame_values_def frame_layout_def Let_def index_fields_def group_fields_def)

lemma getFrame_at:
  assumes at: "at_pos p ws r obj pos" "tx_bitpos obj = of_nat pos" "pos < 32768"
    and conf: "frame_conf (vo_tx obj)" "length (sh_frame (vo_tx obj)) = 18" and fb: "frame_bits (vo_tx obj) = (s, nb)"
  shows "\<exists>obj' q f. getFrame obj = Some obj' \<and> framed (obj\<lparr>vo_tx := s\<rparr>) f obj' \<and> length f = 18 \<and>
     at_pos p ws (r + frame_size s nb) obj' q \<and> tx_bitpos obj' = of_nat q \<and> q < 32 \<and>
     fields_bits (frame_values f (frame_layout s nb)) = line_seg p ws r (frame_size s nb) \<and>
     list_all field_ok (frame_values f (frame_layout s nb)) \<and> (nb \<le> 16 \<longrightarrow> f ! 1 = 0) \<and> (nb \<le> 0 \<longrightarrow> f ! 0 = 0)"
proof -
  have same: "sh_idx_width s = sh_idx_width (vo_tx obj)" "sh_scramble s = sh_scramble (vo_tx obj)"
    "sh_frame s = sh_frame (vo_tx obj)" "sh_group_count s = sh_group_count (vo_tx obj)"
    using frame_bits_same [OF fb] by (metis v34_shell.select_convs v34_shell.surjective v34_shell.update_convs)+
  let ?w = "unat (sh_idx_width s)"
  have "nb \<le> int 31" using frame_conf_cases(3) [OF conf(1) fb] conf(1) unfolding frame_conf_def by (meson of_nat_le_iff order_trans)
  then have nb: "- 1 \<le> nb" "nb \<le> 31" using frame_conf_cases(2) [OF conf(1) fb] by simp_all
  have w: "?w \<le> 6" "sint (sh_idx_width s) = int ?w"
    using conf(1) frame_conf_cases(4) [OF conf(1) fb] by (simp_all add: frame_conf_def same)
  obtain sw where sw: "frame_small s nb = int sw" "sw \<le> 2" 
  proof -
    have "frame_small s nb = int 2 \<or> frame_small s nb = int 1" by (simp add: frame_small_def)
    then show thesis using that by fastforce
  qed
  obtain sl where sl: "frame_small_last s nb = int sl" "sl \<le> 2"
    
  proof -
    have "frame_small_last s nb = int (nat (frame_small_last s nb)) \<and> nat (frame_small_last s nb) \<le> 2"
      using nb sw by (auto simp: frame_small_last_def frame_small_def)
    then show thesis using that by blast
  qed
  let ?g = "group_size sw ?w" and ?l = "group_size sl ?w"
  have g: "?g \<le> 16" "?l \<le> 16" using sw(2) sl(2) w(1) by (simp_all add: group_size_def)
  have small: "sw \<le> 16" "?w \<le> 15" using sw(2) w(1) by simp_all
  let ?o0 = "obj\<lparr>vo_tx := s\<rparr>"
  have "at_pos p ws r ?o0 pos" using at(1) by (simp add: at_pos_def same)
  moreover have "tx_bitpos ?o0 = of_nat pos" using at(2) by (simp add: tx_bitpos_def)
  ultimately obtain o1 q1 where o1: "frame_refill ?o0 (int pos) = Some (o1, int q1)" "q1 < 16" "at_pos p ws r o1 q1"
    "tx_bitpos o1 = of_nat q1" "framed ?o0 (sh_frame (vo_tx ?o0)) o1"
    using frame_refill_at [OF _ at(3)] by blast
  have f1: "length (sh_frame (vo_tx o1)) = 18" using framed_frame [OF o1(5)] conf(2) same(3) by simp
  obtain o2 q2 y0 y1 where o2: "frame_index o1 nb (int q1) = Some (o2, int q2)" "q2 < 32"
    "framed o1 ((sh_frame (vo_tx o1))[0 := y0, 1 := y1]) o2" "at_pos p ws (r + nat nb) o2 q2"
    "fields_bits (index_fields nb y0 y1) = line_seg p ws r (nat nb)" "list_all field_ok (index_fields nb y0 y1)"
    "nb \<le> 16 \<longrightarrow> y1 = 0" "nb \<le> 0 \<longrightarrow> y0 = 0"
    using frame_index_at [OF o1(3,2,4) nb(2) f1] by blast
  let ?f2 = "(sh_frame (vo_tx o1))[0 := y0, 1 := y1]"
  obtain o3 q3 where o3: "(if int q2 > 15 then do { (obj, s) \<leftarrow> scramble (sh_scramble (vo_tx o2)) o2 (of_int (int q2)); Some (obj, sint s) }
       else Some (o2, int q2)) = Some (o3, int q3)" "q3 < 16" "at_pos p ws (r + nat nb) o3 q3" "framed o2 (sh_frame (vo_tx o2)) o3"
    using refill_once [OF o2(4,2)] by blast
  let ?o3 = "set_bitpos o3 (int q3)"
  have f3: "sh_frame (vo_tx ?o3) = ?f2" using framed_frame [OF o3(4)] framed_frame [OF o2(3)] by simp
  obtain o4 a0 a1 a2 a3 where o4: "frame_group ?o3 (sc_w3 (vo_scrambler ?o3)) (int q3) 2 (int sw) (int ?w) = Some o4"
    "framed ?o3 (put4 ?f2 2 a0 a1 a2 a3) o4" "at_pos p ws (r + nat nb + ?g) o4 (q3 + ?g)" "tx_bitpos o4 = of_nat (q3 + ?g)"
    "sc_w3 (vo_scrambler o4) = sc_w3 (vo_scrambler ?o3)"
    "fields_bits [(a0, 1), (a1, sw), (a2, ?w), (a3, ?w)] = line_seg p ws (r + nat nb) ?g"
    "list_all field_ok [(a0, 1), (a1, sw), (a2, ?w), (a3, ?w)]"
    using frame_group_at [of p ws "r + nat nb" ?o3 q3 sw ?w 2] o3(2,3) g(1) small f1 unfolding f3 by auto
  let ?f4 = "put4 ?f2 2 a0 a1 a2 a3"
  have f4: "sh_frame (vo_tx o4) = ?f4" using framed_frame [OF o4(2)] .
  obtain o5 q5 b0 b1 b2 b3 where o5: "frame_next o4 (sc_w3 (vo_scrambler o4)) 6 (int sw) (int ?w) = Some (o5, sc_w3 (vo_scrambler o5))"
    "framed o4 (put4 ?f4 6 b0 b1 b2 b3) o5" "at_pos p ws (r + nat nb + ?g + ?g) o5 q5" "tx_bitpos o5 = of_nat q5" "q5 < 32"
    "fields_bits [(b0, 1), (b1, sw), (b2, ?w), (b3, ?w)] = line_seg p ws (r + nat nb + ?g) ?g"
    "list_all field_ok [(b0, 1), (b1, sw), (b2, ?w), (b3, ?w)]"
    using frame_next_at [OF o4(3,4) _ g(1), of 6] o3(2) g(1) f1 unfolding f4 by auto
  let ?f5 = "put4 ?f4 6 b0 b1 b2 b3"
  have f5: "sh_frame (vo_tx o5) = ?f5" using framed_frame [OF o5(2)] .
  obtain o6 q6 c0 c1 c2 c3 where o6: "frame_next o5 (sc_w3 (vo_scrambler o5)) 10 (int sw) (int ?w) = Some (o6, sc_w3 (vo_scrambler o6))"
    "framed o5 (put4 ?f5 10 c0 c1 c2 c3) o6" "at_pos p ws (r + nat nb + ?g + ?g + ?g) o6 q6" "tx_bitpos o6 = of_nat q6" "q6 < 32"
    "fields_bits [(c0, 1), (c1, sw), (c2, ?w), (c3, ?w)] = line_seg p ws (r + nat nb + ?g + ?g) ?g"
    "list_all field_ok [(c0, 1), (c1, sw), (c2, ?w), (c3, ?w)]"
    using frame_next_at [OF o5(3,4,5) g(1), of 10] f1 unfolding f5 by auto
  let ?f6 = "put4 ?f5 10 c0 c1 c2 c3"
  have f6: "sh_frame (vo_tx o6) = ?f6" using framed_frame [OF o6(2)] .
  obtain o7 q7 d0 d1 d2 d3 where o7: "frame_next o6 (sc_w3 (vo_scrambler o6)) 14 (int sl) (int ?w) = Some (o7, sc_w3 (vo_scrambler o7))"
    "framed o6 (put4 ?f6 14 d0 d1 d2 d3) o7" "at_pos p ws (r + nat nb + ?g + ?g + ?g + ?l) o7 q7" "tx_bitpos o7 = of_nat q7" "q7 < 32"
    "fields_bits [(d0, 1), (d1, sl), (d2, ?w), (d3, ?w)] = line_seg p ws (r + nat nb + ?g + ?g + ?g) ?l"
    "list_all field_ok [(d0, 1), (d1, sl), (d2, ?w), (d3, ?w)]"
    using frame_next_at [OF o6(3,4,5) g(2), of 14] f1 unfolding f6 by auto
  let ?f7 = "put4 ?f6 14 d0 d1 d2 d3"
  have size: "frame_size s nb = nat nb + (?g + (?g + (?g + ?l)))"
    using sw(1) sl(1) by (simp add: frame_size_def Let_def)
  have get: "getFrame obj = Some o7"
  proof -
    have "uint (tx_bitpos ?o0) = int pos" "sint (sh_idx_width (vo_tx obj)) = int ?w"
      using at(2,3) w(2) by (simp_all add: tx_bitpos_def uint_small same)
    then show ?thesis using fb o1(1) o2(1) o3(1) o4(1,5) o5(1) o6(1) o7(1) sw(1) sl(1)
      unfolding getFrame_def Let_def by simp
  qed
  have fr: "framed ?o0 ?f7 o7"
    using framed_trans [OF framed_trans [OF framed_trans [OF framed_trans [OF framed_trans [OF framed_trans [OF framed_trans
      [OF o1(5) o2(3)] o3(4)] framed_set(1)] o4(2)] o5(2)] o6(2)] o7(2)] .
  have nth: "?f7 ! 0 = y0" "?f7 ! 1 = y1" "group_fields ?f7 2 sw ?w = [(a0, 1), (a1, sw), (a2, ?w), (a3, ?w)]"
    "group_fields ?f7 6 sw ?w = [(b0, 1), (b1, sw), (b2, ?w), (b3, ?w)]"
    "group_fields ?f7 10 sw ?w = [(c0, 1), (c1, sw), (c2, ?w), (c3, ?w)]"
    "group_fields ?f7 14 sl ?w = [(d0, 1), (d1, sl), (d2, ?w), (d3, ?w)]"
    by (simp_all add: put4_def group_fields_def nth_list_update f1)
  have vals: "frame_values ?f7 (frame_layout s nb) = index_fields nb y0 y1 @ group_fields ?f7 2 sw ?w @
     group_fields ?f7 6 sw ?w @ group_fields ?f7 10 sw ?w @ group_fields ?f7 14 sl ?w"
    unfolding frame_values_groups [OF w(2) sw(1) sl(1)] nth(1,2) by (rule refl)
  have seg: "fields_bits (frame_values ?f7 (frame_layout s nb)) = line_seg p ws r (frame_size s nb)"
    unfolding vals nth(3-) fields_bits_append o2(5) o4(6) o5(6) o6(6) o7(6) size line_seg_add
    by (simp add: add.assoc)
  have ok: "list_all field_ok (frame_values ?f7 (frame_layout s nb))"
    unfolding vals nth(3-) list_all_append using o2(6) o4(7) o5(7) o6(7) o7(7) by blast
  have "at_pos p ws (r + frame_size s nb) o7 q7" using o7(3) by (simp add: size add.assoc)
  moreover have "length ?f7 = 18" by (simp add: f1)
  moreover have "nb \<le> 16 \<longrightarrow> ?f7 ! 1 = 0" "nb \<le> 0 \<longrightarrow> ?f7 ! 0 = 0" unfolding nth(1,2) using o2(7,8) by blast+
  ultimately show ?thesis using get fr o7(4,5) seg ok by blast
qed

end
