(* ===== verification/V34Link.thy ===== *)
theory V34Link
  imports V34FrameTx
begin

unbundle bit_operations_syntax

text \<open>
  Two ends of a V.34 call, with a perfect channel between the shell mapper of one and the shell
  demapper of the other: the words given to the transmitter arrive at the receiver.
\<close>

subsection \<open>The two contexts\<close>

text \<open>What the framers of both ends must agree on.\<close>

definition frame_params :: "v34_shell \<Rightarrow> u16 list" where
  "frame_params s = [sh_span s, sh_remainder s, sh_wide_accum s, sh_wide_bits s, sh_wide_bits_alt s, sh_idx_width s, sh_group_count s]"

lemma frame_bits_params:
  assumes "frame_params a = frame_params b" "frame_bits a = (a', nb)"
  shows "\<exists>b'. frame_bits b = (b', nb) \<and> frame_params a' = frame_params b' \<and> frame_layout a' nb = frame_layout b' nb"
  using assms by (auto simp: frame_params_def frame_bits_def frame_layout_def frame_small_def frame_small_last_def Let_def
      split: if_splits)

lemma shell_ready_t3:
  assumes "shell_ready a n" "shell_ready b n"
  shows "sh_t3 a = sh_t3 b"
proof -
  obtain l l' where l: "(n, l) \<in> set xyz_blocks" "shell_table n l (sh_t3 a)" "(n, l') \<in> set xyz_blocks" "shell_table n l' (sh_t3 b)"
    using assms by (auto simp: shell_ready_def)
  have "distinct (map fst xyz_blocks)" by (simp add: xyz_blocks_def)
  then have "l' = l" using l(1,3) eq_key_imp_eq_value by fastforce
  then show ?thesis using l(2,4) by (auto simp: shell_table_def list_eq_iff_nth_eq word_unat_eq_iff)
qed

lemma shell_trip_two:
  assumes "shell_ready tx n" "shell_ready rx n" "unat target < min (n ^ 8) (2 ^ 31)"
  shows "\<exists>es. shell_map tx target = Some es \<and> shellDemapper (rx\<lparr>sh_sub := es\<rparr>) = Some target"
proof -
  obtain es where es: "shell_map tx target = Some (map of_nat es)" "length es = 8" "set es \<subseteq> {..<n}"
    "oct_code n es = unat target" "sum_list es < 128" "unat (sh_t3 tx ! sum_list es) = below n 8 (sum_list es)"
    using shell_map_code [OF assms(1,3)] by auto
  have "shell_ready (rx\<lparr>sh_sub := ys\<rparr>) n" for ys using assms(2) by (simp add: shell_ready_def)
  then have "shellDemapper (rx\<lparr>sh_sub := map of_nat es\<rparr>) = Some target"
    using shellDemapper_code [of "rx\<lparr>sh_sub := map of_nat es\<rparr>" n es] es shell_ready_t3 [OF assms(1,2)] by simp
  then show ?thesis using es(1) by blast
qed

subsection \<open>Receiving a frame\<close>

lemma put_fields_fed:
  assumes "fed p obj bs" "sh_scramble (vo_rx obj) = p" "list_all field_ok (frame_values (sh_frame (vo_rx obj)) lay)"
    and "\<forall>(i, n)\<in>set lay. i < length (sh_frame (vo_rx obj)) \<and> 0 \<le> n"
  shows "\<exists>d rx rn. put_fields obj lay = Some (obj\<lparr>vo_descrambler := d, vo_rx_data := rx, vo_rx_n := rn\<rparr>) \<and>
     fed p (obj\<lparr>vo_descrambler := d, vo_rx_data := rx, vo_rx_n := rn\<rparr>) (bs @ fields_bits (frame_values (sh_frame (vo_rx obj)) lay))"
  using assms
proof (induction lay arbitrary: obj bs)
  case Nil
  then show ?case
    by (intro exI [of _ "vo_descrambler obj"] exI [of _ "vo_rx_data obj"] exI [of _ "vo_rx_n obj"])
      (simp add: fields_bits_def frame_values_def)
next
  case (Cons fld lay)
  obtain i n where f: "fld = (i, n)" by (cases fld)
  let ?v = "sh_frame (vo_rx obj) ! i"
  have ok: "field_ok (?v, nat n)" "i < length (sh_frame (vo_rx obj))" "(of_int n :: u16) = of_nat (nat n)"
    using Cons.prems(3,4) f by (simp_all add: frame_values_def)
  obtain d rx rn where 1: "descramble p obj ?v (of_nat (nat n)) = Some (obj\<lparr>vo_descrambler := d, vo_rx_data := rx, vo_rx_n := rn\<rparr>)"
    and 2: "fed p (obj\<lparr>vo_descrambler := d, vo_rx_data := rx, vo_rx_n := rn\<rparr>) (bs @ field_bits (nat n) ?v)"
    using descramble_fed [OF Cons.prems(1) field_ok_bits [OF ok(1)]] by blast
  obtain d' rx' rn' where
    "put_fields (obj\<lparr>vo_descrambler := d, vo_rx_data := rx, vo_rx_n := rn\<rparr>) lay =
       Some (obj\<lparr>vo_descrambler := d', vo_rx_data := rx', vo_rx_n := rn'\<rparr>)"
    "fed p (obj\<lparr>vo_descrambler := d', vo_rx_data := rx', vo_rx_n := rn'\<rparr>)
       ((bs @ field_bits (nat n) ?v) @ fields_bits (frame_values (sh_frame (vo_rx obj)) lay))"
    using Cons.IH [OF 2] Cons.prems(2-4) by (auto simp: frame_values_def)
  then show ?case using 1 ok(2,3) Cons.prems(2)
    by (intro exI [of _ d'] exI [of _ rx'] exI [of _ rn']) (simp add: f fields_bits_def frame_values_def mem_simps)
qed

lemma frame_layout_range:
  assumes "frame_conf s" "frame_bits s = (s', nb)"
  shows "\<forall>(i, n)\<in>set (frame_layout s' nb). i < 18 \<and> 0 \<le> n"
proof -
  have "sint (sh_idx_width s') = int (unat (sh_idx_width s))"
    using frame_conf_cases(4) [OF assms] frame_bits_same [OF assms(2)]
    by (metis v34_shell.select_convs(10) v34_shell.surjective v34_shell.update_convs(5))
  moreover have "0 \<le> frame_small s' nb" by (simp add: frame_small_def)
  moreover have "0 \<le> frame_small_last s' nb" using frame_conf_cases(2,3) [OF assms] assms(1)
    by (auto simp: frame_small_last_def frame_small_def)
  ultimately show ?thesis by (auto simp: frame_layout_def Let_def)
qed

subsection \<open>The link\<close>

text \<open>The shell index of a frame, as the object's 32-bit view of its first two shorts.\<close>

definition frame_wide :: "v34_shell \<Rightarrow> u32" where
  "frame_wide s = push_bit 16 (ucast (sh_frame s ! 1)) OR ucast (sh_frame s ! 0)"

text \<open>The shell index crosses as ring indices, the other fields as they are.\<close>

definition ideal_channel :: "v34_line \<Rightarrow> v34_line \<Rightarrow> v34_line option" where
  "ideal_channel tx rx = do {
     es \<leftarrow> shell_map (vo_tx tx) (frame_wide (vo_tx tx));
     w \<leftarrow> shellDemapper ((vo_rx rx)\<lparr>sh_sub := es\<rparr>);
     Some (rx\<lparr>vo_rx := (vo_rx rx)\<lparr>sh_sub := es, sh_frame := ucast w # ucast (drop_bit 16 w) # drop 2 (sh_frame (vo_tx tx))\<rparr>\<rparr>)
   }"

fun v34_link :: "nat \<Rightarrow> v34_line \<Rightarrow> v34_line \<Rightarrow> (v34_line \<times> v34_line) option" where
  "v34_link 0 tx rx = Some (tx, rx)"
| "v34_link (Suc k) tx rx = do {
     tx \<leftarrow> getFrame tx;
     rx \<leftarrow> ideal_channel tx rx;
     rx \<leftarrow> putFrame rx;
     v34_link k tx rx
   }"

lemma bit_u16_high: "bit (x :: u16) k \<Longrightarrow> k < 16"
  using bit_imp_le_length [of x k] by simp

lemma frame_wide_parts:
  "ucast (frame_wide s) = sh_frame s ! 0" "ucast (drop_bit 16 (frame_wide s)) = sh_frame s ! 1"
  by (rule bit_word_eqI, auto simp: frame_wide_def bit_ucast_iff bit_drop_bit_eq bit_or_iff bit_push_bit_iff possible_bit_def dest: bit_u16_high)+

lemma frame_wide_less:
  assumes "list_all field_ok (index_fields nb (sh_frame s ! 0) (sh_frame s ! 1))" "- 1 \<le> nb" "nb \<le> 31"
    and "nb \<le> 16 \<longrightarrow> sh_frame s ! 1 = 0" "nb \<le> 0 \<longrightarrow> sh_frame s ! 0 = 0"
  shows "unat (frame_wide s) < 2 ^ nat nb"
proof -
  have "\<not> bit (frame_wide s) k" if k: "nat nb \<le> k" for k
  proof -
    consider "16 < nb" | "0 < nb" "nb \<le> 16" | "nb \<le> 0" by linarith
    then show ?thesis
    proof cases
      case 1
      have "nb mod 16 = (nb - 16) mod 16" by simp
      also have "\<dots> = nb - 16" using 1 assms(3) by (intro mod_pos_pos_trivial) simp_all
      finally have "field_ok (sh_frame s ! 1, nat nb - 16)" using assms(1) 1 by (simp add: index_fields_def nat_diff_distrib)
      then have "\<not> bit (sh_frame s ! 1) (k - 16)" using field_ok_bits(2) k 1 by fastforce
      then show ?thesis using 1 k by (auto simp: frame_wide_def bit_or_iff bit_push_bit_iff bit_ucast_iff possible_bit_def dest: bit_u16_high)
    next
      case 2
      then have "field_ok (sh_frame s ! 0, nat nb)" using assms(1) by (simp add: index_fields_def)
      then have "\<not> bit (sh_frame s ! 0) k" using field_ok_bits(2) k by blast
      then show ?thesis using 2 assms(4) by (simp add: frame_wide_def bit_or_iff bit_push_bit_iff bit_ucast_iff)
    qed (use assms(4,5) in \<open>simp add: frame_wide_def\<close>)
  qed
  then have "take_bit (nat nb) (frame_wide s) = frame_wide s"
    by (intro bit_word_eqI) (metis bit_take_bit_iff linorder_not_less)
  then have "take_bit (nat nb) (unat (frame_wide s)) = unat (frame_wide s)" by (metis unsigned_take_bit_eq)
  then show ?thesis by (metis take_bit_nat_less_exp)
qed

definition linked :: "v34_poly \<Rightarrow> (nat \<Rightarrow> u16) \<Rightarrow> nat \<Rightarrow> nat \<Rightarrow> v34_line \<Rightarrow> v34_line \<Rightarrow> bool" where
  "linked p ws n r tx rx \<longleftrightarrow>
     (\<exists>pos. at_pos p ws r tx pos \<and> tx_bitpos tx = of_nat pos \<and> pos < 32768) \<and>
     frame_conf (vo_tx tx) \<and> length (sh_frame (vo_tx tx)) = 18 \<and> shell_ready (vo_tx tx) n \<and> shell_ready (vo_rx rx) n \<and>
     2 ^ unat (sh_wide_bits (vo_tx tx)) \<le> min (n ^ 8) (2 ^ 31 :: nat) \<and>
     frame_params (vo_tx tx) = frame_params (vo_rx rx) \<and> sh_scramble (vo_rx rx) = p \<and> fed p rx (line_bits p ws r)"

lemma fed_rx [simp]: "fed p (obj\<lparr>vo_rx := s\<rparr> :: v34_line) bs = fed p obj bs"
  by (simp add: fed_def)

lemma frame_params_update [simp]:
  "frame_params (s\<lparr>sh_frame := f\<rparr>) = frame_params s" "frame_params (s\<lparr>sh_sub := e\<rparr>) = frame_params s"
  by (simp_all add: frame_params_def)

lemma shell_ready_update [simp]:
  "shell_ready (s\<lparr>sh_frame := f\<rparr>) n = shell_ready s n" "shell_ready (s\<lparr>sh_sub := e\<rparr>) n = shell_ready s n"
  "shell_ready (s\<lparr>sh_wide_accum := a\<rparr>) n = shell_ready s n"
  by (simp_all add: shell_ready_def)

lemma frame_conf_update [simp]:
  "frame_conf (s\<lparr>sh_frame := f\<rparr>) = frame_conf s" "frame_conf (s\<lparr>sh_wide_accum := a\<rparr>) = frame_conf s"
  by (simp_all add: frame_conf_def)

lemma frame_size_pos: "7 \<le> frame_size s nb" if "- 1 \<le> nb" "nb \<le> 31"
  using that by (auto simp: frame_size_def Let_def group_size_def frame_small_def frame_small_last_def)

lemma link_step:
  assumes "linked p ws n r tx rx"
  shows "\<exists>tx' rx1 rx' r'. getFrame tx = Some tx' \<and> ideal_channel tx' rx = Some rx1 \<and> putFrame rx1 = Some rx' \<and>
     linked p ws n r' tx' rx' \<and> r + 7 \<le> r' \<and> vo_data_enable rx' = vo_data_enable rx"
proof -
  obtain pos where at: "at_pos p ws r tx pos" "tx_bitpos tx = of_nat pos" "pos < 32768"
    and conf: "frame_conf (vo_tx tx)" "length (sh_frame (vo_tx tx)) = 18"
    and ready: "shell_ready (vo_tx tx) n" "shell_ready (vo_rx rx) n"
    and width: "2 ^ unat (sh_wide_bits (vo_tx tx)) \<le> min (n ^ 8) (2 ^ 31 :: nat)"
    and par: "frame_params (vo_tx tx) = frame_params (vo_rx rx)" and poly: "sh_scramble (vo_rx rx) = p"
    and fed: "fed p rx (line_bits p ws r)"
    using assms unfolding linked_def by blast
  obtain s nb where fb: "frame_bits (vo_tx tx) = (s, nb)" by fastforce
  obtain tx' q f where g: "getFrame tx = Some tx'" "framed (tx\<lparr>vo_tx := s\<rparr>) f tx'" "length f = 18"
    "at_pos p ws (r + frame_size s nb) tx' q" "tx_bitpos tx' = of_nat q" "q < 32"
    "fields_bits (frame_values f (frame_layout s nb)) = line_seg p ws r (frame_size s nb)"
    "list_all field_ok (frame_values f (frame_layout s nb))" "nb \<le> 16 \<longrightarrow> f ! 1 = 0" "nb \<le> 0 \<longrightarrow> f ! 0 = 0"
    using getFrame_at [OF at conf fb] by blast
  have s: "s = (vo_tx tx)\<lparr>sh_wide_accum := sh_wide_accum s\<rparr>" by (rule frame_bits_same [OF fb])
  have tx': "vo_tx tx' = s\<lparr>sh_frame := f\<rparr>" using g(2) by (simp add: framed_def) (metis v34_line.select_convs(1) v34_line.surjective v34_line.update_convs(1))
  let ?w = "frame_wide (vo_tx tx')"
  have nb: "- 1 \<le> nb" "nb \<le> int (unat (sh_wide_bits (vo_tx tx)))" by (rule frame_conf_cases [OF conf(1) fb])+
  then have nb31: "nb \<le> 31" using conf(1) unfolding frame_conf_def by linarith
  have fields: "list_all field_ok (index_fields nb (f ! 0) (f ! 1))"
    using g(8) by (simp add: frame_layout_def frame_values_def index_fields_def Let_def split: if_splits)
  have "unat ?w < 2 ^ nat nb"
    by (rule frame_wide_less) (use fields nb(1) nb31 g(9,10) tx' in auto)
  also have "\<dots> \<le> 2 ^ unat (sh_wide_bits (vo_tx tx))" using nb(2) by (intro power_increasing) linarith+
  also have "\<dots> \<le> min (n ^ 8) (2 ^ 31)" by (rule width)
  finally have small: "unat ?w < min (n ^ 8) (2 ^ 31)" .
  have ready': "shell_ready (vo_tx tx') n" using ready(1) unfolding tx' by (subst s) simp
  obtain es where es: "shell_map (vo_tx tx') ?w = Some es" "shellDemapper ((vo_rx rx)\<lparr>sh_sub := es\<rparr>) = Some ?w"
    using shell_trip_two [OF ready' ready(2) small] by blast
  have frame: "ucast ?w # ucast (drop_bit 16 ?w) # drop 2 f = f"
  proof -
    have "f = f ! 0 # f ! 1 # drop 2 f" using g(3) by (simp add: Cons_nth_drop_Suc numeral_2_eq_2)
    then show ?thesis by (simp add: frame_wide_parts tx')
  qed
  let ?rx1 = "rx\<lparr>vo_rx := (vo_rx rx)\<lparr>sh_sub := es, sh_frame := f\<rparr>\<rparr>"
  have chan: "ideal_channel tx' rx = Some ?rx1"
    using es frame by (simp add: ideal_channel_def tx')
  have "frame_params (vo_tx tx) = frame_params (vo_rx ?rx1)" using par by simp
  then obtain t where t: "frame_bits (vo_rx ?rx1) = (t, nb)" "frame_params s = frame_params t" "frame_layout s nb = frame_layout t nb"
    using frame_bits_params fb by blast
  have ts: "t = (vo_rx ?rx1)\<lparr>sh_wide_accum := sh_wide_accum t\<rparr>" by (rule frame_bits_same [OF t(1)])
  let ?rx2 = "?rx1\<lparr>vo_rx := t\<rparr>"
  have rx2: "sh_frame t = f" "sh_scramble t = p" by (subst ts, simp add: poly)+
  have "fed p ?rx2 (line_bits p ws r)" using fed by simp
  then obtain d dat rn where put: "put_fields ?rx2 (frame_layout t nb) = Some (?rx2\<lparr>vo_descrambler := d, vo_rx_data := dat, vo_rx_n := rn\<rparr>)"
    "fed p (?rx2\<lparr>vo_descrambler := d, vo_rx_data := dat, vo_rx_n := rn\<rparr>)
       (line_bits p ws r @ fields_bits (frame_values f (frame_layout t nb)))"
    using put_fields_fed [of p ?rx2 "line_bits p ws r" "frame_layout t nb"] rx2 g(8) t(3) frame_layout_range [OF conf(1) fb] g(3)
    by auto
  let ?rx' = "?rx2\<lparr>vo_descrambler := d, vo_rx_data := dat, vo_rx_n := rn\<rparr>"
  have putf: "putFrame ?rx1 = Some ?rx'" unfolding putFrame_def t(1) by (simp only: split_conv Let_def put(1))
  have "fed p ?rx' (line_bits p ws (r + frame_size s nb))"
    using put(2) g(7) t(3) by (simp add: line_bits_seg)
  moreover have "frame_params (vo_tx tx') = frame_params (vo_rx ?rx')" using t(2) by (simp add: tx')
  moreover have "shell_ready (vo_rx ?rx') n" using ready(2) by simp (subst ts, simp)
  moreover have "frame_conf (vo_tx tx')" using conf(1) unfolding tx' by (subst s) simp
  moreover have "sh_wide_bits (vo_tx tx') = sh_wide_bits (vo_tx tx)" unfolding tx' by (subst s) simp
  ultimately have "linked p ws n (r + frame_size s nb) tx' ?rx'"
    using g(3-6) ready' width rx2(2) unfolding linked_def by (auto simp: tx' intro: less_trans)
  then show ?thesis using g(1) chan putf frame_size_pos [OF nb(1) nb31, of s] 
    by (intro exI [of _ tx'] exI [of _ ?rx1] exI [of _ ?rx'] exI [of _ "r + frame_size s nb"]) simp
qed

lemma link_run:
  assumes "linked p ws n r tx rx"
  shows "\<exists>tx' rx' r'. v34_link k tx rx = Some (tx', rx') \<and> linked p ws n r' tx' rx' \<and> r + 7 * k \<le> r' \<and>
     vo_data_enable rx' = vo_data_enable rx"
  using assms
proof (induction k arbitrary: r tx rx)
  case (Suc k)
  obtain tx1 rx0 rx1 r1 where 1: "getFrame tx = Some tx1" "ideal_channel tx1 rx = Some rx0" "putFrame rx0 = Some rx1"
    "linked p ws n r1 tx1 rx1" "r + 7 \<le> r1" "vo_data_enable rx1 = vo_data_enable rx"
    using link_step [OF Suc.prems] by blast
  obtain tx' rx' r' where "v34_link k tx1 rx1 = Some (tx', rx')" "linked p ws n r' tx' rx'" "r1 + 7 * k \<le> r'"
    "vo_data_enable rx' = vo_data_enable rx1" using Suc.IH [OF 1(4)] by blast
  with 1 show ?case by (intro exI [of _ tx'] exI [of _ rx'] exI [of _ r']) auto
qed auto

end
