(* ===== verification/V34LinkProps.thy ===== *)
theory V34LinkProps
  imports V34Link
begin

unbundle bit_operations_syntax

text \<open>
  Setting up both ends of a V.34 call, and what the link between them delivers.
\<close>

subsection \<open>Rates\<close>

text \<open>The symbol rates and the highest data rate the recommendation has for each.\<close>

definition v34_rates :: "(u16 \<times> u16) list" where
  "v34_rates = [(2400, 21600), (2743, 26400), (2800, 26400), (3000, 28800), (3200, 31200), (3429, 33600)]"

lemma fold_width_steps: "idx \<le> 31 + 8 * k \<Longrightarrow> snd (fold_width idx j) \<le> j + k"
proof (induction idx j arbitrary: k rule: fold_width.induct)
  case (1 idx j)
  show ?case
  proof (cases "idx > 31")
    case True
    then obtain k' where "k = Suc k'" using 1(2) by (cases k) auto
    then show ?thesis using 1(1) [OF True, of k'] 1(2) True by (subst fold_width.simps) simp
  qed (subst fold_width.simps, simp)
qed

lemma v34_idx_width_rate:
  assumes "(baud, rate) \<in> set v34_rates" "bitrate \<le> rate"
  shows "v34_idx_width baud bitrate \<le> 6"
proof -
  let ?g = "v34_group baud" and ?j = "v34_span baud"
  let ?u = "\<lambda>b. (b div 25 * 7 div ?g + ?j - 1) div ?j"
  have "unat bitrate \<le> unat rate" using assms(2) by (simp add: word_le_nat_alt)
  then have "?u (unat bitrate) \<le> ?u (unat rate)" by (intro div_le_mono diff_le_mono add_le_mono mult_le_mono) auto
  also have "?u (unat rate) \<le> 91" using assms(1) by (auto simp: v34_rates_def v34_group_def v34_span_def)
  finally have "?u (unat bitrate) - 20 \<le> 31 + 8 * 5" by simp
  from fold_width_steps [OF this, of 1] show ?thesis by (simp add: v34_idx_width_def Let_def)
qed

subsection \<open>Both ends\<close>

text \<open>Power on, then both contexts at the negotiated parameters.\<close>

definition v34_setup :: "v34_line \<Rightarrow> u16 \<Rightarrow> u16 \<Rightarrow> bool \<Rightarrow> u16 \<Rightarrow> u16 list \<Rightarrow> u16 \<Rightarrow> v34_line option" where
  "v34_setup obj baud bitrate use_max depth coeff divisor =
     (let obj = preinitdigital obj
      in do {
        t \<leftarrow> initV34 (vo_tx obj) baud bitrate use_max depth coeff divisor;
        r \<leftarrow> initV34 (vo_rx obj) baud bitrate use_max 0 coeff divisor;
        Some (obj\<lparr>vo_tx := t, vo_rx := r\<rparr>)
      })"

lemma preinitdigital_tables:
  "sh_t1 (vo_tx (preinitdigital obj)) = replicate 128 0" "sh_t2 (vo_tx (preinitdigital obj)) = replicate 128 0"
  "sh_t3 (vo_tx (preinitdigital obj)) = replicate 128 (- 1)"
  "sh_t1 (vo_rx (preinitdigital obj)) = replicate 128 0" "sh_t2 (vo_rx (preinitdigital obj)) = replicate 128 0"
  "sh_t3 (vo_rx (preinitdigital obj)) = replicate 128 (- 1)"
  by (simp_all add: preinitdigital_def Let_def)

lemma initV34_fields:
  assumes "initV34 s baud bitrate use_max depth coeff divisor = Some t"
  defines "m \<equiv> unat bitrate div 25 * 7 div v34_group baud"
  defines "u \<equiv> (m + v34_span baud - 1) div v34_span baud"
  shows "frame_params t = [of_nat (v34_span baud), of_nat m - (of_nat u - 1) * of_nat (v34_span baud), sh_wide_accum s,
      of_nat (v34_width baud bitrate), of_nat (v34_width baud bitrate) - 1, of_nat (v34_idx_width baud bitrate), of_nat u]"
    "sh_scramble t = sh_scramble s" "sh_frame t = sh_frame s"
proof -
  obtain idx width where iw: "(if u > 12 then if u - 12 \<le> 0x1f then (u - 12, 0) else fold_width (u - 20) 1 else (0, 0)) = (idx, width)"
    by (metis surj_pair)
  then have vw: "v34_width baud bitrate = idx" "v34_idx_width baud bitrate = width"
    by (auto simp: v34_width_def v34_idx_width_def Let_def u_def m_def split: if_splits)
  have same: "frame_params t = frame_params c \<and> sh_scramble t = sh_scramble c \<and> sh_frame t = sh_frame c"
    if "do { s \<leftarrow> initG248 c; Some (s\<lparr>sh_divisor := d, sh_cost_shift := e\<rparr>) } = Some t" for c d e
    using that by (auto simp: frame_params_def split: bind_splits dest!: initG248_same)
  obtain inv count where rest: "rd_at gInvertPat (2 * v34_group baud - 2) = Some inv"
    "rd_at (if use_max then MMaxTable else MMinTable) idx = Some count"
    using assms(1) unfolding initV34_def Let_def m_def [symmetric] u_def [symmetric] iw split_conv
    by (auto split: bind_splits)
  note whole = assms(1) [unfolded initV34_def Let_def m_def [symmetric] u_def [symmetric] iw split_conv rest bind.bind_lunit]
  from same [OF whole] show "frame_params t = [of_nat (v34_span baud), of_nat m - (of_nat u - 1) * of_nat (v34_span baud), sh_wide_accum s,
      of_nat (v34_width baud bitrate), of_nat (v34_width baud bitrate) - 1, of_nat (v34_idx_width baud bitrate), of_nat u]"
    "sh_scramble t = sh_scramble s" "sh_frame t = sh_frame s"
    by (simp_all add: frame_params_def vw)
qed

lemma preinitdigital_same:
  "sh_frame (vo_tx (preinitdigital obj)) = sh_frame (vo_tx obj)" "vo_tx_data (preinitdigital obj) = vo_tx_data obj"
  "vo_tx_n (preinitdigital obj) = vo_tx_n obj" "vo_tx_rd (preinitdigital obj) = vo_tx_rd obj"
  "vo_rx_data (preinitdigital obj) = vo_rx_data obj" "vo_rx_n (preinitdigital obj) = vo_rx_n obj"
  "vo_scrambler (preinitdigital obj) = \<lparr>sc_w0 = 0, sc_w1 = 0, sc_w2 = 0, sc_w3 = 0, sc_nbits = 0x20\<rparr>"
  "vo_descrambler (preinitdigital obj) = \<lparr>ds_w0 = 0, ds_w1 = 0, ds_w2 = 0, ds_count = 0\<rparr>"
  "sh_wide_accum (vo_tx (preinitdigital obj)) = 0" "sh_wide_accum (vo_rx (preinitdigital obj)) = 0"
  "sh_scramble (vo_tx (preinitdigital obj)) = (if vo_role obj = 0x65 then GPC else GPA)"
  "sh_scramble (vo_rx (preinitdigital obj)) = (if vo_role obj = 0x65 then GPA else GPC)"
  by (simp_all add: preinitdigital_def preinitV34_def Let_def)

lemma v34_setup_linked:
  assumes roles: "(vo_role a = 0x65) \<noteq> (vo_role b = 0x65)"
    and set: "v34_setup a baud bitrate use_max depth coeff divisor = Some tx"
      "v34_setup b baud bitrate use_max depth' coeff' divisor' = Some rx"
    and rate: "(baud, rate) \<in> set v34_rates" "bitrate \<le> rate"
    and bufs: "length (sh_frame (vo_tx a)) = 18" "unat (vo_tx_n a) \<le> length (vo_tx_data a)" "vo_tx_rd a = 0"
      "length (vo_rx_data b) = 64" "vo_rx_n b = 0"
  shows "\<exists>p n. linked p (tx_word (tx\<lparr>vo_data_enable := 1\<rparr>)) n 0 (tx\<lparr>vo_data_enable := 1\<rparr>) (rx\<lparr>vo_data_enable := 1\<rparr>)"
proof -
  let ?a = "preinitdigital a" and ?b = "preinitdigital b"
  obtain t r' where t: "initV34 (vo_tx ?a) baud bitrate use_max depth coeff divisor = Some t" "tx = ?a\<lparr>vo_tx := t, vo_rx := r'\<rparr>"
    using set(1) by (auto simp: v34_setup_def Let_def split: bind_splits)
  obtain t' r where r: "initV34 (vo_rx ?b) baud bitrate use_max 0 coeff' divisor' = Some r" "rx = ?b\<lparr>vo_tx := t', vo_rx := r\<rparr>"
    using set(2) by (auto simp: v34_setup_def Let_def split: bind_splits)
  let ?idx = "v34_width baud bitrate"
  let ?n = "ring_of use_max ?idx"
  have tr: "?idx \<le> 31" "sh_wide_bits t = of_nat ?idx" "sh_idx_width t = of_nat (v34_idx_width baud bitrate)" "shell_ready t ?n"
    using initV34_ready [OF preinitdigital_tables(1-3), of a baud bitrate use_max depth coeff divisor] t(1) by auto
  have rr: "shell_ready r ?n"
    using initV34_ready [OF preinitdigital_tables(4-6), of b baud bitrate use_max 0 coeff' divisor'] r(1) by auto
  note ft = initV34_fields [OF t(1), unfolded preinitdigital_same] and fr = initV34_fields [OF r(1), unfolded preinitdigital_same]
  have par: "frame_params t = frame_params r" unfolding ft(1) fr(1) by (rule refl)
  have alt: "sh_wide_bits_alt t = sh_wide_bits t - 1" using ft(1) by (simp add: frame_params_def)
  have iw: "v34_idx_width baud bitrate \<le> 6" by (rule v34_idx_width_rate [OF rate])
  have conf: "frame_conf t" using tr(1-3) alt iw by (simp add: frame_conf_def word_nat)
  let ?tx = "tx\<lparr>vo_data_enable := 1\<rparr>" and ?rx = "rx\<lparr>vo_data_enable := 1\<rparr>"
  let ?p = "sh_scramble t"
  have at: "at_pos ?p (tx_word ?tx) 0 ?tx 32"
    unfolding at_pos_def sent_def using bufs(2,3) reg_at_cleared
    by (intro exI [of _ 0]) (simp add: t(2) preinitdigital_same)
  have "tx_bitpos ?tx = of_nat 32" by (simp add: tx_bitpos_def t(2) preinitdigital_same)
  with at have "\<exists>pos. at_pos ?p (tx_word ?tx) 0 ?tx pos \<and> tx_bitpos ?tx = of_nat pos \<and> pos < 32768"
    by (intro exI [of _ 32]) simp
  moreover have "sh_scramble r = ?p" using ft(2) fr(2) roles by auto
  moreover have "fed ?p ?rx (line_bits ?p (tx_word ?tx) 0)"
    using fed_cleared [of ?rx ?p] bufs(4,5) by (simp add: r(2) preinitdigital_same line_bits_def)
  moreover have "2 ^ unat (sh_wide_bits t) \<le> min (?n ^ 8) (2 ^ 31 :: nat)"
    using ring_of_fits(2) [OF tr(1), of use_max] tr(1,2) by (simp add: word_nat)
  moreover have v: "vo_tx ?tx = t" "vo_rx ?rx = r" by (simp_all add: t(2) r(2))
  moreover have "length (sh_frame t) = 18" using ft(3) bufs(1) by simp
  ultimately have "linked ?p (tx_word ?tx) ?n 0 ?tx ?rx"
    unfolding linked_def v using conf tr(4) rr par by blast
  then show ?thesis by blast
qed

subsection \<open>Properties\<close>

text \<open>C5: Data words given to one end of a V.34 call come out of the other, in order and unchanged.
  Both ends are powered on in opposite roles and set up for one of the recommendation's rates; the
  transmitter scrambles its words and cuts them into frames, the shell index of a frame crosses the
  channel as eight ring indices, and the receiver puts the fields back and descrambles. After
  \<open>k\<close> frames the receive buffer holds at least the words of \<open>7 * k\<close> bits, up to its 64 places,
  and every word it holds is the transmitter's (ones when that has run out).\<close>

theorem v34_link_delivers:
  assumes "(vo_role a = 0x65) \<noteq> (vo_role b = 0x65)"
    and "v34_setup a baud bitrate use_max depth coeff divisor = Some tx"
    and "v34_setup b baud bitrate use_max depth' coeff' divisor' = Some rx"
    and "(baud, rate) \<in> set v34_rates" "bitrate \<le> rate"
    and "length (sh_frame (vo_tx a)) = 18" "unat (vo_tx_n a) \<le> length (vo_tx_data a)" "vo_tx_rd a = 0"
    and "length (vo_rx_data b) = 64" "vo_rx_n b = 0"
  shows "\<exists>tx' rx'. v34_link k (tx\<lparr>vo_data_enable := 1\<rparr>) (rx\<lparr>vo_data_enable := 1\<rparr>) = Some (tx', rx') \<and>
     min 64 (7 * k div 16 - 1) \<le> unat (vo_rx_n rx') \<and> unat (vo_rx_n rx') \<le> length (vo_rx_data rx') \<and>
     (\<forall>j<unat (vo_rx_n rx'). vo_rx_data rx' ! j =
        (if j < unat (vo_tx_n a) then ucast (ucast (vo_tx_data a ! j) :: u16) else 0xffff))"
proof -
  let ?tx = "tx\<lparr>vo_data_enable := 1\<rparr>" and ?rx = "rx\<lparr>vo_data_enable := 1\<rparr>"
  obtain p n where "linked p (tx_word ?tx) n 0 ?tx ?rx" using v34_setup_linked [OF assms] by blast
  from link_run [OF this, of k] obtain tx' rx' r where run: "v34_link k ?tx ?rx = Some (tx', rx')"
    "linked p (tx_word ?tx) n r tx' rx'" "7 * k \<le> r" "vo_data_enable rx' = 1" by auto
  have en: "vo_data_enable rx' \<noteq> 0" using run(4) by simp
  have "fed p rx' (line_bits p (tx_word ?tx) r)" using run(2) by (simp add: linked_def)
  then have "length (vo_rx_data rx') = 64" "unat (vo_rx_n rx') = min 64 (length (received p (line_bits p (tx_word ?tx) r)))"
    "take (unat (vo_rx_n rx')) (vo_rx_data rx') = map ucast (take 64 (received p (line_bits p (tx_word ?tx) r)))"
    using en unfolding fed_def by blast+
  then have got: "length (vo_rx_data rx') = 64" "unat (vo_rx_n rx') = min 64 (r div 16 - 1)"
    "take (unat (vo_rx_n rx')) (vo_rx_data rx') = map ucast (take 64 (map (tx_word ?tx) [0..<r div 16 - 1]))"
    unfolding received_line by simp_all
  have same: "vo_tx_n tx = vo_tx_n a" "vo_tx_data tx = vo_tx_data a"
    using assms(2) by (auto simp: v34_setup_def Let_def preinitdigital_same split: bind_splits)
  have "vo_rx_data rx' ! j = (if j < unat (vo_tx_n a) then ucast (ucast (vo_tx_data a ! j) :: u16) else 0xffff)"
    if j: "j < unat (vo_rx_n rx')" for j
  proof -
    have "vo_rx_data rx' ! j = take (unat (vo_rx_n rx')) (vo_rx_data rx') ! j" using j by simp
    also have "\<dots> = ucast (tx_word ?tx j)" unfolding got(3) using j got(2) by simp
    finally show ?thesis by (simp add: tx_word_def same)
  qed
  moreover have "min 64 (7 * k div 16 - 1) \<le> unat (vo_rx_n rx')"
    unfolding got(2) using div_le_mono [OF run(3), of 16] by linarith
  ultimately show ?thesis using run(1) got(1,2) by auto
qed

text \<open>A caller with two words to send, and an answerer.\<close>

definition v34_caller :: v34_line where
  "v34_caller = \<lparr>vo_rx_data = replicate 64 0, vo_rx_n = 0, vo_tx_data = [0x1234, 0xabcd], vo_tx_n = 2, vo_tx_rd = 0,
     vo_data_enable = 0, vo_scrambler = \<lparr>sc_w0 = 1, sc_w1 = 2, sc_w2 = 3, sc_w3 = 4, sc_nbits = 5\<rparr>,
     vo_descrambler = \<lparr>ds_w0 = 6, ds_w1 = 7, ds_w2 = 8, ds_count = 9\<rparr>,
     vo_tx = blank_shell\<lparr>sh_frame := replicate 18 0\<rparr>, vo_rx = blank_shell, vo_role = 0x65, vo_train_symcount = 0\<rparr>"

lemma v34_setup_some: "\<exists>tx. v34_setup a baud bitrate use_max depth coeff divisor = Some tx"
  using initV34_ready [OF preinitdigital_tables(1-3), of a baud bitrate use_max depth coeff divisor]
    initV34_ready [OF preinitdigital_tables(4-6), of a baud bitrate use_max 0 coeff divisor]
  by (auto simp: v34_setup_def Let_def)

theorem v34_link_delivers_witness:
  "\<exists>tx rx tx' rx'. v34_setup v34_caller 2400 9600 False 0 [] 0 = Some tx \<and>
     v34_setup (v34_caller\<lparr>vo_role := 0x66\<rparr>) 2400 9600 False 0 [] 0 = Some rx \<and>
     v34_link 40 (tx\<lparr>vo_data_enable := 1\<rparr>) (rx\<lparr>vo_data_enable := 1\<rparr>) = Some (tx', rx') \<and>
     vo_rx_data rx' ! 0 = 0x1234 \<and> vo_rx_data rx' ! 1 = 0xabcd \<and> vo_rx_data rx' ! 2 = 0xffff"
proof -
  obtain tx rx where set: "v34_setup v34_caller 2400 9600 False 0 [] 0 = Some tx"
    "v34_setup (v34_caller\<lparr>vo_role := 0x66\<rparr>) 2400 9600 False 0 [] 0 = Some rx"
    using v34_setup_some by blast
  have role: "(vo_role v34_caller = 0x65) \<noteq> (vo_role (v34_caller\<lparr>vo_role := 0x66\<rparr>) = 0x65)" by (simp add: v34_caller_def)
  obtain tx' rx' where run: "v34_link 40 (tx\<lparr>vo_data_enable := 1\<rparr>) (rx\<lparr>vo_data_enable := 1\<rparr>) = Some (tx', rx')"
    "min 64 (7 * 40 div 16 - 1) \<le> unat (vo_rx_n rx')"
    "\<forall>j<unat (vo_rx_n rx'). vo_rx_data rx' ! j =
        (if j < unat (vo_tx_n v34_caller) then ucast (ucast (vo_tx_data v34_caller ! j) :: u16) else 0xffff)"
    using v34_link_delivers [OF role set, of 21600 40] by (auto simp: v34_caller_def v34_rates_def)
  have "2 < unat (vo_rx_n rx')" using run(2) by simp
  then have "vo_rx_data rx' ! 0 = 0x1234" "vo_rx_data rx' ! 1 = 0xabcd" "vo_rx_data rx' ! 2 = 0xffff"
    using run(3) by (simp_all add: v34_caller_def)
  then show ?thesis using set run(1) by blast
qed

end
