(* ===== verification/V34Rates.thy ===== *)
theory V34Rates
  imports V34LinkProps
begin

unbundle bit_operations_syntax

text \<open>
  \<^verbatim>\<open>initdigital\<close> of \<^verbatim>\<open>src/pump/v34/v34shell.c\<close>: the rates of a call out of the two INFO
  words, and both shell contexts at them. Rates count 2400 bit/s. Of the object the fields this
  function uses are in \<open>v34_call\<close>; \<^verbatim>\<open>msgrec[4]\<close> is two fields, and a coefficient pointer
  is the list it points to. The diagnostics only print.
\<close>

record v34_call = v34_line +
  vc_info :: u16
  vc_avail :: u16
  vc_info_caps :: u16
  vc_caps_flags :: u16
  vc_baud :: u16
  vc_rx_baud :: u16
  vc_txbits :: u16
  vc_rxbits :: u16
  vc_depth :: u16
  vc_use_max :: u16
  vc_rx_use_max :: u16
  vc_divtab :: "u16 list"
  vc_rx_divtab :: "u16 list"
  vc_tx_coeff :: "u16 list"
  vc_rx_coeff :: "u16 list"
  vc_tx_flags :: u16
  vc_ptc :: int
  vc_nof_tx_bits :: int
  vc_rates_latched :: u8
  vc_tx_bps :: int
  vc_rx_bps :: int
  vc_v90_receiver :: int
  vc_k56flex_receiver :: int

subsection \<open>Offers\<close>

fun bitreverse_loop :: "nat \<Rightarrow> u16 \<Rightarrow> u16 \<Rightarrow> u16" where
  "bitreverse_loop 0 v out = out"
| "bitreverse_loop (Suc k) v out =
     (let v = drop_bit 1 v; out = out * 2 in bitreverse_loop k v (if v AND 1 \<noteq> 0 then out OR 1 else out))"

definition bitreverse :: "u16 \<Rightarrow> u16 \<Rightarrow> u16" where
  "bitreverse v nbits = bitreverse_loop (nat (sint nbits - 1)) v (if v AND 1 \<noteq> 0 then 1 else 0)"

text \<open>What this end takes from the INFO words: its transmit rate, and the limits of both.\<close>

definition offers :: "'a v34_call_scheme \<Rightarrow> u16 \<times> u16 \<times> u16" where
  "offers o1 =
     (if vo_role o1 = 0x65
      then (drop_bit 2 (vc_info o1) AND 0xf, bitreverse (drop_bit 10 (vc_info_caps o1) AND 0xf) 4,
            drop_bit 6 (vc_info o1) AND 0xf)
      else (drop_bit 6 (vc_info o1) AND 0xf, bitreverse (drop_bit 6 (vc_info_caps o1) AND 0xf) 4,
            drop_bit 2 (vc_info o1) AND 0xf))"

definition cap_rate :: "u16 \<Rightarrow> u16 \<Rightarrow> u16" where
  "cap_rate r lim = (if sint r > sint lim then lim else r)"

text \<open>One rate for both directions, unless both sides allow two.\<close>

definition symmetric_rates :: "'a v34_call_scheme \<Rightarrow> u16 \<times> u16 \<Rightarrow> u16 \<times> u16" where
  "symmetric_rates o1 = (\<lambda>(tx, rx).
     (if sint (vc_avail o1) \<ge> 0 \<or> vc_caps_flags o1 AND 1 = 0
      then let m = (if sint tx \<le> sint rx then tx else rx) in (m, m) else (tx, rx)))"

subsection \<open>Down to an available rate\<close>

lemma unat_pred_less: "w \<noteq> 0 \<Longrightarrow> unat (w - 1) < unat (w :: u16)"
  by (simp add: unat_minus_one unat_gt_0)

function rate_walk :: "u16 \<Rightarrow> u32 \<Rightarrow> u16 \<Rightarrow> u16" where
  "rate_walk avail msk v =
     (let v = v - 1; msk = drop_bit 1 msk
      in if v = 0 \<or> ucast avail AND msk \<noteq> 0 then v else rate_walk avail msk v)"
  by pat_completeness auto
termination
proof (relation "measure (\<lambda>(avail, msk, v). unat (v - 1))")
  fix avail :: u16 and msk msk' :: u32 and v v' :: u16
  assume v': "v' = v - 1" and "\<not> (v' = 0 \<or> ucast avail AND msk' \<noteq> 0)"
  then have "v - 1 \<noteq> 0" by simp
  then have "v' \<noteq> 0" by (simp add: v')
  then have "unat (v' - 1) < unat v'" by (rule unat_pred_less)
  then show "((avail, msk', v'), avail, msk, v) \<in> measure (\<lambda>(avail, msk, v). unat (v - 1))" using v' by simp
qed simp

declare rate_walk.simps [simp del]

definition pick_rate :: "u16 \<Rightarrow> u16 \<Rightarrow> u16" where
  "pick_rate avail r =
     (if r = 0 then r
      else let msk = push_bit (nat ((sint r - 1) mod 32)) (1 :: u32) AND 0xffff in
        if ucast avail AND msk = 0 then rate_walk avail msk r else r)"

text \<open>The rates of the call, before and after the fall back to 4800 bit/s.\<close>

definition negotiated :: "'a v34_call_scheme \<Rightarrow> u16 \<times> u16" where
  "negotiated o1 =
     (let (tx, lim_tx, lim_rx) = offers o1;
          (tx, rx) = symmetric_rates o1 (cap_rate tx lim_tx, cap_rate (vc_rxbits o1) lim_rx);
          tx = pick_rate (vc_avail o1) tx;
          rx = pick_rate (vc_avail o1) rx
      in if tx = 0 \<and> vc_rx_baud o1 \<noteq> 0x960 then (2, 2) else (tx, rx))"

subsection \<open>Both contexts\<close>

text \<open>The entry of a divisor table, fourteen rates to a mode.\<close>

definition rate_divisor :: "u16 list \<Rightarrow> u16 \<Rightarrow> u16 \<Rightarrow> u16 option" where
  "rate_divisor tab bits umax =
     (let i = sint bits + 14 * sint umax - 1 in if i < 0 then None else rd_at tab (nat i))"

definition initdigital_tx :: "v34_call \<Rightarrow> v34_call option" where
  "initdigital_tx o1 = do {
     d \<leftarrow> rate_divisor (vc_divtab o1) (vc_txbits o1) (vc_use_max o1);
     let o1 = o1\<lparr>vc_nof_tx_bits :=
       (if vc_txbits o1 \<noteq> 0 then drop_bit 6 (sint (vc_txbits o1) * vc_ptc o1) + 6 else 0)\<rparr>;
     tx \<leftarrow> initV34 (vo_tx o1) (vc_baud o1) (2400 * vc_txbits o1) (vc_use_max o1 \<noteq> 0) (vc_depth o1) (vc_tx_coeff o1) d;
     Some (o1\<lparr>vo_tx := tx\<rparr>)
   }"

definition initdigital_rx :: "v34_call \<Rightarrow> v34_call option" where
  "initdigital_rx o1 = do {
     d \<leftarrow> rate_divisor (vc_rx_divtab o1) (vc_rxbits o1) (vc_rx_use_max o1);
     let d = signed_drop_bit 1 d;
     rx \<leftarrow> initV34 (vo_rx o1) (vc_rx_baud o1) (2400 * vc_rxbits o1) (vc_rx_use_max o1 \<noteq> 0) 0 (vc_rx_coeff o1)
       (if d = 0 then 1 else d);
     Some (o1\<lparr>vo_rx := rx\<rparr>)
   }"

definition publish_rates :: "v34_call \<Rightarrow> v34_call" where
  "publish_rates o1 =
     (if vc_rates_latched o1 \<noteq> 0 then o1
      else let o1 = o1\<lparr>vc_tx_bps := 2400 * sint (vc_txbits o1)\<rparr>
        in if vc_v90_receiver o1 \<noteq> 0 \<or> vc_k56flex_receiver o1 \<noteq> 0 then o1
           else o1\<lparr>vc_rates_latched := 1, vc_rx_bps := 2400 * sint (vc_rxbits o1)\<rparr>)"

definition initdigital :: "v34_call \<Rightarrow> v34_call option" where
  "initdigital o1 =
     (let (tx, rx) = negotiated o1;
          info = vc_info o1;
          o1 = o1\<lparr>vc_txbits := tx, vc_rxbits := rx, vc_depth := drop_bit 11 info AND 3, vc_use_max := drop_bit 14 info AND 1,
            vc_tx_flags := (if info AND 0x2000 \<noteq> 0 then vc_tx_flags o1 OR 0x4000 else vc_tx_flags o1 AND NOT 0x4000)\<rparr>
      in do {
        o1 \<leftarrow> initdigital_tx o1;
        o1 \<leftarrow> initdigital_rx o1;
        Some (publish_rates o1)
      })"

subsection \<open>The rate that is picked\<close>

text \<open>A rate is available when its bit is set, the first rate's in bit 0.\<close>

definition available :: "u16 \<Rightarrow> u16 \<Rightarrow> bool" where
  "available avail r \<longleftrightarrow> r \<noteq> 0 \<and> bit avail (unat r - 1)"

lemma and_bit_mask: "k < 16 \<Longrightarrow> (ucast (avail :: u16) :: u32) AND push_bit k 1 \<noteq> 0 \<longleftrightarrow> bit avail k"
proof -
  assume k: "k < 16"
  have "bit (ucast avail AND push_bit k 1 :: u32) i \<longleftrightarrow> i = k \<and> bit avail k" for i
    using k by (auto simp: bit_and_iff bit_ucast_iff bit_exp_iff possible_bit_def)
  then show ?thesis by (metis bit_0_eq bot_apply bot_bool_def bit_word_eqI zero_neq_one)
qed

lemma rate_walk_best:
  assumes "v \<noteq> 0" "unat v \<le> 16" "msk = push_bit (unat v - 1) 1"
  shows "rate_walk avail msk v < v \<and> (rate_walk avail msk v = 0 \<or> available avail (rate_walk avail msk v)) \<and>
     (\<forall>k. rate_walk avail msk v < k \<and> k < v \<longrightarrow> \<not> available avail k)"
  using assms
proof (induction avail msk v rule: rate_walk.induct)
  case (1 avail msk v)
  let ?v = "v - 1" and ?m = "drop_bit 1 msk"
  have v: "unat ?v = unat v - 1" "?v < v" using 1(2) by (simp_all add: unat_minus_one word_less_nat_alt unat_gt_0)
  have between: "?v < k \<Longrightarrow> k < v \<Longrightarrow> False" for k using v(1) 1(2) by (simp add: word_less_nat_alt)
  show ?case
  proof (cases "?v = 0")
    case True
    then show ?thesis using v(2) between by (subst (1 2 3 4) rate_walk.simps) (auto simp: Let_def)
  next
    case False
    then have pos: "0 < unat ?v" by (simp add: unat_gt_0)
    have m: "?m = push_bit (unat ?v - 1) 1"
    proof -
      have "unat v - 1 = Suc (unat ?v - 1)" using v(1) pos by simp
      then have msk: "msk = push_bit (Suc (unat ?v - 1)) 1" using 1(4) by (simp only:)
      show ?thesis using \<open>unat v - 1 = Suc (unat ?v - 1)\<close> 1(3) unfolding msk
        by (intro bit_word_eqI) (auto simp: bit_drop_bit_eq bit_exp_iff possible_bit_def simp del: power_Suc)
    qed
    have hit: "ucast avail AND ?m \<noteq> 0 \<longleftrightarrow> available avail ?v"
      unfolding m available_def using and_bit_mask [of "unat ?v - 1" avail] False 1(3) v(1) by simp
    show ?thesis
    proof (cases "available avail ?v")
      case True
      then show ?thesis using v(2) between False hit by (subst (1 2 3 4) rate_walk.simps) (auto simp: Let_def)
    next
      case no: False
      have step: "rate_walk avail msk v = rate_walk avail ?m ?v"
        using False no hit by (subst rate_walk.simps) (simp add: Let_def)
      have ih: "rate_walk avail ?m ?v < ?v \<and> (rate_walk avail ?m ?v = 0 \<or> available avail (rate_walk avail ?m ?v)) \<and>
          (\<forall>k. rate_walk avail ?m ?v < k \<and> k < ?v \<longrightarrow> \<not> available avail k)"
        by (rule 1(1)) (use False no hit m 1(3) v(1) in auto)
      have "\<not> available avail k" if k: "rate_walk avail ?m ?v < k" "k < v" for k
      proof (cases "k < ?v")
        case False
        then have "k = ?v" using between [of k] k(2) not_less_iff_gr_or_eq by blast
        then show ?thesis using no by simp
      qed (use ih k(1) in blast)
      moreover have "rate_walk avail ?m ?v < v" using ih v(2) by (blast intro: less_trans)
      ultimately show ?thesis unfolding step using ih by blast
    qed
  qed
qed

lemma pick_rate_best:
  assumes "unat r \<le> 16"
  shows "pick_rate avail r \<le> r" "pick_rate avail r = 0 \<or> available avail (pick_rate avail r)"
    "pick_rate avail r < k \<Longrightarrow> k \<le> r \<Longrightarrow> \<not> available avail k"
proof -
  have "pick_rate avail r \<le> r \<and> (pick_rate avail r = 0 \<or> available avail (pick_rate avail r)) \<and>
     (\<forall>k. pick_rate avail r < k \<and> k \<le> r \<longrightarrow> \<not> available avail k)"
  proof (cases "r = 0")
    case True
    then show ?thesis by (auto simp: pick_rate_def)
  next
    case False
    then have pos: "0 < unat r" by (simp add: unat_gt_0)
    have "sint r = int (unat r)" using assms sint_small_u16 [of "unat r"] by simp
    moreover obtain q where q: "unat r = Suc q" using pos gr0_implies_Suc by blast
    ultimately have "sint r - 1 = int q" by simp
    moreover have "int q mod 32 = int q" using q assms by (intro mod_pos_pos_trivial) simp_all
    ultimately have sh: "nat ((sint r - 1) mod 32) = unat r - 1" using q by simp
    have m: "push_bit (unat r - 1) (1 :: u32) AND 0xffff = push_bit (unat r - 1) 1"
    proof (rule bit_word_eqI)
      fix n
      have ff: "(0xffff :: u32) = mask 16" by (simp add: mask_numeral)
      show "bit (push_bit (unat r - 1) (1 :: u32) AND 0xffff) n = bit (push_bit (unat r - 1) (1 :: u32)) n"
        unfolding ff using assms pos by (auto simp: bit_and_iff bit_exp_iff bit_mask_iff possible_bit_def simp del: mask_numeral)
    qed
    have hit: "ucast avail AND push_bit (unat r - 1) (1 :: u32) \<noteq> 0 \<longleftrightarrow> available avail r"
      using and_bit_mask [of "unat r - 1" avail] assms pos False by (simp add: available_def)
    show ?thesis
    proof (cases "available avail r")
      case True
      then have "pick_rate avail r = r" using False hit unfolding pick_rate_def sh m Let_def by simp
      then show ?thesis using True by auto
    next
      case no: False
      then have "pick_rate avail r = rate_walk avail (push_bit (unat r - 1) 1) r"
        using False hit unfolding pick_rate_def sh m Let_def by simp
      then show ?thesis using rate_walk_best [OF False assms refl, of avail] no
        by (metis order_le_less order.strict_implies_order)
    qed
  qed
  then show "pick_rate avail r \<le> r" "pick_rate avail r = 0 \<or> available avail (pick_rate avail r)"
    "pick_rate avail r < k \<Longrightarrow> k \<le> r \<Longrightarrow> \<not> available avail k" by blast+
qed

lemma bitreverse_loop_high:
  assumes "\<forall>i \<ge> j. \<not> bit out i"
  shows "\<forall>i \<ge> j + k. \<not> bit (bitreverse_loop k v out) i"
  using assms
proof (induction k arbitrary: v out j)
  case (Suc k)
  have two: "out * 2 = push_bit 1 out" by (simp add: mult.commute)
  have high: "\<forall>i \<ge> Suc j. \<not> bit (out * 2) i"
    unfolding two bit_push_bit_iff using Suc.prems by (metis Suc_le_D Suc_le_mono diff_Suc_1 One_nat_def)
  moreover have "\<forall>i \<ge> Suc j. \<not> bit (out * 2 OR 1) i"
    using high unfolding bit_or_iff bit_1_iff by (metis Zero_not_Suc le_zero_eq)
  ultimately show ?case using Suc.IH [of "Suc j"] by (simp add: Let_def)
qed simp

lemma high_bits_less:
  assumes "\<forall>i \<ge> n. \<not> bit (x :: u16) i"
  shows "unat x < 2 ^ n"
proof -
  have "take_bit n x = x" by (rule bit_word_eqI) (metis assms bit_take_bit_iff linorder_not_less)
  then have "take_bit n (unat x) = unat x" by (metis unsigned_take_bit_eq)
  then show ?thesis by (metis take_bit_nat_less_exp)
qed

lemma sint_le_small:
  assumes "unat r < 32768" "unat l < 32768"
  shows "sint (r :: u16) \<le> sint l \<longleftrightarrow> r \<le> l"
proof -
  have e: "sint r = int (unat r)" "sint l = int (unat l)"
    using sint_small_u16 [of "unat r"] sint_small_u16 [of "unat l"] assms by simp_all
  show ?thesis unfolding e word_le_nat_alt by (rule of_nat_le_iff)
qed

lemma offers_small:
  assumes "offers o1 = (t, lt, lr)"
  shows "unat t < 16" "unat lt < 16" "unat lr < 16"
proof -
  have nib: "unat (x AND 0xf :: u16) < 16" for x
  proof -
    have "x AND 0xf = take_bit 4 x" by (simp add: take_bit_eq_mask mask_numeral)
    then have "unat (x AND 0xf) = take_bit 4 (unat x)" by (simp only: unsigned_take_bit_eq)
    then show ?thesis using take_bit_nat_less_exp [of 4 "unat x"] by simp
  qed
  have rev: "unat (bitreverse x 4) < 16" for x
    using high_bits_less [OF bitreverse_loop_high, of 1 1 3 x] high_bits_less [OF bitreverse_loop_high, of 1 0 3 x]
    by (simp add: bitreverse_def bit_1_iff)
  show "unat t < 16" "unat lt < 16" "unat lr < 16" using assms nib rev by (auto simp: offers_def split: if_splits)
qed

lemma cap_rate_min: "unat r < 32768 \<Longrightarrow> unat l < 32768 \<Longrightarrow> cap_rate r l = min r l"
  using sint_le_small [of r l] by (auto simp: cap_rate_def min_def not_less)

lemma pick_rate_Max:
  assumes "unat r \<le> 16"
  shows "pick_rate avail r = Max (insert 0 {k. available avail k \<and> k \<le> r})"
proof (rule sym, rule Max_eqI)
  show "finite (insert 0 {k. available avail k \<and> k \<le> r})" by simp
  show "pick_rate avail r \<in> insert 0 {k. available avail k \<and> k \<le> r}" using pick_rate_best(1,2) [OF assms, of avail] by auto
  fix k
  assume "k \<in> insert 0 {k. available avail k \<and> k \<le> r}"
  then show "k \<le> pick_rate avail r" using pick_rate_best(3) [OF assms, of avail k] by (auto simp: not_less [symmetric])
qed

text \<open>C32: The rates of a call are the best both ends allow: in each direction the highest available
  rate up to both ends' limits, or in both directions the highest one up to all four limits unless
  both ends permit different rates. Only when no rate is left for transmitting, on a symbol rate
  other than 2400, is it 4800 bit/s both ways.\<close>

theorem negotiated_best:
  assumes "offers o1 = (t, lt, lr)" and "unat (vc_rxbits o1) \<le> 16"
  shows "negotiated o1 =
    (let best = (\<lambda>r. Max (insert 0 {k. available (vc_avail o1) k \<and> k \<le> r}));
         up = min t lt;
         down = min (vc_rxbits o1) lr;
         (tx, rx) = (if bit (vc_avail o1) 15 \<and> bit (vc_caps_flags o1) 0 then (best up, best down)
                     else (best (min up down), best (min up down)))
     in if tx = 0 \<and> vc_rx_baud o1 \<noteq> 2400 then (2, 2) else (tx, rx))"
proof -
  note small = offers_small [OF assms(1)]
  let ?up = "min t lt" and ?down = "min (vc_rxbits o1) lr"
  have caps: "cap_rate t lt = ?up" "cap_rate (vc_rxbits o1) lr = ?down" using small assms(2) by (auto intro!: cap_rate_min)
  have le: "unat ?up \<le> 16" "unat ?down \<le> 16" using small assms(2) by (auto simp: min_def)
  have m: "(if sint ?up \<le> sint ?down then ?up else ?down) = min ?up ?down"
    using sint_le_small [of ?up ?down] le unfolding min_def [of ?up ?down] by simp
  have asym: "sint (vc_avail o1) \<ge> 0 \<or> vc_caps_flags o1 AND 1 = 0 \<longleftrightarrow> \<not> (bit (vc_avail o1) 15 \<and> bit (vc_caps_flags o1) 0)"
    by (simp add: bit_last_iff [of "vc_avail o1", simplified] and_one_eq bit_0 odd_iff_mod_2_eq_one not_less)
  have "unat (min ?up ?down) \<le> 16" using le by (auto simp: min_def [of ?up ?down])
  then have best: "pick_rate (vc_avail o1) r = Max (insert 0 {k. available (vc_avail o1) k \<and> k \<le> r})"
    if "r = ?up \<or> r = ?down \<or> r = min ?up ?down" for r
    using pick_rate_Max le that by blast
  show ?thesis
    unfolding negotiated_def assms(1) split_conv Let_def caps symmetric_rates_def m asym
    by (simp add: best split: if_splits)
qed

definition v34_offer :: v34_call where
  "v34_offer = v34_line.extend (v34_caller\<lparr>vo_tx := preinitV34 blank_shell, vo_rx := preinitV34 blank_shell\<rparr>)
     (v34_call.fields 0x1130 0x0fb7 0x0c00 0 3200 3200 0 14 0 0 0 (replicate 28 1000) (replicate 28 1000) [] [] 0 64 0 0 0 0 0 0)"

theorem negotiated_best_witness:
  "negotiated v34_offer = (3, 3) \<and>
   Max (insert 0 {k. available 0x0fb7 k \<and> k \<le> min (min 12 12) (min 14 4)}) = 3"
proof -
  have "offers v34_offer = (12, 12, 4)" by code_simp
  moreover have "unat (vc_rxbits v34_offer) \<le> 16" by code_simp
  ultimately have "negotiated v34_offer = (let best = Max (insert 0 {k. available 0x0fb7 k \<and> k \<le> min (min 12 12) (min 14 4)}) in
      if best = 0 then (2, 2) else (best, best))"
    using negotiated_best [of v34_offer 12 12 4] by (simp add: v34_offer_def v34_line.defs v34_call.defs Let_def)
  moreover have "negotiated v34_offer = (3, 3)" by code_simp
  ultimately show ?thesis by (auto simp: Let_def split: if_splits)
qed

subsection \<open>When the call can start\<close>

lemma rate_divisor_some:
  assumes "unat bits \<le> 14" "unat umax \<le> 1" "length tab = 28"
  shows "rate_divisor tab bits umax \<noteq> None \<longleftrightarrow> bits \<noteq> 0 \<or> umax = 1"
proof -
  obtain b u where bu: "unat bits = b" "unat umax = u" by blast
  then have e: "sint bits = int b" "sint umax = int u" "b \<le> 14" "u \<le> 1"
    using sint_small_u16 [of "unat bits"] sint_small_u16 [of "unat umax"] assms(1,2) by auto
  have "rate_divisor tab bits umax \<noteq> None \<longleftrightarrow> b \<noteq> 0 \<or> u = 1"
    unfolding rate_divisor_def e(1,2) using e(3,4) assms(3) by (auto simp: Let_def rd_at_def)
  moreover have "b = 0 \<longleftrightarrow> bits = 0" "u = 1 \<longleftrightarrow> umax = 1" using bu by (auto simp: unat_eq_zero word_unat_eq_iff)
  ultimately show ?thesis by blast
qed

lemma initdigital_tx_cases:
  assumes "sh_t1 (vo_tx o1) = replicate 128 0" "sh_t2 (vo_tx o1) = replicate 128 0" "sh_t3 (vo_tx o1) = replicate 128 (- 1)"
  shows "if rate_divisor (vc_divtab o1) (vc_txbits o1) (vc_use_max o1) = None then initdigital_tx o1 = None
     else \<exists>n t. initdigital_tx o1 = Some (o1\<lparr>vc_nof_tx_bits := n, vo_tx := t\<rparr>)"
proof (cases "rate_divisor (vc_divtab o1) (vc_txbits o1) (vc_use_max o1)")
  case (Some d)
  obtain t where "initV34 (vo_tx o1) (vc_baud o1) (2400 * vc_txbits o1) (vc_use_max o1 \<noteq> 0) (vc_depth o1) (vc_tx_coeff o1) d = Some t"
    using initV34_ready [OF assms] by blast
  then show ?thesis using Some by (auto simp: initdigital_tx_def)
qed (simp add: initdigital_tx_def)

lemma initdigital_rx_cases:
  assumes "sh_t1 (vo_rx o1) = replicate 128 0" "sh_t2 (vo_rx o1) = replicate 128 0" "sh_t3 (vo_rx o1) = replicate 128 (- 1)"
  shows "if rate_divisor (vc_rx_divtab o1) (vc_rxbits o1) (vc_rx_use_max o1) = None then initdigital_rx o1 = None
     else \<exists>r. initdigital_rx o1 = Some (o1\<lparr>vo_rx := r\<rparr>)"
proof (cases "rate_divisor (vc_rx_divtab o1) (vc_rxbits o1) (vc_rx_use_max o1)")
  case (Some d)
  obtain r where "initV34 (vo_rx o1) (vc_rx_baud o1) (2400 * vc_rxbits o1) (vc_rx_use_max o1 \<noteq> 0) 0 (vc_rx_coeff o1)
      (if signed_drop_bit 1 d = 0 then 1 else signed_drop_bit 1 d) = Some r"
    using initV34_ready [OF assms] by blast
  then show ?thesis using Some by (cases "signed_drop_bit 1 d = 0") (auto simp: initdigital_rx_def Let_def)
qed (simp add: initdigital_rx_def)

lemma publish_rates_same [simp]: "vc_txbits (publish_rates o1) = vc_txbits o1" "vc_rxbits (publish_rates o1) = vc_rxbits o1"
  by (simp_all add: publish_rates_def Let_def)

text \<open>A call whose rates are in range starts unless a rate is 0 in mode 0: then the entry before
  the divisor table is read. The transmit mode is bit 14 of the INFO word.\<close>

theorem initdigital_starts:
  assumes "sh_t1 (vo_tx o1) = replicate 128 0" "sh_t2 (vo_tx o1) = replicate 128 0" "sh_t3 (vo_tx o1) = replicate 128 (- 1)"
    and "sh_t1 (vo_rx o1) = replicate 128 0" "sh_t2 (vo_rx o1) = replicate 128 0" "sh_t3 (vo_rx o1) = replicate 128 (- 1)"
    and "length (vc_divtab o1) = 28" "length (vc_rx_divtab o1) = 28" "unat (vc_rx_use_max o1) \<le> 1"
    and "negotiated o1 = (tx, rx)" "unat tx \<le> 14" "unat rx \<le> 14"
  shows "(\<exists>o2. initdigital o1 = Some o2 \<and> vc_txbits o2 = tx \<and> vc_rxbits o2 = rx) \<longleftrightarrow>
     (tx \<noteq> 0 \<or> bit (vc_info o1) 14) \<and> (rx \<noteq> 0 \<or> vc_rx_use_max o1 = 1)"
proof -
  let ?umax = "drop_bit 14 (vc_info o1) AND 1"
  define o' where "o' = o1\<lparr>vc_txbits := tx, vc_rxbits := rx, vc_depth := drop_bit 11 (vc_info o1) AND 3, vc_use_max := ?umax,
      vc_tx_flags := (if vc_info o1 AND 0x2000 \<noteq> 0 then vc_tx_flags o1 OR 0x4000 else vc_tx_flags o1 AND NOT 0x4000)\<rparr>"
  have u: "unat ?umax \<le> 1" "?umax = 1 \<longleftrightarrow> bit (vc_info o1) 14"
    by (auto simp: and_one_eq bit_iff_odd_drop_bit mod2_eq_if)
  have dt: "rate_divisor (vc_divtab o1) tx ?umax \<noteq> None \<longleftrightarrow> tx \<noteq> 0 \<or> bit (vc_info o1) 14"
    using rate_divisor_some [OF assms(11) u(1) assms(7)] u(2) by simp
  have dr: "rate_divisor (vc_rx_divtab o1) rx (vc_rx_use_max o1) \<noteq> None \<longleftrightarrow> rx \<noteq> 0 \<or> vc_rx_use_max o1 = 1"
    by (rule rate_divisor_some [OF assms(12,9,8)])
  have whole: "initdigital o1 = do { p \<leftarrow> initdigital_tx o'; q \<leftarrow> initdigital_rx p; Some (publish_rates q) }"
    by (simp add: initdigital_def assms(10) Let_def o'_def)
  have fields: "vc_divtab o' = vc_divtab o1" "vc_txbits o' = tx" "vc_use_max o' = ?umax" "vo_tx o' = vo_tx o1"
    "vc_rx_divtab o' = vc_rx_divtab o1" "vc_rxbits o' = rx" "vc_rx_use_max o' = vc_rx_use_max o1" "vo_rx o' = vo_rx o1"
    by (simp_all add: o'_def)
  show ?thesis
  proof (cases "tx \<noteq> 0 \<or> bit (vc_info o1) 14")
    case True
    then obtain n t where t: "initdigital_tx o' = Some (o'\<lparr>vc_nof_tx_bits := n, vo_tx := t\<rparr>)"
      using initdigital_tx_cases [of o'] assms(1-3) dt by (auto simp: fields split: if_splits)
    have "if rx \<noteq> 0 \<or> vc_rx_use_max o1 = 1
      then \<exists>r. initdigital_rx (o'\<lparr>vc_nof_tx_bits := n, vo_tx := t\<rparr>) = Some (o'\<lparr>vc_nof_tx_bits := n, vo_tx := t, vo_rx := r\<rparr>)
      else initdigital_rx (o'\<lparr>vc_nof_tx_bits := n, vo_tx := t\<rparr>) = None"
      using initdigital_rx_cases [of "o'\<lparr>vc_nof_tx_bits := n, vo_tx := t\<rparr>"] assms(4-6) dr by (auto simp: fields split: if_splits)
    then show ?thesis using True t whole by (auto simp: fields split: if_splits)
  next
    case False
    then show ?thesis using initdigital_tx_cases [of o'] assms(1-3) dt whole by (auto simp: fields split: if_splits)
  qed
qed

theorem initdigital_starts_witness:
  "(\<exists>o2. initdigital v34_offer = Some o2 \<and> vc_txbits o2 = 3 \<and> vc_rxbits o2 = 3) \<and>
   \<not> (\<exists>o2. initdigital (v34_offer\<lparr>vc_avail := 0, vc_rx_baud := 2400\<rparr>) = Some o2 \<and> vc_txbits o2 = 0 \<and> vc_rxbits o2 = 0)"
proof -
  have "negotiated v34_offer = (3, 3)" "negotiated (v34_offer\<lparr>vc_avail := 0, vc_rx_baud := 2400\<rparr>) = (0, 0)" by code_simp+
  then show ?thesis
    using initdigital_starts [of v34_offer 3 3] initdigital_starts [of "v34_offer\<lparr>vc_avail := 0, vc_rx_baud := 2400\<rparr>" 0 0]
    by (simp add: v34_offer_def v34_caller_def v34_line.defs v34_call.defs)
qed

end
