(* ===== verification/CLoops.thy ===== *)
theory CLoops
  imports Prelude
begin

text \<open>
  Counted C loops over an explicit state. \<open>for_loop i n f s\<close> is the loop whose counter runs through
  \<open>n\<close> values from \<open>i\<close> on; a round that reads or writes outside an array makes it \<open>None\<close>. The lemmas
  give its invariant rule and what a loop that fills consecutive cells of an array leaves there.
\<close>

fun for_loop :: "nat \<Rightarrow> nat \<Rightarrow> (nat \<Rightarrow> 's \<Rightarrow> 's option) \<Rightarrow> 's \<Rightarrow> 's option" where
  "for_loop i 0 f s = Some s"
| "for_loop i (Suc n) f s = do { s \<leftarrow> f i s; for_loop (Suc i) n f s }"

lemma for_loop_inv:
  assumes "I i s" and "\<And>k s. i \<le> k \<Longrightarrow> k < i + n \<Longrightarrow> I k s \<Longrightarrow> \<exists>s'. f k s = Some s' \<and> I (Suc k) s'"
  shows "\<exists>s'. for_loop i n f s = Some s' \<and> I (i + n) s'"
  using assms
proof (induction n arbitrary: i s)
  case (Suc n)
  obtain s' where s': "f i s = Some s'" "I (Suc i) s'" using Suc.prems(2) [of i s] Suc.prems(1) by auto
  have "\<exists>s''. for_loop (Suc i) n f s' = Some s'' \<and> I (Suc i + n) s''"
    using Suc.prems(2) by (intro Suc.IH s'(2)) auto
  then show ?case using s'(1) by simp
qed simp

text \<open>The invariant rule for a loop whose state is a function of the counter.\<close>

lemma for_loop_eq:
  assumes "\<And>k. i \<le> k \<Longrightarrow> k < i + n \<Longrightarrow> f k (g k) = Some (g (Suc k))" and "s = g i"
  shows "for_loop i n f s = Some (g (i + n))"
  using for_loop_inv [where I = "\<lambda>k s. s = g k" and f = f and n = n and i = i and s = s] assms by auto

lemma for_loop_cong:
  assumes "\<And>k s. i \<le> k \<Longrightarrow> k < i + n \<Longrightarrow> f k s = g k s"
  shows "for_loop i n f s = for_loop i n g s"
  using assms by (induction n arbitrary: i s) (auto intro!: Option.bind_cong)

subsection \<open>Filling cells\<close>

definition filled :: "nat \<Rightarrow> nat \<Rightarrow> (nat \<Rightarrow> 'a) \<Rightarrow> 'a list \<Rightarrow> 'a list" where
  "filled a b g xs = take a xs @ map g [a..<b] @ drop b xs"

lemma length_filled [simp]: "a \<le> b \<Longrightarrow> b \<le> length xs \<Longrightarrow> length (filled a b g xs) = length xs"
  by (simp add: filled_def)

lemma filled_same [simp]: "filled a a g xs = xs"
  by (simp add: filled_def)

lemma filled_nth:
  assumes "a \<le> b" and "b \<le> length xs" and "i < length xs"
  shows "filled a b g xs ! i = (if a \<le> i \<and> i < b then g i else xs ! i)"
  using assms by (auto simp: filled_def nth_append)

lemma filled_nth_above [simp]: "a \<le> b \<Longrightarrow> b \<le> i \<Longrightarrow> i < length xs \<Longrightarrow> filled a b g xs ! i = xs ! i"
  by (simp add: filled_nth)

lemma filled_upd [simp]:
  assumes "a \<le> b" and "b < length xs" and "v = g b"
  shows "(filled a b g xs)[b := v] = filled a (Suc b) g xs"
  using assms by (intro nth_equalityI) (auto simp: nth_list_update filled_nth less_Suc_eq)

lemma filled_all: "length xs = n \<Longrightarrow> filled 0 n g xs = map g [0..<n]"
  by (simp add: filled_def)

lemma filled_take: "b \<le> length xs \<Longrightarrow> take b (filled 0 b g xs) = map g [0..<b]"
  by (simp add: filled_def)

lemma filled_cong: "(\<And>k. a \<le> k \<Longrightarrow> k < b \<Longrightarrow> g k = h k) \<Longrightarrow> filled a b g xs = filled a b h xs"
  by (simp add: filled_def)

text \<open>A loop that writes cell \<open>k\<close> in round \<open>k\<close>.\<close>

lemma for_fill:
  assumes "i + n \<le> length xs" and "\<And>k xs. i \<le> k \<Longrightarrow> k < i + n \<Longrightarrow> f k xs = wr_at xs k (g k)"
  shows "for_loop i n f xs = Some (filled i (i + n) g xs)"
  using assms by (intro for_loop_eq) (simp_all add: mem_simps)

end
