(* ===== verification/V90Coders.thy ===== *)
theory V90Coders
  imports CLoops
begin

unbundle bit_operations_syntax

text \<open>
  The coders at both ends of the V.90 mapper: the differential coders of
  \<^verbatim>\<open>include/dsplib/DiffCoder.h\<close> for \<open>unsigned char\<close>, and the modulus conversion of
  \<^verbatim>\<open>V90ModulusEncoder.cpp\<close> and \<^verbatim>\<open>V90ModulusDecoder.cpp\<close>. A serial coder is its one byte of
  state. The modulus conversion runs in a signed 64-bit accumulator: its overflow is undefined in C
  and \<open>None\<close> here.
\<close>

subsection \<open>Differential coders\<close>

definition serial_encode :: "u8 \<Rightarrow> u8 \<Rightarrow> u8 \<times> u8" where
  "serial_encode prev x = (let prev = prev XOR x in (prev, prev))"

definition serial_decode :: "u8 \<Rightarrow> u8 \<Rightarrow> u8 \<times> u8" where
  "serial_decode prev x = (let out = prev XOR x in (out, x))"

record pdiff =
  pd_state :: "u8 list"
  pd_capacity :: u32
  pd_size :: u32

definition pdiff_new :: "u32 \<Rightarrow> pdiff" where
  "pdiff_new size' = \<lparr>pd_state = replicate (unat size') 0, pd_capacity = size', pd_size = 0\<rparr>"

definition pdiff_reset :: "pdiff \<Rightarrow> u32 \<Rightarrow> u8 \<Rightarrow> (pdiff \<times> int) option" where
  "pdiff_reset p size' init =
     (if pd_capacity p < size' then Some (p, 1)
      else do {
        st \<leftarrow> for_loop 0 (unat size') (\<lambda>i st. wr_at st i init) (pd_state p);
        Some (p\<lparr>pd_state := st, pd_size := size'\<rparr>, 0)
      })"

definition pdiff_encode_step :: "u8 list \<Rightarrow> nat \<Rightarrow> pdiff \<times> u8 list \<Rightarrow> (pdiff \<times> u8 list) option" where
  "pdiff_encode_step xs i = (\<lambda>(p, out). do {
     x \<leftarrow> rd_at xs i;
     s \<leftarrow> rd_at (pd_state p) i;
     let x = x XOR s;
     out \<leftarrow> wr_at out i x;
     st \<leftarrow> wr_at (pd_state p) i x;
     Some (p\<lparr>pd_state := st\<rparr>, out)
   })"

definition pdiff_encode :: "pdiff \<Rightarrow> u8 list \<Rightarrow> u8 list \<Rightarrow> (pdiff \<times> u8 list) option" where
  "pdiff_encode p xs out = for_loop 0 (unat (pd_size p)) (pdiff_encode_step xs) (p, out)"

text \<open>The decoder may work in place: each round reads its input cell before it writes that cell.\<close>

definition pdiff_decode_step :: "u8 list \<Rightarrow> nat \<Rightarrow> pdiff \<times> u8 list \<Rightarrow> (pdiff \<times> u8 list) option" where
  "pdiff_decode_step xs i = (\<lambda>(p, out). do {
     x \<leftarrow> rd_at xs i;
     s \<leftarrow> rd_at (pd_state p) i;
     out \<leftarrow> wr_at out i (x XOR s);
     st \<leftarrow> wr_at (pd_state p) i x;
     Some (p\<lparr>pd_state := st\<rparr>, out)
   })"

definition pdiff_decode :: "pdiff \<Rightarrow> u8 list \<Rightarrow> u8 list \<Rightarrow> (pdiff \<times> u8 list) option" where
  "pdiff_decode p xs out = for_loop 0 (unat (pd_size p)) (pdiff_decode_step xs) (p, out)"

subsection \<open>Modulus conversion\<close>

record modulus_coder =
  mc_constellationSize0 :: u32
  mc_constellationSize1 :: u32
  mc_constellationSize2 :: u32
  mc_constellationSize3 :: u32
  mc_constellationSize4 :: u32
  mc_constellationSize5 :: u32
  mc_bitCount :: u32

definition modulus_coder_zero :: modulus_coder where
  "modulus_coder_zero =
     \<lparr>mc_constellationSize0 = 0, mc_constellationSize1 = 0, mc_constellationSize2 = 0, mc_constellationSize3 = 0,
      mc_constellationSize4 = 0, mc_constellationSize5 = 0, mc_bitCount = 0\<rparr>"

definition modulus_coder_new :: "u32 \<Rightarrow> u32 \<Rightarrow> u32 \<Rightarrow> u32 \<Rightarrow> u32 \<Rightarrow> u32 \<Rightarrow> u32 \<Rightarrow> modulus_coder" where
  "modulus_coder_new a b c d e f g =
     \<lparr>mc_constellationSize0 = a, mc_constellationSize1 = b, mc_constellationSize2 = c, mc_constellationSize3 = d,
      mc_constellationSize4 = e, mc_constellationSize5 = f, mc_bitCount = g\<rparr>"

definition llong :: "int \<Rightarrow> int option" where
  "llong v = (if - (2 ^ 63) \<le> v \<and> v < 2 ^ 63 then Some v else None)"

fun pack_bits :: "u8 list \<Rightarrow> nat \<Rightarrow> int \<Rightarrow> int option" where
  "pack_bits bytes 0 acc = Some acc"
| "pack_bits bytes (Suc i) acc = do {
     b \<leftarrow> rd_at bytes i;
     acc \<leftarrow> llong (acc + acc);
     pack_bits bytes i (acc OR uint (b AND 1))
   }"

definition split_digit :: "int \<Rightarrow> u32 \<Rightarrow> (u32 \<times> int) option" where
  "split_digit acc m =
     (if m = 0 then None
      else do {
        let d = of_int (acc smod uint m);
        v \<leftarrow> llong (acc - uint d);
        Some (d, v sdiv uint m)
      })"

definition ModulusEncoder_progress :: "modulus_coder \<Rightarrow> u8 list \<Rightarrow> u32 list \<Rightarrow> u32 list option" where
  "ModulusEncoder_progress mc bytes out =
     (if sint (mc_bitCount mc) = - (2 ^ 31) then None
      else do {
        acc \<leftarrow> pack_bits bytes (nat (sint (mc_bitCount mc))) 0;
        (d0, acc) \<leftarrow> split_digit acc (mc_constellationSize0 mc);
        out \<leftarrow> wr_at out 0 d0;
        (d1, acc) \<leftarrow> split_digit acc (mc_constellationSize1 mc);
        out \<leftarrow> wr_at out 1 d1;
        (d2, acc) \<leftarrow> split_digit acc (mc_constellationSize2 mc);
        out \<leftarrow> wr_at out 2 d2;
        (d3, acc) \<leftarrow> split_digit acc (mc_constellationSize3 mc);
        out \<leftarrow> wr_at out 3 d3;
        (d4, acc) \<leftarrow> split_digit acc (mc_constellationSize4 mc);
        out \<leftarrow> wr_at out 4 d4;
        wr_at out 5 (of_int acc)
      })"

definition join_digit :: "int \<Rightarrow> u32 \<Rightarrow> u32 \<Rightarrow> int option" where
  "join_digit acc m d = do {
     acc \<leftarrow> llong (acc * uint m);
     llong (acc + uint d)
   }"

definition unpack_step :: "nat \<Rightarrow> u8 list \<times> int \<Rightarrow> (u8 list \<times> int) option" where
  "unpack_step i = (\<lambda>(bytes, acc). do {
     bytes \<leftarrow> wr_at bytes i (of_int (acc AND 1));
     Some (bytes, drop_bit 1 acc)
   })"

definition ModulusDecoder_progress :: "modulus_coder \<Rightarrow> u8 list \<Rightarrow> u32 list \<Rightarrow> u8 list option" where
  "ModulusDecoder_progress mc bytes ins = do {
     d5 \<leftarrow> rd_at ins 5;
     d4 \<leftarrow> rd_at ins 4;
     acc \<leftarrow> join_digit (uint d5) (mc_constellationSize4 mc) d4;
     d3 \<leftarrow> rd_at ins 3;
     acc \<leftarrow> join_digit acc (mc_constellationSize3 mc) d3;
     d2 \<leftarrow> rd_at ins 2;
     acc \<leftarrow> join_digit acc (mc_constellationSize2 mc) d2;
     d1 \<leftarrow> rd_at ins 1;
     acc \<leftarrow> join_digit acc (mc_constellationSize1 mc) d1;
     d0 \<leftarrow> rd_at ins 0;
     acc \<leftarrow> join_digit acc (mc_constellationSize0 mc) d0;
     (bytes, _) \<leftarrow> for_loop 0 (unat (mc_bitCount mc)) unpack_step (bytes, acc);
     Some bytes
   }"

subsection \<open>The differential coders are inverse\<close>

lemma serial_trip:
  "serial_encode p x = (y, p') \<Longrightarrow> serial_decode p y = (x, p')"
  by (auto simp: serial_encode_def serial_decode_def Let_def xor.assoc [symmetric])

lemma pdiff_encode_run:
  assumes "unat (pd_size p) \<le> length xs" "unat (pd_size p) \<le> length (pd_state p)" "unat (pd_size p) \<le> length out"
  defines "n \<equiv> unat (pd_size p)" and "g \<equiv> \<lambda>i. xs ! i XOR pd_state p ! i"
  shows "pdiff_encode p xs out = Some (p\<lparr>pd_state := filled 0 n g (pd_state p)\<rparr>, filled 0 n g out)"
proof -
  have "for_loop 0 n (pdiff_encode_step xs) (p, out) =
      Some ((\<lambda>k. (p\<lparr>pd_state := filled 0 k g (pd_state p)\<rparr>, filled 0 k g out)) (0 + n))"
    by (rule for_loop_eq) (use assms in \<open>simp_all add: pdiff_encode_step_def mem_simps Let_def\<close>)
  then show ?thesis by (simp add: pdiff_encode_def n_def)
qed

lemma pdiff_decode_run:
  assumes "unat (pd_size p) \<le> length xs" "unat (pd_size p) \<le> length (pd_state p)" "unat (pd_size p) \<le> length out"
  defines "n \<equiv> unat (pd_size p)"
  shows "pdiff_decode p xs out =
     Some (p\<lparr>pd_state := filled 0 n (\<lambda>i. xs ! i) (pd_state p)\<rparr>, filled 0 n (\<lambda>i. xs ! i XOR pd_state p ! i) out)"
proof -
  have "for_loop 0 n (pdiff_decode_step xs) (p, out) =
      Some ((\<lambda>k. (p\<lparr>pd_state := filled 0 k (\<lambda>i. xs ! i) (pd_state p)\<rparr>, filled 0 k (\<lambda>i. xs ! i XOR pd_state p ! i) out)) (0 + n))"
    by (rule for_loop_eq) (use assms in \<open>simp_all add: pdiff_decode_step_def mem_simps\<close>)
  then show ?thesis by (simp add: pdiff_decode_def n_def)
qed

subsection \<open>Modulus conversion as arithmetic\<close>

definition bits_value :: "u8 list \<Rightarrow> nat \<Rightarrow> int" where
  "bits_value bytes n = (\<Sum>i < n. uint (bytes ! i AND 1) * 2 ^ i)"

lemma uint_low_bit: "uint (b AND 1) = of_bool (odd (b :: u8))"
  by (simp add: and_one_eq mod_2_eq_odd)

lemma u32_pos: "m \<noteq> 0 \<Longrightarrow> 0 < uint (m :: u32)" "uint (m :: u32) < 2 ^ 32"
  using uint_bounded [of m] by (simp_all add: less_le uint_0_iff)

lemma bits_value_range: "0 \<le> bits_value bytes n" "bits_value bytes n < 2 ^ n"
proof -
  show "0 \<le> bits_value bytes n" by (simp add: bits_value_def uint_low_bit sum_nonneg)
  show "bits_value bytes n < 2 ^ n"
  proof (induction n)
    case (Suc n)
    have "uint (bytes ! n AND 1) * 2 ^ n \<le> 1 * 2 ^ n" by (intro mult_right_mono) (simp_all add: uint_low_bit)
    then show ?case using Suc unfolding bits_value_def sum.lessThan_Suc power_Suc by linarith
  qed (simp add: bits_value_def)
qed

lemma bits_value_Suc: "bits_value bytes (Suc n) = bits_value bytes n + uint (bytes ! n AND 1) * 2 ^ n"
  by (simp add: bits_value_def)

lemma double_or_bit: "(a + a) OR uint (b AND 1) = 2 * a + uint ((b :: u8) AND 1)"
  and double_or_bit': "a * 2 OR uint (b AND 1) = a * 2 + uint ((b :: u8) AND 1)"
  by (simp_all add: uint_low_bit or_one_eq split: split_of_bool)

lemma pack_bits_value:
  assumes "n \<le> length bytes" and "0 \<le> acc" and "(acc + 1) * 2 ^ n \<le> 2 ^ 63"
  shows "pack_bits bytes n acc = Some (acc * 2 ^ n + bits_value bytes n)"
  using assms
proof (induction n arbitrary: acc)
  case 0
  then show ?case by (simp add: bits_value_def)
next
  case (Suc n)
  let ?b = "uint (bytes ! n AND 1)"
  have b: "0 \<le> ?b" "?b \<le> 1" by (simp_all add: uint_low_bit)
  have "(2 * acc + 2) * 1 \<le> (2 * acc + 2) * 2 ^ n" using Suc.prems(2) by (intro mult_left_mono) auto
  also have p: "(2 * acc + 2) * 2 ^ n \<le> 2 ^ 63" using Suc.prems(3) by (simp add: algebra_simps)
  finally have "llong (acc + acc) = Some (acc + acc)" using Suc.prems(2) by (simp add: llong_def)
  moreover have "(2 * acc + ?b + 1) * 2 ^ n \<le> (2 * acc + 2) * 2 ^ n" using b by (intro mult_right_mono) auto
  note this p
  then have "(2 * acc + ?b + 1) * 2 ^ n \<le> 2 ^ 63" by (rule order_trans)
  then have "pack_bits bytes n (2 * acc + ?b) = Some ((2 * acc + ?b) * 2 ^ n + bits_value bytes n)"
    using Suc.prems(1,2) p b by (intro Suc.IH) simp_all
  ultimately show ?case using Suc.prems by (simp add: mem_simps double_or_bit' bits_value_Suc algebra_simps)
qed

lemma mult_sdiv: "0 \<le> a \<Longrightarrow> 0 < b \<Longrightarrow> (a * b) sdiv b = a" for a b :: int
  by (cases "a = 0") (simp_all add: signed_divide_int_def sgn_mult abs_mult sgn_if)

lemma split_digit_value:
  assumes "0 \<le> acc" and "acc < 2 ^ 63" and "m \<noteq> 0"
  shows "split_digit acc m = Some (of_int (acc mod uint m), acc div uint m)"
proof -
  have m: "0 < uint m" "uint m < 2 ^ 32" using u32_pos assms(3) by simp_all
  have r: "acc smod uint m = acc mod uint m" using assms m by (cases "acc = 0") (simp_all add: smod_int_alt_def sgn_if)
  have "acc mod uint m < 2 ^ 32" "0 \<le> acc mod uint m" using m pos_mod_bound [of "uint m" acc] pos_mod_sign [of "uint m" acc] by linarith+
  then have d: "uint (of_int (acc mod uint m) :: u32) = acc mod uint m" by (simp add: word_of_int_inverse)
  have e: "acc - acc mod uint m = acc div uint m * uint m" by (simp add: minus_mod_eq_div_mult)
  have "0 \<le> acc div uint m * uint m" "acc div uint m * uint m \<le> acc"
    using assms m by (simp_all add: pos_imp_zdiv_nonneg_iff minus_mod_eq_div_mult [symmetric] zmod_le_nonneg_dividend)
  then have "llong (acc div uint m * uint m) = Some (acc div uint m * uint m)" using assms by (simp add: llong_def)
  moreover have "(acc div uint m * uint m) sdiv uint m = acc div uint m"
    by (rule mult_sdiv) (use assms m in \<open>simp_all add: pos_imp_zdiv_nonneg_iff\<close>)
  ultimately show ?thesis using assms(3) by (simp add: split_digit_def Let_def r d e)
qed

lemma join_digit_value:
  assumes "0 \<le> acc" and "acc < 2 ^ 63" and "m \<noteq> 0"
  shows "join_digit (acc div uint m) m (of_int (acc mod uint m)) = Some acc"
proof -
  have m: "0 < uint m" "uint m < 2 ^ 32" using u32_pos assms(3) by simp_all
  have "acc mod uint m < 2 ^ 32" "0 \<le> acc mod uint m" using m pos_mod_bound [of "uint m" acc] pos_mod_sign [of "uint m" acc] by linarith+
  then have d: "uint (of_int (acc mod uint m) :: u32) = acc mod uint m" by (simp add: word_of_int_inverse)
  have "0 \<le> acc div uint m * uint m" "acc div uint m * uint m \<le> acc"
    using assms m by (simp_all add: pos_imp_zdiv_nonneg_iff minus_mod_eq_div_mult [symmetric] zmod_le_nonneg_dividend)
  then show ?thesis using assms by (simp add: join_digit_def d llong_def)
qed

lemma unpack_run:
  assumes "n \<le> length bytes"
  shows "for_loop 0 n unpack_step (bytes, v) = Some (filled 0 n (\<lambda>i. of_bool (bit v i)) bytes, v div 2 ^ n)"
proof -
  have b: "of_int (v div 2 ^ k AND 1) = (of_bool (bit v k) :: u8)" for k
    by (simp add: and_one_eq bit_iff_odd mod_2_eq_odd)
  have "for_loop 0 n unpack_step (bytes, v) =
      Some ((\<lambda>k. (filled 0 k (\<lambda>i. of_bool (bit v i)) bytes, v div 2 ^ k)) (0 + n))"
    by (rule for_loop_eq) (use assms in \<open>simp_all add: unpack_step_def mem_simps b drop_bit_eq_div power_Suc2 zdiv_zmult2_eq del: power_Suc\<close>)
  then show ?thesis by simp
qed

lemma bit_bits_value:
  assumes "i < n"
  shows "bit (bits_value bytes n) i \<longleftrightarrow> odd (bytes ! i)"
  using assms
proof (induction n)
  case (Suc n)
  let ?v = "bits_value bytes n"
  have r: "take_bit n ?v = ?v" using bits_value_range [of bytes n] by (simp add: take_bit_int_eq_self)
  have "push_bit n (of_bool (odd (bytes ! n))) AND ?v = 0"
    by (rule bit_eqI) (metis bit_and_iff bit_0_eq bot_apply bot_bool_def bit_push_bit_iff bit_take_bit_iff not_le r)
  then have "push_bit n (of_bool (odd (bytes ! n))) + ?v = push_bit n (of_bool (odd (bytes ! n))) OR ?v"
    by (rule disjunctive_add_eq_or)
  then have e: "bits_value bytes (Suc n) = push_bit n (of_bool (odd (bytes ! n))) OR ?v"
    by (simp add: bits_value_Suc uint_low_bit push_bit_eq_mult)
  show ?case
  proof (cases "i = n")
    case True
    have "\<not> bit ?v n" using r by (metis bit_take_bit_iff less_irrefl)
    then show ?thesis using True by (simp add: e bit_or_iff bit_push_bit_iff)
  next
    case False
    then show ?thesis using Suc by (simp add: e bit_or_iff bit_push_bit_iff)
  qed
qed simp

subsection \<open>The encoder and the decoder\<close>

definition mc_ready :: "modulus_coder \<Rightarrow> u8 list \<Rightarrow> bool" where
  "mc_ready mc bytes \<longleftrightarrow> mc_constellationSize0 mc \<noteq> 0 \<and> mc_constellationSize1 mc \<noteq> 0 \<and> mc_constellationSize2 mc \<noteq> 0 \<and>
     mc_constellationSize3 mc \<noteq> 0 \<and> mc_constellationSize4 mc \<noteq> 0 \<and>
     unat (mc_bitCount mc) \<le> 63 \<and> unat (mc_bitCount mc) \<le> length bytes"

text \<open>The quotients the encoder passes through, and the digits it leaves.\<close>

definition mc_size :: "modulus_coder \<Rightarrow> nat \<Rightarrow> u32" where
  "mc_size mc k = [mc_constellationSize0 mc, mc_constellationSize1 mc, mc_constellationSize2 mc,
     mc_constellationSize3 mc, mc_constellationSize4 mc, mc_constellationSize5 mc] ! k"

lemma mc_size_simps [simp]:
  "mc_size mc 0 = mc_constellationSize0 mc" "mc_size mc (Suc 0) = mc_constellationSize1 mc"
  "mc_size mc 1 = mc_constellationSize1 mc"
  "mc_size mc 2 = mc_constellationSize2 mc" "mc_size mc 3 = mc_constellationSize3 mc"
  "mc_size mc 4 = mc_constellationSize4 mc" "mc_size mc 5 = mc_constellationSize5 mc"
  by (simp_all add: mc_size_def)

fun mc_quot :: "modulus_coder \<Rightarrow> int \<Rightarrow> nat \<Rightarrow> int" where
  "mc_quot mc v 0 = v"
| "mc_quot mc v (Suc k) = mc_quot mc v k div uint (mc_size mc k)"

definition modulus_digits :: "modulus_coder \<Rightarrow> int \<Rightarrow> u32 list" where
  "modulus_digits mc v =
     [of_int (mc_quot mc v 0 mod uint (mc_size mc 0)), of_int (mc_quot mc v 1 mod uint (mc_size mc 1)),
      of_int (mc_quot mc v 2 mod uint (mc_size mc 2)), of_int (mc_quot mc v 3 mod uint (mc_size mc 3)),
      of_int (mc_quot mc v 4 mod uint (mc_size mc 4)), of_int (mc_quot mc v 5)]"

lemma length_modulus_digits [simp]: "length (modulus_digits mc v) = 6"
  by (simp add: modulus_digits_def)

lemma div_shrinks: "0 \<le> v \<Longrightarrow> v < b \<Longrightarrow> 0 \<le> v div uint (m :: u32) \<and> v div uint m < b" for v b :: int
proof (cases "m = 0")
  case False
  assume "0 \<le> v" "v < b"
  then show ?thesis using u32_pos [of m] False zdiv_mono2 [of v 1 "uint m"] by (simp add: pos_imp_zdiv_nonneg_iff)
qed simp

lemma mc_quot_range:
  "0 \<le> v \<Longrightarrow> v < b \<Longrightarrow> 0 \<le> mc_quot mc v k \<and> mc_quot mc v k < b"
  by (induction k) (simp_all, use div_shrinks in blast)

lemma mc_quot_steps:
  "mc_quot mc v 1 = mc_quot mc v 0 div uint (mc_size mc 0)" "mc_quot mc v 2 = mc_quot mc v 1 div uint (mc_size mc 1)"
  "mc_quot mc v 3 = mc_quot mc v 2 div uint (mc_size mc 2)" "mc_quot mc v 4 = mc_quot mc v 3 div uint (mc_size mc 3)"
  "mc_quot mc v 5 = mc_quot mc v 4 div uint (mc_size mc 4)"
  by (simp_all add: numeral_eq_Suc)

lemma sint_small_u32: "unat (w :: u32) < 2 ^ 31 \<Longrightarrow> sint w = int (unat w)"
proof -
  assume "unat w < 2 ^ 31"
  then have "int (unat w) < int (2 ^ 31)" by (simp only: of_nat_less_iff)
  then have "uint w < 2 ^ 31" by simp
  then have "signed_take_bit 31 (uint w) = uint w"
    by (intro signed_take_bit_int_eq_self order_trans [OF _ uint_ge_0 [of w]]) simp_all
  then show ?thesis by (simp add: sint_uint)
qed

lemma list6: "length xs = 6 \<Longrightarrow> \<exists>a b c d e f. xs = [a, b, c, d, e, f]"
  by (auto simp: numeral_eq_Suc length_Suc_conv)

lemma wr6:
  "wr_at [a, b, c, d, e, f] 0 x = Some [x, b, c, d, e, f]" "wr_at [a, b, c, d, e, f] 1 x = Some [a, x, c, d, e, f]"
  "wr_at [a, b, c, d, e, f] 2 x = Some [a, b, x, d, e, f]" "wr_at [a, b, c, d, e, f] 3 x = Some [a, b, c, x, e, f]"
  "wr_at [a, b, c, d, e, f] 4 x = Some [a, b, c, d, x, f]" "wr_at [a, b, c, d, e, f] 5 x = Some [a, b, c, d, e, x]"
  by (simp_all add: wr_at_def)

lemma encoder_value:
  assumes "mc_ready mc bytes" and "length out = 6"
  shows "ModulusEncoder_progress mc bytes out = Some (modulus_digits mc (bits_value bytes (unat (mc_bitCount mc))))"
proof -
  let ?n = "unat (mc_bitCount mc)" and ?v = "bits_value bytes (unat (mc_bitCount mc))"
  have n: "?n \<le> 63" "?n \<le> length bytes" using assms(1) by (simp_all add: mc_ready_def)
  have s: "sint (mc_bitCount mc) = int ?n" using n by (intro sint_small_u32) simp
  have "(2 :: int) ^ ?n \<le> 2 ^ 63" using n by (intro power_increasing) auto
  have sn: "uint (mc_bitCount mc) \<noteq> - 2147483648" using uint_ge_0 [of "mc_bitCount mc"] by linarith
  from \<open>2 ^ ?n \<le> 2 ^ 63\<close> have p: "pack_bits bytes ?n 0 = Some ?v" using pack_bits_value [of ?n bytes 0] n by simp
  have r: "0 \<le> ?v" "?v < 2 ^ 63" using bits_value_range [of bytes ?n] \<open>2 ^ ?n \<le> 2 ^ 63\<close> by auto
  note q' = conjunct1 [OF mc_quot_range [OF r, of mc]] conjunct2 [OF mc_quot_range [OF r, of mc]]
  have m: "mc_size mc 0 \<noteq> 0" "mc_size mc 1 \<noteq> 0" "mc_size mc 2 \<noteq> 0" "mc_size mc 3 \<noteq> 0" "mc_size mc 4 \<noteq> 0"
    using assms(1) by (simp_all add: mc_ready_def)
  define q where "q = mc_quot mc ?v"
  note sd = split_digit_value [OF q']
  have z: "split_digit (q 0) (mc_size mc 0) = Some (of_int (q 0 mod uint (mc_size mc 0)), q 1)"
    by (simp only: q_def mc_quot_steps(1) sd [OF m(1)])
  have z1: "split_digit (q 1) (mc_size mc 1) = Some (of_int (q 1 mod uint (mc_size mc 1)), q 2)"
    by (simp only: q_def mc_quot_steps(2) sd [OF m(2)])
  have z2: "split_digit (q 2) (mc_size mc 2) = Some (of_int (q 2 mod uint (mc_size mc 2)), q 3)"
    by (simp only: q_def mc_quot_steps(3) sd [OF m(3)])
  have z3: "split_digit (q 3) (mc_size mc 3) = Some (of_int (q 3 mod uint (mc_size mc 3)), q 4)"
    by (simp only: q_def mc_quot_steps(4) sd [OF m(4)])
  have z4: "split_digit (q 4) (mc_size mc 4) = Some (of_int (q 4 mod uint (mc_size mc 4)), q 5)"
    by (simp only: q_def mc_quot_steps(5) sd [OF m(5)])
  have q0: "q 0 = ?v" by (simp add: q_def)
  obtain a b c d e f where "out = [a, b, c, d, e, f]" using list6 [OF assms(2)] by blast
  then show ?thesis
    unfolding ModulusEncoder_progress_def s nat_int p mc_size_simps(1,3-6) [symmetric] modulus_digits_def q_def [symmetric]
    by (simp add: z [unfolded q0] q0 z1 z2 z3 z4 wr6 sn del: mc_size_simps One_nat_def)
qed

lemma decoder_value:
  assumes "mc_ready mc bytes" and v: "0 \<le> v" "v < 2 ^ 63" and "mc_quot mc v 5 < 2 ^ 32"
  shows "ModulusDecoder_progress mc bytes (modulus_digits mc v) =
     Some (filled 0 (unat (mc_bitCount mc)) (\<lambda>i. of_bool (bit v i)) bytes)"
proof -
  define q where "q = mc_quot mc v"
  note q' = conjunct1 [OF mc_quot_range [OF v, of mc]] conjunct2 [OF mc_quot_range [OF v, of mc]]
  note jd = join_digit_value [OF q']
  have m: "mc_size mc 0 \<noteq> 0" "mc_size mc 1 \<noteq> 0" "mc_size mc 2 \<noteq> 0" "mc_size mc 3 \<noteq> 0" "mc_size mc 4 \<noteq> 0"
    using assms(1) by (simp_all add: mc_ready_def)
  have z0: "join_digit (q 1) (mc_size mc 0) (of_int (q 0 mod uint (mc_size mc 0))) = Some (q 0)"
    by (simp only: q_def mc_quot_steps(1) jd [OF m(1)])
  have z1: "join_digit (q 2) (mc_size mc 1) (of_int (q 1 mod uint (mc_size mc 1))) = Some (q 1)"
    by (simp only: q_def mc_quot_steps(2) jd [OF m(2)])
  have z2: "join_digit (q 3) (mc_size mc 2) (of_int (q 2 mod uint (mc_size mc 2))) = Some (q 2)"
    by (simp only: q_def mc_quot_steps(3) jd [OF m(3)])
  have z3: "join_digit (q 4) (mc_size mc 3) (of_int (q 3 mod uint (mc_size mc 3))) = Some (q 3)"
    by (simp only: q_def mc_quot_steps(4) jd [OF m(4)])
  have z4: "join_digit (q 5) (mc_size mc 4) (of_int (q 4 mod uint (mc_size mc 4))) = Some (q 4)"
    by (simp only: q_def mc_quot_steps(5) jd [OF m(5)])
  have z5: "uint (of_int (q 5) :: u32) = q 5"
    using assms(4) q'(1) [of 5] by (simp add: q_def word_of_int_inverse)
  have n: "unat (mc_bitCount mc) \<le> length bytes" using assms(1) by (simp add: mc_ready_def)
  have q0: "q 0 = v" by (simp add: q_def)
  show ?thesis
    unfolding ModulusDecoder_progress_def mc_size_simps(1,3-6) [symmetric] modulus_digits_def q_def [symmetric]
    by (simp add: rd_at_def z5 z0 [unfolded q0] q0 z1 z2 z3 z4 unpack_run [OF n] del: mc_size_simps One_nat_def)
qed

lemma mc_quot_product: "0 \<le> v \<Longrightarrow> mc_quot mc v k * (\<Prod>i < k. uint (mc_size mc i)) \<le> v"
proof (induction k)
  case (Suc k)
  let ?p = "\<Prod>i < k. uint (mc_size mc i)" and ?s = "uint (mc_size mc k)"
  have "mc_quot mc v k div ?s * ?s \<le> mc_quot mc v k"
    by (cases "?s = 0") (use Suc.prems mc_quot_range [of v "v + 1" mc k] in
      \<open>auto simp: minus_mod_eq_div_mult [symmetric] uint_0_iff u32_pos\<close>)
  then have "mc_quot mc v k div ?s * ?s * ?p \<le> mc_quot mc v k * ?p"
    by (intro mult_right_mono prod_nonneg) auto
  also have "\<dots> \<le> v" using Suc by simp
  finally show ?case by (simp add: ac_simps)
qed simp

lemma modulus_digits_range:
  assumes "0 \<le> v" and "v < (\<Prod>i < 6. uint (mc_size mc i))" and "k < 6"
  shows "modulus_digits mc v ! k < mc_size mc k" and "mc_quot mc v 5 < uint (mc_size mc 5)"
proof -
  let ?p = "\<Prod>i < 5. uint (mc_size mc i)"
  have p6: "(\<Prod>i < 6. uint (mc_size mc i)) = ?p * uint (mc_size mc 5)" by (simp add: numeral_eq_Suc)
  have nz: "0 < ?p * uint (mc_size mc 5)" using assms(1,2) unfolding p6 by linarith
  have q5: "mc_quot mc v 5 < uint (mc_size mc 5)"
  proof (rule ccontr)
    assume "\<not> ?thesis"
    then have "uint (mc_size mc 5) * ?p \<le> mc_quot mc v 5 * ?p" by (intro mult_right_mono prod_nonneg) auto
    also have "\<dots> \<le> v" by (rule mc_quot_product [OF assms(1)])
    finally show False using assms(2) unfolding p6 by (simp add: mult.commute)
  qed
  then show "mc_quot mc v 5 < uint (mc_size mc 5)" .
  have s: "0 < uint (mc_size mc i)" if "i < 6" for i
  proof -
    have "(\<Prod>i < 6. uint (mc_size mc i)) \<noteq> 0" using nz unfolding p6 by linarith
    then have "uint (mc_size mc i) \<noteq> 0" using that by (metis finite_lessThan lessThan_iff prod_zero_iff)
    then show ?thesis by (simp add: less_le)
  qed
  have lt: "(of_int x :: u32) < m" if "0 \<le> x" "x < uint m" for x m
    using that u32_pos(2) [of m] by (simp add: word_less_def word_of_int_inverse)
  have md: "(of_int (x mod uint (mc_size mc i)) :: u32) < mc_size mc i" if "i < 6" for x i
    using s [OF that] by (intro lt) simp_all
  have "0 \<le> mc_quot mc v 5" using mc_quot_range [of v "v + 1" mc 5] assms(1) by simp
  note l5 = lt [OF this q5]
  have "k \<in> {0, 1, 2, 3, 4, 5}" using assms(3) by auto
  then show "modulus_digits mc v ! k < mc_size mc k"
    using md l5 by (auto simp: modulus_digits_def simp del: mc_size_simps)
qed

text \<open>C12: when the moduli leave room for all bit strings of the chosen length, the encoder's six digits
  lie below their moduli and the decoder returns the low bits of the bytes the encoder was given.\<close>

theorem modulus_roundtrip:
  assumes "unat (mc_bitCount mc) \<le> 63" and "unat (mc_bitCount mc) \<le> length bytes" and "unat (mc_bitCount mc) \<le> length buf"
    and room: "2 ^ unat (mc_bitCount mc) \<le> (\<Prod>k < 6. uint (mc_size mc k))" and "length out = 6"
  shows "\<exists>ds. ModulusEncoder_progress mc bytes out = Some ds \<and> length ds = 6 \<and> (\<forall>k < 6. ds ! k < mc_size mc k) \<and>
     ModulusDecoder_progress mc buf ds =
       Some (map (\<lambda>b. b AND 1) (take (unat (mc_bitCount mc)) bytes) @ drop (unat (mc_bitCount mc)) buf)"
proof -
  let ?n = "unat (mc_bitCount mc)" and ?v = "bits_value bytes (unat (mc_bitCount mc))"
  have v: "0 \<le> ?v" "?v < 2 ^ ?n" by (rule bits_value_range)+
  then have lt: "?v < (\<Prod>k < 6. uint (mc_size mc k))" using room by linarith
  have "(2 :: int) ^ ?n \<le> 2 ^ 63" using assms(1) by (intro power_increasing) auto
  then have v63: "?v < 2 ^ 63" using v by linarith
  have "(\<Prod>k < 6. uint (mc_size mc k)) \<noteq> 0" using lt v by linarith
  then have "mc_size mc k \<noteq> 0" if "k < 6" for k
    using that by (metis finite_lessThan lessThan_iff prod_zero_iff unsigned_0)
  from this [of 0] this [of 1] this [of 2] this [of 3] this [of 4]
  have r: "mc_ready mc bytes" "mc_ready mc buf" using assms by (simp_all add: mc_ready_def)
  have "mc_quot mc ?v 5 < 2 ^ 32" using modulus_digits_range(2) [OF v(1) lt, of 0] u32_pos(2) [of "mc_size mc 5"] by linarith
  note d = decoder_value [OF r(2) v(1) v63 this]
  have "filled 0 ?n (\<lambda>i. of_bool (bit ?v i)) buf = map (\<lambda>b. b AND 1) (take ?n bytes) @ drop ?n buf"
    using assms by (intro nth_equalityI)
      (auto simp: filled_nth nth_append bit_bits_value and_one_eq mod_2_eq_odd)
  then show ?thesis
    using encoder_value [OF r(1) assms(5)] modulus_digits_range(1) [OF v(1) lt] d by auto
qed

lemma prod6: "(\<Prod>k < 6. f k) = f 0 * f 1 * f 2 * f 3 * f 4 * f (5 :: nat)" for f :: "nat \<Rightarrow> int"
  by (simp add: eval_nat_numeral)

definition sample_coder :: modulus_coder where
  "sample_coder = modulus_coder_new 3 5 4 6 2 3 10"

lemma modulus_roundtrip_witness:
  "\<exists>ds. ModulusEncoder_progress sample_coder [1, 0, 1, 1, 0, 0, 1, 3, 0, 1] [0, 0, 0, 0, 0, 0] = Some ds \<and>
     ModulusDecoder_progress sample_coder (replicate 10 7) ds = Some [1, 0, 1, 1, 0, 0, 1, 1, 0, 1]"
proof -
  have "2 ^ unat (mc_bitCount sample_coder) \<le> (\<Prod>k < 6. uint (mc_size sample_coder k))"
    by (simp add: prod6 sample_coder_def modulus_coder_new_def)
  then show ?thesis
    using modulus_roundtrip [of sample_coder "[1, 0, 1, 1, 0, 0, 1, 3, 0, 1]" "replicate 10 7" "[0, 0, 0, 0, 0, 0]"]
    by (auto simp: sample_coder_def modulus_coder_new_def)
qed

end
