(* ===== verification/V90Signs.thy ===== *)
theory V90Signs
  imports V90Coders
begin

unbundle bit_operations_syntax

text \<open>
  Sign bits on the V.90 downlink: the spectral shaper that chooses the signs of a block of levels
  (\<^verbatim>\<open>V90SpectralShaper.cpp\<close>, \<^verbatim>\<open>V90SpectralShapingFilter.cpp\<close>) and the extractor that takes the
  sign bits back (\<^verbatim>\<open>V90SignBitsExtractor.cpp\<close>). Floating-point arithmetic is an argument, the
  record \<open>fparith\<close>, so that nothing here depends on rounding: a \<open>float\<close> is a value of its carrier
  that \<open>fp_single\<close> has narrowed.
\<close>

subsection \<open>The shaping filter\<close>

record 'd fparith =
  fp_of_short :: "u16 \<Rightarrow> 'd"
  fp_add :: "'d \<Rightarrow> 'd \<Rightarrow> 'd"
  fp_sub :: "'d \<Rightarrow> 'd \<Rightarrow> 'd"
  fp_mul :: "'d \<Rightarrow> 'd \<Rightarrow> 'd"
  fp_single :: "'d \<Rightarrow> 'd"
  fp_less :: "'d \<Rightarrow> 'd \<Rightarrow> bool"
  fp_zero :: 'd
  fp_huge :: 'd

type_synonym 'd four = "'d \<times> 'd \<times> 'd \<times> 'd"

record 'd shaping_filter =
  ss_coeff :: "'d four"
  ss_state :: "'d four"
  ss_blockLength :: u32

definition ssf_new :: "'d fparith \<Rightarrow> 'd shaping_filter" where
  "ssf_new fa =
     \<lparr>ss_coeff = (fp_zero fa, fp_zero fa, fp_zero fa, fp_zero fa),
      ss_state = (fp_zero fa, fp_zero fa, fp_zero fa, fp_zero fa), ss_blockLength = 2\<rparr>"

definition setFilterCoeff :: "'d four \<Rightarrow> 'd shaping_filter \<Rightarrow> 'd shaping_filter" where
  "setFilterCoeff c f = f\<lparr>ss_coeff := c\<rparr>"

definition ssf_reset :: "'d fparith \<Rightarrow> 'd shaping_filter \<Rightarrow> 'd shaping_filter" where
  "ssf_reset fa f = f\<lparr>ss_state := (fp_zero fa, fp_zero fa, fp_zero fa, fp_zero fa)\<rparr>"

text \<open>One sample through the two sections; the state is last input, middle, output and the energy.\<close>

definition ssf_sample :: "'d fparith \<Rightarrow> 'd four \<Rightarrow> u16 list \<Rightarrow> nat \<Rightarrow> 'd four \<Rightarrow> 'd four option" where
  "ssf_sample fa = (\<lambda>(b0, b1, b2, b3) xs i (prevIn, prevMid, prevOut, energy). do {
     v \<leftarrow> rd_at xs i;
     let sample = fp_of_short fa v;
     let mid = fp_add fa (fp_sub fa sample (fp_mul fa prevIn b2)) (fp_mul fa prevMid b0);
     let out = fp_add fa (fp_sub fa mid (fp_mul fa prevMid b3)) (fp_mul fa prevOut b1);
     Some (sample, mid, out, fp_add fa energy (fp_mul fa out out))
   })"

definition ssf_progress :: "'d fparith \<Rightarrow> 'd shaping_filter \<Rightarrow> u16 list \<Rightarrow> 'd shaping_filter option" where
  "ssf_progress fa f xs =
     (if ss_blockLength f = 0 then Some f
      else do {
        (prevIn, prevMid, prevOut, energy) \<leftarrow>
          for_loop 0 (unat (ss_blockLength f)) (ssf_sample fa (ss_coeff f) xs) (ss_state f);
        Some (f\<lparr>ss_state := (fp_single fa prevIn, fp_single fa prevMid, fp_single fa prevOut, fp_single fa energy)\<rparr>)
      })"

definition getMetric :: "'d fparith \<Rightarrow> 'd shaping_filter \<Rightarrow> u16 list \<Rightarrow> u32 \<Rightarrow> 'd option" where
  "getMetric fa f xs blocks = do {
     (_, _, _, total) \<leftarrow>
       for_loop 0 (unat blocks * unat (ss_blockLength f)) (ssf_sample fa (ss_coeff f) xs) (ss_state f);
     Some total
   }"

subsection \<open>The shaper\<close>

datatype sign_action = KEEP_ALL | NEGATE_ALL | NEGATE_EVEN | NEGATE_ODD

record 'd shaper =
  sh_shaperId :: u32
  sh_shaperSR :: u32
  sh_blockLength :: u32
  sh_frameBits :: "u8 list"
  sh_codedBits :: "u8 list"
  sh_signBits :: "u8 list"
  sh_state :: u32
  sh_primeFrames :: u32
  sh_delayLine :: "u16 list"
  sh_trialLine :: "u16 list"
  sh_writeIndex :: u32
  sh_windowLength :: u32
  sh_oddEncoder :: u8
  sh_pde :: pdiff
  sh_ssf :: "'d shaping_filter"

definition table_row :: "int list \<Rightarrow> int list" where
  "table_row xs = xs @ replicate (16 - length xs) 0"

definition actionLookupTable :: "int list list" where
  "actionLookupTable = map table_row
    [[1, 2],
     [3, 4],
     [11, 12, 23, 24],
     [31, 32, 43, 44],
     [111, 112, 123, 124, 231, 232, 243, 244],
     [311, 312, 323, 324, 431, 432, 443, 444],
     [1111, 1112, 1123, 1124, 1231, 1232, 1243, 1244, 2311, 2312, 2323, 2324, 2431, 2432, 2443, 2444],
     [3111, 3112, 3123, 3124, 3231, 3232, 3243, 3244, 4311, 4312, 4323, 4324, 4431, 4432, 4443, 4444]]"

definition pow10Table :: "u32 list" where
  "pow10Table = [1, 10, 100, 1000, 10000]"

text \<open>The constructor: \<open>raw\<close> is the uninitialised object, its two lines the allocated memory.\<close>

definition shaper_new :: "'d fparith \<Rightarrow> 'd shaper \<Rightarrow> 'd shaper" where
  "shaper_new fa raw =
     raw\<lparr>sh_oddEncoder := 0, sh_pde := pdiff_new 6, sh_ssf := ssf_new fa, sh_windowLength := 24,
         sh_writeIndex := 0, sh_state := 0\<rparr>"

definition shaper_reset :: "'d fparith \<Rightarrow> u32 \<Rightarrow> u32 \<Rightarrow> 'd four \<Rightarrow> 'd shaper \<Rightarrow> 'd shaper option" where
  "shaper_reset fa id' sr coeff sh = do {
     let bl = (if sr \<noteq> 0 then 6 div sr else 0);
     (pde, _) \<leftarrow> pdiff_reset (sh_pde sh) bl 0;
     line \<leftarrow> for_loop 0 24 (\<lambda>i line. wr_at line i 0) (sh_delayLine sh);
     Some (sh\<lparr>sh_shaperId := id', sh_shaperSR := sr, sh_blockLength := bl, sh_oddEncoder := 0, sh_pde := pde,
       sh_ssf := (setFilterCoeff coeff (ssf_reset fa (sh_ssf sh)))\<lparr>ss_blockLength := bl\<rparr>,
       sh_windowLength := (id' + 1) * bl, sh_writeIndex := id' * bl, sh_delayLine := line,
       sh_primeFrames := id', sh_state := 0\<rparr>)
   }"

definition resetSSFilter :: "'d fparith \<Rightarrow> 'd four \<Rightarrow> 'd shaper \<Rightarrow> 'd shaper" where
  "resetSSFilter fa coeff sh = sh\<lparr>sh_ssf := setFilterCoeff coeff (ssf_reset fa (sh_ssf sh))\<rparr>"

text \<open>Cell \<open>j\<close> of a block under an action.\<close>

fun act_cell :: "sign_action \<Rightarrow> nat \<Rightarrow> u16 \<Rightarrow> u16" where
  "act_cell KEEP_ALL j v = v"
| "act_cell NEGATE_ALL j v = - v"
| "act_cell NEGATE_EVEN j v = (if odd j then v else - v)"
| "act_cell NEGATE_ODD j v = (if odd j then - v else v)"

definition shaper_frame_action :: "'d shaper \<Rightarrow> sign_action \<Rightarrow> u16 list \<Rightarrow> u32 \<Rightarrow> u16 list option" where
  "shaper_frame_action sh action dst start =
     for_loop (unat start) (unat (start + sh_blockLength sh) - unat start)
       (\<lambda>i dst. do { v \<leftarrow> rd_at (sh_delayLine sh) i; wr_at dst i (act_cell action (i - unat start) v) }) dst"

definition action_step :: "'d shaper \<Rightarrow> nat \<Rightarrow> int \<times> u16 list \<Rightarrow> (int \<times> u16 list) option" where
  "action_step sh m = (\<lambda>(action, dst). do {
     let digit = action smod 10;
     let start = (sh_shaperId sh - of_nat m) * sh_blockLength sh;
     dst \<leftarrow> (if digit = 1 then shaper_frame_action sh KEEP_ALL dst start
       else if digit = 2 then shaper_frame_action sh NEGATE_ALL dst start
       else if digit = 3 then shaper_frame_action sh NEGATE_EVEN dst start
       else if digit = 4 then shaper_frame_action sh NEGATE_ODD dst start
       else Some dst);
     Some (action sdiv 10, dst)
   })"

definition applyAction :: "'d shaper \<Rightarrow> int \<Rightarrow> u16 list \<Rightarrow> u16 list option" where
  "applyAction sh action dst = do {
     (_, dst) \<leftarrow> for_loop 0 (unat (sh_shaperId sh) + 1) (action_step sh) (action, dst);
     Some dst
   }"

definition trellis_entry :: "'d shaper \<Rightarrow> nat \<Rightarrow> int option" where
  "trellis_entry sh n = do {
     row \<leftarrow> rd_at actionLookupTable (unat (sh_state sh + 2 * sh_shaperId sh));
     rd_at row n
   }"

text \<open>One candidate: the state is the trial line, the best metric and, once there is one, its action.\<close>

definition trellis_step :: "'d fparith \<Rightarrow> 'd shaper \<Rightarrow> nat \<Rightarrow> u16 list \<times> 'd \<times> int option \<Rightarrow> (u16 list \<times> 'd \<times> int option) option" where
  "trellis_step fa sh n = (\<lambda>(trial, best, bestAction). do {
     trial \<leftarrow> for_loop 0 (unat (sh_windowLength sh)) (\<lambda>i t. do { v \<leftarrow> rd_at (sh_delayLine sh) i; wr_at t i v }) trial;
     a \<leftarrow> trellis_entry sh n;
     trial \<leftarrow> applyAction sh a trial;
     metric \<leftarrow> getMetric fa (sh_ssf sh) trial (sh_shaperId sh + 1);
     Some (if fp_less fa metric best then (trial, fp_single fa metric, Some a) else (trial, best, bestAction))
   })"

fun action_of_digit :: "u32 \<Rightarrow> sign_action option" where
  "action_of_digit d =
     (if d = 1 then Some KEEP_ALL else if d = 2 then Some NEGATE_ALL else if d = 3 then Some NEGATE_EVEN
      else if d = 4 then Some NEGATE_ODD else None)"

fun next_state :: "sign_action \<Rightarrow> u32" where
  "next_state KEEP_ALL = 0"
| "next_state NEGATE_EVEN = 0"
| "next_state NEGATE_ALL = 1"
| "next_state NEGATE_ODD = 1"

text \<open>No candidate below the starting metric leaves the best action uninitialised, and so does a
  leading digit outside 1 to 4 the action itself.\<close>

definition advanceTrellis :: "'d fparith \<Rightarrow> 'd shaper \<Rightarrow> 'd shaper option" where
  "advanceTrellis fa sh =
     (if unat (sh_shaperId sh + 1) \<ge> 32 then None
      else do {
        (trial, _, bestAction) \<leftarrow>
          for_loop 0 (2 ^ unat (sh_shaperId sh + 1)) (trellis_step fa sh) (sh_trialLine sh, fp_huge fa, None);
        ba \<leftarrow> bestAction;
        p \<leftarrow> rd_at pow10Table (unat (sh_shaperId sh));
        action \<leftarrow> action_of_digit (of_int ba div p);
        line \<leftarrow> shaper_frame_action sh action (sh_delayLine sh) 0;
        Some (sh\<lparr>sh_trialLine := trial, sh_delayLine := line, sh_state := next_state action\<rparr>)
      })"

definition code_step :: "nat \<Rightarrow> 'd shaper \<Rightarrow> 'd shaper option" where
  "code_step i sh = do {
     x \<leftarrow> rd_at (sh_frameBits sh) i;
     let (y, prev) = (if odd i then serial_encode (sh_oddEncoder sh) x else (x, sh_oddEncoder sh));
     coded \<leftarrow> wr_at (sh_codedBits sh) i y;
     Some (sh\<lparr>sh_codedBits := coded, sh_oddEncoder := prev\<rparr>)
   }"

text \<open>The signs of a block, from its data bits at \<open>bits + boff\<close>.\<close>

definition shaper_signs :: "u8 list \<Rightarrow> nat \<Rightarrow> 'd shaper \<Rightarrow> 'd shaper option" where
  "shaper_signs bits boff sh = do {
     fb \<leftarrow> wr_at (sh_frameBits sh) 0 0;
     fb \<leftarrow> for_loop 0 (unat (sh_blockLength sh - 1)) (\<lambda>i fb. do { v \<leftarrow> rd_at bits (boff + i); wr_at fb (i + 1) v }) fb;
     sh \<leftarrow> for_loop 0 (unat (sh_blockLength sh)) code_step (sh\<lparr>sh_frameBits := fb\<rparr>);
     (pde, sb) \<leftarrow> pdiff_encode (sh_pde sh) (sh_codedBits sh) (sh_signBits sh);
     Some (sh\<lparr>sh_pde := pde, sh_signBits := sb\<rparr>)
   }"

definition line_step :: "'d shaper \<Rightarrow> u16 list \<Rightarrow> nat \<Rightarrow> nat \<Rightarrow> u16 list \<Rightarrow> u16 list option" where
  "line_step sh ins ioff i line = do {
     s \<leftarrow> rd_at (sh_signBits sh) i;
     v \<leftarrow> rd_at ins (ioff + i);
     wr_at line (unat (sh_writeIndex sh + of_nat i)) (if s \<noteq> 0 then v else - v)
   }"

definition shaper_process :: "'d fparith \<Rightarrow> 'd shaper \<Rightarrow> u16 list \<Rightarrow> nat \<Rightarrow> u8 list \<Rightarrow> nat \<Rightarrow> u16 list \<Rightarrow> nat \<Rightarrow>
    ('d shaper \<times> u16 list) option" where
  "shaper_process fa sh ins ioff bits boff out ooff = do {
     sh \<leftarrow> shaper_signs bits boff sh;
     let bl = unat (sh_blockLength sh);
     line \<leftarrow> for_loop 0 bl (line_step sh ins ioff) (sh_delayLine sh);
     let sh = sh\<lparr>sh_delayLine := line, sh_writeIndex := sh_writeIndex sh + sh_blockLength sh\<rparr>;
     sh \<leftarrow> (if sh_primeFrames sh \<noteq> 0 then Some (sh\<lparr>sh_primeFrames := sh_primeFrames sh - 1\<rparr>) else advanceTrellis fa sh);
     out \<leftarrow> for_loop 0 bl (\<lambda>i out. do { v \<leftarrow> rd_at (sh_delayLine sh) i; wr_at out (ooff + i) v }) out;
     f \<leftarrow> ssf_progress fa (sh_ssf sh) (sh_delayLine sh);
     line \<leftarrow> for_loop bl (unat (sh_windowLength sh) - bl)
       (\<lambda>i line. do { v \<leftarrow> rd_at line i; wr_at line (i - bl) v }) (sh_delayLine sh);
     Some (sh\<lparr>sh_ssf := f, sh_delayLine := line, sh_writeIndex := sh_writeIndex sh - sh_blockLength sh\<rparr>, out)
   }"

subsection \<open>The extractor\<close>

record extractor =
  sx_spacing :: u32
  sx_width :: u32
  sx_bits :: "u8 list"
  sx_state :: u32
  sx_oddDecoder :: u8
  sx_decoder :: pdiff

definition extractor_new :: "extractor \<Rightarrow> extractor" where
  "extractor_new raw = raw\<lparr>sx_oddDecoder := 0, sx_decoder := pdiff_new 6, sx_state := 0\<rparr>"

definition extractor_reset :: "u32 \<Rightarrow> u32 \<Rightarrow> extractor \<Rightarrow> extractor option" where
  "extractor_reset spacing st sx = do {
     let w = (if spacing \<noteq> 0 then 6 div spacing else 0);
     (d, _) \<leftarrow> pdiff_reset (sx_decoder sx) w 0;
     Some (sx\<lparr>sx_spacing := spacing, sx_width := w, sx_oddDecoder := 0, sx_decoder := d, sx_state := st\<rparr>)
   }"

text \<open>Cell \<open>j\<close> of a received block under an action.\<close>

definition invert :: "u8 \<Rightarrow> u8" where "invert v = of_bool (v = 0)"

fun undo_cell :: "sign_action \<Rightarrow> nat \<Rightarrow> u8 \<Rightarrow> u8" where
  "undo_cell KEEP_ALL j v = v"
| "undo_cell NEGATE_ALL j v = invert v"
| "undo_cell NEGATE_EVEN j v = (if odd j then v else invert v)"
| "undo_cell NEGATE_ODD j v = (if odd j then invert v else v)"

definition extractor_frame_action :: "extractor \<Rightarrow> sign_action \<Rightarrow> u8 list \<Rightarrow> nat \<Rightarrow> u8 list \<Rightarrow> u8 list option" where
  "extractor_frame_action sx action ins ioff out =
     for_loop 0 (unat (sx_width sx)) (\<lambda>i out. do { v \<leftarrow> rd_at ins (ioff + i); wr_at out i (undo_cell action i v) }) out"

text \<open>The action of a received block and the state after it, from the sign of its first level.\<close>

fun received_action :: "u32 \<Rightarrow> u8 \<Rightarrow> sign_action \<times> u32" where
  "received_action st v =
     (if st = 0 then (if v \<noteq> 0 then (NEGATE_ALL, 1) else (KEEP_ALL, 0))
      else if st = 1 then (if v = 0 then (NEGATE_ODD, 1) else (NEGATE_EVEN, 0))
      else (KEEP_ALL, st))"

definition odd_step :: "nat \<Rightarrow> extractor \<Rightarrow> extractor option" where
  "odd_step i sx = do {
     x \<leftarrow> rd_at (sx_bits sx) i;
     let (y, prev) = (if odd i then serial_decode (sx_oddDecoder sx) x else (x, sx_oddDecoder sx));
     b \<leftarrow> wr_at (sx_bits sx) i y;
     Some (sx\<lparr>sx_bits := b, sx_oddDecoder := prev\<rparr>)
   }"

definition extractor_process :: "extractor \<Rightarrow> u8 list \<Rightarrow> nat \<Rightarrow> u8 list \<Rightarrow> nat \<Rightarrow> (extractor \<times> u8 list) option" where
  "extractor_process sx ins ioff out ooff = do {
     v \<leftarrow> (if sx_state sx = 0 \<or> sx_state sx = 1 then rd_at ins ioff else Some 0);
     let (action, st) = received_action (sx_state sx) v;
     b \<leftarrow> extractor_frame_action sx action ins ioff (sx_bits sx);
     (d, b) \<leftarrow> pdiff_decode (sx_decoder sx) b b;
     sx \<leftarrow> for_loop 0 (unat (sx_width sx)) odd_step (sx\<lparr>sx_state := st, sx_decoder := d, sx_bits := b\<rparr>);
     out \<leftarrow> for_loop 1 (unat (sx_width sx) - 1)
       (\<lambda>i out. do { v \<leftarrow> rd_at (sx_bits sx) i; wr_at out (ooff + (i - 1)) v }) out;
     Some (sx, out)
   }"

end
