(* ===== verification/V90SignsTx.thy ===== *)
theory V90SignsTx
  imports V90Signs
begin

unbundle bit_operations_syntax

text \<open>
  What one block through the shaper does: its signs are a differential code of the data, the line is
  a queue of blocks, and the trellis may only choose among the two actions its state allows.
\<close>

subsection \<open>The sign code\<close>

fun prev_at :: "u8 \<Rightarrow> (nat \<Rightarrow> u8) \<Rightarrow> nat \<Rightarrow> u8" where
  "prev_at p x 0 = p"
| "prev_at p x (Suc k) = (if odd k then prev_at p x k XOR x k else prev_at p x k)"

definition coded :: "u8 \<Rightarrow> (nat \<Rightarrow> u8) \<Rightarrow> nat \<Rightarrow> u8" where
  "coded p x k = (if odd k then prev_at p x (Suc k) else x k)"

definition frame_of :: "u8 list \<Rightarrow> nat \<Rightarrow> u8" where
  "frame_of d k = (0 # d) ! k"

type_synonym sign_memory = "u8 \<times> u8 list"

definition enc_signs :: "nat \<Rightarrow> sign_memory \<Rightarrow> u8 list \<Rightarrow> u8 list" where
  "enc_signs bl m d = map (\<lambda>k. coded (fst m) (frame_of d) k XOR snd m ! k) [0..<bl]"

definition enc_next :: "nat \<Rightarrow> sign_memory \<Rightarrow> u8 list \<Rightarrow> sign_memory" where
  "enc_next bl m d = (prev_at (fst m) (frame_of d) bl, enc_signs bl m d)"

lemma length_enc_signs [simp]: "length (enc_signs bl m d) = bl"
  by (simp add: enc_signs_def)

lemma prev_at_cong: "(\<And>j. j < k \<Longrightarrow> x j = y j) \<Longrightarrow> prev_at p x k = prev_at p y k"
  by (induction k) auto

lemma coded_cong: "(\<And>j. j \<le> k \<Longrightarrow> x j = y j) \<Longrightarrow> coded p x k = coded p y k"
  using prev_at_cong [of "Suc k" x y p] by (auto simp: coded_def)

subsection \<open>A shaper in operation\<close>

definition shaper_core :: "nat \<Rightarrow> nat \<Rightarrow> 'd shaper \<Rightarrow> bool" where
  "shaper_core id' bl sh \<longleftrightarrow>
     id' \<le> 3 \<and> 1 \<le> bl \<and> bl \<le> 6 \<and>
     sh_shaperId sh = of_nat id' \<and> sh_blockLength sh = of_nat bl \<and> sh_windowLength sh = of_nat ((id' + 1) * bl) \<and>
     sh_state sh \<le> 1 \<and> unat (sh_primeFrames sh) \<le> id' \<and>
     length (sh_frameBits sh) = 6 \<and> length (sh_codedBits sh) = 6 \<and> length (sh_signBits sh) = 6 \<and>
     length (sh_delayLine sh) = 24 \<and> length (sh_trialLine sh) = 24 \<and>
     pd_size (sh_pde sh) = of_nat bl \<and> pd_capacity (sh_pde sh) = 6 \<and> length (pd_state (sh_pde sh)) = 6 \<and>
     ss_blockLength (sh_ssf sh) = of_nat bl"

text \<open>Between two blocks the write index stands behind the pending blocks.\<close>

definition shaper_ok :: "nat \<Rightarrow> nat \<Rightarrow> 'd shaper \<Rightarrow> bool" where
  "shaper_ok id' bl sh \<longleftrightarrow> shaper_core id' bl sh \<and> sh_writeIndex sh = of_nat (id' * bl)"

definition enc_memory :: "nat \<Rightarrow> 'd shaper \<Rightarrow> sign_memory" where
  "enc_memory bl sh = (sh_oddEncoder sh, take bl (pd_state (sh_pde sh)))"

definition pending :: "nat \<Rightarrow> nat \<Rightarrow> 'd shaper \<Rightarrow> u16 list" where
  "pending id' bl sh = take (id' * bl) (sh_delayLine sh)"

lemma shaper_nats:
  assumes "shaper_core id' bl sh"
  shows "unat (sh_shaperId sh) = id'" "unat (sh_blockLength sh) = bl" "unat (sh_windowLength sh) = (id' + 1) * bl"
    "unat (sh_blockLength sh - 1) = bl - 1" "unat (sh_shaperId sh + 1) = id' + 1" "(id' + 1) * bl \<le> 24"
    "unat (pd_size (sh_pde sh)) = bl" "unat (ss_blockLength (sh_ssf sh)) = bl"
proof -
  have b: "id' \<le> 3" "1 \<le> bl" "bl \<le> 6" using assms by (auto simp: shaper_core_def)
  have "(id' + 1) * bl \<le> 4 * 6" using b by (intro mult_mono) auto
  then show w: "(id' + 1) * bl \<le> 24" by simp
  have u: "unat (of_nat n :: u32) = n" if "n \<le> 24" for n using that by (simp add: unat_of_nat take_bit_nat_eq_self)
  have "of_nat bl - (1 :: u32) = of_nat (bl - 1)" using b by simp
  moreover have "of_nat id' + (1 :: u32) = of_nat (id' + 1)" by simp
  ultimately show "unat (sh_shaperId sh) = id'" "unat (sh_blockLength sh) = bl" "unat (sh_windowLength sh) = (id' + 1) * bl"
    "unat (sh_blockLength sh - 1) = bl - 1" "unat (sh_shaperId sh + 1) = id' + 1"
    "unat (pd_size (sh_pde sh)) = bl" "unat (ss_blockLength (sh_ssf sh)) = bl"
    using assms b u w by (simp_all add: shaper_core_def del: of_nat_add of_nat_mult of_nat_diff of_nat_Suc)
qed

lemma code_loop:
  assumes "n \<le> length (sh_frameBits sh)" and "n \<le> length (sh_codedBits sh)"
  defines "x \<equiv> \<lambda>k. sh_frameBits sh ! k" and "p \<equiv> sh_oddEncoder sh"
  shows "for_loop 0 n code_step sh =
     Some (sh\<lparr>sh_codedBits := filled 0 n (coded p x) (sh_codedBits sh), sh_oddEncoder := prev_at p x n\<rparr>)"
proof -
  let ?g = "\<lambda>k. sh\<lparr>sh_codedBits := filled 0 k (coded p x) (sh_codedBits sh), sh_oddEncoder := prev_at p x k\<rparr>"
  have "for_loop 0 n code_step sh = Some (?g (0 + n))"
  proof (rule for_loop_eq)
    show "sh = ?g 0" by (simp add: p_def)
    fix k assume "0 \<le> k" "k < 0 + n"
    then show "code_step k (?g k) = Some (?g (Suc k))"
      using assms(1,2) by (simp add: code_step_def mem_simps serial_encode_def coded_def x_def Let_def)
  qed
  then show ?thesis by simp
qed

lemma shaper_signs_run:
  assumes ok: "shaper_core id' bl sh" and d: "boff + (bl - 1) \<le> length bits"
  defines "ds \<equiv> take (bl - 1) (drop boff bits)"
  shows "\<exists>sh'. shaper_signs bits boff sh = Some sh' \<and> shaper_core id' bl sh' \<and>
     sh_delayLine sh' = sh_delayLine sh \<and> sh_state sh' = sh_state sh \<and> sh_primeFrames sh' = sh_primeFrames sh \<and>
     sh_writeIndex sh' = sh_writeIndex sh \<and>
     take bl (sh_signBits sh') = enc_signs bl (enc_memory bl sh) ds \<and>
     enc_memory bl sh' = enc_next bl (enc_memory bl sh) ds \<and> sh_ssf sh' = sh_ssf sh"
proof -
  note n = shaper_nats [OF ok]
  have l: "1 \<le> bl" "bl \<le> 6" "length (sh_frameBits sh) = 6" "length (sh_codedBits sh) = 6" "length (sh_signBits sh) = 6"
    "length (pd_state (sh_pde sh)) = 6" using ok by (auto simp: shaper_core_def)
  let ?f0 = "(sh_frameBits sh)[0 := 0]" and ?h = "\<lambda>k. bits ! (boff + (k - 1))"
  let ?fb = "filled 1 bl ?h ?f0"
  have w0: "wr_at (sh_frameBits sh) 0 0 = Some ?f0" using l by (simp add: wr_at_def)
  have "for_loop 0 (bl - 1) (\<lambda>i fb. do { v \<leftarrow> rd_at bits (boff + i); wr_at fb (i + 1) v }) ?f0 =
      Some ((\<lambda>k. filled 1 (k + 1) ?h ?f0) (0 + (bl - 1)))"
    by (rule for_loop_eq) (use l d in \<open>auto simp: mem_simps\<close>)
  then have fb: "for_loop 0 (bl - 1) (\<lambda>i fb. do { v \<leftarrow> rd_at bits (boff + i); wr_at fb (i + 1) v }) ?f0 = Some ?fb"
    using l by simp
  define s1 where "s1 = sh\<lparr>sh_frameBits := ?fb\<rparr>"
  define p where "p = sh_oddEncoder sh"
  define x where "x = (\<lambda>k. ?fb ! k)"
  define s2 where "s2 = s1\<lparr>sh_codedBits := filled 0 bl (coded p x) (sh_codedBits sh), sh_oddEncoder := prev_at p x bl\<rparr>"
  have cl: "for_loop 0 bl code_step s1 = Some s2"
    using code_loop [of bl s1] l by (simp add: s1_def s2_def p_def x_def)
  have xd: "x k = frame_of ds k" if "k < bl" for k
    using that l d by (cases k) (auto simp: x_def filled_nth frame_of_def ds_def)
  have cx: "coded p x k = coded p (frame_of ds) k" if "k < bl" for k using that by (intro coded_cong xd) simp
  have px: "prev_at p x bl = prev_at p (frame_of ds) bl" by (intro prev_at_cong xd)
  define g where "g = (\<lambda>i. filled 0 bl (coded p x) (sh_codedBits sh) ! i XOR pd_state (sh_pde sh) ! i)"
  have g: "map g [0..<bl] = enc_signs bl (enc_memory bl sh) ds"
    using l by (auto simp: g_def enc_signs_def enc_memory_def filled_nth cx p_def [symmetric])
  define s3 where "s3 = s2\<lparr>sh_pde := (sh_pde sh)\<lparr>pd_state := filled 0 bl g (pd_state (sh_pde sh))\<rparr>,
    sh_signBits := filled 0 bl g (sh_signBits sh)\<rparr>"
  have pe: "pdiff_encode (sh_pde s2) (sh_codedBits s2) (sh_signBits s2) =
     Some ((sh_pde sh)\<lparr>pd_state := filled 0 bl g (pd_state (sh_pde sh))\<rparr>, filled 0 bl g (sh_signBits sh))"
    using pdiff_encode_run [of "sh_pde s2" "sh_codedBits s2" "sh_signBits s2"] l n
    by (simp add: s2_def s1_def g_def)
  have "shaper_signs bits boff sh = Some s3"
    unfolding shaper_signs_def n w0 Option.bind.bind_lunit fb s1_def [symmetric] cl pe s3_def by simp
  moreover have "shaper_core id' bl s3" using ok l by (simp add: shaper_core_def s3_def s2_def s1_def)
  moreover have "take bl (sh_signBits s3) = enc_signs bl (enc_memory bl sh) ds"
    using l g by (simp add: s3_def filled_take)
  moreover have "enc_memory bl s3 = enc_next bl (enc_memory bl sh) ds"
    using l g px by (simp add: enc_memory_def s3_def s2_def filled_take enc_next_def p_def)
  ultimately show ?thesis by (auto simp: s3_def s2_def s1_def)
qed

subsection \<open>The trellis\<close>

definition allowed :: "u32 \<Rightarrow> sign_action set" where
  "allowed st = (if st = 0 then {KEEP_ALL, NEGATE_ALL} else {NEGATE_EVEN, NEGATE_ODD})"

definition entry_ok :: "nat \<Rightarrow> nat \<Rightarrow> nat \<Rightarrow> bool" where
  "entry_ok id' st n =
     (case do { row \<leftarrow> rd_at actionLookupTable (st + 2 * id'); rd_at row n } of
        None \<Rightarrow> False
      | Some e \<Rightarrow> 0 \<le> e \<and> e < 10000 \<and> e div 10 ^ id' \<in> (if st = 0 then {1, 2} else {3, 4}))"

lemma entries_checked:
  "list_all (\<lambda>id'. list_all (\<lambda>st. list_all (entry_ok id' st) [0..<2 ^ (id' + 1)]) [0, 1]) [0, 1, 2, 3]"
  by code_simp

lemma table_entries:
  assumes "id' \<le> 3" and "st \<le> 1" and "n < 2 ^ (id' + 1)"
  shows "\<exists>row e. rd_at actionLookupTable (st + 2 * id') = Some row \<and> rd_at row n = Some e \<and>
     e div 10 ^ id' \<in> (if st = 0 then {1, 2} else {3, 4}) \<and> 0 \<le> e \<and> e < 10000"
proof -
  have "id' \<in> set [0, 1, 2, 3]" "st \<in> set [0, 1]" "n \<in> set [0..<2 ^ (id' + 1)]" using assms by auto
  then have "entry_ok id' st n" using entries_checked unfolding list_all_iff by blast
  then show ?thesis by (auto simp: entry_ok_def split: option.splits Option.bind_splits)
qed

lemma frame_action_run:
  assumes "start + bl \<le> 24" and "length (sh_delayLine sh) = 24" and "length dst = 24" and "sh_blockLength sh = of_nat bl"
  shows "shaper_frame_action sh a dst (of_nat start) =
     Some (filled start (start + bl) (\<lambda>i. act_cell a (i - start) (sh_delayLine sh ! i)) dst)"
proof -
  have u: "unat (of_nat n :: u32) = n" if "n \<le> 24" for n using that by (simp add: unat_of_nat take_bit_nat_eq_self)
  have e: "unat (of_nat start + sh_blockLength sh) = start + bl" "unat (of_nat start :: u32) = start"
    using assms(1) u [of "start + bl"] u [of start] by (simp_all add: assms(4))
  show ?thesis unfolding shaper_frame_action_def e diff_add_inverse
    by (rule for_fill) (use assms in \<open>auto simp: mem_simps\<close>)
qed

lemma applyAction_run:
  assumes ok: "shaper_core id' bl sh" and "length dst = 24"
  shows "\<exists>dst'. applyAction sh a dst = Some dst' \<and> length dst' = 24"
proof -
  note n = shaper_nats [OF ok]
  have l: "length (sh_delayLine sh) = 24" "sh_blockLength sh = of_nat bl" "sh_shaperId sh = of_nat id'"
    using ok by (auto simp: shaper_core_def)
  let ?I = "\<lambda>k s. length (snd s) = (24 :: nat)"
  have "\<exists>s. for_loop 0 (id' + 1) (action_step sh) (a, dst) = Some s \<and> ?I (0 + (id' + 1)) s"
  proof (rule for_loop_inv)
    fix m and s :: "int \<times> u16 list" assume m: "0 \<le> m" "m < 0 + (id' + 1)" and s: "?I m s"
    define start where "start = (sh_shaperId sh - of_nat m) * sh_blockLength sh"
    have st: "start = of_nat ((id' - m) * bl)"
      using m l by (simp add: of_nat_diff start_def)
    have "(id' - m) * bl + bl \<le> (id' + 1) * bl" by (simp add: diff_mult_distrib)
    then have b: "(id' - m) * bl + bl \<le> 24" using n(6) by linarith
    have f: "\<exists>d. shaper_frame_action sh act (snd s) start = Some d \<and> length d = 24" for act
      using frame_action_run [OF b l(1) s l(2), of act] s b unfolding st by simp
    show "\<exists>s'. action_step sh m s = Some s' \<and> ?I (Suc m) s'"
      using s f [of KEEP_ALL] f [of NEGATE_ALL] f [of NEGATE_EVEN] f [of NEGATE_ODD]
      unfolding action_step_def Let_def start_def [symmetric] by (cases s) auto
  qed (use assms in simp)
  then show ?thesis unfolding applyAction_def n by (auto simp del: for_loop.simps)
qed

text \<open>In the state \<open>f\<close> of the filter every metric the trellis can compute, over a line of 24 samples, is below
  the value its search starts from. A set of states with that property that progress does not leave.\<close>

definition metrics_below :: "'d fparith \<Rightarrow> 'd shaping_filter \<Rightarrow> bool" where
  "metrics_below fa f \<longleftrightarrow>
     (\<forall>xs blocks m. length xs = 24 \<longrightarrow> getMetric fa f xs blocks = Some m \<longrightarrow> fp_less fa m (fp_huge fa))"

definition safe_filters :: "'d fparith \<Rightarrow> 'd shaping_filter set \<Rightarrow> bool" where
  "safe_filters fa F \<longleftrightarrow> (\<forall>f \<in> F. metrics_below fa f \<and>
     (\<forall>xs f'. length xs = 24 \<longrightarrow> ssf_progress fa f xs = Some f' \<longrightarrow> f' \<in> F))"

text \<open>The states a filter reaches from \<open>f0\<close>, line by line, and the assumption on them: the energies the
  filter sums are below the \<open>1e38\<close> of the search.\<close>

inductive_set filter_states :: "'d fparith \<Rightarrow> 'd shaping_filter \<Rightarrow> 'd shaping_filter set"
  for fa :: "'d fparith" and f0 :: "'d shaping_filter" where
  filter_start: "f0 \<in> filter_states fa f0"
| filter_line: "f \<in> filter_states fa f0 \<Longrightarrow> length xs = 24 \<Longrightarrow> ssf_progress fa f xs = Some f' \<Longrightarrow> f' \<in> filter_states fa f0"

definition bounded_metrics :: "'d fparith \<Rightarrow> 'd shaping_filter \<Rightarrow> bool" where
  "bounded_metrics fa f0 \<longleftrightarrow> (\<forall>f \<in> filter_states fa f0. metrics_below fa f)"

lemma bounded_safe: "bounded_metrics fa f0 \<Longrightarrow> safe_filters fa (filter_states fa f0)"
  unfolding bounded_metrics_def safe_filters_def by (blast intro: filter_line)

lemma getMetric_run:
  assumes ok: "shaper_core id' bl sh" and "length trial = 24"
  shows "\<exists>m. getMetric fa (sh_ssf sh) trial (sh_shaperId sh + 1) = Some m"
proof -
  note n = shaper_nats [OF ok]
  have "\<exists>s. for_loop 0 ((id' + 1) * bl) (ssf_sample fa (ss_coeff (sh_ssf sh)) trial) (ss_state (sh_ssf sh)) = Some s \<and> True"
  proof (rule for_loop_inv)
    fix k and s :: "'a \<times> 'a \<times> 'a \<times> 'a" assume "0 \<le> k" "k < 0 + (id' + 1) * bl"
    then show "\<exists>s'. ssf_sample fa (ss_coeff (sh_ssf sh)) trial k s = Some s' \<and> True"
      using n(6) assms(2) by (cases s; cases "ss_coeff (sh_ssf sh)") (simp add: ssf_sample_def mem_simps Let_def)
  qed simp
  then show ?thesis unfolding getMetric_def n by (auto simp del: for_loop.simps)
qed

lemma trellis_entry_run:
  assumes ok: "shaper_core id' bl sh" and n: "n < 2 ^ (id' + 1)"
  shows "\<exists>e. trellis_entry sh n = Some e \<and> e div 10 ^ id' \<in> (if sh_state sh = 0 then {1, 2} else {3, 4}) \<and> 0 \<le> e \<and> e < 10000"
proof -
  have l: "id' \<le> 3" "sh_state sh \<le> 1" "sh_shaperId sh = of_nat id'" using ok by (auto simp: shaper_core_def)
  have st: "unat (sh_state sh) \<le> 1" using l(2) by (simp add: word_le_nat_alt)
  have "sh_state sh + 2 * sh_shaperId sh = of_nat (unat (sh_state sh) + 2 * id')" using l by simp
  then have "unat (sh_state sh + 2 * sh_shaperId sh) = unat (sh_state sh) + 2 * id'"
    using l st by (simp add: unat_of_nat take_bit_nat_eq_self del: of_nat_add of_nat_mult)
  moreover have "unat (sh_state sh) = 0 \<longleftrightarrow> sh_state sh = 0" by (simp add: unat_eq_0)
  ultimately show ?thesis
    using table_entries [OF l(1) st n] by (auto simp: trellis_entry_def)
qed

lemma trellis_step_run:
  assumes ok: "shaper_core id' bl sh" and n: "n < 2 ^ (id' + 1)" and t: "length t = 24"
  shows "\<exists>t' m e. length t' = 24 \<and> trellis_entry sh n = Some e \<and>
     getMetric fa (sh_ssf sh) t' (sh_shaperId sh + 1) = Some m \<and> trellis_step fa sh n (t, best, ba) =
       Some (if fp_less fa m best then (t', fp_single fa m, Some e) else (t', best, ba))"
proof -
  note n' = shaper_nats [OF ok]
  have l: "length (sh_delayLine sh) = 24" using ok by (auto simp: shaper_core_def)
  have "\<exists>t'. for_loop 0 ((id' + 1) * bl) (\<lambda>i t. do { v \<leftarrow> rd_at (sh_delayLine sh) i; wr_at t i v }) t = Some t' \<and> length t' = 24"
    using for_fill [of 0 "(id' + 1) * bl" t _ "\<lambda>i. sh_delayLine sh ! i"] n'(6) t l
    by (simp add: mem_simps)
  then obtain t1 where t1: "for_loop 0 ((id' + 1) * bl) (\<lambda>i t. do { v \<leftarrow> rd_at (sh_delayLine sh) i; wr_at t i v }) t = Some t1"
    "length t1 = 24" by blast
  obtain e where e: "trellis_entry sh n = Some e" using trellis_entry_run [OF ok n] by blast
  obtain t2 where t2: "applyAction sh e t1 = Some t2" "length t2 = 24" using applyAction_run [OF ok t1(2)] by blast
  obtain m where m: "getMetric fa (sh_ssf sh) t2 (sh_shaperId sh + 1) = Some m" using getMetric_run [OF ok t2(2)] by blast
  have "trellis_step fa sh n (t, best, ba) = Some (if fp_less fa m best then (t2, fp_single fa m, Some e) else (t2, best, ba))"
    unfolding trellis_step_def split_conv n' t1 Option.bind.bind_lunit e t2 m ..
  then show ?thesis using t2(2) e m by blast
qed

lemma advance_run:
  assumes ok: "shaper_core id' bl sh" and bm: "metrics_below fa (sh_ssf sh)"
  shows "\<exists>a trial. advanceTrellis fa sh = Some (sh\<lparr>sh_trialLine := trial,
       sh_delayLine := filled 0 bl (\<lambda>i. act_cell a i (sh_delayLine sh ! i)) (sh_delayLine sh), sh_state := next_state a\<rparr>) \<and>
     a \<in> allowed (sh_state sh) \<and> length trial = 24"
proof -
  note n = shaper_nats [OF ok]
  have l: "id' \<le> 3" "length (sh_delayLine sh) = 24" "length (sh_trialLine sh) = 24" "sh_blockLength sh = of_nat bl" "bl \<le> 6"
    using ok by (auto simp: shaper_core_def)
  let ?good = "\<lambda>e. e div 10 ^ id' \<in> (if sh_state sh = 0 then {1, 2} else {3, 4}) \<and> 0 \<le> e \<and> e < (10000 :: int)"
  let ?I = "\<lambda>(k :: nat) s. length (fst s) = (24 :: nat) \<and> (k = 0 \<longrightarrow> fst (snd s) = fp_huge fa) \<and>
    (0 < k \<longrightarrow> (\<exists>e. snd (snd s) = Some e \<and> ?good e))"
  have "\<exists>s. for_loop 0 (2 ^ (id' + 1)) (trellis_step fa sh) (sh_trialLine sh, fp_huge fa, None) = Some s \<and> ?I (0 + 2 ^ (id' + 1)) s"
  proof (rule for_loop_inv)
    fix k :: nat and s :: "u16 list \<times> 'a \<times> int option" assume k: "0 \<le> k" "k < 0 + 2 ^ (id' + 1)" and I: "?I k s"
    obtain t b ba where s: "s = (t, b, ba)" by (cases s)
    obtain t' m e where r: "length t' = 24" "trellis_entry sh k = Some e"
      "getMetric fa (sh_ssf sh) t' (sh_shaperId sh + 1) = Some m" "trellis_step fa sh k (t, b, ba) = Some (if fp_less fa m b then (t', fp_single fa m, Some e) else (t', b, ba))"
      using trellis_step_run [OF ok _ , of k t fa b ba] k I s by auto
    have "?good e" using trellis_entry_run [OF ok, of k] k r(2) by auto
    moreover have "fp_less fa m (fp_huge fa)" using bm r(1,3) unfolding metrics_below_def by blast
    ultimately show "\<exists>s'. trellis_step fa sh k s = Some s' \<and> ?I (Suc k) s'"
      using r(1,4) I by (cases "k = 0") (auto simp: s)
  qed (use l in simp)
  then obtain t b e where loop: "for_loop 0 (2 ^ (id' + 1)) (trellis_step fa sh) (sh_trialLine sh, fp_huge fa, None) = Some (t, b, Some e)"
    and t: "length t = 24" and e: "?good e" by auto
  have p: "rd_at pow10Table id' = Some (10 ^ id')"
  proof -
    have "id' \<in> {0, 1, 2, 3}" using l(1) by auto
    then show ?thesis by (auto simp: rd_at_def pow10Table_def)
  qed
  have dg: "(of_int e :: u32) div 10 ^ id' = of_int (e div 10 ^ id')"
  proof -
    have "id' \<in> {0, 1, 2, 3}" using l(1) by auto
    then have "uint (10 ^ id' :: u32) = 10 ^ id'" by auto
    moreover have "uint (of_int e :: u32) = e" using e by (intro word_of_int_inverse) auto
    ultimately show ?thesis by (simp add: word_div_def)
  qed
  obtain a where a: "action_of_digit (of_int e div 10 ^ id') = Some a" "a \<in> allowed (sh_state sh)"
    using e unfolding dg by (cases "sh_state sh = 0") (auto simp: allowed_def)
  have f: "shaper_frame_action sh a (sh_delayLine sh) 0 = Some (filled 0 bl (\<lambda>i. act_cell a i (sh_delayLine sh ! i)) (sh_delayLine sh))"
    using frame_action_run [of 0 bl sh "sh_delayLine sh" a] l by simp
  have "\<not> 32 \<le> id' + 1" using l(1) by simp
  then show ?thesis
    unfolding advanceTrellis_def n using loop p a f t by (auto simp del: for_loop.simps action_of_digit.simps)
qed

subsection \<open>One block\<close>

definition signed_block :: "u8 list \<Rightarrow> u16 list \<Rightarrow> u16 list" where
  "signed_block ss ls = map2 (\<lambda>s v. if s \<noteq> 0 then v else - v) ss ls"

lemma length_signed_block [simp]: "length (signed_block ss ls) = min (length ss) (length ls)"
  by (simp add: signed_block_def)

lemma shaper_line:
  assumes "shaper_ok id' bl sh" and "ioff + bl \<le> length ins"
  shows "for_loop 0 bl (line_step sh ins ioff) (sh_delayLine sh) = Some (filled (id' * bl) (id' * bl + bl)
     (\<lambda>k. signed_block (take bl (sh_signBits sh)) (take bl (drop ioff ins)) ! (k - id' * bl)) (sh_delayLine sh))"
proof -
  have ok: "shaper_core id' bl sh" using assms(1) by (simp add: shaper_ok_def)
  note n = shaper_nats [OF ok]
  have l: "bl \<le> 6" "length (sh_delayLine sh) = 24" "length (sh_signBits sh) = 6" "sh_writeIndex sh = of_nat (id' * bl)"
    using assms(1) ok by (auto simp: shaper_core_def shaper_ok_def)
  have w: "unat (sh_writeIndex sh + of_nat k) = id' * bl + k" if "k < bl" for k
  proof -
    have "sh_writeIndex sh + of_nat k = of_nat (id' * bl + k)" by (simp add: l(4))
    moreover have "id' * bl + k < 24" using that n(6) by (simp add: add_mult_distrib)
    ultimately show ?thesis by (simp add: unat_of_nat take_bit_nat_eq_self del: of_nat_add of_nat_mult)
  qed
  let ?B = "signed_block (take bl (sh_signBits sh)) (take bl (drop ioff ins))"
  have "for_loop 0 bl (line_step sh ins ioff) (sh_delayLine sh) =
     Some ((\<lambda>k. filled (id' * bl) (id' * bl + k) (\<lambda>k. ?B ! (k - id' * bl)) (sh_delayLine sh)) (0 + bl))"
  proof (rule for_loop_eq)
    fix k assume k: "0 \<le> k" "k < 0 + bl"
    then have b: "id' * bl + k < 24" using n(6) by (simp add: add_mult_distrib)
    have B: "?B ! k = (if sh_signBits sh ! k \<noteq> 0 then ins ! (ioff + k) else - (ins ! (ioff + k)))"
      using k l assms(2) by (simp add: signed_block_def)
    show "line_step sh ins ioff k (filled (id' * bl) (id' * bl + k) (\<lambda>k. ?B ! (k - id' * bl)) (sh_delayLine sh)) =
       Some (filled (id' * bl) (id' * bl + Suc k) (\<lambda>k. ?B ! (k - id' * bl)) (sh_delayLine sh))"
      using k l assms(2) b w [of k] B by (simp add: line_step_def mem_simps)
  qed simp
  then show ?thesis by simp
qed

lemma shift_line:
  assumes "bl \<le> n" and "n \<le> length line"
  shows "for_loop bl (n - bl) (\<lambda>i line. do { v \<leftarrow> rd_at line i; wr_at line (i - bl) v }) line =
     Some (filled 0 (n - bl) (\<lambda>j. line ! (j + bl)) line)"
proof -
  have "for_loop bl (n - bl) (\<lambda>i line. do { v \<leftarrow> rd_at line i; wr_at line (i - bl) v }) line =
     Some ((\<lambda>k. filled 0 (k - bl) (\<lambda>j. line ! (j + bl)) line) (bl + (n - bl)))"
    by (rule for_loop_eq) (use assms in \<open>auto simp: mem_simps Suc_diff_le\<close>)
  then show ?thesis using assms by simp
qed

lemma ssf_progress_run:
  assumes "unat (ss_blockLength f) \<le> length xs"
  shows "\<exists>f'. ssf_progress fa f xs = Some f' \<and> ss_blockLength f' = ss_blockLength f"
proof -
  have "\<exists>s. for_loop 0 (unat (ss_blockLength f)) (ssf_sample fa (ss_coeff f) xs) (ss_state f) = Some s \<and> True"
  proof (rule for_loop_inv)
    fix k :: nat and s :: "'a \<times> 'a \<times> 'a \<times> 'a" assume "0 \<le> k" "k < 0 + unat (ss_blockLength f)"
    then show "\<exists>s'. ssf_sample fa (ss_coeff f) xs k s = Some s' \<and> True"
      using assms by (cases s; cases "ss_coeff f") (simp add: ssf_sample_def mem_simps Let_def)
  qed simp
  then show ?thesis unfolding ssf_progress_def by auto
qed

lemma copy_out:
  assumes "n \<le> length line" and "ooff + n \<le> length out"
  shows "for_loop 0 n (\<lambda>i out. do { v \<leftarrow> rd_at line i; wr_at out (ooff + i) v }) out =
     Some (filled ooff (ooff + n) (\<lambda>k. line ! (k - ooff)) out)"
proof -
  have "for_loop 0 n (\<lambda>i out. do { v \<leftarrow> rd_at line i; wr_at out (ooff + i) v }) out =
     Some ((\<lambda>k. filled ooff (ooff + k) (\<lambda>k. line ! (k - ooff)) out) (0 + n))"
    by (rule for_loop_eq) (use assms in \<open>auto simp: mem_simps\<close>)
  then show ?thesis by simp
qed

text \<open>The decision: nothing while the line is primed, then one trellis step.\<close>

definition decide :: "'d fparith \<Rightarrow> 'd shaper \<Rightarrow> 'd shaper option" where
  "decide fa sh = (if sh_primeFrames sh \<noteq> 0 then Some (sh\<lparr>sh_primeFrames := sh_primeFrames sh - 1\<rparr>) else advanceTrellis fa sh)"

definition decision :: "'d shaper \<Rightarrow> sign_action \<Rightarrow> 'd shaper \<Rightarrow> bool" where
  "decision sh a sh' \<longleftrightarrow>
     (if sh_primeFrames sh \<noteq> 0 then a = KEEP_ALL \<and> sh_state sh' = sh_state sh \<and> sh_primeFrames sh' = sh_primeFrames sh - 1
      else a \<in> allowed (sh_state sh) \<and> sh_state sh' = next_state a \<and> sh_primeFrames sh' = 0)"

lemma next_state_le: "next_state a \<le> 1"
  by (cases a) simp_all

lemma decide_run:
  assumes ok: "shaper_core id' bl sh" and bm: "metrics_below fa (sh_ssf sh)"
  shows "\<exists>a sh'. decide fa sh = Some sh' \<and> shaper_core id' bl sh' \<and> sh_ssf sh' = sh_ssf sh \<and> sh_writeIndex sh' = sh_writeIndex sh \<and> decision sh a sh' \<and> enc_memory bl sh' = enc_memory bl sh \<and>
     sh_delayLine sh' = filled 0 bl (\<lambda>i. act_cell a i (sh_delayLine sh ! i)) (sh_delayLine sh)"
proof (cases "sh_primeFrames sh = 0")
  case True
  obtain a trial where "advanceTrellis fa sh = Some (sh\<lparr>sh_trialLine := trial,
       sh_delayLine := filled 0 bl (\<lambda>i. act_cell a i (sh_delayLine sh ! i)) (sh_delayLine sh), sh_state := next_state a\<rparr>)"
     "a \<in> allowed (sh_state sh)" "length trial = 24" using advance_run [OF ok bm] by blast
  moreover have "bl \<le> 24" using ok by (simp add: shaper_core_def)
  ultimately show ?thesis using True ok
    by (auto simp: decide_def decision_def shaper_core_def enc_memory_def next_state_le intro!: exI [of _ a])
next
  case False
  have "unat (sh_primeFrames sh - 1) \<le> unat (sh_primeFrames sh)" using False by (simp add: unat_minus_one)
  moreover have "filled 0 bl (\<lambda>i. act_cell KEEP_ALL i (sh_delayLine sh ! i)) (sh_delayLine sh) = sh_delayLine sh"
    using ok by (intro nth_equalityI) (simp_all add: shaper_core_def filled_nth)
  ultimately show ?thesis using False ok
    by (auto simp: decide_def decision_def shaper_core_def enc_memory_def intro!: exI [of _ KEEP_ALL])
qed

lemma shaper_process_run:
  assumes ok: "shaper_ok id' bl sh" and bm: "metrics_below fa (sh_ssf sh)"
    and len: "boff + (bl - 1) \<le> length bits" "ioff + bl \<le> length ins" "ooff + bl \<le> length out"
  defines "ds \<equiv> take (bl - 1) (drop boff bits)"
  defines "W \<equiv> pending id' bl sh @ signed_block (enc_signs bl (enc_memory bl sh) ds) (take bl (drop ioff ins))"
  shows "\<exists>sh' a. shaper_process fa sh ins ioff bits boff out ooff =
       Some (sh', filled ooff (ooff + bl) (\<lambda>k. act_cell a (k - ooff) (W ! (k - ooff))) out) \<and>
     shaper_ok id' bl sh' \<and> decision sh a sh' \<and> enc_memory bl sh' = enc_next bl (enc_memory bl sh) ds \<and>
     pending id' bl sh' = drop bl W \<and> (\<exists>xs. length xs = 24 \<and> ssf_progress fa (sh_ssf sh) xs = Some (sh_ssf sh'))"
proof -
  have core: "shaper_core id' bl sh" and wi: "sh_writeIndex sh = of_nat (id' * bl)" using ok by (auto simp: shaper_ok_def)
  obtain s1 where s1: "shaper_signs bits boff sh = Some s1" "shaper_core id' bl s1" "sh_delayLine s1 = sh_delayLine sh"
    "sh_state s1 = sh_state sh" "sh_primeFrames s1 = sh_primeFrames sh" "sh_writeIndex s1 = sh_writeIndex sh"
    "take bl (sh_signBits s1) = enc_signs bl (enc_memory bl sh) ds" "enc_memory bl s1 = enc_next bl (enc_memory bl sh) ds"
    "sh_ssf s1 = sh_ssf sh"
    using shaper_signs_run [OF core len(1)] unfolding ds_def by blast
  note n = shaper_nats [OF s1(2)]
  have wide: "id' * bl + bl \<le> 24" "1 \<le> bl" using n(6) s1(2) by (simp_all add: shaper_core_def)
  have dl: "length (sh_delayLine s1) = 24" using s1(2) by (simp add: shaper_core_def)
  let ?B = "signed_block (enc_signs bl (enc_memory bl sh) ds) (take bl (drop ioff ins))"
  let ?l1 = "filled (id' * bl) (id' * bl + bl) (\<lambda>k. ?B ! (k - id' * bl)) (sh_delayLine s1)"
  have l1: "for_loop 0 bl (line_step s1 ins ioff) (sh_delayLine s1) = Some ?l1"
    using shaper_line [of id' bl s1 ioff ins] s1(2,6) wi len(2) by (simp add: s1(7) shaper_ok_def)
  have lW: "length W = id' * bl + bl" using core len(2) wide by (simp add: W_def pending_def shaper_core_def)
  have Wl1: "?l1 ! k = W ! k" if "k < id' * bl + bl" for k
    using that dl wide core len(2) by (auto simp: filled_nth W_def nth_append pending_def s1(3) shaper_core_def)
  define s2 where "s2 = s1\<lparr>sh_delayLine := ?l1, sh_writeIndex := sh_writeIndex s1 + sh_blockLength s1\<rparr>"
  have c2: "shaper_core id' bl s2" using s1(2) dl wide by (simp add: shaper_core_def s2_def)
  have ssf: "sh_ssf s2 = sh_ssf sh" using s1(9) by (simp add: s2_def)
  from decide_run [OF c2, of fa] bm obtain a s3 where d: "decide fa s2 = Some s3" "shaper_core id' bl s3" "decision s2 a s3"
    "enc_memory bl s3 = enc_memory bl s2" "sh_writeIndex s3 = sh_writeIndex s2"
    "sh_delayLine s3 = filled 0 bl (\<lambda>i. act_cell a i (?l1 ! i)) ?l1" "sh_ssf s3 = sh_ssf sh"
    unfolding ssf unfolding s2_def by auto
  let ?l3 = "filled 0 bl (\<lambda>i. act_cell a i (?l1 ! i)) ?l1"
  have l3: "length ?l3 = 24" using dl wide by simp
  note n3 = shaper_nats [OF d(2)]
  obtain f where f: "ssf_progress fa (sh_ssf s3) ?l3 = Some f" "ss_blockLength f = of_nat bl"
    using ssf_progress_run [of "sh_ssf s3" ?l3 fa] n3(8) l3 wide d(2) by (auto simp: shaper_core_def)
  let ?out = "filled ooff (ooff + bl) (\<lambda>k. act_cell a (k - ooff) (W ! (k - ooff))) out"
  have o1: "filled ooff (ooff + bl) (\<lambda>k. ?l3 ! (k - ooff)) out = ?out"
  proof (rule filled_cong)
    fix k assume "ooff \<le> k" "k < ooff + bl"
    then have k: "k - ooff < bl" by linarith
    then show "?l3 ! (k - ooff) = act_cell a (k - ooff) (W ! (k - ooff))"
      using Wl1 [of "k - ooff"] dl wide by (simp add: filled_nth [of 0 bl])
  qed
  have o2: "for_loop 0 bl (\<lambda>i out. do { v \<leftarrow> rd_at ?l3 i; wr_at out (ooff + i) v }) out = Some ?out"
    using copy_out [of bl ?l3 ooff out] l3 wide len(3) unfolding o1 by simp
  let ?l4 = "filled 0 (id' * bl) (\<lambda>j. ?l3 ! (j + bl)) ?l3"
  have sft: "for_loop bl ((id' + 1) * bl - bl) (\<lambda>i line. do { v \<leftarrow> rd_at line i; wr_at line (i - bl) v }) ?l3 = Some ?l4"
    using shift_line [of bl "(id' + 1) * bl" ?l3] l3 wide by simp
  define s4 where "s4 = s3\<lparr>sh_ssf := f, sh_delayLine := ?l4, sh_writeIndex := sh_writeIndex s3 - sh_blockLength s3\<rparr>"
  have run: "shaper_process fa sh ins ioff bits boff out ooff = Some (s4, ?out)"
    unfolding shaper_process_def s1(1) Option.bind.bind_lunit Let_def n(2) l1 s2_def [symmetric] decide_def [symmetric]
      d(1,6) o2 f(1) n3(3) sft s4_def by simp
  have "shaper_ok id' bl s4"
    using d(2,5) f(2) l3 wide wi s1(2,6) by (auto simp: shaper_ok_def shaper_core_def s4_def s2_def)
  moreover have "decision sh a s4" using d(3) s1(4,5) by (auto simp: decision_def s4_def s2_def split: if_splits)
  moreover have "enc_memory bl s4 = enc_next bl (enc_memory bl sh) ds"
    using d(4) s1(8) by (simp add: enc_memory_def s4_def s2_def)
  moreover have "pending id' bl s4 = drop bl W"
  proof -
    have "pending id' bl s4 = map (\<lambda>j. ?l3 ! (j + bl)) [0..<id' * bl]"
      using l3 wide by (simp add: pending_def s4_def filled_take)
    also have "\<dots> = drop bl W"
      using lW l3 wide dl Wl1 by (intro nth_equalityI) (simp_all add: add.commute)
    finally show ?thesis .
  qed
  moreover have "ssf_progress fa (sh_ssf sh) ?l3 = Some (sh_ssf s4)" using f(1) d(7) by (simp add: s4_def)
  ultimately show ?thesis using run l3 by blast
qed

end
