(* ===== verification/V90SignsRx.thy ===== *)
theory V90SignsRx
  imports V90SignsTx
begin

unbundle bit_operations_syntax

text \<open>
  The extractor undoes the action the shaper chose and the differential code: from the signs of a
  block it returns the data of that block, whatever the trellis decided.
\<close>

definition is_bit :: "u8 \<Rightarrow> bool" where
  "is_bit b \<longleftrightarrow> b = 0 \<or> b = 1"

lemma is_bit_xor: "is_bit a \<Longrightarrow> is_bit b \<Longrightarrow> is_bit (a XOR b)"
  by (auto simp: is_bit_def)

lemma is_bit_invert [simp]: "is_bit (invert v)"
  by (simp add: is_bit_def invert_def)

lemma invert_invert: "is_bit v \<Longrightarrow> invert (invert v) = v"
  by (auto simp: is_bit_def invert_def)

lemma undo_undo: "is_bit v \<Longrightarrow> undo_cell a j (undo_cell a j v) = v"
  by (cases a) (simp_all add: invert_invert)

text \<open>A memory of bits whose first position was never anything but 0.\<close>

definition memory_ok :: "nat \<Rightarrow> sign_memory \<Rightarrow> bool" where
  "memory_ok bl m \<longleftrightarrow> is_bit (fst m) \<and> length (snd m) = bl \<and> (\<forall>s \<in> set (snd m). is_bit s) \<and> snd m ! 0 = 0"

lemma frame_bit: "\<forall>b \<in> set d. is_bit b \<Longrightarrow> k \<le> length d \<Longrightarrow> is_bit (frame_of d k)"
  by (cases k) (auto simp: frame_of_def is_bit_def)

lemma prev_bit: "is_bit p \<Longrightarrow> (\<And>j. j < k \<Longrightarrow> is_bit (x j)) \<Longrightarrow> is_bit (prev_at p x k)"
  by (induction k) (auto intro: is_bit_xor)

lemma enc_next_ok:
  assumes m: "memory_ok bl m" and d: "\<forall>b \<in> set d. is_bit b" "length d = bl - 1" and "1 \<le> bl"
  shows "memory_ok bl (enc_next bl m d)"
proof -
  have x: "is_bit (frame_of d k)" if "k < bl" for k using frame_bit [OF d(1), of k] that d(2) by simp
  have p: "is_bit (prev_at (fst m) (frame_of d) k)" if "k \<le> bl" for k
    using m that x by (intro prev_bit) (auto simp: memory_ok_def)
  have "is_bit (coded (fst m) (frame_of d) k)" if "k < bl" for k
    using x [OF that] p [of "Suc k"] that by (auto simp: coded_def simp del: prev_at.simps)
  then have "is_bit (coded (fst m) (frame_of d) k XOR snd m ! k)" if "k < bl" for k
    using m that by (intro is_bit_xor) (auto simp: memory_ok_def)
  moreover have "coded (fst m) (frame_of d) 0 XOR snd m ! 0 = 0"
    using m by (simp add: coded_def frame_of_def memory_ok_def)
  ultimately show ?thesis using p [of bl] assms(4)
    by (auto simp: memory_ok_def enc_next_def enc_signs_def)
qed

subsection \<open>The extractor in operation\<close>

definition extractor_ok :: "nat \<Rightarrow> extractor \<Rightarrow> bool" where
  "extractor_ok bl sx \<longleftrightarrow> 1 \<le> bl \<and> bl \<le> 6 \<and> sx_width sx = of_nat bl \<and> length (sx_bits sx) = 6 \<and> sx_state sx \<le> 1 \<and>
     pd_size (sx_decoder sx) = of_nat bl \<and> pd_capacity (sx_decoder sx) = 6 \<and> length (pd_state (sx_decoder sx)) = 6"

definition dec_memory :: "nat \<Rightarrow> extractor \<Rightarrow> sign_memory" where
  "dec_memory bl sx = (sx_oddDecoder sx, take bl (pd_state (sx_decoder sx)))"

lemma extractor_nats:
  assumes "extractor_ok bl sx"
  shows "unat (sx_width sx) = bl" "unat (pd_size (sx_decoder sx)) = bl"
  using assms by (simp_all add: extractor_ok_def unat_of_nat take_bit_nat_eq_self)

text \<open>The decoder's loop over a block that holds the code of \<open>x\<close>.\<close>

lemma odd_loop:
  assumes "n \<le> length (sx_bits sx)" and c: "\<And>k. k < n \<Longrightarrow> sx_bits sx ! k = coded (sx_oddDecoder sx) x k"
  defines "p \<equiv> sx_oddDecoder sx"
  shows "for_loop 0 n odd_step sx = Some (sx\<lparr>sx_bits := filled 0 n x (sx_bits sx), sx_oddDecoder := prev_at p x n\<rparr>)"
proof -
  let ?g = "\<lambda>k. sx\<lparr>sx_bits := filled 0 k x (sx_bits sx), sx_oddDecoder := prev_at p x k\<rparr>"
  have "for_loop 0 n odd_step sx = Some (?g (0 + n))"
  proof (rule for_loop_eq)
    show "sx = ?g 0" by (simp add: p_def)
    fix k assume k: "0 \<le> k" "k < 0 + n"
    have x: "prev_at p x k XOR (prev_at p x k XOR x k) = x k" by (simp add: xor.assoc [symmetric])
    show "odd_step k (?g k) = Some (?g (Suc k))"
      using k assms(1) c [of k] x by (auto simp: odd_step_def mem_simps serial_decode_def Let_def coded_def p_def [symmetric])
  qed
  then show ?thesis by simp
qed

lemma u32_bit: "(st :: u32) \<le> 1 \<Longrightarrow> st = 0 \<or> st = 1"
proof -
  assume "st \<le> 1"
  then have "unat st = 0 \<or> unat st = 1" by (auto simp: word_le_nat_alt)
  then show ?thesis by (simp add: word_unat_eq_iff)
qed

lemma received_action_inverts:
  assumes "a \<in> allowed st" and "st \<le> 1"
  shows "received_action st (undo_cell a 0 0) = (a, next_state a)"
proof -
  have "st = 0 \<or> st = 1" using assms(2) by (rule u32_bit)
  then show ?thesis using assms(1) by (auto simp: allowed_def invert_def)
qed

lemma extractor_process_run:
  assumes ok: "extractor_ok bl sx" and m: "memory_ok bl (dec_memory bl sx)"
    and d: "\<forall>b \<in> set d. is_bit b" "length d = bl - 1" and a: "a \<in> allowed (sx_state sx)"
    and r: "ioff + bl \<le> length ins" "\<And>k. k < bl \<Longrightarrow> ins ! (ioff + k) = undo_cell a k (enc_signs bl (dec_memory bl sx) d ! k)"
    and out: "ooff + (bl - 1) \<le> length out"
  shows "\<exists>sx'. extractor_process sx ins ioff out ooff = Some (sx', filled ooff (ooff + (bl - 1)) (\<lambda>k. d ! (k - ooff)) out) \<and>
     extractor_ok bl sx' \<and> dec_memory bl sx' = enc_next bl (dec_memory bl sx) d \<and> sx_state sx' = next_state a"
proof -
  note n = extractor_nats [OF ok]
  have l: "1 \<le> bl" "bl \<le> 6" "length (sx_bits sx) = 6" "length (pd_state (sx_decoder sx)) = 6" "sx_state sx \<le> 1"
    using ok by (auto simp: extractor_ok_def)
  define S where "S = enc_signs bl (dec_memory bl sx) d"
  have lS: "length S = bl" by (simp add: S_def)
  have mo: "memory_ok bl (enc_next bl (dec_memory bl sx) d)" using enc_next_ok [OF m d l(1)] .
  have Sb: "is_bit (S ! k)" if "k < bl" for k using mo that lS by (auto simp: memory_ok_def enc_next_def S_def)
  have S0: "S ! 0 = 0" using mo by (simp add: memory_ok_def enc_next_def S_def)
  have st: "sx_state sx = 0 \<or> sx_state sx = 1"
    using l(5) by (rule u32_bit)
  have r0: "rd_at ins ioff = Some (undo_cell a 0 0)" using r(1) r(2) [of 0] l(1) S0 by (simp add: rd_at_def S_def)
  note ra = received_action_inverts [OF a l(5)]
  let ?b = "filled 0 bl (\<lambda>k. S ! k) (sx_bits sx)"
  have fa: "extractor_frame_action sx a ins ioff (sx_bits sx) = Some ?b"
  proof -
    have "for_loop 0 bl (\<lambda>i out. do { v \<leftarrow> rd_at ins (ioff + i); wr_at out i (undo_cell a i v) }) (sx_bits sx) =
       Some (filled 0 (0 + bl) (\<lambda>k. S ! k) (sx_bits sx))"
      by (rule for_fill) (use l r Sb in \<open>auto simp: mem_simps S_def undo_undo\<close>)
    then show ?thesis by (simp add: extractor_frame_action_def n)
  qed
  define p where "p = sx_oddDecoder sx"
  define x where "x = frame_of d"
  let ?c = "filled 0 bl (\<lambda>k. coded p x k) (sx_bits sx)"
  let ?d = "(sx_decoder sx)\<lparr>pd_state := filled 0 bl (\<lambda>k. S ! k) (pd_state (sx_decoder sx))\<rparr>"
  have Sc: "S ! k XOR pd_state (sx_decoder sx) ! k = coded p x k" if "k < bl" for k
    using that l by (simp add: S_def enc_signs_def dec_memory_def p_def x_def xor.assoc)
  have pd: "pdiff_decode (sx_decoder sx) ?b ?b = Some (?d, ?c)"
  proof -
    have "filled 0 bl (\<lambda>k. ?b ! k) (pd_state (sx_decoder sx)) = filled 0 bl (\<lambda>k. S ! k) (pd_state (sx_decoder sx))"
      by (rule filled_cong) (use l in \<open>simp add: filled_nth\<close>)
    moreover have "filled 0 bl (\<lambda>i. ?b ! i XOR pd_state (sx_decoder sx) ! i) ?b = ?c"
      using l Sc by (intro nth_equalityI) (simp_all add: filled_nth)
    ultimately show ?thesis using pdiff_decode_run [of "sx_decoder sx" ?b ?b] l n by simp
  qed
  define s1 where "s1 = sx\<lparr>sx_state := next_state a, sx_decoder := ?d, sx_bits := ?c\<rparr>"
  define s2 where "s2 = s1\<lparr>sx_bits := filled 0 bl x ?c, sx_oddDecoder := prev_at p x bl\<rparr>"
  have ol: "for_loop 0 bl odd_step s1 = Some s2"
    using odd_loop [of bl s1 x] l by (simp add: s1_def s2_def p_def filled_nth)
  have oo: "for_loop 1 (bl - 1) (\<lambda>i out. do { v \<leftarrow> rd_at (sx_bits s2) i; wr_at out (ooff + (i - 1)) v }) out =
     Some (filled ooff (ooff + (bl - 1)) (\<lambda>k. d ! (k - ooff)) out)"
  proof -
    have v: "rd_at (sx_bits s2) k = Some (d ! (k - 1))" if "1 \<le> k" "k < bl" for k
      using that l by (cases k) (simp_all add: s2_def s1_def rd_at_def filled_nth x_def frame_of_def)
    have "for_loop 1 (bl - 1) (\<lambda>i out. do { v \<leftarrow> rd_at (sx_bits s2) i; wr_at out (ooff + (i - 1)) v }) out =
       Some ((\<lambda>k. filled ooff (ooff + (k - 1)) (\<lambda>k. d ! (k - ooff)) out) (1 + (bl - 1)))"
      by (rule for_loop_eq) (use v l out in \<open>auto simp: wr_at_def Suc_diff_le\<close>)
    then show ?thesis by simp
  qed
  have w2: "unat (sx_width s2) = bl" using n by (simp add: s2_def s1_def)
  have "extractor_process sx ins ioff out ooff = Some (s2, filled ooff (ooff + (bl - 1)) (\<lambda>k. d ! (k - ooff)) out)"
    unfolding extractor_process_def r0 if_P [OF st] Option.bind.bind_lunit ra Let_def split_conv fa pd n s1_def [symmetric] ol
    using oo w2 by simp
  moreover have "extractor_ok bl s2" using ok l by (simp add: extractor_ok_def s2_def s1_def next_state_le)
  moreover have "dec_memory bl s2 = enc_next bl (dec_memory bl sx) d"
  proof -
    have "map (\<lambda>k. S ! k) [0..<bl] = S" using lS by (metis map_nth)
    then show ?thesis using l by (simp add: dec_memory_def s2_def s1_def filled_take enc_next_def S_def p_def x_def)
  qed
  ultimately show ?thesis by (auto simp: s2_def s1_def)
qed

end
