(* ===== verification/G711.thy ===== *)
theory G711
  imports Prelude
begin

unbundle bit_operations_syntax

text \<open>
  G.711 companding, \<^verbatim>\<open>src/service/pcm.c\<close>: the six conversions and their tables. A C \<open>int\<close> is
  an \<open>int\<close>; the callers pass 16-bit samples.
\<close>

definition PCM_ULAW_BIAS :: int where "PCM_ULAW_BIAS = 0x84"

definition seg_end :: "int list" where
  "seg_end = [255, 511, 1023, 2047, 4095, 8191, 16383, 32767]"

fun search_table :: "int list \<Rightarrow> int \<Rightarrow> nat \<Rightarrow> nat" where
  "search_table [] mag seg = seg"
| "search_table (e # es) mag seg = (if e \<ge> mag then seg else search_table es mag (seg + 1))"

definition search_segment :: "int \<Rightarrow> nat" where
  "search_segment mag = search_table seg_end mag 0"

definition linear2alaw :: "int \<Rightarrow> u8" where
  "linear2alaw pcm_val =
     (let (pcm_val, msk) = (if pcm_val \<ge> 0 then (pcm_val, 0xd5) else (- pcm_val - 8, 0x55));
          seg = search_segment pcm_val
      in if seg \<ge> 8 then 0x7f XOR msk
         else of_int (push_bit 4 (int seg) OR
                ((if seg < 2 then drop_bit 4 pcm_val else drop_bit (seg + 3) pcm_val) AND 0x0f)) XOR msk)"

definition alaw2linear :: "u8 \<Rightarrow> int" where
  "alaw2linear a_val =
     (let a_val = a_val XOR 0x55;
          t = push_bit 4 (uint (a_val AND 0x0f));
          seg = unat (drop_bit 4 (a_val AND 0x70));
          t = (if seg = 0 then t + 8 else if seg = 1 then t + 0x108 else push_bit (seg - 1) (t + 0x108))
      in if a_val AND 0x80 \<noteq> 0 then t else - t)"

definition linear2ulaw :: "int \<Rightarrow> u8" where
  "linear2ulaw pcm_val =
     (let (mag, msk) = (if pcm_val < 0 then (PCM_ULAW_BIAS - pcm_val, 0x7f) else (pcm_val + PCM_ULAW_BIAS, 0xff));
          seg = search_segment mag
      in if seg \<ge> 8 then 0x7f XOR msk
         else (of_int (push_bit 4 (int seg) OR (drop_bit (seg + 3) mag AND 0x0f))) XOR msk)"

definition ulaw2linear :: "u8 \<Rightarrow> int" where
  "ulaw2linear u_val =
     (let u_val = NOT u_val;
          t = push_bit 3 (uint (u_val AND 0x0f)) + PCM_ULAW_BIAS;
          t = push_bit (unat (drop_bit 4 (u_val AND 0x70))) t
      in if u_val AND 0x80 \<noteq> 0 then PCM_ULAW_BIAS - t else t - PCM_ULAW_BIAS)"

definition u2a :: "nat list" where
  "u2a =
    [1, 1, 2, 2, 3, 3, 4, 4, 5, 5, 6, 6, 7, 7, 8, 8,
     9, 10, 11, 12, 13, 14, 15, 16, 17, 18, 19, 20, 21, 22, 23, 24,
     25, 27, 29, 31, 33, 34, 35, 36, 37, 38, 39, 40, 41, 42, 43, 44,
     46, 48, 49, 50, 51, 52, 53, 54, 55, 56, 57, 58, 59, 60, 61, 62,
     64, 65, 66, 67, 68, 69, 70, 71, 72, 73, 74, 75, 76, 77, 78, 79,
     81, 82, 83, 84, 85, 86, 87, 88, 89, 90, 91, 92, 93, 94, 95, 96,
     97, 98, 99, 100, 101, 102, 103, 104, 105, 106, 107, 108, 109, 110, 111, 112,
     113, 114, 115, 116, 117, 118, 119, 120, 121, 122, 123, 124, 125, 126, 127, 128]"

definition a2u :: "nat list" where
  "a2u =
    [1, 3, 5, 7, 9, 11, 13, 15, 16, 17, 18, 19, 20, 21, 22, 23,
     24, 25, 26, 27, 28, 29, 30, 31, 32, 32, 33, 33, 34, 34, 35, 35,
     36, 37, 38, 39, 40, 41, 42, 43, 44, 45, 46, 47, 48, 48, 49, 49,
     50, 51, 52, 53, 54, 55, 56, 57, 58, 59, 60, 61, 62, 63, 64, 64,
     65, 66, 67, 68, 69, 70, 71, 72, 73, 74, 75, 76, 77, 78, 79, 79,
     80, 81, 82, 83, 84, 85, 86, 87, 88, 89, 90, 91, 92, 93, 94, 95,
     96, 97, 98, 99, 100, 101, 102, 103, 104, 105, 106, 107, 108, 109, 110, 111,
     112, 113, 114, 115, 116, 117, 118, 119, 120, 121, 122, 123, 124, 125, 126, 127]"

definition alaw2ulaw :: "u8 \<Rightarrow> u8 option" where
  "alaw2ulaw a_val =
     (if a_val AND 0x80 \<noteq> 0
      then do { v \<leftarrow> rd_at a2u (unat (a_val XOR 0xd5)); Some (0xff XOR of_nat v) }
      else do { v \<leftarrow> rd_at a2u (unat (a_val XOR 0x55)); Some (0x7f XOR of_nat v) })"

definition ulaw2alaw :: "u8 \<Rightarrow> u8 option" where
  "ulaw2alaw u_val =
     (if u_val AND 0x80 \<noteq> 0
      then do { v \<leftarrow> rd_at u2a (unat (0xff XOR u_val)); Some (0xd5 XOR (of_nat v - 1)) }
      else do { v \<leftarrow> rd_at u2a (unat (0x7f XOR u_val)); Some (0x55 XOR (of_nat v - 1)) })"

subsection \<open>Codes as segment and step\<close>

lemma u8_low4: "uint (v AND 0x0f) = uint (v :: u8) mod 16"
proof -
  have "v AND 0x0f = take_bit 4 v" by (simp add: take_bit_eq_mask mask_eq_exp_minus_1)
  then have "uint (v AND 0x0f) = take_bit 4 (uint v)" by (simp only: unsigned_take_bit_eq)
  then show ?thesis by (simp add: take_bit_eq_mod)
qed

lemma u8_seg: "unat (drop_bit 4 (v AND 0x70)) = unat (v :: u8) div 16 mod 8"
proof -
  have "drop_bit 4 (v AND 0x70) = take_bit 3 (drop_bit 4 v)"
    by (simp add: take_bit_eq_mask mask_eq_exp_minus_1)
  then have "unat (drop_bit 4 (v AND 0x70)) = take_bit 3 (drop_bit 4 (unat v))"
    by (simp only: unsigned_take_bit_eq unsigned_drop_bit_eq) (simp add: take_bit_drop_bit min_def)
  then show ?thesis by (simp add: take_bit_eq_mod drop_bit_eq_div)
qed

lemma nat_high_bit: "n < 256 \<Longrightarrow> odd (n div 128) \<longleftrightarrow> 128 \<le> n" for n :: nat
  by (cases "n < 128") (simp_all add: div_if)

lemma u8_sign: "v AND 0x80 \<noteq> 0 \<longleftrightarrow> 128 \<le> unat (v :: u8)"
proof -
  have "v AND 0x80 \<noteq> 0 \<longleftrightarrow> bit v 7" by (simp add: and_exp_eq_0_iff_not_bit [of v 7, simplified])
  also have "\<dots> \<longleftrightarrow> bit (unat v) 7" by (simp only: bit_unsigned_iff) simp
  also have "\<dots> \<longleftrightarrow> odd (unat v div 128)" by (simp only: bit_iff_odd) simp
  also have "\<dots> \<longleftrightarrow> 128 \<le> unat v" using unsigned_less [of v] by (intro nat_high_bit) simp
  finally show ?thesis .
qed

lemma ulaw2linear_val:
  "ulaw2linear (NOT v) = (let t = (8 * (uint v mod 16) + 132) * 2 ^ (unat v div 16 mod 8)
     in if 128 \<le> unat v then 132 - t else t - 132)"
  unfolding ulaw2linear_def Let_def u8_low4 u8_seg u8_sign bit.double_compl
  by (simp add: push_bit_eq_mult PCM_ULAW_BIAS_def)

lemma search_segment_eq:
  assumes "s < 8" and "s = 0 \<or> 2 ^ (s + 7) \<le> mag" and "mag < 2 ^ (s + 8)"
  shows "search_segment mag = s"
  using assms
  by (auto simp: search_segment_def seg_end_def less_Suc_eq numeral_eq_Suc)

lemma segment_of:
  assumes "mag < 32768"
  obtains s where "s < 8" "s = 0 \<or> 2 ^ (s + 7) \<le> (mag :: int)" "mag < 2 ^ (s + 8)" "search_segment mag = s"
proof -
  let ?s = "LEAST s. mag < 2 ^ (s + 8)"
  have b: "mag < 2 ^ (7 + 8)" using assms by simp
  have u: "mag < 2 ^ (?s + 8)" using b by (rule LeastI)
  have "?s \<le> 7" using b by (rule Least_le)
  then have s: "?s < 8" by simp
  have "?s = 0 \<or> 2 ^ (?s + 7) \<le> mag"
    using not_less_Least [of "?s - 1" "\<lambda>s. mag < 2 ^ (s + 8)"]
    by (cases ?s) (auto simp: not_less add.commute)
  then show ?thesis using that [OF s _ u] search_segment_eq [OF s _ u] by blast
qed

subsection \<open>The mu-law\<close>

lemma u8_pos_code: "(v :: u8) XOR 0xff = NOT v"
proof -
  have "(0xff :: u8) = - 1" by simp
  then show ?thesis by (metis xor.commute bit.xor_one_left)
qed

lemma u8_neg_code: "k < 128 \<Longrightarrow> (of_nat k :: u8) XOR 0x7f = NOT (of_nat (k + 128))"
proof -
  assume k: "k < 128"
  have b: "bit (of_nat k :: u8) n \<longleftrightarrow> n < 8 \<and> bit k n" for n by (simp add: bit_simps)
  have nb: "\<not> bit k 7" using k by (simp add: bit_iff_odd)
  have "(of_nat k :: u8) AND 0x80 = 0"
    using and_exp_eq_0_iff_not_bit [of "of_nat k :: u8" 7] b nb by simp
  then have "(of_nat k :: u8) + 0x80 = of_nat k XOR 0x80"
    by (rule disjunctive_add_eq_xor)
  then have w: "(of_nat (k + 128) :: u8) = of_nat k XOR 0x80" by (simp only: of_nat_add) simp
  have "(0x7f :: u8) = 0x80 XOR 0xff" by simp
  then have "(of_nat k :: u8) XOR 0x7f = (of_nat k XOR 0x80) XOR 0xff" by (simp only: xor.assoc)
  then show ?thesis by (simp only: w u8_pos_code)
qed

lemma int_low4: "take_bit 4 (x :: int) = x AND 0x0f"
  by (simp add: take_bit_eq_mask mask_eq_exp_minus_1)

lemma code_value:
  assumes "m < 16" shows "push_bit 4 (int s) OR int m = int (s * 16 + m)"
proof -
  have t: "take_bit 4 (int m) = int m" using assms by (intro take_bit_int_eq_self) simp_all
  have "\<not> (bit (push_bit 4 (int s)) n \<and> bit (int m) n)" for n
    using t by (metis bit_take_bit_iff bit_push_bit_iff not_le)
  then have "push_bit 4 (int s) AND int m = 0"
    by (intro bit_eqI) (simp only: bit_and_iff bit_0_eq bot_apply bot_bool_def)
  then have "push_bit 4 (int s) + int m = push_bit 4 (int s) OR int m" by (rule disjunctive_add_eq_or)
  then show ?thesis by (simp add: push_bit_eq_mult)
qed

text \<open>The input \<open>x\<close> of one sign lies in step \<open>m\<close> of segment \<open>s\<close>.\<close>

definition ulaw_cell :: "int \<Rightarrow> nat \<Rightarrow> nat \<Rightarrow> bool" where
  "ulaw_cell x s m \<longleftrightarrow> s < 8 \<and> m < 16 \<and> 0 \<le> x \<and>
     (int m + 16) * 2 ^ (s + 3) \<le> x + 132 \<and> x + 132 < (int m + 17) * 2 ^ (s + 3)"

lemma ulaw_cell_search:
  assumes "ulaw_cell x s m"
  shows "search_segment (x + 132) = s" and "drop_bit (s + 3) (x + 132) AND 0x0f = int m"
proof -
  have r: "(int m + 16) * 2 ^ (s + 3) \<le> x + 132" "x + 132 < (int m + 17) * 2 ^ (s + 3)" "s < 8" "m < 16"
    using assms by (auto simp: ulaw_cell_def)
  have w: "16 * 2 ^ (s + 3) \<le> (int m + 16) * 2 ^ (s + 3)" "(int m + 17) * 2 ^ (s + 3) \<le> 32 * 2 ^ (s + 3)"
    using r(4) by (intro mult_right_mono; simp)+
  have e: "16 * 2 ^ (s + 3) = (2 :: int) ^ (s + 7)" "32 * 2 ^ (s + 3) = (2 :: int) ^ (s + 8)"
    by (simp_all add: power_add)
  show "search_segment (x + 132) = s"
    using r w e by (intro search_segment_eq disjI2) linarith+
  have "(x + 132) div 2 ^ (s + 3) = int m + 16"
    using r by (intro int_div_pos_eq [where r = "x + 132 - (int m + 16) * 2 ^ (s + 3)"]) (auto simp: algebra_simps)
  then have "drop_bit (s + 3) (x + 132) = int m + 16" by (simp add: drop_bit_eq_div)
  moreover have "take_bit 4 (int m + 16) = int m" using r(4) by (simp add: take_bit_eq_mod)
  ultimately show "drop_bit (s + 3) (x + 132) AND 0x0f = int m" by (simp only: int_low4 [symmetric])
qed

lemma linear2ulaw_cell:
  assumes "ulaw_cell x s m"
  shows "linear2ulaw x = NOT (of_nat (s * 16 + m))"
    and "0 < x \<Longrightarrow> linear2ulaw (- x) = NOT (of_nat (s * 16 + m + 128))"
proof -
  note c = ulaw_cell_search [OF assms]
  have s: "s < 8" "m < 16" "0 \<le> x" using assms by (auto simp: ulaw_cell_def)
  then have k: "s * 16 + m < 128" by simp
  note defs = linear2ulaw_def Let_def PCM_ULAW_BIAS_def split_conv
  show "linear2ulaw x = NOT (of_nat (s * 16 + m))"
    using s c unfolding defs
    by (simp only: if_not_P not_less split_conv not_le code_value u8_pos_code of_int_of_nat_eq refl if_False)
  assume "0 < x"
  then show "linear2ulaw (- x) = NOT (of_nat (s * 16 + m + 128))"
    using s c unfolding defs minus_minus diff_minus_eq_add
    by (simp add: add.commute [of 132 x] code_value del: of_nat_add) (rule u8_neg_code [OF k])
qed

lemma u8_code_fields:
  assumes "s < 8" and "m < 16"
  shows "unat (of_nat (s * 16 + m) :: u8) = s * 16 + m" and "unat (of_nat (s * 16 + m + 128) :: u8) = s * 16 + m + 128"
  using assms by (simp_all add: unat_of_nat take_bit_nat_eq_self del: of_nat_add of_nat_mult)

lemma u8_fields_mod:
  assumes "s < 8" and "m < 16"
  shows "uint (of_nat (s * 16 + m) :: u8) mod 16 = int m" "uint (of_nat (s * 16 + m + 128) :: u8) mod 16 = int m"
    "unat (of_nat (s * 16 + m) :: u8) div 16 mod 8 = s" "unat (of_nat (s * 16 + m + 128) :: u8) div 16 mod 8 = s"
proof -
  note u = u8_code_fields [OF assms]
  have i: "uint (of_nat (s * 16 + m) :: u8) = int (s * 16 + m)"
    "uint (of_nat (s * 16 + m + 128) :: u8) = int (s * 16 + m + 128)"
    using u by (simp_all only: uint_nat)
  have d: "(s * 16 + m) div 16 mod 8 = s" "(s * 16 + m + 128) div 16 mod 8 = s"
    "int (s * 16 + m) mod 16 = int m" "int (s * 16 + m + 128) mod 16 = int m"
  proof -
    have k: "(k * 16 + m) div 16 = k" "int (k * 16 + m) mod 16 = int m" for k using assms(2) by simp_all
    have e: "s * 16 + m + 128 = (s + 8) * 16 + m" by simp
    show "(s * 16 + m) div 16 mod 8 = s" "int (s * 16 + m) mod 16 = int m" using assms(1) by (simp_all only: k mod_less)
    have "(s + 8) mod 8 = s" using assms(1) by simp
    then show "(s * 16 + m + 128) div 16 mod 8 = s" unfolding e k .
    show "int (s * 16 + m + 128) mod 16 = int m" unfolding e k ..
  qed
  show "uint (of_nat (s * 16 + m) :: u8) mod 16 = int m" "uint (of_nat (s * 16 + m + 128) :: u8) mod 16 = int m"
    "unat (of_nat (s * 16 + m) :: u8) div 16 mod 8 = s" "unat (of_nat (s * 16 + m + 128) :: u8) div 16 mod 8 = s"
    by (simp_all only: i u d)
qed

lemma ulaw2linear_code:
  assumes "s < 8" and "m < 16"
  shows "ulaw2linear (NOT (of_nat (s * 16 + m))) = (8 * int m + 132) * 2 ^ s - 132"
    and "ulaw2linear (NOT (of_nat (s * 16 + m + 128))) = 132 - (8 * int m + 132) * 2 ^ s"
proof -
  note u = u8_code_fields [OF assms] and d = u8_fields_mod [OF assms]
  show "ulaw2linear (NOT (of_nat (s * 16 + m))) = (8 * int m + 132) * 2 ^ s - 132"
    unfolding ulaw2linear_val d unfolding u Let_def using assms by simp
  show "ulaw2linear (NOT (of_nat (s * 16 + m + 128))) = 132 - (8 * int m + 132) * 2 ^ s"
    unfolding ulaw2linear_val d unfolding u Let_def using assms by simp
qed

lemma u8_as_code:
  fixes u :: u8
  obtains s m where "s < 8" "m < 16" "u = NOT (of_nat (s * 16 + m)) \<or> u = NOT (of_nat (s * 16 + m + 128))"
proof -
  let ?n = "unat (NOT u)"
  have n: "?n < 256" using unsigned_less [of "NOT u"] by simp
  have u: "u = NOT (of_nat ?n)" by simp
  have e: "?n = ?n div 16 mod 8 * 16 + ?n mod 16 \<or> ?n = ?n div 16 mod 8 * 16 + ?n mod 16 + 128"
  proof -
    have "?n mod 128 = ?n div 16 mod 8 * 16 + ?n mod 16" using mod_mult2_eq [of ?n 16 8] by simp
    moreover have "?n = ?n mod 128 \<or> ?n = ?n mod 128 + 128" using n by (cases "?n < 128") (simp_all add: le_mod_geq)
    ultimately show ?thesis by simp
  qed
  show ?thesis
    by (rule that [of "?n div 16 mod 8" "?n mod 16"]) (use u e in \<open>auto simp del: of_nat_add of_nat_mult\<close>)
qed

lemma ulaw_cell_mid: "s < 8 \<Longrightarrow> m < 16 \<Longrightarrow> ulaw_cell ((8 * int m + 132) * 2 ^ s - 132) s m"
proof -
  assume "s < 8" "m < 16"
  moreover have "132 * 2 ^ 0 \<le> (8 * int m + 132) * 2 ^ s" by (intro mult_mono power_increasing) auto
  ultimately show ?thesis by (auto simp: ulaw_cell_def power_add algebra_simps)
qed

lemma int_div_bounds:
  fixes x d :: int
  assumes "0 < d"
  shows "x div d * d \<le> x" and "x < (x div d + 1) * d"
proof -
  have "x div d * d + x mod d = x" by (rule div_mult_mod_eq)
  moreover have "0 \<le> x mod d" "x mod d < d" using assms by simp_all
  ultimately show "x div d * d \<le> x" "x < (x div d + 1) * d" unfolding distrib_right by linarith+
qed

lemma int_div_less: "x < k * d \<Longrightarrow> 0 < d \<Longrightarrow> x div d < k" for x d k :: int
proof (rule ccontr)
  assume x: "x < k * d" "0 < d" and "\<not> x div d < k"
  then have "k * d \<le> x div d * d" by (intro mult_right_mono) auto
  also have "\<dots> \<le> x" using x(2) by (rule int_div_bounds)
  finally show False using x(1) by simp
qed

lemma ulaw_cell_exists:
  assumes "0 \<le> x" and "x \<le> 32635"
  obtains s m where "ulaw_cell x s m"
proof -
  obtain s where s: "s < 8" "s = 0 \<or> 2 ^ (s + 7) \<le> x + 132" "x + 132 < 2 ^ (s + 8)"
    using segment_of [of "x + 132"] assms by auto
  let ?q = "(x + 132) div 2 ^ (s + 3)"
  have lo: "16 * 2 ^ (s + 3) \<le> x + 132" using s(2) assms by (auto simp: power_add)
  have hi: "x + 132 < 32 * 2 ^ (s + 3)" using s(3) by (simp add: power_add)
  have q: "16 \<le> ?q" "?q < 32"
    using zdiv_mono1 [OF lo, of "2 ^ (s + 3)"] int_div_less [OF hi] by simp_all
  have "?q * 2 ^ (s + 3) \<le> x + 132" "x + 132 < (?q + 1) * 2 ^ (s + 3)"
    by (rule int_div_bounds; simp)+
  then have "ulaw_cell x s (nat (?q - 16))" using q s assms by (simp add: ulaw_cell_def algebra_simps)
  then show ?thesis by (rule that)
qed

lemma ulaw_codes:
  "linear2ulaw (ulaw2linear u) = (if u = 0x7f then 0xff else u)"
proof -
  obtain s m where sm: "s < 8" "m < 16" and u: "u = NOT (of_nat (s * 16 + m)) \<or> u = NOT (of_nat (s * 16 + m + 128))"
    by (rule u8_as_code)
  note c = linear2ulaw_cell [OF ulaw_cell_mid [OF sm]] and f = u8_code_fields [OF sm]
  have z: "u = 0x7f \<longleftrightarrow> unat (NOT u) = 128"
  proof -
    have "u = 0x7f \<longleftrightarrow> NOT u = NOT 0x7f" by (simp only: bit.compl_eq_compl_iff)
    also have "\<dots> \<longleftrightarrow> unat (NOT u) = unat (NOT 0x7f :: u8)" by (simp only: word_unat_eq_iff)
    finally show ?thesis by simp
  qed
  from u show ?thesis
  proof
    assume u: "u = NOT (of_nat (s * 16 + m))"
    have "unat (NOT u) \<noteq> 128" unfolding u bit.double_compl f using sm by simp
    then show ?thesis unfolding z unfolding u ulaw2linear_code [OF sm] c by simp
  next
    assume u: "u = NOT (of_nat (s * 16 + m + 128))"
    have y: "ulaw2linear u = - ((8 * int m + 132) * 2 ^ s - 132)" unfolding u ulaw2linear_code [OF sm] by simp
    show ?thesis
    proof (cases "s = 0 \<and> m = 0")
      case True
      then show ?thesis using c(1) unfolding z y unfolding u bit.double_compl f by simp
    next
      case False
      then have "132 < (8 * int m + 132) * 2 ^ s"
      proof (cases "s = 0")
        case False
        have "132 * 2 ^ 1 \<le> (8 * int m + 132) * 2 ^ s"
          by (intro mult_mono power_increasing) (use False in auto)
        then show ?thesis by simp
      qed auto
      moreover have "unat (NOT u) \<noteq> 128" unfolding u bit.double_compl f using sm False by simp
      ultimately show ?thesis using c(2) unfolding z y by (simp add: u)
    qed
  qed
qed

lemma cell_mid: "32 * \<bar>p + 4 * h - y\<bar> \<le> y" if "p \<le> y" and "y < p + 8 * h" and "16 * (8 * h) \<le> p" for p h y :: int
proof -
  have "32 * a \<le> y" if "a \<le> 4 * h" for a using that \<open>16 * (8 * h) \<le> p\<close> \<open>p \<le> y\<close> by linarith
  moreover have "\<bar>p + 4 * h - y\<bar> \<le> 4 * h" using that(1,2) by (simp add: abs_le_iff)
  ultimately show ?thesis by blast
qed

lemma ulaw_error:
  assumes "\<bar>x\<bar> \<le> 32635"
  shows "32 * \<bar>ulaw2linear (linear2ulaw x) - x\<bar> \<le> \<bar>x\<bar> + 132"
proof -
  obtain s m where c: "ulaw_cell \<bar>x\<bar> s m" using ulaw_cell_exists [of "\<bar>x\<bar>"] assms by auto
  then have sm: "s < 8" "m < 16" and r: "(int m + 16) * 2 ^ (s + 3) \<le> \<bar>x\<bar> + 132" "\<bar>x\<bar> + 132 < (int m + 17) * 2 ^ (s + 3)"
    by (auto simp: ulaw_cell_def)
  have "ulaw2linear (linear2ulaw x) = (if 0 \<le> x then (8 * int m + 132) * 2 ^ s - 132 else 132 - (8 * int m + 132) * 2 ^ s)"
    using linear2ulaw_cell [OF c] ulaw2linear_code [OF sm] by (cases "0 \<le> x") simp_all
  then have "\<bar>ulaw2linear (linear2ulaw x) - x\<bar> = \<bar>(8 * int m + 132) * 2 ^ s - (\<bar>x\<bar> + 132)\<bar>" by auto
  also have "\<dots> = \<bar>(int m + 16) * 2 ^ (s + 3) + 4 * 2 ^ s - (\<bar>x\<bar> + 132)\<bar>"
    by (simp add: power_add algebra_simps)
  finally have e: "\<bar>ulaw2linear (linear2ulaw x) - x\<bar> = \<dots>" .
  show ?thesis unfolding e
    by (rule cell_mid) (use r in \<open>simp_all add: power_add algebra_simps\<close>)
qed

subsection \<open>The A-law\<close>

definition alaw_base :: "nat \<Rightarrow> nat \<Rightarrow> int" where
  "alaw_base s m = (if s = 0 then 16 * int m else (int m + 16) * 2 ^ (s + 3))"

definition alaw_step :: "nat \<Rightarrow> int" where
  "alaw_step s = (if s = 0 then 16 else 2 ^ (s + 3))"

definition alaw_cell :: "int \<Rightarrow> nat \<Rightarrow> nat \<Rightarrow> bool" where
  "alaw_cell x s m \<longleftrightarrow> s < 8 \<and> m < 16 \<and> alaw_base s m \<le> x \<and> x < alaw_base s m + alaw_step s"

lemma alaw_cell_search:
  assumes "alaw_cell x s m"
  shows "search_segment x = s"
    and "(if s < 2 then drop_bit 4 x else drop_bit (s + 3) x) AND 0x0f = int m"
proof -
  have sm: "s < 8" "m < 16" using assms by (auto simp: alaw_cell_def)
  have sh: "2 ^ (if s < 2 then 4 else s + 3) = alaw_step s"
    by (auto simp: alaw_step_def less_2_cases_iff)
  have "16 * 2 ^ (s + 3) \<le> (int m + 16) * 2 ^ (s + 3)" "(int m + 17) * 2 ^ (s + 3) \<le> 32 * 2 ^ (s + 3)"
    using sm(2) by (intro mult_right_mono; simp)+
  moreover have "16 * 2 ^ (s + 3) = (2 :: int) ^ (s + 7)" "32 * 2 ^ (s + 3) = (2 :: int) ^ (s + 8)"
    by (simp_all add: power_add)
  moreover have "(int m + 17) * 2 ^ (s + 3) = (int m + 16) * 2 ^ (s + 3) + (2 :: int) ^ (s + 3)"
    by (simp add: algebra_simps)
  ultimately have w: "s = 0 \<or> 2 ^ (s + 7) \<le> x" "x < 2 ^ (s + 8)"
    using assms sm by (cases "s = 0"; simp add: alaw_cell_def alaw_base_def alaw_step_def)+
  then show "search_segment x = s" using sm by (intro search_segment_eq)
  have "x div alaw_step s = (if s = 0 then int m else int m + 16)"
    using assms by (intro int_div_pos_eq [where r = "x - alaw_base s m"])
      (auto simp: alaw_cell_def alaw_base_def alaw_step_def)
  moreover have "(if s < 2 then drop_bit 4 x else drop_bit (s + 3) x) = x div alaw_step s"
    unfolding sh [symmetric] by (simp add: drop_bit_eq_div)
  moreover have "take_bit 4 (if s = 0 then int m else int m + 16) = int m" using sm by (simp add: take_bit_eq_mod)
  ultimately show "(if s < 2 then drop_bit 4 x else drop_bit (s + 3) x) AND 0x0f = int m"
    by (simp only: int_low4 [symmetric])
qed

lemma alaw_xor: "(v :: u8) XOR 0xd5 = (v XOR 0x80) XOR 0x55" "((v :: u8) XOR 0x55) XOR 0x55 = v"
proof -
  have "(0xd5 :: u8) = 0x80 XOR 0x55" by simp
  then show "v XOR 0xd5 = (v XOR 0x80) XOR 0x55" by (simp only: xor.assoc)
  have "(0x55 :: u8) XOR 0x55 = 0" by simp
  then show "(v XOR 0x55) XOR 0x55 = v" by (simp only: xor.assoc xor.right_neutral)
qed

lemma u8_high_code: "k < 128 \<Longrightarrow> (of_nat k :: u8) XOR 0x80 = of_nat (k + 128)"
proof -
  assume k: "k < 128"
  have "\<not> bit (of_nat k :: u8) 7" using k by (simp add: bit_simps) (simp add: bit_iff_odd)
  then have "(of_nat k :: u8) AND 0x80 = 0" using and_exp_eq_0_iff_not_bit [of "of_nat k :: u8" 7] by simp
  then have "(of_nat k :: u8) + 0x80 = of_nat k XOR 0x80" by (rule disjunctive_add_eq_xor)
  then show ?thesis by simp
qed

lemma linear2alaw_cell:
  assumes "alaw_cell p s m"
  shows "0 \<le> p \<Longrightarrow> linear2alaw p = of_nat (s * 16 + m + 128) XOR 0x55"
    and "p > - 8 \<Longrightarrow> linear2alaw (- p - 8) = of_nat (s * 16 + m) XOR 0x55"
proof -
  note c = alaw_cell_search [OF assms]
  have sm: "s < 8" "m < 16" using assms by (auto simp: alaw_cell_def)
  then have k: "s * 16 + m < 128" by simp
  note defs = linear2alaw_def Let_def split_conv
  show "linear2alaw p = of_nat (s * 16 + m + 128) XOR 0x55" if "0 \<le> p"
    using that sm unfolding defs u8_high_code [OF k, symmetric]
    by (simp only: if_True split_conv c not_le if_not_P code_value of_int_of_nat_eq alaw_xor(1))
  have q: "- (- p - 8) - 8 = p" by simp
  show "linear2alaw (- p - 8) = of_nat (s * 16 + m) XOR 0x55" if "p > - 8"
  proof -
    have n: "(0 \<le> - p - 8) = False" using that by simp
    show ?thesis unfolding defs n if_False q c code_value [OF sm(2)] of_int_of_nat_eq using sm(1) by simp
  qed
qed

lemma alaw2linear_code:
  assumes "s < 8" and "m < 16"
  shows "alaw2linear (of_nat (s * 16 + m + 128) XOR 0x55) = alaw_base s m + alaw_step s div 2"
    and "alaw2linear (of_nat (s * 16 + m) XOR 0x55) = - (alaw_base s m + alaw_step s div 2)"
proof -
  have i: "uint (of_nat (s * 16 + m) :: u8) mod 16 = int m" "uint (of_nat (s * 16 + m + 128) :: u8) mod 16 = int m"
    and n: "unat (of_nat (s * 16 + m) :: u8) div 16 mod 8 = s" "unat (of_nat (s * 16 + m + 128) :: u8) div 16 mod 8 = s"
    using u8_fields_mod [OF assms] by (simp_all only:)
  have v: "(if s = 0 then push_bit 4 (int m) + 8 else if s = 1 then push_bit 4 (int m) + 0x108 else push_bit (s - 1) (push_bit 4 (int m) + 0x108))
     = alaw_base s m + alaw_step s div 2"
    by (cases s) (auto simp: alaw_base_def alaw_step_def push_bit_eq_mult power_add algebra_simps)
  show "alaw2linear (of_nat (s * 16 + m + 128) XOR 0x55) = alaw_base s m + alaw_step s div 2"
    unfolding alaw2linear_def Let_def alaw_xor(2) u8_low4 u8_seg u8_sign i n v unfolding u8_code_fields [OF assms] by simp
  show "alaw2linear (of_nat (s * 16 + m) XOR 0x55) = - (alaw_base s m + alaw_step s div 2)"
    unfolding alaw2linear_def Let_def alaw_xor(2) u8_low4 u8_seg u8_sign i n v unfolding u8_code_fields [OF assms] using assms by simp
qed

lemma alaw_cell_mid: "s < 8 \<Longrightarrow> m < 16 \<Longrightarrow> alaw_cell (alaw_base s m + alaw_step s div 2) s m"
  "s < 8 \<Longrightarrow> m < 16 \<Longrightarrow> alaw_cell (alaw_base s m + alaw_step s div 2 - 8) s m"
proof -
  have "(8 :: int) * 2 ^ 0 \<le> 8 * 2 ^ s" by (intro mult_left_mono power_increasing) auto
  then have "16 \<le> alaw_step s \<or> alaw_step s = 8 * 2 ^ s \<and> 0 < s" "0 < alaw_step s" "8 \<le> alaw_step s div 2"
    by (cases s; simp add: alaw_step_def power_add)+
  then show "s < 8 \<Longrightarrow> m < 16 \<Longrightarrow> alaw_cell (alaw_base s m + alaw_step s div 2) s m"
    "s < 8 \<Longrightarrow> m < 16 \<Longrightarrow> alaw_cell (alaw_base s m + alaw_step s div 2 - 8) s m"
    unfolding alaw_cell_def by linarith+
qed

lemma alaw_codes: "linear2alaw (alaw2linear u) = u"
proof -
  obtain s m where sm: "s < 8" "m < 16"
    and u: "NOT (u XOR 0x55) = NOT (of_nat (s * 16 + m)) \<or> NOT (u XOR 0x55) = NOT (of_nat (s * 16 + m + 128))"
    by (rule u8_as_code)
  note c = linear2alaw_cell [OF alaw_cell_mid(1) [OF sm]] linear2alaw_cell [OF alaw_cell_mid(2) [OF sm]]
  have b: "0 \<le> alaw_base s m" "0 < alaw_step s div 2" by (auto simp: alaw_base_def alaw_step_def power_add)
  from u have "u = of_nat (s * 16 + m) XOR 0x55 \<or> u = of_nat (s * 16 + m + 128) XOR 0x55"
    unfolding bit.compl_eq_compl_iff using alaw_xor(2) [of u] by metis
  then show ?thesis
  proof
    assume u: "u = of_nat (s * 16 + m) XOR 0x55"
    show ?thesis unfolding u alaw2linear_code [OF sm] using c(4) b by simp
  next
    assume u: "u = of_nat (s * 16 + m + 128) XOR 0x55"
    show ?thesis unfolding u alaw2linear_code [OF sm] using c(1) b by simp
  qed
qed

lemma alaw_cell_exists:
  assumes "0 \<le> x" and "x < 32768"
  obtains s m where "alaw_cell x s m"
proof -
  obtain s where s: "s < 8" "s = 0 \<or> 2 ^ (s + 7) \<le> x" "x < 2 ^ (s + 8)"
    using segment_of [of x] assms by auto
  let ?q = "x div alaw_step s" and ?k = "if s = 0 then 0 else 16 :: int"
  have st: "0 < alaw_step s" by (simp add: alaw_step_def)
  have "?k * alaw_step s \<le> x" "x < (?k + 16) * alaw_step s"
    using s assms by (auto simp: alaw_step_def power_add split: if_splits)
  then have q: "?k \<le> ?q" "?q < ?k + 16"
    using zdiv_mono1 [of "?k * alaw_step s" x "alaw_step s"] int_div_less [of x "?k + 16" "alaw_step s"] st by auto
  note b = int_div_bounds [OF st, of x]
  have "alaw_base s (nat (?q - ?k)) = ?q * alaw_step s"
    using q by (cases "s = 0") (simp_all add: alaw_base_def alaw_step_def)
  then have "alaw_cell x s (nat (?q - ?k))" using q s b by (auto simp: alaw_cell_def distrib_right)
  then show ?thesis by (rule that)
qed

lemma alaw_step_half: "s < 8 \<Longrightarrow> alaw_cell x s m \<Longrightarrow> 16 * alaw_step s \<le> max 256 x" "2 * (alaw_step s div 2) = alaw_step s"
proof -
  show "2 * (alaw_step s div 2) = alaw_step s" by (simp add: alaw_step_def power_add)
  assume "s < 8" and c: "alaw_cell x s m"
  have "16 * alaw_step s \<le> (int m + 16) * alaw_step s" by (intro mult_right_mono) (auto simp: alaw_step_def)
  moreover have "alaw_step s = 16 \<or> (int m + 16) * alaw_step s = alaw_base s m"
    by (simp add: alaw_base_def alaw_step_def)
  ultimately show "16 * alaw_step s \<le> max 256 x"
    using c unfolding alaw_cell_def by linarith
qed

lemma shift_error: "32 * \<bar>b - (- x - 8)\<bar> \<le> y \<Longrightarrow> 32 * \<bar>- b - x\<bar> \<le> y + 256" for b x y :: int
proof -
  assume "32 * \<bar>b - (- x - 8)\<bar> \<le> y"
  moreover have "\<bar>- b - x\<bar> \<le> \<bar>b - (- x - 8)\<bar> + 8" by arith
  moreover have "32 * u \<le> y + 256" if "u \<le> v + 8" "32 * v \<le> y" for u v :: int using that by linarith
  ultimately show "32 * \<bar>- b - x\<bar> \<le> y + 256" by blast
qed

lemma half_step: "\<bar>a\<bar> \<le> h \<Longrightarrow> 16 * t \<le> y \<Longrightarrow> 2 * h = t \<Longrightarrow> 32 * \<bar>a\<bar> \<le> y" for a h t y :: int
  by linarith

lemma alaw_error:
  shows "0 \<le> x \<Longrightarrow> x < 32768 \<Longrightarrow> 32 * \<bar>alaw2linear (linear2alaw x) - x\<bar> \<le> max 256 x"
    and "- 32768 \<le> x \<Longrightarrow> x \<le> - 8 \<Longrightarrow> 32 * \<bar>alaw2linear (linear2alaw x) - x\<bar> \<le> max 256 (- x - 8) + 256"
proof -
  have half: "32 * \<bar>alaw_base s m + alaw_step s div 2 - x\<bar> \<le> max 256 x" if "alaw_cell x s m" for x s m
  proof -
    have "s < 8" using that by (simp add: alaw_cell_def)
    note h = alaw_step_half(1) [OF this that] alaw_step_half(2) [of s]
    have "\<bar>alaw_base s m + alaw_step s div 2 - x\<bar> \<le> alaw_step s div 2"
      using that h(2) unfolding alaw_cell_def by linarith
    then show ?thesis using h by (rule half_step)
  qed
  show "32 * \<bar>alaw2linear (linear2alaw x) - x\<bar> \<le> max 256 x" if x: "0 \<le> x" "x < 32768"
  proof -
    obtain s m where c: "alaw_cell x s m" using alaw_cell_exists [OF x] .
    then have sm: "s < 8" "m < 16" by (auto simp: alaw_cell_def)
    show ?thesis unfolding linear2alaw_cell(1) [OF c x(1)] alaw2linear_code(1) [OF sm] by (rule half [OF c])
  qed
  show "32 * \<bar>alaw2linear (linear2alaw x) - x\<bar> \<le> max 256 (- x - 8) + 256" if x: "- 32768 \<le> x" "x \<le> - 8"
  proof -
    obtain s m where c: "alaw_cell (- x - 8) s m" using alaw_cell_exists [of "- x - 8"] x by auto
    then have sm: "s < 8" "m < 16" by (auto simp: alaw_cell_def)
    have e: "linear2alaw x = of_nat (s * 16 + m) XOR 0x55" using linear2alaw_cell(2) [OF c] x by simp
    show ?thesis unfolding e alaw2linear_code(2) [OF sm] using half [OF c] by (rule shift_error)
  qed
qed

lemma alaw_small_negative:
  assumes "- 8 < x" and "x < 0"
  shows "linear2alaw x = 0x5a"
proof -
  have "x \<in> {-7, -6, -5, -4, -3, -2, -1}" using assms by auto
  then show ?thesis by (auto simp: linear2alaw_def Let_def search_segment_def seg_end_def)
qed

subsection \<open>Properties\<close>

text \<open>C28: a code survives expansion and compression in both laws, except that the mu-law's
  negative zero comes back as its positive one.\<close>

theorem g711_codes:
  "linear2alaw (alaw2linear u) = u \<and> linear2ulaw (ulaw2linear u) = (if u = 0x7f then 0xff else u)"
  by (simp add: alaw_codes ulaw_codes)

text \<open>C29: quantisation. Mu-law compression of a sample that does not saturate is off by at most half a
  step, a step being a sixteenth of the biased magnitude at most. A-law compression is that good for
  samples from 0 on; a negative sample is off by 8 more, because the offset of the negative branch is
  8 where the rounding takes 1, and a sample from -7 to -1, whose magnitude becomes negative, is
  returned as -248.\<close>

theorem g711_quantises:
  "(\<bar>x\<bar> \<le> 32635 \<longrightarrow> 32 * \<bar>ulaw2linear (linear2ulaw x) - x\<bar> \<le> \<bar>x\<bar> + 132) \<and>
   (0 \<le> x \<and> x < 32768 \<longrightarrow> 32 * \<bar>alaw2linear (linear2alaw x) - x\<bar> \<le> max 256 x) \<and>
   (- 32768 \<le> x \<and> x \<le> - 8 \<longrightarrow> 32 * \<bar>alaw2linear (linear2alaw x) - x\<bar> \<le> max 256 (- x - 8) + 256) \<and>
   (- 8 < x \<and> x < 0 \<longrightarrow> alaw2linear (linear2alaw x) = - 248)"
proof -
  have "alaw2linear (linear2alaw x) = - 248" if "- 8 < x" "x < 0"
    unfolding alaw_small_negative [OF that] by (simp add: alaw2linear_def Let_def push_bit_eq_mult)
  then show ?thesis using ulaw_error [of x] alaw_error [of x] by blast
qed

lemma g711_quantises_witness:
  "32 * \<bar>ulaw2linear (linear2ulaw 1000) - 1000\<bar> \<le> 1132 \<and> 32 * \<bar>alaw2linear (linear2alaw 1000) - 1000\<bar> \<le> 1000 \<and>
   32 * \<bar>alaw2linear (linear2alaw (- 1000)) - - 1000\<bar> \<le> 1248 \<and> alaw2linear (linear2alaw (- 1)) = - 248"
  using g711_quantises [of 1000] g711_quantises [of "- 1000"] g711_quantises [of "- 1"] by simp

end
