(* ===== verification/V90Mapper.thy ===== *)
theory V90Mapper
  imports V90SignsRx G711
begin

unbundle bit_operations_syntax

text \<open>
  The V.90 mapper, \<^verbatim>\<open>V90Mapper.cpp\<close>: it collects the bits of a frame, turns them into six
  constellation points by modulus conversion, and gives them signs, through the spectral shaper when
  the parameters ask for redundant sign bits. Of the mapping parameters the fields it reads are here;
  \<open>shaperSR\<close> is a C \<open>int\<close> the code only uses as \<open>unsigned\<close>.
\<close>

record 'd mapping_params =
  vp_word_0 :: u32
  vp_constellation :: "u8 list list"
  vp_constellationSize :: "u32 list"
  vp_shaperSR :: u32
  vp_shaperId :: u32
  vp_shaperCoeff :: "'d four"

record 'd mapper =
  mp_bitsPerFrame :: u32
  mp_modulusBitCount :: u32
  mp_signBitsPerFrame :: u32
  mp_signBitGroups :: u32
  mp_signBitGroupSize :: u32
  mp_buf :: "u8 list"
  mp_bitsBuffered :: u32
  mp_codes :: "u32 list"
  mp_levels :: "u16 list"
  mp_signs :: "u8 list"
  mp_samples :: "u16 list"
  mp_constellation :: "u16 list list"
  mp_constellationSize :: "u32 list"
  mp_modulusEncoder :: modulus_coder
  mp_spectralShaper :: "'d shaper"
  mp_primeFrames :: u32
  mp_signEncoder :: u8
  mp_word_700 :: u32

text \<open>The constructor; \<open>raw\<close> is the uninitialised object with its buffer of 80 bytes allocated.\<close>

definition V90Mapper_new :: "'d fparith \<Rightarrow> 'd mapper \<Rightarrow> 'd mapper" where
  "V90Mapper_new fa raw =
     raw\<lparr>mp_modulusEncoder := modulus_coder_zero, mp_spectralShaper := shaper_new fa (mp_spectralShaper raw),
         mp_signEncoder := 0, mp_bitsBuffered := 0, mp_primeFrames := 0, mp_signBitGroupSize := 0,
         mp_signBitGroups := 0, mp_signBitsPerFrame := 0, mp_modulusBitCount := 0, mp_bitsPerFrame := 0,
         mp_constellationSize := replicate 6 0\<rparr>"

subsection \<open>Reset\<close>

text \<open>The level of a constellation octet under the A-law (\<open>pcm\<close>) or the mu-law.\<close>

definition level_of :: "bool \<Rightarrow> u8 \<Rightarrow> u16" where
  "level_of pcm b =
     (if pcm then of_int (alaw2linear ((b AND 0x7f) XOR 0xd5)) else of_int (ulaw2linear (NOT (b AND 0x7f))))"

definition fill_row :: "bool \<Rightarrow> u8 list \<Rightarrow> nat \<Rightarrow> u16 list \<Rightarrow> u16 list option" where
  "fill_row pcm src n row = do {
     row \<leftarrow> for_loop 0 n (\<lambda>j row. do { b \<leftarrow> rd_at src j; wr_at row j (level_of pcm b) }) row;
     for_loop n (128 - n) (\<lambda>j row. wr_at row j 0) row
   }"

definition row_step :: "'d mapping_params \<Rightarrow> bool \<Rightarrow> nat \<Rightarrow> 'd mapper \<Rightarrow> 'd mapper option" where
  "row_step vp pcm i mp = do {
     n \<leftarrow> rd_at (vp_constellationSize vp) i;
     sizes \<leftarrow> wr_at (mp_constellationSize mp) i n;
     src \<leftarrow> rd_at (vp_constellation vp) i;
     row \<leftarrow> rd_at (mp_constellation mp) i;
     row \<leftarrow> fill_row pcm src (unat n) row;
     rows \<leftarrow> wr_at (mp_constellation mp) i row;
     Some (mp\<lparr>mp_constellationSize := sizes, mp_constellation := rows\<rparr>)
   }"

definition load_encoder :: "'d mapper \<Rightarrow> 'd mapper option" where
  "load_encoder mp = do {
     c0 \<leftarrow> rd_at (mp_constellationSize mp) 0;
     c1 \<leftarrow> rd_at (mp_constellationSize mp) 1;
     c2 \<leftarrow> rd_at (mp_constellationSize mp) 2;
     c3 \<leftarrow> rd_at (mp_constellationSize mp) 3;
     c4 \<leftarrow> rd_at (mp_constellationSize mp) 4;
     c5 \<leftarrow> rd_at (mp_constellationSize mp) 5;
     Some (mp\<lparr>mp_modulusEncoder := modulus_coder_new c0 c1 c2 c3 c4 c5 (mp_modulusBitCount mp)\<rparr>)
   }"

definition V90Mapper_reset :: "'d fparith \<Rightarrow> 'd mapping_params \<Rightarrow> bool \<Rightarrow> 'd mapper \<Rightarrow> 'd mapper option" where
  "V90Mapper_reset fa vp pcm mp = do {
     let sr = vp_shaperSR vp;
     let mp = mp\<lparr>mp_bitsPerFrame := vp_word_0 vp, mp_signBitGroups := sr,
       mp_signBitGroupSize := (if sr \<noteq> 0 then 6 div sr else 0), mp_signBitsPerFrame := 6 - sr,
       mp_modulusBitCount := vp_word_0 vp - (6 - sr)\<rparr>;
     mp \<leftarrow> for_loop 0 6 (row_step vp pcm) mp;
     mp \<leftarrow> (if mp_signBitGroups mp \<noteq> 0
       then do {
         sh \<leftarrow> shaper_reset fa (vp_shaperId vp) sr (vp_shaperCoeff vp) (mp_spectralShaper mp);
         Some (mp\<lparr>mp_spectralShaper := sh, mp_primeFrames := vp_shaperId vp\<rparr>)
       }
       else Some (mp\<lparr>mp_primeFrames := 0\<rparr>));
     mp \<leftarrow> load_encoder mp;
     Some (mp\<lparr>mp_signEncoder := 0, mp_word_700 := 0, mp_bitsBuffered := 0\<rparr>)
   }"

definition V90Mapper_resetNoSpectral :: "'d fparith \<Rightarrow> 'd mapping_params \<Rightarrow> bool \<Rightarrow> 'd mapper \<Rightarrow> 'd mapper option" where
  "V90Mapper_resetNoSpectral fa vp pcm mp = do {
     let mp = mp\<lparr>mp_bitsPerFrame := vp_word_0 vp, mp_modulusBitCount := vp_word_0 vp - mp_signBitsPerFrame mp\<rparr>;
     mp \<leftarrow> for_loop 0 6 (row_step vp pcm) mp;
     mp \<leftarrow> load_encoder mp;
     Some (mp\<lparr>mp_signEncoder := 0,
       mp_spectralShaper := resetSSFilter fa (vp_shaperCoeff vp) (mp_spectralShaper mp), mp_word_700 := 0\<rparr>)
   }"

subsection \<open>A frame\<close>

definition level_step :: "nat \<Rightarrow> 'd mapper \<Rightarrow> 'd mapper option" where
  "level_step k mp = do {
     row \<leftarrow> rd_at (mp_constellation mp) k;
     c \<leftarrow> rd_at (mp_codes mp) k;
     v \<leftarrow> rd_at row (unat c);
     levels \<leftarrow> wr_at (mp_levels mp) k v;
     Some (mp\<lparr>mp_levels := levels\<rparr>)
   }"

definition group_step :: "'d fparith \<Rightarrow> nat \<Rightarrow> 'd mapper \<Rightarrow> 'd mapper option" where
  "group_step fa k mp = do {
     (sh, samples) \<leftarrow> shaper_process fa (mp_spectralShaper mp)
       (mp_levels mp) (unat (of_nat k * mp_signBitGroupSize mp))
       (mp_buf mp) (unat (of_nat k * (mp_signBitGroupSize mp - 1)))
       (mp_samples mp) (unat (of_nat k * mp_signBitGroupSize mp));
     Some (mp\<lparr>mp_spectralShaper := sh, mp_samples := samples\<rparr>)
   }"

definition sign_step :: "nat \<Rightarrow> 'd mapper \<Rightarrow> 'd mapper option" where
  "sign_step k mp = do {
     b \<leftarrow> rd_at (mp_buf mp) k;
     let (s, prev) = serial_encode (mp_signEncoder mp) b;
     signs \<leftarrow> wr_at (mp_signs mp) k s;
     v \<leftarrow> rd_at (mp_levels mp) k;
     samples \<leftarrow> wr_at (mp_samples mp) k (if s \<noteq> 0 then v else - v);
     Some (mp\<lparr>mp_signEncoder := prev, mp_signs := signs, mp_samples := samples\<rparr>)
   }"

definition frame_samples :: "'d fparith \<Rightarrow> 'd mapper \<Rightarrow> 'd mapper option" where
  "frame_samples fa mp = do {
     codes \<leftarrow> ModulusEncoder_progress (mp_modulusEncoder mp) (drop (unat (mp_signBitsPerFrame mp)) (mp_buf mp)) (mp_codes mp);
     mp \<leftarrow> for_loop 0 6 level_step (mp\<lparr>mp_codes := codes\<rparr>);
     if mp_signBitGroups mp \<noteq> 0 then for_loop 0 (unat (mp_signBitGroups mp)) (group_step fa) mp
     else for_loop 0 6 sign_step mp
   }"

text \<open>Delivery at \<open>symbols + nofOut\<close>: the groups the shaper has not decided yet are dropped once.\<close>

definition deliver :: "'d mapper \<Rightarrow> u16 list \<Rightarrow> u32 \<Rightarrow> ('d mapper \<times> u16 list \<times> u32) option" where
  "deliver mp symbols nofOut =
     (if mp_primeFrames mp \<noteq> 0 then
        (if mp_primeFrames mp \<ge> mp_signBitGroups mp
         then Some (mp\<lparr>mp_primeFrames := mp_primeFrames mp - mp_signBitGroups mp\<rparr>, symbols, nofOut)
         else do {
           let start = mp_primeFrames mp * mp_signBitGroupSize mp;
           symbols \<leftarrow> for_loop (unat start) (6 - unat start)
             (\<lambda>k symbols. do { v \<leftarrow> rd_at (mp_samples mp) k; wr_at symbols (unat (nofOut + of_nat k - start)) v }) symbols;
           Some (mp\<lparr>mp_primeFrames := 0\<rparr>, symbols, nofOut + (6 - start))
         })
      else do {
        symbols \<leftarrow> for_loop 0 6
          (\<lambda>k symbols. do { v \<leftarrow> rd_at (mp_samples mp) k; wr_at symbols (unat (nofOut + of_nat k)) v }) symbols;
        Some (mp, symbols, nofOut + 6)
      })"

definition bit_step :: "'d fparith \<Rightarrow> u8 list \<Rightarrow> nat \<Rightarrow> 'd mapper \<times> u16 list \<times> u32 \<Rightarrow> ('d mapper \<times> u16 list \<times> u32) option" where
  "bit_step fa bits i = (\<lambda>(mp, symbols, nofOut). do {
     b \<leftarrow> rd_at bits i;
     buf \<leftarrow> wr_at (mp_buf mp) (unat (mp_bitsBuffered mp)) b;
     let mp = mp\<lparr>mp_buf := buf, mp_bitsBuffered := mp_bitsBuffered mp + 1\<rparr>;
     if mp_bitsBuffered mp \<ge> mp_bitsPerFrame mp
     then do {
       mp \<leftarrow> frame_samples fa mp;
       (mp, symbols, nofOut) \<leftarrow> deliver mp symbols nofOut;
       Some (mp\<lparr>mp_bitsBuffered := mp_bitsBuffered mp - mp_bitsPerFrame mp\<rparr>, symbols, nofOut)
     }
     else Some (mp, symbols, nofOut)
   })"

definition V90Mapper_process :: "'d fparith \<Rightarrow> 'd mapper \<Rightarrow> u8 list \<Rightarrow> u32 \<Rightarrow> u16 list \<Rightarrow> ('d mapper \<times> u16 list \<times> u32) option" where
  "V90Mapper_process fa mp bits nofBits symbols =
     for_loop 0 (unat nofBits) (bit_step fa bits) (mp, symbols, 0)"

end
