(* ===== verification/V90Stream.thy ===== *)
theory V90Stream
  imports V90SignsRx
begin

text \<open>
  The contract between shaper and extractor as a relation on streams of blocks: \<open>carries\<close> says that
  the blocks on the line are the blocks of levels and data given to the shaper, each under an action
  its trellis state allows. The shaper's stream is of this kind, however its decisions fall and
  however many blocks it holds back.
\<close>

type_synonym block = "u16 list \<times> u8 list"

definition block_ok :: "nat \<Rightarrow> block \<Rightarrow> bool" where
  "block_ok bl b \<longleftrightarrow> length (fst b) = bl \<and> length (snd b) = bl - 1 \<and> (\<forall>v \<in> set (snd b). is_bit v)"

definition act_block :: "sign_action \<Rightarrow> u16 list \<Rightarrow> u16 list" where
  "act_block a B = map (\<lambda>k. act_cell a k (B ! k)) [0..<length B]"

definition sent_block :: "nat \<Rightarrow> sign_memory \<Rightarrow> block \<Rightarrow> u16 list" where
  "sent_block bl m b = signed_block (enc_signs bl m (snd b)) (fst b)"

lemma length_sent_block [simp]: "block_ok bl b \<Longrightarrow> length (sent_block bl m b) = bl"
  by (simp add: sent_block_def block_ok_def)

inductive carries :: "nat \<Rightarrow> sign_memory \<times> u32 \<Rightarrow> u16 list list \<Rightarrow> block list \<Rightarrow> sign_memory \<times> u32 \<Rightarrow> bool" for bl where
  carries_Nil: "carries bl s [] [] s"
| carries_Cons: "block_ok bl b \<Longrightarrow> a \<in> allowed st \<Longrightarrow> carries bl (enc_next bl m (snd b), next_state a) os bs s' \<Longrightarrow>
     carries bl (m, st) (act_block a (sent_block bl m b) # os) (b # bs) s'"

inductive_cases carries_ConsE: "carries bl s os (b # bs) s'"
inductive_simps carries_Nil_iff [simp]: "carries bl s [] bs s'" "carries bl s os [] s'"

lemma carries_append:
  "carries bl s os bs s1 \<Longrightarrow> carries bl s1 os' bs' s2 \<Longrightarrow> carries bl s (os @ os') (bs @ bs') s2"
  by (induction rule: carries.induct) (auto intro: carries_Cons)

lemma carries_snoc:
  assumes "carries bl s os bs (m, st)" and "block_ok bl b" and "a \<in> allowed st"
  shows "carries bl s (os @ [act_block a (sent_block bl m b)]) (bs @ [b]) (enc_next bl m (snd b), next_state a)"
  using carries_append [OF assms(1)] carries_Cons [OF assms(2,3) carries_Nil] by blast

lemma carries_length: "carries bl s os bs s' \<Longrightarrow> length os = length bs"
  by (induction rule: carries.induct) auto

lemma carries_split:
  "carries bl s os bs s' \<Longrightarrow> n \<le> length bs \<Longrightarrow>
   \<exists>s1. carries bl s (take n os) (take n bs) s1 \<and> carries bl s1 (drop n os) (drop n bs) s'"
proof (induction arbitrary: n rule: carries.induct)
  case (carries_Cons b a st m os bs s')
  show ?case
  proof (cases n)
    case (Suc k)
    then obtain s1 where "carries bl (enc_next bl m (snd b), next_state a) (take k os) (take k bs) s1"
      "carries bl s1 (drop k os) (drop k bs) s'" using carries_Cons.IH [of k] carries_Cons.prems by auto
    then have "carries bl (m, st) (act_block a (sent_block bl m b) # take k os) (b # take k bs) s1"
      using carries_Cons.hyps(1,2) by (intro carries.carries_Cons)
    then show ?thesis using Suc \<open>carries bl s1 (drop k os) (drop k bs) s'\<close> by (intro exI [of _ s1]) simp
  qed (use carries_Cons.hyps in \<open>auto intro: carries.carries_Cons\<close>)
qed auto

subsection \<open>Blocks held back\<close>

fun emit :: "nat \<Rightarrow> sign_memory \<Rightarrow> block list \<Rightarrow> u16 list" where
  "emit bl m [] = []"
| "emit bl m (b # bs) = sent_block bl m b @ emit bl (enc_next bl m (snd b)) bs"

fun mem_after :: "nat \<Rightarrow> sign_memory \<Rightarrow> block list \<Rightarrow> sign_memory" where
  "mem_after bl m [] = m"
| "mem_after bl m (b # bs) = mem_after bl (enc_next bl m (snd b)) bs"

lemma emit_snoc: "emit bl m (bs @ [b]) = emit bl m bs @ sent_block bl (mem_after bl m bs) b"
  by (induction bs arbitrary: m) auto

lemma mem_after_snoc: "mem_after bl m (bs @ [b]) = enc_next bl (mem_after bl m bs) (snd b)"
  by (induction bs arbitrary: m) auto

definition tx_inv :: "'d shaping_filter set \<Rightarrow> nat \<Rightarrow> nat \<Rightarrow> sign_memory \<Rightarrow> block list \<Rightarrow> u16 list list \<Rightarrow> 'd shaper \<Rightarrow> bool" where
  "tx_inv F id' bl m0 bs os sh \<longleftrightarrow> shaper_ok id' bl sh \<and> sh_ssf sh \<in> F \<and> (\<forall>b \<in> set bs. block_ok bl b) \<and>
     (\<exists>E Q m. bs = E @ Q \<and> length Q = id' - unat (sh_primeFrames sh) \<and> (sh_primeFrames sh \<noteq> 0 \<longrightarrow> E = []) \<and>
        carries bl (m0, 0) os E (m, sh_state sh) \<and>
        drop (unat (sh_primeFrames sh) * bl) (pending id' bl sh) = emit bl m Q \<and>
        enc_memory bl sh = mem_after bl m Q)"

lemma tx_invI:
  assumes "shaper_ok id' bl sh" "sh_ssf sh \<in> F" "\<And>b. b \<in> set bs \<Longrightarrow> block_ok bl b" "bs = E @ Q" "length Q = id' - unat (sh_primeFrames sh)"
    "sh_primeFrames sh \<noteq> 0 \<Longrightarrow> E = []" "carries bl (m0, 0) os E (m, sh_state sh)"
    "drop (unat (sh_primeFrames sh) * bl) (pending id' bl sh) = emit bl m Q" "enc_memory bl sh = mem_after bl m Q"
  shows "tx_inv F id' bl m0 bs os sh"
  using assms unfolding tx_inv_def by blast

lemma tx_inv_ok:
  assumes "tx_inv F id' bl m0 bs os sh"
  shows "shaper_ok id' bl sh" "sh_ssf sh \<in> F"
  using assms by (simp_all add: tx_inv_def)

lemma pending_length: "shaper_ok id' bl sh \<Longrightarrow> length (pending id' bl sh) = id' * bl"
  using shaper_nats(6) [of id' bl sh] by (auto simp: pending_def shaper_ok_def shaper_core_def)

text \<open>One more block: while the line is primed nothing leaves, afterwards one block per block.\<close>

lemma tx_inv_step:
  assumes inv: "tx_inv F id' bl m0 bs os sh" and b: "block_ok bl b" and ok': "shaper_ok id' bl sh'" "sh_ssf sh' \<in> F"
    and dec: "decision sh a sh'" and mem: "enc_memory bl sh' = enc_next bl (enc_memory bl sh) (snd b)"
  defines "W \<equiv> pending id' bl sh @ sent_block bl (enc_memory bl sh) b"
  assumes pen: "pending id' bl sh' = drop bl W"
  shows "tx_inv F id' bl m0 (bs @ [b])
    (if sh_primeFrames sh \<noteq> 0 then os else os @ [map (\<lambda>k. act_cell a k (W ! k)) [0..<bl]]) sh'"
proof -
  have ok: "shaper_ok id' bl sh" and bok: "\<forall>b \<in> set bs. block_ok bl b" using inv by (auto simp: tx_inv_def)
  obtain E Q m where q: "bs = E @ Q" "length Q = id' - unat (sh_primeFrames sh)" "sh_primeFrames sh \<noteq> 0 \<longrightarrow> E = []"
    "carries bl (m0, 0) os E (m, sh_state sh)" "drop (unat (sh_primeFrames sh) * bl) (pending id' bl sh) = emit bl m Q"
    "enc_memory bl sh = mem_after bl m Q" using inv unfolding tx_inv_def by blast
  have pl: "length (pending id' bl sh) = id' * bl" by (rule pending_length [OF ok])
  have le: "unat (sh_primeFrames sh) \<le> id'" using ok by (simp add: shaper_ok_def shaper_core_def)
  show ?thesis
  proof (cases "sh_primeFrames sh = 0")
    case False
    have p': "unat (sh_primeFrames sh') = unat (sh_primeFrames sh) - 1" and st: "sh_state sh' = sh_state sh"
      using dec False by (simp_all add: decision_def unat_minus_one)
    have p0: "0 < unat (sh_primeFrames sh)" using False by (simp add: unat_gt_0)
    have E: "E = []" using q(3) False by simp
    have "drop (unat (sh_primeFrames sh') * bl) (pending id' bl sh') = drop (unat (sh_primeFrames sh) * bl) W"
      using p0 by (simp add: pen p' diff_mult_distrib mult_le_mono1 algebra_simps)
    also have "\<dots> = emit bl m (Q @ [b])"
      using q(5,6) le pl by (simp add: W_def emit_snoc mult_le_mono1)
    finally have "drop (unat (sh_primeFrames sh') * bl) (pending id' bl sh') = emit bl m (Q @ [b])" .
    moreover have "length (Q @ [b]) = id' - unat (sh_primeFrames sh')" using q(2) p' p0 le by simp
    ultimately show ?thesis
      using False q bok b ok' st mem E
      by (intro tx_invI [where E = "[]" and Q = "Q @ [b]" and m = m]) (auto simp: mem_after_snoc)
  next
    case True
    have p': "sh_primeFrames sh' = 0" "sh_state sh' = next_state a" "a \<in> allowed (sh_state sh)"
      using dec True by (simp_all add: decision_def)
    have W: "W = emit bl m (Q @ [b])" using q(5,6) True by (simp add: W_def emit_snoc)
    have all: "\<And>x. x \<in> set (bs @ [b]) \<Longrightarrow> block_ok bl x" using bok b by auto
    obtain b0 Q' where Q': "Q @ [b] = b0 # Q'" by (cases Q) auto
    have "b0 \<in> set (Q @ [b])" unfolding Q' by simp
    then have b0: "block_ok bl b0" using bok b q(1) by auto
    have W': "W = sent_block bl m b0 @ emit bl (enc_next bl m (snd b0)) Q'" unfolding W Q' by simp
    have o': "map (\<lambda>k. act_cell a k (W ! k)) [0..<bl] = act_block a (sent_block bl m b0)"
      using b0 by (simp add: act_block_def W' nth_append)
    have "length Q' = id'" using arg_cong [OF Q', of length] q(2) True by simp
    moreover have "carries bl (m0, 0) (os @ [act_block a (sent_block bl m b0)]) (E @ [b0]) (enc_next bl m (snd b0), sh_state sh')"
      using carries_snoc [OF q(4) b0 p'(3)] p'(2) by simp
    moreover have "bs @ [b] = (E @ [b0]) @ Q'" using q(1) Q' by simp
    moreover have "pending id' bl sh' = emit bl (enc_next bl m (snd b0)) Q'" using b0 by (simp add: pen W')
    moreover have "enc_memory bl sh' = mem_after bl (enc_next bl m (snd b0)) Q'"
      using mem mem_after_snoc [of bl m Q b] unfolding q(6) Q' by simp
    ultimately show ?thesis
      using True p'(1) unfolding o'
      by (intro tx_invI [where E = "E @ [b0]" and Q = Q' and m = "enc_next bl m (snd b0)", OF ok' all])
        (simp_all del: append_assoc)
  qed
qed

end
