(* ===== verification/V90MapperTx.thy ===== *)
theory V90MapperTx
  imports V90Mapper V90Stream
begin

unbundle bit_operations_syntax

text \<open>
  What the mapper puts on the line with spectral shaping: the six points of each frame in blocks, a
  stream \<open>carries\<close> describes, without the blocks the shaper holds back at the start.
\<close>

subsection \<open>Parameters of a connection\<close>

definition params_ok :: "nat \<Rightarrow> nat \<Rightarrow> nat \<Rightarrow> u16 list list \<Rightarrow> modulus_coder \<Rightarrow> bool" where
  "params_ok sr id' D rows mc \<longleftrightarrow> sr \<in> {1, 2, 3} \<and> id' \<le> 3 \<and> 6 - sr < D \<and> D \<le> 80 \<and> D - (6 - sr) \<le> 63 \<and>
     mc_bitCount mc = of_nat (D - (6 - sr)) \<and> 2 ^ (D - (6 - sr)) \<le> (\<Prod>k < 6. uint (mc_size mc k)) \<and>
     (\<forall>k < 6. unat (mc_size mc k) \<le> 128) \<and> length rows = 6 \<and> (\<forall>row \<in> set rows. length row = 128)"

definition mapper_ok :: "nat \<Rightarrow> nat \<Rightarrow> nat \<Rightarrow> u16 list list \<Rightarrow> modulus_coder \<Rightarrow> 'd mapper \<Rightarrow> bool" where
  "mapper_ok sr id' D rows mc mp \<longleftrightarrow>
     mp_bitsPerFrame mp = of_nat D \<and> mp_signBitsPerFrame mp = of_nat (6 - sr) \<and> mp_signBitGroups mp = of_nat sr \<and>
     mp_signBitGroupSize mp = of_nat (6 div sr) \<and> length (mp_buf mp) = 80 \<and> length (mp_codes mp) = 6 \<and>
     length (mp_levels mp) = 6 \<and> length (mp_signs mp) = 6 \<and> length (mp_samples mp) = 6 \<and>
     mp_constellation mp = rows \<and> mp_modulusEncoder mp = mc"

text \<open>The points of a frame of bits, and its blocks.\<close>

definition frame_codes :: "nat \<Rightarrow> nat \<Rightarrow> modulus_coder \<Rightarrow> u8 list \<Rightarrow> u32 list" where
  "frame_codes sr D mc fb = modulus_digits mc (bits_value (drop (6 - sr) fb) (D - (6 - sr)))"

definition frame_levels :: "nat \<Rightarrow> nat \<Rightarrow> u16 list list \<Rightarrow> modulus_coder \<Rightarrow> u8 list \<Rightarrow> u16 list" where
  "frame_levels sr D rows mc fb = map (\<lambda>k. rows ! k ! unat (frame_codes sr D mc fb ! k)) [0..<6]"

definition frame_block :: "nat \<Rightarrow> nat \<Rightarrow> u16 list list \<Rightarrow> modulus_coder \<Rightarrow> u8 list \<Rightarrow> nat \<Rightarrow> block" where
  "frame_block sr D rows mc fb k =
     (let gs = 6 div sr in (take gs (drop (k * gs) (frame_levels sr D rows mc fb)), take (gs - 1) (drop (k * (gs - 1)) fb)))"

definition frame_blocks :: "nat \<Rightarrow> nat \<Rightarrow> u16 list list \<Rightarrow> modulus_coder \<Rightarrow> u8 list \<Rightarrow> block list" where
  "frame_blocks sr D rows mc fb = map (frame_block sr D rows mc fb) [0..<sr]"

lemma group_sizes:
  fixes sr :: nat
  assumes "sr \<in> {1, 2, 3}"
  shows "sr * (6 div sr) = 6" "1 < 6 div sr" "6 div sr \<le> 6" "sr * (6 div sr - 1) = 6 - sr" "0 < sr" "sr \<le> 3"
  using assms by auto

lemma length_frame_levels [simp]: "length (frame_levels sr D rows mc fb) = 6"
  by (simp add: frame_levels_def)

lemma group_fits:
  fixes sr :: nat
  assumes "sr \<in> {1, 2, 3}" and "k < sr"
  shows "k * (6 div sr) + 6 div sr \<le> 6" "k * (6 div sr - 1) + (6 div sr - 1) \<le> 6 - sr"
proof -
  have "(k + 1) * (6 div sr) \<le> sr * (6 div sr)" "(k + 1) * (6 div sr - 1) \<le> sr * (6 div sr - 1)"
    using assms(2) by (intro mult_le_mono1; simp)+
  then show "k * (6 div sr) + 6 div sr \<le> 6" "k * (6 div sr - 1) + (6 div sr - 1) \<le> 6 - sr"
    unfolding group_sizes [OF assms(1)] by simp_all
qed

lemma frame_block_ok:
  assumes "params_ok sr id' D rows mc" and "length fb = D" and "\<forall>b \<in> set fb. is_bit b" and "k < sr"
  shows "block_ok (6 div sr) (frame_block sr D rows mc fb k)"
proof -
  have sr: "sr \<in> {1, 2, 3}" and D: "6 - sr < D" using assms(1) by (auto simp: params_ok_def)
  have "is_bit v" if "v \<in> set (take (6 div sr - 1) (drop (k * (6 div sr - 1)) fb))" for v
    using that assms(3) by (meson in_set_dropD in_set_takeD)
  then show ?thesis
    using group_fits [OF sr assms(4)] D assms(2) by (auto simp: block_ok_def frame_block_def Let_def)
qed

lemma bits_value_cong: "(\<And>i. i < n \<Longrightarrow> xs ! i = ys ! i) \<Longrightarrow> bits_value xs n = bits_value ys n"
  by (simp add: bits_value_def)

lemma frame_digits:
  assumes "params_ok sr id' D rows mc" and "length fb = D"
  shows "mc_ready mc (drop (6 - sr) fb)" "k < 6 \<Longrightarrow> frame_codes sr D mc fb ! k < mc_size mc k"
    "k < 6 \<Longrightarrow> unat (frame_codes sr D mc fb ! k) < 128"
proof -
  have p: "D - (6 - sr) \<le> 63" "mc_bitCount mc = of_nat (D - (6 - sr))" "2 ^ (D - (6 - sr)) \<le> (\<Prod>k < 6. uint (mc_size mc k))"
    "\<forall>k < 6. unat (mc_size mc k) \<le> 128" using assms(1) by (auto simp: params_ok_def)
  have n: "unat (mc_bitCount mc) = D - (6 - sr)" using p(1,2) by (simp add: unat_of_nat take_bit_nat_eq_self)
  let ?v = "bits_value (drop (6 - sr) fb) (D - (6 - sr))"
  have v: "0 \<le> ?v" "?v < (\<Prod>k < 6. uint (mc_size mc k))" using bits_value_range [of "drop (6 - sr) fb" "D - (6 - sr)"] p(3) by linarith+
  show c: "frame_codes sr D mc fb ! k < mc_size mc k" if "k < 6" for k
    using modulus_digits_range(1) [OF v that] by (simp add: frame_codes_def)
  show "unat (frame_codes sr D mc fb ! k) < 128" if "k < 6"
    using c [OF that] p(4) that unfolding word_less_nat_alt by fastforce
  have "(\<Prod>k < 6. uint (mc_size mc k)) \<noteq> 0" using v by linarith
  then have "mc_size mc k \<noteq> 0" if "k < 6" for k
    using that by (metis finite_lessThan lessThan_iff prod_zero_iff unsigned_0)
  from this [of 0] this [of 1] this [of 2] this [of 3] this [of 4]
  show "mc_ready mc (drop (6 - sr) fb)" using n p(1) assms(2) by (simp add: mc_ready_def)
qed

subsection \<open>One frame\<close>

lemma level_loop:
  assumes ok: "mapper_ok sr id' D rows mc mp" and pk: "params_ok sr id' D rows mc"
    and c: "\<And>k. k < 6 \<Longrightarrow> unat (mp_codes mp ! k) < 128"
  shows "for_loop 0 6 level_step mp = Some (mp\<lparr>mp_levels := map (\<lambda>k. rows ! k ! unat (mp_codes mp ! k)) [0..<6]\<rparr>)"
proof -
  let ?g = "\<lambda>k. rows ! k ! unat (mp_codes mp ! k)"
  have l: "length (mp_levels mp) = 6" "length (mp_codes mp) = 6" "mp_constellation mp = rows" "length rows = 6"
    and r: "length (rows ! k) = 128" if "k < 6" for k
    using ok pk that by (auto simp: mapper_ok_def params_ok_def)
  have "for_loop 0 6 level_step mp = Some ((\<lambda>k. mp\<lparr>mp_levels := filled 0 k ?g (mp_levels mp)\<rparr>) (0 + 6))"
  proof (rule for_loop_eq)
    fix k :: nat assume k: "0 \<le> k" "k < 0 + 6"
    then have k6: "k < 6" by simp
    show "level_step k (mp\<lparr>mp_levels := filled 0 k ?g (mp_levels mp)\<rparr>) = Some (mp\<lparr>mp_levels := filled 0 (Suc k) ?g (mp_levels mp)\<rparr>)"
      using l [OF k6] r [OF k6] c [OF k6] k6 by (simp add: level_step_def mem_simps)
  qed simp
  then show ?thesis using l [of 0] by (simp add: filled_all)
qed

lemma params_nats:
  assumes "params_ok sr id' D rows mc"
  shows "unat (of_nat D :: u32) = D" "unat (of_nat (6 - sr) :: u32) = 6 - sr" "unat (of_nat sr :: u32) = sr"
    "unat (of_nat (6 div sr) :: u32) = 6 div sr" "(of_nat sr :: u32) \<noteq> 0" "unat (mc_bitCount mc) = D - (6 - sr)"
proof -
  have p: "sr \<in> {1, 2, 3}" "D \<le> 80" "D - (6 - sr) \<le> 63" "mc_bitCount mc = of_nat (D - (6 - sr))"
    using assms by (auto simp: params_ok_def)
  have u: "unat (of_nat n :: u32) = n" if "n \<le> 80" for n using that by (simp add: unat_of_nat take_bit_nat_eq_self)
  show "unat (of_nat D :: u32) = D" "unat (of_nat (6 - sr) :: u32) = 6 - sr" "unat (of_nat sr :: u32) = sr"
    "unat (of_nat (6 div sr) :: u32) = 6 div sr" "(of_nat sr :: u32) \<noteq> 0"
    using p(1,2) u by auto
  show "unat (mc_bitCount mc) = D - (6 - sr)" using p(3,4) u by simp
qed

lemma group_loop:
  assumes ok: "mapper_ok sr id' D rows mc mp" and pk: "params_ok sr id' D rows mc" and bm: "safe_filters fa F"
    and fb: "length fb = D" "\<forall>b \<in> set fb. is_bit b" "take D (mp_buf mp) = fb"
    and lev: "mp_levels mp = frame_levels sr D rows mc fb"
    and inv: "tx_inv F id' (6 div sr) m0 bs os (mp_spectralShaper mp)"
  defines "gs \<equiv> 6 div sr" and "p \<equiv> unat (sh_primeFrames (mp_spectralShaper mp))"
  shows "\<exists>sh samples obs. for_loop 0 sr (group_step fa) mp = Some (mp\<lparr>mp_spectralShaper := sh, mp_samples := samples\<rparr>) \<and>
     samples = concat obs \<and> length samples = 6 \<and> length obs = sr \<and> (\<forall>o' \<in> set obs. length o' = gs) \<and>
     unat (sh_primeFrames sh) = p - sr \<and> tx_inv F id' gs m0 (bs @ frame_blocks sr D rows mc fb) (os @ drop p obs) sh"
proof -
  have sr: "sr \<in> {1, 2, 3}" and D: "6 - sr < D" "D \<le> 80" using pk by (auto simp: params_ok_def)
  note gz = group_sizes [OF sr] and un = params_nats [OF pk]
  have lb: "length (mp_buf mp) = 80" "length (mp_samples mp) = 6" "mp_signBitGroupSize mp = of_nat gs"
    using ok by (simp_all add: mapper_ok_def gs_def)
  let ?I = "\<lambda>k mp'. \<exists>sh samples obs. mp' = mp\<lparr>mp_spectralShaper := sh, mp_samples := samples\<rparr> \<and>
     take (k * gs) samples = concat obs \<and> length samples = 6 \<and> length obs = k \<and> (\<forall>o' \<in> set obs. length o' = gs) \<and>
     unat (sh_primeFrames sh) = p - k \<and> tx_inv F id' gs m0 (bs @ map (frame_block sr D rows mc fb) [0..<k]) (os @ drop p obs) sh"
  have "\<exists>mp'. for_loop 0 sr (group_step fa) mp = Some mp' \<and> ?I (0 + sr) mp'"
  proof (rule for_loop_inv)
    show "?I 0 mp" using lb inv p_def gs_def
      by (intro exI [of _ "mp_spectralShaper mp"] exI [of _ "mp_samples mp"] exI [of _ "[]"]) simp
    fix k mp' assume k: "0 \<le> k" "k < 0 + sr" and "?I k mp'"
    then obtain sh samples obs where I: "mp' = mp\<lparr>mp_spectralShaper := sh, mp_samples := samples\<rparr>"
      "take (k * gs) samples = concat obs" "length samples = 6" "length obs = k" "\<forall>o' \<in> set obs. length o' = gs"
      "unat (sh_primeFrames sh) = p - k" "tx_inv F id' gs m0 (bs @ map (frame_block sr D rows mc fb) [0..<k]) (os @ drop p obs) sh"
      by blast
    have ks: "k < sr" using k by simp
    note gf = group_fits [OF sr ks, folded gs_def]
    have g1: "unat (of_nat k * (of_nat gs :: u32)) = k * gs"
    proof -
      have "of_nat k * (of_nat gs :: u32) = of_nat (k * gs)" by simp
      then show ?thesis using gf(1) by (simp add: unat_of_nat take_bit_nat_eq_self del: of_nat_mult)
    qed
    have g2: "unat (of_nat k * ((of_nat gs :: u32) - 1)) = k * (gs - 1)"
    proof -
      have "(of_nat gs :: u32) - 1 = of_nat (gs - 1)" using gz(2) gs_def by simp
      then have "of_nat k * ((of_nat gs :: u32) - 1) = of_nat (k * (gs - 1))" by simp
      then show ?thesis using gf(2) by (simp add: unat_of_nat take_bit_nat_eq_self del: of_nat_mult)
    qed
    let ?b = "frame_block sr D rows mc fb k"
    have bok: "block_ok gs ?b" using frame_block_ok [OF pk fb(1,2) ks] by (simp add: gs_def)
    have snd_b: "take (gs - 1) (drop (k * (gs - 1)) (mp_buf mp)) = snd ?b"
    proof -
      have "take (gs - 1) (drop (k * (gs - 1)) (take D (mp_buf mp))) = take (gs - 1) (drop (k * (gs - 1)) (mp_buf mp))"
      proof -
        have "gs - 1 \<le> D - k * (gs - 1)" using gf(2) D(1) by linarith
        then show ?thesis by (simp only: drop_take take_take min.absorb1)
      qed
      then show ?thesis unfolding fb(3) by (simp add: frame_block_def Let_def gs_def)
    qed
    have fst_b: "take gs (drop (k * gs) (mp_levels mp)) = fst ?b" by (simp add: lev frame_block_def Let_def gs_def)
    have lens: "k * (gs - 1) + (gs - 1) \<le> length (mp_buf mp)" "k * gs + gs \<le> length (mp_levels mp)" "k * gs + gs \<le> length samples"
      using gf D(2) lb I(3) lev by simp_all
    obtain sh' a where run: "shaper_process fa sh (mp_levels mp) (k * gs) (mp_buf mp) (k * (gs - 1)) samples (k * gs) =
        Some (sh', filled (k * gs) (k * gs + gs) (\<lambda>j. act_cell a (j - k * gs) ((pending id' gs sh @ sent_block gs (enc_memory gs sh) ?b) ! (j - k * gs))) samples)"
      "shaper_ok id' gs sh'" "decision sh a sh'" "enc_memory gs sh' = enc_next gs (enc_memory gs sh) (snd ?b)"
      "pending id' gs sh' = drop gs (pending id' gs sh @ sent_block gs (enc_memory gs sh) ?b)"
      "\<exists>xs. length xs = 24 \<and> ssf_progress fa (sh_ssf sh) xs = Some (sh_ssf sh')"
      using shaper_process_run [OF tx_inv_ok(1) [OF I(7)] _ lens, of fa] bm tx_inv_ok(2) [OF I(7)]
      unfolding snd_b fst_b sent_block_def safe_filters_def by blast
    have ssf: "sh_ssf sh' \<in> F" using run(6) bm tx_inv_ok(2) [OF I(7)] unfolding safe_filters_def by blast
    let ?W = "pending id' gs sh @ sent_block gs (enc_memory gs sh) ?b"
    let ?o = "map (\<lambda>j. act_cell a j (?W ! j)) [0..<gs]"
    let ?s = "filled (k * gs) (k * gs + gs) (\<lambda>j. act_cell a (j - k * gs) (?W ! (j - k * gs))) samples"
    have t: "take (Suc k * gs) ?s = concat (obs @ [?o])"
    proof -
      have "map (\<lambda>j. act_cell a (j - k * gs) (?W ! (j - k * gs))) [k * gs..<k * gs + gs] = ?o"
        by (rule nth_equalityI) simp_all
      moreover have "length (concat obs) = k * gs" using arg_cong [OF I(2), of length] I(3) lens(3) by simp
      ultimately show ?thesis using I(2,3) lens(3) by (simp add: filled_def)
    qed
    have nx: "tx_inv F id' gs m0 (bs @ map (frame_block sr D rows mc fb) [0..<Suc k]) (os @ drop p (obs @ [?o])) sh'"
      using tx_inv_step [OF I(7) bok run(2) ssf run(3,4,5)] I(4,6) by (auto simp: unat_eq_0 [symmetric] split: if_splits)
    have "unat (sh_primeFrames sh') = p - Suc k"
      using run(3) I(6) by (auto simp: decision_def unat_minus_one split: if_splits)
    moreover have "group_step fa k mp' = Some (mp\<lparr>mp_spectralShaper := sh', mp_samples := ?s\<rparr>)"
      unfolding group_step_def I(1) using run(1) by (simp add: lb(3) g1 g2)
    ultimately show "\<exists>s'. group_step fa k mp' = Some s' \<and> ?I (Suc k) s'"
      using t nx I(3,4,5) lens(3) by (intro exI conjI) (assumption | rule refl | simp)+
  qed
  then obtain sh samples obs where "for_loop 0 sr (group_step fa) mp = Some (mp\<lparr>mp_spectralShaper := sh, mp_samples := samples\<rparr>)"
    "take (sr * gs) samples = concat obs" "length samples = 6" "length obs = sr" "\<forall>o' \<in> set obs. length o' = gs"
     "unat (sh_primeFrames sh) = p - sr" "tx_inv F id' gs m0 (bs @ map (frame_block sr D rows mc fb) [0..<sr]) (os @ drop p obs) sh"
    by auto
  then show ?thesis using gz(1) by (intro exI [of _ sh] exI [of _ samples] exI [of _ obs]) (simp add: gs_def frame_blocks_def)
qed

lemma frame_samples_run:
  assumes ok: "mapper_ok sr id' D rows mc mp" and pk: "params_ok sr id' D rows mc" and bm: "safe_filters fa F"
    and fb: "length fb = D" "\<forall>b \<in> set fb. is_bit b" "take D (mp_buf mp) = fb"
    and inv: "tx_inv F id' (6 div sr) m0 bs os (mp_spectralShaper mp)"
  defines "gs \<equiv> 6 div sr" and "p \<equiv> unat (sh_primeFrames (mp_spectralShaper mp))"
  shows "\<exists>mp' obs. frame_samples fa mp = Some mp' \<and> mapper_ok sr id' D rows mc mp' \<and>
     mp_buf mp' = mp_buf mp \<and> mp_bitsBuffered mp' = mp_bitsBuffered mp \<and> mp_primeFrames mp' = mp_primeFrames mp \<and>
     mp_samples mp' = concat obs \<and> length obs = sr \<and> (\<forall>o' \<in> set obs. length o' = gs) \<and>
     unat (sh_primeFrames (mp_spectralShaper mp')) = p - sr \<and>
     tx_inv F id' gs m0 (bs @ frame_blocks sr D rows mc fb) (os @ drop p obs) (mp_spectralShaper mp')"
proof -
  note un = params_nats [OF pk] and fd = frame_digits [OF pk fb(1)]
  have D: "6 - sr < D" "D \<le> 80" using pk by (auto simp: params_ok_def)
  have l: "length (mp_codes mp) = 6" "length (mp_buf mp) = 80" "mp_modulusEncoder mp = mc" "unat (mp_signBitsPerFrame mp) = 6 - sr"
    "mp_signBitGroups mp = of_nat sr" using ok un by (simp_all add: mapper_ok_def)
  have bv: "bits_value (drop (6 - sr) (mp_buf mp)) (D - (6 - sr)) = bits_value (drop (6 - sr) fb) (D - (6 - sr))"
  proof (rule bits_value_cong)
    fix i assume "i < D - (6 - sr)"
    then have i: "6 - sr + i < D" by simp
    then have "mp_buf mp ! (6 - sr + i) = take D (mp_buf mp) ! (6 - sr + i)" by simp
    then show "drop (6 - sr) (mp_buf mp) ! i = drop (6 - sr) fb ! i"
      unfolding fb(3) using l(2) D i fb(1) by simp
  qed
  have "mc_ready mc (drop (6 - sr) (mp_buf mp))" using fd(1) l(2) D un fb(1) by (simp add: mc_ready_def)
  from encoder_value [OF this l(1)]
  have enc: "ModulusEncoder_progress mc (drop (6 - sr) (mp_buf mp)) (mp_codes mp) = Some (frame_codes sr D mc fb)"
    by (simp add: un bv frame_codes_def)
  define m1 where "m1 = mp\<lparr>mp_codes := frame_codes sr D mc fb\<rparr>"
  have ok1: "mapper_ok sr id' D rows mc m1" using ok by (simp add: mapper_ok_def m1_def frame_codes_def)
  define m2 where "m2 = m1\<lparr>mp_levels := frame_levels sr D rows mc fb\<rparr>"
  have "for_loop 0 6 level_step m1 = Some m2"
    using level_loop [OF ok1 pk] fd(3) by (simp add: m1_def m2_def frame_levels_def)
  moreover have ok2: "mapper_ok sr id' D rows mc m2" using ok1 by (simp add: mapper_ok_def m2_def)
  obtain sh samples obs where g: "for_loop 0 sr (group_step fa) m2 = Some (m2\<lparr>mp_spectralShaper := sh, mp_samples := samples\<rparr>)"
     "samples = concat obs" "length samples = 6" "length obs = sr" "\<forall>o' \<in> set obs. length o' = gs"
     "unat (sh_primeFrames sh) = p - sr" "tx_inv F id' gs m0 (bs @ frame_blocks sr D rows mc fb) (os @ drop p obs) sh"
    using group_loop [OF ok2 pk bm fb(1,2), of m0 bs os] fb(3) inv unfolding m2_def m1_def p_def gs_def by auto
  have sg: "mp_signBitGroups m2 = of_nat sr" using ok2 by (simp add: mapper_ok_def)
  have "frame_samples fa mp = Some (m2\<lparr>mp_spectralShaper := sh, mp_samples := samples\<rparr>)"
    unfolding frame_samples_def l enc Option.bind.bind_lunit m1_def [symmetric] \<open>for_loop 0 6 level_step m1 = Some m2\<close> sg un
    using un(5) g(1) by simp
  moreover have "mapper_ok sr id' D rows mc (m2\<lparr>mp_spectralShaper := sh, mp_samples := samples\<rparr>)"
    using ok2 g(3) by (simp add: mapper_ok_def)
  ultimately show ?thesis
    using g(2,4-7) by (intro exI [of _ "m2\<lparr>mp_spectralShaper := sh, mp_samples := samples\<rparr>"] exI [of _ obs])
      (simp add: m2_def m1_def)
qed

lemma word_of_nat_unat_u32: "of_nat (unat w) = (w :: u32)"
  by simp

lemma deliver_run:
  assumes ok: "mapper_ok sr id' D rows mc mp" and pk: "params_ok sr id' D rows mc"
    and p: "unat (mp_primeFrames mp) = p" "p \<le> 3" and gs: "gs = 6 div sr"
    and n: "n + (6 - p * gs) \<le> length symbols" "length symbols < 2 ^ 31"
  shows "deliver mp symbols (of_nat n) = Some (mp\<lparr>mp_primeFrames := of_nat (p - sr)\<rparr>,
     filled n (n + (6 - p * gs)) (\<lambda>j. mp_samples mp ! (j - n + p * gs)) symbols, of_nat (n + (6 - p * gs)))"
proof -
  have sr: "sr \<in> {1, 2, 3}" using pk by (auto simp: params_ok_def)
  note un = params_nats [OF pk] and gz = group_sizes [OF sr]
  have l: "length (mp_samples mp) = 6" "mp_signBitGroups mp = of_nat sr" "mp_signBitGroupSize mp = of_nat gs"
    using ok gs by (simp_all add: mapper_ok_def)
  have pw: "mp_primeFrames mp = of_nat p" using p(1) by (metis word_of_nat_unat_u32)
  have u: "unat (of_nat k :: u32) = k" if "k < 2 ^ 32" for k using that by (simp add: unat_of_nat take_bit_nat_eq_self)
  show ?thesis
  proof (cases "p = 0")
    case True
    have pos: "unat (of_nat n + of_nat k :: u32) = n + k" if "k < 6" for k
      using u [of "n + k"] that n True by simp
    have "for_loop 0 6 (\<lambda>k symbols. do { v \<leftarrow> rd_at (mp_samples mp) k; wr_at symbols (unat (of_nat n + of_nat k :: u32)) v }) symbols =
       Some ((\<lambda>k. filled n (n + k) (\<lambda>j. mp_samples mp ! (j - n)) symbols) (0 + 6))"
      by (rule for_loop_eq) (use l n True pos in \<open>auto simp: mem_simps\<close>)
    moreover have "mp\<lparr>mp_primeFrames := 0\<rparr> = mp" using pw True by simp
    ultimately show ?thesis using True pw by (simp add: deliver_def)
  next
    case False
    then have nz: "mp_primeFrames mp \<noteq> 0" using p(1) by auto
    show ?thesis
    proof (cases "sr \<le> p")
      case True
      have "of_nat sr \<le> (of_nat p :: u32)" using True u [of sr] u [of p] p(2) gz(6) by (simp add: word_le_nat_alt)
      moreover have "of_nat p - of_nat sr = (of_nat (p - sr) :: u32)" using True by simp
      moreover have "sr * gs \<le> p * gs" using True by (rule mult_le_mono1)
      then have "6 - p * gs = 0" using gz(1) gs by simp
      ultimately show ?thesis using nz by (simp add: deliver_def l pw)
    next
      case False
      have lt: "\<not> of_nat sr \<le> (of_nat p :: u32)" using False u [of sr] u [of p] p(2) gz(6) by (simp add: word_le_nat_alt)
      have "(p + 1) * gs \<le> sr * gs" using False by (intro mult_le_mono1) simp
      then have pg: "p * gs < 6" using gz(1,2) gs by simp
      have st: "(of_nat p :: u32) * of_nat gs = of_nat (p * gs)" by simp
      have st': "unat (of_nat (p * gs) :: u32) = p * gs" using u [of "p * gs"] pg by (simp del: of_nat_mult)
      have pos: "unat (of_nat n + of_nat k - of_nat (p * gs) :: u32) = n + (k - p * gs)" if "p * gs \<le> k" "k < 6" for k
      proof -
        have "of_nat n + of_nat k - (of_nat (p * gs) :: u32) = of_nat (n + (k - p * gs))" using that by (simp add: of_nat_diff)
        moreover have "n + (k - p * gs) < 2 ^ 32" using that n by simp
        ultimately show ?thesis by (simp only: u)
      qed
      have "for_loop (p * gs) (6 - p * gs)
          (\<lambda>k symbols. do { v \<leftarrow> rd_at (mp_samples mp) k; wr_at symbols (unat (of_nat n + of_nat k - of_nat (p * gs) :: u32)) v }) symbols =
         Some ((\<lambda>k. filled n (n + (k - p * gs)) (\<lambda>j. mp_samples mp ! (j - n + p * gs)) symbols) (p * gs + (6 - p * gs)))"
        by (rule for_loop_eq) (use l n pos pg in \<open>auto simp: mem_simps Suc_diff_le\<close>)
      moreover have "of_nat n + (6 - of_nat (p * gs)) = (of_nat (n + (6 - p * gs)) :: u32)" using pg by (simp add: of_nat_diff)
      ultimately show ?thesis
        using nz lt False pg unfolding deliver_def l pw st st' Let_def by (simp del: of_nat_mult of_nat_add)
    qed
  qed
qed

subsection \<open>A run of bits\<close>

definition sent_blocks :: "nat \<Rightarrow> nat \<Rightarrow> u16 list list \<Rightarrow> modulus_coder \<Rightarrow> u8 list \<Rightarrow> nat \<Rightarrow> block list" where
  "sent_blocks sr D rows mc bits f = concat (map (\<lambda>j. frame_blocks sr D rows mc (take D (drop (j * D) bits))) [0..<f])"

lemma length_sent_blocks [simp]: "length (sent_blocks sr D rows mc bits f) = f * sr"
  by (induction f) (simp_all add: sent_blocks_def frame_blocks_def)

lemma carries_widths: "carries bl s os bs s' \<Longrightarrow> o' \<in> set os \<Longrightarrow> length o' = bl"
  by (induction rule: carries.induct) (auto simp: act_block_def)

lemma tx_inv_outputs:
  assumes "tx_inv F id' bl m0 bs os sh"
  shows "length os = length bs - (id' - unat (sh_primeFrames sh))" "o' \<in> set os \<Longrightarrow> length o' = bl"
proof -
  obtain E Q m where q: "bs = E @ Q" "length Q = id' - unat (sh_primeFrames sh)" "carries bl (m0, 0) os E (m, sh_state sh)"
    using assms unfolding tx_inv_def by blast
  show "length os = length bs - (id' - unat (sh_primeFrames sh))" using q carries_length [OF q(3)] by simp
  show "o' \<in> set os \<Longrightarrow> length o' = bl" using carries_widths [OF q(3)] by simp
qed

lemma length_concat_same: "(\<And>o'. o' \<in> set os \<Longrightarrow> length o' = n) \<Longrightarrow> length (concat os) = length os * n"
  by (induction os) auto

text \<open>The state of a run after \<open>i\<close> bits.\<close>

definition run_inv :: "'d shaping_filter set \<Rightarrow> nat \<Rightarrow> nat \<Rightarrow> nat \<Rightarrow> u16 list list \<Rightarrow> modulus_coder \<Rightarrow> sign_memory \<Rightarrow> u8 list \<Rightarrow> nat \<Rightarrow>
    nat \<Rightarrow> 'd mapper \<times> u16 list \<times> u32 \<Rightarrow> bool" where
  "run_inv F sr id' D rows mc m0 bits room i = (\<lambda>(mp, symbols, nofOut).
     mapper_ok sr id' D rows mc mp \<and> mp_bitsBuffered mp = of_nat (i mod D) \<and>
     take (i mod D) (mp_buf mp) = take (i mod D) (drop (i div D * D) bits) \<and>
     unat (mp_primeFrames mp) = id' - i div D * sr \<and> unat (sh_primeFrames (mp_spectralShaper mp)) = id' - i div D * sr \<and>
     length symbols = room \<and>
     (\<exists>os. tx_inv F id' (6 div sr) m0 (sent_blocks sr D rows mc bits (i div D)) os (mp_spectralShaper mp) \<and>
        take (length (concat os)) symbols = concat os \<and> nofOut = of_nat (length (concat os))))"

lemma run_inv_length:
  assumes "tx_inv F id' gs m0 (sent_blocks sr D rows mc bits f) os sh" and "unat (sh_primeFrames sh) = id' - f * sr"
  shows "length (concat os) = (f * sr - id') * gs"
proof -
  have "length os = f * sr - id'" using tx_inv_outputs(1) [OF assms(1)] assms(2) by simp
  then show ?thesis using length_concat_same [of os gs] tx_inv_outputs(2) [OF assms(1)] by simp
qed

lemma filled_suffix:
  assumes "n + length zs \<le> length xs" and "\<And>j. j < length zs \<Longrightarrow> g (n + j) = zs ! j"
  shows "filled n (n + length zs) g xs = take n xs @ zs @ drop (n + length zs) xs"
proof (rule nth_equalityI)
  fix i assume "i < length (filled n (n + length zs) g xs)"
  then have i: "i < length xs" using assms(1) by (simp add: length_filled)
  have "g i = zs ! (i - n)" if "n \<le> i" "i < n + length zs" using assms(2) [of "i - n"] that by simp
  then show "filled n (n + length zs) g xs ! i = (take n xs @ zs @ drop (n + length zs) xs) ! i"
    using assms(1) i by (auto simp: filled_nth nth_append)
qed (use assms(1) in simp)

lemma drop_concat_same: "(\<And>o'. o' \<in> set os \<Longrightarrow> length o' = n) \<Longrightarrow> drop (p * n) (concat os) = concat (drop p os)"
proof (induction os arbitrary: p)
  case (Cons o' os)
  then show ?case by (cases p) auto
qed simp

text \<open>The last bit of a frame.\<close>

lemma frame_step:
  assumes ok: "mapper_ok sr id' D rows mc mp" and pk: "params_ok sr id' D rows mc" and bm: "safe_filters fa F"
    and fb: "length fb = D" "\<forall>b \<in> set fb. is_bit b" "take D (mp_buf mp) = fb"
    and inv: "tx_inv F id' (6 div sr) m0 bs os (mp_spectralShaper mp)"
    and p: "unat (mp_primeFrames mp) = p" "unat (sh_primeFrames (mp_spectralShaper mp)) = p"
    and sym: "take (length (concat os)) symbols = concat os" "length (concat os) + (6 - p * (6 div sr)) \<le> length symbols"
      "length symbols < 2 ^ 31"
  shows "\<exists>mp' symbols' os'. do { mp \<leftarrow> frame_samples fa mp; deliver mp symbols (of_nat (length (concat os))) } =
       Some (mp', symbols', of_nat (length (concat os'))) \<and> mapper_ok sr id' D rows mc mp' \<and>
     mp_bitsBuffered mp' = mp_bitsBuffered mp \<and> unat (mp_primeFrames mp') = p - sr \<and>
     unat (sh_primeFrames (mp_spectralShaper mp')) = p - sr \<and> length symbols' = length symbols \<and>
     take (length (concat os')) symbols' = concat os' \<and>
     tx_inv F id' (6 div sr) m0 (bs @ frame_blocks sr D rows mc fb) os' (mp_spectralShaper mp')"
proof -
  define gs where "gs = 6 div sr"
  have sr: "sr \<in> {1, 2, 3}" using pk by (auto simp: params_ok_def)
  have p3: "p \<le> 3" using tx_inv_ok(1) [OF inv] p(2) by (auto simp: shaper_ok_def shaper_core_def)
  obtain mp1 obs where f: "frame_samples fa mp = Some mp1" "mapper_ok sr id' D rows mc mp1" "mp_bitsBuffered mp1 = mp_bitsBuffered mp"
    "mp_primeFrames mp1 = mp_primeFrames mp" "mp_samples mp1 = concat obs" "length obs = sr" "\<forall>o' \<in> set obs. length o' = gs"
    "unat (sh_primeFrames (mp_spectralShaper mp1)) = p - sr"
    "tx_inv F id' gs m0 (bs @ frame_blocks sr D rows mc fb) (os @ drop p obs) (mp_spectralShaper mp1)"
    using frame_samples_run [OF ok pk bm fb inv] unfolding p(2) gs_def by blast
  let ?n = "length (concat os)" and ?z = "concat (drop p obs)"
  have lz: "length ?z = 6 - p * gs"
    using drop_concat_same [of obs gs p, symmetric] f(6,7) length_concat_same [of obs gs] group_sizes(1) [OF sr] by (simp add: gs_def)
  have d: "deliver mp1 symbols (of_nat ?n) = Some (mp1\<lparr>mp_primeFrames := of_nat (p - sr)\<rparr>,
     filled ?n (?n + (6 - p * gs)) (\<lambda>j. mp_samples mp1 ! (j - ?n + p * gs)) symbols, of_nat (?n + (6 - p * gs)))"
    using deliver_run [OF f(2) pk _ p3 gs_def, of ?n symbols] p(1) f(4) sym(2,3) by (simp add: gs_def)
  let ?s = "filled ?n (?n + (6 - p * gs)) (\<lambda>j. mp_samples mp1 ! (j - ?n + p * gs)) symbols"
  have s: "?s = take ?n symbols @ ?z @ drop (?n + length ?z) symbols"
    unfolding lz [symmetric]
  proof (rule filled_suffix)
    show "?n + length ?z \<le> length symbols" using sym(2) lz by (simp add: gs_def)
    fix j assume "j < length ?z"
    then have "?z ! j = drop (p * gs) (concat obs) ! j" using drop_concat_same [of obs gs p] f(7) by simp
    also have "\<dots> = concat obs ! (p * gs + j)"
      by (rule nth_drop) (use \<open>j < length ?z\<close> lz f(6,7) length_concat_same [of obs gs] group_sizes(1) [OF sr] in \<open>simp add: gs_def\<close>)
    finally show "mp_samples mp1 ! (?n + j - ?n + p * gs) = ?z ! j" by (simp add: f(5) add.commute)
  qed
  have lo: "length (concat (os @ drop p obs)) = ?n + (6 - p * gs)" using lz by simp
  have t: "take (length (concat (os @ drop p obs))) ?s = concat (os @ drop p obs)"
    using sym(1,2) lz unfolding s lo by (simp add: gs_def)
  have u: "unat (of_nat (p - sr) :: u32) = p - sr" using p3 by (simp add: unat_of_nat take_bit_nat_eq_self)
  show ?thesis
  proof (intro exI conjI)
    show "do { mp \<leftarrow> frame_samples fa mp; deliver mp symbols (of_nat ?n) } =
      Some (mp1\<lparr>mp_primeFrames := of_nat (p - sr)\<rparr>, ?s, of_nat (length (concat (os @ drop p obs))))"
      using f(1) d lo by simp
  qed (use f sym t u lz in \<open>simp_all add: mapper_ok_def gs_def\<close>)
qed

text \<open>A bit goes into the buffer; the last one of a frame starts the frame.\<close>

definition with_bit :: "nat \<Rightarrow> u8 list \<Rightarrow> nat \<Rightarrow> 'd mapper \<Rightarrow> 'd mapper" where
  "with_bit D bits i mp = mp\<lparr>mp_buf := (mp_buf mp)[i mod D := bits ! i], mp_bitsBuffered := of_nat (Suc (i mod D))\<rparr>"

lemma take_store: "m < length xs \<Longrightarrow> take (Suc m) (xs[m := v]) = take m xs @ [v]"
  by (simp add: take_Suc_conv_app_nth)

lemma buffer_bit:
  assumes pk: "params_ok sr id' D rows mc" and i: "i < length bits"
    and inv: "run_inv F sr id' D rows mc m0 bits room i (mp, symbols, nofOut)"
  shows "mapper_ok sr id' D rows mc (with_bit D bits i mp)"
    "take (Suc (i mod D)) (mp_buf (with_bit D bits i mp)) = take (Suc (i mod D)) (drop (i div D * D) bits)"
    "bit_step fa bits i (mp, symbols, nofOut) =
      (if Suc (i mod D) < D then Some (with_bit D bits i mp, symbols, nofOut)
       else do {
         (mp, symbols, nofOut) \<leftarrow> do { mp \<leftarrow> frame_samples fa (with_bit D bits i mp); deliver mp symbols nofOut };
         Some (mp\<lparr>mp_bitsBuffered := mp_bitsBuffered mp - mp_bitsPerFrame mp\<rparr>, symbols, nofOut)
       })"
proof -
  have D: "0 < D" "D \<le> 80" using pk by (auto simp: params_ok_def)
  have m: "i mod D < D" "i mod D < 80" using D mod_less_divisor [of D i] by linarith+
  have l: "mapper_ok sr id' D rows mc mp" "length (mp_buf mp) = 80" "mp_bitsPerFrame mp = of_nat D" "mp_bitsBuffered mp = of_nat (i mod D)"
    "take (i mod D) (mp_buf mp) = take (i mod D) (drop (i div D * D) bits)"
    using inv by (auto simp: run_inv_def mapper_ok_def)
  have nth: "drop (i div D * D) bits ! (i mod D) = bits ! i" using i div_times_less_eq_dividend [of i D] by (subst nth_drop) (linarith, simp)
  show ok1: "mapper_ok sr id' D rows mc (with_bit D bits i mp)" using l(1) by (simp add: mapper_ok_def with_bit_def)
  have "i mod D < length (drop (i div D * D) bits)"
    using i div_mult_mod_eq [of i D] unfolding length_drop by linarith
  then show "take (Suc (i mod D)) (mp_buf (with_bit D bits i mp)) = take (Suc (i mod D)) (drop (i div D * D) bits)"
    using l(2,5) m nth by (simp add: with_bit_def take_store take_Suc_conv_app_nth)
  have u: "unat (of_nat k :: u32) = k" if "k \<le> 80" for k using that by (simp add: unat_of_nat take_bit_nat_eq_self)
  have "(of_nat D \<le> (of_nat (Suc (i mod D)) :: u32)) = (\<not> Suc (i mod D) < D)"
    using u [of D] u [of "Suc (i mod D)"] m D unfolding word_le_nat_alt by auto
  moreover have "mp_bitsBuffered mp + 1 = of_nat (Suc (i mod D))" by (simp add: l(4) add.commute)
  ultimately have b: "(mp_bitsPerFrame mp \<le> mp_bitsBuffered mp + 1) = (\<not> Suc (i mod D) < D)"
    unfolding l(3) by (simp only:)
  show "bit_step fa bits i (mp, symbols, nofOut) =
      (if Suc (i mod D) < D then Some (with_bit D bits i mp, symbols, nofOut)
       else do {
         (mp, symbols, nofOut) \<leftarrow> do { mp \<leftarrow> frame_samples fa (with_bit D bits i mp); deliver mp symbols nofOut };
         Some (mp\<lparr>mp_bitsBuffered := mp_bitsBuffered mp - mp_bitsPerFrame mp\<rparr>, symbols, nofOut)
       })"
  proof -
    have w: "mp\<lparr>mp_buf := (mp_buf mp)[i mod D := bits ! i], mp_bitsBuffered := mp_bitsBuffered mp + 1\<rparr> = with_bit D bits i mp"
      by (simp add: with_bit_def l(4) add.commute)
    have "wr_at (mp_buf mp) (unat (mp_bitsBuffered mp)) (bits ! i) = Some ((mp_buf mp)[i mod D := bits ! i])"
      using m l(2,4) u [of "i mod D"] by (simp add: mem_simps)
    moreover have "rd_at bits i = Some (bits ! i)" using i by (simp add: mem_simps)
    ultimately show ?thesis
      using b w by (simp add: bit_step_def Let_def split_beta bind_assoc)
  qed
qed

lemma room_step:
  fixes q sr id' gs :: nat
  assumes "sr * gs = 6"
  shows "(q * sr - id') * gs + (6 - (id' - q * sr) * gs) = (Suc q * sr - id') * gs"
proof (cases "id' \<le> q * sr")
  case True
  then have e: "Suc q * sr - id' = (q * sr - id') + sr" "id' - q * sr = 0" by simp_all
  show ?thesis unfolding e distrib_right assms by simp
next
  case False
  then have e: "Suc q * sr - id' = sr - (id' - q * sr)" "q * sr - id' = 0" by simp_all
  show ?thesis unfolding e diff_mult_distrib [of sr] assms by simp
qed

lemma sent_blocks_Suc: "sent_blocks sr D rows mc bits (Suc f) = sent_blocks sr D rows mc bits f @ frame_blocks sr D rows mc (take D (drop (f * D) bits))"
  by (simp add: sent_blocks_def)

lemma bit_step_inv:
  assumes pk: "params_ok sr id' D rows mc" and bm: "safe_filters fa F" and bits: "\<forall>b \<in> set bits. is_bit b"
    and i: "i < N" "N \<le> length bits" and room: "(N div D * sr - id') * (6 div sr) \<le> room" "room < 2 ^ 31"
    and inv: "run_inv F sr id' D rows mc m0 bits room i (mp, symbols, nofOut)"
  shows "\<exists>s'. bit_step fa bits i (mp, symbols, nofOut) = Some s' \<and> run_inv F sr id' D rows mc m0 bits room (Suc i) s'"
proof -
  have sr: "sr \<in> {1, 2, 3}" and D: "0 < D" "D \<le> 80" using pk by (auto simp: params_ok_def)
  have il: "i < length bits" using i by simp
  note bb = buffer_bit [OF pk il inv]
  let ?q = "i div D" and ?mp = "with_bit D bits i mp"
  have same: "mp_primeFrames ?mp = mp_primeFrames mp" "mp_spectralShaper ?mp = mp_spectralShaper mp"
    "mp_bitsBuffered ?mp = of_nat (Suc (i mod D))" by (simp_all add: with_bit_def)
  obtain os where I: "unat (mp_primeFrames mp) = id' - ?q * sr" "unat (sh_primeFrames (mp_spectralShaper mp)) = id' - ?q * sr"
    "length symbols = room" "tx_inv F id' (6 div sr) m0 (sent_blocks sr D rows mc bits ?q) os (mp_spectralShaper mp)"
    "take (length (concat os)) symbols = concat os" "nofOut = of_nat (length (concat os))"
    using inv unfolding run_inv_def by auto
  show ?thesis
  proof (cases "Suc (i mod D) < D")
    case True
    then have "Suc i div D = ?q" "Suc i mod D = Suc (i mod D)" by (simp_all add: div_Suc mod_Suc)
    then have "run_inv F sr id' D rows mc m0 bits room (Suc i) (?mp, symbols, nofOut)"
      unfolding run_inv_def using bb(1,2) I same by auto
    then show ?thesis using bb(3) True by simp
  next
    case False
    then have m: "Suc (i mod D) = D" using mod_less_divisor [OF D(1), of i] by simp
    then have q: "Suc i div D = Suc ?q" "Suc i mod D = 0" by (simp_all add: div_Suc mod_Suc)
    let ?fb = "take D (drop (?q * D) bits)"
    have "?q * D + (D - 1) < length bits" using il m div_mult_mod_eq [of i D] by linarith
    then have fb: "length ?fb = D" "\<forall>b \<in> set ?fb. is_bit b" "take D (mp_buf ?mp) = ?fb"
      using bb(2) bits D(1) unfolding m by (auto dest!: in_set_takeD in_set_dropD)
    have "Suc ?q \<le> N div D" using div_le_mono [of "Suc i" N D] i(1) unfolding q(1) by simp
    then have "(Suc ?q * sr - id') * (6 div sr) \<le> (N div D * sr - id') * (6 div sr)"
      by (intro mult_le_mono1 diff_le_mono)
    then have rm: "length (concat os) + (6 - (id' - ?q * sr) * (6 div sr)) \<le> length symbols" "length symbols < 2 ^ 31"
      unfolding run_inv_length [OF I(4,2)] room_step [OF group_sizes(1) [OF sr], of ?q id'] I(3) using room by linarith+
    obtain mp' symbols' os' where f: "do { mp \<leftarrow> frame_samples fa ?mp; deliver mp symbols nofOut } =
         Some (mp', symbols', of_nat (length (concat os')))" "mapper_ok sr id' D rows mc mp'"
       "mp_bitsBuffered mp' = mp_bitsBuffered ?mp" "unat (mp_primeFrames mp') = id' - ?q * sr - sr"
       "unat (sh_primeFrames (mp_spectralShaper mp')) = id' - ?q * sr - sr" "length symbols' = length symbols"
       "take (length (concat os')) symbols' = concat os'"
       "tx_inv F id' (6 div sr) m0 (sent_blocks sr D rows mc bits ?q @ frame_blocks sr D rows mc ?fb) os' (mp_spectralShaper mp')"
      using frame_step [OF bb(1) pk bm fb I(4) [folded same(2)] _ _ I(5) rm] I(1,2) unfolding same(1,2) I(6) by blast
    let ?mp' = "mp'\<lparr>mp_bitsBuffered := mp_bitsBuffered mp' - mp_bitsPerFrame mp'\<rparr>"
    have "mapper_ok sr id' D rows mc ?mp'" "mp_bitsBuffered ?mp' = of_nat 0"
      using f(2,3) same(3) m by (simp_all add: mapper_ok_def)
    moreover have "id' - ?q * sr - sr = id' - Suc ?q * sr" by simp
    ultimately have "run_inv F sr id' D rows mc m0 bits room (Suc i) (?mp', symbols', of_nat (length (concat os')))"
      unfolding run_inv_def q sent_blocks_Suc using f(4-8) I(3) by auto
    moreover have "bit_step fa bits i (mp, symbols, nofOut) = Some (?mp', symbols', of_nat (length (concat os')))"
      using bb(3) [of fa] f(1) m by (simp add: case_prod_beta)
    ultimately show ?thesis by blast
  qed
qed

text \<open>All bits, from a mapper just reset.\<close>

lemma mapper_stream:
  assumes pk: "params_ok sr id' D rows mc" and bm: "safe_filters fa F" and bits: "\<forall>b \<in> set bits. is_bit b"
    and N: "unat nofBits \<le> length bits" and room: "(unat nofBits div D * sr - id') * (6 div sr) \<le> length symbols" "length symbols < 2 ^ 31"
    and ok: "mapper_ok sr id' D rows mc mp" and p: "unat (mp_primeFrames mp) = id'" "unat (sh_primeFrames (mp_spectralShaper mp)) = id'"
    and b0: "mp_bitsBuffered mp = 0" and inv: "tx_inv F id' (6 div sr) m0 [] [] (mp_spectralShaper mp)"
  shows "\<exists>mp' symbols' os. V90Mapper_process fa mp bits nofBits symbols = Some (mp', symbols', of_nat (length (concat os))) \<and>
     take (length (concat os)) symbols' = concat os \<and> length (concat os) = (unat nofBits div D * sr - id') * (6 div sr) \<and>
     tx_inv F id' (6 div sr) m0 (sent_blocks sr D rows mc bits (unat nofBits div D)) os (mp_spectralShaper mp')"
proof -
  let ?N = "unat nofBits"
  have "run_inv F sr id' D rows mc m0 bits (length symbols) 0 (mp, symbols, 0)"
    unfolding run_inv_def using ok p b0 inv by (auto simp: sent_blocks_def intro!: exI [of _ "[]"])
  then obtain s' where s': "for_loop 0 ?N (bit_step fa bits) (mp, symbols, 0) = Some s'"
    "run_inv F sr id' D rows mc m0 bits (length symbols) (0 + ?N) s'"
    using for_loop_inv [where I = "run_inv F sr id' D rows mc m0 bits (length symbols)" and i = 0 and n = ?N and f = "bit_step fa bits"]
      bit_step_inv [OF pk bm bits _ N room] by (metis add_0 prod_cases3)
  obtain mp' symbols' nofOut where c: "s' = (mp', symbols', nofOut)" by (cases s')
  obtain os where "unat (sh_primeFrames (mp_spectralShaper mp')) = id' - ?N div D * sr"
    "tx_inv F id' (6 div sr) m0 (sent_blocks sr D rows mc bits (?N div D)) os (mp_spectralShaper mp')"
    "take (length (concat os)) symbols' = concat os" "nofOut = of_nat (length (concat os))"
    using s'(2) unfolding c run_inv_def by auto
  then show ?thesis
    using s'(1) run_inv_length unfolding V90Mapper_process_def c by blast
qed

end
