(* ===== verification/V90Demapper.thy ===== *)
theory V90Demapper
  imports V90Mapper
begin

unbundle bit_operations_syntax

text \<open>
  The V.90 demapper, \<^verbatim>\<open>V90Demapper.cpp\<close>: it decides each received sample for the nearest level of
  the constellation in turn, keeps codes and signs, and gives back the bits of every whole frame. Of
  the impairment detector the level maps and the flags of the alternating phases are the record
  \<open>impairments\<close>; its running statistics, which are floating point, and the linear mapping study over
  them are left out, as is printing.
\<close>

record impairments =
  ai_linMapp :: "u16 list list"
  ai_linMappAlt :: "u16 list list"
  ai_altRbsFlag :: "u16 list"

record demapper_params =
  dp_histogram :: int
  dp_histogram_delay :: int
  dp_histogram_integration :: int
  dp_TRN2D_DD_LENGTH :: int

record demapper =
  dm_bitsPerFrame :: u32
  dm_modulusBitCount :: u32
  dm_signBitsPerFrame :: u32
  dm_signBitGroups :: u32
  dm_signBitGroupSize :: u32
  dm_rbsFramePosition :: u32
  dm_codes :: "u32 list"
  dm_signs :: "u8 list"
  dm_sampleCapacity :: u32
  dm_frameStart :: u32
  dm_sampleCount :: u32
  dm_constellation :: "u16 list list"
  dm_constellationSize :: "u32 list"
  dm_modulusDecoder :: modulus_coder
  dm_signDecoder :: u8
  dm_signBits :: extractor
  dm_errorSum :: "u32 list list"
  dm_errorCount :: "u32 list list"
  dm_errorHistogramCount :: u32
  dm_histogramDelay :: int
  dm_histogramIntegration :: int
  dm_decisionCode :: u16
  dm_decisionFramePosition :: u16

text \<open>The constructor; \<open>raw\<close> is the uninitialised object, its two arrays \<open>levels\<close> long.\<close>

definition V90Demapper_new :: "u32 \<Rightarrow> demapper \<Rightarrow> demapper" where
  "V90Demapper_new levels raw =
     raw\<lparr>dm_signDecoder := 0, dm_signBits := extractor_new (dm_signBits raw), dm_modulusDecoder := modulus_coder_zero,
         dm_sampleCapacity := levels, dm_sampleCount := 0, dm_frameStart := 0, dm_rbsFramePosition := 0,
         dm_signBitGroupSize := 0, dm_signBitGroups := 0, dm_signBitsPerFrame := 0, dm_modulusBitCount := 0,
         dm_bitsPerFrame := 0, dm_constellationSize := replicate 6 0, dm_errorHistogramCount := 0\<rparr>"

subsection \<open>Histogram\<close>

definition zero_table :: "u32 list list" where
  "zero_table = replicate 6 (replicate 128 0)"

definition printErrorHistogramAndReset :: "demapper \<Rightarrow> demapper" where
  "printErrorHistogramAndReset dm =
     (let dm = (if \<forall>n \<in> set (dm_constellationSize dm). n \<noteq> 0
        then dm\<lparr>dm_errorSum := zero_table, dm_errorCount := zero_table\<rparr> else dm)
      in dm\<lparr>dm_errorHistogramCount := dm_errorHistogramCount dm + 1\<rparr>)"

definition wr2 :: "'a list list \<Rightarrow> nat \<Rightarrow> nat \<Rightarrow> ('a \<Rightarrow> 'a) \<Rightarrow> 'a list list option" where
  "wr2 rows i j f = do {
     row \<leftarrow> rd_at rows i;
     v \<leftarrow> rd_at row j;
     row \<leftarrow> wr_at row j (f v);
     wr_at rows i row
   }"

definition histogram_note :: "demapper_params \<Rightarrow> nat \<Rightarrow> nat \<Rightarrow> u16 \<Rightarrow> demapper \<Rightarrow> demapper option" where
  "histogram_note dp pos code err dm =
     (if dp_histogram dp = 0 then Some dm
      else if dm_histogramDelay dm \<noteq> 0 then Some (dm\<lparr>dm_histogramDelay := dm_histogramDelay dm - 1\<rparr>)
      else do {
        s \<leftarrow> wr2 (dm_errorSum dm) pos code (\<lambda>v. v + of_int (sint err));
        c \<leftarrow> wr2 (dm_errorCount dm) pos code (\<lambda>v. v + 1);
        let dm = dm\<lparr>dm_errorSum := s, dm_errorCount := c\<rparr>;
        Some (if dm_histogramIntegration dm \<ge> dp_histogram_integration dp
          then (printErrorHistogramAndReset dm)\<lparr>dm_histogramIntegration := 0\<rparr>
          else dm\<lparr>dm_histogramIntegration := dm_histogramIntegration dm + 1\<rparr>)
      })"

subsection \<open>Decision\<close>

text \<open>\<open>(short)abs(x)\<close>.\<close>

definition short_abs :: "int \<Rightarrow> u16" where
  "short_abs x = of_int \<bar>x\<bar>"

function scan_levels :: "u16 list \<Rightarrow> u16 \<Rightarrow> nat \<Rightarrow> nat \<Rightarrow> nat option" where
  "scan_levels row mag limit code =
     (if length row \<le> code then None
      else if sint (row ! code) \<ge> sint mag \<and> code < limit then scan_levels row mag limit (Suc code)
      else Some code)"
  by pat_completeness auto
termination by (relation "measure (\<lambda>(row, mag, limit, code). length row - code)") auto

declare scan_levels.simps [simp del]

text \<open>The index and the level the sample is decided for, with the distance.\<close>

definition nearest_level :: "u16 list \<Rightarrow> u32 \<Rightarrow> u16 \<Rightarrow> (nat \<times> u16 \<times> u16) option" where
  "nearest_level row n x = do {
     code \<leftarrow> scan_levels row (short_abs (sint x)) (unat (n - 1)) 0;
     let code = code - 1;
     v \<leftarrow> rd_at row code;
     w \<leftarrow> rd_at row (code + 1);
     let err = short_abs (sint v - sint x);
     let alt = short_abs (sint w - sint x);
     Some (if sint alt < sint err then (code + 1, w, alt) else (code, v, err))
   }"

definition hardDecision :: "demapper_params \<Rightarrow> impairments \<Rightarrow> demapper \<Rightarrow> u16 \<Rightarrow> (demapper \<times> u16) option" where
  "hardDecision dp ai dm x = do {
     let pos = unat (dm_rbsFramePosition dm);
     let dm = dm\<lparr>dm_decisionFramePosition := ucast (dm_rbsFramePosition dm)\<rparr>;
     if dm_sampleCount dm \<ge> dm_sampleCapacity dm then Some (dm\<lparr>dm_decisionCode := 0\<rparr>, 0)
     else do {
       let neg = (sint x < 0);
       signs \<leftarrow> wr_at (dm_signs dm) (unat (dm_sampleCount dm)) (if neg then 0 else 1);
       let x = (if neg then short_abs (sint x) else x);
       n \<leftarrow> rd_at (dm_constellationSize dm) pos;
       flag \<leftarrow> rd_at (ai_altRbsFlag ai) pos;
       let n = (if flag \<noteq> 0 then 2 * n else n);
       row \<leftarrow> rd_at (dm_constellation dm) pos;
       (code, level, err) \<leftarrow> nearest_level row n x;
       dm \<leftarrow> histogram_note dp pos code err (dm\<lparr>dm_signs := signs\<rparr>);
       codes \<leftarrow> wr_at (dm_codes dm) (unat (dm_sampleCount dm))
         (if flag \<noteq> 0 then of_int (sint (of_nat (code div 2) :: u16)) else of_nat code);
       Some (dm\<lparr>dm_codes := codes, dm_sampleCount := dm_sampleCount dm + 1,
           dm_rbsFramePosition := (dm_rbsFramePosition dm + 1) mod 6, dm_decisionCode := of_nat code\<rparr>,
         of_int ((if neg then - 1 else 1) * sint level))
     }
   }"

definition incrementRBSFramePosition :: "demapper \<Rightarrow> demapper" where
  "incrementRBSFramePosition dm = dm\<lparr>dm_rbsFramePosition := (dm_rbsFramePosition dm + 1) mod 6\<rparr>"

subsection \<open>Frames\<close>

definition demap_group :: "u32 \<Rightarrow> nat \<Rightarrow> demapper \<times> u8 list \<Rightarrow> (demapper \<times> u8 list) option" where
  "demap_group nb g = (\<lambda>(dm, out). do {
     (sx, out) \<leftarrow> extractor_process (dm_signBits dm)
       (dm_signs dm) (unat (dm_frameStart dm + dm_signBitGroupSize dm * of_nat g))
       out (unat (nb + (dm_signBitGroupSize dm - 1) * of_nat g));
     Some (dm\<lparr>dm_signBits := sx\<rparr>, out)
   })"

definition demap_sign :: "u32 \<Rightarrow> nat \<Rightarrow> demapper \<times> u8 list \<Rightarrow> (demapper \<times> u8 list) option" where
  "demap_sign nb b = (\<lambda>(dm, out). do {
     s \<leftarrow> rd_at (dm_signs dm) (unat (dm_frameStart dm + of_nat b));
     let (v, prev) = serial_decode (dm_signDecoder dm) s;
     out \<leftarrow> wr_at out (unat (nb + of_nat b)) v;
     Some (dm\<lparr>dm_signDecoder := prev\<rparr>, out)
   })"

definition demap_frame :: "demapper \<Rightarrow> u8 list \<Rightarrow> u32 \<Rightarrow> (demapper \<times> u8 list \<times> u32) option" where
  "demap_frame dm out nb = do {
     let off = unat (nb + dm_signBitsPerFrame dm);
     bytes \<leftarrow> ModulusDecoder_progress (dm_modulusDecoder dm) (drop off out) (drop (unat (dm_frameStart dm)) (dm_codes dm));
     let out = take off out @ bytes;
     (dm, out) \<leftarrow> (if dm_signBitGroups dm \<noteq> 0
       then for_loop 0 (unat (dm_signBitGroups dm)) (demap_group nb) (dm, out)
       else for_loop 0 (unat (dm_signBitsPerFrame dm)) (demap_sign nb) (dm, out));
     Some (dm\<lparr>dm_frameStart := dm_frameStart dm + 6\<rparr>, out, nb + dm_bitsPerFrame dm)
   }"

text \<open>Each round of the loop takes six samples, so the number of samples bounds the rounds.\<close>

fun demap_frames :: "nat \<Rightarrow> demapper \<times> u8 list \<times> u32 \<Rightarrow> (demapper \<times> u8 list \<times> u32) option" where
  "demap_frames 0 s = None"
| "demap_frames (Suc fuel) (dm, out, nb) =
     (if dm_frameStart dm + 6 \<le> dm_sampleCount dm
      then do { s \<leftarrow> demap_frame dm out nb; demap_frames fuel s }
      else Some (dm, out, nb))"

definition keep_step :: "nat \<Rightarrow> nat \<Rightarrow> demapper \<Rightarrow> demapper option" where
  "keep_step fs i dm = do {
     c \<leftarrow> rd_at (dm_codes dm) (fs + i);
     codes \<leftarrow> wr_at (dm_codes dm) i c;
     s \<leftarrow> rd_at (dm_signs dm) (fs + i);
     signs \<leftarrow> wr_at (dm_signs dm) i s;
     Some (dm\<lparr>dm_codes := codes, dm_signs := signs\<rparr>)
   }"

text \<open>The result is the return value, the number of bits and the output buffer.\<close>

definition V90Demapper_process :: "demapper \<Rightarrow> u8 list \<Rightarrow> (demapper \<times> u8 list \<times> u32 \<times> int) option" where
  "V90Demapper_process dm out =
     (if dm_sampleCount dm \<le> 5 then Some (dm, out, 0, 0)
      else do {
        (dm, out, nb) \<leftarrow> demap_frames (unat (dm_sampleCount dm) + 1) (dm, out, 0);
        let left = unat (dm_sampleCount dm) - unat (dm_frameStart dm);
        dm \<leftarrow> for_loop 0 left (keep_step (unat (dm_frameStart dm))) dm;
        Some (dm\<lparr>dm_sampleCount := of_nat left, dm_frameStart := 0\<rparr>, out, nb, 1)
      })"

subsection \<open>Reset\<close>

text \<open>One octet of a row: its level, or its two levels in falling order where the phase alternates.\<close>

definition demap_level :: "impairments \<Rightarrow> nat \<Rightarrow> bool \<Rightarrow> u8 list \<Rightarrow> nat \<Rightarrow> u16 list \<Rightarrow> u16 list option" where
  "demap_level ai i both src j row = do {
     c \<leftarrow> rd_at src j;
     lin \<leftarrow> rd_at (ai_linMapp ai) i;
     v \<leftarrow> rd_at lin (unat c);
     if both then do {
       lin \<leftarrow> rd_at (ai_linMappAlt ai) i;
       w \<leftarrow> rd_at lin (unat c);
       let (v, w) = (if sint v > sint w then (v, w) else (w, v));
       row \<leftarrow> wr_at row (2 * j) v;
       wr_at row (2 * j + 1) w
     }
     else wr_at row j v
   }"

definition demap_row :: "impairments \<Rightarrow> 'd mapping_params \<Rightarrow> nat \<Rightarrow> demapper \<Rightarrow> demapper option" where
  "demap_row ai vp i dm = do {
     n \<leftarrow> rd_at (vp_constellationSize vp) i;
     sizes \<leftarrow> wr_at (dm_constellationSize dm) i n;
     flag \<leftarrow> rd_at (ai_altRbsFlag ai) i;
     src \<leftarrow> rd_at (vp_constellation vp) i;
     row \<leftarrow> rd_at (dm_constellation dm) i;
     row \<leftarrow> for_loop 0 (unat n) (demap_level ai i (flag \<noteq> 0) src) row;
     rows \<leftarrow> wr_at (dm_constellation dm) i row;
     Some (dm\<lparr>dm_constellationSize := sizes, dm_constellation := rows\<rparr>)
   }"

definition load_decoder :: "demapper \<Rightarrow> demapper option" where
  "load_decoder dm = do {
     c0 \<leftarrow> rd_at (dm_constellationSize dm) 0;
     c1 \<leftarrow> rd_at (dm_constellationSize dm) 1;
     c2 \<leftarrow> rd_at (dm_constellationSize dm) 2;
     c3 \<leftarrow> rd_at (dm_constellationSize dm) 3;
     c4 \<leftarrow> rd_at (dm_constellationSize dm) 4;
     c5 \<leftarrow> rd_at (dm_constellationSize dm) 5;
     Some (dm\<lparr>dm_modulusDecoder := modulus_coder_new c0 c1 c2 c3 c4 c5 (dm_modulusBitCount dm)\<rparr>)
   }"

definition V90Demapper_reset :: "demapper_params \<Rightarrow> impairments \<Rightarrow> 'd mapping_params \<Rightarrow> demapper \<Rightarrow> demapper option" where
  "V90Demapper_reset dp ai vp dm = do {
     let sr = vp_shaperSR vp;
     let dm = dm\<lparr>dm_bitsPerFrame := vp_word_0 vp, dm_signBitGroups := sr, dm_signBitsPerFrame := 6 - sr,
       dm_modulusBitCount := vp_word_0 vp - (6 - sr),
       dm_signBitGroupSize := (if sr \<noteq> 0 then 6 div sr else dm_signBitGroupSize dm)\<rparr>;
     dm \<leftarrow> for_loop 0 6 (demap_row ai vp) dm;
     dm \<leftarrow> load_decoder dm;
     sx \<leftarrow> extractor_reset sr 0 (dm_signBits dm);
     Some (dm\<lparr>dm_signDecoder := 0, dm_signBits := sx, dm_sampleCount := 0, dm_frameStart := 0, dm_rbsFramePosition := 0,
       dm_errorSum := zero_table, dm_errorCount := zero_table,
       dm_histogramDelay := (if dp_histogram_delay dp < dp_TRN2D_DD_LENGTH dp then dp_histogram_delay dp else 0),
       dm_histogramIntegration := 0, dm_decisionFramePosition := 0\<rparr>)
   }"

definition V90Demapper_resetNoSpectral :: "demapper_params \<Rightarrow> impairments \<Rightarrow> 'd mapping_params \<Rightarrow> demapper \<Rightarrow> demapper option" where
  "V90Demapper_resetNoSpectral dp ai vp dm = do {
     let dm = dm\<lparr>dm_bitsPerFrame := vp_word_0 vp, dm_modulusBitCount := vp_word_0 vp - dm_signBitsPerFrame dm\<rparr>;
     let dm = (if dp_histogram dp \<noteq> 0
       then (printErrorHistogramAndReset dm)\<lparr>dm_histogramIntegration := 0, dm_histogramDelay := dp_histogram_delay dp\<rparr>
       else dm);
     dm \<leftarrow> for_loop 0 6 (demap_row ai vp) dm;
     dm \<leftarrow> load_decoder dm;
     Some (dm\<lparr>dm_signDecoder := 0\<rparr>)
   }"

end
