(* ===== verification/V90Decide.thy ===== *)
theory V90Decide
  imports V90Demapper
begin

text \<open>
  The demapper's decisions: a sample is decided for the nearest level of a falling row, a sample that
  is a level is decided for that level, and the code and the sign are stored side by side.
\<close>

lemma sint_bounds_u16: "- 32768 \<le> sint (x :: u16)" "sint (x :: u16) < 32768"
  using sint_range_size [of x] by (simp_all add: word_size)

lemma sint_short: "- 32768 \<le> z \<Longrightarrow> z < 32768 \<Longrightarrow> sint (of_int z :: u16) = z"
  by (simp add: signed_of_int signed_take_bit_int_eq_self)

lemma sint_short_abs: "\<bar>d\<bar> < 32768 \<Longrightarrow> sint (short_abs d) = \<bar>d\<bar>"
  by (simp add: short_abs_def signed_of_int signed_take_bit_int_eq_self)

lemma scan_levels_run:
  "code \<le> limit \<Longrightarrow> limit < length row \<Longrightarrow>
   \<exists>c. scan_levels row mag limit code = Some c \<and> code \<le> c \<and> c \<le> limit \<and>
     (\<forall>j. code \<le> j \<longrightarrow> j < c \<longrightarrow> sint mag \<le> sint (row ! j)) \<and> (c = limit \<or> sint (row ! c) < sint mag)"
proof (induction row mag limit code rule: scan_levels.induct)
  case (1 row mag limit code)
  show ?case
  proof (cases "sint mag \<le> sint (row ! code) \<and> code < limit")
    case True
    then obtain c where c: "scan_levels row mag limit (Suc code) = Some c" "Suc code \<le> c" "c \<le> limit"
      "\<And>j. Suc code \<le> j \<Longrightarrow> j < c \<Longrightarrow> sint mag \<le> sint (row ! j)" "c = limit \<or> sint (row ! c) < sint mag"
      using "1.IH" "1.prems" by auto
    moreover have "scan_levels row mag limit code = scan_levels row mag limit (Suc code)"
      using True "1.prems" by (simp add: scan_levels.simps [of row mag limit code])
    ultimately show ?thesis using True by (metis Suc_leD Suc_leI le_neq_implies_less)
  next
    case False
    then have "scan_levels row mag limit code = Some code"
      using "1.prems" by (auto simp: scan_levels.simps [of row mag limit code])
    then show ?thesis using False "1.prems" by auto
  qed
qed

text \<open>A row of levels the demapper may decide for: at least two positive levels in falling order.\<close>

definition falling :: "u16 list \<Rightarrow> nat \<Rightarrow> bool" where
  "falling row n \<longleftrightarrow> 2 \<le> n \<and> n \<le> length row \<and> (\<forall>j < n. 0 < sint (row ! j)) \<and>
     (\<forall>i j. i < j \<longrightarrow> j < n \<longrightarrow> sint (row ! j) < sint (row ! i))"

lemma falling_le: "falling row n \<Longrightarrow> i \<le> j \<Longrightarrow> j < n \<Longrightarrow> sint (row ! j) \<le> sint (row ! i)"
  by (cases "i = j") (auto simp: falling_def intro!: less_imp_le)

lemma nearest_level_run:
  assumes f: "falling row n" and n: "unat m = n" and x: "0 \<le> sint x"
  shows "\<exists>c. nearest_level row m x = Some (c, row ! c, short_abs (sint (row ! c) - sint x)) \<and> c < n \<and>
     (\<forall>j < n. \<bar>sint (row ! c) - sint x\<bar> \<le> \<bar>sint (row ! j) - sint x\<bar>)"
proof -
  let ?r = "\<lambda>j. sint (row ! j)" and ?x = "sint x"
  have le: "2 \<le> n" "n \<le> length row" and pos: "\<And>j. j < n \<Longrightarrow> 0 < ?r j" using f by (auto simp: falling_def)
  have "m \<noteq> 0" using n le(1) by auto
  then have m1: "unat (m - 1) = n - 1" using n by (simp add: unat_minus_one)
  have mag: "sint (short_abs ?x) = ?x" using x sint_bounds_u16 [of x] by (subst sint_short_abs) auto
  obtain c where c: "scan_levels row (short_abs ?x) (n - 1) 0 = Some c" "c \<le> n - 1"
    "\<And>j. j < c \<Longrightarrow> ?x \<le> ?r j" "c = n - 1 \<or> ?r c < ?x"
    using scan_levels_run [of 0 "n - 1" row "short_abs ?x"] le unfolding mag by fastforce
  define k where "k = c - 1"
  have k: "k + 1 < n" "c = 0 \<and> k = 0 \<or> c = k + 1" using c(2) le(1) by (auto simp: k_def)
  have d: "sint (short_abs (?r j - ?x)) = \<bar>?r j - ?x\<bar>" if "j < n" for j
    using pos [OF that] x sint_bounds_u16(2) [of x] sint_bounds_u16(2) [of "row ! j"] by (intro sint_short_abs) linarith
  define b where "b = (if \<bar>?r (k + 1) - ?x\<bar> < \<bar>?r k - ?x\<bar> then k + 1 else k)"
  have "nearest_level row m x = Some (b, row ! b, short_abs (?r b - ?x))"
    unfolding nearest_level_def m1 c(1) Option.bind.bind_lunit Let_def k_def [symmetric]
    using k(1) le(2) d [of k] d [of "k + 1"] by (simp add: rd_at_def b_def)
  moreover have "b < n" using k(1) by (simp add: b_def)
  moreover have "\<bar>?r b - ?x\<bar> \<le> \<bar>?r j - ?x\<bar>" if j: "j < n" for j
  proof -
    have down: "?r (k + 1) < ?r k" using f k(1) by (simp add: falling_def)
    have hi: "?r k \<le> ?r j" if "j \<le> k" using falling_le [OF f that] k(1) by simp
    have lo: "?r j \<le> ?r (k + 1)" if "\<not> j \<le> k" using falling_le [OF f, of "k + 1" j] that j by simp
    have b: "\<bar>?r b - ?x\<bar> = min \<bar>?r k - ?x\<bar> \<bar>?r (k + 1) - ?x\<bar>" by (simp add: b_def min_def)
    consider (first) "c = 0" "k = 0" | (up) "c = k + 1" "?x \<le> ?r k" "?r (k + 1) < ?x" | (last) "?x \<le> ?r k" "k + 1 = n - 1"
      using k(2) c(3) [of k] c(4) by fastforce
    then show ?thesis
    proof cases
      case first
      then have "?r 0 < ?x" using c(4) le(1) by simp
      then show ?thesis using first falling_le [OF f _ j, of 0] unfolding b by simp
    next
      case up
      then show ?thesis using hi lo down unfolding b by (cases "j \<le> k") auto
    next
      case last
      then have "j \<le> k \<or> j = k + 1" using j by linarith
      then show ?thesis using hi last(1) unfolding b by auto
    qed
  qed
  ultimately show ?thesis by blast
qed

text \<open>The sample \<open>-32768\<close> has no 16-bit magnitude: every level is above it, the scan runs to the end of the
  row, and of the last two distances, both truncated, the innermost level has the smaller.\<close>

lemma nearest_level_lowest:
  assumes f: "falling row n" and n: "unat m = n"
  shows "\<exists>err. nearest_level row m (short_abs (- 32768)) = Some (n - 1, row ! (n - 1), err)"
proof -
  let ?r = "\<lambda>j. sint (row ! j)" and ?x = "short_abs (- 32768)"
  have le: "2 \<le> n" "n \<le> length row" and pos: "\<And>j. j < n \<Longrightarrow> 0 < ?r j" using f by (auto simp: falling_def)
  have "m \<noteq> 0" using n le(1) by auto
  then have m1: "unat (m - 1) = n - 1" using n by (simp add: unat_minus_one)
  have x: "sint ?x = - 32768" and xx: "short_abs (sint ?x) = ?x" by (simp_all add: short_abs_def)
  obtain c where c: "scan_levels row ?x (n - 1) 0 = Some c" "c \<le> n - 1" "c = n - 1 \<or> ?r c < - 32768"
    using scan_levels_run [of 0 "n - 1" row ?x] le unfolding x by fastforce
  have cn: "c = n - 1" using c(3) sint_bounds_u16(1) [of "row ! c"] by linarith
  have d: "sint (short_abs (?r j + 32768)) = ?r j - 32768" if "j < n" for j
  proof -
    have "short_abs (?r j + 32768) = of_int (?r j - 32768 + 65536)" using pos [OF that] by (simp add: short_abs_def)
    also have "\<dots> = of_int (?r j - 32768)" by simp
    also have "sint \<dots> = ?r j - 32768"
      using pos [OF that] sint_bounds_u16(2) [of "row ! j"] by (intro sint_short) linarith+
    finally show ?thesis .
  qed
  have s: "n - 1 - 1 + 1 = n - 1" "n - 1 - 1 < n" "n - 1 < n" using le(1) by simp_all
  have "?r (n - 1) < ?r (n - 1 - 1)" using f le(1) by (simp add: falling_def)
  then have "sint (short_abs (?r (n - 1) + 32768)) < sint (short_abs (?r (n - 1 - 1) + 32768))"
    unfolding d [OF s(2)] d [OF s(3)] by simp
  moreover have "n - 1 - 1 < length row" "n - 1 < length row" using le by linarith+
  ultimately show ?thesis
    unfolding nearest_level_def m1 xx c(1) Option.bind.bind_lunit Let_def cn s(1) x by (simp add: rd_at_def)
qed

text \<open>A level is decided for itself.\<close>

lemma nearest_level_exact:
  assumes f: "falling row n" and "unat m = n" and j: "j < n"
  shows "nearest_level row m (row ! j) = Some (j, row ! j, 0)"
proof -
  have "0 \<le> sint (row ! j)" using f j by (simp add: falling_def less_imp_le)
  from nearest_level_run [OF f assms(2) this]
  obtain c where c: "nearest_level row m (row ! j) = Some (c, row ! c, short_abs (sint (row ! c) - sint (row ! j)))" "c < n"
    "\<bar>sint (row ! c) - sint (row ! j)\<bar> \<le> \<bar>sint (row ! j) - sint (row ! j)\<bar>" using j by blast
  then have e: "sint (row ! c) = sint (row ! j)" by simp
  have "c = j"
  proof (rule ccontr)
    assume "c \<noteq> j"
    then have "c < j \<or> j < c" by linarith
    then show False using f e c(2) j by (fastforce simp: falling_def)
  qed
  then show ?thesis using c(1) by (simp add: short_abs_def)
qed

subsection \<open>The histogram\<close>

definition tables_ok :: "demapper \<Rightarrow> bool" where
  "tables_ok dm \<longleftrightarrow> length (dm_errorSum dm) = 6 \<and> (\<forall>row \<in> set (dm_errorSum dm). length row = 128) \<and>
     length (dm_errorCount dm) = 6 \<and> (\<forall>row \<in> set (dm_errorCount dm). length row = 128)"

definition with_histogram :: "u32 list list \<Rightarrow> u32 list list \<Rightarrow> u32 \<Rightarrow> int \<Rightarrow> int \<Rightarrow> demapper \<Rightarrow> demapper" where
  "with_histogram es ec hc hd' hi dm = dm\<lparr>dm_errorSum := es, dm_errorCount := ec, dm_errorHistogramCount := hc,
     dm_histogramDelay := hd', dm_histogramIntegration := hi\<rparr>"

lemma wr2_run:
  assumes "length rows = 6" and "\<forall>row \<in> set rows. length row = 128" and "i < 6" and "j < 128"
  shows "\<exists>rows'. wr2 rows i j f = Some rows' \<and> length rows' = 6 \<and> (\<forall>row \<in> set rows'. length row = 128)"
proof -
  have "length (rows ! i) = 128" using assms by simp
  then have "wr2 rows i j f = Some (rows[i := (rows ! i)[j := f (rows ! i ! j)]])"
    using assms by (simp add: wr2_def mem_simps)
  moreover have "length row = 128" if "row \<in> set (rows[i := (rows ! i)[j := f (rows ! i ! j)]])" for row
    using set_update_subset_insert that assms(2) \<open>length (rows ! i) = 128\<close> by fastforce
  ultimately show ?thesis using assms(1) by auto
qed

lemma zero_table_ok: "length zero_table = 6" "\<forall>row \<in> set zero_table. length row = 128"
  by (simp_all add: zero_table_def)

lemma histogram_note_run:
  assumes t: "tables_ok dm" and "pos < 6" and "code < 128"
  shows "\<exists>es ec hc hd' hi. histogram_note dp pos code err dm = Some (with_histogram es ec hc hd' hi dm) \<and>
     tables_ok (with_histogram es ec hc hd' hi dm)"
proof -
  have same: "dm = with_histogram (dm_errorSum dm) (dm_errorCount dm) (dm_errorHistogramCount dm) (dm_histogramDelay dm) (dm_histogramIntegration dm) dm"
    by (simp add: with_histogram_def)
  consider "dp_histogram dp = 0" | "dp_histogram dp \<noteq> 0" "dm_histogramDelay dm \<noteq> 0" | "dp_histogram dp \<noteq> 0" "dm_histogramDelay dm = 0" by blast
  then show ?thesis
  proof cases
    case 1
    then show ?thesis using t same by (metis (no_types, lifting) histogram_note_def)
  next
    case 2
    then have "histogram_note dp pos code err dm = Some (with_histogram (dm_errorSum dm) (dm_errorCount dm) (dm_errorHistogramCount dm)
        (dm_histogramDelay dm - 1) (dm_histogramIntegration dm) dm)" by (simp add: histogram_note_def with_histogram_def)
    moreover have "tables_ok (with_histogram (dm_errorSum dm) (dm_errorCount dm) (dm_errorHistogramCount dm)
        (dm_histogramDelay dm - 1) (dm_histogramIntegration dm) dm)" using t by (simp add: tables_ok_def with_histogram_def)
    ultimately show ?thesis by blast
  next
    case 3
    obtain es where es: "wr2 (dm_errorSum dm) pos code (\<lambda>v. v + of_int (sint err)) = Some es" "length es = 6" "\<forall>row \<in> set es. length row = 128"
      using wr2_run assms unfolding tables_ok_def by blast
    obtain ec where ec: "wr2 (dm_errorCount dm) pos code (\<lambda>v. v + 1) = Some ec" "length ec = 6" "\<forall>row \<in> set ec. length row = 128"
      using wr2_run assms unfolding tables_ok_def by blast
    let ?d = "dm\<lparr>dm_errorSum := es, dm_errorCount := ec\<rparr>"
    have n: "histogram_note dp pos code err dm = Some (if dm_histogramIntegration ?d \<ge> dp_histogram_integration dp
          then (printErrorHistogramAndReset ?d)\<lparr>dm_histogramIntegration := 0\<rparr>
          else ?d\<lparr>dm_histogramIntegration := dm_histogramIntegration ?d + 1\<rparr>)"
      using 3 es(1) ec(1) by (simp add: histogram_note_def)
    define full where "full = (\<forall>n \<in> set (dm_constellationSize dm). n \<noteq> 0)"
    define over where "over = (dp_histogram_integration dp \<le> dm_histogramIntegration dm)"
    let ?w = "with_histogram (if over \<and> full then zero_table else es) (if over \<and> full then zero_table else ec)
      (if over then dm_errorHistogramCount dm + 1 else dm_errorHistogramCount dm) (dm_histogramDelay dm)
      (if over then 0 else dm_histogramIntegration dm + 1) dm"
    have "histogram_note dp pos code err dm = Some ?w"
      unfolding n by (simp add: printErrorHistogramAndReset_def with_histogram_def over_def [symmetric] full_def [symmetric])
    moreover have "tables_ok ?w" using es(2,3) ec(2,3) zero_table_ok by (simp add: tables_ok_def with_histogram_def)
    ultimately show ?thesis by blast
  qed
qed

subsection \<open>One sample\<close>

definition with_sample :: "u32 \<Rightarrow> nat \<Rightarrow> u8 \<Rightarrow> demapper \<Rightarrow> demapper" where
  "with_sample v c s dm = dm\<lparr>dm_codes := (dm_codes dm)[unat (dm_sampleCount dm) := v],
     dm_signs := (dm_signs dm)[unat (dm_sampleCount dm) := s], dm_sampleCount := dm_sampleCount dm + 1,
     dm_rbsFramePosition := (dm_rbsFramePosition dm + 1) mod 6, dm_decisionCode := of_nat c,
     dm_decisionFramePosition := ucast (dm_rbsFramePosition dm)\<rparr>"

definition sign_of :: "u16 \<Rightarrow> u8" where
  "sign_of x = (if sint x < 0 then 0 else 1)"

lemma hardDecision_run:
  fixes dm :: demapper and ai :: impairments and x :: u16
  defines "pos \<equiv> unat (dm_rbsFramePosition dm)"
  defines "row \<equiv> dm_constellation dm ! pos" and "mag \<equiv> short_abs (sint x)"
  assumes t: "tables_ok dm" and p: "pos < 6" and room: "dm_sampleCount dm < dm_sampleCapacity dm"
    and l: "length (dm_codes dm) = unat (dm_sampleCapacity dm)" "length (dm_signs dm) = unat (dm_sampleCapacity dm)"
      "length (dm_constellationSize dm) = 6" "length (dm_constellation dm) = 6" "length (ai_altRbsFlag ai) = 6"
    and near: "nearest_level row (if ai_altRbsFlag ai ! pos \<noteq> 0 then 2 * dm_constellationSize dm ! pos else dm_constellationSize dm ! pos) mag =
      Some (c, v, err)" and c: "c < 128"
  defines "e \<equiv> of_nat (if ai_altRbsFlag ai ! pos \<noteq> 0 then c div 2 else c)"
  shows "\<exists>es ec hc hd' hi. hardDecision dp ai dm x =
      Some (with_histogram es ec hc hd' hi (with_sample e c (sign_of x) dm), of_int ((if sint x < 0 then - 1 else 1) * sint v)) \<and>
     tables_ok (with_histogram es ec hc hd' hi (with_sample e c (sign_of x) dm))"
proof -
  let ?k = "unat (dm_sampleCount dm)"
  have k: "?k < length (dm_codes dm)" "?k < length (dm_signs dm)" "\<not> dm_sampleCapacity dm \<le> dm_sampleCount dm"
    using room l by (simp_all add: word_less_nat_alt word_le_nat_alt)
  have xm: "(if sint x < 0 then short_abs (sint x) else x) = mag" by (simp add: mag_def short_abs_def)
  let ?d = "dm\<lparr>dm_decisionFramePosition := ucast (dm_rbsFramePosition dm), dm_signs := (dm_signs dm)[?k := sign_of x]\<rparr>"
  have "tables_ok ?d" using t by (simp add: tables_ok_def)
  then obtain es ec hc hd' hi where h: "histogram_note dp pos c err ?d = Some (with_histogram es ec hc hd' hi ?d)"
    "tables_ok (with_histogram es ec hc hd' hi ?d)" using histogram_note_run p c by blast
  have half: "of_int (sint (of_nat (c div 2) :: u16)) = (of_nat (c div 2) :: u32)"
  proof -
    have "sint (of_int (int (c div 2)) :: u16) = int (c div 2)" using c by (intro sint_short) linarith+
    then show ?thesis by (simp only: of_int_of_nat_eq)
  qed
  have "hardDecision dp ai dm x =
      Some (with_histogram es ec hc hd' hi (with_sample e c (sign_of x) dm), of_int ((if sint x < 0 then - 1 else 1) * sint v))"
    using k l p near h(1) half unfolding hardDecision_def Let_def pos_def [symmetric] xm
    by (simp add: mem_simps sign_of_def row_def with_histogram_def with_sample_def e_def)
  moreover have "tables_ok (with_histogram es ec hc hd' hi (with_sample e c (sign_of x) dm))"
    using h(2) by (simp add: tables_ok_def with_histogram_def)
  ultimately show ?thesis by blast
qed

subsection \<open>A run of samples\<close>

text \<open>A demapper set up for a connection: its rows hold the levels of \<open>rows\<close>.\<close>

definition demapper_ok :: "nat \<Rightarrow> nat \<Rightarrow> modulus_coder \<Rightarrow> u16 list list \<Rightarrow> nat \<Rightarrow> demapper \<Rightarrow> bool" where
  "demapper_ok sr D mc rows cap dm \<longleftrightarrow>
     dm_bitsPerFrame dm = of_nat D \<and> dm_signBitsPerFrame dm = of_nat (6 - sr) \<and> dm_signBitGroups dm = of_nat sr \<and>
     dm_signBitGroupSize dm = of_nat (6 div sr) \<and> dm_modulusDecoder dm = mc \<and>
     dm_sampleCapacity dm = of_nat cap \<and> cap < 2 ^ 31 \<and> length (dm_codes dm) = cap \<and> length (dm_signs dm) = cap \<and>
     length (dm_constellation dm) = 6 \<and> length (dm_constellationSize dm) = 6 \<and> tables_ok dm \<and>
     (\<forall>k < 6. dm_constellationSize dm ! k = mc_size mc k \<and> unat (mc_size mc k) \<le> 128 \<and>
        falling (dm_constellation dm ! k) (unat (mc_size mc k)) \<and>
        (\<forall>j < unat (mc_size mc k). dm_constellation dm ! k ! j = rows ! k ! j))"

definition no_phases :: "impairments \<Rightarrow> bool" where
  "no_phases ai \<longleftrightarrow> ai_altRbsFlag ai = replicate 6 0"

text \<open>The samples it has stored.\<close>

definition holds_samples :: "u32 list \<Rightarrow> u8 list \<Rightarrow> demapper \<Rightarrow> bool" where
  "holds_samples cs ss dm \<longleftrightarrow> dm_sampleCount dm = of_nat (length cs) \<and> length ss = length cs \<and> length cs \<le> length (dm_codes dm) \<and>
     take (length cs) (dm_codes dm) = cs \<and> take (length cs) (dm_signs dm) = ss \<and>
     dm_rbsFramePosition dm = of_nat (length cs mod 6)"

definition same_frames :: "demapper \<Rightarrow> demapper \<Rightarrow> bool" where
  "same_frames dm dm' \<longleftrightarrow> dm_frameStart dm' = dm_frameStart dm \<and> dm_signBits dm' = dm_signBits dm \<and> dm_signDecoder dm' = dm_signDecoder dm"

fun hard_decisions :: "demapper_params \<Rightarrow> impairments \<Rightarrow> demapper \<Rightarrow> u16 list \<Rightarrow> demapper option" where
  "hard_decisions dp ai dm [] = Some dm"
| "hard_decisions dp ai dm (x # xs) = do { (dm, _) \<leftarrow> hardDecision dp ai dm x; hard_decisions dp ai dm xs }"

text \<open>The sample \<open>x\<close> is level \<open>j\<close> of the row at position \<open>k\<close>, with a sign.\<close>

definition is_level :: "modulus_coder \<Rightarrow> u16 list list \<Rightarrow> nat \<Rightarrow> u16 \<Rightarrow> nat \<Rightarrow> bool" where
  "is_level mc rows k x j \<longleftrightarrow> j < unat (mc_size mc (k mod 6)) \<and> short_abs (sint x) = rows ! (k mod 6) ! j"

lemma store_prefix: "k < length xs \<Longrightarrow> take k xs = cs \<Longrightarrow> length cs = k \<Longrightarrow> take (Suc k) (xs[k := v]) = cs @ [v]"
  by (simp add: take_Suc_conv_app_nth)

lemma next_position:
  assumes "m < 6"
  shows "(of_nat m + 1 :: u32) mod 6 = of_nat (Suc m mod 6)"
proof -
  have "m \<in> {0, 1, 2, 3, 4, 5}" using assms by auto
  then show ?thesis by auto
qed

lemma one_decision:
  assumes ok: "demapper_ok sr D mc rows cap dm" and h: "holds_samples cs ss dm" and ai: "no_phases ai"
    and room: "length cs < cap" and x: "is_level mc rows (length cs) x j"
  shows "\<exists>dm' y. hardDecision dp ai dm x = Some (dm', y) \<and> demapper_ok sr D mc rows cap dm' \<and>
     holds_samples (cs @ [of_nat j]) (ss @ [sign_of x]) dm' \<and> same_frames dm dm'"
proof -
  let ?n = "length cs" and ?k = "length cs mod 6"
  have cap: "dm_sampleCapacity dm = of_nat cap" "cap < 2 ^ 31" using ok by (auto simp: demapper_ok_def)
  have u: "unat (of_nat i :: u32) = i" if "i \<le> cap" for i
    using that cap(2) by (simp add: unat_of_nat take_bit_nat_eq_self)
  have k: "?k < 6" by simp
  have pos: "unat (dm_rbsFramePosition dm) = ?k"
  proof -
    have "?k < 2 ^ 32" by (rule less_trans [OF k]) simp
    then show ?thesis using h by (simp add: holds_samples_def unat_of_nat take_bit_nat_eq_self)
  qed
  have cnt: "dm_sampleCount dm = of_nat ?n" using h by (simp add: holds_samples_def)
  have r: "dm_constellationSize dm ! ?k = mc_size mc ?k" "unat (mc_size mc ?k) \<le> 128"
    "falling (dm_constellation dm ! ?k) (unat (mc_size mc ?k))" "dm_constellation dm ! ?k ! j = short_abs (sint x)"
    using ok k x by (auto simp: demapper_ok_def is_level_def)
  have j: "j < unat (mc_size mc ?k)" using x by (simp add: is_level_def)
  have near: "nearest_level (dm_constellation dm ! ?k) (dm_constellationSize dm ! ?k) (short_abs (sint x)) = Some (j, short_abs (sint x), 0)"
    using nearest_level_exact [OF r(3) _ j, of "mc_size mc ?k"] r(1,4) by simp
  have lt: "dm_sampleCount dm < dm_sampleCapacity dm"
    using room u [of ?n] u [of cap] unfolding cnt cap(1) word_less_nat_alt by simp
  have "\<exists>es ec hc hd' hi. hardDecision dp ai dm x =
      Some (with_histogram es ec hc hd' hi (with_sample (of_nat j) j (sign_of x) dm), of_int ((if sint x < 0 then - 1 else 1) * sint (short_abs (sint x)))) \<and>
     tables_ok (with_histogram es ec hc hd' hi (with_sample (of_nat j) j (sign_of x) dm))"
    using hardDecision_run [of dm ai x j "short_abs (sint x)" 0 dp] ok ai near lt u [of cap] k j r(2)
    by (simp add: demapper_ok_def no_phases_def pos)
  then obtain es ec hc hd' hi y where e: "hardDecision dp ai dm x = Some (with_histogram es ec hc hd' hi (with_sample (of_nat j) j (sign_of x) dm), y)"
     "tables_ok (with_histogram es ec hc hd' hi (with_sample (of_nat j) j (sign_of x) dm))" by blast
  let ?d = "with_histogram es ec hc hd' hi (with_sample (of_nat j) j (sign_of x) dm)"
  have "demapper_ok sr D mc rows cap ?d"
    using ok e(2) unfolding demapper_ok_def by (simp add: with_histogram_def with_sample_def)
  moreover have "holds_samples (cs @ [of_nat j]) (ss @ [sign_of x]) ?d"
  proof -
    have un: "unat (of_nat ?n :: u32) = ?n" using u [of ?n] room by simp
    have l: "length (dm_codes dm) = cap" "length (dm_signs dm) = cap" "length ss = ?n" "take ?n (dm_codes dm) = cs" "take ?n (dm_signs dm) = ss"
      using ok h by (auto simp: demapper_ok_def holds_samples_def)
    have "dm_rbsFramePosition dm = of_nat ?k" using h by (simp add: holds_samples_def)
    then have "(dm_rbsFramePosition dm + 1) mod 6 = of_nat (Suc ?n mod 6)"
      using next_position [OF k] by (simp add: mod_Suc_eq)
    then show ?thesis
      using l room store_prefix [of ?n "dm_codes dm" cs] store_prefix [of ?n "dm_signs dm" ss]
      by (simp add: holds_samples_def with_histogram_def with_sample_def un cnt add.commute)
  qed
  moreover have "same_frames dm ?d" by (simp add: same_frames_def with_histogram_def with_sample_def)
  ultimately show ?thesis using e(1) by blast
qed

lemma decisions_run:
  "demapper_ok sr D mc rows cap dm \<Longrightarrow> holds_samples cs ss dm \<Longrightarrow> no_phases ai \<Longrightarrow> length cs + length xs \<le> cap \<Longrightarrow>
   length js = length xs \<Longrightarrow> (\<forall>i < length xs. is_level mc rows (length cs + i) (xs ! i) (js ! i)) \<Longrightarrow>
   \<exists>dm'. hard_decisions dp ai dm xs = Some dm' \<and> demapper_ok sr D mc rows cap dm' \<and>
     holds_samples (cs @ map of_nat js) (ss @ map sign_of xs) dm' \<and> same_frames dm dm'"
proof (induction xs arbitrary: dm cs ss js)
  case Nil
  then show ?case by (simp add: same_frames_def)
next
  case (Cons x xs)
  obtain j js' where js: "js = j # js'" "length js' = length xs" using Cons.prems(5) by (cases js) auto
  have "is_level mc rows (length cs) x j" using Cons.prems(6) js(1) by fastforce
  then obtain dm1 y where d1: "hardDecision dp ai dm x = Some (dm1, y)" "demapper_ok sr D mc rows cap dm1"
    "holds_samples (cs @ [of_nat j]) (ss @ [sign_of x]) dm1" "same_frames dm dm1"
    using one_decision [OF Cons.prems(1-3)] Cons.prems(4) by (metis add_Suc_right length_Cons less_eq_Suc_le not_less_eq_eq trans_le_add1)
  have l: "is_level mc rows (length (cs @ [of_nat j]) + i) (xs ! i) (js' ! i)" if "i < length xs" for i
    using Cons.prems(6) [rule_format, of "Suc i"] js(1) that by simp
  have "\<exists>dm'. hard_decisions dp ai dm1 xs = Some dm' \<and> demapper_ok sr D mc rows cap dm' \<and>
     holds_samples ((cs @ [of_nat j]) @ map of_nat js') ((ss @ [sign_of x]) @ map sign_of xs) dm' \<and> same_frames dm1 dm'"
    by (rule Cons.IH) (use d1 Cons.prems(3,4) js l in auto)
  then show ?case using d1(1,4) js(1) by (auto simp: same_frames_def)
qed

subsection \<open>Any sample\<close>

text \<open>How many levels the row at the position \<open>k\<close> has, two for each code where its phase alternates, and a
  demapper that can decide for them.\<close>

definition levels_at :: "impairments \<Rightarrow> nat \<Rightarrow> demapper \<Rightarrow> nat" where
  "levels_at ai k dm = (if ai_altRbsFlag ai ! k \<noteq> 0 then 2 else 1) * unat (dm_constellationSize dm ! k)"

definition decision_ready :: "impairments \<Rightarrow> nat \<Rightarrow> demapper \<Rightarrow> bool" where
  "decision_ready ai k dm \<longleftrightarrow> unat (dm_rbsFramePosition dm) = k \<and> k < 6 \<and> length (ai_altRbsFlag ai) = 6 \<and> tables_ok dm \<and>
     length (dm_codes dm) = unat (dm_sampleCapacity dm) \<and> length (dm_signs dm) = unat (dm_sampleCapacity dm) \<and>
     length (dm_constellationSize dm) = 6 \<and> length (dm_constellation dm) = 6 \<and>
     levels_at ai k dm \<le> 128 \<and> falling (dm_constellation dm ! k) (levels_at ai k dm)"

text \<open>The level a sample is decided for: the nearest, but the innermost for \<open>-32768\<close>.\<close>

definition decided :: "u16 list \<Rightarrow> nat \<Rightarrow> u16 \<Rightarrow> nat \<Rightarrow> bool" where
  "decided row n x c \<longleftrightarrow> c < n \<and>
     (if sint x = - 32768 then c = n - 1
      else \<forall>j < n. \<bar>\<bar>sint x\<bar> - sint (row ! c)\<bar> \<le> \<bar>\<bar>sint x\<bar> - sint (row ! j)\<bar>)"

lemma ready_of_ok:
  assumes "demapper_ok sr D mc rows cap dm" and "no_phases ai" and "unat (dm_rbsFramePosition dm) = k" "k < 6"
  shows "decision_ready ai k dm"
  using assms by (auto simp: decision_ready_def demapper_ok_def no_phases_def levels_at_def unat_of_nat take_bit_nat_eq_self)

lemma decided_run:
  assumes f: "falling row n" and n: "unat m = n"
  shows "\<exists>c err. nearest_level row m (short_abs (sint x)) = Some (c, row ! c, err) \<and> decided row n x c"
proof (cases "sint x = - 32768")
  case True
  then show ?thesis using nearest_level_lowest [OF f n] f by (auto simp: decided_def falling_def)
next
  case False
  have "sint (short_abs (sint x)) = \<bar>sint x\<bar>" using False sint_bounds_u16 [of x] by (intro sint_short_abs) linarith
  then show ?thesis
    using nearest_level_run [OF f n, of "short_abs (sint x)"] False by (fastforce simp: decided_def abs_minus_commute)
qed

text \<open>C11: what any sample is decided for. With the sample buffers full it is dropped: the result is 0 and only
  the note of the decision changes. Otherwise a level of the row at its frame position is decided for, the
  nearest of all, but for \<open>-32768\<close> the innermost one, as \<open>(short)abs\<close> leaves that sample negative; its code,
  halved where the phase alternates and the row has two levels for each code, and the sign are stored behind
  the samples held, the level with the sign is returned, and the position moves on.\<close>

theorem hard_decision_nearest:
  assumes rd: "decision_ready ai k dm"
  shows "\<exists>dm' y. hardDecision dp ai dm x = Some (dm', y) \<and>
     dm_decisionFramePosition dm' = ucast (dm_rbsFramePosition dm) \<and>
     (if dm_sampleCapacity dm \<le> dm_sampleCount dm
      then y = 0 \<and> dm' = dm\<lparr>dm_decisionFramePosition := ucast (dm_rbsFramePosition dm), dm_decisionCode := 0\<rparr>
      else \<exists>c. decided (dm_constellation dm ! k) (levels_at ai k dm) x c \<and>
        y = of_int ((if sint x < 0 then - 1 else 1) * sint (dm_constellation dm ! k ! c)) \<and>
        dm_codes dm' = (dm_codes dm)[unat (dm_sampleCount dm) := of_nat (if ai_altRbsFlag ai ! k \<noteq> 0 then c div 2 else c)] \<and>
        dm_signs dm' = (dm_signs dm)[unat (dm_sampleCount dm) := sign_of x] \<and> dm_decisionCode dm' = of_nat c \<and>
        dm_sampleCount dm' = dm_sampleCount dm + 1 \<and> dm_rbsFramePosition dm' = (dm_rbsFramePosition dm + 1) mod 6 \<and>
        (\<forall>sr D mc rows cap. demapper_ok sr D mc rows cap dm \<longrightarrow> demapper_ok sr D mc rows cap dm'))"
proof (cases "dm_sampleCapacity dm \<le> dm_sampleCount dm")
  case True
  then show ?thesis by (simp add: hardDecision_def)
next
  case False
  have r: "unat (dm_rbsFramePosition dm) = k" "k < 6" "levels_at ai k dm \<le> 128"
    "falling (dm_constellation dm ! k) (levels_at ai k dm)" using rd by (auto simp: decision_ready_def)
  let ?m = "if ai_altRbsFlag ai ! k \<noteq> 0 then 2 * dm_constellationSize dm ! k else dm_constellationSize dm ! k"
  have "unat (2 * dm_constellationSize dm ! k) = 2 * unat (dm_constellationSize dm ! k)" if "ai_altRbsFlag ai ! k \<noteq> 0"
    using r(3) that by (simp add: levels_at_def unat_word_ariths)
  then have "unat ?m = levels_at ai k dm" by (simp add: levels_at_def)
  from decided_run [OF r(4) this, of x] obtain c err where
    c: "nearest_level (dm_constellation dm ! k) ?m (short_abs (sint x)) = Some (c, dm_constellation dm ! k ! c, err)"
      "decided (dm_constellation dm ! k) (levels_at ai k dm) x c" by blast
  let ?w = "with_sample (of_nat (if ai_altRbsFlag ai ! k \<noteq> 0 then c div 2 else c)) c (sign_of x) dm"
  have "c < 128" using c(2) r(3) by (simp add: decided_def)
  then have "\<exists>es ec hc hd' hi. hardDecision dp ai dm x = Some (with_histogram es ec hc hd' hi ?w,
       of_int ((if sint x < 0 then - 1 else 1) * sint (dm_constellation dm ! k ! c))) \<and> tables_ok (with_histogram es ec hc hd' hi ?w)"
    using hardDecision_run [of dm ai x c "dm_constellation dm ! k ! c" err dp] rd c(1) False
    unfolding r(1) by (simp add: decision_ready_def)
  then obtain es ec hc hd' hi where e: "hardDecision dp ai dm x = Some (with_histogram es ec hc hd' hi ?w,
       of_int ((if sint x < 0 then - 1 else 1) * sint (dm_constellation dm ! k ! c)))" "tables_ok (with_histogram es ec hc hd' hi ?w)"
    by blast
  have "demapper_ok sr D mc rows cap (with_histogram es ec hc hd' hi ?w)" if "demapper_ok sr D mc rows cap dm" for sr D mc rows cap
    using that e(2) unfolding demapper_ok_def by (simp add: with_histogram_def with_sample_def)
  then show ?thesis
    using e(1) c(2) False by (intro exI [of _ "with_histogram es ec hc hd' hi ?w"] exI conjI)
      (auto simp: with_histogram_def with_sample_def)
qed

end
