(* ===== verification/V90Link.thy ===== *)
theory V90Link
  imports V90MapperTx V90Decide
begin

unbundle bit_operations_syntax

text \<open>
  The demapper behind the mapper: the samples of a stream that \<open>carries\<close> describes are decided for the
  codes and signs they were made of, and every whole frame gives its bits back.
\<close>

subsection \<open>Decisions on the samples of a stream\<close>

lemma sint_neg_u16: "0 < sint (l :: u16) \<Longrightarrow> sint (- l) = - sint l"
proof -
  assume "0 < sint l"
  then have "- sint l = signed_take_bit 15 (- sint l)"
    using sint_bounds_u16 [of l] by (intro signed_take_bit_int_eq_self [symmetric]) auto
  moreover have "sint (of_int (- sint l) :: u16) = signed_take_bit 15 (- sint l)" by (subst signed_of_int) simp
  ultimately show ?thesis by simp
qed

lemma sample_of_level:
  assumes "0 < sint l" and "is_bit s"
  shows "sign_of (act_cell a k (if s \<noteq> 0 then l else - l)) = undo_cell a k s"
    and "short_abs (sint (act_cell a k (if s \<noteq> 0 then l else - l))) = l"
  using assms sint_neg_u16 [OF assms(1)] by (cases a; auto simp: sign_of_def short_abs_def is_bit_def invert_def)+

lemma nth_concat_same:
  "(\<And>o'. o' \<in> set os \<Longrightarrow> length o' = n) \<Longrightarrow> j < length os \<Longrightarrow> k < n \<Longrightarrow> concat os ! (j * n + k) = os ! j ! k"
proof (induction os arbitrary: j)
  case (Cons o' os)
  then show ?case by (cases j) (auto simp: nth_append)
qed simp

text \<open>What the relation says of block \<open>j\<close>.\<close>

lemma carries_step:
  assumes "carries bl (m, st) (drop j os) (drop j bs) s'" and "j < length os"
  shows "\<exists>a. a \<in> allowed st \<and> block_ok bl (bs ! j) \<and> os ! j = act_block a (sent_block bl m (bs ! j)) \<and>
     carries bl (enc_next bl m (snd (bs ! j)), next_state a) (drop (Suc j) os) (drop (Suc j) bs) s'"
proof -
  have "length (drop j os) = length (drop j bs)" by (rule carries_length [OF assms(1)])
  then have j: "j < length bs" using assms(2) by simp
  show ?thesis
    using assms(1) unfolding Cons_nth_drop_Suc [OF j, symmetric] Cons_nth_drop_Suc [OF assms(2), symmetric]
    by (auto elim: carries_ConsE)
qed

lemma carries_each:
  "carries bl s os bs s' \<Longrightarrow> memory_ok bl (fst s) \<Longrightarrow> 1 \<le> bl \<Longrightarrow> j < length os \<Longrightarrow>
   \<exists>m a. memory_ok bl m \<and> block_ok bl (bs ! j) \<and> os ! j = act_block a (sent_block bl m (bs ! j))"
proof (induction arbitrary: j rule: carries.induct)
  case (carries_Cons b a st m os bs s')
  have "memory_ok bl (enc_next bl m (snd b))"
    using carries_Cons.prems carries_Cons.hyps(1) by (intro enc_next_ok) (auto simp: block_ok_def)
  then have tail: "\<exists>m a. memory_ok bl m \<and> block_ok bl (bs ! i) \<and> os ! i = act_block a (sent_block bl m (bs ! i))" if "i < length os" for i
    using carries_Cons.IH [OF _ carries_Cons.prems(2) that] by simp
  show ?case
  proof (cases j)
    case 0
    then show ?thesis using carries_Cons.hyps(1) carries_Cons.prems(1)
      by (intro exI [of _ m] exI [of _ a]) simp
  next
    case (Suc i)
    then show ?thesis using tail [of i] carries_Cons.prems(3) by simp
  qed
qed simp

lemma block_samples:
  assumes b: "block_ok bl b" and m: "memory_ok bl m" and bl: "1 \<le> bl" and pos: "\<forall>v \<in> set (fst b). 0 < sint v" and k: "k < bl"
  shows "sign_of (act_block a (sent_block bl m b) ! k) = undo_cell a k (enc_signs bl m (snd b) ! k)"
    and "short_abs (sint (act_block a (sent_block bl m b) ! k)) = fst b ! k"
proof -
  have l: "length (fst b) = bl" using b by (simp add: block_ok_def)
  have "memory_ok bl (enc_next bl m (snd b))" using m bl b by (intro enc_next_ok) (auto simp: block_ok_def)
  then have s: "is_bit (enc_signs bl m (snd b) ! k)" using k by (simp add: memory_ok_def enc_next_def)
  have "act_block a (sent_block bl m b) ! k = act_cell a k (if enc_signs bl m (snd b) ! k \<noteq> 0 then fst b ! k else - (fst b ! k))"
    using k l b by (simp add: act_block_def) (simp add: sent_block_def signed_block_def)
  moreover have "0 < sint (fst b ! k)" using pos k l by simp
  ultimately show "sign_of (act_block a (sent_block bl m b) ! k) = undo_cell a k (enc_signs bl m (snd b) ! k)"
    "short_abs (sint (act_block a (sent_block bl m b) ! k)) = fst b ! k"
    using sample_of_level [OF _ s] by simp_all
qed

subsection \<open>The blocks of a run of bits\<close>

lemma sent_blocks_nth:
  assumes "f < F" and "g < sr"
  shows "sent_blocks sr D rows mc bits F ! (f * sr + g) = frame_block sr D rows mc (take D (drop (f * D) bits)) g"
  unfolding sent_blocks_def using assms by (subst nth_concat_same) (auto simp: frame_blocks_def)

definition positive_rows :: "modulus_coder \<Rightarrow> u16 list list \<Rightarrow> bool" where
  "positive_rows mc rows \<longleftrightarrow> (\<forall>k < 6. \<forall>j < unat (mc_size mc k). 0 < sint (rows ! k ! j))"

lemma frame_block_levels:
  assumes "params_ok sr id' D rows mc" and "length fb = D" and "g < sr" and "k < 6 div sr"
  shows "fst (frame_block sr D rows mc fb g) ! k =
     rows ! (g * (6 div sr) + k) ! unat (frame_codes sr D mc fb ! (g * (6 div sr) + k))"
proof -
  have sr: "sr \<in> {1, 2, 3}" using assms(1) by (auto simp: params_ok_def)
  show ?thesis using group_fits [OF sr assms(3)] assms(4) by (simp add: frame_block_def Let_def frame_levels_def)
qed

lemma frame_block_positive:
  assumes pk: "params_ok sr id' D rows mc" and fb: "length fb = D" and pr: "positive_rows mc rows" and g: "g < sr"
  shows "\<forall>v \<in> set (fst (frame_block sr D rows mc fb g)). 0 < sint v"
proof -
  have sr: "sr \<in> {1, 2, 3}" using pk by (auto simp: params_ok_def)
  have "0 < sint (frame_levels sr D rows mc fb ! k)" if "k < 6" for k
    using frame_digits(2) [OF pk fb that] pr that by (simp add: frame_levels_def positive_rows_def word_less_nat_alt)
  then have "\<forall>v \<in> set (frame_levels sr D rows mc fb). 0 < sint v" by (auto simp: in_set_conv_nth)
  then show ?thesis by (auto simp: frame_block_def Let_def dest!: in_set_takeD in_set_dropD)
qed

subsection \<open>The samples of a stream\<close>

text \<open>Frame \<open>f\<close> of the bits; the codes of the samples on the line.\<close>

definition frame_bits :: "nat \<Rightarrow> u8 list \<Rightarrow> nat \<Rightarrow> u8 list" where
  "frame_bits D bits f = take D (drop (f * D) bits)"

definition sample_code :: "nat \<Rightarrow> nat \<Rightarrow> modulus_coder \<Rightarrow> u8 list \<Rightarrow> nat \<Rightarrow> u32" where
  "sample_code sr D mc bits i = frame_codes sr D mc (frame_bits D bits (i div 6)) ! (i mod 6)"

lemma length_frame_bits: "F * D \<le> length bits \<Longrightarrow> f < F \<Longrightarrow> length (frame_bits D bits f) = D"
proof -
  assume "F * D \<le> length bits" "f < F"
  then have "Suc f * D \<le> length bits" by (meson Suc_leI le_trans mult_le_mono1)
  then show ?thesis by (simp add: frame_bits_def)
qed

lemma frame_bits_are_bits: "\<forall>b \<in> set bits. is_bit b \<Longrightarrow> \<forall>b \<in> set (frame_bits D bits f). is_bit b"
  by (auto simp: frame_bits_def dest!: in_set_takeD in_set_dropD)

text \<open>A stream on the line: the first blocks of \<open>F\<close> frames.\<close>

definition line_stream :: "nat \<Rightarrow> nat \<Rightarrow> u16 list list \<Rightarrow> modulus_coder \<Rightarrow> u8 list \<Rightarrow> nat \<Rightarrow> sign_memory \<Rightarrow> u16 list list \<Rightarrow> bool" where
  "line_stream sr D rows mc bits F m0 os \<longleftrightarrow> F * D \<le> length bits \<and> (\<forall>b \<in> set bits. is_bit b) \<and> memory_ok (6 div sr) m0 \<and>
     length os \<le> F * sr \<and> (\<exists>s'. carries (6 div sr) (m0, 0) os (take (length os) (sent_blocks sr D rows mc bits F)) s')"

lemma stream_block:
  assumes "params_ok sr id' D rows mc" and ls: "line_stream sr D rows mc bits F m0 os" and j: "f * sr + g < length os" "g < sr"
  shows "f < F" "take (length os) (sent_blocks sr D rows mc bits F) ! (f * sr + g) = frame_block sr D rows mc (frame_bits D bits f) g"
    "length (frame_bits D bits f) = D"
proof -
  have "length os \<le> F * sr" using ls by (simp add: line_stream_def)
  then have "f * sr < F * sr" using j(1) by linarith
  then show f: "f < F" by simp
  then show "take (length os) (sent_blocks sr D rows mc bits F) ! (f * sr + g) = frame_block sr D rows mc (frame_bits D bits f) g"
    using sent_blocks_nth [OF f j(2)] j(1) by (simp add: frame_bits_def)
  show "length (frame_bits D bits f) = D" using ls f by (intro length_frame_bits) (auto simp: line_stream_def)
qed

lemma stream_widths: "line_stream sr D rows mc bits F m0 os \<Longrightarrow> o' \<in> set os \<Longrightarrow> length o' = 6 div sr"
  using carries_widths unfolding line_stream_def by blast

lemma sample_position:
  fixes sr :: nat
  assumes "sr \<in> {1, 2, 3}"
  shows "i div 6 = i div (6 div sr) div sr" "i mod 6 = i div (6 div sr) mod sr * (6 div sr) + i mod (6 div sr)"
proof -
  have s: "i div 6 = i div (6 div sr * sr)" "i mod 6 = i mod (6 div sr * sr)" using assms by auto
  show "i div 6 = i div (6 div sr) div sr" unfolding s by (rule div_mult2_eq)
  show "i mod 6 = i div (6 div sr) mod sr * (6 div sr) + i mod (6 div sr)" unfolding s mod_mult2_eq by (simp only: mult.commute)
qed

lemma stream_levels:
  assumes pk: "params_ok sr id' D rows mc" and pr: "positive_rows mc rows" and ls: "line_stream sr D rows mc bits F m0 os"
    and i: "i < length os * (6 div sr)"
  shows "is_level mc rows i (concat os ! i) (unat (sample_code sr D mc bits i))"
proof -
  define gs where "gs = 6 div sr"
  have sr: "sr \<in> {1, 2, 3}" using pk by (auto simp: params_ok_def)
  note gz = group_sizes [OF sr]
  define j where "j = i div gs" define k where "k = i mod gs"
  define f where "f = j div sr" define g where "g = j mod sr"
  have gs0: "0 < gs" using gz(2) by (simp add: gs_def)
  have k: "k < gs" "i = j * gs + k" and g: "g < sr" "j = f * sr + g"
    using gs0 gz(5) by (simp_all add: j_def k_def f_def g_def)
  have j: "j < length os" using i gs0 by (simp add: j_def gs_def less_mult_imp_div_less)
  have pos: "i div 6 = f" "i mod 6 = g * gs + k" using sample_position [OF sr, of i] by (simp_all add: f_def g_def j_def k_def gs_def)
  note sb = stream_block [OF pk ls j [unfolded g(2)] g(1)]
  obtain s' where c: "carries gs (m0, 0) os (take (length os) (sent_blocks sr D rows mc bits F)) s'" "memory_ok gs m0"
    using ls by (auto simp: line_stream_def gs_def)
  let ?b = "frame_block sr D rows mc (frame_bits D bits f) g"
  obtain m a where b: "memory_ok gs m" "block_ok gs ?b" "os ! j = act_block a (sent_block gs m ?b)"
    using carries_each [OF c(1) _ _ j] c(2) gs0 sb(2) unfolding g(2) by fastforce
  have x: "concat os ! i = os ! j ! k" unfolding k(2)
    by (rule nth_concat_same) (use stream_widths [OF ls] j k in \<open>auto simp: gs_def\<close>)
  have "short_abs (sint (os ! j ! k)) = fst ?b ! k"
    unfolding b(3) by (rule block_samples) (use b gs0 frame_block_positive [OF pk sb(3) pr g(1)] k in auto)
  also have "\<dots> = rows ! (g * gs + k) ! unat (sample_code sr D mc bits i)"
    using frame_block_levels [OF pk sb(3) g(1), of k] k(1) by (simp add: gs_def sample_code_def pos [unfolded gs_def])
  finally have "short_abs (sint (concat os ! i)) = rows ! (i mod 6) ! unat (sample_code sr D mc bits i)" by (simp add: x pos)
  moreover have "sample_code sr D mc bits i < mc_size mc (i mod 6)"
    using frame_digits(2) [OF pk sb(3) mod_less_divisor, of i] by (simp add: sample_code_def pos(1))
  ultimately show ?thesis by (simp add: is_level_def word_less_nat_alt)
qed

subsection \<open>A block of signs\<close>

definition rx_inv :: "nat \<Rightarrow> u16 list list \<Rightarrow> block list \<Rightarrow> sign_memory \<times> u32 \<Rightarrow> nat \<Rightarrow> extractor \<Rightarrow> bool" where
  "rx_inv gs os E s' j sx \<longleftrightarrow> extractor_ok gs sx \<and> memory_ok gs (dec_memory gs sx) \<and>
     carries gs (dec_memory gs sx, sx_state sx) (drop j os) (drop j E) s'"

lemma extract_block:
  assumes inv: "rx_inv gs os E s' j sx" and j: "j < length os" and pos: "\<forall>v \<in> set (fst (E ! j)). 0 < sint v"
    and ins: "ioff + gs \<le> length ins" "\<And>k. k < gs \<Longrightarrow> ins ! (ioff + k) = sign_of (os ! j ! k)"
    and out: "ooff + (gs - 1) \<le> length out"
  shows "\<exists>sx'. extractor_process sx ins ioff out ooff = Some (sx', filled ooff (ooff + (gs - 1)) (\<lambda>k. snd (E ! j) ! (k - ooff)) out) \<and>
     rx_inv gs os E s' (Suc j) sx'"
proof -
  have I: "extractor_ok gs sx" "memory_ok gs (dec_memory gs sx)" "1 \<le> gs"
    using inv by (auto simp: rx_inv_def extractor_ok_def)
  obtain a where a: "a \<in> allowed (sx_state sx)" "block_ok gs (E ! j)"
    "os ! j = act_block a (sent_block gs (dec_memory gs sx) (E ! j))"
    "carries gs (enc_next gs (dec_memory gs sx) (snd (E ! j)), next_state a) (drop (Suc j) os) (drop (Suc j) E) s'"
    using carries_step [OF _ j] inv unfolding rx_inv_def by blast
  have d: "\<forall>b \<in> set (snd (E ! j)). is_bit b" "length (snd (E ! j)) = gs - 1" using a(2) by (simp_all add: block_ok_def)
  have r: "ins ! (ioff + k) = undo_cell a k (enc_signs gs (dec_memory gs sx) (snd (E ! j)) ! k)" if "k < gs" for k
    unfolding ins(2) [OF that] a(3) by (rule block_samples(1) [OF a(2) I(2,3) pos that])
  obtain sx' where x: "extractor_process sx ins ioff out ooff = Some (sx', filled ooff (ooff + (gs - 1)) (\<lambda>k. snd (E ! j) ! (k - ooff)) out)"
     "extractor_ok gs sx'" "dec_memory gs sx' = enc_next gs (dec_memory gs sx) (snd (E ! j))" "sx_state sx' = next_state a"
    using extractor_process_run [OF I(1,2) d a(1) ins(1) r out] by blast
  have "memory_ok gs (dec_memory gs sx')" unfolding x(3) by (rule enc_next_ok [OF I(2) d I(3)])
  then show ?thesis using x a(4) by (auto simp: rx_inv_def)
qed

subsection \<open>A frame\<close>

lemma filled_join:
  assumes "a \<le> b" and "b \<le> c" and "c \<le> length xs"
  shows "filled b c g (filled a b g xs) = filled a c g xs" and "filled a b g (filled b c g xs) = filled a c g xs"
  using assms by (auto intro!: nth_equalityI simp: filled_nth)

lemma take_filled:
  assumes "a + n \<le> length xs"
  shows "take a xs @ filled 0 n (\<lambda>i. g (a + i)) (drop a xs) = filled a (a + n) g xs"
  using assms by (auto intro!: nth_equalityI simp: filled_nth nth_append)

text \<open>The demapper holds the samples of the stream from the start.\<close>

definition stored :: "nat \<Rightarrow> nat \<Rightarrow> modulus_coder \<Rightarrow> u8 list \<Rightarrow> u16 list list \<Rightarrow> demapper \<Rightarrow> bool" where
  "stored sr D mc bits os dm \<longleftrightarrow> length (concat os) \<le> length (dm_codes dm) \<and>
     (\<forall>i < length (concat os). dm_codes dm ! i = sample_code sr D mc bits i \<and> dm_signs dm ! i = sign_of (concat os ! i))"

lemma decoder_prefix:
  assumes "6 \<le> length codes"
  shows "ModulusDecoder_progress mc bytes codes = ModulusDecoder_progress mc bytes (take 6 codes)"
proof -
  have "rd_at codes k = rd_at (take 6 codes) k" if "k < 6" for k using assms that by (simp add: rd_at_def)
  then show ?thesis by (simp add: ModulusDecoder_progress_def)
qed

lemma frame_modulus:
  assumes pk: "params_ok sr id' D rows mc" and fb: "length fb = D" "\<forall>b \<in> set fb. is_bit b"
    and codes: "6 \<le> length codes" "take 6 codes = frame_codes sr D mc fb" and bytes: "D - (6 - sr) \<le> length bytes"
  shows "ModulusDecoder_progress mc bytes codes = Some (filled 0 (D - (6 - sr)) (\<lambda>i. fb ! (6 - sr + i)) bytes)"
proof -
  let ?n = "D - (6 - sr)" and ?v = "bits_value (drop (6 - sr) fb) (D - (6 - sr))"
  have p: "D - (6 - sr) \<le> 63" "2 ^ ?n \<le> (\<Prod>k < 6. uint (mc_size mc k))" using pk by (auto simp: params_ok_def)
  have v: "0 \<le> ?v" "?v < 2 ^ ?n" by (rule bits_value_range)+
  have "(2 :: int) ^ ?n \<le> 2 ^ 63" using p(1) by (intro power_increasing) auto
  then have v63: "?v < 2 ^ 63" using v by linarith
  have lt: "?v < (\<Prod>k < 6. uint (mc_size mc k))" using v p(2) by linarith
  have q: "mc_quot mc ?v 5 < 2 ^ 32" using modulus_digits_range(2) [OF v(1) lt, of 0] u32_pos(2) [of "mc_size mc 5"] by linarith
  note n = params_nats(6) [OF pk]
  have "mc_ready mc bytes" using frame_digits(1) [OF pk fb(1)] bytes by (simp add: mc_ready_def n)
  from decoder_value [OF this v(1) v63 q]
  have "ModulusDecoder_progress mc bytes codes = Some (filled 0 ?n (\<lambda>i. of_bool (bit ?v i)) bytes)"
    unfolding decoder_prefix [OF codes(1)] codes(2) frame_codes_def n .
  moreover have "filled 0 ?n (\<lambda>i. of_bool (bit ?v i)) bytes = filled 0 ?n (\<lambda>i. fb ! (6 - sr + i)) bytes"
  proof (rule filled_cong)
    fix i assume i: "i < ?n"
    then have "is_bit (fb ! (6 - sr + i))" using fb by simp
    then show "of_bool (bit ?v i) = fb ! (6 - sr + i)"
      using i fb(1) by (auto simp: bit_bits_value is_bit_def)
  qed
  ultimately show ?thesis by simp
qed

lemma unat_small_u32: "n < 2 ^ 31 \<Longrightarrow> unat (of_nat n :: u32) = n"
  by (simp add: unat_of_nat take_bit_nat_eq_self)

lemma frame_block_data:
  assumes "params_ok sr id' D rows mc" and "length fb = D" and "g < sr" and "k < 6 div sr - 1"
  shows "snd (frame_block sr D rows mc fb g) ! k = fb ! (g * (6 div sr - 1) + k)"
proof -
  have sr: "sr \<in> {1, 2, 3}" and D: "6 - sr < D" using assms(1) by (auto simp: params_ok_def)
  show ?thesis using group_fits(2) [OF sr assms(3)] assms(2,4) D by (simp add: frame_block_def Let_def)
qed

text \<open>Where the demapper finds a group and where it puts its bits.\<close>

lemma group_offsets:
  fixes ng :: u32
  assumes pk: "params_ok sr id' D rows mc" and gs: "gs = 6 div sr" "ng = of_nat gs" and g: "g < sr"
    and b: "f * 6 + 6 < 2 ^ 31" "f * D + D < 2 ^ 31"
  shows "unat (of_nat (f * 6) + ng * of_nat g) = f * 6 + g * gs"
    and "unat (of_nat (f * D) + (ng - 1) * of_nat g) = f * D + g * (gs - 1)"
proof -
  have sr: "sr \<in> {1, 2, 3}" and D: "6 - sr < D" using pk by (auto simp: params_ok_def)
  note gf = group_fits [OF sr g, folded gs(1)] and gz = group_sizes [OF sr, folded gs(1)]
  have a: "of_nat (f * 6) + ng * of_nat g = (of_nat (f * 6 + g * gs) :: u32)" unfolding gs(2) by (simp add: mult.commute)
  show "unat (of_nat (f * 6) + ng * of_nat g) = f * 6 + g * gs"
    unfolding a by (rule unat_small_u32) (use gf(1) b(1) in linarith)
  have "ng - 1 = of_nat (gs - 1)" using gz(2) unfolding gs(2) by simp
  then have c: "of_nat (f * D) + (ng - 1) * of_nat g = (of_nat (f * D + g * (gs - 1)) :: u32)" by (simp add: mult.commute)
  show "unat (of_nat (f * D) + (ng - 1) * of_nat g) = f * D + g * (gs - 1)"
    unfolding c by (rule unat_small_u32) (use gf(2) D b(2) in linarith)
qed

lemma stored_block:
  assumes pk: "params_ok sr id' D rows mc" and ls: "line_stream sr D rows mc bits F m0 os" and st: "stored sr D mc bits os dm"
    and fit: "f * 6 + 6 \<le> length (concat os)" and g: "g < sr"
  defines "gs \<equiv> 6 div sr"
  shows "f * sr + g < length os" "k < gs \<Longrightarrow> dm_signs dm ! (f * 6 + g * gs + k) = sign_of (os ! (f * sr + g) ! k)"
proof -
  have sr: "sr \<in> {1, 2, 3}" using pk by (auto simp: params_ok_def)
  note gz = group_sizes [OF sr, folded gs_def] and gf = group_fits [OF sr g, folded gs_def]
  have lc: "length (concat os) = length os * gs"
    using length_concat_same [of os gs] stream_widths [OF ls] by (simp add: gs_def)
  have "(f * sr + sr) * gs \<le> length os * gs" using fit lc gz(1) by (simp add: distrib_right mult.assoc)
  then have "f * sr + sr \<le> length os" using gz(2) by simp
  then show jl: "f * sr + g < length os" using g by linarith
  assume k: "k < gs"
  have i: "f * 6 + g * gs + k = (f * sr + g) * gs + k" using gz(1) by (simp add: distrib_right mult.assoc)
  have "f * 6 + g * gs + k < length (concat os)" using fit gf(1) k by linarith
  then have "dm_signs dm ! (f * 6 + g * gs + k) = sign_of (concat os ! (f * 6 + g * gs + k))" using st by (simp add: stored_def)
  also have "\<dots> = sign_of (os ! (f * sr + g) ! k)"
    unfolding i using stream_widths [OF ls] jl k by (subst nth_concat_same) (auto simp: gs_def)
  finally show "dm_signs dm ! (f * 6 + g * gs + k) = sign_of (os ! (f * sr + g) ! k)" .
qed

lemma group_run:
  assumes pk: "params_ok sr id' D rows mc" and pr: "positive_rows mc rows" and ls: "line_stream sr D rows mc bits F m0 os"
    and ok: "demapper_ok sr D mc rows cap dm" and st: "stored sr D mc bits os dm" and fs: "dm_frameStart dm = of_nat (f * 6)"
    and fit: "f * 6 + 6 \<le> length (concat os)" and out: "f * D + D \<le> length out" "length out < 2 ^ 31"
    and inv: "rx_inv (6 div sr) os (take (length os) (sent_blocks sr D rows mc bits F)) s' (f * sr) (dm_signBits dm)"
  defines "gs \<equiv> 6 div sr" and "E \<equiv> take (length os) (sent_blocks sr D rows mc bits F)"
  shows "\<exists>sx. for_loop 0 sr (demap_group (of_nat (f * D))) (dm, out) =
       Some (dm\<lparr>dm_signBits := sx\<rparr>, filled (f * D) (f * D + (6 - sr)) (\<lambda>k. frame_bits D bits f ! (k - f * D)) out) \<and>
     rx_inv gs os E s' (Suc f * sr) sx"
proof -
  have sr: "sr \<in> {1, 2, 3}" and D: "6 - sr < D" using pk by (auto simp: params_ok_def)
  note gz = group_sizes [OF sr, folded gs_def]
  have cap: "cap < 2 ^ 31" "length (dm_signs dm) = cap" "length (dm_codes dm) = cap" "dm_signBitGroupSize dm = of_nat gs"
    using ok by (auto simp: demapper_ok_def gs_def)
  let ?fb = "frame_bits D bits f"
  let ?o = "\<lambda>g. filled (f * D) (f * D + g * (gs - 1)) (\<lambda>k. ?fb ! (k - f * D)) out"
  let ?I = "\<lambda>g (dm', out'). \<exists>sx. dm' = dm\<lparr>dm_signBits := sx\<rparr> \<and> out' = ?o g \<and> rx_inv gs os E s' (f * sr + g) sx"
  have "\<exists>s. for_loop 0 sr (demap_group (of_nat (f * D))) (dm, out) = Some s \<and> ?I (0 + sr) s"
  proof (rule for_loop_inv)
    show "?I 0 (dm, out)" using inv by (auto simp: gs_def E_def intro!: exI [of _ "dm_signBits dm"])
    fix g s assume g: "0 \<le> g" "g < 0 + sr" and "?I g s"
    then obtain sx where I: "s = (dm\<lparr>dm_signBits := sx\<rparr>, ?o g)" "rx_inv gs os E s' (f * sr + g) sx" by auto
    have gs': "g < sr" using g by simp
    note gf = group_fits [OF sr gs', folded gs_def]
    note sbl = stored_block [OF pk ls st fit gs', folded gs_def]
    note sb = stream_block [OF pk ls sbl(1) gs', folded E_def]
    have "f * 6 + 6 < 2 ^ 31" "f * D + D < 2 ^ 31" using fit out st cap(1,3) unfolding stored_def by linarith+
    note off = group_offsets [OF pk gs_def [THEN meta_eq_to_obj_eq] cap(4) gs' this]
    let ?j = "f * sr + g" and ?p = "f * D + g * (gs - 1)"
    have b1: "f * 6 + g * gs + gs \<le> length (dm_signs dm)" using fit gf(1) st cap(2,3) by (simp add: stored_def)
    have lo: "?p \<le> length out" "?p + (gs - 1) \<le> length out" using gf(2) D out(1) by linarith+
    then have b2: "?p + (gs - 1) \<le> length (?o g)" by simp
    have fp: "\<forall>v \<in> set (fst (E ! ?j)). 0 < sint v"
      unfolding sb(2) by (rule frame_block_positive [OF pk sb(3) pr gs'])
    obtain sx' where x: "extractor_process sx (dm_signs dm) (f * 6 + g * gs) (?o g) ?p =
        Some (sx', filled ?p (?p + (gs - 1)) (\<lambda>k. snd (E ! ?j) ! (k - ?p)) (?o g))" "rx_inv gs os E s' (Suc ?j) sx'"
      using extract_block [OF I(2) sbl(1) fp b1 sbl(2) b2] by blast
    have "filled ?p (?p + (gs - 1)) (\<lambda>k. snd (E ! ?j) ! (k - ?p)) (?o g) = filled ?p (?p + (gs - 1)) (\<lambda>k. ?fb ! (k - f * D)) (?o g)"
    proof (rule filled_cong)
      fix k assume k: "?p \<le> k" "k < ?p + (gs - 1)"
      then have "k - ?p < 6 div sr - 1" "g * (gs - 1) + (k - ?p) = k - f * D" by (simp_all add: gs_def)
      then show "snd (E ! ?j) ! (k - ?p) = ?fb ! (k - f * D)"
        using frame_block_data [OF pk sb(3) gs'] unfolding sb(2) gs_def by simp
    qed
    also have "\<dots> = filled (f * D) (?p + (gs - 1)) (\<lambda>k. ?fb ! (k - f * D)) out"
      by (rule filled_join(1)) (use lo in simp_all)
    also have "\<dots> = ?o (Suc g)" by (simp only: mult_Suc add.assoc add.commute [of "gs - 1"])
    finally have "demap_group (of_nat (f * D)) g s = Some (dm\<lparr>dm_signBits := sx'\<rparr>, ?o (Suc g))"
      using x(1) off unfolding I(1) demap_group_def by (simp add: fs)
    then show "\<exists>s'. demap_group (of_nat (f * D)) g s = Some s' \<and> ?I (Suc g) s'" using x(2) by auto
  qed
  then show ?thesis using gz(4) by (auto simp: add.commute)
qed

lemma demap_frame_run:
  assumes pk: "params_ok sr id' D rows mc" and pr: "positive_rows mc rows" and ls: "line_stream sr D rows mc bits F m0 os"
    and ok: "demapper_ok sr D mc rows cap dm" and st: "stored sr D mc bits os dm" and fs: "dm_frameStart dm = of_nat (f * 6)"
    and fit: "f * 6 + 6 \<le> length (concat os)" and out: "f * D + D \<le> length out" "length out < 2 ^ 31"
    and inv: "rx_inv (6 div sr) os (take (length os) (sent_blocks sr D rows mc bits F)) s' (f * sr) (dm_signBits dm)"
  shows "\<exists>sx. demap_frame dm out (of_nat (f * D)) =
       Some (dm\<lparr>dm_signBits := sx, dm_frameStart := of_nat (Suc f * 6)\<rparr>, filled (f * D) (Suc f * D) (\<lambda>k. bits ! k) out, of_nat (Suc f * D)) \<and>
     rx_inv (6 div sr) os (take (length os) (sent_blocks sr D rows mc bits F)) s' (Suc f * sr) sx"
proof -
  have sr: "sr \<in> {1, 2, 3}" and D: "6 - sr < D" using pk by (auto simp: params_ok_def)
  note gz = group_sizes [OF sr] and un = params_nats [OF pk]
  have cap: "cap < 2 ^ 31" "length (dm_codes dm) = cap" "dm_bitsPerFrame dm = of_nat D" "dm_signBitsPerFrame dm = of_nat (6 - sr)"
    "dm_signBitGroups dm = of_nat sr" "dm_modulusDecoder dm = mc" using ok by (auto simp: demapper_ok_def)
  have n: "length (concat os) \<le> cap" using st cap(2) by (simp add: stored_def)
  note sb0 = stored_block(1) [OF pk ls st fit gz(5)]
  let ?fb = "frame_bits D bits f" and ?off = "f * D + (6 - sr)"
  have fb: "length ?fb = D" "\<forall>b \<in> set ?fb. is_bit b"
    using stream_block(3) [OF pk ls sb0 gz(5)] ls frame_bits_are_bits by (auto simp: line_stream_def)
  have o1: "unat (of_nat (f * D) + (of_nat (6 - sr) :: u32)) = ?off"
  proof -
    have "?off < 2 ^ 31" using out D by linarith
    moreover have "of_nat (f * D) + (of_nat (6 - sr) :: u32) = of_nat ?off" by (simp only: of_nat_add)
    ultimately show ?thesis by (simp only: unat_small_u32)
  qed
  have o2: "unat (dm_frameStart dm) = f * 6" unfolding fs by (rule unat_small_u32) (use fit n cap(1) in linarith)
  have codes: "6 \<le> length (drop (f * 6) (dm_codes dm))" "take 6 (drop (f * 6) (dm_codes dm)) = frame_codes sr D mc ?fb"
  proof -
    show l: "6 \<le> length (drop (f * 6) (dm_codes dm))" using fit n cap(2) by simp
    show "take 6 (drop (f * 6) (dm_codes dm)) = frame_codes sr D mc ?fb"
    proof (rule nth_equalityI)
      fix i assume "i < length (take 6 (drop (f * 6) (dm_codes dm)))"
      then have i: "i < 6" by simp
      then have "dm_codes dm ! (f * 6 + i) = sample_code sr D mc bits (f * 6 + i)" using st fit by (simp add: stored_def)
      then show "take 6 (drop (f * 6) (dm_codes dm)) ! i = frame_codes sr D mc ?fb ! i"
        using i l by (simp add: sample_code_def)
    qed (use l in \<open>simp add: frame_codes_def\<close>)
  qed
  let ?bytes = "filled 0 (D - (6 - sr)) (\<lambda>i. ?fb ! (6 - sr + i)) (drop ?off out)"
  have md: "ModulusDecoder_progress mc (drop ?off out) (drop (f * 6) (dm_codes dm)) = Some ?bytes"
    by (rule frame_modulus [OF pk fb codes]) (use out(1) D in simp)
  define out1 where "out1 = take ?off out @ ?bytes"
  have out1: "out1 = filled ?off (f * D + D) (\<lambda>k. ?fb ! (k - f * D)) out"
    unfolding out1_def using take_filled [of ?off "D - (6 - sr)" out "\<lambda>k. ?fb ! (k - f * D)"] out(1) D
    by (simp add: add.assoc)
  have lo: "length out1 = length out" using out(1) D by (simp add: out1)
  obtain sx where g: "for_loop 0 sr (demap_group (of_nat (f * D))) (dm, out1) =
       Some (dm\<lparr>dm_signBits := sx\<rparr>, filled (f * D) ?off (\<lambda>k. ?fb ! (k - f * D)) out1)"
     "rx_inv (6 div sr) os (take (length os) (sent_blocks sr D rows mc bits F)) s' (Suc f * sr) sx"
    using group_run [OF pk pr ls ok st fs fit _ _ inv, of out1] out unfolding lo by blast
  have res: "filled (f * D) ?off (\<lambda>k. ?fb ! (k - f * D)) out1 = filled (f * D) (Suc f * D) (\<lambda>k. bits ! k) out"
  proof -
    have "filled (f * D) ?off (\<lambda>k. ?fb ! (k - f * D)) out1 = filled (f * D) (f * D + D) (\<lambda>k. ?fb ! (k - f * D)) out"
      unfolding out1 by (rule filled_join(2)) (use out(1) D in simp_all)
    also have "\<dots> = filled (f * D) (f * D + D) (\<lambda>k. bits ! k) out"
      by (rule filled_cong) (use fb(1) in \<open>simp add: frame_bits_def\<close>)
    finally show ?thesis by (simp add: add.commute)
  qed
  show ?thesis
    unfolding demap_frame_def cap(4-6) o1 o2 Let_def md Option.bind.bind_lunit out1_def [symmetric] if_P [OF un(5)] un(3)
      g(1) split_conv res
    using g(2) by (intro exI [of _ sx]) (simp add: cap(3) fs add.commute)
qed

subsection \<open>All whole frames\<close>

lemma demap_frames_run:
  assumes pk: "params_ok sr id' D rows mc" and pr: "positive_rows mc rows" and ls: "line_stream sr D rows mc bits F m0 os"
    and R: "R = length (concat os) div 6" and out: "R * D \<le> length out0" "length out0 < 2 ^ 31"
  shows "R - f < fuel \<Longrightarrow> f \<le> R \<Longrightarrow> demapper_ok sr D mc rows cap dm \<Longrightarrow> stored sr D mc bits os dm \<Longrightarrow>
     dm_frameStart dm = of_nat (f * 6) \<Longrightarrow> dm_sampleCount dm = of_nat (length (concat os)) \<Longrightarrow>
     rx_inv (6 div sr) os (take (length os) (sent_blocks sr D rows mc bits F)) s' (f * sr) (dm_signBits dm) \<Longrightarrow> length out = length out0 \<Longrightarrow>
     \<exists>sx. demap_frames fuel (dm, out, of_nat (f * D)) =
       Some (dm\<lparr>dm_signBits := sx, dm_frameStart := of_nat (R * 6)\<rparr>, filled (f * D) (R * D) (\<lambda>k. bits ! k) out, of_nat (R * D))"
proof (induction fuel arbitrary: f dm out)
  case (Suc fuel)
  let ?n = "length (concat os)"
  have cap: "?n \<le> cap" "cap < 2 ^ 31" using Suc.prems(3,4) by (auto simp: demapper_ok_def stored_def)
  have R6: "R * 6 \<le> ?n" "?n < R * 6 + 6" unfolding R by (simp_all add: div_times_less_eq_dividend dividend_less_div_times)
  have test: "(dm_frameStart dm + 6 \<le> dm_sampleCount dm) = (f < R)"
  proof -
    have "f * 6 \<le> R * 6" using Suc.prems(2) by simp
    then have lt: "f * 6 + 6 < 2 ^ 32" using R6(1) cap by simp
    have "dm_frameStart dm + 6 = of_nat (f * 6 + 6)" unfolding Suc.prems(5) by simp
    moreover have "unat (of_nat (f * 6 + 6) :: u32) = f * 6 + 6" using lt by (simp add: unat_of_nat take_bit_nat_eq_self del: of_nat_add)
    moreover have "unat (of_nat ?n :: u32) = ?n" by (rule unat_small_u32) (use cap in linarith)
    ultimately have "(dm_frameStart dm + 6 \<le> dm_sampleCount dm) = (f * 6 + 6 \<le> ?n)"
      unfolding Suc.prems(6) by (simp only: word_le_nat_alt)
    also have "\<dots> = (f < R)" using R6 by linarith
    finally show ?thesis .
  qed
  show ?case
  proof (cases "f < R")
    case False
    then have "f = R" using Suc.prems(2) by simp
    then show ?thesis using test Suc.prems(5) by (auto intro!: exI [of _ "dm_signBits dm"])
  next
    case True
    then have fR: "Suc f * 6 \<le> R * 6" "Suc f * D \<le> R * D" by (intro mult_le_mono1, simp)+
    have fit: "f * 6 + 6 \<le> ?n" "f * D + D \<le> length out" "length out < 2 ^ 31"
      using fR R6(1) out Suc.prems(8) by (simp_all add: add.commute)
    obtain sx where d: "demap_frame dm out (of_nat (f * D)) =
       Some (dm\<lparr>dm_signBits := sx, dm_frameStart := of_nat (Suc f * 6)\<rparr>, filled (f * D) (Suc f * D) (\<lambda>k. bits ! k) out, of_nat (Suc f * D))"
      "rx_inv (6 div sr) os (take (length os) (sent_blocks sr D rows mc bits F)) s' (Suc f * sr) sx"
      using demap_frame_run [OF pk pr ls Suc.prems(3,4,5) fit Suc.prems(7)] by blast
    let ?d = "dm\<lparr>dm_signBits := sx, dm_frameStart := of_nat (Suc f * 6)\<rparr>"
    let ?o = "filled (f * D) (Suc f * D) (\<lambda>k. bits ! k) out"
    have lo: "length ?o = length out" using fit(2) by (simp add: add.commute)
    have "demapper_ok sr D mc rows cap ?d" "stored sr D mc bits os ?d" "dm_sampleCount ?d = of_nat ?n"
      "dm_frameStart ?d = of_nat (Suc f * 6)" "dm_signBits ?d = sx"
      using Suc.prems(3,4,6) by (simp_all add: demapper_ok_def stored_def tables_ok_def)
    moreover have "R - Suc f < fuel" "Suc f \<le> R" using Suc.prems(1) True by simp_all
    ultimately obtain sx' where "demap_frames fuel (?d, ?o, of_nat (Suc f * D)) =
       Some (?d\<lparr>dm_signBits := sx', dm_frameStart := of_nat (R * 6)\<rparr>, filled (Suc f * D) (R * D) (\<lambda>k. bits ! k) ?o, of_nat (R * D))"
      using Suc.IH [of "Suc f" ?d ?o] d(2) lo Suc.prems(8) by metis
    moreover have "filled (Suc f * D) (R * D) (\<lambda>k. bits ! k) ?o = filled (f * D) (R * D) (\<lambda>k. bits ! k) out"
      by (rule filled_join(1)) (use fR(2) out Suc.prems(8) in simp_all)
    ultimately show ?thesis using d(1) test True by auto
  qed
qed simp

lemma keep_run:
  assumes "length (dm_codes dm) = cap" and "length (dm_signs dm) = cap" and "fs + left \<le> cap"
  shows "\<exists>cs ss. for_loop 0 left (keep_step fs) dm = Some (dm\<lparr>dm_codes := cs, dm_signs := ss\<rparr>) \<and> length cs = cap \<and> length ss = cap"
proof -
  let ?I = "\<lambda>(i :: nat) dm'. \<exists>cs ss. dm' = dm\<lparr>dm_codes := cs, dm_signs := ss\<rparr> \<and> length cs = cap \<and> length ss = cap"
  have "\<exists>s'. for_loop 0 left (keep_step fs) dm = Some s' \<and> ?I (0 + left) s'"
  proof (rule for_loop_inv)
    show "?I 0 dm" using assms by (auto intro!: exI [of _ "dm_codes dm"] exI [of _ "dm_signs dm"])
  next
    fix k s assume "0 \<le> k" "k < 0 + left" "?I k s"
    then show "\<exists>s'. keep_step fs k s = Some s' \<and> ?I (Suc k) s'"
      using assms(3) by (auto simp: keep_step_def mem_simps intro!: exI [of _ "_ [k := _]"])
  qed
  then show ?thesis by auto
qed

lemma stream_bits:
  assumes pk: "params_ok sr id' D rows mc" and ls: "line_stream sr D rows mc bits F m0 os"
  shows "length (concat os) div 6 * D \<le> length bits"
proof -
  have sr: "sr \<in> {1, 2, 3}" using pk by (auto simp: params_ok_def)
  have "length (concat os) = length os * (6 div sr)"
    using length_concat_same [of os "6 div sr"] stream_widths [OF ls] by simp
  also have "\<dots> \<le> F * sr * (6 div sr)" using ls by (intro mult_le_mono1) (simp add: line_stream_def)
  also have "\<dots> = F * 6" by (simp only: mult.assoc group_sizes(1) [OF sr])
  finally have "length (concat os) div 6 \<le> F * 6 div 6" by (rule div_le_mono)
  then have "length (concat os) div 6 * D \<le> F * D" by (intro mult_le_mono1) simp
  also have "F * D \<le> length bits" using ls by (simp add: line_stream_def)
  finally show ?thesis .
qed

lemma demapper_process_run:
  assumes pk: "params_ok sr id' D rows mc" and pr: "positive_rows mc rows" and ls: "line_stream sr D rows mc bits F m0 os"
    and ok: "demapper_ok sr D mc rows cap dm" and st: "stored sr D mc bits os dm" and fs: "dm_frameStart dm = 0"
    and n: "dm_sampleCount dm = of_nat (length (concat os))"
    and sx: "extractor_ok (6 div sr) (dm_signBits dm)" "sx_state (dm_signBits dm) = 0" "dec_memory (6 div sr) (dm_signBits dm) = m0"
    and out: "length (concat os) div 6 * D \<le> length out" "length out < 2 ^ 31"
  shows "\<exists>dm' out'. V90Demapper_process dm out = Some (dm', out', of_nat (length (concat os) div 6 * D), of_bool (6 \<le> length (concat os))) \<and>
     take (length (concat os) div 6 * D) out' = take (length (concat os) div 6 * D) bits \<and> length out' = length out"
proof -
  let ?n = "length (concat os)" and ?R = "length (concat os) div 6"
  have cap: "?n \<le> cap" "cap < 2 ^ 31" "length (dm_codes dm) = cap" "length (dm_signs dm) = cap"
    using ok st by (auto simp: demapper_ok_def stored_def)
  have un: "unat (dm_sampleCount dm) = ?n" unfolding n by (rule unat_small_u32) (use cap in linarith)
  have small: "(dm_sampleCount dm \<le> 5) = (\<not> 6 \<le> ?n)" by (simp add: word_le_nat_alt un) linarith
  show ?thesis
  proof (cases "6 \<le> ?n")
    case False
    then show ?thesis using small by (simp add: V90Demapper_process_def)
  next
    case True
    obtain s' where "carries (6 div sr) (m0, 0) os (take (length os) (sent_blocks sr D rows mc bits F)) s'"
      using ls by (auto simp: line_stream_def)
    then have inv: "rx_inv (6 div sr) os (take (length os) (sent_blocks sr D rows mc bits F)) s' (0 * sr) (dm_signBits dm)"
      using sx ls by (simp add: rx_inv_def line_stream_def)
    have "\<exists>sx'. demap_frames (?n + 1) (dm, out, of_nat (0 * D)) =
       Some (dm\<lparr>dm_signBits := sx', dm_frameStart := of_nat (?R * 6)\<rparr>, filled (0 * D) (?R * D) (\<lambda>k. bits ! k) out, of_nat (?R * D))"
      by (rule demap_frames_run [OF pk pr ls refl out _ _ ok st _ n inv refl]) (use fs in simp_all)
    then obtain sx' where f: "demap_frames (?n + 1) (dm, out, 0) =
       Some (dm\<lparr>dm_signBits := sx', dm_frameStart := of_nat (?R * 6)\<rparr>, filled 0 (?R * D) (\<lambda>k. bits ! k) out, of_nat (?R * D))"
      by auto
    have R6: "?R * 6 \<le> ?n" by (simp add: div_times_less_eq_dividend)
    have uf: "unat (of_nat (?R * 6) :: u32) = ?R * 6" by (rule unat_small_u32) (use R6 cap in linarith)
    let ?d = "dm\<lparr>dm_signBits := sx', dm_frameStart := of_nat (?R * 6)\<rparr>"
    obtain cs ss where k: "for_loop 0 (?n - ?R * 6) (keep_step (?R * 6)) ?d = Some (?d\<lparr>dm_codes := cs, dm_signs := ss\<rparr>)"
      using keep_run [of ?d cap "?R * 6" "?n - ?R * 6"] cap R6 by auto
    have "?R * D \<le> length bits" by (rule stream_bits [OF pk ls])
    then have "take (?R * D) (filled 0 (?R * D) (\<lambda>k. bits ! k) out) = take (?R * D) bits"
      using out(1) by (intro nth_equalityI) (simp_all add: filled_take)
    moreover have "V90Demapper_process dm out =
      Some (?d\<lparr>dm_codes := cs, dm_signs := ss, dm_sampleCount := of_nat (?n - ?R * 6), dm_frameStart := 0\<rparr>,
        filled 0 (?R * D) (\<lambda>k. bits ! k) out, of_nat (?R * D), 1)"
      using small True f k unfolding V90Demapper_process_def un by (simp add: un uf del: of_nat_mult)
    ultimately show ?thesis using True out(1) by auto
  qed
qed

end
