(* ===== verification/V90Reset.thy ===== *)
theory V90Reset
  imports V90Link
begin

unbundle bit_operations_syntax

text \<open>
  From the mapping parameters of a connection to a mapper and a demapper that fit each other: what the
  two resets leave in the objects.
\<close>

subsection \<open>Parameters\<close>

text \<open>The size of row \<open>i\<close> and its level \<open>j\<close>.\<close>

definition row_size :: "'d mapping_params \<Rightarrow> nat \<Rightarrow> nat" where
  "row_size vp i = unat (vp_constellationSize vp ! i)"

definition row_level :: "bool \<Rightarrow> 'd mapping_params \<Rightarrow> nat \<Rightarrow> nat \<Rightarrow> u16" where
  "row_level pcm vp i j = level_of pcm (vp_constellation vp ! i ! j)"

definition conn_coder :: "nat \<Rightarrow> nat \<Rightarrow> 'd mapping_params \<Rightarrow> modulus_coder" where
  "conn_coder sr D vp = (let s = (!) (vp_constellationSize vp) in
     modulus_coder_new (s 0) (s 1) (s 2) (s 3) (s 4) (s 5) (of_nat (D - (6 - sr))))"

definition conn_rows :: "bool \<Rightarrow> 'd mapping_params \<Rightarrow> u16 list list" where
  "conn_rows pcm vp =
     map (\<lambda>i. map (row_level pcm vp i) [0..<row_size vp i] @ replicate (128 - row_size vp i) 0) [0..<6]"

text \<open>A connection of \<open>D\<close> bits in a frame, \<open>sr\<close> redundant signs and a delay of \<open>id'\<close> blocks, whose rows hold
  all digits of the data and fall through positive levels.\<close>

definition agreed :: "bool \<Rightarrow> nat \<Rightarrow> nat \<Rightarrow> nat \<Rightarrow> 'd mapping_params \<Rightarrow> bool" where
  "agreed pcm sr id' D vp \<longleftrightarrow>
     sr \<in> {1, 2, 3} \<and> id' \<le> 3 \<and> 6 - sr < D \<and> D \<le> 69 - sr \<and>
     vp_word_0 vp = of_nat D \<and> vp_shaperSR vp = of_nat sr \<and> vp_shaperId vp = of_nat id' \<and>
     length (vp_constellation vp) = 6 \<and> length (vp_constellationSize vp) = 6 \<and>
     2 ^ (D - (6 - sr)) \<le> (\<Prod>k < 6. uint (vp_constellationSize vp ! k)) \<and>
     (\<forall>i < 6. 2 \<le> row_size vp i \<and> row_size vp i \<le> 128 \<and> row_size vp i \<le> length (vp_constellation vp ! i) \<and>
        (\<forall>j < row_size vp i. 0 < sint (row_level pcm vp i j)) \<and>
        (\<forall>j < row_size vp i. \<forall>k < j. sint (row_level pcm vp i j) < sint (row_level pcm vp i k)))"

lemma mc_size_conn: "k < 6 \<Longrightarrow> mc_size (conn_coder sr D vp) k = vp_constellationSize vp ! k"
proof -
  assume "k < 6"
  then have "k \<in> {0, 1, 2, 3, 4, 5}" by auto
  then show ?thesis by (auto simp: conn_coder_def modulus_coder_new_def Let_def)
qed

lemma conn_rows_nth: "i < 6 \<Longrightarrow> j < row_size vp i \<Longrightarrow> conn_rows pcm vp ! i ! j = row_level pcm vp i j"
  by (simp add: conn_rows_def nth_append)

lemma conn_params_ok:
  assumes "agreed pcm sr id' D vp"
  shows "params_ok sr id' D (conn_rows pcm vp) (conn_coder sr D vp)" and "positive_rows (conn_coder sr D vp) (conn_rows pcm vp)"
proof -
  have a: "sr \<in> {1, 2, 3}" "id' \<le> 3" "6 - sr < D" "D \<le> 69 - sr" "row_size vp i \<le> 128" if "i < 6" for i
    using assms that by (auto simp: agreed_def)
  have p: "(\<Prod>k < 6. uint (mc_size (conn_coder sr D vp) k)) = (\<Prod>k < 6. uint (vp_constellationSize vp ! k))"
    by (rule prod.cong) (simp_all add: mc_size_conn)
  have "D \<le> 80" "D - (6 - sr) \<le> 63" using a(1,4) [of 0] by auto
  moreover have "\<forall>k < 6. unat (mc_size (conn_coder sr D vp) k) \<le> 128" using a(5) by (simp add: mc_size_conn row_size_def)
  moreover have "\<forall>row \<in> set (conn_rows pcm vp). length row = 128" using a(5) by (auto simp: conn_rows_def)
  ultimately show "params_ok sr id' D (conn_rows pcm vp) (conn_coder sr D vp)"
    using assms unfolding params_ok_def p by (simp add: agreed_def conn_coder_def modulus_coder_new_def conn_rows_def Let_def)
  show "positive_rows (conn_coder sr D vp) (conn_rows pcm vp)"
    using assms by (auto simp: positive_rows_def mc_size_conn conn_rows_nth row_size_def [symmetric] agreed_def)
qed

subsection \<open>The mapper\<close>

definition fresh_mapper :: "'d mapper \<Rightarrow> bool" where
  "fresh_mapper raw \<longleftrightarrow> length (mp_buf raw) = 80 \<and> length (mp_codes raw) = 6 \<and> length (mp_levels raw) = 6 \<and>
     length (mp_signs raw) = 6 \<and> length (mp_samples raw) = 6 \<and>
     length (mp_constellation raw) = 6 \<and> (\<forall>row \<in> set (mp_constellation raw). length row = 128) \<and>
     length (sh_frameBits (mp_spectralShaper raw)) = 6 \<and> length (sh_codedBits (mp_spectralShaper raw)) = 6 \<and>
     length (sh_signBits (mp_spectralShaper raw)) = 6 \<and> length (sh_delayLine (mp_spectralShaper raw)) = 24 \<and>
     length (sh_trialLine (mp_spectralShaper raw)) = 24"

lemma fill_row_run:
  assumes "n \<le> length src" and "n \<le> 128" and "length row = 128"
  shows "fill_row pcm src n row = Some (map (\<lambda>j. level_of pcm (src ! j)) [0..<n] @ replicate (128 - n) 0)"
proof -
  have "for_loop 0 n (\<lambda>j row. do { b \<leftarrow> rd_at src j; wr_at row j (level_of pcm b) }) row =
      Some (filled 0 (0 + n) (\<lambda>j. level_of pcm (src ! j)) row)"
    by (rule for_fill) (use assms in \<open>auto simp: mem_simps\<close>)
  moreover have "for_loop n (128 - n) (\<lambda>j row. wr_at row j 0) (filled 0 n (\<lambda>j. level_of pcm (src ! j)) row) =
      Some (filled n (n + (128 - n)) (\<lambda>j. 0) (filled 0 n (\<lambda>j. level_of pcm (src ! j)) row))"
    by (rule for_fill) (use assms in auto)
  moreover have "filled n (n + (128 - n)) (\<lambda>j. 0) (filled 0 n (\<lambda>j. level_of pcm (src ! j)) row) =
      map (\<lambda>j. level_of pcm (src ! j)) [0..<n] @ replicate (128 - n) (0 :: u16)"
    using assms by (intro nth_equalityI) (auto simp: filled_nth nth_append)
  ultimately show ?thesis by (simp add: fill_row_def)
qed

lemma rows_loop:
  assumes ag: "agreed pcm sr id' D vp" and l: "length (mp_constellationSize mp) = 6" "length (mp_constellation mp) = 6"
    "\<forall>row \<in> set (mp_constellation mp). length row = 128"
  shows "for_loop 0 6 (row_step vp pcm) mp = Some (mp\<lparr>mp_constellationSize := vp_constellationSize vp, mp_constellation := conn_rows pcm vp\<rparr>)"
proof -
  let ?g = "\<lambda>k. mp\<lparr>mp_constellationSize := filled 0 k (\<lambda>i. vp_constellationSize vp ! i) (mp_constellationSize mp),
     mp_constellation := filled 0 k (\<lambda>i. conn_rows pcm vp ! i) (mp_constellation mp)\<rparr>"
  have v: "length (vp_constellation vp) = 6" "length (vp_constellationSize vp) = 6" using ag by (auto simp: agreed_def)
  have "for_loop 0 6 (row_step vp pcm) mp = Some (?g (0 + 6))"
  proof (rule for_loop_eq)
    fix k :: nat assume "0 \<le> k" "k < 0 + 6"
    then have k: "k < 6" by simp
    have r: "row_size vp k \<le> length (vp_constellation vp ! k)" "row_size vp k \<le> 128" "length (mp_constellation mp ! k) = 128"
      using ag k l by (auto simp: agreed_def)
    have "fill_row pcm (vp_constellation vp ! k) (unat (vp_constellationSize vp ! k)) (mp_constellation mp ! k) = Some (conn_rows pcm vp ! k)"
      using fill_row_run [OF r(1,2,3)] k by (simp add: conn_rows_def row_size_def row_level_def)
    then show "row_step vp pcm k (?g k) = Some (?g (Suc k))"
      using k v l by (simp add: row_step_def mem_simps)
  qed simp
  moreover have "filled 0 6 (\<lambda>i. vp_constellationSize vp ! i) (mp_constellationSize mp) = vp_constellationSize vp"
    "filled 0 6 (\<lambda>i. conn_rows pcm vp ! i) (mp_constellation mp) = conn_rows pcm vp"
    using l v by (auto intro!: nth_equalityI simp: filled_nth conn_rows_def)
  ultimately show ?thesis by simp
qed

lemma u32_group: "sr \<in> {1, 2, 3} \<Longrightarrow> 6 div (of_nat sr :: u32) = of_nat (6 div sr)" for sr :: nat
  by auto

lemma pdiff_reset_run:
  assumes "n \<le> 6"
  shows "pdiff_reset (pdiff_new 6) (of_nat n) 0 = Some (\<lparr>pd_state = replicate 6 0, pd_capacity = 6, pd_size = of_nat n\<rparr>, 0)"
proof -
  have u: "unat (of_nat n :: u32) = n" using assms by (intro unat_small_u32) simp
  have "for_loop 0 n (\<lambda>i st. wr_at st i 0) (replicate 6 0) = Some (filled 0 (0 + n) (\<lambda>_. 0) (replicate 6 (0 :: u8)))"
    by (rule for_fill) (use assms in auto)
  moreover have "filled 0 n (\<lambda>_. 0) (replicate 6 (0 :: u8)) = replicate 6 0"
    using assms by (intro nth_equalityI) (simp_all add: filled_nth)
  moreover have "\<not> 6 < (of_nat n :: u32)" using u assms by (simp add: word_less_nat_alt)
  ultimately show ?thesis by (simp add: pdiff_reset_def pdiff_new_def u)
qed

text \<open>The shaper after its reset holds nothing back and remembers nothing.\<close>

definition no_memory :: "nat \<Rightarrow> sign_memory" where
  "no_memory bl = (0, replicate bl 0)"

text \<open>The shaping filter after a reset: the coefficients of the mapping parameters, no memory.\<close>

definition reset_filter :: "'d fparith \<Rightarrow> nat \<Rightarrow> 'd four \<Rightarrow> 'd shaping_filter" where
  "reset_filter fa sr coeff = (setFilterCoeff coeff (ssf_reset fa (ssf_new fa)))\<lparr>ss_blockLength := of_nat (6 div sr)\<rparr>"

lemma shaper_reset_run:
  assumes F: "reset_filter fa sr coeff \<in> F" and sr: "sr \<in> {1, 2, 3}" and i: "id' \<le> 3"
    and l: "length (sh_frameBits raw) = 6" "length (sh_codedBits raw) = 6" "length (sh_signBits raw) = 6"
      "length (sh_delayLine raw) = 24" "length (sh_trialLine raw) = 24"
  shows "\<exists>sh. shaper_reset fa (of_nat id') (of_nat sr) coeff (shaper_new fa raw) = Some sh \<and>
     unat (sh_primeFrames sh) = id' \<and> tx_inv F id' (6 div sr) (no_memory (6 div sr)) [] [] sh"
proof -
  define bl where "bl = 6 div sr"
  have bl: "1 \<le> bl" "bl \<le> 6" using sr by (auto simp: bl_def)
  have nz: "(of_nat sr :: u32) \<noteq> 0" using sr by auto
  have line: "for_loop 0 24 (\<lambda>i line. wr_at line i 0) (sh_delayLine raw) = Some (filled 0 (0 + 24) (\<lambda>_. 0) (sh_delayLine raw))"
    by (rule for_fill) (use l in auto)
  define sh where "sh = (shaper_new fa raw)\<lparr>sh_shaperId := of_nat id', sh_shaperSR := of_nat sr, sh_blockLength := of_nat bl, sh_oddEncoder := 0,
     sh_pde := \<lparr>pd_state = replicate 6 0, pd_capacity = 6, pd_size = of_nat bl\<rparr>,
     sh_ssf := (setFilterCoeff coeff (ssf_reset fa (ssf_new fa)))\<lparr>ss_blockLength := of_nat bl\<rparr>,
     sh_windowLength := (of_nat id' + 1) * of_nat bl, sh_writeIndex := of_nat id' * of_nat bl,
     sh_delayLine := filled 0 24 (\<lambda>_. 0) (sh_delayLine raw), sh_primeFrames := of_nat id', sh_state := 0\<rparr>"
  have r: "shaper_reset fa (of_nat id') (of_nat sr) coeff (shaper_new fa raw) = Some sh"
    using line pdiff_reset_run [OF bl(2)] nz
    by (simp add: shaper_reset_def shaper_new_def u32_group [OF sr] bl_def [symmetric] sh_def Let_def)
  have p: "unat (sh_primeFrames sh) = id'" using i unat_small_u32 [of id'] by (simp add: sh_def)
  have "shaper_ok id' bl sh"
    using i bl l p by (simp add: shaper_ok_def shaper_core_def sh_def shaper_new_def distrib_right)
  moreover have "sh_primeFrames sh = of_nat id'" "sh_state sh = 0" "sh_ssf sh \<in> F"
    using F by (simp_all add: sh_def bl_def reset_filter_def)
  moreover have "enc_memory bl sh = no_memory bl" using bl by (simp add: enc_memory_def sh_def no_memory_def)
  moreover have "drop (unat (sh_primeFrames sh) * bl) (pending id' bl sh) = []" by (simp add: p pending_def)
  ultimately have "tx_inv F id' bl (no_memory bl) [] [] sh"
    using p by (intro tx_invI [where E = "[]" and Q = "[]" and m = "no_memory bl"]) auto
  then show ?thesis using r p by (auto simp: bl_def)
qed

lemma mapper_reset_run:
  assumes ag: "agreed pcm sr id' D vp" and fr: "fresh_mapper raw" and F: "reset_filter fa sr (vp_shaperCoeff vp) \<in> F"
  shows "\<exists>mp. V90Mapper_reset fa vp pcm (V90Mapper_new fa raw) = Some mp \<and>
     mapper_ok sr id' D (conn_rows pcm vp) (conn_coder sr D vp) mp \<and> unat (mp_primeFrames mp) = id' \<and>
     unat (sh_primeFrames (mp_spectralShaper mp)) = id' \<and> mp_bitsBuffered mp = 0 \<and>
     tx_inv F id' (6 div sr) (no_memory (6 div sr)) [] [] (mp_spectralShaper mp)"
proof -
  have a: "sr \<in> {1, 2, 3}" "id' \<le> 3" "vp_word_0 vp = of_nat D" "vp_shaperSR vp = of_nat sr" "vp_shaperId vp = of_nat id'"
    "length (vp_constellationSize vp) = 6" "6 - sr < D" using ag by (auto simp: agreed_def)
  have w: "6 - (of_nat sr :: u32) = of_nat (6 - sr)" using a(1) by auto
  have w': "of_nat D - (of_nat (6 - sr) :: u32) = of_nat (D - (6 - sr))" using a(7) by (simp add: of_nat_diff)
  have nz: "(of_nat sr :: u32) \<noteq> 0" using a(1) by auto
  obtain sh where sh: "shaper_reset fa (of_nat id') (of_nat sr) (vp_shaperCoeff vp) (shaper_new fa (mp_spectralShaper raw)) = Some sh"
     "unat (sh_primeFrames sh) = id'" "tx_inv F id' (6 div sr) (no_memory (6 div sr)) [] [] sh"
    using shaper_reset_run [OF F a(1,2)] fr unfolding fresh_mapper_def by blast
  define m0 where "m0 = (V90Mapper_new fa raw)\<lparr>mp_bitsPerFrame := of_nat D, mp_signBitGroups := of_nat sr,
     mp_signBitGroupSize := of_nat (6 div sr), mp_signBitsPerFrame := of_nat (6 - sr), mp_modulusBitCount := of_nat (D - (6 - sr))\<rparr>"
  have "for_loop 0 6 (row_step vp pcm) m0 = Some (m0\<lparr>mp_constellationSize := vp_constellationSize vp, mp_constellation := conn_rows pcm vp\<rparr>)"
    by (rule rows_loop [OF ag]) (use fr in \<open>simp_all add: m0_def V90Mapper_new_def fresh_mapper_def\<close>)
  moreover define m1 where "m1 = m0\<lparr>mp_constellationSize := vp_constellationSize vp, mp_constellation := conn_rows pcm vp,
     mp_spectralShaper := sh, mp_primeFrames := of_nat id'\<rparr>"
  moreover have "load_encoder m1 = Some (m1\<lparr>mp_modulusEncoder := conn_coder sr D vp\<rparr>)"
    using a(6) by (simp add: load_encoder_def m1_def m0_def mem_simps conn_coder_def Let_def)
  ultimately have "V90Mapper_reset fa vp pcm (V90Mapper_new fa raw) =
      Some (m1\<lparr>mp_modulusEncoder := conn_coder sr D vp, mp_signEncoder := 0, mp_word_700 := 0, mp_bitsBuffered := 0\<rparr>)"
    using sh(1) nz unfolding V90Mapper_reset_def a(3,4,5) Let_def u32_group [OF a(1)] w w'
    by (simp add: m0_def V90Mapper_new_def)
  moreover have "mapper_ok sr id' D (conn_rows pcm vp) (conn_coder sr D vp)
      (m1\<lparr>mp_modulusEncoder := conn_coder sr D vp, mp_signEncoder := 0, mp_word_700 := 0, mp_bitsBuffered := 0\<rparr>)"
    using fr by (simp add: mapper_ok_def m1_def m0_def V90Mapper_new_def fresh_mapper_def)
  moreover have "unat (of_nat id' :: u32) = id'" using a(2) by (intro unat_small_u32) simp
  ultimately show ?thesis using sh(2,3) by (auto simp: m1_def)
qed

subsection \<open>The demapper\<close>

definition fresh_demapper :: "nat \<Rightarrow> demapper \<Rightarrow> bool" where
  "fresh_demapper cap raw \<longleftrightarrow> cap < 2 ^ 31 \<and> length (dm_codes raw) = cap \<and> length (dm_signs raw) = cap \<and>
     length (dm_constellation raw) = 6 \<and> (\<forall>row \<in> set (dm_constellation raw). length row = 128) \<and>
     length (sx_bits (dm_signBits raw)) = 6"

text \<open>No phase alternates, and the detector has measured the levels the other end sends.\<close>

definition levels_known :: "bool \<Rightarrow> 'd mapping_params \<Rightarrow> impairments \<Rightarrow> bool" where
  "levels_known pcm vp ai \<longleftrightarrow> no_phases ai \<and> length (ai_linMapp ai) = 6 \<and>
     (\<forall>i < 6. \<forall>j < row_size vp i. let c = unat (vp_constellation vp ! i ! j) in
        c < length (ai_linMapp ai ! i) \<and> ai_linMapp ai ! i ! c = row_level pcm vp i j)"

lemma demap_rows_loop:
  assumes ag: "agreed pcm sr id' D vp" and lk: "levels_known pcm vp ai"
    and l: "length (dm_constellationSize dm) = 6" "length (dm_constellation dm) = 6" "\<forall>row \<in> set (dm_constellation dm). length row = 128"
  shows "for_loop 0 6 (demap_row ai vp) dm = Some (dm\<lparr>dm_constellationSize := vp_constellationSize vp,
     dm_constellation := map (\<lambda>i. filled 0 (row_size vp i) (row_level pcm vp i) (dm_constellation dm ! i)) [0..<6]\<rparr>)"
proof -
  let ?r = "\<lambda>i. filled 0 (row_size vp i) (row_level pcm vp i) (dm_constellation dm ! i)"
  let ?g = "\<lambda>k. dm\<lparr>dm_constellationSize := filled 0 k (\<lambda>i. vp_constellationSize vp ! i) (dm_constellationSize dm),
     dm_constellation := filled 0 k ?r (dm_constellation dm)\<rparr>"
  have v: "length (vp_constellation vp) = 6" "length (vp_constellationSize vp) = 6" "length (ai_linMapp ai) = 6" "ai_altRbsFlag ai = replicate 6 0"
    using ag lk by (auto simp: agreed_def levels_known_def no_phases_def)
  have "for_loop 0 6 (demap_row ai vp) dm = Some (?g (0 + 6))"
  proof (rule for_loop_eq)
    fix k :: nat assume "0 \<le> k" "k < 0 + 6"
    then have k: "k < 6" by simp
    have r: "row_size vp k \<le> length (vp_constellation vp ! k)" "row_size vp k \<le> 128" "length (dm_constellation dm ! k) = 128"
      using ag k l by (auto simp: agreed_def)
    have lev: "unat (vp_constellation vp ! k ! j) < length (ai_linMapp ai ! k)"
      "ai_linMapp ai ! k ! unat (vp_constellation vp ! k ! j) = row_level pcm vp k j" if "j < row_size vp k" for j
      using lk k that by (auto simp: levels_known_def Let_def)
    have "for_loop 0 (row_size vp k) (demap_level ai k False (vp_constellation vp ! k)) (dm_constellation dm ! k) =
        Some (filled 0 (0 + row_size vp k) (row_level pcm vp k) (dm_constellation dm ! k))"
      by (rule for_fill) (use r v k lev in \<open>auto simp: demap_level_def mem_simps\<close>)
    then show "demap_row ai vp k (?g k) = Some (?g (Suc k))"
      using k v l by (simp add: demap_row_def mem_simps row_size_def [symmetric])
  qed simp
  moreover have "filled 0 6 (\<lambda>i. vp_constellationSize vp ! i) (dm_constellationSize dm) = vp_constellationSize vp"
    using l v by (intro nth_equalityI) (simp_all add: filled_nth)
  ultimately show ?thesis using l(2) by (simp add: filled_all)
qed

lemma extractor_reset_run:
  assumes sr: "sr \<in> {1, 2, 3}" and "length (sx_bits raw) = 6"
  shows "\<exists>sx. extractor_reset (of_nat sr) 0 (extractor_new raw) = Some sx \<and> extractor_ok (6 div sr) sx \<and> sx_state sx = 0 \<and>
     dec_memory (6 div sr) sx = no_memory (6 div sr)"
proof -
  have bl: "1 \<le> 6 div sr" "6 div sr \<le> 6" and nz: "(of_nat sr :: u32) \<noteq> 0" using sr by auto
  show ?thesis
    using pdiff_reset_run [OF bl(2)] nz assms bl
    by (simp add: extractor_reset_def extractor_new_def Let_def u32_group [OF sr] extractor_ok_def dec_memory_def no_memory_def)
qed

lemma demapper_reset_run:
  assumes ag: "agreed pcm sr id' D vp" and lk: "levels_known pcm vp ai" and fr: "fresh_demapper cap raw"
  shows "\<exists>dm. V90Demapper_reset dp ai vp (V90Demapper_new (of_nat cap) raw) = Some dm \<and>
     demapper_ok sr D (conn_coder sr D vp) (conn_rows pcm vp) cap dm \<and> holds_samples [] [] dm \<and> dm_frameStart dm = 0 \<and>
     extractor_ok (6 div sr) (dm_signBits dm) \<and> sx_state (dm_signBits dm) = 0 \<and>
     dec_memory (6 div sr) (dm_signBits dm) = no_memory (6 div sr)"
proof -
  have a: "sr \<in> {1, 2, 3}" "vp_word_0 vp = of_nat D" "vp_shaperSR vp = of_nat sr" "length (vp_constellationSize vp) = 6" "6 - sr < D"
    using ag by (auto simp: agreed_def)
  have w: "6 - (of_nat sr :: u32) = of_nat (6 - sr)" using a(1) by auto
  have w': "of_nat D - (of_nat (6 - sr) :: u32) = of_nat (D - (6 - sr))" using a(5) by (simp add: of_nat_diff)
  have nz: "(of_nat sr :: u32) \<noteq> 0" using a(1) by auto
  define d0 where "d0 = (V90Demapper_new (of_nat cap) raw)\<lparr>dm_bitsPerFrame := of_nat D, dm_signBitGroups := of_nat sr,
     dm_signBitsPerFrame := of_nat (6 - sr), dm_modulusBitCount := of_nat (D - (6 - sr)), dm_signBitGroupSize := of_nat (6 div sr)\<rparr>"
  define rows where "rows = map (\<lambda>i. filled 0 (row_size vp i) (row_level pcm vp i) (dm_constellation raw ! i)) [0..<6]"
  have "for_loop 0 6 (demap_row ai vp) d0 = Some (d0\<lparr>dm_constellationSize := vp_constellationSize vp, dm_constellation := rows\<rparr>)"
    using demap_rows_loop [OF ag lk, of d0] fr by (simp add: d0_def V90Demapper_new_def fresh_demapper_def rows_def)
  moreover define d1 where "d1 = d0\<lparr>dm_constellationSize := vp_constellationSize vp, dm_constellation := rows\<rparr>"
  moreover have "load_decoder d1 = Some (d1\<lparr>dm_modulusDecoder := conn_coder sr D vp\<rparr>)"
    using a(4) by (simp add: load_decoder_def d1_def d0_def mem_simps conn_coder_def Let_def)
  moreover obtain sx where sx: "extractor_reset (of_nat sr) 0 (extractor_new (dm_signBits raw)) = Some sx" "extractor_ok (6 div sr) sx"
    "sx_state sx = 0" "dec_memory (6 div sr) sx = no_memory (6 div sr)"
    using extractor_reset_run [OF a(1)] fr unfolding fresh_demapper_def by blast
  moreover define d2 where "d2 = d1\<lparr>dm_modulusDecoder := conn_coder sr D vp, dm_signDecoder := 0, dm_signBits := sx, dm_sampleCount := 0,
     dm_frameStart := 0, dm_rbsFramePosition := 0, dm_errorSum := zero_table, dm_errorCount := zero_table,
     dm_histogramDelay := (if dp_histogram_delay dp < dp_TRN2D_DD_LENGTH dp then dp_histogram_delay dp else 0),
     dm_histogramIntegration := 0, dm_decisionFramePosition := 0\<rparr>"
  ultimately have "V90Demapper_reset dp ai vp (V90Demapper_new (of_nat cap) raw) = Some d2"
    using nz unfolding V90Demapper_reset_def a(2,3) Let_def u32_group [OF a(1)] w w'
    by (simp add: d0_def V90Demapper_new_def)
  moreover have "\<forall>k < 6. falling (rows ! k) (row_size vp k) \<and> (\<forall>j < row_size vp k. rows ! k ! j = conn_rows pcm vp ! k ! j)"
  proof (intro allI impI)
    fix k :: nat assume k: "k < 6"
    have r: "row_size vp k \<le> 128" "length (dm_constellation raw ! k) = 128" using ag fr k by (auto simp: agreed_def fresh_demapper_def)
    have n: "rows ! k ! j = row_level pcm vp k j" if "j < row_size vp k" for j using k r that by (simp add: rows_def filled_nth)
    have "falling (rows ! k) (row_size vp k)"
      using ag k r n unfolding falling_def by (auto simp: agreed_def rows_def)
    then show "falling (rows ! k) (row_size vp k) \<and> (\<forall>j < row_size vp k. rows ! k ! j = conn_rows pcm vp ! k ! j)"
      using n k by (simp add: conn_rows_nth)
  qed
  then have "demapper_ok sr D (conn_coder sr D vp) (conn_rows pcm vp) cap d2"
    using fr ag zero_table_ok
    by (simp add: demapper_ok_def d2_def d1_def d0_def V90Demapper_new_def fresh_demapper_def tables_ok_def mc_size_conn
        row_size_def [symmetric] agreed_def rows_def)
  ultimately show ?thesis using sx by (auto simp: d2_def holds_samples_def)
qed

end
