(* ===== verification/V90LinkProps.thy ===== *)
theory V90LinkProps
  imports V90Reset
begin

text \<open>
  The V.90 digital path as a whole: bits through a mapper just reset, samples on the line, decisions and
  bits out of a demapper just reset.
\<close>

lemma no_memory_ok: "1 \<le> bl \<Longrightarrow> memory_ok bl (no_memory bl)"
  by (cases bl) (auto simp: memory_ok_def no_memory_def is_bit_def)

lemma tx_stream:
  assumes "tx_inv filters id' (6 div sr) m0 (sent_blocks sr D rows mc bits F) os sh" and "memory_ok (6 div sr) m0"
    and "F * D \<le> length bits" and "\<forall>b \<in> set bits. is_bit b"
  shows "line_stream sr D rows mc bits F m0 os"
proof -
  obtain E Q m where q: "sent_blocks sr D rows mc bits F = E @ Q" "carries (6 div sr) (m0, 0) os E (m, sh_state sh)"
    using assms(1) unfolding tx_inv_def by blast
  have "length os = length E" by (rule carries_length [OF q(2)])
  then have "take (length os) (sent_blocks sr D rows mc bits F) = E" "length os \<le> F * sr"
    using q(1) length_sent_blocks [of sr D rows mc bits F] by (simp_all del: length_sent_blocks)
  then show ?thesis using assms(2-4) q(2) unfolding line_stream_def by blast
qed

text \<open>The receiver's part: samples of the stream, decided and demapped.\<close>

lemma receiver_run:
  assumes pk: "params_ok sr id' D rows mc" and pr: "positive_rows mc rows" and ls: "line_stream sr D rows mc bits F (no_memory (6 div sr)) os"
    and ok: "demapper_ok sr D mc rows cap dm" and h: "holds_samples [] [] dm" and ai: "no_phases ai" and fs: "dm_frameStart dm = 0"
    and sx: "extractor_ok (6 div sr) (dm_signBits dm)" "sx_state (dm_signBits dm) = 0"
      "dec_memory (6 div sr) (dm_signBits dm) = no_memory (6 div sr)"
    and fit: "length (concat os) \<le> cap" "length (concat os) div 6 * D \<le> length out" "length out < 2 ^ 31"
  shows "\<exists>dm1 dm2 out'. hard_decisions dp ai dm (concat os) = Some dm1 \<and>
     V90Demapper_process dm1 out = Some (dm2, out', of_nat (length (concat os) div 6 * D), of_bool (6 \<le> length (concat os))) \<and>
     take (length (concat os) div 6 * D) out' = take (length (concat os) div 6 * D) bits"
proof -
  let ?n = "length (concat os)" and ?c = "\<lambda>i. unat (sample_code sr D mc bits i)"
  have n: "?n = length os * (6 div sr)" using length_concat_same [of os "6 div sr"] stream_widths [OF ls] by simp
  have "\<forall>i < ?n. is_level mc rows (length ([] :: u32 list) + i) (concat os ! i) (map ?c [0..<?n] ! i)"
    using stream_levels [OF pk pr ls] unfolding n by simp
  then obtain dm1 where d: "hard_decisions dp ai dm (concat os) = Some dm1" "demapper_ok sr D mc rows cap dm1"
    "holds_samples ([] @ map of_nat (map ?c [0..<?n])) ([] @ map sign_of (concat os)) dm1" "same_frames dm dm1"
    using decisions_run [OF ok h ai, of "concat os" "map ?c [0..<?n]" dp] fit(1) by auto
  have t: "take ?n (dm_codes dm1) = map (sample_code sr D mc bits) [0..<?n]" "take ?n (dm_signs dm1) = map sign_of (concat os)"
    and c: "dm_sampleCount dm1 = of_nat ?n" and l: "?n \<le> length (dm_codes dm1)"
    using d(3) by (simp_all add: holds_samples_def comp_def)
  have "dm_codes dm1 ! i = sample_code sr D mc bits i \<and> dm_signs dm1 ! i = sign_of (concat os ! i)" if "i < ?n" for i
    using arg_cong [OF t(1), of "\<lambda>xs. xs ! i"] arg_cong [OF t(2), of "\<lambda>xs. xs ! i"] that by simp
  then have "stored sr D mc bits os dm1" using l by (simp add: stored_def)
  from demapper_process_run [OF pk pr ls d(2) this _ c _ _ _ fit(2,3)]
  show ?thesis using d(1,4) fs sx by (auto simp: same_frames_def)
qed

text \<open>C4: whatever the trellis of the spectral shaper decides, a demapper reset with the same mapping
  parameters recovers the data a mapper was given: all the bits of the whole frames that the shaper's
  delay of \<open>id'\<close> blocks has let onto the line, and nothing else. Of the floating-point arithmetic it only
  assumes that every energy computed from a state the filter reaches after its reset is below the \<open>1e38\<close>
  the trellis starts its search from (\<open>bounded_metrics\<close>).\<close>

theorem v90_link_delivers:
  assumes ag: "agreed pcm sr id' D vp" and lk: "levels_known pcm vp ai" 
    and bm: "bounded_metrics fa (reset_filter fa sr (vp_shaperCoeff vp))"
    and fresh: "fresh_mapper raw" "fresh_demapper cap rawd"
    and bits: "\<forall>b \<in> set bits. is_bit b" "length bits < 2 ^ 32"
    and n: "n = (length bits div D * sr - id') * (6 div sr)" "n \<le> length symbols" "length symbols < 2 ^ 31" "n \<le> cap"
    and out: "n div 6 * D \<le> length out" "length out < 2 ^ 31"
  shows "\<exists>mp mp' symbols' dm dm1 dm2 out'.
     V90Mapper_reset fa vp pcm (V90Mapper_new fa raw) = Some mp \<and>
     V90Mapper_process fa mp bits (of_nat (length bits)) symbols = Some (mp', symbols', of_nat n) \<and>
     V90Demapper_reset dp ai vp (V90Demapper_new (of_nat cap) rawd) = Some dm \<and>
     hard_decisions dp ai dm (take n symbols') = Some dm1 \<and>
     V90Demapper_process dm1 out = Some (dm2, out', of_nat (n div 6 * D), of_bool (6 \<le> n)) \<and>
     take (n div 6 * D) out' = take (n div 6 * D) bits"
proof -
  let ?rows = "conn_rows pcm vp" and ?mc = "conn_coder sr D vp" and ?N = "length bits div D"
  have sr: "sr \<in> {1, 2, 3}" using ag by (simp add: agreed_def)
  note pk = conn_params_ok [OF ag]
  let ?F = "filter_states fa (reset_filter fa sr (vp_shaperCoeff vp))"
  note sf = bounded_safe [OF bm]
  have u: "unat (of_nat (length bits) :: u32) = length bits" using bits(2) by (simp add: unat_of_nat take_bit_nat_eq_self)
  have nm: "memory_ok (6 div sr) (no_memory (6 div sr))" using group_sizes(2) [OF sr] by (intro no_memory_ok) simp
  obtain mp where mp: "V90Mapper_reset fa vp pcm (V90Mapper_new fa raw) = Some mp" "mapper_ok sr id' D ?rows ?mc mp"
    "unat (mp_primeFrames mp) = id'" "unat (sh_primeFrames (mp_spectralShaper mp)) = id'" "mp_bitsBuffered mp = 0"
    "tx_inv ?F id' (6 div sr) (no_memory (6 div sr)) [] [] (mp_spectralShaper mp)"
    using mapper_reset_run [OF ag fresh(1) filter_start] by blast
  obtain mp' symbols' os where tx: "V90Mapper_process fa mp bits (of_nat (length bits)) symbols = Some (mp', symbols', of_nat (length (concat os)))"
    "take (length (concat os)) symbols' = concat os" "length (concat os) = n"
    "tx_inv ?F id' (6 div sr) (no_memory (6 div sr)) (sent_blocks sr D ?rows ?mc bits ?N) os (mp_spectralShaper mp')"
    using mapper_stream [OF pk(1) sf bits(1) _ _ n(3) mp(2-6), of "of_nat (length bits)"] n(1,2) unfolding u by auto
  have ls: "line_stream sr D ?rows ?mc bits ?N (no_memory (6 div sr)) os"
    by (rule tx_stream [OF tx(4) nm _ bits(1)]) (simp add: div_times_less_eq_dividend)
  obtain dm where dm: "V90Demapper_reset dp ai vp (V90Demapper_new (of_nat cap) rawd) = Some dm" "demapper_ok sr D ?mc ?rows cap dm"
    "holds_samples [] [] dm" "dm_frameStart dm = 0" "extractor_ok (6 div sr) (dm_signBits dm)" "sx_state (dm_signBits dm) = 0"
    "dec_memory (6 div sr) (dm_signBits dm) = no_memory (6 div sr)"
    using demapper_reset_run [OF ag lk fresh(2)] by blast
  have ai: "no_phases ai" using lk by (simp add: levels_known_def)
  have fit: "length (concat os) \<le> cap" "length (concat os) div 6 * D \<le> length out" using n(4) out(1) tx(3) by simp_all
  show ?thesis
    using receiver_run [OF pk ls dm(2,3) ai dm(4-7) fit out(2), of dp] mp(1) dm(1) tx(1,2) unfolding tx(3) by auto
qed

subsection \<open>An instance\<close>

text \<open>Two levels in every row, three groups of two samples with a delay of one block: 9 bits in a frame. The
  arithmetic is on integers with their order; a \<open>float\<close> saturates, and all coefficients are 0.\<close>

definition demo_arith :: "int fparith" where
  "demo_arith = \<lparr>fp_of_short = sint, fp_add = (+), fp_sub = (-), fp_mul = (*),
     fp_single = (\<lambda>x. max (- (10 ^ 30)) (min (10 ^ 30) x)), fp_less = (<), fp_zero = 0, fp_huge = 10 ^ 38\<rparr>"

definition demo_params :: "int mapping_params" where
  "demo_params = \<lparr>vp_word_0 = 9, vp_constellation = replicate 6 [0x70, 0x40], vp_constellationSize = replicate 6 2,
     vp_shaperSR = 3, vp_shaperId = 1, vp_shaperCoeff = (0, 0, 0, 0)\<rparr>"

definition demo_impairments :: impairments where
  "demo_impairments = \<lparr>ai_linMapp = replicate 6 (map (\<lambda>c. level_of False (of_nat c)) [0..<128]),
     ai_linMappAlt = replicate 6 (replicate 128 0), ai_altRbsFlag = replicate 6 0\<rparr>"

definition demo_pdiff :: pdiff where
  "demo_pdiff = \<lparr>pd_state = [], pd_capacity = 0, pd_size = 0\<rparr>"

definition demo_shaper :: "int shaper" where
  "demo_shaper = \<lparr>sh_shaperId = 0, sh_shaperSR = 0, sh_blockLength = 0, sh_frameBits = replicate 6 7,
     sh_codedBits = replicate 6 7, sh_signBits = replicate 6 7, sh_state = 5, sh_primeFrames = 9,
     sh_delayLine = replicate 24 7, sh_trialLine = replicate 24 7, sh_writeIndex = 0, sh_windowLength = 0,
     sh_oddEncoder = 3, sh_pde = demo_pdiff, sh_ssf = ssf_new demo_arith\<rparr>"

definition demo_mapper :: "int mapper" where
  "demo_mapper = \<lparr>mp_bitsPerFrame = 0, mp_modulusBitCount = 0, mp_signBitsPerFrame = 0, mp_signBitGroups = 0,
     mp_signBitGroupSize = 0, mp_buf = replicate 80 7, mp_bitsBuffered = 3, mp_codes = replicate 6 7,
     mp_levels = replicate 6 7, mp_signs = replicate 6 7, mp_samples = replicate 6 7,
     mp_constellation = replicate 6 (replicate 128 7), mp_constellationSize = [],
     mp_modulusEncoder = modulus_coder_zero, mp_spectralShaper = demo_shaper, mp_primeFrames = 9, mp_signEncoder = 7,
     mp_word_700 = 7\<rparr>"

definition demo_demapper :: demapper where
  "demo_demapper = \<lparr>dm_bitsPerFrame = 0, dm_modulusBitCount = 0, dm_signBitsPerFrame = 0, dm_signBitGroups = 0,
     dm_signBitGroupSize = 0, dm_rbsFramePosition = 0, dm_codes = replicate 30 7, dm_signs = replicate 30 7,
     dm_sampleCapacity = 0, dm_frameStart = 0, dm_sampleCount = 0, dm_constellation = replicate 6 (replicate 128 7),
     dm_constellationSize = [], dm_modulusDecoder = modulus_coder_zero, dm_signDecoder = 7,
     dm_signBits = \<lparr>sx_spacing = 0, sx_width = 0, sx_bits = replicate 6 7, sx_state = 5, sx_oddDecoder = 7, sx_decoder = demo_pdiff\<rparr>,
     dm_errorSum = [], dm_errorCount = [], dm_errorHistogramCount = 0, dm_histogramDelay = 0, dm_histogramIntegration = 0,
     dm_decisionCode = 0, dm_decisionFramePosition = 0\<rparr>"

definition demo_debug :: demapper_params where
  "demo_debug = \<lparr>dp_histogram = 1, dp_histogram_delay = 2, dp_histogram_integration = 3, dp_TRN2D_DD_LENGTH = 100\<rparr>"

definition demo_bits :: "u8 list" where
  "demo_bits = [1, 0, 0, 1, 1, 1, 0, 1, 0, 0, 0, 1, 1, 0, 1, 0, 1, 1, 1, 1, 0, 0, 1, 0, 0, 1, 0]"

lemma demo_levels: "sint (level_of False 0x70) = 16764" "sint (level_of False 0x40) = 1980"
  by code_simp+

lemma demo_agreed: "agreed False 3 1 9 demo_params"
proof -
  have r: "row_size demo_params i = 2" "row_level False demo_params i 0 = level_of False 0x70"
    "row_level False demo_params i (Suc 0) = level_of False 0x40" if "i < 6" for i
    using that by (simp_all add: row_size_def row_level_def demo_params_def)
  have f: "\<forall>j < row_size demo_params i. 0 < sint (row_level False demo_params i j)"
    "\<forall>j < row_size demo_params i. \<forall>k < j. sint (row_level False demo_params i j) < sint (row_level False demo_params i k)"
    "2 \<le> row_size demo_params i" "row_size demo_params i \<le> 128" "row_size demo_params i \<le> length (vp_constellation demo_params ! i)"
    if "i < 6" for i
    using that r [OF that] by (auto simp: demo_levels less_Suc_eq numeral_2_eq_2) (simp add: demo_params_def)
  have p: "2 ^ (9 - (6 - 3)) \<le> (\<Prod>k < 6. uint (vp_constellationSize demo_params ! k))"
    by (simp add: demo_params_def)
  show ?thesis
    unfolding agreed_def using f p by (simp add: demo_params_def)
qed

lemma demo_known: "levels_known False demo_params demo_impairments"
  unfolding levels_known_def
proof (intro conjI allI impI)
  fix i j assume i: "i < 6" and "j < row_size demo_params i"
  then have "j = 0 \<or> j = 1" by (simp add: row_size_def demo_params_def) linarith
  then show "let c = unat (vp_constellation demo_params ! i ! j) in
      c < length (ai_linMapp demo_impairments ! i) \<and> ai_linMapp demo_impairments ! i ! c = row_level False demo_params i j"
    using i by (auto simp: demo_impairments_def row_level_def demo_params_def)
qed (simp_all add: no_phases_def demo_impairments_def)

text \<open>The energy grows by at most \<open>2 ^ 30\<close> with each of the 24 samples of a line.\<close>

lemma demo_energy:
  assumes "for_loop i n (ssf_sample demo_arith (0, 0, 0, 0) xs) s = Some s'" and "length xs = 24"
  shows "snd (snd (snd s')) \<le> snd (snd (snd s)) + int n * 2 ^ 30 \<and> (0 < n \<longrightarrow> i + n \<le> 24)"
  using assms(1)
proof (induction n arbitrary: i s)
  case (Suc n)
  obtain a b c e where s: "s = (a, b, c, e)" by (cases s)
  obtain s1 where s1: "ssf_sample demo_arith (0, 0, 0, 0) xs i s = Some s1"
    "for_loop (Suc i) n (ssf_sample demo_arith (0, 0, 0, 0) xs) s1 = Some s'"
    using Suc.prems by (auto split: Option.bind_splits)
  have i: "i < 24" and e: "snd (snd (snd s1)) = e + sint (xs ! i) * sint (xs ! i)"
    using s1(1) assms(2) by (auto simp: s ssf_sample_def rd_at_def demo_arith_def Let_def split: Option.bind_splits if_splits)
  have "\<bar>sint (xs ! i)\<bar> \<le> 2 ^ 15" using sint_bounds_u16 [of "xs ! i"] by simp
  then have "\<bar>sint (xs ! i)\<bar> * \<bar>sint (xs ! i)\<bar> \<le> 2 ^ 15 * 2 ^ 15" by (intro mult_mono) simp_all
  then have "sint (xs ! i) * sint (xs ! i) \<le> 2 ^ 30" by (simp flip: abs_mult)
  then show ?case using Suc.IH [OF s1(2)] i e by (cases n) (auto simp: s algebra_simps)
qed simp

lemma progress_energy:
  assumes "ssf_progress fa f xs = Some f'"
  shows "ss_coeff f' = ss_coeff f \<and> (f' = f \<or> (\<exists>e. snd (snd (snd (ss_state f'))) = fp_single fa e))"
proof (cases "ss_blockLength f = 0")
  case False
  define r where "r = for_loop 0 (unat (ss_blockLength f)) (ssf_sample fa (ss_coeff f) xs) (ss_state f)"
  then show ?thesis using assms False
    unfolding ssf_progress_def r_def [symmetric] by (cases r) auto
qed (use assms in \<open>simp add: ssf_progress_def\<close>)

lemma demo_bounded: "bounded_metrics demo_arith (reset_filter demo_arith 3 (0, 0, 0, 0))"
  unfolding bounded_metrics_def
proof
  fix f assume "f \<in> filter_states demo_arith (reset_filter demo_arith 3 (0, 0, 0, 0))"
  then have f: "ss_coeff f = (0, 0, 0, 0) \<and> snd (snd (snd (ss_state f))) \<le> 10 ^ 30"
  proof (induction rule: filter_states.induct)
    case filter_start
    then show ?case by (simp add: reset_filter_def setFilterCoeff_def ssf_reset_def ssf_new_def demo_arith_def)
  next
    case (filter_line f xs f')
    obtain e where "ss_coeff f' = ss_coeff f" "f' = f \<or> snd (snd (snd (ss_state f'))) = fp_single demo_arith e"
      using progress_energy [OF filter_line.hyps(3)] by blast
    moreover have "fp_single demo_arith e \<le> 10 ^ 30" by (simp add: demo_arith_def)
    ultimately show ?case using filter_line.IH by auto
  qed
  have "m < 10 ^ 38" if x: "length xs = 24" "getMetric demo_arith f xs blocks = Some m" for xs blocks m
  proof -
    define n where "n = unat blocks * unat (ss_blockLength f)"
    obtain s where s: "for_loop 0 n (ssf_sample demo_arith (0, 0, 0, 0) xs) (ss_state f) = Some s" "snd (snd (snd s)) = m"
      using x(2) f unfolding getMetric_def n_def [symmetric]
      by (cases "for_loop 0 n (ssf_sample demo_arith (0, 0, 0, 0) xs) (ss_state f)") auto
    note en = demo_energy [OF s(1) x(1), unfolded s(2)]
    have b: "n \<le> 24" using conjunct2 [OF en] by (cases "n = 0") simp_all
    then have "int n * 2 ^ 30 \<le> 24 * 2 ^ 30" by (intro mult_right_mono) simp_all
    then show ?thesis using conjunct1 [OF en] conjunct2 [OF f] by simp
  qed
  then show "metrics_below demo_arith f" unfolding metrics_below_def by (simp add: demo_arith_def)
qed

lemma v90_link_delivers_witness:
  "\<exists>mp mp' symbols' dm dm1 dm2 out'.
     V90Mapper_reset demo_arith demo_params False (V90Mapper_new demo_arith demo_mapper) = Some mp \<and>
     V90Mapper_process demo_arith mp demo_bits 27 (replicate 20 0) = Some (mp', symbols', 16) \<and>
     V90Demapper_reset demo_debug demo_impairments demo_params (V90Demapper_new 30 demo_demapper) = Some dm \<and>
     hard_decisions demo_debug demo_impairments dm (take 16 symbols') = Some dm1 \<and>
     V90Demapper_process dm1 (replicate 40 9) = Some (dm2, out', 18, 1) \<and> take 18 out' = take 18 demo_bits"
proof -
  have "bounded_metrics demo_arith (reset_filter demo_arith 3 (vp_shaperCoeff demo_params))"
    using demo_bounded by (simp add: demo_params_def)
  moreover have "fresh_mapper demo_mapper" by (simp add: fresh_mapper_def demo_mapper_def demo_shaper_def)
  moreover have "fresh_demapper 30 demo_demapper" by (simp add: fresh_demapper_def demo_demapper_def)
  moreover have "\<forall>b \<in> set demo_bits. is_bit b" "length demo_bits = 27" by (simp_all add: demo_bits_def is_bit_def)
  ultimately show ?thesis
    using v90_link_delivers [OF demo_agreed demo_known, of demo_arith demo_mapper 30 demo_demapper demo_bits 16 "replicate 20 0"
      "replicate 40 9" demo_debug] by simp
qed

text \<open>Between the levels 16764 and 1980 the sample \<open>-9000\<close> is nearer to the second, and so, for the code,
  is \<open>-32768\<close>.\<close>

lemma hard_decision_nearest_witness:
  "\<exists>dm d1 d2. V90Demapper_reset demo_debug demo_impairments demo_params (V90Demapper_new 30 demo_demapper) = Some dm \<and>
     hardDecision demo_debug demo_impairments dm (of_int (- 9000)) = Some (d1, of_int (- 1980)) \<and>
     dm_signs d1 ! 0 = 0 \<and> dm_codes d1 ! 0 = 1 \<and> dm_sampleCount d1 = 1 \<and>
     hardDecision demo_debug demo_impairments dm (of_int (- 32768)) = Some (d2, of_int (- 1980))"
proof -
  have "fresh_demapper 30 demo_demapper" by (simp add: fresh_demapper_def demo_demapper_def)
  then obtain dm where dm: "V90Demapper_reset demo_debug demo_impairments demo_params (V90Demapper_new 30 demo_demapper) = Some dm"
    "demapper_ok 3 9 (conn_coder 3 9 demo_params) (conn_rows False demo_params) 30 dm" "holds_samples [] [] dm"
    using demapper_reset_run [OF demo_agreed demo_known, of 30 demo_demapper demo_debug] by auto
  have h: "dm_sampleCount dm = 0" "dm_rbsFramePosition dm = 0" "dm_sampleCapacity dm = 30"
    "length (dm_signs dm) = 30" "length (dm_codes dm) = 30"
    using dm(2,3) by (simp_all add: holds_samples_def demapper_ok_def)
  have ai: "no_phases demo_impairments" using demo_known by (simp add: levels_known_def)
  then have flag: "ai_altRbsFlag demo_impairments ! 0 = 0" by (simp add: no_phases_def)
  have n: "levels_at demo_impairments 0 dm = 2" and r: "row_size demo_params 0 = 2"
    using dm(2) flag by (simp_all add: levels_at_def demapper_ok_def mc_size_conn row_size_def demo_params_def)
  have lev: "sint (dm_constellation dm ! 0 ! j) = sint (row_level False demo_params 0 j)" if "j < 2" for j
    using dm(2) that r by (simp add: demapper_ok_def mc_size_conn row_size_def [symmetric] conn_rows_nth)
  have l: "sint (dm_constellation dm ! 0 ! 0) = 16764" "sint (dm_constellation dm ! 0 ! 1) = 1980"
    using lev [of 0] lev [of 1] by (simp_all add: row_level_def demo_params_def demo_levels)
  have c: "c = 1" if "decided (dm_constellation dm ! 0) 2 x c" "sint x = - 9000 \<or> sint x = - 32768" for x c
    using that l by (cases "c = 0") (auto simp: decided_def less_Suc_eq numeral_2_eq_2)
  have rd: "decision_ready demo_impairments 0 dm" by (rule ready_of_ok [OF dm(2) ai]) (simp_all add: h)
  have one: "\<exists>d. hardDecision demo_debug demo_impairments dm x = Some (d, of_int (- 1980)) \<and> dm_codes d = (dm_codes dm)[0 := 1] \<and>
     dm_signs d = (dm_signs dm)[0 := 0] \<and> dm_sampleCount d = 1" if x: "sint x = - 9000 \<or> sint x = - 32768" for x
  proof -
    have full: "\<not> dm_sampleCapacity dm \<le> dm_sampleCount dm" by (simp add: h)
    obtain d y k where d: "hardDecision demo_debug demo_impairments dm x = Some (d, y)" "decided (dm_constellation dm ! 0) 2 x k"
      "y = of_int ((if sint x < 0 then - 1 else 1) * sint (dm_constellation dm ! 0 ! k))"
      "dm_codes d = (dm_codes dm)[unat (dm_sampleCount dm) := of_nat (if ai_altRbsFlag demo_impairments ! 0 \<noteq> 0 then k div 2 else k)]"
      "dm_signs d = (dm_signs dm)[unat (dm_sampleCount dm) := sign_of x]" "dm_sampleCount d = dm_sampleCount dm + 1"
      using hard_decision_nearest [OF rd, of demo_debug x] full unfolding n if_not_P [OF full] by blast
    have k: "k = 1" by (rule c [OF d(2) x])
    have neg: "sint x < 0" using x by auto
    then have "y = of_int (- 1980)" unfolding d(3) k l(2) by simp
    then show ?thesis using d(1,4-6) neg unfolding k by (simp add: h flag sign_of_def)
  qed
  have "sint (of_int (- 9000) :: u16) = - 9000" "sint (of_int (- 32768) :: u16) = - 32768" by (simp_all only: sint_short)
  then obtain d1 d2 where "hardDecision demo_debug demo_impairments dm (of_int (- 9000)) = Some (d1, of_int (- 1980))"
    "dm_codes d1 = (dm_codes dm)[0 := 1]" "dm_signs d1 = (dm_signs dm)[0 := 0]" "dm_sampleCount d1 = 1"
    "hardDecision demo_debug demo_impairments dm (of_int (- 32768)) = Some (d2, of_int (- 1980))"
    using one by metis
  then show ?thesis using dm(1) h(4,5) by (intro exI [of _ dm] exI [of _ d1] exI [of _ d2]) simp
qed

end
