(* ===== verification/Pulse.thy ===== *)
theory Pulse
  imports Prelude
begin

text \<open>
  The pulse dialler of \<^verbatim>\<open>src/call/call.c\<close>: a digit is a number of interruptions of the line, and
  each poll moves their timing on by five milliseconds. The modem is the record \<open>line\<close>: its
  parameters, read through \<^verbatim>\<open>modem_get_param\<close> by their numbers, the call object, if there is
  one, and what was written through \<^verbatim>\<open>modem_set_param\<close>, in order.
\<close>

definition PULSE_TICK_MS :: int where "PULSE_TICK_MS = 5"

definition MDMPRM_HOOK_ON :: nat where "MDMPRM_HOOK_ON = 15"

definition MDMPRM_PULSE_DIAL :: nat where "MDMPRM_PULSE_DIAL = 16"

record call =
  cl_pulse_make :: int
  cl_pulse_break :: int
  cl_pulse_remaining :: int
  cl_pulse_elapsed :: int
  cl_pulse_off_hook :: int

record line =
  ln_param :: "nat \<Rightarrow> int"
  ln_call :: "call option"
  ln_set :: "(nat \<times> int) list"

definition modem_set_param :: "nat \<Rightarrow> int \<Rightarrow> line \<Rightarrow> line" where
  "modem_set_param p v ln = ln\<lparr>ln_set := ln_set ln @ [(p, v)]\<rparr>"

definition put_call :: "call \<Rightarrow> line \<Rightarrow> line" where
  "put_call c ln = ln\<lparr>ln_call := Some c\<rparr>"

definition PulseDialDigit :: "int \<Rightarrow> line \<Rightarrow> line" where
  "PulseDialDigit digit ln = (case ln_call ln of
     None \<Rightarrow> ln
   | Some c \<Rightarrow>
       (let remaining = (if digit = 0 then 10 else digit)
        in modem_set_param MDMPRM_PULSE_DIAL remaining
          (put_call (c\<lparr>cl_pulse_remaining := remaining, cl_pulse_elapsed := 0\<rparr>) ln)))"

text \<open>One poll: whether the digit is out, and the line after it.\<close>

definition poll_timing :: "call \<Rightarrow> call" where
  "poll_timing c =
     (if cl_pulse_elapsed c < cl_pulse_break c + cl_pulse_make c
      then c\<lparr>cl_pulse_elapsed := cl_pulse_elapsed c + PULSE_TICK_MS\<rparr>
      else c\<lparr>cl_pulse_remaining := cl_pulse_remaining c - 1, cl_pulse_elapsed := PULSE_TICK_MS\<rparr>)"

definition IsPulseDialerReady :: "line \<Rightarrow> bool \<times> line" where
  "IsPulseDialerReady ln = (case ln_call ln of
     None \<Rightarrow> (True, ln)
   | Some c \<Rightarrow>
       (if cl_pulse_remaining c = 0 then (True, ln)
        else if cl_pulse_elapsed c < cl_pulse_break c \<and> cl_pulse_off_hook c = 0
        then (False, modem_set_param MDMPRM_HOOK_ON 1
          (put_call (c\<lparr>cl_pulse_off_hook := 1, cl_pulse_elapsed := cl_pulse_elapsed c + PULSE_TICK_MS\<rparr>) ln))
        else if \<not> cl_pulse_elapsed c < cl_pulse_break c \<and> cl_pulse_off_hook c \<noteq> 0
        then (False, modem_set_param MDMPRM_HOOK_ON 0
          (put_call (c\<lparr>cl_pulse_off_hook := 0, cl_pulse_elapsed := cl_pulse_elapsed c + PULSE_TICK_MS\<rparr>) ln))
        else (cl_pulse_remaining (poll_timing c) = 0, put_call (poll_timing c) ln)))"

definition LastPulseDigitDialed :: "line \<Rightarrow> line" where
  "LastPulseDigitDialed ln = modem_set_param MDMPRM_PULSE_DIAL 0 ln"

definition SetPulseBreakTime :: "int \<Rightarrow> line \<Rightarrow> line" where
  "SetPulseBreakTime ms ln =
     (case ln_call ln of None \<Rightarrow> ln | Some c \<Rightarrow> put_call (c\<lparr>cl_pulse_break := ms\<rparr>) ln)"

definition SetPulseMakeTime :: "int \<Rightarrow> line \<Rightarrow> line" where
  "SetPulseMakeTime ms ln =
     (case ln_call ln of None \<Rightarrow> ln | Some c \<Rightarrow> put_call (c\<lparr>cl_pulse_make := ms\<rparr>) ln)"

subsection \<open>A digit\<close>

text \<open>Polls in a row: what they answered, and the line after them.\<close>

fun polls :: "nat \<Rightarrow> line \<Rightarrow> bool list \<times> line" where
  "polls 0 ln = ([], ln)"
| "polls (Suc n) ln =
     (let (r, ln) = IsPulseDialerReady ln; (rs, ln) = polls n ln in (r # rs, ln))"

lemma polls_add:
  "polls (m + n) ln = (let (rs, ln) = polls m ln; (rs', ln) = polls n ln in (rs @ rs', ln))"
  by (induction m arbitrary: ln) (auto simp: split_beta Let_def)

text \<open>A call in the middle of a digit, its times in ticks.\<close>

definition pulsing :: "nat \<Rightarrow> nat \<Rightarrow> line \<Rightarrow> int \<Rightarrow> nat \<Rightarrow> bool \<Rightarrow> (nat \<times> int) list \<Rightarrow> line" where
  "pulsing b m ln r e h ss = ln\<lparr>ln_call := Some \<lparr>cl_pulse_make = 5 * int m, cl_pulse_break = 5 * int b,
     cl_pulse_remaining = r, cl_pulse_elapsed = 5 * int e, cl_pulse_off_hook = of_bool h\<rparr>, ln_set := ss\<rparr>"

lemma poll_steps:
  assumes "r \<noteq> 0"
  shows "e < b \<Longrightarrow> IsPulseDialerReady (pulsing b m ln r e False ss) = (False, pulsing b m ln r (Suc e) True (ss @ [(MDMPRM_HOOK_ON, 1)]))"
    and "e < b \<Longrightarrow> IsPulseDialerReady (pulsing b m ln r e True ss) = (False, pulsing b m ln r (Suc e) True ss)"
    and "b \<le> e \<Longrightarrow> IsPulseDialerReady (pulsing b m ln r e True ss) = (False, pulsing b m ln r (Suc e) False (ss @ [(MDMPRM_HOOK_ON, 0)]))"
    and "b \<le> e \<Longrightarrow> e < b + m \<Longrightarrow> IsPulseDialerReady (pulsing b m ln r e False ss) = (False, pulsing b m ln r (Suc e) False ss)"
    and "b + m \<le> e \<Longrightarrow> IsPulseDialerReady (pulsing b m ln r e False ss) = (r = 1, pulsing b m ln (r - 1) 1 False ss)"
  using assms by (simp_all add: IsPulseDialerReady_def pulsing_def poll_timing_def put_call_def modem_set_param_def PULSE_TICK_MS_def)

lemma polls_break:
  "r \<noteq> 0 \<Longrightarrow> e + j \<le> b \<Longrightarrow> polls j (pulsing b m ln r e True ss) = (replicate j False, pulsing b m ln r (e + j) True ss)"
  by (induction j arbitrary: e) (simp_all add: poll_steps)

lemma polls_make:
  "r \<noteq> 0 \<Longrightarrow> b \<le> e \<Longrightarrow> e + j \<le> b + m \<Longrightarrow> polls j (pulsing b m ln r e False ss) = (replicate j False, pulsing b m ln r (e + j) False ss)"
  by (induction j arbitrary: e) (simp_all add: poll_steps)

text \<open>A pulse: the line is interrupted for \<open>b - e\<close> ticks.\<close>

definition one_pulse :: "(nat \<times> int) list" where
  "one_pulse = [(MDMPRM_HOOK_ON, 1), (MDMPRM_HOOK_ON, 0)]"

lemma polls_pulse:
  assumes r: "r \<noteq> 0" and e: "e < b" and m: "1 \<le> m"
  shows "polls (b + m - e + 1) (pulsing b m ln r e False ss) =
    (replicate (b + m - e) False @ [r = 1], pulsing b m ln (r - 1) 1 False (ss @ one_pulse))"
proof -
  let ?s1 = "pulsing b m ln r (Suc e) True (ss @ [(MDMPRM_HOOK_ON, 1)])"
  let ?s2 = "pulsing b m ln r (Suc b) False (ss @ one_pulse)"
  have 1: "polls (b - Suc e) ?s1 = (replicate (b - Suc e) False, pulsing b m ln r b True (ss @ [(MDMPRM_HOOK_ON, 1)]))"
    using polls_break [OF r, of "Suc e" "b - Suc e" b] e by simp
  have 2: "polls (m - 1) ?s2 = (replicate (m - 1) False, pulsing b m ln r (b + m) False (ss @ one_pulse))"
    using polls_make [OF r, of b "Suc b" "m - 1" m] m by simp
  have 3: "polls (Suc (m - 1 + 1)) (pulsing b m ln r b True (ss @ [(MDMPRM_HOOK_ON, 1)])) =
      (False # replicate (m - 1) False @ [r = 1], pulsing b m ln (r - 1) 1 False (ss @ one_pulse))"
    using 2 by (subst polls.simps) (simp only: poll_steps(3) [OF r order_refl] polls_add, simp add: one_pulse_def poll_steps(5) [OF r])
  have n: "b + m - e + 1 = Suc ((b - Suc e) + Suc (m - 1 + 1))" using e m by simp
  have "replicate (b + m - e) False = False # replicate (b - Suc e) False @ False # replicate (m - 1) False"
    using e m by (simp add: replicate_add [symmetric] flip: replicate_Suc)
  then show ?thesis
    unfolding n by (subst polls.simps) (simp only: poll_steps(1) [OF r e] polls_add 1 3 Let_def split_conv, simp)
qed

lemma polls_train:
  assumes "2 \<le> b" and "1 \<le> m"
  shows "polls (Suc n * (b + m)) (pulsing b m ln (int (Suc n)) 1 False ss) =
    (replicate (Suc n * (b + m) - 1) False @ [True], pulsing b m ln 0 1 False (ss @ concat (replicate (Suc n) one_pulse)))"
proof (induction n arbitrary: ss)
  case 0
  show ?case using polls_pulse [of 1 1 b m ln ss] assms by simp
next
  case (Suc n)
  have p: "polls (b + m) (pulsing b m ln (int (Suc (Suc n))) 1 False ss) =
      (replicate (b + m - 1) False @ [False], pulsing b m ln (int (Suc n)) 1 False (ss @ one_pulse))"
    using polls_pulse [of "int (Suc (Suc n))" 1 b m ln ss] assms by simp
  have r: "replicate (b + m - 1) False @ [False] @ replicate (Suc n * (b + m) - 1) False = replicate (Suc (Suc n) * (b + m) - 1) False"
    using assms by (simp add: replicate_add [symmetric] flip: replicate_Suc)
  have "polls (Suc (Suc n) * (b + m)) (pulsing b m ln (int (Suc (Suc n))) 1 False ss) =
      polls (b + m + Suc n * (b + m)) (pulsing b m ln (int (Suc (Suc n))) 1 False ss)" by simp
  also have "\<dots> = (replicate (b + m - 1) False @ [False] @ replicate (Suc n * (b + m) - 1) False @ [True],
      pulsing b m ln 0 1 False (ss @ concat (replicate (Suc (Suc n)) one_pulse)))"
    unfolding polls_add [of "b + m" "Suc n * (b + m)"] p Let_def split_conv Suc.IH by simp
  finally show ?case unfolding r [symmetric] by simp
qed

definition pulses_of :: "int \<Rightarrow> nat" where
  "pulses_of digit = (if digit = 0 then 10 else nat digit)"

lemma dialled:
  assumes "ln_call ln = Some c" "cl_pulse_make c = 5 * int m" "cl_pulse_break c = 5 * int b" "cl_pulse_off_hook c = 0" "0 \<le> digit"
  shows "PulseDialDigit digit ln = pulsing b m ln (int (pulses_of digit)) 0 False (ln_set ln @ [(MDMPRM_PULSE_DIAL, int (pulses_of digit))])"
  using assms by (cases c) (simp add: PulseDialDigit_def pulsing_def Let_def put_call_def modem_set_param_def pulses_of_def)

text \<open>C25: a digit is as many interruptions of the line, ten for zero: the dialler answers that it is out after
  the time of its pulses and one tick and not before, and the hook has gone on and off once for each.\<close>

theorem pulse_train:
  assumes c: "ln_call ln = Some c" "cl_pulse_make c = 5 * int m" "cl_pulse_break c = 5 * int b" "cl_pulse_off_hook c = 0" "0 \<le> digit"
    and t: "2 \<le> b" "1 \<le> m" and n: "n = pulses_of digit"
  shows "fst (polls (n * (b + m) + 1) (PulseDialDigit digit ln)) = replicate (n * (b + m)) False @ [True] \<and>
     ln_set (snd (polls (n * (b + m) + 1) (PulseDialDigit digit ln))) =
       ln_set ln @ [(MDMPRM_PULSE_DIAL, int n)] @ concat (replicate n one_pulse) \<and>
     fst (IsPulseDialerReady (snd (polls (n * (b + m) + 1) (PulseDialDigit digit ln))))"
proof -
  let ?ss = "ln_set ln @ [(MDMPRM_PULSE_DIAL, int n)]"
  have "n \<noteq> 0" using c(5) n by (simp add: pulses_of_def)
  then obtain k where k: "n = Suc k" by (metis not0_implies_Suc)
  have p: "polls (b + m + 1) (pulsing b m ln (int n) 0 False ?ss) =
      (replicate (b + m) False @ [k = 0], pulsing b m ln (int k) 1 False (?ss @ one_pulse))"
    using polls_pulse [of "int n" 0 b m ln ?ss] t k by simp
  have "polls (n * (b + m) + 1) (PulseDialDigit digit ln) =
      (replicate (n * (b + m)) False @ [True], pulsing b m ln 0 1 False (?ss @ concat (replicate n one_pulse)))"
  proof (cases k)
    case 0
    then show ?thesis using p k unfolding dialled [OF c] n [symmetric] by simp
  next
    case (Suc j)
    have e: "n * (b + m) + 1 = (b + m + 1) + Suc j * (b + m)" unfolding k Suc by simp
    have r: "replicate (b + m) False @ [False] @ replicate (Suc j * (b + m) - 1) False = replicate (n * (b + m)) False"
      unfolding k Suc using t by (simp add: replicate_add [symmetric] flip: replicate_Suc)
    have tr: "polls (Suc j * (b + m)) (pulsing b m ln (int k) 1 False (?ss @ one_pulse)) =
        (replicate (Suc j * (b + m) - 1) False @ [True], pulsing b m ln 0 1 False ((?ss @ one_pulse) @ concat (replicate (Suc j) one_pulse)))"
      unfolding Suc by (rule polls_train [OF t])
    show ?thesis
      unfolding dialled [OF c] n [symmetric] e polls_add [of "b + m + 1"] p Let_def split_conv tr
      unfolding r [symmetric] by (simp add: k Suc)
  qed
  then show ?thesis by (simp add: pulsing_def IsPulseDialerReady_def)
qed

definition sample_line :: line where
  "sample_line = \<lparr>ln_param = (\<lambda>_. 0), ln_call = Some \<lparr>cl_pulse_make = 40, cl_pulse_break = 60, cl_pulse_remaining = 0,
     cl_pulse_elapsed = 0, cl_pulse_off_hook = 0\<rparr>, ln_set = []\<rparr>"

lemma pulse_train_witness:
  "fst (polls 61 (PulseDialDigit 3 sample_line)) = replicate 60 False @ [True] \<and>
   ln_set (snd (polls 61 (PulseDialDigit 3 sample_line))) = (MDMPRM_PULSE_DIAL, 3) # concat (replicate 3 one_pulse)"
  using pulse_train [of sample_line _ 8 12 3 3] by (simp add: sample_line_def pulses_of_def)

text \<open>What a pulse that starts \<open>e\<close> ticks into its time has written after \<open>j\<close> polls.\<close>

lemma pulse_hook:
  assumes r: "r \<noteq> 0" and e: "e < b" and m: "1 \<le> m" and j: "1 \<le> j" "j \<le> b + m - e + 1"
  shows "ln_set (snd (polls j (pulsing b m ln r e False ss))) = ss @ (if j \<le> b - e then [(MDMPRM_HOOK_ON, 1)] else one_pulse)"
proof -
  have st: "ln_set (pulsing b m ln r e h ss) = ss" for r e h ss by (simp add: pulsing_def)
  have on: "snd (polls (1 + k) (pulsing b m ln r e False ss)) = pulsing b m ln r (Suc e + k) True (ss @ [(MDMPRM_HOOK_ON, 1)])"
    if "Suc e + k \<le> b" for k
    using polls_break [OF r that] poll_steps(1) [OF r e] by (simp add: split_beta)
  consider "j \<le> b - e" | "b - e < j" "j \<le> b + m - e" | "j = b + m - e + 1" using j(2) by linarith
  then show ?thesis
  proof cases
    case 1
    then show ?thesis using on [of "j - 1"] j(1) e by (simp add: st)
  next
    case 2
    define k where "k = j - (b - e) - 1"
    have j': "j = (1 + (b - Suc e)) + (1 + k)" and k: "Suc b + k \<le> b + m" using 2 e by (simp_all add: k_def)
    have "snd (polls j (pulsing b m ln r e False ss)) = snd (polls (1 + k) (pulsing b m ln r b True (ss @ [(MDMPRM_HOOK_ON, 1)])))"
      unfolding j' polls_add [of "1 + (b - Suc e)" "1 + k"] using on [of "b - Suc e"] e by (simp add: split_beta)
    also have "\<dots> = pulsing b m ln r (Suc b + k) False (ss @ one_pulse)"
      using polls_make [OF r le_SucI [OF order_refl] k] poll_steps(3) [OF r order_refl] by (simp add: split_beta one_pulse_def)
    finally show ?thesis using 2 by (simp add: st)
  next
    case 3
    then have "\<not> j \<le> b - e" using e m by linarith
    then show ?thesis unfolding 3 polls_pulse [OF r e m] by (simp add: st)
  qed
qed

text \<open>After \<open>i\<close> pulses, the first a poll longer than the others, one tick of the next has gone by.\<close>

lemma pulse_start:
  assumes "2 \<le> b" "1 \<le> m" "i < n"
  shows "snd (polls (Suc i * (b + m) + 1) (pulsing b m ln (int n) 0 False ss)) =
     pulsing b m ln (int n - int (Suc i)) 1 False (ss @ concat (replicate (Suc i) one_pulse))"
  using assms(3)
proof (induction i)
  case 0
  then show ?case using polls_pulse [of "int n" 0 b m ln ss] assms(1,2) by simp
next
  case (Suc i)
  have r: "int n - int (Suc i) \<noteq> 0" and e: "Suc (Suc i) * (b + m) + 1 = (Suc i * (b + m) + 1) + (b + m - 1 + 1)"
    using Suc.prems assms(1) by simp_all
  have "concat (replicate k one_pulse) @ one_pulse = one_pulse @ concat (replicate k one_pulse)" for k
    by (induction k) simp_all
  then show ?case
    unfolding e polls_add [of "Suc i * (b + m) + 1"]
    using Suc polls_pulse [OF r, of 1 b m ln] assms(1,2) by (simp add: split_beta algebra_simps)
qed

text \<open>C26: every interruption of a digit after the first is a tick short. The first lasts the \<open>b\<close> ticks of the
  break time, from the first poll to the poll \<open>b + 1\<close>; the one after \<open>i\<close> pulses, for every \<open>i\<close> from 1 to the
  last of the digit, lasts \<open>b - 1\<close>, from the first to the \<open>b\<close>-th poll after its start: the poll that ends a
  pulse counts as the first tick of the next, but only the poll after it interrupts the line.\<close>

theorem later_break_short:
  assumes c: "ln_call ln = Some c" "cl_pulse_make c = 5 * int m" "cl_pulse_break c = 5 * int b" "cl_pulse_off_hook c = 0" "0 \<le> digit"
    and t: "2 \<le> b" "1 \<le> m"
  defines "hook \<equiv> \<lambda>i. ln_set (snd (polls i (PulseDialDigit digit ln)))"
  shows "(\<forall>j \<in> {1..b + m + 1}. hook j = hook 0 @ (if j < b + 1 then [(MDMPRM_HOOK_ON, 1)] else one_pulse)) \<and>
     (\<forall>i \<in> {1..<pulses_of digit}. \<forall>j \<in> {1..b + m}. hook (i * (b + m) + 1 + j) =
        hook 0 @ concat (replicate i one_pulse) @ (if j < b then [(MDMPRM_HOOK_ON, 1)] else one_pulse))"
proof -
  let ?n = "pulses_of digit"
  let ?ss = "ln_set ln @ [(MDMPRM_PULSE_DIAL, int ?n)]"
  have hk: "hook i = ln_set (snd (polls i (pulsing b m ln (int ?n) 0 False ?ss)))" for i unfolding hook_def dialled [OF c] ..
  have h0: "hook 0 = ?ss" unfolding hk by (simp add: pulsing_def)
  have n: "int ?n \<noteq> 0" using c(5) by (simp add: pulses_of_def)
  have "hook j = hook 0 @ (if j < b + 1 then [(MDMPRM_HOOK_ON, 1)] else one_pulse)" if "j \<in> {1..b + m + 1}" for j
    unfolding hk [of j] h0 using pulse_hook [OF n, of 0 b m j ln ?ss] that t by (simp add: less_Suc_eq_le)
  moreover have "hook (i * (b + m) + 1 + j) = hook 0 @ concat (replicate i one_pulse) @ (if j < b then [(MDMPRM_HOOK_ON, 1)] else one_pulse)"
    if i: "i \<in> {1..<?n}" and j: "j \<in> {1..b + m}" for i j
  proof -
    obtain k where k: "i = Suc k" using i by (cases i) auto
    have r: "int ?n - int i \<noteq> 0" using i by simp
    have "hook (i * (b + m) + 1 + j) = ln_set (snd (polls j (pulsing b m ln (int ?n - int i) 1 False (?ss @ concat (replicate i one_pulse)))))"
      unfolding hk polls_add [of "i * (b + m) + 1" j] using pulse_start [OF t, of k ?n ln ?ss] i by (simp only: k) (simp add: split_beta)
    then show ?thesis
      unfolding h0 using pulse_hook [OF r, of 1 b m j ln "?ss @ concat (replicate i one_pulse)"] t j by auto
  qed
  ultimately show ?thesis by blast
qed

lemma later_break_short_witness:
  "ln_set (snd (polls 12 (PulseDialDigit 3 sample_line))) = [(MDMPRM_PULSE_DIAL, 3), (MDMPRM_HOOK_ON, 1)] \<and>
   ln_set (snd (polls 13 (PulseDialDigit 3 sample_line))) = (MDMPRM_PULSE_DIAL, 3) # one_pulse \<and>
   ln_set (snd (polls 42 (PulseDialDigit 3 sample_line))) = (MDMPRM_PULSE_DIAL, 3) # one_pulse @ one_pulse @ [(MDMPRM_HOOK_ON, 1)] \<and>
   ln_set (snd (polls 52 (PulseDialDigit 3 sample_line))) = (MDMPRM_PULSE_DIAL, 3) # one_pulse @ one_pulse @ [(MDMPRM_HOOK_ON, 1)] \<and>
   ln_set (snd (polls 53 (PulseDialDigit 3 sample_line))) = (MDMPRM_PULSE_DIAL, 3) # one_pulse @ one_pulse @ one_pulse"
proof -
  let ?h = "\<lambda>i. ln_set (snd (polls i (PulseDialDigit 3 sample_line)))"
  have h: "(\<forall>j \<in> {1..12 + 8 + 1}. ?h j = ?h 0 @ (if j < 12 + 1 then [(MDMPRM_HOOK_ON, 1)] else one_pulse)) \<and>
     (\<forall>i \<in> {1..<pulses_of 3}. \<forall>j \<in> {1..12 + 8}. ?h (i * (12 + 8) + 1 + j) =
        ?h 0 @ concat (replicate i one_pulse) @ (if j < 12 then [(MDMPRM_HOOK_ON, 1)] else one_pulse))"
    by (rule later_break_short) (auto simp: sample_line_def)
  have i: "(2 :: nat) \<in> {1..<pulses_of 3}" by (simp add: pulses_of_def)
  have z: "?h 0 = [(MDMPRM_PULSE_DIAL, 3)]"
    by (simp add: sample_line_def PulseDialDigit_def put_call_def modem_set_param_def Let_def)
  note b = bspec [OF conjunct1 [OF h]] and l = bspec [OF bspec [OF conjunct2 [OF h] i]]
  show ?thesis using b [of 12] b [of 13] l [of 1] l [of 11] l [of 12] unfolding z by (simp add: numeral_2_eq_2)
qed

end
