(* ===== verification/Dialer.thy ===== *)
theory Dialer
  imports Pulse CLoops
begin

unbundle bit_operations_syntax

text \<open>
  The dialler, \<^verbatim>\<open>src/dialer\<close>: the country's dialling rules (\<^verbatim>\<open>DialerConfig.c\<close>), the
  grading of a dial string, and the generator that walks the string and fills the caller's buffer with
  tones and silence, reports what the caller has to wait for, and drives the pulse dialler
  (\<^verbatim>\<open>Dialer.c\<close>). A C string is the list of its characters before the terminator, the array
  \<open>string\<close> of a dialler the list of its hundred cells. The sine table \<^verbatim>\<open>TONE_read\<close> is an
  argument.
\<close>

definition DIALER_MAX_STRING :: nat where "DIALER_MAX_STRING = 100"

definition NUL :: char where "NUL = CHR 0x00"

subsection \<open>Configuration\<close>

record dialer_cfg =
  dc_dtmf_duration :: int
  dc_dtmf_gap :: int
  dc_dtmf_low :: u16
  dc_dtmf_high :: u16
  dc_pulse_break :: int
  dc_pulse_make :: int
  dc_pulse_gap :: int
  dc_pause :: int
  dc_hook_flash :: int
  dc_tone_or_pulse :: int
  dc_modifier_validation :: int
  dc_abcd_permitted :: int
  dc_mixed_permitted :: int
  dc_calling_tone :: int
  dc_coma_pause_limit :: int
  dc_pulse_pattern :: int

text \<open>The parameters a dialler reads.\<close>

definition GetPulseDialMakeTime :: nat where "GetPulseDialMakeTime = 17"

definition GetPulseDialBreakTime :: nat where "GetPulseDialBreakTime = 18"

definition GetPulseDialDigitPattern :: nat where "GetPulseDialDigitPattern = 19"

definition GetDTMFHighToneLevel :: nat where "GetDTMFHighToneLevel = 20"

definition GetDTMFDialSpeed :: nat where "GetDTMFDialSpeed = 21"

definition GetCallingToneFlag :: nat where "GetCallingToneFlag = 27"

definition GetHookFlashTime :: nat where "GetHookFlashTime = 28"

definition GetDialPauseTime :: nat where "GetDialPauseTime = 31"

definition GetDialModifierValidation :: nat where "GetDialModifierValidation = 33"

definition GetDTMFHighAndLowToneLevelDifference :: nat where "GetDTMFHighAndLowToneLevelDifference = 36"

definition GetPulseDialingFlag :: nat where "GetPulseDialingFlag = 37"

definition GetABCDDialingPermittedFlag :: nat where "GetABCDDialingPermittedFlag = 40"

definition GetComaPauseDurationLimit :: nat where "GetComaPauseDurationLimit = 41"

definition GetPulseAndToneDialInSameDialStringPermittedFlag :: nat where "GetPulseAndToneDialInSameDialStringPermittedFlag = 42"

definition GetPulseBetweenDigitsInterval :: nat where "GetPulseBetweenDigitsInterval = 44"

definition High_Tone_Gain :: "int list" where
  "High_Tone_Gain = [16384, 14602, 13014, 11599, 10338, 9213, 8211]"

definition Lower_Tone_Diff :: "int list" where
  "Lower_Tone_Diff = [29205, 26029, 23198, 20675, 18427]"

definition GetDialerConfig :: "line \<Rightarrow> dialer_cfg" where
  "GetDialerConfig ln =
     (let p = ln_param ln;
          level = p GetDTMFHighToneLevel;
          twist = p GetDTMFHighAndLowToneLevelDifference;
          high = (if 6 \<le> level \<and> level \<le> 12 then of_int (High_Tone_Gain ! nat (level - 6)) else 13014);
          diff = (if 1 \<le> twist \<and> twist \<le> 5 then Lower_Tone_Diff ! nat (twist - 1) else 26029)
      in \<lparr>dc_dtmf_duration = p GetDTMFDialSpeed, dc_dtmf_gap = p GetDTMFDialSpeed,
          dc_dtmf_low = of_int (drop_bit 15 (sint high * diff)), dc_dtmf_high = high,
          dc_pulse_break = p GetPulseDialBreakTime, dc_pulse_make = p GetPulseDialMakeTime,
          dc_pulse_gap = p GetPulseBetweenDigitsInterval * 10, dc_pause = p GetDialPauseTime,
          dc_hook_flash = p GetHookFlashTime, dc_tone_or_pulse = of_bool (p GetPulseDialingFlag \<noteq> 0),
          dc_modifier_validation = p GetDialModifierValidation, dc_abcd_permitted = p GetABCDDialingPermittedFlag,
          dc_mixed_permitted = p GetPulseAndToneDialInSameDialStringPermittedFlag, dc_calling_tone = p GetCallingToneFlag,
          dc_coma_pause_limit = p GetComaPauseDurationLimit, dc_pulse_pattern = p GetPulseDialDigitPattern\<rparr>)"

subsection \<open>A dialler\<close>

record dialer =
  dl_string :: string
  dl_cfg :: dialer_cfg
  dl_last_digit :: int
  dl_grade :: int
  dl_repeat :: int
  dl_pos :: int
  dl_row :: int
  dl_col :: int
  dl_progress_state :: int
  dl_silence :: int
  dl_phase_low :: u16
  dl_phase_high :: u16
  dl_inc_low :: u16
  dl_inc_high :: u16
  dl_pulse_started :: int
  dl_pulse_active :: int
  dl_pulse_released :: int
  dl_modem :: line

abbreviation tone_dialing :: "dialer \<Rightarrow> bool" where
  "tone_dialing d \<equiv> dc_tone_or_pulse (dl_cfg d) = 1"

subsection \<open>Grading a string\<close>

definition DIALER_FATAL :: int where "DIALER_FATAL = 0"
definition DIALER_INVALID :: int where "DIALER_INVALID = 1"
definition DIALER_TOLERABLE :: int where "DIALER_TOLERABLE = 2"
definition DIALER_VALID :: int where "DIALER_VALID = 3"

definition lower :: "int \<Rightarrow> int \<Rightarrow> int" where
  "lower grade limit = (if grade > limit then limit else grade)"

text \<open>The range test on a \<open>signed char\<close>.\<close>

definition in_table :: "char \<Rightarrow> bool" where
  "in_table c \<longleftrightarrow> 32 \<le> (of_char c :: nat) \<and> (of_char c :: nat) \<le> 119"

text \<open>Whether a character is illegal, and whether it is one that is dialled; \<open>rest\<close> follows it.\<close>

definition illegal_symbol :: "dialer_cfg \<Rightarrow> bool \<Rightarrow> char \<Rightarrow> string \<Rightarrow> bool" where
  "illegal_symbol cfg tone c rest =
     (if \<not> in_table c then True
      else if c \<in> set ''0123456789*#!'' then False
      else if c \<in> set '' $(),-@Ww'' then False
      else if c \<in> set ''ABCDabcd'' then dc_abcd_permitted cfg \<noteq> 0
      else if c \<in> set ''Tt'' then \<not> tone \<and> dc_mixed_permitted cfg \<noteq> 0
      else if c \<in> set ''Pp'' then tone \<and> dc_mixed_permitted cfg \<noteq> 0
      else if c = CHR ''^'' then dc_calling_tone cfg = 2
      else if c = CHR '';'' then rest \<noteq> []
      else True)"

definition dialable_symbol :: "dialer_cfg \<Rightarrow> char \<Rightarrow> bool" where
  "dialable_symbol cfg c \<longleftrightarrow>
     c \<in> set ''0123456789*#!'' \<or> (c \<in> set ''ABCDabcd'' \<and> dc_abcd_permitted cfg = 0)"

fun analyse_loop :: "dialer_cfg \<Rightarrow> bool \<Rightarrow> int \<Rightarrow> string \<Rightarrow> int \<times> int \<Rightarrow> int \<times> int" where
  "analyse_loop cfg tone i [] r = r"
| "analyse_loop cfg tone i (c # cs) (grade, last_digit) =
     analyse_loop cfg tone (i + 1) cs
       (if illegal_symbol cfg tone c cs
        then lower grade (if dc_modifier_validation cfg = 0 then DIALER_INVALID else DIALER_TOLERABLE) else grade,
        if dialable_symbol cfg c then i else last_digit)"

text \<open>The string is \<open>None\<close> for a null pointer.\<close>

definition AnalyseDialString :: "dialer \<Rightarrow> string option \<Rightarrow> bool \<Rightarrow> int \<times> dialer" where
  "AnalyseDialString d str store =
     (let d = d\<lparr>dl_last_digit := -2\<rparr>
      in case str of None \<Rightarrow> (DIALER_VALID, d)
       | Some s \<Rightarrow>
         (if length s > DIALER_MAX_STRING then (DIALER_FATAL, d)
          else if s = [] then (DIALER_VALID, d)
          else if hd s \<notin> set ''tTpP'' then (DIALER_INVALID, d)
          else
            (let (grade, last_digit) = analyse_loop (dl_cfg d) (hd s \<in> set ''tT'') 1 (tl s) (DIALER_VALID, -2)
             in (grade, if store then d\<lparr>dl_last_digit := last_digit\<rparr> else d))))"

definition IsDialStringInvalid :: "dialer \<Rightarrow> string option \<Rightarrow> bool \<times> dialer" where
  "IsDialStringInvalid d str =
     (let d = d\<lparr>dl_cfg := GetDialerConfig (dl_modem d)\<rparr>;
          (grade, d) = AnalyseDialString d str False
      in (grade \<le> DIALER_INVALID, d))"

subsection \<open>Construction and abort\<close>

definition DIALER_CREATE_REJECTED :: int where "DIALER_CREATE_REJECTED = 7"

text \<open>\<^verbatim>\<open>strcpy\<close>, terminator included.\<close>

definition copy_string :: "string \<Rightarrow> string \<Rightarrow> string option" where
  "copy_string s dst = for_loop 0 (length s + 1) (\<lambda>i dst. wr_at dst i ((s @ [NUL]) ! i)) dst"

definition DialerCreate :: "dialer \<Rightarrow> string option \<Rightarrow> line \<Rightarrow> (int \<times> dialer) option" where
  "DialerCreate d str modem =
     (let cfg = GetDialerConfig modem;
          modem = SetPulseBreakTime (dc_pulse_break cfg) (SetPulseMakeTime (dc_pulse_make cfg) modem);
          d = d\<lparr>dl_modem := modem, dl_cfg := cfg, dl_progress_state := 0, dl_col := 0, dl_pos := -1, dl_row := 0,
            dl_silence := 0, dl_pulse_started := 0, dl_pulse_active := 0, dl_pulse_released := 0\<rparr>
      in case str of
        None \<Rightarrow> do { st \<leftarrow> wr_at (dl_string d) 0 NUL; Some (0, d\<lparr>dl_string := st\<rparr>) }
      | Some s \<Rightarrow>
          (let (grade, d) = AnalyseDialString d (Some s) True; d = d\<lparr>dl_grade := grade\<rparr>
           in if grade \<le> DIALER_INVALID then Some (DIALER_CREATE_REJECTED, d)
              else do { st \<leftarrow> copy_string s (dl_string d); Some (0, d\<lparr>dl_string := st\<rparr>) }))"

text \<open>The release of the pulse dialler, as the generator and the abort do it.\<close>

definition release_pulses :: "dialer \<Rightarrow> dialer" where
  "release_pulses d =
     (if dl_pulse_released d = 0 \<and> dl_pulse_active d \<noteq> 0
      then d\<lparr>dl_modem := LastPulseDigitDialed (dl_modem d), dl_pulse_released := 1\<rparr> else d)"

definition DialerAbort :: "dialer \<Rightarrow> dialer" where
  "DialerAbort d = (if 0 \<le> dl_progress_state d \<and> dl_progress_state d \<le> 10 then release_pulses d else d)"

subsection \<open>The next thing to do\<close>

definition dial_low_freqs :: "int list" where "dial_low_freqs = [697, 770, 852, 941, 0]"

definition dial_high_freqs :: "int list" where "dial_high_freqs = [1209, 1336, 1477, 1633, 0]"

definition NEXT_DIGIT :: int where "NEXT_DIGIT = 1"
definition NEXT_GAP :: int where "NEXT_GAP = 2"
definition NEXT_FLASH :: int where "NEXT_FLASH = 3"
definition NEXT_PAUSE :: int where "NEXT_PAUSE = 4"
definition NEXT_WAIT_DIALTONE :: int where "NEXT_WAIT_DIALTONE = 5"
definition NEXT_WAIT_ANSWER :: int where "NEXT_WAIT_ANSWER = 6"
definition NEXT_WAIT_BONG :: int where "NEXT_WAIT_BONG = 7"
definition NEXT_CALLING_TONE :: int where "NEXT_CALLING_TONE = 8"
definition NEXT_COMMAND :: int where "NEXT_COMMAND = 9"
definition NEXT_END :: int where "NEXT_END = 10"

text \<open>Row and column of a digit on the keypad.\<close>

definition keypad :: "char \<Rightarrow> (int \<times> int) option" where
  "keypad c = map_of
     [(CHR ''1'', (0, 0)), (CHR ''2'', (0, 1)), (CHR ''3'', (0, 2)), (CHR ''4'', (1, 0)), (CHR ''5'', (1, 1)),
      (CHR ''6'', (1, 2)), (CHR ''7'', (2, 0)), (CHR ''8'', (2, 1)), (CHR ''9'', (2, 2)), (CHR ''0'', (3, 1))] c"

text \<open>The keys of tone dialling only.\<close>

definition tone_key :: "char \<Rightarrow> (int \<times> int) option" where
  "tone_key c = map_of
     [(CHR ''*'', (3, 0)), (CHR ''#'', (3, 2)), (CHR ''A'', (0, 3)), (CHR ''a'', (0, 3)), (CHR ''B'', (1, 3)), (CHR ''b'', (1, 3)),
      (CHR ''C'', (2, 3)), (CHR ''c'', (2, 3)), (CHR ''D'', (3, 3)), (CHR ''d'', (3, 3))] c"

definition set_mode :: "int \<Rightarrow> dialer \<Rightarrow> dialer" where
  "set_mode m d = d\<lparr>dl_cfg := (dl_cfg d)\<lparr>dc_tone_or_pulse := m\<rparr>\<rparr>"

definition char_at :: "dialer \<Rightarrow> int \<Rightarrow> char option" where
  "char_at d i = (if i < 0 then None else rd_at (dl_string d) (nat i))"

text \<open>A mode letter: at the start it sets the mode, later only where mixing is permitted.\<close>

definition mode_letter :: "int \<Rightarrow> int \<Rightarrow> dialer \<Rightarrow> dialer" where
  "mode_letter new old d =
     (if dl_pos d = 0 then set_mode new d
      else if dc_tone_or_pulse (dl_cfg d) \<noteq> old then d
      else if dc_mixed_permitted (dl_cfg d) \<noteq> 0 then d
      else set_mode new d)"

text \<open>The character at the position: the next state, or nothing to do with it.\<close>

definition scan_char :: "dialer \<Rightarrow> char \<Rightarrow> (dialer \<times> int option) option" where
  "scan_char d c =
     (if \<not> in_table c then Some (d, None)
      else if keypad c \<noteq> None then
        (let (r, k) = the (keypad c) in Some (d\<lparr>dl_row := r, dl_col := k\<rparr>, Some NEXT_DIGIT))
      else if tone_key c \<noteq> None then
        (let (r, k) = the (tone_key c)
         in if (c \<in> set ''ABCDabcd'' \<and> dc_abcd_permitted (dl_cfg d) \<noteq> 0) \<or> \<not> tone_dialing d then Some (d, None)
            else Some (d\<lparr>dl_row := r, dl_col := k\<rparr>, Some NEXT_DIGIT))
      else if c = CHR '','' then do {
        n \<leftarrow> char_at d (dl_pos d + 1);
        if n = CHR '','' then Some (d\<lparr>dl_repeat := dl_repeat d + 1\<rparr>, None) else Some (d, Some NEXT_PAUSE)
      }
      else if c \<in> set ''Ww'' then Some (d, Some NEXT_WAIT_DIALTONE)
      else if c = CHR ''@'' then Some (d, Some NEXT_WAIT_ANSWER)
      else if c = CHR ''$'' then Some (d, Some NEXT_WAIT_BONG)
      else if c = CHR ''!'' then Some (d, Some NEXT_FLASH)
      else if c = CHR ''^'' then
        Some (d, if dc_calling_tone (dl_cfg d) = 1 \<or> dc_calling_tone (dl_cfg d) = 3 then Some NEXT_CALLING_TONE else None)
      else if c = CHR '';'' then do {
        n \<leftarrow> char_at d (dl_pos d + 1);
        Some (d, if n = NUL then Some NEXT_COMMAND else None)
      }
      else if c \<in> set ''Tt'' then Some (mode_letter 1 0 d, None)
      else if c \<in> set ''Pp'' then Some (mode_letter 0 1 d, None)
      else Some (d, None))"

text \<open>Each round moves the position on, so one more round than the array has cells ends the scan.\<close>

fun scan_from :: "nat \<Rightarrow> dialer \<Rightarrow> (int \<times> dialer) option" where
  "scan_from 0 d = None"
| "scan_from (Suc n) d = do {
     let d = d\<lparr>dl_pos := dl_pos d + 1\<rparr>;
     c \<leftarrow> char_at d (dl_pos d);
     if c = NUL then Some (NEXT_END, d)
     else do {
       (d, r) \<leftarrow> scan_char d c;
       case r of Some next \<Rightarrow> Some (next, d) | None \<Rightarrow> scan_from n d
     }
   }"

definition GetNextDigitAndReturnNextState :: "dialer \<Rightarrow> (int \<times> dialer) option" where
  "GetNextDigitAndReturnNextState d = scan_from (length (dl_string d) + 1) (d\<lparr>dl_repeat := 1\<rparr>)"

definition dial_gap :: "dialer \<Rightarrow> int" where
  "dial_gap d = (if tone_dialing d then dc_dtmf_gap (dl_cfg d) else dc_pulse_gap (dl_cfg d)) * 8"

definition phase_inc :: "int \<Rightarrow> u16" where
  "phase_inc f = of_int (drop_bit 13 (f * 16777))"

definition start_digit :: "dialer \<Rightarrow> dialer option" where
  "start_digit d =
     (if tone_dialing d then do {
        lo \<leftarrow> (if dl_row d < 0 then None else rd_at dial_low_freqs (nat (dl_row d)));
        hi \<leftarrow> (if dl_col d < 0 then None else rd_at dial_high_freqs (nat (dl_col d)));
        Some (d\<lparr>dl_silence := dc_dtmf_duration (dl_cfg d) * 8, dl_phase_high := 0x2000, dl_phase_low := 0,
          dl_inc_low := phase_inc lo, dl_inc_high := phase_inc hi\<rparr>)
      }
      else Some (d\<lparr>dl_pulse_started := 0\<rparr>))"

definition begin_next :: "dialer \<Rightarrow> dialer option" where
  "begin_next d = do {
     (next, d) \<leftarrow> GetNextDigitAndReturnNextState d;
     d \<leftarrow> (if next = NEXT_DIGIT then start_digit d
       else if next = NEXT_GAP then Some (d\<lparr>dl_silence := dial_gap d\<rparr>)
       else if next = NEXT_FLASH then Some (d\<lparr>dl_pulse_started := 0\<rparr>)
       else if next = NEXT_PAUSE then
         (let n = dl_repeat d * dc_pause (dl_cfg d);
              n = (if n > dc_coma_pause_limit (dl_cfg d) then dc_coma_pause_limit (dl_cfg d) else n)
          in Some (d\<lparr>dl_silence := n * 8000\<rparr>))
       else Some d);
     Some (d\<lparr>dl_progress_state := next\<rparr>)
   }"

definition digit_finished :: "dialer \<Rightarrow> dialer option" where
  "digit_finished d =
     (if dl_pos d = dl_last_digit d then begin_next d
      else Some (d\<lparr>dl_silence := dial_gap d, dl_progress_state := 2\<rparr>))"

subsection \<open>Samples\<close>

text \<open>The cells from \<open>pos\<close> to \<open>stop\<close> of the caller's buffer.\<close>

definition for_cells :: "int \<Rightarrow> int \<Rightarrow> (nat \<Rightarrow> 's \<Rightarrow> 's option) \<Rightarrow> 's \<Rightarrow> 's option" where
  "for_cells pos stop f s =
     (if stop < pos then Some s else if pos < 0 then None else for_loop (nat pos) (nat (stop - pos + 1)) f s)"

definition cells_after :: "int \<Rightarrow> int \<Rightarrow> int" where
  "cells_after pos stop = (if stop < pos then pos else stop + 1)"

definition emit_silence :: "u16 list \<Rightarrow> int \<Rightarrow> int \<Rightarrow> (u16 list \<times> int) option" where
  "emit_silence buf pos stop = do {
     buf \<leftarrow> for_cells pos stop (\<lambda>i buf. wr_at buf i 0) buf;
     Some (buf, cells_after pos stop)
   }"

definition dtmf_sample :: "(u16 \<Rightarrow> u16) \<Rightarrow> dialer \<Rightarrow> u16 \<times> dialer" where
  "dtmf_sample tone d =
     (let low = of_int ((sint (dl_phase_low d) + sint (dl_inc_low d)) AND 0x3fff) :: u16;
          high = of_int ((sint (dl_phase_high d) + sint (dl_inc_high d)) AND 0x3fff) :: u16;
          lo = sint (dc_dtmf_low (dl_cfg d)) * sint (tone (of_int (drop_bit 3 (sint low + 4))));
          hi = sint (dc_dtmf_high (dl_cfg d)) * sint (tone (of_int (drop_bit 3 (sint high + 4))))
      in (of_int (drop_bit 14 lo + drop_bit 14 hi), d\<lparr>dl_phase_low := low, dl_phase_high := high\<rparr>))"

definition emit_gap :: "dialer \<Rightarrow> u16 list \<Rightarrow> int \<Rightarrow> int \<Rightarrow> (dialer \<times> u16 list \<times> int \<times> bool) option" where
  "emit_gap d buf pos limit =
     (let room = limit - pos + 1
      in if dl_silence d > room then do {
           (buf, pos) \<leftarrow> emit_silence buf pos limit;
           Some (d\<lparr>dl_silence := dl_silence d - room\<rparr>, buf, pos, False)
         }
         else do {
           (buf, pos) \<leftarrow> emit_silence buf pos (pos + dl_silence d - 1);
           Some (d\<lparr>dl_silence := 0\<rparr>, buf, pos, True)
         })"

definition tone_burst :: "(u16 \<Rightarrow> u16) \<Rightarrow> dialer \<Rightarrow> u16 list \<Rightarrow> int \<Rightarrow> int \<Rightarrow> (dialer \<times> u16 list \<times> int \<times> bool) option" where
  "tone_burst tone d buf pos limit = do {
     let d = (if dl_pulse_released d = 0 \<and> dl_pulse_active d \<noteq> 0
       then d\<lparr>dl_modem := LastPulseDigitDialed (dl_modem d), dl_pulse_active := 0, dl_pulse_released := 1\<rparr> else d);
     let room = limit - pos + 1;
     let timed = (dc_dtmf_duration (dl_cfg d) \<noteq> 0);
     let done = (timed \<and> \<not> dl_silence d > room);
     let stop = (if done then pos + dl_silence d - 1 else limit);
     let d = (if timed then d\<lparr>dl_silence := (if done then 0 else dl_silence d - room)\<rparr> else d);
     (d, buf) \<leftarrow> for_cells pos stop
       (\<lambda>i (d, buf). let (v, d) = dtmf_sample tone d in do { buf \<leftarrow> wr_at buf i v; Some (d, buf) }) (d, buf);
     Some (d, buf, cells_after pos stop, done)
   }"

subsection \<open>Pulses\<close>

definition pulse_count :: "dialer \<Rightarrow> int" where
  "pulse_count d =
     (let n = dl_row d * 3 + dl_col d; pattern = dc_pulse_pattern (dl_cfg d)
      in if pattern = 1 then (if n + 1 = 11 then 10 else n + 1)
         else if pattern = 2 then (if n = 10 then 1 else n + 2)
         else if pattern = 3 then (if n + 1 = 11 then 10 else if n + 1 > 9 then n + 1 else 10 - (n + 1))
         else -1)"

definition poll :: "dialer \<Rightarrow> bool \<times> dialer" where
  "poll d = (let (r, ln) = IsPulseDialerReady (dl_modem d) in (r, d\<lparr>dl_modem := ln\<rparr>))"

text \<open>The wait both for the line to be free and for the pulses to be out: silence as long as it takes.\<close>

definition pulse_wait :: "int \<Rightarrow> dialer \<Rightarrow> u16 list \<Rightarrow> int \<Rightarrow> int \<Rightarrow> (dialer \<times> u16 list \<times> int \<times> bool) option" where
  "pulse_wait count d buf pos limit =
     (let (ready, d) = (if dl_pulse_started d = 0 then poll d else (True, d))
      in if \<not> ready then do { (buf, pos) \<leftarrow> emit_silence buf pos limit; Some (d, buf, pos, False) }
         else
           (let d = (if dl_pulse_started d = 0
              then d\<lparr>dl_modem := PulseDialDigit count (dl_modem d), dl_pulse_started := 1\<rparr> else d);
              (ready, d) = poll d
            in if \<not> ready then do { (buf, pos) \<leftarrow> emit_silence buf pos limit; Some (d, buf, pos, False) }
               else Some (d, buf, pos, True)))"

definition pulse_digit :: "dialer \<Rightarrow> u16 list \<Rightarrow> int \<Rightarrow> int \<Rightarrow> (dialer \<times> u16 list \<times> int \<times> bool) option" where
  "pulse_digit d buf pos limit = pulse_wait (pulse_count d) d buf pos limit"

definition flash_times :: "dialer \<Rightarrow> dialer" where
  "flash_times d =
     (if dl_pulse_started d = 0
      then d\<lparr>dl_modem := SetPulseBreakTime (dc_hook_flash (dl_cfg d) * 10) (SetPulseMakeTime 0 (dl_modem d))\<rparr> else d)"

subsection \<open>The generator\<close>

definition DIALER_BUSY :: int where "DIALER_BUSY = 0"
definition DIALER_WAIT_DIALTONE :: int where "DIALER_WAIT_DIALTONE = 1"
definition DIALER_WAIT_ANSWER :: int where "DIALER_WAIT_ANSWER = 2"
definition DIALER_WAIT_BONG :: int where "DIALER_WAIT_BONG = 3"
definition DIALER_CALLING_TONE :: int where "DIALER_CALLING_TONE = 4"
definition DIALER_COMMAND :: int where "DIALER_COMMAND = 5"
definition DIALER_DONE :: int where "DIALER_DONE = 6"
definition DIALER_BAD_STATE :: int where "DIALER_BAD_STATE = 7"

type_synonym generation = "dialer \<times> u16 list \<times> int"

text \<open>A digit: tone or pulses.\<close>

definition digit_round :: "(u16 \<Rightarrow> u16) \<Rightarrow> int \<Rightarrow> generation \<Rightarrow> generation option" where
  "digit_round tone limit = (\<lambda>(d, buf, pos).
     if tone_dialing d then do {
       (d, buf, pos, done) \<leftarrow> tone_burst tone d buf pos limit;
       d \<leftarrow> (if done then digit_finished d else Some d);
       Some (d, buf, pos)
     }
     else if dc_tone_or_pulse (dl_cfg d) \<noteq> 0 then Some (d, buf, pos)
     else do {
       (d, buf, pos, done) \<leftarrow> pulse_digit d buf pos limit;
       d \<leftarrow> (if done then digit_finished (d\<lparr>dl_pulse_started := 0, dl_pulse_released := 0, dl_pulse_active := 1\<rparr>) else Some d);
       Some (d, buf, pos)
     })"

definition gap_round :: "int \<Rightarrow> generation \<Rightarrow> generation option" where
  "gap_round limit = (\<lambda>(d, buf, pos). do {
     (d, buf, pos, done) \<leftarrow> emit_gap d buf pos limit;
     d \<leftarrow> (if done then begin_next d else Some d);
     Some (d, buf, pos)
   })"

definition flash_round :: "int \<Rightarrow> generation \<Rightarrow> generation option" where
  "flash_round limit = (\<lambda>(d, buf, pos). do {
     (d, buf, pos, done) \<leftarrow> pulse_wait 1 (flash_times d) buf pos limit;
     Some (if done
       then d\<lparr>dl_pulse_started := 0,
         dl_modem := SetPulseBreakTime (dc_pulse_break (dl_cfg d)) (SetPulseMakeTime (dc_pulse_make (dl_cfg d)) (dl_modem d)),
         dl_pulse_released := 0, dl_pulse_active := 1, dl_progress_state := 2, dl_silence := dc_pulse_gap (dl_cfg d) * 8\<rparr>
       else d, buf, pos)
   })"

text \<open>One round of the loop, with the value it returns if it returns.\<close>

definition progress_round :: "(u16 \<Rightarrow> u16) \<Rightarrow> int \<Rightarrow> generation \<Rightarrow> (generation \<times> int option) option" where
  "progress_round tone limit = (\<lambda>(d, buf, pos).
     let st = dl_progress_state d; go = map_option (\<lambda>s. (s, None)); initial = d\<lparr>dl_progress_state := 0\<rparr>
     in if pos > limit then Some ((d, buf, pos), Some DIALER_BUSY)
        else if st = 0 then go (map_option (\<lambda>d. (d, buf, pos)) (begin_next d))
        else if st = 1 then go (digit_round tone limit (d, buf, pos))
        else if st = 2 \<or> st = 4 then go (gap_round limit (d, buf, pos))
        else if st = 3 then go (flash_round limit (d, buf, pos))
        else if st = 5 then Some ((initial, buf, pos), Some DIALER_WAIT_DIALTONE)
        else if st = 6 then Some ((initial, buf, pos), Some DIALER_WAIT_ANSWER)
        else if st = 7 then Some ((initial, buf, pos), Some DIALER_WAIT_BONG)
        else if st = 8 then Some ((initial, buf, pos), Some DIALER_CALLING_TONE)
        else if st = 9 then Some ((release_pulses d, buf, pos), Some DIALER_COMMAND)
        else if st = 10 then Some ((release_pulses d, buf, pos), Some DIALER_DONE)
        else Some ((d, buf, pos), Some DIALER_BAD_STATE))"

text \<open>The loop; one that never returns is \<open>None\<close>.\<close>

partial_function (option) DialerProgress :: "(u16 \<Rightarrow> u16) \<Rightarrow> int \<Rightarrow> generation \<Rightarrow> (generation \<times> int) option" where
  "DialerProgress tone limit s = do {
     (s, r) \<leftarrow> progress_round tone limit s;
     case r of Some code \<Rightarrow> Some (s, code) | None \<Rightarrow> DialerProgress tone limit s
   }"

end
