(* ===== verification/DialerPlay.thy ===== *)
theory DialerPlay
  imports Dialer
begin

unbundle bit_operations_syntax

text \<open>
  Tone dialling against its plan: the samples and notices a dial string asks for, read off the string,
  with the tones in closed form. The generator plays the plan, however the caller cuts it into buffers.
\<close>

subsection \<open>The plan of a string\<close>

datatype item = Sample u16 | Notice int

definition quiet :: "int \<Rightarrow> item list" where
  "quiet n = replicate (nat n) (Sample 0)"

text \<open>Sample \<open>n\<close> of a digit: two sines of the table, their phases in steps of the frequencies.\<close>

definition phase_at :: "int \<Rightarrow> int \<Rightarrow> nat \<Rightarrow> int" where
  "phase_at start f n = (start + int n * (f * 16777 div 2 ^ 13)) mod 2 ^ 14"

definition sine_at :: "(u16 \<Rightarrow> u16) \<Rightarrow> u16 \<Rightarrow> int \<Rightarrow> int" where
  "sine_at tone gain ph = sint gain * sint (tone (of_int ((ph + 4) div 8))) div 2 ^ 14"

definition tone_at :: "(u16 \<Rightarrow> u16) \<Rightarrow> dialer_cfg \<Rightarrow> int \<Rightarrow> int \<Rightarrow> nat \<Rightarrow> u16" where
  "tone_at tone cfg r k n =
     of_int (sine_at tone (dc_dtmf_low cfg) (phase_at 0 (dial_low_freqs ! nat r) (Suc n)) +
             sine_at tone (dc_dtmf_high cfg) (phase_at 8192 (dial_high_freqs ! nat k) (Suc n)))"

definition burst :: "(u16 \<Rightarrow> u16) \<Rightarrow> dialer_cfg \<Rightarrow> int \<Rightarrow> int \<Rightarrow> nat \<Rightarrow> item list" where
  "burst tone cfg r k from = map (\<lambda>n. Sample (tone_at tone cfg r k n)) [from..<nat (dc_dtmf_duration cfg * 8)]"

definition key_of :: "dialer_cfg \<Rightarrow> char \<Rightarrow> (int \<times> int) option" where
  "key_of cfg c = (if keypad c \<noteq> None then keypad c
     else if c \<in> set ''ABCDabcd'' \<and> dc_abcd_permitted cfg \<noteq> 0 then None else tone_key c)"

definition pause_length :: "dialer_cfg \<Rightarrow> int \<Rightarrow> int" where
  "pause_length cfg run = min (run * dc_pause cfg) (dc_coma_pause_limit cfg) * 8000"

definition notice_of :: "dialer_cfg \<Rightarrow> char \<Rightarrow> int option" where
  "notice_of cfg c =
     (if c \<in> set ''Ww'' then Some DIALER_WAIT_DIALTONE else if c = CHR ''@'' then Some DIALER_WAIT_ANSWER
      else if c = CHR ''$'' then Some DIALER_WAIT_BONG
      else if c = CHR ''^'' \<and> (dc_calling_tone cfg = 1 \<or> dc_calling_tone cfg = 3) then Some DIALER_CALLING_TONE else None)"

text \<open>From position \<open>i\<close> on; \<open>run\<close> commas in a row make one pause, \<open>stop\<close> is the last digit.\<close>

fun plan :: "(u16 \<Rightarrow> u16) \<Rightarrow> dialer_cfg \<Rightarrow> int \<Rightarrow> int \<Rightarrow> int \<Rightarrow> string \<Rightarrow> item list" where
  "plan tone cfg stop i run [] = [Notice DIALER_DONE]"
| "plan tone cfg stop i run (c # cs) =
     (case key_of cfg c of
        Some (r, k) \<Rightarrow> burst tone cfg r k 0 @ (if i = stop then [] else quiet (dc_dtmf_gap cfg * 8)) @ plan tone cfg stop (i + 1) 1 cs
      | None \<Rightarrow>
        (case notice_of cfg c of
           Some code \<Rightarrow> Notice code # plan tone cfg stop (i + 1) 1 cs
         | None \<Rightarrow>
           if c = CHR '','' then
             (if cs \<noteq> [] \<and> hd cs = CHR '','' then plan tone cfg stop (i + 1) (run + 1) cs
              else quiet (pause_length cfg run) @ plan tone cfg stop (i + 1) 1 cs)
           else if c = CHR '';'' \<and> cs = [] then [Notice DIALER_COMMAND]
           else plan tone cfg stop (i + 1) run cs))"

subsection \<open>The text of a dialler\<close>

definition text_of :: "dialer \<Rightarrow> string" where
  "text_of d = takeWhile (\<lambda>c. c \<noteq> NUL) (dl_string d)"

definition rest_of :: "dialer \<Rightarrow> string" where
  "rest_of d = drop (nat (dl_pos d + 1)) (text_of d)"

text \<open>Nothing in the text asks for pulses.\<close>

definition tones_only :: "dialer_cfg \<Rightarrow> string \<Rightarrow> bool" where
  "tones_only cfg s \<longleftrightarrow> CHR ''!'' \<notin> set s \<and> (s \<noteq> [] \<longrightarrow> hd s \<notin> set ''Pp'') \<and>
     (dc_mixed_permitted cfg = 0 \<longrightarrow> CHR ''P'' \<notin> set s \<and> CHR ''p'' \<notin> set s)"

definition scannable :: "dialer \<Rightarrow> bool" where
  "scannable d \<longleftrightarrow> NUL \<in> set (dl_string d) \<and> tones_only (dl_cfg d) (text_of d) \<and> tone_dialing d \<and>
     0 < dc_dtmf_duration (dl_cfg d) \<and> dl_pulse_active d = 0"

text \<open>Not past the terminator.\<close>

definition inside :: "dialer \<Rightarrow> bool" where
  "inside d \<longleftrightarrow> -1 \<le> dl_pos d \<and> dl_pos d + 1 \<le> int (length (text_of d))"

lemma text_cell:
  assumes "NUL \<in> set (dl_string d)" and "i \<le> length (text_of d)"
  shows "rd_at (dl_string d) i = Some ((text_of d @ [NUL]) ! i)" and "length (text_of d) < length (dl_string d)"
proof -
  let ?s = "dl_string d"
  obtain c ys where d: "dropWhile (\<lambda>c. c \<noteq> NUL) ?s = c # ys"
    using assms(1) by (cases "dropWhile (\<lambda>c. c \<noteq> NUL) ?s") (auto simp: dropWhile_eq_Nil_conv)
  then have c: "c = NUL" using hd_dropWhile [of "\<lambda>c. c \<noteq> NUL" ?s] by simp
  have s: "?s = text_of d @ NUL # ys" unfolding text_of_def using takeWhile_dropWhile_id [of "\<lambda>c. c \<noteq> NUL" ?s] d c by simp
  show "length (text_of d) < length ?s" by (subst s) simp
  show "rd_at ?s i = Some ((text_of d @ [NUL]) ! i)"
    using assms(2) unfolding rd_at_def by (subst (1 2) s) (auto simp: nth_append)
qed

lemma text_chars: "c \<in> set (text_of d) \<Longrightarrow> c \<noteq> NUL"
  by (auto simp: text_of_def dest: set_takeWhileD)

subsection \<open>One character\<close>

definition keys :: string where "keys = ''1234567890*#AaBbCcDd''"

lemma keys_checked:
  "list_all (\<lambda>c. in_table c \<and> (keypad c = None \<or> tone_key c = None) \<and>
     (case keypad c of None \<Rightarrow> True | Some (r, k) \<Rightarrow> 0 \<le> r \<and> r < 4 \<and> 0 \<le> k \<and> k < 4) \<and>
     (case tone_key c of None \<Rightarrow> True | Some (r, k) \<Rightarrow> 0 \<le> r \<and> r < 4 \<and> 0 \<le> k \<and> k < 4)) keys"
  by code_simp

lemma key_listed: "keypad c \<noteq> None \<or> tone_key c \<noteq> None \<Longrightarrow> c \<in> set keys"
  by (auto simp: keypad_def tone_key_def keys_def split: if_splits)

lemma keypad_table: "keypad c = Some rk \<Longrightarrow> in_table c \<and> 0 \<le> fst rk \<and> fst rk < 4 \<and> 0 \<le> snd rk \<and> snd rk < 4"
  using keys_checked key_listed [of c] by (auto simp: list_all_iff split_beta)

lemma tone_key_table:
  "tone_key c = Some rk \<Longrightarrow> in_table c \<and> keypad c = None \<and> 0 \<le> fst rk \<and> fst rk < 4 \<and> 0 \<le> snd rk \<and> snd rk < 4"
  using keys_checked key_listed [of c] by (auto simp: list_all_iff split_beta)

lemma key_of_range: "key_of cfg c = Some (r, k) \<Longrightarrow> 0 \<le> r \<and> r < 4 \<and> 0 \<le> k \<and> k < 4"
  using keypad_table [of c "(r, k)"] tone_key_table [of c "(r, k)"] by (auto simp: key_of_def split: if_splits)

lemma scan_char_key:
  assumes "tone_dialing d" and "key_of (dl_cfg d) c = Some (r, k)"
  shows "scan_char d c = Some (d\<lparr>dl_row := r, dl_col := k\<rparr>, Some NEXT_DIGIT)"
proof (cases "keypad c")
  case (Some rk)
  then show ?thesis using assms keypad_table [OF Some] by (simp add: scan_char_def key_of_def)
next
  case None
  then have t: "tone_key c = Some (r, k)" "\<not> (c \<in> set ''ABCDabcd'' \<and> dc_abcd_permitted (dl_cfg d) \<noteq> 0)"
    using assms(2) by (auto simp: key_of_def split: if_splits)
  then show ?thesis using assms(1) None tone_key_table [OF t(1)] by (auto simp: scan_char_def)
qed

lemma special_chars:
  "keypad (CHR '','') = None" "tone_key (CHR '','') = None" "in_table (CHR '','')"
  "keypad (CHR '';'') = None" "tone_key (CHR '';'') = None" "in_table (CHR '';'')"
  "keypad (CHR ''^'') = None" "tone_key (CHR ''^'') = None" "in_table (CHR ''^'')"
  "keypad (CHR ''@'') = None" "tone_key (CHR ''@'') = None" "in_table (CHR ''@'')"
  "keypad (CHR ''$'') = None" "tone_key (CHR ''$'') = None" "in_table (CHR ''$'')"
  "keypad (CHR ''W'') = None" "tone_key (CHR ''W'') = None" "in_table (CHR ''W'')"
  "keypad (CHR ''w'') = None" "tone_key (CHR ''w'') = None" "in_table (CHR ''w'')"
  by (simp_all add: keypad_def tone_key_def in_table_def)

lemma scan_char_notice:
  assumes "notice_of (dl_cfg d) c = Some code"
  shows "scan_char d c = Some (d, Some (code + 4)) \<and> code \<in> {1, 2, 3, 4}"
  using assms
  by (auto simp: notice_of_def scan_char_def special_chars DIALER_WAIT_DIALTONE_def DIALER_WAIT_ANSWER_def DIALER_WAIT_BONG_def
      DIALER_CALLING_TONE_def NEXT_WAIT_DIALTONE_def NEXT_WAIT_ANSWER_def NEXT_WAIT_BONG_def NEXT_CALLING_TONE_def split: if_splits)

lemma set_mode_same: "tone_dialing d \<Longrightarrow> set_mode 1 d = d"
  by (cases d; cases "dl_cfg d") (simp add: set_mode_def)

lemma scan_char_skip:
  assumes t: "tone_dialing d" and k: "key_of (dl_cfg d) c = None" and n: "notice_of (dl_cfg d) c = None"
    and c: "c \<noteq> CHR '',''" "c \<noteq> CHR '';''" "c \<noteq> CHR ''!''"
    and p: "c \<in> set ''Pp'' \<Longrightarrow> dl_pos d \<noteq> 0 \<and> dc_mixed_permitted (dl_cfg d) \<noteq> 0"
  shows "scan_char d c = Some (d, None)"
proof (cases "in_table c \<and> tone_key c = None")
  case False
  then show ?thesis using k by (auto simp: scan_char_def key_of_def split: if_splits)
next
  case True
  moreover have "keypad c = None" using k by (cases "keypad c") (simp_all add: key_of_def)
  moreover have "c \<notin> set ''Ww@$''" "c = CHR ''^'' \<Longrightarrow> dc_calling_tone (dl_cfg d) \<noteq> 1 \<and> dc_calling_tone (dl_cfg d) \<noteq> 3"
    using n by (auto simp: notice_of_def split: if_splits)
  ultimately show ?thesis using t c p by (auto simp: scan_char_def mode_letter_def set_mode_same)
qed

subsection \<open>The scan\<close>

lemma place_simps [simp]:
  "text_of (d\<lparr>dl_pos := p\<rparr>) = text_of d" "text_of (d\<lparr>dl_repeat := q\<rparr>) = text_of d"
  "text_of (d\<lparr>dl_row := a\<rparr>) = text_of d" "text_of (d\<lparr>dl_col := b\<rparr>) = text_of d"
  "rest_of (d\<lparr>dl_repeat := q\<rparr>) = rest_of d" "rest_of (d\<lparr>dl_row := a\<rparr>) = rest_of d" "rest_of (d\<lparr>dl_col := b\<rparr>) = rest_of d"
  "inside (d\<lparr>dl_repeat := q\<rparr>) = inside d" "inside (d\<lparr>dl_row := a\<rparr>) = inside d" "inside (d\<lparr>dl_col := b\<rparr>) = inside d"
  by (simp_all add: text_of_def rest_of_def inside_def)

lemma rest_Nil: "inside d \<Longrightarrow> rest_of d = [] \<longleftrightarrow> dl_pos d + 1 = int (length (text_of d))"
  by (auto simp: inside_def rest_of_def)

lemma rest_Cons:
  assumes "inside d" and "rest_of d = c # cs"
  shows "rest_of (d\<lparr>dl_pos := dl_pos d + 1\<rparr>) = cs" and "inside (d\<lparr>dl_pos := dl_pos d + 1\<rparr>)"
    and "c = text_of d ! nat (dl_pos d + 1)" and "c \<in> set (text_of d)"
proof -
  let ?i = "nat (dl_pos d + 1)"
  have i: "?i < length (text_of d)" using assms(2) unfolding rest_of_def by (metis drop_all list.discI not_le)
  have d: "drop ?i (text_of d) = text_of d ! ?i # drop (Suc ?i) (text_of d)" by (rule Cons_nth_drop_Suc [symmetric, OF i])
  show "c = text_of d ! ?i" and "c \<in> set (text_of d)" using assms(2) d i by (auto simp: rest_of_def)
  have n: "nat (2 + dl_pos d) = Suc ?i" using assms(1) unfolding inside_def by arith
  have t: "text_of (d\<lparr>dl_pos := dl_pos d + 1\<rparr>) = text_of d" by (simp add: text_of_def)
  show "rest_of (d\<lparr>dl_pos := dl_pos d + 1\<rparr>) = cs" using assms(2) d unfolding rest_of_def t by (simp add: n)
  show "inside (d\<lparr>dl_pos := dl_pos d + 1\<rparr>)" using i assms(1) by (simp add: inside_def text_of_def)
qed

lemma next_char:
  assumes "NUL \<in> set (dl_string d)" and "inside d"
  shows "char_at d (dl_pos d + 1) = Some (case rest_of d of [] \<Rightarrow> NUL | c # _ \<Rightarrow> c)"
proof -
  let ?i = "nat (dl_pos d + 1)"
  have i: "?i \<le> length (text_of d)" and p: "\<not> dl_pos d + 1 < 0" using assms(2) by (auto simp: inside_def)
  have "(text_of d @ [NUL]) ! ?i = (case rest_of d of [] \<Rightarrow> NUL | c # _ \<Rightarrow> c)"
  proof (cases "rest_of d")
    case Nil
    then have "?i = length (text_of d)" using rest_Nil [OF assms(2)] by simp
    then show ?thesis using Nil by (simp add: nth_append)
  next
    case (Cons c cs)
    then have "?i < length (text_of d)" unfolding rest_of_def by (metis drop_all list.discI not_le)
    then show ?thesis using Cons rest_Cons(3) [OF assms(2) Cons] by (simp add: nth_append)
  qed
  then show ?thesis using p text_cell(1) [OF assms(1) i] by (simp add: char_at_def)
qed

definition same_job :: "dialer \<Rightarrow> dialer \<Rightarrow> bool" where
  "same_job d d' \<longleftrightarrow> (\<exists>p q r k. d' = d\<lparr>dl_pos := p, dl_repeat := q, dl_row := r, dl_col := k\<rparr>)"

abbreviation onward :: "(u16 \<Rightarrow> u16) \<Rightarrow> dialer \<Rightarrow> item list" where
  "onward tone d \<equiv> plan tone (dl_cfg d) (dl_last_digit d) (dl_pos d + 1) 1 (rest_of d)"

definition closing_gap :: "dialer \<Rightarrow> item list" where
  "closing_gap d = (if dl_pos d = dl_last_digit d then [] else quiet (dc_dtmf_gap (dl_cfg d) * 8))"

text \<open>What a scan found, against the items \<open>xs\<close> planned for it.\<close>

definition found :: "(u16 \<Rightarrow> u16) \<Rightarrow> int \<Rightarrow> dialer \<Rightarrow> item list \<Rightarrow> bool" where
  "found tone next d xs \<longleftrightarrow>
     next = NEXT_END \<and> xs = [Notice DIALER_DONE] \<or>
     next = NEXT_COMMAND \<and> xs = [Notice DIALER_COMMAND] \<or>
     inside d \<and> 0 \<le> dl_pos d \<and>
       (next = NEXT_DIGIT \<and> 0 \<le> dl_row d \<and> dl_row d < 4 \<and> 0 \<le> dl_col d \<and> dl_col d < 4 \<and>
          xs = burst tone (dl_cfg d) (dl_row d) (dl_col d) 0 @ closing_gap d @ onward tone d \<or>
        next = NEXT_PAUSE \<and> xs = quiet (pause_length (dl_cfg d) (dl_repeat d)) @ onward tone d \<or>
        (\<exists>code. code \<in> {1, 2, 3, 4} \<and> next = code + 4 \<and> xs = Notice code # onward tone d))"

lemma same_job_fields:
  assumes "same_job d d'"
  shows "dl_string d' = dl_string d" "dl_cfg d' = dl_cfg d" "dl_last_digit d' = dl_last_digit d" "dl_pulse_active d' = dl_pulse_active d"
    "dl_silence d' = dl_silence d" "text_of d' = text_of d" "scannable d' = scannable d"
  using assms by (auto simp: same_job_def text_of_def scannable_def)

lemma scan_step:
  assumes d: "scannable d" "inside d" and r: "rest_of d = c # cs"
  shows "scan_from (Suc n) d = do { (d, r) \<leftarrow> scan_char (d\<lparr>dl_pos := dl_pos d + 1\<rparr>) c;
    case r of Some next \<Rightarrow> Some (next, d) | None \<Rightarrow> scan_from n d }"
proof -
  have "c \<noteq> NUL" using rest_Cons(4) [OF d(2) r] text_chars by blast
  moreover have "char_at (d\<lparr>dl_pos := dl_pos d + 1\<rparr>) (dl_pos d + 1) = Some c"
    using next_char [of d] d r by (auto simp: scannable_def char_at_def split: if_splits)
  ultimately show ?thesis by (simp add: Let_def)
qed

lemma pulse_letter:
  assumes d: "scannable d" "inside d" and r: "rest_of d = c # cs" and c: "c \<in> set ''Pp''"
  shows "dl_pos d + 1 \<noteq> 0 \<and> dc_mixed_permitted (dl_cfg d) \<noteq> 0"
proof
  show "dl_pos d + 1 \<noteq> 0"
  proof
    assume "dl_pos d + 1 = 0"
    then have "text_of d = c # cs" using r by (simp add: rest_of_def)
    then show False using d(1) c by (auto simp: scannable_def tones_only_def)
  qed
  show "dc_mixed_permitted (dl_cfg d) \<noteq> 0"
    using rest_Cons(4) [OF d(2) r] c d(1) by (auto simp: scannable_def tones_only_def)
qed

lemma scan_run:
  assumes "scannable d" and "inside d" and "length (rest_of d) < n"
  shows "\<exists>nx d'. scan_from n d = Some (nx, d') \<and> same_job d d' \<and> dl_pos d < dl_pos d' \<and>
    found tone nx d' (plan tone (dl_cfg d) (dl_last_digit d) (dl_pos d + 1) (dl_repeat d) (rest_of d))"
  using assms
proof (induction n arbitrary: d)
  case (Suc n)
  note d = Suc.prems(1,2)
  let ?d = "d\<lparr>dl_pos := dl_pos d + 1\<rparr>" and ?cfg = "dl_cfg d"
  have str: "NUL \<in> set (dl_string d)" "tone_dialing d" using d(1) by (simp_all add: scannable_def)
  have pos: "0 \<le> dl_pos d + 1" using d(2) by (simp add: inside_def)
  show ?case
  proof (cases "rest_of d")
    case Nil
    then have "scan_from (Suc n) d = Some (NEXT_END, ?d)"
      using next_char [OF str(1) d(2)] by (auto simp: Let_def char_at_def split: if_splits)
    moreover have "same_job d ?d" unfolding same_job_def by (intro exI [of _ "dl_pos d + 1"] exI [of _ "dl_repeat d"] exI [of _ "dl_row d"] exI [of _ "dl_col d"]) simp
    ultimately show ?thesis using Nil by (auto simp: found_def)
  next
    case (Cons c cs)
    note r = rest_Cons [OF d(2) Cons]
    have tone: "tone_dialing ?d" and fits: "length cs < n" using str Suc.prems(3) Cons by simp_all
    have stop: "\<exists>nx d'. scan_from (Suc n) d = Some (nx, d') \<and> same_job d d' \<and> dl_pos d < dl_pos d' \<and> found tone nx d' xs"
      if "scan_char ?d c = Some (?d\<lparr>dl_row := a, dl_col := b\<rparr>, Some nx)" "found tone nx (?d\<lparr>dl_row := a, dl_col := b\<rparr>) xs" for a b nx xs
      using that unfolding scan_step [OF d Cons] same_job_def
      by (intro exI [of _ nx] exI [of _ "?d\<lparr>dl_row := a, dl_col := b\<rparr>"] conjI exI [of _ "dl_pos d + 1"] exI [of _ "dl_repeat d"] exI [of _ a] exI [of _ b]) simp_all
    have skip: "\<exists>nx d'. scan_from (Suc n) d = Some (nx, d') \<and> same_job d d' \<and> dl_pos d < dl_pos d' \<and>
        found tone nx d' (plan tone ?cfg (dl_last_digit d) (dl_pos d + 1 + 1) q cs)"
      if q: "scan_char ?d c = Some (?d\<lparr>dl_repeat := q\<rparr>, None)" for q
    proof -
      let ?e = "?d\<lparr>dl_repeat := q\<rparr>"
      have e: "scannable ?e" "inside ?e" "rest_of ?e = cs" using d(1) r(1,2) by (simp_all add: scannable_def text_of_def inside_def rest_of_def)
      obtain nx d' where x: "scan_from n ?e = Some (nx, d')" "same_job ?e d'" "dl_pos ?e < dl_pos d'"
          "found tone nx d' (plan tone ?cfg (dl_last_digit d) (dl_pos ?e + 1) q cs)"
        using Suc.IH [OF e(1,2)] fits e(3) by auto
      moreover have "same_job d d'" using x(2) by (simp add: same_job_def)
      moreover have "scan_from (Suc n) d = Some (nx, d')" unfolding scan_step [OF d Cons] using q x(1) by simp
      ultimately show ?thesis by (intro exI [of _ nx] exI [of _ d']) simp
    qed
    have same: "?d\<lparr>dl_row := dl_row d, dl_col := dl_col d\<rparr> = ?d" "?d\<lparr>dl_repeat := dl_repeat d\<rparr> = ?d" by (cases d; simp)+
    have follow: "char_at ?d (dl_pos ?d + 1) = Some (case cs of [] \<Rightarrow> NUL | n # _ \<Rightarrow> n)"
      using next_char [of ?d] str(1) r(1,2) by simp
    have on: "onward tone (?d\<lparr>dl_row := a, dl_col := b\<rparr>) = plan tone ?cfg (dl_last_digit d) (dl_pos d + 1 + 1) 1 cs" for a b
      using r(1) by (simp add: rest_of_def text_of_def)
    have ins: "inside (?d\<lparr>dl_row := a, dl_col := b\<rparr>)" for a b using r(2) by (simp add: inside_def text_of_def)
    have tail: "cs = [] \<or> hd cs \<noteq> NUL" using set_drop_subset [of "nat (dl_pos d + 1)" "text_of d"] text_chars [of _ d] Cons
      unfolding rest_of_def by (cases cs) auto
    show ?thesis
    proof (cases "key_of ?cfg c")
      case (Some ab)
      obtain a b where ab: "ab = (a, b)" by (cases ab)
      show ?thesis
        using scan_char_key [of ?d c a b] tone Some ab key_of_range [of ?cfg c a b] ins [of a b] on [of a b] pos
        by (intro stop [where a = a and b = b and nx = NEXT_DIGIT]) (simp_all add: found_def closing_gap_def Cons)
    next
      case None
      show ?thesis
      proof (cases "notice_of ?cfg c")
        case (Some code)
        then show ?thesis
          using scan_char_notice [of ?d c code] None same ins [of "dl_row d" "dl_col d"] on [of "dl_row d" "dl_col d"] pos
          by (intro stop [where a = "dl_row d" and b = "dl_col d" and nx = "code + 4"]) (auto simp: found_def Cons)
      next
        case no: None
        note keyless = None [unfolded key_of_def]
        consider "c = CHR '',''" "cs \<noteq> []" "hd cs = CHR '',''" | "c = CHR '',''" "cs = [] \<or> hd cs \<noteq> CHR '',''"
          | "c = CHR '';''" "cs = []" | "c = CHR '';''" "cs \<noteq> []" | "c \<noteq> CHR '',''" "c \<noteq> CHR '';''" by blast
        then show ?thesis
        proof cases
          case 1
          have "scan_char ?d c = Some (?d\<lparr>dl_repeat := dl_repeat d + 1\<rparr>, None)"
            using follow 1 by (cases cs) (simp_all add: scan_char_def special_chars)
          from skip [OF this] show ?thesis using 1 None no by (simp add: Cons)
        next
          case 2
          have "scan_char ?d c = Some (?d, Some NEXT_PAUSE)"
            using follow 2 by (cases cs) (simp_all add: scan_char_def special_chars NUL_def)
          then show ?thesis using same ins [of "dl_row d" "dl_col d"] on [of "dl_row d" "dl_col d"] pos 2 None no
            by (intro stop [where a = "dl_row d" and b = "dl_col d" and nx = NEXT_PAUSE]) (auto simp: found_def Cons)
        next
          case 3
          have "scan_char ?d c = Some (?d, Some NEXT_COMMAND)"
            using follow 3 by (simp add: scan_char_def special_chars)
          then show ?thesis using same 3 None no
            by (intro stop [where a = "dl_row d" and b = "dl_col d" and nx = NEXT_COMMAND]) (auto simp: found_def Cons)
        next
          case 4
          have "scan_char ?d c = Some (?d, None)"
            using follow 4 tail by (cases cs) (simp_all add: scan_char_def special_chars)
          from skip [of "dl_repeat d"] this show ?thesis using same 4 None no by (simp add: Cons)
        next
          case 5
          have "c \<noteq> CHR ''!''" using r(4) d(1) by (auto simp: scannable_def tones_only_def)
          then have "scan_char ?d c = Some (?d, None)"
            using 5 None no tone pulse_letter [OF d Cons] by (intro scan_char_skip) auto
          from skip [of "dl_repeat d"] this show ?thesis using same 5 None no by (simp add: Cons)
        qed
      qed
    qed
  qed
qed simp

subsection \<open>What is still to come\<close>

definition low_freq :: "dialer \<Rightarrow> int" where "low_freq d = dial_low_freqs ! nat (dl_row d)"

definition high_freq :: "dialer \<Rightarrow> int" where "high_freq d = dial_high_freqs ! nat (dl_col d)"

text \<open>The oscillators after \<open>n\<close> samples of a digit.\<close>

definition tuned :: "dialer \<Rightarrow> nat \<Rightarrow> bool" where
  "tuned d n \<longleftrightarrow> 0 \<le> dl_row d \<and> dl_row d < 4 \<and> 0 \<le> dl_col d \<and> dl_col d < 4 \<and>
     dl_inc_low d = phase_inc (low_freq d) \<and> dl_inc_high d = phase_inc (high_freq d) \<and>
     dl_phase_low d = of_int (phase_at 0 (low_freq d) n) \<and> dl_phase_high d = of_int (phase_at 8192 (high_freq d) n)"

definition spent :: "dialer \<Rightarrow> nat" where
  "spent d = nat (dc_dtmf_duration (dl_cfg d) * 8 - dl_silence d)"

definition playable :: "dialer \<Rightarrow> bool" where
  "playable d \<longleftrightarrow> scannable d \<and>
     (dl_progress_state d \<in> {9, 10} \<or>
      inside d \<and> (dl_progress_state d \<in> {0, 2, 4, 5, 6, 7, 8} \<or>
        dl_progress_state d = 1 \<and> tuned d (spent d) \<and> 0 < dl_silence d \<and> dl_silence d \<le> dc_dtmf_duration (dl_cfg d) * 8))"

definition future :: "(u16 \<Rightarrow> u16) \<Rightarrow> dialer \<Rightarrow> item list" where
  "future tone d =
     (let st = dl_progress_state d
      in if st = 0 then onward tone d
         else if st = 1 then burst tone (dl_cfg d) (dl_row d) (dl_col d) (spent d) @ closing_gap d @ onward tone d
         else if st = 2 \<or> st = 4 then quiet (dl_silence d) @ onward tone d
         else if st = 9 then [Notice DIALER_COMMAND]
         else if st = 10 then [Notice DIALER_DONE]
         else Notice (st - 4) # onward tone d)"

text \<open>A bound on the rounds before the next notice or the end of the buffer.\<close>

definition rank :: "int \<Rightarrow> nat" where
  "rank st = (if st = 1 then 2 else if st = 2 \<or> st = 4 then 1 else 0)"

definition work :: "dialer \<Rightarrow> nat" where
  "work d = nat (3 * (int (length (text_of d)) - dl_pos d)) + rank (dl_progress_state d)"

lemma job_simps [simp]:
  "text_of (d\<lparr>dl_silence := v\<rparr>) = text_of d" "text_of (d\<lparr>dl_progress_state := st\<rparr>) = text_of d"
  "text_of (d\<lparr>dl_phase_low := w\<rparr>) = text_of d" "text_of (d\<lparr>dl_phase_high := w\<rparr>) = text_of d"
  "text_of (d\<lparr>dl_inc_low := w\<rparr>) = text_of d" "text_of (d\<lparr>dl_inc_high := w\<rparr>) = text_of d"
  "rest_of (d\<lparr>dl_silence := v\<rparr>) = rest_of d" "rest_of (d\<lparr>dl_progress_state := st\<rparr>) = rest_of d"
  "rest_of (d\<lparr>dl_phase_low := w\<rparr>) = rest_of d" "rest_of (d\<lparr>dl_phase_high := w\<rparr>) = rest_of d"
  "rest_of (d\<lparr>dl_inc_low := w\<rparr>) = rest_of d" "rest_of (d\<lparr>dl_inc_high := w\<rparr>) = rest_of d"
  "inside (d\<lparr>dl_silence := v\<rparr>) = inside d" "inside (d\<lparr>dl_progress_state := st\<rparr>) = inside d"
  "inside (d\<lparr>dl_phase_low := w\<rparr>) = inside d" "inside (d\<lparr>dl_phase_high := w\<rparr>) = inside d"
  "inside (d\<lparr>dl_inc_low := w\<rparr>) = inside d" "inside (d\<lparr>dl_inc_high := w\<rparr>) = inside d"
  "scannable (d\<lparr>dl_silence := v\<rparr>) = scannable d" "scannable (d\<lparr>dl_progress_state := st\<rparr>) = scannable d"
  "scannable (d\<lparr>dl_phase_low := w\<rparr>) = scannable d" "scannable (d\<lparr>dl_phase_high := w\<rparr>) = scannable d"
  "scannable (d\<lparr>dl_inc_low := w\<rparr>) = scannable d" "scannable (d\<lparr>dl_inc_high := w\<rparr>) = scannable d"
  "scannable (d\<lparr>dl_repeat := q\<rparr>) = scannable d"
  by (simp_all add: text_of_def rest_of_def inside_def scannable_def)

lemma next_numbers [simp]:
  "NEXT_DIGIT = 1" "NEXT_GAP = 2" "NEXT_FLASH = 3" "NEXT_PAUSE = 4" "NEXT_COMMAND = 9" "NEXT_END = 10"
  by (simp_all add: NEXT_DIGIT_def NEXT_GAP_def NEXT_FLASH_def NEXT_PAUSE_def NEXT_COMMAND_def NEXT_END_def)

lemma rd_freqs:
  "0 \<le> r \<Longrightarrow> r < 4 \<Longrightarrow> rd_at dial_low_freqs (nat r) = Some (dial_low_freqs ! nat r)"
  "0 \<le> r \<Longrightarrow> r < 4 \<Longrightarrow> rd_at dial_high_freqs (nat r) = Some (dial_high_freqs ! nat r)"
  by (simp_all add: rd_at_def dial_low_freqs_def dial_high_freqs_def)

lemma pause_cap: "(if n > l then l else n) = min (n :: int) l"
  by (simp add: min_def)

lemma nat_three: "p < q \<Longrightarrow> p < n \<Longrightarrow> nat (3 * (n - q)) + 3 \<le> nat (3 * (n - p))" for n p q :: int
  by (simp only: zle_int [symmetric] of_nat_add int_nat_eq of_nat_numeral) auto

lemma begin_next_run:
  assumes d: "scannable d" "inside d"
  shows "\<exists>d'. begin_next d = Some d' \<and> playable d' \<and> future tone d' = onward tone d \<and>
    work d' < nat (3 * (int (length (text_of d)) - dl_pos d))"
proof -
  let ?d = "d\<lparr>dl_repeat := 1\<rparr>" and ?n = "length (dl_string d) + 1"
  have "length (text_of d) < length (dl_string d)" using text_cell(2) [of d 0] d(1) by (simp add: scannable_def)
  then have "length (rest_of ?d) < ?n" by (simp add: rest_of_def)
  then obtain nx e where e: "scan_from ?n ?d = Some (nx, e)" "same_job ?d e" "dl_pos d < dl_pos e" "found tone nx e (onward tone d)"
    using scan_run [of ?d ?n tone] d by auto
  note f = same_job_fields [OF e(2)]
  have sc: "scannable e" "tone_dialing e" "0 < dc_dtmf_duration (dl_cfg e)" using f(7) d(1) by (simp_all add: scannable_def)
  have w: "nat (3 * (int (length (text_of d)) - dl_pos e)) + 3 \<le> nat (3 * (int (length (text_of d)) - dl_pos d))"
    using e(3) d(2) by (intro nat_three) (simp_all add: inside_def)
  have run: "begin_next d = (case nx of n \<Rightarrow> do {
     d \<leftarrow> (if n = 1 then start_digit e else if n = 2 then Some (e\<lparr>dl_silence := dial_gap e\<rparr>)
       else if n = 3 then Some (e\<lparr>dl_pulse_started := 0\<rparr>)
       else if n = 4 then Some (e\<lparr>dl_silence := pause_length (dl_cfg e) (dl_repeat e)\<rparr>) else Some e);
     Some (d\<lparr>dl_progress_state := n\<rparr>) })"
    using e(1) by (simp add: begin_next_def GetNextDigitAndReturnNextState_def pause_length_def pause_cap Let_def del: scan_from.simps)
  consider "nx = 10" "onward tone d = [Notice DIALER_DONE]" | "nx = 9" "onward tone d = [Notice DIALER_COMMAND]"
    | "inside e" "nx = 1" "0 \<le> dl_row e" "dl_row e < 4" "0 \<le> dl_col e" "dl_col e < 4"
      "onward tone d = burst tone (dl_cfg e) (dl_row e) (dl_col e) 0 @ closing_gap e @ onward tone e"
    | "inside e" "nx = 4" "onward tone d = quiet (pause_length (dl_cfg e) (dl_repeat e)) @ onward tone e"
    | code where "inside e" "code \<in> {1, 2, 3, 4}" "nx = code + 4" "onward tone d = Notice code # onward tone e"
    using e(4) unfolding found_def next_numbers by blast
  then show ?thesis
  proof cases
    case 1
    then show ?thesis using run sc w f by (auto simp: playable_def future_def work_def rank_def)
  next
    case 2
    then show ?thesis using run sc w f by (auto simp: playable_def future_def work_def rank_def)
  next
    case 3
    then show ?thesis using run sc w f
      by (auto simp: playable_def future_def work_def rank_def start_digit_def rd_freqs tuned_def spent_def low_freq_def high_freq_def
          phase_at_def closing_gap_def)
  next
    case 4
    then show ?thesis using run sc w f by (auto simp: playable_def future_def work_def rank_def)
  next
    case 5
    then show ?thesis using run sc w f by (auto simp: playable_def future_def work_def rank_def)
  qed
qed

subsection \<open>Samples of a digit\<close>

lemma and_3fff: "x AND 0x3fff = x mod 2 ^ 14" for x :: int
  using take_bit_eq_mask [of 14 x] by (simp add: take_bit_eq_mod mask_eq_exp_minus_1)

lemma sint_of_cell: "0 \<le> i \<Longrightarrow> i < 32768 \<Longrightarrow> sint (of_int i :: u16) = i"
  by (simp flip: short_of_word)

lemma phase_range: "0 \<le> phase_at s f n \<and> phase_at s f n < 2 ^ 14"
  by (simp add: phase_at_def)

lemma phase_Suc: "(phase_at s f n + f * 16777 div 2 ^ 13) mod 2 ^ 14 = phase_at s f (Suc n)"
  unfolding phase_at_def by (simp add: mod_simps algebra_simps)

lemma sint_phase: "sint (of_int (phase_at s f n) :: u16) = phase_at s f n"
  using phase_range [of s f n] by (intro sint_of_cell) auto

lemma sint_inc: "0 \<le> f \<Longrightarrow> f \<le> 1633 \<Longrightarrow> sint (phase_inc f) = f * 16777 div 2 ^ 13"
  unfolding phase_inc_def drop_bit_eq_div by (intro sint_of_cell) auto

lemma freq_range:
  assumes "tuned d n"
  shows "0 \<le> low_freq d \<and> low_freq d \<le> 1633" and "0 \<le> high_freq d \<and> high_freq d \<le> 1633"
proof -
  have *: "x = 0 \<or> x = 1 \<or> x = 2 \<or> x = 3" if "0 \<le> x" "x < 4" for x :: int using that by auto
  have "dl_row d = 0 \<or> dl_row d = 1 \<or> dl_row d = 2 \<or> dl_row d = 3" "dl_col d = 0 \<or> dl_col d = 1 \<or> dl_col d = 2 \<or> dl_col d = 3"
    using assms by (intro *; simp add: tuned_def)+
  then show "0 \<le> low_freq d \<and> low_freq d \<le> 1633" "0 \<le> high_freq d \<and> high_freq d \<le> 1633"
    by (auto simp: low_freq_def high_freq_def dial_low_freqs_def dial_high_freqs_def)
qed

definition phased :: "nat \<Rightarrow> dialer \<Rightarrow> dialer" where
  "phased n d = d\<lparr>dl_phase_low := of_int (phase_at 0 (low_freq d) n), dl_phase_high := of_int (phase_at 8192 (high_freq d) n)\<rparr>"

lemma phased_same: "tuned d n \<Longrightarrow> phased n d = d"
  by (cases d) (simp add: phased_def tuned_def)

lemma phased_freqs [simp]: "low_freq (phased n d) = low_freq d" "high_freq (phased n d) = high_freq d"
  by (simp_all add: phased_def low_freq_def high_freq_def)

lemma phased_phased [simp]: "phased m (phased n d) = phased m d"
  by (simp add: phased_def low_freq_def high_freq_def)

lemma phased_tuned: "tuned d n \<Longrightarrow> tuned (phased m d) m"
  by (simp add: tuned_def) (simp add: phased_def)

lemma dtmf_sample_run:
  assumes "tuned d n"
  shows "dtmf_sample tone d = (tone_at tone (dl_cfg d) (dl_row d) (dl_col d) n, phased (Suc n) d)"
proof -
  have p: "dl_phase_low d = of_int (phase_at 0 (low_freq d) n)" "dl_phase_high d = of_int (phase_at 8192 (high_freq d) n)"
    and i: "dl_inc_low d = phase_inc (low_freq d)" "dl_inc_high d = phase_inc (high_freq d)" using assms by (simp_all add: tuned_def)
  have s: "(sint (of_int (phase_at s f n) :: u16) + sint (phase_inc f)) AND 0x3fff = phase_at s f (Suc n)" if "0 \<le> f" "f \<le> 1633" for s f
    unfolding sint_phase sint_inc [OF that] and_3fff by (rule phase_Suc)
  have lo: "(sint (dl_phase_low d) + sint (dl_inc_low d)) AND 0x3fff = phase_at 0 (low_freq d) (Suc n)"
    and hi: "(sint (dl_phase_high d) + sint (dl_inc_high d)) AND 0x3fff = phase_at 8192 (high_freq d) (Suc n)"
    unfolding p i using freq_range [OF assms] by (auto intro: s)
  show ?thesis
    unfolding dtmf_sample_def lo hi Let_def sint_phase drop_bit_eq_div
    by (simp add: tone_at_def sine_at_def phased_def low_freq_def high_freq_def)
qed

subsection \<open>Writing samples\<close>

definition put_at :: "nat \<Rightarrow> u16 list \<Rightarrow> u16 list \<Rightarrow> u16 list" where
  "put_at p xs buf = take p buf @ xs @ drop (p + length xs) buf"

lemma put_at_Nil [simp]: "put_at p [] buf = buf"
  by (simp add: put_at_def)

lemma length_put_at [simp]: "p + length xs \<le> length buf \<Longrightarrow> length (put_at p xs buf) = length buf"
  by (simp add: put_at_def)

lemma put_at_put_at:
  assumes "p + length xs + length ys \<le> length buf"
  shows "put_at (p + length xs) ys (put_at p xs buf) = put_at p (xs @ ys) buf"
proof -
  have "take (p + length xs) (put_at p xs buf) = take p buf @ xs" using assms by (simp add: put_at_def)
  moreover have "drop (p + length xs + length ys) (put_at p xs buf) = drop (p + length xs + length ys) buf"
    using assms by (simp add: put_at_def ac_simps)
  ultimately show ?thesis unfolding put_at_def [of "p + length xs"] put_at_def [of p "xs @ ys"] by (simp add: add.assoc)
qed

lemma filled_put: "a \<le> b \<Longrightarrow> filled a b g buf = put_at a (map g [a..<b]) buf"
  by (simp add: filled_def put_at_def)

text \<open>\<open>n\<close> cells from \<open>pos\<close> on, as the loops of the code bound them.\<close>

lemma for_cells_upto:
  assumes "0 \<le> pos" shows "for_cells pos (pos + int n - 1) f s = for_loop (nat pos) n f s" and "cells_after pos (pos + int n - 1) = pos + int n"
  using assms by (auto simp: for_cells_def cells_after_def)

lemma emit_silence_run:
  assumes "0 \<le> pos" and "nat pos + n \<le> length buf"
  shows "emit_silence buf pos (pos + int n - 1) = Some (put_at (nat pos) (replicate n 0) buf, pos + int n)"
proof -
  have "for_loop (nat pos) n (\<lambda>i buf. wr_at buf i 0) buf = Some (filled (nat pos) (nat pos + n) (\<lambda>_. 0) buf)"
    using assms by (intro for_fill) auto
  then show ?thesis
    unfolding emit_silence_def for_cells_upto [OF assms(1)] by (simp add: filled_put map_replicate_const)
qed

definition tones :: "(u16 \<Rightarrow> u16) \<Rightarrow> dialer \<Rightarrow> nat \<Rightarrow> nat \<Rightarrow> u16 list" where
  "tones tone d a b = map (tone_at tone (dl_cfg d) (dl_row d) (dl_col d)) [a..<b]"

lemma tone_cells_run:
  assumes "tuned d n" and "0 \<le> pos" and "nat pos + m \<le> length buf"
  shows "for_cells pos (pos + int m - 1)
      (\<lambda>i (d, buf). let (v, d) = dtmf_sample tone d in do { buf \<leftarrow> wr_at buf i v; Some (d, buf) }) (d, buf) =
    Some (phased (n + m) d, put_at (nat pos) (tones tone d n (n + m)) buf)"
proof -
  let ?p = "nat pos" and ?t = "\<lambda>k. tone_at tone (dl_cfg d) (dl_row d) (dl_col d) k"
  let ?f = "\<lambda>i (d, buf). let (v, d) = dtmf_sample tone d in do { buf \<leftarrow> wr_at buf i v; Some (d, buf) }"
  let ?g = "\<lambda>k. (phased (n + (k - ?p)) d, filled ?p k (\<lambda>k. ?t (n + (k - ?p))) buf)"
  have c: "dl_cfg (phased k d) = dl_cfg d" "dl_row (phased k d) = dl_row d" "dl_col (phased k d) = dl_col d" for k
    by (simp_all add: phased_def)
  have "for_loop ?p m ?f (d, buf) = Some (?g (?p + m))"
  proof (rule for_loop_eq)
    fix k assume k: "?p \<le> k" "k < ?p + m"
    then have "k < length buf" using assms(3) by simp
    moreover have "Suc (n + (k - ?p)) = n + (Suc k - ?p)" using k by simp
    ultimately show "?f k (?g k) = Some (?g (Suc k))"
      using dtmf_sample_run [OF phased_tuned [OF assms(1), of "n + (k - ?p)"], of tone] k assms(3)
      by (simp add: c mem_simps)
  qed (simp add: phased_same [OF assms(1)])
  moreover have "map (\<lambda>k. ?t (n + (k - ?p))) [?p..<?p + m] = tones tone d n (n + m)"
    unfolding tones_def by (intro nth_equalityI) simp_all
  ultimately show ?thesis unfolding for_cells_upto(1) [OF assms(2)] by (simp add: filled_put)
qed

subsection \<open>A round\<close>

definition advances :: "(u16 \<Rightarrow> u16) \<Rightarrow> int \<Rightarrow> dialer \<Rightarrow> int \<Rightarrow> u16 list \<Rightarrow> dialer \<Rightarrow> bool" where
  "advances tone limit d pos xs d' \<longleftrightarrow>
     playable d' \<and> future tone d = map Sample xs @ future tone d' \<and> pos + int (length xs) \<le> limit + 1 \<and>
     (pos + int (length xs) = limit + 1 \<or> work d' < work d)"

lemma phased_simps [simp]:
  "text_of (phased n d) = text_of d" "rest_of (phased n d) = rest_of d" "inside (phased n d) = inside d"
  "scannable (phased n d) = scannable d" "dl_cfg (phased n d) = dl_cfg d" "dl_row (phased n d) = dl_row d"
  "dl_col (phased n d) = dl_col d" "dl_silence (phased n d) = dl_silence d" "dl_pos (phased n d) = dl_pos d"
  "dl_last_digit (phased n d) = dl_last_digit d" "dl_progress_state (phased n d) = dl_progress_state d"
  by (simp_all add: phased_def)

lemma emit_silence_any:
  assumes "0 \<le> pos" and "nat pos + nat z \<le> length buf"
  shows "emit_silence buf pos (pos + z - 1) = Some (put_at (nat pos) (replicate (nat z) 0) buf, pos + int (nat z))"
proof (cases "0 \<le> z")
  case True
  then show ?thesis using emit_silence_run [OF assms] by simp
qed (simp add: emit_silence_def for_cells_def cells_after_def)

lemma quiet_split: "0 \<le> m \<Longrightarrow> m \<le> n \<Longrightarrow> quiet n = map Sample (replicate (nat m) 0) @ quiet (n - m)"
  by (simp add: quiet_def nat_diff_distrib flip: replicate_add)

lemma next_round:
  assumes d: "scannable d" "inside d" and f: "future tone d0 = map Sample xs @ onward tone d"
    and w: "nat (3 * (int (length (text_of d)) - dl_pos d)) \<le> work d0" and l: "pos + int (length xs) \<le> limit + 1"
  shows "\<exists>d'. begin_next d = Some d' \<and> advances tone limit d0 pos xs d'"
  using begin_next_run [OF d, of tone] f w l by (auto simp: advances_def)

lemma gap_run:
  assumes d: "playable d" "dl_progress_state d = 2 \<or> dl_progress_state d = 4"
    and p: "0 \<le> pos" "pos \<le> limit" "limit < int (length buf)"
  shows "\<exists>xs d'. gap_round limit (d, buf, pos) = Some (d', put_at (nat pos) xs buf, pos + int (length xs)) \<and> advances tone limit d pos xs d'"
proof (cases "dl_silence d > limit - pos + 1")
  case True
  let ?xs = "replicate (nat (limit - pos + 1)) (0 :: u16)" and ?d = "d\<lparr>dl_silence := dl_silence d - (limit - pos + 1)\<rparr>"
  have e: "emit_silence buf pos limit = Some (put_at (nat pos) ?xs buf, pos + int (length ?xs))"
    using emit_silence_any [of pos "limit - pos + 1" buf] p by simp
  have "gap_round limit (d, buf, pos) = Some (?d, put_at (nat pos) ?xs buf, pos + int (length ?xs))"
    using True e by (simp add: gap_round_def emit_gap_def Let_def)
  moreover have "playable ?d" using d by (auto simp: playable_def)
  moreover have "future tone d = map Sample ?xs @ future tone ?d"
    using quiet_split [of "limit - pos + 1" "dl_silence d"] True p d(2) by (auto simp: future_def Let_def)
  ultimately show ?thesis using p unfolding advances_def by (intro exI [of _ ?xs] exI [of _ ?d]) simp
next
  case False
  let ?xs = "replicate (nat (dl_silence d)) (0 :: u16)" and ?d = "d\<lparr>dl_silence := 0\<rparr>"
  have e: "emit_silence buf pos (pos + dl_silence d - 1) = Some (put_at (nat pos) ?xs buf, pos + int (length ?xs))"
    using emit_silence_any [of pos "dl_silence d" buf] p False by simp
  have "scannable ?d" "inside ?d" using d by (auto simp: playable_def)
  moreover have "future tone d = map Sample ?xs @ onward tone ?d" using d(2) by (auto simp: future_def Let_def quiet_def)
  moreover have "nat (3 * (int (length (text_of ?d)) - dl_pos ?d)) \<le> work d" by (simp add: work_def)
  moreover have "pos + int (length ?xs) \<le> limit + 1" using p False by auto
  ultimately obtain d' where "begin_next ?d = Some d'" "advances tone limit d pos ?xs d'"
    using next_round [of ?d tone d ?xs pos limit] by blast
  moreover have "gap_round limit (d, buf, pos) = map_option (\<lambda>d. (d, put_at (nat pos) ?xs buf, pos + int (length ?xs))) (begin_next ?d)"
    using False e by (simp add: gap_round_def emit_gap_def Let_def map_option_case option.case_eq_if split: option.splits) (auto split: Option.bind_split)
  ultimately show ?thesis by (intro exI [of _ ?xs] exI [of _ d']) simp
qed

lemma tone_burst_run:
  assumes d: "scannable d" "tuned d (spent d)" and p: "0 \<le> pos" "nat pos + n \<le> length buf"
    and n: "int n = (if dl_silence d > limit - pos + 1 then limit - pos + 1 else dl_silence d)"
  shows "tone_burst tone d buf pos limit =
    Some (phased (spent d + n) (d\<lparr>dl_silence := dl_silence d - int n\<rparr>), put_at (nat pos) (tones tone d (spent d) (spent d + n)) buf,
      pos + int n, \<not> dl_silence d > limit - pos + 1)"
proof -
  let ?d = "d\<lparr>dl_silence := dl_silence d - int n\<rparr>"
  have t: "tuned ?d (spent d)" using d(2) by (simp add: tuned_def low_freq_def high_freq_def)
  have e: "tones tone ?d a b = tones tone d a b" for a b by (simp add: tones_def)
  have c: "dl_pulse_active d = 0" "dc_dtmf_duration (dl_cfg d) \<noteq> 0" using d(1) by (simp_all add: scannable_def)
  have f: "for_cells pos (pos + int n - 1) (\<lambda>i (d, buf). let (v, d) = dtmf_sample tone d in do { buf \<leftarrow> wr_at buf i v; Some (d, buf) }) (?d, buf) =
      Some (phased (spent d + n) ?d, put_at (nat pos) (tones tone d (spent d) (spent d + n)) buf)"
    using tone_cells_run [OF t p, of tone] by (simp only: e)
  show ?thesis
  proof (cases "dl_silence d > limit - pos + 1")
    case True
    have l: "limit = pos + int n - 1" and r: "limit - pos + 1 = int n" using n True by simp_all
    show ?thesis
      unfolding tone_burst_def Let_def r using c True [unfolded r] f [folded l] for_cells_upto(2) [OF p(1), of n, folded l] r by (simp add: Let_def)
  next
    case False
    then have s: "dl_silence d = int n" using n by simp
    show ?thesis unfolding tone_burst_def Let_def using c False f for_cells_upto(2) [OF p(1), of n] by (simp add: Let_def s)
  qed
qed

lemma tone_run:
  assumes d: "playable d" "dl_progress_state d = 1" and p: "0 \<le> pos" "pos \<le> limit" "limit < int (length buf)"
  shows "\<exists>xs d'. digit_round tone limit (d, buf, pos) = Some (d', put_at (nat pos) xs buf, pos + int (length xs)) \<and> advances tone limit d pos xs d'"
proof -
  let ?long = "dl_silence d > limit - pos + 1" and ?dur = "nat (dc_dtmf_duration (dl_cfg d) * 8)"
  define n where "n = nat (if ?long then limit - pos + 1 else dl_silence d)"
  let ?xs = "tones tone d (spent d) (spent d + n)" and ?d = "phased (spent d + n) (d\<lparr>dl_silence := dl_silence d - int n\<rparr>)"
  have sc: "scannable d" "inside d" "tuned d (spent d)" "0 < dl_silence d" "dl_silence d \<le> dc_dtmf_duration (dl_cfg d) * 8" "tone_dialing d"
    using d by (auto simp: playable_def scannable_def)
  have n: "int n = (if ?long then limit - pos + 1 else dl_silence d)" "nat pos + n \<le> length buf" "pos + int n \<le> limit + 1"
    using p sc(4) by (auto simp: n_def)
  note run = tone_burst_run [OF sc(1,3) p(1) n(2,1), of tone]
  have len: "length ?xs = n" by (simp add: tones_def)
  have sp: "spent ?d = spent d + n" "spent d + n \<le> ?dur" using n(1) sc(4,5) p by (auto simp: spent_def split: if_splits)
  have b: "burst tone (dl_cfg d) (dl_row d) (dl_col d) (spent d) = map Sample ?xs @ burst tone (dl_cfg d) (dl_row d) (dl_col d) (spent d + n)"
    using sp(2) upt_add_eq_append [of "spent d" "spent d + n" "?dur - (spent d + n)"] by (simp add: burst_def tones_def)
  have fut: "future tone d = map Sample ?xs @ burst tone (dl_cfg d) (dl_row d) (dl_col d) (spent d + n) @ closing_gap d @ onward tone d"
    using d(2) b by (simp add: future_def)
  show ?thesis
  proof (cases ?long)
    case True
    have "digit_round tone limit (d, buf, pos) = Some (?d, put_at (nat pos) ?xs buf, pos + int n)"
      using run True sc(6) by (simp add: digit_round_def)
    moreover have "tuned ?d (spent d + n)" using sc(3) by (intro phased_tuned [of _ "spent d"]) (simp add: tuned_def low_freq_def high_freq_def)
    then have "playable ?d" using sc d(2) n(1) True p sp(1) by (simp add: playable_def)
    moreover have "future tone d = map Sample ?xs @ future tone ?d" using fut d(2) sp(1) by (simp add: future_def closing_gap_def)
    ultimately show ?thesis using len n(1) True unfolding advances_def by (intro exI [of _ ?xs] exI [of _ ?d]) simp
  next
    case False
    have dur: "spent d + n = ?dur" using n(1) False sc(4,5) by (simp add: spent_def)
    have round: "digit_round tone limit (d, buf, pos) = map_option (\<lambda>d. (d, put_at (nat pos) ?xs buf, pos + int n)) (digit_finished ?d)"
      using run False sc(6) by (simp add: digit_round_def map_option_case option.case_eq_if split: option.splits) (auto split: Option.bind_split)
    have fut': "future tone d = map Sample ?xs @ closing_gap d @ onward tone d" using fut unfolding dur by (simp add: burst_def)
    have "\<exists>d'. digit_finished ?d = Some d' \<and> advances tone limit d pos ?xs d'"
    proof (cases "dl_pos d = dl_last_digit d")
      case True
      then have "\<exists>d'. begin_next ?d = Some d' \<and> advances tone limit d pos ?xs d'"
        using fut' n(3) len sc by (intro next_round) (simp_all add: closing_gap_def work_def)
      then show ?thesis using True by (simp add: digit_finished_def)
    next
      case other: False
      let ?e = "?d\<lparr>dl_silence := dc_dtmf_gap (dl_cfg d) * 8, dl_progress_state := 2\<rparr>"
      have "digit_finished ?d = Some ?e" using other sc(6) by (simp add: digit_finished_def dial_gap_def)
      moreover have "playable ?e" using sc by (simp add: playable_def)
      moreover have "future tone ?e = closing_gap d @ onward tone d" using other by (simp add: future_def closing_gap_def)
      moreover have "work ?e < work d" using d(2) by (simp add: work_def rank_def)
      ultimately show ?thesis using fut' n(3) len unfolding advances_def by (intro exI [of _ ?e]) simp
    qed
    then show ?thesis using round len by (auto intro!: exI [of _ ?xs])
  qed
qed

subsection \<open>A call\<close>

lemma code_numbers:
  "DIALER_BUSY = 0" "DIALER_WAIT_DIALTONE = 1" "DIALER_WAIT_ANSWER = 2" "DIALER_WAIT_BONG = 3" "DIALER_CALLING_TONE = 4"
  "DIALER_COMMAND = 5" "DIALER_DONE = 6"
  by (simp_all add: DIALER_BUSY_def DIALER_WAIT_DIALTONE_def DIALER_WAIT_ANSWER_def DIALER_WAIT_BONG_def DIALER_CALLING_TONE_def
      DIALER_COMMAND_def DIALER_DONE_def)

text \<open>How a call ends: with its buffer full, or with a notice.\<close>

definition outcome :: "(u16 \<Rightarrow> u16) \<Rightarrow> dialer \<Rightarrow> u16 list \<Rightarrow> bool \<Rightarrow> int \<Rightarrow> dialer \<Rightarrow> bool" where
  "outcome tone d xs full code d' \<longleftrightarrow> playable d' \<and>
     (code = DIALER_BUSY \<and> full \<and> future tone d = map Sample xs @ future tone d' \<or>
      code \<in> {1, 2, 3, 4} \<and> future tone d = map Sample xs @ Notice code # future tone d' \<or>
      code \<in> {5, 6} \<and> future tone d = map Sample xs @ [Notice code])"

lemma release_nothing: "scannable d \<Longrightarrow> release_pulses d = d"
  by (simp add: release_pulses_def scannable_def)

lemma notice_round:
  assumes d: "playable d" "5 \<le> dl_progress_state d" and p: "pos \<le> limit"
  shows "\<exists>code d'. progress_round tone limit (d, buf, pos) = Some ((d', buf, pos), Some code) \<and> outcome tone d [] False code d'"
proof -
  let ?st = "dl_progress_state d"
  consider "?st = 5" | "?st = 6" | "?st = 7" | "?st = 8" | "?st = 9" | "?st = 10" using d by (auto simp: playable_def)
  then show ?thesis
    by cases (use d p in \<open>auto simp: progress_round_def outcome_def playable_def future_def code_numbers release_nothing\<close>)
qed

lemma sample_round:
  assumes d: "playable d" "dl_progress_state d < 5" and p: "0 \<le> pos" "pos \<le> limit" "limit < int (length buf)"
  shows "\<exists>xs d'. progress_round tone limit (d, buf, pos) = Some ((d', put_at (nat pos) xs buf, pos + int (length xs)), None) \<and> advances tone limit d pos xs d'"
proof -
  let ?st = "dl_progress_state d"
  consider "?st = 0" | "?st = 1" | "?st = 2 \<or> ?st = 4" using d by (auto simp: playable_def)
  then show ?thesis
  proof cases
    case 1
    then have "scannable d" "inside d" using d by (auto simp: playable_def)
    then obtain d' where "begin_next d = Some d'" "advances tone limit d pos [] d'"
      using next_round [of d tone d "[]" pos limit] 1 p by (auto simp: future_def work_def)
    then show ?thesis using 1 p by (intro exI [of _ "[]"] exI [of _ d']) (simp add: progress_round_def)
  next
    case 2
    then show ?thesis using tone_run [OF d(1) 2 p, of tone] p by (auto simp: progress_round_def)
  next
    case 3
    then show ?thesis using gap_run [OF d(1) 3 p, of tone] p by (auto simp: progress_round_def)
  qed
qed

lemma progress_run:
  assumes "playable d" and "0 \<le> pos" and "pos \<le> limit + 1" and "limit < int (length buf)"
  shows "\<exists>xs code d'. DialerProgress tone limit (d, buf, pos) = Some ((d', put_at (nat pos) xs buf, pos + int (length xs)), code) \<and>
    pos + int (length xs) \<le> limit + 1 \<and> outcome tone d xs (pos + int (length xs) = limit + 1) code d'"
  using assms
proof (induction "work d" arbitrary: d buf pos rule: less_induct)
  case less
  note unfold = DialerProgress.simps [of tone limit "(d, buf, pos)"]
  consider "pos = limit + 1" | "pos \<le> limit" "5 \<le> dl_progress_state d" | "pos \<le> limit" "dl_progress_state d < 5" using less.prems(3) by linarith
  then show ?case
  proof cases
    case 1
    then have "DialerProgress tone limit (d, buf, pos) = Some ((d, buf, pos), DIALER_BUSY)" by (subst unfold) (simp add: progress_round_def)
    then show ?thesis using 1 less.prems(1) by (intro exI [of _ "[]"] exI [of _ DIALER_BUSY] exI [of _ d]) (simp add: outcome_def)
  next
    case 2
    obtain code d' where r: "progress_round tone limit (d, buf, pos) = Some ((d', buf, pos), Some code)" "outcome tone d [] False code d'"
      using notice_round [OF less.prems(1) 2(2,1)] by blast
    then have "DialerProgress tone limit (d, buf, pos) = Some ((d', buf, pos), code)" by (subst unfold) simp
    then show ?thesis using r(2) 2 by (intro exI [of _ "[]"] exI [of _ code] exI [of _ d']) (auto simp: outcome_def)
  next
    case 3
    obtain xs e where r: "progress_round tone limit (d, buf, pos) = Some ((e, put_at (nat pos) xs buf, pos + int (length xs)), None)"
      and a: "advances tone limit d pos xs e"
      using sample_round [OF less.prems(1) 3(2) less.prems(2) 3(1) less.prems(4)] by blast
    let ?buf = "put_at (nat pos) xs buf" and ?pos = "pos + int (length xs)"
    have e: "playable e" "future tone d = map Sample xs @ future tone e" "?pos \<le> limit + 1" "?pos = limit + 1 \<or> work e < work d"
      using a by (simp_all add: advances_def)
    have step: "DialerProgress tone limit (d, buf, pos) = DialerProgress tone limit (e, ?buf, ?pos)" using r by (subst unfold) simp
    show ?thesis
    proof (cases "?pos = limit + 1")
      case True
      have "DialerProgress tone limit (e, ?buf, ?pos) = Some ((e, ?buf, ?pos), DIALER_BUSY)"
        using True by (subst DialerProgress.simps) (simp add: progress_round_def)
      then show ?thesis using step True e by (intro exI [of _ xs] exI [of _ DIALER_BUSY] exI [of _ e]) (simp add: outcome_def)
    next
      case False
      have len: "nat pos + length xs \<le> length buf" using e(3) less.prems(2,4) by linarith
      obtain ys code d' where y: "DialerProgress tone limit (e, ?buf, ?pos) = Some ((d', put_at (nat ?pos) ys ?buf, ?pos + int (length ys)), code)"
          "?pos + int (length ys) \<le> limit + 1" "outcome tone e ys (?pos + int (length ys) = limit + 1) code d'"
        using less.hyps [of e ?pos ?buf] False e less.prems(2,4) len by auto
      have "nat ?pos = nat pos + length xs" "nat pos + length xs + length ys \<le> length buf" using y(2) less.prems(2,4) by linarith+
      then have "put_at (nat ?pos) ys ?buf = put_at (nat pos) (xs @ ys) buf" by (simp add: put_at_put_at)
      moreover have "outcome tone d (xs @ ys) (pos + int (length (xs @ ys)) = limit + 1) code d'"
        using y(3) e(2) by (auto simp: outcome_def add.assoc)
      ultimately show ?thesis using step y(1,2) by (intro exI [of _ "xs @ ys"] exI [of _ code] exI [of _ d']) (simp add: add.assoc)
    qed
  qed
qed

end
