(* ===== verification/DialerProps.thy ===== *)
theory DialerProps
  imports DialerPlay "HOL-Library.Sublist"
begin

text \<open>
  The dialler as its caller uses it: created for a string, then called with one buffer after another.
\<close>

text \<open>What the calls give, one buffer of each size after another, until the string is out.\<close>

fun play :: "(u16 \<Rightarrow> u16) \<Rightarrow> nat list \<Rightarrow> dialer \<Rightarrow> item list option" where
  "play tone [] d = Some []"
| "play tone (n # ns) d = do {
     ((d, buf, pos), code) \<leftarrow> DialerProgress tone (int n - 1) (d, replicate n 0, 0);
     rest \<leftarrow> (if code = DIALER_COMMAND \<or> code = DIALER_DONE then Some [] else play tone ns d);
     Some (map Sample (take (nat pos) buf) @ (if code = DIALER_BUSY then [] else [Notice code]) @ rest)
   }"

definition plays :: "(u16 \<Rightarrow> u16) \<Rightarrow> dialer \<Rightarrow> item list \<Rightarrow> bool" where
  "plays tone d xs \<longleftrightarrow> (\<forall>ns. \<exists>ys. play tone ns d = Some ys \<and> prefix ys xs \<and> (0 \<notin> set ns \<and> length xs \<le> length ns \<longrightarrow> ys = xs))"

lemma play_run:
  assumes "playable d"
  shows "\<exists>ys. play tone ns d = Some ys \<and> prefix ys (future tone d) \<and> (0 \<notin> set ns \<longrightarrow> min (length ns) (length (future tone d)) \<le> length ys)"
  using assms
proof (induction ns arbitrary: d)
  case (Cons n ns)
  obtain xs code d' where r: "DialerProgress tone (int n - 1) (d, replicate n 0, 0) = Some ((d', put_at 0 xs (replicate n 0), int (length xs)), code)"
      "length xs \<le> n" "outcome tone d xs (length xs = n) code d'"
    using progress_run [OF Cons.prems, of 0 "int n - 1" "replicate n 0" tone] by auto
  have t: "take (length xs) (put_at 0 xs (replicate n 0)) = xs" by (simp add: put_at_def)
  obtain ys where y: "play tone ns d' = Some ys" "prefix ys (future tone d')"
      "0 \<notin> set ns \<longrightarrow> min (length ns) (length (future tone d')) \<le> length ys"
    using Cons.IH [of d'] r(3) by (auto simp: outcome_def)
  consider "code = 0" "length xs = n" "future tone d = map Sample xs @ future tone d'"
    | "code \<in> {1, 2, 3, 4}" "future tone d = map Sample xs @ Notice code # future tone d'"
    | "code \<in> {5, 6}" "future tone d = map Sample xs @ [Notice code]"
    using r(3) by (auto simp: outcome_def code_numbers)
  then show ?case
  proof cases
    case 1
    have "min (Suc (length ns)) (length xs + length (future tone d')) \<le> length xs + length ys" if "n \<noteq> 0" "0 \<notin> set ns"
      using y(3) that 1(2) by linarith
    then show ?thesis using 1 r(1) t y by (auto simp: code_numbers)
  next
    case 2
    then show ?thesis using r(1) t y by (auto simp: code_numbers)
  next
    case 3
    then show ?thesis using r(1) t by (auto simp: code_numbers)
  qed
qed simp

lemma playable_plays: "playable d \<Longrightarrow> plays tone d (future tone d)"
  unfolding plays_def
proof
  fix ns assume "playable d"
  then obtain ys where y: "play tone ns d = Some ys" "prefix ys (future tone d)"
      "0 \<notin> set ns \<longrightarrow> min (length ns) (length (future tone d)) \<le> length ys" using play_run by blast
  then have "0 \<notin> set ns \<and> length (future tone d) \<le> length ns \<longrightarrow> ys = future tone d"
    using prefix_length_le [OF y(2)] by (auto simp: prefix_def)
  then show "\<exists>ys. play tone ns d = Some ys \<and> prefix ys (future tone d) \<and> (0 \<notin> set ns \<and> length (future tone d) \<le> length ns \<longrightarrow> ys = future tone d)"
    using y by blast
qed

subsection \<open>The opening letter\<close>

lemma mode_parts [simp]:
  "key_of (cfg\<lparr>dc_tone_or_pulse := m\<rparr>) = key_of cfg" "notice_of (cfg\<lparr>dc_tone_or_pulse := m\<rparr>) = notice_of cfg"
  "burst tone (cfg\<lparr>dc_tone_or_pulse := m\<rparr>) = burst tone cfg" "pause_length (cfg\<lparr>dc_tone_or_pulse := m\<rparr>) = pause_length cfg"
  by (simp_all add: fun_eq_iff key_of_def notice_of_def burst_def tone_at_def pause_length_def)

lemma plan_mode [simp]: "plan tone (cfg\<lparr>dc_tone_or_pulse := m\<rparr>) stop i run s = plan tone cfg stop i run s"
  by (induction s arbitrary: i run) (simp_all cong: if_cong option.case_cong prod.case_cong)

text \<open>A dialler before its first character; \<open>T\<close> sets the mode before anything depends on it.\<close>

lemma tone_letters:
  "keypad (CHR ''T'') = None" "tone_key (CHR ''T'') = None" "in_table (CHR ''T'')" "CHR ''T'' \<noteq> NUL"
  "keypad (CHR ''t'') = None" "tone_key (CHR ''t'') = None" "in_table (CHR ''t'')" "CHR ''t'' \<noteq> NUL"
  by (simp_all add: keypad_def tone_key_def in_table_def NUL_def)

lemma opening_scan:
  assumes "dl_pos d = -1" and "NUL \<in> set (dl_string d)" and "text_of d = c # cs" and c: "c \<in> set ''Tt''"
  shows "scan_from (Suc n) d = scan_from n (set_mode 1 (d\<lparr>dl_pos := 0\<rparr>))"
proof -
  have "char_at d (dl_pos d + 1) = Some c" using next_char [OF assms(2)] assms by (simp add: inside_def rest_of_def)
  then have at: "char_at (d\<lparr>dl_pos := 0\<rparr>) 0 = Some c" using assms(1) by (simp add: char_at_def)
  have "c = CHR ''T'' \<or> c = CHR ''t''" using c by auto
  then have sc: "scan_char (d\<lparr>dl_pos := 0\<rparr>) c = Some (set_mode 1 (d\<lparr>dl_pos := 0\<rparr>), None)" and nz: "c \<noteq> NUL"
    by (elim disjE; simp add: scan_char_def mode_letter_def tone_letters)+
  show ?thesis using at sc nz assms(1) by (simp add: Let_def)
qed

definition at_start :: "dialer \<Rightarrow> bool" where
  "at_start d \<longleftrightarrow> dl_pos d = -1 \<and> dl_progress_state d = 0 \<and> NUL \<in> set (dl_string d) \<and>
     text_of d \<noteq> [] \<and> hd (text_of d) \<in> set ''Tt''"

lemma set_mode_simps [simp]:
  "set_mode m (d\<lparr>dl_pos := p\<rparr>) = (set_mode m d)\<lparr>dl_pos := p\<rparr>" "set_mode m (d\<lparr>dl_repeat := q\<rparr>) = (set_mode m d)\<lparr>dl_repeat := q\<rparr>"
  "set_mode m (set_mode n d) = set_mode m d" "text_of (set_mode m d) = text_of d" "dl_string (set_mode m d) = dl_string d"
  "dl_pos (set_mode m d) = dl_pos d" "dl_progress_state (set_mode m d) = dl_progress_state d"
  by (simp_all add: set_mode_def text_of_def)

lemma opening_next:
  assumes "at_start d"
  shows "begin_next d = begin_next (set_mode 1 d)"
proof -
  obtain c cs where c: "text_of d = c # cs" "c \<in> set ''Tt''" using assms by (cases "text_of d") (auto simp: at_start_def)
  have d: "dl_pos d = -1" "NUL \<in> set (dl_string d)" using assms by (simp_all add: at_start_def)
  have "scan_from (Suc n) (d\<lparr>dl_repeat := 1\<rparr>) = scan_from (Suc n) ((set_mode 1 d)\<lparr>dl_repeat := 1\<rparr>)" for n
    using opening_scan [of "d\<lparr>dl_repeat := 1\<rparr>" c cs n] opening_scan [of "(set_mode 1 d)\<lparr>dl_repeat := 1\<rparr>" c cs n] c d
    by (simp del: scan_from.simps)
  then show ?thesis unfolding begin_next_def GetNextDigitAndReturnNextState_def by (simp del: scan_from.simps)
qed

lemma opening_play:
  assumes "at_start d"
  shows "play tone ns d = play tone ns (set_mode 1 d)"
proof (induction ns)
  case (Cons n ns)
  show ?case
  proof (cases n)
    case 0
    have "DialerProgress tone (-1) (e, [], 0) = Some ((e, [], 0), DIALER_BUSY)" for e
      by (subst DialerProgress.simps) (simp add: progress_round_def)
    then show ?thesis using Cons 0 by (simp add: code_numbers)
  next
    case (Suc k)
    have "progress_round tone (int n - 1) (d, buf, 0) = progress_round tone (int n - 1) (set_mode 1 d, buf, 0)" for buf
      using assms Suc by (simp add: progress_round_def opening_next [OF assms]) (simp add: at_start_def opening_next [OF assms])
    then have "DialerProgress tone (int n - 1) (d, buf, 0) = DialerProgress tone (int n - 1) (set_mode 1 d, buf, 0)" for buf
      by (subst (1 2) DialerProgress.simps) simp
    then show ?thesis by simp
  qed
qed simp

subsection \<open>A created dialler\<close>

lemma copy_run: "copy_string s dst = (if length s < length dst then Some (s @ NUL # drop (length s + 1) dst) else None)"
proof (cases "length s < length dst")
  case True
  then have "copy_string s dst = Some (filled 0 (0 + (length s + 1)) (\<lambda>i. (s @ [NUL]) ! i) dst)"
    unfolding copy_string_def by (intro for_fill) auto
  moreover have "map (\<lambda>i. (s @ [NUL]) ! i) [0..<length s + 1] = s @ [NUL]"
    using map_nth [of "s @ [NUL]"] by simp
  ultimately show ?thesis using True by (simp add: filled_def del: upt_Suc)
next
  case False
  have "for_loop i n (\<lambda>i dst. wr_at dst i (g i)) xs = None" if "length xs < i + n" "i \<le> length xs" for i n g and xs :: "'b list"
    using that
  proof (induction n arbitrary: i xs)
    case (Suc n)
    then show ?case by (cases "i < length xs") (auto simp: wr_at_def)
  qed simp
  from this [of dst 0 "length s + 1"] show ?thesis using False by (simp add: copy_string_def)
qed

text \<open>The place of the last character that is dialled, \<open>-2\<close> for none.\<close>

definition final_key :: "dialer_cfg \<Rightarrow> string \<Rightarrow> int" where
  "final_key cfg s = (case filter (\<lambda>i. dialable_symbol cfg (s ! i)) [1..<length s] of [] \<Rightarrow> -2 | i # is \<Rightarrow> int (last (i # is)))"

lemma analyse_last:
  "snd (analyse_loop cfg tone (int n) cs (g, l)) =
    (case filter (\<lambda>i. dialable_symbol cfg (cs ! (i - n))) [n..<n + length cs] of [] \<Rightarrow> l | i # is \<Rightarrow> int (last (i # is)))"
proof (induction cs arbitrary: n g l)
  case (Cons c cs)
  have e: "filter (\<lambda>i. dialable_symbol cfg ((c # cs) ! (i - n))) [Suc n..<n + length (c # cs)] =
      filter (\<lambda>i. dialable_symbol cfg (cs ! (i - Suc n))) [Suc n..<Suc n + length cs]"
    by (rule filter_cong) (auto simp: Suc_diff_le nth_Cons')
  have u: "[n..<n + length (c # cs)] = n # [Suc n..<n + length (c # cs)]" by (rule upt_conv_Cons) simp
  show ?case unfolding u filter.simps e
    using Cons.IH [of "Suc n"] by (auto simp: algebra_simps split: list.split)
qed simp

definition grade_of :: "dialer_cfg \<Rightarrow> string \<Rightarrow> int" where
  "grade_of cfg s =
     (if length s > DIALER_MAX_STRING then DIALER_FATAL else if s = [] then DIALER_VALID
      else if hd s \<notin> set ''tTpP'' then DIALER_INVALID
      else fst (analyse_loop cfg (hd s \<in> set ''tT'') 1 (tl s) (DIALER_VALID, -2)))"

lemma analyse_run:
  assumes "s \<noteq> []" and "DIALER_INVALID < grade_of (dl_cfg d) s"
  shows "AnalyseDialString d (Some s) True = (grade_of (dl_cfg d) s, d\<lparr>dl_last_digit := final_key (dl_cfg d) s\<rparr>)"
proof -
  obtain c cs where s: "s = c # cs" using assms(1) by (cases s) auto
  have "filter (\<lambda>i. dialable_symbol (dl_cfg d) (s ! i)) [1..<length s] = filter (\<lambda>i. dialable_symbol (dl_cfg d) (cs ! (i - 1))) [1..<1 + length cs]"
    unfolding s by (rule filter_cong) (auto simp: nth_Cons' simp del: upt_Suc)
  then have k: "final_key (dl_cfg d) s = snd (analyse_loop (dl_cfg d) tone 1 (tl s) (g, -2))" for tone g
    using analyse_last [of "dl_cfg d" tone 1 cs g "-2"] by (simp add: final_key_def s del: upt_Suc)
  have "length s \<le> DIALER_MAX_STRING" "hd s \<in> set ''tTpP''"
    using assms by (auto simp: grade_of_def DIALER_INVALID_def DIALER_FATAL_def split: if_splits)
  then show ?thesis using assms(1) unfolding AnalyseDialString_def grade_of_def k [of "hd s \<in> set ''tT''" DIALER_VALID]
    by (simp add: split_beta Let_def)
qed

lemma analyse_fails:
  assumes "grade_of (dl_cfg d) s \<le> DIALER_INVALID"
  shows "fst (AnalyseDialString d (Some s) True) = grade_of (dl_cfg d) s"
  using assms by (simp add: AnalyseDialString_def grade_of_def split_beta Let_def)

text \<open>What creation makes of a string that is not rejected.\<close>

definition created :: "dialer \<Rightarrow> string \<Rightarrow> line \<Rightarrow> dialer" where
  "created d s modem = d\<lparr>dl_string := s @ NUL # drop (length s + 1) (dl_string d),
     dl_cfg := GetDialerConfig modem, dl_last_digit := final_key (GetDialerConfig modem) s, dl_grade := grade_of (GetDialerConfig modem) s,
     dl_pos := -1, dl_row := 0, dl_col := 0, dl_progress_state := 0, dl_silence := 0, dl_pulse_started := 0, dl_pulse_active := 0,
     dl_pulse_released := 0,
     dl_modem := SetPulseBreakTime (ln_param modem GetPulseDialBreakTime) (SetPulseMakeTime (ln_param modem GetPulseDialMakeTime) modem)\<rparr>"

lemma create_run:
  assumes "s \<noteq> []" and "DIALER_INVALID < grade_of (GetDialerConfig modem) s"
  shows "DialerCreate d (Some s) modem = (if length s < length (dl_string d) then Some (0, created d s modem) else None)"
  using assms by (cases d) (simp add: DialerCreate_def Let_def analyse_run copy_run created_def, simp add: GetDialerConfig_def Let_def)

lemma create_rejects:
  assumes "grade_of (GetDialerConfig modem) s \<le> DIALER_INVALID"
  shows "\<exists>d'. DialerCreate d (Some s) modem = Some (DIALER_CREATE_REJECTED, d')"
  using assms by (simp add: DialerCreate_def Let_def split_beta analyse_fails)

lemma takeWhile_text: "NUL \<notin> set s \<Longrightarrow> takeWhile (\<lambda>c. c \<noteq> NUL) (s @ NUL # xs) = s"
  by (induction s) auto

lemma created_text: "NUL \<notin> set s \<Longrightarrow> text_of (created d s modem) = s"
  by (simp add: created_def text_of_def takeWhile_text)

text \<open>C6: the calls that follow the creation of a tone dialler give exactly what its string asks for: for each key its
  two tones for the dialling time and, but for the last, the gap, for commas a pause, for modifiers their notice. However
  the caller cuts the samples into buffers, every call returns, and enough calls give all of it.\<close>

theorem dialer_plays_script:
  assumes s: "s = c # cs" "c \<in> set ''Tt''" "NUL \<notin> set s" "length s < length (dl_string d)"
    and g: "DIALER_INVALID < grade_of (GetDialerConfig modem) s" "0 < dc_dtmf_duration (GetDialerConfig modem)"
    and t: "tones_only (GetDialerConfig modem) s"
  shows "\<exists>d'. DialerCreate d (Some s) modem = Some (0, d') \<and>
    plays tone d' (plan tone (GetDialerConfig modem) (final_key (GetDialerConfig modem) s) 0 1 s)"
proof -
  let ?d = "created d s modem" and ?e = "set_mode 1 (created d s modem)" and ?cfg = "GetDialerConfig modem"
  have str: "text_of ?d = s" "NUL \<in> set (dl_string ?d)" using created_text [OF s(3)] by (simp_all add: created_def)
  have cfg: "dl_cfg ?e = ?cfg\<lparr>dc_tone_or_pulse := 1\<rparr>" by (simp add: set_mode_def created_def)
  have rest: "rest_of ?e = s" using str by (simp add: rest_of_def) (simp add: created_def)
  have "playable ?e"
    using str g(2) t by (simp add: playable_def scannable_def cfg inside_def tones_only_def) (simp add: created_def set_mode_def)
  moreover have "future tone ?e = plan tone ?cfg (final_key ?cfg s) 0 1 s"
    using rest by (simp add: future_def cfg) (simp add: created_def set_mode_def)
  ultimately have "plays tone ?e (plan tone ?cfg (final_key ?cfg s) 0 1 s)" using playable_plays [of ?e tone] by simp
  moreover have "at_start ?d" using str s(1,2) by (simp add: at_start_def) (simp add: created_def)
  ultimately have "plays tone ?d (plan tone ?cfg (final_key ?cfg s) 0 1 s)" by (simp add: plays_def opening_play)
  then show ?thesis using create_run [of s modem d] s(1,4) g(1) by simp
qed

definition sample_modem :: line where
  "sample_modem = \<lparr>ln_param = (\<lambda>p. of_bool (p = GetDTMFDialSpeed)), ln_call = None, ln_set = []\<rparr>"

definition sample_dialer :: dialer where
  "sample_dialer = \<lparr>dl_string = replicate 100 NUL, dl_cfg = GetDialerConfig sample_modem, dl_last_digit = 0, dl_grade = 0,
     dl_repeat = 0, dl_pos = 0, dl_row = 0, dl_col = 0, dl_progress_state = 0, dl_silence = 0, dl_phase_low = 0, dl_phase_high = 0,
     dl_inc_low = 0, dl_inc_high = 0, dl_pulse_started = 0, dl_pulse_active = 0, dl_pulse_released = 0, dl_modem = sample_modem\<rparr>"

lemma dialer_plays_script_witness:
  "\<exists>d'. DialerCreate sample_dialer (Some ''T1,W2;'') sample_modem = Some (0, d') \<and>
    plays (\<lambda>i. i) d' (plan (\<lambda>i. i) (GetDialerConfig sample_modem) (final_key (GetDialerConfig sample_modem) ''T1,W2;'') 0 1 ''T1,W2;'')"
proof (rule dialer_plays_script [where c = "CHR ''T''" and cs = "''1,W2;''"])
  show "DIALER_INVALID < grade_of (GetDialerConfig sample_modem) ''T1,W2;''" by code_simp
  show "0 < dc_dtmf_duration (GetDialerConfig sample_modem)" by code_simp
  show "tones_only (GetDialerConfig sample_modem) ''T1,W2;''" by (simp add: tones_only_def)
qed (simp_all add: NUL_def sample_dialer_def)

text \<open>C24: a string of fewer than a hundred characters that is not rejected is stored with its terminator; one of exactly
  a hundred passes the length test as well, and copying it writes its terminator past the end of the array.\<close>

theorem dial_string_overflow:
  assumes "length (dl_string d) = DIALER_MAX_STRING" and "s \<noteq> []" and "NUL \<notin> set s"
  shows "if grade_of (GetDialerConfig modem) s \<le> DIALER_INVALID
     then \<exists>d'. DialerCreate d (Some s) modem = Some (DIALER_CREATE_REJECTED, d')
     else if length s = DIALER_MAX_STRING then DialerCreate d (Some s) modem = None
     else \<exists>d'. DialerCreate d (Some s) modem = Some (0, d') \<and> text_of d' = s"
proof -
  have "length s \<le> DIALER_MAX_STRING" if "DIALER_INVALID < grade_of (GetDialerConfig modem) s"
    using that by (auto simp: grade_of_def DIALER_INVALID_def DIALER_FATAL_def split: if_splits)
  then show ?thesis using assms create_run [of s modem d] create_rejects [of modem s d] created_text [of s d modem]
    by (cases "DIALER_INVALID < grade_of (GetDialerConfig modem) s") (auto simp: not_less)
qed

lemma dial_string_overflow_witness:
  "DialerCreate sample_dialer (Some (''T'' @ replicate 99 (CHR ''1''))) sample_modem = None"
proof -
  have "\<not> grade_of (GetDialerConfig sample_modem) (''T'' @ replicate 99 (CHR ''1'')) \<le> DIALER_INVALID" by code_simp
  then show ?thesis
    using dial_string_overflow [of sample_dialer "''T'' @ replicate 99 (CHR ''1'')" sample_modem]
    by (simp add: sample_dialer_def DIALER_MAX_STRING_def NUL_def)
qed

end
