(* ===== verification/ToneIir.thy ===== *)
theory ToneIir
  imports Prelude CLoops
begin

unbundle bit_operations_syntax

text \<open>
  The tone filter of the call-progress detectors, \<^verbatim>\<open>src/callprog/toneiir.c\<close>, with the two functions it
  and the detectors take from \<^verbatim>\<open>src/dsp/FP_math.c\<close>: four cascaded second-order sections in
  16-bit arithmetic, two envelopes, and at the end of each interval a verdict. A null table is the empty
  list; a shift by a count outside 0 to 31 is undefined and so \<open>None\<close>.
\<close>

subsection \<open>Fixed-point helpers\<close>

text \<open>The subtractions until nothing remains, counted in a wrapping \<open>short\<close>; with a zero step they never end.\<close>

partial_function (option) fp_steps :: "int \<Rightarrow> int \<Rightarrow> u16 \<Rightarrow> u16 option" where
  "fp_steps step remaining count =
     (let remaining = remaining + step; count = count + 1
      in if remaining > 0 then fp_steps step remaining count else Some count)"

definition GetFP_Value :: "u16 \<Rightarrow> u16 \<Rightarrow> u16 option" where
  "GetFP_Value a b = do {
     let remaining = \<bar>sint a\<bar> * 2 ^ 14;
     count \<leftarrow> (if remaining > 0 then fp_steps (- \<bar>sint b\<bar>) remaining 0 else Some 0);
     Some (if sint a * sint b > 0 then count else - count)
   }"

definition ThresholdsTable :: "int list" where
  "ThresholdsTable = [90, 92, 96, 97, 99, 102, 185, 188, 190, 250, 280, 285, 370, 390, 470, 560]"

definition Get_Detection_Threshold_Table :: "u16 \<Rightarrow> u16 option" where
  "Get_Detection_Threshold_Table level =
     (let i = sint (of_int (45 - sint level) :: u16)
      in if i < 0 then None else map_option of_int (rd_at ThresholdsTable (nat i)))"

subsection \<open>The object\<close>

definition IIR_FILTER_MAX_COEFF :: int where "IIR_FILTER_MAX_COEFF = 25"
definition IIR_FILTER_COEFF :: int where "IIR_FILTER_COEFF = 12"

definition TONEIIR_UNDECIDED :: int where "TONEIIR_UNDECIDED = 0"
definition TONEIIR_ABSENT :: int where "TONEIIR_ABSENT = 1"
definition TONEIIR_PRESENT :: int where "TONEIIR_PRESENT = 2"

record toneiir_cfg =
  ti_a :: "u16 list"
  ti_b :: "u16 list"
  ti_n_a :: int
  ti_n_b :: int
  ti_interval :: int
  ti_stability :: u16
  ti_status :: u16
  ti_threshold :: int
  ti_duration_ms :: int
  ti_gap_tolerance :: int
  ti_keep_on_gap :: int
  ti_scales :: "u16 list"

record toneiir =
  tn_cfg :: toneiir_cfg
  tn_n :: int
  tn_x :: "u16 list"
  tn_y :: "u16 list"
  tn_env_in :: u16
  tn_env_band :: u16
  tn_env_prev :: u16
  tn_need :: int
  tn_total :: int
  tn_run :: int

definition toneiir_get_default_configuration :: toneiir_cfg where
  "toneiir_get_default_configuration =
     \<lparr>ti_a = replicate 12 0, ti_b = replicate 12 0, ti_n_a = 12, ti_n_b = 12, ti_interval = 500, ti_stability = 11467,
      ti_status = 2, ti_threshold = 80, ti_duration_ms = 2200, ti_gap_tolerance = 4, ti_keep_on_gap = 0,
      ti_scales = replicate 5 0\<rparr>"

text \<open>The start of an interval: the band envelope becomes the one to compare with.\<close>

definition fresh_interval :: "toneiir \<Rightarrow> toneiir" where
  "fresh_interval st = st\<lparr>tn_n := 0, tn_env_band := 0, tn_env_prev := tn_env_band st, tn_env_in := 0\<rparr>"

definition clamp_count :: "int \<Rightarrow> int" where
  "clamp_count n = (if n > IIR_FILTER_MAX_COEFF - 1 then IIR_FILTER_MAX_COEFF else n)"

text \<open>
  \<open>st\<close> is the object passed in, \<open>heap\<close> what \<^verbatim>\<open>malloc\<close> gives if it is null, its contents
  undetermined; the result is \<open>Some None\<close> for a null pointer.
\<close>

definition toneiir_create :: "toneiir option \<Rightarrow> toneiir option \<Rightarrow> toneiir_cfg option \<Rightarrow> toneiir option option" where
  "toneiir_create st heap cfg =
     (case (if st = None then heap else st) of None \<Rightarrow> Some None
      | Some st \<Rightarrow>
        (let cfg = (case cfg of None \<Rightarrow> toneiir_get_default_configuration | Some cfg \<Rightarrow> cfg);
             cfg = cfg\<lparr>ti_n_b := clamp_count (ti_n_b cfg), ti_n_a := clamp_count (ti_n_a cfg)\<rparr>;
             st = fresh_interval (st\<lparr>tn_cfg := cfg\<rparr>)
         in do {
           x \<leftarrow> for_loop 0 (nat (ti_n_b cfg)) (\<lambda>i x. wr_at x i 0) (tn_x st);
           y \<leftarrow> for_loop 0 (nat (ti_n_a cfg)) (\<lambda>i y. wr_at y i 0) (tn_y st);
           scale \<leftarrow> GetFP_Value 8 (of_int (ti_interval cfg));
           Some (Some (st\<lparr>tn_x := x, tn_y := y, tn_need := drop_bit 14 (sint scale * ti_duration_ms cfg), tn_total := 0, tn_run := 0\<rparr>))
         }))"

definition toneiir_reset :: "toneiir \<Rightarrow> toneiir" where
  "toneiir_reset st = (fresh_interval st)\<lparr>tn_total := 0, tn_run := 0\<rparr>"

subsection \<open>A sample\<close>

definition shr :: "int \<Rightarrow> u16 \<Rightarrow> int option" where
  "shr v k = (if 0 \<le> sint k \<and> sint k < 32 then Some (drop_bit (nat (sint k)) v) else None)"

definition mac :: "u16 list \<Rightarrow> nat \<Rightarrow> u16 list \<Rightarrow> nat \<Rightarrow> u32 option" where
  "mac xs i cs j = do { x \<leftarrow> rd_at xs i; c \<leftarrow> rd_at cs j; Some (of_int (sint x * sint c)) }"

text \<open>Section \<open>s\<close>, from and to the histories and the value between the sections.\<close>

definition iir_section :: "u16 list \<Rightarrow> u16 list \<Rightarrow> u16 list \<Rightarrow> nat \<Rightarrow> u16 list \<times> u16 list \<times> int \<Rightarrow> (u16 list \<times> u16 list \<times> int) option" where
  "iir_section a b scales s = (\<lambda>(x, y, v). do {
     x \<leftarrow> wr_at x (3 * s) (of_int v);
     acc \<leftarrow> for_loop 0 3 (\<lambda>k acc. do { p \<leftarrow> mac x (3 * s + k) b (3 * s + k); Some (acc + p) }) 0;
     acc \<leftarrow> for_loop 1 2 (\<lambda>k acc. do { p \<leftarrow> mac y (2 * s + (k - 1)) a (3 * s + k); Some (acc - p) }) acc;
     let v = (of_int (drop_bit 13 (sint acc)) :: u16);
     x1 \<leftarrow> rd_at x (3 * s + 1);
     x \<leftarrow> wr_at x (3 * s + 2) x1;
     x0 \<leftarrow> rd_at x (3 * s);
     x \<leftarrow> wr_at x (3 * s + 1) x0;
     y0 \<leftarrow> rd_at y (2 * s);
     y \<leftarrow> wr_at y (2 * s + 1) y0;
     y \<leftarrow> wr_at y (2 * s) v;
     k \<leftarrow> rd_at scales (s + 1);
     v \<leftarrow> (if s < 3 \<or> sint k > 0 then shr (sint v) k else Some (sint v));
     Some (x, y, v)
   })"

definition iir_cascade :: "u16 list \<Rightarrow> u16 list \<Rightarrow> u16 list \<Rightarrow> u16 list \<Rightarrow> u16 list \<Rightarrow> u16 \<Rightarrow> (u16 list \<times> u16 list \<times> u16) option" where
  "iir_cascade a b scales x y sample = do {
     k \<leftarrow> rd_at scales 0;
     v \<leftarrow> shr (sint sample) k;
     (x, y, v) \<leftarrow> for_loop 0 4 (iir_section a b scales) (x, y, v);
     Some (x, y, of_int v)
   }"

subsection \<open>The filter alone\<close>

record iir_filter =
  ii_x :: "u16 list"
  ii_y :: "u16 list"
  ii_a :: "u16 list"
  ii_b :: "u16 list"
  ii_shift :: "u16 list"
  ii_n_b :: int
  ii_n_a_minus_1 :: int

definition copy_cells :: "nat \<Rightarrow> u16 list \<Rightarrow> u16 list \<Rightarrow> u16 list option" where
  "copy_cells n src dst = for_loop 0 n (\<lambda>i dst. do { v \<leftarrow> rd_at src i; wr_at dst i v }) dst"

definition iir_filter_create :: "iir_filter option \<Rightarrow> iir_filter option \<Rightarrow> int \<Rightarrow> int \<Rightarrow> u16 list \<Rightarrow> u16 list \<Rightarrow> u16 list \<Rightarrow> iir_filter option" where
  "iir_filter_create f heap n_a n_b a b shift = do {
     f \<leftarrow> (if f = None then heap else f);
     x \<leftarrow> copy_cells 25 (replicate 25 0) (ii_x f);
     y \<leftarrow> copy_cells 25 (replicate 25 0) (ii_y f);
     a \<leftarrow> copy_cells (nat n_a) a (ii_a f);
     b \<leftarrow> copy_cells (nat n_b) b (ii_b f);
     shift \<leftarrow> copy_cells 5 shift (ii_shift f);
     Some (f\<lparr>ii_x := x, ii_y := y, ii_a := a, ii_b := b, ii_shift := shift, ii_n_b := n_b, ii_n_a_minus_1 := n_a - 1\<rparr>)
   }"

definition iir_filter_progress :: "iir_filter \<Rightarrow> nat \<Rightarrow> u16 list \<Rightarrow> (iir_filter \<times> u16 list) option" where
  "iir_filter_progress f count samples = for_loop 0 count (\<lambda>i (f, samples). do {
     v \<leftarrow> rd_at samples i;
     (x, y, v) \<leftarrow> iir_cascade (ii_a f) (ii_b f) (ii_shift f) (ii_x f) (ii_y f) v;
     samples \<leftarrow> wr_at samples i v;
     Some (f\<lparr>ii_x := x, ii_y := y\<rparr>, samples)
   }) (f, samples)"

subsection \<open>Verdicts\<close>

definition envelope :: "u16 \<Rightarrow> int \<Rightarrow> u16" where
  "envelope env x = of_int (\<bar>drop_bit 14 (164 * x)\<bar> + \<bar>drop_bit 14 (16220 * sint env)\<bar>)"

definition tone_present :: "toneiir \<Rightarrow> bool" where
  "tone_present st =
     (let band = sint (tn_env_band st); prev = sint (tn_env_prev st); stability = sint (ti_stability (tn_cfg st))
      in band \<ge> drop_bit 2 (sint (tn_env_in st)) \<and> band \<ge> drop_bit 14 (prev * stability) \<and>
         prev \<ge> drop_bit 14 (band * stability) \<and> \<not> band < sint (of_int (ti_threshold (tn_cfg st)) :: u16))"

definition count_interval :: "bool \<Rightarrow> toneiir \<Rightarrow> toneiir" where
  "count_interval present st =
     (if present then st\<lparr>tn_run := tn_run st + 1, tn_total := tn_total st + 1\<rparr>
      else if tn_run st > ti_gap_tolerance (tn_cfg st) then st\<lparr>tn_total := tn_total st + 1, tn_run := 0\<rparr>
      else if ti_keep_on_gap (tn_cfg st) = 0 then st\<lparr>tn_run := 0, tn_total := 0\<rparr> else st)"

definition end_interval :: "toneiir \<Rightarrow> toneiir \<times> int" where
  "end_interval st =
     (let st = st\<lparr>tn_cfg := (tn_cfg st)\<lparr>ti_status := 2\<rparr>\<rparr>;
          present = tone_present st;
          st = count_interval present st;
          result = (if tn_total st > tn_need st \<and> present then TONEIIR_PRESENT else TONEIIR_ABSENT)
      in (fresh_interval st, result))"

definition toneiir_progress :: "toneiir \<Rightarrow> u16 \<Rightarrow> (toneiir \<times> int) option" where
  "toneiir_progress st sample = do {
     let cfg = tn_cfg st;
     (x, y, v) \<leftarrow> iir_cascade (ti_a cfg) (ti_b cfg) (ti_scales cfg) (tn_x st) (tn_y st) sample;
     let st = st\<lparr>tn_x := x, tn_y := y, tn_env_band := envelope (tn_env_band st) (sint v),
       tn_env_in := envelope (tn_env_in st) (sint sample), tn_n := tn_n st + 1\<rparr>;
     Some (if tn_n st \<noteq> ti_interval (tn_cfg st) then (st, TONEIIR_UNDECIDED) else end_interval st)
   }"

subsection \<open>Memory\<close>

definition tables_ok :: "u16 list \<Rightarrow> u16 list \<Rightarrow> u16 list \<Rightarrow> bool" where
  "tables_ok a b scales \<longleftrightarrow> 12 \<le> length a \<and> 12 \<le> length b \<and> 5 \<le> length scales \<and> list_all (\<lambda>k. 0 \<le> sint k \<and> sint k < 32) scales"

definition tone_cfg_ok :: "toneiir_cfg \<Rightarrow> bool" where
  "tone_cfg_ok cfg \<longleftrightarrow> tables_ok (ti_a cfg) (ti_b cfg) (ti_scales cfg) \<and> 0 < ti_interval cfg"

definition tone_ok :: "toneiir \<Rightarrow> bool" where
  "tone_ok st \<longleftrightarrow> tone_cfg_ok (tn_cfg st) \<and> length (tn_x st) = 25 \<and> length (tn_y st) = 25 \<and>
     0 \<le> tn_n st \<and> tn_n st < ti_interval (tn_cfg st)"

lemma scale_ok: "tables_ok a b scales \<Longrightarrow> k < 5 \<Longrightarrow> \<exists>c. rd_at scales k = Some c \<and> 0 \<le> sint c \<and> sint c < 32"
  by (auto simp: tables_ok_def rd_at_def list_all_iff)

lemma mac_ok: "i < length xs \<Longrightarrow> j < length cs \<Longrightarrow> \<exists>p. mac xs i cs j = Some p"
  by (simp add: mac_def mem_simps)

lemma iir_section_ok:
  assumes "tables_ok a b scales" and "s < 4" and "length x = 25" and "length y = 25"
  shows "\<exists>x' y' v'. iir_section a b scales s (x, y, v) = Some (x', y', v') \<and> length x' = 25 \<and> length y' = 25"
proof -
  let ?x = "x[3 * s := of_int v]"
  let ?f = "\<lambda>k acc. do { p \<leftarrow> mac ?x (3 * s + k) b (3 * s + k); Some (acc + p) }"
    and ?g = "\<lambda>k acc. do { p \<leftarrow> mac y (2 * s + (k - 1)) a (3 * s + k); Some (acc - p) }"
  have l: "12 \<le> length b" "12 \<le> length a" using assms(1) by (simp_all add: tables_ok_def)
  have "\<exists>r. for_loop 0 3 ?f 0 = Some r \<and> True"
  proof (rule for_loop_inv)
    fix k :: nat and acc :: u32 assume "k < 0 + 3"
    then have "3 * s + k < length ?x" "3 * s + k < length b" using assms l by auto
    then show "\<exists>s'. ?f k acc = Some s' \<and> True" using mac_ok [of "3 * s + k" ?x "3 * s + k" b] by auto
  qed simp
  then obtain a1 where a1: "for_loop 0 3 ?f 0 = Some a1" by blast
  have "\<exists>r. for_loop 1 2 ?g a1 = Some r \<and> True"
  proof (rule for_loop_inv)
    fix k :: nat and acc :: u32 assume "1 \<le> k" "k < 1 + 2"
    then have "2 * s + (k - 1) < length y" "3 * s + k < length a" using assms l by auto
    then show "\<exists>s'. ?g k acc = Some s' \<and> True" using mac_ok [of "2 * s + (k - 1)" y "3 * s + k" a] by auto
  qed simp
  then obtain a2 where a2: "for_loop 1 2 ?g a1 = Some a2" by blast
  obtain c where c: "rd_at scales (s + 1) = Some c" "0 \<le> sint c" "sint c < 32" using scale_ok [OF assms(1), of "s + 1"] assms(2) by auto
  have "3 * s + 2 < length x" "2 * s + 1 < length y" using assms by auto
  then show ?thesis using a1 a2 c assms(3,4) by (auto simp: iir_section_def mem_simps shr_def Let_def)
qed

lemma iir_cascade_ok:
  assumes "tables_ok a b scales" and "length x = 25" and "length y = 25"
  shows "\<exists>x' y' v'. iir_cascade a b scales x y sample = Some (x', y', v') \<and> length x' = 25 \<and> length y' = 25"
proof -
  obtain k where k: "rd_at scales 0 = Some k" "0 \<le> sint k" "sint k < 32" using scale_ok [OF assms(1), of 0] by auto
  have "\<exists>s. for_loop 0 4 (iir_section a b scales) (x, y, drop_bit (nat (sint k)) (sint sample)) = Some s \<and> length (fst s) = 25 \<and> length (fst (snd s)) = 25"
  proof (rule for_loop_inv [where I = "\<lambda>_ s. length (fst s) = 25 \<and> length (fst (snd s)) = 25"])
    fix j :: nat and s :: "u16 list \<times> u16 list \<times> int"
    assume j: "j < 0 + 4" and l: "length (fst s) = 25 \<and> length (fst (snd s)) = 25"
    obtain p q r where s: "s = (p, q, r)" by (cases s)
    show "\<exists>s'. iir_section a b scales j s = Some s' \<and> length (fst s') = 25 \<and> length (fst (snd s')) = 25"
      using iir_section_ok [OF assms(1), of j p q r] j l by (auto simp: s)
  qed (use assms in simp)
  then show ?thesis using k by (auto simp: iir_cascade_def shr_def)
qed

lemma count_interval_fields [simp]:
  "tn_cfg (count_interval p st) = tn_cfg st" "tn_x (count_interval p st) = tn_x st" "tn_y (count_interval p st) = tn_y st"
  "tn_need (count_interval p st) = tn_need st" "tn_n (count_interval p st) = tn_n st"
  by (simp_all add: count_interval_def)

text \<open>What one sample does, but for the arithmetic: a verdict at the end of the interval, none before.\<close>

definition ticks :: "toneiir \<Rightarrow> toneiir \<Rightarrow> int \<Rightarrow> bool" where
  "ticks st st' r \<longleftrightarrow>
     ti_interval (tn_cfg st') = ti_interval (tn_cfg st) \<and> tn_need st' = tn_need st \<and>
     (if tn_n st + 1 = ti_interval (tn_cfg st)
      then tn_n st' = 0 \<and> r \<in> {TONEIIR_ABSENT, TONEIIR_PRESENT} \<and> tn_total st' \<le> max 0 (tn_total st) + 1 \<and>
        (r = TONEIIR_PRESENT \<longrightarrow> tn_need st < tn_total st')
      else tn_n st' = tn_n st + 1 \<and> r = TONEIIR_UNDECIDED \<and> tn_total st' = tn_total st)"

lemma progress_ticks:
  assumes "tone_ok st"
  shows "\<exists>st' r. toneiir_progress st sample = Some (st', r) \<and> tone_ok st' \<and> ticks st st' r"
proof -
  have ok: "tone_cfg_ok (tn_cfg st)" "length (tn_x st) = 25" "length (tn_y st) = 25" "0 \<le> tn_n st" "tn_n st < ti_interval (tn_cfg st)"
    using assms by (simp_all add: tone_ok_def)
  obtain x y v where c: "iir_cascade (ti_a (tn_cfg st)) (ti_b (tn_cfg st)) (ti_scales (tn_cfg st)) (tn_x st) (tn_y st) sample = Some (x, y, v)"
      "length x = 25" "length y = 25" using iir_cascade_ok ok(1-3) by (metis tone_cfg_ok_def)
  define st1 where "st1 = st\<lparr>tn_x := x, tn_y := y, tn_env_band := envelope (tn_env_band st) (sint v),
       tn_env_in := envelope (tn_env_in st) (sint sample), tn_n := tn_n st + 1\<rparr>"
  have p: "toneiir_progress st sample = Some (if tn_n st + 1 \<noteq> ti_interval (tn_cfg st) then (st1, TONEIIR_UNDECIDED) else end_interval st1)"
    using c(1) by (simp add: toneiir_progress_def st1_def Let_def)
  show ?thesis
  proof (cases "tn_n st + 1 = ti_interval (tn_cfg st)")
    case False
    then show ?thesis using p ok c(2,3) by (auto simp: st1_def tone_ok_def ticks_def)
  next
    case True
    have cfg: "tone_cfg_ok (tn_cfg st\<lparr>ti_status := 2\<rparr>)" using ok(1) by (simp add: tone_cfg_ok_def)
    have i: "0 < ti_interval (tn_cfg st)" using ok(1) by (simp add: tone_cfg_ok_def)
    have t: "tn_total (count_interval q s) \<le> max 0 (tn_total s) + 1" for q s by (auto simp: count_interval_def)
    have s1: "tn_cfg st1 = tn_cfg st" "tn_x st1 = x" "tn_y st1 = y" "tn_need st1 = tn_need st" "tn_total st1 = tn_total st"
      by (simp_all add: st1_def)
    obtain st' r where e: "end_interval st1 = (st', r)" by (cases "end_interval st1")
    have "tone_ok st' \<and> ticks st st' r"
      using e t [of "tone_present (st1\<lparr>tn_cfg := (tn_cfg st1)\<lparr>ti_status := 2\<rparr>\<rparr>)" "st1\<lparr>tn_cfg := (tn_cfg st1)\<lparr>ti_status := 2\<rparr>\<rparr>"] True cfg i c(2,3)
      by (auto simp: end_interval_def Let_def fresh_interval_def tone_ok_def ticks_def s1 TONEIIR_ABSENT_def TONEIIR_PRESENT_def split: if_splits)
    then show ?thesis using p True e by simp
  qed
qed

subsection \<open>Samples in a row\<close>

fun tone_run :: "toneiir \<Rightarrow> u16 list \<Rightarrow> (toneiir \<times> int list) option" where
  "tone_run st [] = Some (st, [])"
| "tone_run st (v # vs) = do { (st, r) \<leftarrow> toneiir_progress st v; (st, rs) \<leftarrow> tone_run st vs; Some (st, r # rs) }"

lemma verdict_numbers: "TONEIIR_UNDECIDED = 0" "TONEIIR_ABSENT = 1" "TONEIIR_PRESENT = 2"
  by (simp_all add: TONEIIR_UNDECIDED_def TONEIIR_ABSENT_def TONEIIR_PRESENT_def)

text \<open>How many intervals have ended after \<open>k\<close> samples.\<close>

definition ended :: "toneiir \<Rightarrow> nat \<Rightarrow> int" where
  "ended st k = (tn_n st + int k) div ti_interval (tn_cfg st)"

lemma ended_step:
  assumes "tone_ok st" and "ticks st st' r"
  shows "ended st (Suc k) = ended st' k + of_bool (r \<noteq> 0)" and "(r \<noteq> 0) = ((tn_n st + 1) mod ti_interval (tn_cfg st) = 0)"
    and "(tn_n st' + int k) mod ti_interval (tn_cfg st') = (tn_n st + int (Suc k)) mod ti_interval (tn_cfg st)"
proof -
  let ?m = "ti_interval (tn_cfg st)"
  have m: "0 < ?m" "0 \<le> tn_n st" "tn_n st < ?m" using assms(1) by (simp_all add: tone_ok_def tone_cfg_ok_def)
  show "ended st (Suc k) = ended st' k + of_bool (r \<noteq> 0)"
  proof (cases "tn_n st + 1 = ?m")
    case True
    then have "tn_n st + int (Suc k) = int k + ?m" by simp
    then have "(tn_n st + int (Suc k)) div ?m = int k div ?m + 1" using m(1) by (simp only: div_add_self2)
    then show ?thesis using assms(2) True by (auto simp: ended_def ticks_def verdict_numbers simp del: of_nat_Suc)
  next
    case False
    then show ?thesis using assms(2) by (simp add: ended_def ticks_def verdict_numbers ac_simps)
  qed
  show "(r \<noteq> 0) = ((tn_n st + 1) mod ?m = 0)"
    using assms(2) m by (cases "tn_n st + 1 = ?m") (auto simp: ticks_def verdict_numbers)
  show "(tn_n st' + int k) mod ti_interval (tn_cfg st') = (tn_n st + int (Suc k)) mod ?m"
  proof (cases "tn_n st + 1 = ?m")
    case True
    then have "tn_n st + int (Suc k) = int k + ?m" by simp
    then have "(tn_n st + int (Suc k)) mod ?m = int k mod ?m" by (simp only: mod_add_self2)
    then show ?thesis using assms(2) True by (simp add: ticks_def del: of_nat_Suc)
  next
    case False
    then show ?thesis using assms(2) by (simp add: ticks_def ac_simps)
  qed
qed

lemma tone_run_ticks:
  assumes "tone_ok st"
  shows "\<exists>st' rs. tone_run st vs = Some (st', rs) \<and> tone_ok st' \<and> length rs = length vs \<and>
    (\<forall>i < length vs. (rs ! i \<noteq> 0) = ((tn_n st + int (Suc i)) mod ti_interval (tn_cfg st) = 0) \<and>
      (rs ! i = TONEIIR_PRESENT \<longrightarrow> tn_need st < max 0 (tn_total st) + ended st (Suc i)))"
  using assms
proof (induction vs arbitrary: st)
  case (Cons v vs)
  obtain st1 r where p: "toneiir_progress st v = Some (st1, r)" "tone_ok st1" and t: "ticks st st1 r"
    using progress_ticks [OF Cons.prems] by blast
  obtain st' rs where q: "tone_run st1 vs = Some (st', rs)" "tone_ok st'" "length rs = length vs"
    and i: "\<forall>i < length vs. (rs ! i \<noteq> 0) = ((tn_n st1 + int (Suc i)) mod ti_interval (tn_cfg st1) = 0) \<and>
      (rs ! i = TONEIIR_PRESENT \<longrightarrow> tn_need st1 < max 0 (tn_total st1) + ended st1 (Suc i))"
    using Cons.IH [OF p(2)] by blast
  note e = ended_step [OF Cons.prems t]
  have n: "0 \<le> tn_n st" "0 < ti_interval (tn_cfg st)" using Cons.prems by (simp_all add: tone_ok_def tone_cfg_ok_def)
  have tot: "max 0 (tn_total st1) \<le> max 0 (tn_total st) + of_bool (r \<noteq> 0)" "tn_need st1 = tn_need st"
    using t by (auto simp: ticks_def verdict_numbers split: if_splits)
  have here: "r = TONEIIR_PRESENT \<longrightarrow> tn_need st < max 0 (tn_total st) + ended st 1"
  proof
    assume r: "r = TONEIIR_PRESENT"
    then have "ended st 1 = ended st1 0 + 1" using e(1) [of 0] by (simp add: verdict_numbers)
    moreover have "0 \<le> ended st1 0" using p(2) by (simp add: ended_def tone_ok_def pos_imp_zdiv_nonneg_iff)
    moreover have "tn_need st < tn_total st1" using t r by (auto simp: ticks_def verdict_numbers split: if_splits)
    moreover have "tn_total st1 \<le> max 0 (tn_total st) + 1" using t by (auto simp: ticks_def split: if_splits)
    ultimately show "tn_need st < max 0 (tn_total st) + ended st 1" by linarith
  qed
  have "\<forall>i < length (v # vs). ((r # rs) ! i \<noteq> 0) = ((tn_n st + int (Suc i)) mod ti_interval (tn_cfg st) = 0) \<and>
      ((r # rs) ! i = TONEIIR_PRESENT \<longrightarrow> tn_need st < max 0 (tn_total st) + ended st (Suc i))"
  proof (intro allI impI)
    fix j assume j: "j < length (v # vs)"
    show "((r # rs) ! j \<noteq> 0) = ((tn_n st + int (Suc j)) mod ti_interval (tn_cfg st) = 0) \<and>
      ((r # rs) ! j = TONEIIR_PRESENT \<longrightarrow> tn_need st < max 0 (tn_total st) + ended st (Suc j))"
    proof (cases j)
      case 0
      then show ?thesis using e(2) here by simp
    next
      case (Suc k)
      then have "(rs ! k \<noteq> 0) = ((tn_n st1 + int (Suc k)) mod ti_interval (tn_cfg st1) = 0) \<and>
        (rs ! k = TONEIIR_PRESENT \<longrightarrow> tn_need st1 < max 0 (tn_total st1) + ended st1 (Suc k))" using i j by simp
      then show ?thesis using e(3) [of "Suc k"] e(1) [of "Suc k"] tot Suc by auto
    qed
  qed
  then show ?case using p q by auto
qed simp

text \<open>C23: the filter answers at the end of each interval and at no other sample, and never reads or writes outside its
  arrays; after a reset, that a tone is present only once more intervals have ended than the time it must last.\<close>

theorem tone_verdicts:
  assumes "tone_ok st" and "tn_n st = 0" and "tn_total st \<le> 0"
  shows "\<exists>st' rs. tone_run st vs = Some (st', rs) \<and> length rs = length vs \<and>
    (\<forall>i < length vs. (rs ! i \<noteq> TONEIIR_UNDECIDED) = (int (Suc i) mod ti_interval (tn_cfg st) = 0) \<and>
      (rs ! i = TONEIIR_PRESENT \<longrightarrow> tn_need st < int (Suc i) div ti_interval (tn_cfg st)))"
  using tone_run_ticks [OF assms(1), of vs] assms(2,3) by (auto simp: ended_def verdict_numbers)

text \<open>Whatever the tolerance, two intervals without the tone in a row clear the count of a detector that does not
  keep it: the tolerance bounds how few intervals of tone a single gap may follow, not how long the gap may be.\<close>

theorem second_gap_clears:
  assumes "0 \<le> ti_gap_tolerance (tn_cfg st)" and "ti_keep_on_gap (tn_cfg st) = 0"
  shows "tn_total (count_interval False (count_interval False st)) = 0 \<and> tn_run (count_interval False (count_interval False st)) = 0 \<and>
    (tn_total (count_interval False st) = 0 \<or> ti_gap_tolerance (tn_cfg st) < tn_run st)"
  using assms by (simp add: count_interval_def)

subsection \<open>Windows and times\<close>

lemma fp_steps_run:
  assumes "0 < b" and "0 < r"
  shows "fp_steps (- b) r c = Some (c + of_int ((r + b - 1) div b))"
  using assms(2)
proof (induction "nat r" arbitrary: r c rule: less_induct)
  case less
  show ?case
  proof (cases "r - b > 0")
    case True
    have "(r + b - 1) div b = (r - b + b - 1) div b + 1" using assms(1) div_add_self2 [of b "r - 1"] by (simp add: algebra_simps)
    then show ?thesis using less.hyps [of "r - b"] True assms(1) less.prems by (subst fp_steps.simps) (simp add: Let_def add.assoc)
  next
    case False
    have "(r - 1 + b) div b = (r - 1) div b + 1" using assms(1) by (intro div_add_self2) simp
    moreover have "(r - 1) div b = 0" using False less.prems by (intro div_pos_pos_trivial) auto
    ultimately have "(r + b - 1) div b = 1" by (simp add: algebra_simps)
    then show ?thesis using False by (subst fp_steps.simps) (simp add: Let_def)
  qed
qed

text \<open>The quotient in fourteen binary places, rounded up, in a \<open>short\<close>.\<close>

lemma GetFP_Value_run:
  assumes "0 < a" and "0 < b" and "a < 2 ^ 15" and "b < 2 ^ 15"
  shows "GetFP_Value (of_int a) (of_int b) = Some (of_int ((a * 2 ^ 14 + b - 1) div b))"
proof -
  have s: "sint (of_int a :: u16) = a" "sint (of_int b :: u16) = b" using assms by (simp_all flip: short_of_word)
  show ?thesis using assms fp_steps_run [of b "a * 2 ^ 14" 0] by (simp add: GetFP_Value_def s Let_def)
qed

subsection \<open>Construction\<close>

lemma clear_cells: "nat n \<le> length xs \<Longrightarrow> \<exists>ys. for_loop 0 (nat n) (\<lambda>i x. wr_at x i v) xs = Some ys \<and> length ys = length xs"
  using for_fill [of 0 "nat n" xs "\<lambda>i x. wr_at x i v" "\<lambda>_. v"] by auto

lemma clamp_le: "nat (clamp_count n) \<le> 25"
  by (auto simp: clamp_count_def IIR_FILTER_MAX_COEFF_def)

text \<open>A created filter is at the start of an interval, with nothing counted.\<close>

lemma toneiir_create_run:
  assumes c: "tone_cfg_ok cfg" "ti_interval cfg < 2 ^ 15"
    and st: "(if st = None then heap else st) = Some st0" "length (tn_x st0) = 25" "length (tn_y st0) = 25"
  shows "\<exists>t. toneiir_create st heap (Some cfg) = Some (Some t) \<and> tone_ok t \<and> tn_n t = 0 \<and> tn_total t = 0 \<and>
    ti_interval (tn_cfg t) = ti_interval cfg"
proof -
  let ?cfg = "cfg\<lparr>ti_n_b := clamp_count (ti_n_b cfg), ti_n_a := clamp_count (ti_n_a cfg)\<rparr>"
  obtain x where x: "for_loop 0 (nat (clamp_count (ti_n_b cfg))) (\<lambda>i x. wr_at x i 0) (tn_x st0) = Some x" "length x = 25"
    using clear_cells [of "clamp_count (ti_n_b cfg)" "tn_x st0" 0] clamp_le [of "ti_n_b cfg"] st(2) by auto
  obtain y where y: "for_loop 0 (nat (clamp_count (ti_n_a cfg))) (\<lambda>i x. wr_at x i 0) (tn_y st0) = Some y" "length y = 25"
    using clear_cells [of "clamp_count (ti_n_a cfg)" "tn_y st0" 0] clamp_le [of "ti_n_a cfg"] st(3) by auto
  have i: "0 < ti_interval cfg" "tone_cfg_ok ?cfg" using c(1) by (simp_all add: tone_cfg_ok_def)
  then have g: "\<exists>k. GetFP_Value 8 (of_int (ti_interval cfg)) = Some k" using GetFP_Value_run [of 8 "ti_interval cfg"] c(2) by simp
  then show ?thesis using st(1) x y i by (auto simp: toneiir_create_def fresh_interval_def tone_ok_def Let_def)
qed

lemma toneiir_reset_ok: "tone_ok st \<Longrightarrow> tone_ok (toneiir_reset st)"
  by (simp add: toneiir_reset_def fresh_interval_def tone_ok_def tone_cfg_ok_def)

definition sample_tone :: toneiir where
  "sample_tone = \<lparr>tn_cfg = toneiir_get_default_configuration\<lparr>ti_interval := 2\<rparr>, tn_n = 0, tn_x = replicate 25 0, tn_y = replicate 25 0,
     tn_env_in = 0, tn_env_band = 0, tn_env_prev = 0, tn_need = 1, tn_total = 0, tn_run = 0\<rparr>"

lemma tone_verdicts_witness:
  "\<exists>st' rs. tone_run sample_tone [5, 7, -9] = Some (st', rs) \<and> length rs = 3 \<and>
    rs ! 0 = TONEIIR_UNDECIDED \<and> rs ! 1 \<noteq> TONEIIR_UNDECIDED \<and> rs ! 1 \<noteq> TONEIIR_PRESENT"
proof -
  have p: "tone_ok sample_tone" "tn_n sample_tone = 0" "tn_total sample_tone \<le> 0" "ti_interval (tn_cfg sample_tone) = 2" "tn_need sample_tone = 1"
    by (simp_all add: sample_tone_def tone_ok_def tone_cfg_ok_def tables_ok_def toneiir_get_default_configuration_def list_all_iff)
  obtain st' rs where r: "tone_run sample_tone [5, 7, -9] = Some (st', rs)" "length rs = 3"
    and i: "\<forall>i < 3. (rs ! i \<noteq> TONEIIR_UNDECIDED) = (int (Suc i) mod 2 = 0) \<and> (rs ! i = TONEIIR_PRESENT \<longrightarrow> 1 < int (Suc i) div 2)"
    using tone_verdicts [OF p(1-3), of "[5, 7, -9]"] p(4,5) by auto
  show ?thesis using r i [rule_format, of 0] i [rule_format, of 1] by auto
qed

lemma second_gap_clears_witness:
  "tn_total (count_interval False (count_interval False (sample_tone\<lparr>tn_total := 9, tn_run := 9\<rparr>))) = 0"
  using second_gap_clears [of "sample_tone\<lparr>tn_total := 9, tn_run := 9\<rparr>"] by (simp add: sample_tone_def toneiir_get_default_configuration_def)

end
