(* ===== verification/CpFilters.thy ===== *)
theory CpFilters
  imports Prelude
begin

text \<open>
  The band filters of the call-progress detectors, tables of \<^verbatim>\<open>src/callprog\<close>: four designs of
  \<^verbatim>\<open>CPfiltrs.c\<close> and three banks of seven, \<^verbatim>\<open>Elliptic1.c\<close> to \<^verbatim>\<open>Elliptic3.c\<close>.
\<close>

subsection \<open>\<^verbatim>\<open>CPfiltrs.c\<close>\<close>

definition CP_450_630_scales :: "u16 list" where
  "CP_450_630_scales = map of_int [
     5, 0, 0, 3, 0]"

definition CP_450_630_a :: "u16 list" where
  "CP_450_630_a = map of_int [
     8192, -14092, 7471, 8192, -14757, 7599, 8192, -14031, 7911, 8192, -15382, 8011]"

definition CP_450_630_b :: "u16 list" where
  "CP_450_630_b = map of_int [
     8192, -8156, 8192, 8192, -16210, 8192, 8192, -15893, 8192, 8192, -12938, 8192]"

definition CP_276_504_scales :: "u16 list" where
  "CP_276_504_scales = map of_int [
     5, 0, 3, 0, 0]"

definition CP_276_504_a :: "u16 list" where
  "CP_276_504_a = map of_int [
     8192, -14644, 7313, 8192, -15334, 7566, 8192, -14686, 7832, 8192, -15926, 8021]"

definition CP_276_504_b :: "u16 list" where
  "CP_276_504_b = map of_int [
     8192, -7618, 8192, 8192, -16349, 8192, 8192, -13488, 8192, 8192, -16253, 8192]"

definition CP_100_550_scales :: "u16 list" where
  "CP_100_550_scales = map of_int [
     6, 2, 0, 0, 0]"

definition CP_100_550_a :: "u16 list" where
  "CP_100_550_a = map of_int [
     8192, -14227, 6339, 8192, -14395, 7265, 8192, -14513, 7880, 8192, -14584, 8123]"

definition CP_100_550_b :: "u16 list" where
  "CP_100_550_b = map of_int [
     8192, -3688, 8192, 8192, -13180, 8192, 8192, -14233, 8192, 8192, -14449, 8192]"

definition CP_350_600_scales :: "u16 list" where
  "CP_350_600_scales = map of_int [
     5, 0, 0, 2, 0]"

definition CP_350_600_a :: "u16 list" where
  "CP_350_600_a = map of_int [
     8192, -12974, 6657, 8192, -14791, 7249, 8192, -12339, 7588, 8192, -15792, 7979]"

definition CP_350_600_b :: "u16 list" where
  "CP_350_600_b = map of_int [
     8192, 1200, 8192, 8192, -16343, 8192, 8192, -16217, 8192, 8192, -9156, 8192]"

subsection \<open>\<^verbatim>\<open>Elliptic1.c\<close>\<close>

definition Filter_350_500_scales :: "u16 list" where
  "Filter_350_500_scales = map of_int [
     5, 0, 3, 0, 0, 5, 0, 3, 0, 0, 5, 0, 3, 0, 0, 5, 0, 3, 0, 0, 5, 0, 3, 0, 0, 5, 0, 3, 0, 0, 5, 0, 3,
     0, 0]"

definition Filter_350_500_b :: "u16 list" where
  "Filter_350_500_b = map of_int [
     8192, -8523, 8192, 8192, -16317, 8192, 8192, -13563, 8192, 8192, -16161, 8192, 8192, -6863, 8192,
     8192, -16336, 8192, 8192, -16207, 8192, 8192, -13085, 8192, 8192, -5165, 8192, 8192, -16349, 8192,
     8192, -16245, 8192, 8192, -12550, 8192, 8192, -3520, 8192, 8192, -16358, 8192, 8192, -16276, 8192,
     8192, -11982, 8192, 8192, -1948, 8192, 8192, -16365, 8192, 8192, -16301, 8192, 8192, -11372, 8192,
     8192, -541, 8192, 8192, -16370, 8192, 8192, -16319, 8192, 8192, -10762, 8192, 8192, 862, 8192,
     8192, -16374, 8192, 8192, -16336, 8192, 8192, -10084, 8192]"

definition Filter_350_500_a :: "u16 list" where
  "Filter_350_500_a = map of_int [
     8192, -14584, 7422, 8192, -15206, 7602, 8192, -14602, 7883, 8192, -15783, 8022, 8192, -14432, 7283,
     8192, -15183, 7529, 8192, -14430, 7822, 8192, -15826, 8008, 8192, -14273, 7137, 8192, -15165, 7461,
     8192, -14245, 7756, 8192, -15869, 7997, 8192, -14117, 6986, 8192, -15159, 7401, 8192, -14058, 7688,
     8192, -15914, 7991, 8192, -13955, 6829, 8192, -15159, 7351, 8192, -13860, 7617, 8192, -15955, 7989,
     8192, -13797, 6675, 8192, -15168, 7312, 8192, -13667, 7548, 8192, -15995, 7990, 8192, -13624, 6500,
     8192, -15192, 7284, 8192, -13456, 7471, 8192, -16039, 7995]"

subsection \<open>\<^verbatim>\<open>Elliptic2.c\<close>\<close>

definition Filter_100_550_scales :: "u16 list" where
  "Filter_100_550_scales = map of_int [
     5, 0, 3, 0, 0, 5, 0, 3, 0, 0, 5, 0, 3, 0, 0, 5, 0, 3, 0, 0, 5, 0, 3, 0, 0, 5, 0, 0, 3, 0, 5, 0, 0,
     3, 0]"

definition Filter_100_550_b :: "u16 list" where
  "Filter_100_550_b = map of_int [
     8192, -4485, 8192, 8192, -16362, 8192, 8192, -16294, 8192, 8192, -12458, 8192, 8192, -2861, 8192,
     8192, -16368, 8192, 8192, -16316, 8192, 8192, -11867, 8192, 8192, -1364, 8192, 8192, -16373, 8192,
     8192, -16333, 8192, 8192, -11260, 8192, 8192, 71, 8192, 8192, -16376, 8192, 8192, -16347, 8192,
     8192, -10606, 8192, 8192, 1364, 8192, 8192, -16379, 8192, 8192, -16357, 8192, 8192, -9947, 8192,
     8192, 2583, 8192, 8192, -16380, 8192, 8192, -16366, 8192, 8192, -9250, 8192, 8192, 3214, 8192,
     8192, -16380, 8192, 8192, -16366, 8192, 8192, -8815, 8192]"

definition Filter_100_550_a :: "u16 list" where
  "Filter_100_550_a = map of_int [
     8192, -14313, 7045, 8192, -15270, 7448, 8192, -14306, 7711, 8192, -15969, 8005, 8192, -14148, 6885,
     8192, -15268, 7400, 8192, -14114, 7640, 8192, -16008, 8003, 8192, -13985, 6723, 8192, -15279, 7364,
     8192, -13923, 7567, 8192, -16047, 8005, 8192, -13810, 6547, 8192, -15301, 7340, 8192, -13719, 7490,
     8192, -16086, 8012, 8192, -13632, 6365, 8192, -15340, 7334, 8192, -13517, 7413, 8192, -16125, 8022,
     8192, -13436, 6167, 8192, -13302, 7333, 8192, -15396, 7348, 8192, -16163, 8036, 8192, -13307, 6086,
     8192, -13130, 7300, 8192, -15377, 7330, 8192, -16162, 8035]"

subsection \<open>\<^verbatim>\<open>Elliptic3.c\<close>\<close>

definition Filter_276_504_scales :: "u16 list" where
  "Filter_276_504_scales = map of_int [
     6, 0, 0, 3, 0, 5, 0, 3, 0, 0, 6, 0, 0, 3, 0, 5, 0, 0, 3, 0, 5, 0, 0, 3, 0, 5, 0, 0, 3, 0, 5, 0, 0,
     3, 0]"

definition Filter_276_504_b :: "u16 list" where
  "Filter_276_504_b = map of_int [
     8192, -11660, 8192, 8192, -16277, 8192, 8192, -16097, 8192, 8192, -14460, 8192, 8192, -10948, 8192,
     8192, -16285, 8192, 8192, -16106, 8192, 8192, -14235, 8192, 8192, -10243, 8192, 8192, -16292, 8192,
     8192, -16114, 8192, 8192, -14010, 8192, 8192, -9519, 8192, 8192, -16298, 8192, 8192, -16121, 8192,
     8192, -13773, 8192, 8192, -8779, 8192, 8192, -16303, 8192, 8192, -16128, 8192, 8192, -13526, 8192,
     8192, -8030, 8192, 8192, -16307, 8192, 8192, -16134, 8192, 8192, -13269, 8192, 8192, -7238, 8192,
     8192, -16311, 8192, 8192, -16140, 8192, 8192, -12988, 8192]"

definition Filter_276_504_a :: "u16 list" where
  "Filter_276_504_a = map of_int [
     8192, -15047, 7773, 8192, -15458, 7854, 8192, -15010, 8035, 8192, -15831, 8094, 8192, -14947, 7726,
     8192, -15415, 7823, 8192, -14891, 8016, 8192, -15823, 8087, 8192, -14850, 7681, 8192, -15374, 7793,
     8192, -14774, 7998, 8192, -15816, 8080, 8192, -14752, 7636, 8192, -15335, 7765, 8192, -14653, 7979,
     8192, -15809, 8073, 8192, -14653, 7591, 8192, -15296, 7737, 8192, -14529, 7961, 8192, -15803, 8067,
     8192, -14554, 7546, 8192, -15257, 7709, 8192, -14402, 7942, 8192, -15797, 8061, 8192, -14448, 7498,
     8192, -15218, 7680, 8192, -14265, 7923, 8192, -15790, 8055]"

lemma filter_lengths [simp]:
  "length CP_450_630_scales = 5"
  "length CP_450_630_a = 12"
  "length CP_450_630_b = 12"
  "length CP_276_504_scales = 5"
  "length CP_276_504_a = 12"
  "length CP_276_504_b = 12"
  "length CP_100_550_scales = 5"
  "length CP_100_550_a = 12"
  "length CP_100_550_b = 12"
  "length CP_350_600_scales = 5"
  "length CP_350_600_a = 12"
  "length CP_350_600_b = 12"
  "length Filter_350_500_scales = 35"
  "length Filter_350_500_b = 84"
  "length Filter_350_500_a = 84"
  "length Filter_100_550_scales = 35"
  "length Filter_100_550_b = 84"
  "length Filter_100_550_a = 84"
  "length Filter_276_504_scales = 35"
  "length Filter_276_504_b = 84"
  "length Filter_276_504_a = 84"
  by (simp_all add: CP_450_630_scales_def CP_450_630_a_def CP_450_630_b_def CP_276_504_scales_def CP_276_504_a_def CP_276_504_b_def CP_100_550_scales_def CP_100_550_a_def CP_100_550_b_def CP_350_600_scales_def CP_350_600_a_def CP_350_600_b_def Filter_350_500_scales_def Filter_350_500_b_def Filter_350_500_a_def Filter_100_550_scales_def Filter_100_550_b_def Filter_100_550_a_def Filter_276_504_scales_def Filter_276_504_b_def Filter_276_504_a_def)

lemma filter_scales:
  "list_all (\<lambda>k. 0 \<le> sint k \<and> sint k < 32) CP_450_630_scales"
  "list_all (\<lambda>k. 0 \<le> sint k \<and> sint k < 32) CP_276_504_scales"
  "list_all (\<lambda>k. 0 \<le> sint k \<and> sint k < 32) CP_100_550_scales"
  "list_all (\<lambda>k. 0 \<le> sint k \<and> sint k < 32) CP_350_600_scales"
  "list_all (\<lambda>k. 0 \<le> sint k \<and> sint k < 32) Filter_350_500_scales"
  "list_all (\<lambda>k. 0 \<le> sint k \<and> sint k < 32) Filter_100_550_scales"
  "list_all (\<lambda>k. 0 \<le> sint k \<and> sint k < 32) Filter_276_504_scales"
  by (simp_all add: CP_450_630_scales_def CP_276_504_scales_def CP_100_550_scales_def CP_350_600_scales_def Filter_350_500_scales_def Filter_100_550_scales_def Filter_276_504_scales_def)

end
