(* ===== verification/Cadence.thy ===== *)
theory Cadence
  imports ToneIir CpFilters Pulse
begin

unbundle bit_operations_syntax

text \<open>
  The cadence detector, \<^verbatim>\<open>src/callprog/Cadence.c\<close>: a call-progress tone recognised by how long it is on
  and off. At each verdict of its tone filter it measures the running half period, records it when the
  half ends, and compares the recorded periods in one of three ways. Durations count verdicts.
\<close>

definition CADENCE_MAX_PERIODS :: int where "CADENCE_MAX_PERIODS = 60"
definition CADENCE_MAX_FAILURES :: int where "CADENCE_MAX_FAILURES = 9"

definition CADENCE_NOTHING :: int where "CADENCE_NOTHING = 0"
definition CADENCE_DETECTED :: int where "CADENCE_DETECTED = 1"
definition CADENCE_RESTART :: int where "CADENCE_RESTART = 7"

definition CADENCE_IN_TONE :: int where "CADENCE_IN_TONE = 0"
definition CADENCE_IN_SILENCE :: int where "CADENCE_IN_SILENCE = 1"

definition CADENCE_TONE_BUSY :: int where "CADENCE_TONE_BUSY = 0"
definition CADENCE_TONE_DIAL :: int where "CADENCE_TONE_DIAL = 1"
definition CADENCE_TONE_CONG :: int where "CADENCE_TONE_CONG = 2"
definition CADENCE_TONE_RING :: int where "CADENCE_TONE_RING = 3"
definition CADENCE_TONE_INVALID :: int where "CADENCE_TONE_INVALID = 4"

record cadence =
  cd_filter :: "toneiir option"
  cd_state :: int
  cd_run :: int
  cd_on :: "int list"
  cd_off :: "int list"
  cd_n :: int
  cd_failures :: int
  cd_max_on :: int
  cd_max_off :: int
  cd_min_on :: int
  cd_min_off :: int
  cd_cycles :: int
  cd_continuous :: int
  cd_max_silence :: int
  cd_int_274 :: int
  cd_int_278 :: int
  cd_int_27c :: int
  cd_sel_n_a :: int
  cd_sel_n_b :: int
  cd_sel_a :: "u16 list"
  cd_sel_b :: "u16 list"
  cd_sel_scales :: "u16 list"
  cd_threshold :: u16
  cd_validation :: int
  cd_buflen :: int
  cd_name :: string
  cd_int_2a4 :: int
  cd_use_allpass :: int
  cd_looped_match :: int
  cd_pattern :: "int list"
  cd_fixed_pattern :: int
  cd_pattern_min_cycles :: int
  cd_modem :: line

record cadence_setup =
  cs_w3 :: int
  cs_tone :: int
  cs_w6 :: int

subsection \<open>Comparison\<close>

definition adiff :: "int \<Rightarrow> int \<Rightarrow> int" where
  "adiff a b = (let v = a - b in if v < 0 then - v else v)"

definition GetBusyToneDiffTime :: nat where "GetBusyToneDiffTime = 35"

definition match_tolerance :: "cadence \<Rightarrow> int" where
  "match_tolerance c = (let tol = ln_param (cd_modem c) GetBusyToneDiffTime in if tol \<le> 2 then 3 else tol)"

text \<open>A cell of a period array; tests in a row, of which the first that fails ends the reading.\<close>

definition cell :: "int list \<Rightarrow> int \<Rightarrow> int option" where
  "cell xs i = (if i < 0 then None else rd_at xs (nat i))"

fun all_tests :: "bool option list \<Rightarrow> bool option" where
  "all_tests [] = Some True"
| "all_tests (p # ps) = do { b \<leftarrow> p; if b then all_tests ps else Some False }"

definition near_cell :: "int \<Rightarrow> int \<Rightarrow> int list \<Rightarrow> int \<Rightarrow> bool option" where
  "near_cell tol v xs i = do { w \<leftarrow> cell xs i; Some (adiff v w < tol) }"

definition within :: "int \<Rightarrow> int list \<Rightarrow> int \<Rightarrow> int list \<Rightarrow> int \<Rightarrow> bool option" where
  "within tol xs i ys j = do { v \<leftarrow> cell xs i; w \<leftarrow> cell ys j; Some (\<not> adiff v w > tol) }"

definition match_fixed :: "cadence \<Rightarrow> int \<Rightarrow> int \<Rightarrow> bool option" where
  "match_fixed c stop tol =
     (if cd_pattern_min_cycles c > stop then Some False
      else all_tests [within tol (cd_on c) 0 (cd_pattern c) 0, within tol (cd_off c) 1 (cd_pattern c) 1,
        within tol (cd_on c) 1 (cd_pattern c) 2, within tol (cd_off c) 2 (cd_pattern c) 3])"

text \<open>The loop over the earlier periods: \<open>k\<close> from 1 while it is below \<open>cycles - 1\<close>.\<close>

definition earlier_periods :: "cadence \<Rightarrow> int \<Rightarrow> int \<Rightarrow> int \<Rightarrow> bool \<Rightarrow> bool option" where
  "earlier_periods c stop off_last tol ok = for_loop 1 (nat (cd_cycles c - 2)) (\<lambda>k ok. do {
     same \<leftarrow> all_tests [near_cell tol off_last (cd_off c) (stop - int k),
       do { on_last \<leftarrow> cell (cd_on c) stop; near_cell tol on_last (cd_on c) (stop - int k) }];
     Some (ok \<and> same)
   }) ok"

definition in_windows :: "cadence \<Rightarrow> int \<Rightarrow> int \<Rightarrow> bool" where
  "in_windows c off_last on_last \<longleftrightarrow> off_last \<ge> cd_min_off c \<and> off_last \<le> cd_max_off c \<and> on_last \<ge> cd_min_on c \<and> on_last \<le> cd_max_on c"

definition match_looped :: "cadence \<Rightarrow> int \<Rightarrow> int \<Rightarrow> bool option" where
  "match_looped c stop tol = do {
     off_last \<leftarrow> cell (cd_off c) stop;
     if cd_cycles c - 1 > stop then Some False
     else do {
       on_last \<leftarrow> cell (cd_on c) stop;
       ok \<leftarrow> (if cd_cycles c > 2 then earlier_periods c stop off_last tol (in_windows c off_last on_last)
         else Some (in_windows c off_last on_last));
       let first = stop - cd_cycles c;
       off_first \<leftarrow> cell (cd_off c) (first + 1);
       if off_last > off_first then Some False
       else do {
         same \<leftarrow> near_cell tol on_last (cd_on c) (first + 1);
         Some (same \<and> ok)
       }
     }
   }"

definition match_unrolled :: "cadence \<Rightarrow> int \<Rightarrow> int \<Rightarrow> bool option" where
  "match_unrolled c stop tol =
     (if cd_cycles c - 1 > stop \<or> stop \<le> 1 then Some False
      else do {
        off_last \<leftarrow> cell (cd_off c) stop;
        if off_last < cd_min_off c \<or> off_last > cd_max_off c then Some False
        else do {
          on_last \<leftarrow> cell (cd_on c) stop;
          if on_last < cd_min_on c \<or> on_last > cd_max_on c then Some False
          else do {
            off_prev \<leftarrow> cell (cd_off c) (stop - 1);
            one_period \<leftarrow> all_tests [Some (adiff off_last off_prev < tol), near_cell tol off_last (cd_off c) (stop - 2),
              near_cell tol on_last (cd_on c) (stop - 1), near_cell tol on_last (cd_on c) (stop - 2)];
            two_period \<leftarrow> (if stop > 5 then all_tests [near_cell tol off_last (cd_off c) (stop - 2), near_cell tol off_last (cd_off c) (stop - 4),
                near_cell tol on_last (cd_on c) (stop - 2), near_cell tol on_last (cd_on c) (stop - 4),
                near_cell tol off_prev (cd_off c) (stop - 3), near_cell tol off_prev (cd_off c) (stop - 5)] else Some False);
            Some (one_period \<or> two_period)
          }
        }
      })"

definition cadence_match :: "cadence \<Rightarrow> int \<Rightarrow> bool option" where
  "cadence_match c stop =
     (let tol = match_tolerance c
      in if cd_fixed_pattern c \<noteq> 0 then match_fixed c stop tol
         else if cd_looped_match c \<noteq> 0 then match_looped c stop tol
         else match_unrolled c stop tol)"

subsection \<open>A sample\<close>

text \<open>A write to a period array.\<close>

definition set_cell :: "int list \<Rightarrow> int \<Rightarrow> int \<Rightarrow> int list option" where
  "set_cell xs i v = (if i < 0 then None else wr_at xs (nat i) v)"

text \<open>The detector without its history; the filter's count goes too.\<close>

definition start_over :: "cadence \<Rightarrow> cadence option" where
  "start_over c = do {
     f \<leftarrow> cd_filter c;
     Some (c\<lparr>cd_filter := Some (toneiir_reset f), cd_state := CADENCE_IN_SILENCE, cd_run := 0, cd_n := 0\<rparr>)
   }"

definition cadence_reset :: "cadence \<Rightarrow> cadence option" where
  "cadence_reset c = map_option (\<lambda>c. c\<lparr>cd_failures := 0\<rparr>) (start_over c)"

definition tone_heard :: "cadence \<Rightarrow> (cadence \<times> int) option" where
  "tone_heard c =
     (let result = (if cd_continuous c \<noteq> 0 then CADENCE_DETECTED else CADENCE_NOTHING)
      in if cd_state c = CADENCE_IN_TONE then
           Some (if cd_fixed_pattern c = 0 \<and> cd_max_on c = 0
             then (c\<lparr>cd_state := CADENCE_IN_SILENCE, cd_run := 0, cd_n := 0\<rparr>, CADENCE_DETECTED)
             else (c\<lparr>cd_run := cd_run c + 1\<rparr>, result))
         else if cd_state c = CADENCE_IN_SILENCE then do {
           off \<leftarrow> set_cell (cd_off c) (cd_n c) (cd_run c);
           Some (c\<lparr>cd_state := CADENCE_IN_TONE, cd_off := off, cd_run := 0\<rparr>, result)
         }
         else Some (c, result))"

text \<open>The end of a tone.\<close>

definition tone_ended :: "cadence \<Rightarrow> (cadence \<times> int) option" where
  "tone_ended c = do {
     let stop = cd_n c;
     on \<leftarrow> set_cell (cd_on c) stop (cd_run c);
     let c = c\<lparr>cd_on := on, cd_n := stop + 1\<rparr>;
     (c, matched) \<leftarrow> (if stop = 0 then Some (c\<lparr>cd_failures := cd_failures c + 1\<rparr>, False)
       else if cd_n c \<ge> cd_cycles c then map_option (Pair c) (cadence_match c (cd_n c - 1))
       else Some (c, False));
     let c = (if cd_n c > CADENCE_MAX_PERIODS - 1 then c\<lparr>cd_n := 0\<rparr> else c);
     let c = c\<lparr>cd_run := 0, cd_state := CADENCE_IN_SILENCE\<rparr>;
     if matched then map_option (\<lambda>c. (c, CADENCE_DETECTED)) (start_over c) else Some (c, CADENCE_NOTHING)
   }"

definition silence_heard :: "cadence \<Rightarrow> (cadence \<times> int) option" where
  "silence_heard c =
     (if cd_state c = CADENCE_IN_SILENCE then
        (let c = c\<lparr>cd_run := cd_run c + 1\<rparr>
         in Some (if cd_run c > cd_max_silence c then c\<lparr>cd_n := 0\<rparr> else c, CADENCE_NOTHING))
      else if cd_state c = CADENCE_IN_TONE then tone_ended c
      else Some (c, CADENCE_NOTHING))"

text \<open>What follows the filter's verdict.\<close>

definition cadence_verdict :: "cadence \<Rightarrow> int \<Rightarrow> (cadence \<times> int) option" where
  "cadence_verdict c verdict = do {
     (c, result) \<leftarrow> (if verdict = TONEIIR_PRESENT then tone_heard c
       else if verdict = TONEIIR_ABSENT then silence_heard c
       else Some (c, CADENCE_NOTHING));
     if cd_failures c > CADENCE_MAX_FAILURES then map_option (\<lambda>c. (c, CADENCE_RESTART)) (start_over c)
     else Some (c, result)
   }"

definition cadence_progress :: "cadence \<Rightarrow> u16 \<Rightarrow> (cadence \<times> int) option" where
  "cadence_progress c sample = do {
     f \<leftarrow> cd_filter c;
     (f, verdict) \<leftarrow> toneiir_progress f sample;
     cadence_verdict (c\<lparr>cd_filter := Some f\<rparr>) verdict
   }"

subsection \<open>Construction\<close>

text \<open>The parameters a detector reads.\<close>

definition GetMinBusyCadenceOnTime :: nat where "GetMinBusyCadenceOnTime = 22"

definition GetMaxBusyCadenceOnTime :: nat where "GetMaxBusyCadenceOnTime = 23"

definition GetBusyDetectionCyclesNumber :: nat where "GetBusyDetectionCyclesNumber = 24"

definition GetMinBusyCadenceOffTime :: nat where "GetMinBusyCadenceOffTime = 25"

definition GetMaxBusyCadenceOffTime :: nat where "GetMaxBusyCadenceOffTime = 26"

definition GetDialToneValidationTime :: nat where "GetDialToneValidationTime = 34"

definition GetDialToneCallProgressFilterIndex :: nat where "GetDialToneCallProgressFilterIndex = 38"

definition GetDialToneDetectionThreshold :: nat where "GetDialToneDetectionThreshold = 39"

definition GetBusyToneCallProgressFilterIndex :: nat where "GetBusyToneCallProgressFilterIndex = 43"

definition GetMinRingbackCadenceOnTime :: nat where "GetMinRingbackCadenceOnTime = 46"

definition GetMaxRingbackCadenceOnTime :: nat where "GetMaxRingbackCadenceOnTime = 47"

definition GetRingbackDetectionCyclesNumber :: nat where "GetRingbackDetectionCyclesNumber = 48"

definition GetMinRingbackCadenceOffTime :: nat where "GetMinRingbackCadenceOffTime = 49"

definition GetMaxRingbackCadenceOffTime :: nat where "GetMaxRingbackCadenceOffTime = 50"

definition GetRingbackToneCallProgressFilterIndex :: nat where "GetRingbackToneCallProgressFilterIndex = 51"

definition GetMinCongestionCadenceOnTime :: nat where "GetMinCongestionCadenceOnTime = 52"

definition GetMaxCongestionCadenceOnTime :: nat where "GetMaxCongestionCadenceOnTime = 53"

definition GetCongestionDetectionCyclesNumber :: nat where "GetCongestionDetectionCyclesNumber = 54"

definition GetMinCongestionCadenceOffTime :: nat where "GetMinCongestionCadenceOffTime = 55"

definition GetMaxCongestionCadenceOffTime :: nat where "GetMaxCongestionCadenceOffTime = 56"

definition GetCongestionToneCallProgressFilterIndex :: nat where "GetCongestionToneCallProgressFilterIndex = 57"

definition GetCallProgressSamplesBufferLength :: nat where "GetCallProgressSamplesBufferLength = 58"

definition GetDialToneFilterSubindex :: nat where "GetDialToneFilterSubindex = 61"

definition GetBusyToneLooseDetectionEnabled :: nat where "GetBusyToneLooseDetectionEnabled = 62"

definition CadenceNames :: "string list" where
  "CadenceNames = [''BUSY'', ''DIAL'', ''CONG'', ''RING'', ''INVALID'']"

text \<open>Units of 10 ms to verdicts of the filter, for the inverse \<open>fp\<close> of the interval.\<close>

definition to_intervals :: "u16 \<Rightarrow> int \<Rightarrow> int" where
  "to_intervals fp t = drop_bit 14 (push_bit 4 (sint fp * t * 5))"

definition use_design :: "u16 list \<Rightarrow> u16 list \<Rightarrow> u16 list \<Rightarrow> cadence \<Rightarrow> cadence" where
  "use_design a b scales c = c\<lparr>cd_sel_a := a, cd_sel_b := b, cd_sel_scales := scales\<rparr>"

definition use_bank :: "u16 list \<Rightarrow> u16 list \<Rightarrow> u16 list \<Rightarrow> int \<Rightarrow> cadence \<Rightarrow> cadence" where
  "use_bank a b scales sub c = use_design (drop (nat (12 * (sub - 1))) a) (drop (nat (12 * (sub - 1))) b) (drop (nat (5 * (sub - 1))) scales) c"

definition select_filter :: "int \<Rightarrow> int \<Rightarrow> cadence \<Rightarrow> cadence" where
  "select_filter index sub c =
     (let c = c\<lparr>cd_sel_n_a := IIR_FILTER_COEFF, cd_sel_n_b := IIR_FILTER_COEFF\<rparr>; banked = (1 \<le> sub \<and> sub \<le> 7)
      in if index = 0 \<or> index = 2 then
           (if banked then use_bank Filter_350_500_a Filter_350_500_b Filter_350_500_scales sub c
            else use_design CP_350_600_a CP_350_600_b CP_350_600_scales c)
         else if index = 1 \<or> index = 4 \<or> index = 5 then
           (if banked then use_bank Filter_100_550_a Filter_100_550_b Filter_100_550_scales sub c
            else use_design CP_350_600_a CP_350_600_b CP_350_600_scales c)
         else if index = 3 then
           (if banked then use_bank Filter_276_504_a Filter_276_504_b Filter_276_504_scales sub c
            else use_design CP_276_504_a CP_276_504_b CP_276_504_scales c)
         else if index = 6 then
           (if banked then use_bank Filter_100_550_a Filter_100_550_b Filter_100_550_scales sub c
            else use_design CP_450_630_a CP_450_630_b CP_450_630_scales c)
         else if index = 7 then
           (if banked then use_bank Filter_350_500_a Filter_350_500_b Filter_350_500_scales sub c
            else use_design CP_100_550_a CP_100_550_b CP_100_550_scales c)
         else use_design CP_350_600_a CP_350_600_b CP_350_600_scales c)"

definition CADENCE_DEFAULT_MAX :: int where "CADENCE_DEFAULT_MAX = 55"
definition CADENCE_DEFAULT_MIN :: int where "CADENCE_DEFAULT_MIN = 20"

definition default_windows :: "cadence \<Rightarrow> cadence" where
  "default_windows c = c\<lparr>cd_max_on := CADENCE_DEFAULT_MAX, cd_min_on := CADENCE_DEFAULT_MIN,
     cd_max_off := CADENCE_DEFAULT_MAX, cd_min_off := CADENCE_DEFAULT_MIN\<rparr>"

definition windows_are_set :: "cadence \<Rightarrow> bool" where
  "windows_are_set c \<longleftrightarrow> cd_max_on c \<noteq> 0 \<and> cd_min_on c \<noteq> 0 \<and> cd_max_off c \<noteq> 0 \<and> cd_min_off c \<noteq> 0"

text \<open>The settings of a tone with a cadence: its windows, and the cycles to see.\<close>

definition read_windows :: "nat \<Rightarrow> nat \<Rightarrow> nat \<Rightarrow> nat \<Rightarrow> nat \<Rightarrow> line \<Rightarrow> cadence \<Rightarrow> cadence" where
  "read_windows max_on min_on min_off max_off cycles modem c =
     c\<lparr>cd_buflen := 160, cd_continuous := 0, cd_validation := 0, cd_max_on := ln_param modem max_on, cd_min_on := ln_param modem min_on,
       cd_min_off := ln_param modem min_off, cd_max_off := ln_param modem max_off, cd_cycles := ln_param modem cycles\<rparr>"

text \<open>What each tone sets: the filter, its design in the bank, the factor of the silence, whether the windows serve.\<close>

definition configure_tone :: "int \<Rightarrow> line \<Rightarrow> cadence \<Rightarrow> cadence \<times> int \<times> int \<times> int \<times> bool" where
  "configure_tone tone modem c =
     (let p = ln_param modem
      in if tone = CADENCE_TONE_BUSY then
           (let c = (read_windows GetMaxBusyCadenceOnTime GetMinBusyCadenceOnTime GetMinBusyCadenceOffTime GetMaxBusyCadenceOffTime
                  GetBusyDetectionCyclesNumber modem c)\<lparr>cd_looped_match := p GetBusyToneLooseDetectionEnabled\<rparr>
            in (if windows_are_set c then c else default_windows c, p GetBusyToneCallProgressFilterIndex, 0, 3, True))
         else if tone = CADENCE_TONE_CONG then
           (let c = read_windows GetMaxCongestionCadenceOnTime GetMinCongestionCadenceOnTime GetMinCongestionCadenceOffTime
                  GetMaxCongestionCadenceOffTime GetCongestionDetectionCyclesNumber modem c
            in (if windows_are_set c then c else default_windows c, p GetCongestionToneCallProgressFilterIndex, 0, 4, windows_are_set c))
         else if tone = CADENCE_TONE_RING then
           (let c = read_windows GetMaxRingbackCadenceOnTime GetMinRingbackCadenceOnTime GetMinRingbackCadenceOffTime
                  GetMaxRingbackCadenceOffTime GetRingbackDetectionCyclesNumber modem c
            in (if windows_are_set c then c else default_windows c, p GetRingbackToneCallProgressFilterIndex, 0, 4, windows_are_set c))
         else
           (let c = c\<lparr>cd_buflen := (if p GetCallProgressSamplesBufferLength = 0 then 666 else p GetCallProgressSamplesBufferLength)\<rparr>;
                c = c\<lparr>cd_continuous := 1, cd_validation := 100 * p GetDialToneValidationTime, cd_max_off := 0, cd_max_on := 0\<rparr>
            in (c, p GetDialToneCallProgressFilterIndex, p GetDialToneFilterSubindex, 4, True)))"

definition convert_windows :: "u16 \<Rightarrow> int \<Rightarrow> cadence \<Rightarrow> cadence" where
  "convert_windows fp silence_mult c =
     c\<lparr>cd_max_on := to_intervals fp (cd_max_on c), cd_min_on := to_intervals fp (cd_min_on c),
       cd_max_off := to_intervals fp (cd_max_off c), cd_min_off := to_intervals fp (cd_min_off c),
       cd_max_silence := silence_mult * to_intervals fp (cd_max_off c)\<rparr>"

text \<open>The configuration of the filter, over the default one.\<close>

definition filter_cfg :: "cadence \<Rightarrow> int \<Rightarrow> toneiir_cfg" where
  "filter_cfg c extra =
     (let cfg = toneiir_get_default_configuration
      in cfg\<lparr>ti_a := cd_sel_a c, ti_b := cd_sel_b c, ti_n_a := cd_sel_n_a c, ti_n_b := cd_sel_n_b c, ti_interval := cd_buflen c,
        ti_threshold := (ti_threshold cfg AND NOT 0xffff) OR uint (cd_threshold c),
        ti_duration_ms := (extra + 1) * cd_validation c, ti_keep_on_gap := cd_continuous c, ti_scales := cd_sel_scales c\<rparr>)"

text \<open>The object \<^verbatim>\<open>malloc\<close> gives, cleared.\<close>

definition zero_cadence :: "line \<Rightarrow> cadence" where
  "zero_cadence modem = \<lparr>cd_filter = None, cd_state = 0, cd_run = 0, cd_on = replicate 60 0, cd_off = replicate 60 0, cd_n = 0,
     cd_failures = 0, cd_max_on = 0, cd_max_off = 0, cd_min_on = 0, cd_min_off = 0, cd_cycles = 0, cd_continuous = 0,
     cd_max_silence = 0, cd_int_274 = 0, cd_int_278 = 0, cd_int_27c = 0, cd_sel_n_a = 0, cd_sel_n_b = 0, cd_sel_a = [], cd_sel_b = [],
     cd_sel_scales = [], cd_threshold = 0, cd_validation = 0, cd_buflen = 0, cd_name = [], cd_int_2a4 = 0, cd_use_allpass = 0,
     cd_looped_match = 0, cd_pattern = replicate 4 0, cd_fixed_pattern = 0, cd_pattern_min_cycles = 0, cd_modem = modem\<rparr>"

text \<open>The tone as it is written back and names the detector; the settings after the windows.\<close>

definition clamped_tone :: "cadence_setup \<Rightarrow> int" where
  "clamped_tone s = (if cs_tone s < 0 \<or> cs_tone s > CADENCE_TONE_INVALID then CADENCE_TONE_INVALID else cs_tone s)"

definition final_settings :: "cadence_setup \<Rightarrow> int \<Rightarrow> cadence \<Rightarrow> cadence" where
  "final_settings s extra c =
     (let c = (if extra > 0 then c\<lparr>cd_continuous := 0\<rparr> else c);
          c = c\<lparr>cd_int_2a4 := cs_w6 s, cd_name := CadenceNames ! nat (clamped_tone s)\<rparr>
      in c\<lparr>cd_validation := (if cd_validation c > 100 then cd_validation c - 100 else cd_validation c)\<rparr>)"

text \<open>
  \<open>c\<close> is the object passed in, \<open>room\<close> whether there is memory for one, \<open>heap\<close> the memory of the filter.
  The result is the detector, if there is one, and the setup after the call.
\<close>

definition cadence_create :: "cadence option \<Rightarrow> bool \<Rightarrow> toneiir option \<Rightarrow> cadence_setup \<Rightarrow> int \<Rightarrow> line \<Rightarrow> (cadence option \<times> cadence_setup) option" where
  "cadence_create c room heap s extra modem =
     (case (if c = None \<and> room then Some (zero_cadence modem) else c) of None \<Rightarrow> Some (None, s)
      | Some c \<Rightarrow> do {
        threshold \<leftarrow> Get_Detection_Threshold_Table (of_int (ln_param modem GetDialToneDetectionThreshold));
        let c = c\<lparr>cd_modem := modem, cd_use_allpass := 0, cd_continuous := 0, cd_threshold := threshold, cd_cycles := 100, cd_looped_match := 0\<rparr>;
        let (c, index, sub, silence_mult, usable) = configure_tone (cs_tone s) modem c;
        let c = select_filter index sub c;
        fp \<leftarrow> GetFP_Value 1 (of_int (cd_buflen c));
        let c = convert_windows fp silence_mult c;
        if \<not> usable then Some (None, s)
        else do {
          let c = final_settings s extra c;
          filter \<leftarrow> toneiir_create (cd_filter c) heap (Some (filter_cfg c extra));
          Some (Some (c\<lparr>cd_filter := filter, cd_n := 0, cd_state := CADENCE_IN_SILENCE, cd_run := 0,
            cd_int_278 := to_intervals fp (cd_int_278 c), cd_int_274 := to_intervals fp (cd_int_274 c),
            cd_fixed_pattern := 0, cd_int_27c := cs_w3 s\<rparr>), s\<lparr>cs_tone := clamped_tone s\<rparr>)
        }
      })"

subsection \<open>Destruction\<close>

text \<open>The blocks that go back to the heap, in order; a filter is a block of its own.\<close>

datatype detector_block = FilterBlock | ToneBlock | CadenceBlock

definition iir_filter_delete :: "iir_filter option \<Rightarrow> detector_block list" where
  "iir_filter_delete f = (if f \<noteq> None then [FilterBlock] else [])"

definition toneiir_delete :: "detector_block list" where
  "toneiir_delete = [ToneBlock]"

definition cadence_delete :: "cadence \<Rightarrow> detector_block list" where
  "cadence_delete c = (if cd_filter c \<noteq> None then toneiir_delete else []) @ [CadenceBlock]"

text \<open>A configuration no detector uses.\<close>

definition CP_allpass_b :: "u16 list" where "CP_allpass_b = [1]"

definition toneiir_configuration_allpass :: toneiir_cfg where
  "toneiir_configuration_allpass =
     \<lparr>ti_a = [], ti_b = CP_allpass_b, ti_n_a = 0, ti_n_b = 1, ti_interval = 500, ti_stability = 11467,
      ti_status = 2, ti_threshold = 80, ti_duration_ms = 2200, ti_gap_tolerance = 4, ti_keep_on_gap = 0, ti_scales = []\<rparr>"

end
