(* ===== verification/CadenceProps.thy ===== *)
theory CadenceProps
  imports Cadence
begin

text \<open>
  The cadence detector on runs of verdicts: it stays inside its arrays, it answers a steady cadence at
  the tone its settings say, and once it has given up it goes on giving up.
\<close>

subsection \<open>Memory\<close>

definition cadence_ok :: "cadence \<Rightarrow> bool" where
  "cadence_ok c \<longleftrightarrow> (\<exists>f. cd_filter c = Some f \<and> tone_ok f) \<and> length (cd_on c) = 60 \<and> length (cd_off c) = 60 \<and>
     length (cd_pattern c) = 4 \<and> 0 \<le> cd_n c \<and> cd_n c < 60 \<and> 1 \<le> cd_cycles c"

lemma some_false [simp]: "\<exists>b. \<not> b" "Ex Not"
  by auto

lemma cell_in: "0 \<le> i \<Longrightarrow> i < int (length xs) \<Longrightarrow> cell xs i = Some (xs ! nat i)"
  by (simp add: cell_def rd_at_def nat_less_iff)

lemma set_cell_in: "0 \<le> i \<Longrightarrow> i < int (length xs) \<Longrightarrow> set_cell xs i v = Some (xs[nat i := v])"
  by (simp add: set_cell_def wr_at_def nat_less_iff)

lemma near_cell_in: "0 \<le> i \<Longrightarrow> i < int (length xs) \<Longrightarrow> near_cell tol v xs i = Some (adiff v (xs ! nat i) < tol)"
  by (simp add: near_cell_def cell_in)

lemma all_tests_total: "list_all (\<lambda>p. p \<noteq> None) ps \<Longrightarrow> \<exists>b. all_tests ps = Some b"
  by (induction ps) auto

lemma match_fixed_total:
  assumes "length (cd_on c) = 60" "length (cd_off c) = 60" "length (cd_pattern c) = 4"
  shows "\<exists>b. match_fixed c stop tol = Some b"
proof (cases "cd_pattern_min_cycles c > stop")
  case False
  moreover have "\<exists>b. all_tests [within tol (cd_on c) 0 (cd_pattern c) 0, within tol (cd_off c) 1 (cd_pattern c) 1,
      within tol (cd_on c) 1 (cd_pattern c) 2, within tol (cd_off c) 2 (cd_pattern c) 3] = Some b"
    using assms by (intro all_tests_total) (simp add: within_def cell_in)
  ultimately show ?thesis by (simp only: match_fixed_def if_False)
qed (simp add: match_fixed_def)

lemma match_looped_total:
  assumes "length (cd_on c) = 60" "length (cd_off c) = 60" "1 \<le> cd_cycles c" "0 \<le> stop" "stop < 60"
  shows "\<exists>b. match_looped c stop tol = Some b"
proof (cases "cd_cycles c - 1 > stop")
  case True
  then show ?thesis using assms by (simp add: match_looped_def cell_in)
next
  case False
  have "\<exists>b. earlier_periods c stop off_last tol ok = Some b \<and> True" for off_last ok
    unfolding earlier_periods_def
  proof (rule for_loop_inv)
    fix k :: nat and b assume k: "1 \<le> k" "k < 1 + nat (cd_cycles c - 2)"
    then have i: "0 \<le> stop - int k" "stop - int k < 60" using False assms(4,5) by linarith+
    have "\<exists>b. all_tests [near_cell tol off_last (cd_off c) (stop - int k), do { v \<leftarrow> cell (cd_on c) stop; near_cell tol v (cd_on c) (stop - int k) }] = Some b"
      using assms i by (intro all_tests_total) (simp add: near_cell_in cell_in)
    then show "\<exists>s'. do { same \<leftarrow> all_tests [near_cell tol off_last (cd_off c) (stop - int k),
       do { on_last \<leftarrow> cell (cd_on c) stop; near_cell tol on_last (cd_on c) (stop - int k) }]; Some (b \<and> same) } = Some s' \<and> True"
      by (auto simp del: all_tests.simps)
  qed simp
  then have e: "\<exists>b. (if cd_cycles c > 2 then earlier_periods c stop off_last tol ok else Some ok) = Some b" for off_last ok by simp
  have i: "0 \<le> stop - cd_cycles c + 1" "stop - cd_cycles c + 1 < 60" using False assms(3,4,5) by linarith+
  obtain b where b: "(if cd_cycles c > 2 then earlier_periods c stop (cd_off c ! nat stop) tol (in_windows c (cd_off c ! nat stop) (cd_on c ! nat stop))
      else Some (in_windows c (cd_off c ! nat stop) (cd_on c ! nat stop))) = Some b" using e by blast
  show ?thesis using False assms i b by (simp add: match_looped_def cell_in near_cell_in Let_def)
qed

lemma match_unrolled_total:
  assumes "length (cd_on c) = 60" "length (cd_off c) = 60" "stop < 60"
  shows "\<exists>b. match_unrolled c stop tol = Some b"
proof (cases "cd_cycles c - 1 > stop \<or> stop \<le> 1")
  case False
  then have s: "\<And>j. 0 \<le> j \<Longrightarrow> j \<le> 2 \<Longrightarrow> cell (cd_off c) (stop - j) = Some (cd_off c ! nat (stop - j))" "cell (cd_off c) stop = Some (cd_off c ! nat stop)"
      "cell (cd_on c) stop = Some (cd_on c ! nat stop)" using assms by (auto intro: cell_in)
  have one: "\<exists>b. all_tests [Some (adiff v w < tol), near_cell tol v (cd_off c) (stop - 2), near_cell tol u (cd_on c) (stop - 1), near_cell tol u (cd_on c) (stop - 2)] = Some b" for u v w
    using False assms by (intro all_tests_total) (simp add: near_cell_in)
  have two: "\<exists>b. (if stop > 5 then all_tests [near_cell tol v (cd_off c) (stop - 2), near_cell tol v (cd_off c) (stop - 4), near_cell tol u (cd_on c) (stop - 2),
      near_cell tol u (cd_on c) (stop - 4), near_cell tol w (cd_off c) (stop - 3), near_cell tol w (cd_off c) (stop - 5)] else Some False) = Some b" for u v w
  proof (cases "stop > 5")
    case True
    then have "\<exists>b. all_tests [near_cell tol v (cd_off c) (stop - 2), near_cell tol v (cd_off c) (stop - 4), near_cell tol u (cd_on c) (stop - 2),
        near_cell tol u (cd_on c) (stop - 4), near_cell tol w (cd_off c) (stop - 3), near_cell tol w (cd_off c) (stop - 5)] = Some b"
      using assms by (intro all_tests_total) (simp add: near_cell_in)
    then show ?thesis using True by (simp only: if_True)
  qed simp
  let ?v = "cd_off c ! nat stop" and ?u = "cd_on c ! nat stop" and ?w = "cd_off c ! nat (stop - 1)"
  obtain x where x: "all_tests [Some (adiff ?v ?w < tol), near_cell tol ?v (cd_off c) (stop - 2), near_cell tol ?u (cd_on c) (stop - 1), near_cell tol ?u (cd_on c) (stop - 2)] = Some x"
    using one by blast
  obtain y where y: "(if stop > 5 then all_tests [near_cell tol ?v (cd_off c) (stop - 2), near_cell tol ?v (cd_off c) (stop - 4), near_cell tol ?u (cd_on c) (stop - 2),
      near_cell tol ?u (cd_on c) (stop - 4), near_cell tol ?w (cd_off c) (stop - 3), near_cell tol ?w (cd_off c) (stop - 5)] else Some False) = Some y" using two by blast
  show ?thesis unfolding match_unrolled_def s(2,3) s(1) [of 1, simplified] Option.bind.bind_lunit x y using False by simp
qed (simp add: match_unrolled_def)

lemma cadence_match_total:
  assumes "length (cd_on c) = 60" "length (cd_off c) = 60" "length (cd_pattern c) = 4" "1 \<le> cd_cycles c" "0 \<le> stop" "stop < 60"
  shows "\<exists>b. cadence_match c stop = Some b"
  using match_fixed_total [OF assms(1-3)] match_looped_total [OF assms(1,2,4-6)] match_unrolled_total [OF assms(1,2,6)]
  by (simp add: cadence_match_def Let_def)

lemma start_over_ok: "cadence_ok c \<Longrightarrow> \<exists>c'. start_over c = Some c' \<and> cadence_ok c' \<and> cd_failures c' = cd_failures c"
  by (auto simp: cadence_ok_def start_over_def toneiir_reset_ok)

lemma tone_heard_ok:
  assumes "cadence_ok c"
  shows "\<exists>c' r. tone_heard c = Some (c', r) \<and> cadence_ok c' \<and> cd_failures c' = cd_failures c \<and> r \<in> {CADENCE_NOTHING, CADENCE_DETECTED}"
  using assms by (auto simp: tone_heard_def cadence_ok_def set_cell_in Let_def)

lemma tone_ended_ok:
  assumes "cadence_ok c"
  shows "\<exists>c' r. tone_ended c = Some (c', r) \<and> cadence_ok c' \<and> cd_failures c \<le> cd_failures c' \<and> r \<in> {CADENCE_NOTHING, CADENCE_DETECTED}"
proof -
  have ok: "length (cd_on c) = 60" "length (cd_off c) = 60" "length (cd_pattern c) = 4" "0 \<le> cd_n c" "cd_n c < 60" "1 \<le> cd_cycles c"
    using assms by (simp_all add: cadence_ok_def)
  let ?c = "c\<lparr>cd_on := (cd_on c)[nat (cd_n c) := cd_run c], cd_n := cd_n c + 1\<rparr>"
  obtain b where b: "cadence_match ?c (cd_n c) = Some b" using cadence_match_total [of ?c "cd_n c"] ok by auto
  let ?r = "if cd_n c = 0 then (?c\<lparr>cd_failures := cd_failures c + 1\<rparr>, False) else (?c, cd_n c + 1 \<ge> cd_cycles c \<and> b)"
  let ?e = "(if cd_n (fst ?r) > CADENCE_MAX_PERIODS - 1 then (fst ?r)\<lparr>cd_n := 0\<rparr> else fst ?r)\<lparr>cd_run := 0, cd_state := CADENCE_IN_SILENCE\<rparr>"
  have e: "cadence_ok ?e" "cd_failures c \<le> cd_failures ?e" using assms by (auto simp: cadence_ok_def CADENCE_MAX_PERIODS_def)
  have "tone_ended c = (if snd ?r then map_option (\<lambda>c. (c, CADENCE_DETECTED)) (start_over ?e) else Some (?e, CADENCE_NOTHING))"
    using ok b by (auto simp: tone_ended_def set_cell_in Let_def)
  then show ?thesis using e start_over_ok [OF e(1)] by (cases "snd ?r") auto
qed

lemma silence_heard_ok:
  assumes "cadence_ok c"
  shows "\<exists>c' r. silence_heard c = Some (c', r) \<and> cadence_ok c' \<and> cd_failures c \<le> cd_failures c' \<and> r \<in> {CADENCE_NOTHING, CADENCE_DETECTED}"
proof (cases "cd_state c = CADENCE_IN_TONE")
  case True
  then show ?thesis using tone_ended_ok [OF assms] by (simp add: silence_heard_def CADENCE_IN_TONE_def CADENCE_IN_SILENCE_def)
next
  case False
  then show ?thesis using assms by (auto simp: silence_heard_def cadence_ok_def Let_def)
qed

lemma verdict_ok:
  assumes "cadence_ok c"
  shows "\<exists>c' r. cadence_verdict c v = Some (c', r) \<and> cadence_ok c' \<and> cd_failures c \<le> cd_failures c' \<and>
    r \<in> {CADENCE_NOTHING, CADENCE_DETECTED, CADENCE_RESTART} \<and> (CADENCE_MAX_FAILURES < cd_failures c \<longrightarrow> r = CADENCE_RESTART)"
proof -
  obtain e r where e: "(if v = TONEIIR_PRESENT then tone_heard c else if v = TONEIIR_ABSENT then silence_heard c
       else Some (c, CADENCE_NOTHING)) = Some (e, r)" "cadence_ok e" "cd_failures c \<le> cd_failures e" "r \<in> {CADENCE_NOTHING, CADENCE_DETECTED}"
    using tone_heard_ok [OF assms] silence_heard_ok [OF assms] assms by (cases "v = TONEIIR_PRESENT"; cases "v = TONEIIR_ABSENT") auto
  show ?thesis unfolding cadence_verdict_def e(1) using e(2-4) start_over_ok [OF e(2)] by auto
qed

lemma progress_ok:
  assumes "cadence_ok c"
  shows "\<exists>c' r. cadence_progress c sample = Some (c', r) \<and> cadence_ok c' \<and> cd_failures c \<le> cd_failures c' \<and>
    r \<in> {CADENCE_NOTHING, CADENCE_DETECTED, CADENCE_RESTART} \<and> (CADENCE_MAX_FAILURES < cd_failures c \<longrightarrow> r = CADENCE_RESTART)"
proof -
  obtain f where f: "cd_filter c = Some f" "tone_ok f" using assms by (auto simp: cadence_ok_def)
  obtain g v where g: "toneiir_progress f sample = Some (g, v)" "tone_ok g" using progress_ticks [OF f(2)] by blast
  have "cadence_ok (c\<lparr>cd_filter := Some g\<rparr>)" using assms g(2) by (simp add: cadence_ok_def)
  then show ?thesis using verdict_ok [of "c\<lparr>cd_filter := Some g\<rparr>" v] f(1) g(1) by (simp add: cadence_progress_def)
qed

subsection \<open>Samples in a row\<close>

fun cadence_run :: "cadence \<Rightarrow> u16 list \<Rightarrow> (cadence \<times> int list) option" where
  "cadence_run c [] = Some (c, [])"
| "cadence_run c (v # vs) = do { (c, r) \<leftarrow> cadence_progress c v; (c, rs) \<leftarrow> cadence_run c vs; Some (c, r # rs) }"

text \<open>C21: a well-formed detector stays well-formed on any samples and never reads or writes outside its arrays, and every
  answer is one of the three codes.\<close>

theorem cadence_stays_ok:
  assumes "cadence_ok c"
  shows "\<exists>c' rs. cadence_run c vs = Some (c', rs) \<and> cadence_ok c' \<and> length rs = length vs \<and>
    set rs \<subseteq> {CADENCE_NOTHING, CADENCE_DETECTED, CADENCE_RESTART} \<and> cd_failures c \<le> cd_failures c'"
  using assms
proof (induction vs arbitrary: c)
  case (Cons v vs)
  obtain e r where e: "cadence_progress c v = Some (e, r)" "cadence_ok e" "cd_failures c \<le> cd_failures e"
      "r \<in> {CADENCE_NOTHING, CADENCE_DETECTED, CADENCE_RESTART}" using progress_ok [OF Cons.prems] by blast
  then show ?case using Cons.IH [OF e(2)] by (auto intro: order_trans)
qed simp

text \<open>Once more than nine cycles have counted as failures, every further sample gives up again, whatever is heard:
  only a reset clears the count.\<close>

theorem cadence_given_up:
  assumes "cadence_ok c" and "CADENCE_MAX_FAILURES < cd_failures c"
  shows "\<exists>c'. cadence_run c vs = Some (c', replicate (length vs) CADENCE_RESTART)"
  using assms
proof (induction vs arbitrary: c)
  case (Cons v vs)
  obtain e where e: "cadence_progress c v = Some (e, CADENCE_RESTART)" "cadence_ok e" "cd_failures c \<le> cd_failures e"
    using progress_ok [OF Cons.prems(1), of v] Cons.prems(2) by auto
  then obtain c' where "cadence_run e vs = Some (c', replicate (length vs) CADENCE_RESTART)" using Cons.IH [OF e(2)] Cons.prems(2) by auto
  then show ?case using e(1) by simp
qed simp

subsection \<open>A steady cadence\<close>

fun hear :: "cadence \<Rightarrow> int list \<Rightarrow> (cadence \<times> int list) option" where
  "hear c [] = Some (c, [])"
| "hear c (v # vs) = do { (c, r) \<leftarrow> cadence_verdict c v; (c, rs) \<leftarrow> hear c vs; Some (c, r # rs) }"

lemma hear_append: "hear c (vs @ ws) = do { (c, rs) \<leftarrow> hear c vs; (c, rs') \<leftarrow> hear c ws; Some (c, rs @ rs') }"
  by (induction vs arbitrary: c) (auto split: Option.bind_split)

abbreviation silent :: "nat \<Rightarrow> int list" where "silent k \<equiv> replicate k TONEIIR_ABSENT"

abbreviation sounding :: "nat \<Rightarrow> int list" where "sounding k \<equiv> replicate k TONEIIR_PRESENT"

abbreviation nothing :: "nat \<Rightarrow> int list" where "nothing k \<equiv> replicate k CADENCE_NOTHING"

text \<open>A detector of the third form, the one that measures both halves and compares the last periods.\<close>

definition third_form :: "cadence \<Rightarrow> bool" where
  "third_form c \<longleftrightarrow> cadence_ok c \<and> cd_continuous c = 0 \<and> cd_fixed_pattern c = 0 \<and> cd_looped_match c = 0 \<and> cd_max_on c \<noteq> 0"

text \<open>The detector with \<open>k\<close> cycles recorded and \<open>run\<close> verdicts of silence or tone since.\<close>

definition recorded :: "cadence \<Rightarrow> int \<Rightarrow> nat \<Rightarrow> int \<Rightarrow> int list \<Rightarrow> int list \<Rightarrow> int \<Rightarrow> cadence" where
  "recorded c state k run on off failures =
     c\<lparr>cd_state := state, cd_n := int k, cd_run := run, cd_on := on, cd_off := off, cd_failures := failures\<rparr>"

lemma recorded_fields [simp]:
  "cd_state (recorded c st k run on off f) = st" "cd_n (recorded c st k run on off f) = int k" "cd_run (recorded c st k run on off f) = run"
  "cd_on (recorded c st k run on off f) = on" "cd_off (recorded c st k run on off f) = off" "cd_failures (recorded c st k run on off f) = f"
  "cd_continuous (recorded c st k run on off f) = cd_continuous c" "cd_fixed_pattern (recorded c st k run on off f) = cd_fixed_pattern c"
  "cd_looped_match (recorded c st k run on off f) = cd_looped_match c" "cd_max_on (recorded c st k run on off f) = cd_max_on c"
  "cd_min_on (recorded c st k run on off f) = cd_min_on c" "cd_max_off (recorded c st k run on off f) = cd_max_off c"
  "cd_min_off (recorded c st k run on off f) = cd_min_off c" "cd_max_silence (recorded c st k run on off f) = cd_max_silence c"
  "cd_cycles (recorded c st k run on off f) = cd_cycles c" "cd_modem (recorded c st k run on off f) = cd_modem c"
  "cd_filter (recorded c st k run on off f) = cd_filter c"
  by (simp_all add: recorded_def)

lemma recorded_updates:
  "(recorded c st k run on off f)\<lparr>cd_n := 0\<rparr> = recorded c st 0 run on off f"
  "(recorded c st k run on off f)\<lparr>cd_run := r\<rparr> = recorded c st k r on off f"
  "(recorded c st k run on off f)\<lparr>cd_state := s\<rparr> = recorded c s k run on off f"
  by (simp_all add: recorded_def)

lemma silence_step:
  assumes "f \<le> CADENCE_MAX_FAILURES" and "k = 0 \<or> run + 1 \<le> cd_max_silence c"
  shows "cadence_verdict (recorded c CADENCE_IN_SILENCE k run on off f) TONEIIR_ABSENT =
    Some (recorded c CADENCE_IN_SILENCE k (run + 1) on off f, CADENCE_NOTHING)"
  using assms by (auto simp: cadence_verdict_def silence_heard_def recorded_def verdict_numbers Let_def)

lemma silence_run:
  assumes "f \<le> CADENCE_MAX_FAILURES" and "k = 0 \<or> run + int j \<le> cd_max_silence c"
  shows "hear (recorded c CADENCE_IN_SILENCE k run on off f) (silent j) =
    Some (recorded c CADENCE_IN_SILENCE k (run + int j) on off f, nothing j)"
  using assms(2)
proof (induction j arbitrary: run)
  case (Suc j)
  have "k = 0 \<or> run + 1 \<le> cd_max_silence c" "k = 0 \<or> (run + 1) + int j \<le> cd_max_silence c" using Suc.prems by auto
  then show ?case using silence_step [OF assms(1), of k run c on off] Suc.IH [of "run + 1"] by (simp add: ac_simps)
qed simp

lemma tone_start:
  assumes "f \<le> CADENCE_MAX_FAILURES" and "third_form c" and "k < length off"
  shows "cadence_verdict (recorded c CADENCE_IN_SILENCE k run on off f) TONEIIR_PRESENT =
    Some (recorded c CADENCE_IN_TONE k 0 on (off[k := run]) f, CADENCE_NOTHING)"
  using assms by (simp add: cadence_verdict_def tone_heard_def third_form_def set_cell_in CADENCE_IN_TONE_def CADENCE_IN_SILENCE_def Let_def)
    (simp add: recorded_def)

lemma tone_held:
  assumes "f \<le> CADENCE_MAX_FAILURES" and "third_form c"
  shows "hear (recorded c CADENCE_IN_TONE k run on off f) (sounding j) =
    Some (recorded c CADENCE_IN_TONE k (run + int j) on off f, nothing j)"
proof (induction j arbitrary: run)
  case (Suc j)
  have "cadence_verdict (recorded c CADENCE_IN_TONE k run on off f) TONEIIR_PRESENT =
      Some (recorded c CADENCE_IN_TONE k (run + 1) on off f, CADENCE_NOTHING)"
    using assms by (simp add: cadence_verdict_def tone_heard_def third_form_def Let_def) (simp add: recorded_def)
  then show ?case using Suc.IH [of "run + 1"] by (simp add: ac_simps)
qed simp

text \<open>A tone of \<open>p + 1\<close> verdicts after a silence of \<open>run + q\<close>, up to the verdict that ends it.\<close>

lemma one_cycle:
  assumes f: "f \<le> CADENCE_MAX_FAILURES" and c: "third_form c" and k: "k < length off" and q: "k = 0 \<or> run + int q \<le> cd_max_silence c"
  shows "hear (recorded c CADENCE_IN_SILENCE k run on off f) (silent q @ sounding (p + 1)) =
    Some (recorded c CADENCE_IN_TONE k (int p) on (off[k := run + int q]) f, nothing (q + (p + 1)))"
  using silence_run [OF f q, of on off] tone_start [OF f c k, of "run + int q" on] tone_held [OF f c, of k 0 on "off[k := run + int q]" p]
  by (simp add: hear_append replicate_add replicate_append_same)

text \<open>Tones of \<open>p\<close>, silences of \<open>q\<close> but for the first, which lasted \<open>s0\<close>, up to cycle \<open>k\<close>.\<close>

definition steady :: "int \<Rightarrow> int \<Rightarrow> int \<Rightarrow> nat \<Rightarrow> int list \<Rightarrow> int list \<Rightarrow> bool" where
  "steady p q s0 k on off \<longleftrightarrow> length on = 60 \<and> length off = 60 \<and> (\<forall>i < k. on ! i = p) \<and> (\<forall>i. 0 < i \<and> i < k \<longrightarrow> off ! i = q) \<and>
     (0 < k \<longrightarrow> off ! 0 = s0)"

lemma adiff_same [simp]: "adiff v v = 0"
  by (simp add: adiff_def)

lemma match_steady:
  assumes c: "cd_fixed_pattern c = 0" "cd_looped_match c = 0" and st: "steady p q s0 (Suc k) (cd_on c) (cd_off c)" and k: "1 \<le> k" "k < 60"
    and w: "cd_min_on c \<le> p" "p \<le> cd_max_on c" "cd_min_off c \<le> q" "q \<le> cd_max_off c"
  shows "cadence_match c (int k) = Some (cd_cycles c - 1 \<le> int k \<and> (3 \<le> k \<or> k = 2 \<and> adiff q s0 < match_tolerance c))"
proof (cases "cd_cycles c - 1 > int k \<or> k = 1")
  case True
  then show ?thesis using c by (auto simp: cadence_match_def match_unrolled_def Let_def)
next
  case False
  let ?tol = "match_tolerance c" and ?on = "cd_on c" and ?off = "cd_off c"
  have k2: "2 \<le> k" and tol: "0 < ?tol" using False k(1) by (auto simp: match_tolerance_def Let_def)
  have l: "length ?on = 60" "length ?off = 60" and on: "\<And>i. i \<le> k \<Longrightarrow> ?on ! i = p" and off: "\<And>i. 0 < i \<Longrightarrow> i \<le> k \<Longrightarrow> ?off ! i = q" and "?off ! 0 = s0"
    using st by (simp_all add: steady_def)
  then have off2: "?off ! nat (int k - 2) = (if k = 2 then s0 else q)" using k2 by (auto simp: nat_diff_distrib)
  have idx: "nat (int k - 1) \<le> k" "nat (int k - 2) \<le> k" "0 < nat (int k - 1)" using k2 by auto
  have cells: "cell ?off (int k) = Some q" "cell ?on (int k) = Some p" "cell ?off (int k - 1) = Some q"
    using l k k2 on [of k] off [of k] off [OF idx(3,1)] by (simp_all add: cell_in)
  have one: "all_tests [Some (adiff q q < ?tol), near_cell ?tol q ?off (int k - 2), near_cell ?tol p ?on (int k - 1), near_cell ?tol p ?on (int k - 2)] =
      Some (k \<noteq> 2 \<or> adiff q s0 < ?tol)"
    using l k k2 on [OF idx(1)] on [OF idx(2)] off2 tol by (simp add: near_cell_in)
  have two: "\<exists>b. (if int k > 5 then all_tests [near_cell ?tol q ?off (int k - 2), near_cell ?tol q ?off (int k - 4),
      near_cell ?tol p ?on (int k - 2), near_cell ?tol p ?on (int k - 4), near_cell ?tol q ?off (int k - 3), near_cell ?tol q ?off (int k - 5)]
      else Some False) = Some b \<and> (k \<le> 5 \<longrightarrow> \<not> b)"
  proof (cases "int k > 5")
    case True
    then have "\<exists>b. all_tests [near_cell ?tol q ?off (int k - 2), near_cell ?tol q ?off (int k - 4),
        near_cell ?tol p ?on (int k - 2), near_cell ?tol p ?on (int k - 4), near_cell ?tol q ?off (int k - 3), near_cell ?tol q ?off (int k - 5)] = Some b"
      using l k by (intro all_tests_total) (simp add: near_cell_in)
    then show ?thesis using True by (simp only: if_True) auto
  qed simp
  then obtain b where b: "(if int k > 5 then all_tests [near_cell ?tol q ?off (int k - 2), near_cell ?tol q ?off (int k - 4),
      near_cell ?tol p ?on (int k - 2), near_cell ?tol p ?on (int k - 4), near_cell ?tol q ?off (int k - 3), near_cell ?tol q ?off (int k - 5)]
      else Some False) = Some b" "k \<le> 5 \<longrightarrow> \<not> b" by blast
  have "match_unrolled c (int k) ?tol = Some ((k \<noteq> 2 \<or> adiff q s0 < ?tol) \<or> b)"
    unfolding match_unrolled_def cells Option.bind.bind_lunit one b(1) using False k2 w by simp
  then show ?thesis using c False k2 b(2) by (auto simp: cadence_match_def Let_def)
qed

text \<open>The verdict that ends a tone.\<close>

lemma first_tone_ends:
  assumes "f < CADENCE_MAX_FAILURES" and "length on = 60"
  shows "cadence_verdict (recorded c CADENCE_IN_TONE 0 run on off f) TONEIIR_ABSENT =
    Some (recorded c CADENCE_IN_SILENCE 1 0 (on[0 := run]) off (f + 1), CADENCE_NOTHING)"
  using assms by (simp add: cadence_verdict_def silence_heard_def tone_ended_def set_cell_in verdict_numbers
      CADENCE_IN_TONE_def CADENCE_IN_SILENCE_def CADENCE_MAX_PERIODS_def Let_def) (simp add: recorded_def)

lemma later_tone_ends:
  assumes f: "f \<le> CADENCE_MAX_FAILURES" and c: "third_form c" and st: "steady p q s0 (Suc k) (on[k := p]) off" and k: "1 \<le> k" "k < 60"
    and w: "cd_min_on c \<le> p" "p \<le> cd_max_on c" "cd_min_off c \<le> q" "q \<le> cd_max_off c"
  defines "hit \<equiv> cd_cycles c - 1 \<le> int k \<and> (3 \<le> k \<or> k = 2 \<and> adiff q s0 < match_tolerance c)"
  shows "cadence_verdict (recorded c CADENCE_IN_TONE k p on off f) TONEIIR_ABSENT =
    Some (if hit then (the (start_over (recorded c CADENCE_IN_SILENCE (if k = 59 then 0 else Suc k) 0 (on[k := p]) off f)), CADENCE_DETECTED)
      else (recorded c CADENCE_IN_SILENCE (if k = 59 then 0 else Suc k) 0 (on[k := p]) off f, CADENCE_NOTHING))"
proof -
  let ?r = "recorded c CADENCE_IN_TONE (Suc k) p (on[k := p]) off f"
  have l: "length on = 60" using st by (simp add: steady_def)
  have c': "cd_fixed_pattern c = 0" "cd_looped_match c = 0" "\<exists>g. cd_filter c = Some g" using c by (auto simp: third_form_def cadence_ok_def)
  have m: "cadence_match ?r (int k) = Some hit" unfolding hit_def using match_steady [of ?r p q s0 k] c' st k w by (simp add: match_tolerance_def)
  have u: "recorded c CADENCE_IN_TONE k p on off f\<lparr>cd_on := on[k := p], cd_n := int k + 1\<rparr> = ?r" by (simp add: recorded_def)
  have h: "hit \<Longrightarrow> int k + 1 \<ge> cd_cycles c" by (simp add: hit_def)
  have n: "int (Suc k) = int k + 1" by simp
  have "tone_ended (recorded c CADENCE_IN_TONE k p on off f) =
      (if hit then map_option (\<lambda>c. (c, CADENCE_DETECTED)) (start_over (recorded c CADENCE_IN_SILENCE (if k = 59 then 0 else Suc k) 0 (on[k := p]) off f))
       else Some (recorded c CADENCE_IN_SILENCE (if k = 59 then 0 else Suc k) 0 (on[k := p]) off f, CADENCE_NOTHING))"
    unfolding tone_ended_def Let_def recorded_fields using k l m h
    by (simp add: set_cell_in u n recorded_updates CADENCE_MAX_PERIODS_def)
  then show ?thesis using f c' 
    by (auto simp: cadence_verdict_def silence_heard_def verdict_numbers start_over_def CADENCE_IN_TONE_def CADENCE_IN_SILENCE_def)
qed

subsection \<open>A train of tones\<close>

text \<open>\<open>q\<close> verdicts of silence, \<open>p + 1\<close> of tone, and the one that ends it.\<close>

definition cycle :: "nat \<Rightarrow> nat \<Rightarrow> int list" where
  "cycle q p = silent q @ sounding (p + 1) @ [TONEIIR_ABSENT]"

lemma length_cycle [simp]: "length (cycle q p) = q + p + 2"
  by (simp add: cycle_def)

text \<open>The tone at which a steady cadence is recognised: the fourth at the earliest, unless the silence before the first one
  passes for one of the cadence.\<close>

definition hit_tone :: "cadence \<Rightarrow> nat \<Rightarrow> nat \<Rightarrow> nat" where
  "hit_tone c q s0 = (if cd_cycles c \<le> 3 \<and> adiff (int q) (int s0) < match_tolerance c then 2 else max 3 (nat (cd_cycles c - 1)))"

definition fits :: "cadence \<Rightarrow> nat \<Rightarrow> nat \<Rightarrow> bool" where
  "fits c q p \<longleftrightarrow> cd_min_on c \<le> int p \<and> int p \<le> cd_max_on c \<and> cd_min_off c \<le> int q \<and> int q \<le> cd_max_off c \<and> int q \<le> cd_max_silence c"

lemma hit_tone_iff:
  assumes "1 \<le> k"
  shows "(cd_cycles c - 1 \<le> int k \<and> (3 \<le> k \<or> k = 2 \<and> adiff (int q) (int s0) < match_tolerance c)) = (hit_tone c q s0 \<le> k)"
  using assms by (auto simp: hit_tone_def)

lemma steady_cycle:
  assumes f: "f \<le> CADENCE_MAX_FAILURES" and c: "third_form c" and w: "fits c q p"
    and st: "steady (int p) (int q) (int s0) k on off" and k: "1 \<le> k" "k < 60"
  shows "\<exists>on' off'. steady (int p) (int q) (int s0) (Suc k) on' off' \<and>
    hear (recorded c CADENCE_IN_SILENCE k 0 on off f) (cycle q p) =
      Some (if hit_tone c q s0 \<le> k
        then (the (start_over (recorded c CADENCE_IN_SILENCE (if k = 59 then 0 else Suc k) 0 on' off' f)), nothing (q + p + 1) @ [CADENCE_DETECTED])
        else (recorded c CADENCE_IN_SILENCE (if k = 59 then 0 else Suc k) 0 on' off' f, nothing (q + p + 2)))"
proof -
  let ?on = "on[k := int p]" and ?off = "off[k := int q]"
  have l: "length on = 60" "length off = 60" using st by (simp_all add: steady_def)
  have s: "steady (int p) (int q) (int s0) (Suc k) ?on ?off" using st k by (auto simp: steady_def nth_list_update less_Suc_eq)
  have o: "hear (recorded c CADENCE_IN_SILENCE k 0 on off f) (silent q @ sounding (p + 1)) =
      Some (recorded c CADENCE_IN_TONE k (int p) on ?off f, nothing (q + (p + 1)))"
    using one_cycle [OF f c, of k off 0 q on p] l k w by (simp add: fits_def)
  have e: "cadence_verdict (recorded c CADENCE_IN_TONE k (int p) on ?off f) TONEIIR_ABSENT =
    Some (if hit_tone c q s0 \<le> k
      then (the (start_over (recorded c CADENCE_IN_SILENCE (if k = 59 then 0 else Suc k) 0 ?on ?off f)), CADENCE_DETECTED)
      else (recorded c CADENCE_IN_SILENCE (if k = 59 then 0 else Suc k) 0 ?on ?off f, CADENCE_NOTHING))"
    using later_tone_ends [OF f c s k] w unfolding hit_tone_iff [OF k(1)] by (simp add: fits_def)
  have n: "nothing (q + (p + 1)) @ [CADENCE_NOTHING] = nothing (q + p + 2)" by (simp add: replicate_append_same)
  have y: "cycle q p = (silent q @ sounding (p + 1)) @ [TONEIIR_ABSENT]" by (simp add: cycle_def)
  have "hear (recorded c CADENCE_IN_SILENCE k 0 on off f) (cycle q p) =
      Some (if hit_tone c q s0 \<le> k
        then (the (start_over (recorded c CADENCE_IN_SILENCE (if k = 59 then 0 else Suc k) 0 ?on ?off f)), nothing (q + p + 1) @ [CADENCE_DETECTED])
        else (recorded c CADENCE_IN_SILENCE (if k = 59 then 0 else Suc k) 0 ?on ?off f, nothing (q + p + 2)))"
    unfolding y hear_append [of _ "silent q @ sounding (p + 1)"] o Option.bind.bind_lunit split_conv using e n by (simp add: add.assoc)
  then show ?thesis using s by blast
qed

lemma steady_train:
  assumes f: "f \<le> CADENCE_MAX_FAILURES" and c: "third_form c" and w: "fits c q p"
    and st: "steady (int p) (int q) (int s0) k on off" and k: "1 \<le> k" "k + j \<le> hit_tone c q s0" "hit_tone c q s0 < 60"
  shows "\<exists>on' off'. steady (int p) (int q) (int s0) (k + j) on' off' \<and>
    hear (recorded c CADENCE_IN_SILENCE k 0 on off f) (concat (replicate j (cycle q p))) =
      Some (recorded c CADENCE_IN_SILENCE (k + j) 0 on' off' f, nothing (j * (q + p + 2)))"
  using st k
proof (induction j arbitrary: k on off)
  case 0
  then show ?case by auto
next
  case (Suc j)
  have k: "k < 59" "\<not> hit_tone c q s0 \<le> k" using Suc.prems(3,4) by auto
  obtain on1 off1 where 1: "steady (int p) (int q) (int s0) (Suc k) on1 off1"
      "hear (recorded c CADENCE_IN_SILENCE k 0 on off f) (cycle q p) = Some (recorded c CADENCE_IN_SILENCE (Suc k) 0 on1 off1 f, nothing (q + p + 2))"
    using steady_cycle [OF f c w Suc.prems(1,2)] k by auto
  obtain on2 off2 where 2: "steady (int p) (int q) (int s0) (Suc k + j) on2 off2"
      "hear (recorded c CADENCE_IN_SILENCE (Suc k) 0 on1 off1 f) (concat (replicate j (cycle q p))) =
        Some (recorded c CADENCE_IN_SILENCE (Suc k + j) 0 on2 off2 f, nothing (j * (q + p + 2)))"
    using Suc.IH [OF 1(1)] Suc.prems(3,4) by auto
  have n: "nothing (q + p + 2) @ nothing (j * (q + p + 2)) = nothing (Suc j * (q + p + 2))" by (simp only: mult_Suc replicate_add)
  have "hear (recorded c CADENCE_IN_SILENCE k 0 on off f) (concat (replicate (Suc j) (cycle q p))) =
      Some (recorded c CADENCE_IN_SILENCE (k + Suc j) 0 on2 off2 f, nothing (Suc j * (q + p + 2)))"
    unfolding replicate_Suc concat.simps hear_append 1(2) Option.bind.bind_lunit split_conv 2(2) n by simp
  then show ?case using 2(1) by auto
qed

text \<open>C20: a steady cadence inside the windows is recognised at the end of its \<open>hit_tone\<close>th period after the first tone, at
  that verdict and none before, from any silence before it; each recognition leaves one more failure counted.\<close>

theorem steady_cadence_detected:
  assumes c: "third_form c" "cd_state c = CADENCE_IN_SILENCE" "cd_n c = 0" "cd_run c = 0" "cd_failures c < CADENCE_MAX_FAILURES"
    and w: "fits c q p" and l: "l = hit_tone c q s0" "l < 60"
  shows "\<exists>c'. hear c (cycle s0 p @ concat (replicate l (cycle q p))) = Some (c', nothing (s0 + p + 1 + l * (q + p + 2)) @ [CADENCE_DETECTED]) \<and>
    cd_failures c' = cd_failures c + 1 \<and> cd_n c' = 0 \<and> cd_state c' = CADENCE_IN_SILENCE"
proof -
  let ?f = "cd_failures c + 1" and ?on = "(cd_on c)[0 := int p]" and ?off = "(cd_off c)[0 := int s0]"
  have len: "length (cd_on c) = 60" "length (cd_off c) = 60" and g: "\<exists>g. cd_filter c = Some g" using c(1) by (auto simp: third_form_def cadence_ok_def)
  have r: "c = recorded c CADENCE_IN_SILENCE 0 0 (cd_on c) (cd_off c) (cd_failures c)" using c(2-4) by (cases c) (simp add: recorded_def)
  have o: "hear c (silent s0 @ sounding (p + 1)) = Some (recorded c CADENCE_IN_TONE 0 (int p) (cd_on c) ?off (cd_failures c), nothing (s0 + (p + 1)))"
    using one_cycle [of "cd_failures c" c 0 "cd_off c" 0 s0 "cd_on c" p] c(1,5) len r by simp
  have first: "hear c (cycle s0 p) = Some (recorded c CADENCE_IN_SILENCE 1 0 ?on ?off ?f, nothing (s0 + p + 2))"
    using first_tone_ends [OF c(5) len(1), of c "int p" ?off] o hear_append [of c "silent s0 @ sounding (p + 1)" "[TONEIIR_ABSENT]"]
    by (simp add: cycle_def replicate_append_same)
  have s1: "steady (int p) (int q) (int s0) 1 ?on ?off" using len by (simp add: steady_def)
  have l1: "2 \<le> l" "1 + (l - 1) \<le> hit_tone c q s0" "hit_tone c q s0 < 60" using l by (auto simp: hit_tone_def)
  have f: "?f \<le> CADENCE_MAX_FAILURES" using c(5) by simp
  obtain on off where t: "steady (int p) (int q) (int s0) (1 + (l - 1)) on off"
      "hear (recorded c CADENCE_IN_SILENCE 1 0 ?on ?off ?f) (concat (replicate (l - 1) (cycle q p))) =
        Some (recorded c CADENCE_IN_SILENCE (1 + (l - 1)) 0 on off ?f, nothing ((l - 1) * (q + p + 2)))"
    using steady_train [OF f c(1) w s1 order_refl l1(2,3)] by blast
  have ll: "1 + (l - 1) = l" using l1(1) by simp
  obtain on' off' where h: "hear (recorded c CADENCE_IN_SILENCE l 0 on off ?f) (cycle q p) =
      Some (the (start_over (recorded c CADENCE_IN_SILENCE (if l = 59 then 0 else Suc l) 0 on' off' ?f)), nothing (q + p + 1) @ [CADENCE_DETECTED])"
    using steady_cycle [OF f c(1) w t(1) [unfolded ll]] l l1(1) by auto
  have cut: "replicate l (cycle q p) = replicate (l - 1) (cycle q p) @ [cycle q p]"
    using l1(1) by (simp add: replicate_append_same flip: replicate_Suc)
  have n: "nothing (s0 + p + 2) @ nothing ((l - 1) * (q + p + 2)) @ nothing (q + p + 1) = nothing (s0 + p + 1 + l * (q + p + 2))"
    using l1(1) by (simp only: replicate_add [symmetric], intro arg_cong [where f = nothing]) (cases l; simp)
  let ?e = "the (start_over (recorded c CADENCE_IN_SILENCE (if l = 59 then 0 else Suc l) 0 on' off' ?f))"
  have "hear c (cycle s0 p @ concat (replicate l (cycle q p))) = Some (?e, nothing (s0 + p + 1 + l * (q + p + 2)) @ [CADENCE_DETECTED])"
    unfolding cut concat_append hear_append first t(2) [unfolded ll] Option.bind.bind_lunit split_conv using h n by (simp add: hear_append)
  moreover have "cd_failures ?e = ?f \<and> cd_n ?e = 0 \<and> cd_state ?e = CADENCE_IN_SILENCE" using g by (auto simp: start_over_def)
  ultimately show ?thesis by blast
qed

subsection \<open>Creation\<close>

lemma bank_ok:
  assumes "length a = 84" "length b = 84" "length scales = 35" "list_all (\<lambda>k. 0 \<le> sint k \<and> sint k < 32) scales" "1 \<le> sub" "sub \<le> 7"
  shows "tables_ok (drop (nat (12 * sub - 12)) a) (drop (nat (12 * sub - 12)) b) (drop (nat (5 * sub - 5)) scales)"
proof -
  have "nat (12 * sub - 12) \<le> 72" "nat (5 * sub - 5) \<le> 30" using assms(5,6) by auto
  then show ?thesis using assms(1-4) by (auto simp: tables_ok_def list_all_iff dest: in_set_dropD)
qed

lemma design_ok:
  "tables_ok CP_350_600_a CP_350_600_b CP_350_600_scales" "tables_ok CP_276_504_a CP_276_504_b CP_276_504_scales"
  "tables_ok CP_450_630_a CP_450_630_b CP_450_630_scales" "tables_ok CP_100_550_a CP_100_550_b CP_100_550_scales"
  using filter_scales by (simp_all add: tables_ok_def)

lemma select_filter_ok:
  "tables_ok (cd_sel_a (select_filter index sub c)) (cd_sel_b (select_filter index sub c)) (cd_sel_scales (select_filter index sub c))"
  using filter_scales by (simp add: select_filter_def use_bank_def use_design_def design_ok bank_ok Let_def)

lemma select_filter_fields [simp]:
  "cd_on (select_filter i b c) = cd_on c" "cd_off (select_filter i b c) = cd_off c" "cd_pattern (select_filter i b c) = cd_pattern c"
  "cd_cycles (select_filter i b c) = cd_cycles c" "cd_buflen (select_filter i b c) = cd_buflen c" "cd_filter (select_filter i b c) = cd_filter c"
  "cd_failures (select_filter i b c) = cd_failures c"
  by (simp_all add: select_filter_def use_bank_def use_design_def Let_def)

text \<open>The parameters of a tone are in range: the threshold is in its table, the cycles and the interval are positive.\<close>

definition params_ok :: "line \<Rightarrow> int \<Rightarrow> bool" where
  "params_ok modem tone \<longleftrightarrow>
     (let p = ln_param modem
      in 30 \<le> p GetDialToneDetectionThreshold \<and> p GetDialToneDetectionThreshold \<le> 45 \<and>
         (if tone = CADENCE_TONE_BUSY then 1 \<le> p GetBusyDetectionCyclesNumber
          else if tone = CADENCE_TONE_CONG then 1 \<le> p GetCongestionDetectionCyclesNumber
          else if tone = CADENCE_TONE_RING then 1 \<le> p GetRingbackDetectionCyclesNumber
          else 0 \<le> p GetCallProgressSamplesBufferLength \<and> p GetCallProgressSamplesBufferLength < 2 ^ 15))"

definition refused :: "line \<Rightarrow> int \<Rightarrow> bool" where
  "refused modem tone \<longleftrightarrow>
     tone = CADENCE_TONE_CONG \<and> (\<exists>w \<in> {GetMaxCongestionCadenceOnTime, GetMinCongestionCadenceOnTime, GetMinCongestionCadenceOffTime,
       GetMaxCongestionCadenceOffTime}. ln_param modem w = 0) \<or>
     tone = CADENCE_TONE_RING \<and> (\<exists>w \<in> {GetMaxRingbackCadenceOnTime, GetMinRingbackCadenceOnTime, GetMinRingbackCadenceOffTime,
       GetMaxRingbackCadenceOffTime}. ln_param modem w = 0)"

lemma threshold_in:
  assumes "30 \<le> v" "v \<le> 45"
  shows "\<exists>t. Get_Detection_Threshold_Table (of_int v) = Some t"
proof -
  have "sint (of_int v :: u16) = v" "sint (of_int (45 - v) :: u16) = 45 - v"
    using assms by (simp_all only: short_of_word [symmetric]) simp_all
  then show ?thesis using assms by (simp add: Get_Detection_Threshold_Table_def rd_at_def ThresholdsTable_def Let_def nat_less_iff)
qed

lemma configured:
  assumes "params_ok modem tone" and "configure_tone tone modem c = (c', index, sub, mult, usable)" and "cd_cycles c = 100"
  shows "1 \<le> cd_cycles c'" "0 < cd_buflen c'" "cd_buflen c' < 2 ^ 15" "usable = (\<not> refused modem tone)"
    "cd_on c' = cd_on c" "cd_off c' = cd_off c" "cd_pattern c' = cd_pattern c" "cd_filter c' = cd_filter c" "cd_failures c' = cd_failures c"
  using assms
  by (auto simp: configure_tone_def params_ok_def refused_def read_windows_def default_windows_def windows_are_set_def Let_def
      CADENCE_TONE_BUSY_def CADENCE_TONE_CONG_def CADENCE_TONE_RING_def split: if_splits)

lemma filter_cfg_ok:
  assumes "tables_ok (cd_sel_a c) (cd_sel_b c) (cd_sel_scales c)" and "0 < cd_buflen c"
  shows "tone_cfg_ok (filter_cfg c extra)" and "ti_interval (filter_cfg c extra) = cd_buflen c"
  using assms by (simp_all add: tone_cfg_ok_def filter_cfg_def Let_def)

lemma convert_fields [simp]:
  "cd_on (convert_windows fp m c) = cd_on c" "cd_off (convert_windows fp m c) = cd_off c" "cd_pattern (convert_windows fp m c) = cd_pattern c"
  "cd_cycles (convert_windows fp m c) = cd_cycles c" "cd_buflen (convert_windows fp m c) = cd_buflen c" "cd_filter (convert_windows fp m c) = cd_filter c"
  "cd_failures (convert_windows fp m c) = cd_failures c" "cd_sel_a (convert_windows fp m c) = cd_sel_a c"
  "cd_sel_b (convert_windows fp m c) = cd_sel_b c" "cd_sel_scales (convert_windows fp m c) = cd_sel_scales c"
  by (simp_all add: convert_windows_def)

text \<open>C22: with parameters in range and memory, a detector comes out well-formed and at the start of a silence, for every tone;
  only congestion and ringback are refused, and exactly when one of their windows is zero.\<close>

theorem cadence_created:
  assumes p: "params_ok modem (cs_tone s)" and h: "length (tn_x h) = 25" "length (tn_y h) = 25"
  shows "if refused modem (cs_tone s) then cadence_create None True (Some h) s extra modem = Some (None, s)
    else \<exists>c s'. cadence_create None True (Some h) s extra modem = Some (Some c, s') \<and> cadence_ok c \<and>
      cd_state c = CADENCE_IN_SILENCE \<and> cd_n c = 0 \<and> cd_run c = 0 \<and> cd_failures c = 0"
proof -
  obtain th where th: "Get_Detection_Threshold_Table (of_int (ln_param modem GetDialToneDetectionThreshold)) = Some th"
    using threshold_in p by (auto simp: params_ok_def Let_def)
  let ?c = "(zero_cadence modem)\<lparr>cd_modem := modem, cd_use_allpass := 0, cd_continuous := 0, cd_threshold := th, cd_cycles := 100, cd_looped_match := 0\<rparr>"
  obtain c1 index sub mult usable where g: "configure_tone (cs_tone s) modem ?c = (c1, index, sub, mult, usable)"
    by (cases "configure_tone (cs_tone s) modem ?c")
  have "cd_cycles ?c = 100" by simp
  note k = configured [OF p g this]
  let ?c2 = "select_filter index sub c1"
  obtain fp where fp: "GetFP_Value 1 (of_int (cd_buflen c1)) = Some fp" using GetFP_Value_run [of 1 "cd_buflen c1"] k(2,3) by auto
  define c3 where "c3 = final_settings s extra (convert_windows fp mult ?c2)"
  have c3: "cd_sel_a c3 = cd_sel_a ?c2" "cd_sel_b c3 = cd_sel_b ?c2" "cd_sel_scales c3 = cd_sel_scales ?c2" "cd_buflen c3 = cd_buflen c1"
      "cd_filter c3 = None" "cd_on c3 = replicate 60 0" "cd_off c3 = replicate 60 0" "cd_pattern c3 = replicate 4 0" "cd_cycles c3 = cd_cycles c1"
      "cd_failures c3 = 0"
    using k by (simp_all add: c3_def final_settings_def Let_def zero_cadence_def)
  have "tables_ok (cd_sel_a c3) (cd_sel_b c3) (cd_sel_scales c3)" unfolding c3 by (rule select_filter_ok)
  then have "tone_cfg_ok (filter_cfg c3 extra)" "ti_interval (filter_cfg c3 extra) = cd_buflen c1"
    using filter_cfg_ok [of c3 extra] k(2) c3(4) by simp_all
  then obtain t where t: "toneiir_create (cd_filter c3) (Some h) (Some (filter_cfg c3 extra)) = Some (Some t)" "tone_ok t"
    using toneiir_create_run [of "filter_cfg c3 extra" "cd_filter c3" "Some h" h] h k(3) c3(5) by auto
  have run: "cadence_create None True (Some h) s extra modem = (if usable then
      Some (Some (c3\<lparr>cd_filter := Some t, cd_n := 0, cd_state := CADENCE_IN_SILENCE, cd_run := 0,
            cd_int_278 := to_intervals fp (cd_int_278 c3), cd_int_274 := to_intervals fp (cd_int_274 c3), cd_fixed_pattern := 0, cd_int_27c := cs_w3 s\<rparr>),
        s\<lparr>cs_tone := clamped_tone s\<rparr>)
      else Some (None, s))"
    using th g fp t(1) by (simp add: cadence_create_def c3_def [symmetric] Let_def)
  show ?thesis unfolding run k(4) using c3 t(2) k(1) by (auto simp: cadence_ok_def)
qed

subsection \<open>Witnesses\<close>

definition sample_modem_params :: line where
  "sample_modem_params = \<lparr>ln_param = (\<lambda>p. if p = GetDialToneDetectionThreshold then 43 else if p = GetRingbackDetectionCyclesNumber then 2 else 50),
     ln_call = None, ln_set = []\<rparr>"

definition sample_cadence :: cadence where
  "sample_cadence = (zero_cadence sample_modem_params)\<lparr>cd_filter := Some sample_tone, cd_state := CADENCE_IN_SILENCE, cd_cycles := 3,
     cd_min_on := 2, cd_max_on := 9, cd_min_off := 2, cd_max_off := 9, cd_max_silence := 30,
     cd_modem := \<lparr>ln_param = (\<lambda>_. 0), ln_call = None, ln_set = []\<rparr>\<rparr>"

lemma sample_cadence_ok: "cadence_ok sample_cadence" "third_form sample_cadence"
  by (simp_all add: third_form_def cadence_ok_def sample_cadence_def zero_cadence_def sample_tone_def tone_ok_def tone_cfg_ok_def tables_ok_def
      toneiir_get_default_configuration_def list_all_iff)

lemma cadence_stays_ok_witness:
  "\<exists>c' rs. cadence_run sample_cadence [300, -20, 7, 9] = Some (c', rs) \<and> cadence_ok c' \<and> length rs = 4"
  using cadence_stays_ok [OF sample_cadence_ok(1), of "[300, -20, 7, 9]"] by auto

lemma cadence_given_up_witness:
  "\<exists>c'. cadence_run (sample_cadence\<lparr>cd_failures := 10\<rparr>) [300, -20] = Some (c', [CADENCE_RESTART, CADENCE_RESTART])"
  using cadence_given_up [of "sample_cadence\<lparr>cd_failures := 10\<rparr>" "[300, -20]"] sample_cadence_ok(1)
  by (simp add: cadence_ok_def CADENCE_MAX_FAILURES_def numeral_2_eq_2)

lemma steady_cadence_detected_witness:
  "\<exists>c'. hear sample_cadence (cycle 20 4 @ concat (replicate 3 (cycle 5 4))) = Some (c', nothing 58 @ [CADENCE_DETECTED]) \<and> cd_failures c' = 1"
proof -
  have h: "3 = hit_tone sample_cadence 5 20" by (simp add: hit_tone_def sample_cadence_def adiff_def match_tolerance_def zero_cadence_def)
  have c: "cd_state sample_cadence = CADENCE_IN_SILENCE" "cd_n sample_cadence = 0" "cd_run sample_cadence = 0" "cd_failures sample_cadence = 0"
      "fits sample_cadence 5 4"
    by (simp_all add: sample_cadence_def zero_cadence_def fits_def)
  have "cd_failures sample_cadence < CADENCE_MAX_FAILURES" using c(4) by (simp add: CADENCE_MAX_FAILURES_def)
  from steady_cadence_detected [OF sample_cadence_ok(2) c(1-3) this c(5) h] show ?thesis using c(4) by auto
qed

lemma cadence_created_witness:
  "\<exists>c s'. cadence_create None True (Some sample_tone) \<lparr>cs_w3 = 0, cs_tone = CADENCE_TONE_RING, cs_w6 = 0\<rparr> 0 sample_modem_params = Some (Some c, s') \<and> cadence_ok c"
proof -
  have "params_ok sample_modem_params CADENCE_TONE_RING" and r: "\<not> refused sample_modem_params CADENCE_TONE_RING"
    by (simp_all add: params_ok_def refused_def sample_modem_params_def GetDialToneDetectionThreshold_def GetRingbackDetectionCyclesNumber_def
        GetMaxRingbackCadenceOnTime_def GetMinRingbackCadenceOnTime_def GetMaxRingbackCadenceOffTime_def GetMinRingbackCadenceOffTime_def
        CADENCE_TONE_RING_def CADENCE_TONE_BUSY_def CADENCE_TONE_CONG_def Let_def)
  then show ?thesis
    using cadence_created [of sample_modem_params "\<lparr>cs_w3 = 0, cs_tone = CADENCE_TONE_RING, cs_w6 = 0\<rparr>" sample_tone 0]
    by (auto simp: sample_tone_def)
qed

end
