(* ===== verification/Spec2Isabelle.thy ===== *)
theory Spec2Isabelle
  imports FaxFifo Fifo8 Vmi Sdm27 CTools Class1Props V34Rates V90LinkProps DialerProps CadenceProps
begin

text \<open>
  \<^bold>\<open>A verification library for the fax, V.34 and V.90 digital core and the dialling half of the modem DSP library.\<close>

  The repository is a reconstruction in C of a soft-modem's signal-processing library. Its program
  logic, as opposed to its signal processing, is concentrated in the fax side of \<^verbatim>\<open>src/fax\<close>:
  a terminal drives a Class 1 fax session with commands and octets, the session runs a state machine
  once per block of 160 samples, the state machine hands control frames and data to virtual modem
  interfaces, and an interface frames and packs the data for a modulation and unpacks what the
  modulation received. The theories follow that stack from the bottom up, and then the digital path of a V.34
  call in \<^verbatim>\<open>src/pump/v34\<close>: scrambler, framer, shell mapper and the rates of a call, and that
  of a V.90 call in \<^verbatim>\<open>src/pump/v90\<close>: modulus conversion, spectral shaping, mapper and demapper.

  \<^bold>\<open>Conventions.\<close> C integers of fixed width are words (\<open>u8\<close>, \<open>u16\<close>, \<open>u32\<close>,
  read with \<open>uint\<close>, \<open>sint\<close> or \<open>short_of\<close>) wherever the code depends on the width;
  a plain \<open>int\<close> is a HOL integer, its signed overflow being undefined in C. An array is a list,
  read and written with \<open>rd_at\<close> and \<open>wr_at\<close>; an access outside it, a null pointer that is
  dereferenced and a shift wider than its operand are the value \<open>None\<close>, which every later step
  passes on, so a result \<open>Some\<close> says that no such access happened. Diagnostic output is left
  out. Code the model does not translate is an argument: the modulations behind an interface are a
  list of \<open>datapump\<close> records, uninitialised memory is a \<open>raw_memory\<close>, and the tone
  generator, the level meter, the input filter and the modem structures the session reaches into
  are the fields of \<open>class1_env\<close>. The theorems hold for every value of these arguments unless
  they say otherwise.

  \<^bold>\<open>Theories.\<close>

  \<^item> \<open>Prelude\<close>: widths, \<open>rd_at\<close> and \<open>wr_at\<close>, casts, the collections \<open>mem_simps\<close>
    and their lemmas.
  \<^item> \<open>Ring\<close>: the cursor walk every FIFO shares, and the locale \<open>bounded_queue\<close> that
    states what a FIFO promises (first in first out, nothing lost within the capacity).
  \<^item> \<open>FaxFifo\<close> (\<^verbatim>\<open>fifo.c\<close>) and \<open>Fifo8\<close> (\<^verbatim>\<open>src/service/Fifo8.c\<close>): the two
    FIFOs, each an interpretation of \<open>bounded_queue\<close>.
  \<^item> \<open>VmiUtil\<close> (\<^verbatim>\<open>faxvmi_utls.c\<close>, \<^verbatim>\<open>reversedchars.c\<close>, \<^verbatim>\<open>T30frames.c\<close>): the
    frame check sequence is the CRC of polynomial division, its residue and the bursts it detects;
    the bit reversals are involutions.
  \<^item> \<open>VmiRing\<close> (\<^verbatim>\<open>faxvmififo.c\<close>): the state of an interface and its ring writers, which
    refine appending whole frames.
  \<^item> \<open>VmiCodec\<close>, \<open>VmiBits\<close>, \<open>VmiOctets\<close> (\<^verbatim>\<open>faxvmi_pack.c\<close>,
    \<^verbatim>\<open>faxvmi_asyc.c\<close>): the packing and unpacking loops, what they do to a stream of bits
    (locales \<open>bit_source\<close> and \<open>word_source\<close>, interpreted on the three codecs), and the round
    trips of the transparent and the asynchronous codec.
  \<^item> \<open>VmiHdlc\<close>, \<open>VmiHdlcRx\<close> (\<^verbatim>\<open>faxvmi_hdlc.c\<close>): flags, zero insertion and removal,
    check sequence and delivery. A frame sent is delivered, whatever follows it; a frame delivered
    has passed the check; and where the receiver's scan can leave its ring.
  \<^item> \<open>Vmi\<close> (\<^verbatim>\<open>faxvmi.c\<close>, \<^verbatim>\<open>faxvmi_null.c\<close>, \<^verbatim>\<open>faxcfg.c\<close>): construction,
    the block call, control, status, messages and destruction of an interface. Construction and
    control make every codec ready, the directions do not disturb each other, destruction frees
    what construction allocated, and a looped-back interface returns its data.
  \<^item> \<open>Scrambler\<close> (\<^verbatim>\<open>SDM.c\<close>, \<^verbatim>\<open>fpm_sdm.c\<close>, \<^verbatim>\<open>V32Sdm_tx.c\<close>,
    \<^verbatim>\<open>V32Sdm_rx.c\<close>) and \<open>Sdm27\<close> (\<^verbatim>\<open>V27_SDM.c\<close>): the scramblers and
    descramblers, over the locales \<open>scrambler_lock\<close> and \<open>scrambler_pair\<close>: inverse from equal
    states, self-synchronising, of bounded error extension; the multi-bit path of the V.27 pair
    equals the bit path.
  \<^item> \<open>CTools\<close> (\<^verbatim>\<open>cTOOLS.c\<close>): escaping of data and frames between terminal and modem and
    the alignment of received data.
  \<^item> \<open>Class1State\<close>, \<open>Class1Modem\<close>, \<open>Class1Handlers\<close>, \<open>Class1\<close>
    (\<^verbatim>\<open>class1.c\<close>, \<^verbatim>\<open>class1rx.c\<close>, \<^verbatim>\<open>class1tx.c\<close>, \<^verbatim>\<open>cDATArx.c\<close>,
    \<^verbatim>\<open>cDATAtx.c\<close>, \<^verbatim>\<open>cHDLCrx.c\<close>, \<^verbatim>\<open>cHDLCtx.c\<close>): the session record
    \<open>fax_class1\<close>, the choice of the data modem, the nineteen handlers, and construction, command,
    block call, status and destruction of a session.
  \<^item> \<open>Class1Inv\<close>: the invariant of a session, by the locale \<open>handler_table\<close> over the
    handlers of the table, and the reachable sessions as the inductive predicate \<open>class1_reach\<close>.
  \<^item> \<open>Class1Props\<close>: what a session does for its caller: reachable sessions are well formed,
    kept frames are replayed in order, data reaches the modulator in order, silences have their
    length, destruction frees each block once.
  \<^item> \<open>V34Scram\<close> (\<^verbatim>\<open>src/pump/v34/v34scram.c\<close>): the V.34 scramblers, sixteen bits at a
    time, against the serial recurrence of the recommendation; they synchronise themselves.
  \<^item> \<open>V34Shell\<close> (\<^verbatim>\<open>v34shell.c\<close>): the contexts of the shell mapper, their count tables and
    the mapping both ways. \<open>V34Count\<close>: counting tuples by their sum. \<open>V34Table\<close>: the stored
    table is that count, by evaluation. \<open>V34ShellMap\<close>, \<open>V34ShellTrip\<close>,
    \<open>V34ShellProps\<close>: a context holds the counts, mapping and demapping are inverse, in the order
    of the sums, and every context \<^verbatim>\<open>initV34\<close> sets up fits its width.
  \<^item> \<open>V34Frame\<close>, \<open>V34FrameTx\<close>: both framers, and the read position as an invariant: the fields
    of a frame are the next bits of the line. \<open>V34Link\<close>, \<open>V34LinkProps\<close>: two ends with a
    perfect channel deliver the words sent.
  \<^item> \<open>V34Rates\<close>: the rates of a call (\<^verbatim>\<open>initdigital\<close>), as the best both ends allow.
  \<^item> \<open>G711\<close> (\<^verbatim>\<open>src/service/pcm.c\<close>): the companding laws, exact on codes, and their error
    on samples.
  \<^item> \<open>CLoops\<close>: counted loops over a state, their invariant rule, and loops that fill an array.
  \<^item> \<open>V90Coders\<close> (\<^verbatim>\<open>DiffCoder.h\<close>, \<^verbatim>\<open>V90ModulusEncoder.cpp\<close>,
    \<^verbatim>\<open>V90ModulusDecoder.cpp\<close>): differential coders and modulus conversion, which is mixed-radix
    notation over the row sizes.
  \<^item> \<open>V90Signs\<close> (\<^verbatim>\<open>V90SpectralShaper.cpp\<close>, \<^verbatim>\<open>V90SpectralShapingFilter.cpp\<close>,
    \<^verbatim>\<open>V90SignBitsExtractor.cpp\<close>): spectral shaping and the extraction of sign bits.
    \<open>V90SignsTx\<close> and \<open>V90SignsRx\<close>: one block through each; the trellis only chooses among the two
    actions of its state, and the extractor sees which. \<open>V90Stream\<close>: the contract of the two on streams of
    blocks, the relation \<open>carries\<close>, and the blocks the shaper holds back.
  \<^item> \<open>V90Mapper\<close>, \<open>V90MapperTx\<close> (\<^verbatim>\<open>V90Mapper.cpp\<close>) and \<open>V90Demapper\<close>,
    \<open>V90Decide\<close>, \<open>V90Link\<close> (\<^verbatim>\<open>V90Demapper.cpp\<close>): a mapper turns frames of bits into such
    a stream, a demapper decides the levels and takes the bits back. \<open>V90Reset\<close>: what both resets leave.
    \<open>V90LinkProps\<close>: mapper and demapper with the same parameters deliver the bits.
  \<^item> \<open>Pulse\<close> (the pulse half of \<^verbatim>\<open>src/call/call.c\<close>): the pulse dialler; a digit as a train
    of interruptions, and the ones that come out short.
  \<^item> \<open>Dialer\<close> (\<^verbatim>\<open>src/dialer\<close>): configuration, the grading of a string, creation, and the
    generator with its states. \<open>DialerPlay\<close>: the plan of a string, what it asks for item by item, and the
    proof that every round of the generator moves through it. \<open>DialerProps\<close>: a tone dialler plays its plan,
    however its caller cuts the buffers, and what creation does at the length limit.
  \<^item> \<open>ToneIir\<close> (\<^verbatim>\<open>src/callprog/toneiir.c\<close> and two functions of
    \<^verbatim>\<open>src/dsp/FP_math.c\<close>): the tone filter, when it answers and what its counters mean.
    \<open>CpFilters\<close> (\<^verbatim>\<open>CPfiltrs.c\<close>, \<^verbatim>\<open>Elliptic1.c\<close> to \<^verbatim>\<open>Elliptic3.c\<close>): its
    designs. \<open>Cadence\<close> (\<^verbatim>\<open>Cadence.c\<close>): creation of a cadence detector, its comparisons and its
    verdicts. \<open>CadenceProps\<close>: a detector stays inside its arrays, recognises a steady cadence at the tone its
    settings say, and never recovers from giving up by itself.

  \<^bold>\<open>Loops and fuel.\<close> Counted loops are structural recursions on the count. The packing and
  unpacking loops end by a measure on the elements left. The receiver's scan over the records of its
  ring, \<open>hdlc_walk\<close>, has fuel \<open>fifo_size + 2\<close>: each round consumes at least one element or ends,
  so the fuel runs out only where the C loop has read more than the ring holds. The scan over kept
  frames, \<open>emu_parse\<close>, ends because each record advances the index.

  The demapper's loop over frames has as fuel the number of samples and one more, each round taking six. The
  refill loop of the V.34 framer is a partial function that is shown to return, and the generator of the dialler one that is shown to return on tone strings;
  the dialler's scan has one round more than its string has cells; the subtractions of \<^verbatim>\<open>GetFP_Value\<close> are a partial
  function that returns unless the divisor is zero; the shell mapper's
  walks end because the second pointer counts down.

  \<^bold>\<open>What is not modelled.\<close> The trellis decoder, precoder and constellation lookup of
  \<^verbatim>\<open>v34shell.c\<close> (\<^verbatim>\<open>decodeDepth\<close>, \<^verbatim>\<open>demapFrame\<close>, the symbol half of
  \<^verbatim>\<open>modulatevector\<close>): the theorem about a whole link has a perfect channel in their place.
  The handshakes. Of V.90 the equaliser, the impairment detector and the constellation design; the demapper
  takes the detector's levels as the record \<open>impairments\<close>, and its floating-point study of them
  (\<^verbatim>\<open>linearMappingStudy\<close>, \<^verbatim>\<open>updateConstelation\<close>) is left out. Floating-point
  arithmetic of the spectral shaper is the argument \<open>fparith\<close>, of which the theorem on the
  link only assumes that from every state the filter reaches after its reset the metrics are below the start
  value of the search (\<open>bounded_metrics\<close>). The modulations and filters (\<^verbatim>\<open>src/dsp\<close>, \<^verbatim>\<open>src/pump\<close>,
  the \<^verbatim>\<open>V17\<close> to \<^verbatim>\<open>V29\<close> files of \<^verbatim>\<open>src/fax\<close>), whose correctness is numeric;
  the service glue that opens and closes them (\<^verbatim>\<open>fax.c\<close>, the datapump half of \<^verbatim>\<open>src/call\<close>,
  \<^verbatim>\<open>src/voice\<close>, \<^verbatim>\<open>src/service\<close> but for its FIFO and the companding); the tests, tools and documents.
  Heap addresses: a block is known by the pointer that owns it.
\<close>

end
